(* ===== verification/Prelude.thy ===== *)
theory Prelude
  imports Main "HOL-Library.Word"
begin

text \<open>
  Prelude of the development: what the source language gives every component.
  \<^item> \<open>go_panic\<close> and the result type \<open>'a go\<close>: a run-time panic is the left summand, a
    returned value the right one; \<open>rbind\<close> sequences two such computations.
  \<^item> Slices are lists; \<open>slice_get\<close>, \<open>slice_set\<close>, \<open>go_slice\<close>, \<open>go_make\<close> and
    \<open>copy_at\<close> are \<^verbatim>\<open>s[i]\<close>, \<^verbatim>\<open>s[i] = v\<close>, \<^verbatim>\<open>s[i:j]\<close>, \<^verbatim>\<open>make\<close> and \<^verbatim>\<open>copy\<close>, with
    the bounds checks of the language written out.
  \<^item> \<open>wrap64\<close> is the wrap-around of the 64-bit \<^verbatim>\<open>int\<close>; \<open>and_pow2\<close> turns the bitwise
    modulus \<^verbatim>\<open>x & (n - 1)\<close> into \<open>mod\<close> when \<open>n\<close> is a power of two.
  \<^item> \<open>swap_list\<close>: the exchange of two elements of a slice, and its lemmas.
\<close>

unbundle bit_operations_syntax

named_theorems go_simps \<open>equations of the panic monad and of slice operations in range\<close>

section \<open>Panics and results\<close>

datatype go_panic =
    IndexOutOfRange
  | SliceOutOfRange
  | MakeNegative
  | NilDereference
  | NilMapWrite
  | DivideByZero
  | TypeAssertion
  | PanicMsg string

type_synonym 'a go = "go_panic + 'a"

definition rbind :: "'e + 'a \<Rightarrow> ('a \<Rightarrow> 'e + 'b) \<Rightarrow> 'e + 'b" where
  "rbind m f = (case m of Inl e \<Rightarrow> Inl e | Inr x \<Rightarrow> f x)"

lemma rbind_simps [simp, go_simps]:
  "rbind (Inl e) f = Inl e"
  "rbind (Inr x) f = f x"
  by (simp_all add: rbind_def)

lemma rbind_eq_Inr_iff: "rbind m f = Inr y \<longleftrightarrow> (\<exists>x. m = Inr x \<and> f x = Inr y)"
  by (cases m) simp_all

lemma rbind_if [go_simps]: "rbind (if b then m else m') f = (if b then rbind m f else rbind m' f)"
  by simp

section \<open>Slices\<close>

definition slice_get :: "'a list \<Rightarrow> int \<Rightarrow> 'a go" where
  "slice_get b i = (if 0 \<le> i \<and> i < int (length b) then Inr (b ! nat i) else Inl IndexOutOfRange)"

definition slice_set :: "'a list \<Rightarrow> int \<Rightarrow> 'a \<Rightarrow> 'a list go" where
  "slice_set b i v = (if 0 \<le> i \<and> i < int (length b) then Inr (b[nat i := v]) else Inl IndexOutOfRange)"

definition go_slice :: "'a list \<Rightarrow> int \<Rightarrow> int \<Rightarrow> 'a list go" where
  "go_slice b i j =
     (if 0 \<le> i \<and> i \<le> j \<and> j \<le> int (length b)
      then Inr (take (nat (j - i)) (drop (nat i) b)) else Inl SliceOutOfRange)"

text \<open>
  \<^verbatim>\<open>make([]T, n)\<close>. The limit of the memory is not modelled: every length that is not negative can be had.
\<close>

definition go_make :: "'a \<Rightarrow> int \<Rightarrow> 'a list go" where
  "go_make z n = (if n < 0 then Inl MakeNegative else Inr (replicate (nat n) z))"

text \<open>\<^verbatim>\<open>copy(dst[pos:], src)\<close>: as many elements as fit, the rest of \<^verbatim>\<open>dst\<close> kept.\<close>

definition copy_at :: "'a list \<Rightarrow> nat \<Rightarrow> 'a list \<Rightarrow> 'a list" where
  "copy_at dst pos src =
     take pos dst @ take (length dst - pos) src @ drop (pos + length src) dst"

lemma slice_get_ok [go_simps]: "i < length b \<Longrightarrow> slice_get b (int i) = Inr (b ! i)"
  by (simp add: slice_get_def)

lemma slice_set_ok [go_simps]: "i < length b \<Longrightarrow> slice_set b (int i) v = Inr (b[i := v])"
  by (simp add: slice_set_def)

lemma go_slice_ok [go_simps]:
  "i \<le> j \<Longrightarrow> j \<le> length b \<Longrightarrow> go_slice b (int i) (int j) = Inr (take (j - i) (drop i b))"
  by (auto simp: go_slice_def nat_diff_distrib)

lemma go_make_ok [go_simps]: "go_make z (int n) = Inr (replicate n z)"
  by (simp add: go_make_def)

lemma slice_get_out: "i < 0 \<or> int (length b) \<le> i \<Longrightarrow> slice_get b i = Inl IndexOutOfRange"
  by (auto simp: slice_get_def)

lemma length_copy_at [simp]: "length (copy_at dst pos src) = length dst"
  by (auto simp: copy_at_def min_def)

section \<open>Machine integers\<close>

definition wrap64 :: "int \<Rightarrow> int" where
  "wrap64 x = signed_take_bit 63 x"

lemma wrap64_id: "- (2 ^ 63) \<le> x \<Longrightarrow> x < 2 ^ 63 \<Longrightarrow> wrap64 x = x"
  by (simp add: wrap64_def signed_take_bit_int_eq_self)

lemma wrap64_nonneg: "0 \<le> x \<Longrightarrow> x < 2 ^ 63 \<Longrightarrow> wrap64 x = x"
  by (rule wrap64_id) linarith

lemma wrap64_range: "- (2 ^ 63) \<le> wrap64 x" "wrap64 x < 2 ^ 63"
  by (simp_all only: wrap64_def signed_take_bit_int_greater_eq_minus_exp signed_take_bit_int_less_exp)

lemma wrap64_wrap64 [simp]: "wrap64 (wrap64 x) = wrap64 x"
  by (rule wrap64_id) (rule wrap64_range)+

lemma wrap64_shl1:
  "wrap64 (push_bit e 1) = (if e < 63 then 2 ^ e else if e = 63 then - (2 ^ 63) else 0)"
proof -
  consider "e < 63" | "e = 63" | "64 \<le> e" by linarith
  then show ?thesis
  proof cases
    case 1
    then have "(2::int) ^ e < 2 ^ 63" by (intro power_strict_increasing) simp_all
    then show ?thesis using 1 by (subst wrap64_nonneg) (simp_all add: push_bit_eq_mult)
  next
    case 2
    have "wrap64 (push_bit 63 1) = - (2 ^ 63)" by code_simp
    with 2 show ?thesis by simp
  next
    case 3
    then have "(2::int) ^ e = 2 ^ 64 * 2 ^ (e - 64)"
      using power_add [of "2::int" 64 "e - 64"] by simp
    then have "take_bit 64 ((2::int) ^ e) = 0" by (simp add: take_bit_eq_mod)
    then have "signed_take_bit 63 ((2::int) ^ e) = signed_take_bit 63 0"
      using signed_take_bit_eq_iff_take_bit_eq [of 63 "(2::int) ^ e" 0] by simp
    with 3 show ?thesis by (simp add: wrap64_def push_bit_eq_mult)
  qed
qed

lemma and_pow2: "x AND (2 ^ k - 1) = x mod (2 ^ k :: int)"
  by (simp add: take_bit_eq_mod [symmetric] take_bit_eq_mask mask_eq_exp_minus_1)

lemma int_pow2: "int n = 2 ^ k \<longleftrightarrow> n = 2 ^ k"
  by (metis of_nat_eq_iff of_nat_numeral of_nat_power)

text \<open>The bitwise modulus on a position, given as a natural number, of a buffer of \<open>2 ^ k\<close> cells.\<close>

lemma and_len_nat:
  assumes "n = (2::nat) ^ k"
  shows "int a AND (int n - 1) = int (a mod n)"
  by (simp add: assms and_pow2 zmod_int)

lemma and_len_prev:
  assumes "n = (2::nat) ^ k"
  shows "(int a - 1) AND (int n - 1) = int ((a + n - 1) mod n)"
proof -
  have n: "0 < n" using assms by simp
  have "(int a - 1) AND (int n - 1) = (int a - 1) mod int n"
    by (simp add: assms and_pow2)
  also have "\<dots> = (int a - 1 + int n) mod int n" by simp
  also have "int a - 1 + int n = int (a + n - 1)" using n by linarith
  finally show ?thesis by (simp add: zmod_int)
qed

text \<open>Integer division of the language truncates towards zero.\<close>

definition go_div :: "int \<Rightarrow> int \<Rightarrow> int" where
  "go_div a b = sgn a * sgn b * (\<bar>a\<bar> div \<bar>b\<bar>)"

definition go_rem :: "int \<Rightarrow> int \<Rightarrow> int" where
  "go_rem a b = sgn a * (\<bar>a\<bar> mod \<bar>b\<bar>)"

lemma go_div_nonneg: "0 \<le> a \<Longrightarrow> 0 < b \<Longrightarrow> go_div a b = a div b"
  by (auto simp: go_div_def sgn_if)

lemma div_less_bound: "0 < (b::int) \<Longrightarrow> a < n * b \<Longrightarrow> a div b < n"
proof (rule ccontr)
  assume a: "0 < b" "a < n * b" "\<not> a div b < n"
  then have "n * b \<le> a div b * b" by (intro mult_right_mono) auto
  also have "\<dots> \<le> a" using a(1) div_mult_mod_eq [of a b] pos_mod_sign [of b a] by linarith
  finally show False using a(2) by simp
qed

lemma go_div_rem: "b \<noteq> 0 \<Longrightarrow> go_div a b * b + go_rem a b = a"
proof -
  assume b: "b \<noteq> 0"
  have "go_div a b * b = sgn a * (\<bar>a\<bar> div \<bar>b\<bar> * \<bar>b\<bar>)"
    by (simp add: go_div_def abs_sgn [of b])
  then have "go_div a b * b + go_rem a b = sgn a * (\<bar>a\<bar> div \<bar>b\<bar> * \<bar>b\<bar> + \<bar>a\<bar> mod \<bar>b\<bar>)"
    by (simp only: go_rem_def distrib_left)
  also have "\<dots> = sgn a * \<bar>a\<bar>" by simp
  finally show ?thesis by (simp add: sgn_mult_abs)
qed

lemma go_rem_abs_less: "0 < b \<Longrightarrow> \<bar>go_rem a b\<bar> < b"
  by (cases "a = 0") (auto simp: go_rem_def abs_mult abs_sgn_eq)

lemma go_rem_mod: "0 < b \<Longrightarrow> go_rem a b mod b = a mod b"
  using go_div_rem [of b a] by (metis add.commute less_irrefl mod_mult_self1 mult.commute)

definition go_mod :: "int \<Rightarrow> int \<Rightarrow> int go" where
  "go_mod a b = (if b = 0 then Inl DivideByZero else Inr (go_rem a b))"

lemma go_mod_nat: "0 < l \<Longrightarrow> go_mod (int a) (int l) = Inr (int (a mod l))"
  by (auto simp: go_mod_def go_rem_def zmod_int abs_if sgn_if)

lemma go_mod_Suc: "0 < l \<Longrightarrow> go_mod (int a + 1) (int l) = Inr (int (Suc a mod l))"
  using go_mod_nat [of l "Suc a"] by (simp add: add.commute)

definition wrap32 :: "int \<Rightarrow> int" where
  "wrap32 x = signed_take_bit 31 x"

lemma wrap32_id: "- (2 ^ 31) \<le> x \<Longrightarrow> x < 2 ^ 31 \<Longrightarrow> wrap32 x = x"
  by (simp add: wrap32_def signed_take_bit_int_eq_self)

section \<open>Exchanging two elements\<close>

definition swap_list :: "'a list \<Rightarrow> nat \<Rightarrow> nat \<Rightarrow> 'a list" where
  "swap_list xs i j = xs[i := xs ! j, j := xs ! i]"

lemma length_swap_list [simp]: "length (swap_list xs i j) = length xs"
  by (simp add: swap_list_def)

lemma nth_swap_list:
  "i < length xs \<Longrightarrow> j < length xs \<Longrightarrow> k < length xs \<Longrightarrow>
   swap_list xs i j ! k = (if k = i then xs ! j else if k = j then xs ! i else xs ! k)"
  by (auto simp: swap_list_def nth_list_update)


definition slice_swap :: "'a list \<Rightarrow> int \<Rightarrow> int \<Rightarrow> 'a list go" where
  "slice_swap b i j =
     rbind (slice_get b j) (\<lambda>x.
     rbind (slice_get b i) (\<lambda>y.
     rbind (slice_set b i x) (\<lambda>b'. slice_set b' j y)))"

lemma slice_swap_ok [go_simps]:
  "i < length b \<Longrightarrow> j < length b \<Longrightarrow> slice_swap b (int i) (int j) = Inr (swap_list b i j)"
  by (simp add: slice_swap_def slice_get_ok slice_set_ok swap_list_def)

text \<open>Moving one element by exchanges with its neighbours, upwards and downwards.\<close>

fun bubble_up :: "'a list \<Rightarrow> nat \<Rightarrow> nat \<Rightarrow> 'a list" where
  "bubble_up xs i 0 = xs"
| "bubble_up xs i (Suc n) = bubble_up (swap_list xs i (i + 1)) (i + 1) n"

fun bubble_down :: "'a list \<Rightarrow> nat \<Rightarrow> nat \<Rightarrow> 'a list" where
  "bubble_down xs i 0 = xs"
| "bubble_down xs i (Suc n) = bubble_down (swap_list xs i (i - 1)) (i - 1) n"

lemma swap_list_adjacent:
  "length as = i \<Longrightarrow> swap_list (as @ x # y # bs) i (Suc i) = as @ y # x # bs"
  by (simp add: swap_list_def nth_append list_update_append)

lemma swap_list_commute: "swap_list xs i j = swap_list xs j i"
  by (cases "i = j") (simp_all add: swap_list_def list_update_swap)

lemma bubble_up_move:
  "length as = i \<Longrightarrow> bubble_up (as @ x # bs @ cs) i (length bs) = as @ bs @ x # cs"
proof (induction bs arbitrary: as i)
  case Nil
  then show ?case by simp
next
  case (Cons b bs)
  show ?case
    using Cons.IH [of "as @ [b]" "Suc i"] Cons.prems by (simp add: swap_list_adjacent)
qed

lemma bubble_down_move:
  "length as + length bs = i \<Longrightarrow> bubble_down (as @ bs @ x # cs) i (length bs) = as @ x # bs @ cs"
proof (induction bs arbitrary: cs i rule: rev_induct)
  case Nil
  then show ?case by simp
next
  case (snoc b bs)
  then obtain j where j: "i = Suc j" "length (as @ bs) = j" by auto
  have "swap_list (as @ bs @ b # x # cs) i j = as @ bs @ x # b # cs"
    using swap_list_adjacent [OF j(2), of b x cs] j(1) by (simp add: swap_list_commute)
  with snoc.IH [of j "b # cs"] j show ?case by simp
qed

end
