(* ===== verification/RingQueue.thy ===== *)
theory RingQueue
  imports Prelude
begin

text \<open>
  What the circular buffers of the repository share. \<open>ring_list b h n\<close> reads \<open>n\<close> elements
  of the buffer \<open>b\<close> from position \<open>h\<close> on, wrapping around: the abstraction function of
  every ring queue. The lemmas of the first section say what a write, a moved head and a
  copy into a fresh buffer do to that view.
  The locale \<open>fifo_queue\<close> is the contract of an unbounded first-in first-out queue and
  \<open>bounded_queue\<close> that of one with a capacity; their theorem is that any sequence of
  operations answers as the same sequence on a list would.
\<close>

section \<open>Reading a circular buffer\<close>

definition ring_list :: "'a list \<Rightarrow> nat \<Rightarrow> nat \<Rightarrow> 'a list" where
  "ring_list b h n = map (\<lambda>i. b ! ((h + i) mod length b)) [0..<n]"

lemma length_ring_list [simp]: "length (ring_list b h n) = n"
  by (simp add: ring_list_def)

lemma nth_ring_list [simp]: "i < n \<Longrightarrow> ring_list b h n ! i = b ! ((h + i) mod length b)"
  by (simp add: ring_list_def)

lemma ring_list_0 [simp]: "ring_list b h 0 = []"
  by (simp add: ring_list_def)

lemma ring_index_inj:
  assumes "i < l" "j < l"
  shows "(h + i) mod l = (h + j) mod l \<longleftrightarrow> i = (j::nat)"
proof
  assume eq: "(h + i) mod l = (h + j) mod l"
  have aux: "\<And>a b. a \<le> b \<Longrightarrow> b < l \<Longrightarrow> (h + a) mod l = (h + b) mod l \<Longrightarrow> a = (b::nat)"
  proof -
    fix a b :: nat assume ab: "a \<le> b" "b < l" "(h + a) mod l = (h + b) mod l"
    then have "l dvd b - a" using mod_eq_dvd_iff_nat [of "h + a" "h + b" l] by simp
    moreover have "b - a < l" using ab by simp
    ultimately have "b - a = 0" using nat_dvd_not_less by fastforce
    with ab show "a = b" by simp
  qed
  show "i = j"
    using aux [of i j] aux [of j i] assms eq by (cases "i \<le> j") auto
qed simp

lemma ring_index_shift [simp]: "(Suc h mod l + i) mod l = Suc (h + i) mod l"
  by (simp add: mod_add_left_eq)

lemma ring_index_shift2 [simp]: "Suc (Suc h mod l + i) mod l = Suc (Suc (h + i)) mod l"
  by (metis mod_Suc_eq ring_index_shift)

lemma ring_index_back:
  assumes "0 < l"
  shows "((h + l - 1) mod l + Suc i) mod l = (h + i) mod (l::nat)"
proof -
  have "((h + l - 1) mod l + Suc i) mod l = (h + l - 1 + Suc i) mod l"
    by (rule mod_add_left_eq)
  also have "h + l - 1 + Suc i = (h + i) + l" using assms by simp
  finally show ?thesis by simp
qed

lemma ring_index_pred:
  assumes "0 < l" "0 < a"
  shows "(a mod l + l - 1) mod l = (a - 1) mod (l::nat)"
proof -
  have "(a mod l + (l - 1)) mod l = (a + (l - 1)) mod l" by (rule mod_add_left_eq)
  also have "a + (l - 1) = (a - 1) + l" using assms by linarith
  also have "((a - 1) + l) mod l = (a - 1) mod l" by (rule mod_add_self2)
  finally have "(a mod l + (l - 1)) mod l = (a - 1) mod l" .
  moreover have "a mod l + l - 1 = a mod l + (l - 1)" using assms(1) by linarith
  ultimately show ?thesis by (simp only:)
qed

lemma ring_list_push_back:
  assumes "n < length b"
  shows "ring_list (b[(h + n) mod length b := x]) h (Suc n) = ring_list b h n @ [x]"
proof (rule nth_equalityI)
  fix i assume "i < length (ring_list (b[(h + n) mod length b := x]) h (Suc n))"
  then have i: "i < Suc n" by simp
  have l: "0 < length b" using assms by linarith
  have "(h + i) mod length b = (h + n) mod length b \<longleftrightarrow> i = n"
    by (rule ring_index_inj) (use i assms in auto)
  then show "ring_list (b[(h + n) mod length b := x]) h (Suc n) ! i = (ring_list b h n @ [x]) ! i"
    using i l by (auto simp: nth_append nth_list_update)
qed simp

lemma ring_list_update:
  assumes "i < n" "n \<le> length b"
  shows "ring_list (b[(h + i) mod length b := x]) h n = (ring_list b h n)[i := x]"
proof (rule nth_equalityI)
  fix j assume "j < length (ring_list (b[(h + i) mod length b := x]) h n)"
  then have j: "j < n" by simp
  have l: "0 < length b" using assms by linarith
  have "(h + j) mod length b = (h + i) mod length b \<longleftrightarrow> j = i"
    by (rule ring_index_inj) (use j assms in auto)
  then show "ring_list (b[(h + i) mod length b := x]) h n ! j = (ring_list b h n)[i := x] ! j"
    using j l by (auto simp: nth_list_update)
qed simp

lemma ring_list_Suc: "ring_list b h (Suc n) = b ! (h mod length b) # ring_list b ((h + 1) mod length b) n"
  by (rule nth_equalityI) (auto simp: nth_Cons split: nat.splits)

lemma ring_list_snoc: "ring_list b h (Suc n) = ring_list b h n @ [b ! ((h + n) mod length b)]"
  by (simp add: ring_list_def)

lemma ring_list_outside:
  assumes "n \<le> i" "i < length b"
  shows "ring_list (b[(h + i) mod length b := z]) h n = ring_list b h n"
proof (rule nth_equalityI)
  fix j assume "j < length (ring_list (b[(h + i) mod length b := z]) h n)"
  then have j: "j < n" by simp
  have "(h + j) mod length b = (h + i) mod length b \<longleftrightarrow> j = i"
    by (rule ring_index_inj) (use j assms in auto)
  with j assms have "(h + j) mod length b \<noteq> (h + i) mod length b" by simp
  then show "ring_list (b[(h + i) mod length b := z]) h n ! j = ring_list b h n ! j"
    using j by simp
qed simp

lemma ring_list_push_front:
  assumes "n < length b"
  shows "ring_list (b[(h + length b - 1) mod length b := x]) ((h + length b - 1) mod length b) (Suc n)
         = x # ring_list b h n"
proof -
  let ?l = "length b" and ?p = "(h + length b - 1) mod length b"
  have l: "0 < ?l" using assms by linarith
  have hp: "\<And>i. Suc (?p + i) mod ?l = (h + i) mod ?l" using ring_index_back [OF l, of h] by simp
  have pi: "?p = (h + (?l - 1)) mod ?l" using l by (simp add: Nat.add_diff_assoc Suc_leI)
  have "ring_list (b[?p := x]) ?p (Suc n) = b[?p := x] ! (?p mod ?l) # ring_list (b[?p := x]) ((?p + 1) mod ?l) n"
    using ring_list_Suc [of "b[?p := x]" ?p n] by simp
  also have "b[?p := x] ! (?p mod ?l) = x" using l by simp
  also have "ring_list (b[?p := x]) ((?p + 1) mod ?l) n = ring_list (b[?p := x]) h n"
    by (rule nth_equalityI) (use hp in simp_all)
  also have "\<dots> = ring_list b h n"
    using ring_list_outside [of n "?l - 1" b h x] assms by (simp only: pi)
  finally show ?thesis .
qed

lemma ring_list_pop_front:
  assumes "0 < n" "n \<le> length b" "h < length b"
  shows "ring_list (b[h := z]) ((h + 1) mod length b) (n - 1) = tl (ring_list b h n)"
proof -
  obtain m where n: "n = Suc m" using assms(1) by (cases n) auto
  have "ring_list (b[h := z]) ((h + 1) mod length b) m = ring_list b ((h + 1) mod length b) m"
  proof (rule nth_equalityI)
    fix j assume "j < length (ring_list (b[h := z]) ((h + 1) mod length b) m)"
    then have j: "j < m" by simp
    have "(h + Suc j) mod length b = (h + 0) mod length b \<longleftrightarrow> Suc j = 0"
      by (rule ring_index_inj) (use j n assms in auto)
    then have "(h + Suc j) mod length b \<noteq> h" using assms by simp
    then show "ring_list (b[h := z]) ((h + 1) mod length b) m ! j = ring_list b ((h + 1) mod length b) m ! j"
      using j by simp
  qed simp
  with n show ?thesis by (simp add: ring_list_Suc)
qed

lemma ring_list_pop_back:
  assumes "0 < n" "n \<le> length b"
  shows "ring_list (b[(h + n - 1) mod length b := z]) h (n - 1) = butlast (ring_list b h n)"
proof -
  obtain m where n: "n = Suc m" using assms(1) by (cases n) auto
  show ?thesis
    using ring_list_outside [of m m b h z] assms by (simp add: n ring_list_snoc)
qed

lemma ring_list_hd: "0 < n \<Longrightarrow> h < length b \<Longrightarrow> hd (ring_list b h n) = b ! h"
  by (cases n) (simp_all add: ring_list_Suc)

lemma ring_list_last: "0 < n \<Longrightarrow> last (ring_list b h n) = b ! ((h + n - 1) mod length b)"
  by (cases n) (simp_all add: ring_list_snoc)

text \<open>The two parts a resize copies, before and after the end of the buffer.\<close>

lemma ring_list_unwrapped:
  "h + n \<le> length b \<Longrightarrow> ring_list b h n = take n (drop h b)"
  by (rule nth_equalityI) auto

lemma ring_list_wrapped:
  assumes "length b \<le> h + n" "n \<le> length b" "h < length b"
  shows "ring_list b h n = drop h b @ take (h + n - length b) b"
proof (rule nth_equalityI)
  fix i assume "i < length (ring_list b h n)"
  then have i: "i < n" by simp
  show "ring_list b h n ! i = (drop h b @ take (h + n - length b) b) ! i"
  proof (cases "i < length b - h")
    case True
    with assms i show ?thesis by (simp add: nth_append)
  next
    case False
    have "(h + i) mod length b = h + i - length b"
      using False assms i by (simp add: le_mod_geq)
    with False assms i show ?thesis by (simp add: nth_append add.commute)
  qed
qed (use assms in auto)

lemma ring_list_prefix: "n \<le> length b \<Longrightarrow> ring_list b 0 n = take n b"
  by (rule nth_equalityI) auto

text \<open>
  The body \<^verbatim>\<open>Queue.resize\<close> and \<^verbatim>\<open>Deque.resize\<close> share: a buffer of twice the count, the
  elements copied to its front in one or two pieces.
\<close>

definition ring_grow :: "'a \<Rightarrow> 'a list \<Rightarrow> int \<Rightarrow> int \<Rightarrow> int \<Rightarrow> 'a list go" where
  "ring_grow z b h t c =
     rbind (go_make z (push_bit 1 c)) (\<lambda>newBuf.
     if h < t then rbind (go_slice b h t) (\<lambda>s. Inr (copy_at newBuf 0 s))
     else
       rbind (go_slice b h (int (length b))) (\<lambda>s.
       let n = min (length newBuf) (length s); newBuf1 = copy_at newBuf 0 s in
       rbind (go_slice b 0 t) (\<lambda>s'. Inr (copy_at newBuf1 n s'))))"

lemma ring_grow_ok:
  assumes "h < length b" "0 < c" "c \<le> length b"
  shows "ring_grow z b (int h) (int ((h + c) mod length b)) (int c)
         = Inr (ring_list b h c @ replicate c z)"
proof (cases "h + c < length b")
  case True
  with assms go_slice_ok [of h "h + c" b] show ?thesis
    by (simp add: ring_grow_def go_simps ring_list_unwrapped copy_at_def push_bit_eq_mult
        nat_mult_distrib go_make_def)
next
  case False
  then have t: "(h + c) mod length b = h + c - length b"
    using assms by (simp add: le_mod_geq)
  have sl: "go_slice b (int h) (int (length b)) = Inr (drop h b)"
    "go_slice b 0 (int (h + c - length b)) = Inr (take (h + c - length b) b)"
    using assms False go_slice_ok [of h "length b" b] go_slice_ok [of 0 "h + c - length b" b]
    by simp_all
  have len: "length b - h + (h + c - length b) = c" using False assms by linarith
  have "copy_at (copy_at (replicate (2 * c) z) 0 (drop h b)) (length b - h) (take (h + c - length b) b)
      = drop h b @ take (h + c - length b) b @ replicate c z"
    using assms False len
    by (simp add: copy_at_def min_def) linarith
  moreover have "min (2 * c) (length b - h) = length b - h" using assms False by linarith
  ultimately show ?thesis
    using assms False sl len
    by (simp add: ring_grow_def t go_make_def push_bit_eq_mult nat_mult_distrib
        ring_list_wrapped Let_def mult.commute)
qed

section \<open>The contract of a queue\<close>

datatype 'a qop = Enq 'a | Deq

datatype 'a qres = EnqOk | EnqFull | DeqSome 'a | DeqEmpty

text \<open>A sequence of operations on an implementation; a panic stops it.\<close>

fun qrun :: "('q \<Rightarrow> 'a \<Rightarrow> (bool \<times> 'q) go) \<Rightarrow> ('q \<Rightarrow> ('a option \<times> 'q) go) \<Rightarrow> 'q \<Rightarrow> 'a qop list
    \<Rightarrow> ('a qres list \<times> 'q) go" where
  "qrun enq deq q [] = Inr ([], q)"
| "qrun enq deq q (Enq x # ops) =
     rbind (enq q x) (\<lambda>(ok, q').
     rbind (qrun enq deq q' ops) (\<lambda>(rs, q'').
     Inr ((if ok then EnqOk else EnqFull) # rs, q'')))"
| "qrun enq deq q (Deq # ops) =
     rbind (deq q) (\<lambda>(r, q').
     rbind (qrun enq deq q' ops) (\<lambda>(rs, q'').
     Inr ((case r of None \<Rightarrow> DeqEmpty | Some x \<Rightarrow> DeqSome x) # rs, q'')))"

text \<open>The same sequence on a list, with an optional capacity.\<close>

fun list_run :: "nat option \<Rightarrow> 'a list \<Rightarrow> 'a qop list \<Rightarrow> 'a qres list \<times> 'a list" where
  "list_run c xs [] = ([], xs)"
| "list_run c xs (Enq x # ops) =
     (if (case c of None \<Rightarrow> True | Some k \<Rightarrow> length xs < k)
      then (let (rs, ys) = list_run c (xs @ [x]) ops in (EnqOk # rs, ys))
      else (let (rs, ys) = list_run c xs ops in (EnqFull # rs, ys)))"
| "list_run c [] (Deq # ops) = (let (rs, ys) = list_run c [] ops in (DeqEmpty # rs, ys))"
| "list_run c (x # xs) (Deq # ops) = (let (rs, ys) = list_run c xs ops in (DeqSome x # rs, ys))"

lemma list_run_enqs: "list_run None xs (map Enq ys @ ops) =
    (let (rs, zs) = list_run None (xs @ ys) ops in (replicate (length ys) EnqOk @ rs, zs))"
  by (induction ys arbitrary: xs) (simp_all add: case_prod_beta)

lemma list_run_deqs: "list_run c xs (replicate (length xs) Deq) = (map DeqSome xs, [])"
  by (induction xs) simp_all

locale bounded_queue =
  fixes inv :: "'q \<Rightarrow> bool"
    and abs :: "'q \<Rightarrow> 'a list"
    and cap :: "'q \<Rightarrow> nat option"
    and enq :: "'q \<Rightarrow> 'a \<Rightarrow> (bool \<times> 'q) go"
    and deq :: "'q \<Rightarrow> ('a option \<times> 'q) go"
  assumes enq_room: "inv q \<Longrightarrow> (case cap q of None \<Rightarrow> True | Some k \<Rightarrow> length (abs q) < k) \<Longrightarrow>
      \<exists>q'. enq q x = Inr (True, q') \<and> inv q' \<and> abs q' = abs q @ [x] \<and> cap q' = cap q"
    and enq_full: "inv q \<Longrightarrow> cap q = Some k \<Longrightarrow> k \<le> length (abs q) \<Longrightarrow> enq q x = Inr (False, q)"
    and deq_nil: "inv q \<Longrightarrow> abs q = [] \<Longrightarrow> deq q = Inr (None, q)"
    and deq_cons: "inv q \<Longrightarrow> abs q = y # ys \<Longrightarrow>
      \<exists>q'. deq q = Inr (Some y, q') \<and> inv q' \<and> abs q' = ys \<and> cap q' = cap q"
begin

lemma run_refines:
  "inv q \<Longrightarrow> \<exists>q'. qrun enq deq q ops = Inr (fst (list_run (cap q) (abs q) ops), q') \<and>
     inv q' \<and> abs q' = snd (list_run (cap q) (abs q) ops) \<and> cap q' = cap q"
proof (induction ops arbitrary: q)
  case Nil
  then show ?case by simp
next
  case (Cons oper ops)
  show ?case
  proof (cases oper)
    case (Enq x)
    show ?thesis
    proof (cases "case cap q of None \<Rightarrow> True | Some k \<Rightarrow> length (abs q) < k")
      case True
      from enq_room [OF Cons.prems this] obtain q1 where
        q1: "enq q x = Inr (True, q1)" "inv q1" "abs q1 = abs q @ [x]" "cap q1 = cap q" by blast
      from Cons.IH [OF q1(2)] q1 True Enq show ?thesis by (auto simp: case_prod_beta)
    next
      case False
      then obtain k where "cap q = Some k" "k \<le> length (abs q)" by (auto split: option.splits)
      with Cons.IH [OF Cons.prems] enq_full [OF Cons.prems this] False Enq show ?thesis
        by (auto simp: case_prod_beta)
    qed
  next
    case Deq
    show ?thesis
    proof (cases "abs q")
      case Nil
      with Cons.IH [OF Cons.prems] deq_nil [OF Cons.prems Nil] Deq show ?thesis
        by (auto simp: case_prod_beta)
    next
      case (Cons y ys)
      from deq_cons [OF Cons.prems Cons] obtain q1 where
        q1: "deq q = Inr (Some y, q1)" "inv q1" "abs q1 = ys" "cap q1 = cap q" by blast
      from Cons.IH [OF q1(2)] q1 Cons Deq show ?thesis by (auto simp: case_prod_beta)
    qed
  qed
qed

end

locale fifo_queue = bounded_queue +
  assumes unbounded: "cap q = None"
begin

text \<open>Whatever is put into an empty queue comes out in the same order.\<close>

lemma fifo_order:
  assumes "inv q" "abs q = []"
  shows "\<exists>q'. qrun enq deq q (map Enq xs @ replicate (length xs) Deq) =
      Inr (replicate (length xs) EnqOk @ map DeqSome xs, q') \<and> abs q' = []"
  using run_refines [OF assms(1), of "map Enq xs @ replicate (length xs) Deq"] assms(2)
  by (auto simp: unbounded list_run_enqs list_run_deqs)

end

end
