(* ===== verification/Queue.thy ===== *)
theory Queue
  imports RingQueue
begin

text \<open>
  The growable ring queue of \<^verbatim>\<open>util/queue/queue.go\<close> and its locked wrapper
  \<^verbatim>\<open>util/queue/syncqueue.go\<close>. An element of type \<^verbatim>\<open>interface{}\<close> is a value of
  \<open>'a\<close>; \<^verbatim>\<open>nil\<close> is a parameter \<open>z\<close> of the operations that store or return it.
  The invariant \<open>queue_inv\<close> says that the buffer is a power of two long and that tail
  and count agree; \<open>queue_list\<close> is the sequence of elements the queue stands for.
\<close>

definition minQueueLen :: int where
  "minQueueLen = 16"

record 'a Queue =
  q_buf :: "'a list"
  q_head :: int
  q_tail :: int
  q_count :: int

definition NewQueue :: "'a \<Rightarrow> 'a Queue go" where
  "NewQueue z = rbind (go_make z minQueueLen) (\<lambda>b. Inr \<lparr>q_buf = b, q_head = 0, q_tail = 0, q_count = 0\<rparr>)"

definition Queue_Length :: "'a Queue \<Rightarrow> int" where
  "Queue_Length q = q_count q"

definition Queue_resize :: "'a \<Rightarrow> 'a Queue \<Rightarrow> 'a Queue go" where
  "Queue_resize z q =
     rbind (ring_grow z (q_buf q) (q_head q) (q_tail q) (q_count q)) (\<lambda>newBuf.
     Inr (q\<lparr>q_head := 0, q_tail := q_count q, q_buf := newBuf\<rparr>))"

definition Queue_Add :: "'a \<Rightarrow> 'a Queue \<Rightarrow> 'a \<Rightarrow> 'a Queue go" where
  "Queue_Add z q elem =
     rbind (if q_count q = int (length (q_buf q)) then Queue_resize z q else Inr q) (\<lambda>q1.
     rbind (slice_set (q_buf q1) (q_tail q1) elem) (\<lambda>b.
     Inr (q1\<lparr>q_buf := b, q_tail := (q_tail q1 + 1) AND (int (length b) - 1),
             q_count := q_count q1 + 1\<rparr>)))"

definition Queue_Peek :: "'a \<Rightarrow> 'a Queue \<Rightarrow> 'a go" where
  "Queue_Peek z q = (if q_count q \<le> 0 then Inr z else slice_get (q_buf q) (q_head q))"

definition Queue_Get :: "'a \<Rightarrow> 'a Queue \<Rightarrow> int \<Rightarrow> 'a go" where
  "Queue_Get z q i =
     (let i' = (if i < 0 then i + q_count q else i) in
      if i' < 0 \<or> q_count q \<le> i' then Inr z
      else slice_get (q_buf q) ((q_head q + i') AND (int (length (q_buf q)) - 1)))"

definition Queue_Pop :: "'a \<Rightarrow> 'a Queue \<Rightarrow> ('a \<times> 'a Queue) go" where
  "Queue_Pop z q =
     (if q_count q \<le> 0 then Inr (z, q)
      else
        rbind (slice_get (q_buf q) (q_head q)) (\<lambda>ret.
        rbind (slice_set (q_buf q) (q_head q) z) (\<lambda>b.
        let q1 = q\<lparr>q_buf := b, q_head := (q_head q + 1) AND (int (length b) - 1),
                   q_count := q_count q - 1\<rparr> in
        if minQueueLen < int (length b) \<and> push_bit 2 (q_count q1) = int (length b)
        then rbind (Queue_resize z q1) (\<lambda>q2. Inr (ret, q2))
        else Inr (ret, q1))))"

section \<open>The locked wrapper\<close>

text \<open>
  Every method of \<^verbatim>\<open>SyncQueue\<close> holds the mutex for its whole body, so each is one atomic
  step on the wrapped queue. \<^verbatim>\<open>RLockRange\<close> applies its callback to every element in order;
  the callback's effect on a caller state \<open>'s\<close> is the function \<open>f\<close>.
\<close>

record 'a SyncQueue =
  sync_que :: "'a Queue"

definition NewSyncQueue :: "'a \<Rightarrow> 'a SyncQueue go" where
  "NewSyncQueue z = rbind (NewQueue z) (\<lambda>q. Inr \<lparr>sync_que = q\<rparr>)"

definition SyncQueue_Len :: "'a SyncQueue \<Rightarrow> int" where
  "SyncQueue_Len s = Queue_Length (sync_que s)"

definition SyncQueue_Add :: "'a \<Rightarrow> 'a SyncQueue \<Rightarrow> 'a \<Rightarrow> 'a SyncQueue go" where
  "SyncQueue_Add z s elem = rbind (Queue_Add z (sync_que s) elem) (\<lambda>q. Inr (s\<lparr>sync_que := q\<rparr>))"

definition SyncQueue_Peek :: "'a \<Rightarrow> 'a SyncQueue \<Rightarrow> 'a go" where
  "SyncQueue_Peek z s = Queue_Peek z (sync_que s)"

definition SyncQueue_Get :: "'a \<Rightarrow> 'a SyncQueue \<Rightarrow> int \<Rightarrow> 'a go" where
  "SyncQueue_Get z s i = Queue_Get z (sync_que s) i"

definition SyncQueue_Pop :: "'a \<Rightarrow> 'a SyncQueue \<Rightarrow> ('a \<times> 'a SyncQueue) go" where
  "SyncQueue_Pop z s = rbind (Queue_Pop z (sync_que s)) (\<lambda>(r, q). Inr (r, s\<lparr>sync_que := q\<rparr>))"

fun RLockRange_from :: "'a \<Rightarrow> 'a SyncQueue \<Rightarrow> ('a \<Rightarrow> 's \<Rightarrow> 's) \<Rightarrow> int \<Rightarrow> nat \<Rightarrow> 's \<Rightarrow> 's go" where
  "RLockRange_from z s f i 0 st = Inr st"
| "RLockRange_from z s f i (Suc n) st =
     rbind (SyncQueue_Get z s i) (\<lambda>x. RLockRange_from z s f (i + 1) n (f x st))"

definition SyncQueue_RLockRange :: "'a \<Rightarrow> 'a SyncQueue \<Rightarrow> ('a \<Rightarrow> 's \<Rightarrow> 's) \<Rightarrow> 's \<Rightarrow> 's go" where
  "SyncQueue_RLockRange z s f st = RLockRange_from z s f 0 (nat (Queue_Length (sync_que s))) st"

section \<open>Invariant and abstraction\<close>

definition queue_inv :: "'a Queue \<Rightarrow> bool" where
  "queue_inv q \<longleftrightarrow>
     (\<exists>k h c. length (q_buf q) = 2 ^ k \<and> h < 2 ^ k \<and> c \<le> (2 ^ k :: nat) \<and>
        q_head q = int h \<and> q_count q = int c \<and> q_tail q = int ((h + c) mod 2 ^ k))"

definition queue_list :: "'a Queue \<Rightarrow> 'a list" where
  "queue_list q = ring_list (q_buf q) (nat (q_head q)) (nat (q_count q))"

lemma queue_invE:
  assumes "queue_inv q"
  obtains k h c where "length (q_buf q) = 2 ^ k" "h < length (q_buf q)" "c \<le> length (q_buf q)"
    "q_head q = int h" "q_count q = int c" "q_tail q = int ((h + c) mod length (q_buf q))"
    "queue_list q = ring_list (q_buf q) h c"
  using assms by (auto simp: queue_inv_def queue_list_def)

lemma queue_invI:
  assumes "length (q_buf q) = 2 ^ k" "h < length (q_buf q)" "c \<le> length (q_buf q)"
    "q_head q = int h" "q_count q = int c" "q_tail q = int ((h + c) mod length (q_buf q))"
  shows "queue_inv q"
  using assms by (auto simp: queue_inv_def)

lemma and_len_next:
  assumes "n = (2::nat) ^ k"
  shows "(int a + 1) AND (int n - 1) = int ((a + 1) mod n)"
  using and_len_nat [OF assms, of "a + 1"] by (simp add: add.commute)

lemma Queue_resize_ok:
  assumes "length (q_buf q) = 2 ^ k" "h < length (q_buf q)" "c \<le> length (q_buf q)" "0 < c"
    "q_head q = int h" "q_count q = int c" "q_tail q = int ((h + c) mod length (q_buf q))"
  shows "Queue_resize z q = Inr (q\<lparr>q_head := 0, q_tail := int c,
      q_buf := ring_list (q_buf q) h c @ replicate c z\<rparr>)"
  using ring_grow_ok [of h "q_buf q" c z] assms by (simp add: Queue_resize_def)

lemma NewQueue_ok: "\<exists>q. NewQueue z = Inr q \<and> queue_inv q \<and> queue_list q = []"
  by (auto simp: NewQueue_def minQueueLen_def go_make_def queue_list_def
      intro!: queue_invI [where k = 4 and h = 0 and c = 0])

text \<open>Adding to a queue with room: one write and a moved tail.\<close>

lemma Queue_Add_room:
  assumes "length (q_buf q) = 2 ^ k" "h < length (q_buf q)" "c < length (q_buf q)"
    "q_head q = int h" "q_count q = int c" "q_tail q = int ((h + c) mod length (q_buf q))"
  shows "\<exists>q'. Queue_Add z q x = Inr q' \<and> queue_inv q' \<and>
    queue_list q' = ring_list (q_buf q) h c @ [x]"
proof -
  let ?l = "length (q_buf q)"
  let ?q = "q\<lparr>q_buf := (q_buf q)[(h + c) mod ?l := x], q_tail := int ((h + c + 1) mod ?l),
      q_count := int (c + 1)\<rparr>"
  have t: "(h + c) mod ?l < ?l" using assms by simp
  have "(int ((h + c) mod ?l) + 1) AND (int ?l - 1) = int (((h + c) mod ?l + 1) mod ?l)"
    using assms(1) by (rule and_len_next)
  also have "((h + c) mod ?l + 1) mod ?l = (h + c + 1) mod ?l"
    by (rule mod_add_left_eq)
  finally have "Queue_Add z q x = Inr ?q"
    using assms t by (simp add: Queue_Add_def slice_set_ok)
  moreover have "queue_inv ?q"
    by (rule queue_invI [where k = k and h = h and c = "c + 1"]) (use assms in auto)
  moreover have "queue_list ?q = ring_list (q_buf q) h c @ [x]"
    using ring_list_push_back [of c "q_buf q" h x] assms by (simp add: queue_list_def nat_add_distrib)
  ultimately show ?thesis by blast
qed

lemma Queue_Add_resized:
  "q_count q = int (length (q_buf q)) \<Longrightarrow> Queue_resize z q = Inr q' \<Longrightarrow>
   q_count q' \<noteq> int (length (q_buf q')) \<Longrightarrow> Queue_Add z q x = Queue_Add z q' x"
  by (simp add: Queue_Add_def)

lemma Queue_Add_ok:
  assumes inv: "queue_inv q"
  shows "\<exists>q'. Queue_Add z q x = Inr q' \<and> queue_inv q' \<and> queue_list q' = queue_list q @ [x]"
proof -
  from inv obtain k h c where q: "length (q_buf q) = 2 ^ k" "h < length (q_buf q)"
    "c \<le> length (q_buf q)" "q_head q = int h" "q_count q = int c"
    "q_tail q = int ((h + c) mod length (q_buf q))" "queue_list q = ring_list (q_buf q) h c"
    by (rule queue_invE)
  show ?thesis
  proof (cases "c < length (q_buf q)")
    case True
    from Queue_Add_room [OF q(1,2) True q(4-6)] q(7) show ?thesis by simp
  next
    case False
    with q have c: "c = length (q_buf q)" "0 < c" by auto
    define q1 where "q1 = q\<lparr>q_head := 0, q_tail := int c,
      q_buf := ring_list (q_buf q) h c @ replicate c z\<rparr>"
    have r: "Queue_resize z q = Inr q1"
      unfolding q1_def by (rule Queue_resize_ok [OF q(1-3) c(2) q(4-6)])
    have len: "length (q_buf q1) = 2 ^ Suc k" "length (q_buf q1) = 2 * c"
      using c q by (simp_all add: q1_def)
    have "Queue_Add z q x = Queue_Add z q1 x"
      by (rule Queue_Add_resized [OF _ r]) (use q c len in \<open>simp_all add: q1_def\<close>)
    moreover have "\<exists>q'. Queue_Add z q1 x = Inr q' \<and> queue_inv q' \<and>
        queue_list q' = ring_list (q_buf q1) 0 c @ [x]"
      by (rule Queue_Add_room [OF len(1)]) (use len c q in \<open>simp_all add: q1_def\<close>)
    moreover have "ring_list (q_buf q1) 0 c = ring_list (q_buf q) h c"
      using ring_list_prefix [of c "q_buf q1"] len by (simp add: q1_def)
    ultimately show ?thesis using q(7) by simp
  qed
qed

lemma Queue_Pop_empty: "queue_inv q \<Longrightarrow> queue_list q = [] \<Longrightarrow> Queue_Pop z q = Inr (z, q)"
  by (erule queue_invE) (auto simp: Queue_Pop_def ring_list_def)

lemma Queue_Pop_ok:
  assumes inv: "queue_inv q" and ne: "queue_list q = y # ys"
  shows "\<exists>q'. Queue_Pop z q = Inr (y, q') \<and> queue_inv q' \<and> queue_list q' = ys"
proof -
  from inv obtain k h c where q: "length (q_buf q) = 2 ^ k" "h < length (q_buf q)"
    "c \<le> length (q_buf q)" "q_head q = int h" "q_count q = int c"
    "q_tail q = int ((h + c) mod length (q_buf q))" "queue_list q = ring_list (q_buf q) h c"
    by (rule queue_invE)
  let ?l = "length (q_buf q)"
  have c0: "0 < c" using ne q(7) by (cases c) auto
  have y: "q_buf q ! h = y" using ring_list_hd [OF c0 q(2)] ne q(7) by simp
  define q1 where "q1 = q\<lparr>q_buf := (q_buf q)[h := z], q_head := int ((h + 1) mod ?l),
      q_count := int (c - 1)\<rparr>"
  have nx: "(int h + 1) AND (int ?l - 1) = int ((h + 1) mod ?l)" by (rule and_len_next [OF q(1)])
  have l1: "length (q_buf q1) = ?l" by (simp add: q1_def)
  have t1: "q_tail q1 = int (((h + 1) mod ?l + (c - 1)) mod ?l)"
    using c0 q by (cases c) (simp_all add: q1_def)
  have ys: "ring_list (q_buf q1) ((h + 1) mod ?l) (c - 1) = ys"
    using ring_list_pop_front [OF c0 q(3,2), of z] ne q(7) by (simp add: q1_def)
  have q1': "length (q_buf q1) = 2 ^ k" "(h + 1) mod ?l < length (q_buf q1)"
    "c - 1 \<le> length (q_buf q1)" "q_head q1 = int ((h + 1) mod ?l)" "q_count q1 = int (c - 1)"
    "q_tail q1 = int (((h + 1) mod ?l + (c - 1)) mod length (q_buf q1))"
    using q l1 t1 by (simp_all add: q1_def)
  have pop: "Queue_Pop z q =
      (if minQueueLen < int ?l \<and> push_bit 2 (int (c - 1)) = int ?l
       then rbind (Queue_resize z q1) (\<lambda>q2. Inr (y, q2)) else Inr (y, q1))"
    using q c0 y nx by (simp add: Queue_Pop_def slice_get_ok slice_set_ok q1_def of_nat_diff Let_def)
  show ?thesis
  proof (cases "minQueueLen < int ?l \<and> push_bit 2 (int (c - 1)) = int ?l")
    case True
    then have l4: "?l = 4 * (c - 1)" "16 < ?l" by (simp_all add: push_bit_eq_mult minQueueLen_def)
    define q2 where "q2 = q1\<lparr>q_head := 0, q_tail := int (c - 1),
        q_buf := ring_list (q_buf q1) ((h + 1) mod ?l) (c - 1) @ replicate (c - 1) z\<rparr>"
    have "Queue_resize z q1 = Inr q2"
      unfolding q2_def by (rule Queue_resize_ok [OF q1'(1-3) _ q1'(4-6)]) (use l4 in simp)
    moreover have l2: "length (q_buf q2) = 2 * (c - 1)" by (simp add: q2_def)
    moreover have "queue_inv q2"
    proof (rule queue_invI [where k = "k - 1" and h = 0 and c = "c - 1"])
      have "k \<noteq> 0" using q(1) l4(2) by (cases k) auto
      then show "length (q_buf q2) = 2 ^ (k - 1)" using l2 l4 q(1) by (cases k) auto
    qed (use l2 l4 in \<open>simp_all add: q2_def q1_def\<close>)
    moreover have "queue_list q2 = ys"
      using ring_list_prefix [of "c - 1" "q_buf q2"] ys l2 by (simp add: queue_list_def q2_def q1_def)
    ultimately show ?thesis using pop True by simp
  next
    case False
    have "queue_inv q1" by (rule queue_invI [OF q1'])
    moreover have "queue_list q1 = ys" using ys q1'(4,5) by (simp add: queue_list_def)
    ultimately show ?thesis using pop False by auto
  qed
qed

lemma queue_list_length: "queue_inv q \<Longrightarrow> Queue_Length q = int (length (queue_list q))"
  by (erule queue_invE) (simp add: Queue_Length_def)

lemma Queue_Peek_ok:
  "queue_inv q \<Longrightarrow> Queue_Peek z q = Inr (case queue_list q of [] \<Rightarrow> z | y # _ \<Rightarrow> y)"
  by (erule queue_invE) (auto simp: Queue_Peek_def slice_get_ok ring_list_Suc gr0_conv_Suc
      split: list.split)

lemma Queue_Get_ok:
  assumes "queue_inv q"
  shows "Queue_Get z q i =
    Inr (let n = int (length (queue_list q)) in
         if 0 \<le> i \<and> i < n then queue_list q ! nat i
         else if - n \<le> i \<and> i < 0 then queue_list q ! nat (n + i) else z)"
proof -
  from assms obtain k h c where q: "length (q_buf q) = 2 ^ k" "h < length (q_buf q)"
    "c \<le> length (q_buf q)" "q_head q = int h" "q_count q = int c"
    "queue_list q = ring_list (q_buf q) h c"
    by (rule queue_invE)
  have read: "slice_get (q_buf q) ((q_head q + j) AND (int (length (q_buf q)) - 1))
      = Inr (queue_list q ! nat j)" if "0 \<le> j" "j < int c" for j
  proof -
    have "(q_head q + j) AND (int (length (q_buf q)) - 1) = int ((h + nat j) mod length (q_buf q))"
      using and_len_nat [OF q(1), of "h + nat j"] q(4) that by simp
    then show ?thesis using q that by (simp add: slice_get_ok)
  qed
  show ?thesis
    using read [of i] read [of "i + int c"] q(5,6)
    by (auto simp: Queue_Get_def Let_def add.commute)
qed

text \<open>\<^verbatim>\<open>RLockRange\<close> visits exactly the elements, front to back.\<close>

lemma RLockRange_from_ok:
  assumes "queue_inv (sync_que s)"
  shows "n + m = length (queue_list (sync_que s)) \<Longrightarrow>
    RLockRange_from z s f (int m) n st = Inr (fold f (drop m (queue_list (sync_que s))) st)"
proof (induction n arbitrary: m st)
  case 0
  then show ?case by simp
next
  case (Suc n)
  then have m: "m < length (queue_list (sync_que s))" by simp
  have "SyncQueue_Get z s (int m) = Inr (queue_list (sync_que s) ! m)"
    using m Queue_Get_ok [OF assms, of z "int m"] by (simp add: SyncQueue_Get_def Let_def)
  with Suc.IH [of "Suc m"] Suc.prems m show ?case
    by (simp add: Cons_nth_drop_Suc [symmetric] add.commute)
qed

section \<open>Every sequence of calls\<close>

text \<open>The methods of the queue as requests, and what each answers; \<open>queue_call\<close> makes the call itself.\<close>

datatype 'a queue_req = QAdd 'a | QPop | QPeek | QGet int | QLength

datatype 'a queue_ans = QDone | QElem 'a | QNum int

fun queue_call :: "'a \<Rightarrow> 'a Queue \<Rightarrow> 'a queue_req \<Rightarrow> ('a queue_ans \<times> 'a Queue) go" where
  "queue_call z q (QAdd x) = rbind (Queue_Add z q x) (\<lambda>q'. Inr (QDone, q'))"
| "queue_call z q QPop = rbind (Queue_Pop z q) (\<lambda>(x, q'). Inr (QElem x, q'))"
| "queue_call z q QPeek = rbind (Queue_Peek z q) (\<lambda>x. Inr (QElem x, q))"
| "queue_call z q (QGet i) = rbind (Queue_Get z q i) (\<lambda>x. Inr (QElem x, q))"
| "queue_call z q QLength = Inr (QNum (Queue_Length q), q)"

fun queue_calls :: "'a \<Rightarrow> 'a Queue \<Rightarrow> 'a queue_req list \<Rightarrow> ('a queue_ans list \<times> 'a Queue) go" where
  "queue_calls z q [] = Inr ([], q)"
| "queue_calls z q (r # rs) =
     rbind (queue_call z q r) (\<lambda>(a, q'). rbind (queue_calls z q' rs) (\<lambda>(as, q''). Inr (a # as, q'')))"

text \<open>The same on a list: \<open>z\<close>, which is nil, is the answer where there is no element; a negative index counts from the end.\<close>

definition list_get :: "'a \<Rightarrow> 'a list \<Rightarrow> int \<Rightarrow> 'a" where
  "list_get z xs i =
     (let n = int (length xs) in
      if 0 \<le> i \<and> i < n then xs ! nat i else if - n \<le> i \<and> i < 0 then xs ! nat (n + i) else z)"

fun list_call :: "'a \<Rightarrow> 'a list \<Rightarrow> 'a queue_req \<Rightarrow> 'a queue_ans \<times> 'a list" where
  "list_call z xs (QAdd x) = (QDone, xs @ [x])"
| "list_call z [] QPop = (QElem z, [])"
| "list_call z (x # xs) QPop = (QElem x, xs)"
| "list_call z xs QPeek = (QElem (case xs of [] \<Rightarrow> z | x # _ \<Rightarrow> x), xs)"
| "list_call z xs (QGet i) = (QElem (list_get z xs i), xs)"
| "list_call z xs QLength = (QNum (int (length xs)), xs)"

fun list_calls :: "'a \<Rightarrow> 'a list \<Rightarrow> 'a queue_req list \<Rightarrow> 'a queue_ans list \<times> 'a list" where
  "list_calls z xs [] = ([], xs)"
| "list_calls z xs (r # rs) = (let (a, ys) = list_call z xs r; (as, zs) = list_calls z ys rs in (a # as, zs))"

lemma queue_call_ok:
  assumes "queue_inv q"
  shows "\<exists>q'. queue_call z q r = Inr (fst (list_call z (queue_list q) r), q') \<and> queue_inv q' \<and>
    queue_list q' = snd (list_call z (queue_list q) r)"
proof (cases r)
  case (QAdd x)
  then show ?thesis using Queue_Add_ok [OF assms, of z x] by auto
next
  case QPop
  then show ?thesis using Queue_Pop_empty [OF assms, of z] Queue_Pop_ok [OF assms, of _ _ z] assms
    by (cases "queue_list q") fastforce+
qed (use assms in \<open>simp_all add: Queue_Peek_ok Queue_Get_ok queue_list_length list_get_def\<close>)

lemma queue_calls_ok:
  "queue_inv q \<Longrightarrow> \<exists>q'. queue_calls z q rs = Inr (fst (list_calls z (queue_list q) rs), q') \<and> queue_inv q' \<and>
     queue_list q' = snd (list_calls z (queue_list q) rs)"
proof (induction rs arbitrary: q)
  case (Cons r rs)
  from queue_call_ok [OF Cons.prems, of z r] obtain q1 where q1: "queue_inv q1"
    "queue_call z q r = Inr (fst (list_call z (queue_list q) r), q1)" "queue_list q1 = snd (list_call z (queue_list q) r)" by blast
  from Cons.IH [OF q1(1)] q1(2,3) show ?case by (auto simp: case_prod_beta)
qed simp

section \<open>The queue contract\<close>

text \<open>
  Of a queue that nil is never added to, nil says that there was no element: with \<open>None\<close> for nil, \<^verbatim>\<open>Pop\<close> itself is the
  removal of the contract.
\<close>

definition queue_enq :: "'a option Queue \<Rightarrow> 'a \<Rightarrow> (bool \<times> 'a option Queue) go" where
  "queue_enq q x = rbind (Queue_Add None q (Some x)) (\<lambda>q'. Inr (True, q'))"

definition non_nil :: "'a option Queue \<Rightarrow> bool" where
  "non_nil q \<longleftrightarrow> queue_inv q \<and> None \<notin> set (queue_list q)"

definition queue_elems :: "'a option Queue \<Rightarrow> 'a list" where
  "queue_elems q = map the (queue_list q)"

lemma queue_elems_Cons: "non_nil q \<Longrightarrow> queue_elems q = y # ys \<Longrightarrow>
  \<exists>ws. queue_list q = Some y # ws \<and> ys = map the ws \<and> None \<notin> set ws"
  by (auto simp: queue_elems_def non_nil_def map_eq_Cons_conv)

lemma queue_Add_non_nil:
  "non_nil q \<Longrightarrow> \<exists>q'. Queue_Add None q (Some x) = Inr q' \<and> non_nil q' \<and> queue_elems q' = queue_elems q @ [x]"
  using Queue_Add_ok [of q None "Some x"] by (auto simp: non_nil_def queue_elems_def)

lemma queue_Pop_non_nil:
  assumes "non_nil q"
  shows "queue_elems q = [] \<Longrightarrow> Queue_Pop None q = Inr (None, q)"
    "queue_elems q = y # ys \<Longrightarrow> \<exists>q'. Queue_Pop None q = Inr (Some y, q') \<and> non_nil q' \<and> queue_elems q' = ys"
proof -
  have inv: "queue_inv q" using assms by (simp add: non_nil_def)
  show "queue_elems q = [] \<Longrightarrow> Queue_Pop None q = Inr (None, q)"
    using Queue_Pop_empty [OF inv] by (simp add: queue_elems_def)
  assume "queue_elems q = y # ys"
  from queue_elems_Cons [OF assms this] Queue_Pop_ok [OF inv, of "Some y" _ None]
  show "\<exists>q'. Queue_Pop None q = Inr (Some y, q') \<and> non_nil q' \<and> queue_elems q' = ys"
    by (fastforce simp: non_nil_def queue_elems_def)
qed

interpretation rq: fifo_queue non_nil queue_elems "\<lambda>_. None" queue_enq "Queue_Pop None"
proof unfold_locales
  fix q :: "'a option Queue" and x :: 'a assume "non_nil q"
  from queue_Add_non_nil [OF this, of x]
  show "\<exists>q'. queue_enq q x = Inr (True, q') \<and> non_nil q' \<and> queue_elems q' = queue_elems q @ [x] \<and> None = None"
    by (auto simp: queue_enq_def)
qed (use queue_Pop_non_nil in auto)

definition sync_enq :: "'a option SyncQueue \<Rightarrow> 'a \<Rightarrow> (bool \<times> 'a option SyncQueue) go" where
  "sync_enq s x = rbind (SyncQueue_Add None s (Some x)) (\<lambda>s'. Inr (True, s'))"

interpretation sq: fifo_queue "\<lambda>s. non_nil (sync_que s)" "\<lambda>s. queue_elems (sync_que s)"
  "\<lambda>_. None" sync_enq "SyncQueue_Pop None"
proof unfold_locales
  fix s :: "'a option SyncQueue" and x :: 'a assume "non_nil (sync_que s)"
  from queue_Add_non_nil [OF this, of x]
  show "\<exists>s'. sync_enq s x = Inr (True, s') \<and> non_nil (sync_que s') \<and>
      queue_elems (sync_que s') = queue_elems (sync_que s) @ [x] \<and> None = None"
    by (auto simp: sync_enq_def SyncQueue_Add_def)
next
  fix s :: "'a option SyncQueue" assume "non_nil (sync_que s)" "queue_elems (sync_que s) = []"
  from queue_Pop_non_nil(1) [OF this] show "SyncQueue_Pop None s = Inr (None, s)" by (simp add: SyncQueue_Pop_def)
next
  fix s :: "'a option SyncQueue" and y :: 'a and ys
  assume s: "non_nil (sync_que s)" "queue_elems (sync_que s) = y # ys"
  from queue_Pop_non_nil(2) [OF this]
  show "\<exists>s'. SyncQueue_Pop None s = Inr (Some y, s') \<and> non_nil (sync_que s') \<and>
      queue_elems (sync_que s') = ys \<and> None = None"
    by (auto simp: SyncQueue_Pop_def)
qed simp_all

end
