(* ===== verification/Deque.thy ===== *)
theory Deque
  imports RingQueue
begin

text \<open>
  The double-ended queue of \<^verbatim>\<open>util/queue/deque.go\<close>. The state keeps the fields of the Go
  struct; the zero value of the element type is the parameter \<open>z\<close>. Every method of the
  file is a definition, panics included. \<open>deque_inv\<close> is the representation invariant and
  \<open>deque_list\<close> the sequence the structure stands for; the lemmas show that each method
  keeps the one and does to the other what its name says.
\<close>

definition minCapacity :: int where
  "minCapacity = 16"

record 'a Deque =
  dq_buf :: "'a list"
  dq_head :: int
  dq_tail :: int
  dq_count :: int
  dq_minCap :: int

text \<open>\<^verbatim>\<open>for m < bound { m <<= 1 }\<close> on the 64-bit \<^verbatim>\<open>int\<close>; \<open>None\<close> when it does not end.\<close>

partial_function (option) shl_until :: "int \<Rightarrow> int \<Rightarrow> int option" where
  "shl_until m bound = (if m < bound then shl_until (wrap64 (push_bit 1 m)) bound else Some m)"

definition NewDeque :: "'a \<Rightarrow> int list \<Rightarrow> 'a Deque go option" where
  "NewDeque z sizes =
     (let capacity = (case sizes of [] \<Rightarrow> 0 | c # _ \<Rightarrow> c);
          minimum = (case sizes of _ # m # _ \<Rightarrow> m | _ \<Rightarrow> 0) in
      Option.bind (shl_until minCapacity minimum) (\<lambda>minCap.
      if capacity \<noteq> 0 then
        Option.bind (shl_until minCap capacity) (\<lambda>bufSize.
        Some (rbind (go_make z bufSize) (\<lambda>b.
          Inr \<lparr>dq_buf = b, dq_head = 0, dq_tail = 0, dq_count = 0, dq_minCap = minCap\<rparr>)))
      else Some (Inr \<lparr>dq_buf = [], dq_head = 0, dq_tail = 0, dq_count = 0, dq_minCap = minCap\<rparr>)))"

text \<open>\<^verbatim>\<open>Cap\<close> and \<^verbatim>\<open>Len\<close> accept a nil receiver.\<close>

definition Deque_Cap :: "'a Deque option \<Rightarrow> int" where
  "Deque_Cap q = (case q of None \<Rightarrow> 0 | Some d \<Rightarrow> int (length (dq_buf d)))"

definition Deque_Len :: "'a Deque option \<Rightarrow> int" where
  "Deque_Len q = (case q of None \<Rightarrow> 0 | Some d \<Rightarrow> dq_count d)"

definition Deque_prev :: "'a Deque \<Rightarrow> int \<Rightarrow> int" where
  "Deque_prev q i = (i - 1) AND (int (length (dq_buf q)) - 1)"

definition Deque_next :: "'a Deque \<Rightarrow> int \<Rightarrow> int" where
  "Deque_next q i = (i + 1) AND (int (length (dq_buf q)) - 1)"

definition Deque_resize :: "'a \<Rightarrow> 'a Deque \<Rightarrow> 'a Deque go" where
  "Deque_resize z q =
     rbind (ring_grow z (dq_buf q) (dq_head q) (dq_tail q) (dq_count q)) (\<lambda>newBuf.
     Inr (q\<lparr>dq_head := 0, dq_tail := dq_count q, dq_buf := newBuf\<rparr>))"

definition Deque_growIfFull :: "'a \<Rightarrow> 'a Deque \<Rightarrow> 'a Deque go" where
  "Deque_growIfFull z q =
     (if dq_count q \<noteq> int (length (dq_buf q)) then Inr q
      else if length (dq_buf q) = 0 then
        (let q1 = (if dq_minCap q = 0 then q\<lparr>dq_minCap := minCapacity\<rparr> else q) in
         rbind (go_make z (dq_minCap q1)) (\<lambda>b. Inr (q1\<lparr>dq_buf := b\<rparr>)))
      else Deque_resize z q)"

definition Deque_shrinkIfExcess :: "'a \<Rightarrow> 'a Deque \<Rightarrow> 'a Deque go" where
  "Deque_shrinkIfExcess z q =
     (if dq_minCap q < int (length (dq_buf q)) \<and> push_bit 2 (dq_count q) = int (length (dq_buf q))
      then Deque_resize z q else Inr q)"

definition Deque_PushBack :: "'a \<Rightarrow> 'a Deque \<Rightarrow> 'a \<Rightarrow> 'a Deque go" where
  "Deque_PushBack z q elem =
     rbind (Deque_growIfFull z q) (\<lambda>q1.
     rbind (slice_set (dq_buf q1) (dq_tail q1) elem) (\<lambda>b.
     Inr (q1\<lparr>dq_buf := b, dq_tail := Deque_next q1 (dq_tail q1), dq_count := dq_count q1 + 1\<rparr>)))"

definition Deque_PushFront :: "'a \<Rightarrow> 'a Deque \<Rightarrow> 'a \<Rightarrow> 'a Deque go" where
  "Deque_PushFront z q elem =
     rbind (Deque_growIfFull z q) (\<lambda>q1.
     let h = Deque_prev q1 (dq_head q1) in
     rbind (slice_set (dq_buf q1) h elem) (\<lambda>b.
     Inr (q1\<lparr>dq_head := h, dq_buf := b, dq_count := dq_count q1 + 1\<rparr>)))"

definition Deque_PopFront :: "'a \<Rightarrow> 'a Deque \<Rightarrow> ('a \<times> 'a Deque) go" where
  "Deque_PopFront z q =
     (if dq_count q \<le> 0 then Inl (PanicMsg ''deque: PopFront() called on empty queue'')
      else
        rbind (slice_get (dq_buf q) (dq_head q)) (\<lambda>ret.
        rbind (slice_set (dq_buf q) (dq_head q) z) (\<lambda>b.
        rbind (Deque_shrinkIfExcess z (q\<lparr>dq_buf := b, dq_head := Deque_next q (dq_head q),
                                         dq_count := dq_count q - 1\<rparr>)) (\<lambda>q1.
        Inr (ret, q1)))))"

definition Deque_PopBack :: "'a \<Rightarrow> 'a Deque \<Rightarrow> ('a \<times> 'a Deque) go" where
  "Deque_PopBack z q =
     (if dq_count q \<le> 0 then Inl (PanicMsg ''deque: PopBack() called on empty queue'')
      else
        (let t = Deque_prev q (dq_tail q) in
        rbind (slice_get (dq_buf q) t) (\<lambda>ret.
        rbind (slice_set (dq_buf q) t z) (\<lambda>b.
        rbind (Deque_shrinkIfExcess z (q\<lparr>dq_tail := t, dq_buf := b, dq_count := dq_count q - 1\<rparr>)) (\<lambda>q1.
        Inr (ret, q1))))))"

definition Deque_Front :: "'a Deque \<Rightarrow> 'a go" where
  "Deque_Front q =
     (if dq_count q \<le> 0 then Inl (PanicMsg ''deque: Front() called when empty'')
      else slice_get (dq_buf q) (dq_head q))"

definition Deque_Back :: "'a Deque \<Rightarrow> 'a go" where
  "Deque_Back q =
     (if dq_count q \<le> 0 then Inl (PanicMsg ''deque: Back() called when empty'')
      else slice_get (dq_buf q) (Deque_prev q (dq_tail q)))"

definition Deque_At :: "'a Deque \<Rightarrow> int \<Rightarrow> 'a go" where
  "Deque_At q i =
     (if i < 0 \<or> dq_count q \<le> i then Inl (PanicMsg ''deque: At() called with index out of range'')
      else slice_get (dq_buf q) ((dq_head q + i) AND (int (length (dq_buf q)) - 1)))"

definition Deque_Set :: "'a Deque \<Rightarrow> int \<Rightarrow> 'a \<Rightarrow> 'a Deque go" where
  "Deque_Set q i elem =
     (if i < 0 \<or> dq_count q \<le> i then Inl (PanicMsg ''deque: Set() called with index out of range'')
      else rbind (slice_set (dq_buf q) ((dq_head q + i) AND (int (length (dq_buf q)) - 1)) elem)
        (\<lambda>b. Inr (q\<lparr>dq_buf := b\<rparr>)))"

text \<open>The loop of \<^verbatim>\<open>Clear\<close> runs while the position differs from the tail.\<close>

partial_function (option) clear_loop :: "'a \<Rightarrow> 'a list \<Rightarrow> int \<Rightarrow> int \<Rightarrow> 'a list go option" where
  "clear_loop z b h t =
     (if h = t then Some (Inr b)
      else (case slice_set b h z of
              Inl e \<Rightarrow> Some (Inl e)
            | Inr b' \<Rightarrow> clear_loop z b' ((h + 1) AND (int (length b) - 1)) t))"

definition Deque_Clear :: "'a \<Rightarrow> 'a Deque \<Rightarrow> 'a Deque go option" where
  "Deque_Clear z q =
     map_option (\<lambda>r. rbind r (\<lambda>b. Inr (q\<lparr>dq_buf := b, dq_head := 0, dq_tail := 0, dq_count := 0\<rparr>)))
       (clear_loop z (dq_buf q) (dq_head q) (dq_tail q))"

text \<open>The two loops of \<^verbatim>\<open>Rotate\<close>, the number of remaining rounds counted down.\<close>

fun rotate_back :: "'a \<Rightarrow> nat \<Rightarrow> 'a Deque \<Rightarrow> 'a Deque go" where
  "rotate_back z 0 q = Inr q"
| "rotate_back z (Suc n) q =
     (let modBits = int (length (dq_buf q)) - 1;
          h = (dq_head q - 1) AND modBits; t = (dq_tail q - 1) AND modBits in
      rbind (slice_get (dq_buf q) t) (\<lambda>x.
      rbind (slice_set (dq_buf q) h x) (\<lambda>b.
      rbind (slice_set b t z) (\<lambda>b'.
      rotate_back z n (q\<lparr>dq_head := h, dq_tail := t, dq_buf := b'\<rparr>)))))"

fun rotate_front :: "'a \<Rightarrow> nat \<Rightarrow> 'a Deque \<Rightarrow> 'a Deque go" where
  "rotate_front z 0 q = Inr q"
| "rotate_front z (Suc n) q =
     (let modBits = int (length (dq_buf q)) - 1 in
      rbind (slice_get (dq_buf q) (dq_head q)) (\<lambda>x.
      rbind (slice_set (dq_buf q) (dq_tail q) x) (\<lambda>b.
      rbind (slice_set b (dq_head q) z) (\<lambda>b'.
      rotate_front z n (q\<lparr>dq_buf := b', dq_head := (dq_head q + 1) AND modBits,
                          dq_tail := (dq_tail q + 1) AND modBits\<rparr>)))))"

definition Deque_Rotate :: "'a \<Rightarrow> 'a Deque \<Rightarrow> int \<Rightarrow> 'a Deque go" where
  "Deque_Rotate z q n =
     (if Deque_Len (Some q) \<le> 1 then Inr q
      else
        let n = go_rem n (dq_count q) in
        if n = 0 then Inr q
        else
          let modBits = int (length (dq_buf q)) - 1 in
          if dq_head q = dq_tail q then
            (let h = (dq_head q + n) AND modBits in Inr (q\<lparr>dq_head := h, dq_tail := h\<rparr>))
          else if n < 0 then rotate_back z (nat (- n)) q
          else rotate_front z (nat n) q)"

text \<open>The scans of \<^verbatim>\<open>Index\<close> (from the front) and \<^verbatim>\<open>RIndex\<close> (from the back).\<close>

fun index_from :: "'a Deque \<Rightarrow> ('a \<Rightarrow> bool) \<Rightarrow> int \<Rightarrow> nat \<Rightarrow> int go" where
  "index_from q f i 0 = Inr (- 1)"
| "index_from q f i (Suc n) =
     rbind (slice_get (dq_buf q) ((dq_head q + i) AND (int (length (dq_buf q)) - 1))) (\<lambda>x.
     if f x then Inr i else index_from q f (i + 1) n)"

definition Deque_Index :: "'a Deque \<Rightarrow> ('a \<Rightarrow> bool) \<Rightarrow> int go" where
  "Deque_Index q f =
     (if 0 < Deque_Len (Some q) then index_from q f 0 (nat (dq_count q)) else Inr (- 1))"

fun rindex_from :: "'a Deque \<Rightarrow> ('a \<Rightarrow> bool) \<Rightarrow> nat \<Rightarrow> int go" where
  "rindex_from q f 0 = Inr (- 1)"
| "rindex_from q f (Suc i) =
     rbind (slice_get (dq_buf q) ((dq_head q + int i) AND (int (length (dq_buf q)) - 1))) (\<lambda>x.
     if f x then Inr (int i) else rindex_from q f i)"

definition Deque_RIndex :: "'a Deque \<Rightarrow> ('a \<Rightarrow> bool) \<Rightarrow> int go" where
  "Deque_RIndex q f =
     (if 0 < Deque_Len (Some q) then rindex_from q f (nat (dq_count q)) else Inr (- 1))"

text \<open>The exchange loops of \<^verbatim>\<open>Insert\<close> and \<^verbatim>\<open>Remove\<close>, towards the back and towards the front.\<close>

fun swap_next_loop :: "'a list \<Rightarrow> int \<Rightarrow> nat \<Rightarrow> 'a list go" where
  "swap_next_loop b p 0 = Inr b"
| "swap_next_loop b p (Suc n) =
     (let nx = (p + 1) AND (int (length b) - 1) in
      rbind (slice_swap b p nx) (\<lambda>b'. swap_next_loop b' nx n))"

fun swap_prev_loop :: "'a list \<Rightarrow> int \<Rightarrow> nat \<Rightarrow> 'a list go" where
  "swap_prev_loop b p 0 = Inr b"
| "swap_prev_loop b p (Suc n) =
     (let pv = (p - 1) AND (int (length b) - 1) in
      rbind (slice_swap b p pv) (\<lambda>b'. swap_prev_loop b' pv n))"

definition Deque_Insert :: "'a \<Rightarrow> 'a Deque \<Rightarrow> int \<Rightarrow> 'a \<Rightarrow> 'a Deque go" where
  "Deque_Insert z q at item =
     (if at < 0 \<or> dq_count q < at then Inl (PanicMsg ''deque: Insert() called with index out of range'')
      else if at * 2 < dq_count q then
        rbind (Deque_PushFront z q item) (\<lambda>q1.
        rbind (swap_next_loop (dq_buf q1) (dq_head q1) (nat at)) (\<lambda>b. Inr (q1\<lparr>dq_buf := b\<rparr>)))
      else
        rbind (Deque_PushBack z q item) (\<lambda>q1.
        rbind (swap_prev_loop (dq_buf q1) (Deque_prev q1 (dq_tail q1)) (nat (dq_count q - at))) (\<lambda>b.
        Inr (q1\<lparr>dq_buf := b\<rparr>))))"

definition Deque_Remove :: "'a \<Rightarrow> 'a Deque \<Rightarrow> int \<Rightarrow> ('a \<times> 'a Deque) go" where
  "Deque_Remove z q at =
     (if at < 0 \<or> Deque_Len (Some q) \<le> at then Inl (PanicMsg ''deque: Remove() called with index out of range'')
      else
        let rm = (dq_head q + at) AND (int (length (dq_buf q)) - 1) in
        if at * 2 < dq_count q then
          rbind (swap_prev_loop (dq_buf q) rm (nat at)) (\<lambda>b. Deque_PopFront z (q\<lparr>dq_buf := b\<rparr>))
        else
          rbind (swap_next_loop (dq_buf q) rm (nat (dq_count q - at - 1))) (\<lambda>b.
          Deque_PopBack z (q\<lparr>dq_buf := b\<rparr>)))"

definition Deque_SetMinCapacity :: "'a Deque \<Rightarrow> nat \<Rightarrow> 'a Deque" where
  "Deque_SetMinCapacity q minCapacityExp =
     (let m = wrap64 (push_bit minCapacityExp 1) in
      if minCapacity < m then q\<lparr>dq_minCap := m\<rparr> else q\<lparr>dq_minCap := minCapacity\<rparr>)"

section \<open>Invariant and abstraction\<close>

definition ring_ok :: "'a Deque \<Rightarrow> nat \<Rightarrow> nat \<Rightarrow> bool" where
  "ring_ok q h c \<longleftrightarrow>
     (\<exists>k. length (dq_buf q) = 2 ^ k) \<and> h < length (dq_buf q) \<and> c \<le> length (dq_buf q) \<and>
     dq_head q = int h \<and> dq_count q = int c \<and> dq_tail q = int ((h + c) mod length (dq_buf q))"

definition mincap_ok :: "int \<Rightarrow> bool" where
  "mincap_ok m \<longleftrightarrow> m = 0 \<or> (\<exists>k. m = 2 ^ k)"

definition deque_inv :: "'a Deque \<Rightarrow> bool" where
  "deque_inv q \<longleftrightarrow> mincap_ok (dq_minCap q) \<and>
     (dq_buf q = [] \<and> dq_head q = 0 \<and> dq_tail q = 0 \<and> dq_count q = 0 \<or> (\<exists>h c. ring_ok q h c))"

definition deque_list :: "'a Deque \<Rightarrow> 'a list" where
  "deque_list q = ring_list (dq_buf q) (nat (dq_head q)) (nat (dq_count q))"

lemma ring_ok_list: "ring_ok q h c \<Longrightarrow> deque_list q = ring_list (dq_buf q) h c"
  by (simp add: ring_ok_def deque_list_def)

lemma deque_invE:
  assumes "deque_inv q"
  obtains (empty) "mincap_ok (dq_minCap q)" "dq_buf q = []" "dq_head q = 0" "dq_tail q = 0"
      "dq_count q = 0" "deque_list q = []"
    | (ring) h c where "mincap_ok (dq_minCap q)" "ring_ok q h c"
  using assms by (auto simp: deque_inv_def deque_list_def)

lemma deque_list_length: "deque_inv q \<Longrightarrow> dq_count q = int (length (deque_list q))"
  by (erule deque_invE) (auto simp: ring_ok_def deque_list_def)

lemma deque_inv_ringI: "ring_ok q h c \<Longrightarrow> mincap_ok (dq_minCap q) \<Longrightarrow> deque_inv q"
  by (auto simp: deque_inv_def)

lemma deque_ring_nonempty:
  assumes "deque_inv q" "deque_list q \<noteq> []"
  obtains h c where "mincap_ok (dq_minCap q)" "ring_ok q h c" "0 < c"
    "deque_list q = ring_list (dq_buf q) h c" "c = length (deque_list q)"
proof (rule deque_invE [OF assms(1)])
  fix h c assume m: "mincap_ok (dq_minCap q)" and r: "ring_ok q h c"
  moreover have "0 < c" using assms(2) ring_ok_list [OF r] by (cases c) auto
  ultimately show thesis using that ring_ok_list [OF r] by simp
qed (use assms(2) in simp_all)

lemma ring_ok_next: "ring_ok q h c \<Longrightarrow> Deque_next q (int a) = int ((a + 1) mod length (dq_buf q))"
  using and_len_nat [of "length (dq_buf q)" _ "a + 1"]
  by (auto simp: ring_ok_def Deque_next_def add.commute)

lemma ring_ok_prev:
  "ring_ok q h c \<Longrightarrow> Deque_prev q (int a) = int ((a + length (dq_buf q) - 1) mod length (dq_buf q))"
  using and_len_prev [of "length (dq_buf q)" _ a] by (auto simp: ring_ok_def Deque_prev_def)

lemma ring_ok_tail_prev:
  assumes "ring_ok q h c" "0 < c"
  shows "Deque_prev q (dq_tail q) = int ((h + c - 1) mod length (dq_buf q))"
proof -
  have "0 < length (dq_buf q)" "dq_tail q = int ((h + c) mod length (dq_buf q))"
    using assms(1) by (auto simp: ring_ok_def)
  then show ?thesis
    using ring_ok_prev [OF assms(1), of "(h + c) mod length (dq_buf q)"]
      ring_index_pred [of "length (dq_buf q)" "h + c"] assms(2) by simp
qed

lemma ring_ok_at:
  "ring_ok q h c \<Longrightarrow> 0 \<le> i \<Longrightarrow>
   (dq_head q + i) AND (int (length (dq_buf q)) - 1) = int ((h + nat i) mod length (dq_buf q))"
  using and_len_nat [of "length (dq_buf q)" _ "h + nat i"] by (auto simp: ring_ok_def)

lemma Deque_resize_ok:
  assumes "ring_ok q h c" "0 < c"
  shows "Deque_resize z q = Inr (q\<lparr>dq_head := 0, dq_tail := int c,
      dq_buf := ring_list (dq_buf q) h c @ replicate c z\<rparr>)"
  using ring_grow_ok [of h "dq_buf q" c z] assms by (simp add: ring_ok_def Deque_resize_def)

lemma Deque_resized_ok:
  assumes "ring_ok q h c" "0 < c" "2 * c = 2 ^ k"
  shows "\<exists>q'. Deque_resize z q = Inr q' \<and> ring_ok q' 0 c \<and> dq_minCap q' = dq_minCap q \<and>
    deque_list q' = deque_list q \<and> length (dq_buf q') = 2 * c"
proof -
  define q' where "q' = q\<lparr>dq_head := 0, dq_tail := int c,
      dq_buf := ring_list (dq_buf q) h c @ replicate c z\<rparr>"
  have "ring_ok q' 0 c"
    using assms by (auto simp: ring_ok_def q'_def intro: exI [of _ k])
  moreover have "deque_list q' = deque_list q"
    using ring_list_prefix [of c "dq_buf q'"] ring_ok_list [OF assms(1)] ring_ok_list [OF \<open>ring_ok q' 0 c\<close>]
    by (simp add: q'_def)
  ultimately show ?thesis
    using Deque_resize_ok [OF assms(1,2), of z] by (simp add: q'_def)
qed

lemma Deque_growIfFull_ok:
  assumes "deque_inv q"
  shows "\<exists>q' h c. Deque_growIfFull z q = Inr q' \<and> mincap_ok (dq_minCap q') \<and> ring_ok q' h c \<and>
    c < length (dq_buf q') \<and> deque_list q' = deque_list q"
  using assms
proof (cases rule: deque_invE)
  case empty
  define m where "m = (if dq_minCap q = 0 then minCapacity else dq_minCap q)"
  obtain k where k: "m = 2 ^ k"
    using empty(1) by (auto simp: m_def mincap_ok_def minCapacity_def intro: that [of 4])
  let ?q = "q\<lparr>dq_minCap := m, dq_buf := replicate (2 ^ k) z\<rparr>"
  have "Deque_growIfFull z q = Inr ?q"
    using empty k go_make_ok [of z "2 ^ k"]
    by (auto simp: Deque_growIfFull_def m_def split: if_splits)
  moreover have "ring_ok ?q 0 0" "mincap_ok m" using empty k by (auto simp: ring_ok_def mincap_ok_def)
  ultimately show ?thesis using empty k ring_ok_list [of ?q 0 0]
    by (intro exI [of _ ?q] exI [of _ 0]) simp
next
  case (ring h c)
  show ?thesis
  proof (cases "c < length (dq_buf q)")
    case True
    with ring show ?thesis by (auto simp: Deque_growIfFull_def ring_ok_def)
  next
    case False
    with ring(2) obtain k where c: "c = length (dq_buf q)" "c = 2 ^ k" by (auto simp: ring_ok_def)
    then have "Deque_growIfFull z q = Deque_resize z q"
      using ring(2) by (auto simp: Deque_growIfFull_def ring_ok_def)
    moreover have pos: "0 < c" "2 * c = 2 ^ Suc k" using c(2) by simp_all
    obtain q' where "Deque_resize z q = Inr q'" "ring_ok q' 0 c" "dq_minCap q' = dq_minCap q"
      "deque_list q' = deque_list q" "length (dq_buf q') = 2 * c"
      using Deque_resized_ok [OF ring(2) pos, of z] by blast
    ultimately show ?thesis using pos(1) ring(1)
      by (intro exI [of _ q'] exI [of _ 0] exI [of _ c]) simp
  qed
qed

lemma Deque_shrinkIfExcess_ok:
  assumes "ring_ok q h c" "mincap_ok (dq_minCap q)"
  shows "\<exists>q'. Deque_shrinkIfExcess z q = Inr q' \<and> deque_inv q' \<and> deque_list q' = deque_list q"
proof (cases "dq_minCap q < int (length (dq_buf q)) \<and> push_bit 2 (dq_count q) = int (length (dq_buf q))")
  case True
  from assms(1) obtain k where k: "length (dq_buf q) = 2 ^ k" by (auto simp: ring_ok_def)
  from True assms(1) have l: "length (dq_buf q) = 4 * c" by (auto simp: ring_ok_def push_bit_eq_mult)
  have "2 \<le> k"
  proof (rule ccontr)
    assume "\<not> 2 \<le> k" then have "k = 0 \<or> k = 1" by auto
    then have "length (dq_buf q) = 1 \<or> length (dq_buf q) = 2" using k by auto
    with l show False by presburger
  qed
  then obtain j where "k = Suc j" "1 \<le> j" by (cases k) auto
  with k l have c: "2 * c = 2 ^ j" "0 < c" by (auto intro: Nat.gr0I)
  from Deque_resized_ok [OF assms(1) c(2,1), of z] obtain q' where
    "Deque_resize z q = Inr q'" "ring_ok q' 0 c" "dq_minCap q' = dq_minCap q"
    "deque_list q' = deque_list q" by blast
  with True assms(2) deque_inv_ringI [of q' 0 c] show ?thesis
    by (simp add: Deque_shrinkIfExcess_def)
qed (use assms in \<open>auto simp: Deque_shrinkIfExcess_def intro: deque_inv_ringI\<close>)

section \<open>The two ends\<close>

lemma Deque_PushBack_ok:
  assumes "deque_inv q"
  shows "\<exists>q'. Deque_PushBack z q x = Inr q' \<and> deque_inv q' \<and> deque_list q' = deque_list q @ [x]"
proof -
  from Deque_growIfFull_ok [OF assms, of z] obtain q1 h c where
    q1: "Deque_growIfFull z q = Inr q1" "mincap_ok (dq_minCap q1)" "ring_ok q1 h c"
      "c < length (dq_buf q1)" "deque_list q1 = deque_list q" by blast
  let ?l = "length (dq_buf q1)"
  let ?q = "q1\<lparr>dq_buf := (dq_buf q1)[(h + c) mod ?l := x], dq_tail := int ((h + c + 1) mod ?l),
      dq_count := int (c + 1)\<rparr>"
  have "Deque_next q1 (int ((h + c) mod ?l)) = int ((h + c + 1) mod ?l)"
    using ring_ok_next [OF q1(3), of "(h + c) mod ?l"] by (simp add: mod_Suc_eq)
  then have "Deque_PushBack z q x = Inr ?q"
    using q1 by (auto simp: Deque_PushBack_def ring_ok_def slice_set_ok)
  moreover have r: "ring_ok ?q h (c + 1)" using q1 by (auto simp: ring_ok_def)
  moreover have "deque_list ?q = deque_list q @ [x]"
    using ring_list_push_back [OF q1(4), of h x] ring_ok_list [OF r] ring_ok_list [OF q1(3)] q1(5)
    by simp
  ultimately show ?thesis using q1(2) by (auto intro: deque_inv_ringI)
qed

lemma Deque_PushFront_ok:
  assumes "deque_inv q"
  shows "\<exists>q'. Deque_PushFront z q x = Inr q' \<and> deque_inv q' \<and> deque_list q' = x # deque_list q"
proof -
  from Deque_growIfFull_ok [OF assms, of z] obtain q1 h c where
    q1: "Deque_growIfFull z q = Inr q1" "mincap_ok (dq_minCap q1)" "ring_ok q1 h c"
      "c < length (dq_buf q1)" "deque_list q1 = deque_list q" by blast
  let ?l = "length (dq_buf q1)"
  let ?p = "(h + ?l - 1) mod ?l"
  let ?q = "q1\<lparr>dq_head := int ?p, dq_buf := (dq_buf q1)[?p := x], dq_count := int (c + 1)\<rparr>"
  have l: "0 < ?l" using q1(4) by linarith
  then have p: "?p < ?l" by (rule mod_less_divisor)
  have "Deque_PushFront z q x = Inr ?q"
    using q1 p ring_ok_prev [OF q1(3), of h]
    by (auto simp: Deque_PushFront_def ring_ok_def slice_set_ok Let_def)
  moreover have r: "ring_ok ?q ?p (c + 1)"
    using q1 p ring_index_back [OF l, of h c] by (auto simp: ring_ok_def)
  moreover have "deque_list ?q = x # deque_list q"
    using ring_list_push_front [OF q1(4), of h x] ring_ok_list [OF r] ring_ok_list [OF q1(3)] q1(5)
    by simp
  ultimately show ?thesis using q1(2) by (auto intro: deque_inv_ringI)
qed

lemma Deque_PopFront_ok:
  assumes "deque_inv q" "deque_list q = y # ys"
  shows "\<exists>q'. Deque_PopFront z q = Inr (y, q') \<and> deque_inv q' \<and> deque_list q' = ys"
proof -
  from assms obtain h c where q: "mincap_ok (dq_minCap q)" "ring_ok q h c" "0 < c"
    "deque_list q = ring_list (dq_buf q) h c" by (auto elim: deque_ring_nonempty)
  let ?l = "length (dq_buf q)"
  let ?q = "q\<lparr>dq_buf := (dq_buf q)[h := z], dq_head := int ((h + 1) mod ?l), dq_count := int (c - 1)\<rparr>"
  have h: "h < ?l" "c \<le> ?l" using q(2) by (auto simp: ring_ok_def)
  have y: "dq_buf q ! h = y" using ring_list_hd [OF q(3) h(1)] assms(2) q(4) by simp
  have r: "ring_ok ?q ((h + 1) mod ?l) (c - 1)"
    using q h by (cases c) (auto simp: ring_ok_def)
  have l: "deque_list ?q = ys"
    using ring_ok_list [OF r] ring_list_pop_front [OF q(3) h(2,1), of z] assms(2) q(4) by simp
  have "Deque_PopFront z q = rbind (Deque_shrinkIfExcess z ?q) (\<lambda>q1. Inr (y, q1))"
    using q h y ring_ok_next [OF q(2), of h]
    by (auto simp: Deque_PopFront_def ring_ok_def slice_get_ok slice_set_ok of_nat_diff)
  with Deque_shrinkIfExcess_ok [OF r, of z] q(1) l show ?thesis by auto
qed

lemma Deque_PopBack_ok:
  assumes "deque_inv q" "deque_list q = ys @ [y]"
  shows "\<exists>q'. Deque_PopBack z q = Inr (y, q') \<and> deque_inv q' \<and> deque_list q' = ys"
proof -
  from assms obtain h c where q: "mincap_ok (dq_minCap q)" "ring_ok q h c" "0 < c"
    "deque_list q = ring_list (dq_buf q) h c" by (auto elim: deque_ring_nonempty)
  let ?l = "length (dq_buf q)"
  let ?t = "(h + c - 1) mod ?l"
  let ?q = "q\<lparr>dq_tail := int ?t, dq_buf := (dq_buf q)[?t := z], dq_count := int (c - 1)\<rparr>"
  have h: "h < ?l" "c \<le> ?l" "?t < ?l" using q(2) by (auto simp: ring_ok_def)
  have y: "dq_buf q ! ?t = y" using ring_list_last [OF q(3)] assms(2) q(4) by (metis last_snoc)
  have t: "Deque_prev q (dq_tail q) = int ?t" by (rule ring_ok_tail_prev [OF q(2,3)])
  have r: "ring_ok ?q h (c - 1)"
    using q h by (cases c) (auto simp: ring_ok_def)
  have l: "deque_list ?q = ys"
    using ring_ok_list [OF r] ring_list_pop_back [OF q(3) h(2), of h z] assms(2) q(4) by simp
  have "Deque_PopBack z q = rbind (Deque_shrinkIfExcess z ?q) (\<lambda>q1. Inr (y, q1))"
    using q(2,3) h y t unfolding Deque_PopBack_def Let_def
    by (simp add: ring_ok_def slice_get_ok slice_set_ok of_nat_diff)
  with Deque_shrinkIfExcess_ok [OF r, of z] q(1) l show ?thesis by auto
qed

lemma Deque_Pop_empty:
  assumes "deque_inv q" "deque_list q = []"
  shows "Deque_PopFront z q = Inl (PanicMsg ''deque: PopFront() called on empty queue'')"
    and "Deque_PopBack z q = Inl (PanicMsg ''deque: PopBack() called on empty queue'')"
    and "Deque_Front q = Inl (PanicMsg ''deque: Front() called when empty'')"
    and "Deque_Back q = Inl (PanicMsg ''deque: Back() called when empty'')"
  using deque_list_length [OF assms(1)] assms(2)
  by (simp_all add: Deque_PopFront_def Deque_PopBack_def Deque_Front_def Deque_Back_def)

section \<open>Reading and writing by index\<close>

lemma deque_nth:
  assumes "ring_ok q h c" "i < c"
  shows "slice_get (dq_buf q) ((dq_head q + int i) AND (int (length (dq_buf q)) - 1))
         = Inr (deque_list q ! i)"
proof -
  have "(h + i) mod length (dq_buf q) < length (dq_buf q)"
    using assms(1) by (auto simp: ring_ok_def)
  then show ?thesis
    using ring_ok_at [OF assms(1), of "int i"] ring_ok_list [OF assms(1)] assms(2)
    by (simp add: slice_get_ok)
qed

lemma Deque_At_ok:
  assumes "deque_inv q"
  shows "Deque_At q i =
    (if 0 \<le> i \<and> i < int (length (deque_list q)) then Inr (deque_list q ! nat i)
     else Inl (PanicMsg ''deque: At() called with index out of range''))"
  using assms
proof (cases rule: deque_invE)
  case empty
  then show ?thesis by (auto simp: Deque_At_def)
next
  case (ring h c)
  with deque_nth [OF ring(2), of "nat i"] deque_list_length [OF assms] show ?thesis
    by (auto simp: Deque_At_def ring_ok_def)
qed

lemma Deque_Set_ok:
  assumes "deque_inv q" "0 \<le> i" "i < int (length (deque_list q))"
  shows "\<exists>q'. Deque_Set q i x = Inr q' \<and> deque_inv q' \<and> deque_list q' = (deque_list q)[nat i := x]"
proof -
  have "deque_list q \<noteq> []" using assms by auto
  then obtain h c where q: "mincap_ok (dq_minCap q)" "ring_ok q h c"
    "deque_list q = ring_list (dq_buf q) h c" "c = length (deque_list q)"
    by (rule deque_ring_nonempty [OF assms(1)])
  let ?l = "length (dq_buf q)"
  let ?q = "q\<lparr>dq_buf := (dq_buf q)[(h + nat i) mod ?l := x]\<rparr>"
  have i: "nat i < c" "c \<le> ?l" "(h + nat i) mod ?l < ?l" "\<not> (i < 0 \<or> dq_count q \<le> i)"
    using assms(2,3) q(2) q(4) [symmetric] by (auto simp: ring_ok_def)
  have "Deque_Set q i x = Inr ?q"
    using i ring_ok_at [OF q(2) assms(2)] by (simp add: Deque_Set_def slice_set_ok)
  moreover have r: "ring_ok ?q h c" using q(2) by (simp add: ring_ok_def)
  moreover have "deque_list ?q = (deque_list q)[nat i := x]"
    using ring_ok_list [OF r] ring_list_update [OF i(1,2), of h x] q(3) by simp
  ultimately show ?thesis using q(1) by (auto intro: deque_inv_ringI)
qed

lemma Deque_Front_Back_ok:
  assumes "deque_inv q" "deque_list q \<noteq> []"
  shows "Deque_Front q = Inr (hd (deque_list q))" "Deque_Back q = Inr (last (deque_list q))"
proof -
  from assms obtain h c where q: "ring_ok q h c" "0 < c" "deque_list q = ring_list (dq_buf q) h c"
    by (auto elim: deque_ring_nonempty)
  let ?l = "length (dq_buf q)"
  have h: "h < ?l" "0 < ?l" using q(1) by (auto simp: ring_ok_def)
  show "Deque_Front q = Inr (hd (deque_list q))"
    using q h ring_list_hd [OF q(2) h(1)] by (simp add: Deque_Front_def ring_ok_def slice_get_ok)
  have "Deque_prev q (dq_tail q) = int ((h + c - 1) mod ?l)" by (rule ring_ok_tail_prev [OF q(1,2)])
  moreover have "(h + c - 1) mod ?l < ?l" using h(2) by (rule mod_less_divisor)
  ultimately show "Deque_Back q = Inr (last (deque_list q))"
    using q ring_list_last [OF q(2), of "dq_buf q" h]
    by (simp add: Deque_Back_def ring_ok_def slice_get_ok)
qed

section \<open>Searching\<close>

lemma index_from_ok:
  assumes "ring_ok q h c"
  shows "n + m = c \<Longrightarrow> index_from q f (int m) n =
    Inr (if \<exists>x \<in> set (drop m (deque_list q)). f x
         then int (m + length (takeWhile (\<lambda>x. \<not> f x) (drop m (deque_list q)))) else - 1)"
proof (induction n arbitrary: m)
  case 0
  then show ?case using ring_ok_list [OF assms] by simp
next
  case (Suc n)
  then have m: "m < c" by simp
  have d: "drop m (deque_list q) = deque_list q ! m # drop (Suc m) (deque_list q)"
    by (rule Cons_nth_drop_Suc [symmetric]) (use m ring_ok_list [OF assms] in simp)
  show ?case
    using Suc.IH [of "Suc m"] Suc.prems deque_nth [OF assms m]
    by (auto simp: d add.commute)
qed

lemma Deque_Index_ok:
  assumes "deque_inv q"
  shows "Deque_Index q f =
    Inr (if \<exists>x \<in> set (deque_list q). f x
         then int (length (takeWhile (\<lambda>x. \<not> f x) (deque_list q))) else - 1)"
  using assms
proof (cases rule: deque_invE)
  case empty
  then show ?thesis by (simp add: Deque_Index_def Deque_Len_def)
next
  case (ring h c)
  then have "dq_count q = int c" "c = length (deque_list q)"
    using ring_ok_list [OF ring(2)] by (simp_all add: ring_ok_def)
  with index_from_ok [OF ring(2), of c 0 f] show ?thesis
    by (simp add: Deque_Index_def Deque_Len_def)
qed

lemma rindex_from_ok:
  assumes "ring_ok q h c"
  shows "n \<le> c \<Longrightarrow> rindex_from q f n =
    Inr (if \<exists>x \<in> set (take n (deque_list q)). f x
         then int n - 1 - int (length (takeWhile (\<lambda>x. \<not> f x) (rev (take n (deque_list q))))) else - 1)"
proof (induction n)
  case 0
  then show ?case by simp
next
  case (Suc n)
  have t: "take (Suc n) (deque_list q) = take n (deque_list q) @ [deque_list q ! n]"
    using Suc.prems ring_ok_list [OF assms] by (simp add: take_Suc_conv_app_nth)
  show ?case
    using Suc deque_nth [OF assms, of n] by (auto simp: t)
qed

lemma Deque_RIndex_ok:
  assumes "deque_inv q"
  shows "Deque_RIndex q f =
    Inr (if \<exists>x \<in> set (deque_list q). f x
         then int (length (deque_list q)) - 1 -
              int (length (takeWhile (\<lambda>x. \<not> f x) (rev (deque_list q)))) else - 1)"
  using assms
proof (cases rule: deque_invE)
  case empty
  then show ?thesis by (simp add: Deque_RIndex_def Deque_Len_def)
next
  case (ring h c)
  then have "dq_count q = int c" "c = length (deque_list q)"
    using ring_ok_list [OF ring(2)] by (simp_all add: ring_ok_def)
  with rindex_from_ok [OF ring(2), of c f] show ?thesis
    by (simp add: Deque_RIndex_def Deque_Len_def)
qed

section \<open>Insert and Remove\<close>

lemma ring_list_swap:
  assumes "i < n" "j < n" "n \<le> length b"
  shows "ring_list (swap_list b ((h + i) mod length b) ((h + j) mod length b)) h n
         = swap_list (ring_list b h n) i j"
  using assms ring_list_update [of i n b h "b ! ((h + j) mod length b)"]
    ring_list_update [of j n "b[(h + i) mod length b := b ! ((h + j) mod length b)]" h
      "b ! ((h + i) mod length b)"]
  by (simp add: swap_list_def)

lemma swap_next_loop_ok:
  assumes "length b = 2 ^ k" "i + n < c" "c \<le> length b"
  shows "\<exists>b'. swap_next_loop b (int ((h + i) mod length b)) n = Inr b' \<and> length b' = length b \<and>
    ring_list b' h c = bubble_up (ring_list b h c) i n"
  using assms
proof (induction n arbitrary: b i)
  case 0
  then show ?case by simp
next
  case (Suc n)
  let ?l = "length b"
  have nx: "(int ((h + i) mod ?l) + 1) AND (int ?l - 1) = int ((h + Suc i) mod ?l)"
    using and_len_nat [OF Suc.prems(1), of "(h + i) mod ?l + 1"] by (simp add: mod_Suc_eq add.commute)
  have lt: "(h + i) mod ?l < ?l" "(h + Suc i) mod ?l < ?l"
    using Suc.prems by (auto intro!: mod_less_divisor)
  let ?b = "swap_list b ((h + i) mod ?l) ((h + Suc i) mod ?l)"
  obtain b' where "swap_next_loop ?b (int ((h + Suc i) mod length ?b)) n = Inr b'"
    "length b' = length ?b" "ring_list b' h c = bubble_up (ring_list ?b h c) (Suc i) n"
    using Suc.IH [of ?b "Suc i"] Suc.prems by auto
  moreover have "ring_list ?b h c = swap_list (ring_list b h c) i (Suc i)"
    by (rule ring_list_swap) (use Suc.prems in auto)
  ultimately show ?case
    using nx slice_swap_ok [OF lt] by (simp add: Let_def)
qed

lemma swap_prev_loop_ok:
  assumes "length b = 2 ^ k" "n \<le> i" "i < c" "c \<le> length b"
  shows "\<exists>b'. swap_prev_loop b (int ((h + i) mod length b)) n = Inr b' \<and> length b' = length b \<and>
    ring_list b' h c = bubble_down (ring_list b h c) i n"
  using assms
proof (induction n arbitrary: b i)
  case 0
  then show ?case by simp
next
  case (Suc n)
  let ?l = "length b"
  obtain j where j: "i = Suc j" using Suc.prems by (cases i) auto
  have l: "0 < ?l" using Suc.prems by linarith
  have "((h + Suc j) mod ?l + ?l - 1) mod ?l = (h + j) mod ?l"
    using ring_index_pred [OF l, of "h + Suc j"] by simp
  then have pv: "(int ((h + i) mod ?l) - 1) AND (int ?l - 1) = int ((h + j) mod ?l)"
    using and_len_prev [OF Suc.prems(1), of "(h + i) mod ?l"] j by simp
  have lt: "(h + i) mod ?l < ?l" "(h + j) mod ?l < ?l"
    using l by simp_all
  let ?b = "swap_list b ((h + i) mod ?l) ((h + j) mod ?l)"
  obtain b' where "swap_prev_loop ?b (int ((h + j) mod length ?b)) n = Inr b'"
    "length b' = length ?b" "ring_list b' h c = bubble_down (ring_list ?b h c) j n"
    using Suc.IH [of ?b j] Suc.prems j by auto
  moreover have "ring_list ?b h c = swap_list (ring_list b h c) i j"
    by (rule ring_list_swap) (use Suc.prems j in auto)
  ultimately show ?case
    using pv slice_swap_ok [OF lt] j by (simp add: Let_def)
qed

text \<open>Both loops as one fact on a deque: the buffer changes, the frame of the ring stays.\<close>

lemma swap_loop_ring:
  assumes "ring_ok q h c" "length b = length (dq_buf q)"
  shows "ring_ok (q\<lparr>dq_buf := b\<rparr>) h c" "deque_list (q\<lparr>dq_buf := b\<rparr>) = ring_list b h c"
  using assms ring_ok_list [of "q\<lparr>dq_buf := b\<rparr>" h c] by (simp_all add: ring_ok_def)

lemma Deque_Insert_ok:
  assumes inv: "deque_inv q" and at: "0 \<le> at" "at \<le> int (length (deque_list q))"
  shows "\<exists>q'. Deque_Insert z q at x = Inr q' \<and> deque_inv q' \<and>
    deque_list q' = take (nat at) (deque_list q) @ x # drop (nat at) (deque_list q)"
proof -
  let ?xs = "deque_list q" and ?n = "nat at"
  have cnt: "dq_count q = int (length ?xs)" by (rule deque_list_length [OF inv])
  have n: "?n \<le> length ?xs" "at = int ?n" using at by simp_all
  show ?thesis
  proof (cases "at * 2 < dq_count q")
    case True
    obtain q1 where q1: "Deque_PushFront z q x = Inr q1" "deque_inv q1" "deque_list q1 = x # ?xs"
      using Deque_PushFront_ok [OF inv, of z x] by blast
    then obtain h c where r: "mincap_ok (dq_minCap q1)" "ring_ok q1 h c"
      "deque_list q1 = ring_list (dq_buf q1) h c" "c = length (deque_list q1)"
      by (metis deque_ring_nonempty list.distinct(1))
    from r(2) obtain k where k: "length (dq_buf q1) = 2 ^ k" by (auto simp: ring_ok_def)
    have hd: "dq_head q1 = int ((h + 0) mod length (dq_buf q1))" "c \<le> length (dq_buf q1)" "0 + ?n < c"
      using r(2,4) q1(3) n by (simp_all add: ring_ok_def)
    obtain b where b: "swap_next_loop (dq_buf q1) (dq_head q1) ?n = Inr b"
      "length b = length (dq_buf q1)" "ring_list b h c = bubble_up (x # ?xs) 0 ?n"
      using swap_next_loop_ok [OF k hd(3,2), of h] hd(1) r(3) q1(3) by auto
    have "bubble_up (x # ?xs) 0 ?n = take ?n ?xs @ x # drop ?n ?xs"
      using bubble_up_move [of "[]" 0 x "take ?n ?xs" "drop ?n ?xs"] n(1) by (simp add: min_absorb2)
    with b swap_loop_ring [OF r(2) b(2)] r(1) q1(1) True cnt at show ?thesis
      by (auto simp: Deque_Insert_def intro: deque_inv_ringI)
  next
    case False
    obtain q1 where q1: "Deque_PushBack z q x = Inr q1" "deque_inv q1" "deque_list q1 = ?xs @ [x]"
      using Deque_PushBack_ok [OF inv, of z x] by blast
    then obtain h c where r: "mincap_ok (dq_minCap q1)" "ring_ok q1 h c"
      "deque_list q1 = ring_list (dq_buf q1) h c" "c = length (deque_list q1)"
      by (metis deque_ring_nonempty snoc_eq_iff_butlast)
    let ?l = "length (dq_buf q1)" and ?m = "length ?xs - ?n"
    from r(2) obtain k where k: "?l = 2 ^ k" by (auto simp: ring_ok_def)
    have c: "c = Suc (length ?xs)" "c \<le> ?l" "0 < ?l" using r(2,4) q1(3) by (auto simp: ring_ok_def)
    have tl: "Deque_prev q1 (dq_tail q1) = int ((h + length ?xs) mod ?l)"
      using ring_ok_tail_prev [OF r(2)] c(1) by simp
    obtain b where b: "swap_prev_loop (dq_buf q1) (Deque_prev q1 (dq_tail q1)) ?m = Inr b"
      "length b = ?l" "ring_list b h c = bubble_down (?xs @ [x]) (length ?xs) ?m"
      using swap_prev_loop_ok [OF k, of ?m "length ?xs" c h] c tl r(3) q1(3) by auto
    have app: "take ?n ?xs @ drop ?n ?xs @ [x] = ?xs @ [x]" by (simp flip: append_assoc)
    have "bubble_down (?xs @ [x]) (length ?xs) ?m = take ?n ?xs @ x # drop ?n ?xs"
      using bubble_down_move [of "take ?n ?xs" "drop ?n ?xs" "length ?xs" x "[]"] n(1)
      by (simp add: min_absorb2 app)
    moreover have "nat (dq_count q - at) = ?m" using cnt n by linarith
    ultimately show ?thesis
      using b swap_loop_ring [OF r(2) b(2)] r(1) q1(1) False cnt at
      by (auto simp: Deque_Insert_def intro: deque_inv_ringI)
  qed
qed

lemma Deque_Remove_ok:
  assumes inv: "deque_inv q" and at: "0 \<le> at" "at < int (length (deque_list q))"
  shows "\<exists>q'. Deque_Remove z q at = Inr (deque_list q ! nat at, q') \<and> deque_inv q' \<and>
    deque_list q' = take (nat at) (deque_list q) @ drop (Suc (nat at)) (deque_list q)"
proof -
  let ?xs = "deque_list q" and ?n = "nat at" and ?l = "length (dq_buf q)"
  have cnt: "dq_count q = int (length ?xs)" by (rule deque_list_length [OF inv])
  have n: "?n < length ?xs" "at = int ?n" using at by simp_all
  then have "?xs \<noteq> []" by auto
  then obtain h c where r: "mincap_ok (dq_minCap q)" "ring_ok q h c"
    "?xs = ring_list (dq_buf q) h c" "c = length ?xs"
    by (rule deque_ring_nonempty [OF inv])
  from r(2) obtain k where k: "?l = 2 ^ k" by (auto simp: ring_ok_def)
  have c: "c \<le> ?l" using r(2) by (simp add: ring_ok_def)
  have rm: "(dq_head q + at) AND (int ?l - 1) = int ((h + ?n) mod ?l)"
    by (rule ring_ok_at [OF r(2) at(1)])
  have xs: "?xs = take ?n ?xs @ ?xs ! ?n # drop (Suc ?n) ?xs"
    by (rule id_take_nth_drop [OF n(1)])
  have lens: "length (take ?n ?xs) = ?n" "length (drop (Suc ?n) ?xs) = c - Suc ?n"
    using n r(4) by simp_all
  have cn: "?n < c" using n(1) r(4) by simp
  show ?thesis
  proof (cases "at * 2 < dq_count q")
    case True
    obtain b where b: "swap_prev_loop (dq_buf q) (int ((h + ?n) mod ?l)) ?n = Inr b"
      "length b = ?l" "ring_list b h c = bubble_down ?xs ?n ?n"
      using swap_prev_loop_ok [OF k order_refl cn c, of h] r(3) by auto
    have "bubble_down ?xs ?n ?n = ?xs ! ?n # take ?n ?xs @ drop (Suc ?n) ?xs"
      using bubble_down_move [of "[]" "take ?n ?xs" ?n "?xs ! ?n" "drop (Suc ?n) ?xs"] lens(1)
      by (simp add: xs [symmetric])
    then have "deque_list (q\<lparr>dq_buf := b\<rparr>) = ?xs ! ?n # take ?n ?xs @ drop (Suc ?n) ?xs"
      using swap_loop_ring(2) [OF r(2) b(2)] b(3) by simp
    moreover have "deque_inv (q\<lparr>dq_buf := b\<rparr>)"
      using swap_loop_ring(1) [OF r(2) b(2)] r(1) by (auto intro: deque_inv_ringI)
    ultimately show ?thesis
      using Deque_PopFront_ok [of "q\<lparr>dq_buf := b\<rparr>" "?xs ! ?n" "take ?n ?xs @ drop (Suc ?n) ?xs" z]
        b(1) True cnt at rm by (simp add: Deque_Remove_def Deque_Len_def)
  next
    case False
    let ?m = "c - Suc ?n"
    obtain b where b: "swap_next_loop (dq_buf q) (int ((h + ?n) mod ?l)) ?m = Inr b"
      "length b = ?l" "ring_list b h c = bubble_up ?xs ?n ?m"
      using swap_next_loop_ok [OF k _ c, of ?n ?m h] r(3) cn by auto
    have "bubble_up ?xs ?n ?m = (take ?n ?xs @ drop (Suc ?n) ?xs) @ [?xs ! ?n]"
      using bubble_up_move [of "take ?n ?xs" ?n "?xs ! ?n" "drop (Suc ?n) ?xs" "[]"] lens
      by (simp add: xs [symmetric])
    then have "deque_list (q\<lparr>dq_buf := b\<rparr>) = (take ?n ?xs @ drop (Suc ?n) ?xs) @ [?xs ! ?n]"
      using swap_loop_ring(2) [OF r(2) b(2)] b(3) by simp
    moreover have "deque_inv (q\<lparr>dq_buf := b\<rparr>)"
      using swap_loop_ring(1) [OF r(2) b(2)] r(1) by (auto intro: deque_inv_ringI)
    moreover have "nat (dq_count q - at - 1) = ?m" using cnt n r(4) by linarith
    ultimately show ?thesis
      using Deque_PopBack_ok [of "q\<lparr>dq_buf := b\<rparr>" "take ?n ?xs @ drop (Suc ?n) ?xs" "?xs ! ?n" z]
        b(1) False cnt at rm by (simp add: Deque_Remove_def Deque_Len_def)
  qed
qed

section \<open>Rotate\<close>

lemma rotate_front_step:
  assumes "ring_ok q h c" "0 < c" "c < length (dq_buf q)"
  shows "\<exists>q'. rotate_front z (Suc n) q = rotate_front z n q' \<and>
    ring_ok q' ((h + 1) mod length (dq_buf q)) c \<and> length (dq_buf q') = length (dq_buf q) \<and>
    dq_minCap q' = dq_minCap q \<and> deque_list q' = rotate1 (deque_list q)"
proof -
  let ?l = "length (dq_buf q)" and ?t = "(h + c) mod length (dq_buf q)"
  let ?b = "(dq_buf q)[?t := dq_buf q ! h]"
  let ?q = "q\<lparr>dq_buf := ?b[h := z], dq_head := int ((h + 1) mod ?l), dq_tail := int ((h + c + 1) mod ?l)\<rparr>"
  have h: "h < ?l" "?t < ?l" "dq_head q = int h" "dq_tail q = int ?t"
    using assms(1) by (auto simp: ring_ok_def)
  have nx: "(int h + 1) AND (int ?l - 1) = int ((h + 1) mod ?l)"
    "(int ?t + 1) AND (int ?l - 1) = int ((h + c + 1) mod ?l)"
    using ring_ok_next [OF assms(1), of h] ring_ok_next [OF assms(1), of ?t]
    by (simp_all add: Deque_next_def mod_Suc_eq)
  have step: "rotate_front z (Suc n) q = rotate_front z n ?q"
    using h nx slice_get_ok [OF h(1)] slice_set_ok [OF h(2)] slice_set_ok [of h ?b z]
    by (simp add: Let_def)
  have r: "ring_ok ?q ((h + 1) mod ?l) c"
    using assms h by (auto simp: ring_ok_def)
  obtain y ys where y: "deque_list q = y # ys" "y = dq_buf q ! h"
    using ring_ok_list [OF assms(1)] ring_list_hd [OF assms(2) h(1)]
    by (metis assms(2) length_greater_0_conv length_ring_list list.collapse)
  have "ring_list ?b h (Suc c) = deque_list q @ [y]"
    using ring_list_push_back [OF assms(3), of h y] ring_ok_list [OF assms(1)] y(2) by simp
  then have "deque_list ?q = rotate1 (deque_list q)"
    using ring_ok_list [OF r] ring_list_pop_front [of "Suc c" ?b h z] assms(3) h(1) y(1) by simp
  with step r show ?thesis by (intro exI [of _ ?q]) simp
qed

lemma rotate_front_ok:
  "ring_ok q h c \<Longrightarrow> 0 < c \<Longrightarrow> c < length (dq_buf q) \<Longrightarrow> mincap_ok (dq_minCap q) \<Longrightarrow>
   \<exists>q'. rotate_front z n q = Inr q' \<and> deque_inv q' \<and> deque_list q' = rotate n (deque_list q)"
proof (induction n arbitrary: q h)
  case 0
  then show ?case by (auto intro: deque_inv_ringI)
next
  case (Suc n)
  from rotate_front_step [OF Suc.prems(1-3), of z n] obtain q1 where
    q1: "rotate_front z (Suc n) q = rotate_front z n q1"
      "ring_ok q1 ((h + 1) mod length (dq_buf q)) c" "length (dq_buf q1) = length (dq_buf q)"
      "dq_minCap q1 = dq_minCap q" "deque_list q1 = rotate1 (deque_list q)" by blast
  with Suc.IH [OF q1(2)] Suc.prems show ?case
    by (simp add: rotate_def funpow_swap1)
qed

lemma rotate_back_step:
  assumes "ring_ok q h c" "0 < c" "c < length (dq_buf q)"
  shows "\<exists>q'. rotate_back z (Suc n) q = rotate_back z n q' \<and>
    ring_ok q' ((h + length (dq_buf q) - 1) mod length (dq_buf q)) c \<and>
    length (dq_buf q') = length (dq_buf q) \<and> dq_minCap q' = dq_minCap q \<and>
    rotate1 (deque_list q') = deque_list q"
proof -
  let ?l = "length (dq_buf q)"
  let ?p = "(h + ?l - 1) mod ?l" and ?t = "(h + c - 1) mod ?l"
  let ?b = "(dq_buf q)[?p := dq_buf q ! ?t]"
  let ?q = "q\<lparr>dq_head := int ?p, dq_tail := int ?t, dq_buf := ?b[?t := z]\<rparr>"
  have l: "0 < ?l" and h: "dq_head q = int h" using assms(1) by (auto simp: ring_ok_def)
  have pt: "?p < ?l" "?t < ?l" using l by simp_all
  have pv: "(dq_head q - 1) AND (int ?l - 1) = int ?p" "(dq_tail q - 1) AND (int ?l - 1) = int ?t"
    using ring_ok_prev [OF assms(1), of h] ring_ok_tail_prev [OF assms(1,2)] h
    by (simp_all add: Deque_prev_def)
  have step: "rotate_back z (Suc n) q = rotate_back z n ?q"
    using pv slice_get_ok [OF pt(2)] slice_set_ok [OF pt(1)] slice_set_ok [of ?t ?b z] pt
    by (simp add: Let_def)
  have pc: "(?p + c) mod ?l = ?t"
    using ring_index_back [OF l, of h "c - 1"] assms(2) by simp
  have r: "ring_ok ?q ?p c" using assms pt pc by (auto simp: ring_ok_def)
  obtain y ys where y: "deque_list q = ys @ [y]" "y = dq_buf q ! ?t"
    using ring_ok_list [OF assms(1)] ring_list_last [OF assms(2), of "dq_buf q" h]
    by (metis append_butlast_last_id assms(2) length_greater_0_conv length_ring_list)
  have "ring_list ?b ?p (Suc c) = y # deque_list q"
    using ring_list_push_front [OF assms(3), of h y] ring_ok_list [OF assms(1)] y(2) by simp
  then have "deque_list ?q = butlast (y # ys @ [y])"
    using ring_ok_list [OF r] ring_list_pop_back [of "Suc c" ?b ?p z] assms(3) pc y(1) by simp
  then have "rotate1 (deque_list ?q) = deque_list q" using y(1) by (simp add: butlast_append)
  with step r show ?thesis by (intro exI [of _ ?q]) simp
qed

lemma rotate_back_ok:
  "ring_ok q h c \<Longrightarrow> 0 < c \<Longrightarrow> c < length (dq_buf q) \<Longrightarrow> mincap_ok (dq_minCap q) \<Longrightarrow>
   \<exists>q'. rotate_back z n q = Inr q' \<and> deque_inv q' \<and> rotate n (deque_list q') = deque_list q"
proof (induction n arbitrary: q h)
  case 0
  then show ?case by (auto intro: deque_inv_ringI)
next
  case (Suc n)
  from rotate_back_step [OF Suc.prems(1-3), of z n] obtain q1 where
    q1: "rotate_back z (Suc n) q = rotate_back z n q1"
      "ring_ok q1 ((h + length (dq_buf q) - 1) mod length (dq_buf q)) c"
      "length (dq_buf q1) = length (dq_buf q)" "dq_minCap q1 = dq_minCap q"
      "rotate1 (deque_list q1) = deque_list q" by blast
  obtain q' where "rotate_back z n q1 = Inr q'" "deque_inv q'" "rotate n (deque_list q') = deque_list q1"
    using Suc.IH [OF q1(2)] q1(3,4) Suc.prems by auto
  with q1 show ?case by (auto simp: rotate_def)
qed

text \<open>Undoing \<open>k\<close> single rotations is rotating on by the rest of the round.\<close>

lemma rotate_inverse:
  assumes "rotate k xs = ys" "k \<le> length xs"
  shows "xs = rotate (length xs - k) ys"
  using assms rotate_rotate [of "length xs - k" k xs] by simp

lemma ring_list_rotate:
  assumes "h < length b"
  shows "ring_list b ((h + m) mod length b) (length b) = rotate m (ring_list b h (length b))"
proof (rule nth_equalityI)
  fix i assume "i < length (ring_list b ((h + m) mod length b) (length b))"
  then have i: "i < length b" by simp
  have lt: "(m + i) mod length b < length b" using i by (intro mod_less_divisor) linarith
  have "rotate m (ring_list b h (length b)) ! i = ring_list b h (length b) ! ((m + i) mod length b)"
    using i by (simp add: nth_rotate)
  also have "\<dots> = b ! ((h + (m + i)) mod length b)"
    using lt by (simp add: mod_add_right_eq)
  finally show "ring_list b ((h + m) mod length b) (length b) ! i = rotate m (ring_list b h (length b)) ! i"
    using i by (simp add: mod_add_left_eq add.assoc)
qed simp

lemma deque_full_iff:
  assumes "ring_ok q h c" "0 < c"
  shows "dq_head q = dq_tail q \<longleftrightarrow> c = length (dq_buf q)"
proof
  assume "dq_head q = dq_tail q"
  then have eq: "(h + 0) mod length (dq_buf q) = (h + c) mod length (dq_buf q)"
    using assms(1) by (simp add: ring_ok_def)
  show "c = length (dq_buf q)"
  proof (rule ccontr)
    assume "c \<noteq> length (dq_buf q)"
    then have "c < length (dq_buf q)" using assms(1) by (simp add: ring_ok_def)
    moreover from this have "0 < length (dq_buf q)" by linarith
    ultimately show False using eq ring_index_inj [of 0 "length (dq_buf q)" c h] assms(2) by simp
  qed
next
  assume "c = length (dq_buf q)"
  with assms(1) show "dq_head q = dq_tail q" by (simp add: ring_ok_def)
qed

lemma Deque_Rotate_full:
  assumes "mincap_ok (dq_minCap q)" "ring_ok q h c" "c = length (dq_buf q)"
  shows "\<exists>q'. (let h = (dq_head q + m) AND (int (length (dq_buf q)) - 1) in
      Inr (q\<lparr>dq_head := h, dq_tail := h\<rparr>) :: 'a Deque go) = Inr q' \<and> deque_inv q' \<and>
    deque_list q' = rotate (nat (m mod int c)) (deque_list (q :: 'a Deque))"
proof -
  let ?l = "length (dq_buf q)" and ?m = "nat (m mod int c)"
  obtain k where k: "?l = 2 ^ k" and h: "h < ?l" "dq_head q = int h"
    using assms(2) by (auto simp: ring_ok_def)
  have "(int h + m) AND (int ?l - 1) = (int h + m) mod int ?l" by (simp add: k and_pow2)
  also have "\<dots> = (int h + m mod int c) mod int ?l" using assms(3) by (simp add: mod_add_right_eq)
  also have "m mod int c = int ?m"
  proof -
    have "0 < int c" using h(1) assms(3) by linarith
    then have "0 \<le> m mod int c" by (rule pos_mod_sign)
    then show ?thesis by simp
  qed
  finally have p: "(dq_head q + m) AND (int ?l - 1) = int ((h + ?m) mod ?l)"
    using h(2) by (simp add: zmod_int)
  let ?q = "q\<lparr>dq_head := int ((h + ?m) mod ?l), dq_tail := int ((h + ?m) mod ?l)\<rparr>"
  have r: "ring_ok ?q ((h + ?m) mod ?l) c"
    using assms h k by (auto simp: ring_ok_def mod_add_left_eq)
  have "deque_list ?q = rotate ?m (deque_list q)"
    using ring_ok_list [OF r] ring_ok_list [OF assms(2)] ring_list_rotate [OF h(1), of ?m] assms(3)
    by simp
  with r assms(1) p show ?thesis
    by (intro exI [of _ ?q]) (auto simp: Let_def intro: deque_inv_ringI)
qed

lemma Deque_Rotate_ok:
  assumes "deque_inv q"
  shows "\<exists>q'. Deque_Rotate z q n = Inr q' \<and> deque_inv q' \<and>
    deque_list q' = rotate (nat (n mod int (length (deque_list q)))) (deque_list q)"
proof (cases "length (deque_list q) \<le> 1")
  case True
  then have "rotate k (deque_list q) = deque_list q" for k by (rule rotate_length01)
  with True deque_list_length [OF assms] assms show ?thesis
    by (simp add: Deque_Rotate_def Deque_Len_def)
next
  case False
  let ?c = "length (deque_list q)" and ?m = "go_rem n (dq_count q)"
  from False have ne: "deque_list q \<noteq> []" by auto
  then obtain h c where r: "mincap_ok (dq_minCap q)" "ring_ok q h c" "0 < c" "c = ?c"
    by (rule deque_ring_nonempty [OF assms])
  have c: "dq_count q = int ?c" "1 < ?c" "\<not> Deque_Len (Some q) \<le> 1"
    using deque_list_length [OF assms] False by (simp_all add: Deque_Len_def)
  have m: "?m mod int ?c = n mod int ?c" "\<bar>?m\<bar> < int ?c"
    using go_rem_mod [of "int ?c" n] go_rem_abs_less [of "int ?c" n] c ne by simp_all
  consider (zero) "?m = 0" | (full) "?m \<noteq> 0" "dq_head q = dq_tail q"
    | (negative) "?m < 0" "dq_head q \<noteq> dq_tail q" | (positive) "0 < ?m" "dq_head q \<noteq> dq_tail q"
    by linarith
  then show ?thesis
  proof cases
    case zero
    with m(1) c assms show ?thesis by (simp add: Deque_Rotate_def)
  next
    case full
    then have "c = length (dq_buf q)" using deque_full_iff [OF r(2,3)] by simp
    from Deque_Rotate_full [OF r(1,2) this, of ?m] full c m(1) r(4) show ?thesis
      by (simp add: Deque_Rotate_def)
  next
    case negative
    then have "c < length (dq_buf q)" using deque_full_iff [OF r(2,3)] r(2) by (simp add: ring_ok_def)
    from rotate_back_ok [OF r(2,3) this r(1), of z "nat (- ?m)"] obtain q' where
      q': "rotate_back z (nat (- ?m)) q = Inr q'" "deque_inv q'"
        "rotate (nat (- ?m)) (deque_list q') = deque_list q" by blast
    then have "length (deque_list q') = ?c" by (metis length_rotate)
    then have "deque_list q' = rotate (?c - nat (- ?m)) (deque_list q)"
      using rotate_inverse [OF q'(3)] m(2) by simp
    moreover have "nat (n mod int ?c) = ?c - nat (- ?m)"
      using m negative(1) mod_pos_pos_trivial [of "?m + int ?c" "int ?c"] by simp
    ultimately show ?thesis using q' negative c by (simp add: Deque_Rotate_def)
  next
    case positive
    then have "c < length (dq_buf q)" using deque_full_iff [OF r(2,3)] r(2) by (simp add: ring_ok_def)
    moreover have "n mod int ?c = ?m" using m positive(1) mod_pos_pos_trivial [of ?m "int ?c"] by simp
    ultimately show ?thesis
      using rotate_front_ok [OF r(2,3) _ r(1), of z "nat ?m"] positive c by (simp add: Deque_Rotate_def)
  qed
qed

section \<open>Clear, New and SetMinCapacity\<close>

lemma clear_loop_ok:
  "length b = 2 ^ k \<Longrightarrow> a < length b \<Longrightarrow> n < length b \<Longrightarrow>
   \<exists>b'. clear_loop z b (int a) (int ((a + n) mod length b)) = Some (Inr b') \<and> length b' = length b \<and>
     (\<forall>i < length b. b' ! i = (if \<exists>j < n. i = (a + j) mod length b then z else b ! i))"
proof (induction n arbitrary: a b)
  case 0
  then show ?case by (simp add: clear_loop.simps [of z b "int a"])
next
  case (Suc n)
  let ?l = "length b" and ?b = "b[a := z]" and ?a = "(a + 1) mod length b"
  have l: "0 < ?l" using Suc.prems by linarith
  have ne: "(a + Suc n) mod ?l \<noteq> a"
    using ring_index_inj [OF Suc.prems(3) l, of a] Suc.prems(2) by simp
  have nx: "(int a + 1) AND (int ?l - 1) = int ?a"
    using and_len_nat [OF Suc.prems(1), of "a + 1"] by (simp add: add.commute)
  have t: "(a + Suc n) mod ?l = (?a + n) mod length ?b" by simp
  have unf: "clear_loop z b (int a) (int ((a + Suc n) mod ?l))
      = clear_loop z ?b (int ?a) (int ((?a + n) mod length ?b))"
    using ne nx t slice_set_ok [OF Suc.prems(2), of z]
    by (subst clear_loop.simps) (simp del: ring_index_shift add_Suc_right)
  obtain b' where b': "clear_loop z ?b (int ?a) (int ((?a + n) mod length ?b)) = Some (Inr b')"
    "length b' = length ?b"
    "\<forall>i < length ?b. b' ! i = (if \<exists>j < n. i = (?a + j) mod length ?b then z else ?b ! i)"
    using Suc.IH [of ?b ?a] Suc.prems l by auto
  have "(\<exists>j < Suc n. i = (a + j) mod ?l) \<longleftrightarrow> i = a \<or> (\<exists>j < n. i = (?a + j) mod ?l)" for i
    using Suc.prems(2) by (auto simp: less_Suc_eq_0_disj)
  with b' unf show ?case by (simp add: nth_list_update) auto
qed

lemma Deque_Clear_ok:
  assumes "deque_inv q"
  shows "\<exists>q'. Deque_Clear z q = Some (Inr q') \<and> deque_inv q' \<and> deque_list q' = [] \<and>
    length (dq_buf q') = length (dq_buf q)"
  using assms
proof (cases rule: deque_invE)
  case empty
  then show ?thesis using assms
    by (simp add: Deque_Clear_def clear_loop.simps deque_inv_def deque_list_def)
next
  case (ring h c)
  let ?l = "length (dq_buf q)"
  obtain k where k: "?l = 2 ^ k" "h < ?l" "dq_head q = int h" "dq_tail q = int ((h + c) mod ?l)"
    "c \<le> ?l" using ring(2) by (auto simp: ring_ok_def)
  have "(h + c) mod ?l = (h + c mod ?l) mod ?l" by (simp add: mod_add_right_eq)
  moreover have "c mod ?l < ?l" using k by simp
  ultimately obtain b where b: "clear_loop z (dq_buf q) (dq_head q) (dq_tail q) = Some (Inr b)"
    "length b = ?l" using clear_loop_ok [OF k(1,2), of "c mod ?l" z] k by auto
  let ?q = "q\<lparr>dq_buf := b, dq_head := 0, dq_tail := 0, dq_count := 0\<rparr>"
  have r: "ring_ok ?q 0 0" using b(2) k by (auto simp: ring_ok_def)
  with b ring(1) ring_ok_list [OF r] deque_inv_ringI [OF r] show ?thesis
    by (simp add: Deque_Clear_def)
qed

text \<open>Of a full deque \<^verbatim>\<open>Clear\<close> resets the indices and leaves every element in the buffer.\<close>

lemma Deque_Clear_full:
  assumes "ring_ok q h c" "c = length (dq_buf q)"
  shows "Deque_Clear z q = Some (Inr (q\<lparr>dq_head := 0, dq_tail := 0, dq_count := 0\<rparr>))"
proof -
  have "dq_head q = dq_tail q" using assms by (simp add: ring_ok_def)
  then show ?thesis by (simp add: Deque_Clear_def clear_loop.simps)
qed

lemma shl_until_ok:
  assumes "j \<le> 62" "bound \<le> 2 ^ 62"
  shows "\<exists>k. j \<le> k \<and> k \<le> 62 \<and> shl_until (2 ^ j) bound = Some (2 ^ k) \<and> bound \<le> 2 ^ k"
  using assms
proof (induction "62 - j" arbitrary: j rule: less_induct)
  case less
  show ?case
  proof (cases "(2::int) ^ j < bound")
    case False
    then show ?thesis using less.prems by (auto simp: shl_until.simps [of "2 ^ j"] intro: exI [of _ j])
  next
    case True
    then have "(2::int) ^ j < 2 ^ 62" using less.prems(2) by linarith
    then have j: "j < 62" using power_less_imp_less_exp [of 2 j 62] by simp
    then have "(2::int) ^ Suc j \<le> 2 ^ 62" using power_increasing [of "Suc j" 62 "2::int"] by simp
    then have "wrap64 (push_bit 1 (2 ^ j)) = 2 ^ Suc j"
      by (subst wrap64_nonneg) (simp_all add: push_bit_eq_mult)
    with True have "shl_until (2 ^ j) bound = shl_until (2 ^ Suc j) bound"
      by (subst shl_until.simps) simp
    with less.hyps [of "Suc j"] j less.prems(2) show ?thesis by fastforce
  qed
qed

lemma NewDeque_ok:
  fixes sizes :: "int list"
  defines "capacity \<equiv> (case sizes of [] \<Rightarrow> 0 | c # _ \<Rightarrow> c)"
    and "minimum \<equiv> (case sizes of _ # m # _ \<Rightarrow> m | _ \<Rightarrow> 0)"
  assumes cap: "capacity \<le> 2 ^ 62" and min: "minimum \<le> 2 ^ 62"
  shows "\<exists>q. NewDeque z sizes = Some (Inr q) \<and> deque_inv q \<and> deque_list q = [] \<and>
    16 \<le> dq_minCap q \<and> minimum \<le> dq_minCap q \<and>
    (if capacity = 0 then dq_buf q = []
     else capacity \<le> int (length (dq_buf q)) \<and> dq_minCap q \<le> int (length (dq_buf q)))"
proof -
  from shl_until_ok [OF _ min, of 4] obtain k where
    k: "4 \<le> k" "k \<le> 62" "shl_until minCapacity minimum = Some (2 ^ k)" "minimum \<le> 2 ^ k"
    by (auto simp: minCapacity_def)
  have k16: "(16::int) \<le> 2 ^ k" using power_increasing [OF k(1), of "2::int"] by simp
  from shl_until_ok [OF k(2) cap] obtain j where
    j: "k \<le> j" "shl_until (2 ^ k) capacity = Some (2 ^ j)" "capacity \<le> 2 ^ j" by blast
  have kj: "(2::int) ^ k \<le> 2 ^ j" using power_increasing [OF j(1), of "2::int"] by simp
  show ?thesis
  proof (cases "capacity = 0")
    case True
    let ?q = "\<lparr>dq_buf = [], dq_head = 0, dq_tail = 0, dq_count = 0, dq_minCap = 2 ^ k\<rparr> :: 'a Deque"
    have "NewDeque z sizes = Some (Inr ?q)"
      using True k(3) by (simp add: NewDeque_def capacity_def minimum_def)
    then show ?thesis using True k k16
      by (auto simp: deque_inv_def mincap_ok_def deque_list_def)
  next
    case False
    let ?q = "\<lparr>dq_buf = replicate (2 ^ j) z, dq_head = 0, dq_tail = 0, dq_count = 0, dq_minCap = 2 ^ k\<rparr>"
    have "NewDeque z sizes = Some (Inr ?q)"
      using False k(3) j(2) go_make_ok [of z "2 ^ j"]
      by (simp add: NewDeque_def capacity_def minimum_def)
    moreover have "ring_ok ?q 0 0" by (auto simp: ring_ok_def)
    ultimately show ?thesis using False k k16 j kj ring_ok_list [of ?q 0 0]
      by (auto simp: mincap_ok_def intro: deque_inv_ringI)
  qed
qed

lemma Deque_SetMinCapacity_ok:
  assumes "deque_inv q"
  shows "deque_inv (Deque_SetMinCapacity q e) \<and> deque_list (Deque_SetMinCapacity q e) = deque_list q \<and>
    dq_minCap (Deque_SetMinCapacity q e) = (if 4 < e \<and> e < 63 then 2 ^ e else 16)"
proof -
  have w: "wrap64 (push_bit e 1) = (if e < 63 then 2 ^ e else if e = 63 then - (2 ^ 63) else 0)"
    by (rule wrap64_shl1)
  have "(16 :: int) < 2 ^ e \<longleftrightarrow> 4 < e"
    using power_strict_increasing_iff [of "2::int" 4 e] by simp
  with w have m: "dq_minCap (Deque_SetMinCapacity q e) = (if 4 < e \<and> e < 63 then 2 ^ e else 16)"
    by (auto simp: Deque_SetMinCapacity_def minCapacity_def Let_def)
  moreover have "mincap_ok (dq_minCap (Deque_SetMinCapacity q e))"
    by (auto simp: m mincap_ok_def intro: exI [of _ 4])
  ultimately show ?thesis using assms
    by (auto simp: Deque_SetMinCapacity_def Let_def deque_inv_def deque_list_def ring_ok_def)
qed

section \<open>The queue contract\<close>

text \<open>Used from back to front the deque is a first-in first-out queue; a caller tests \<^verbatim>\<open>Len\<close> before a pop.\<close>

definition deque_enq :: "'a \<Rightarrow> 'a Deque \<Rightarrow> 'a \<Rightarrow> (bool \<times> 'a Deque) go" where
  "deque_enq z q x = rbind (Deque_PushBack z q x) (\<lambda>q'. Inr (True, q'))"

definition deque_deq :: "'a \<Rightarrow> 'a Deque \<Rightarrow> ('a option \<times> 'a Deque) go" where
  "deque_deq z q =
     (if Deque_Len (Some q) = 0 then Inr (None, q)
      else rbind (Deque_PopFront z q) (\<lambda>(x, q'). Inr (Some x, q')))"

interpretation dq: fifo_queue deque_inv deque_list "\<lambda>_. None" "deque_enq z" "deque_deq z" for z :: 'a
proof unfold_locales
  fix q :: "'a Deque" and x assume "deque_inv q"
  from Deque_PushBack_ok [OF this, of z x]
  show "\<exists>q'. deque_enq z q x = Inr (True, q') \<and> deque_inv q' \<and>
      deque_list q' = deque_list q @ [x] \<and> None = None"
    by (auto simp: deque_enq_def)
next
  fix q :: "'a Deque" assume "deque_inv q" "deque_list q = []"
  then show "deque_deq z q = Inr (None, q)"
    by (simp add: deque_deq_def Deque_Len_def deque_list_length)
next
  fix q :: "'a Deque" and y ys assume q: "deque_inv q" "deque_list q = y # ys"
  from Deque_PopFront_ok [OF q, of z] deque_list_length [OF q(1)] q(2)
  show "\<exists>q'. deque_deq z q = Inr (Some y, q') \<and> deque_inv q' \<and> deque_list q' = ys \<and> None = None"
    by (auto simp: deque_deq_def Deque_Len_def)
qed simp_all

section \<open>Every operation, as an operation on a list\<close>

datatype 'a dq_op = DPushBack 'a | DPushFront 'a | DPopFront | DPopBack | DFront | DBack | DAt int
  | DSet int 'a | DInsert int 'a | DRemove int | DRotate int | DLen | DClear | DMinCap nat

datatype 'a dq_res = DDone | DElem 'a | DInt int | DPanic

text \<open>A panic of these operations is raised by the guard in front, so the deque is unchanged then.\<close>

definition upd_res :: "'a Deque \<Rightarrow> 'a Deque go \<Rightarrow> 'a dq_res \<times> 'a Deque" where
  "upd_res q r = (case r of Inl _ \<Rightarrow> (DPanic, q) | Inr q' \<Rightarrow> (DDone, q'))"

definition take_res :: "'a Deque \<Rightarrow> ('a \<times> 'a Deque) go \<Rightarrow> 'a dq_res \<times> 'a Deque" where
  "take_res q r = (case r of Inl _ \<Rightarrow> (DPanic, q) | Inr (x, q') \<Rightarrow> (DElem x, q'))"

definition read_res :: "'a Deque \<Rightarrow> 'a go \<Rightarrow> 'a dq_res \<times> 'a Deque" where
  "read_res q r = (case r of Inl _ \<Rightarrow> (DPanic, q) | Inr x \<Rightarrow> (DElem x, q))"

fun dq_step :: "'a \<Rightarrow> 'a Deque \<Rightarrow> 'a dq_op \<Rightarrow> 'a dq_res \<times> 'a Deque" where
  "dq_step z q (DPushBack x) = upd_res q (Deque_PushBack z q x)"
| "dq_step z q (DPushFront x) = upd_res q (Deque_PushFront z q x)"
| "dq_step z q DPopFront = take_res q (Deque_PopFront z q)"
| "dq_step z q DPopBack = take_res q (Deque_PopBack z q)"
| "dq_step z q DFront = read_res q (Deque_Front q)"
| "dq_step z q DBack = read_res q (Deque_Back q)"
| "dq_step z q (DAt i) = read_res q (Deque_At q i)"
| "dq_step z q (DSet i x) = upd_res q (Deque_Set q i x)"
| "dq_step z q (DInsert i x) = upd_res q (Deque_Insert z q i x)"
| "dq_step z q (DRemove i) = take_res q (Deque_Remove z q i)"
| "dq_step z q (DRotate n) = upd_res q (Deque_Rotate z q n)"
| "dq_step z q DLen = (DInt (Deque_Len (Some q)), q)"
| "dq_step z q DClear = (case Deque_Clear z q of None \<Rightarrow> (DPanic, q) | Some r \<Rightarrow> upd_res q r)"
| "dq_step z q (DMinCap e) = (DDone, Deque_SetMinCapacity q e)"

definition in_range :: "int \<Rightarrow> 'a list \<Rightarrow> bool" where
  "in_range i xs \<longleftrightarrow> 0 \<le> i \<and> i < int (length xs)"

fun list_step :: "'a list \<Rightarrow> 'a dq_op \<Rightarrow> 'a dq_res \<times> 'a list" where
  "list_step xs (DPushBack x) = (DDone, xs @ [x])"
| "list_step xs (DPushFront x) = (DDone, x # xs)"
| "list_step xs DPopFront = (if xs = [] then (DPanic, xs) else (DElem (hd xs), tl xs))"
| "list_step xs DPopBack = (if xs = [] then (DPanic, xs) else (DElem (last xs), butlast xs))"
| "list_step xs DFront = (if xs = [] then (DPanic, xs) else (DElem (hd xs), xs))"
| "list_step xs DBack = (if xs = [] then (DPanic, xs) else (DElem (last xs), xs))"
| "list_step xs (DAt i) = (if in_range i xs then (DElem (xs ! nat i), xs) else (DPanic, xs))"
| "list_step xs (DSet i x) = (if in_range i xs then (DDone, xs[nat i := x]) else (DPanic, xs))"
| "list_step xs (DInsert i x) = (if in_range i (x # xs)
     then (DDone, take (nat i) xs @ x # drop (nat i) xs) else (DPanic, xs))"
| "list_step xs (DRemove i) = (if in_range i xs
     then (DElem (xs ! nat i), take (nat i) xs @ drop (Suc (nat i)) xs) else (DPanic, xs))"
| "list_step xs (DRotate n) = (DDone, rotate (nat (n mod int (length xs))) xs)"
| "list_step xs DLen = (DInt (int (length xs)), xs)"
| "list_step xs DClear = (DDone, [])"
| "list_step xs (DMinCap e) = (DDone, xs)"

fun dq_run :: "'a \<Rightarrow> 'a Deque \<Rightarrow> 'a dq_op list \<Rightarrow> 'a dq_res list \<times> 'a Deque" where
  "dq_run z q [] = ([], q)"
| "dq_run z q (a # as) = (let (r, q1) = dq_step z q a; (rs, q2) = dq_run z q1 as in (r # rs, q2))"

fun dql_run :: "'a list \<Rightarrow> 'a dq_op list \<Rightarrow> 'a dq_res list \<times> 'a list" where
  "dql_run xs [] = ([], xs)"
| "dql_run xs (a # as) = (let (r, ys) = list_step xs a; (rs, zs) = dql_run ys as in (r # rs, zs))"

lemma dq_step_out_of_range:
  assumes "deque_inv q" "\<not> in_range i (deque_list q)"
  shows "\<exists>e. Deque_Set q i x = Inl e" "\<exists>e. Deque_Remove z q i = Inl e"
    "\<not> in_range i (x # deque_list q) \<Longrightarrow> \<exists>e. Deque_Insert z q i x = Inl e"
  using assms(2) deque_list_length [OF assms(1)]
  by (auto simp: in_range_def Deque_Set_def Deque_Remove_def Deque_Insert_def Deque_Len_def)

lemma dq_step_refines:
  assumes "deque_inv q"
  shows "\<exists>q'. dq_step z q a = (fst (list_step (deque_list q) a), q') \<and> deque_inv q' \<and>
    deque_list q' = snd (list_step (deque_list q) a)"
proof (cases a)
  case DPopFront
  then show ?thesis using assms Deque_Pop_empty(1) [OF assms, of z] Deque_PopFront_ok [OF assms, of _ _ z]
    by (cases "deque_list q") (auto simp: take_res_def)
next
  case DPopBack
  then show ?thesis using assms Deque_Pop_empty(2) [OF assms, of z] Deque_PopBack_ok [OF assms, of _ _ z]
    by (cases "deque_list q" rule: rev_cases) (auto simp: take_res_def)
next
  case (DInsert i x)
  then show ?thesis using assms dq_step_out_of_range(3) [OF assms, of i x z] Deque_Insert_ok [OF assms, of i z x]
    by (fastforce simp: upd_res_def in_range_def)
next
  case (DRemove i)
  then show ?thesis using assms dq_step_out_of_range(2) [OF assms, of i z] Deque_Remove_ok [OF assms, of i z]
    by (fastforce simp: take_res_def in_range_def)
next
  case (DSet i x)
  then show ?thesis using assms dq_step_out_of_range(1) [OF assms, of i x] Deque_Set_ok [OF assms, of i x]
    by (fastforce simp: upd_res_def in_range_def)
next
  case (DAt i)
  then show ?thesis using assms Deque_At_ok [OF assms, of i] by (auto simp: read_res_def in_range_def)
next
  case DFront
  then show ?thesis using assms Deque_Pop_empty(3) [OF assms] Deque_Front_Back_ok(1) [OF assms]
    by (auto simp: read_res_def)
next
  case DBack
  then show ?thesis using assms Deque_Pop_empty(4) [OF assms] Deque_Front_Back_ok(2) [OF assms]
    by (auto simp: read_res_def)
next
  case DClear
  then show ?thesis using Deque_Clear_ok [OF assms, of z] by (auto simp: upd_res_def)
next
  case (DRotate n)
  then show ?thesis using Deque_Rotate_ok [OF assms, of z n] by (auto simp: upd_res_def)
next
  case (DPushBack x)
  then show ?thesis using Deque_PushBack_ok [OF assms, of z x] by (auto simp: upd_res_def)
next
  case (DPushFront x)
  then show ?thesis using Deque_PushFront_ok [OF assms, of z x] by (auto simp: upd_res_def)
next
  case (DMinCap e)
  then show ?thesis using Deque_SetMinCapacity_ok [OF assms, of e] by auto
next
  case DLen
  then show ?thesis using assms deque_list_length [OF assms] by (simp add: Deque_Len_def)
qed

lemma dq_run_refines:
  "deque_inv q \<Longrightarrow> \<exists>q'. dq_run z q as = (fst (dql_run (deque_list q) as), q') \<and> deque_inv q' \<and>
     deque_list q' = snd (dql_run (deque_list q) as)"
proof (induction as arbitrary: q)
  case (Cons a as)
  from dq_step_refines [OF Cons.prems, of z a] obtain q1 where q1:
    "dq_step z q a = (fst (list_step (deque_list q) a), q1)" "deque_inv q1"
    "deque_list q1 = snd (list_step (deque_list q) a)" by blast
  from Cons.IH [OF q1(2)] q1 show ?case by (auto simp: split_def Let_def)
qed auto

end
