(* ===== verification/SQueue.thy ===== *)
theory SQueue
  imports RingQueue
begin

text \<open>
  The fixed-size ring queue of \<^verbatim>\<open>util/queue/squeue.go\<close>. One cell of the buffer stays free:
  the element after \<^verbatim>\<open>head\<close> is the front, \<^verbatim>\<open>tail\<close> is the back, and \<^verbatim>\<open>head == tail\<close> means
  empty. Every method runs under the queue's lock and is one step here. A cursor is its
  position together with the queue it points into.
\<close>

record 'a SQueue =
  sq_elements :: "'a list"
  sq_head :: int
  sq_tail :: int

record SCursor =
  cur_pos :: int

definition NewSQueue :: "'a \<Rightarrow> int \<Rightarrow> 'a SQueue go" where
  "NewSQueue z maxElementNum =
     rbind (go_make z (wrap64 (maxElementNum + 1))) (\<lambda>b. Inr \<lparr>sq_elements = b, sq_head = 0, sq_tail = 0\<rparr>)"

definition SCursor_First :: "'a SQueue \<Rightarrow> SCursor \<Rightarrow> SCursor" where
  "SCursor_First s cur = cur\<lparr>cur_pos := sq_head s\<rparr>"

definition SCursor_Next :: "'a SQueue \<Rightarrow> SCursor \<Rightarrow> ('a option \<times> SCursor) go" where
  "SCursor_Next s cur =
     (if cur_pos cur = sq_tail s then Inr (None, cur)
      else rbind (go_mod (cur_pos cur + 1) (int (length (sq_elements s)))) (\<lambda>p.
           rbind (slice_get (sq_elements s) p) (\<lambda>x. Inr (Some x, cur\<lparr>cur_pos := p\<rparr>))))"

definition SQueue_len :: "'a SQueue \<Rightarrow> int" where
  "SQueue_len s =
     (if sq_head s \<le> sq_tail s then sq_tail s - sq_head s
      else int (length (sq_elements s)) - sq_head s + sq_tail s)"

definition SQueue_Len :: "'a SQueue \<Rightarrow> int" where
  "SQueue_Len s = SQueue_len s"

definition SQueue_GetCursor :: "'a SQueue \<Rightarrow> SCursor" where
  "SQueue_GetCursor s = \<lparr>cur_pos = sq_head s\<rparr>"

text \<open>\<open>None\<close> for the cursor is the zero \<^verbatim>\<open>SCursor\<close>, which has no queue.\<close>

definition SQueue_GetPosCursor :: "'a SQueue \<Rightarrow> int \<Rightarrow> SCursor option \<times> bool" where
  "SQueue_GetPosCursor s pos =
     (if sq_head s < sq_tail s then
        (if pos \<le> sq_head s \<or> sq_tail s < pos then (None, False)
         else (Some \<lparr>cur_pos = pos\<rparr>, True))
      else if sq_tail s < pos \<and> pos \<le> sq_head s then (None, False)
      else (Some \<lparr>cur_pos = pos\<rparr>, False))"

definition SQueue_RemoveElement :: "'a SQueue \<Rightarrow> int \<Rightarrow> (int \<times> 'a SQueue) go" where
  "SQueue_RemoveElement s elementNum =
     (let lens = SQueue_len s;
          removeNum = (if lens < elementNum then lens else elementNum) in
      rbind (go_mod (sq_head s + removeNum) (int (length (sq_elements s)))) (\<lambda>h.
      Inr (removeNum, s\<lparr>sq_head := h\<rparr>)))"

definition SQueue_Pop :: "'a SQueue \<Rightarrow> ('a option \<times> 'a SQueue) go" where
  "SQueue_Pop s =
     (if sq_head s = sq_tail s then Inr (None, s)
      else rbind (go_mod (sq_head s + 1) (int (length (sq_elements s)))) (\<lambda>h.
           rbind (slice_get (sq_elements s) h) (\<lambda>x. Inr (Some x, s\<lparr>sq_head := h\<rparr>))))"

definition SQueue_Push :: "'a SQueue \<Rightarrow> 'a \<Rightarrow> (bool \<times> 'a SQueue) go" where
  "SQueue_Push s elem =
     rbind (go_mod (sq_tail s + 1) (int (length (sq_elements s)))) (\<lambda>nextPos.
     if nextPos = sq_head s then Inr (False, s)
     else rbind (slice_set (sq_elements s) nextPos elem) (\<lambda>b.
          Inr (True, s\<lparr>sq_tail := nextPos, sq_elements := b\<rparr>)))"

definition SQueue_IsEmpty :: "'a SQueue \<Rightarrow> bool" where
  "SQueue_IsEmpty s \<longleftrightarrow> sq_head s = sq_tail s"

definition SQueue_IsFull :: "'a SQueue \<Rightarrow> bool go" where
  "SQueue_IsFull s =
     rbind (go_mod (sq_tail s + 1) (int (length (sq_elements s)))) (\<lambda>nextPos. Inr (nextPos = sq_head s))"

section \<open>Invariant and abstraction\<close>

definition sq_ring :: "'a SQueue \<Rightarrow> nat \<Rightarrow> nat \<Rightarrow> bool" where
  "sq_ring s h c \<longleftrightarrow> h < length (sq_elements s) \<and> c < length (sq_elements s) \<and>
     sq_head s = int h \<and> sq_tail s = int ((h + c) mod length (sq_elements s))"

definition squeue_inv :: "'a SQueue \<Rightarrow> bool" where
  "squeue_inv s \<longleftrightarrow> (\<exists>h c. sq_ring s h c)"

definition squeue_list :: "'a SQueue \<Rightarrow> 'a list" where
  "squeue_list s = ring_list (sq_elements s) (nat (sq_head s) + 1) (nat (SQueue_len s))"

definition squeue_cap :: "'a SQueue \<Rightarrow> nat option" where
  "squeue_cap s = Some (length (sq_elements s) - 1)"

lemma sq_ring_len:
  assumes "sq_ring s h c"
  shows "SQueue_len s = int c"
proof (cases "h + c < length (sq_elements s)")
  case True
  with assms show ?thesis by (simp add: sq_ring_def SQueue_len_def)
next
  case False
  moreover have "h + c - length (sq_elements s) < length (sq_elements s)"
    using assms by (auto simp: sq_ring_def)
  ultimately have "(h + c) mod length (sq_elements s) = h + c - length (sq_elements s)"
    by (simp add: le_mod_geq)
  with False assms show ?thesis by (auto simp: sq_ring_def SQueue_len_def)
qed

lemma sq_ring_list: "sq_ring s h c \<Longrightarrow> squeue_list s = ring_list (sq_elements s) (h + 1) c"
  by (simp add: squeue_list_def sq_ring_len) (simp add: sq_ring_def)

lemma sq_ring_head_tail:
  assumes "sq_ring s h c"
  shows "sq_head s = sq_tail s \<longleftrightarrow> c = 0"
proof -
  have "0 < length (sq_elements s)" using assms by (auto simp: sq_ring_def)
  with assms ring_index_inj [of c "length (sq_elements s)" 0 h] show ?thesis
    by (auto simp: sq_ring_def)
qed

lemma NewSQueue_ok:
  assumes "0 \<le> n" "n + 1 < 2 ^ 63"
  shows "\<exists>s. NewSQueue z n = Inr s \<and> squeue_inv s \<and> squeue_list s = [] \<and> squeue_cap s = Some (nat n)"
proof -
  let ?s = "\<lparr>sq_elements = replicate (nat (n + 1)) z, sq_head = 0, sq_tail = 0\<rparr>"
  have "NewSQueue z n = Inr ?s" using assms wrap64_nonneg [of "n + 1"] by (simp add: NewSQueue_def go_make_def)
  moreover have r: "sq_ring ?s 0 0" using assms by (simp add: sq_ring_def)
  ultimately show ?thesis using sq_ring_list [OF r] assms
    by (auto simp: squeue_inv_def squeue_cap_def nat_add_distrib)
qed

text \<open>At the largest \<^verbatim>\<open>int\<close> the length wraps around to a negative one, and \<^verbatim>\<open>make\<close> panics.\<close>

lemma NewSQueue_wraps: "NewSQueue z (2 ^ 63 - 1) = Inl MakeNegative"
proof -
  have "wrap64 (2 ^ 63 - 1 + 1) < 0" by code_simp
  then show ?thesis unfolding NewSQueue_def go_make_def by simp
qed

lemma SQueue_Push_full:
  assumes "squeue_inv s" "squeue_cap s = Some k" "k \<le> length (squeue_list s)"
  shows "SQueue_Push s x = Inr (False, s)"
proof -
  from assms(1) obtain h c where r: "sq_ring s h c" by (auto simp: squeue_inv_def)
  let ?l = "length (sq_elements s)"
  have l: "Suc c = ?l" "h < ?l" "0 < ?l"
    using assms(2,3) r sq_ring_list [OF r] by (auto simp: squeue_cap_def sq_ring_def)
  have "Suc ((h + c) mod ?l) mod ?l = (h + Suc c) mod ?l" by (simp add: mod_Suc_eq)
  also have "\<dots> = h" using l by simp
  finally show ?thesis
    using r l go_mod_Suc [OF l(3), of "(h + c) mod ?l"] by (simp add: SQueue_Push_def sq_ring_def)
qed

lemma SQueue_Push_room:
  assumes "squeue_inv s" "squeue_cap s = Some k" "length (squeue_list s) < k"
  shows "\<exists>s'. SQueue_Push s x = Inr (True, s') \<and> squeue_inv s' \<and>
    squeue_list s' = squeue_list s @ [x] \<and> squeue_cap s' = squeue_cap s"
proof -
  from assms(1) obtain h c where r: "sq_ring s h c" by (auto simp: squeue_inv_def)
  let ?l = "length (sq_elements s)" and ?t = "(h + 1 + c) mod length (sq_elements s)"
  have l: "Suc c < ?l" "h < ?l" "0 < ?l" "c < ?l"
    using assms(2,3) r sq_ring_list [OF r] by (auto simp: squeue_cap_def sq_ring_def)
  have t: "Suc ((h + c) mod ?l) mod ?l = ?t" by (simp add: mod_Suc_eq)
  have ne: "?t \<noteq> h" using ring_index_inj [OF l(1,3), of h] l(2) by simp
  let ?s = "s\<lparr>sq_tail := int ?t, sq_elements := (sq_elements s)[?t := x]\<rparr>"
  have lt: "?t < ?l" using l(3) by (rule mod_less_divisor)
  have "SQueue_Push s x = Inr (True, ?s)"
    using r l ne t go_mod_Suc [OF l(3), of "(h + c) mod ?l"] slice_set_ok [OF lt, of x]
    by (simp add: SQueue_Push_def sq_ring_def)
  moreover have r': "sq_ring ?s h (Suc c)" using r l by (simp add: sq_ring_def)
  moreover have "squeue_list ?s = squeue_list s @ [x]"
    using sq_ring_list [OF r'] sq_ring_list [OF r] ring_list_push_back [OF l(4), of "h + 1" x] by simp
  ultimately show ?thesis by (auto simp: squeue_inv_def squeue_cap_def)
qed

lemma SQueue_Pop_ok:
  assumes "squeue_inv s" "squeue_list s = y # ys"
  shows "\<exists>s'. SQueue_Pop s = Inr (Some y, s') \<and> squeue_inv s' \<and> squeue_list s' = ys \<and>
    squeue_cap s' = squeue_cap s"
proof -
  from assms(1) obtain h c where r: "sq_ring s h c" by (auto simp: squeue_inv_def)
  let ?l = "length (sq_elements s)"
  obtain m where c: "c = Suc m" using assms(2) sq_ring_list [OF r] by (cases c) auto
  have l: "h < ?l" "0 < ?l" "sq_head s = int h" using r by (auto simp: sq_ring_def)
  let ?s = "s\<lparr>sq_head := int (Suc h mod ?l)\<rparr>"
  have r': "sq_ring ?s (Suc h mod ?l) m" using r l c by (auto simp: sq_ring_def)
  have y: "sq_elements s ! (Suc h mod ?l) = y"
    "ring_list (sq_elements s) (Suc (Suc h) mod ?l) m = ys"
    using assms(2) sq_ring_list [OF r] c ring_list_Suc [of "sq_elements s" "Suc h" m] by simp_all
  have "ring_list (sq_elements s) (Suc h mod ?l + 1) m = ring_list (sq_elements s) (Suc (Suc h) mod ?l) m"
    by (rule nth_equalityI) (simp_all add: mod_Suc_eq)
  then have "squeue_list ?s = ys" using sq_ring_list [OF r'] y(2) by simp
  moreover have lt: "Suc h mod ?l < ?l" using l(2) by (rule mod_less_divisor)
  have "SQueue_Pop s = Inr (Some y, ?s)"
    using sq_ring_head_tail [OF r] c l go_mod_Suc [OF l(2), of h] slice_get_ok [OF lt] y(1)
    by (simp add: SQueue_Pop_def)
  ultimately show ?thesis using r' by (auto simp: squeue_inv_def squeue_cap_def)
qed

lemma SQueue_Pop_empty: "squeue_inv s \<Longrightarrow> squeue_list s = [] \<Longrightarrow> SQueue_Pop s = Inr (None, s)"
  using sq_ring_head_tail sq_ring_list
  by (fastforce simp: SQueue_Pop_def squeue_inv_def ring_list_def)

interpretation bq: bounded_queue squeue_inv squeue_list squeue_cap SQueue_Push SQueue_Pop
proof unfold_locales
  fix s :: "'a SQueue" and x
  assume "squeue_inv s" "case squeue_cap s of None \<Rightarrow> True | Some k \<Rightarrow> length (squeue_list s) < k"
  then show "\<exists>s'. SQueue_Push s x = Inr (True, s') \<and> squeue_inv s' \<and>
      squeue_list s' = squeue_list s @ [x] \<and> squeue_cap s' = squeue_cap s"
    by (intro SQueue_Push_room) (auto simp: squeue_cap_def)
qed (simp_all add: SQueue_Push_full SQueue_Pop_empty SQueue_Pop_ok)

section \<open>Bulk removal, predicates and cursors\<close>

lemma squeue_list_length: "squeue_inv s \<Longrightarrow> SQueue_Len s = int (length (squeue_list s))"
  by (auto simp: squeue_inv_def SQueue_Len_def sq_ring_len sq_ring_list)

lemma SQueue_RemoveElement_ok:
  assumes "squeue_inv s" "0 \<le> n"
  shows "\<exists>s'. SQueue_RemoveElement s n = Inr (min n (int (length (squeue_list s))), s') \<and>
    squeue_inv s' \<and> squeue_list s' = drop (nat n) (squeue_list s)"
proof -
  from assms(1) obtain h c where r: "sq_ring s h c" by (auto simp: squeue_inv_def)
  let ?l = "length (sq_elements s)" and ?m = "min (nat n) c"
  have l: "0 < ?l" "sq_head s = int h" using r by (auto simp: sq_ring_def)
  let ?s = "s\<lparr>sq_head := int ((h + ?m) mod ?l)\<rparr>"
  have "SQueue_RemoveElement s n = Inr (int ?m, ?s)"
    using l go_mod_nat [OF l(1), of "h + ?m"] assms(2) sq_ring_len [OF r]
    by (auto simp: SQueue_RemoveElement_def Let_def min_def split: if_splits)
  moreover have "((h + ?m) mod ?l + (c - ?m)) mod ?l = (h + c) mod ?l"
    using mod_add_left_eq [of "h + ?m" ?l "c - ?m"] by simp
  then have r': "sq_ring ?s ((h + ?m) mod ?l) (c - ?m)"
    using r l by (auto simp: sq_ring_def simp del: Nat.add_diff_assoc)
  moreover have "squeue_list ?s = drop (nat n) (squeue_list s)"
  proof (rule nth_equalityI)
    show "length (squeue_list ?s) = length (drop (nat n) (squeue_list s))"
      using sq_ring_list [OF r'] sq_ring_list [OF r] by simp
  next
    fix i assume "i < length (squeue_list ?s)"
    then have i: "i < c - ?m" "nat n < c" using sq_ring_list [OF r'] by auto
    then have "nat n + i < c" "?m = nat n" by auto
    moreover have "(((h + nat n) mod ?l + 1) + i) mod ?l = (h + 1 + (nat n + i)) mod ?l"
      using mod_add_left_eq [of "h + nat n" ?l "1 + i"] by (simp add: ac_simps)
    ultimately show "squeue_list ?s ! i = drop (nat n) (squeue_list s) ! i"
      using sq_ring_list [OF r'] sq_ring_list [OF r] i by simp
  qed
  moreover have "int ?m = min n (int (length (squeue_list s)))"
    using sq_ring_list [OF r] assms(2) by simp
  ultimately show ?thesis by (auto simp: squeue_inv_def)
qed

lemma SQueue_IsEmpty_ok: "squeue_inv s \<Longrightarrow> SQueue_IsEmpty s \<longleftrightarrow> squeue_list s = []"
  using sq_ring_head_tail sq_ring_list
  by (fastforce simp: SQueue_IsEmpty_def squeue_inv_def ring_list_def)

lemma SQueue_IsFull_ok:
  assumes "squeue_inv s"
  shows "SQueue_IsFull s = Inr (squeue_cap s = Some (length (squeue_list s)))"
proof -
  from assms obtain h c where r: "sq_ring s h c" by (auto simp: squeue_inv_def)
  let ?l = "length (sq_elements s)"
  have l: "0 < ?l" "h < ?l" "c < ?l" using r by (auto simp: sq_ring_def)
  have "Suc ((h + c) mod ?l) mod ?l = (h + Suc c) mod ?l" by (simp add: mod_Suc_eq)
  moreover have "(h + Suc c) mod ?l = h \<longleftrightarrow> Suc c = ?l"
  proof (cases "Suc c = ?l")
    case True
    then show ?thesis using l by simp
  next
    case False
    then have "Suc c < ?l" using l by simp
    from ring_index_inj [OF this l(1), of h] l False show ?thesis by simp
  qed
  ultimately show ?thesis
    using go_mod_Suc [OF l(1), of "(h + c) mod ?l"] r sq_ring_list [OF r] l
    by (auto simp: SQueue_IsFull_def squeue_cap_def sq_ring_def)
qed

text \<open>A cursor that has made \<open>i\<close> moves from the head reads element \<open>i\<close> next, and stops at the end.\<close>

lemma SCursor_Next_ok:
  assumes "sq_ring s h c" "i \<le> c"
  shows "SCursor_Next s \<lparr>cur_pos = int ((h + i) mod length (sq_elements s))\<rparr> =
    Inr (if i < c
         then (Some (squeue_list s ! i), \<lparr>cur_pos = int ((h + Suc i) mod length (sq_elements s))\<rparr>)
         else (None, \<lparr>cur_pos = int ((h + i) mod length (sq_elements s))\<rparr>))"
proof -
  let ?l = "length (sq_elements s)"
  have l: "0 < ?l" "c < ?l" "i < ?l" using assms by (auto simp: sq_ring_def)
  have eq: "(h + i) mod ?l = (h + c) mod ?l \<longleftrightarrow> i = c" by (rule ring_index_inj) (use l in auto)
  have lt: "(h + Suc i) mod ?l < ?l" using l(1) by (rule mod_less_divisor)
  have nx: "go_mod (int ((h + i) mod ?l) + 1) (int ?l) = Inr (int ((h + Suc i) mod ?l))"
    using go_mod_Suc [OF l(1), of "(h + i) mod ?l"] by (simp add: mod_Suc_eq)
  show ?thesis
    using assms eq nx slice_get_ok [OF lt] sq_ring_list [OF assms(1)]
    by (auto simp: SCursor_Next_def sq_ring_def)
qed

end
