(* ===== verification/Heap.thy ===== *)
theory Heap
  imports Prelude "HOL-Library.Multiset"
begin

text \<open>
  Go's \<^verbatim>\<open>container/heap\<close>, which the priority queue, the timer heaps, the RPC timeout heap
  and the rank expiry heap are built on. \<open>heap_iface\<close> is \<^verbatim>\<open>heap.Interface\<close> (the methods a
  client supplies), \<open>heap_up\<close>, \<open>heap_down\<close>, \<open>heap_Push\<close>, \<open>heap_Pop\<close>, \<open>heap_Remove\<close>, \<open>heap_Fix\<close> and
  \<open>heap_Init\<close> are the library's functions on any such interface.
  The locale \<open>heap_client\<close> states what the library relies on (\<^verbatim>\<open>Less\<close> compares a key,
  \<^verbatim>\<open>Swap\<close> exchanges two positions, \<^verbatim>\<open>Push\<close> and \<^verbatim>\<open>Pop\<close> work at the end) and proves once
  what it gives back: the heap order is kept, no element is lost, and \<^verbatim>\<open>Pop\<close> returns a
  smallest one. Each client interprets it on its own methods.
\<close>

record ('h, 'x, 'r) heap_iface =
  hLen :: "'h \<Rightarrow> nat"
  hLess :: "'h \<Rightarrow> nat \<Rightarrow> nat \<Rightarrow> bool"
  hSwap :: "'h \<Rightarrow> nat \<Rightarrow> nat \<Rightarrow> 'h"
  hPush :: "'h \<Rightarrow> 'x \<Rightarrow> 'h"
  hPop :: "'h \<Rightarrow> 'r \<times> 'h"

section \<open>The library functions\<close>

function heap_up :: "('h, 'x, 'r) heap_iface \<Rightarrow> 'h \<Rightarrow> nat \<Rightarrow> 'h" where
  "heap_up I h j =
     (let i = (j - 1) div 2 in
      if i = j \<or> \<not> hLess I h j i then h else heap_up I (hSwap I h i j) i)"
  by pat_completeness auto
termination by (relation "measure (\<lambda>(I, h, j). j)") auto

function heap_down :: "('h, 'x, 'r) heap_iface \<Rightarrow> 'h \<Rightarrow> nat \<Rightarrow> nat \<Rightarrow> 'h \<times> nat" where
  "heap_down I h i n =
     (let j1 = 2 * i + 1 in
      if n \<le> j1 then (h, i)
      else
        let j2 = j1 + 1; j = (if j2 < n \<and> hLess I h j2 j1 then j2 else j1) in
        if \<not> hLess I h j i then (h, i) else heap_down I (hSwap I h i j) j n)"
  by pat_completeness auto
termination by (relation "measure (\<lambda>(I, h, i, n). n - i)") auto

declare heap_up.simps [simp del] heap_down.simps [simp del]

fun heap_init_from :: "('h, 'x, 'r) heap_iface \<Rightarrow> 'h \<Rightarrow> nat \<Rightarrow> nat \<Rightarrow> 'h" where
  "heap_init_from I h n 0 = h"
| "heap_init_from I h n (Suc i) = heap_init_from I (fst (heap_down I h i n)) n i"

definition heap_Init :: "('h, 'x, 'r) heap_iface \<Rightarrow> 'h \<Rightarrow> 'h" where
  "heap_Init I h = heap_init_from I h (hLen I h) (hLen I h div 2)"

definition heap_Push :: "('h, 'x, 'r) heap_iface \<Rightarrow> 'h \<Rightarrow> 'x \<Rightarrow> 'h" where
  "heap_Push I h x = (let h1 = hPush I h x in heap_up I h1 (hLen I h1 - 1))"

definition heap_Pop :: "('h, 'x, 'r) heap_iface \<Rightarrow> 'h \<Rightarrow> ('r \<times> 'h) go" where
  "heap_Pop I h =
     (if hLen I h = 0 then Inl IndexOutOfRange
      else
        let n = hLen I h - 1; h1 = hSwap I h 0 n; h2 = fst (heap_down I h1 0 n) in
        Inr (hPop I h2))"

definition heap_Remove :: "('h, 'x, 'r) heap_iface \<Rightarrow> 'h \<Rightarrow> int \<Rightarrow> ('r \<times> 'h) go" where
  "heap_Remove I h i =
     (if i < 0 \<or> int (hLen I h) \<le> i then Inl IndexOutOfRange
      else
        let n = hLen I h - 1; k = nat i in
        if n \<noteq> k then
          (let h1 = hSwap I h k n; (h2, k') = heap_down I h1 k n in
           Inr (hPop I (if k < k' then h2 else heap_up I h2 k)))
        else Inr (hPop I h))"

definition heap_Fix :: "('h, 'x, 'r) heap_iface \<Rightarrow> 'h \<Rightarrow> int \<Rightarrow> 'h go" where
  "heap_Fix I h i =
     (if i = - 1 \<or> i = 0 \<and> hLen I h = 0 then Inr h
      else if i < 0 \<or> int (hLen I h) \<le> i then Inl IndexOutOfRange
      else
        let k = nat i; (h1, k') = heap_down I h k (hLen I h) in
        Inr (if k < k' then h1 else heap_up I h1 k))"

section \<open>The same algorithms on a list\<close>

function sift_up :: "('e \<Rightarrow> 'k::linorder) \<Rightarrow> 'e list \<Rightarrow> nat \<Rightarrow> 'e list" where
  "sift_up key xs j =
     (let i = (j - 1) div 2 in
      if i = j \<or> \<not> key (xs ! j) < key (xs ! i) then xs else sift_up key (swap_list xs i j) i)"
  by pat_completeness auto
termination by (relation "measure (\<lambda>(key, xs, j). j)") auto

function sift_down :: "('e \<Rightarrow> 'k::linorder) \<Rightarrow> 'e list \<Rightarrow> nat \<Rightarrow> nat \<Rightarrow> 'e list \<times> nat" where
  "sift_down key xs i n =
     (let j1 = 2 * i + 1 in
      if n \<le> j1 then (xs, i)
      else
        let j2 = j1 + 1; j = (if j2 < n \<and> key (xs ! j2) < key (xs ! j1) then j2 else j1) in
        if \<not> key (xs ! j) < key (xs ! i) then (xs, i) else sift_down key (swap_list xs i j) j n)"
  by pat_completeness auto
termination by (relation "measure (\<lambda>(key, xs, i, n). n - i)") auto

declare sift_up.simps [simp del] sift_down.simps [simp del]

text \<open>The heap order on the first \<open>n\<close> positions: no edge to a child decreases the key.\<close>

definition heap_edge :: "('e \<Rightarrow> 'k::linorder) \<Rightarrow> 'e list \<Rightarrow> nat \<Rightarrow> bool" where
  "heap_edge key xs j \<longleftrightarrow> key (xs ! ((j - 1) div 2)) \<le> key (xs ! j)"

definition is_heap :: "('e \<Rightarrow> 'k::linorder) \<Rightarrow> 'e list \<Rightarrow> nat \<Rightarrow> bool" where
  "is_heap key xs n \<longleftrightarrow> (\<forall>j. 0 < j \<longrightarrow> j < n \<longrightarrow> heap_edge key xs j)"

abbreviation heap_list :: "('e \<Rightarrow> 'k::linorder) \<Rightarrow> 'e list \<Rightarrow> bool" where
  "heap_list key xs \<equiv> is_heap key xs (length xs)"

lemma mset_swap_list [simp]:
  "i < length xs \<Longrightarrow> j < length xs \<Longrightarrow> mset (swap_list xs i j) = mset xs"
  using mset_swap [of i xs j] by (simp add: swap_list_def list_update_swap mset_swap)

lemma child_cases: "(j - 1) div 2 = i \<Longrightarrow> 0 < j \<Longrightarrow> j = 2 * i + 1 \<or> j = 2 * i + (2::nat)"
  by presburger

lemma is_heap_min:
  assumes "is_heap key xs n"
  shows "k < n \<Longrightarrow> key (xs ! 0) \<le> key (xs ! k)"
proof (induction k rule: less_induct)
  case (less k)
  show ?case
  proof (cases "k = 0")
    case False
    then have "(k - 1) div 2 < k" by linarith
    then have "key (xs ! 0) \<le> key (xs ! ((k - 1) div 2))" using less by simp
    also have "\<dots> \<le> key (xs ! k)"
      using assms False less.prems by (auto simp: is_heap_def heap_edge_def)
    finally show ?thesis .
  qed simp
qed

lemma heap_list_cong:
  assumes "\<And>x. x \<in> set xs \<Longrightarrow> key x = key' x"
  shows "heap_list key xs = heap_list key' xs"
proof -
  have "key (xs ! k) = key' (xs ! k)" if "k < length xs" for k using assms that by simp
  moreover have "j < length xs \<Longrightarrow> (j - 1) div 2 < length xs" for j by linarith
  ultimately show ?thesis by (auto simp: is_heap_def heap_edge_def)
qed

lemma sift_up_frame:
  "j < length xs \<Longrightarrow> length (sift_up key xs j) = length xs \<and> mset (sift_up key xs j) = mset xs"
proof (induction key xs j rule: sift_up.induct)
  case (1 key xs j)
  then show ?case by (auto simp: sift_up.simps [of key xs j] Let_def)
qed

lemma sift_up_heap:
  "j < n \<Longrightarrow> n \<le> length xs \<Longrightarrow>
   (\<And>k. 0 < k \<Longrightarrow> k < n \<Longrightarrow> k \<noteq> j \<Longrightarrow> heap_edge key xs k) \<Longrightarrow>
   (\<And>k. 0 < j \<Longrightarrow> 0 < k \<Longrightarrow> k < n \<Longrightarrow> (k - 1) div 2 = j \<Longrightarrow> key (xs ! ((j - 1) div 2)) \<le> key (xs ! k)) \<Longrightarrow>
   is_heap key (sift_up key xs j) n"
proof (induction key xs j rule: sift_up.induct)
  case (1 key xs j)
  define i where "i = (j - 1) div 2"
  show ?case
  proof (cases "i = j \<or> \<not> key (xs ! j) < key (xs ! i)")
    case True
    then have "0 < j \<Longrightarrow> heap_edge key xs j"
      by (auto simp: i_def heap_edge_def not_less)
    with True "1.prems"(3) show ?thesis
      by (auto simp: sift_up.simps [of key xs j] Let_def is_heap_def i_def)
  next
    case False
    then have j: "0 < j" "i < j" and ij: "(j - Suc 0) div 2 = i" by (auto simp: i_def)
    let ?ys = "swap_list xs i j"
    have len: "i < length xs" "j < length xs" using "1.prems" j by auto
    have ys: "k < length xs \<Longrightarrow> ?ys ! k = (if k = i then xs ! j else if k = j then xs ! i else xs ! k)" for k
      using nth_swap_list [OF len] by blast
    have "is_heap key (sift_up key ?ys i) n"
    proof (rule "1.IH" [OF i_def False])
      fix k assume k: "0 < k" "k < n" "k \<noteq> i"
      have kl: "k < length xs" "(k - 1) div 2 < length xs" using k "1.prems" by auto
      have e: "k \<noteq> j \<Longrightarrow> key (xs ! ((k - 1) div 2)) \<le> key (xs ! k)"
        using "1.prems"(3) [OF k(1,2)] by (simp add: heap_edge_def)
      have c: "(k - 1) div 2 = j \<Longrightarrow> key (xs ! i) \<le> key (xs ! k)"
        using "1.prems"(4) [OF j(1) k(1,2)] by (simp add: i_def)
      show "heap_edge key ?ys k"
        using False e c k j ys [OF kl(1)] ys [OF kl(2)]
        by (auto simp: heap_edge_def ij split: if_splits)
    next
      fix k assume k: "0 < i" "0 < k" "k < n" "(k - 1) div 2 = i"
      have i: "(i - 1) div 2 < i" using k(1) by linarith
      have kl: "k < length xs" "(i - 1) div 2 < length xs" "k \<noteq> i" using k "1.prems" i len by auto
      have ei: "key (xs ! ((i - 1) div 2)) \<le> key (xs ! i)"
        using "1.prems"(3) [of i] k(1) j "1.prems"(1) by (simp add: heap_edge_def)
      have ek: "k \<noteq> j \<Longrightarrow> key (xs ! i) \<le> key (xs ! k)"
        using "1.prems"(3) [OF k(2,3)] k(4) by (simp add: heap_edge_def)
      show "key (?ys ! ((i - 1) div 2)) \<le> key (?ys ! k)"
        using ei ek i j kl ys [OF kl(1)] ys [OF kl(2)] by (auto intro: order_trans)
    qed (use "1.prems" j in auto)
    moreover have "sift_up key xs j = sift_up key ?ys i"
      using False by (subst sift_up.simps) (simp add: Let_def ij)
    ultimately show ?thesis by simp
  qed
qed

definition min_child :: "('e \<Rightarrow> 'k::linorder) \<Rightarrow> 'e list \<Rightarrow> nat \<Rightarrow> nat \<Rightarrow> nat" where
  "min_child key xs i n =
     (if 2 * i + 2 < n \<and> key (xs ! (2 * i + 2)) < key (xs ! (2 * i + 1)) then 2 * i + 2 else 2 * i + 1)"

lemma sift_down_stop:
  "n \<le> 2 * i + 1 \<or> \<not> key (xs ! min_child key xs i n) < key (xs ! i) \<Longrightarrow> sift_down key xs i n = (xs, i)"
  by (subst sift_down.simps) (auto simp: Let_def min_child_def)

lemma sift_down_move:
  "2 * i + 1 < n \<Longrightarrow> key (xs ! min_child key xs i n) < key (xs ! i) \<Longrightarrow>
   sift_down key xs i n = sift_down key (swap_list xs i (min_child key xs i n)) (min_child key xs i n) n"
  by (subst sift_down.simps) (auto simp: Let_def min_child_def)

lemma min_child_bounds:
  assumes "2 * i + 1 < n"
  shows "min_child key xs i n < n" "i < min_child key xs i n" "(min_child key xs i n - 1) div 2 = i"
  using assms by (auto simp: min_child_def)

lemma min_child_least:
  "0 < k \<Longrightarrow> k < n \<Longrightarrow> (k - 1) div 2 = i \<Longrightarrow> key (xs ! min_child key xs i n) \<le> key (xs ! k)"
  using child_cases [of k i] by (auto simp: min_child_def)

lemma sift_down_frame:
  "i < n \<Longrightarrow> n \<le> length xs \<Longrightarrow> length (fst (sift_down key xs i n)) = length xs \<and>
   mset (fst (sift_down key xs i n)) = mset xs \<and> i \<le> snd (sift_down key xs i n) \<and>
   (\<forall>k. n \<le> k \<longrightarrow> fst (sift_down key xs i n) ! k = xs ! k)"
proof (induction "n - i" arbitrary: xs i rule: less_induct)
  case less
  let ?j = "min_child key xs i n"
  show ?case
  proof (cases "n \<le> 2 * i + 1 \<or> \<not> key (xs ! ?j) < key (xs ! i)")
    case True
    then show ?thesis by (simp add: sift_down_stop)
  next
    case False
    then have j: "?j < n" "i < ?j" using min_child_bounds [of i n key xs] by auto
    have unf: "sift_down key xs i n = sift_down key (swap_list xs i ?j) ?j n"
      using False by (intro sift_down_move) auto
    let ?ys = "swap_list xs i ?j"
    have len: "i < length xs" "?j < length xs" using less.prems j by auto
    have lys: "length ?ys = length xs" by (simp add: swap_list_def)
    have IH: "length (fst (sift_down key ?ys ?j n)) = length ?ys \<and>
        mset (fst (sift_down key ?ys ?j n)) = mset ?ys \<and> ?j \<le> snd (sift_down key ?ys ?j n) \<and>
        (\<forall>k. n \<le> k \<longrightarrow> fst (sift_down key ?ys ?j n) ! k = ?ys ! k)"
      by (rule less.hyps) (use less.prems j lys in auto)
    have "?ys ! k = xs ! k" if "n \<le> k" for k
      using that j by (simp add: swap_list_def nth_list_update)
    then show ?thesis using IH j lys mset_swap_list [OF len] by (simp add: unf)
  qed
qed

text \<open>Sifting down repairs the edges below \<open>i\<close>; only edges whose parent is at least \<open>lo\<close> are looked at.\<close>

lemma sift_down_heap:
  assumes "i < n" "n \<le> length xs" "lo \<le> i"
    and "\<And>k. 0 < k \<Longrightarrow> k < n \<Longrightarrow> lo \<le> (k - 1) div 2 \<Longrightarrow> (k - 1) div 2 \<noteq> i \<Longrightarrow> heap_edge key xs k"
    and "\<And>k. 0 < i \<Longrightarrow> lo \<le> (i - 1) div 2 \<Longrightarrow> 0 < k \<Longrightarrow> k < n \<Longrightarrow> (k - 1) div 2 = i \<Longrightarrow>
          key (xs ! ((i - 1) div 2)) \<le> key (xs ! k)"
  shows "0 < k \<Longrightarrow> k < n \<Longrightarrow> lo \<le> (k - 1) div 2 \<Longrightarrow> heap_edge key (fst (sift_down key xs i n)) k"
  using assms
proof (induction "n - i" arbitrary: xs i rule: less_induct)
  case less
  let ?j = "min_child key xs i n"
  show ?case
  proof (cases "n \<le> 2 * i + 1 \<or> \<not> key (xs ! ?j) < key (xs ! i)")
    case True
    have "heap_edge key xs k"
    proof (cases "(k - 1) div 2 = i")
      case k: True
      then have "2 * i + 1 < n" using child_cases [OF k less.prems(1)] less.prems(2) by auto
      with True k min_child_least [OF less.prems(1,2) k, of key xs] show ?thesis
        by (auto simp: heap_edge_def not_less intro: order_trans)
    next
      case False
      with less.prems show ?thesis by blast
    qed
    with True show ?thesis by (simp add: sift_down_stop)
  next
    case False
    then have j: "?j < n" "i < ?j" "(?j - 1) div 2 = i" using min_child_bounds [of i n key xs] by auto
    let ?ys = "swap_list xs i ?j"
    have len: "i < length xs" "?j < length xs" using less.prems(4,5) j by auto
    have ys: "m < length xs \<Longrightarrow> ?ys ! m = (if m = i then xs ! ?j else if m = ?j then xs ! i else xs ! m)" for m
      using nth_swap_list [OF len] by blast
    have lt: "key (xs ! ?j) < key (xs ! i)" using False by auto
    have "heap_edge key (fst (sift_down key ?ys ?j n)) k"
    proof (rule less.hyps)
      fix m assume m: "0 < m" "m < n" "lo \<le> (m - 1) div 2" "(m - 1) div 2 \<noteq> ?j"
      have ml: "m < length xs" "(m - 1) div 2 < length xs" using m(2) less.prems(5) by auto
      consider "m = i" | "m = ?j" | "(m - 1) div 2 = i" "m \<noteq> ?j" | "m \<noteq> i" "(m - 1) div 2 \<noteq> i" "m \<noteq> ?j"
        by blast
      then show "heap_edge key ?ys m"
      proof cases
        case 1
        then have "key (xs ! ((i - 1) div 2)) \<le> key (xs ! ?j)"
          using less.prems(8) [of ?j] m(1,3) j(1,3) by auto
        moreover have "(i - 1) div 2 < i" using 1 m(1) by linarith
        ultimately show ?thesis using 1 j ys [OF ml(1)] ys [OF ml(2)] by (auto simp: heap_edge_def)
      next
        case 2
        then show ?thesis using lt j ys [OF ml(1)] ys [OF ml(2)] by (auto simp: heap_edge_def)
      next
        case 3
        then have "m \<noteq> i" using m(1) by auto
        with 3 min_child_least [OF m(1,2) 3(1), of key xs] ys [OF ml(1)] ys [OF ml(2)]
        show ?thesis by (auto simp: heap_edge_def)
      next
        case 4
        then show ?thesis using less.prems(7) [OF m(1-3) 4(2)] m(4) ys [OF ml(1)] ys [OF ml(2)]
          by (auto simp: heap_edge_def)
      qed
    next
      fix m assume m: "0 < ?j" "lo \<le> (?j - 1) div 2" "0 < m" "m < n" "(m - 1) div 2 = ?j"
      have ml: "m < length xs" "m \<noteq> i" "m \<noteq> ?j" using m j less.prems(5) by auto
      have "heap_edge key xs m" by (rule less.prems(7)) (use m j in auto)
      then have "key (xs ! ?j) \<le> key (xs ! m)" using m(5) by (simp add: heap_edge_def)
      then show "key (?ys ! ((?j - 1) div 2)) \<le> key (?ys ! m)"
        using ys [OF ml(1)] ys [OF len(1)] ml j by simp
    qed (use less.prems j in auto)
    moreover have "sift_down key xs i n = sift_down key ?ys ?j n"
      using False by (intro sift_down_move) auto
    ultimately show ?thesis by simp
  qed
qed


lemma sift_down_is_heap:
  assumes "i < n" "n \<le> length xs"
    and "\<And>k. 0 < k \<Longrightarrow> k < n \<Longrightarrow> (k - 1) div 2 \<noteq> i \<Longrightarrow> heap_edge key xs k"
    and "\<And>k. 0 < i \<Longrightarrow> 0 < k \<Longrightarrow> k < n \<Longrightarrow> (k - 1) div 2 = i \<Longrightarrow>
          key (xs ! ((i - 1) div 2)) \<le> key (xs ! k)"
  shows "is_heap key (fst (sift_down key xs i n)) n"
  unfolding is_heap_def
proof (intro allI impI)
  fix k assume "0 < k" "k < n"
  then show "heap_edge key (fst (sift_down key xs i n)) k"
    by (intro sift_down_heap [where lo = 0]) (use assms in auto)
qed

text \<open>When sifting down moved nothing, only the edge into \<open>i\<close> can be wrong.\<close>

lemma sift_down_unmoved:
  assumes "i < n" "n \<le> length xs" "snd (sift_down key xs i n) = i"
  shows "fst (sift_down key xs i n) = xs"
    "\<And>k. 0 < k \<Longrightarrow> k < n \<Longrightarrow> (k - 1) div 2 = i \<Longrightarrow> heap_edge key xs k"
proof -
  let ?j = "min_child key xs i n"
  have stop: "n \<le> 2 * i + 1 \<or> \<not> key (xs ! ?j) < key (xs ! i)"
  proof (rule ccontr)
    assume a: "\<not> ?thesis"
    then have j: "?j < n" "i < ?j" using min_child_bounds [of i n key xs] by auto
    then have "?j \<le> snd (sift_down key (swap_list xs i ?j) ?j n)"
      using sift_down_frame [of ?j n "swap_list xs i ?j" key] assms(2) by (simp add: swap_list_def)
    with a j assms(3) sift_down_move [of i n key xs] show False by simp
  qed
  then show "fst (sift_down key xs i n) = xs" by (simp add: sift_down_stop)
  fix k assume k: "0 < k" "k < n" "(k - 1) div 2 = i"
  then have "2 * i + 1 < n" using child_cases [OF k(3,1)] by auto
  with stop min_child_least [OF k, of key xs] k show "heap_edge key xs k"
    by (auto simp: heap_edge_def not_less intro: order_trans)
qed

text \<open>Down then, if nothing moved, up: the repair used by \<^verbatim>\<open>Fix\<close> and \<^verbatim>\<open>Remove\<close>.\<close>

definition sift :: "('e \<Rightarrow> 'k::linorder) \<Rightarrow> 'e list \<Rightarrow> nat \<Rightarrow> nat \<Rightarrow> 'e list" where
  "sift key xs i n =
     (let (ys, k) = sift_down key xs i n in if i < k then ys else sift_up key ys i)"

lemma sift_frame:
  assumes "i < n" "n \<le> length xs"
  shows "length (sift key xs i n) = length xs" "mset (sift key xs i n) = mset xs"
  using sift_down_frame [OF assms, of key] sift_up_frame [of i "fst (sift_down key xs i n)" key] assms
  by (auto simp: sift_def split: prod.splits)

lemma sift_up_above:
  "j < n \<Longrightarrow> n \<le> k \<Longrightarrow> sift_up key xs j ! k = xs ! k"
proof (induction key xs j rule: sift_up.induct)
  case (1 key xs j)
  show ?case
  proof (cases "(j - 1) div 2 = j \<or> \<not> key (xs ! j) < key (xs ! ((j - 1) div 2))")
    case True
    then show ?thesis by (subst sift_up.simps) (auto simp: Let_def)
  next
    case False
    then have "(j - 1) div 2 < j" by auto
    then have "sift_up key (swap_list xs ((j - 1) div 2) j) ((j - 1) div 2) ! k
        = swap_list xs ((j - 1) div 2) j ! k"
      using "1.IH" [OF refl False] "1.prems" by simp
    also have "\<dots> = xs ! k" using "1.prems" \<open>(j - 1) div 2 < j\<close> by (simp add: swap_list_def)
    finally show ?thesis using False by (subst sift_up.simps) (simp add: Let_def)
  qed
qed

lemma sift_above:
  assumes "i < n" "n \<le> length xs" "n \<le> k"
  shows "sift key xs i n ! k = xs ! k"
  using sift_down_frame [OF assms(1,2), of key] assms(3)
    sift_up_above [OF assms(1,3), of key "fst (sift_down key xs i n)"]
  by (simp add: sift_def split_def Let_def)

lemma sift_heap:
  assumes "i < n" "n \<le> length xs" "is_heap key' ys n"
    and eq: "\<And>k. k < n \<Longrightarrow> k \<noteq> i \<Longrightarrow> key (xs ! k) = key' (ys ! k)"
  shows "is_heap key (sift key xs i n) n"
proof -
  have edge: "heap_edge key xs k" if "0 < k" "k < n" "k \<noteq> i" "(k - 1) div 2 \<noteq> i" for k
    using that assms(3) eq [of k] eq [of "(k - 1) div 2"] by (auto simp: is_heap_def heap_edge_def)
  have skip: "key (xs ! ((i - 1) div 2)) \<le> key (xs ! k)"
    if "0 < i" "0 < k" "k < n" "(k - 1) div 2 = i" for k
  proof -
    have "(i - 1) div 2 < i" "k \<noteq> i" using that by auto
    moreover have "key' (ys ! ((i - 1) div 2)) \<le> key' (ys ! i)" "key' (ys ! i) \<le> key' (ys ! k)"
      using that assms(1,3) by (auto simp: is_heap_def heap_edge_def)
    ultimately show ?thesis using eq [of k] eq [of "(i - 1) div 2"] that assms(1) by simp
  qed
  show ?thesis
  proof (cases "i < snd (sift_down key xs i n)")
    case False
    then have un: "snd (sift_down key xs i n) = i"
      using sift_down_frame [OF assms(1,2), of key] by simp
    note um = sift_down_unmoved [OF assms(1,2) un]
    have "is_heap key (sift_up key xs i) n"
    proof (rule sift_up_heap [OF assms(1,2)])
      fix k assume "0 < k" "k < n" "k \<noteq> i"
      then show "heap_edge key xs k" using edge um(2) by blast
    qed (use skip in blast)
    with False um(1) show ?thesis by (simp add: sift_def split_def Let_def)
  next
    case True
    have parent: "0 < i \<Longrightarrow> heap_edge key xs i"
    proof (rule ccontr)
      assume i: "0 < i" and "\<not> heap_edge key xs i"
      then have up: "key (xs ! i) < key (xs ! ((i - 1) div 2))" by (simp add: heap_edge_def)
      let ?j = "min_child key xs i n"
      have "\<not> (n \<le> 2 * i + 1 \<or> \<not> key (xs ! ?j) < key (xs ! i))"
        using True sift_down_stop [of n i key xs] by (metis less_irrefl snd_conv)
      then have b: "2 * i + 1 < n" and "key (xs ! ?j) < key (xs ! i)" by auto
      moreover have "key (xs ! ((i - 1) div 2)) \<le> key (xs ! ?j)"
        using skip [OF i, of ?j] min_child_bounds [OF b, of key xs] i by simp
      ultimately show False using up by auto
    qed
    have "is_heap key (fst (sift_down key xs i n)) n"
    proof (rule sift_down_is_heap [OF assms(1,2)])
      fix k assume "0 < k" "k < n" "(k - 1) div 2 \<noteq> i"
      then show "heap_edge key xs k" using edge parent by (cases "k = i") auto
    qed (use skip in blast)
    with True show ?thesis by (simp add: sift_def split_def Let_def)
  qed
qed

section \<open>The contract of an interface and what the library gives back\<close>

locale heap_client =
  fixes I :: "('h, 'x, 'r) heap_iface"
    and items :: "'h \<Rightarrow> 'e list"
    and key :: "'e \<Rightarrow> 'k::linorder"
    and inv :: "'h \<Rightarrow> bool"
    and okp :: "'h \<Rightarrow> 'x \<Rightarrow> bool"
    and elem :: "'h \<Rightarrow> 'x \<Rightarrow> 'e"
    and res :: "'r \<Rightarrow> 'e \<Rightarrow> bool"
  assumes len_law: "inv h \<Longrightarrow> hLen I h = length (items h)"
    and less_law: "inv h \<Longrightarrow> i < length (items h) \<Longrightarrow> j < length (items h) \<Longrightarrow>
      hLess I h i j \<longleftrightarrow> key (items h ! i) < key (items h ! j)"
    and swap_law: "inv h \<Longrightarrow> i < length (items h) \<Longrightarrow> j < length (items h) \<Longrightarrow>
      inv (hSwap I h i j) \<and> items (hSwap I h i j) = swap_list (items h) i j"
    and push_law: "inv h \<Longrightarrow> okp h x \<Longrightarrow>
      inv (hPush I h x) \<and> items (hPush I h x) = items h @ [elem h x]"
    and pop_law: "inv h \<Longrightarrow> items h \<noteq> [] \<Longrightarrow> hPop I h = (r, h') \<Longrightarrow>
      inv h' \<and> items h' = butlast (items h) \<and> res r (last (items h))"
begin

lemma up_sim:
  "inv h \<Longrightarrow> j < length (items h) \<Longrightarrow>
   inv (heap_up I h j) \<and> items (heap_up I h j) = sift_up key (items h) j"
proof (induction j arbitrary: h rule: less_induct)
  case (less j)
  let ?i = "(j - 1) div 2"
  have i: "?i < length (items h)" using less.prems by linarith
  show ?case
  proof (cases "?i = j \<or> \<not> key (items h ! j) < key (items h ! ?i)")
    case True
    then show ?thesis using less_law [OF less.prems i] less.prems
      by (subst (1 2) heap_up.simps, subst sift_up.simps) (auto simp: Let_def)
  next
    case False
    then have lt: "?i < j" by auto
    from swap_law [OF less.prems(1) i less.prems(2)]
    have sw: "inv (hSwap I h ?i j)" "items (hSwap I h ?i j) = swap_list (items h) ?i j" by auto
    have "?i < length (items (hSwap I h ?i j))" using i sw by (simp add: swap_list_def)
    from less.IH [OF lt sw(1) this] sw(2) False less_law [OF less.prems i] show ?thesis
      by (subst (1 2) heap_up.simps, subst sift_up.simps) (auto simp: Let_def)
  qed
qed

lemma down_step:
  assumes "inv h" "n \<le> length (items h)" "2 * i + 1 < n"
  shows "heap_down I h i n =
    (let j = min_child key (items h) i n in
     if \<not> key (items h ! j) < key (items h ! i) then (h, i) else heap_down I (hSwap I h i j) j n)"
proof -
  have b: "2 * i + 1 < length (items h)" "i < length (items h)" using assms by auto
  have m: "(if 2 * i + 1 + 1 < n \<and> hLess I h (2 * i + 1 + 1) (2 * i + 1) then 2 * i + 1 + 1 else 2 * i + 1)
      = min_child key (items h) i n"
    using less_law [OF assms(1), of "2 * i + 2" "2 * i + 1"] b assms(2) by (auto simp: min_child_def)
  have "min_child key (items h) i n < length (items h)"
    using min_child_bounds(1) [OF assms(3), of key "items h"] assms(2) by simp
  then show ?thesis
    using less_law [OF assms(1) _ b(2)] assms(3)
    unfolding heap_down.simps [of I h i n] Let_def m by auto
qed

lemma down_sim:
  "inv h \<Longrightarrow> n \<le> length (items h) \<Longrightarrow> i < n \<Longrightarrow>
   inv (fst (heap_down I h i n)) \<and> items (fst (heap_down I h i n)) = fst (sift_down key (items h) i n) \<and>
   snd (heap_down I h i n) = snd (sift_down key (items h) i n)"
proof (induction "n - i" arbitrary: h i rule: less_induct)
  case less
  let ?j = "min_child key (items h) i n"
  show ?case
  proof (cases "2 * i + 1 < n")
    case False
    then show ?thesis using less.prems
      by (subst (1 2 3) heap_down.simps) (simp add: sift_down_stop)
  next
    case True
    note st = down_step [OF less.prems(1,2) True]
    have j: "?j < n" "i < ?j" using min_child_bounds [OF True] by auto
    show ?thesis
    proof (cases "key (items h ! ?j) < key (items h ! i)")
      case False
      then show ?thesis using less.prems by (simp add: st sift_down_stop)
    next
      case lt: True
      from swap_law [OF less.prems(1), of i ?j] j less.prems(2)
      have sw: "inv (hSwap I h i ?j)" "items (hSwap I h i ?j) = swap_list (items h) i ?j" by auto
      have "n - ?j < n - i" "n \<le> length (items (hSwap I h i ?j))"
        using j sw less.prems by (auto simp: swap_list_def)
      from less.hyps [OF this(1) sw(1) this(2) j(1)] sw(2) lt
      show ?thesis by (simp add: st sift_down_move [OF True lt] Let_def)
    qed
  qed
qed

lemma sift_sim:
  assumes "inv h" "n \<le> length (items h)" "i < n"
  defines "h' \<equiv> (let (h1, k) = heap_down I h i n in if i < k then h1 else heap_up I h1 i)"
  shows "inv h'" "items h' = sift key (items h) i n"
  using down_sim [OF assms(1-3)] up_sim [of "fst (heap_down I h i n)" i]
    sift_down_frame [OF assms(3,2), of key] assms(2,3)
  by (auto simp: h'_def sift_def split_def Let_def)

lemma push_inv:
  assumes "inv h" "okp h x"
  shows "inv (heap_Push I h x)"
  using push_law [OF assms] len_law [of "hPush I h x"] up_sim [of "hPush I h x" "length (items h)"]
  by (simp add: heap_Push_def Let_def)

lemma push_ok:
  assumes "inv h" "heap_list key (items h)" "okp h x"
  shows "inv (heap_Push I h x)" "heap_list key (items (heap_Push I h x))"
    "mset (items (heap_Push I h x)) = add_mset (elem h x) (mset (items h))"
proof -
  let ?ys = "items h @ [elem h x]" and ?n = "length (items h)"
  from push_law [OF assms(1,3)] have p: "inv (hPush I h x)" "items (hPush I h x) = ?ys" by auto
  have e: "heap_Push I h x = heap_up I (hPush I h x) ?n"
    using len_law [OF p(1)] p(2) by (simp add: heap_Push_def Let_def)
  from up_sim [OF p(1), of ?n] p(2)
  have u: "inv (heap_Push I h x)" "items (heap_Push I h x) = sift_up key ?ys ?n" by (auto simp: e)
  then show "inv (heap_Push I h x)" by simp
  have fr: "length (sift_up key ?ys ?n) = Suc ?n" "mset (sift_up key ?ys ?n) = mset ?ys"
    using sift_up_frame [of ?n ?ys key] by auto
  then show "mset (items (heap_Push I h x)) = add_mset (elem h x) (mset (items h))" by (simp add: u)
  have "is_heap key (sift_up key ?ys ?n) (Suc ?n)"
  proof (rule sift_up_heap)
    fix k assume k: "0 < k" "k < Suc ?n" "k \<noteq> ?n"
    then have "k < ?n" "(k - 1) div 2 < ?n" by auto
    then show "heap_edge key ?ys k" using assms(2) k by (auto simp: is_heap_def heap_edge_def nth_append)
  next
    fix k assume "0 < k" "k < Suc ?n" "(k - 1) div 2 = ?n"
    then show "key (?ys ! ((?n - 1) div 2)) \<le> key (?ys ! k)" by linarith
  qed auto
  then show "heap_list key (items (heap_Push I h x))" by (simp add: u fr)
qed

text \<open>The interface's \<^verbatim>\<open>Pop\<close> drops the last position, which the library filled before.\<close>

lemma detach_last:
  assumes "inv h" "length (items h) = Suc n" "is_heap key (items h) n"
  obtains r h' where "hPop I h = (r, h')" "inv h'" "heap_list key (items h')"
    "res r (items h ! n)" "mset (items h) = add_mset (items h ! n) (mset (items h'))"
proof -
  obtain r h' where r: "hPop I h = (r, h')" by fastforce
  have ne: "items h \<noteq> []" using assms(2) by auto
  from pop_law [OF assms(1) ne r]
  have h': "inv h'" "items h' = butlast (items h)" "res r (last (items h))" by auto
  have last: "last (items h) = items h ! n" using assms(2) ne by (simp add: last_conv_nth)
  have "heap_edge key (items h') k" if "0 < k" "k < n" for k
  proof -
    have "(k - 1) div 2 < n" using that by auto
    then show ?thesis using that assms h'(2) by (auto simp: is_heap_def heap_edge_def nth_butlast)
  qed
  then have "heap_list key (items h')" using h'(2) assms(2) by (simp add: is_heap_def)
  moreover have "mset (items h) = mset (butlast (items h) @ [last (items h)])" using ne by simp
  ultimately show ?thesis using that [OF r] h' last by simp
qed

lemma pop_ok:
  assumes "inv h" "heap_list key (items h)" "items h \<noteq> []"
  obtains r h' where "heap_Pop I h = Inr (r, h')" "inv h'" "heap_list key (items h')"
    "res r (items h ! 0)" "mset (items h) = add_mset (items h ! 0) (mset (items h'))"
proof -
  let ?n = "length (items h) - 1"
  let ?h1 = "hSwap I h 0 ?n" and ?ys = "swap_list (items h) 0 ?n"
  let ?h2 = "fst (heap_down I ?h1 0 ?n)"
  have len: "0 < length (items h)" "?n < length (items h)" using assms(3) by auto
  from swap_law [OF assms(1) len] have h1: "inv ?h1" "items ?h1 = ?ys" by auto
  have ln: "length ?ys = Suc ?n" using len by (simp add: swap_list_def)
  have h2: "inv ?h2 \<and> length (items ?h2) = Suc ?n \<and> mset (items ?h2) = mset ?ys
      \<and> items ?h2 ! ?n = ?ys ! ?n \<and> is_heap key (items ?h2) ?n"
  proof (cases "?n = 0")
    case True
    then show ?thesis using h1 ln by (simp add: heap_down.simps [of I _ 0 0] is_heap_def)
  next
    case False
    have "is_heap key (fst (sift_down key ?ys 0 ?n)) ?n"
    proof (rule sift_down_is_heap)
      fix k assume k: "0 < k" "k < ?n" "(k - 1) div 2 \<noteq> 0"
      then have "(k - 1) div 2 < ?n" "k < length (items h)" by auto
      then show "heap_edge key ?ys k" using assms(2) k
        by (auto simp: is_heap_def heap_edge_def swap_list_def nth_list_update)
    qed (use False ln in auto)
    with False down_sim [OF h1(1), of ?n 0] h1(2) ln sift_down_frame [of 0 ?n ?ys key]
    show ?thesis by simp
  qed
  from h2 obtain r h' where r: "hPop I ?h2 = (r, h')" "inv h'" "heap_list key (items h')"
      "res r (items ?h2 ! ?n)" "mset (items ?h2) = add_mset (items ?h2 ! ?n) (mset (items h'))"
    by (blast elim: detach_last)
  have "items ?h2 ! ?n = items h ! 0" using h2 len nth_swap_list [OF len, of ?n] by simp
  moreover have "mset (items ?h2) = mset (items h)" using h2 len by simp
  moreover have "heap_Pop I h = Inr (r, h')"
    using len_law [OF assms(1)] len r(1) by (simp add: heap_Pop_def Let_def)
  ultimately show ?thesis using that r by simp
qed

lemma remove_ok:
  assumes "inv h" "heap_list key (items h)" "i < length (items h)"
  obtains r h' where "heap_Remove I h (int i) = Inr (r, h')" "inv h'" "heap_list key (items h')"
    "res r (items h ! i)" "mset (items h) = add_mset (items h ! i) (mset (items h'))"
proof -
  let ?n = "length (items h) - 1"
  let ?h1 = "hSwap I h i ?n" and ?ys = "swap_list (items h) i ?n"
  let ?h2 = "if ?n \<noteq> i then let (h1, k) = heap_down I ?h1 i ?n in if i < k then h1 else heap_up I h1 i else h"
  have len: "i < length (items h)" "?n < length (items h)" using assms(3) by auto
  from swap_law [OF assms(1) len] have h1: "inv ?h1" "items ?h1 = ?ys" by auto
  have ln: "length ?ys = Suc ?n" using len by (simp add: swap_list_def)
  have h2: "inv ?h2 \<and> length (items ?h2) = Suc ?n \<and> mset (items ?h2) = mset (items h)
      \<and> items ?h2 ! ?n = items h ! i \<and> is_heap key (items ?h2) ?n"
  proof (cases "?n = i")
    case True
    then show ?thesis using assms len by (auto simp: is_heap_def)
  next
    case False
    then have i: "i < ?n" using len by simp
    have "is_heap key (sift key ?ys i ?n) ?n"
    proof (rule sift_heap [where ys = "items h" and key' = key])
      fix k assume "k < ?n" "k \<noteq> i"
      then show "key (?ys ! k) = key (items h ! k)" by (simp add: swap_list_def)
    qed (use i ln assms(2) in \<open>auto simp: is_heap_def\<close>)
    moreover have "sift key ?ys i ?n ! ?n = items h ! i"
      using sift_above [OF i, of ?ys ?n key] ln nth_swap_list [OF len, of ?n] len by simp
    ultimately show ?thesis
      using False i sift_sim [OF h1(1), of ?n i] h1(2) ln sift_frame [OF i, of ?ys key] len by simp
  qed
  from h2 obtain r h' where r: "hPop I ?h2 = (r, h')" "inv h'" "heap_list key (items h')"
      "res r (items ?h2 ! ?n)" "mset (items ?h2) = add_mset (items ?h2 ! ?n) (mset (items h'))"
    by (blast elim: detach_last)
  have "heap_Remove I h (int i) = Inr (r, h')"
    using len_law [OF assms(1)] len r(1) by (auto simp: heap_Remove_def Let_def split_def)
  with h2 r show ?thesis by (intro that [of r h']) argo+
qed

text \<open>\<^verbatim>\<open>Fix\<close> repairs a heap in which the key of one position was changed.\<close>

lemma fix_ok:
  assumes "inv h" "i < length (items h)" "is_heap key' xs (length (items h))"
    "\<And>k. k < length (items h) \<Longrightarrow> k \<noteq> i \<Longrightarrow> key (items h ! k) = key' (xs ! k)"
  obtains h' where "heap_Fix I h (int i) = Inr h'" "inv h'" "heap_list key (items h')"
    "mset (items h') = mset (items h)"
proof -
  let ?n = "length (items h)"
  let ?h = "let (h1, k) = heap_down I h i ?n in if i < k then h1 else heap_up I h1 i"
  have s: "inv ?h" "items ?h = sift key (items h) i ?n"
    using sift_sim [OF assms(1) order_refl assms(2)] by blast+
  have "is_heap key (sift key (items h) i ?n) ?n"
    by (rule sift_heap [where ys = xs and key' = key']) (use assms in auto)
  then have "heap_list key (items ?h)" "mset (items ?h) = mset (items h)"
    using sift_frame [OF assms(2) order_refl, of key] s(2) by auto
  moreover have "heap_Fix I h (int i) = Inr ?h"
    using assms(2) len_law [OF assms(1)] by (auto simp: heap_Fix_def Let_def split_def)
  ultimately show ?thesis using that s(1) by blast
qed

text \<open>\<^verbatim>\<open>Init\<close> turns any contents into a heap, working from the last parent down to the root.\<close>

lemma init_from_ok:
  assumes "inv h" "n = length (items h)" "i \<le> n div 2"
    and "\<And>k. 0 < k \<Longrightarrow> k < n \<Longrightarrow> i \<le> (k - 1) div 2 \<Longrightarrow> heap_edge key (items h) k"
  shows "inv (heap_init_from I h n i) \<and> heap_list key (items (heap_init_from I h n i)) \<and>
    mset (items (heap_init_from I h n i)) = mset (items h)"
  using assms
proof (induction i arbitrary: h)
  case 0
  then show ?case by (auto simp: is_heap_def)
next
  case (Suc i)
  let ?h = "fst (heap_down I h i n)"
  have i: "i < n" using Suc.prems(3) by auto
  have ds: "inv ?h" "items ?h = fst (sift_down key (items h) i n)"
    using down_sim [OF Suc.prems(1) _ i] Suc.prems(2) by auto
  have fr: "length (items ?h) = n" "mset (items ?h) = mset (items h)"
    using sift_down_frame [OF i, of "items h" key] Suc.prems(2) ds(2) by auto
  have "heap_edge key (items ?h) k" if "0 < k" "k < n" "i \<le> (k - 1) div 2" for k
    unfolding ds(2)
  proof (rule sift_down_heap [where lo = i])
    fix m assume "0 < m" "m < n" "i \<le> (m - 1) div 2" "(m - 1) div 2 \<noteq> i"
    then show "heap_edge key (items h) m" using Suc.prems(4) [of m] by simp
  next
    fix m assume "0 < i" "i \<le> (i - 1) div 2"
    then show "key (items h ! ((i - 1) div 2)) \<le> key (items h ! m)" by linarith
  qed (use that i Suc.prems(2) in auto)
  then show ?case using Suc.IH [OF ds(1) fr(1) [symmetric]] Suc.prems(3) fr(2) by simp
qed

lemma init_ok:
  assumes "inv h"
  shows "inv (heap_Init I h)" "heap_list key (items (heap_Init I h))"
    "mset (items (heap_Init I h)) = mset (items h)"
proof -
  have "inv (heap_init_from I h (length (items h)) (length (items h) div 2)) \<and>
    heap_list key (items (heap_init_from I h (length (items h)) (length (items h) div 2))) \<and>
    mset (items (heap_init_from I h (length (items h)) (length (items h) div 2))) = mset (items h)"
  proof (rule init_from_ok [OF assms refl order_refl])
    fix k assume "0 < k" "k < length (items h)" "length (items h) div 2 \<le> (k - 1) div 2"
    then show "heap_edge key (items h) k" by presburger
  qed
  then show "inv (heap_Init I h)" "heap_list key (items (heap_Init I h))"
    "mset (items (heap_Init I h)) = mset (items h)"
    by (auto simp: heap_Init_def len_law [OF assms])
qed

end

end
