(* ===== verification/PriorityQueue.thy ===== *)
theory PriorityQueue
  imports Heap
begin

text \<open>
  \<^verbatim>\<open>util/queue/priorityqueue.go\<close>: a priority queue of \<^verbatim>\<open>*Item\<close> pointers over
  \<^verbatim>\<open>container/heap\<close>. Items live in a store indexed by their address, because the queue writes
  the \<^verbatim>\<open>Index\<close> field of items that the caller holds as well, and \<^verbatim>\<open>Update\<close> and
  \<^verbatim>\<open>Remove\<close> read that field back. The invariant says that the \<^verbatim>\<open>Index\<close> of every queued item
  is its position, and that of an item taken out is -1.
\<close>

type_synonym item_ref = nat

record 'v Item =
  Value :: 'v
  Priority :: int
  Index :: int

record 'v PriorityQueue =
  item_store :: "item_ref \<Rightarrow> 'v Item"
  priorityQueueSlice :: "item_ref list"

definition set_index :: "item_ref \<Rightarrow> int \<Rightarrow> 'v PriorityQueue \<Rightarrow> 'v PriorityQueue" where
  "set_index p i pq = pq\<lparr>item_store := (item_store pq)(p := (item_store pq p)\<lparr>Index := i\<rparr>)\<rparr>"

definition PQSlice_Len :: "'v PriorityQueue \<Rightarrow> nat" where
  "PQSlice_Len pq = length (priorityQueueSlice pq)"

definition PQSlice_Less :: "'v PriorityQueue \<Rightarrow> nat \<Rightarrow> nat \<Rightarrow> bool" where
  "PQSlice_Less pq i j \<longleftrightarrow>
     Priority (item_store pq (priorityQueueSlice pq ! i)) > Priority (item_store pq (priorityQueueSlice pq ! j))"

definition PQSlice_Swap :: "'v PriorityQueue \<Rightarrow> nat \<Rightarrow> nat \<Rightarrow> 'v PriorityQueue" where
  "PQSlice_Swap pq i j =
     (let pq1 = pq\<lparr>priorityQueueSlice := swap_list (priorityQueueSlice pq) i j\<rparr>;
          pq2 = set_index (priorityQueueSlice pq1 ! i) (int i) pq1 in
      set_index (priorityQueueSlice pq2 ! j) (int j) pq2)"

definition PQSlice_Push :: "'v PriorityQueue \<Rightarrow> item_ref \<Rightarrow> 'v PriorityQueue" where
  "PQSlice_Push pq x =
     (let n = length (priorityQueueSlice pq); pq1 = set_index x (int n) pq in
      pq1\<lparr>priorityQueueSlice := priorityQueueSlice pq1 @ [x]\<rparr>)"

definition PQSlice_Pop :: "'v PriorityQueue \<Rightarrow> item_ref \<times> 'v PriorityQueue" where
  "PQSlice_Pop pq =
     (let old = priorityQueueSlice pq; n = length old; item = old ! (n - 1);
          pq1 = set_index item (- 1) pq in
      (item, pq1\<lparr>priorityQueueSlice := take (n - 1) old\<rparr>))"

definition pq_iface :: "('v PriorityQueue, item_ref, item_ref) heap_iface" where
  "pq_iface = \<lparr>hLen = PQSlice_Len, hLess = PQSlice_Less, hSwap = PQSlice_Swap,
               hPush = PQSlice_Push, hPop = PQSlice_Pop\<rparr>"

definition PQSlice_Update :: "'v PriorityQueue \<Rightarrow> item_ref \<Rightarrow> 'v \<Rightarrow> int \<Rightarrow> 'v PriorityQueue go" where
  "PQSlice_Update pq item value priority =
     (let pq1 = pq\<lparr>item_store :=
            (item_store pq)(item := (item_store pq item)\<lparr>Value := value, Priority := priority\<rparr>)\<rparr> in
      heap_Fix pq_iface pq1 (Index (item_store pq1 item)))"

definition PriorityQueue_Init :: "'v PriorityQueue \<Rightarrow> int \<Rightarrow> 'v PriorityQueue go" where
  "PriorityQueue_Init pq initItemSliceNum =
     (if initItemSliceNum < 0 then Inl MakeNegative else Inr (pq\<lparr>priorityQueueSlice := []\<rparr>))"

definition PriorityQueue_Push :: "'v PriorityQueue \<Rightarrow> item_ref \<Rightarrow> 'v PriorityQueue" where
  "PriorityQueue_Push pq item = heap_Push pq_iface pq item"

definition PriorityQueue_Len :: "'v PriorityQueue \<Rightarrow> nat" where
  "PriorityQueue_Len pq = length (priorityQueueSlice pq)"

definition PriorityQueue_Pop :: "'v PriorityQueue \<Rightarrow> (item_ref option \<times> 'v PriorityQueue) go" where
  "PriorityQueue_Pop pq =
     (if PriorityQueue_Len pq = 0 then Inr (None, pq)
      else rbind (heap_Pop pq_iface pq) (\<lambda>(r, pq'). Inr (Some r, pq')))"

definition PriorityQueue_GetHighest :: "'v PriorityQueue \<Rightarrow> item_ref option" where
  "PriorityQueue_GetHighest pq =
     (if length (priorityQueueSlice pq) > 0 then Some (priorityQueueSlice pq ! 0) else None)"

definition PriorityQueue_Update :: "'v PriorityQueue \<Rightarrow> item_ref \<Rightarrow> 'v \<Rightarrow> int \<Rightarrow> 'v PriorityQueue go" where
  "PriorityQueue_Update pq item value priority = PQSlice_Update pq item value priority"

definition PriorityQueue_Remove :: "'v PriorityQueue \<Rightarrow> item_ref \<Rightarrow> 'v PriorityQueue go" where
  "PriorityQueue_Remove pq item =
     rbind (heap_Remove pq_iface pq (Index (item_store pq item))) (\<lambda>(r, pq'). Inr pq')"

section \<open>Invariant\<close>

text \<open>
  \<open>pq_inv vp out pq\<close>: the value and priority of every item are those of \<open>vp\<close>, the queued items
  are distinct and know their position, and items that are neither queued nor in \<open>out\<close> (items
  this queue has not seen) have index -1.
\<close>

definition pq_inv :: "(item_ref \<Rightarrow> 'v \<times> int) \<Rightarrow> item_ref set \<Rightarrow> 'v PriorityQueue \<Rightarrow> bool" where
  "pq_inv vp out pq \<longleftrightarrow>
     distinct (priorityQueueSlice pq) \<and>
     (\<forall>p. (Value (item_store pq p), Priority (item_store pq p)) = vp p) \<and>
     (\<forall>i < length (priorityQueueSlice pq). Index (item_store pq (priorityQueueSlice pq ! i)) = int i) \<and>
     (\<forall>p. p \<notin> set (priorityQueueSlice pq) \<longrightarrow> p \<notin> out \<longrightarrow> Index (item_store pq p) = - 1)"

definition pq_ok :: "(item_ref \<Rightarrow> 'v \<times> int) \<Rightarrow> item_ref set \<Rightarrow> 'v PriorityQueue \<Rightarrow> bool" where
  "pq_ok vp out pq \<longleftrightarrow> pq_inv vp out pq \<and> heap_list (\<lambda>p. - snd (vp p)) (priorityQueueSlice pq)"

lemma distinct_swap_list:
  "i < length xs \<Longrightarrow> j < length xs \<Longrightarrow> distinct (swap_list xs i j) = distinct xs"
  using mset_swap_list [of i xs j] by (metis mset_eq_imp_distinct_iff)

lemma set_swap_list:
  "i < length xs \<Longrightarrow> j < length xs \<Longrightarrow> set (swap_list xs i j) = set xs"
  using mset_swap_list [of i xs j] by (metis mset_eq_setD)

interpretation pqh: heap_client pq_iface priorityQueueSlice "\<lambda>p. - snd (vp p)" "pq_inv vp out"
  "\<lambda>pq x. x \<notin> set (priorityQueueSlice pq)" "\<lambda>pq x. x" "\<lambda>r e. r = e"
  for vp :: "item_ref \<Rightarrow> 'v \<times> int" and out
proof unfold_locales
  fix pq :: "'v PriorityQueue" and i j
  assume inv: "pq_inv vp out pq"
  show "hLen pq_iface pq = length (priorityQueueSlice pq)" by (simp add: pq_iface_def PQSlice_Len_def)
  have vp: "Priority (item_store pq p) = snd (vp p)" for p
    using inv by (metis pq_inv_def snd_conv)
  assume ij: "i < length (priorityQueueSlice pq)" "j < length (priorityQueueSlice pq)"
  show "hLess pq_iface pq i j \<longleftrightarrow>
      - snd (vp (priorityQueueSlice pq ! i)) < - snd (vp (priorityQueueSlice pq ! j))"
    by (simp add: pq_iface_def PQSlice_Less_def vp)
  let ?s = "priorityQueueSlice pq"
  have ys: "k < length ?s \<Longrightarrow> swap_list ?s i j ! k = (if k = i then ?s ! j else if k = j then ?s ! i else ?s ! k)" for k
    using nth_swap_list [OF ij] by blast
  have d: "distinct ?s" and ix: "\<And>k. k < length ?s \<Longrightarrow> Index (item_store pq (?s ! k)) = int k"
    using inv by (auto simp: pq_inv_def)
  show "pq_inv vp out (hSwap pq_iface pq i j) \<and>
      priorityQueueSlice (hSwap pq_iface pq i j) = swap_list (priorityQueueSlice pq) i j"
    using inv ij d ix ys
    by (auto simp: pq_iface_def PQSlice_Swap_def set_index_def pq_inv_def Let_def distinct_swap_list
        set_swap_list nth_eq_iff_index_eq)
next
  fix pq :: "'v PriorityQueue" and x
  assume "pq_inv vp out pq" "x \<notin> set (priorityQueueSlice pq)"
  then show "pq_inv vp out (hPush pq_iface pq x) \<and>
      priorityQueueSlice (hPush pq_iface pq x) = priorityQueueSlice pq @ [x]"
    by (auto simp: pq_iface_def PQSlice_Push_def set_index_def pq_inv_def Let_def nth_append less_Suc_eq)
next
  fix pq pq' :: "'v PriorityQueue" and r
  assume a: "pq_inv vp out pq" "priorityQueueSlice pq \<noteq> []" "hPop pq_iface pq = (r, pq')"
  define s where "s = priorityQueueSlice pq"
  have "s \<noteq> []" using a(2) by (simp add: s_def)
  then have s: "s = butlast s @ [last s]" "last s = s ! (length s - 1)" "butlast s = take (length s - 1) s"
    using append_butlast_last_id [of s] last_conv_nth [of s] butlast_conv_take [of s] by simp_all
  have "distinct s" using a(1) by (simp add: s_def pq_inv_def)
  then have nl: "last s \<notin> set (butlast s)" "set s = insert (last s) (set (butlast s))"
    using s(1) by (metis distinct_append distinct.simps disjoint_iff list.set_intros(1), metis Un_insert_right list.simps(15) set_append sup_bot_right empty_set)
  have r: "r = last s" "pq' = (set_index (last s) (- 1) pq)\<lparr>priorityQueueSlice := butlast s\<rparr>"
    using a(3) s by (auto simp: pq_iface_def PQSlice_Pop_def Let_def s_def)
  have ne: "butlast s ! k \<noteq> last s" if "k < length s - 1" for k
    using nl(1) that by (metis length_butlast nth_mem)
  show "pq_inv vp out pq' \<and> priorityQueueSlice pq' = butlast (priorityQueueSlice pq)
      \<and> r = last (priorityQueueSlice pq)"
    using a(1) nl ne \<open>distinct s\<close>
    by (auto simp: r set_index_def pq_inv_def s_def [symmetric] distinct_butlast nth_butlast)
qed

section \<open>The operations\<close>

lemma PriorityQueue_Push_ok:
  assumes "pq_ok vp out pq" "x \<notin> set (priorityQueueSlice pq)"
  shows "pq_ok vp out (PriorityQueue_Push pq x)"
    "mset (priorityQueueSlice (PriorityQueue_Push pq x)) = add_mset x (mset (priorityQueueSlice pq))"
  using assms pqh.push_ok [of vp out pq x] by (auto simp: pq_ok_def PriorityQueue_Push_def)

lemma pq_ok_highest:
  assumes "pq_ok vp out pq" "x \<in> set (priorityQueueSlice pq)"
  shows "snd (vp x) \<le> snd (vp (priorityQueueSlice pq ! 0))"
  using assms is_heap_min [of "\<lambda>p. - snd (vp p)" "priorityQueueSlice pq" "length (priorityQueueSlice pq)"]
  by (auto simp: pq_ok_def in_set_conv_nth)

lemma PriorityQueue_Pop_ok:
  assumes "pq_ok vp out pq" "priorityQueueSlice pq \<noteq> []"
  obtains pq' where "PriorityQueue_Pop pq = Inr (PriorityQueue_GetHighest pq, pq')" "pq_ok vp out pq'"
    "mset (priorityQueueSlice pq) = add_mset (priorityQueueSlice pq ! 0) (mset (priorityQueueSlice pq'))"
proof -
  from assms obtain r pq' where "heap_Pop pq_iface pq = Inr (r, pq')" "pq_inv vp out pq'"
    "heap_list (\<lambda>p. - snd (vp p)) (priorityQueueSlice pq')" "r = priorityQueueSlice pq ! 0"
    "mset (priorityQueueSlice pq) = add_mset (priorityQueueSlice pq ! 0) (mset (priorityQueueSlice pq'))"
    by (auto simp: pq_ok_def elim: pqh.pop_ok)
  with assms show ?thesis
    by (intro that [of pq']) (auto simp: PriorityQueue_Pop_def PriorityQueue_Len_def
        PriorityQueue_GetHighest_def pq_ok_def)
qed

lemma pq_index:
  assumes "pq_ok vp out pq" "x \<in> set (priorityQueueSlice pq)"
  obtains i where "i < length (priorityQueueSlice pq)" "priorityQueueSlice pq ! i = x"
    "Index (item_store pq x) = int i"
  using assms unfolding pq_ok_def pq_inv_def in_set_conv_nth by blast

lemma pq_removed_index:
  assumes "pq_ok vp out pq'" "pq_inv vp' out' pq" "x \<notin> out"
    "mset (priorityQueueSlice pq) = add_mset x (mset (priorityQueueSlice pq'))"
  shows "Index (item_store pq' x) = - 1" "set (priorityQueueSlice pq') = set (priorityQueueSlice pq) - {x}"
proof -
  have "distinct (x # priorityQueueSlice pq')"
    using assms(2,4) mset_eq_imp_distinct_iff [of "priorityQueueSlice pq" "x # priorityQueueSlice pq'"]
    by (simp add: pq_inv_def)
  moreover have "set (priorityQueueSlice pq) = insert x (set (priorityQueueSlice pq'))"
    using assms(4) mset_eq_setD [of "priorityQueueSlice pq" "x # priorityQueueSlice pq'"] by simp
  ultimately show "Index (item_store pq' x) = - 1"
    "set (priorityQueueSlice pq') = set (priorityQueueSlice pq) - {x}"
    using assms(1,3) by (auto simp: pq_ok_def pq_inv_def)
qed

lemma PriorityQueue_Remove_ok:
  assumes "pq_ok vp out pq" "x \<in> set (priorityQueueSlice pq)"
  obtains pq' where "PriorityQueue_Remove pq x = Inr pq'" "pq_ok vp out pq'"
    "mset (priorityQueueSlice pq) = add_mset x (mset (priorityQueueSlice pq'))"
proof -
  from assms obtain i where i: "i < length (priorityQueueSlice pq)" "priorityQueueSlice pq ! i = x"
    "Index (item_store pq x) = int i" by (rule pq_index)
  with assms(1) obtain r pq' where "heap_Remove pq_iface pq (int i) = Inr (r, pq')" "pq_inv vp out pq'"
    "heap_list (\<lambda>p. - snd (vp p)) (priorityQueueSlice pq')"
    "mset (priorityQueueSlice pq) = add_mset x (mset (priorityQueueSlice pq'))"
    by (auto simp: pq_ok_def elim: pqh.remove_ok)
  with i show ?thesis by (intro that [of pq']) (auto simp: PriorityQueue_Remove_def pq_ok_def)
qed

lemma PriorityQueue_Update_ok:
  assumes "pq_ok vp out pq" "x \<in> set (priorityQueueSlice pq)"
  obtains pq' where "PriorityQueue_Update pq x v pr = Inr pq'" "pq_ok (vp(x := (v, pr))) out pq'"
    "mset (priorityQueueSlice pq') = mset (priorityQueueSlice pq)"
proof -
  let ?vp = "vp(x := (v, pr))" and ?s = "priorityQueueSlice pq"
  let ?pq = "pq\<lparr>item_store := (item_store pq)(x := (item_store pq x)\<lparr>Value := v, Priority := pr\<rparr>)\<rparr>"
  from assms obtain i where i: "i < length ?s" "?s ! i = x" "Index (item_store pq x) = int i" by (rule pq_index)
  have inv: "pq_inv ?vp out ?pq" using assms(1) by (auto simp: pq_ok_def pq_inv_def)
  have "distinct ?s" using assms(1) by (simp add: pq_ok_def pq_inv_def)
  then have other: "k < length ?s \<Longrightarrow> k \<noteq> i \<Longrightarrow> ?s ! k \<noteq> x" for k
    using i by (metis nth_eq_iff_index_eq)
  have "is_heap (\<lambda>p. - snd (vp p)) ?s (length (priorityQueueSlice ?pq))"
    using assms(1) by (simp add: pq_ok_def)
  moreover have "- snd (?vp (priorityQueueSlice ?pq ! k)) = - snd (vp (?s ! k))"
    if "k < length (priorityQueueSlice ?pq)" "k \<noteq> i" for k
    using other that by simp
  ultimately obtain pq' where "heap_Fix pq_iface ?pq (int i) = Inr pq'" "pq_inv ?vp out pq'"
    "heap_list (\<lambda>p. - snd (?vp p)) (priorityQueueSlice pq')"
    "mset (priorityQueueSlice pq') = mset (priorityQueueSlice ?pq)"
    using i(1) by (rule_tac pqh.fix_ok [OF inv, where i = i]) auto
  with i show ?thesis
    by (intro that [of pq']) (auto simp: PriorityQueue_Update_def PQSlice_Update_def Let_def pq_ok_def)
qed

end
