(* ===== verification/CallSet.thy ===== *)
theory CallSet
  imports Heap
begin

text \<open>
  Pending RPC calls: \<^verbatim>\<open>rpc/rpctimer.go\<close> (the heap of call deadlines with an index from
  sequence numbers to heap positions) and \<^verbatim>\<open>rpc/callset.go\<close> (the table of pending calls and the
  time-out check). Sequence numbers are 64-bit words, deadlines are nanoseconds in the 64-bit
  \<^verbatim>\<open>int\<close>; \<^verbatim>\<open>time.Now\<close> is the argument \<open>now\<close>. Every operation runs under
  \<^verbatim>\<open>pendingLock\<close>, so an interleaving of goroutines is a sequence of these operations.
  A failed call leaves the set through \<^verbatim>\<open>makeCallFail\<close>; the model records it in \<open>failed\<close>.
  The text of the error is not modelled, only which error it is.
\<close>

section \<open>The deadline heap (rpctimer.go)\<close>

record CallTimer =
  SeqId :: "64 word"
  FireTime :: int

record CallTimerHeap =
  callTimer :: "CallTimer list"
  mapSeqIndex :: "64 word \<rightharpoonup> int"

definition CallTimerHeap_Init :: "CallTimerHeap" where
  "CallTimerHeap_Init = \<lparr>callTimer = [], mapSeqIndex = Map.empty\<rparr>"

definition CallTimerHeap_Len :: "CallTimerHeap \<Rightarrow> nat" where
  "CallTimerHeap_Len h = length (callTimer h)"

definition CallTimerHeap_Less :: "CallTimerHeap \<Rightarrow> nat \<Rightarrow> nat \<Rightarrow> bool" where
  "CallTimerHeap_Less h i j \<longleftrightarrow> FireTime (callTimer h ! i) < FireTime (callTimer h ! j)"

definition CallTimerHeap_Swap :: "CallTimerHeap \<Rightarrow> nat \<Rightarrow> nat \<Rightarrow> CallTimerHeap" where
  "CallTimerHeap_Swap h i j =
     (let ct = swap_list (callTimer h) i j in
      \<lparr>callTimer = ct,
       mapSeqIndex = (mapSeqIndex h)(SeqId (ct ! i) \<mapsto> int i, SeqId (ct ! j) \<mapsto> int j)\<rparr>)"

definition CallTimerHeap_Push :: "CallTimerHeap \<Rightarrow> CallTimer \<Rightarrow> CallTimerHeap" where
  "CallTimerHeap_Push h t =
     \<lparr>callTimer = callTimer h @ [t],
      mapSeqIndex = (mapSeqIndex h)(SeqId t \<mapsto> int (length (callTimer h)))\<rparr>"

definition CallTimerHeap_Pop :: "CallTimerHeap \<Rightarrow> 64 word \<times> CallTimerHeap" where
  "CallTimerHeap_Pop h =
     (let l = length (callTimer h); seqId = SeqId (callTimer h ! (l - 1)) in
      (seqId, \<lparr>callTimer = take (l - 1) (callTimer h), mapSeqIndex = (mapSeqIndex h)(seqId := None)\<rparr>))"

definition ct_iface :: "(CallTimerHeap, CallTimer, 64 word) heap_iface" where
  "ct_iface = \<lparr>hLen = CallTimerHeap_Len, hLess = CallTimerHeap_Less, hSwap = CallTimerHeap_Swap,
               hPush = CallTimerHeap_Push, hPop = CallTimerHeap_Pop\<rparr>"

definition CallTimerHeap_Cancel :: "CallTimerHeap \<Rightarrow> 64 word \<Rightarrow> (bool \<times> CallTimerHeap) go" where
  "CallTimerHeap_Cancel h seq =
     (case mapSeqIndex h seq of
        None \<Rightarrow> Inr (False, h)
      | Some index \<Rightarrow> rbind (heap_Remove ct_iface h index) (\<lambda>(_, h'). Inr (True, h')))"

definition CallTimerHeap_AddTimer :: "CallTimerHeap \<Rightarrow> int \<Rightarrow> 64 word \<Rightarrow> int \<Rightarrow> CallTimerHeap" where
  "CallTimerHeap_AddTimer h now seqId d =
     heap_Push ct_iface h \<lparr>SeqId = seqId, FireTime = wrap64 (now + d)\<rparr>"

definition CallTimerHeap_PopTimeout :: "CallTimerHeap \<Rightarrow> int \<Rightarrow> (64 word \<times> CallTimerHeap) go" where
  "CallTimerHeap_PopTimeout h now =
     (if CallTimerHeap_Len h = 0 then Inr (0, h)
      else if FireTime (callTimer h ! 0) > now then Inr (0, h)
      else heap_Pop ct_iface h)"

definition CallTimerHeap_PopFirst :: "CallTimerHeap \<Rightarrow> (64 word \<times> CallTimerHeap) go" where
  "CallTimerHeap_PopFirst h = (if CallTimerHeap_Len h = 0 then Inr (0, h) else heap_Pop ct_iface h)"

section \<open>The set of pending calls (callset.go)\<close>

datatype call_error = ErrTimeout int string | ErrDisconnect

record Call =
  Seq :: "64 word"
  ServiceMethod :: string
  Err :: "call_error option"
  callback :: bool
  TimeOut :: int

datatype delivery = PushRpcResponse Call | CallDone Call

record CallSet =
  startSeq :: "64 word"
  pending :: "64 word \<rightharpoonup> Call"
  callRpcTimeout :: int
  maxCheckCallRpcCount :: nat
  callTimerHeap :: CallTimerHeap
  failed :: "delivery list"

definition DefaultMaxCheckCallRpcCount :: nat where
  "DefaultMaxCheckCallRpcCount = 1000"

definition DefaultRpcTimeout :: int where
  "DefaultRpcTimeout = 15 * 1000000000"

definition CallSet_Init :: "CallSet \<Rightarrow> CallSet" where
  "CallSet_Init cs = cs\<lparr>callTimerHeap := CallTimerHeap_Init, pending := Map.empty,
     maxCheckCallRpcCount := DefaultMaxCheckCallRpcCount, callRpcTimeout := DefaultRpcTimeout\<rparr>"

definition CallSet_makeCallFail :: "CallSet \<Rightarrow> Call \<Rightarrow> CallSet" where
  "CallSet_makeCallFail cs call =
     cs\<lparr>failed := failed cs @ [if callback call then PushRpcResponse call else CallDone call]\<rparr>"

text \<open>
  One round of the checking goroutine: at most \<open>n\<close> iterations of the inner loop, the clock read
  in each (\<open>now i\<close> in iteration \<open>i\<close>).
\<close>

fun checkRpcCallTimeout_loop :: "CallSet \<Rightarrow> (nat \<Rightarrow> int) \<Rightarrow> nat \<Rightarrow> nat \<Rightarrow> CallSet go" where
  "checkRpcCallTimeout_loop cs now i 0 = Inr cs"
| "checkRpcCallTimeout_loop cs now i (Suc n) =
     rbind (CallTimerHeap_PopTimeout (callTimerHeap cs) (now i)) (\<lambda>(callSeq, h).
       let cs1 = cs\<lparr>callTimerHeap := h\<rparr> in
       if callSeq = 0 then Inr cs1
       else case pending cs1 callSeq of
           None \<Rightarrow> checkRpcCallTimeout_loop cs1 now (Suc i) n
         | Some pCall \<Rightarrow>
             let cs2 = cs1\<lparr>pending := (pending cs1)(callSeq := None)\<rparr>;
                 pCall' = pCall\<lparr>Err := Some (ErrTimeout (TimeOut pCall) (ServiceMethod pCall))\<rparr> in
             checkRpcCallTimeout_loop (CallSet_makeCallFail cs2 pCall') now (Suc i) n)"

definition CallSet_checkRpcCallTimeout :: "CallSet \<Rightarrow> (nat \<Rightarrow> int) \<Rightarrow> CallSet go" where
  "CallSet_checkRpcCallTimeout cs now = checkRpcCallTimeout_loop cs now 0 (maxCheckCallRpcCount cs)"

definition CallSet_AddPending :: "CallSet \<Rightarrow> int \<Rightarrow> Call \<Rightarrow> CallSet" where
  "CallSet_AddPending cs now call =
     (if Seq call = 0 then cs
      else cs\<lparr>pending := (pending cs)(Seq call \<mapsto> call),
              callTimerHeap := CallTimerHeap_AddTimer (callTimerHeap cs) now (Seq call) (TimeOut call)\<rparr>)"

definition CallSet_removePending :: "CallSet \<Rightarrow> 64 word \<Rightarrow> (Call option \<times> CallSet) go" where
  "CallSet_removePending cs seq =
     (case pending cs seq of
        None \<Rightarrow> Inr (None, cs)
      | Some v \<Rightarrow>
          rbind (CallTimerHeap_Cancel (callTimerHeap cs) seq) (\<lambda>(_, h).
            Inr (Some v, cs\<lparr>callTimerHeap := h, pending := (pending cs)(seq := None)\<rparr>)))"

definition CallSet_RemovePending :: "CallSet \<Rightarrow> 64 word \<Rightarrow> (Call option \<times> CallSet) go" where
  "CallSet_RemovePending cs seq =
     (if seq = 0 then Inr (None, cs) else CallSet_removePending cs seq)"

definition CallSet_FindPending :: "CallSet \<Rightarrow> 64 word \<Rightarrow> Call option" where
  "CallSet_FindPending cs seq = (if seq = 0 then None else pending cs seq)"

definition CallSet_generateSeq :: "CallSet \<Rightarrow> 64 word \<times> CallSet" where
  "CallSet_generateSeq cs = (startSeq cs + 1, cs\<lparr>startSeq := startSeq cs + 1\<rparr>)"

text \<open>The loop of \<^verbatim>\<open>cleanPending\<close> ends because every round takes a timer off the heap.\<close>

lemma ct_len_up: "length (callTimer (heap_up ct_iface h j)) = length (callTimer h)"
proof (induction j arbitrary: h rule: less_induct)
  case (less j)
  show ?case
    using less.IH [of "(j - 1) div 2" "CallTimerHeap_Swap h ((j - 1) div 2) j"]
    by (subst heap_up.simps)
      (auto simp: Let_def ct_iface_def CallTimerHeap_Swap_def swap_list_def)
qed

lemma ct_len_down: "length (callTimer (fst (heap_down ct_iface h i n))) = length (callTimer h)"
proof (induction "n - i" arbitrary: h i rule: less_induct)
  case less
  have sw: "length (callTimer (hSwap ct_iface h i j)) = length (callTimer h)" for j
    by (simp add: ct_iface_def CallTimerHeap_Swap_def Let_def swap_list_def)
  show ?case by (subst heap_down.simps) (auto simp: Let_def less.hyps sw)
qed

lemma PopFirst_less:
  assumes "CallTimerHeap_PopFirst h = Inr (s, h')" "callTimer h \<noteq> []"
  shows "length (callTimer h') < length (callTimer h)"
proof -
  let ?h = "fst (heap_down ct_iface (hSwap ct_iface h 0 (hLen ct_iface h - 1)) 0 (hLen ct_iface h - 1))"
  have "length (callTimer ?h) = length (callTimer h)"
    by (simp add: ct_len_down) (simp add: ct_iface_def CallTimerHeap_Swap_def Let_def swap_list_def)
  moreover have "hPop ct_iface ?h = (s, h')"
    using assms by (auto simp: CallTimerHeap_PopFirst_def heap_Pop_def Let_def CallTimerHeap_Len_def
        split: if_splits)
  ultimately show ?thesis using assms(2)
    by (auto simp: ct_iface_def CallTimerHeap_Pop_def Let_def)
qed

lemma PopFirst_zero: "callTimer h = [] \<Longrightarrow> CallTimerHeap_PopFirst h = Inr (0, h)"
  by (simp add: CallTimerHeap_PopFirst_def CallTimerHeap_Len_def)

function CallSet_cleanPending :: "CallSet \<Rightarrow> CallSet go" where
  "CallSet_cleanPending cs =
     (case CallTimerHeap_PopFirst (callTimerHeap cs) of
        Inl e \<Rightarrow> Inl e
      | Inr (callSeq, h) \<Rightarrow>
          if callSeq = 0 then Inr (cs\<lparr>callTimerHeap := h\<rparr>)
          else case pending cs callSeq of
              None \<Rightarrow> CallSet_cleanPending (cs\<lparr>callTimerHeap := h\<rparr>)
            | Some pCall \<Rightarrow>
                CallSet_cleanPending
                  (CallSet_makeCallFail
                    (cs\<lparr>callTimerHeap := h, pending := (pending cs)(callSeq := None)\<rparr>)
                    (pCall\<lparr>Err := Some ErrDisconnect\<rparr>)))"
  by pat_completeness auto
termination
proof (relation "measure (\<lambda>cs. length (callTimer (callTimerHeap cs)))")
  fix cs :: CallSet and p callSeq h
  assume a: "CallTimerHeap_PopFirst (callTimerHeap cs) = Inr p" "(callSeq, h) = p" "callSeq \<noteq> 0"
  then have "callTimer (callTimerHeap cs) \<noteq> []" using PopFirst_zero [of "callTimerHeap cs"] by auto
  then have "length (callTimer h) < length (callTimer (callTimerHeap cs))"
    using PopFirst_less [of "callTimerHeap cs" callSeq h] a by auto
  then show "(cs\<lparr>callTimerHeap := h\<rparr>, cs) \<in> measure (\<lambda>cs. length (callTimer (callTimerHeap cs)))"
    "(CallSet_makeCallFail (cs\<lparr>callTimerHeap := h, pending := (pending cs)(callSeq := None)\<rparr>) x, cs)
      \<in> measure (\<lambda>cs. length (callTimer (callTimerHeap cs)))" for x
    by (simp_all add: CallSet_makeCallFail_def)
qed auto

declare CallSet_cleanPending.simps [simp del]

section \<open>Invariants\<close>

text \<open>
  The index maps exactly the sequence numbers in the heap, each to its position; the pending
  table holds exactly the calls that have a timer, never under the reserved number 0.
\<close>

definition ct_inv :: "CallTimerHeap \<Rightarrow> bool" where
  "ct_inv h \<longleftrightarrow>
     distinct (map SeqId (callTimer h)) \<and>
     (\<forall>i < length (callTimer h). mapSeqIndex h (SeqId (callTimer h ! i)) = Some (int i)) \<and>
     dom (mapSeqIndex h) = SeqId ` set (callTimer h)"

definition ct_ok :: "CallTimerHeap \<Rightarrow> bool" where
  "ct_ok h \<longleftrightarrow> ct_inv h \<and> heap_list FireTime (callTimer h)"

definition cs_inv :: "CallSet \<Rightarrow> bool" where
  "cs_inv cs \<longleftrightarrow>
     ct_ok (callTimerHeap cs) \<and>
     dom (pending cs) = SeqId ` set (callTimer (callTimerHeap cs)) \<and>
     (\<forall>s c. pending cs s = Some c \<longrightarrow> Seq c = s \<and> s \<noteq> 0)"

lemma map_swap_list: "i < length xs \<Longrightarrow> j < length xs \<Longrightarrow> map f (swap_list xs i j) = swap_list (map f xs) i j"
  by (simp add: swap_list_def map_update)

lemma ct_swap_inv:
  assumes "ct_inv h" "i < length (callTimer h)" "j < length (callTimer h)"
  shows "ct_inv (CallTimerHeap_Swap h i j)"
proof -
  let ?s = "callTimer h"
  have ys: "k < length ?s \<Longrightarrow> swap_list ?s i j ! k = (if k = i then ?s ! j else if k = j then ?s ! i else ?s ! k)" for k
    using nth_swap_list [OF assms(2,3)] by blast
  have m: "mset (swap_list ?s i j) = mset ?s" using assms by simp
  have d: "distinct (map SeqId ?s)" using assms(1) by (simp add: ct_inv_def)
  then have inj: "k < length ?s \<Longrightarrow> l < length ?s \<Longrightarrow> SeqId (?s ! k) = SeqId (?s ! l) \<longleftrightarrow> k = l" for k l
    by (metis length_map nth_eq_iff_index_eq nth_map)
  have "distinct (map SeqId (swap_list ?s i j))"
    using d mset_eq_imp_distinct_iff [of "map SeqId (swap_list ?s i j)" "map SeqId ?s"] m by simp
  moreover have "set (swap_list ?s i j) = set ?s" using m by (rule mset_eq_setD)
  ultimately show ?thesis
    using assms ys inj by (auto simp: ct_inv_def CallTimerHeap_Swap_def Let_def)
qed

lemma ct_pop_inv:
  assumes "ct_inv h" "callTimer h \<noteq> []" "CallTimerHeap_Pop h = (r, h')"
  shows "ct_inv h'" "callTimer h' = butlast (callTimer h)" "r = SeqId (last (callTimer h))"
proof -
  define s where "s = callTimer h"
  have ne: "s \<noteq> []" using assms(2) by (simp add: s_def)
  obtain t x where sx: "s = t @ [x]" using ne by (metis append_butlast_last_id)
  have r: "r = SeqId x" "h' = \<lparr>callTimer = t, mapSeqIndex = (mapSeqIndex h)(SeqId x := None)\<rparr>"
    using assms(3) sx by (auto simp: CallTimerHeap_Pop_def Let_def s_def)
  have inv: "distinct (map SeqId s)" "dom (mapSeqIndex h) = SeqId ` set s"
    "k < length s \<Longrightarrow> mapSeqIndex h (SeqId (s ! k)) = Some (int k)" for k
    using assms(1) by (auto simp: ct_inv_def s_def)
  have "mapSeqIndex h (SeqId (t ! k)) = Some (int k) \<and> SeqId (t ! k) \<noteq> SeqId x" if "k < length t" for k
  proof -
    have "SeqId (t ! k) \<in> SeqId ` set t" using that by simp
    moreover have "SeqId x \<notin> SeqId ` set t" using inv(1) sx by simp
    ultimately have "SeqId (t ! k) \<noteq> SeqId x" by metis
    then show ?thesis using inv(3) [of k] that sx by (simp add: nth_append)
  qed
  then show "ct_inv h'" using inv(1,2) sx by (auto simp: ct_inv_def r)
  show "callTimer h' = butlast (callTimer h)" "r = SeqId (last (callTimer h))"
    using r sx by (simp_all add: s_def)
qed

interpretation cth: heap_client ct_iface callTimer FireTime ct_inv
  "\<lambda>h t. SeqId t \<notin> SeqId ` set (callTimer h)" "\<lambda>h t. t" "\<lambda>r t. r = SeqId t"
proof unfold_locales
  fix h and t :: CallTimer
  assume a: "ct_inv h" "SeqId t \<notin> SeqId ` set (callTimer h)"
  then have "i < length (callTimer h) \<Longrightarrow> SeqId (callTimer h ! i) \<noteq> SeqId t" for i
    by (metis imageI nth_mem)
  with a show "ct_inv (hPush ct_iface h t) \<and> callTimer (hPush ct_iface h t) = callTimer h @ [t]"
    by (auto simp: ct_iface_def CallTimerHeap_Push_def ct_inv_def nth_append less_Suc_eq)
next
  fix h i j
  assume "ct_inv h" "i < length (callTimer h)" "j < length (callTimer h)"
  then show "ct_inv (hSwap ct_iface h i j) \<and> callTimer (hSwap ct_iface h i j) = swap_list (callTimer h) i j"
    using ct_swap_inv by (simp add: ct_iface_def CallTimerHeap_Swap_def Let_def)
next
  fix h r h'
  assume "ct_inv h" "callTimer h \<noteq> []" "hPop ct_iface h = (r, h')"
  then show "ct_inv h' \<and> callTimer h' = butlast (callTimer h) \<and> r = SeqId (last (callTimer h))"
    using ct_pop_inv [of h r h'] by (simp add: ct_iface_def)
qed (simp_all add: ct_iface_def CallTimerHeap_Len_def CallTimerHeap_Less_def)

section \<open>The heap operations\<close>

lemma CallTimerHeap_Init_ok: "ct_ok CallTimerHeap_Init"
  by (simp add: ct_ok_def ct_inv_def CallTimerHeap_Init_def is_heap_def)

lemma AddTimer_ok:
  assumes "ct_ok h" "s \<notin> SeqId ` set (callTimer h)"
  shows "ct_ok (CallTimerHeap_AddTimer h now s d)"
    "mset (callTimer (CallTimerHeap_AddTimer h now s d)) =
       add_mset \<lparr>SeqId = s, FireTime = wrap64 (now + d)\<rparr> (mset (callTimer h))"
  using cth.push_ok [of h "\<lparr>SeqId = s, FireTime = wrap64 (now + d)\<rparr>"] assms
  by (auto simp: ct_ok_def CallTimerHeap_AddTimer_def)

lemma ct_head_least: "ct_ok h \<Longrightarrow> t \<in> set (callTimer h) \<Longrightarrow> FireTime (callTimer h ! 0) \<le> FireTime t"
  using is_heap_min [of FireTime "callTimer h" "length (callTimer h)"]
  by (auto simp: ct_ok_def in_set_conv_nth)

lemma heap_Pop_ct_ok:
  assumes "ct_ok h" "callTimer h \<noteq> []"
  obtains h' where "heap_Pop ct_iface h = Inr (SeqId (callTimer h ! 0), h')" "ct_ok h'"
    "mset (callTimer h) = add_mset (callTimer h ! 0) (mset (callTimer h'))"
  using assms cth.pop_ok [of h] unfolding ct_ok_def by metis

lemma Cancel_ok:
  assumes "ct_ok h" "t \<in> set (callTimer h)"
  obtains h' where "CallTimerHeap_Cancel h (SeqId t) = Inr (True, h')" "ct_ok h'"
    "mset (callTimer h) = add_mset t (mset (callTimer h'))"
proof -
  from assms(2) obtain i where i: "i < length (callTimer h)" "callTimer h ! i = t"
    by (auto simp: in_set_conv_nth)
  with assms(1) have "mapSeqIndex h (SeqId t) = Some (int i)" by (auto simp: ct_ok_def ct_inv_def)
  moreover obtain r h' where "heap_Remove ct_iface h (int i) = Inr (r, h')" "ct_ok h'"
    "mset (callTimer h) = add_mset t (mset (callTimer h'))"
    using cth.remove_ok [of h i] assms(1) i unfolding ct_ok_def by metis
  ultimately show ?thesis by (intro that [of h']) (simp_all add: CallTimerHeap_Cancel_def)
qed

lemma Cancel_absent:
  "ct_ok h \<Longrightarrow> s \<notin> SeqId ` set (callTimer h) \<Longrightarrow> CallTimerHeap_Cancel h s = Inr (False, h)"
  by (auto simp: ct_ok_def ct_inv_def CallTimerHeap_Cancel_def split: option.split)


section \<open>The operations of the call set\<close>

lemma CallSet_Init_ok: "cs_inv (CallSet_Init cs)"
  using CallTimerHeap_Init_ok by (simp add: cs_inv_def CallSet_Init_def) (simp add: CallTimerHeap_Init_def)

lemma AddPending_ok:
  assumes "cs_inv cs" "Seq call \<noteq> 0" "pending cs (Seq call) = None"
  shows "cs_inv (CallSet_AddPending cs now call)"
    "pending (CallSet_AddPending cs now call) = (pending cs)(Seq call \<mapsto> call)"
    "mset (callTimer (callTimerHeap (CallSet_AddPending cs now call))) =
       add_mset \<lparr>SeqId = Seq call, FireTime = wrap64 (now + TimeOut call)\<rparr>
         (mset (callTimer (callTimerHeap cs)))"
proof -
  have "Seq call \<notin> SeqId ` set (callTimer (callTimerHeap cs))" using assms by (auto simp: cs_inv_def)
  note a = AddTimer_ok [OF _ this, of now "TimeOut call"]
  have ok: "ct_ok (callTimerHeap cs)" using assms(1) by (simp add: cs_inv_def)
  show "mset (callTimer (callTimerHeap (CallSet_AddPending cs now call))) =
       add_mset \<lparr>SeqId = Seq call, FireTime = wrap64 (now + TimeOut call)\<rparr>
         (mset (callTimer (callTimerHeap cs)))"
    using a(2) [OF ok] assms(2) by (simp add: CallSet_AddPending_def)
  then have "set (callTimer (callTimerHeap (CallSet_AddPending cs now call))) =
      insert \<lparr>SeqId = Seq call, FireTime = wrap64 (now + TimeOut call)\<rparr> (set (callTimer (callTimerHeap cs)))"
    by (metis set_mset_add_mset_insert set_mset_mset)
  then show "cs_inv (CallSet_AddPending cs now call)"
    using a(1) [OF ok] assms by (auto simp: cs_inv_def CallSet_AddPending_def)
  show "pending (CallSet_AddPending cs now call) = (pending cs)(Seq call \<mapsto> call)"
    using assms(2) by (simp add: CallSet_AddPending_def)
qed

text \<open>Taking one timer and its call out of the set keeps the invariant.\<close>

lemma cs_inv_take:
  assumes "cs_inv cs" "ct_ok h'" "mset (callTimer (callTimerHeap cs)) = add_mset t (mset (callTimer h'))"
  shows "cs_inv (cs\<lparr>callTimerHeap := h', pending := (pending cs)(SeqId t := None)\<rparr>)"
    "\<exists>c. pending cs (SeqId t) = Some c" "SeqId t \<noteq> 0"
proof -
  let ?s = "callTimer (callTimerHeap cs)"
  have inv: "dom (pending cs) = SeqId ` set ?s" "distinct (map SeqId ?s)"
    "\<And>s c. pending cs s = Some c \<Longrightarrow> Seq c = s \<and> s \<noteq> 0"
    using assms(1) by (auto simp: cs_inv_def ct_ok_def ct_inv_def)
  have set: "set ?s = insert t (set (callTimer h'))"
    using assms(3) by (metis set_mset_add_mset_insert set_mset_mset)
  have "distinct (map SeqId (t # callTimer h'))"
    using inv(2) mset_eq_imp_distinct_iff [of "map SeqId ?s" "map SeqId (t # callTimer h')"] assms(3)
    by simp
  then have nt: "SeqId t \<notin> SeqId ` set (callTimer h')" by simp
  show c: "\<exists>c. pending cs (SeqId t) = Some c" using inv(1) set by blast
  then show "SeqId t \<noteq> 0" using inv(3) by blast
  have "dom ((pending cs)(SeqId t := None)) = SeqId ` set (callTimer h')"
    using inv(1) set nt by auto
  then show "cs_inv (cs\<lparr>callTimerHeap := h', pending := (pending cs)(SeqId t := None)\<rparr>)"
    using assms(2) inv(3) by (auto simp: cs_inv_def)
qed

lemma RemovePending_ok:
  assumes "cs_inv cs" "pending cs seq = Some call"
  obtains h' t where "CallSet_RemovePending cs seq =
      Inr (Some call, cs\<lparr>callTimerHeap := h', pending := (pending cs)(seq := None)\<rparr>)"
    "cs_inv (cs\<lparr>callTimerHeap := h', pending := (pending cs)(seq := None)\<rparr>)"
    "SeqId t = seq" "mset (callTimer (callTimerHeap cs)) = add_mset t (mset (callTimer h'))"
proof -
  have "seq \<in> SeqId ` set (callTimer (callTimerHeap cs))" using assms by (auto simp: cs_inv_def)
  then obtain t where t: "t \<in> set (callTimer (callTimerHeap cs))" "SeqId t = seq" by auto
  have "ct_ok (callTimerHeap cs)" using assms(1) by (simp add: cs_inv_def)
  then obtain h' where h': "CallTimerHeap_Cancel (callTimerHeap cs) (SeqId t) = Inr (True, h')"
    "ct_ok h'" "mset (callTimer (callTimerHeap cs)) = add_mset t (mset (callTimer h'))"
    using t(1) by (rule Cancel_ok)
  with cs_inv_take [OF assms(1) h'(2,3)] t assms(2) show ?thesis
    by (intro that [of h' t]) (auto simp: CallSet_RemovePending_def CallSet_removePending_def)
qed

lemma RemovePending_absent:
  "CallSet_FindPending cs seq = None \<Longrightarrow> CallSet_RemovePending cs seq = Inr (None, cs)"
  by (auto simp: CallSet_FindPending_def CallSet_RemovePending_def CallSet_removePending_def split: if_splits)

definition fail_delivery :: "call_error \<Rightarrow> Call \<Rightarrow> delivery" where
  "fail_delivery e call = (if callback call then PushRpcResponse else CallDone) (call\<lparr>Err := Some e\<rparr>)"

definition timeout_delivery :: "CallSet \<Rightarrow> CallTimer \<Rightarrow> delivery" where
  "timeout_delivery cs t =
     (let c = the (pending cs (SeqId t)) in fail_delivery (ErrTimeout (TimeOut c) (ServiceMethod c)) c)"

definition disconnect_delivery :: "CallSet \<Rightarrow> CallTimer \<Rightarrow> delivery" where
  "disconnect_delivery cs t = fail_delivery ErrDisconnect (the (pending cs (SeqId t)))"

text \<open>
  \<open>expires mk cs ts cs'\<close>: from \<open>cs\<close> to \<open>cs'\<close> exactly the timers \<open>ts\<close> left the heap, in the order of
  their deadlines, ahead of all that stayed, and each call left the table and failed once, in that order.
\<close>

definition expires :: "(CallSet \<Rightarrow> CallTimer \<Rightarrow> delivery) \<Rightarrow> CallSet \<Rightarrow> CallTimer list \<Rightarrow> CallSet \<Rightarrow> bool" where
  "expires mk cs ts cs' \<longleftrightarrow>
     mset (callTimer (callTimerHeap cs)) = mset ts + mset (callTimer (callTimerHeap cs')) \<and>
     sorted (map FireTime ts) \<and>
     (\<forall>t \<in> set ts. \<forall>u \<in> set (callTimer (callTimerHeap cs')). FireTime t \<le> FireTime u) \<and>
     failed cs' = failed cs @ map (mk cs) ts \<and>
     pending cs' = pending cs |` (- SeqId ` set ts)"

lemma expires_Nil: "cs' = cs\<lparr>callTimerHeap := callTimerHeap cs\<rparr> \<Longrightarrow> expires mk cs [] cs'"
  by (simp add: expires_def restrict_map_def)

text \<open>One timer more at the front, when the deliveries depend on a call and not on the set.\<close>

lemma expires_Cons:
  assumes inv: "cs_inv cs" and h': "ct_ok h'"
    and pop: "mset (callTimer (callTimerHeap cs)) = add_mset (callTimer (callTimerHeap cs) ! 0) (mset (callTimer h'))"
    and t: "t = callTimer (callTimerHeap cs) ! 0"
    and e: "expires mk (cs\<lparr>callTimerHeap := h', pending := (pending cs)(SeqId t := None),
        failed := failed cs @ [mk cs t]\<rparr>) ts cs'"
    and mk: "\<And>cs1 cs2 t. pending cs1 (SeqId t) = pending cs2 (SeqId t) \<Longrightarrow> mk cs1 t = mk cs2 t"
  shows "expires mk cs (t # ts) cs'"
proof -
  let ?s = "callTimer (callTimerHeap cs)"
  have set: "set ?s = insert t (set (callTimer h'))"
    using pop t by (metis set_mset_add_mset_insert set_mset_mset)
  have m: "mset (callTimer h') = mset ts + mset (callTimer (callTimerHeap cs'))"
    using e by (simp add: expires_def)
  then have sub: "set (callTimer h') = set ts \<union> set (callTimer (callTimerHeap cs'))"
    by (metis set_mset_mset set_mset_union)
  have least: "u \<in> set (callTimer h') \<Longrightarrow> FireTime t \<le> FireTime u" for u
    using ct_head_least [of "callTimerHeap cs" u] inv set t by (auto simp: cs_inv_def)
  have "distinct (map SeqId (t # callTimer h'))"
    using inv mset_eq_imp_distinct_iff [of "map SeqId ?s" "map SeqId (t # callTimer h')"] pop t
    by (simp add: cs_inv_def ct_ok_def ct_inv_def)
  then have "SeqId t \<notin> SeqId ` set (callTimer h')" by simp
  then have "u \<in> set ts \<Longrightarrow> SeqId u \<noteq> SeqId t" for u using sub by (metis UnI1 imageI)
  then have "u \<in> set ts \<Longrightarrow> mk (cs\<lparr>callTimerHeap := h', pending := (pending cs)(SeqId t := None),
        failed := failed cs @ [mk cs t]\<rparr>) u = mk cs u" for u
    by (intro mk) auto
  then show ?thesis using e m pop t least sub
    by (auto simp: expires_def restrict_map_def fun_eq_iff)
qed


lemma checkRpcCallTimeout_loop_ok:
  "cs_inv cs \<Longrightarrow> \<exists>cs' ts. checkRpcCallTimeout_loop cs now i n = Inr cs' \<and> cs_inv cs' \<and>
     expires timeout_delivery cs ts cs' \<and> length ts \<le> n \<and>
     (\<forall>k < length ts. FireTime (ts ! k) \<le> now (i + k)) \<and>
     (length ts < n \<longrightarrow> (\<forall>u \<in> set (callTimer (callTimerHeap cs')). now (i + length ts) < FireTime u))"
proof (induction n arbitrary: cs i)
  case 0
  then show ?case by (auto intro!: exI [of _ "[]"] expires_Nil)
next
  case (Suc n)
  let ?h = "callTimerHeap cs" and ?t = "callTimer (callTimerHeap cs) ! 0"
  have ok: "ct_ok ?h" using Suc.prems by (simp add: cs_inv_def)
  show ?case
  proof (cases "callTimer ?h = [] \<or> FireTime ?t > now i")
    case True
    then have "CallTimerHeap_PopTimeout ?h (now i) = Inr (0, ?h)"
      by (auto simp: CallTimerHeap_PopTimeout_def CallTimerHeap_Len_def)
    moreover have "now i < FireTime u" if "u \<in> set (callTimer ?h)" for u
      using True ct_head_least [OF ok that] that by (cases "callTimer ?h") auto
    ultimately show ?thesis using Suc.prems by (auto intro!: exI [of _ "[]"] expires_Nil)
  next
    case False
    then obtain h' where h': "heap_Pop ct_iface ?h = Inr (SeqId ?t, h')" "ct_ok h'"
      "mset (callTimer ?h) = add_mset ?t (mset (callTimer h'))"
      using heap_Pop_ct_ok [OF ok] by blast
    note tk = cs_inv_take [OF Suc.prems h'(2,3)]
    let ?cs = "cs\<lparr>callTimerHeap := h', pending := (pending cs)(SeqId ?t := None),
        failed := failed cs @ [timeout_delivery cs ?t]\<rparr>"
    have pt: "CallTimerHeap_PopTimeout ?h (now i) = Inr (SeqId ?t, h')"
      using False h'(1) by (auto simp: CallTimerHeap_PopTimeout_def CallTimerHeap_Len_def)
    have eq: "checkRpcCallTimeout_loop cs now i (Suc n) = checkRpcCallTimeout_loop ?cs now (Suc i) n"
      using tk(2,3) by (auto simp: pt CallSet_makeCallFail_def timeout_delivery_def fail_delivery_def Let_def)
    have "cs_inv ?cs" using tk(1) by (simp add: cs_inv_def)
    from Suc.IH [OF this, of "Suc i"] obtain cs' ts where IH:
      "checkRpcCallTimeout_loop ?cs now (Suc i) n = Inr cs'" "cs_inv cs'"
      "expires timeout_delivery ?cs ts cs'" "length ts \<le> n"
      "\<forall>k < length ts. FireTime (ts ! k) \<le> now (Suc i + k)"
      "length ts < n \<longrightarrow> (\<forall>u \<in> set (callTimer (callTimerHeap cs')). now (Suc i + length ts) < FireTime u)"
      by blast
    have "expires timeout_delivery cs (?t # ts) cs'"
      by (rule expires_Cons [OF Suc.prems h'(2,3) refl IH(3)]) (simp add: timeout_delivery_def)
    moreover have "FireTime ((?t # ts) ! k) \<le> now (i + k)" if "k < length (?t # ts)" for k
      using that IH(5) False by (cases k) auto
    ultimately show ?thesis using IH eq by (intro exI [of _ cs'] exI [of _ "?t # ts"]) auto
  qed
qed

lemma cleanPending_ok:
  "cs_inv cs \<Longrightarrow> \<exists>cs' ts. CallSet_cleanPending cs = Inr cs' \<and> cs_inv cs' \<and>
     expires disconnect_delivery cs ts cs' \<and> callTimer (callTimerHeap cs') = []"
proof (induction "length (callTimer (callTimerHeap cs))" arbitrary: cs rule: less_induct)
  case less
  let ?h = "callTimerHeap cs" and ?t = "callTimer (callTimerHeap cs) ! 0"
  have ok: "ct_ok ?h" using less.prems by (simp add: cs_inv_def)
  show ?case
  proof (cases "callTimer ?h = []")
    case True
    then show ?thesis using less.prems PopFirst_zero [OF True]
      by (subst CallSet_cleanPending.simps) (auto intro!: exI [of _ "[]"] expires_Nil)
  next
    case False
    then obtain h' where h': "heap_Pop ct_iface ?h = Inr (SeqId ?t, h')" "ct_ok h'"
      "mset (callTimer ?h) = add_mset ?t (mset (callTimer h'))"
      using heap_Pop_ct_ok [OF ok] by blast
    note tk = cs_inv_take [OF less.prems h'(2,3)]
    let ?cs = "cs\<lparr>callTimerHeap := h', pending := (pending cs)(SeqId ?t := None),
        failed := failed cs @ [disconnect_delivery cs ?t]\<rparr>"
    have pt: "CallTimerHeap_PopFirst ?h = Inr (SeqId ?t, h')"
      using False h'(1) by (simp add: CallTimerHeap_PopFirst_def CallTimerHeap_Len_def)
    have eq: "CallSet_cleanPending cs = CallSet_cleanPending ?cs"
      using tk(2,3) by (subst CallSet_cleanPending.simps)
        (auto simp: pt CallSet_makeCallFail_def disconnect_delivery_def fail_delivery_def)
    have "length (callTimer h') < length (callTimer ?h)" using PopFirst_less [OF pt False] .
    moreover have "cs_inv ?cs" using tk(1) by (simp add: cs_inv_def)
    ultimately obtain cs' ts where IH: "CallSet_cleanPending ?cs = Inr cs'" "cs_inv cs'"
      "expires disconnect_delivery ?cs ts cs'" "callTimer (callTimerHeap cs') = []"
      using less.hyps [of ?cs] by auto
    moreover have "expires disconnect_delivery cs (?t # ts) cs'"
      by (rule expires_Cons [OF less.prems h'(2,3) refl IH(3)]) (simp add: disconnect_delivery_def)
    ultimately show ?thesis using eq by auto
  qed
qed

text \<open>Sequence numbers repeat only after \<open>2 ^ 64\<close> calls.\<close>

fun generate_seqs :: "nat \<Rightarrow> CallSet \<Rightarrow> 64 word list" where
  "generate_seqs 0 cs = []"
| "generate_seqs (Suc n) cs = (let (s, cs') = CallSet_generateSeq cs in s # generate_seqs n cs')"

lemma nth_generate_seqs: "k < n \<Longrightarrow> generate_seqs n cs ! k = startSeq cs + of_nat (Suc k)"
proof (induction n arbitrary: cs k)
  case (Suc n)
  then show ?case by (cases k) (auto simp: CallSet_generateSeq_def)
qed simp

lemma length_generate_seqs [simp]: "length (generate_seqs n cs) = n"
  by (induction n arbitrary: cs) (auto simp: CallSet_generateSeq_def)

lemma generate_seqs_distinct:
  assumes "n \<le> 2 ^ 64"
  shows "distinct (generate_seqs n cs)"
proof -
  have "k = l" if "k < n" "l < n" "(of_nat (Suc k) :: 64 word) = of_nat (Suc l)" for k l
  proof -
    have "(of_nat k :: 64 word) = of_nat l" using that(3) by simp
    then have "unat (of_nat k :: 64 word) = unat (of_nat l :: 64 word)" by simp
    then have "k mod 2 ^ 64 = l mod 2 ^ 64" by (simp add: unat_of_nat)
    with that assms show ?thesis by simp
  qed
  then show ?thesis by (auto simp: distinct_conv_nth nth_generate_seqs)
qed

end
