(* ===== verification/Timer.thy ===== *)
theory Timer
  imports Heap
begin

text \<open>
  \<^verbatim>\<open>util/timer/heap.go\<close> and \<^verbatim>\<open>util/timer/timer.go\<close>: one-shot timers, tickers and cron timers over
  one global heap ordered by fire time. Timers are objects with an address (the caller keeps the
  pointer and may cancel it), so they live in a store; the three object pools hold addresses.
  A tick moves the earliest due timer from the heap to its channel; the service that owns the
  channel later calls \<^verbatim>\<open>Do\<close>. Times are nanoseconds; \<^verbatim>\<open>Now()\<close> is the argument \<open>now\<close>.
  A callback is a number, and \<open>run\<close> says what calling it does: it maps the whole state to a new one
  and tells whether it returned (\<open>False\<close> is a panic, which \<^verbatim>\<open>Do\<close> recovers from).
  \<^verbatim>\<open>CronExpr.Next\<close> is the argument \<open>nxt\<close>, \<open>None\<close> being the zero time.
  A channel has a capacity. A send on a full channel waits for the receiver, one on a nil channel for ever: the tick is
  then \<open>Blocked\<close> with the timer in hand, taken from the heap and closed.
\<close>

datatype timer_kind = KTimer | KCron | KTicker

record TimerObj =
  t_kind :: timer_kind
  cancelled :: bool
  t_C :: "nat option"
  interval :: int
  fireTime :: int
  t_cb :: "nat option"
  t_cbEx :: "nat option"
  cbOnCloseTimer :: "nat option"
  cronExpr :: "nat option"
  rOpen :: bool
  t_ref :: bool
  t_Id :: "64 word"
  AdditionData :: nat

record 'x TimerSys =
  t_store :: "nat \<Rightarrow> TimerObj"
  timers :: "nat list"
  t_chan :: "nat \<Rightarrow> nat list"
  t_cap :: "nat \<Rightarrow> nat"
  t_pool :: "timer_kind \<Rightarrow> nat list"
  t_user :: 'x

definition emptyTimer :: "timer_kind \<Rightarrow> TimerObj" where
  "emptyTimer k = \<lparr>t_kind = k, cancelled = False, t_C = None, interval = 0, fireTime = 0, t_cb = None,
     t_cbEx = None, cbOnCloseTimer = None, cronExpr = None, rOpen = False, t_ref = False, t_Id = 0, AdditionData = 0\<rparr>"

definition upd_timer :: "nat \<Rightarrow> (TimerObj \<Rightarrow> TimerObj) \<Rightarrow> 'x TimerSys \<Rightarrow> 'x TimerSys" where
  "upd_timer t f w = w\<lparr>t_store := (t_store w)(t := f (t_store w t))\<rparr>"

section \<open>The heap (heap.go)\<close>

definition TimerHeap_Len :: "'x TimerSys \<Rightarrow> nat" where
  "TimerHeap_Len w = length (timers w)"

definition TimerHeap_Less :: "'x TimerSys \<Rightarrow> nat \<Rightarrow> nat \<Rightarrow> bool" where
  "TimerHeap_Less w i j \<longleftrightarrow> fireTime (t_store w (timers w ! i)) < fireTime (t_store w (timers w ! j))"

definition TimerHeap_Swap :: "'x TimerSys \<Rightarrow> nat \<Rightarrow> nat \<Rightarrow> 'x TimerSys" where
  "TimerHeap_Swap w i j = w\<lparr>timers := swap_list (timers w) i j\<rparr>"

definition TimerHeap_Push :: "'x TimerSys \<Rightarrow> nat \<Rightarrow> 'x TimerSys" where
  "TimerHeap_Push w t = w\<lparr>timers := timers w @ [t]\<rparr>"

definition TimerHeap_Pop :: "'x TimerSys \<Rightarrow> nat \<times> 'x TimerSys" where
  "TimerHeap_Pop w =
     (let l = length (timers w) in (timers w ! (l - 1), w\<lparr>timers := take (l - 1) (timers w)\<rparr>))"

definition timer_iface :: "('x TimerSys, nat, nat) heap_iface" where
  "timer_iface = \<lparr>hLen = TimerHeap_Len, hLess = TimerHeap_Less, hSwap = TimerHeap_Swap,
                  hPush = TimerHeap_Push, hPop = TimerHeap_Pop\<rparr>"

text \<open>The boolean result is false when \<^verbatim>\<open>SetupTimer\<close> returns nil.\<close>

definition SetupTimer :: "nat \<Rightarrow> 'x TimerSys \<Rightarrow> bool \<times> 'x TimerSys" where
  "SetupTimer t w =
     (if rOpen (t_store w t) then (False, w)
      else (True, heap_Push timer_iface (upd_timer t (\<lambda>ob. ob\<lparr>rOpen := True\<rparr>) w) t))"

definition StartTimer :: "'x TimerSys \<Rightarrow> 'x TimerSys" where
  "StartTimer w = heap_Init timer_iface (w\<lparr>timers := []\<rparr>)"

text \<open>The send of \<^verbatim>\<open>AppendChannel\<close>; \<open>None\<close> says that it has to wait.\<close>

definition AppendChannel :: "nat \<Rightarrow> 'x TimerSys \<Rightarrow> 'x TimerSys option" where
  "AppendChannel t w =
     (case t_C (t_store w t) of
        None \<Rightarrow> None
      | Some c \<Rightarrow>
          if length (t_chan w c) < t_cap w c then Some (w\<lparr>t_chan := (t_chan w)(c := t_chan w c @ [t])\<rparr>) else None)"

datatype tick_result = Idle | Sent | Blocked nat

definition tick :: "int \<Rightarrow> 'x TimerSys \<Rightarrow> (tick_result \<times> 'x TimerSys) go" where
  "tick now w =
     (if TimerHeap_Len w \<le> 0 then Inr (Idle, w)
      else if fireTime (t_store w (timers w ! 0)) > now then Inr (Idle, w)
      else
        rbind (heap_Pop timer_iface w) (\<lambda>(t, w1).
          let w2 = upd_timer t (\<lambda>ob. ob\<lparr>rOpen := False\<rparr>) w1
          in case AppendChannel t w2 of
               Some w3 \<Rightarrow> Inr (Sent, w3)
             | None \<Rightarrow> Inr (Blocked t, w2)))"

section \<open>Pools\<close>

definition tpool_Get :: "nat option \<Rightarrow> nat \<Rightarrow> timer_kind \<Rightarrow> 'x TimerSys \<Rightarrow> (nat \<times> 'x TimerSys) go" where
  "tpool_Get choice fresh k w =
     (let free = t_pool w k;
          (t, w1) = (case choice of
             Some i \<Rightarrow> if i < length free
                       then (free ! i, w\<lparr>t_pool := (t_pool w)(k := take i free @ drop (Suc i) free)\<rparr>)
                       else (fresh, upd_timer fresh (\<lambda>_. emptyTimer k) w)
           | None \<Rightarrow> (fresh, upd_timer fresh (\<lambda>_. emptyTimer k) w)) in
      if t_ref (t_store w1 t) then Inl (PanicMsg ''Pool data is in use.'')
      else Inr (t, upd_timer t (\<lambda>ob. ob\<lparr>t_ref := True\<rparr>) w1))"

text \<open>\<^verbatim>\<open>releaseTimer\<close>, \<^verbatim>\<open>releaseTicker\<close> and \<^verbatim>\<open>releaseCron\<close>; the flag is false on the pool's panic.\<close>

definition tpool_Put :: "timer_kind \<Rightarrow> nat \<Rightarrow> 'x TimerSys \<Rightarrow> 'x TimerSys \<times> bool" where
  "tpool_Put k t w =
     (if \<not> t_ref (t_store w t) then (w, False)
      else
        let w1 = upd_timer t (\<lambda>_. emptyTimer k) w in
        (w1\<lparr>t_pool := (t_pool w1)(k := t_pool w1 k @ [t])\<rparr>, True))"

definition newTimer :: "nat option \<Rightarrow> nat \<Rightarrow> int \<Rightarrow> int \<Rightarrow> nat \<Rightarrow> nat option \<Rightarrow> 'x TimerSys \<Rightarrow> (nat \<times> 'x TimerSys) go" where
  "newTimer choice fresh now d c cb w =
     rbind (tpool_Get choice fresh KTimer w) (\<lambda>(t, w1).
       Inr (t, upd_timer t (\<lambda>ob. ob\<lparr>t_C := Some c, fireTime := now + d, t_cb := cb, interval := d, rOpen := False\<rparr>) w1))"

text \<open>\<open>c\<close> is the channel that \<^verbatim>\<open>NewTimer\<close> makes, with one place.\<close>

definition NewTimer :: "nat option \<Rightarrow> nat \<Rightarrow> int \<Rightarrow> int \<Rightarrow> nat \<Rightarrow> 'x TimerSys \<Rightarrow> (nat \<times> 'x TimerSys) go" where
  "NewTimer choice fresh now d c w =
     rbind (newTimer choice fresh now d c None (w\<lparr>t_chan := (t_chan w)(c := []), t_cap := (t_cap w)(c := 1)\<rparr>))
       (\<lambda>(t, w1). Inr (t, snd (SetupTimer t w1)))"

section \<open>Running a timer (timer.go)\<close>

text \<open>Statements that may panic: the flag says whether the function goes on.\<close>

type_synonym 'x stmt = "'x TimerSys \<Rightarrow> 'x TimerSys \<times> bool"

definition seq_stmt :: "'x stmt \<Rightarrow> 'x stmt \<Rightarrow> 'x stmt" where
  "seq_stmt a b w = (let (w1, ok) = a w in if ok then b w1 else (w1, False))"

definition skip_stmt :: "'x stmt" where
  "skip_stmt w = (w, True)"

definition call_opt :: "(nat \<Rightarrow> nat \<Rightarrow> 'x stmt) \<Rightarrow> nat option \<Rightarrow> nat \<Rightarrow> 'x stmt" where
  "call_opt run f t = (case f of None \<Rightarrow> skip_stmt | Some g \<Rightarrow> run g t)"

definition IsActive :: "nat \<Rightarrow> 'x TimerSys \<Rightarrow> bool" where
  "IsActive t w \<longleftrightarrow> \<not> cancelled (t_store w t)"

definition Timer_Cancel :: "nat \<Rightarrow> 'x TimerSys \<Rightarrow> 'x TimerSys" where
  "Timer_Cancel t w = upd_timer t (\<lambda>ob. ob\<lparr>cancelled := True\<rparr>) w"

text \<open>Close callback, then back to the pool.\<close>

definition close_timer :: "(nat \<Rightarrow> nat \<Rightarrow> 'x stmt) \<Rightarrow> timer_kind \<Rightarrow> nat \<Rightarrow> 'x stmt" where
  "close_timer run k t w =
     seq_stmt (call_opt run (cbOnCloseTimer (t_store w t)) t) (tpool_Put k t) w"

text \<open>\<^verbatim>\<open>cb\<close> if it is set, else the extended callback if that is set.\<close>

definition call_timer :: "(nat \<Rightarrow> nat \<Rightarrow> 'x stmt) \<Rightarrow> nat \<Rightarrow> 'x stmt" where
  "call_timer run t w =
     (case t_cb (t_store w t) of
        Some f \<Rightarrow> run f t w
      | None \<Rightarrow> call_opt run (t_cbEx (t_store w t)) t w)"

definition Timer_Do_body :: "(nat \<Rightarrow> nat \<Rightarrow> 'x stmt) \<Rightarrow> nat \<Rightarrow> 'x stmt" where
  "Timer_Do_body run t w =
     (if \<not> IsActive t w then close_timer run KTimer t w
      else seq_stmt (call_timer run t)
        (\<lambda>w1. if \<not> rOpen (t_store w1 t) then close_timer run KTimer t w1 else (w1, True)) w)"

definition Timer_Do :: "(nat \<Rightarrow> nat \<Rightarrow> 'x stmt) \<Rightarrow> nat \<Rightarrow> 'x TimerSys \<Rightarrow> 'x TimerSys" where
  "Timer_Do run t w = fst (Timer_Do_body run t w)"

definition Timer_SetupTimer :: "int \<Rightarrow> nat \<Rightarrow> 'x TimerSys \<Rightarrow> bool \<times> 'x TimerSys" where
  "Timer_SetupTimer now t w =
     SetupTimer t (upd_timer t (\<lambda>ob. ob\<lparr>fireTime := now + interval ob\<rparr>) w)"

definition Ticker_Do_body :: "(nat \<Rightarrow> nat \<Rightarrow> 'x stmt) \<Rightarrow> int \<Rightarrow> nat \<Rightarrow> 'x stmt" where
  "Ticker_Do_body run now t w =
     (if \<not> IsActive t w then close_timer run KTicker t w
      else seq_stmt (call_timer run t)
        (\<lambda>w1. if IsActive t w1
              then (snd (SetupTimer t (upd_timer t (\<lambda>ob. ob\<lparr>fireTime := now + interval ob\<rparr>) w1)), True)
              else close_timer run KTicker t w1) w)"

definition Ticker_Do :: "(nat \<Rightarrow> nat \<Rightarrow> 'x stmt) \<Rightarrow> int \<Rightarrow> nat \<Rightarrow> 'x TimerSys \<Rightarrow> 'x TimerSys" where
  "Ticker_Do run now t w = fst (Ticker_Do_body run now t w)"

text \<open>Calling a nil function and using a nil cron expression are panics.\<close>

definition Cron_Do_body ::
    "(nat \<Rightarrow> nat \<Rightarrow> 'x stmt) \<Rightarrow> (nat \<Rightarrow> int \<Rightarrow> int option) \<Rightarrow> int \<Rightarrow> nat \<Rightarrow> 'x stmt" where
  "Cron_Do_body run nxt now t w =
     (if \<not> IsActive t w then close_timer run KCron t w
      else case cronExpr (t_store w t) of
          None \<Rightarrow> (w, False)
        | Some ce \<Rightarrow>
            (case nxt ce now of
               None \<Rightarrow> (case t_cbEx (t_store w t) of None \<Rightarrow> (w, False) | Some f \<Rightarrow> run f t w)
             | Some nextTime \<Rightarrow>
                 seq_stmt (call_timer run t)
                   (\<lambda>w1. if IsActive t w1
                         then (snd (SetupTimer t (upd_timer t (\<lambda>ob. ob\<lparr>interval := nextTime - now,
                                 fireTime := now + (nextTime - now)\<rparr>) w1)), True)
                         else close_timer run KCron t w1) w))"

definition Cron_Do ::
    "(nat \<Rightarrow> nat \<Rightarrow> 'x stmt) \<Rightarrow> (nat \<Rightarrow> int \<Rightarrow> int option) \<Rightarrow> int \<Rightarrow> nat \<Rightarrow> 'x TimerSys \<Rightarrow> 'x TimerSys" where
  "Cron_Do run nxt now t w = fst (Cron_Do_body run nxt now t w)"

section \<open>The dispatcher\<close>

text \<open>The add callback gets the new timer; \<open>None\<close> is a nil function.\<close>

definition AfterFunc :: "(nat \<Rightarrow> nat \<Rightarrow> 'x stmt) \<Rightarrow> nat option \<Rightarrow> nat \<Rightarrow> nat \<Rightarrow> int \<Rightarrow> int \<Rightarrow> nat option \<Rightarrow>
    nat option \<Rightarrow> nat option \<Rightarrow> nat option \<Rightarrow> 'x TimerSys \<Rightarrow> (nat \<times> 'x TimerSys \<times> bool) go" where
  "AfterFunc run choice fresh chn now d cb cbEx onTimerClose onAddTimer w =
     rbind (newTimer choice fresh now d chn None w) (\<lambda>(t, w1).
       let w2 = upd_timer t (\<lambda>ob. ob\<lparr>t_cb := cb, t_cbEx := cbEx, cbOnCloseTimer := onTimerClose\<rparr>) w1;
           (r, w3) = SetupTimer t w2;
           (w4, ok) = (if r then call_opt run onAddTimer t w3 else (w3, True)) in
       Inr (t, w4, ok))"

definition CronFunc :: "(nat \<Rightarrow> nat \<Rightarrow> 'x stmt) \<Rightarrow> (nat \<Rightarrow> int \<Rightarrow> int option) \<Rightarrow> nat option \<Rightarrow> nat \<Rightarrow> nat \<Rightarrow>
    int \<Rightarrow> nat \<Rightarrow> nat option \<Rightarrow> nat option \<Rightarrow> nat option \<Rightarrow> nat option \<Rightarrow> 'x TimerSys \<Rightarrow>
    (nat option \<times> 'x TimerSys \<times> bool) go" where
  "CronFunc run nxt choice fresh chn now ce cb cbEx onTimerClose onAddTimer w =
     (case nxt ce now of
        None \<Rightarrow> Inr (None, w, True)
      | Some nextTime \<Rightarrow>
          rbind (tpool_Get choice fresh KCron w) (\<lambda>(t, w1).
            let w2 = upd_timer t (\<lambda>ob. ob\<lparr>t_cb := cb, t_cbEx := cbEx, cbOnCloseTimer := onTimerClose,
                       cronExpr := Some ce, t_C := Some chn, interval := nextTime - now, fireTime := nextTime\<rparr>) w1;
                w3 = snd (SetupTimer t w2);
                (w4, ok) = (case onAddTimer of None \<Rightarrow> (w3, False) | Some f \<Rightarrow> run f t w3) in
            Inr (Some t, w4, ok)))"

definition TickerFunc :: "(nat \<Rightarrow> nat \<Rightarrow> 'x stmt) \<Rightarrow> nat option \<Rightarrow> nat \<Rightarrow> nat \<Rightarrow> int \<Rightarrow> int \<Rightarrow> nat option \<Rightarrow>
    nat option \<Rightarrow> nat option \<Rightarrow> nat option \<Rightarrow> 'x TimerSys \<Rightarrow> (nat \<times> 'x TimerSys \<times> bool) go" where
  "TickerFunc run choice fresh chn now d cb cbEx onTimerClose onAddTimer w =
     rbind (tpool_Get choice fresh KTicker w) (\<lambda>(t, w1).
       let w2 = upd_timer t (\<lambda>ob. ob\<lparr>t_C := Some chn, fireTime := now + d, t_cb := cb, t_cbEx := cbEx,
                  interval := d\<rparr>) w1;
           w3 = snd (SetupTimer t w2);
           (w4, ok) = (case onAddTimer of None \<Rightarrow> (w3, False) | Some f \<Rightarrow> run f t w3) in
       Inr (t, w4, ok))"

section \<open>Invariant\<close>

text \<open>
  Exactly the open timers are in the heap, each once, and the heap is ordered by fire time.
  \<open>rest\<close> fixes everything the heap operations do not touch.
\<close>

definition timer_rest :: "'x TimerSys \<Rightarrow> 'x TimerSys \<Rightarrow> bool" where
  "timer_rest w0 w \<longleftrightarrow> w = w0\<lparr>timers := timers w\<rparr>"

definition timer_inv :: "'x TimerSys \<Rightarrow> bool" where
  "timer_inv w \<longleftrightarrow>
     distinct (timers w) \<and> (\<forall>t. rOpen (t_store w t) \<longleftrightarrow> t \<in> set (timers w)) \<and>
     heap_list (\<lambda>t. fireTime (t_store w t)) (timers w)"

lemma timer_rest_simps:
  assumes "timer_rest w0 w"
  shows "t_store w = t_store w0" "t_chan w = t_chan w0" "t_cap w = t_cap w0" "t_pool w = t_pool w0" "t_user w = t_user w0"
  using assms unfolding timer_rest_def by (cases w0, cases w, simp)+

interpretation th: heap_client timer_iface timers "\<lambda>t. fireTime (t_store w0 t)" "timer_rest w0"
  "\<lambda>w t. True" "\<lambda>w t. t" "\<lambda>r t. r = t" for w0 :: "'x TimerSys"
proof unfold_locales
  fix w :: "'x TimerSys" and i j
  assume r: "timer_rest w0 w"
  show "hLess timer_iface w i j \<longleftrightarrow>
      fireTime (t_store w0 (timers w ! i)) < fireTime (t_store w0 (timers w ! j))"
    using timer_rest_simps(1) [OF r] by (simp add: timer_iface_def TimerHeap_Less_def)
  show "timer_rest w0 (hSwap timer_iface w i j) \<and> timers (hSwap timer_iface w i j) = swap_list (timers w) i j"
    using r by (cases w0, cases w) (simp add: timer_iface_def TimerHeap_Swap_def timer_rest_def)
next
  fix w :: "'x TimerSys" and t
  assume r: "timer_rest w0 w"
  then show "timer_rest w0 (hPush timer_iface w t) \<and> timers (hPush timer_iface w t) = timers w @ [t]"
    by (cases w0, cases w) (simp add: timer_iface_def TimerHeap_Push_def timer_rest_def)
next
  fix w w' :: "'x TimerSys" and t
  assume r: "timer_rest w0 w" "timers w \<noteq> []" "hPop timer_iface w = (t, w')"
  then show "timer_rest w0 w' \<and> timers w' = butlast (timers w) \<and> t = last (timers w)"
    by (cases w0, cases w) (auto simp: timer_iface_def TimerHeap_Pop_def timer_rest_def Let_def
        butlast_conv_take last_conv_nth)
qed (simp add: timer_iface_def TimerHeap_Len_def)

section \<open>Setting up and ticking\<close>

lemma SetupTimer_open: "rOpen (t_store w t) \<Longrightarrow> SetupTimer t w = (False, w)"
  by (simp add: SetupTimer_def)

lemma SetupTimer_ok:
  assumes "timer_inv w" "\<not> rOpen (t_store w t)"
  obtains ts where "SetupTimer t w = (True, (upd_timer t (\<lambda>ob. ob\<lparr>rOpen := True\<rparr>) w)\<lparr>timers := ts\<rparr>)"
    "mset ts = add_mset t (mset (timers w))"
    "timer_inv ((upd_timer t (\<lambda>ob. ob\<lparr>rOpen := True\<rparr>) w)\<lparr>timers := ts\<rparr>)"
proof -
  let ?w = "upd_timer t (\<lambda>ob. ob\<lparr>rOpen := True\<rparr>) w"
  let ?ft = "\<lambda>t. fireTime (t_store ?w t)"
  have ft: "?ft = (\<lambda>t. fireTime (t_store w t))" by (auto simp: upd_timer_def)
  have r: "timer_rest ?w ?w" by (simp add: timer_rest_def)
  have h: "heap_list ?ft (timers ?w)" using assms(1) unfolding ft by (simp add: timer_inv_def upd_timer_def)
  note p = th.push_ok [OF r h, of t]
  define w' where "w' = heap_Push timer_iface ?w t"
  have w': "w' = ?w\<lparr>timers := timers w'\<rparr>" using p(1) by (simp add: w'_def timer_rest_def)
  have m: "mset (timers w') = add_mset t (mset (timers w))" using p(3) by (simp add: w'_def upd_timer_def)
  have "t \<notin> set (timers w)" using assms by (simp add: timer_inv_def)
  then have "distinct (timers w')"
    using m assms(1) mset_eq_imp_distinct_iff [of "timers w'" "t # timers w"] by (simp add: timer_inv_def)
  moreover have "set (timers w') = insert t (set (timers w))"
    using m mset_eq_setD [of "timers w'" "t # timers w"] by simp
  moreover have "heap_list (\<lambda>u. fireTime (t_store w' u)) (timers w')"
    using p(2) timer_rest_simps(1) [OF p(1)] by (simp add: w'_def)
  ultimately have "timer_inv w'"
    using assms(1) timer_rest_simps(1) [OF p(1)] by (auto simp: timer_inv_def w'_def upd_timer_def)
  then show ?thesis using that [of "timers w'"] m w' assms(2) by (simp add: SetupTimer_def w'_def)
qed

lemma timer_head_least:
  "timer_inv w \<Longrightarrow> t \<in> set (timers w) \<Longrightarrow> fireTime (t_store w (timers w ! 0)) \<le> fireTime (t_store w t)"
  using is_heap_min [of "\<lambda>t. fireTime (t_store w t)" "timers w" "length (timers w)"]
  by (auto simp: timer_inv_def in_set_conv_nth)

lemma tick_idle:
  assumes "timer_inv w" "\<forall>t \<in> set (timers w). now < fireTime (t_store w t)"
  shows "tick now w = Inr (Idle, w)"
  using assms by (cases "timers w") (auto simp: tick_def TimerHeap_Len_def)

text \<open>A tick with a due timer takes one with the earliest fire time, closes it, and sends it or waits.\<close>

definition taken :: "nat \<Rightarrow> nat list \<Rightarrow> 'x TimerSys \<Rightarrow> 'x TimerSys" where
  "taken u us w = (upd_timer u (\<lambda>ob. ob\<lparr>rOpen := False\<rparr>) w)\<lparr>timers := us\<rparr>"

lemma taken_simps [simp]:
  "timers (taken u us w) = us" "t_store (taken u us w) = (t_store w)(u := (t_store w u)\<lparr>rOpen := False\<rparr>)"
  "t_chan (taken u us w) = t_chan w" "t_cap (taken u us w) = t_cap w"
  by (simp_all add: taken_def upd_timer_def)

lemma taken_notin:
  assumes "timer_inv (taken u us w)"
  shows "u \<notin> set us"
proof -
  have "rOpen (t_store (taken u us w) u) \<longleftrightarrow> u \<in> set us" using assms by (simp add: timer_inv_def del: taken_simps(2))
  then show ?thesis by simp
qed

lemma tick_due:
  assumes "timer_inv w" "t \<in> set (timers w)" "fireTime (t_store w t) \<le> now"
  defines "u \<equiv> timers w ! 0"
  obtains us where
    "tick now w = (case AppendChannel u (taken u us w) of Some w' \<Rightarrow> Inr (Sent, w') | None \<Rightarrow> Inr (Blocked u, taken u us w))"
    "mset (timers w) = add_mset u (mset us)" "timer_inv (taken u us w)"
    "fireTime (t_store w u) \<le> now" "\<forall>v \<in> set (timers w). fireTime (t_store w u) \<le> fireTime (t_store w v)"
proof -
  have ne: "timers w \<noteq> []" using assms(2) by auto
  have least: "\<forall>v \<in> set (timers w). fireTime (t_store w u) \<le> fireTime (t_store w v)"
    using timer_head_least [OF assms(1)] by (simp add: u_def)
  then have due: "fireTime (t_store w u) \<le> now" using assms(2,3) by force
  have r: "timer_rest w w" by (simp add: timer_rest_def)
  have h: "heap_list (\<lambda>t. fireTime (t_store w t)) (timers w)" using assms(1) by (simp add: timer_inv_def)
  from th.pop_ok [OF r h ne] obtain w1 where w1: "heap_Pop timer_iface w = Inr (u, w1)" "timer_rest w w1"
    "heap_list (\<lambda>t. fireTime (t_store w t)) (timers w1)" "mset (timers w) = add_mset u (mset (timers w1))"
    unfolding u_def by blast
  have e: "w1 = w\<lparr>timers := timers w1\<rparr>" using w1(2) by (simp add: timer_rest_def)
  have sw: "upd_timer u (\<lambda>ob. ob\<lparr>rOpen := False\<rparr>) w1 = taken u (timers w1) w"
    by (subst e) (simp add: upd_timer_def taken_def)
  have tk: "tick now w = (case AppendChannel u (taken u (timers w1) w) of Some w' \<Rightarrow> Inr (Sent, w')
      | None \<Rightarrow> Inr (Blocked u, taken u (timers w1) w))"
    using ne due w1(1) by (simp add: tick_def TimerHeap_Len_def u_def [symmetric] sw Let_def split: option.split)
  have du: "distinct (u # timers w1)"
    using assms(1) w1(4) mset_eq_imp_distinct_iff [of "timers w" "u # timers w1"] by (simp add: timer_inv_def)
  have su: "set (timers w) = insert u (set (timers w1))"
    using w1(4) mset_eq_setD [of "timers w" "u # timers w1"] by simp
  have "(\<lambda>t. fireTime (t_store (taken u (timers w1) w) t)) = (\<lambda>t. fireTime (t_store w t))" by auto
  then have "timer_inv (taken u (timers w1) w)" using assms(1) du su w1(3) unfolding timer_inv_def by auto
  then show ?thesis using that [of "timers w1"] tk w1(4) due least by blast
qed

text \<open>A tick whose timer has no channel, or a full one, waits: the timer is out of the heap and in no channel.\<close>

lemma tick_waits:
  assumes "timer_inv w" "t \<in> set (timers w)" "fireTime (t_store w t) \<le> now"
  defines "u \<equiv> timers w ! 0"
  assumes "\<And>c. t_C (t_store w u) = Some c \<Longrightarrow> t_cap w c \<le> length (t_chan w c)"
  shows "\<exists>w'. tick now w = Inr (Blocked u, w') \<and> u \<notin> set (timers w') \<and> t_chan w' = t_chan w"
proof -
  obtain us where us: "tick now w = (case AppendChannel u (taken u us w) of Some w' \<Rightarrow> Inr (Sent, w') | None \<Rightarrow> Inr (Blocked u, taken u us w))"
    "mset (timers w) = add_mset u (mset us)" "timer_inv (taken u us w)"
    unfolding u_def by (rule tick_due [OF assms(1-3)]) blast
  have "AppendChannel u (taken u us w) = None"
    using assms(5) by (auto simp: AppendChannel_def not_less split: option.split)
  moreover have "u \<notin> set us" by (rule taken_notin [OF us(3)])
  ultimately show ?thesis using us(1) by simp
qed

text \<open>The tick routine between two sleeps: tick until one does not send. Each tick reads the clock anew.\<close>

fun tick_loop :: "nat \<Rightarrow> (nat \<Rightarrow> int) \<Rightarrow> nat \<Rightarrow> 'x TimerSys \<Rightarrow> (tick_result \<times> 'x TimerSys) go" where
  "tick_loop 0 clock k w = Inr (Sent, w)"
| "tick_loop (Suc n) clock k w =
     rbind (tick (clock k) w) (\<lambda>(r, w1). if r = Sent then tick_loop n clock (Suc k) w1 else Inr (r, w1))"

text \<open>\<open>delivers w ts w'\<close>: exactly \<open>ts\<close> left the heap, closed, each sent on its channel in this order.\<close>

definition delivers :: "'x TimerSys \<Rightarrow> nat list \<Rightarrow> 'x TimerSys \<Rightarrow> bool" where
  "delivers w ts w' \<longleftrightarrow>
     mset (timers w) = mset ts + mset (timers w') \<and>
     sorted (map (\<lambda>t. fireTime (t_store w t)) ts) \<and>
     t_store w' = (\<lambda>t. if t \<in> set ts then (t_store w t)\<lparr>rOpen := False\<rparr> else t_store w t) \<and>
     (\<forall>t \<in> set ts. t_C (t_store w t) \<noteq> None) \<and>
     t_chan w' = (\<lambda>c. t_chan w c @ filter (\<lambda>t. t_C (t_store w t) = Some c) ts) \<and> t_cap w' = t_cap w"

lemma delivers_Nil: "delivers w [] w"
  by (simp add: delivers_def)

lemma delivers_Cons:
  assumes "mset (timers w) = add_mset u (mset us)" "t_C (t_store w u) = Some c"
    "delivers ((taken u us w)\<lparr>t_chan := (t_chan w)(c := t_chan w c @ [u])\<rparr>) ts w'"
    "\<forall>v \<in> set (timers w). fireTime (t_store w u) \<le> fireTime (t_store w v)" "distinct (timers w)"
  shows "delivers w (u # ts) w'"
proof -
  let ?w = "(taken u us w)\<lparr>t_chan := (t_chan w)(c := t_chan w c @ [u])\<rparr>"
  have m: "mset us = mset ts + mset (timers w')" using assms(3) by (simp add: delivers_def)
  have du: "distinct (u # us)"
    using assms(1,5) mset_eq_imp_distinct_iff [of "timers w" "u # us"] by simp
  have sub: "set ts \<subseteq> set us" using m by (metis set_mset_mset set_mset_union sup_ge1)
  have su: "set us \<subseteq> set (timers w)" using assms(1) mset_eq_setD [of "timers w" "u # us"] by auto
  have u: "u \<notin> set ts" using du sub by auto
  have ft: "fireTime (t_store ?w t) = fireTime (t_store w t)" "t_C (t_store ?w t) = t_C (t_store w t)" for t by auto
  have "sorted (map (\<lambda>t. fireTime (t_store w t)) (u # ts))"
    using assms(3,4) sub su unfolding delivers_def ft by auto
  moreover have "t_store w' = (\<lambda>t. if t \<in> set (u # ts) then (t_store w t)\<lparr>rOpen := False\<rparr> else t_store w t)"
    using assms(3) u by (auto simp: delivers_def fun_eq_iff)
  moreover have "t_chan w' = (\<lambda>c. t_chan w c @ filter (\<lambda>t. t_C (t_store w t) = Some c) (u # ts))"
    using assms(2,3) unfolding delivers_def ft by (auto simp: fun_eq_iff)
  moreover have "t_cap w' = t_cap w" using assms(3) by (simp add: delivers_def)
  moreover have "\<forall>t \<in> set (u # ts). t_C (t_store w t) \<noteq> None"
    using assms(2,3) unfolding delivers_def ft by auto
  ultimately show ?thesis using assms(1) m by (simp add: delivers_def)
qed

text \<open>
  What a run of the loop ends in: either nothing due is left, or the earliest timer left is due and the send waits on
  its channel, which is nil or full.
\<close>

definition chan_full :: "'x TimerSys \<Rightarrow> nat \<Rightarrow> bool" where
  "chan_full w t \<longleftrightarrow> (case t_C (t_store w t) of None \<Rightarrow> True | Some c \<Rightarrow> t_cap w c \<le> length (t_chan w c))"

definition loop_end :: "int \<Rightarrow> 'x TimerSys \<Rightarrow> (tick_result \<times> 'x TimerSys) go \<Rightarrow> bool" where
  "loop_end now w res \<longleftrightarrow>
     res = Inr (Idle, w) \<and> (\<forall>t \<in> set (timers w). now < fireTime (t_store w t)) \<or>
     (\<exists>u us. res = Inr (Blocked u, taken u us w) \<and> mset (timers w) = add_mset u (mset us) \<and> timer_inv (taken u us w) \<and>
        fireTime (t_store w u) \<le> now \<and> (\<forall>v \<in> set us. fireTime (t_store w u) \<le> fireTime (t_store w v)) \<and> chan_full w u)"

lemma AppendChannel_taken:
  "AppendChannel u (taken u us w) = None \<longleftrightarrow> chan_full w u"
  "AppendChannel u (taken u us w) = Some w' \<longleftrightarrow>
     (\<exists>c. t_C (t_store w u) = Some c \<and> \<not> chan_full w u \<and> w' = (taken u us w)\<lparr>t_chan := (t_chan w)(c := t_chan w c @ [u])\<rparr>)"
  by (auto simp: AppendChannel_def chan_full_def split: option.split)

lemma tick_loop_ok:
  "timer_inv w \<Longrightarrow> length (timers w) < n \<Longrightarrow>
   \<exists>ts w'. delivers w ts w' \<and> timer_inv w' \<and> (\<forall>j < length ts. fireTime (t_store w (ts ! j)) \<le> clock (k + j)) \<and>
     loop_end (clock (k + length ts)) w' (tick_loop n clock k w)"
proof (induction n arbitrary: w k)
  case (Suc n)
  show ?case
  proof (cases "\<forall>t \<in> set (timers w). clock k < fireTime (t_store w t)")
    case True
    then show ?thesis using tick_idle [OF Suc.prems(1) True] Suc.prems(1) delivers_Nil [of w]
      by (intro exI [of _ "[]"] exI [of _ w]) (simp add: loop_end_def)
  next
    case False
    then obtain t where t: "t \<in> set (timers w)" "fireTime (t_store w t) \<le> clock k" by fastforce
    let ?u = "timers w ! 0"
    obtain us where us: "mset (timers w) = add_mset ?u (mset us)"
      "tick (clock k) w = (case AppendChannel ?u (taken ?u us w) of Some w' \<Rightarrow> Inr (Sent, w') | None \<Rightarrow> Inr (Blocked ?u, taken ?u us w))"
      "timer_inv (taken ?u us w)" "fireTime (t_store w ?u) \<le> clock k"
      "\<forall>v \<in> set (timers w). fireTime (t_store w ?u) \<le> fireTime (t_store w v)"
      by (rule tick_due [OF Suc.prems(1) t]) blast
    show ?thesis
    proof (cases "AppendChannel ?u (taken ?u us w)")
      case None
      have "set us \<subseteq> set (timers w)" using us(1) mset_eq_setD [of "timers w" "?u # us"] by auto
      then have "loop_end (clock k) w (tick_loop (Suc n) clock k w)"
        using us None AppendChannel_taken(1) [of ?u us w] unfolding loop_end_def
        by (intro disjI2 exI [of _ ?u] exI [of _ us]) auto
      then show ?thesis using Suc.prems(1) delivers_Nil [of w] by (intro exI [of _ "[]"] exI [of _ w]) simp
    next
      case (Some w1)
      then obtain c where c: "t_C (t_store w ?u) = Some c" and
        w1: "w1 = (taken ?u us w)\<lparr>t_chan := (t_chan w)(c := t_chan w c @ [?u])\<rparr>" unfolding AppendChannel_taken(2) by blast
      have inv: "timer_inv w1" using us(3) by (simp add: timer_inv_def w1)
      have ft: "fireTime (t_store w1 v) = fireTime (t_store w v)" for v by (simp add: w1)
      have "length (timers w1) < n" using us(1) Suc.prems(2) mset_eq_length [of "timers w" "?u # us"] by (simp add: w1)
      from Suc.IH [OF inv this, of "Suc k"] obtain ts w' where w': "delivers w1 ts w'" "timer_inv w'"
        "\<forall>j < length ts. fireTime (t_store w (ts ! j)) \<le> clock (Suc k + j)"
        "loop_end (clock (Suc k + length ts)) w' (tick_loop n clock (Suc k) w1)" unfolding ft by blast
      have "delivers w (?u # ts) w'"
        using Suc.prems(1) by (intro delivers_Cons [OF us(1) c w'(1) [unfolded w1] us(5)]) (simp add: timer_inv_def)
      moreover have "\<forall>j < length (?u # ts). fireTime (t_store w ((?u # ts) ! j)) \<le> clock (k + j)"
        using us(4) w'(3) by (auto simp: nth_Cons split: nat.split)
      moreover have "tick_loop (Suc n) clock k w = tick_loop n clock (Suc k) w1" using us(2) Some by simp
      ultimately show ?thesis using w'(2,4) by (intro exI [of _ "?u # ts"] exI [of _ w']) simp
    qed
  qed
qed simp

text \<open>
  When every timer of the heap has a channel, and each channel has room for the timers of the heap that are bound for
  it, no send waits.
\<close>

definition chan_room :: "'x TimerSys \<Rightarrow> bool" where
  "chan_room w \<longleftrightarrow> (\<forall>t \<in> set (timers w). t_C (t_store w t) \<noteq> None) \<and>
     (\<forall>c. length (t_chan w c) + size (filter_mset (\<lambda>t. t_C (t_store w t) = Some c) (mset (timers w))) \<le> t_cap w c)"

lemma room_not_full:
  assumes "chan_room w" "delivers w ts w'" "u \<in> set (timers w')"
  shows "\<not> chan_full w' u"
proof -
  have m: "mset (timers w) = mset ts + mset (timers w')" using assms(2) by (simp add: delivers_def)
  then have "u \<in> set (timers w)" using assms(3) by (metis UnI2 set_mset_mset set_mset_union)
  then obtain c where c: "t_C (t_store w u) = Some c" using assms(1) by (auto simp: chan_room_def)
  have c': "t_C (t_store w' u) = Some c" using assms(2) c by (simp add: delivers_def)
  let ?P = "\<lambda>t. t_C (t_store w t) = Some c"
  have "length (t_chan w c) + size (filter_mset ?P (mset (timers w))) \<le> t_cap w c" using assms(1) by (simp add: chan_room_def)
  moreover have "0 < size (filter_mset ?P (mset (timers w')))"
    using assms(3) c by (auto simp: nonempty_has_size [symmetric])
  moreover have "length (t_chan w' c) = length (t_chan w c) + size (filter_mset ?P (mset ts))" "t_cap w' = t_cap w"
    using assms(2) by (simp_all add: delivers_def flip: size_mset mset_filter)
  ultimately show ?thesis using c' by (simp add: chan_full_def m)
qed

lemma loop_end_room:
  assumes "chan_room w" "delivers w ts w'" "loop_end now w' res"
  shows "res = Inr (Idle, w') \<and> (\<forall>t \<in> set (timers w'). now < fireTime (t_store w' t))"
proof -
  have "\<not> chan_full w' u" if "mset (timers w') = add_mset u (mset us)" for u us
    using room_not_full [OF assms(1,2)] that mset_eq_setD [of "timers w'" "u # us"] by simp
  then show ?thesis using assms(3) unfolding loop_end_def by blast
qed

section \<open>Running with callbacks that only change the user's state\<close>

definition quiet :: "(nat \<Rightarrow> nat \<Rightarrow> 'x \<Rightarrow> 'x) \<Rightarrow> nat \<Rightarrow> nat \<Rightarrow> 'x stmt" where
  "quiet act f t w = (w\<lparr>t_user := act f t (t_user w)\<rparr>, True)"

definition opt_act :: "(nat \<Rightarrow> nat \<Rightarrow> 'x \<Rightarrow> 'x) \<Rightarrow> nat option \<Rightarrow> nat \<Rightarrow> 'x \<Rightarrow> 'x" where
  "opt_act act f t x = (case f of None \<Rightarrow> x | Some g \<Rightarrow> act g t x)"

definition timer_act :: "(nat \<Rightarrow> nat \<Rightarrow> 'x \<Rightarrow> 'x) \<Rightarrow> TimerObj \<Rightarrow> nat \<Rightarrow> 'x \<Rightarrow> 'x" where
  "timer_act act ob t x = opt_act act (if t_cb ob = None then t_cbEx ob else t_cb ob) t x"

lemma call_opt_quiet: "call_opt (quiet act) f t w = (w\<lparr>t_user := opt_act act f t (t_user w)\<rparr>, True)"
  by (simp add: call_opt_def skip_stmt_def quiet_def opt_act_def split: option.split)

lemma call_timer_quiet:
  "call_timer (quiet act) t w = (w\<lparr>t_user := timer_act act (t_store w t) t (t_user w)\<rparr>, True)"
  by (auto simp: call_timer_def timer_act_def quiet_def opt_act_def call_opt_quiet split: option.split)

definition released :: "timer_kind \<Rightarrow> nat \<Rightarrow> 'x TimerSys \<Rightarrow> 'x TimerSys" where
  "released k t w = w\<lparr>t_store := (t_store w)(t := emptyTimer k), t_pool := (t_pool w)(k := t_pool w k @ [t])\<rparr>"

lemma close_timer_quiet:
  "t_ref (t_store w t) \<Longrightarrow> close_timer (quiet act) k t w =
     (released k t (w\<lparr>t_user := opt_act act (cbOnCloseTimer (t_store w t)) t (t_user w)\<rparr>), True)"
  by (simp add: close_timer_def seq_stmt_def call_opt_quiet tpool_Put_def upd_timer_def released_def Let_def)

lemma released_inv:
  "timer_inv w \<Longrightarrow> \<not> rOpen (t_store w t) \<Longrightarrow> timer_inv (released k t w)"
proof -
  assume a: "timer_inv w" "\<not> rOpen (t_store w t)"
  then have "t \<notin> set (timers w)" by (simp add: timer_inv_def)
  then have ft: "u \<in> set (timers w) \<Longrightarrow> t_store (released k t w) u = t_store w u" for u
    by (auto simp: released_def)
  have "heap_list (\<lambda>u. fireTime (t_store (released k t w) u)) (timers w)"
    using a(1) ft heap_list_cong [of "timers w" "\<lambda>u. fireTime (t_store (released k t w) u)"
        "\<lambda>u. fireTime (t_store w u)"] by (simp add: timer_inv_def)
  with a \<open>t \<notin> set (timers w)\<close> show ?thesis
    by (auto simp: timer_inv_def released_def emptyTimer_def)
qed

text \<open>A one-shot timer runs its callback once, then its close callback, and goes back to the pool.\<close>

lemma Timer_Do_once:
  assumes "IsActive t w" "\<not> rOpen (t_store w t)" "t_ref (t_store w t)"
  shows "Timer_Do (quiet act) t w =
    released KTimer t (w\<lparr>t_user := opt_act act (cbOnCloseTimer (t_store w t)) t
       (timer_act act (t_store w t) t (t_user w))\<rparr>)"
  using assms by (simp add: Timer_Do_def Timer_Do_body_def seq_stmt_def call_timer_quiet close_timer_quiet)

text \<open>A cancelled timer of any kind does not run its callback.\<close>

lemma Do_cancelled:
  fixes act :: "nat \<Rightarrow> nat \<Rightarrow> 'x \<Rightarrow> 'x" and w :: "'x TimerSys"
  assumes "\<not> IsActive t w" "t_ref (t_store w t)"
  defines "w' \<equiv> \<lambda>k. released k t (w\<lparr>t_user := opt_act act (cbOnCloseTimer (t_store w t)) t (t_user w)\<rparr>)"
  shows "Timer_Do (quiet act) t w = w' KTimer" "Ticker_Do (quiet act) now t w = w' KTicker"
    "Cron_Do (quiet act) nxt now t w = w' KCron"
  using assms by (simp_all add: Timer_Do_def Timer_Do_body_def Ticker_Do_def Ticker_Do_body_def
      Cron_Do_def Cron_Do_body_def close_timer_quiet)

text \<open>
  An active ticker or cron timer whose callback returns is back in the heap, for its next time. \<open>armed f t w w'\<close>: \<open>t\<close>
  was changed by \<open>f\<close>, opened and put into the heap, and nothing else changed.
\<close>

definition armed :: "(TimerObj \<Rightarrow> TimerObj) \<Rightarrow> nat \<Rightarrow> 'x TimerSys \<Rightarrow> 'x TimerSys \<Rightarrow> bool" where
  "armed f t w w' \<longleftrightarrow> timer_inv w' \<and> mset (timers w') = add_mset t (mset (timers w)) \<and>
     w' = w\<lparr>t_store := (t_store w)(t := (f (t_store w t))\<lparr>rOpen := True\<rparr>), timers := timers w'\<rparr>"

lemma armed_store: "armed f t w w' \<Longrightarrow> t_store w' = (t_store w)(t := (f (t_store w t))\<lparr>rOpen := True\<rparr>)"
  unfolding armed_def by (metis (no_types, lifting) TimerSys.select_convs(1) TimerSys.surjective TimerSys.update_convs(1,2))

lemma armed_ok:
  fixes w :: "'x TimerSys"
  assumes "timer_inv w" "\<not> rOpen (t_store w t)" "\<And>ob. rOpen (f ob) = rOpen ob"
  defines "w1 \<equiv> upd_timer t f w"
  shows "armed f t w (snd (SetupTimer t w1))"
proof -
  have nt: "t \<notin> set (timers w)" using assms(1,2) by (simp add: timer_inv_def)
  then have ft: "u \<in> set (timers w) \<Longrightarrow> t_store w1 u = t_store w u" for u
    by (auto simp: w1_def upd_timer_def)
  have "heap_list (\<lambda>u. fireTime (t_store w1 u)) (timers w)"
    using assms(1) ft heap_list_cong [of "timers w" "\<lambda>u. fireTime (t_store w1 u)"
        "\<lambda>u. fireTime (t_store w u)"] by (simp add: timer_inv_def)
  then have i: "timer_inv w1" using assms(1-3) nt by (auto simp: timer_inv_def w1_def upd_timer_def)
  have no: "\<not> rOpen (t_store w1 t)" using assms(2,3) by (simp add: w1_def upd_timer_def)
  from i no obtain ts where ts: "SetupTimer t w1 = (True, (upd_timer t (\<lambda>ob. ob\<lparr>rOpen := True\<rparr>) w1)\<lparr>timers := ts\<rparr>)"
    "mset ts = add_mset t (mset (timers w1))"
    "timer_inv ((upd_timer t (\<lambda>ob. ob\<lparr>rOpen := True\<rparr>) w1)\<lparr>timers := ts\<rparr>)" by (rule SetupTimer_ok)
  then show ?thesis by (simp add: armed_def w1_def upd_timer_def)
qed

definition rearmed :: "(TimerObj \<Rightarrow> TimerObj) \<Rightarrow> (nat \<Rightarrow> nat \<Rightarrow> 'x \<Rightarrow> 'x) \<Rightarrow> nat \<Rightarrow> 'x TimerSys \<Rightarrow> 'x TimerSys \<Rightarrow> bool" where
  "rearmed f act t w w' \<longleftrightarrow> armed f t (w\<lparr>t_user := timer_act act (t_store w t) t (t_user w)\<rparr>) w'"

lemma Ticker_Do_rearm:
  assumes "timer_inv w" "\<not> rOpen (t_store w t)" "IsActive t w"
  shows "rearmed (\<lambda>ob. ob\<lparr>fireTime := now + interval ob\<rparr>) act t w (Ticker_Do (quiet act) now t w)"
  using armed_ok [of "w\<lparr>t_user := timer_act act (t_store w t) t (t_user w)\<rparr>" t "\<lambda>ob. ob\<lparr>fireTime := now + interval ob\<rparr>"] assms
  by (simp add: Ticker_Do_def Ticker_Do_body_def seq_stmt_def call_timer_quiet IsActive_def rearmed_def timer_inv_def)

text \<open>
  An active cron timer with a next time, for any callback. A panic of the callback ends the run where it stands: the
  timer is not set again. A callback that cancels the timer has it closed.
\<close>

lemma Cron_Do_cases:
  assumes "IsActive t w" "cronExpr (t_store w t) = Some ce" "nxt ce now = Some nextTime" "call_timer run t w = (w1, ok)"
  shows "\<not> ok \<Longrightarrow> Cron_Do run nxt now t w = w1"
    "ok \<Longrightarrow> \<not> IsActive t w1 \<Longrightarrow> Cron_Do run nxt now t w = fst (close_timer run KCron t w1)"
    "ok \<Longrightarrow> IsActive t w1 \<Longrightarrow> timer_inv w1 \<Longrightarrow> \<not> rOpen (t_store w1 t) \<Longrightarrow>
       armed (\<lambda>ob. ob\<lparr>interval := nextTime - now, fireTime := nextTime\<rparr>) t w1 (Cron_Do run nxt now t w)"
  using assms armed_ok [of w1 t "\<lambda>ob. ob\<lparr>interval := nextTime - now, fireTime := nextTime\<rparr>"]
  by (simp_all add: Cron_Do_def Cron_Do_body_def seq_stmt_def)

text \<open>A new ticker never carries the close callback it was given.\<close>

lemma TickerFunc_drops_close:
  assumes "TickerFunc run None fresh chn now d cb cbEx onTimerClose None w = Inr (t, w', ok)"
  shows "cbOnCloseTimer (t_store w' t) = None"
proof -
  define w2 where "w2 = upd_timer fresh (\<lambda>ob. ob\<lparr>t_C := Some chn, fireTime := now + d, t_cb := cb, t_cbEx := cbEx,
      interval := d\<rparr>) (upd_timer fresh (\<lambda>ob. ob\<lparr>t_ref := True\<rparr>) (upd_timer fresh (\<lambda>_. emptyTimer KTicker) w))"
  have t: "t = fresh" "w' = snd (SetupTimer fresh w2)"
    using assms by (auto simp: TickerFunc_def tpool_Get_def w2_def Let_def split: if_splits)
  have no: "\<not> rOpen (t_store w2 fresh)" "cbOnCloseTimer (t_store w2 fresh) = None"
    by (simp_all add: w2_def upd_timer_def emptyTimer_def)
  have r: "timer_rest (upd_timer fresh (\<lambda>ob. ob\<lparr>rOpen := True\<rparr>) w2) (upd_timer fresh (\<lambda>ob. ob\<lparr>rOpen := True\<rparr>) w2)"
    by (simp add: timer_rest_def)
  have "timer_rest (upd_timer fresh (\<lambda>ob. ob\<lparr>rOpen := True\<rparr>) w2) w'"
    unfolding t(2) using no(1) th.push_inv [OF r, of fresh] by (simp add: SetupTimer_def)
  from timer_rest_simps(1) [OF this] no(2) show ?thesis by (simp add: t(1) upd_timer_def)
qed

end
