(* ===== verification/Algorithms.thy ===== *)
theory Algorithms
  imports Prelude
begin

text \<open>
  The small generic algorithms: \<^verbatim>\<open>util/algorithms/BiSearch.go\<close> (binary search with a matching
  rule), \<^verbatim>\<open>util/algorithms/BitwiseOperation.go\<close> (bit flags over a slice of integers),
  \<^verbatim>\<open>util/smath/smath.go\<close> (overflow-checked arithmetic) and \<^verbatim>\<open>util/stack/stack.go\<close>.
  A type parameter ranging over integer types is a bit width (the word length \<open>'w\<close>, or the number
  \<open>w\<close> where values are integers in range) together with the flag \<open>sg\<close> (signed); the float and string instances of the same functions are not covered.
\<close>

section \<open>BiSearch\<close>

function BiSearch_loop :: "('a \<Rightarrow> 'v::linorder) \<Rightarrow> 'a list \<Rightarrow> 'v \<Rightarrow> int \<Rightarrow> int \<Rightarrow> int \<Rightarrow> (bool \<times> int) go" where
  "BiSearch_loop GetValue sElement value low high mid =
     (if low \<le> high then
        let mid = low + (high - low) div 2 in
        rbind (slice_get sElement mid) (\<lambda>e.
          if GetValue e > value then BiSearch_loop GetValue sElement value low (mid - 1) mid
          else if GetValue e < value then BiSearch_loop GetValue sElement value (mid + 1) high mid
          else Inr (True, mid))
      else Inr (False, mid))"
  by pat_completeness auto
termination
  by (relation "measure (\<lambda>(g, s, v, low, high, mid). nat (high - low + 1))") auto

declare BiSearch_loop.simps [simp del]

definition BiSearch :: "('a \<Rightarrow> 'v::linorder) \<Rightarrow> 'a list \<Rightarrow> 'v \<Rightarrow> int \<Rightarrow> int go" where
  "BiSearch GetValue sElement value matchUp =
     (let len = int (length sElement) in
      if len - 1 = - 1 then Inr (- 1)
      else
        rbind (BiSearch_loop GetValue sElement value 0 (len - 1) 0) (\<lambda>(found, mid).
          if found then Inr mid
          else if matchUp = 1 then
            rbind (slice_get sElement mid) (\<lambda>e.
              if GetValue e < value then (if mid + 1 \<ge> len then Inr (- 1) else Inr (mid + 1))
              else Inr mid)
          else if matchUp = - 1 then
            rbind (slice_get sElement mid) (\<lambda>e.
              if GetValue e > value then (if mid - 1 < 0 then Inr (- 1) else Inr (mid - 1))
              else Inr mid)
          else Inr (- 1)))"

text \<open>
  The loop returns a hit, or a position next to the gap where \<open>value\<close> would be: everything
  before \<open>low\<close> is smaller, everything from \<open>low\<close> on is larger, and \<open>mid\<close> is \<open>low\<close> or its predecessor.
\<close>

definition gap_at :: "('a \<Rightarrow> 'v::linorder) \<Rightarrow> 'a list \<Rightarrow> 'v \<Rightarrow> int \<Rightarrow> int \<Rightarrow> bool" where
  "gap_at get xs value low mid \<longleftrightarrow>
     0 \<le> mid \<and> mid < int (length xs) \<and> (mid = low \<or> mid = low - 1) \<and>
     (\<forall>k < length xs. if int k < low then get (xs ! k) < value else value < get (xs ! k))"

definition search_result :: "('a \<Rightarrow> 'v::linorder) \<Rightarrow> 'a list \<Rightarrow> 'v \<Rightarrow> (bool \<times> int) go \<Rightarrow> bool" where
  "search_result get xs value r \<longleftrightarrow>
     (\<exists>found m. r = Inr (found, m) \<and>
       (if found then 0 \<le> m \<and> m < int (length xs) \<and> get (xs ! nat m) = value
        else \<exists>low. gap_at get xs value low m))"

lemma BiSearch_loop_ok:
  assumes "sorted (map get xs)" "0 \<le> low" "high < int (length xs)" "low \<le> high + 1"
    and "\<And>k. k < length xs \<Longrightarrow> int k < low \<Longrightarrow> get (xs ! k) < value"
    and "\<And>k. k < length xs \<Longrightarrow> high < int k \<Longrightarrow> value < get (xs ! k)"
    and "low \<le> high \<or> 0 \<le> mid \<and> mid < int (length xs) \<and> (mid = low \<or> mid = low - 1)"
  shows "search_result get xs value (BiSearch_loop get xs value low high mid)"
  using assms(2-)
proof (induction "nat (high - low + 1)" arbitrary: low high mid rule: less_induct)
  case less
  show ?case
  proof (cases "low \<le> high")
    case False
    then have "gap_at get xs value low mid"
      using less.prems by (auto simp: gap_at_def)
    with False show ?thesis by (subst BiSearch_loop.simps) (auto simp: search_result_def)
  next
    case True
    define m where "m = low + (high - low) div 2"
    have m: "low \<le> m" "m \<le> high" "0 \<le> m" "m < int (length xs)"
      using True less.prems(1,2) by (auto simp: m_def)
    have get: "slice_get xs m = Inr (xs ! nat m)" using m by (simp add: slice_get_def)
    have mono: "i \<le> j \<Longrightarrow> j < length xs \<Longrightarrow> get (xs ! i) \<le> get (xs ! j)" for i j
      using assms(1) by (simp add: sorted_iff_nth_mono)
    consider "get (xs ! nat m) > value" | "get (xs ! nat m) < value" | "get (xs ! nat m) = value"
      by fastforce
    then show ?thesis
    proof cases
      case 1
      have "BiSearch_loop get xs value low high mid = BiSearch_loop get xs value low (m - 1) m"
        using True 1 get by (subst BiSearch_loop.simps) (simp add: Let_def m_def [symmetric])
      moreover have "value < get (xs ! k)" if "k < length xs" "m - 1 < int k" for k
      proof -
        have "nat m \<le> k" using that m by linarith
        then show ?thesis using 1 mono [of "nat m" k] that by auto
      qed
      moreover have "search_result get xs value (BiSearch_loop get xs value low (m - 1) m)"
        by (rule less.hyps) (use calculation less.prems m in auto)
      ultimately show ?thesis by simp
    next
      case 2
      have "BiSearch_loop get xs value low high mid = BiSearch_loop get xs value (m + 1) high m"
        using True 2 get by (subst BiSearch_loop.simps) (auto simp add: Let_def m_def [symmetric])
      moreover have "get (xs ! k) < value" if "k < length xs" "int k < m + 1" for k
      proof -
        have "k \<le> nat m" "nat m < length xs" using that m by linarith+
        then show ?thesis using 2 mono [of k "nat m"] by auto
      qed
      moreover have "search_result get xs value (BiSearch_loop get xs value (m + 1) high m)"
        by (rule less.hyps) (use calculation less.prems m in auto)
      ultimately show ?thesis by simp
    next
      case 3
      then show ?thesis using True get m
        by (subst BiSearch_loop.simps) (auto simp add: Let_def m_def [symmetric] search_result_def)
    qed
  qed
qed

lemma BiSearch_cases:
  assumes "sorted (map get xs)" "xs \<noteq> []"
  obtains (hit) m where "m < length xs" "get (xs ! m) = value"
      "\<And>matchUp. BiSearch get xs value matchUp = Inr (int m)"
  | (gap) g where "g \<le> length xs" "\<And>k. k < g \<Longrightarrow> get (xs ! k) < value"
      "\<And>k. g \<le> k \<Longrightarrow> k < length xs \<Longrightarrow> value < get (xs ! k)"
      "BiSearch get xs value 1 = Inr (if g < length xs then int g else - 1)"
      "BiSearch get xs value (- 1) = Inr (int g - 1)"
      "\<And>matchUp. matchUp \<noteq> 1 \<Longrightarrow> matchUp \<noteq> - 1 \<Longrightarrow> BiSearch get xs value matchUp = Inr (- 1)"
proof -
  have "0 < length xs" using assms(2) by simp
  with BiSearch_loop_ok [OF assms(1), of 0 "int (length xs) - 1" "value" 0]
  obtain found m where l: "BiSearch_loop get xs value 0 (int (length xs) - 1) 0 = Inr (found, m)"
    and r: "if found then 0 \<le> m \<and> m < int (length xs) \<and> get (xs ! nat m) = value
      else \<exists>low. gap_at get xs value low m" by (force simp: search_result_def)
  note d = BiSearch_def [of get xs "value"] l Let_def
  show ?thesis
  proof (cases found)
    case True
    then show ?thesis using r assms(2) by (intro hit [of "nat m"]) (auto simp: d)
  next
    case False
    then obtain low where g: "gap_at get xs value low m" using r by auto
    then have low: "0 \<le> low" "low \<le> int (length xs)" by (auto simp: gap_at_def)
    have get: "slice_get xs m = Inr (xs ! nat m)" using g by (simp add: slice_get_def gap_at_def)
    have "nat m < length xs" "int (nat m) = m" using g by (auto simp: gap_at_def)
    then have c: "if m < low then get (xs ! nat m) < value else value < get (xs ! nat m)"
      using g by (auto simp: gap_at_def)
    have m: "m = low \<or> m = low - 1" "m < int (length xs)" "0 \<le> m" using g by (auto simp: gap_at_def)
    show ?thesis
    proof (rule gap [of "nat low"])
      show "BiSearch get xs value 1 = Inr (if nat low < length xs then int (nat low) else - 1)"
        using m c low get False assms(2) by (cases "m < low") (auto simp: d)
      show "BiSearch get xs value (- 1) = Inr (int (nat low) - 1)"
        using m c low get False assms(2) by (cases "m < low") (auto simp: d)
      show "matchUp \<noteq> 1 \<Longrightarrow> matchUp \<noteq> - 1 \<Longrightarrow> BiSearch get xs value matchUp = Inr (- 1)" for matchUp
        using False assms(2) by (auto simp: d)
    next
      fix k assume "k < nat low"
      then have "k < length xs" "int k < low" using low by linarith+
      then show "get (xs ! k) < value" using g by (simp add: gap_at_def)
    next
      fix k assume "nat low \<le> k" "k < length xs"
      then have "\<not> int k < low" by linarith
      then show "value < get (xs ! k)" using g \<open>k < length xs\<close> by (simp add: gap_at_def)
    qed (use low in linarith)
  qed
qed

lemma BiSearch_empty: "BiSearch get [] value matchUp = Inr (- 1)"
  by (simp add: BiSearch_def)

text \<open>With strictly increasing keys the upward search is the length of the smaller prefix.\<close>

lemma takeWhile_less_length:
  assumes "g \<le> length xs" "\<And>k. k < g \<Longrightarrow> P (xs ! k)" "g < length xs \<Longrightarrow> \<not> P (xs ! g)"
  shows "length (takeWhile P xs) = g"
proof -
  have "takeWhile P xs = take g xs" by (rule takeWhile_eq_take_P_nth) (use assms in auto)
  with assms(1) show ?thesis by simp
qed

lemma BiSearch_up_strict:
  assumes "sorted_wrt (<) (map get xs)"
  shows "BiSearch get xs v 1 =
    Inr (let i = length (takeWhile (\<lambda>x. get x < v) xs) in if i < length xs then int i else - 1)"
proof (cases "xs = []")
  case True
  then show ?thesis by (simp add: BiSearch_empty)
next
  case False
  have s: "sorted (map get xs)" using assms by (rule strict_sorted_imp_sorted)
  have lt: "i < j \<Longrightarrow> j < length xs \<Longrightarrow> get (xs ! i) < get (xs ! j)" for i j
    using sorted_wrt_nth_less [OF assms, of i j] by simp
  from s False show ?thesis
  proof (cases rule: BiSearch_cases [of get xs v, consumes 2])
    case (hit m)
    have "length (takeWhile (\<lambda>x. get x < v) xs) = m"
      by (rule takeWhile_less_length) (use hit(1,2) lt in auto)
    with hit show ?thesis by simp
  next
    case (gap g)
    have "length (takeWhile (\<lambda>x. get x < v) xs) = g"
      by (rule takeWhile_less_length) (use gap(1-3) in \<open>auto simp: not_less less_imp_le\<close>)
    with gap show ?thesis by simp
  qed
qed

section \<open>Bit flags\<close>

definition getBitTagIndex :: "'w::len word list \<Rightarrow> nat \<Rightarrow> nat \<times> nat \<times> bool" where
  "getBitTagIndex bitBuff bitPositionIndex =
     (let sliceIndex = bitPositionIndex div LENGTH('w);
          sliceBitIndex = bitPositionIndex mod LENGTH('w) in
      if length bitBuff * LENGTH('w) \<le> bitPositionIndex then (0, 0, False)
      else (sliceIndex, sliceBitIndex, True))"

definition setBitTagByIndex :: "'w::len word list \<Rightarrow> nat \<Rightarrow> bool \<Rightarrow> bool \<times> 'w word list" where
  "setBitTagByIndex bitBuff bitPositionIndex setTag =
     (case getBitTagIndex bitBuff bitPositionIndex of (sliceIndex, sliceBitIndex, ret) \<Rightarrow>
        if \<not> ret then (False, bitBuff)
        else if setTag then
          (True, bitBuff[sliceIndex := (bitBuff ! sliceIndex) OR push_bit sliceBitIndex 1])
        else
          (True, bitBuff[sliceIndex := (bitBuff ! sliceIndex) AND NOT (push_bit sliceBitIndex 1)]))"

text \<open>\<^verbatim>\<open>... > 0\<close> is read in the element type, so it differs for signed and unsigned slices.\<close>

definition GetBitwiseTag :: "bool \<Rightarrow> 'w::len word list \<Rightarrow> nat \<Rightarrow> bool option" where
  "GetBitwiseTag sg bitBuff bitPositionIndex =
     (case getBitTagIndex bitBuff bitPositionIndex of (sliceIndex, sliceBitIndex, ret) \<Rightarrow>
        if \<not> ret then None
        else
          let b = (bitBuff ! sliceIndex) AND push_bit sliceBitIndex 1 in
          Some (if sg then 0 < sint b else 0 < uint b))"

definition SetBitwiseTag :: "'w::len word list \<Rightarrow> nat \<Rightarrow> bool \<times> 'w word list" where
  "SetBitwiseTag bitBuff bitPositionIndex = setBitTagByIndex bitBuff bitPositionIndex True"

definition ClearBitwiseTag :: "'w::len word list \<Rightarrow> nat \<Rightarrow> bool \<times> 'w word list" where
  "ClearBitwiseTag bitBuff bitPositionIndex = setBitTagByIndex bitBuff bitPositionIndex False"

definition GetBitwiseNum :: "'w::len word list \<Rightarrow> nat" where
  "GetBitwiseNum bitBuff = length bitBuff * LENGTH('w)"

text \<open>Flag \<open>k\<close> of a buffer, numbered through all its words.\<close>

definition flag :: "'w::len word list \<Rightarrow> nat \<Rightarrow> bool" where
  "flag bs k = bit (bs ! (k div LENGTH('w))) (k mod LENGTH('w))"

lemma word_index_less:
  "k < GetBitwiseNum (bs :: 'w::len word list) \<Longrightarrow> k div LENGTH('w) < length bs"
  by (simp add: GetBitwiseNum_def less_mult_imp_div_less)

lemma and_push_bit_1: "(w :: 'w::len word) AND push_bit n 1 = (if bit w n then push_bit n 1 else 0)"
  by (rule bit_word_eqI) (auto simp: bit_simps)

lemma setBitTagByIndex_ok:
  fixes bs :: "'w::len word list"
  assumes "k < GetBitwiseNum bs"
  obtains bs' where "setBitTagByIndex bs k b = (True, bs')" "length bs' = length bs"
    "\<And>l. l < GetBitwiseNum bs \<Longrightarrow> flag bs' l = (if l = k then b else flag bs l)"
proof -
  let ?i = "k div LENGTH('w)" and ?j = "k mod LENGTH('w)"
  let ?w = "if b then (bs ! ?i) OR push_bit ?j 1 else (bs ! ?i) AND NOT (push_bit ?j 1)"
  have i: "?i < length bs" using assms by (rule word_index_less)
  have "setBitTagByIndex bs k b = (True, bs[?i := ?w])"
    using assms by (simp add: setBitTagByIndex_def getBitTagIndex_def GetBitwiseNum_def Let_def)
  moreover have "flag (bs[?i := ?w]) l = (if l = k then b else flag bs l)" if "l < GetBitwiseNum bs" for l
  proof (cases "l div LENGTH('w) = ?i")
    case True
    then have "l mod LENGTH('w) = ?j \<longleftrightarrow> l = k" by (metis div_mult_mod_eq)
    with True i show ?thesis by (auto simp: flag_def bit_simps)
  next
    case False
    then show ?thesis by (auto simp: flag_def)
  qed
  ultimately show ?thesis by (intro that [of "bs[?i := ?w]"]) (simp_all only: length_list_update)
qed

lemma GetBitwiseTag_ok:
  fixes bs :: "'w::len word list"
  assumes "k < GetBitwiseNum bs"
  shows "GetBitwiseTag sg bs k =
    Some (flag bs k \<and> \<not> (sg \<and> k mod LENGTH('w) = LENGTH('w) - 1))"
proof -
  let ?j = "k mod LENGTH('w)"
  have j: "?j < LENGTH('w)" by simp
  have u: "0 < uint (push_bit ?j 1 :: 'w word)"
  proof -
    have "bit (push_bit ?j 1 :: 'w word) ?j" using j by (simp add: bit_simps)
    then have "(push_bit ?j 1 :: 'w word) \<noteq> 0" by (metis bit_0_eq bot_apply bot_bool_def)
    then show ?thesis by (simp add: uint_0_iff less_le)
  qed
  have s: "0 < sint (push_bit ?j 1 :: 'w word) \<longleftrightarrow> ?j \<noteq> LENGTH('w) - 1"
  proof
    assume "0 < sint (push_bit ?j 1 :: 'w word)"
    then have "\<not> bit (push_bit ?j (1 :: 'w word)) (LENGTH('w) - 1)"
      by (simp add: bit_last_iff)
    then show "?j \<noteq> LENGTH('w) - 1" by (auto simp: bit_simps)
  next
    assume "?j \<noteq> LENGTH('w) - 1"
    then have "\<not> bit (push_bit ?j (1 :: 'w word)) (LENGTH('w) - 1)" by (auto simp: bit_simps)
    then have "0 \<le> sint (push_bit ?j 1 :: 'w word)" by (simp add: bit_last_iff)
    moreover have "sint (push_bit ?j 1 :: 'w word) \<noteq> 0"
      using u by (metis less_irrefl unsigned_0 signed_eq_0_iff)
    ultimately show "0 < sint (push_bit ?j 1 :: 'w word)" by simp
  qed
  have "GetBitwiseTag sg bs k = Some (let b = if flag bs k then push_bit ?j 1 else 0 :: 'w word in
      if sg then 0 < sint b else 0 < uint b)"
    using assms unfolding GetBitwiseTag_def getBitTagIndex_def GetBitwiseNum_def Let_def
      and_push_bit_1 flag_def by simp
  then show ?thesis using u s by (simp del: push_bit_of_1)
qed

section \<open>Overflow-checked arithmetic (smath.go)\<close>

definition num_range :: "bool \<Rightarrow> nat \<Rightarrow> int \<Rightarrow> bool" where
  "num_range sg w x \<longleftrightarrow> (if sg then - (2 ^ (w - 1)) \<le> x \<and> x < 2 ^ (w - 1) else 0 \<le> x \<and> x < 2 ^ w)"

definition num_wrap :: "bool \<Rightarrow> nat \<Rightarrow> int \<Rightarrow> int" where
  "num_wrap sg w x = (if sg then signed_take_bit (w - 1) x else take_bit w x)"

definition smath_Max :: "int \<Rightarrow> int \<Rightarrow> int" where
  "smath_Max number1 number2 = (if number1 > number2 then number1 else number2)"

definition smath_Min :: "int \<Rightarrow> int \<Rightarrow> int" where
  "smath_Min number1 number2 = (if number1 < number2 then number1 else number2)"

definition smath_Abs :: "nat \<Rightarrow> int \<Rightarrow> int" where
  "smath_Abs w num = (if num < 0 then num_wrap True w (- 1 * num) else num)"

definition AddSafe :: "bool \<Rightarrow> nat \<Rightarrow> int \<Rightarrow> int \<Rightarrow> int \<times> bool" where
  "AddSafe sg w number1 number2 =
     (let ret = num_wrap sg w (number1 + number2) in
      if number2 > 0 \<and> ret < number1 then (ret, False)
      else if number2 < 0 \<and> ret > number1 then (ret, False)
      else (ret, True))"

definition SubSafe :: "bool \<Rightarrow> nat \<Rightarrow> int \<Rightarrow> int \<Rightarrow> int \<times> bool" where
  "SubSafe sg w number1 number2 =
     (let ret = num_wrap sg w (number1 - number2) in
      if number2 > 0 \<and> ret > number1 then (ret, False)
      else if number2 < 0 \<and> ret < number1 then (ret, False)
      else (ret, True))"

definition MulSafe :: "bool \<Rightarrow> nat \<Rightarrow> int \<Rightarrow> int \<Rightarrow> int \<times> bool" where
  "MulSafe sg w number1 number2 =
     (let ret = num_wrap sg w (number1 * number2) in
      if number1 = 0 \<or> number2 = 0 then (ret, True)
      else if num_wrap sg w (go_div ret number2) = number1 then (ret, True)
      else (ret, True))"

definition smath_Add :: "bool \<Rightarrow> nat \<Rightarrow> int \<Rightarrow> int \<Rightarrow> int" where
  "smath_Add sg w number1 number2 = fst (AddSafe sg w number1 number2)"

definition smath_Sub :: "bool \<Rightarrow> nat \<Rightarrow> int \<Rightarrow> int \<Rightarrow> int" where
  "smath_Sub sg w number1 number2 = fst (SubSafe sg w number1 number2)"

definition smath_Mul :: "bool \<Rightarrow> nat \<Rightarrow> int \<Rightarrow> int \<Rightarrow> int" where
  "smath_Mul sg w number1 number2 = fst (MulSafe sg w number1 number2)"

lemma num_wrap_id: "0 < w \<Longrightarrow> num_range sg w x \<Longrightarrow> num_wrap sg w x = x"
  by (auto simp: num_wrap_def num_range_def signed_take_bit_int_eq_self take_bit_int_eq_self split: if_splits)

lemma num_wrap_range: "0 < w \<Longrightarrow> num_range sg w (num_wrap sg w x)"
  by (simp add: num_wrap_def num_range_def signed_take_bit_int_greater_eq_minus_exp
      signed_take_bit_int_less_exp)

text \<open>A result one range too high or too low comes back shifted by exactly one modulus.\<close>

lemma num_wrap_shift:
  assumes "0 < w"
  shows "num_range sg w (x - 2 ^ w) \<Longrightarrow> num_wrap sg w x = x - 2 ^ w"
    "num_range sg w (x + 2 ^ w) \<Longrightarrow> num_wrap sg w x = x + 2 ^ w"
proof -
  have w: "Suc (w - 1) = w" using assms by simp
  have t: "take_bit w (x + 2 ^ w) = take_bit w x" for x :: int by (simp add: take_bit_eq_mod)
  have "num_wrap sg w (x + 2 ^ w) = num_wrap sg w x" for x
    using signed_take_bit_eq_iff_take_bit_eq [of "w - 1" "x + 2 ^ w" x] t
    unfolding num_wrap_def w by simp
  from this [of x] this [of "x - 2 ^ w"]
  show "num_range sg w (x - 2 ^ w) \<Longrightarrow> num_wrap sg w x = x - 2 ^ w"
    "num_range sg w (x + 2 ^ w) \<Longrightarrow> num_wrap sg w x = x + 2 ^ w"
    using num_wrap_id [OF assms] by auto
qed

lemma num_range_cases:
  assumes "0 < w" "num_range sg w a" "num_range sg w b" "x = a + b \<or> x = a - b"
  shows "num_range sg w x \<or> num_range sg w (x - 2 ^ w) \<or> num_range sg w (x + 2 ^ w)"
proof -
  have "(2::int) ^ w = 2 * 2 ^ (w - 1)" using assms(1) by (cases w) simp_all
  with assms(2-) show ?thesis by (auto simp: num_range_def split: if_splits)
qed

lemma num_range_excl:
  assumes "0 < w"
  shows "num_range sg w (x - 2 ^ w) \<Longrightarrow> \<not> num_range sg w x"
    "num_range sg w (x + 2 ^ w) \<Longrightarrow> \<not> num_range sg w x"
proof -
  have "(2::int) ^ w = 2 * 2 ^ (w - 1)" using assms by (cases w) simp_all
  then show "num_range sg w (x - 2 ^ w) \<Longrightarrow> \<not> num_range sg w x"
    "num_range sg w (x + 2 ^ w) \<Longrightarrow> \<not> num_range sg w x"
    by (auto simp: num_range_def split: if_splits)
qed

lemma num_range_diff:
  assumes "0 < w" "num_range sg w a" "num_range sg w b"
  shows "\<bar>a - b\<bar> < 2 ^ w"
proof -
  have "(2::int) ^ w = 2 * 2 ^ (w - 1)" using assms(1) by (cases w) simp_all
  with assms(2-) show ?thesis by (auto simp: num_range_def split: if_splits)
qed

lemma AddSafe_ok:
  assumes "0 < w" "num_range sg w a" "num_range sg w b"
  shows "AddSafe sg w a b = (num_wrap sg w (a + b), num_range sg w (a + b))"
proof -
  let ?x = "a + b"
  have b: "num_range sg w 0" using assms(1) by (simp add: num_range_def)
  have lim: "\<bar>b\<bar> < 2 ^ w" using num_range_diff [OF assms(1,3) b] by simp
  from num_range_cases [OF assms] consider "num_range sg w ?x" | "num_range sg w (?x - 2 ^ w)"
    | "num_range sg w (?x + 2 ^ w)" by blast
  then show ?thesis
  proof cases
    case 1
    then show ?thesis using num_wrap_id [OF assms(1) 1] by (auto simp: AddSafe_def Let_def)
  next
    case 2
    moreover have "0 < b" using 2 assms num_range_diff [OF assms(1) 2 assms(2)] lim by linarith
    ultimately show ?thesis
      using num_wrap_shift(1) [OF assms(1) 2] num_range_excl(1) [OF assms(1) 2] lim by (auto simp: AddSafe_def Let_def)
  next
    case 3
    moreover have "b < 0" using num_range_diff [OF assms(1) 3 assms(2)] lim by linarith
    ultimately show ?thesis
      using num_wrap_shift(2) [OF assms(1) 3] num_range_excl(2) [OF assms(1) 3] lim by (auto simp: AddSafe_def Let_def)
  qed
qed

lemma SubSafe_ok:
  assumes "0 < w" "num_range sg w a" "num_range sg w b"
  shows "SubSafe sg w a b = (num_wrap sg w (a - b), num_range sg w (a - b))"
proof -
  let ?x = "a - b"
  have b: "num_range sg w 0" using assms(1) by (simp add: num_range_def)
  have lim: "\<bar>b\<bar> < 2 ^ w" using num_range_diff [OF assms(1,3) b] by simp
  from num_range_cases [OF assms] consider "num_range sg w ?x" | "num_range sg w (?x - 2 ^ w)"
    | "num_range sg w (?x + 2 ^ w)" by blast
  then show ?thesis
  proof cases
    case 1
    then show ?thesis using num_wrap_id [OF assms(1) 1] by (auto simp: SubSafe_def Let_def)
  next
    case 2
    moreover have "b < 0" using num_range_diff [OF assms(1) 2 assms(2)] lim by linarith
    ultimately show ?thesis
      using num_wrap_shift(1) [OF assms(1) 2] num_range_excl(1) [OF assms(1) 2] lim by (auto simp: SubSafe_def Let_def)
  next
    case 3
    moreover have "0 < b" using num_range_diff [OF assms(1) 3 assms(2)] lim by linarith
    ultimately show ?thesis
      using num_wrap_shift(2) [OF assms(1) 3] num_range_excl(2) [OF assms(1) 3] lim by (auto simp: SubSafe_def Let_def)
  qed
qed

lemma MulSafe_ok: "MulSafe sg w a b = (num_wrap sg w (a * b), True)"
  by (simp add: MulSafe_def Let_def)

lemma smath_Abs_ok:
  "0 < w \<Longrightarrow> num_range True w a \<Longrightarrow> smath_Abs w a = (if a = - (2 ^ (w - 1)) then a else \<bar>a\<bar>)"
proof -
  assume w: "0 < w" and a: "num_range True w a"
  have p: "(2::int) ^ w = 2 * 2 ^ (w - 1)" using w by (cases w) simp_all
  show ?thesis
  proof (cases "a = - (2 ^ (w - 1))")
    case True
    have "num_wrap True w (2 ^ (w - 1)) = - (2 ^ (w - 1))"
      using num_wrap_shift(1) [OF w, of True "2 ^ (w - 1)"] p by (simp add: num_range_def)
    with True show ?thesis by (simp add: smath_Abs_def)
  next
    case False
    then show ?thesis using a num_wrap_id [OF w, of True "- a"] by (auto simp: smath_Abs_def num_range_def)
  qed
qed

section \<open>Stack (stack.go)\<close>

record 'p Stack =
  st_items :: "'p list"

definition Stack_Push :: "'p Stack \<Rightarrow> 'p \<Rightarrow> 'p Stack" where
  "Stack_Push s item = s\<lparr>st_items := st_items s @ [item]\<rparr>"

definition Stack_Pop :: "'p Stack \<Rightarrow> 'p option \<times> 'p Stack" where
  "Stack_Pop s =
     (if length (st_items s) = 0 then (None, s)
      else let index = length (st_items s) - 1 in (Some (st_items s ! index), s\<lparr>st_items := take index (st_items s)\<rparr>))"

definition Stack_Peek :: "'p Stack \<Rightarrow> 'p option" where
  "Stack_Peek s = (if length (st_items s) = 0 then None else Some (st_items s ! (length (st_items s) - 1)))"

definition Stack_IsEmpty :: "'p Stack \<Rightarrow> bool" where
  "Stack_IsEmpty s \<longleftrightarrow> length (st_items s) = 0"

definition Stack_Size :: "'p Stack \<Rightarrow> nat" where
  "Stack_Size s = length (st_items s)"

lemma Stack_Push_Pop: "Stack_Pop (Stack_Push s x) = (Some x, s)" "Stack_Peek (Stack_Push s x) = Some x"
  by (simp_all add: Stack_Push_def Stack_Pop_def Stack_Peek_def Let_def)

text \<open>A sequence of pushes comes back reversed.\<close>

fun pop_all :: "nat \<Rightarrow> 'p Stack \<Rightarrow> 'p option list \<times> 'p Stack" where
  "pop_all 0 s = ([], s)"
| "pop_all (Suc n) s = (let (r, s1) = Stack_Pop s; (rs, s2) = pop_all n s1 in (r # rs, s2))"

lemma Stack_lifo: "pop_all (length xs) (fold (\<lambda>x s. Stack_Push s x) xs s) = (map Some (rev xs), s)"
  by (induction xs rule: rev_induct) (simp_all add: Stack_Push_Pop)

end
