(* ===== verification/MemoryQueue.thy ===== *)
theory MemoryQueue
  imports RingQueue Algorithms
begin

text \<open>
  \<^verbatim>\<open>sysservice/messagequeueservice/MemoryQueue.go\<close>: the in-memory window of a topic. A ring that
  drops its oldest message when it is full, and a lookup of the messages from a sequence number
  on, by binary search in the two contiguous parts of the ring. Positions are 32-bit integers.
  \<open>mq_list\<close> is the window, oldest message first.
\<close>

record TopicData =
  td_Seq :: "64 word"
  td_RawData :: "8 word list"

definition TopicData_GetValue :: "TopicData \<Rightarrow> 64 word" where
  "TopicData_GetValue t = td_Seq t"

record MemoryQueue =
  topicQueue :: "TopicData list"
  mq_head :: int
  mq_tail :: int

definition MemoryQueue_Init :: "TopicData \<Rightarrow> MemoryQueue \<Rightarrow> int \<Rightarrow> MemoryQueue go" where
  "MemoryQueue_Init z mq cap =
     rbind (go_make z (wrap32 (cap + 1))) (\<lambda>b. Inr (mq\<lparr>topicQueue := b\<rparr>))"

definition MemoryQueue_Push :: "MemoryQueue \<Rightarrow> TopicData \<Rightarrow> MemoryQueue go" where
  "MemoryQueue_Push mq topicData =
     rbind (go_mod (mq_tail mq + 1) (int (length (topicQueue mq)))) (\<lambda>nextPos.
     rbind (if nextPos = mq_head mq
            then rbind (go_mod (mq_head mq + 1) (int (length (topicQueue mq)))) (\<lambda>h. Inr (mq\<lparr>mq_head := h\<rparr>))
            else Inr mq) (\<lambda>mq1.
     rbind (slice_set (topicQueue mq1) nextPos topicData) (\<lambda>b.
       Inr (mq1\<lparr>mq_tail := nextPos, topicQueue := b\<rparr>))))"

definition MemoryQueue_findData :: "MemoryQueue \<Rightarrow> int \<Rightarrow> 64 word \<Rightarrow> int \<Rightarrow> (TopicData list \<times> bool) go" where
  "MemoryQueue_findData mq startPos startIndex limit =
     (if mq_head mq = mq_tail mq then Inr ([], True)
      else
        let findStartPos = startPos;
            findEndPos = (if findStartPos \<le> mq_tail mq then mq_tail mq + 1 else int (length (topicQueue mq))) in
        if findStartPos \<ge> findEndPos then Inr ([], False)
        else
          rbind (slice_get (topicQueue mq) findStartPos) (\<lambda>t.
          if td_Seq t > startIndex then Inr ([], False)
          else
            rbind (go_slice (topicQueue mq) findStartPos findEndPos) (\<lambda>part.
            rbind (BiSearch TopicData_GetValue part startIndex 1) (\<lambda>pos.
            if pos = - 1 then Inr ([], False)
            else
              let pos1 = pos + findStartPos;
                  endPos = wrap32 (limit + pos1);
                  endPos = (if endPos > findEndPos then findEndPos else endPos) in
              rbind (go_slice (topicQueue mq) pos1 endPos) (\<lambda>datas. Inr (datas, True))))))"

definition MemoryQueue_FindData ::
    "MemoryQueue \<Rightarrow> 64 word \<Rightarrow> int \<Rightarrow> TopicData list \<Rightarrow> (TopicData list \<times> bool) go" where
  "MemoryQueue_FindData mq startIndex limit dataQueue =
     (if mq_head mq = mq_tail mq then Inr ([], False)
      else if mq_head mq < mq_tail mq then
        rbind (MemoryQueue_findData mq (mq_head mq + 1) startIndex limit) (\<lambda>(datas, ret).
          Inr (if ret then dataQueue @ datas else dataQueue, ret))
      else
        rbind (MemoryQueue_findData mq (mq_head mq + 1) startIndex limit) (\<lambda>(datas, ret).
          if ret then Inr (dataQueue @ datas, ret)
          else
            rbind (MemoryQueue_findData mq 0 startIndex limit) (\<lambda>(datas, ret).
              Inr (dataQueue @ datas, ret))))"

section \<open>Invariant and abstraction\<close>

definition mq_ring :: "MemoryQueue \<Rightarrow> nat \<Rightarrow> nat \<Rightarrow> bool" where
  "mq_ring mq h c \<longleftrightarrow> h < length (topicQueue mq) \<and> c < length (topicQueue mq) \<and>
     int (length (topicQueue mq)) < 2 ^ 30 \<and>
     mq_head mq = int h \<and> mq_tail mq = int ((h + c) mod length (topicQueue mq))"

definition mq_inv :: "MemoryQueue \<Rightarrow> bool" where
  "mq_inv mq \<longleftrightarrow> (\<exists>h c. mq_ring mq h c)"

definition mq_count :: "MemoryQueue \<Rightarrow> nat" where
  "mq_count mq = nat ((mq_tail mq - mq_head mq) mod int (length (topicQueue mq)))"

definition mq_list :: "MemoryQueue \<Rightarrow> TopicData list" where
  "mq_list mq = ring_list (topicQueue mq) (nat (mq_head mq) + 1) (mq_count mq)"

lemma mq_ring_count:
  assumes "mq_ring mq h c"
  shows "mq_count mq = c"
proof -
  let ?l = "int (length (topicQueue mq))"
  have "(int ((h + c) mod length (topicQueue mq)) - int h) mod ?l = ((int h + int c) - int h) mod ?l"
    by (simp add: zmod_int mod_diff_left_eq)
  then show ?thesis using assms by (simp add: mq_count_def mq_ring_def)
qed

lemma mq_ring_list: "mq_ring mq h c \<Longrightarrow> mq_list mq = ring_list (topicQueue mq) (h + 1) c"
  by (simp add: mq_list_def mq_ring_count) (simp add: mq_ring_def)

lemma MemoryQueue_Init_ok:
  assumes "0 \<le> cap" "cap + 1 < 2 ^ 30" "mq_head mq = 0" "mq_tail mq = 0"
  obtains mq' where "MemoryQueue_Init z mq cap = Inr mq'" "mq_inv mq'" "mq_list mq' = []"
    "length (topicQueue mq') = nat (cap + 1)"
proof -
  let ?mq = "mq\<lparr>topicQueue := replicate (nat (cap + 1)) z\<rparr>"
  have "wrap32 (cap + 1) = cap + 1" by (rule wrap32_id) (use assms in auto)
  then have "MemoryQueue_Init z mq cap = Inr ?mq" using assms by (simp add: MemoryQueue_Init_def go_make_def)
  moreover have r: "mq_ring ?mq 0 0" using assms by (simp add: mq_ring_def)
  ultimately show ?thesis using mq_ring_list [OF r] that by (auto simp: mq_inv_def)
qed

text \<open>A push keeps the newest messages, as many as the ring has room for.\<close>

lemma MemoryQueue_Push_ok:
  assumes "mq_inv mq"
  obtains mq' where "MemoryQueue_Push mq x = Inr mq'" "mq_inv mq'"
    "length (topicQueue mq') = length (topicQueue mq)"
    "mq_list mq' = (if length (mq_list mq) + 1 < length (topicQueue mq) then mq_list mq @ [x]
                    else tl (mq_list mq @ [x]))"
proof -
  from assms obtain h c where r: "mq_ring mq h c" by (auto simp: mq_inv_def)
  let ?b = "topicQueue mq" and ?l = "length (topicQueue mq)"
  let ?t = "(h + 1 + c) mod ?l"
  have l: "c < ?l" "h < ?l" "0 < ?l" "mq_head mq = int h" using r by (auto simp: mq_ring_def)
  have "Suc ((h + c) mod ?l) mod ?l = ?t" by (simp add: mod_Suc_eq)
  then have t: "go_mod (mq_tail mq + 1) (int ?l) = Inr (int ?t)"
    using go_mod_Suc [OF l(3), of "(h + c) mod ?l"] r by (simp add: mq_ring_def)
  have lt: "?t < ?l" using l(3) by (rule mod_less_divisor)
  note set = slice_set_ok [OF lt, of x]
  have pb: "ring_list (?b[?t := x]) (h + 1) (Suc c) = mq_list mq @ [x]"
    using ring_list_push_back [OF l(1), of "h + 1" x] mq_ring_list [OF r] by simp
  show ?thesis
  proof (cases "c + 1 < ?l")
    case True
    let ?mq = "mq\<lparr>mq_tail := int ?t, topicQueue := ?b[?t := x]\<rparr>"
    have "?t \<noteq> h" using ring_index_inj [of "Suc c" ?l 0 h] True l by simp
    then have "MemoryQueue_Push mq x = Inr ?mq" using t l set by (simp add: MemoryQueue_Push_def)
    moreover have r': "mq_ring ?mq h (Suc c)" using r True by (simp add: mq_ring_def)
    moreover have "mq_list ?mq = mq_list mq @ [x]" using mq_ring_list [OF r'] pb by simp
    moreover have "length (mq_list mq) + 1 < ?l" using True mq_ring_list [OF r] by simp
    ultimately show ?thesis using that [of ?mq] by (auto simp: mq_inv_def)
  next
    case False
    then have c: "Suc c = ?l" using l(1) by simp
    then have "h + 1 + c = h + ?l" by simp
    then have th: "?t = h" using l(2) by (metis mod_add_self2 mod_less)
    let ?mq = "mq\<lparr>mq_head := int (Suc h mod ?l), mq_tail := int ?t, topicQueue := ?b[?t := x]\<rparr>"
    have "MemoryQueue_Push mq x = Inr ?mq"
      using t th l go_mod_Suc [OF l(3), of h] set by (simp add: MemoryQueue_Push_def)
    moreover have r': "mq_ring ?mq (Suc h mod ?l) c" using r l by (simp add: mq_ring_def mod_add_left_eq)
    moreover have "mq_list ?mq = tl (mq_list mq @ [x])"
    proof -
      have "ring_list (?b[?t := x]) (h + 1) (Suc c) = ?b[?t := x] ! ((h + 1) mod ?l)
          # ring_list (?b[?t := x]) ((h + 1 + 1) mod ?l) c"
        using ring_list_Suc [of "?b[?t := x]" "h + 1" c] by simp
      moreover have "ring_list (?b[?t := x]) ((h + 1 + 1) mod ?l) c = ring_list (?b[?t := x]) (Suc h mod ?l + 1) c"
        by (simp add: ring_list_def)
      ultimately show ?thesis using mq_ring_list [OF r'] pb [symmetric] by simp
    qed
    moreover have "\<not> length (mq_list mq) + 1 < ?l" using False mq_ring_list [OF r] by simp
    ultimately show ?thesis using that [of ?mq] by (auto simp: mq_inv_def)
  qed
qed

section \<open>Looking up messages\<close>

definition seq_sorted :: "TopicData list \<Rightarrow> bool" where
  "seq_sorted xs \<longleftrightarrow> sorted_wrt (<) (map td_Seq xs)"

text \<open>The number of messages older than a sequence number.\<close>

definition older :: "64 word \<Rightarrow> TopicData list \<Rightarrow> nat" where
  "older si xs = length (takeWhile (\<lambda>t. td_Seq t < si) xs)"

lemma GetValue_Seq: "TopicData_GetValue = td_Seq"
  by (rule ext) (simp add: TopicData_GetValue_def)

lemma findData_part:
  assumes "mq_head mq \<noteq> mq_tail mq" "int (length (topicQueue mq)) < 2 ^ 30" "0 \<le> limit" "limit < 2 ^ 30"
    and s: "s < e" "e \<le> length (topicQueue mq)"
      "int e = (if int s \<le> mq_tail mq then mq_tail mq + 1 else int (length (topicQueue mq)))"
    and part: "part = take (e - s) (drop s (topicQueue mq))" "seq_sorted part"
  shows "MemoryQueue_findData mq (int s) si limit =
    Inr (if si < td_Seq (part ! 0) \<or> older si part = length part then ([], False)
         else (take (nat limit) (drop (older si part) part), True))"
proof -
  let ?i = "older si part"
  have len: "length part = e - s" "0 < length part" using s(1,2) by (auto simp: part)
  have p0: "slice_get (topicQueue mq) (int s) = Inr (part ! 0)" using s(1,2) by (simp add: slice_get_ok part)
  have sl: "go_slice (topicQueue mq) (int s) (int e) = Inr part" using s(1,2) by (simp add: go_slice_ok part)
  have bs: "BiSearch TopicData_GetValue part si 1 = Inr (if ?i < length part then int ?i else - 1)"
    using BiSearch_up_strict [of td_Seq part si] part(2)
    by (simp add: seq_sorted_def older_def GetValue_Seq Let_def)
  have le: "?i \<le> length part" by (simp add: older_def length_takeWhile_le)
  define pos where "pos = ?i + s"
  have pe: "?i < length part \<Longrightarrow> pos < e" using len by (simp add: pos_def)
  have ip: "int ?i + int s = int pos" by (simp add: pos_def)
  have w: "wrap32 (limit + int pos) = int (nat limit + pos)" if "?i < length part"
    using wrap32_id [of "limit + int pos"] assms(2-4) that len s(1,2) by (simp add: pos_def)
  have fin: "go_slice (topicQueue mq) (int pos) (int (min (nat limit + pos) e)) =
      Inr (take (nat limit) (drop ?i part))" if "?i < length part"
  proof -
    let ?e = "min (nat limit + pos) e"
    have "?e \<le> length (topicQueue mq)" "pos \<le> ?e" using s(2) pe [OF that] by auto
    then have "go_slice (topicQueue mq) (int pos) (int ?e) = Inr (take (?e - pos) (drop pos (topicQueue mq)))"
      by (intro go_slice_ok)
    moreover have "?e - pos = min (nat limit) (e - s - ?i)"
      using pe [OF that] unfolding pos_def by linarith
    moreover have "drop ?i part = take (e - s - ?i) (drop pos (topicQueue mq))"
      by (simp add: part(1) drop_take pos_def add.commute)
    ultimately show ?thesis by simp
  qed
  show ?thesis
  proof (cases "si < td_Seq (part ! 0) \<or> ?i = length part")
    case True
    then show ?thesis using assms(1) s(1) p0 sl bs
      by (auto simp: MemoryQueue_findData_def Let_def s(3) [symmetric])
  next
    case False
    then have "?i < length part" using le by simp
    from w [OF this] fin [OF this] False this assms(1) s(1) p0 sl bs show ?thesis
      by (cases "e < nat limit + pos")
        (simp_all add: MemoryQueue_findData_def Let_def s(3) [symmetric] ip min_def del: of_nat_add)
  qed
qed

text \<open>What a lookup may answer, for the window \<open>xs\<close>.\<close>

definition found_in :: "TopicData list \<Rightarrow> 64 word \<Rightarrow> int \<Rightarrow> TopicData list \<Rightarrow> bool \<Rightarrow> bool" where
  "found_in xs si limit ys ret \<longleftrightarrow>
     (if ret then older si xs < length xs \<and> td_Seq (hd xs) \<le> si \<and>
        (\<exists>n. int n \<le> limit \<and> ys = take n (drop (older si xs) xs) \<and> (0 < limit \<longrightarrow> ys \<noteq> []))
      else ys = [] \<and> si \<notin> td_Seq ` set xs)"

lemma older_all: "older si xs = length xs \<longleftrightarrow> (\<forall>t \<in> set xs. td_Seq t < si)"
  by (induction xs) (auto simp: older_def)

lemma older_append:
  "older si (xs @ ys) = (if older si xs = length xs then length xs + older si ys else older si xs)"
  unfolding older_all by (auto simp: older_def takeWhile_append)

lemma older_le: "older si xs \<le> length xs"
  by (simp add: older_def length_takeWhile_le)

lemma sorted_hd_le:
  assumes "seq_sorted xs" "t \<in> set xs"
  shows "td_Seq (xs ! 0) \<le> td_Seq t"
  using assms by (cases xs) (auto simp: seq_sorted_def less_imp_le)

text \<open>The answer of the search in one contiguous part is right for that part.\<close>

lemma found_in_part:
  assumes "seq_sorted part" "part \<noteq> []" "0 \<le> limit"
  shows "found_in part si limit
     (if si < td_Seq (part ! 0) \<or> older si part = length part then []
      else take (nat limit) (drop (older si part) part))
     (\<not> (si < td_Seq (part ! 0) \<or> older si part = length part))"
proof (cases "si < td_Seq (part ! 0) \<or> older si part = length part")
  case True
  then have "si \<notin> td_Seq ` set part"
    using sorted_hd_le [OF assms(1)] by (auto simp: older_all not_less leD)
  with True show ?thesis by (auto simp: found_in_def)
next
  case False
  then have "older si part < length part" using older_le [of si part] by simp
  with False assms(2,3) show ?thesis
    by (auto simp: found_in_def hd_conv_nth not_less intro!: exI [of _ "nat limit"])
qed

text \<open>Answers for the two parts of a wrapped window combine.\<close>

lemma found_in_back:
  assumes "found_in bk si limit ys True"
  shows "found_in (bk @ fr) si limit ys True"
proof -
  from assms obtain n where n: "older si bk < length bk" "td_Seq (hd bk) \<le> si"
    "int n \<le> limit" "ys = take n (drop (older si bk) bk)" "0 < limit \<longrightarrow> ys \<noteq> []"
    by (auto simp: found_in_def)
  let ?m = "min n (length bk - older si bk)"
  have "ys = take ?m (drop (older si bk) (bk @ fr))" using n(4) by (simp add: min_def)
  moreover have "hd (bk @ fr) = hd bk" using n(1) by (cases bk) auto
  ultimately show ?thesis using n by (auto simp: found_in_def older_append intro!: exI [of _ ?m])
qed

lemma found_in_front:
  assumes "seq_sorted (bk @ fr)" "found_in bk si limit [] False" "found_in fr si limit ys ret"
    "fr \<noteq> []"
  shows "found_in (bk @ fr) si limit ys ret"
proof (cases ret)
  case False
  with assms(2,3) show ?thesis by (auto simp: found_in_def)
next
  case True
  have "\<forall>t \<in> set bk. td_Seq t < td_Seq (hd fr)"
    using assms(1,4) by (auto simp: seq_sorted_def sorted_wrt_append)
  moreover have "td_Seq (hd fr) \<le> si" using assms(3) True by (simp add: found_in_def)
  ultimately have bs: "\<forall>t \<in> set bk. td_Seq t < si" by auto
  then have b: "older si bk = length bk" by (simp add: older_all)
  have "td_Seq (hd (bk @ fr)) \<le> si"
    using bs \<open>td_Seq (hd fr) \<le> si\<close> by (cases bk) (auto simp: less_imp_le)
  with assms(3) True b show ?thesis by (auto simp: found_in_def older_append)
qed

lemma MemoryQueue_FindData_ok:
  assumes "mq_inv mq" "seq_sorted (mq_list mq)" "0 \<le> limit" "limit < 2 ^ 30" "mq_list mq \<noteq> []"
  obtains ys ret where "MemoryQueue_FindData mq si limit dataQueue = Inr (dataQueue @ ys, ret)"
    "found_in (mq_list mq) si limit ys ret"
proof -
  from assms(1) obtain h c where r: "mq_ring mq h c" by (auto simp: mq_inv_def)
  let ?b = "topicQueue mq" and ?l = "length (topicQueue mq)"
  have l: "h < ?l" "c < ?l" "int ?l < 2 ^ 30" "mq_head mq = int h" "mq_tail mq = int ((h + c) mod ?l)"
    using r by (auto simp: mq_ring_def)
  have xs: "mq_list mq = ring_list ?b (h + 1) c" by (rule mq_ring_list [OF r])
  have c0: "0 < c" using assms(5) xs by (cases c) auto
  show ?thesis
  proof (cases "h + c < ?l")
    case True
    let ?part = "mq_list mq"
    have t: "mq_tail mq = int (h + c)" using True l by simp
    have p: "?part = take (h + c + 1 - (h + 1)) (drop (h + 1) ?b)"
      using xs ring_list_unwrapped [of "h + 1" c ?b] True by simp
    have fd: "MemoryQueue_findData mq (int (h + 1)) si limit =
        Inr (if si < td_Seq (?part ! 0) \<or> older si ?part = length ?part then ([], False)
             else (take (nat limit) (drop (older si ?part) ?part), True))"
      by (rule findData_part [OF _ l(3) assms(3,4) _ _ _ p assms(2)]) (use True c0 t l in auto)
    have lt: "mq_head mq \<noteq> mq_tail mq" "mq_head mq < mq_tail mq" using t l c0 by auto
    from found_in_part [OF assms(2) assms(5) assms(3), of si] show ?thesis
      by (rule that [rotated]) (use lt fd l(4) in \<open>auto simp: MemoryQueue_FindData_def add.commute\<close>)
  next
    case False
    then have m: "(h + c) mod ?l = h + c - ?l" using l by (simp add: le_mod_geq)
    let ?bk = "drop (h + 1) ?b" and ?fr = "take (h + c + 1 - ?l) ?b"
    have split: "mq_list mq = ?bk @ ?fr"
    proof (cases "h + 1 < ?l")
      case True
      then show ?thesis using xs ring_list_wrapped [of ?b "h + 1" c] False l by simp
    next
      case last: False
      then have "Suc h = ?l" using l by simp
      then have "ring_list ?b (h + 1) c = ring_list ?b 0 c" by (simp add: ring_list_def)
      moreover have "h + c + 1 - ?l = c" using \<open>Suc h = ?l\<close> by simp
      ultimately show ?thesis using xs ring_list_prefix [of c ?b] l(2) \<open>Suc h = ?l\<close> by simp
    qed
    have fl: "?fr \<noteq> []" "length ?fr = h + c + 1 - ?l" using False l by auto
    have ss: "seq_sorted ?bk" "seq_sorted ?fr"
      using assms(2) split by (auto simp: seq_sorted_def sorted_wrt_append)
    have gt: "mq_head mq \<noteq> mq_tail mq" "\<not> mq_head mq < mq_tail mq" using m l False by auto
    have ffr: "MemoryQueue_findData mq 0 si limit =
        Inr (if si < td_Seq (?fr ! 0) \<or> older si ?fr = length ?fr then ([], False)
             else (take (nat limit) (drop (older si ?fr) ?fr), True))"
      using findData_part [OF gt(1) l(3) assms(3,4), of 0 "h + c + 1 - ?l" ?fr si] m l False ss fl by auto
    note infr = found_in_part [OF ss(2) fl(1) assms(3), of si]
    show ?thesis
    proof (cases "?bk = []")
      case True
      then have "MemoryQueue_findData mq (int h + 1) si limit = Inr ([], False)"
        using gt l m False by (auto simp: MemoryQueue_findData_def Let_def)
      moreover have "mq_list mq = ?fr" using split True by simp
      ultimately show ?thesis using that infr gt l(4) ffr
        by (auto simp: MemoryQueue_FindData_def split: if_splits)
    next
      case bk: False
      have fbk: "MemoryQueue_findData mq (int (h + 1)) si limit =
          Inr (if si < td_Seq (?bk ! 0) \<or> older si ?bk = length ?bk then ([], False)
               else (take (nat limit) (drop (older si ?bk) ?bk), True))"
        by (rule findData_part [OF gt(1) l(3) assms(3,4), of "h + 1" ?l]) (use m l False bk ss in auto)
      note inbk = found_in_part [OF ss(1) bk assms(3), of si]
      show ?thesis
      proof (cases "si < td_Seq (?bk ! 0) \<or> older si ?bk = length ?bk")
        case True
        then have "found_in ?bk si limit [] False" using inbk by simp
        from found_in_front [OF _ this infr fl(1)] assms(2) split True fbk ffr gt l(4) show ?thesis
          by (intro that) (auto simp: MemoryQueue_FindData_def add.commute)
      next
        case hit: False
        then have "found_in (?bk @ ?fr) si limit (take (nat limit) (drop (older si ?bk) ?bk)) True"
          using inbk by (intro found_in_back) simp
        then show ?thesis using that split hit fbk gt l(4)
          by (auto simp: MemoryQueue_FindData_def add.commute)
      qed
    qed
  qed
qed

end
