(* ===== verification/BytesPool.thy ===== *)
theory BytesPool
  imports Prelude
begin

text \<open>
  \<^verbatim>\<open>util/bytespool/bytespool.go\<close>: byte buffers recycled in size classes, and
  \<^verbatim>\<open>util/sync/MemPool.go\<close>: the object pool with a reference flag.
  A byte slice is its backing storage from its first byte on (so the length of that list is the
  capacity) and a length. \<^verbatim>\<open>sync.Pool\<close> may return any stored buffer or make a new one; which it
  does is the argument \<open>choice\<close>, and the theorems hold for every choice.
  The locale \<open>bytes_mem_pool\<close> is the interface \<^verbatim>\<open>IBytesMemPool\<close> with what its users rely on.
\<close>

section \<open>Byte slices\<close>

record ByteSlice =
  sl_data :: "8 word list"
  sl_len :: nat

definition slice_cap :: "ByteSlice \<Rightarrow> nat" where
  "slice_cap b = length (sl_data b)"

definition slice_bytes :: "ByteSlice \<Rightarrow> 8 word list" where
  "slice_bytes b = take (sl_len b) (sl_data b)"

definition slice_ok :: "ByteSlice \<Rightarrow> bool" where
  "slice_ok b \<longleftrightarrow> sl_len b \<le> slice_cap b"

definition new_bytes :: "int \<Rightarrow> ByteSlice go" where
  "new_bytes n = rbind (go_make 0 n) (\<lambda>d. Inr \<lparr>sl_data = d, sl_len = length d\<rparr>)"

text \<open>\<^verbatim>\<open>b[:n]\<close>\<close>

definition reslice :: "ByteSlice \<Rightarrow> int \<Rightarrow> ByteSlice go" where
  "reslice b n = (if 0 \<le> n \<and> n \<le> int (slice_cap b) then Inr (b\<lparr>sl_len := nat n\<rparr>) else Inl SliceOutOfRange)"

section \<open>Size classes\<close>

record memAreaPool =
  minAreaValue :: int
  maxAreaValue :: int
  growthValue :: int
  pool :: "ByteSlice list list"

definition area :: "int \<Rightarrow> int \<Rightarrow> int \<Rightarrow> memAreaPool" where
  "area mn mx g = \<lparr>minAreaValue = mn, maxAreaValue = mx, growthValue = g, pool = []\<rparr>"

definition memAreaPoolList :: "memAreaPool list" where
  "memAreaPoolList = [area 1 4096 512, area 4097 40960 4096, area 40961 417792 16384, area 417793 1925120 65536]"

definition memSize :: "memAreaPool \<Rightarrow> nat \<Rightarrow> int" where
  "memSize a i = (minAreaValue a - 1) + (int i + 1) * growthValue a"

definition makePool :: "memAreaPool \<Rightarrow> memAreaPool" where
  "makePool a =
     (let poolLen = go_div (maxAreaValue a - minAreaValue a + 1) (growthValue a) in
      a\<lparr>pool := replicate (nat poolLen) []\<rparr>)"

definition bytespool_init :: "memAreaPool list" where
  "bytespool_init = map makePool memAreaPoolList"

definition getPosByteSize :: "memAreaPool \<Rightarrow> int \<Rightarrow> int" where
  "getPosByteSize a n =
     (let pos = go_div (n - minAreaValue a) (growthValue a) in
      if pos \<ge> int (length (pool a)) then - 1 else pos)"

definition pool_Get :: "nat option \<Rightarrow> memAreaPool \<Rightarrow> nat \<Rightarrow> (ByteSlice \<times> memAreaPool) go" where
  "pool_Get choice a i =
     (let stored = pool a ! i in
      case choice of
        Some k \<Rightarrow> if k < length stored
                  then Inr (stored ! k, a\<lparr>pool := (pool a)[i := take k stored @ drop (Suc k) stored]\<rparr>)
                  else rbind (new_bytes (memSize a i)) (\<lambda>b. Inr (b, a))
      | None \<Rightarrow> rbind (new_bytes (memSize a i)) (\<lambda>b. Inr (b, a)))"

text \<open>A nil slice is \<open>None\<close>.\<close>

definition makeByteSlice :: "nat option \<Rightarrow> memAreaPool \<Rightarrow> int \<Rightarrow> (ByteSlice option \<times> memAreaPool) go" where
  "makeByteSlice choice a n =
     (let pos = getPosByteSize a n in
      if pos > int (length (pool a)) \<or> pos = - 1 then Inr (None, a)
      else if pos < 0 \<or> int (length (pool a)) \<le> pos then Inl IndexOutOfRange
      else
        rbind (pool_Get choice a (nat pos)) (\<lambda>(b, a').
        rbind (reslice b n) (\<lambda>b'. Inr (Some b', a'))))"

definition releaseByteSlice :: "memAreaPool \<Rightarrow> ByteSlice \<Rightarrow> (bool \<times> memAreaPool) go" where
  "releaseByteSlice a b =
     (let pos = getPosByteSize a (int (slice_cap b)) in
      if pos > int (length (pool a)) \<or> pos = - 1 then Inl (PanicMsg ''assert!'')
      else if pos < 0 \<or> int (length (pool a)) \<le> pos then Inl IndexOutOfRange
      else Inr (True, a\<lparr>pool := (pool a)[nat pos := pool a ! nat pos @ [b]]\<rparr>))"

fun MakeBytes :: "nat option \<Rightarrow> memAreaPool list \<Rightarrow> int \<Rightarrow> (ByteSlice option \<times> memAreaPool list) go" where
  "MakeBytes choice [] n = rbind (new_bytes n) (\<lambda>b. Inr (Some b, []))"
| "MakeBytes choice (a # as) n =
     (if n \<le> maxAreaValue a then rbind (makeByteSlice choice a n) (\<lambda>(b, a'). Inr (b, a' # as))
      else rbind (MakeBytes choice as n) (\<lambda>(b, as'). Inr (b, a # as')))"

fun ReleaseBytes :: "memAreaPool list \<Rightarrow> ByteSlice \<Rightarrow> (bool \<times> memAreaPool list) go" where
  "ReleaseBytes [] b = Inr (False, [])"
| "ReleaseBytes (a # as) b =
     (if int (slice_cap b) \<le> maxAreaValue a then rbind (releaseByteSlice a b) (\<lambda>(r, a'). Inr (r, a' # as))
      else rbind (ReleaseBytes as b) (\<lambda>(r, as'). Inr (r, a # as')))"

section \<open>Invariant\<close>

text \<open>
  An area covers the sizes above \<open>lo\<close> up to its maximum in whole steps, has one bucket per step, and
  every stored buffer has exactly the capacity of its bucket.
\<close>

definition area_ok :: "int \<Rightarrow> memAreaPool \<Rightarrow> bool" where
  "area_ok lo a \<longleftrightarrow>
     minAreaValue a = lo + 1 \<and> 1 < growthValue a \<and>
     maxAreaValue a = lo + int (length (pool a)) * growthValue a \<and> 0 < length (pool a) \<and>
     (\<forall>i < length (pool a). \<forall>b \<in> set (pool a ! i). int (slice_cap b) = memSize a i)"

fun areas_ok :: "int \<Rightarrow> memAreaPool list \<Rightarrow> bool" where
  "areas_ok lo [] = True"
| "areas_ok lo (a # as) = (area_ok lo a \<and> areas_ok (maxAreaValue a) as)"

definition bytespool_inv :: "memAreaPool list \<Rightarrow> bool" where
  "bytespool_inv as \<longleftrightarrow> areas_ok 0 as"

lemma bytespool_init_ok: "bytespool_inv bytespool_init"
  by (simp add: bytespool_inv_def bytespool_init_def memAreaPoolList_def area_def makePool_def go_div_def
      area_ok_def Let_def nth_Cons' numeral_eq_Suc)

lemma area_pos:
  assumes "area_ok lo a" "lo \<le> n" "n \<le> maxAreaValue a"
  obtains i where "getPosByteSize a n = int i" "i < length (pool a)" "n \<le> memSize a i"
    "lo + int i * growthValue a < n \<or> i = 0"
proof -
  let ?g = "growthValue a" and ?d = "n - minAreaValue a" and ?l = "length (pool a)"
  have g: "1 < ?g" "minAreaValue a = lo + 1" "maxAreaValue a = lo + int ?l * ?g" "0 < ?l"
    using assms(1) by (auto simp: area_ok_def)
  define p where "p = go_div ?d ?g"
  have p: "p = (if n = lo then 0 else ?d div ?g)"
    using g assms(2) by (auto simp: p_def go_div_def sgn_if)
  have "0 \<le> p" "p < int ?l" "n \<le> lo + (p + 1) * ?g" "lo + p * ?g < n \<or> p = 0"
  proof -
    show "0 \<le> p" using p g assms(2) by (simp add: pos_imp_zdiv_nonneg_iff)
    show "p < int ?l"
    proof (cases "n = lo")
      case False
      have "?d < int ?l * ?g" using assms(3) g by simp
      then have "?d div ?g < int ?l" using g by (intro div_less_bound) auto
      with False p show ?thesis by simp
    qed (use p g in simp)
    have m: "?d = ?d div ?g * ?g + ?d mod ?g" by (rule div_mult_mod_eq [symmetric])
    have b: "0 \<le> ?d mod ?g" "?d mod ?g < ?g" using g by auto
    have e: "(p + 1) * ?g = p * ?g + ?g" by (simp add: algebra_simps)
    show "n \<le> lo + (p + 1) * ?g"
    proof (cases "n = lo")
      case False
      then have "?d = p * ?g + ?d mod ?g" using m p by simp
      then show ?thesis using b(2) g(2) e by linarith
    qed (use p g in simp)
    show "lo + p * ?g < n \<or> p = 0"
    proof (cases "n = lo")
      case False
      then have "?d = p * ?g + ?d mod ?g" using m p by simp
      then show ?thesis using b(1) g(2) by linarith
    qed (use p in simp)
  qed
  moreover from this have "getPosByteSize a n = p"
    unfolding getPosByteSize_def p_def [symmetric] Let_def by simp
  moreover have "memSize a (nat p) = lo + (p + 1) * ?g" using \<open>0 \<le> p\<close> g(2) by (simp add: memSize_def)
  ultimately show ?thesis using that [of "nat p"] by auto
qed

text \<open>The bucket of a bucket's own size is that bucket.\<close>

lemma area_pos_memSize:
  assumes "area_ok lo a" "i < length (pool a)"
  shows "getPosByteSize a (memSize a i) = int i" "lo < memSize a i" "memSize a i \<le> maxAreaValue a"
proof -
  let ?g = "growthValue a"
  have g: "1 < ?g" "minAreaValue a = lo + 1" "maxAreaValue a = lo + int (length (pool a)) * ?g"
    using assms(1) by (auto simp: area_ok_def)
  have ms: "memSize a i = lo + (int i + 1) * ?g" using g by (simp add: memSize_def)
  have pos: "0 < (int i + 1) * ?g" using g by simp
  show "lo < memSize a i" using ms pos by simp
  have "(int i + 1) * ?g \<le> int (length (pool a)) * ?g" using assms(2) g by (intro mult_right_mono) auto
  then show "memSize a i \<le> maxAreaValue a" using ms g by simp
  have eq: "memSize a i - minAreaValue a = int i * ?g + (?g - 1)" using ms g by (simp add: algebra_simps)
  have "(int i * ?g + (?g - 1)) div ?g = int i" using g by (simp add: div_add1_eq)
  then have "go_div (int i * ?g + (?g - 1)) ?g = int i"
    using g go_div_nonneg [of "int i * ?g + (?g - 1)" ?g] by simp
  then show "getPosByteSize a (memSize a i) = int i"
    unfolding getPosByteSize_def eq Let_def using assms(2) by simp
qed

lemma pool_Get_ok:
  assumes "area_ok lo a" "0 \<le> lo" "i < length (pool a)"
  obtains b a' where "pool_Get choice a i = Inr (b, a')" "int (slice_cap b) = memSize a i" "area_ok lo a'"
    "maxAreaValue a' = maxAreaValue a"
proof -
  have "0 \<le> memSize a i" using area_pos_memSize(2) [OF assms(1,3)] assms(2) by simp
  then have new: "\<exists>b. new_bytes (memSize a i) = Inr b \<and> int (slice_cap b) = memSize a i"
    by (simp add: new_bytes_def go_make_def slice_cap_def)
  show ?thesis
  proof (cases choice)
    case None
    then show ?thesis using new that [of _ a] assms(1) by (auto simp: pool_Get_def Let_def)
  next
    case (Some k)
    let ?s = "pool a ! i"
    let ?a = "a\<lparr>pool := (pool a)[i := take k ?s @ drop (Suc k) ?s]\<rparr>"
    show ?thesis
    proof (cases "k < length ?s")
      case True
      have "area_ok lo ?a" using assms(1) assms(3)
        by (auto simp: area_ok_def memSize_def nth_list_update dest: in_set_takeD in_set_dropD)
      moreover have "int (slice_cap (?s ! k)) = memSize a i"
        using assms(1,3) True by (simp add: area_ok_def)
      ultimately show ?thesis using that [of "?s ! k" ?a] Some True by (simp add: pool_Get_def Let_def)
    next
      case False
      then show ?thesis using new that [of _ a] Some assms(1) by (auto simp: pool_Get_def Let_def)
    qed
  qed
qed

lemma makeByteSlice_ok:
  assumes "area_ok lo a" "0 \<le> lo" "lo \<le> n" "n \<le> maxAreaValue a"
  obtains b a' where "makeByteSlice choice a n = Inr (Some b, a')" "sl_len b = nat n" "slice_ok b"
    "area_ok lo a'" "maxAreaValue a' = maxAreaValue a" "lo < int (slice_cap b)"
    "int (slice_cap b) \<le> maxAreaValue a" "int (slice_cap b) = memSize a (nat (getPosByteSize a n))"
    "nat (getPosByteSize a n) < length (pool a)"
proof -
  from assms(1,3,4) obtain i where i: "getPosByteSize a n = int i" "i < length (pool a)" "n \<le> memSize a i"
    by (rule area_pos)
  from pool_Get_ok [OF assms(1,2) i(2), of choice]
  obtain b a' where b: "pool_Get choice a i = Inr (b, a')" "int (slice_cap b) = memSize a i"
    "area_ok lo a'" "maxAreaValue a' = maxAreaValue a" by blast
  have "reslice b n = Inr (b\<lparr>sl_len := nat n\<rparr>)" using b(2) i(3) assms(2,3) by (simp add: reslice_def)
  with i b area_pos_memSize [OF assms(1) i(2)] assms(2,3) show ?thesis
    by (intro that [of "b\<lparr>sl_len := nat n\<rparr>" a'])
      (auto simp: makeByteSlice_def Let_def slice_ok_def slice_cap_def)
qed

lemma releaseByteSlice_ok:
  assumes "area_ok lo a" "i < length (pool a)" "int (slice_cap b) = memSize a i"
  obtains a' where "releaseByteSlice a b = Inr (True, a')" "area_ok lo a'" "maxAreaValue a' = maxAreaValue a"
proof -
  let ?a = "a\<lparr>pool := (pool a)[i := pool a ! i @ [b]]\<rparr>"
  have "releaseByteSlice a b = Inr (True, ?a)"
    using area_pos_memSize(1) [OF assms(1,2)] assms(2,3) by (simp add: releaseByteSlice_def Let_def)
  moreover have "area_ok lo ?a"
    using assms by (auto simp: area_ok_def memSize_def nth_list_update)
  ultimately show ?thesis using that [of ?a] by simp
qed

section \<open>The interface\<close>

text \<open>
  A buffer made for \<open>n\<close> bytes has length \<open>n\<close>, and giving a buffer back that came from the pool
  (\<open>owned\<close>) keeps the pool usable.
\<close>

locale bytes_mem_pool =
  fixes mk :: "'s \<Rightarrow> int \<Rightarrow> (ByteSlice option \<times> 's) go"
    and rel :: "'s \<Rightarrow> ByteSlice \<Rightarrow> (bool \<times> 's) go"
    and inv :: "'s \<Rightarrow> bool"
    and owned :: "'s \<Rightarrow> ByteSlice \<Rightarrow> bool"
  assumes make_law: "inv s \<Longrightarrow> 0 \<le> n \<Longrightarrow>
      \<exists>b s'. mk s n = Inr (Some b, s') \<and> inv s' \<and> sl_len b = nat n \<and> slice_ok b \<and> owned s' b"
    and owned_content: "owned s b \<Longrightarrow> slice_cap b' = slice_cap b \<Longrightarrow> owned s b'"
    and release_law: "inv s \<Longrightarrow> owned s b \<Longrightarrow> \<exists>r s'. rel s b = Inr (r, s') \<and> inv s'"

text \<open>A capacity the pool can take back: a bucket size, or larger than every area.\<close>

fun bucket_cap :: "memAreaPool list \<Rightarrow> int \<Rightarrow> bool" where
  "bucket_cap [] c = True"
| "bucket_cap (a # as) c =
     (if c \<le> maxAreaValue a then \<exists>i < length (pool a). c = memSize a i else bucket_cap as c)"

lemma bucket_cap_shape:
  "length (pool a') = length (pool a) \<Longrightarrow> memSize a' = memSize a \<Longrightarrow> maxAreaValue a' = maxAreaValue a \<Longrightarrow>
   bucket_cap (a' # as) c = bucket_cap (a # as) c"
  by simp

lemma area_same_shape:
  assumes "area_ok lo a" "area_ok lo a'" "maxAreaValue a' = maxAreaValue a" "growthValue a' = growthValue a"
  shows "length (pool a') = length (pool a)" "memSize a' = memSize a"
proof -
  have "int (length (pool a')) * growthValue a = int (length (pool a)) * growthValue a" "growthValue a \<noteq> 0"
    using assms by (auto simp: area_ok_def)
  then show "length (pool a') = length (pool a)" by simp
  show "memSize a' = memSize a" using assms by (auto simp: area_ok_def memSize_def fun_eq_iff)
qed

lemma makeByteSlice_shape:
  "makeByteSlice choice a n = Inr (b, a') \<Longrightarrow> growthValue a' = growthValue a"
  by (auto simp: makeByteSlice_def pool_Get_def Let_def rbind_eq_Inr_iff split: if_splits option.splits)

lemma MakeBytes_ok:
  "areas_ok lo as \<Longrightarrow> 0 \<le> lo \<Longrightarrow> lo \<le> n \<Longrightarrow>
   \<exists>b as'. MakeBytes choice as n = Inr (Some b, as') \<and> areas_ok lo as' \<and> sl_len b = nat n \<and> slice_ok b \<and>
     bucket_cap as' (int (slice_cap b)) \<and> (lo < n \<or> as \<noteq> [] \<longrightarrow> lo < int (slice_cap b))"
proof (induction as arbitrary: lo)
  case Nil
  then show ?case by (auto simp: new_bytes_def go_make_def slice_ok_def slice_cap_def)
next
  case (Cons a as)
  show ?case
  proof (cases "n \<le> maxAreaValue a")
    case True
    from Cons.prems have a: "area_ok lo a" by simp
    obtain b a' where b: "makeByteSlice choice a n = Inr (Some b, a')" "sl_len b = nat n" "slice_ok b"
      "area_ok lo a'" "maxAreaValue a' = maxAreaValue a" "lo < int (slice_cap b)"
      "int (slice_cap b) \<le> maxAreaValue a" "int (slice_cap b) = memSize a (nat (getPosByteSize a n))"
      "nat (getPosByteSize a n) < length (pool a)"
      by (rule makeByteSlice_ok [OF a Cons.prems(2,3) True])
    have "bucket_cap (a' # as) (int (slice_cap b))"
      using area_same_shape [OF a b(4,5) makeByteSlice_shape [OF b(1)]] b by auto
    with True b Cons.prems show ?thesis by simp
  next
    case False
    have "0 \<le> maxAreaValue a" "maxAreaValue a \<le> n" "areas_ok (maxAreaValue a) as" "lo \<le> maxAreaValue a"
      using Cons.prems False by (auto simp: area_ok_def)
    from Cons.IH [OF this(3,1,2)] obtain b as' where b: "MakeBytes choice as n = Inr (Some b, as')"
      "areas_ok (maxAreaValue a) as'" "sl_len b = nat n" "slice_ok b" "bucket_cap as' (int (slice_cap b))"
      by blast
    have "n \<le> int (slice_cap b)" using b(3,4) False \<open>0 \<le> maxAreaValue a\<close> by (auto simp: slice_ok_def)
    with b False Cons.prems \<open>lo \<le> maxAreaValue a\<close> show ?thesis by auto
  qed
qed

lemma ReleaseBytes_ok:
  "areas_ok lo as \<Longrightarrow> bucket_cap as (int (slice_cap b)) \<Longrightarrow>
   \<exists>r as'. ReleaseBytes as b = Inr (r, as') \<and> areas_ok lo as'"
proof (induction as arbitrary: lo)
  case (Cons a as)
  show ?case
  proof (cases "int (slice_cap b) \<le> maxAreaValue a")
    case True
    then obtain i where i: "i < length (pool a)" "int (slice_cap b) = memSize a i" using Cons.prems(2) by auto
    from Cons.prems(1) have "area_ok lo a" by simp
    then obtain a' where "releaseByteSlice a b = Inr (True, a')" "area_ok lo a'" "maxAreaValue a' = maxAreaValue a"
      using i by (rule releaseByteSlice_ok)
    with True Cons.prems(1) show ?thesis by auto
  next
    case False
    with Cons.prems Cons.IH [of "maxAreaValue a"] show ?thesis by auto
  qed
qed auto

interpretation bp: bytes_mem_pool "MakeBytes choice" ReleaseBytes bytespool_inv
  "\<lambda>as b. bucket_cap as (int (slice_cap b))" for choice
proof unfold_locales
  fix as n assume "bytespool_inv as" "0 \<le> (n :: int)"
  then show "\<exists>b s'. MakeBytes choice as n = Inr (Some b, s') \<and> bytespool_inv s' \<and> sl_len b = nat n \<and>
      slice_ok b \<and> bucket_cap s' (int (slice_cap b))"
    using MakeBytes_ok [of 0 as n choice] unfolding bytespool_inv_def by auto
next
  fix as b assume "bytespool_inv as" "bucket_cap as (int (slice_cap b))"
  then show "\<exists>r s'. ReleaseBytes as b = Inr (r, s') \<and> bytespool_inv s'"
    using ReleaseBytes_ok [of 0 as b] by (simp add: bytespool_inv_def)
qed simp

section \<open>The object pool (MemPool.go)\<close>

text \<open>
  \<^verbatim>\<open>PoolEx\<close> guards against a double free with the object's reference flag. Objects are addresses,
  \<open>po_ref\<close> is the flag and \<open>po_free\<close> the objects held by the pool (the channel and the
  \<^verbatim>\<open>sync.Pool\<close> behind it); \<open>choice\<close> says which one a \<^verbatim>\<open>Get\<close> takes, an address outside the pool
  being a new object.
\<close>

record pool_state =
  po_ref :: "nat \<Rightarrow> bool"
  po_free :: "nat list"

definition PoolEx_Get :: "nat option \<Rightarrow> nat \<Rightarrow> pool_state \<Rightarrow> (nat \<times> pool_state) go" where
  "PoolEx_Get choice fresh p =
     (let (d, p1) = (case choice of
            Some k \<Rightarrow> if k < length (po_free p)
                      then (po_free p ! k, p\<lparr>po_free := take k (po_free p) @ drop (Suc k) (po_free p)\<rparr>)
                      else (fresh, p)
          | None \<Rightarrow> (fresh, p)) in
      if po_ref p1 d then Inl (PanicMsg ''Pool data is in use.'')
      else Inr (d, p1\<lparr>po_ref := (po_ref p1)(d := True)\<rparr>))"

definition PoolEx_Put :: "pool_state \<Rightarrow> nat \<Rightarrow> pool_state go" where
  "PoolEx_Put p d =
     (if \<not> po_ref p d then Inl (PanicMsg ''Repeatedly freeing memory'')
      else Inr (p\<lparr>po_ref := (po_ref p)(d := False), po_free := po_free p @ [d]\<rparr>))"

definition poolex_inv :: "pool_state \<Rightarrow> bool" where
  "poolex_inv p \<longleftrightarrow> distinct (po_free p) \<and> (\<forall>d \<in> set (po_free p). \<not> po_ref p d)"

lemma PoolEx_Get_ok:
  assumes "poolex_inv p" "fresh \<notin> set (po_free p)" "\<not> po_ref p fresh"
  obtains d p' where "PoolEx_Get choice fresh p = Inr (d, p')" "poolex_inv p'" "\<not> po_ref p d" "po_ref p' d"
    "d \<notin> set (po_free p')" "\<And>e. e \<noteq> d \<Longrightarrow> po_ref p' e = po_ref p e"
proof (cases "\<exists>k. choice = Some k \<and> k < length (po_free p)")
  case False
  then have "PoolEx_Get choice fresh p = Inr (fresh, p\<lparr>po_ref := (po_ref p)(fresh := True)\<rparr>)"
    using assms by (auto simp: PoolEx_Get_def split: option.splits)
  then show ?thesis by (rule that) (use assms in \<open>auto simp: poolex_inv_def\<close>)
next
  case True
  then obtain k where k: "choice = Some k" "k < length (po_free p)" by blast
  define us d vs where "us = take k (po_free p)" and "d = po_free p ! k" and "vs = drop (Suc k) (po_free p)"
  then have xs: "po_free p = us @ d # vs" using k by (simp add: id_take_nth_drop)
  have "\<not> po_ref p d" using assms(1) xs by (simp add: poolex_inv_def)
  then have "PoolEx_Get choice fresh p =
      Inr (d, p\<lparr>po_free := us @ vs, po_ref := (po_ref p)(d := True)\<rparr>)"
    using k by (simp add: PoolEx_Get_def us_def d_def vs_def)
  then show ?thesis by (rule that) (use assms(1) xs \<open>\<not> po_ref p d\<close> in \<open>auto simp: poolex_inv_def\<close>)
qed

lemma PoolEx_Put_ok:
  assumes "poolex_inv p"
  shows "PoolEx_Put p d = (if po_ref p d
      then Inr (p\<lparr>po_ref := (po_ref p)(d := False), po_free := po_free p @ [d]\<rparr>)
      else Inl (PanicMsg ''Repeatedly freeing memory''))"
    "PoolEx_Put p d = Inr p' \<Longrightarrow> poolex_inv p' \<and> PoolEx_Put p' d = Inl (PanicMsg ''Repeatedly freeing memory'')"
  using assms by (auto simp: PoolEx_Put_def poolex_inv_def split: if_splits)

end
