(* ===== verification/MsgParser.thy ===== *)
theory MsgParser
  imports BytesPool
begin

text \<open>
  \<^verbatim>\<open>network/tcp_msg.go\<close>: the framing of messages on a TCP stream, a length field of 1, 2 or 4
  bytes in either byte order followed by the data. The stream is the list of bytes still to
  come, \<^verbatim>\<open>io.ReadFull\<close> takes a prefix of it or fails; what is written is the list of bytes
  passed to \<^verbatim>\<open>conn.Write\<close>. Buffers come from an \<^verbatim>\<open>IBytesMemPool\<close>, given by its two
  operations \<open>mk\<close> and \<open>rel\<close>; the theorems are proved in its locale and hold for the pool of
  \<^verbatim>\<open>bytespool.go\<close>.
\<close>

record MsgParser =
  LenMsgLen :: int
  MinMsgLen :: "32 word"
  MaxReadMsgLen :: "32 word"
  MaxWriteMsgLen :: "32 word"
  LittleEndian :: bool

datatype msg_error = MsgTooLong | MsgTooShort | ReadErr

definition getMaxMsgLen :: "MsgParser \<Rightarrow> 32 word go" where
  "getMaxMsgLen p =
     (if LenMsgLen p = 1 then Inr 0xFF
      else if LenMsgLen p = 2 then Inr 0xFFFF
      else if LenMsgLen p = 4 then Inr 0xFFFFFFFF
      else Inl (PanicMsg ''LenMsgLen value must be 1 or 2 or 4''))"

section \<open>Integers as bytes (encoding/binary)\<close>

fun be_bytes :: "nat \<Rightarrow> nat \<Rightarrow> 8 word list" where
  "be_bytes 0 n = []"
| "be_bytes (Suc k) n = be_bytes k (n div 256) @ [of_nat n]"

fun be_value :: "8 word list \<Rightarrow> nat" where
  "be_value [] = 0"
| "be_value (b # bs) = unat b * 256 ^ length bs + be_value bs"

definition put_uint :: "bool \<Rightarrow> nat \<Rightarrow> nat \<Rightarrow> 8 word list" where
  "put_uint le k n = (if le then rev (be_bytes k n) else be_bytes k n)"

definition get_uint :: "bool \<Rightarrow> 8 word list \<Rightarrow> nat" where
  "get_uint le bs = be_value (if le then rev bs else bs)"

lemma length_be_bytes [simp]: "length (be_bytes k n) = k"
  by (induction k arbitrary: n) simp_all

lemma length_put_uint [simp]: "length (put_uint le k n) = k"
  by (simp add: put_uint_def)

lemma be_value_snoc: "be_value (bs @ [b]) = be_value bs * 256 + unat b"
  by (induction bs) (simp_all add: algebra_simps)

lemma be_value_bytes: "be_value (be_bytes k n) = n mod 256 ^ k"
proof (induction k arbitrary: n)
  case (Suc k)
  have "n mod 256 ^ Suc k = n div 256 mod 256 ^ k * 256 + n mod 256"
    using mod_mult2_eq [of n 256 "256 ^ k"] by (simp add: mult.commute)
  then show ?case by (simp add: be_value_snoc Suc unat_of_nat)
qed simp

lemma get_put_uint: "get_uint le (put_uint le k n) = n mod 256 ^ k"
  by (simp add: get_uint_def put_uint_def be_value_bytes)

section \<open>Reading and writing\<close>

text \<open>\<^verbatim>\<open>io.ReadFull\<close> of \<open>n\<close> bytes: the bytes and the rest of the stream, or nothing.\<close>

definition ReadFull :: "8 word list \<Rightarrow> nat \<Rightarrow> (8 word list \<times> 8 word list) option" where
  "ReadFull r n = (if n \<le> length r then Some (take n r, drop n r) else None)"

definition MsgParser_Read ::
    "('s \<Rightarrow> int \<Rightarrow> (ByteSlice option \<times> 's) go) \<Rightarrow> ('s \<Rightarrow> ByteSlice \<Rightarrow> (bool \<times> 's) go) \<Rightarrow>
     MsgParser \<Rightarrow> 's \<Rightarrow> 8 word list \<Rightarrow> ((msg_error + ByteSlice \<times> 8 word list) \<times> 's) go" where
  "MsgParser_Read mk rel p s r =
     (if LenMsgLen p < 0 \<or> 4 < LenMsgLen p then Inl SliceOutOfRange
      else case ReadFull r (nat (LenMsgLen p)) of
          None \<Rightarrow> Inr (Inl ReadErr, s)
        | Some (bufMsgLen, r1) \<Rightarrow>
            let msgLen = (if LenMsgLen p = 1 then of_nat (unat (bufMsgLen ! 0))
                          else if LenMsgLen p = 2 then of_nat (get_uint (LittleEndian p) bufMsgLen)
                          else if LenMsgLen p = 4 then of_nat (get_uint (LittleEndian p) bufMsgLen)
                          else 0 :: 32 word) in
            if msgLen > MaxReadMsgLen p then Inr (Inl MsgTooLong, s)
            else if msgLen < MinMsgLen p then Inr (Inl MsgTooShort, s)
            else
              rbind (mk s (uint msgLen)) (\<lambda>(msgData, s1).
                case msgData of
                  None \<Rightarrow> (if msgLen = 0 then Inr (Inr (\<lparr>sl_data = [], sl_len = 0\<rparr>, r1), s1) else Inl SliceOutOfRange)
                | Some b \<Rightarrow>
                    rbind (reslice b (uint msgLen)) (\<lambda>b1.
                      case ReadFull r1 (unat msgLen) of
                        None \<Rightarrow> rbind (rel s1 b) (\<lambda>(_, s2). Inr (Inl ReadErr, s2))
                      | Some (d, r2) \<Rightarrow>
                          Inr (Inr (b1\<lparr>sl_data := copy_at (sl_data b1) 0 d\<rparr>, r2), s1))))"

text \<open>The copy loop of \<^verbatim>\<open>Write\<close>: each argument behind the last, \<^verbatim>\<open>msg[l:]\<close> checked each time.\<close>

fun write_args :: "8 word list \<Rightarrow> nat \<Rightarrow> 8 word list list \<Rightarrow> 8 word list go" where
  "write_args msg l [] = Inr msg"
| "write_args msg l (a # as) =
     (if length msg < l then Inl SliceOutOfRange else write_args (copy_at msg l a) (l + length a) as)"

definition put_len :: "MsgParser \<Rightarrow> 32 word \<Rightarrow> 8 word list \<Rightarrow> 8 word list go" where
  "put_len p msgLen msg =
     (if LenMsgLen p = 1 then slice_set msg 0 (of_nat (unat msgLen))
      else if LenMsgLen p = 2 then
        (if length msg < 2 then Inl IndexOutOfRange
         else Inr (copy_at msg 0 (put_uint (LittleEndian p) 2 (unat msgLen))))
      else if LenMsgLen p = 4 then
        (if length msg < 4 then Inl IndexOutOfRange
         else Inr (copy_at msg 0 (put_uint (LittleEndian p) 4 (unat msgLen))))
      else Inr msg)"

definition MsgParser_Write ::
    "('s \<Rightarrow> int \<Rightarrow> (ByteSlice option \<times> 's) go) \<Rightarrow> MsgParser \<Rightarrow> 's \<Rightarrow> 8 word list list \<Rightarrow>
     ((msg_error + 8 word list) \<times> 's) go" where
  "MsgParser_Write mk p s args =
     (let msgLen = fold (\<lambda>a n. n + of_nat (length a)) args (0 :: 32 word) in
      if MaxWriteMsgLen p > 0 \<and> msgLen > MaxWriteMsgLen p then Inr (Inl MsgTooLong, s)
      else if msgLen < MinMsgLen p then Inr (Inl MsgTooShort, s)
      else
        rbind (mk s (LenMsgLen p + uint msgLen)) (\<lambda>(b, s1).
          let msg = (case b of None \<Rightarrow> [] | Some b \<Rightarrow> slice_bytes b) in
          rbind (put_len p msgLen msg) (\<lambda>msg1.
          rbind (if LenMsgLen p < 0 \<and> args \<noteq> [] then Inl SliceOutOfRange
                 else write_args msg1 (nat (LenMsgLen p)) args) (\<lambda>msg2.
            Inr (Inr msg2, s1)))))"

section \<open>Round trip\<close>

lemma write_args_ok:
  "length msg = l + length (concat args) \<Longrightarrow>
   write_args msg l args = Inr (take l msg @ concat args)"
proof (induction args arbitrary: msg l)
  case (Cons a as)
  have "take (l + length a) (copy_at msg l a) = take l msg @ a"
    using Cons.prems by (simp add: copy_at_def)
  then show ?case using Cons by simp
qed simp

lemma fold_msg_len: "fold (\<lambda>a n. n + of_nat (length a)) args (m :: 32 word) = m + of_nat (length (concat args))"
  by (induction args arbitrary: m) (simp_all add: algebra_simps)

lemma copy_at_prefix: "length d \<le> length b \<Longrightarrow> take (length d) (copy_at b 0 d) = d"
  by (simp add: copy_at_def)

definition len_ok :: "MsgParser \<Rightarrow> nat \<Rightarrow> bool" where
  "len_ok p n \<longleftrightarrow> LenMsgLen p \<in> {1, 2, 4} \<and> n < 256 ^ nat (LenMsgLen p) \<and>
     unat (MinMsgLen p) \<le> n \<and> (0 < MaxWriteMsgLen p \<longrightarrow> n \<le> unat (MaxWriteMsgLen p))"

definition frame :: "MsgParser \<Rightarrow> 8 word list \<Rightarrow> 8 word list" where
  "frame p d = put_uint (LittleEndian p) (nat (LenMsgLen p)) (length d) @ d"

lemma len_ok_word:
  assumes "len_ok p n"
  shows "unat (of_nat n :: 32 word) = n"
proof -
  have "n < 256 ^ 4" using assms by (auto simp: len_ok_def)
  then show ?thesis by (simp add: unat_of_nat)
qed

lemma put_len_ok:
  assumes "len_ok p n" "length msg = nat (LenMsgLen p) + n"
  shows "put_len p (of_nat n) msg =
    Inr (put_uint (LittleEndian p) (nat (LenMsgLen p)) n @ drop (nat (LenMsgLen p)) msg)"
proof -
  have "LenMsgLen p = 1 \<or> LenMsgLen p = 2 \<or> LenMsgLen p = 4" using assms(1) by (auto simp: len_ok_def)
  then show ?thesis
    using assms(2) len_ok_word [OF assms(1)]
    by (cases msg) (auto simp: put_len_def slice_set_def copy_at_def put_uint_def)
qed

lemma field_value:
  assumes "len_ok p n"
  shows "LenMsgLen p = 1 \<Longrightarrow> unat (put_uint (LittleEndian p) (nat (LenMsgLen p)) n ! 0) = n"
    "get_uint (LittleEndian p) (put_uint (LittleEndian p) (nat (LenMsgLen p)) n) = n"
proof -
  have lt: "n < 256 ^ nat (LenMsgLen p)" using assms by (simp add: len_ok_def)
  then show "LenMsgLen p = 1 \<Longrightarrow> unat (put_uint (LittleEndian p) (nat (LenMsgLen p)) n ! 0) = n"
    by (simp add: put_uint_def unat_of_nat)
  show "get_uint (LittleEndian p) (put_uint (LittleEndian p) (nat (LenMsgLen p)) n) = n"
    using lt by (simp add: get_put_uint)
qed

context bytes_mem_pool
begin

lemma make_nat:
  "inv s \<Longrightarrow> \<exists>b s'. mk s (int n) = Inr (Some b, s') \<and> inv s' \<and> sl_len b = n \<and> slice_ok b \<and> owned s' b"
  using make_law [of s "int n"] by simp

lemma write_ok:
  assumes "inv s" "len_ok p (length (concat args))"
  shows "\<exists>s'. MsgParser_Write mk p s args = Inr (Inr (frame p (concat args)), s') \<and> inv s'"
proof -
  let ?n = "length (concat args)" and ?k = "nat (LenMsgLen p)"
  have w: "unat (of_nat ?n :: 32 word) = ?n" by (rule len_ok_word [OF assms(2)])
  have L: "0 \<le> LenMsgLen p" "LenMsgLen p + int ?n = int (?k + ?n)" using assms(2) by (auto simp: len_ok_def)
  from make_nat [OF assms(1)] obtain b s' where b:
    "mk s (int (?k + ?n)) = Inr (Some b, s')" "inv s'" "sl_len b = ?k + ?n" "slice_ok b" by blast
  have len: "length (slice_bytes b) = ?k + ?n"
    using b(3,4) by (simp add: slice_bytes_def slice_ok_def slice_cap_def)
  have "write_args (put_uint (LittleEndian p) ?k ?n @ drop ?k (slice_bytes b)) ?k args = Inr (frame p (concat args))"
    by (subst write_args_ok) (simp_all add: len frame_def)
  moreover have "\<not> (of_nat ?n < MinMsgLen p)" "\<not> (MaxWriteMsgLen p > 0 \<and> of_nat ?n > MaxWriteMsgLen p)"
    using assms(2) w by (auto simp: len_ok_def word_less_nat_alt)
  moreover have u: "LenMsgLen p + uint (of_nat ?n :: 32 word) = int (?k + ?n)"
    using w L(2) by (metis uint_nat)
  moreover have "fold (\<lambda>a n. n + of_nat (length a)) args 0 = (of_nat ?n :: 32 word)"
    using fold_msg_len [of args 0] by simp
  ultimately show ?thesis
    unfolding MsgParser_Write_def Let_def
    using b(1,2) L(1) put_len_ok [OF assms(2) len] by simp
qed

text \<open>After a good length field a buffer is made and filled from the rest of the stream.\<close>

lemma read_body:
  assumes "inv s" "len_ok p n" "n \<le> unat (MaxReadMsgLen p)"
  shows "\<exists>b s'. inv s' \<and> owned s' b \<and> n \<le> slice_cap b \<and>
    MsgParser_Read mk rel p s (put_uint (LittleEndian p) (nat (LenMsgLen p)) n @ r1) =
      (case ReadFull r1 n of
         None \<Rightarrow> rbind (rel s' b) (\<lambda>(_, s2). Inr (Inl ReadErr, s2))
       | Some (d, r2) \<Rightarrow> Inr (Inr (b\<lparr>sl_len := n, sl_data := copy_at (sl_data b) 0 d\<rparr>, r2), s'))"
proof -
  let ?k = "nat (LenMsgLen p)"
  have L: "LenMsgLen p = 1 \<or> LenMsgLen p = 2 \<or> LenMsgLen p = 4" using assms(2) by (auto simp: len_ok_def)
  have w: "unat (of_nat n :: 32 word) = n" by (rule len_ok_word [OF assms(2)])
  have u: "uint (of_nat n :: 32 word) = int n" using w by (metis uint_nat)
  have rf: "ReadFull (put_uint (LittleEndian p) ?k n @ r1) ?k = Some (put_uint (LittleEndian p) ?k n, r1)"
    by (simp add: ReadFull_def)
  have ml: "(if LenMsgLen p = 1 then of_nat (unat (put_uint (LittleEndian p) ?k n ! 0))
      else if LenMsgLen p = 2 then of_nat (get_uint (LittleEndian p) (put_uint (LittleEndian p) ?k n))
      else if LenMsgLen p = 4 then of_nat (get_uint (LittleEndian p) (put_uint (LittleEndian p) ?k n))
      else 0) = (of_nat n :: 32 word)"
    unfolding field_value(2) [OF assms(2)] using L field_value(1) [OF assms(2)] by metis
  from make_nat [OF assms(1)] obtain b s' where b:
    "mk s (int n) = Inr (Some b, s')" "inv s'" "sl_len b = n" "slice_ok b" "owned s' b" by blast
  have cap: "n \<le> slice_cap b" using b(3,4) by (simp add: slice_ok_def)
  have chk: "\<not> (of_nat n < MinMsgLen p)" "\<not> (of_nat n > MaxReadMsgLen p)"
    "\<not> (LenMsgLen p < 0 \<or> 4 < LenMsgLen p)"
    using assms(2,3) w L by (auto simp: len_ok_def word_less_nat_alt)
  have "MsgParser_Read mk rel p s (put_uint (LittleEndian p) ?k n @ r1) =
      rbind (reslice b (int n)) (\<lambda>b1.
        case ReadFull r1 n of
          None \<Rightarrow> rbind (rel s' b) (\<lambda>(_, s2). Inr (Inl ReadErr, s2))
        | Some (d, r2) \<Rightarrow> Inr (Inr (b1\<lparr>sl_data := copy_at (sl_data b1) 0 d\<rparr>, r2), s'))"
    unfolding MsgParser_Read_def rf option.case prod.case ml Let_def using chk b(1) w u by simp
  then show ?thesis using b cap by (auto simp: reslice_def split: option.split)
qed

lemma read_ok:
  assumes "inv s" "len_ok p (length d)" "length d \<le> unat (MaxReadMsgLen p)"
  shows "\<exists>b s'. MsgParser_Read mk rel p s (frame p d @ rest) = Inr (Inr (b, rest), s') \<and>
    inv s' \<and> slice_bytes b = d"
proof -
  from read_body [OF assms, of "d @ rest"] obtain b s' where b: "inv s'" "length d \<le> slice_cap b"
    "MsgParser_Read mk rel p s (frame p d @ rest) =
      Inr (Inr (b\<lparr>sl_len := length d, sl_data := copy_at (sl_data b) 0 d\<rparr>, rest), s')"
    by (auto simp: frame_def ReadFull_def)
  moreover have "slice_bytes (b\<lparr>sl_len := length d, sl_data := copy_at (sl_data b) 0 d\<rparr>) = d"
    using b(2) copy_at_prefix [of d "sl_data b"] by (simp add: slice_bytes_def slice_cap_def)
  ultimately show ?thesis by auto
qed

text \<open>A stream that ends inside a message gives an error, and the buffer goes back to the pool.\<close>

lemma read_truncated:
  assumes "inv s" "len_ok p (length d)" "length d \<le> unat (MaxReadMsgLen p)" "k < length (frame p d)"
  shows "\<exists>s'. MsgParser_Read mk rel p s (take k (frame p d)) = Inr (Inl ReadErr, s') \<and> inv s'"
proof (cases "k < nat (LenMsgLen p)")
  case True
  moreover have "\<not> (LenMsgLen p < 0 \<or> 4 < LenMsgLen p)" using assms(2) by (auto simp: len_ok_def)
  ultimately show ?thesis using assms(1) by (simp add: MsgParser_Read_def ReadFull_def)
next
  case False
  let ?j = "k - nat (LenMsgLen p)"
  have fr: "take k (frame p d) = put_uint (LittleEndian p) (nat (LenMsgLen p)) (length d) @ take ?j d"
    using False by (simp add: frame_def)
  have "?j < length d" using assms(4) False by (simp add: frame_def)
  then have "ReadFull (take ?j d) (length d) = None" by (simp add: ReadFull_def)
  with read_body [OF assms(1-3), of "take ?j d"] obtain b s' where b: "inv s'" "owned s' b"
    "MsgParser_Read mk rel p s (take k (frame p d)) = rbind (rel s' b) (\<lambda>(_, s2). Inr (Inl ReadErr, s2))"
    by (auto simp: fr)
  with release_law [OF b(1,2)] show ?thesis by auto
qed

end

end
