(* ===== verification/NodeTTL.thy ===== *)
theory NodeTTL
  imports Prelude
begin

text \<open>
  \<^verbatim>\<open>cluster/nodettl.go\<close>: the nodes a discovery master has heard of, in the order of their last
  sign of life, with an index from node ids to list elements. List elements have addresses,
  because the index stores them. \<^verbatim>\<open>time.Now\<close> is the argument \<open>now\<close>, read once per call or, in the
  loop of \<^verbatim>\<open>checkTTL\<close>, once per iteration.
\<close>

record nodeTTL =
  nodeId :: string
  refreshTime :: int

record nodeSetTTL =
  ns_l :: "(nat \<times> nodeTTL) list"
  mapElement :: "string \<rightharpoonup> nat"
  ns_ttl :: int
  ns_fresh :: nat

definition nodeSetTTL_init :: "int \<Rightarrow> nodeSetTTL" where
  "nodeSetTTL_init d = \<lparr>ns_l = [], mapElement = Map.empty, ns_ttl = d, ns_fresh = 0\<rparr>"

definition list_Remove :: "nat \<Rightarrow> (nat \<times> 'a) list \<Rightarrow> (nat \<times> 'a) list" where
  "list_Remove e l = filter (\<lambda>(a, _). a \<noteq> e) l"

definition removeNode :: "nodeSetTTL \<Rightarrow> string \<Rightarrow> nodeSetTTL" where
  "removeNode ns i =
     (case mapElement ns i of
        None \<Rightarrow> ns
      | Some ele \<Rightarrow> ns\<lparr>ns_l := list_Remove ele (ns_l ns), mapElement := (mapElement ns)(i := None)\<rparr>)"

definition addAndRefreshNode :: "nodeSetTTL \<Rightarrow> int \<Rightarrow> string \<Rightarrow> nodeSetTTL" where
  "addAndRefreshNode ns now i =
     (case mapElement ns i of
        None \<Rightarrow>
          ns\<lparr>ns_l := ns_l ns @ [(ns_fresh ns, \<lparr>nodeId = i, refreshTime = now\<rparr>)],
             mapElement := (mapElement ns)(i \<mapsto> ns_fresh ns), ns_fresh := ns_fresh ns + 1\<rparr>
      | Some ele \<Rightarrow>
          let moved = map (\<lambda>(a, t). (a, t\<lparr>refreshTime := now\<rparr>)) (filter (\<lambda>(a, _). a = ele) (ns_l ns)) in
          ns\<lparr>ns_l := list_Remove ele (ns_l ns) @ moved\<rparr>)"

fun checkTTL_loop :: "(nat \<times> nodeTTL) list \<Rightarrow> (string \<rightharpoonup> nat) \<Rightarrow> int \<Rightarrow> (nat \<Rightarrow> int) \<Rightarrow> nat \<Rightarrow>
    string list \<times> (nat \<times> nodeTTL) list \<times> (string \<rightharpoonup> nat)" where
  "checkTTL_loop [] m d now k = ([], [], m)"
| "checkTTL_loop ((e, nt) # l) m d now k =
     (if now k - refreshTime nt > d then
        (let (ids, l', m') = checkTTL_loop l (m(nodeId nt := None)) d now (Suc k) in (nodeId nt # ids, l', m'))
      else ([], (e, nt) # l, m))"

text \<open>The result is the argument of the callback, \<open>None\<close> when it is not called.\<close>

definition checkTTL :: "nodeSetTTL \<Rightarrow> (nat \<Rightarrow> int) \<Rightarrow> string list option \<times> nodeSetTTL" where
  "checkTTL ns now =
     (let (ids, l', m') = checkTTL_loop (ns_l ns) (mapElement ns) (ns_ttl ns) now 0;
          ns' = ns\<lparr>ns_l := l', mapElement := m'\<rparr> in
      (if ids \<noteq> [] then Some ids else None, ns'))"

section \<open>Invariant\<close>

text \<open>The index holds exactly the listed nodes; the list is ordered by the last refresh.\<close>

definition nodes :: "nodeSetTTL \<Rightarrow> (string \<times> int) list" where
  "nodes ns = map (\<lambda>(_, t). (nodeId t, refreshTime t)) (ns_l ns)"

definition ttl_inv :: "nodeSetTTL \<Rightarrow> bool" where
  "ttl_inv ns \<longleftrightarrow>
     distinct (map (\<lambda>(_, t). nodeId t) (ns_l ns)) \<and> distinct (map fst (ns_l ns)) \<and>
     mapElement ns = map_of (map (\<lambda>(a, t). (nodeId t, a)) (ns_l ns)) \<and>
     (\<forall>a \<in> fst ` set (ns_l ns). a < ns_fresh ns) \<and>
     sorted (map (\<lambda>(_, t). refreshTime t) (ns_l ns))"

lemma nodeSetTTL_init_ok: "ttl_inv (nodeSetTTL_init d)" "nodes (nodeSetTTL_init d) = []"
  by (simp_all add: ttl_inv_def nodeSetTTL_init_def nodes_def)

text \<open>An indexed node splits the list at its element.\<close>

lemma mapElement_split:
  assumes "ttl_inv ns" "mapElement ns i = Some e"
  obtains us t vs where "ns_l ns = us @ (e, t) # vs" "nodeId t = i"
    "list_Remove e (ns_l ns) = us @ vs" "filter (\<lambda>(a, _). a = e) (ns_l ns) = [(e, t)]"
    "\<forall>a u. (a, u) \<in> set (us @ vs) \<longrightarrow> a \<noteq> e \<and> nodeId u \<noteq> i"
proof -
  have "(i, e) \<in> set (map (\<lambda>(a, t). (nodeId t, a)) (ns_l ns))"
    using assms by (auto simp: ttl_inv_def dest: map_of_SomeD)
  then obtain t where "(e, t) \<in> set (ns_l ns)" and t: "nodeId t = i" by auto
  then obtain us vs where l: "ns_l ns = us @ (e, t) # vs" by (auto simp: in_set_conv_decomp)
  have d: "distinct (map fst (us @ (e, t) # vs))" "distinct (map (\<lambda>(_, t). nodeId t) (us @ (e, t) # vs))"
    using assms(1) l by (auto simp: ttl_inv_def)
  then have n: "\<forall>a u. (a, u) \<in> set (us @ vs) \<longrightarrow> a \<noteq> e \<and> nodeId u \<noteq> i"
    using t by (force simp: image_iff)
  then have keep: "filter (\<lambda>(a, _). a \<noteq> e) us = us" "filter (\<lambda>(a, _). a \<noteq> e) vs = vs"
    "filter (\<lambda>(a, _). a = e) us = []" "filter (\<lambda>(a, _). a = e) vs = []"
    by (auto simp: filter_id_conv filter_empty_conv)
  then have "list_Remove e (ns_l ns) = us @ vs" "filter (\<lambda>(a, _). a = e) (ns_l ns) = [(e, t)]"
    by (simp_all add: l list_Remove_def)
  then show ?thesis using that l t n by blast
qed

lemma map_of_remove:
  assumes "map_of us i = None" "map_of vs i = None"
  shows "(map_of (us @ (i, a) # vs))(i := None) = map_of (us @ vs)"
  using assms by (auto simp: fun_eq_iff map_add_def split: option.split)

lemma index_None:
  "\<forall>a u. (a, u) \<in> set l \<longrightarrow> nodeId u \<noteq> i \<Longrightarrow> map_of (map (\<lambda>(a, t). (nodeId t, a)) l) i = None"
  by (induction l) force+

lemma index_NoneD:
  "map_of (map (\<lambda>(a, t). (nodeId t, a)) l) i = None \<Longrightarrow> \<forall>a u. (a, u) \<in> set l \<longrightarrow> nodeId u \<noteq> i"
  by (force simp: map_of_eq_None_iff image_iff)

lemma filter_nodes_id:
  "\<forall>a u. (a, u) \<in> set l \<longrightarrow> nodeId u \<noteq> i \<Longrightarrow>
   filter (\<lambda>(n, _). n \<noteq> i) (map (\<lambda>(_, t). (nodeId t, refreshTime t)) l) = map (\<lambda>(_, t). (nodeId t, refreshTime t)) l"
  by (induction l) auto

lemma removeNode_ok:
  assumes "ttl_inv ns"
  shows "ttl_inv (removeNode ns i)" "nodes (removeNode ns i) = filter (\<lambda>(n, _). n \<noteq> i) (nodes ns)"
proof -
  have "ttl_inv (removeNode ns i) \<and> nodes (removeNode ns i) = filter (\<lambda>(n, _). n \<noteq> i) (nodes ns)"
  proof (cases "mapElement ns i")
    case None
    then have "filter (\<lambda>(n, _). n \<noteq> i) (nodes ns) = nodes ns"
      using assms unfolding nodes_def by (intro filter_nodes_id index_NoneD) (simp add: ttl_inv_def)
    with None assms show ?thesis by (simp add: removeNode_def)
  next
    case (Some e)
    with assms obtain us t vs where l: "ns_l ns = us @ (e, t) # vs" "nodeId t = i"
      "list_Remove e (ns_l ns) = us @ vs" "\<forall>a u. (a, u) \<in> set (us @ vs) \<longrightarrow> a \<noteq> e \<and> nodeId u \<noteq> i"
      by (rule mapElement_split)
    let ?f = "\<lambda>(a :: nat, t). (nodeId t, a)"
    have "map_of (map ?f us) i = None" "map_of (map ?f vs) i = None" using l(4) by (auto intro!: index_None)
    from map_of_remove [OF this, of e]
    have m: "(mapElement ns)(i := None) = map_of (map ?f (us @ vs))"
      using assms l(1,2) by (simp add: ttl_inv_def)
    have "filter (\<lambda>(n, _). n \<noteq> i) (nodes ns) = map (\<lambda>(_, t). (nodeId t, refreshTime t)) (us @ vs)"
      using l filter_nodes_id [of us i] filter_nodes_id [of vs i] by (simp add: nodes_def)
    with Some l m assms show ?thesis
      by (auto simp: removeNode_def ttl_inv_def nodes_def sorted_append)
  qed
  then show "ttl_inv (removeNode ns i)" "nodes (removeNode ns i) = filter (\<lambda>(n, _). n \<noteq> i) (nodes ns)"
    by simp_all
qed

lemma addAndRefreshNode_ok:
  assumes "ttl_inv ns" "\<forall>(_, t) \<in> set (ns_l ns). refreshTime t \<le> now"
  shows "ttl_inv (addAndRefreshNode ns now i)"
    "nodes (addAndRefreshNode ns now i) = filter (\<lambda>(n, _). n \<noteq> i) (nodes ns) @ [(i, now)]"
proof -
  have "ttl_inv (addAndRefreshNode ns now i) \<and>
    nodes (addAndRefreshNode ns now i) = filter (\<lambda>(n, _). n \<noteq> i) (nodes ns) @ [(i, now)]"
  proof (cases "mapElement ns i")
    case None
    then have ni: "\<forall>a u. (a, u) \<in> set (ns_l ns) \<longrightarrow> nodeId u \<noteq> i"
      using assms(1) by (intro index_NoneD) (simp add: ttl_inv_def)
    then have "filter (\<lambda>(n, _). n \<noteq> i) (nodes ns) = nodes ns"
      unfolding nodes_def by (rule filter_nodes_id)
    moreover have "ns_fresh ns \<notin> fst ` set (ns_l ns)" using assms(1) by (auto simp: ttl_inv_def)
    moreover have "map_of (map (\<lambda>(a, t). (nodeId t, a)) (ns_l ns)) i = None"
      using None assms(1) by (simp add: ttl_inv_def)
    ultimately show ?thesis using None assms ni
      by (auto simp: addAndRefreshNode_def ttl_inv_def nodes_def sorted_append map_add_def fun_eq_iff
          less_Suc_eq split: option.split)
  next
    case (Some e)
    with assms(1) obtain us t vs where l: "ns_l ns = us @ (e, t) # vs" "nodeId t = i"
      "list_Remove e (ns_l ns) = us @ vs" "filter (\<lambda>(a, _). a = e) (ns_l ns) = [(e, t)]"
      "\<forall>a u. (a, u) \<in> set (us @ vs) \<longrightarrow> a \<noteq> e \<and> nodeId u \<noteq> i"
      by (rule mapElement_split)
    let ?f = "\<lambda>(a :: nat, t). (nodeId t, a)"
    let ?l = "us @ vs @ [(e, t\<lparr>refreshTime := now\<rparr>)]"
    have a: "addAndRefreshNode ns now i = ns\<lparr>ns_l := ?l\<rparr>"
      using Some l by (simp add: addAndRefreshNode_def)
    have "map_of (map ?f us) i = None" "map_of (map ?f vs) i = None" using l(5) by (auto intro!: index_None)
    then have m: "mapElement ns = map_of (map ?f ?l)"
      using assms(1) l(1,2) by (auto simp: ttl_inv_def fun_eq_iff map_add_def split: option.splits)
    have "filter (\<lambda>(n, _). n \<noteq> i) (nodes ns) = map (\<lambda>(_, t). (nodeId t, refreshTime t)) (us @ vs)"
      using l filter_nodes_id [of us i] filter_nodes_id [of vs i] by (simp add: nodes_def)
    moreover have "ttl_inv (ns\<lparr>ns_l := ?l\<rparr>)"
      using assms l(1,2,5) m by (auto simp: ttl_inv_def sorted_append)
    ultimately show ?thesis using l(2) by (simp add: a nodes_def)
  qed
  then show "ttl_inv (addAndRefreshNode ns now i)"
    "nodes (addAndRefreshNode ns now i) = filter (\<lambda>(n, _). n \<noteq> i) (nodes ns) @ [(i, now)]" by simp_all
qed

text \<open>
  The check takes the longest prefix of expired nodes; because the list is ordered, with one
  reading of the clock that is all expired nodes and only those.
\<close>

lemma checkTTL_loop_ok:
  fixes now d :: int
  assumes "distinct (map (\<lambda>(_, t). nodeId t) l)" "m = map_of (map (\<lambda>(a, t). (nodeId t, a)) l)"
    "sorted (map (\<lambda>(_, t). refreshTime t) l)"
  defines "old \<equiv> \<lambda>(_, t). now - refreshTime t > d"
  shows "checkTTL_loop l m d (\<lambda>_. now) k =
    (map (\<lambda>(_, t). nodeId t) (filter old l), filter (\<lambda>x. \<not> old x) l,
     map_of (map (\<lambda>(a, t). (nodeId t, a)) (filter (\<lambda>x. \<not> old x) l)))"
  using assms(1-3)
proof (induction l arbitrary: m k)
  case (Cons p l)
  obtain e nt where p: "p = (e, nt)" by force
  show ?case
  proof (cases "old p")
    case True
    have ne: "\<forall>a u. (a, u) \<in> set l \<longrightarrow> nodeId u \<noteq> nodeId nt"
      using Cons.prems(1) by (force simp: p image_iff)
    have m: "m(nodeId nt := None) = map_of (map (\<lambda>(a, t). (nodeId t, a)) l)"
      using Cons.prems(2) index_None [OF ne] by (auto simp: p fun_eq_iff)
    have "distinct (map (\<lambda>(_, t). nodeId t) l)" "sorted (map (\<lambda>(_, t). refreshTime t) l)"
      using Cons.prems(1,3) by (auto simp: p)
    from Cons.IH [OF this(1) refl this(2), of "Suc k"] True show ?thesis
      by (simp add: p m) (simp add: old_def)
  next
    case False
    then have "\<not> old x" if "x \<in> set (p # l)" for x
      using that Cons.prems(3) by (force simp: p old_def)
    then have "filter old (p # l) = []" "filter (\<lambda>x. \<not> old x) (p # l) = p # l"
      by (auto simp: filter_empty_conv filter_id_conv)
    with False Cons.prems(2) show ?thesis by (simp add: p old_def)
  qed
qed simp

lemma checkTTL_ok:
  fixes now :: int
  assumes "ttl_inv ns"
  defines "old \<equiv> \<lambda>(_, r). now - r > ns_ttl ns"
  shows "ttl_inv (snd (checkTTL ns (\<lambda>_. now)))"
    "nodes (snd (checkTTL ns (\<lambda>_. now))) = filter (\<lambda>x. \<not> old x) (nodes ns)"
    "fst (checkTTL ns (\<lambda>_. now)) =
       (if filter old (nodes ns) = [] then None else Some (map fst (filter old (nodes ns))))"
proof -
  let ?old = "\<lambda>(_ :: nat, t). now - refreshTime t > ns_ttl ns"
  let ?l = "filter (\<lambda>x. \<not> ?old x) (ns_l ns)"
  have c: "checkTTL_loop (ns_l ns) (mapElement ns) (ns_ttl ns) (\<lambda>_. now) 0 =
    (map (\<lambda>(_, t). nodeId t) (filter ?old (ns_l ns)), ?l, map_of (map (\<lambda>(a, t). (nodeId t, a)) ?l))"
    using assms(1) by (intro checkTTL_loop_ok) (auto simp: ttl_inv_def)
  define ids where "ids = map (\<lambda>(_, t). nodeId t) (filter ?old (ns_l ns))"
  have e: "checkTTL ns (\<lambda>_. now) = (if ids \<noteq> [] then Some ids else None,
      ns\<lparr>ns_l := ?l, mapElement := map_of (map (\<lambda>(a, t). (nodeId t, a)) ?l)\<rparr>)"
    unfolding checkTTL_def c ids_def by simp
  have "distinct (map (\<lambda>(_, t). nodeId t) ?l)" "distinct (map fst ?l)"
    "sorted (map (\<lambda>(_, t). refreshTime t) ?l)"
    using assms(1) by (auto simp: ttl_inv_def intro: distinct_map_filter sorted_filter)
  then show "ttl_inv (snd (checkTTL ns (\<lambda>_. now)))"
    using assms(1) by (auto simp: e ttl_inv_def)
  have f: "filter old (nodes ns) = map (\<lambda>(_, t). (nodeId t, refreshTime t)) (filter ?old (ns_l ns))"
    "filter (\<lambda>x. \<not> old x) (nodes ns) = map (\<lambda>(_, t). (nodeId t, refreshTime t)) ?l"
    unfolding nodes_def filter_map o_def old_def case_prod_beta fst_conv snd_conv by (rule refl)+
  then show "nodes (snd (checkTTL ns (\<lambda>_. now))) = filter (\<lambda>x. \<not> old x) (nodes ns)"
    by (simp add: e nodes_def)
  show "fst (checkTTL ns (\<lambda>_. now)) =
       (if filter old (nodes ns) = [] then None else Some (map fst (filter old (nodes ns))))"
    unfolding f by (simp add: e ids_def o_def case_prod_beta)
qed

end
