(* ===== verification/PubSub.thy ===== *)
theory PubSub
  imports Prelude
begin

text \<open>
  \<^verbatim>\<open>util/pattern/pubsub/pubsub.go\<close>: topics with their subscribers in subscription order.
  The lists of keys live in a store of their own (\<open>pub_lists\<close>, by address), because
  \<^verbatim>\<open>foreach\<close> walks a list while the callbacks may change the publisher: an \<^verbatim>\<open>UnSubscribe\<close>
  drops the list from the topic table but not from under the walk, and an \<^verbatim>\<open>UnSubscribeKey\<close> removes
  an element from the list being walked. A key is put into one list once, so it also names its list
  element. The nil maps of a new publisher are \<open>None\<close>. \<^verbatim>\<open>keyID\<close> is a global counter.
\<close>

type_synonym Key = "64 word"

record 's KeyData =
  kd_subscriber :: 's
  kd_topicType :: int
  kd_keyElement :: Key

record 's Publisher =
  subscriberSet :: "(Key \<rightharpoonup> 's KeyData) option"
  topicSet :: "(int \<rightharpoonup> nat) option"
  pub_lists :: "nat \<Rightarrow> Key list"
  pub_fresh :: nat
  keyID :: Key

definition NewPublisher :: "Key \<Rightarrow> 's Publisher" where
  "NewPublisher k = \<lparr>subscriberSet = None, topicSet = None, pub_lists = (\<lambda>_. []), pub_fresh = 0, keyID = k\<rparr>"

definition genKeyID :: "'s Publisher \<Rightarrow> Key \<times> 's Publisher" where
  "genKeyID pub = (keyID pub + 1, pub\<lparr>keyID := keyID pub + 1\<rparr>)"

definition SubscriberSet_add :: "'s Publisher \<Rightarrow> Key \<Rightarrow> int \<Rightarrow> 's \<Rightarrow> 's Publisher go" where
  "SubscriberSet_add pub keyElement topicType sub =
     (case subscriberSet pub of
        None \<Rightarrow> Inl NilMapWrite
      | Some m \<Rightarrow> Inr (pub\<lparr>subscriberSet := Some (m(keyElement \<mapsto>
          \<lparr>kd_subscriber = sub, kd_topicType = topicType, kd_keyElement = keyElement\<rparr>))\<rparr>))"

definition SubscriberSet_del :: "'s Publisher \<Rightarrow> Key \<Rightarrow> 's Publisher" where
  "SubscriberSet_del pub key = pub\<lparr>subscriberSet := map_option (\<lambda>m. m(key := None)) (subscriberSet pub)\<rparr>"

definition SubscriberSet_get :: "'s Publisher \<Rightarrow> Key \<Rightarrow> 's KeyData option" where
  "SubscriberSet_get pub key = (case subscriberSet pub of None \<Rightarrow> None | Some m \<Rightarrow> m key)"

definition topic_list :: "'s Publisher \<Rightarrow> int \<Rightarrow> nat option" where
  "topic_list pub topic = (case topicSet pub of None \<Rightarrow> None | Some m \<Rightarrow> m topic)"

definition TopicSet_add :: "'s Publisher \<Rightarrow> int \<Rightarrow> Key \<Rightarrow> 's Publisher go" where
  "TopicSet_add pub topic key =
     rbind (case topic_list pub topic of
              Some a \<Rightarrow> Inr (a, pub)
            | None \<Rightarrow>
                (case topicSet pub of
                   None \<Rightarrow> Inl NilMapWrite
                 | Some m \<Rightarrow>
                     let a = pub_fresh pub in
                     Inr (a, pub\<lparr>pub_fresh := a + 1, pub_lists := (pub_lists pub)(a := []),
                                 topicSet := Some (m(topic \<mapsto> a))\<rparr>)))
       (\<lambda>(a, pub1). Inr (pub1\<lparr>pub_lists := (pub_lists pub1)(a := pub_lists pub1 a @ [key])\<rparr>))"

definition TopicSet_del :: "'s Publisher \<Rightarrow> int \<Rightarrow> Key \<Rightarrow> 's Publisher" where
  "TopicSet_del pub topic keyElement =
     (case topic_list pub topic of
        None \<Rightarrow> pub
      | Some a \<Rightarrow> pub\<lparr>pub_lists := (pub_lists pub)(a := filter (\<lambda>k. k \<noteq> keyElement) (pub_lists pub a))\<rparr>)"

definition lazyInit :: "'s Publisher \<Rightarrow> 's Publisher" where
  "lazyInit pub =
     (let pub1 = (case subscriberSet pub of None \<Rightarrow> pub\<lparr>subscriberSet := Some Map.empty\<rparr> | Some _ \<Rightarrow> pub) in
      case topicSet pub1 of None \<Rightarrow> pub1\<lparr>topicSet := Some Map.empty\<rparr> | Some _ \<Rightarrow> pub1)"

definition Publisher_add :: "'s Publisher \<Rightarrow> int \<Rightarrow> 's \<Rightarrow> (Key \<times> 's Publisher) go" where
  "Publisher_add pub topic sub =
     (let (key, pub1) = genKeyID pub in
      rbind (TopicSet_add pub1 topic key) (\<lambda>pub2.
      rbind (SubscriberSet_add pub2 key topic sub) (\<lambda>pub3. Inr (key, pub3))))"

text \<open>
  \<^verbatim>\<open>e.Next()\<close>: the element behind \<open>e\<close>, nil when \<open>e\<close> is the last one or no longer in the list.
\<close>

fun elem_Next :: "Key list \<Rightarrow> Key \<Rightarrow> Key option" where
  "elem_Next [] e = None"
| "elem_Next (k # ks) e = (if k = e then (case ks of [] \<Rightarrow> None | k' # _ \<Rightarrow> Some k') else elem_Next ks e)"

text \<open>
  The walk of \<^verbatim>\<open>foreach\<close> in \<^verbatim>\<open>Publish\<close>. \<open>on sub\<close> is the subscriber's \<^verbatim>\<open>OnEvent\<close>: it may change
  the publisher and the rest of the program's state. The fuel is for callbacks that keep subscribing.
\<close>

fun foreach_from :: "('s \<Rightarrow> 's Publisher \<Rightarrow> 'x \<Rightarrow> 's Publisher \<times> 'x) \<Rightarrow> nat \<Rightarrow> nat \<Rightarrow> Key option \<Rightarrow>
    's Publisher \<Rightarrow> 'x \<Rightarrow> ('s Publisher \<times> 'x) option" where
  "foreach_from on fuel a None pub x = Some (pub, x)"
| "foreach_from on 0 a (Some e) pub x = None"
| "foreach_from on (Suc n) a (Some e) pub x =
     (let (pub1, x1) = (case SubscriberSet_get pub e of
                          None \<Rightarrow> (pub, x)
                        | Some kd \<Rightarrow> on (kd_subscriber kd) pub x) in
      foreach_from on n a (elem_Next (pub_lists pub1 a) e) pub1 x1)"

definition Publisher_Publish :: "('s \<Rightarrow> 's Publisher \<Rightarrow> 'x \<Rightarrow> 's Publisher \<times> 'x) \<Rightarrow> nat \<Rightarrow>
    's Publisher \<Rightarrow> int \<Rightarrow> 'x \<Rightarrow> ('s Publisher \<times> 'x) option" where
  "Publisher_Publish on fuel pub topic x =
     (let pub1 = lazyInit pub in
      case topic_list pub1 topic of
        None \<Rightarrow> Some (pub1, x)
      | Some a \<Rightarrow> foreach_from on fuel a (case pub_lists pub1 a of [] \<Rightarrow> None | k # _ \<Rightarrow> Some k) pub1 x)"

text \<open>The key is also handed to the subscriber (\<^verbatim>\<open>OnSubscribe\<close>), here the first result.\<close>

definition Publisher_Subscribe :: "'s Publisher \<Rightarrow> int \<Rightarrow> 's \<Rightarrow> (Key option \<times> 's Publisher) go" where
  "Publisher_Subscribe pub topic sub =
     (if topic = 0 then Inr (None, pub)
      else rbind (Publisher_add (lazyInit pub) topic sub) (\<lambda>(key, pub1). Inr (Some key, pub1)))"

definition Publisher_UnSubscribe :: "'s Publisher \<Rightarrow> int \<Rightarrow> 's Publisher" where
  "Publisher_UnSubscribe pub topic =
     (case topic_list pub topic of
        None \<Rightarrow> pub
      | Some a \<Rightarrow>
          let pub1 = fold (\<lambda>k p. SubscriberSet_del p k) (pub_lists pub a) pub in
          pub1\<lparr>topicSet := map_option (\<lambda>m. m(topic := None)) (topicSet pub1)\<rparr>)"

definition Publisher_UnSubscribeKey :: "'s Publisher \<Rightarrow> Key \<Rightarrow> 's Publisher" where
  "Publisher_UnSubscribeKey pub key =
     (case SubscriberSet_get pub key of
        None \<Rightarrow> pub
      | Some kd \<Rightarrow> SubscriberSet_del (TopicSet_del pub (kd_topicType kd) (kd_keyElement kd)) key)"

section \<open>Invariant and abstraction\<close>

text \<open>\<open>subs pub topic\<close>: the keys and subscribers of a topic, in order.\<close>

definition topic_keys :: "'s Publisher \<Rightarrow> int \<Rightarrow> Key list" where
  "topic_keys pub topic = (case topic_list pub topic of None \<Rightarrow> [] | Some a \<Rightarrow> pub_lists pub a)"

definition subs :: "'s Publisher \<Rightarrow> int \<Rightarrow> (Key \<times> 's) list" where
  "subs pub topic = map (\<lambda>k. (k, kd_subscriber (the (SubscriberSet_get pub k)))) (topic_keys pub topic)"

definition pub_inv :: "'s Publisher \<Rightarrow> bool" where
  "pub_inv pub \<longleftrightarrow>
     (\<forall>t a. topic_list pub t = Some a \<longrightarrow> a < pub_fresh pub) \<and>
     (\<forall>t t' a. topic_list pub t = Some a \<longrightarrow> topic_list pub t' = Some a \<longrightarrow> t = t') \<and>
     (\<forall>t. distinct (topic_keys pub t)) \<and>
     (\<forall>k kd. SubscriberSet_get pub k = Some kd \<longrightarrow> kd_keyElement kd = k \<and> k \<in> set (topic_keys pub (kd_topicType kd))) \<and>
     (\<forall>t. \<forall>k \<in> set (topic_keys pub t). \<exists>kd. SubscriberSet_get pub k = Some kd \<and> kd_topicType kd = t)"

lemma lazyInit_same:
  "topic_list (lazyInit pub) t = topic_list pub t" "SubscriberSet_get (lazyInit pub) k = SubscriberSet_get pub k"
  "pub_lists (lazyInit pub) = pub_lists pub" "pub_fresh (lazyInit pub) = pub_fresh pub" "keyID (lazyInit pub) = keyID pub"
  "topic_keys (lazyInit pub) t = topic_keys pub t"
  "\<exists>m. subscriberSet (lazyInit pub) = Some m" "\<exists>m. topicSet (lazyInit pub) = Some m"
  by (auto simp: lazyInit_def topic_list_def SubscriberSet_get_def topic_keys_def Let_def split: option.splits)

lemma lazyInit_inv: "pub_inv (lazyInit pub) = pub_inv pub" "subs (lazyInit pub) = subs pub"
  by (auto simp: pub_inv_def subs_def fun_eq_iff lazyInit_same)

lemma NewPublisher_inv: "pub_inv (NewPublisher k)" "subs (NewPublisher k) t = []"
  by (auto simp: pub_inv_def NewPublisher_def topic_list_def topic_keys_def SubscriberSet_get_def subs_def)

text \<open>Lookups in a publisher after one key was added to a topic.\<close>

lemma Subscribe_effect:
  assumes "pub_inv pub" "topic \<noteq> 0"
  obtains pub' where "Publisher_Subscribe pub topic sub = Inr (Some (keyID pub + 1), pub')"
    "keyID pub' = keyID pub + 1"
    "\<And>t. topic_keys pub' t = topic_keys pub t @ (if t = topic then [keyID pub + 1] else [])"
    "\<And>k. SubscriberSet_get pub' k = (if k = keyID pub + 1
        then Some \<lparr>kd_subscriber = sub, kd_topicType = topic, kd_keyElement = keyID pub + 1\<rparr>
        else SubscriberSet_get pub k)"
    "\<And>t a. topic_list pub' t = Some a \<Longrightarrow> a < pub_fresh pub'"
    "\<And>t t' a. topic_list pub' t = Some a \<Longrightarrow> topic_list pub' t' = Some a \<Longrightarrow> t = t'"
proof -
  define key where "key = keyID pub + 1"
  define p where "p = (lazyInit pub)\<lparr>keyID := key\<rparr>"
  obtain sm tm where m: "subscriberSet p = Some sm" "topicSet p = Some tm"
    using lazyInit_same(7,8) [of pub] by (auto simp: p_def)
  have eq: "topic_list p t = topic_list pub t" "SubscriberSet_get p k = SubscriberSet_get pub k"
    "topic_keys p t = topic_keys pub t" "pub_lists p = pub_lists pub" "pub_fresh p = pub_fresh pub" for t k
    using lazyInit_same(1,2,3,4,6) [of pub] unfolding p_def
    by (simp_all add: topic_list_def SubscriberSet_get_def topic_keys_def split: option.split)
  have fresh: "topic_list p t = Some a \<Longrightarrow> a < pub_fresh p" for t a
    using assms(1) by (auto simp: pub_inv_def eq)
  have inj: "topic_list p t = Some a \<Longrightarrow> topic_list p t' = Some a \<Longrightarrow> t = t'" for t t' a
    using assms(1) by (auto simp: pub_inv_def eq)
  define kd where "kd = \<lparr>kd_subscriber = sub, kd_topicType = topic, kd_keyElement = key\<rparr>"
  define a where "a = (case topic_list p topic of None \<Rightarrow> pub_fresh p | Some a \<Rightarrow> a)"
  define q where "q = p\<lparr>pub_fresh := (if topic_list p topic = None then pub_fresh p + 1 else pub_fresh p),
      pub_lists := (pub_lists p)(a := topic_keys p topic @ [key]),
      topicSet := Some (tm(topic \<mapsto> a)), subscriberSet := Some (sm(key \<mapsto> kd))\<rparr>"
  have tl: "topic_list p t = tm t" for t by (simp add: topic_list_def m)
  have "TopicSet_add p topic key = Inr (q\<lparr>subscriberSet := subscriberSet p\<rparr>)"
  proof (cases "tm topic")
    case None
    then show ?thesis by (simp add: TopicSet_add_def tl m q_def a_def topic_keys_def Let_def)
  next
    case (Some b)
    then have "tm(topic \<mapsto> b) = tm" by auto
    with Some show ?thesis by (simp add: TopicSet_add_def tl q_def a_def topic_keys_def m)
  qed
  then have r: "Publisher_Subscribe pub topic sub = Inr (Some key, q)"
    using assms(2) m by (simp add: Publisher_Subscribe_def Publisher_add_def genKeyID_def
        SubscriberSet_add_def lazyInit_same key_def [symmetric] p_def [symmetric] q_def kd_def)
  have tq: "topic_list q t = (if t = topic then Some a else tm t)" for t
    by (simp add: topic_list_def q_def)
  have pl: "pub_lists q = (pub_lists p)(a := topic_keys p topic @ [key])" by (simp add: q_def)
  have fq: "pub_fresh q = (if topic_list p topic = None then pub_fresh p + 1 else pub_fresh p)"
    by (simp add: q_def)
  have na: "t \<noteq> topic \<Longrightarrow> tm t \<noteq> Some a" for t
    using fresh [of t "pub_fresh p"] inj [of t _ topic] by (auto simp: a_def tl split: option.splits)
  show ?thesis
  proof (rule that)
    show "Publisher_Subscribe pub topic sub = Inr (Some (keyID pub + 1), q)" using r by (simp add: key_def)
    show "keyID q = keyID pub + 1" by (simp add: q_def p_def key_def)
    show "topic_keys q t = topic_keys pub t @ (if t = topic then [keyID pub + 1] else [])" for t
    proof (cases "t = topic")
      case True
      have "topic_keys q topic = topic_keys p topic @ [key]"
        by (simp add: topic_keys_def [of q] tq pl)
      with True show ?thesis by (simp add: eq(3) key_def)
    next
      case False
      with na [OF False] have "topic_keys q t = topic_keys p t"
        by (auto simp: topic_keys_def [of q] topic_keys_def [of p t] tq tl pl split: option.split)
      with False show ?thesis by (simp add: eq)
    qed
    show "SubscriberSet_get q k = (if k = keyID pub + 1
        then Some \<lparr>kd_subscriber = sub, kd_topicType = topic, kd_keyElement = keyID pub + 1\<rparr>
        else SubscriberSet_get pub k)" for k
      using eq(2) [of k] m by (auto simp: SubscriberSet_get_def q_def kd_def key_def)
    show "topic_list q t = Some b \<Longrightarrow> b < pub_fresh q" for t b
      using fresh [of t b] fresh [of topic b]
      by (auto simp: tq tl fq a_def split: if_splits option.splits)
    show "topic_list q t = Some b \<Longrightarrow> topic_list q t' = Some b \<Longrightarrow> t = t'" for t t' b
      using na inj [of t b t'] by (auto simp: tq tl split: if_splits)
  qed
qed

lemma Subscribe_ok:
  assumes "pub_inv pub" "topic \<noteq> 0" "SubscriberSet_get pub (keyID pub + 1) = None"
  obtains pub' where "Publisher_Subscribe pub topic sub = Inr (Some (keyID pub + 1), pub')" "pub_inv pub'"
    "\<And>t. subs pub' t = subs pub t @ (if t = topic then [(keyID pub + 1, sub)] else [])"
proof -
  let ?k = "keyID pub + 1"
  from assms(1,2) obtain pub' where r: "Publisher_Subscribe pub topic sub = Inr (Some ?k, pub')"
    and tk: "\<And>t. topic_keys pub' t = topic_keys pub t @ (if t = topic then [?k] else [])"
    and sg: "\<And>k. SubscriberSet_get pub' k = (if k = ?k
        then Some \<lparr>kd_subscriber = sub, kd_topicType = topic, kd_keyElement = ?k\<rparr>
        else SubscriberSet_get pub k)"
    and tl: "\<And>t a. topic_list pub' t = Some a \<Longrightarrow> a < pub_fresh pub'"
    "\<And>t t' a. topic_list pub' t = Some a \<Longrightarrow> topic_list pub' t' = Some a \<Longrightarrow> t = t'"
    by (rule Subscribe_effect [where sub = sub]) blast
  have nk: "?k \<notin> set (topic_keys pub t)" for t
    using assms(1,3) unfolding pub_inv_def by (metis option.distinct(1))
  have "pub_inv pub'"
    using assms(1) tl nk unfolding pub_inv_def tk sg by (auto split: if_splits)
  moreover have "subs pub' t = subs pub t @ (if t = topic then [(?k, sub)] else [])" for t
    using nk by (auto simp: subs_def tk sg)
  ultimately show ?thesis using that r by blast
qed

lemma UnSubscribeKey_ok:
  assumes "pub_inv pub"
  shows "pub_inv (Publisher_UnSubscribeKey pub key)"
    "subs (Publisher_UnSubscribeKey pub key) t = filter (\<lambda>(k, _). k \<noteq> key) (subs pub t)"
proof -
  have "pub_inv (Publisher_UnSubscribeKey pub key) \<and>
    subs (Publisher_UnSubscribeKey pub key) t = filter (\<lambda>(k, _). k \<noteq> key) (subs pub t)"
  proof (cases "SubscriberSet_get pub key")
    case None
    then have "key \<notin> set (topic_keys pub t)" using assms unfolding pub_inv_def by (metis option.distinct(1))
    then have "filter (\<lambda>(k, _). k \<noteq> key) (subs pub t) = subs pub t" by (auto simp: filter_id_conv subs_def)
    with None assms show ?thesis by (simp add: Publisher_UnSubscribeKey_def)
  next
    case (Some kd)
    let ?q = "Publisher_UnSubscribeKey pub key"
    have kd: "kd_keyElement kd = key" "key \<in> set (topic_keys pub (kd_topicType kd))"
      using assms Some by (auto simp: pub_inv_def)
    then obtain a where a: "topic_list pub (kd_topicType kd) = Some a"
      by (cases "topic_list pub (kd_topicType kd)") (auto simp: topic_keys_def)
    have tl: "topic_list ?q t = topic_list pub t" for t
      by (simp add: Publisher_UnSubscribeKey_def Some TopicSet_del_def kd a SubscriberSet_del_def topic_list_def
          split: option.split)
    have fr: "pub_fresh ?q = pub_fresh pub"
      by (simp add: Publisher_UnSubscribeKey_def Some TopicSet_del_def kd a SubscriberSet_del_def)
    have ls: "pub_lists ?q = (pub_lists pub)(a := filter (\<lambda>k. k \<noteq> key) (pub_lists pub a))"
      by (simp add: Publisher_UnSubscribeKey_def Some TopicSet_del_def kd a SubscriberSet_del_def)
    have sg: "SubscriberSet_get ?q k = (if k = key then None else SubscriberSet_get pub k)" for k
      using Some by (auto simp: Publisher_UnSubscribeKey_def TopicSet_del_def kd a SubscriberSet_del_def
          SubscriberSet_get_def split: option.splits)
    have other: "key \<in> set (topic_keys pub t) \<Longrightarrow> t = kd_topicType kd" for t
      using assms Some by (fastforce simp: pub_inv_def)
    have tk: "topic_keys ?q t = filter (\<lambda>k. k \<noteq> key) (topic_keys pub t)" for t
    proof (cases "topic_list pub t = Some a")
      case True
      then show ?thesis by (simp add: topic_keys_def tl ls)
    next
      case False
      then have "t \<noteq> kd_topicType kd" using a by auto
      then have "key \<notin> set (topic_keys pub t)" using other by blast
      moreover have "topic_keys ?q t = topic_keys pub t" using False by (auto simp: topic_keys_def tl ls split: option.split)
      ultimately show ?thesis by (metis (mono_tags, lifting) filter_True)
    qed
    have "pub_inv ?q" using assms unfolding pub_inv_def tl tk sg fr by auto
    moreover have "subs ?q t = filter (\<lambda>(k, _). k \<noteq> key) (subs pub t)"
      unfolding subs_def tk by (induction "topic_keys pub t") (auto simp: sg subs_def filter_map o_def)
    ultimately show ?thesis by simp
  qed
  then show "pub_inv (Publisher_UnSubscribeKey pub key)"
    "subs (Publisher_UnSubscribeKey pub key) t = filter (\<lambda>(k, _). k \<noteq> key) (subs pub t)" by simp_all
qed

lemma fold_del:
  "topicSet (fold (\<lambda>k p. SubscriberSet_del p k) ks pub) = topicSet pub"
  "pub_lists (fold (\<lambda>k p. SubscriberSet_del p k) ks pub) = pub_lists pub"
  "pub_fresh (fold (\<lambda>k p. SubscriberSet_del p k) ks pub) = pub_fresh pub"
  "SubscriberSet_get (fold (\<lambda>k p. SubscriberSet_del p k) ks pub) j =
     (if j \<in> set ks then None else SubscriberSet_get pub j)"
  by (induction ks arbitrary: pub)
    (auto simp: SubscriberSet_del_def SubscriberSet_get_def split: option.splits)

lemma UnSubscribe_ok:
  assumes "pub_inv pub"
  shows "pub_inv (Publisher_UnSubscribe pub topic)"
    "subs (Publisher_UnSubscribe pub topic) t = (if t = topic then [] else subs pub t)"
proof -
  let ?q = "Publisher_UnSubscribe pub topic"
  have "pub_inv ?q \<and> subs ?q t = (if t = topic then [] else subs pub t)"
  proof (cases "topic_list pub topic")
    case None
    then show ?thesis using assms by (simp add: Publisher_UnSubscribe_def subs_def topic_keys_def)
  next
    case (Some a)
    have ks: "topic_keys pub topic = pub_lists pub a" by (simp add: topic_keys_def Some)
    have tl: "topic_list ?q t = (if t = topic then None else topic_list pub t)" for t
      by (auto simp: Publisher_UnSubscribe_def Some Let_def topic_list_def fold_del split: option.splits)
    have ls: "pub_lists ?q = pub_lists pub" "pub_fresh ?q = pub_fresh pub"
      by (simp_all add: Publisher_UnSubscribe_def Some Let_def fold_del)
    have sg: "SubscriberSet_get ?q k = (if k \<in> set (topic_keys pub topic) then None else SubscriberSet_get pub k)" for k
      using fold_del(4) [of "pub_lists pub a" pub k]
      by (simp add: Publisher_UnSubscribe_def Some Let_def ks) (simp add: SubscriberSet_get_def)
    have tk: "topic_keys ?q t = (if t = topic then [] else topic_keys pub t)" for t
      by (simp add: topic_keys_def tl ls split: option.split)
    have disj: "k \<in> set (topic_keys pub t) \<Longrightarrow> k \<in> set (topic_keys pub topic) \<Longrightarrow> t = topic" for k t
      using assms unfolding pub_inv_def by (metis option.inject)
    have "pub_inv ?q" using assms disj unfolding pub_inv_def tl tk sg ls by (auto split: if_splits)
    moreover have "subs ?q t = (if t = topic then [] else subs pub t)"
      using disj by (auto simp: subs_def tk sg)
    ultimately show ?thesis by simp
  qed
  then show "pub_inv ?q" "subs ?q t = (if t = topic then [] else subs pub t)" by simp_all
qed

text \<open>
  With subscribers that leave the publisher alone, a publish calls each subscriber of the topic
  once, in subscription order, and the number of subscribers is enough fuel.
\<close>

lemma elem_Next_append:
  "e \<notin> set us \<Longrightarrow> elem_Next (us @ e # vs) e = (case vs of [] \<Rightarrow> None | k # _ \<Rightarrow> Some k)"
  by (induction us) auto

lemma foreach_quiet:
  assumes "pub_inv pub" "topic_list pub topic = Some a" "\<And>s p y. on s p y = (p, act s y)"
  shows "pub_lists pub a = us @ vs \<Longrightarrow> length vs \<le> fuel \<Longrightarrow>
    foreach_from on fuel a (case vs of [] \<Rightarrow> None | k # _ \<Rightarrow> Some k) pub x =
      Some (pub, fold act (map (\<lambda>k. kd_subscriber (the (SubscriberSet_get pub k))) vs) x)"
proof (induction vs arbitrary: us fuel x)
  case (Cons k vs)
  have tk: "topic_keys pub topic = us @ k # vs" using assms(2) Cons.prems(1) by (simp add: topic_keys_def)
  have "distinct (us @ k # vs)" using assms(1) unfolding pub_inv_def tk [symmetric] by blast
  then have nx: "elem_Next (pub_lists pub a) k = (case vs of [] \<Rightarrow> None | k # _ \<Rightarrow> Some k)"
    using Cons.prems(1) elem_Next_append by simp
  have "k \<in> set (topic_keys pub topic)" by (simp add: tk)
  then obtain kd where kd: "SubscriberSet_get pub k = Some kd" using assms(1) unfolding pub_inv_def by blast
  obtain n where n: "fuel = Suc n" "length vs \<le> n" using Cons.prems(2) by (cases fuel) auto
  have "pub_lists pub a = (us @ [k]) @ vs" using Cons.prems(1) by simp
  from Cons.IH [OF this n(2)] show ?case by (simp add: n kd assms(3) nx)
qed simp

lemma Publish_quiet:
  assumes "pub_inv pub" "\<And>s p y. on s p y = (p, act s y)" "length (subs pub topic) \<le> fuel"
  shows "Publisher_Publish on fuel pub topic x = Some (lazyInit pub, fold act (map snd (subs pub topic)) x)"
proof (cases "topic_list pub topic")
  case None
  then show ?thesis by (simp add: Publisher_Publish_def lazyInit_same subs_def topic_keys_def)
next
  case (Some a)
  have i: "pub_inv (lazyInit pub)" using assms(1) by (simp add: lazyInit_inv)
  have ks: "topic_keys pub topic = pub_lists pub a" by (simp add: topic_keys_def Some)
  from foreach_quiet [OF i, of topic a on act "[]" "pub_lists pub a" fuel x] Some assms(2,3)
  show ?thesis
    by (simp add: Publisher_Publish_def lazyInit_same subs_def ks o_def)
qed

end
