(* ===== verification/Port.thy ===== *)
theory Port
  imports Prelude Complex_Main
begin

text \<open>
  Ports of the visual-script interpreter (\<^verbatim>\<open>src/util/blueprint/port.go\<close> and \<^verbatim>\<open>typedef.go\<close>).
  \<^item> \<open>port\<close> is \<^verbatim>\<open>Port[T]\<close> with its type argument as the constructor: a method's type switch on
    \<^verbatim>\<open>em.PortVal\<close> is a case distinction. A nil \<^verbatim>\<open>IPort\<close> is \<open>None\<close> of \<open>port option\<close>.
  \<^item> \<^verbatim>\<open>int64\<close> is an integer kept in range by \<open>wrap64\<close>; \<open>f64\<close> holds the values of a \<^verbatim>\<open>float64\<close>
    (signed zeros identified, since no operation of the package tells them apart), with the
    rounding conversion from integers and the truncating conversion back (out of range as on amd64).
  \<^item> \<open>go_any\<close> is what reaches \<^verbatim>\<open>setAnyVale(v any)\<close>, one constructor per case of its type switch and
    \<open>AOther\<close> for every type it ignores.
  \<^item> \<^verbatim>\<open>strconv\<close>: \<open>Itoa\<close>, \<open>Atoi\<close> and \<open>ParseBool\<close> are defined, \<open>ParseFloat\<close> is a parameter.
  Arrays are values: the package only appends to arrays whose port is not shared.
  Shown: every setter keeps the port's type, what a setter stored is what the getter of the same
  type reads and every other getter refuses; decimal printing and parsing are inverse.
\<close>

section \<open>Values\<close>

record ArrayData =
  IntVal :: int
  StrVal :: string

datatype f64 = FNum rat | FPosInf | FNegInf | FNaN

datatype port =
    Port_Exec
  | Port_Int int
  | Port_Float f64
  | Port_Str string
  | Port_Bool bool
  | Port_Array "ArrayData list"

datatype int_kind = KInt | KInt8 | KInt16 | KInt32 | KInt64 | KUint | KUint8 | KUint16 | KUint32 | KUint64

datatype go_any =
    ANil
  | AInt int_kind int
  | AFloat f64
  | AStr string
  | ABool bool
  | AIntSlice int_kind "int list"
  | AStrSlice "string list"
  | AArray "ArrayData list"
  | AAnySlice "go_any list"
  | AOther

section \<open>Conversions of the language\<close>

text \<open>How many low bits a magnitude loses when only 53 significant bits are kept.\<close>

function sig_shift :: "int \<Rightarrow> nat" where
  "sig_shift m = (if m < 2 ^ 53 then 0 else Suc (sig_shift (m div 2)))"
  by auto
termination by (relation "measure nat") auto

declare sig_shift.simps [simp del]

definition round_even :: "int \<Rightarrow> nat \<Rightarrow> int" where
  "round_even m sh =
     (let q = m div 2 ^ sh; r = m mod 2 ^ sh
      in if 2 * r > 2 ^ sh \<or> (2 * r = 2 ^ sh \<and> odd q) then q + 1 else q)"

definition f64_of_int :: "int \<Rightarrow> f64" where
  "f64_of_int x = (let sh = sig_shift \<bar>x\<bar> in FNum (of_int (sgn x * (round_even \<bar>x\<bar> sh * 2 ^ sh))))"

definition int64_of_f64 :: "f64 \<Rightarrow> int" where
  "int64_of_f64 v =
     (case v of
        FNum r \<Rightarrow> (let t = (if 0 \<le> r then \<lfloor>r\<rfloor> else \<lceil>r\<rceil>)
                   in if - (2 ^ 63) \<le> t \<and> t < 2 ^ 63 then t else - (2 ^ 63))
      | _ \<Rightarrow> - (2 ^ 63))"

lemma f64_of_int_exact: "\<bar>x\<bar> < 2 ^ 53 \<Longrightarrow> f64_of_int x = FNum (of_int x)"
  by (cases "x < 0") (simp_all add: f64_of_int_def sig_shift.simps round_even_def Let_def sgn_if)

text \<open>Integers below 2^53 in magnitude survive the trip through a \<^verbatim>\<open>float64\<close>, which is how the
  numbers of a graph file reach integer ports.\<close>

lemma int64_of_f64_of_int: "\<bar>x\<bar> < 2 ^ 53 \<Longrightarrow> int64_of_f64 (f64_of_int x) = x"
  by (auto simp: f64_of_int_exact int64_of_f64_def)

section \<open>Decimal printing and parsing\<close>

definition digit_char :: "nat \<Rightarrow> char" where
  "digit_char d = char_of (48 + d)"

function Itoa_nat :: "nat \<Rightarrow> string" where
  "Itoa_nat n = (if n < 10 then [digit_char n] else Itoa_nat (n div 10) @ [digit_char (n mod 10)])"
  by auto
termination by (relation "measure id") auto

declare Itoa_nat.simps [simp del]

definition Itoa :: "int \<Rightarrow> string" where
  "Itoa x = (if x < 0 then CHR ''-'' # Itoa_nat (nat (- x)) else Itoa_nat (nat x))"

definition char_digit :: "char \<Rightarrow> nat option" where
  "char_digit c = (let k = of_char c in if 48 \<le> k \<and> k \<le> (57::nat) then Some (k - 48) else None)"

fun digits_val :: "nat \<Rightarrow> string \<Rightarrow> nat option" where
  "digits_val acc [] = Some acc"
| "digits_val acc (c # cs) =
     (case char_digit c of None \<Rightarrow> None | Some d \<Rightarrow> digits_val (10 * acc + d) cs)"

definition in_int64 :: "int \<Rightarrow> bool" where
  "in_int64 x \<longleftrightarrow> - (2 ^ 63) \<le> x \<and> x < 2 ^ 63"

text \<open>\<^verbatim>\<open>strconv.Atoi\<close>: an optional sign, then decimal digits, in the range of \<^verbatim>\<open>int\<close>.\<close>

definition Atoi :: "string \<Rightarrow> int option" where
  "Atoi s =
     (let (neg, ds) = (case s of [] \<Rightarrow> (False, [])
                       | c # cs \<Rightarrow> if c = CHR ''-'' then (True, cs)
                                   else if c = CHR ''+'' then (False, cs) else (False, s))
      in if ds = [] then None
         else case digits_val 0 ds of
                None \<Rightarrow> None
              | Some n \<Rightarrow> (let x = (if neg then - int n else int n)
                           in if in_int64 x then Some x else None))"

definition ParseBool :: "string \<Rightarrow> bool option" where
  "ParseBool s =
     (if s \<in> {''1'', ''t'', ''T'', ''TRUE'', ''true'', ''True''} then Some True
      else if s \<in> {''0'', ''f'', ''F'', ''FALSE'', ''false'', ''False''} then Some False
      else None)"

lemma char_digit_digit_char [simp]: "d < 10 \<Longrightarrow> char_digit (digit_char d) = Some d"
  by (simp add: char_digit_def digit_char_def of_char_of Let_def)

lemma digit_char_not_sign:
  "d < 10 \<Longrightarrow> digit_char d \<noteq> CHR ''-''" "d < 10 \<Longrightarrow> digit_char d \<noteq> CHR ''+''"
  using char_digit_digit_char [of d] by (auto simp: char_digit_def)

lemma digits_val_append:
  "digits_val acc (xs @ ys) =
     (case digits_val acc xs of None \<Rightarrow> None | Some n \<Rightarrow> digits_val n ys)"
  by (induction xs arbitrary: acc) (auto split: option.split)

lemma digits_val_Itoa_nat: "digits_val 0 (Itoa_nat n) = Some n"
proof (induction n rule: Itoa_nat.induct)
  case (1 n)
  show ?case
  proof (cases "n < 10")
    case True
    then show ?thesis by (simp add: Itoa_nat.simps [of n])
  next
    case False
    with 1 show ?thesis
      by (subst Itoa_nat.simps) (simp add: digits_val_append)
  qed
qed

lemma Itoa_nat_Cons: "\<exists>d ds. d < 10 \<and> Itoa_nat n = digit_char d # ds"
proof (induction n rule: Itoa_nat.induct)
  case (1 n)
  show ?case
  proof (cases "n < 10")
    case True
    then show ?thesis by (auto simp: Itoa_nat.simps [of n])
  next
    case False
    with 1 obtain d ds where "d < 10" "Itoa_nat (n div 10) = digit_char d # ds" by blast
    with False show ?thesis by (subst Itoa_nat.simps) auto
  qed
qed

text \<open>A printed number holds digits only.\<close>

lemma Itoa_nat_chars: "char_digit c = None \<Longrightarrow> c \<notin> set (Itoa_nat n)"
proof (induction n rule: Itoa_nat.induct)
  case (1 n)
  have d: "digit_char d \<noteq> c" if "d < 10" for d using char_digit_digit_char [OF that] "1.prems" by auto
  show ?case
  proof (cases "n < 10")
    case True
    then show ?thesis using d [of n] by (subst Itoa_nat.simps) auto
  next
    case False
    then show ?thesis using 1 d [of "n mod 10"] by (subst Itoa_nat.simps) auto
  qed
qed

lemma Atoi_Itoa: "in_int64 x \<Longrightarrow> Atoi (Itoa x) = Some x"
proof -
  assume x: "in_int64 x"
  obtain d ds where d: "d < 10" "Itoa_nat (nat \<bar>x\<bar>) = digit_char d # ds"
    using Itoa_nat_Cons by blast
  have v: "digits_val 0 (digit_char d # ds) = Some (nat \<bar>x\<bar>)"
    using digits_val_Itoa_nat [of "nat \<bar>x\<bar>"] d(2) by (simp del: digits_val.simps)
  show ?thesis
    using x d v digit_char_not_sign [OF d(1)]
    by (cases "x < 0") (auto simp: Atoi_def Itoa_def Let_def simp del: digits_val.simps)
qed

text \<open>\<^verbatim>\<open>strings.Split\<close> at a separator of one character.\<close>

fun Split :: "char \<Rightarrow> string \<Rightarrow> string list" where
  "Split sep [] = [[]]"
| "Split sep (c # cs) =
     (if c = sep then [] # Split sep cs
      else case Split sep cs of [] \<Rightarrow> [[c]] | p # ps \<Rightarrow> (c # p) # ps)"

lemma Split_nonempty: "Split sep s \<noteq> []"
  by (cases s) (auto split: list.split)

lemma Split_no_sep: "sep \<notin> set s \<Longrightarrow> Split sep s = [s]"
  by (induction s) auto

lemma Split_append: "sep \<notin> set p \<Longrightarrow> Split sep (p @ sep # s) = p # Split sep s"
  by (induction p) auto

section \<open>Operations of a port\<close>

fun Port_Clone :: "port \<Rightarrow> port" where
  "Port_Clone (Port_Array xs) = Port_Array ([] @ xs)"
| "Port_Clone p = p"

fun Port_Reset :: "port \<Rightarrow> port" where
  "Port_Reset Port_Exec = Port_Exec"
| "Port_Reset (Port_Int _) = Port_Int 0"
| "Port_Reset (Port_Float _) = Port_Float (FNum 0)"
| "Port_Reset (Port_Str _) = Port_Str []"
| "Port_Reset (Port_Bool _) = Port_Bool False"
| "Port_Reset (Port_Array _) = Port_Array []"

text \<open>The getters return the value and the boolean of the comma-ok assertion: \<open>None\<close> is \<^verbatim>\<open>false\<close>,
  where the value is the zero of its type and no caller uses it.\<close>

fun Port_GetInt :: "port \<Rightarrow> int option" where
  "Port_GetInt (Port_Int v) = Some v"
| "Port_GetInt _ = None"

fun Port_GetFloat :: "port \<Rightarrow> f64 option" where
  "Port_GetFloat (Port_Float v) = Some v"
| "Port_GetFloat _ = None"

fun Port_GetStr :: "port \<Rightarrow> string option" where
  "Port_GetStr (Port_Str v) = Some v"
| "Port_GetStr _ = None"

fun Port_GetBool :: "port \<Rightarrow> bool option" where
  "Port_GetBool (Port_Bool v) = Some v"
| "Port_GetBool _ = None"

fun Port_GetArray :: "port \<Rightarrow> ArrayData list option" where
  "Port_GetArray (Port_Array v) = Some v"
| "Port_GetArray _ = None"

fun Port_GetArrayValInt :: "port \<Rightarrow> int \<Rightarrow> int option" where
  "Port_GetArrayValInt (Port_Array t) idx =
     (if 0 \<le> idx \<and> idx < int (length t) then Some (IntVal (t ! nat idx)) else None)"
| "Port_GetArrayValInt _ idx = None"

fun Port_GetArrayValStr :: "port \<Rightarrow> int \<Rightarrow> string option" where
  "Port_GetArrayValStr (Port_Array t) idx =
     (if 0 \<le> idx \<and> idx < int (length t) then Some (StrVal (t ! nat idx)) else None)"
| "Port_GetArrayValStr _ idx = None"

text \<open>The setters return their boolean result and the port after the call.\<close>

fun Port_SetInt :: "port \<Rightarrow> int \<Rightarrow> bool \<times> port" where
  "Port_SetInt (Port_Int _) v = (True, Port_Int v)"
| "Port_SetInt p v = (False, p)"

fun Port_SetFloat :: "port \<Rightarrow> f64 \<Rightarrow> bool \<times> port" where
  "Port_SetFloat (Port_Float _) v = (True, Port_Float v)"
| "Port_SetFloat p v = (False, p)"

fun Port_SetStr :: "port \<Rightarrow> string \<Rightarrow> bool \<times> port" where
  "Port_SetStr (Port_Str _) v = (True, Port_Str v)"
| "Port_SetStr p v = (False, p)"

fun Port_SetBool :: "port \<Rightarrow> bool \<Rightarrow> bool \<times> port" where
  "Port_SetBool (Port_Bool _) v = (True, Port_Bool v)"
| "Port_SetBool p v = (False, p)"

fun Port_SetArrayValInt :: "port \<Rightarrow> int \<Rightarrow> int \<Rightarrow> bool \<times> port" where
  "Port_SetArrayValInt (Port_Array t) idx v =
     (if 0 \<le> idx \<and> idx < int (length t)
      then (True, Port_Array (t[nat idx := (t ! nat idx)\<lparr>IntVal := v\<rparr>])) else (False, Port_Array t))"
| "Port_SetArrayValInt p idx v = (False, p)"

fun Port_SetArrayValStr :: "port \<Rightarrow> int \<Rightarrow> string \<Rightarrow> bool \<times> port" where
  "Port_SetArrayValStr (Port_Array t) idx v =
     (if 0 \<le> idx \<and> idx < int (length t)
      then (True, Port_Array (t[nat idx := (t ! nat idx)\<lparr>StrVal := v\<rparr>])) else (False, Port_Array t))"
| "Port_SetArrayValStr p idx v = (False, p)"

fun Port_AppendArrayValInt :: "port \<Rightarrow> int \<Rightarrow> bool \<times> port" where
  "Port_AppendArrayValInt (Port_Array t) v = (True, Port_Array (t @ [\<lparr>IntVal = v, StrVal = []\<rparr>]))"
| "Port_AppendArrayValInt p v = (False, p)"

fun Port_AppendArrayValStr :: "port \<Rightarrow> string \<Rightarrow> bool \<times> port" where
  "Port_AppendArrayValStr (Port_Array t) v = (True, Port_Array (t @ [\<lparr>IntVal = 0, StrVal = v\<rparr>]))"
| "Port_AppendArrayValStr p v = (False, p)"

fun Port_AppendArrayData :: "port \<Rightarrow> ArrayData \<Rightarrow> bool \<times> port" where
  "Port_AppendArrayData (Port_Array t) v = (True, Port_Array (t @ [v]))"
| "Port_AppendArrayData p v = (False, p)"

fun Port_GetArrayLen :: "port \<Rightarrow> int" where
  "Port_GetArrayLen (Port_Array t) = int (length t)"
| "Port_GetArrayLen _ = 0"

fun Port_IsPortExec :: "port \<Rightarrow> bool" where
  "Port_IsPortExec Port_Exec = True"
| "Port_IsPortExec _ = False"

text \<open>\<^verbatim>\<open>SetValue\<close> succeeds exactly when both ports have the same type argument.\<close>

fun same_type :: "port \<Rightarrow> port \<Rightarrow> bool" where
  "same_type Port_Exec Port_Exec = True"
| "same_type (Port_Int _) (Port_Int _) = True"
| "same_type (Port_Float _) (Port_Float _) = True"
| "same_type (Port_Str _) (Port_Str _) = True"
| "same_type (Port_Bool _) (Port_Bool _) = True"
| "same_type (Port_Array _) (Port_Array _) = True"
| "same_type _ _ = False"

definition Port_SetValue :: "port \<Rightarrow> port \<Rightarrow> bool \<times> port" where
  "Port_SetValue em val = (if same_type em val then (True, val) else (False, em))"

section \<open>Storing a value of any type\<close>

fun convertInt64 :: "int_kind \<Rightarrow> int \<Rightarrow> int" where
  "convertInt64 KUint64 v = wrap64 v"
| "convertInt64 KUint v = wrap64 v"
| "convertInt64 _ v = v"

text \<open>Errors carry the branch that raised them; the text of the message is not modelled.\<close>

datatype bp_error =
    PortTypeMismatch
  | ParseError
  | ArgsNotFound int
  | ArgsSetValue int bp_error
  | OutPortNotFound string int
  | PreNodeNotExec string
  | NodeNotFound string
  | NextIndexNotFound int
  | NodeError string
  | GraphPanic go_panic

fun append_ints :: "port \<Rightarrow> int list \<Rightarrow> port" where
  "append_ints p [] = p"
| "append_ints p (v # vs) = append_ints (snd (Port_AppendArrayValInt p v)) vs"

fun append_strs :: "port \<Rightarrow> string list \<Rightarrow> port" where
  "append_strs p [] = p"
| "append_strs p (v # vs) = append_strs (snd (Port_AppendArrayValStr p v)) vs"

text \<open>The integer branch; \<open>val\<close> is the converted value.\<close>

fun set_any_int :: "port \<Rightarrow> int \<Rightarrow> bp_error option \<times> port" where
  "set_any_int (Port_Int u) val = (None, snd (Port_SetInt (Port_Int u) val))"
| "set_any_int (Port_Float u) val = (None, snd (Port_SetFloat (Port_Float u) (f64_of_int val)))"
| "set_any_int (Port_Str u) val = (None, snd (Port_SetStr (Port_Str u) (Itoa val)))"
| "set_any_int (Port_Bool u) val = (None, snd (Port_SetBool (Port_Bool u) (val \<noteq> 0)))"
| "set_any_int p val = (Some PortTypeMismatch, p)"

fun set_any_float :: "port \<Rightarrow> f64 \<Rightarrow> bp_error option \<times> port" where
  "set_any_float (Port_Int u) fV = (None, snd (Port_SetInt (Port_Int u) (int64_of_f64 fV)))"
| "set_any_float (Port_Float u) fV = (None, snd (Port_SetFloat (Port_Float u) fV))"
| "set_any_float (Port_Str u) fV = (None, snd (Port_SetStr (Port_Str u) (Itoa (int64_of_f64 fV))))"
| "set_any_float (Port_Bool u) fV = (None, snd (Port_SetBool (Port_Bool u) (int64_of_f64 fV \<noteq> 0)))"
| "set_any_float p fV = (Some PortTypeMismatch, p)"

fun set_any_str :: "(string \<Rightarrow> f64 option) \<Rightarrow> port \<Rightarrow> string \<Rightarrow> bp_error option \<times> port" where
  "set_any_str parseFloat (Port_Int u) strV =
     (case Atoi strV of None \<Rightarrow> (Some ParseError, Port_Int u)
      | Some v \<Rightarrow> (None, snd (Port_SetInt (Port_Int u) v)))"
| "set_any_str parseFloat (Port_Float u) strV =
     (case parseFloat strV of None \<Rightarrow> (Some ParseError, Port_Float u)
      | Some v \<Rightarrow> (None, snd (Port_SetFloat (Port_Float u) v)))"
| "set_any_str parseFloat (Port_Str u) strV = (None, snd (Port_SetStr (Port_Str u) strV))"
| "set_any_str parseFloat (Port_Bool u) strV =
     (case ParseBool strV of None \<Rightarrow> (Some ParseError, Port_Bool u)
      | Some v \<Rightarrow> (None, snd (Port_SetBool (Port_Bool u) v)))"
| "set_any_str parseFloat p strV = (Some PortTypeMismatch, p)"

fun set_any_bool :: "port \<Rightarrow> bool \<Rightarrow> bp_error option \<times> port" where
  "set_any_bool (Port_Bool u) b = (None, snd (Port_SetBool (Port_Bool u) b))"
| "set_any_bool p b = (Some PortTypeMismatch, p)"

text \<open>Slices of \<^verbatim>\<open>int\<close> and \<^verbatim>\<open>uint\<close> have no case in the type switch and are ignored.\<close>

fun slice_case :: "int_kind \<Rightarrow> bool" where
  "slice_case KInt = False"
| "slice_case KUint = False"
| "slice_case _ = True"

fun setAnyVale :: "(string \<Rightarrow> f64 option) \<Rightarrow> port \<Rightarrow> go_any \<Rightarrow> bp_error option \<times> port" where
  "setAnyVale pf em (AInt k v) = set_any_int em (convertInt64 k v)"
| "setAnyVale pf em (AFloat v) = set_any_float em v"
| "setAnyVale pf em (AStr v) = set_any_str pf em v"
| "setAnyVale pf em (ABool v) = set_any_bool em v"
| "setAnyVale pf em (AIntSlice k vs) =
     (None, if slice_case k then append_ints em (map (convertInt64 k) vs) else em)"
| "setAnyVale pf em (AStrSlice vs) = (None, append_strs em vs)"
| "setAnyVale pf em (AArray vs) = (None, append_ints em (map IntVal vs))"
| "setAnyVale pf em v = (None, em)"

section \<open>Construction\<close>

definition NewPortExec :: port where
  "NewPortExec = Port_Exec"

definition NewPortInt :: port where
  "NewPortInt = Port_Int 0"

definition NewPortFloat :: port where
  "NewPortFloat = Port_Float (FNum 0)"

definition NewPortStr :: port where
  "NewPortStr = Port_Str []"

definition NewPortBool :: port where
  "NewPortBool = Port_Bool False"

definition NewPortArray :: port where
  "NewPortArray = Port_Array []"

lemmas new_port_defs = NewPortExec_def NewPortInt_def NewPortFloat_def NewPortStr_def
  NewPortBool_def NewPortArray_def

definition NewPortByType :: "string \<Rightarrow> port option" where
  "NewPortByType typ =
     (if typ = ''exec'' then Some NewPortExec
      else if typ = ''int'' \<or> typ = ''integer'' then Some NewPortInt
      else if typ = ''float'' then Some NewPortFloat
      else if typ = ''string'' then Some NewPortStr
      else if typ = ''bool'' \<or> typ = ''boolean'' then Some NewPortBool
      else if typ = ''array'' then Some NewPortArray
      else None)"

section \<open>The contract of a typed port\<close>

lemma same_type_refl [simp]: "same_type p p"
  by (cases p) simp_all

lemma same_type_sym: "same_type p q \<Longrightarrow> same_type q p"
  by (cases p; cases q) simp_all

lemma same_type_trans [trans]: "same_type p q \<Longrightarrow> same_type q r \<Longrightarrow> same_type p r"
  by (cases p; cases q; cases r) simp_all

text \<open>A getter and a setter for one type of value: what the setter stored is what the getter reads,
  the type never changes, and on a port of another type the setter refuses and changes nothing.\<close>

locale typed_port =
  fixes get :: "port \<Rightarrow> 'v option" and set :: "port \<Rightarrow> 'v \<Rightarrow> bool \<times> port"
  assumes get_set: "get p = Some u \<Longrightarrow> set p v = (True, q) \<Longrightarrow> get q = Some v"
    and set_same_type: "same_type p (snd (set p v))"
    and set_accepts: "fst (set p v) \<longleftrightarrow> get p \<noteq> None"
    and set_refused: "get p = None \<Longrightarrow> snd (set p v) = p"
    and get_same_type: "same_type p q \<Longrightarrow> get p = None \<longleftrightarrow> get q = None"
    and get_inj: "get p = Some v \<Longrightarrow> get q = Some v \<Longrightarrow> p = q"
begin

lemma set_reads_back: "get p \<noteq> None \<Longrightarrow> get (snd (set p v)) = Some v"
  using get_set [of p _ v "snd (set p v)"] set_accepts [of p v] by (cases "set p v") auto

lemma set_set: "snd (set (snd (set p u)) v) = snd (set p v)"
proof (cases "get p = None")
  case True
  then show ?thesis by (simp add: set_refused)
next
  case False
  then have "get (snd (set (snd (set p u)) v)) = Some v" "get (snd (set p v)) = Some v"
    by (simp_all add: set_reads_back)
  then show ?thesis by (rule get_inj)
qed

lemma copy_then_read:
  assumes "get val = Some v" "get em \<noteq> None" "same_type em val"
  shows "get (snd (Port_SetValue em val)) = Some v"
  using assms by (simp add: Port_SetValue_def)

end

text \<open>It is enough that getter and setter belong to one constructor.\<close>

lemma typed_portI:
  assumes "\<And>v. get (C v) = Some v" "\<And>u v. put (C u) v = (True, C v)"
    and "\<And>p. (\<exists>v. p = C v) \<or> (get p = None \<and> (\<forall>v. put p v = (False, p)))"
    and "\<And>u v. same_type (C u) (C v)" "\<And>u q. same_type (C u) q \<Longrightarrow> \<exists>v. q = C v"
  shows "typed_port get put"
proof
  fix p q u v
  show "get p = Some u \<Longrightarrow> put p v = (True, q) \<Longrightarrow> get q = Some v"
    using assms(3) [of p] assms(1,2) by auto
  show "same_type p (snd (put p v))" using assms(3) [of p] assms(2,4) by auto
  show "fst (put p v) = (get p \<noteq> None)" using assms(3) [of p] assms(1,2) by auto
  show "get p = None \<Longrightarrow> snd (put p v) = p" using assms(3) [of p] assms(1) by auto
  show "same_type p q \<Longrightarrow> (get p = None) = (get q = None)"
    using assms(3) [of p] assms(3) [of q] assms(1,5) same_type_sym by (metis option.distinct(1))
  show "get p = Some v \<Longrightarrow> get q = Some v \<Longrightarrow> p = q"
    using assms(3) [of p] assms(3) [of q] assms(1) by auto
qed

lemma same_type_inv:
  "same_type (Port_Int a) q \<Longrightarrow> \<exists>v. q = Port_Int v"
  "same_type (Port_Float b) q \<Longrightarrow> \<exists>v. q = Port_Float v"
  "same_type (Port_Str c) q \<Longrightarrow> \<exists>v. q = Port_Str v"
  "same_type (Port_Bool d) q \<Longrightarrow> \<exists>v. q = Port_Bool v"
  "same_type (Port_Array e) q \<Longrightarrow> \<exists>v. q = Port_Array v"
  "same_type Port_Exec q \<Longrightarrow> q = Port_Exec"
  by (cases q; simp)+

lemma constructor_or_refused:
  "(\<exists>v. p = Port_Int v) \<or> (Port_GetInt p = None \<and> (\<forall>v. Port_SetInt p v = (False, p)))"
  "(\<exists>v. p = Port_Float v) \<or> (Port_GetFloat p = None \<and> (\<forall>v. Port_SetFloat p v = (False, p)))"
  "(\<exists>v. p = Port_Str v) \<or> (Port_GetStr p = None \<and> (\<forall>v. Port_SetStr p v = (False, p)))"
  "(\<exists>v. p = Port_Bool v) \<or> (Port_GetBool p = None \<and> (\<forall>v. Port_SetBool p v = (False, p)))"
  by (cases p; simp)+

interpretation int_port: typed_port Port_GetInt Port_SetInt
  by (rule typed_portI [OF _ _ constructor_or_refused(1)]) (simp_all add: same_type_inv)

interpretation float_port: typed_port Port_GetFloat Port_SetFloat
  by (rule typed_portI [OF _ _ constructor_or_refused(2)]) (simp_all add: same_type_inv)

interpretation str_port: typed_port Port_GetStr Port_SetStr
  by (rule typed_portI [OF _ _ constructor_or_refused(3)]) (simp_all add: same_type_inv)

interpretation bool_port: typed_port Port_GetBool Port_SetBool
  by (rule typed_portI [OF _ _ constructor_or_refused(4)]) (simp_all add: same_type_inv)

section \<open>The type of a port never changes\<close>

lemma same_type_append_int [simp]: "same_type p (snd (Port_AppendArrayValInt p v))"
  by (cases p) simp_all

lemma same_type_append_str [simp]: "same_type p (snd (Port_AppendArrayValStr p v))"
  by (cases p) simp_all

lemma same_type_append_ints: "same_type p (append_ints p vs)"
proof (induction vs arbitrary: p)
  case (Cons v vs)
  have "same_type p (snd (Port_AppendArrayValInt p v))" by simp
  also have "same_type \<dots> (append_ints p (v # vs))" using Cons by simp
  finally show ?case .
qed simp

lemma same_type_append_strs: "same_type p (append_strs p vs)"
proof (induction vs arbitrary: p)
  case (Cons v vs)
  have "same_type p (snd (Port_AppendArrayValStr p v))" by simp
  also have "same_type \<dots> (append_strs p (v # vs))" using Cons by simp
  finally show ?case .
qed simp

lemma append_ints_array:
  "append_ints (Port_Array t) vs = Port_Array (t @ map (\<lambda>v. \<lparr>IntVal = v, StrVal = []\<rparr>) vs)"
  by (induction vs arbitrary: t) simp_all

lemma append_strs_array:
  "append_strs (Port_Array t) vs = Port_Array (t @ map (\<lambda>v. \<lparr>IntVal = 0, StrVal = v\<rparr>) vs)"
  by (induction vs arbitrary: t) simp_all

lemma setAnyVale_same_type: "same_type em (snd (setAnyVale pf em v))"
proof (cases v)
  case (AInt k x)
  then show ?thesis by (cases em) simp_all
next
  case (AFloat x)
  then show ?thesis by (cases em) simp_all
next
  case (AStr x)
  then show ?thesis by (cases em) (simp_all split: option.split)
next
  case (ABool x)
  then show ?thesis by (cases em) simp_all
qed (simp_all add: same_type_append_ints same_type_append_strs)

text \<open>A value refused with an error leaves the port as it was.\<close>

lemma setAnyVale_error: "fst (setAnyVale pf em v) = Some e \<Longrightarrow> snd (setAnyVale pf em v) = em"
proof (cases v)
  case (AInt k x)
  then show "fst (setAnyVale pf em v) = Some e \<Longrightarrow> ?thesis" by (cases em) simp_all
next
  case (AFloat x)
  then show "fst (setAnyVale pf em v) = Some e \<Longrightarrow> ?thesis" by (cases em) simp_all
next
  case (AStr x)
  then show "fst (setAnyVale pf em v) = Some e \<Longrightarrow> ?thesis" by (cases em) (simp_all split: option.splits)
next
  case (ABool x)
  then show "fst (setAnyVale pf em v) = Some e \<Longrightarrow> ?thesis" by (cases em) simp_all
qed simp_all

lemma Port_Clone_id [simp]: "Port_Clone p = p"
  by (cases p) simp_all

end
