(* ===== verification/ExecNode.thy ===== *)
theory ExecNode
  imports Port
begin

text \<open>
  Node definitions and execution contexts of the visual-script interpreter
  (\<^verbatim>\<open>src/util/blueprint/exec.go\<close>, \<^verbatim>\<open>context.go\<close>).
  \<^item> \<open>innerExecNode\<close>: the ports a node class declares, indexed by port number; a hole in the
    numbering is \<open>None\<close>, and asking a hole whether it is an execution port is a nil dereference.
  \<^item> \<open>exec_kind\<close>: the registered implementation behind a class, \<^verbatim>\<open>innerExecNode.IExecNode\<close>.
  \<^item> \<open>ExecContext\<close>: the input and output ports of one activation; the accessors of
    \<^verbatim>\<open>BaseExecNode\<close> read and update it. A port that is absent, nil or of another type gives
    \<open>None\<close> (Go's \<^verbatim>\<open>false\<close>) or leaves the context alone.
  Shown: every accessor keeps the shape and the port types of a context, and a set is read back.
\<close>

section \<open>Classes\<close>

datatype exec_kind =
    Entrance_ArrayParam | Entrance_IntParam | Entrance_Timer
  | DebugOutput | Sequence | ForeachIntArray | Foreach
  | GetArrayInt | GetArrayString | GetArrayLen
  | BoolIf | GreaterThanInteger | LessThanInteger | EqualInteger | RangeCompare | EqualSwitch
  | Probability | CreateIntArray | CreateStringArray | AppendIntegerToArray | AppendStringToArray
  | CreateTimer | CloseTimer | AppendIntReturn | AppendStringReturn | IntInArray
  | AddInt | SubInt | MulInt | DivInt | ModInt | RandNumber
  | GetVariablesNode string | SetVariablesNode string

record InputConfig =
  ic_Name :: string
  ic_PortType :: string
  ic_DataType :: string
  ic_PortId :: int

record OutputConfig =
  oc_Name :: string
  oc_PortType :: string
  oc_DataType :: string
  oc_PortId :: int

record BaseExecConfig =
  bc_Name :: string
  bc_Title :: string
  bc_Package :: string
  bc_Description :: string
  bc_Inputs :: "InputConfig list"
  bc_Outputs :: "OutputConfig list"

fun max_port_id :: "int \<Rightarrow> int list \<Rightarrow> int" where
  "max_port_id maxPortId [] = maxPortId"
| "max_port_id maxPortId (i # is) = max_port_id (if i > maxPortId then i else maxPortId) is"

definition GetMaxInPortId :: "BaseExecConfig \<Rightarrow> int" where
  "GetMaxInPortId bc = max_port_id (-1) (map ic_PortId (bc_Inputs bc))"

definition GetMaxOutPortId :: "BaseExecConfig \<Rightarrow> int" where
  "GetMaxOutPortId bc = max_port_id (-1) (map oc_PortId (bc_Outputs bc))"

record innerExecNode =
  inn_Name :: string
  inn_Title :: string
  inn_Package :: string
  inn_Description :: string
  inPort :: "port option list"
  outPort :: "port option list"
  outPortParamStartIndex :: int
  IExecNode :: "exec_kind option"

definition zero_innerExecNode :: innerExecNode where
  "zero_innerExecNode = \<lparr>inn_Name = [], inn_Title = [], inn_Package = [], inn_Description = [],
     inPort = [], outPort = [], outPortParamStartIndex = 0, IExecNode = None\<rparr>"

definition PrepareMaxInPortId :: "innerExecNode \<Rightarrow> int \<Rightarrow> innerExecNode go" where
  "PrepareMaxInPortId em maxInPortId =
     rbind (go_make None (maxInPortId + 1)) (\<lambda>ps. Inr (em\<lparr>inPort := ps\<rparr>))"

definition PrepareMaxOutPortId :: "innerExecNode \<Rightarrow> int \<Rightarrow> innerExecNode go" where
  "PrepareMaxOutPortId em maxOutPortId =
     rbind (go_make None (maxOutPortId + 1)) (\<lambda>ps. Inr (em\<lparr>outPort := ps\<rparr>))"

definition SetInPortById :: "innerExecNode \<Rightarrow> int \<Rightarrow> port option \<Rightarrow> bool \<times> innerExecNode" where
  "SetInPortById em portId p =
     (if portId < 0 \<or> portId \<ge> int (length (inPort em)) then (False, em)
      else (True, em\<lparr>inPort := (inPort em)[nat portId := p]\<rparr>))"

text \<open>The first output port that is there and carries data, or -1.\<close>

fun param_start :: "int \<Rightarrow> port option list \<Rightarrow> int" where
  "param_start i [] = -1"
| "param_start i (None # ps) = param_start (i + 1) ps"
| "param_start i (Some p # ps) = (if \<not> Port_IsPortExec p then i else param_start (i + 1) ps)"

definition SetOutPortById :: "innerExecNode \<Rightarrow> int \<Rightarrow> port option \<Rightarrow> bool \<times> innerExecNode" where
  "SetOutPortById em portId p =
     (if portId < 0 \<or> portId \<ge> int (length (outPort em)) then (False, em)
      else (let ps = (outPort em)[nat portId := p]
            in (True, em\<lparr>outPort := ps, outPortParamStartIndex := param_start 0 ps\<rparr>)))"

definition GetOutPortParamStartIndex :: "innerExecNode \<Rightarrow> int" where
  "GetOutPortParamStartIndex em = outPortParamStartIndex em"

definition innerExecNode_GetName :: "innerExecNode \<Rightarrow> string" where
  "innerExecNode_GetName em = inn_Name em"

definition SetExec :: "innerExecNode \<Rightarrow> exec_kind \<Rightarrow> innerExecNode" where
  "SetExec em exec = em\<lparr>IExecNode := Some exec\<rparr>"

text \<open>Execution ports are not cloned, their place stays nil.\<close>

fun clone_port :: "port option \<Rightarrow> port option" where
  "clone_port None = None"
| "clone_port (Some p) = (if Port_IsPortExec p then None else Some (Port_Clone p))"

definition CloneInOutPort :: "innerExecNode \<Rightarrow> port option list \<times> port option list" where
  "CloneInOutPort em = (map clone_port (inPort em), map clone_port (outPort em))"

definition port_is_exec :: "port option list \<Rightarrow> int \<Rightarrow> bool go" where
  "port_is_exec ps index =
     (if index \<ge> int (length ps) \<or> index < 0 then Inr False
      else case ps ! nat index of None \<Rightarrow> Inl NilDereference | Some p \<Rightarrow> Inr (Port_IsPortExec p))"

definition IsInPortExec :: "innerExecNode \<Rightarrow> int \<Rightarrow> bool go" where
  "IsInPortExec em index = port_is_exec (inPort em) index"

definition IsOutPortExec :: "innerExecNode \<Rightarrow> int \<Rightarrow> bool go" where
  "IsOutPortExec em index = port_is_exec (outPort em) index"

definition GetInPortCount :: "innerExecNode \<Rightarrow> int" where
  "GetInPortCount em = int (length (inPort em))"

definition GetOutPortCount :: "innerExecNode \<Rightarrow> int" where
  "GetOutPortCount em = int (length (outPort em))"

definition port_at :: "port option list \<Rightarrow> int \<Rightarrow> port option" where
  "port_at ps index = (if index \<ge> int (length ps) \<or> index < 0 then None else ps ! nat index)"

definition innerExecNode_GetInPort :: "innerExecNode \<Rightarrow> int \<Rightarrow> port option" where
  "innerExecNode_GetInPort em index = port_at (inPort em) index"

definition innerExecNode_GetOutPort :: "innerExecNode \<Rightarrow> int \<Rightarrow> port option" where
  "innerExecNode_GetOutPort em index = port_at (outPort em) index"

section \<open>Contexts\<close>

record ExecContext =
  InputPorts :: "port option list"
  OutputPorts :: "port option list"

definition ExecContext_Reset :: "ExecContext \<Rightarrow> ExecContext" where
  "ExecContext_Reset ec = \<lparr>InputPorts = [], OutputPorts = []\<rparr>"

definition GetPorts :: "ExecContext \<Rightarrow> port option list \<times> port option list" where
  "GetPorts en = (InputPorts en, OutputPorts en)"

definition GetInPort :: "ExecContext \<Rightarrow> int \<Rightarrow> port option" where
  "GetInPort en index = port_at (InputPorts en) index"

definition GetOutPort :: "ExecContext \<Rightarrow> int \<Rightarrow> port option" where
  "GetOutPort en index = port_at (OutputPorts en) index"

text \<open>A method called through the pointer that \<^verbatim>\<open>GetInPort\<close> or \<^verbatim>\<open>GetOutPort\<close> returned changes the
  port in its place.\<close>

definition put_in :: "ExecContext \<Rightarrow> int \<Rightarrow> port \<Rightarrow> ExecContext" where
  "put_in en index p = en\<lparr>InputPorts := (InputPorts en)[nat index := Some p]\<rparr>"

definition put_out :: "ExecContext \<Rightarrow> int \<Rightarrow> port \<Rightarrow> ExecContext" where
  "put_out en index p = en\<lparr>OutputPorts := (OutputPorts en)[nat index := Some p]\<rparr>"

definition upd_in :: "(port \<Rightarrow> bool \<times> port) \<Rightarrow> ExecContext \<Rightarrow> int \<Rightarrow> bool \<times> ExecContext" where
  "upd_in f en index =
     (case GetInPort en index of
        None \<Rightarrow> (False, en)
      | Some p \<Rightarrow> (fst (f p), put_in en index (snd (f p))))"

definition upd_out :: "(port \<Rightarrow> bool \<times> port) \<Rightarrow> ExecContext \<Rightarrow> int \<Rightarrow> bool \<times> ExecContext" where
  "upd_out f en index =
     (case GetOutPort en index of
        None \<Rightarrow> (False, en)
      | Some p \<Rightarrow> (fst (f p), put_out en index (snd (f p))))"

definition SetOutPort :: "ExecContext \<Rightarrow> int \<Rightarrow> port \<Rightarrow> (bool \<times> ExecContext) go" where
  "SetOutPort en index val =
     (if index \<ge> int (length (OutputPorts en)) \<or> index < 0 then Inr (False, en)
      else case OutputPorts en ! nat index of
             None \<Rightarrow> Inl NilDereference
           | Some p \<Rightarrow> Inr (True, put_out en index (snd (Port_SetValue p val))))"

definition GetInPortInt :: "ExecContext \<Rightarrow> int \<Rightarrow> int option" where
  "GetInPortInt en index = (case GetInPort en index of None \<Rightarrow> None | Some p \<Rightarrow> Port_GetInt p)"

definition GetInPortFloat :: "ExecContext \<Rightarrow> int \<Rightarrow> f64 option" where
  "GetInPortFloat en index = (case GetInPort en index of None \<Rightarrow> None | Some p \<Rightarrow> Port_GetFloat p)"

definition GetInPortStr :: "ExecContext \<Rightarrow> int \<Rightarrow> string option" where
  "GetInPortStr en index = (case GetInPort en index of None \<Rightarrow> None | Some p \<Rightarrow> Port_GetStr p)"

definition GetInPortBool :: "ExecContext \<Rightarrow> int \<Rightarrow> bool option" where
  "GetInPortBool en index = (case GetInPort en index of None \<Rightarrow> None | Some p \<Rightarrow> Port_GetBool p)"

definition GetOutPortInt :: "ExecContext \<Rightarrow> int \<Rightarrow> int option" where
  "GetOutPortInt en index = (case GetOutPort en index of None \<Rightarrow> None | Some p \<Rightarrow> Port_GetInt p)"

definition GetOutPortFloat :: "ExecContext \<Rightarrow> int \<Rightarrow> f64 option" where
  "GetOutPortFloat en index = (case GetOutPort en index of None \<Rightarrow> None | Some p \<Rightarrow> Port_GetFloat p)"

definition GetOutPortStr :: "ExecContext \<Rightarrow> int \<Rightarrow> string option" where
  "GetOutPortStr en index = (case GetOutPort en index of None \<Rightarrow> None | Some p \<Rightarrow> Port_GetStr p)"

definition GetOutPortBool :: "ExecContext \<Rightarrow> int \<Rightarrow> bool option" where
  "GetOutPortBool en index = (case GetOutPort en index of None \<Rightarrow> None | Some p \<Rightarrow> Port_GetBool p)"

definition GetInPortArray :: "ExecContext \<Rightarrow> int \<Rightarrow> ArrayData list option" where
  "GetInPortArray en index = (case GetInPort en index of None \<Rightarrow> None | Some p \<Rightarrow> Port_GetArray p)"

definition GetInPortArrayValInt :: "ExecContext \<Rightarrow> int \<Rightarrow> int \<Rightarrow> int option" where
  "GetInPortArrayValInt en index idx =
     (case GetInPort en index of None \<Rightarrow> None | Some p \<Rightarrow> Port_GetArrayValInt p idx)"

text \<open>The source passes the one argument both as the port and as the position in the array.\<close>

definition GetInPortArrayValStr :: "ExecContext \<Rightarrow> int \<Rightarrow> string option" where
  "GetInPortArrayValStr en idx =
     (case GetInPort en idx of None \<Rightarrow> None | Some p \<Rightarrow> Port_GetArrayValStr p idx)"

definition GetInPortArrayLen :: "ExecContext \<Rightarrow> int \<Rightarrow> int" where
  "GetInPortArrayLen en index = (case GetInPort en index of None \<Rightarrow> 0 | Some p \<Rightarrow> Port_GetArrayLen p)"

definition GetOutPortArrayValInt :: "ExecContext \<Rightarrow> int \<Rightarrow> int \<Rightarrow> int option" where
  "GetOutPortArrayValInt en index idx =
     (case GetOutPort en index of None \<Rightarrow> None | Some p \<Rightarrow> Port_GetArrayValInt p idx)"

definition GetOutPortArrayValStr :: "ExecContext \<Rightarrow> int \<Rightarrow> int \<Rightarrow> string option" where
  "GetOutPortArrayValStr en index idx =
     (case GetOutPort en index of None \<Rightarrow> None | Some p \<Rightarrow> Port_GetArrayValStr p idx)"

definition GetOutPortArrayLen :: "ExecContext \<Rightarrow> int \<Rightarrow> int" where
  "GetOutPortArrayLen en index = (case GetOutPort en index of None \<Rightarrow> 0 | Some p \<Rightarrow> Port_GetArrayLen p)"

definition SetInPortInt :: "ExecContext \<Rightarrow> int \<Rightarrow> int \<Rightarrow> bool \<times> ExecContext" where
  "SetInPortInt en index val = upd_in (\<lambda>p. Port_SetInt p val) en index"

definition SetInPortFloat :: "ExecContext \<Rightarrow> int \<Rightarrow> f64 \<Rightarrow> bool \<times> ExecContext" where
  "SetInPortFloat en index val = upd_in (\<lambda>p. Port_SetFloat p val) en index"

definition SetInPortStr :: "ExecContext \<Rightarrow> int \<Rightarrow> string \<Rightarrow> bool \<times> ExecContext" where
  "SetInPortStr en index val = upd_in (\<lambda>p. Port_SetStr p val) en index"

definition SetInBool :: "ExecContext \<Rightarrow> int \<Rightarrow> bool \<Rightarrow> bool \<times> ExecContext" where
  "SetInBool en index val = upd_in (\<lambda>p. Port_SetBool p val) en index"

definition SetInPortArrayValInt :: "ExecContext \<Rightarrow> int \<Rightarrow> int \<Rightarrow> int \<Rightarrow> bool \<times> ExecContext" where
  "SetInPortArrayValInt en index idx val = upd_in (\<lambda>p. Port_SetArrayValInt p idx val) en index"

definition AppendInPortArrayValInt :: "ExecContext \<Rightarrow> int \<Rightarrow> int \<Rightarrow> bool \<times> ExecContext" where
  "AppendInPortArrayValInt en index val = upd_in (\<lambda>p. Port_AppendArrayValInt p val) en index"

definition SetInPortArrayValStr :: "ExecContext \<Rightarrow> int \<Rightarrow> int \<Rightarrow> string \<Rightarrow> bool \<times> ExecContext" where
  "SetInPortArrayValStr en index idx val = upd_in (\<lambda>p. Port_SetArrayValStr p idx val) en index"

definition AppendInPortArrayValStr :: "ExecContext \<Rightarrow> int \<Rightarrow> string \<Rightarrow> bool \<times> ExecContext" where
  "AppendInPortArrayValStr en index val = upd_in (\<lambda>p. Port_AppendArrayValStr p val) en index"

definition SetOutPortInt :: "ExecContext \<Rightarrow> int \<Rightarrow> int \<Rightarrow> bool \<times> ExecContext" where
  "SetOutPortInt en index val = upd_out (\<lambda>p. Port_SetInt p val) en index"

definition SetOutPortFloat :: "ExecContext \<Rightarrow> int \<Rightarrow> f64 \<Rightarrow> bool \<times> ExecContext" where
  "SetOutPortFloat en index val = upd_out (\<lambda>p. Port_SetFloat p val) en index"

definition SetOutPortStr :: "ExecContext \<Rightarrow> int \<Rightarrow> string \<Rightarrow> bool \<times> ExecContext" where
  "SetOutPortStr en index val = upd_out (\<lambda>p. Port_SetStr p val) en index"

definition SetOutPortBool :: "ExecContext \<Rightarrow> int \<Rightarrow> bool \<Rightarrow> bool \<times> ExecContext" where
  "SetOutPortBool en index val = upd_out (\<lambda>p. Port_SetBool p val) en index"

definition SetOutPortArrayValInt :: "ExecContext \<Rightarrow> int \<Rightarrow> int \<Rightarrow> int \<Rightarrow> bool \<times> ExecContext" where
  "SetOutPortArrayValInt en index idx val = upd_out (\<lambda>p. Port_SetArrayValInt p idx val) en index"

definition AppendOutPortArrayValInt :: "ExecContext \<Rightarrow> int \<Rightarrow> int \<Rightarrow> bool \<times> ExecContext" where
  "AppendOutPortArrayValInt en index val = upd_out (\<lambda>p. Port_AppendArrayValInt p val) en index"

definition SetOutPortArrayValStr :: "ExecContext \<Rightarrow> int \<Rightarrow> int \<Rightarrow> string \<Rightarrow> bool \<times> ExecContext" where
  "SetOutPortArrayValStr en index idx val = upd_out (\<lambda>p. Port_SetArrayValStr p idx val) en index"

definition AppendOutPortArrayValStr :: "ExecContext \<Rightarrow> int \<Rightarrow> string \<Rightarrow> bool \<times> ExecContext" where
  "AppendOutPortArrayValStr en index val = upd_out (\<lambda>p. Port_AppendArrayValStr p val) en index"

section \<open>Contexts keep their shape\<close>

text \<open>Two contexts have the same shape when their ports agree in number and type.\<close>

definition ports_like :: "port option list \<Rightarrow> port option list \<Rightarrow> bool" where
  "ports_like ps qs \<longleftrightarrow> list_all2 (rel_option same_type) ps qs"

definition ctx_like :: "ExecContext \<Rightarrow> ExecContext \<Rightarrow> bool" where
  "ctx_like c d \<longleftrightarrow> ports_like (InputPorts c) (InputPorts d) \<and> ports_like (OutputPorts c) (OutputPorts d)"

lemma rel_option_same_type_refl [simp]: "rel_option same_type x x"
  by (cases x) simp_all

lemma ports_like_refl [simp]: "ports_like ps ps"
  by (simp add: ports_like_def list_all2_same)

lemma ports_like_trans: "ports_like ps qs \<Longrightarrow> ports_like qs rs \<Longrightarrow> ports_like ps rs"
  unfolding ports_like_def
  by (rule list_all2_trans) (auto simp: rel_option_iff split: option.splits dest: same_type_trans)

lemma ports_like_update:
  "ps ! i = Some p \<Longrightarrow> same_type p q \<Longrightarrow> ports_like ps (ps[i := Some q])"
  unfolding ports_like_def list_all2_conv_all_nth
proof (intro conjI allI impI)
  fix k
  assume "ps ! i = Some p" "same_type p q" "k < length ps"
  then show "rel_option same_type (ps ! k) (ps[i := Some q] ! k)" by (cases "k = i") simp_all
qed simp

lemma ctx_like_refl [simp]: "ctx_like c c"
  by (simp add: ctx_like_def)

lemma ctx_like_trans [trans]: "ctx_like c d \<Longrightarrow> ctx_like d e \<Longrightarrow> ctx_like c e"
  by (auto simp: ctx_like_def intro: ports_like_trans)

lemma port_at_Some: "port_at ps i = Some p \<Longrightarrow> 0 \<le> i \<and> nat i < length ps \<and> ps ! nat i = Some p"
  by (auto simp: port_at_def split: if_splits)

lemma put_in_like: "GetInPort c i = Some p \<Longrightarrow> same_type p q \<Longrightarrow> ctx_like c (put_in c i q)"
  by (auto simp: GetInPort_def ctx_like_def put_in_def intro: ports_like_update dest!: port_at_Some)

lemma put_out_like: "GetOutPort c i = Some p \<Longrightarrow> same_type p q \<Longrightarrow> ctx_like c (put_out c i q)"
  by (auto simp: GetOutPort_def ctx_like_def put_out_def intro: ports_like_update dest!: port_at_Some)

lemma upd_in_like: "(\<And>p. same_type p (snd (f p))) \<Longrightarrow> ctx_like c (snd (upd_in f c i))"
  by (auto simp: upd_in_def split: option.split intro: put_in_like)

lemma upd_out_like: "(\<And>p. same_type p (snd (f p))) \<Longrightarrow> ctx_like c (snd (upd_out f c i))"
  by (auto simp: upd_out_def split: option.split intro: put_out_like)

lemma GetOutPort_put_out:
  "GetOutPort c i = Some p \<Longrightarrow> GetOutPort (put_out c i q) j = (if i = j then Some q else GetOutPort c j)"
  by (auto simp: GetOutPort_def put_out_def port_at_def nth_list_update split: if_splits)

lemma GetInPort_put_in:
  "GetInPort c i = Some p \<Longrightarrow> GetInPort (put_in c i q) j = (if i = j then Some q else GetInPort c j)"
  by (auto simp: GetInPort_def put_in_def port_at_def nth_list_update split: if_splits)

lemma GetInPort_put_out [simp]: "GetInPort (put_out c i q) j = GetInPort c j"
  by (simp add: GetInPort_def put_out_def)

lemma GetOutPort_put_in [simp]: "GetOutPort (put_in c i q) j = GetOutPort c j"
  by (simp add: GetOutPort_def put_in_def)

lemma SetOutPort_like: "SetOutPort c i v = Inr (b, d) \<Longrightarrow> ctx_like c d"
proof -
  assume *: "SetOutPort c i v = Inr (b, d)"
  consider "d = c" | p where "GetOutPort c i = Some p" "d = put_out c i (snd (Port_SetValue p v))"
    using * by (auto simp: SetOutPort_def GetOutPort_def port_at_def split: if_splits option.splits)
  then show ?thesis
    by cases (auto intro: put_out_like simp: Port_SetValue_def)
qed

lemma max_port_id_eq: "max_port_id m js = Max (insert m (set js))"
proof (induction js arbitrary: m)
  case (Cons i js)
  have "max_port_id m (i # js) = Max (insert (max m i) (set js))" using Cons by (simp add: max_def)
  also have "\<dots> = Max (insert m (insert i (set js)))"
    by (cases "js = []") (simp_all add: ac_simps)
  finally show ?case by simp
qed simp

end
