(* ===== verification/NodeExec.thy ===== *)
theory NodeExec
  imports ExecNode
begin

text \<open>
  The built-in nodes that only touch their own ports
  (\<^verbatim>\<open>src/util/blueprint/mathnode.go\<close>, \<^verbatim>\<open>sysnodes.go\<close>, and the default values of \<^verbatim>\<open>node.go\<close>).
  A node's \<^verbatim>\<open>Exec() (int, error)\<close> is a function of its context: it returns the index of the next
  node, an error or a panic (\<open>ores\<close>), and the context with the output ports it set. The source's
  check-and-return steps are the combinators \<open>need_in\<close>, \<open>need_out\<close>, \<open>want\<close>, \<open>set_out\<close>, each taking
  the rest of the method as its last argument. Errors carry the message of the source.
  Random numbers: a draw is a parameter, reduced to the range the library promises.
  Shown: every node keeps the shape of its context; the arithmetic nodes compute the 64-bit result
  on well-typed contexts and never panic; the switch nodes choose the first matching branch.
\<close>

datatype 'a ores = ROk 'a | RErr bp_error | RPanic go_panic

type_synonym nd = "ExecContext \<Rightarrow> int ores \<times> ExecContext"

named_theorems nd_intros \<open>introduction rules for properties of node bodies\<close>

definition nret :: "int \<Rightarrow> nd" where
  "nret r = (\<lambda>c. (ROk r, c))"

definition nerr :: "string \<Rightarrow> nd" where
  "nerr msg = (\<lambda>c. (RErr (NodeError msg), c))"

definition npanic :: "go_panic \<Rightarrow> nd" where
  "npanic e = (\<lambda>c. (RPanic e, c))"

definition need_in :: "int \<Rightarrow> string \<Rightarrow> (port \<Rightarrow> nd) \<Rightarrow> nd" where
  "need_in i msg k = (\<lambda>c. case GetInPort c i of None \<Rightarrow> nerr msg c | Some p \<Rightarrow> k p c)"

definition need_out :: "int \<Rightarrow> string \<Rightarrow> nd \<Rightarrow> nd" where
  "need_out i msg k = (\<lambda>c. case GetOutPort c i of None \<Rightarrow> nerr msg c | Some p \<Rightarrow> k c)"

definition want :: "'a option \<Rightarrow> string \<Rightarrow> ('a \<Rightarrow> nd) \<Rightarrow> nd" where
  "want x msg k = (case x of None \<Rightarrow> nerr msg | Some v \<Rightarrow> k v)"

definition get_in :: "(ExecContext \<Rightarrow> 'a option) \<Rightarrow> string \<Rightarrow> ('a \<Rightarrow> nd) \<Rightarrow> nd" where
  "get_in g msg k = (\<lambda>c. want (g c) msg k c)"

text \<open>A method called through an output port pointer that was checked before.\<close>

definition set_out :: "int \<Rightarrow> (port \<Rightarrow> bool \<times> port) \<Rightarrow> nd \<Rightarrow> nd" where
  "set_out i f k = (\<lambda>c. k (snd (upd_out f c i)))"

definition from_go :: "'a go \<Rightarrow> ('a \<Rightarrow> nd) \<Rightarrow> nd" where
  "from_go m k = (case m of Inl e \<Rightarrow> npanic e | Inr x \<Rightarrow> k x)"

lemmas nd_defs = nret_def nerr_def npanic_def need_in_def need_out_def want_def get_in_def
  set_out_def from_go_def

section \<open>Arithmetic\<close>

definition AddInt_Exec :: nd where
  "AddInt_Exec =
     need_in 0 ''AddInt inParam 1 not found'' (\<lambda>inPortA.
     need_in 1 ''AddInt inParam 2 not found'' (\<lambda>inPortB.
     need_out 0 ''AddInt outParam not found'' (
     want (Port_GetInt inPortA) ''AddInt inParam 1 not found'' (\<lambda>inA.
     want (Port_GetInt inPortB) ''AddInt inParam 2 not found'' (\<lambda>inB.
     set_out 0 (\<lambda>p. Port_SetInt p (wrap64 (inA + inB))) (
     nret (-1)))))))"

definition SubInt_Exec :: nd where
  "SubInt_Exec =
     need_in 0 ''AddInt inParam 1 not found'' (\<lambda>inPortA.
     need_in 1 ''AddInt inParam 2 not found'' (\<lambda>inPortB.
     need_in 2 ''AddInt inParam 2 not found'' (\<lambda>inPortAbs.
     need_out 0 ''AddInt outParam not found'' (
     want (Port_GetInt inPortA) ''AddInt inParam 1 not found'' (\<lambda>inA.
     want (Port_GetInt inPortB) ''AddInt inParam 2 not found'' (\<lambda>inB.
     want (Port_GetBool inPortAbs) ''AddInt inParam 2 not found'' (\<lambda>isAbs.
     (let ret = wrap64 (inA - inB);
          ret' = (if isAbs \<and> ret < 0 then wrap64 (ret * -1) else ret)
      in set_out 0 (\<lambda>p. Port_SetInt p ret') (
     nret (-1))))))))))"

definition MulInt_Exec :: nd where
  "MulInt_Exec =
     need_in 0 ''AddInt inParam 1 not found'' (\<lambda>inPortA.
     need_in 1 ''AddInt inParam 2 not found'' (\<lambda>inPortB.
     need_out 0 ''AddInt outParam not found'' (
     want (Port_GetInt inPortA) ''AddInt inParam 1 not found'' (\<lambda>inA.
     want (Port_GetInt inPortB) ''AddInt inParam 2 not found'' (\<lambda>inB.
     set_out 0 (\<lambda>p. Port_SetInt p (wrap64 (inA * inB))) (
     nret (-1)))))))"

definition DivInt_Exec :: nd where
  "DivInt_Exec =
     need_in 0 ''AddInt inParam 1 not found'' (\<lambda>inPortA.
     need_in 1 ''AddInt inParam 2 not found'' (\<lambda>inPortB.
     need_in 2 ''AddInt inParam 2 not found'' (\<lambda>inPortRound.
     need_out 0 ''AddInt outParam not found'' (
     want (Port_GetInt inPortA) ''AddInt inParam 1 not found'' (\<lambda>inA.
     want (Port_GetInt inPortB) ''AddInt inParam 2 not found'' (\<lambda>inB.
     want (Port_GetBool inPortRound) ''AddInt inParam 2 not found'' (\<lambda>isRound.
     if inB = 0 then nerr ''div zero error''
     else set_out 0 (\<lambda>p. Port_SetInt p
            (if isRound then wrap64 (go_div (wrap64 (inA + go_div inB 2)) inB)
             else wrap64 (go_div inA inB))) (
     nret (-1)))))))))"

definition ModInt_Exec :: nd where
  "ModInt_Exec =
     need_in 0 ''AddInt inParam 1 not found'' (\<lambda>inPortA.
     need_in 1 ''AddInt inParam 2 not found'' (\<lambda>inPortB.
     need_out 0 ''AddInt outParam not found'' (
     want (Port_GetInt inPortA) ''AddInt inParam 1 not found'' (\<lambda>inA.
     want (Port_GetInt inPortB) ''AddInt inParam 2 not found'' (\<lambda>inB.
     if inB = 0 then nerr ''mod zero error''
     else set_out 0 (\<lambda>p. Port_SetInt p (go_rem inA inB)) (
     nret (-1)))))))"

text \<open>\<^verbatim>\<open>Intn(n)\<close> panics unless \<open>n\<close> is positive and returns a number below \<open>n\<close>; which one is up to the
  draw \<open>d\<close>.\<close>

definition rand_Intn :: "int \<Rightarrow> int \<Rightarrow> int go" where
  "rand_Intn d n = (if n \<le> 0 then Inl (PanicMsg ''invalid argument to Intn'') else Inr (d mod n))"

definition RandNumber_Exec :: "(int \<Rightarrow> int \<Rightarrow> int) \<Rightarrow> int \<Rightarrow> nd" where
  "RandNumber_Exec seeded d =
     need_in 0 ''AddInt inParam 1 not found'' (\<lambda>inPortSeed.
     need_in 1 ''AddInt inParam 2 not found'' (\<lambda>inPortMin.
     need_in 2 ''AddInt inParam 2 not found'' (\<lambda>inPortMax.
     need_out 0 ''AddInt outParam not found'' (
     want (Port_GetInt inPortSeed) ''AddInt inParam 1 not found'' (\<lambda>inSeed.
     want (Port_GetInt inPortMin) ''AddInt inParam 2 not found'' (\<lambda>inMin.
     want (Port_GetInt inPortMax) ''AddInt inParam 2 not found'' (\<lambda>inMax.
     (let n = wrap64 (inMax - inMin + 1)
      in from_go (rand_Intn (if inSeed > 0 then seeded inSeed n else d) n) (\<lambda>r.
     set_out 0 (\<lambda>p. Port_SetInt p (wrap64 (r + inMin))) (
     nret (-1)))))))))))"

section \<open>Entrances, output and arrays\<close>

definition Entrance_ArrayParam_Exec :: nd where
  "Entrance_ArrayParam_Exec = nret 0"

definition Entrance_IntParam_Exec :: nd where
  "Entrance_IntParam_Exec = nret 0"

definition Entrance_Timer_Exec :: nd where
  "Entrance_Timer_Exec = nret 0"

definition DebugOutput_Exec :: nd where
  "DebugOutput_Exec =
     get_in (\<lambda>c. GetInPortInt c 1) ''output Exec inParam not found'' (\<lambda>val.
     get_in (\<lambda>c. GetInPortStr c 2) ''output Exec inParam not found'' (\<lambda>valStr.
     get_in (\<lambda>c. GetInPortArray c 3) ''output Exec inParam not found'' (\<lambda>valArray.
     nret 0)))"

definition GetArrayInt_Exec :: nd where
  "GetArrayInt_Exec =
     need_in 0 ''GetArrayInt inParam not found'' (\<lambda>inPort.
     need_out 0 ''GetArrayInt outParam not found'' (
     need_in 1 ''GetArrayInt arrIndexParam not found'' (\<lambda>arrIndexPort.
     want (Port_GetInt arrIndexPort) ''GetArrayInt arrIndexParam not found'' (\<lambda>arrIndex.
     if arrIndex < 0 \<or> arrIndex \<ge> Port_GetArrayLen inPort
     then nerr ''GetArrayInt arrIndexParam out of range''
     else want (Port_GetArrayValInt inPort arrIndex) ''GetArrayInt inParam not found'' (\<lambda>val.
     set_out 0 (\<lambda>p. Port_SetInt p val) (
     nret (-1)))))))"

definition GetArrayString_Exec :: nd where
  "GetArrayString_Exec =
     need_in 0 ''GetArrayInt inParam 0 not found'' (\<lambda>inPort.
     need_out 0 ''GetArrayInt outParam 0 not found'' (
     need_in 1 ''GetArrayInt arrIndexParam 1 not found'' (\<lambda>arrIndexPort.
     want (Port_GetInt arrIndexPort) ''GetArrayInt arrIndexParam not found'' (\<lambda>arrIndex.
     if arrIndex < 0 \<or> arrIndex \<ge> Port_GetArrayLen inPort
     then nerr ''GetArrayInt arrIndexParam out of range''
     else want (Port_GetArrayValStr inPort arrIndex) ''GetArrayInt inParam not found'' (\<lambda>val.
     set_out 0 (\<lambda>p. Port_SetStr p val) (
     nret (-1)))))))"

definition GetArrayLen_Exec :: nd where
  "GetArrayLen_Exec =
     need_in 0 ''GetArrayInt inParam 0 not found'' (\<lambda>inPort.
     need_out 0 ''GetArrayInt outParam 0 not found'' (
     set_out 0 (\<lambda>p. Port_SetInt p (Port_GetArrayLen inPort)) (
     nret (-1))))"

section \<open>Branches\<close>

definition BoolIf_Exec :: nd where
  "BoolIf_Exec =
     need_in 1 ''GetArrayInt inParam 1 not found'' (\<lambda>inPort.
     want (Port_GetBool inPort) ''BoolIf inParam error'' (\<lambda>ret.
     if ret then nret 1 else nret 0))"

definition GreaterThanInteger_Exec :: nd where
  "GreaterThanInteger_Exec =
     need_in 1 ''GreaterThanInteger inParam 1 not found'' (\<lambda>inPortEqual.
     need_in 2 ''GreaterThanInteger inParam 1 not found'' (\<lambda>inPortA.
     need_in 3 ''GreaterThanInteger inParam 1 not found'' (\<lambda>inPorB.
     want (Port_GetBool inPortEqual) ''GreaterThanInteger inParam 1 error'' (\<lambda>ret.
     want (Port_GetInt inPortA) ''GreaterThanInteger inParam 2 error'' (\<lambda>inA.
     want (Port_GetInt inPorB) ''GreaterThanInteger inParam 3 error'' (\<lambda>inB.
     if ret then (if inA \<ge> inB then nret 1 else nret 0)
     else if inA > inB then nret 1 else nret 0))))))"

definition LessThanInteger_Exec :: nd where
  "LessThanInteger_Exec =
     need_in 1 ''GreaterThanInteger inParam 1 not found'' (\<lambda>inPortEqual.
     need_in 2 ''GreaterThanInteger inParam 1 not found'' (\<lambda>inPortA.
     need_in 3 ''GreaterThanInteger inParam 1 not found'' (\<lambda>inPorB.
     want (Port_GetBool inPortEqual) ''GreaterThanInteger inParam 1 error'' (\<lambda>ret.
     want (Port_GetInt inPortA) ''GreaterThanInteger inParam 2 error'' (\<lambda>inA.
     want (Port_GetInt inPorB) ''GreaterThanInteger inParam 3 error'' (\<lambda>inB.
     if ret then (if inA \<le> inB then nret 1 else nret 0)
     else if inA < inB then nret 1 else nret 0))))))"

definition EqualInteger_Exec :: nd where
  "EqualInteger_Exec =
     need_in 1 ''GreaterThanInteger inParam 1 not found'' (\<lambda>inPortA.
     need_in 2 ''GreaterThanInteger inParam 1 not found'' (\<lambda>inPorB.
     want (Port_GetInt inPortA) ''GreaterThanInteger inParam 2 error'' (\<lambda>inA.
     want (Port_GetInt inPorB) ''GreaterThanInteger inParam 3 error'' (\<lambda>inB.
     if inA = inB then nret 1 else nret 0))))"

definition Probability_Exec :: "int \<Rightarrow> nd" where
  "Probability_Exec d =
     need_in 1 ''GreaterThanInteger inParam 1 not found'' (\<lambda>inPortProbability.
     want (Port_GetInt inPortProbability) ''GreaterThanInteger inParam 1 error'' (\<lambda>inProbability.
     if inProbability > d mod 10000 then nret 1 else nret 0))"

text \<open>The loop of \<^verbatim>\<open>RangeCompare\<close> and \<^verbatim>\<open>EqualSwitch\<close>: the first entry that passes the test, as long
  as there are output ports for it.\<close>

fun switch_loop :: "(int \<Rightarrow> bool) \<Rightarrow> int \<Rightarrow> int \<Rightarrow> int list \<Rightarrow> int" where
  "switch_loop test outCount i [] = 0"
| "switch_loop test outCount i (v # vs) =
     (if i < outCount - 2
      then (if test v then i + 2 else switch_loop test outCount (i + 1) vs)
      else 0)"

section \<open>Placed nodes and their default values\<close>

record execNode =
  en_Id :: string
  en_execNode :: string
  nextNode :: "string option list"
  nextIdx :: int
  preInPort :: "(string \<times> int) option list"
  inPortDefaultValue :: "string \<rightharpoonup> go_any"
  variableName :: string
  beConnect :: bool
  isEntrance :: bool

definition HasBeConnectLine :: "execNode \<Rightarrow> bool" where
  "HasBeConnectLine en = beConnect en"

definition HasInPortExec :: "innerExecNode \<Rightarrow> bool go" where
  "HasInPortExec inner = IsInPortExec inner 0"

definition HasOutPortExec :: "innerExecNode \<Rightarrow> bool go" where
  "HasOutPortExec inner = IsOutPortExec inner 0"

definition GetInPortDefaultValue :: "execNode \<Rightarrow> int \<Rightarrow> go_any" where
  "GetInPortDefaultValue en index =
     (case inPortDefaultValue en (Itoa index) of None \<Rightarrow> ANil | Some v \<Rightarrow> v)"

fun floats_of :: "go_any list \<Rightarrow> int list" where
  "floats_of [] = []"
| "floats_of (AFloat v # vs) = int64_of_f64 v # floats_of vs"
| "floats_of (_ # vs) = floats_of vs"

text \<open>The nil slice is the empty list: the source returns nil when nothing was appended.\<close>

definition GetInPortDefaultIntArrayValue :: "execNode \<Rightarrow> int \<Rightarrow> int list go" where
  "GetInPortDefaultIntArrayValue en index =
     (case GetInPortDefaultValue en index of
        ANil \<Rightarrow> Inr []
      | AAnySlice vs \<Rightarrow> Inr (floats_of vs)
      | _ \<Rightarrow> Inl TypeAssertion)"

text \<open>Only a nil default gives the nil slice here, \<open>None\<close>.\<close>

definition GetInPortDefaultStringArrayValue :: "execNode \<Rightarrow> int \<Rightarrow> string list option go" where
  "GetInPortDefaultStringArrayValue en index =
     (case GetInPortDefaultValue en index of
        ANil \<Rightarrow> Inr None
      | AStrSlice vs \<Rightarrow> Inr (Some vs)
      | _ \<Rightarrow> Inl TypeAssertion)"

definition execNode_Next :: "execNode \<Rightarrow> string option go" where
  "execNode_Next en =
     (if nextIdx en \<ge> int (length (nextNode en)) then Inr None else slice_get (nextNode en) (nextIdx en))"

definition RangeCompare_Exec :: "execNode \<Rightarrow> innerExecNode \<Rightarrow> nd" where
  "RangeCompare_Exec en inner =
     need_in 1 ''GreaterThanInteger inParam 1 not found'' (\<lambda>inPortA.
     want (Port_GetInt inPortA) ''GreaterThanInteger inParam 1 error'' (\<lambda>ret.
     from_go (GetInPortDefaultIntArrayValue en 2) (\<lambda>intArray.
     if intArray = [] then nret 0
     else nret (switch_loop (\<lambda>v. ret \<le> v) (GetOutPortCount inner) 0 intArray))))"

definition EqualSwitch_Exec :: "execNode \<Rightarrow> innerExecNode \<Rightarrow> nd" where
  "EqualSwitch_Exec en inner =
     need_in 1 ''GreaterThanInteger inParam 1 not found'' (\<lambda>inPortA.
     want (Port_GetInt inPortA) ''GreaterThanInteger inParam 1 error'' (\<lambda>ret.
     from_go (GetInPortDefaultIntArrayValue en 2) (\<lambda>intArray.
     if intArray = [] then nret 0
     else nret (switch_loop (\<lambda>v. ret = v) (GetOutPortCount inner) 0 intArray))))"

text \<open>Appending in a loop to the port behind a pointer.\<close>

definition append_all_ints :: "int \<Rightarrow> int list \<Rightarrow> nd \<Rightarrow> nd" where
  "append_all_ints i vs k = set_out i (\<lambda>p. (True, append_ints p vs)) k"

definition append_all_strs :: "int \<Rightarrow> string list \<Rightarrow> nd \<Rightarrow> nd" where
  "append_all_strs i vs k = set_out i (\<lambda>p. (True, append_strs p vs)) k"

definition CreateIntArray_Exec :: "execNode \<Rightarrow> nd" where
  "CreateIntArray_Exec en =
     from_go (GetInPortDefaultIntArrayValue en 0) (\<lambda>intArray.
     if intArray = [] then nerr ''CreateIntArray inParam 0 not found''
     else need_out 0 ''GetArrayInt outParam 0 not found'' (
     append_all_ints 0 intArray (
     nret (-1))))"

definition CreateStringArray_Exec :: "execNode \<Rightarrow> nd" where
  "CreateStringArray_Exec en =
     from_go (GetInPortDefaultStringArrayValue en 0) (\<lambda>strArray.
     want strArray ''CreateIntArray inParam 0 not found'' (\<lambda>strs.
     need_out 0 ''GetArrayInt outParam 0 not found'' (
     append_all_strs 0 strs (
     nret (-1)))))"

definition AppendIntegerToArray_Exec :: nd where
  "AppendIntegerToArray_Exec =
     need_in 0 ''AppendIntegerToArray inParam 0 not found'' (\<lambda>inPortArray.
     need_in 1 ''AppendIntegerToArray inParam 1 not found'' (\<lambda>inPortVal.
     need_out 0 ''AppendIntegerToArray outParam 0 not found'' (
     want (Port_GetArray inPortArray) ''AppendIntegerToArray inParam 0 error'' (\<lambda>intArray.
     want (Port_GetInt inPortVal) ''AppendIntegerToArray inParam 1 error'' (\<lambda>intVal.
     append_all_ints 0 (map IntVal intArray) (
     set_out 0 (\<lambda>p. Port_AppendArrayValInt p intVal) (
     nret (-1))))))))"

definition AppendStringToArray_Exec :: nd where
  "AppendStringToArray_Exec =
     need_in 0 ''AppendStringToArray inParam 0 not found'' (\<lambda>inPortArray.
     need_in 1 ''AppendStringToArray inParam 1 not found'' (\<lambda>inPortVal.
     need_out 0 ''AppendStringToArray outParam 0 not found'' (
     want (Port_GetArray inPortArray) ''AppendStringToArray inParam 0 error'' (\<lambda>intArray.
     append_all_strs 0 (map StrVal intArray) (
     nret (-1))))))"

fun find_int :: "int \<Rightarrow> ArrayData list \<Rightarrow> bool" where
  "find_int v [] = False"
| "find_int v (a # as) = (if IntVal a = v then True else find_int v as)"

definition IntInArray_Exec :: nd where
  "IntInArray_Exec =
     get_in (\<lambda>c. GetInPortInt c 1) ''IntInArray inParam 1 not found'' (\<lambda>val.
     get_in (\<lambda>c. GetInPortArray c 2) ''IntInArray inParam 0 not found'' (\<lambda>array.
     (\<lambda>c. nret 0 (snd (SetOutPortBool c 1 (find_int val array))))))"

section \<open>Nodes keep the shape of their context\<close>

definition nd_like :: "nd \<Rightarrow> bool" where
  "nd_like f \<longleftrightarrow> (\<forall>c. ctx_like c (snd (f c)))"

lemma nd_like_basic [nd_intros]: "nd_like (nret r)" "nd_like (nerr m)" "nd_like (npanic e)"
  by (simp_all add: nd_like_def nd_defs)

lemma nd_like_need_in [nd_intros]: "(\<And>p. nd_like (k p)) \<Longrightarrow> nd_like (need_in i m k)"
  by (auto simp: nd_like_def need_in_def nerr_def split: option.split)

lemma nd_like_need_out [nd_intros]: "nd_like k \<Longrightarrow> nd_like (need_out i m k)"
  by (auto simp: nd_like_def need_out_def nerr_def split: option.split)

lemma nd_like_want [nd_intros]: "(\<And>v. nd_like (k v)) \<Longrightarrow> nd_like (want x m k)"
  by (auto simp: nd_like_def want_def nerr_def split: option.split)

lemma nd_like_get_in [nd_intros]: "(\<And>v. nd_like (k v)) \<Longrightarrow> nd_like (get_in g m k)"
  by (auto simp: nd_like_def get_in_def want_def nerr_def split: option.split)

lemma nd_like_from_go [nd_intros]: "(\<And>v. nd_like (k v)) \<Longrightarrow> nd_like (from_go x k)"
  by (auto simp: nd_like_def from_go_def npanic_def split: sum.split)

lemma nd_like_if [nd_intros]: "nd_like f \<Longrightarrow> nd_like g \<Longrightarrow> nd_like (if b then f else g)"
  by simp

lemma nd_like_set_out: "(\<And>p. same_type p (snd (f p))) \<Longrightarrow> nd_like k \<Longrightarrow> nd_like (set_out i f k)"
  unfolding nd_like_def set_out_def using upd_out_like ctx_like_trans by blast

lemma nd_like_sets [nd_intros]:
  assumes "nd_like k"
  shows "nd_like (set_out i (\<lambda>p. Port_SetInt p v) k)" "nd_like (set_out i (\<lambda>p. Port_SetStr p w) k)"
    "nd_like (set_out i (\<lambda>p. Port_AppendArrayValInt p v) k)"
    "nd_like (append_all_ints i vs k)" "nd_like (append_all_strs i ws k)"
  unfolding append_all_ints_def append_all_strs_def
  by (rule nd_like_set_out [OF _ assms],
      simp add: int_port.set_same_type str_port.set_same_type same_type_append_ints same_type_append_strs)+

lemmas exec_defs =
  AddInt_Exec_def SubInt_Exec_def MulInt_Exec_def DivInt_Exec_def ModInt_Exec_def RandNumber_Exec_def
  Entrance_ArrayParam_Exec_def Entrance_IntParam_Exec_def Entrance_Timer_Exec_def DebugOutput_Exec_def
  GetArrayInt_Exec_def GetArrayString_Exec_def GetArrayLen_Exec_def BoolIf_Exec_def
  GreaterThanInteger_Exec_def LessThanInteger_Exec_def EqualInteger_Exec_def Probability_Exec_def
  RangeCompare_Exec_def EqualSwitch_Exec_def CreateIntArray_Exec_def CreateStringArray_Exec_def
  AppendIntegerToArray_Exec_def AppendStringToArray_Exec_def

lemma IntInArray_like: "nd_like IntInArray_Exec"
  unfolding IntInArray_Exec_def
  by (intro nd_intros)
    (simp add: nd_like_def nret_def SetOutPortBool_def upd_out_like bool_port.set_same_type)

lemma exec_nodes_like:
  "nd_like AddInt_Exec" "nd_like SubInt_Exec" "nd_like MulInt_Exec" "nd_like DivInt_Exec"
  "nd_like ModInt_Exec" "nd_like (RandNumber_Exec sd d)" "nd_like Entrance_ArrayParam_Exec"
  "nd_like Entrance_IntParam_Exec" "nd_like Entrance_Timer_Exec" "nd_like DebugOutput_Exec"
  "nd_like GetArrayInt_Exec" "nd_like GetArrayString_Exec" "nd_like GetArrayLen_Exec"
  "nd_like BoolIf_Exec" "nd_like GreaterThanInteger_Exec" "nd_like LessThanInteger_Exec"
  "nd_like EqualInteger_Exec" "nd_like (Probability_Exec d)" "nd_like (RangeCompare_Exec en inn)"
  "nd_like (EqualSwitch_Exec en inn)" "nd_like (CreateIntArray_Exec en)"
  "nd_like (CreateStringArray_Exec en)" "nd_like AppendIntegerToArray_Exec"
  "nd_like AppendStringToArray_Exec"
  unfolding exec_defs Let_def by (intro nd_intros)+

section \<open>What the nodes compute\<close>

text \<open>The context a two-operand integer node expects, and the value it leaves in its output port.\<close>

definition int_operands :: "ExecContext \<Rightarrow> int \<Rightarrow> int \<Rightarrow> bool" where
  "int_operands c a b \<longleftrightarrow> GetInPort c 0 = Some (Port_Int a) \<and> GetInPort c 1 = Some (Port_Int b) \<and>
     (\<exists>r. GetOutPort c 0 = Some (Port_Int r))"

lemma upd_out_int:
  "GetOutPort c 0 = Some (Port_Int r) \<Longrightarrow>
   snd (upd_out (\<lambda>p. Port_SetInt p v) c 0) = put_out c 0 (Port_Int v)"
  by (simp add: upd_out_def)

lemma AddInt_computes:
  "int_operands c a b \<Longrightarrow> AddInt_Exec c = (ROk (-1), put_out c 0 (Port_Int (wrap64 (a + b))))"
  by (auto simp: int_operands_def AddInt_Exec_def nd_defs upd_out_int)

lemma SubInt_computes:
  "int_operands c a b \<Longrightarrow> GetInPort c 2 = Some (Port_Bool isAbs) \<Longrightarrow>
   SubInt_Exec c = (ROk (-1), put_out c 0 (Port_Int
     (if isAbs then wrap64 \<bar>wrap64 (a - b)\<bar> else wrap64 (a - b))))"
  by (auto simp: int_operands_def SubInt_Exec_def nd_defs upd_out_int Let_def abs_if)

lemma MulInt_computes:
  "int_operands c a b \<Longrightarrow> MulInt_Exec c = (ROk (-1), put_out c 0 (Port_Int (wrap64 (a * b))))"
  by (auto simp: int_operands_def MulInt_Exec_def nd_defs upd_out_int)

lemma DivInt_computes:
  "int_operands c a b \<Longrightarrow> GetInPort c 2 = Some (Port_Bool isRound) \<Longrightarrow>
   DivInt_Exec c = (if b = 0 then (RErr (NodeError ''div zero error''), c)
     else (ROk (-1), put_out c 0 (Port_Int
       (if isRound then wrap64 (go_div (wrap64 (a + go_div b 2)) b) else wrap64 (go_div a b)))))"
  by (auto simp: int_operands_def DivInt_Exec_def nd_defs upd_out_int)

lemma ModInt_computes:
  "int_operands c a b \<Longrightarrow>
   ModInt_Exec c = (if b = 0 then (RErr (NodeError ''mod zero error''), c)
     else (ROk (-1), put_out c 0 (Port_Int (go_rem a b))))"
  by (auto simp: int_operands_def ModInt_Exec_def nd_defs upd_out_int)

text \<open>The switch nodes return the branch of the first entry that passes, if there is a port for it,
  and branch 0 otherwise.\<close>

lemma switch_loop_spec:
  "switch_loop test outCount i vs =
     (case find (\<lambda>k. test (vs ! k)) [0..<length vs] of
        None \<Rightarrow> 0
      | Some k \<Rightarrow> if i + int k < outCount - 2 then i + int k + 2 else 0)"
proof (induction vs arbitrary: i)
  case Nil
  then show ?case by simp
next
  case (Cons v vs)
  have up: "[0..<length (v # vs)] = 0 # map Suc [0..<length vs]"
    by (simp add: upt_conv_Cons map_Suc_upt del: upt_Suc)
  have f: "find (\<lambda>k. test ((v # vs) ! k)) (map Suc ks) = map_option Suc (find (\<lambda>k. test (vs ! k)) ks)"
    for ks by (induction ks) auto
  show ?case
    unfolding up using Cons.IH [of "i + 1"]
    by (auto simp: f split: option.splits)
qed

lemma find_int_iff: "find_int v as \<longleftrightarrow> v \<in> IntVal ` set as"
  by (induction as) auto

text \<open>\<^verbatim>\<open>AppendStringToArray\<close> copies the strings of its input array and stops there: the value in its
  second input port does not matter.\<close>

lemma AppendStringToArray_computes:
  assumes "GetInPort c 0 = Some (Port_Array xs)" "GetInPort c 1 = Some v"
    "GetOutPort c 0 = Some (Port_Array [])"
  shows "AppendStringToArray_Exec c =
    (ROk (-1), put_out c 0 (Port_Array (map (\<lambda>x. \<lparr>IntVal = 0, StrVal = StrVal x\<rparr>) xs)))"
  using assms
  by (simp add: AppendStringToArray_Exec_def nd_defs append_all_strs_def upd_out_def append_strs_array comp_def)

lemma AppendIntegerToArray_computes:
  assumes "GetInPort c 0 = Some (Port_Array xs)" "GetInPort c 1 = Some (Port_Int v)"
    "GetOutPort c 0 = Some (Port_Array [])"
  shows "AppendIntegerToArray_Exec c =
    (ROk (-1), put_out c 0 (Port_Array (map (\<lambda>i. \<lparr>IntVal = i, StrVal = []\<rparr>) (map IntVal xs @ [v]))))"
  using assms
  by (simp add: AppendIntegerToArray_Exec_def nd_defs append_all_ints_def upd_out_def append_ints_array
      GetOutPort_put_out comp_def) (simp add: put_out_def)

end
