(* ===== verification/GraphExec.thy ===== *)
theory GraphExec
  imports NodeExec
begin

text \<open>
  Execution of a graph (\<^verbatim>\<open>src/util/blueprint/node.go\<close>, \<^verbatim>\<open>graph.go\<close>, \<^verbatim>\<open>variables.go\<close> and the nodes of
  \<^verbatim>\<open>sysnodes.go\<close> that run other nodes or touch the graph).
  \<^item> \<open>gstate\<close> is the \<^verbatim>\<open>Graph\<close> struct extended by what execution shares: \<open>ctxs\<close>, the store of
    \<^verbatim>\<open>ExecContext\<close> objects, which \<open>gr_context\<close> and the nodes refer to by address, because a node that is
    entered again gets a new context while the outer activation still holds the old one; \<open>bound\<close>,
    for every node class the context and node its one registered instance points to
    (\<^verbatim>\<open>BaseExecNode.ExecContext\<close> and \<^verbatim>\<open>execNode\<close>); the position in the stream of random draws; and
    the calls made to the timer module and the logger.
  \<^item> An operation is an \<open>act\<close>: it returns, fails or panics with the state it leaves, or gives \<open>None\<close>
    when the fuel is used up. Fuel counts nested \<^verbatim>\<open>Do\<close> calls only; loops inside a node recurse on
    their bounds. \<open>execNode_Do\<close> is the interpreter; its parts take the recursive call as \<open>rec\<close>.
  \<^item> \<open>env\<close> holds the exec pool (class name to class) and the parameters: \<^verbatim>\<open>ParseFloat\<close>, the random
    sources and the ids the timer module hands out.
\<close>

section \<open>State\<close>

record Graph =
  graphFileName :: string
  graphID :: int
  entrance :: "int \<rightharpoonup> ((string \<rightharpoonup> execNode) \<times> string)"
  gr_context :: "string \<rightharpoonup> nat"
  variables :: "string \<rightharpoonup> port"
  globalVariables :: "(string \<rightharpoonup> port option) option"
  mapTimerID :: "int set option"
  logger :: bool

datatype event =
    EvSafeAfterFunc int int int "ArrayData list"
  | EvCancelTimerId int int
  | LogNodeExec string string "port option list" "port option list" "int ores"

record gstate = Graph +
  ctxs :: "ExecContext list"
  bound :: "string \<rightharpoonup> (nat \<times> string)"
  draws :: nat
  timerCount :: nat
  events :: "event list"

record env =
  execs :: "string \<rightharpoonup> innerExecNode"
  parseFloat :: "string \<Rightarrow> f64 option"
  seeded :: "int \<Rightarrow> int \<Rightarrow> int"
  draw :: "nat \<Rightarrow> int"
  timerIds :: "nat \<Rightarrow> int"

type_synonym nodetab = "string \<rightharpoonup> execNode"
type_synonym 'a act = "gstate \<Rightarrow> ('a ores \<times> gstate) option"

definition aret :: "'a \<Rightarrow> 'a act" where
  "aret x = (\<lambda>s. Some (ROk x, s))"

definition aerr :: "bp_error \<Rightarrow> 'a act" where
  "aerr e = (\<lambda>s. Some (RErr e, s))"

definition apanic :: "go_panic \<Rightarrow> 'a act" where
  "apanic p = (\<lambda>s. Some (RPanic p, s))"

definition abind :: "'a act \<Rightarrow> ('a \<Rightarrow> 'b act) \<Rightarrow> 'b act" where
  "abind m k = (\<lambda>s. case m s of
       None \<Rightarrow> None
     | Some (ROk x, s') \<Rightarrow> k x s'
     | Some (RErr e, s') \<Rightarrow> Some (RErr e, s')
     | Some (RPanic p, s') \<Rightarrow> Some (RPanic p, s'))"

definition aget :: "(gstate \<Rightarrow> 'a) \<Rightarrow> ('a \<Rightarrow> 'b act) \<Rightarrow> 'b act" where
  "aget f k = (\<lambda>s. k (f s) s)"

definition aput :: "(gstate \<Rightarrow> gstate) \<Rightarrow> unit act" where
  "aput f = (\<lambda>s. Some (ROk (), f s))"

definition ago :: "'a go \<Rightarrow> 'a act" where
  "ago m = (case m of Inl p \<Rightarrow> apanic p | Inr x \<Rightarrow> aret x)"

definition anil :: "'a option \<Rightarrow> ('a \<Rightarrow> 'b act) \<Rightarrow> 'b act" where
  "anil x k = (case x of None \<Rightarrow> apanic NilDereference | Some v \<Rightarrow> k v)"

definition awant :: "'a option \<Rightarrow> bp_error \<Rightarrow> ('a \<Rightarrow> 'b act) \<Rightarrow> 'b act" where
  "awant x e k = (case x of None \<Rightarrow> aerr e | Some v \<Rightarrow> k v)"

lemmas act_defs = aret_def aerr_def apanic_def abind_def aget_def aput_def ago_def anil_def awant_def

definition upd_ctx :: "nat \<Rightarrow> (ExecContext \<Rightarrow> ExecContext) \<Rightarrow> gstate \<Rightarrow> gstate" where
  "upd_ctx a f s = s\<lparr>ctxs := (ctxs s)[a := f (ctxs s ! a)]\<rparr>"

text \<open>\<^verbatim>\<open>em.ExecContext\<close> and \<^verbatim>\<open>em.execNode\<close> of the instance registered for a class.\<close>

definition with_bound :: "string \<Rightarrow> (nat \<Rightarrow> string \<Rightarrow> 'a act) \<Rightarrow> 'a act" where
  "with_bound cls k = aget (\<lambda>s. bound s cls) (\<lambda>b. anil b (\<lambda>(a, nid). k a nid))"

definition with_ctx :: "string \<Rightarrow> (nat \<Rightarrow> ExecContext \<Rightarrow> 'a act) \<Rightarrow> 'a act" where
  "with_ctx cls k = with_bound cls (\<lambda>a nid. aget (\<lambda>s. ctxs s ! a) (\<lambda>c. k a c))"

definition with_node :: "nodetab \<Rightarrow> string \<Rightarrow> (execNode \<Rightarrow> 'a act) \<Rightarrow> 'a act" where
  "with_node tab cls k = with_bound cls (\<lambda>a nid. anil (tab nid) k)"

text \<open>A node that only touches its own ports.\<close>

definition run_nd :: "string \<Rightarrow> nd \<Rightarrow> int act" where
  "run_nd cls f = with_ctx cls (\<lambda>a c s. Some (fst (f c), upd_ctx a (\<lambda>_. snd (f c)) s))"

section \<open>Nodes that run other nodes\<close>

definition DoNext :: "nodetab \<Rightarrow> (string \<Rightarrow> unit act) \<Rightarrow> string \<Rightarrow> int \<Rightarrow> unit act" where
  "DoNext tab rec cls index =
     (if index = -1 then aret ()
      else with_node tab cls (\<lambda>en.
        if index < 0 \<or> index \<ge> int (length (nextNode en)) then aerr (NextIndexNotFound index)
        else case nextNode en ! nat index of None \<Rightarrow> aret () | Some nid \<Rightarrow> rec nid))"

definition GetNextExecLen :: "execNode \<Rightarrow> int" where
  "GetNextExecLen en = int (length (nextNode en))"

fun sequence_loop :: "(int \<Rightarrow> unit act) \<Rightarrow> int \<Rightarrow> port option list \<Rightarrow> int act" where
  "sequence_loop doNext i [] = aret (-1)"
| "sequence_loop doNext i (p # ps) =
     anil p (\<lambda>q. if \<not> Port_IsPortExec q then aret (-1)
                 else abind (doNext i) (\<lambda>_. sequence_loop doNext (i + 1) ps))"

definition Sequence_Exec :: "nodetab \<Rightarrow> (string \<Rightarrow> unit act) \<Rightarrow> innerExecNode \<Rightarrow> string \<Rightarrow> int act" where
  "Sequence_Exec tab rec inner cls = sequence_loop (DoNext tab rec cls) 0 (outPort inner)"

text \<open>\<^verbatim>\<open>em.ExecContext.OutputPorts[i].SetInt(v)\<close> and \<^verbatim>\<open>em.ExecContext.InputPorts[i].GetInt()\<close>.\<close>

definition out_SetInt :: "string \<Rightarrow> int \<Rightarrow> int \<Rightarrow> unit act" where
  "out_SetInt cls i v = with_ctx cls (\<lambda>a c.
     abind (ago (slice_get (OutputPorts c) i)) (\<lambda>p. anil p (\<lambda>q.
     aput (upd_ctx a (\<lambda>c. put_out c i (snd (Port_SetInt q v)))))))"

definition in_GetInt :: "string \<Rightarrow> int \<Rightarrow> (int option \<Rightarrow> 'a act) \<Rightarrow> 'a act" where
  "in_GetInt cls i k = with_ctx cls (\<lambda>a c.
     abind (ago (slice_get (InputPorts c) i)) (\<lambda>p. anil p (\<lambda>q. k (Port_GetInt q))))"

fun foreach_array_loop :: "(int \<Rightarrow> ArrayData \<Rightarrow> unit act) \<Rightarrow> int \<Rightarrow> ArrayData list \<Rightarrow> unit act" where
  "foreach_array_loop body i [] = aret ()"
| "foreach_array_loop body i (x # xs) = abind (body i x) (\<lambda>_. foreach_array_loop body (i + 1) xs)"

definition ForeachIntArray_Exec :: "nodetab \<Rightarrow> (string \<Rightarrow> unit act) \<Rightarrow> string \<Rightarrow> int act" where
  "ForeachIntArray_Exec tab rec cls =
     with_ctx cls (\<lambda>a c.
     awant (GetInPortArray c 1) (NodeError ''ForeachIntArray Exec inParam 1 not found'') (\<lambda>array.
     abind (foreach_array_loop (\<lambda>i x.
              abind (out_SetInt cls 2 i) (\<lambda>_.
              abind (out_SetInt cls 3 (IntVal x)) (\<lambda>_.
              DoNext tab rec cls 0))) 0 array) (\<lambda>_.
     abind (DoNext tab rec cls 1) (\<lambda>_.
     aret (-1)))))"

function foreach_loop :: "(int \<Rightarrow> unit act) \<Rightarrow> int \<Rightarrow> int \<Rightarrow> unit act" where
  "foreach_loop body i endIndex =
     (if i < endIndex then abind (body i) (\<lambda>_. foreach_loop body (i + 1) endIndex) else aret ())"
  by auto
termination by (relation "measure (\<lambda>(body, i, e). nat (e - i))") auto

declare foreach_loop.simps [simp del]

definition Foreach_Exec :: "nodetab \<Rightarrow> (string \<Rightarrow> unit act) \<Rightarrow> string \<Rightarrow> int act" where
  "Foreach_Exec tab rec cls =
     in_GetInt cls 1 (\<lambda>st. awant st (NodeError ''foreach Exec inParam not found'') (\<lambda>startIndex.
     in_GetInt cls 2 (\<lambda>en. awant en (NodeError ''foreach Exec inParam not found'') (\<lambda>endIndex.
     abind (foreach_loop (\<lambda>i.
              abind (out_SetInt cls 2 i) (\<lambda>_.
              DoNext tab rec cls 0)) startIndex endIndex) (\<lambda>_.
     abind (DoNext tab rec cls 1) (\<lambda>_.
     aret (-1)))))))"

section \<open>Nodes that touch the graph\<close>

definition globalVariablesPrefix :: string where
  "globalVariablesPrefix = ''g_''"

definition HasPrefix :: "string \<Rightarrow> string \<Rightarrow> bool" where
  "HasPrefix s p = (take (length p) s = p)"

definition ReturnVarial :: string where
  "ReturnVarial = ''g_Return''"

text \<open>Reading a map of ports: absent and nil are the same, as is a nil map.\<close>

definition map_read :: "(string \<rightharpoonup> port option) option \<Rightarrow> string \<Rightarrow> port option" where
  "map_read m k = (case m of None \<Rightarrow> None | Some f \<Rightarrow> (case f k of None \<Rightarrow> None | Some p \<Rightarrow> p))"

definition global_write :: "string \<Rightarrow> port \<Rightarrow> unit act" where
  "global_write k p = aget globalVariables (\<lambda>m. case m of
       None \<Rightarrow> apanic NilMapWrite
     | Some f \<Rightarrow> aput (globalVariables_update (\<lambda>_. Some (f(k \<mapsto> Some p)))))"

definition set_out_port :: "string \<Rightarrow> int \<Rightarrow> port \<Rightarrow> bool act" where
  "set_out_port cls i v = with_ctx cls (\<lambda>a c.
     abind (ago (SetOutPort c i v)) (\<lambda>(ok, c'). abind (aput (upd_ctx a (\<lambda>_. c'))) (\<lambda>_. aret ok)))"

definition GetVariablesNode_Exec :: "nodetab \<Rightarrow> string \<Rightarrow> int act" where
  "GetVariablesNode_Exec tab cls =
     with_node tab cls (\<lambda>en.
     aget (\<lambda>s. if HasPrefix (variableName en) globalVariablesPrefix
               then map_read (globalVariables s) (variableName en)
               else variables s (variableName en)) (\<lambda>p.
     awant p (NodeError ''variable not found'') (\<lambda>v.
     abind (set_out_port cls 0 v) (\<lambda>ok.
     if \<not> ok then aerr (NodeError ''set out port failed'') else aret 0))))"

definition SetVariablesNode_Exec :: "nodetab \<Rightarrow> string \<Rightarrow> int act" where
  "SetVariablesNode_Exec tab cls =
     with_ctx cls (\<lambda>a c.
     awant (GetInPort c 1) (NodeError ''get in port failed'') (\<lambda>p.
     with_node tab cls (\<lambda>en.
     abind (if HasPrefix (variableName en) globalVariablesPrefix
            then global_write (variableName en) (Port_Clone p)
            else aput (variables_update (\<lambda>f. f(variableName en \<mapsto> Port_Clone p)))) (\<lambda>_.
     abind (set_out_port cls 1 (Port_Clone p)) (\<lambda>ok.
     if \<not> ok then aerr (NodeError ''set out port failed'') else aret 0)))))"

definition GetAndCreateReturnPort :: "port act" where
  "GetAndCreateReturnPort = aget globalVariables (\<lambda>m.
     case map_read m ReturnVarial of
       Some p \<Rightarrow> aret p
     | None \<Rightarrow> abind (global_write ReturnVarial NewPortArray) (\<lambda>_. aret NewPortArray))"

definition AppendIntReturn_Exec :: "string \<Rightarrow> int act" where
  "AppendIntReturn_Exec cls =
     with_ctx cls (\<lambda>a c.
     awant (GetInPortInt c 1) (NodeError ''AppendIntReturn inParam 1 error'') (\<lambda>val.
     abind GetAndCreateReturnPort (\<lambda>p.
     abind (global_write ReturnVarial (snd (Port_AppendArrayValInt p val))) (\<lambda>_.
     aret 0))))"

definition AppendStringReturn_Exec :: "string \<Rightarrow> int act" where
  "AppendStringReturn_Exec cls =
     with_ctx cls (\<lambda>a c.
     awant (GetInPortStr c 1) (NodeError ''AppendStringReturn inParam 1 error'') (\<lambda>val.
     abind GetAndCreateReturnPort (\<lambda>p.
     abind (global_write ReturnVarial (snd (Port_AppendArrayValStr p val))) (\<lambda>_.
     aret 0))))"

text \<open>The timer module gives the new timer an id before \<^verbatim>\<open>SafeAfterFunc\<close> returns.\<close>

definition CreateTimer_Exec :: "env \<Rightarrow> string \<Rightarrow> int act" where
  "CreateTimer_Exec E cls =
     with_ctx cls (\<lambda>a c.
     awant (GetInPortInt c 0) (NodeError ''CreateTimer inParam 0 error'') (\<lambda>delay.
     awant (GetInPortArray c 1) (NodeError ''CreateTimer inParam 1 error'') (\<lambda>array.
     aget (\<lambda>s. timerIds E (timerCount s)) (\<lambda>timerId.
     abind (aput (\<lambda>s. s\<lparr>timerCount := Suc (timerCount s),
       events := events s @ [EvSafeAfterFunc timerId (wrap64 (delay * 1000000)) (graphID s) array]\<rparr>)) (\<lambda>_.
     abind (aget mapTimerID (\<lambda>m. case m of
              None \<Rightarrow> apanic NilMapWrite
            | Some T \<Rightarrow> aput (mapTimerID_update (\<lambda>_. Some (insert timerId T))))) (\<lambda>_.
     awant (GetOutPort c 1) (NodeError ''CreateTimer outParam 1 not found'') (\<lambda>p.
     abind (aput (upd_ctx a (\<lambda>c. put_out c 1 (snd (Port_SetInt p (wrap64 timerId)))))) (\<lambda>_.
     aret 0))))))))"

definition CloseTimer_Exec :: "string \<Rightarrow> int act" where
  "CloseTimer_Exec cls =
     with_ctx cls (\<lambda>a c.
     awant (GetInPortInt c 1) (NodeError ''CreateTimer inParam 1 error'') (\<lambda>timerID.
     abind (aput (\<lambda>s. s\<lparr>events := events s @ [EvCancelTimerId (graphID s) (take_bit 64 timerID)]\<rparr>)) (\<lambda>_.
     aret 0)))"

section \<open>The interpreter\<close>

text \<open>\<^verbatim>\<open>Exec\<close> of the implementation registered for a class.\<close>

fun Exec :: "env \<Rightarrow> nodetab \<Rightarrow> (string \<Rightarrow> unit act) \<Rightarrow> innerExecNode \<Rightarrow> string \<Rightarrow> exec_kind \<Rightarrow> int act" where
  "Exec E tab rec inner cls Entrance_ArrayParam = run_nd cls Entrance_ArrayParam_Exec"
| "Exec E tab rec inner cls Entrance_IntParam = run_nd cls Entrance_IntParam_Exec"
| "Exec E tab rec inner cls Entrance_Timer = run_nd cls Entrance_Timer_Exec"
| "Exec E tab rec inner cls DebugOutput = run_nd cls DebugOutput_Exec"
| "Exec E tab rec inner cls Sequence = Sequence_Exec tab rec inner cls"
| "Exec E tab rec inner cls ForeachIntArray = ForeachIntArray_Exec tab rec cls"
| "Exec E tab rec inner cls Foreach = Foreach_Exec tab rec cls"
| "Exec E tab rec inner cls GetArrayInt = run_nd cls GetArrayInt_Exec"
| "Exec E tab rec inner cls GetArrayString = run_nd cls GetArrayString_Exec"
| "Exec E tab rec inner cls GetArrayLen = run_nd cls GetArrayLen_Exec"
| "Exec E tab rec inner cls BoolIf = run_nd cls BoolIf_Exec"
| "Exec E tab rec inner cls GreaterThanInteger = run_nd cls GreaterThanInteger_Exec"
| "Exec E tab rec inner cls LessThanInteger = run_nd cls LessThanInteger_Exec"
| "Exec E tab rec inner cls EqualInteger = run_nd cls EqualInteger_Exec"
| "Exec E tab rec inner cls RangeCompare = with_node tab cls (\<lambda>en. run_nd cls (RangeCompare_Exec en inner))"
| "Exec E tab rec inner cls EqualSwitch = with_node tab cls (\<lambda>en. run_nd cls (EqualSwitch_Exec en inner))"
| "Exec E tab rec inner cls Probability =
     aget (\<lambda>s. draw E (draws s)) (\<lambda>d. abind (aput (draws_update Suc)) (\<lambda>_. run_nd cls (Probability_Exec d)))"
| "Exec E tab rec inner cls CreateIntArray = with_node tab cls (\<lambda>en. run_nd cls (CreateIntArray_Exec en))"
| "Exec E tab rec inner cls CreateStringArray = with_node tab cls (\<lambda>en. run_nd cls (CreateStringArray_Exec en))"
| "Exec E tab rec inner cls AppendIntegerToArray = run_nd cls AppendIntegerToArray_Exec"
| "Exec E tab rec inner cls AppendStringToArray = run_nd cls AppendStringToArray_Exec"
| "Exec E tab rec inner cls CreateTimer = CreateTimer_Exec E cls"
| "Exec E tab rec inner cls CloseTimer = CloseTimer_Exec cls"
| "Exec E tab rec inner cls AppendIntReturn = AppendIntReturn_Exec cls"
| "Exec E tab rec inner cls AppendStringReturn = AppendStringReturn_Exec cls"
| "Exec E tab rec inner cls IntInArray = run_nd cls IntInArray_Exec"
| "Exec E tab rec inner cls AddInt = run_nd cls AddInt_Exec"
| "Exec E tab rec inner cls SubInt = run_nd cls SubInt_Exec"
| "Exec E tab rec inner cls MulInt = run_nd cls MulInt_Exec"
| "Exec E tab rec inner cls DivInt = run_nd cls DivInt_Exec"
| "Exec E tab rec inner cls ModInt = run_nd cls ModInt_Exec"
| "Exec E tab rec inner cls RandNumber =
     aget (\<lambda>s. draw E (draws s)) (\<lambda>d. abind (aput (draws_update Suc)) (\<lambda>_.
       run_nd cls (RandNumber_Exec (seeded E) d)))"
| "Exec E tab rec inner cls (GetVariablesNode nm) = GetVariablesNode_Exec tab cls"
| "Exec E tab rec inner cls (SetVariablesNode nm) = SetVariablesNode_Exec tab cls"

definition getExecNodeInfo :: "string \<Rightarrow> gstate \<Rightarrow> (nat \<times> string) option" where
  "getExecNodeInfo cls s = bound s cls"

definition setExecNodeInfo :: "string \<Rightarrow> (nat \<times> string) option \<Rightarrow> gstate \<Rightarrow> gstate" where
  "setExecNodeInfo cls b s = s\<lparr>bound := (bound s)(cls := b)\<rparr>"

definition initExecNode :: "string \<Rightarrow> execNode \<Rightarrow> unit act" where
  "initExecNode cls node = aget (\<lambda>s. gr_context s (en_Id node)) (\<lambda>ctx.
     awant ctx (NodeNotFound (en_Id node)) (\<lambda>a. aput (setExecNodeInfo cls (Some (a, en_Id node)))))"

text \<open>The deferred call runs on every way out, after an error or a panic too.\<close>

definition deferred :: "(gstate \<Rightarrow> gstate) \<Rightarrow> 'a act \<Rightarrow> 'a act" where
  "deferred f m = (\<lambda>s. case m s of None \<Rightarrow> None | Some (r, s') \<Rightarrow> Some (r, f s'))"

definition execNode_exec :: "env \<Rightarrow> nodetab \<Rightarrow> (string \<Rightarrow> unit act) \<Rightarrow> execNode \<Rightarrow> int act" where
  "execNode_exec E tab rec en =
     (let cls = en_execNode en
      in anil (execs E cls) (\<lambda>inner. anil (IExecNode inner) (\<lambda>e.
         aget (getExecNodeInfo cls) (\<lambda>b.
         deferred (setExecNodeInfo cls b) (
         abind (initExecNode cls en) (\<lambda>_. Exec E tab rec inner cls e))))))"

definition GetNodeInPortValue :: "gstate \<Rightarrow> string \<Rightarrow> int \<Rightarrow> port option" where
  "GetNodeInPortValue gr nodeID inPortIndex =
     (case gr_context gr nodeID of
        Some a \<Rightarrow> (let ctx = ctxs gr ! a
                   in if inPortIndex \<ge> int (length (InputPorts ctx)) \<or> inPortIndex < 0 then None
                      else InputPorts ctx ! nat inPortIndex)
      | None \<Rightarrow> None)"

definition GetNodeOutPortValue :: "gstate \<Rightarrow> string \<Rightarrow> int \<Rightarrow> port option" where
  "GetNodeOutPortValue gr nodeID outPortIndex =
     (case gr_context gr nodeID of
        Some a \<Rightarrow> (let ctx = ctxs gr ! a
                   in if outPortIndex \<ge> int (length (OutputPorts ctx)) \<or> outPortIndex < 0 then None
                      else OutputPorts ctx ! nat outPortIndex)
      | None \<Rightarrow> None)"

text \<open>\<^verbatim>\<open>inPort.setAnyVale(v)\<close> and \<^verbatim>\<open>inPort.SetValue(v)\<close> on port \<open>index\<close> of the context at address \<open>a\<close>.\<close>

definition in_setAnyVale :: "env \<Rightarrow> nat \<Rightarrow> int \<Rightarrow> go_any \<Rightarrow> unit act" where
  "in_setAnyVale E a index v = aget (\<lambda>s. GetInPort (ctxs s ! a) index) (\<lambda>p. anil p (\<lambda>q.
     case setAnyVale (parseFloat E) q v of
       (Some e, _) \<Rightarrow> aerr e
     | (None, q') \<Rightarrow> aput (upd_ctx a (\<lambda>c. put_in c index q'))))"

definition in_SetValue :: "nat \<Rightarrow> int \<Rightarrow> port \<Rightarrow> unit act" where
  "in_SetValue a index v = aget (\<lambda>s. GetInPort (ctxs s ! a) index) (\<lambda>p. anil p (\<lambda>q.
     aput (upd_ctx a (\<lambda>c. put_in c index (snd (Port_SetValue q v))))))"

definition doSetInPort :: "env \<Rightarrow> nodetab \<Rightarrow> (string \<Rightarrow> unit act) \<Rightarrow> execNode \<Rightarrow> nat \<Rightarrow> int \<Rightarrow> unit act" where
  "doSetInPort E tab rec en a index =
     abind (ago (slice_get (preInPort en) index)) (\<lambda>preNode.
     case preNode of
       None \<Rightarrow> in_setAnyVale E a index (GetInPortDefaultValue en index)
     | Some (preId, outPortId) \<Rightarrow>
         anil (tab preId) (\<lambda>pre.
         aget (\<lambda>s. gr_context s preId) (\<lambda>ctx.
         abind (if ctx = None \<or> (\<not> HasBeConnectLine pre \<and> \<not> isEntrance pre) then rec preId else aret ()) (\<lambda>_.
         aget (\<lambda>s. gr_context s preId) (\<lambda>ctx'.
         if ctx' \<noteq> None
         then aget (\<lambda>s. GetNodeOutPortValue s preId outPortId) (\<lambda>outPort.
              awant outPort (OutPortNotFound preId outPortId) (\<lambda>v.
              in_SetValue a index v))
         else aerr (PreNodeNotExec preId))))))"

text \<open>The arguments of an entrance become its output ports, from \<^verbatim>\<open>GetOutPortParamStartIndex\<close> on.\<close>

fun set_args :: "env \<Rightarrow> nat \<Rightarrow> int \<Rightarrow> int \<Rightarrow> go_any list \<Rightarrow> unit act" where
  "set_args E a startOutIdx i [] = aret ()"
| "set_args E a startOutIdx i (v # vs) =
     aget (\<lambda>s. OutputPorts (ctxs s ! a)) (\<lambda>outPorts.
     if i + startOutIdx \<ge> int (length outPorts) then aerr (ArgsNotFound i)
     else abind (ago (slice_get outPorts (i + startOutIdx))) (\<lambda>p. anil p (\<lambda>q.
       case setAnyVale (parseFloat E) q v of
         (Some e, _) \<Rightarrow> aerr (ArgsSetValue i e)
       | (None, q') \<Rightarrow>
           abind (aput (upd_ctx a (\<lambda>c. put_out c (i + startOutIdx) q'))) (\<lambda>_.
           set_args E a startOutIdx (i + 1) vs))))"

text \<open>The loop over the input ports: execution ports are skipped.\<close>

fun in_ports_loop :: "(int \<Rightarrow> bool go) \<Rightarrow> (int \<Rightarrow> unit act) \<Rightarrow> nat \<Rightarrow> int \<Rightarrow> unit act" where
  "in_ports_loop isExec setPort 0 i = aret ()"
| "in_ports_loop isExec setPort (Suc n) i =
     abind (ago (isExec i)) (\<lambda>ex.
     abind (if ex then aret () else setPort i) (\<lambda>_.
     in_ports_loop isExec setPort n (i + 1)))"

definition log_exec :: "string \<Rightarrow> string \<Rightarrow> nat \<Rightarrow> int ores \<Rightarrow> gstate \<Rightarrow> gstate" where
  "log_exec name nid a r s =
     (if logger s
      then s\<lparr>events := events s @
             [LogNodeExec name nid (InputPorts (ctxs s ! a)) (OutputPorts (ctxs s ! a)) r]\<rparr>
      else s)"

text \<open>Running the node and logging its outcome; a panic passes the logger by.\<close>

definition exec_and_log :: "env \<Rightarrow> nodetab \<Rightarrow> (string \<Rightarrow> unit act) \<Rightarrow> execNode \<Rightarrow> innerExecNode \<Rightarrow> nat \<Rightarrow> int act" where
  "exec_and_log E tab rec en inner a = (\<lambda>s.
     case execNode_exec E tab rec en s of
       None \<Rightarrow> None
     | Some (RPanic p, s') \<Rightarrow> Some (RPanic p, s')
     | Some (r, s') \<Rightarrow> Some (r, log_exec (innerExecNode_GetName inner) (en_Id en) a r s'))"

definition new_context :: "innerExecNode \<Rightarrow> string \<Rightarrow> gstate \<Rightarrow> gstate" where
  "new_context inner nid s =
     (let (inPorts, outPorts) = CloneInOutPort inner
      in s\<lparr>ctxs := ctxs s @ [\<lparr>InputPorts = inPorts, OutputPorts = outPorts\<rparr>],
           gr_context := (gr_context s)(nid \<mapsto> length (ctxs s))\<rparr>)"

definition follow_next :: "(string \<Rightarrow> unit act) \<Rightarrow> execNode \<Rightarrow> int \<Rightarrow> unit act" where
  "follow_next rec en nextIndex =
     (if nextIndex = -1 \<or> nextNode en = [] then aret ()
      else if nextIndex < 0 \<or> nextIndex \<ge> int (length (nextNode en)) then aerr (NextIndexNotFound nextIndex)
      else case nextNode en ! nat nextIndex of None \<Rightarrow> aret () | Some nid \<Rightarrow> rec nid)"

definition Do_body :: "env \<Rightarrow> nodetab \<Rightarrow> (string \<Rightarrow> unit act) \<Rightarrow> string \<Rightarrow> go_any list \<Rightarrow> unit act" where
  "Do_body E tab rec nid outPortArgs =
     anil (tab nid) (\<lambda>en. anil (execs E (en_execNode en)) (\<lambda>inner.
     aget (\<lambda>s. length (ctxs s)) (\<lambda>a.
     abind (aput (new_context inner (en_Id en))) (\<lambda>_.
     abind (set_args E a (GetOutPortParamStartIndex inner) 0 outPortArgs) (\<lambda>_.
     abind (in_ports_loop (IsInPortExec inner) (doSetInPort E tab rec en a) (length (inPort inner)) 0) (\<lambda>_.
     abind (exec_and_log E tab rec en inner a) (\<lambda>nextIndex.
     follow_next rec en nextIndex)))))))"

primrec execNode_Do :: "env \<Rightarrow> nodetab \<Rightarrow> nat \<Rightarrow> string \<Rightarrow> go_any list \<Rightarrow> unit act" where
  "execNode_Do E tab 0 = (\<lambda>nid args s. None)"
| "execNode_Do E tab (Suc n) = (\<lambda>nid args. Do_body E tab (\<lambda>nid'. execNode_Do E tab n nid' []) nid args)"

section \<open>The graph\<close>

definition clonePortMap :: "(string \<rightharpoonup> port option) option \<Rightarrow> (string \<rightharpoonup> port option) option" where
  "clonePortMap source =
     (case source of None \<Rightarrow> None
      | Some f \<Rightarrow> Some (\<lambda>k. case f k of None \<Rightarrow> None
                          | Some None \<Rightarrow> Some None
                          | Some (Some p) \<Rightarrow> Some (Some (Port_Clone p))))"

type_synonym do_result = "ArrayData list option \<times> bp_error option"

definition graph_start :: "gstate \<Rightarrow> gstate" where
  "graph_start gr = gr\<lparr>variables := Map.empty, gr_context := Map.empty,
     globalVariables := Some ((case clonePortMap (globalVariables gr) of None \<Rightarrow> Map.empty | Some f \<Rightarrow> f)
       (ReturnVarial \<mapsto> None))\<rparr>"

definition return_value :: "gstate \<Rightarrow> ArrayData list option" where
  "return_value gr = (case map_read (globalVariables gr) ReturnVarial of
       None \<Rightarrow> None | Some p \<Rightarrow> Port_GetArray p)"

definition Graph_Do :: "env \<Rightarrow> nat \<Rightarrow> int \<Rightarrow> go_any list \<Rightarrow> gstate \<Rightarrow> (do_result \<times> gstate) option" where
  "Graph_Do E n entranceID args gr =
     (case entrance gr entranceID of
        None \<Rightarrow> Some ((None, None), gr)
      | Some (tab, nid) \<Rightarrow>
          let prev = clonePortMap (globalVariables gr)
          in case execNode_Do E tab n nid args (graph_start gr) of
               None \<Rightarrow> None
             | Some (RPanic p, gr') \<Rightarrow>
                 Some ((None, Some (GraphPanic p)), gr'\<lparr>globalVariables := prev\<rparr>)
             | Some (RErr e, gr') \<Rightarrow> Some ((None, Some e), gr')
             | Some (ROk _, gr') \<Rightarrow> Some ((return_value gr', None), gr'))"

definition HotReload :: "'a Graph_scheme \<Rightarrow> (int \<rightharpoonup> (nodetab \<times> string)) \<Rightarrow> 'a Graph_scheme" where
  "HotReload gr newBaseGraph = gr\<lparr>entrance := newBaseGraph\<rparr>"

definition GetGraphFileName :: "'a Graph_scheme \<Rightarrow> string" where
  "GetGraphFileName gr = graphFileName gr"

definition Graph_Clone :: "'a Graph_scheme \<Rightarrow> 'a Graph_scheme" where
  "Graph_Clone gr = gr\<lparr>globalVariables := clonePortMap (globalVariables gr)\<rparr>"

end
