(* ===== verification/GraphLogic.thy ===== *)
theory GraphLogic
  imports GraphExec
begin

text \<open>
  What every run of the interpreter keeps, and when it ends.
  \<^item> \<open>keeps s s'\<close>: the registered node instances point to the same context and node as before (the
    deferred restore of \<^verbatim>\<open>execNode.exec\<close>), contexts are only added, a nil timer map stays nil, the graph's identity, entrances
    and logger stay, calls to the outside are only appended, and addresses stay valid.
  \<^item> \<open>runs P m\<close>: every outcome of \<open>m\<close> keeps all that, and \<open>m\<close> has an outcome from every state with \<open>P\<close>.
    The locale \<open>exec_guard\<close> is the contract \<open>P\<close> has to meet (stable under \<open>keeps\<close>); the rules for the
    nodes are proved in it once. \<open>node_guard\<close> adds that \<open>P\<close> does not look at the instances.
  \<^item> The locales are used for \<open>no_guard\<close> (nothing is asked, so only \<open>keeps\<close> is shown) and
    \<open>few_missing\<close> (at most \<open>M\<close> nodes without a context), which gives termination.
\<close>

section \<open>What execution keeps\<close>

definition ctx_wf :: "gstate \<Rightarrow> bool" where
  "ctx_wf s \<longleftrightarrow> (\<forall>nid a. gr_context s nid = Some a \<longrightarrow> a < length (ctxs s))"

definition keeps :: "gstate \<Rightarrow> gstate \<Rightarrow> bool" where
  "keeps s s' \<longleftrightarrow>
     bound s' = bound s \<and> dom (gr_context s) \<subseteq> dom (gr_context s') \<and> length (ctxs s) \<le> length (ctxs s') \<and>
     entrance s' = entrance s \<and> graphID s' = graphID s \<and> graphFileName s' = graphFileName s \<and>
     logger s' = logger s \<and> (\<exists>es. events s' = events s @ es) \<and> (ctx_wf s \<longrightarrow> ctx_wf s') \<and>
     (mapTimerID s = None \<longrightarrow> mapTimerID s' = None)"

lemma keeps_refl [simp]: "keeps s s"
  by (simp add: keeps_def)

lemma keeps_bound: "keeps s s' \<Longrightarrow> bound s' = bound s"
  by (simp add: keeps_def)

lemma keeps_trans: "keeps s t \<Longrightarrow> keeps t u \<Longrightarrow> keeps s u"
  unfolding keeps_def by (metis append.assoc dual_order.trans subset_trans)

lemma keeps_updates [simp]:
  "keeps s (upd_ctx a f s)"
  "keeps s (new_context inner nid s)"
  "keeps s (variables_update v s)"
  "keeps s (globalVariables_update g s)"
  "keeps s (draws_update d s)"
  "keeps s (s\<lparr>timerCount := t, events := events s @ es\<rparr>)"
  "keeps s (s\<lparr>events := events s @ es\<rparr>)"
  "keeps s (log_exec name nid a r s)"
  by (auto simp: keeps_def ctx_wf_def upd_ctx_def new_context_def log_exec_def CloneInOutPort_def
      split: if_splits intro: less_SucI)

definition runs_at :: "(gstate \<Rightarrow> bool) \<Rightarrow> 'a act \<Rightarrow> gstate \<Rightarrow> bool" where
  "runs_at P m s \<longleftrightarrow> (P s \<longrightarrow> m s \<noteq> None) \<and> (\<forall>r s'. m s = Some (r, s') \<longrightarrow> keeps s s')"

definition runs :: "(gstate \<Rightarrow> bool) \<Rightarrow> 'a act \<Rightarrow> bool" where
  "runs P m \<longleftrightarrow> (\<forall>s. runs_at P m s)"

named_theorems runs_intros \<open>rules for the outcome of an operation\<close>

lemma runs_atI: "(P s \<Longrightarrow> m s \<noteq> None) \<Longrightarrow> (\<And>r s'. m s = Some (r, s') \<Longrightarrow> keeps s s') \<Longrightarrow> runs_at P m s"
  by (simp add: runs_at_def)

lemma runs_at_keeps: "runs_at P m s \<Longrightarrow> m s = Some (r, s') \<Longrightarrow> keeps s s'"
  by (simp add: runs_at_def)

lemma runsD: "runs P m \<Longrightarrow> runs_at P m s"
  by (simp add: runs_def)

lemma runsI: "(\<And>s. runs_at P m s) \<Longrightarrow> runs P m"
  by (simp add: runs_def)

lemma runs_keeps: "runs P m \<Longrightarrow> m s = Some (r, s') \<Longrightarrow> keeps s s'"
  by (blast dest: runsD runs_at_keeps)

lemma runs_basic [runs_intros]:
  "runs P (aret x)" "runs P (aerr e)" "runs P (apanic p)" "runs P (ago m)"
  by (auto simp: runs_def runs_at_def act_defs split: sum.splits)

lemma runs_aput [runs_intros]: "(\<And>s. keeps s (f s)) \<Longrightarrow> runs P (aput f)"
  by (auto simp: runs_def runs_at_def aput_def)

lemma runs_aget [runs_intros]: "(\<And>x. runs P (k x)) \<Longrightarrow> runs P (aget f k)"
  by (auto simp: runs_def runs_at_def aget_def)

lemma runs_anil [runs_intros]: "(\<And>v. x = Some v \<Longrightarrow> runs P (k v)) \<Longrightarrow> runs P (anil x k)"
  by (cases x) (auto simp: anil_def intro: runs_basic)

lemma runs_awant [runs_intros]: "(\<And>v. x = Some v \<Longrightarrow> runs P (k v)) \<Longrightarrow> runs P (awant x e k)"
  by (cases x) (auto simp: awant_def intro: runs_basic)

lemma runs_if [runs_intros]: "(b \<Longrightarrow> runs P m) \<Longrightarrow> (\<not> b \<Longrightarrow> runs P m') \<Longrightarrow> runs P (if b then m else m')"
  by simp

lemma runs_with_bound [runs_intros]: "(\<And>a nid. runs P (k a nid)) \<Longrightarrow> runs P (with_bound cls k)"
  by (auto simp: with_bound_def intro!: runs_intros)

lemma runs_with_ctx [runs_intros]: "(\<And>a c. runs P (k a c)) \<Longrightarrow> runs P (with_ctx cls k)"
  by (auto simp: with_ctx_def intro!: runs_intros)

lemma runs_with_node [runs_intros]: "(\<And>en. runs P (k en)) \<Longrightarrow> runs P (with_node tab cls k)"
  by (auto simp: with_node_def intro!: runs_intros)

lemma runs_run_nd [runs_intros]: "runs P (run_nd cls f)"
  unfolding run_nd_def by (intro runs_with_ctx) (auto simp: runs_def runs_at_def)

text \<open>The nodes a class's instance hands control to are the successors of the node it points to.\<close>

definition next_runs :: "(gstate \<Rightarrow> bool) \<Rightarrow> nodetab \<Rightarrow> (string \<Rightarrow> unit act) \<Rightarrow> string \<Rightarrow> bool" where
  "next_runs P tab rec cls \<longleftrightarrow> (\<forall>s a nid en m. bound s cls = Some (a, nid) \<longrightarrow> tab nid = Some en \<longrightarrow>
     Some m \<in> set (nextNode en) \<longrightarrow> runs_at P (rec m) s)"

section \<open>Rules under a stable precondition\<close>

locale exec_guard =
  fixes P :: "gstate \<Rightarrow> bool"
  assumes stable: "keeps s s' \<Longrightarrow> P s \<Longrightarrow> P s'"
begin

lemma runs_abind [runs_intros]:
  assumes "runs P m" "\<And>x. runs P (k x)"
  shows "runs P (abind m k)"
proof (rule runsI, rule runs_atI)
  fix s
  show "P s \<Longrightarrow> abind m k s \<noteq> None"
    using runsD [OF assms(1), of s] runsD [OF assms(2)] stable
    by (auto simp: abind_def runs_at_def split: option.split ores.split)
  show "keeps s s'" if "abind m k s = Some (r, s')" for r s'
    using that runsD [OF assms(1), of s] runsD [OF assms(2)]
    by (auto simp: abind_def runs_at_def split: option.splits ores.splits intro: keeps_trans)
qed

lemma runs_sequence_loop: "(\<And>i. runs P (doNext i)) \<Longrightarrow> runs P (sequence_loop doNext i ps)"
  by (induction ps arbitrary: i) (auto intro!: runs_intros)

lemma runs_foreach_array_loop: "(\<And>i x. runs P (body i x)) \<Longrightarrow> runs P (foreach_array_loop body i xs)"
  by (induction xs arbitrary: i) (auto intro!: runs_intros)

lemma runs_foreach_loop: "(\<And>i. runs P (body i)) \<Longrightarrow> runs P (foreach_loop body i e)"
proof (induction body i e rule: foreach_loop.induct)
  case (1 body i e)
  then show ?case by (subst foreach_loop.simps) (auto intro!: runs_intros)
qed

lemma runs_set_args: "runs P (set_args E a st i vs)"
  by (induction vs arbitrary: i) (auto intro!: runs_intros split: prod.split option.split)

lemma runs_in_ports_loop: "(\<And>i. runs P (setPort i)) \<Longrightarrow> runs P (in_ports_loop isExec setPort n i)"
  by (induction n arbitrary: i) (auto intro!: runs_intros)

lemma runs_out_SetInt [runs_intros]: "runs P (out_SetInt cls i v)"
  unfolding out_SetInt_def by (intro runs_intros) simp

lemma runs_in_GetInt [runs_intros]: "(\<And>x. runs P (k x)) \<Longrightarrow> runs P (in_GetInt cls i k)"
  unfolding in_GetInt_def by (intro runs_intros)

lemma runs_global_write [runs_intros]: "runs P (global_write k p)"
  unfolding global_write_def by (auto intro!: runs_intros split: option.split)

lemma runs_set_out_port [runs_intros]: "runs P (set_out_port cls i v)"
  unfolding set_out_port_def by (auto intro!: runs_intros split: prod.split)

lemma runs_GetAndCreateReturnPort [runs_intros]: "runs P GetAndCreateReturnPort"
  unfolding GetAndCreateReturnPort_def by (auto intro!: runs_intros split: option.split)

text \<open>The map of timers stays nil if it is nil: storing into it panics.\<close>

lemma runs_store_timer [runs_intros]:
  "runs P (aget mapTimerID (case_option (apanic NilMapWrite)
     (\<lambda>T. aput (mapTimerID_update (\<lambda>_. Some (insert t T))))))"
  by (auto simp: runs_def runs_at_def act_defs keeps_def ctx_wf_def split: option.splits)

lemma runs_graph_nodes [runs_intros]:
  "runs P (GetVariablesNode_Exec tab cls)" "runs P (SetVariablesNode_Exec tab cls)"
  "runs P (AppendIntReturn_Exec cls)" "runs P (AppendStringReturn_Exec cls)"
  "runs P (CreateTimer_Exec E cls)" "runs P (CloseTimer_Exec cls)"
  unfolding GetVariablesNode_Exec_def SetVariablesNode_Exec_def AppendIntReturn_Exec_def
    AppendStringReturn_Exec_def CreateTimer_Exec_def CloseTimer_Exec_def
  by (auto intro!: runs_intros split: option.split)

lemma runs_in_setAnyVale [runs_intros]: "runs P (in_setAnyVale E a i v)"
  unfolding in_setAnyVale_def by (auto intro!: runs_intros split: prod.split option.split)

lemma runs_in_SetValue [runs_intros]: "runs P (in_SetValue a i v)"
  unfolding in_SetValue_def by (intro runs_intros) simp

lemma runs_DoNext: "next_runs P tab rec cls \<Longrightarrow> runs P (DoNext tab rec cls i)"
proof (rule runsI)
  fix s
  assume "next_runs P tab rec cls"
  then have "runs_at P (rec m) s"
    if "bound s cls = Some (a, nid)" "tab nid = Some en" "nextNode en ! j = Some m" "j < length (nextNode en)"
    for a nid en m j
    using that nth_mem [of j "nextNode en"] unfolding next_runs_def by metis
  then show "runs_at P (DoNext tab rec cls i) s"
    unfolding DoNext_def with_node_def with_bound_def
    by (auto simp: runs_at_def act_defs split: option.split prod.split)
qed

lemma runs_Exec: "next_runs P tab rec cls \<Longrightarrow> runs P (Exec E tab rec inner cls e)"
  by (cases e)
    (auto simp: Sequence_Exec_def Foreach_Exec_def ForeachIntArray_Exec_def
      intro!: runs_intros runs_sequence_loop runs_foreach_loop runs_foreach_array_loop runs_DoNext)

end

locale node_guard = exec_guard +
  assumes instances: "P (setExecNodeInfo cls b s) \<longleftrightarrow> P s"
begin

text \<open>The precondition together with what \<^verbatim>\<open>initExecNode\<close> sets is again stable.\<close>

lemma bound_guard: "exec_guard (\<lambda>s. P s \<and> bound s cls = b)"
  by unfold_locales (auto simp: keeps_bound intro: stable)

text \<open>\<^verbatim>\<open>execNode.exec\<close>: inside, the instance points to this node, so control goes to its successors
  only; afterwards it points to what it pointed to before.\<close>

lemma runs_execNode_exec:
  assumes self: "tab (en_Id en) = Some en"
    and keep: "\<And>m. runs (\<lambda>_. False) (rec m)"
    and succ: "\<And>m. Some m \<in> set (nextNode en) \<Longrightarrow> runs P (rec m)"
  shows "runs P (execNode_exec E tab rec en)"
proof -
  let ?cls = "en_execNode en"
  have body: "runs (\<lambda>s. P s \<and> bound s ?cls = Some (a, en_Id en)) (Exec E tab rec inner ?cls e)"
    for a inner e
  proof (rule exec_guard.runs_Exec [OF bound_guard], unfold next_runs_def, intro allI impI)
    fix s :: gstate and a' nid en' m
    assume "bound s ?cls = Some (a', nid)" "tab nid = Some en'" "Some m \<in> set (nextNode en')"
    then show "runs_at (\<lambda>s. P s \<and> bound s ?cls = Some (a, en_Id en)) (rec m) s"
      using self runsD [OF succ, of m s] runsD [OF keep, of m s] by (auto simp: runs_at_def)
  qed
  have wrap: "runs_at P (deferred (setExecNodeInfo ?cls (bound s ?cls))
      (abind (initExecNode ?cls en) (\<lambda>_. Exec E tab rec inner ?cls e))) s" for s inner e
  proof (cases "gr_context s (en_Id en)")
    case None
    then show ?thesis
      by (auto simp: runs_at_def deferred_def initExecNode_def act_defs setExecNodeInfo_def)
  next
    case (Some a)
    let ?s1 = "setExecNodeInfo ?cls (Some (a, en_Id en)) s"
    have eq: "abind (initExecNode ?cls en) (\<lambda>_. Exec E tab rec inner ?cls e) s = Exec E tab rec inner ?cls e ?s1"
      using Some by (simp add: initExecNode_def act_defs)
    have b: "bound ?s1 ?cls = Some (a, en_Id en)" by (simp add: setExecNodeInfo_def)
    have restored: "keeps s (setExecNodeInfo ?cls (bound s ?cls) s')" if "keeps ?s1 s'" for s'
      using that by (auto simp: keeps_def setExecNodeInfo_def ctx_wf_def)
    show ?thesis
      using runsD [OF body, of a inner e ?s1] b instances [of ?cls "Some (a, en_Id en)" s] restored
      by (auto simp: runs_at_def deferred_def eq split: option.splits)
  qed
  have "runs P (\<lambda>s. deferred (setExecNodeInfo ?cls (bound s ?cls))
      (abind (initExecNode ?cls en) (\<lambda>_. Exec E tab rec inner ?cls e)) s)" for inner e
    by (rule runsI) (simp add: runs_at_def wrap [unfolded runs_at_def])
  then show ?thesis
    unfolding execNode_exec_def Let_def aget_def getExecNodeInfo_def
    by (intro runs_anil) blast
qed

lemma runs_exec_and_log:
  assumes "runs P (execNode_exec E tab rec en)"
  shows "runs P (exec_and_log E tab rec en inner a)"
proof (rule runsI, rule runs_atI)
  fix s
  show "P s \<Longrightarrow> exec_and_log E tab rec en inner a s \<noteq> None"
    using runsD [OF assms, of s] by (auto simp: exec_and_log_def runs_at_def split: option.split ores.split)
  show "keeps s s'" if "exec_and_log E tab rec en inner a s = Some (r, s')" for r s'
    using that runsD [OF assms, of s]
    by (auto simp: exec_and_log_def runs_at_def split: option.splits ores.splits
        intro: keeps_trans [OF _ keeps_updates(8)])
qed

lemma runs_doSetInPort:
  assumes pre: "\<And>p o_id pre. Some (p, o_id) \<in> set (preInPort en) \<Longrightarrow> tab p = Some pre \<Longrightarrow>
      runs P (aget (\<lambda>s. gr_context s p) (\<lambda>ctx.
        if ctx = None \<or> \<not> HasBeConnectLine pre \<and> \<not> isEntrance pre then rec p else aret ()))"
  shows "runs P (doSetInPort E tab rec en a i)"
proof (rule runsI)
  fix s
  show "runs_at P (doSetInPort E tab rec en a i) s"
  proof (cases "slice_get (preInPort en) i")
    case (Inl e)
    then show ?thesis by (simp add: doSetInPort_def runs_at_def act_defs)
  next
    case (Inr pn)
    show ?thesis
    proof (cases pn)
      case None
      with Inr runsD [OF runs_in_setAnyVale, of E a i "GetInPortDefaultValue en i" s] show ?thesis
        by (simp add: doSetInPort_def runs_at_def abind_def ago_def aret_def)
    next
      case (Some po)
      then obtain p o_id where po: "pn = Some (p, o_id)" by (cases po) auto
      with Inr have mem: "Some (p, o_id) \<in> set (preInPort en)"
        by (auto simp: slice_get_def split: if_splits) (metis nat_less_iff nth_mem)
      let ?tail = "aget (\<lambda>s. gr_context s p) (\<lambda>ctx'.
         if ctx' \<noteq> None
         then aget (\<lambda>s. GetNodeOutPortValue s p o_id) (\<lambda>outPort.
              awant outPort (OutPortNotFound p o_id) (\<lambda>v. in_SetValue a i v))
         else aerr (PreNodeNotExec p))"
      have "runs P (anil (tab p) (\<lambda>pre. abind (aget (\<lambda>s. gr_context s p) (\<lambda>ctx.
          if ctx = None \<or> \<not> HasBeConnectLine pre \<and> \<not> isEntrance pre then rec p else aret ())) (\<lambda>_. ?tail)))"
        by (intro runs_anil runs_abind pre [OF mem] runs_intros)
      from runsD [OF this, of s] show ?thesis
        using Inr po by (simp add: doSetInPort_def runs_at_def abind_def ago_def aret_def anil_def aget_def
            split: option.splits)
    qed
  qed
qed

lemma runs_follow_next:
  assumes "\<And>m. Some m \<in> set (nextNode en) \<Longrightarrow> runs P (rec m)"
  shows "runs P (follow_next rec en i)"
proof -
  have "runs P (case nextNode en ! nat i of None \<Rightarrow> aret () | Some nid \<Rightarrow> rec nid)"
    if "0 \<le> i" "i < int (length (nextNode en))"
  proof (cases "nextNode en ! nat i")
    case (Some m)
    with that have "Some m \<in> set (nextNode en)" by (metis nat_less_iff nth_mem)
    with assms Some show ?thesis by simp
  qed (auto intro: runs_intros)
  then show ?thesis unfolding follow_next_def by (auto intro!: runs_intros)
qed

text \<open>\<^verbatim>\<open>Do\<close> at a state: what happens after its own context was made needs the precondition there.\<close>

lemma runs_Do_body:
  assumes self: "tab nid = Some en" "en_Id en = nid"
    and keep: "\<And>m. runs (\<lambda>_. False) (rec m)"
    and succ: "\<And>m. Some m \<in> set (nextNode en) \<Longrightarrow> runs P (rec m)"
    and pre: "\<And>p o_id pre. Some (p, o_id) \<in> set (preInPort en) \<Longrightarrow> tab p = Some pre \<Longrightarrow>
      runs P (aget (\<lambda>s. gr_context s p) (\<lambda>ctx.
        if ctx = None \<or> \<not> HasBeConnectLine pre \<and> \<not> isEntrance pre then rec p else aret ()))"
    and start: "\<And>inner. Q s \<Longrightarrow> P (new_context inner nid s)"
  shows "runs_at Q (Do_body E tab rec nid args) s"
proof (cases "execs E (en_execNode en)")
  case None
  then show ?thesis using self by (simp add: Do_body_def runs_at_def act_defs)
next
  case (Some inner')
  let ?rest = "\<lambda>a. abind (set_args E a (GetOutPortParamStartIndex inner') 0 args) (\<lambda>_.
     abind (in_ports_loop (IsInPortExec inner') (doSetInPort E tab rec en a) (length (inPort inner')) 0) (\<lambda>_.
     abind (exec_and_log E tab rec en inner' a) (\<lambda>nextIndex. follow_next rec en nextIndex)))"
  have rest: "runs P (?rest a)" for a
    using self keep succ pre
    by (intro runs_abind runs_set_args runs_in_ports_loop runs_doSetInPort runs_exec_and_log
        runs_execNode_exec runs_follow_next) auto
  have eq: "Do_body E tab rec nid args s = ?rest (length (ctxs s)) (new_context inner' nid s)"
    using self Some by (simp add: Do_body_def anil_def aget_def aput_def abind_def)
  have k: "keeps s (new_context inner' nid s)" by simp
  have "Q s \<Longrightarrow> P (new_context inner' nid s)"
    by (rule start)
  with runsD [OF rest, of "length (ctxs s)" "new_context inner' nid s"] show ?thesis
    unfolding runs_at_def eq by (blast intro: keeps_trans [OF k])
qed

end

section \<open>Every run keeps the instances\<close>

interpretation no_guard: node_guard "\<lambda>_. False"
  by unfold_locales simp_all

definition own_ids :: "nodetab \<Rightarrow> bool" where
  "own_ids tab \<longleftrightarrow> (\<forall>nid en. tab nid = Some en \<longrightarrow> en_Id en = nid)"

lemma own_idsD: "own_ids tab \<Longrightarrow> tab nid = Some en \<Longrightarrow> en_Id en = nid"
  by (simp add: own_ids_def)

lemma Do_body_no_node: "tab nid = None \<Longrightarrow> runs_at Q (Do_body E tab rec nid args) s"
  by (simp add: Do_body_def runs_at_def act_defs)

lemma Do_keeps:
  assumes "own_ids tab"
  shows "runs (\<lambda>_. False) (execNode_Do E tab n nid args)"
proof (induction n arbitrary: nid args)
  case 0
  show ?case by (simp add: runs_def runs_at_def)
next
  case (Suc n)
  show ?case
  proof (rule runsI)
    fix s
    show "runs_at (\<lambda>_. False) (execNode_Do E tab (Suc n) nid args) s"
    proof (cases "tab nid")
      case None
      then show ?thesis using Do_body_no_node by simp
    next
      case (Some en)
      have "runs_at (\<lambda>_. False) (Do_body E tab (\<lambda>m. execNode_Do E tab n m []) nid args) s"
        by (rule no_guard.runs_Do_body [where tab = tab and nid = nid and en = en])
          (auto intro!: runs_intros Suc.IH simp: Some own_idsD [OF assms Some])
      then show ?thesis by simp
    qed
  qed
qed

section \<open>Termination\<close>

text \<open>What makes a graph's execution end: a rank that falls along execution lines and along data
  lines to nodes without execution port, which run again each time their value is read. Data lines to
  other nodes are free: those nodes run at most once for a reader, when they have no context yet.\<close>

definition ranked :: "nodetab \<Rightarrow> (string \<Rightarrow> nat) \<Rightarrow> bool" where
  "ranked tab rank \<longleftrightarrow> (\<forall>nid en. tab nid = Some en \<longrightarrow>
     (\<forall>m. Some m \<in> set (nextNode en) \<longrightarrow> rank m < rank nid) \<and>
     (\<forall>p i pre. Some (p, i) \<in> set (preInPort en) \<longrightarrow> tab p = Some pre \<longrightarrow>
        \<not> beConnect pre \<longrightarrow> \<not> isEntrance pre \<longrightarrow> rank p < rank nid))"

lemma ranked_next: "ranked tab rank \<Longrightarrow> tab nid = Some en \<Longrightarrow> Some m \<in> set (nextNode en) \<Longrightarrow> rank m < rank nid"
  unfolding ranked_def by blast

lemma ranked_pre:
  "ranked tab rank \<Longrightarrow> tab nid = Some en \<Longrightarrow> Some (p, i) \<in> set (preInPort en) \<Longrightarrow> tab p = Some pre \<Longrightarrow>
   \<not> beConnect pre \<and> \<not> isEntrance pre \<Longrightarrow> rank p < rank nid"
  unfolding ranked_def by blast

definition missing :: "nodetab \<Rightarrow> gstate \<Rightarrow> nat" where
  "missing tab s = card (dom tab - dom (gr_context s))"

definition few_missing :: "nodetab \<Rightarrow> nat \<Rightarrow> gstate \<Rightarrow> bool" where
  "few_missing tab M s \<longleftrightarrow> finite (dom tab) \<and> missing tab s \<le> M"

interpretation few: node_guard "few_missing tab M" for tab M
proof
  fix s s' :: gstate and cls b
  show "few_missing tab M s'" if "keeps s s'" "few_missing tab M s"
  proof -
    have "dom tab - dom (gr_context s') \<subseteq> dom tab - dom (gr_context s)"
      using that(1) by (auto simp only: keeps_def)
    with that(2) show ?thesis
      using card_mono [of "dom tab - dom (gr_context s)" "dom tab - dom (gr_context s')"]
      unfolding few_missing_def missing_def by (meson finite_Diff le_trans)
  qed
  show "few_missing tab M (setExecNodeInfo cls b s) = few_missing tab M s"
    by (simp add: few_missing_def missing_def setExecNodeInfo_def)
qed

text \<open>The fuel a node needs: a full descent of the ranks for each node that has no context yet, and
  its own rank.\<close>

definition need :: "nodetab \<Rightarrow> nat \<Rightarrow> (string \<Rightarrow> nat) \<Rightarrow> string \<Rightarrow> gstate \<Rightarrow> nat" where
  "need tab R rank nid s = card (dom tab - dom (gr_context s) - {nid}) * Suc R + rank nid"

lemma need_le:
  assumes "few_missing tab M s" "rank m < rank nid"
  shows "need tab R rank m s < M * Suc R + rank nid"
proof -
  have "card (dom tab - dom (gr_context s) - {m}) \<le> M"
    using assms(1) card_mono [of "dom tab - dom (gr_context s)" "dom tab - dom (gr_context s) - {m}"]
    by (auto simp: few_missing_def missing_def)
  then have "card (dom tab - dom (gr_context s) - {m}) * Suc R \<le> M * Suc R" by (rule mult_right_mono) simp
  with assms(2) show ?thesis by (simp add: need_def)
qed

lemma need_absent_le:
  assumes "few_missing tab M s" "p \<in> dom tab" "gr_context s p = None" "rank p \<le> R"
  shows "need tab R rank p s < M * Suc R + rank nid"
proof -
  let ?D = "dom tab - dom (gr_context s)"
  have "finite ?D" "p \<in> ?D" using assms by (auto simp: few_missing_def)
  then have "Suc (card (?D - {p})) = card ?D" by (rule card_Suc_Diff1)
  then have "Suc (card (?D - {p})) \<le> M" using assms(1) by (simp add: few_missing_def missing_def)
  then have "Suc (card (?D - {p})) * Suc R \<le> M * Suc R" by (rule mult_right_mono) simp
  with assms(4) show ?thesis by (simp add: need_def)
qed

lemma missing_new_context:
  "missing tab (new_context inner nid s) = card (dom tab - dom (gr_context s) - {nid})"
proof -
  have "dom (gr_context (new_context inner nid s)) = insert nid (dom (gr_context s))"
    by (simp add: new_context_def CloneInOutPort_def)
  then have "dom tab - dom (gr_context (new_context inner nid s)) = dom tab - dom (gr_context s) - {nid}"
    by blast
  then show ?thesis by (simp only: missing_def)
qed

lemma Do_terminates:
  assumes "own_ids tab" "finite (dom tab)" "ranked tab rank" "\<And>m. rank m \<le> R"
  shows "runs (\<lambda>s. need tab R rank nid s < n) (execNode_Do E tab n nid args)"
proof (induction n arbitrary: nid args)
  case 0
  show ?case by (simp add: runs_def runs_at_def)
next
  case (Suc n)
  let ?rec = "\<lambda>m. execNode_Do E tab n m []"
  show ?case
  proof (rule runsI)
    fix s
    show "runs_at (\<lambda>s. need tab R rank nid s < Suc n) (execNode_Do E tab (Suc n) nid args) s"
    proof (cases "tab nid")
      case None
      then show ?thesis using Do_body_no_node by simp
    next
      case (Some en)
      define M where "M = card (dom tab - dom (gr_context s) - {nid})"
      show ?thesis
      proof (cases "need tab R rank nid s < Suc n")
        case False
        then show ?thesis using runsD [OF Do_keeps [OF assms(1)], of E "Suc n" nid args s]
          by (simp add: runs_at_def)
      next
        case True
        then have fuel: "M * Suc R + rank nid \<le> n" by (simp add: need_def M_def)
        have call: "runs (few_missing tab M) (?rec m)"
          if "\<And>s'. few_missing tab M s' \<Longrightarrow> need tab R rank m s' < M * Suc R + rank nid" for m
          using that fuel Suc.IH [of m "[]"] unfolding runs_def runs_at_def
          by (meson dual_order.strict_trans1)
        have succ: "runs (few_missing tab M) (?rec m)" if "Some m \<in> set (nextNode en)" for m
          using ranked_next [OF assms(3) Some that] by (intro call need_le)
        have pre: "runs (few_missing tab M) (aget (\<lambda>s. gr_context s p) (\<lambda>ctx.
            if ctx = None \<or> \<not> HasBeConnectLine pre \<and> \<not> isEntrance pre then ?rec p else aret ()))"
          if e: "Some (p, o_id) \<in> set (preInPort en)" "tab p = Some pre" for p o_id pre
        proof (cases "\<not> beConnect pre \<and> \<not> isEntrance pre")
          case True
          then have "runs (few_missing tab M) (?rec p)"
            using ranked_pre [OF assms(3) Some e] by (intro call need_le)
          then show ?thesis by (intro runs_intros)
        next
          case pure: False
          show ?thesis
          proof (rule runsI)
            fix s'
            show "runs_at (few_missing tab M) (aget (\<lambda>s. gr_context s p) (\<lambda>ctx.
              if ctx = None \<or> \<not> HasBeConnectLine pre \<and> \<not> isEntrance pre then ?rec p else aret ())) s'"
            proof (cases "gr_context s' p")
              case None
              have "few_missing tab M s' \<Longrightarrow> need tab R rank p s' < n"
                using need_absent_le [of tab M s' p rank R nid] None assms(4) e(2) fuel by fastforce
              with None runsD [OF Suc.IH, of p "[]" s'] show ?thesis
                by (auto simp: runs_at_def aget_def)
            next
              case (Some a)
              with pure show ?thesis by (auto simp: runs_at_def aget_def aret_def HasBeConnectLine_def)
            qed
          qed
        qed
        have "few_missing tab M (new_context inner nid s)" for inner
          using assms(2) by (simp add: few_missing_def missing_new_context M_def)
        then show ?thesis
          using few.runs_Do_body [where tab = tab and nid = nid and en = en and rec = ?rec, OF Some
              own_idsD [OF assms(1) Some] Do_keeps [OF assms(1)] succ pre]
          by simp
      qed
    qed
  qed
qed

end
