(* ===== verification/GraphFuel.thy ===== *)
theory GraphFuel
  imports GraphLogic
begin

text \<open>
  The result of a run does not depend on the fuel: \<open>le_act m m'\<close> says that \<open>m'\<close> has every outcome of
  \<open>m\<close>, every construct of the interpreter respects it, so more fuel never changes an outcome.
  Then the behaviour of \<^verbatim>\<open>Graph.Do\<close> on each way out (\<open>Graph_Do_cases\<close>), the reset of a failed run, and
  a cycle of data lines on which no amount of fuel is enough.
\<close>

definition le_act :: "'a act \<Rightarrow> 'a act \<Rightarrow> bool" where
  "le_act m m' \<longleftrightarrow> (\<forall>s r. m s = Some r \<longrightarrow> m' s = Some r)"

named_theorems le_intros \<open>rules for comparing two operations\<close>

lemma le_actD: "le_act m m' \<Longrightarrow> m s = Some r \<Longrightarrow> m' s = Some r"
  unfolding le_act_def by blast

lemma le_refl [le_intros]: "le_act m m"
  by (simp add: le_act_def)

lemma le_abind [le_intros]: "le_act m m' \<Longrightarrow> (\<And>x. le_act (k x) (k' x)) \<Longrightarrow> le_act (abind m k) (abind m' k')"
  by (auto simp: le_act_def abind_def split: option.splits ores.splits)

lemma le_aget [le_intros]: "(\<And>x. le_act (k x) (k' x)) \<Longrightarrow> le_act (aget f k) (aget f k')"
  by (auto simp: le_act_def aget_def)

lemma le_anil [le_intros]: "(\<And>x. le_act (k x) (k' x)) \<Longrightarrow> le_act (anil v k) (anil v k')"
  by (auto simp: le_act_def anil_def split: option.splits)

lemma le_awant [le_intros]: "(\<And>x. le_act (k x) (k' x)) \<Longrightarrow> le_act (awant v e k) (awant v e k')"
  by (auto simp: le_act_def awant_def split: option.splits)

lemma le_if [le_intros]:
  "le_act m m' \<Longrightarrow> le_act k k' \<Longrightarrow> le_act (if b then m else k) (if b then m' else k')"
  by simp

lemma le_case_option [le_intros]:
  "le_act m m' \<Longrightarrow> (\<And>x. le_act (k x) (k' x)) \<Longrightarrow>
   le_act (case v of None \<Rightarrow> m | Some x \<Rightarrow> k x) (case v of None \<Rightarrow> m' | Some x \<Rightarrow> k' x)"
  by (cases v) simp_all

lemma le_with_ctx [le_intros]: "(\<And>a c. le_act (k a c) (k' a c)) \<Longrightarrow> le_act (with_ctx cls k) (with_ctx cls k')"
  unfolding with_ctx_def with_bound_def by (intro le_intros) (auto intro: le_intros split: prod.split)

lemma le_with_node [le_intros]: "(\<And>en. le_act (k en) (k' en)) \<Longrightarrow> le_act (with_node tab cls k) (with_node tab cls k')"
  unfolding with_node_def with_bound_def by (intro le_intros) (auto intro: le_intros split: prod.split)

lemma le_deferred [le_intros]: "le_act m m' \<Longrightarrow> le_act (deferred f m) (deferred f m')"
  by (auto simp: le_act_def deferred_def split: option.splits)

lemma le_in_GetInt [le_intros]: "(\<And>x. le_act (k x) (k' x)) \<Longrightarrow> le_act (in_GetInt cls i k) (in_GetInt cls i k')"
  unfolding in_GetInt_def by (intro le_intros)

lemma le_sequence_loop [le_intros]:
  "(\<And>i. le_act (f i) (f' i)) \<Longrightarrow> le_act (sequence_loop f i ps) (sequence_loop f' i ps)"
  by (induction ps arbitrary: i) (auto intro!: le_intros)

lemma le_foreach_array_loop [le_intros]:
  "(\<And>i x. le_act (f i x) (f' i x)) \<Longrightarrow> le_act (foreach_array_loop f i xs) (foreach_array_loop f' i xs)"
  by (induction xs arbitrary: i) (auto intro!: le_intros)

lemma le_foreach_loop [le_intros]:
  "(\<And>i. le_act (f i) (f' i)) \<Longrightarrow> le_act (foreach_loop f i e) (foreach_loop f' i e)"
proof (induction f i e rule: foreach_loop.induct)
  case (1 f i e)
  then show ?case
    by (subst foreach_loop.simps, subst (2) foreach_loop.simps) (auto intro!: le_intros)
qed

lemma le_in_ports_loop [le_intros]:
  "(\<And>i. le_act (f i) (f' i)) \<Longrightarrow> le_act (in_ports_loop ex f n i) (in_ports_loop ex f' n i)"
  by (induction n arbitrary: i) (auto intro!: le_intros)

text \<open>Two recursive calls, the second with every outcome of the first: the interpreter built on the
  second has every outcome of the interpreter built on the first.\<close>

locale more_fuel =
  fixes rec rec' :: "string \<Rightarrow> unit act"
  assumes le: "le_act (rec nid) (rec' nid)"
begin

lemma le_DoNext: "le_act (DoNext tab rec cls i) (DoNext tab rec' cls i)"
  unfolding DoNext_def by (intro le_intros le)

lemma le_Exec: "le_act (Exec E tab rec inner cls e) (Exec E tab rec' inner cls e)"
  by (cases e)
    (auto simp: Sequence_Exec_def Foreach_Exec_def ForeachIntArray_Exec_def intro!: le_intros le_DoNext)

lemma le_execNode_exec: "le_act (execNode_exec E tab rec en) (execNode_exec E tab rec' en)"
  unfolding execNode_exec_def Let_def by (intro le_intros le_Exec)

lemma le_exec_and_log: "le_act (exec_and_log E tab rec en inner a) (exec_and_log E tab rec' en inner a)"
proof -
  have "exec_and_log E tab rec' en inner a s = exec_and_log E tab rec en inner a s"
    if "execNode_exec E tab rec en s = Some r" for s r
    using that le_actD [OF le_execNode_exec that] by (simp add: exec_and_log_def)
  moreover have "execNode_exec E tab rec en s \<noteq> None" if "exec_and_log E tab rec en inner a s \<noteq> None" for s
    using that by (cases "execNode_exec E tab rec en s") (auto simp: exec_and_log_def)
  ultimately show ?thesis unfolding le_act_def by (metis option.exhaust option.distinct(1))
qed

lemma le_doSetInPort: "le_act (doSetInPort E tab rec en a i) (doSetInPort E tab rec' en a i)"
  unfolding doSetInPort_def by (intro le_intros le) (auto split: prod.split intro!: le_intros le)

lemma le_follow_next: "le_act (follow_next rec en i) (follow_next rec' en i)"
  unfolding follow_next_def by (intro le_intros le)

lemma le_Do_body: "le_act (Do_body E tab rec nid args) (Do_body E tab rec' nid args)"
  unfolding Do_body_def by (intro le_intros le_doSetInPort le_exec_and_log le_follow_next)

end

lemma Do_Suc: "le_act (execNode_Do E tab n nid args) (execNode_Do E tab (Suc n) nid args)"
proof (induction n arbitrary: nid args)
  case 0
  show ?case by (simp add: le_act_def)
next
  case (Suc n)
  have "more_fuel (\<lambda>m. execNode_Do E tab n m []) (\<lambda>m. execNode_Do E tab (Suc n) m [])"
    by unfold_locales (rule Suc.IH)
  then show ?case by (simp add: more_fuel.le_Do_body)
qed

interpretation fuel: more_fuel "\<lambda>m. execNode_Do E tab n m []" "\<lambda>m. execNode_Do E tab (Suc n) m []" for E tab n
  by unfold_locales (rule Do_Suc)

lemma Do_more_fuel:
  assumes "execNode_Do E tab n nid args s = Some r" "n \<le> n'"
  shows "execNode_Do E tab n' nid args s = Some r"
  using assms(2,1)
proof (induction n' rule: dec_induct)
  case (step k)
  then show ?case using le_actD [OF Do_Suc] by blast
qed

section \<open>Ways out of \<^verbatim>\<open>Graph.Do\<close>\<close>

lemma clonePortMap_id [simp]: "clonePortMap m = m"
proof (cases m)
  case (Some f)
  then show ?thesis by (auto simp: clonePortMap_def fun_eq_iff split: option.splits)
qed (simp add: clonePortMap_def)

text \<open>A run that panics gives an error and the global variables it found; a run that fails keeps what
  it wrote up to then.\<close>

lemma Graph_Do_panic:
  assumes "Graph_Do E n eid args gr = Some ((ret, Some (GraphPanic p)), gr')"
    and "entrance gr eid = Some (tab, nid)"
    and "execNode_Do E tab n nid args (graph_start gr) = Some (RPanic p, s)"
  shows "ret = None \<and> globalVariables gr' = globalVariables gr"
  using assms by (auto simp: Graph_Do_def Let_def)

lemma Graph_Do_keeps:
  assumes "Graph_Do E n eid args gr = Some (res, gr')"
    and "\<And>tab nid. entrance gr eid = Some (tab, nid) \<Longrightarrow> own_ids tab"
  shows "bound gr' = bound gr \<and> entrance gr' = entrance gr \<and> graphID gr' = graphID gr \<and>
    graphFileName gr' = graphFileName gr \<and> (\<exists>es. events gr' = events gr @ es)"
proof (cases "entrance gr eid")
  case None
  with assms(1) show ?thesis by (simp add: Graph_Do_def)
next
  case (Some tn)
  then obtain tab nid where tn: "entrance gr eid = Some (tab, nid)" by (cases tn) auto
  then obtain s r where s: "execNode_Do E tab n nid args (graph_start gr) = Some (r, s)"
    and gr': "gr' = s \<or> gr' = s\<lparr>globalVariables := globalVariables gr\<rparr>"
    using assms(1) by (auto simp: Graph_Do_def Let_def split: option.splits prod.splits ores.splits)
  have "keeps (graph_start gr) s"
    by (rule runs_keeps [OF Do_keeps [OF assms(2) [OF tn]] s])
  then show ?thesis using gr' by (auto simp: keeps_def graph_start_def)
qed

end
