(* ===== verification/ExecPool.thy ===== *)
theory ExecPool
  imports GraphExec
begin

text \<open>
  The pool of node classes (\<^verbatim>\<open>src/util/blueprint/execpool.go\<close>): classes are declared by configuration
  (\<open>createExecFromJSON\<close>, \<open>addInnerExec\<close>) and joined with their implementations (\<open>Register\<close>); the
  classes of variable nodes are generated for every data type.
  \<^item> The two maps of \<^verbatim>\<open>ExecPool\<close> share the class objects: \<open>Register\<close> updates the class in place.
  \<^item> Reading files and decoding JSON is left out: \<open>addConfigs\<close> is the loop of \<^verbatim>\<open>processJSONFile\<close> on decoded
    configurations. \<^verbatim>\<open>sort.Slice\<close> is a stable sort here; the library promises any order among equal ids.
    \<^verbatim>\<open>strings.ToLower\<close> is modelled on ASCII.
  Shown: a class whose port numbers have no gap has no nil port, so no question about its ports
  panics; an execution output never follows a data output; \<open>Register\<close> succeeds once per declared class;
  entrance class names are taken apart exactly as they are put together.
\<close>

section \<open>Strings\<close>

definition lower_char :: "char \<Rightarrow> char" where
  "lower_char c = (let k = (of_char c :: nat) in if 65 \<le> k \<and> k \<le> 90 then char_of (k + 32) else c)"

definition ToLower :: "string \<Rightarrow> string" where
  "ToLower = map lower_char"

section \<open>Entrances\<close>

definition Entrance :: string where
  "Entrance = ''Entrance_''"

definition getEntranceNodeNameAndID :: "string \<Rightarrow> (string \<times> int) option" where
  "getEntranceNodeNameAndID className =
     (if \<not> HasPrefix className Entrance then None
      else let parts = Split CHR ''_'' className
           in if length parts \<noteq> 3 then None
              else case Atoi (parts ! 2) of
                     None \<Rightarrow> None
                   | Some entranceID \<Rightarrow> Some (parts ! 0 @ ''_'' @ parts ! 1, entranceID))"

section \<open>Declaring classes\<close>

record ExecPool =
  innerExecNodeMap :: "string \<rightharpoonup> innerExecNode"
  execNodeMap :: "string \<rightharpoonup> exec_kind"

definition createPortByDataType :: "string \<Rightarrow> port option" where
  "createPortByDataType dataType =
     (let t = ToLower dataType
      in if t = ''int'' \<or> t = ''integer'' then Some NewPortInt
         else if t = ''float'' then Some NewPortFloat
         else if t = ''string'' then Some NewPortStr
         else if t = ''boolean'' \<or> t = ''bool'' then Some NewPortBool
         else if t = ''array'' then Some NewPortArray
         else None)"

fun set_inputs :: "int \<Rightarrow> int \<Rightarrow> InputConfig list \<Rightarrow> innerExecNode \<Rightarrow> innerExecNode ores" where
  "set_inputs index inExecNum [] baseExec = ROk baseExec"
| "set_inputs index inExecNum (input # inputs) baseExec =
     (let portType = ToLower (ic_PortType input)
      in if portType \<noteq> ''exec'' \<and> portType \<noteq> ''data'' then RErr (NodeError ''data type not support'')
         else if portType = ''exec''
         then (if inExecNum > 0 then RErr (NodeError ''inPort only allows one Execute'')
               else if index > 0 then RErr (NodeError ''the exec port is only allowed to be placed on the first one'')
               else set_inputs (index + 1) (inExecNum + 1) inputs
                      (snd (SetInPortById baseExec (ic_PortId input) (Some NewPortExec))))
         else case createPortByDataType (ic_DataType input) of
                None \<Rightarrow> RErr (NodeError ''invalid data type'')
              | Some p \<Rightarrow> set_inputs (index + 1) inExecNum inputs
                      (snd (SetInPortById baseExec (ic_PortId input) (Some p))))"

fun set_outputs :: "bool \<Rightarrow> OutputConfig list \<Rightarrow> innerExecNode \<Rightarrow> innerExecNode ores" where
  "set_outputs hasData [] baseExec = ROk baseExec"
| "set_outputs hasData (output # outputs) baseExec =
     (let portType = ToLower (oc_PortType output)
      in if portType \<noteq> ''exec'' \<and> portType \<noteq> ''data'' then RErr (NodeError ''data type not support'')
         else if hasData \<and> portType = ''exec''
         then RErr (NodeError ''the exec port can only be placed at the front'')
         else if portType = ''exec''
         then set_outputs hasData outputs (snd (SetOutPortById baseExec (oc_PortId output) (Some NewPortExec)))
         else case createPortByDataType (oc_DataType output) of
                None \<Rightarrow> RErr (NodeError ''invalid data type'')
              | Some p \<Rightarrow> set_outputs True outputs (snd (SetOutPortById baseExec (oc_PortId output) (Some p))))"

definition createExecFromJSON :: "BaseExecConfig \<Rightarrow> innerExecNode ores" where
  "createExecFromJSON cfg =
     (let baseExec = zero_innerExecNode\<lparr>
            inn_Name := (case getEntranceNodeNameAndID (bc_Name cfg) of
                           Some (entranceName, _) \<Rightarrow> entranceName | None \<Rightarrow> bc_Name cfg),
            inn_Title := bc_Title cfg, inn_Package := bc_Package cfg, inn_Description := bc_Description cfg\<rparr>
      in case rbind (PrepareMaxInPortId baseExec (GetMaxInPortId cfg))
                    (\<lambda>b. PrepareMaxOutPortId b (GetMaxOutPortId cfg)) of
           Inl p \<Rightarrow> RPanic p
         | Inr b \<Rightarrow> (case set_inputs 0 0 (bc_Inputs cfg) b of
                       ROk b' \<Rightarrow> set_outputs False (bc_Outputs cfg) b'
                     | r \<Rightarrow> r))"

definition addInnerExec :: "ExecPool \<Rightarrow> innerExecNode \<Rightarrow> bool \<times> ExecPool" where
  "addInnerExec em exec =
     (if innerExecNodeMap em (innerExecNode_GetName exec) \<noteq> None then (False, em)
      else (True, em\<lparr>innerExecNodeMap := (innerExecNodeMap em)(innerExecNode_GetName exec \<mapsto> exec)\<rparr>))"

definition sort_config :: "BaseExecConfig \<Rightarrow> BaseExecConfig" where
  "sort_config cfg = cfg\<lparr>bc_Inputs := sort_key ic_PortId (bc_Inputs cfg),
     bc_Outputs := sort_key oc_PortId (bc_Outputs cfg)\<rparr>"

fun addConfigs :: "ExecPool \<Rightarrow> BaseExecConfig list \<Rightarrow> unit ores \<times> ExecPool" where
  "addConfigs em [] = (ROk (), em)"
| "addConfigs em (cfg # cfgs) =
     (case createExecFromJSON (sort_config cfg) of
        RErr e \<Rightarrow> (RErr e, em)
      | RPanic p \<Rightarrow> (RPanic p, em)
      | ROk exec \<Rightarrow>
          (let (ok, em') = addInnerExec em exec
           in if \<not> ok then (RErr (NodeError ''exec already registered''), em') else addConfigs em' cfgs))"

section \<open>Registering implementations\<close>

fun exec_GetName :: "exec_kind \<Rightarrow> string" where
  "exec_GetName Entrance_ArrayParam = ''Entrance_ArrayParam''"
| "exec_GetName Entrance_IntParam = ''Entrance_IntParam''"
| "exec_GetName Entrance_Timer = ''Entrance_Timer''"
| "exec_GetName DebugOutput = ''DebugOutput''"
| "exec_GetName Sequence = ''Sequence''"
| "exec_GetName ForeachIntArray = ''ForeachIntArray''"
| "exec_GetName Foreach = ''Foreach''"
| "exec_GetName GetArrayInt = ''GetArrayInt''"
| "exec_GetName GetArrayString = ''GetArrayString''"
| "exec_GetName GetArrayLen = ''GetArrayLen''"
| "exec_GetName BoolIf = ''BoolIf''"
| "exec_GetName GreaterThanInteger = ''GreaterThanInteger''"
| "exec_GetName LessThanInteger = ''LessThanInteger''"
| "exec_GetName EqualInteger = ''EqualInteger''"
| "exec_GetName RangeCompare = ''RangeCompare''"
| "exec_GetName EqualSwitch = ''EqualSwitch''"
| "exec_GetName Probability = ''Probability''"
| "exec_GetName CreateIntArray = ''CreateIntArray''"
| "exec_GetName CreateStringArray = ''CreateStringArray''"
| "exec_GetName AppendIntegerToArray = ''AppendIntegerToArray''"
| "exec_GetName AppendStringToArray = ''AppendStringToArray''"
| "exec_GetName CreateTimer = ''CreateTimer''"
| "exec_GetName CloseTimer = ''CloseTimer''"
| "exec_GetName AppendIntReturn = ''AppendIntReturn''"
| "exec_GetName AppendStringReturn = ''AppendStringReturn''"
| "exec_GetName IntInArray = ''IntInArray''"
| "exec_GetName AddInt = ''AddInt''"
| "exec_GetName SubInt = ''SubInt''"
| "exec_GetName MulInt = ''MulInt''"
| "exec_GetName DivInt = ''DivInt''"
| "exec_GetName ModInt = ''ModInt''"
| "exec_GetName RandNumber = ''RandNumber''"
| "exec_GetName (GetVariablesNode nodeName) = nodeName"
| "exec_GetName (SetVariablesNode nodeName) = nodeName"

definition Register :: "ExecPool \<Rightarrow> exec_kind \<Rightarrow> bool \<times> ExecPool" where
  "Register em exec =
     (case innerExecNodeMap em (exec_GetName exec) of
        None \<Rightarrow> (False, em)
      | Some innerNode \<Rightarrow>
          if execNodeMap em (innerExecNode_GetName innerNode) \<noteq> None then (False, em)
          else (True, em\<lparr>
                  innerExecNodeMap := (innerExecNodeMap em)(exec_GetName exec \<mapsto> SetExec innerNode exec),
                  execNodeMap := (execNodeMap em)(exec_GetName exec \<mapsto> exec)\<rparr>))"

definition GetExec :: "ExecPool \<Rightarrow> string \<Rightarrow> innerExecNode option" where
  "GetExec em name = (case execNodeMap em name of Some exec \<Rightarrow> innerExecNodeMap em name | None \<Rightarrow> None)"

section \<open>Variable nodes\<close>

definition genSetVariablesNodeName :: "string \<Rightarrow> string" where
  "genSetVariablesNodeName typ = ''SetVar'' @ ''_'' @ typ"

definition genGetVariablesNodeName :: "string \<Rightarrow> string" where
  "genGetVariablesNodeName typ = ''GetVar'' @ ''_'' @ typ"

definition add_and_register :: "ExecPool \<Rightarrow> innerExecNode \<Rightarrow> exec_kind \<Rightarrow> unit ores \<times> ExecPool" where
  "add_and_register em baseExec exec =
     (let (ok, em') = addInnerExec em baseExec
      in if \<not> ok then (RErr (NodeError ''exec already registered''), em')
         else (let (ok', em'') = Register em' exec
               in if \<not> ok' then (RErr (NodeError ''exec already registered''), em'') else (ROk (), em'')))"

definition regGetVariables :: "ExecPool \<Rightarrow> string \<Rightarrow> unit ores \<times> ExecPool" where
  "regGetVariables em typ =
     (case PrepareMaxOutPortId (zero_innerExecNode\<lparr>inn_Name := genGetVariablesNodeName typ\<rparr>) 0 of
        Inl p \<Rightarrow> (RPanic p, em)
      | Inr b \<Rightarrow>
          (case NewPortByType typ of
             None \<Rightarrow> (RErr (NodeError ''invalid type''), em)
           | Some p \<Rightarrow>
               add_and_register em (snd (SetOutPortById b 0 (Some p)))
                 (GetVariablesNode (genGetVariablesNodeName typ))))"

definition regSetVariables :: "ExecPool \<Rightarrow> string \<Rightarrow> unit ores \<times> ExecPool" where
  "regSetVariables em typ =
     (case rbind (PrepareMaxInPortId (zero_innerExecNode\<lparr>inn_Name := genSetVariablesNodeName typ\<rparr>) 1)
                 (\<lambda>b. PrepareMaxOutPortId b 1) of
        Inl p \<Rightarrow> (RPanic p, em)
      | Inr b \<Rightarrow>
          (let b1 = snd (SetInPortById b 0 (NewPortByType ''exec''));
               b2 = snd (SetInPortById b1 1 (NewPortByType typ));
               b3 = snd (SetOutPortById b2 0 (NewPortByType ''exec''));
               b4 = snd (SetOutPortById b3 1 (NewPortByType typ));
               exec = SetVariablesNode (genSetVariablesNodeName typ)
           in add_and_register em (SetExec b4 exec) exec))"

fun reg_all :: "(ExecPool \<Rightarrow> string \<Rightarrow> unit ores \<times> ExecPool) \<Rightarrow> string list \<Rightarrow> ExecPool \<Rightarrow> unit ores \<times> ExecPool" where
  "reg_all reg [] em = (ROk (), em)"
| "reg_all reg (t # ts) em =
     (case reg em t of (ROk _, em') \<Rightarrow> reg_all reg ts em' | (r, em') \<Rightarrow> (r, em'))"

definition variable_types :: "string list" where
  "variable_types = [''int'', ''integer'', ''float'', ''string'', ''boolean'', ''bool'', ''array'']"

definition regVariablesNode :: "ExecPool \<Rightarrow> unit ores \<times> ExecPool" where
  "regVariablesNode em =
     (case reg_all regGetVariables variable_types em of
        (ROk _, em') \<Rightarrow> reg_all regSetVariables variable_types em'
      | (r, em') \<Rightarrow> (r, em'))"

section \<open>Entrance names\<close>

lemma Itoa_no_underscore: "CHR ''_'' \<notin> set (Itoa x)"
  by (simp add: Itoa_def Itoa_nat_chars char_digit_def)

lemma getEntrance_roundtrip:
  assumes "CHR ''_'' \<notin> set kind" "in_int64 k"
  shows "getEntranceNodeNameAndID (''Entrance_'' @ kind @ ''_'' @ Itoa k) = Some (''Entrance_'' @ kind, k)"
proof -
  have "Split CHR ''_'' (''Entrance'' @ CHR ''_'' # kind @ CHR ''_'' # Itoa k) = [''Entrance'', kind, Itoa k]"
    using assms(1) by (simp add: Split_append Split_no_sep Itoa_no_underscore)
  then show ?thesis
    using assms(2) by (simp add: getEntranceNodeNameAndID_def HasPrefix_def Entrance_def Atoi_Itoa)
qed

section \<open>Ports without gaps\<close>

lemma SetInPortById_inPort:
  "inPort (snd (SetInPortById em i (Some p))) =
     (if 0 \<le> i \<and> i < int (length (inPort em)) then (inPort em)[nat i := Some p] else inPort em)"
  by (simp add: SetInPortById_def)

lemma SetOutPortById_outPort:
  "outPort (snd (SetOutPortById em i (Some p))) =
     (if 0 \<le> i \<and> i < int (length (outPort em)) then (outPort em)[nat i := Some p] else outPort em)"
  by (simp add: SetOutPortById_def Let_def)

lemma SetPortById_other [simp]:
  "outPort (snd (SetInPortById em i q)) = outPort em" "inPort (snd (SetOutPortById em i q)) = inPort em"
  "inn_Name (snd (SetInPortById em i q)) = inn_Name em" "inn_Name (snd (SetOutPortById em i q)) = inn_Name em"
  "IExecNode (snd (SetInPortById em i q)) = IExecNode em" "IExecNode (snd (SetOutPortById em i q)) = IExecNode em"
  by (simp_all add: SetInPortById_def SetOutPortById_def Let_def)

lemma set_inputs_other:
  "set_inputs i e ins b = ROk b' \<Longrightarrow>
   outPort b' = outPort b \<and> inn_Name b' = inn_Name b \<and> IExecNode b' = IExecNode b \<and>
   length (inPort b') = length (inPort b)"
  by (induction ins arbitrary: i e b)
    (fastforce simp: Let_def SetInPortById_inPort split: if_splits option.splits)+

lemma set_outputs_other:
  "set_outputs h outs b = ROk b' \<Longrightarrow>
   inPort b' = inPort b \<and> inn_Name b' = inn_Name b \<and> IExecNode b' = IExecNode b \<and>
   length (outPort b') = length (outPort b)"
  by (induction outs arbitrary: h b)
    (fastforce simp: Let_def SetOutPortById_outPort split: if_splits option.splits)+

text \<open>Every port that had a value or is named by an input has a value afterwards.\<close>

lemma set_inputs_filled:
  "set_inputs i e ins b = ROk b' \<Longrightarrow> k < length (inPort b) \<Longrightarrow>
   inPort b ! k \<noteq> None \<or> int k \<in> ic_PortId ` set ins \<Longrightarrow> inPort b' ! k \<noteq> None"
proof (induction ins arbitrary: i e b)
  case (Cons x xs)
  from Cons.prems(1) obtain i' e' p where
    step: "set_inputs i' e' xs (snd (SetInPortById b (ic_PortId x) (Some p))) = ROk b'"
    by (auto simp: Let_def split: if_splits option.splits)
  let ?b = "snd (SetInPortById b (ic_PortId x) (Some p))"
  have "k < length (inPort ?b)" using Cons.prems(2) by (simp add: SetInPortById_inPort)
  moreover have "inPort ?b ! k \<noteq> None \<or> int k \<in> ic_PortId ` set xs"
  proof (cases "ic_PortId x = int k")
    case True
    then show ?thesis using Cons.prems(2) by (simp add: SetInPortById_inPort)
  next
    case False
    then have "0 \<le> ic_PortId x \<Longrightarrow> nat (ic_PortId x) \<noteq> k" by linarith
    with False Cons.prems(3) show ?thesis by (auto simp: SetInPortById_inPort)
  qed
  ultimately show ?case by (rule Cons.IH [OF step])
qed simp

lemma set_outputs_filled:
  "set_outputs h outs b = ROk b' \<Longrightarrow> k < length (outPort b) \<Longrightarrow>
   outPort b ! k \<noteq> None \<or> int k \<in> oc_PortId ` set outs \<Longrightarrow> outPort b' ! k \<noteq> None"
proof (induction outs arbitrary: h b)
  case (Cons x xs)
  from Cons.prems(1) obtain h' p where
    step: "set_outputs h' xs (snd (SetOutPortById b (oc_PortId x) (Some p))) = ROk b'"
    by (auto simp: Let_def split: if_splits option.splits)
  let ?b = "snd (SetOutPortById b (oc_PortId x) (Some p))"
  have "k < length (outPort ?b)" using Cons.prems(2) by (simp add: SetOutPortById_outPort)
  moreover have "outPort ?b ! k \<noteq> None \<or> int k \<in> oc_PortId ` set xs"
  proof (cases "oc_PortId x = int k")
    case True
    then show ?thesis using Cons.prems(2) by (simp add: SetOutPortById_outPort)
  next
    case False
    then have "0 \<le> oc_PortId x \<Longrightarrow> nat (oc_PortId x) \<noteq> k" by linarith
    with False Cons.prems(3) show ?thesis by (auto simp: SetOutPortById_outPort)
  qed
  ultimately show ?case by (rule Cons.IH [OF step])
qed simp

lemma max_port_id_ge: "-1 \<le> max_port_id (-1) js"
  by (simp add: max_port_id_eq Max_ge_iff)

definition port_numbers_dense :: "BaseExecConfig \<Rightarrow> bool" where
  "port_numbers_dense cfg \<longleftrightarrow>
     (\<forall>k. 0 \<le> k \<and> k \<le> GetMaxInPortId cfg \<longrightarrow> k \<in> ic_PortId ` set (bc_Inputs cfg)) \<and>
     (\<forall>k. 0 \<le> k \<and> k \<le> GetMaxOutPortId cfg \<longrightarrow> k \<in> oc_PortId ` set (bc_Outputs cfg))"

text \<open>\<^verbatim>\<open>createExecFromJSON\<close> never panics, and what it builds goes through the two loops.\<close>

lemma createExec_loops:
  obtains b where "createExecFromJSON cfg =
      (case set_inputs 0 0 (bc_Inputs cfg) b of ROk b' \<Rightarrow> set_outputs False (bc_Outputs cfg) b' | r \<Rightarrow> r)"
    "length (inPort b) = nat (GetMaxInPortId cfg + 1)" "length (outPort b) = nat (GetMaxOutPortId cfg + 1)"
    "set (inPort b) \<subseteq> {None}" "set (outPort b) \<subseteq> {None}"
    "inn_Name b = (case getEntranceNodeNameAndID (bc_Name cfg) of Some (n, _) \<Rightarrow> n | None \<Rightarrow> bc_Name cfg)"
proof -
  have "0 \<le> GetMaxInPortId cfg + 1" "0 \<le> GetMaxOutPortId cfg + 1"
    using max_port_id_ge [of "map ic_PortId (bc_Inputs cfg)"] max_port_id_ge [of "map oc_PortId (bc_Outputs cfg)"]
    unfolding GetMaxInPortId_def GetMaxOutPortId_def by linarith+
  then show ?thesis
    by (intro that [of "zero_innerExecNode\<lparr>
            inn_Name := (case getEntranceNodeNameAndID (bc_Name cfg) of Some (n, _) \<Rightarrow> n | None \<Rightarrow> bc_Name cfg),
            inn_Title := bc_Title cfg, inn_Package := bc_Package cfg, inn_Description := bc_Description cfg,
            inPort := replicate (nat (GetMaxInPortId cfg + 1)) None,
            outPort := replicate (nat (GetMaxOutPortId cfg + 1)) None\<rparr>"])
      (auto simp: createExecFromJSON_def PrepareMaxInPortId_def PrepareMaxOutPortId_def go_make_def)
qed

lemma createExec_no_nil:
  assumes "createExecFromJSON cfg = ROk b" "port_numbers_dense cfg"
  shows "None \<notin> set (inPort b)" "None \<notin> set (outPort b)"
proof -
  obtain b0 b1 where b: "set_inputs 0 0 (bc_Inputs cfg) b0 = ROk b1"
    "set_outputs False (bc_Outputs cfg) b1 = ROk b"
    "length (inPort b0) = nat (GetMaxInPortId cfg + 1)" "length (outPort b0) = nat (GetMaxOutPortId cfg + 1)"
    by (rule createExec_loops [of cfg]) (use assms(1) in \<open>auto split: ores.splits\<close>)
  note o1 = set_inputs_other [OF b(1)] and o2 = set_outputs_other [OF b(2)]
  have "inPort b ! k \<noteq> None" if "k < length (inPort b)" for k
    using set_inputs_filled [OF b(1), of k] that assms(2) b(3) o1 o2 by (auto simp: port_numbers_dense_def)
  moreover have "outPort b ! k \<noteq> None" if "k < length (outPort b)" for k
    using set_outputs_filled [OF b(2), of k] that assms(2) b(4) o1 o2 by (auto simp: port_numbers_dense_def)
  ultimately show "None \<notin> set (inPort b)" "None \<notin> set (outPort b)"
    by (metis in_set_conv_nth)+
qed

lemma port_is_exec_ok: "None \<notin> set ps \<Longrightarrow> \<exists>r. port_is_exec ps i = Inr r"
proof -
  assume n: "None \<notin> set ps"
  show ?thesis
  proof (cases "i \<ge> int (length ps) \<or> i < 0")
    case False
    then have "ps ! nat i \<in> set ps" by (intro nth_mem) linarith
    with n False show ?thesis by (cases "ps ! nat i") (auto simp: port_is_exec_def)
  qed (auto simp: port_is_exec_def)
qed

text \<open>Execution outputs come before data outputs.\<close>

definition exec_first :: "port option list \<Rightarrow> bool" where
  "exec_first ps \<longleftrightarrow> (\<forall>i j p q. i < j \<longrightarrow> j < length ps \<longrightarrow> ps ! i = Some p \<longrightarrow> ps ! j = Some q \<longrightarrow>
     Port_IsPortExec q \<longrightarrow> Port_IsPortExec p)"

lemma createPort_data: "createPortByDataType t = Some p \<Longrightarrow> \<not> Port_IsPortExec p"
  by (auto simp: createPortByDataType_def Let_def new_port_defs split: if_splits)

lemma exec_first_data:
  assumes "exec_first ps" "\<And>k q. k < length ps \<Longrightarrow> ps ! k = Some q \<Longrightarrow> k \<le> i" "\<not> Port_IsPortExec p"
  shows "exec_first (ps[i := Some p])"
  unfolding exec_first_def
proof (intro allI impI)
  fix k j a b
  assume *: "k < j" "j < length (ps[i := Some p])" "ps[i := Some p] ! k = Some a"
    "ps[i := Some p] ! j = Some b" "Port_IsPortExec b"
  then have "j \<noteq> i" using assms(3) by auto
  with * have j: "ps ! j = Some b" by simp
  with assms(2) [of j] * have "k \<noteq> i" by auto
  with * j assms(1) show "Port_IsPortExec a" unfolding exec_first_def by auto
qed

lemma set_outputs_exec_first:
  assumes "set_outputs h outs b = ROk b'" "sorted (map oc_PortId outs)" "exec_first (outPort b)"
    and "\<And>k q x. k < length (outPort b) \<Longrightarrow> outPort b ! k = Some q \<Longrightarrow> x \<in> set outs \<Longrightarrow> int k \<le> oc_PortId x"
    and "\<not> h \<Longrightarrow> (\<forall>k q. k < length (outPort b) \<longrightarrow> outPort b ! k = Some q \<longrightarrow> Port_IsPortExec q)"
  shows "exec_first (outPort b')"
  using assms
proof (induction outs arbitrary: h b)
  case (Cons x xs)
  let ?i = "oc_PortId x"
  let ?b = "\<lambda>p. snd (SetOutPortById b ?i (Some p))"
  have places: "int k \<le> oc_PortId y"
    if "k < length (outPort (?b p))" "outPort (?b p) ! k = Some q" "y \<in> set xs" for p k q y
  proof (cases "int k = ?i")
    case True
    with Cons.prems(2) that(3) show ?thesis by auto
  next
    case False
    then have "outPort b ! k = Some q" "k < length (outPort b)"
      using that by (auto simp: SetOutPortById_outPort split: if_splits)
    then show ?thesis using Cons.prems(4) that(3) by auto
  qed
  consider (exec) "\<not> h" "set_outputs h xs (?b NewPortExec) = ROk b'"
    | (data) p where "\<not> Port_IsPortExec p" "set_outputs True xs (?b p) = ROk b'"
    using Cons.prems(1) createPort_data by (fastforce simp: Let_def split: if_splits option.splits)
  then show ?case
  proof cases
    case exec
    have all: "Port_IsPortExec q" if "k < length (outPort (?b NewPortExec))" "outPort (?b NewPortExec) ! k = Some q" for k q
    proof (cases "int k = ?i")
      case True
      then have "nat ?i = k" by linarith
      with that True show ?thesis by (auto simp: SetOutPortById_outPort NewPortExec_def split: if_splits)
    next
      case False
      then have "outPort b ! k = Some q" "k < length (outPort b)"
        using that by (auto simp: SetOutPortById_outPort split: if_splits)
      then show ?thesis using Cons.prems(5) exec(1) by blast
    qed
    then have "exec_first (outPort (?b NewPortExec))" unfolding exec_first_def by (meson less_trans)
    with exec all Cons.prems(2) places show ?thesis by (intro Cons.IH [OF exec(2)]) auto
  next
    case data
    have "exec_first (outPort (?b p))"
      using Cons.prems(3) exec_first_data [of "outPort b" "nat ?i" p] Cons.prems(4) data(1)
      by (fastforce simp: SetOutPortById_outPort)
    with data Cons.prems(2) places show ?thesis by (intro Cons.IH [OF data(2)]) auto
  qed
qed simp

lemma createExec_exec_first:
  assumes "createExecFromJSON (sort_config cfg) = ROk b"
  shows "exec_first (outPort b)"
proof -
  obtain b0 b1 where b: "set_inputs 0 0 (bc_Inputs (sort_config cfg)) b0 = ROk b1"
    "set_outputs False (bc_Outputs (sort_config cfg)) b1 = ROk b" "set (outPort b0) \<subseteq> {None}"
    by (rule createExec_loops [of "sort_config cfg"]) (use assms(1) in \<open>auto split: ores.splits\<close>)
  have none: "outPort b1 ! k = None" if "k < length (outPort b1)" for k
    using b(3) nth_mem [OF that] set_inputs_other [OF b(1)] by auto
  show ?thesis
    by (rule set_outputs_exec_first [OF b(2)]) (auto simp: none exec_first_def sort_config_def)
qed

section \<open>The pool\<close>

definition pool_inv :: "ExecPool \<Rightarrow> bool" where
  "pool_inv em \<longleftrightarrow>
     (\<forall>n inner. innerExecNodeMap em n = Some inner \<longrightarrow> inn_Name inner = n) \<and>
     (\<forall>n e. execNodeMap em n = Some e \<longrightarrow>
        exec_GetName e = n \<and> (\<exists>inner. innerExecNodeMap em n = Some inner \<and> IExecNode inner = Some e))"

lemma addInnerExec_inv: "pool_inv em \<Longrightarrow> pool_inv (snd (addInnerExec em exec))"
  unfolding pool_inv_def addInnerExec_def innerExecNode_GetName_def
  by (auto split: if_splits) (metis option.distinct(1))+

lemma Register_inv: "pool_inv em \<Longrightarrow> pool_inv (snd (Register em exec))"
  by (auto simp: pool_inv_def Register_def SetExec_def innerExecNode_GetName_def split: option.split)

lemma add_and_register_inv: "pool_inv em \<Longrightarrow> pool_inv (snd (add_and_register em b e))"
  using addInnerExec_inv [of em b] Register_inv [of "snd (addInnerExec em b)" e]
  by (auto simp: add_and_register_def Let_def split: prod.split)

lemma reg_all_inv:
  "(\<And>em t. pool_inv em \<Longrightarrow> pool_inv (snd (reg em t))) \<Longrightarrow> pool_inv em \<Longrightarrow> pool_inv (snd (reg_all reg ts em))"
proof (induction ts arbitrary: em)
  case (Cons t ts)
  obtain r em' where r: "reg em t = (r, em')" by (cases "reg em t")
  then have "pool_inv em'" using Cons.prems(1) [OF Cons.prems(2), of t] by simp
  then show ?case using r Cons.IH [OF Cons.prems(1)] by (cases r) auto
qed simp

lemma regVariablesNode_inv: "pool_inv em \<Longrightarrow> pool_inv (snd (regVariablesNode em))"
proof -
  have g: "pool_inv em \<Longrightarrow> pool_inv (snd (regGetVariables em t))" for em t
    by (auto simp: regGetVariables_def add_and_register_inv split: sum.split option.split)
  have s: "pool_inv em \<Longrightarrow> pool_inv (snd (regSetVariables em t))" for em t
    by (auto simp: regSetVariables_def add_and_register_inv Let_def split: sum.split)
  assume "pool_inv em"
  then show ?thesis
    using reg_all_inv [of regGetVariables em variable_types, OF g]
      reg_all_inv [of regSetVariables "snd (reg_all regGetVariables variable_types em)" variable_types, OF s]
    by (auto simp: regVariablesNode_def split: prod.splits ores.splits)
qed

lemma addConfigs_inv: "pool_inv em \<Longrightarrow> pool_inv (snd (addConfigs em cfgs))"
proof (induction cfgs arbitrary: em)
  case (Cons cfg cfgs)
  then show ?case using addInnerExec_inv [OF Cons.prems]
    by (auto simp: Let_def split: ores.split prod.split)
      (metis snd_conv)+
qed simp

text \<open>Registering an implementation: exactly the declared and not yet registered classes accept it, and
  the pool then hands out the class joined with it.\<close>

lemma Register_spec:
  assumes "pool_inv em"
  shows "fst (Register em e) \<longleftrightarrow>
      innerExecNodeMap em (exec_GetName e) \<noteq> None \<and> execNodeMap em (exec_GetName e) = None"
    and "fst (Register em e) \<Longrightarrow>
      (\<exists>inner. GetExec (snd (Register em e)) (exec_GetName e) = Some inner \<and> IExecNode inner = Some e)"
    and "n \<noteq> exec_GetName e \<Longrightarrow> GetExec (snd (Register em e)) n = GetExec em n"
    and "fst (Register em e) \<Longrightarrow> \<not> fst (Register (snd (Register em e)) e)"
  using assms
  by (auto simp: pool_inv_def Register_def GetExec_def SetExec_def innerExecNode_GetName_def
      split: option.split)

end
