(* ===== verification/GraphPool.thy ===== *)
theory GraphPool
  imports ExecPool GraphFuel
begin

text \<open>
  Loading graphs (\<^verbatim>\<open>src/util/blueprint/graphpool.go\<close> and the configuration types of \<^verbatim>\<open>graph.go\<close>).
  For every entrance the loader builds a table of placed nodes of its own (\<open>genAllNode\<close>), follows the
  execution lines from the entrance (\<open>prepareOneNode\<close>) and joins the data lines (\<open>prepareInPort\<close>).
  \<^item> A pointer to a placed node is its key in the table; an assignment through it is a table update.
  \<^item> \<open>prepareOneNode\<close> recurses through the execution lines with a counter of visited nodes that makes it
    give up beyond 256; the model takes fuel, and 257 is always enough (\<open>prepareOneNode_total\<close>).
  \<^item> Walking the directory and decoding the files is left out; a decoded configuration is the input.
  Shown: a graph the loader accepts has no cycle of execution lines, so running it terminates unless
  data lines form a cycle of nodes without execution port (\<open>accepted_ranked\<close>); what the loader does not
  see, a data cycle, makes the run endless (\<open>self_cycle_runs_forever\<close>).
\<close>

section \<open>Configuration\<close>

record nodeConfig =
  nc_Id :: string
  nc_Class :: string
  nc_PortDefault :: "string \<rightharpoonup> go_any"

record edgeConfig =
  SourceNodeID :: string
  DesNodeId :: string
  SourcePortId :: int
  DesPortId :: int

record variablesConfig =
  vc_Name :: string
  vc_Type :: string

record graphConfig =
  gc_Nodes :: "nodeConfig list"
  gc_Edges :: "edgeConfig list"
  gc_Variables :: "variablesConfig list"

definition GetVariablesByName :: "graphConfig \<Rightarrow> string \<Rightarrow> variablesConfig option" where
  "GetVariablesByName gc varName = find (\<lambda>v. vc_Name v = varName) (gc_Variables gc)"

definition GetNodeByID :: "graphConfig \<Rightarrow> string \<Rightarrow> nodeConfig option" where
  "GetNodeByID gc nodeID = find (\<lambda>n. nc_Id n = nodeID) (gc_Nodes gc)"

section \<open>Placing the nodes\<close>

definition TrimPrefix :: "string \<Rightarrow> string \<Rightarrow> string" where
  "TrimPrefix s p = (if HasPrefix s p then drop (length p) s else s)"

definition variable_type :: "graphConfig \<Rightarrow> string \<Rightarrow> string" where
  "variable_type cfg varName = (case GetVariablesByName cfg varName of None \<Rightarrow> [] | Some v \<Rightarrow> vc_Type v)"

definition genVarExec :: "ExecPool \<Rightarrow> nodeConfig \<Rightarrow> graphConfig \<Rightarrow> innerExecNode option \<times> string" where
  "genVarExec pool nodeCfg cfg =
     (let c = nc_Class nodeCfg
      in if \<not> HasPrefix c ''Get_'' \<and> \<not> HasPrefix c ''Set_'' then (GetExec pool c, [])
         else if HasPrefix c ''Get_''
         then (let varName = TrimPrefix c ''Get_''
               in (GetExec pool (genGetVariablesNodeName (variable_type cfg varName)), varName))
         else (let varName = TrimPrefix c ''Set_''
               in (GetExec pool (genSetVariablesNodeName (variable_type cfg varName)), varName)))"

definition place_node :: "nodeConfig \<Rightarrow> innerExecNode \<Rightarrow> string \<Rightarrow> execNode" where
  "place_node node exec varName =
     \<lparr>en_Id = nc_Id node, en_execNode = innerExecNode_GetName exec, nextNode = [], nextIdx = 0,
      preInPort = replicate (nat (GetInPortCount exec)) None, inPortDefaultValue = nc_PortDefault node,
      variableName = varName, beConnect = False, isEntrance = False\<rparr>"

fun gen_nodes :: "ExecPool \<Rightarrow> graphConfig \<Rightarrow> nodeConfig list \<Rightarrow> nodetab \<Rightarrow> nodetab ores" where
  "gen_nodes pool cfg [] nodes = ROk nodes"
| "gen_nodes pool cfg (node # rest) nodes =
     (let className = (case getEntranceNodeNameAndID (nc_Class node) of
                         Some (name, _) \<Rightarrow> name | None \<Rightarrow> nc_Class node);
          (exec, varName) = (case GetExec pool className of
                               Some e \<Rightarrow> (Some e, []) | None \<Rightarrow> genVarExec pool node cfg)
      in case exec of
           None \<Rightarrow> RErr (NodeError ''node has not been registered'')
         | Some e \<Rightarrow> gen_nodes pool cfg rest (nodes(nc_Id node \<mapsto> place_node node e varName)))"

definition genAllNode :: "ExecPool \<Rightarrow> graphConfig \<Rightarrow> nodetab ores" where
  "genAllNode pool cfg = gen_nodes pool cfg (gc_Nodes cfg) Map.empty"

section \<open>Execution lines\<close>

definition findOutNextNode :: "graphConfig \<Rightarrow> nodetab \<Rightarrow> string \<Rightarrow> int \<Rightarrow> string option" where
  "findOutNextNode cfg tab sourceNodeID sourcePortIdx =
     (case find (\<lambda>e. SourceNodeID e = sourceNodeID \<and> SourcePortId e = sourcePortIdx) (gc_Edges cfg) of
        None \<Rightarrow> None
      | Some edge \<Rightarrow> if tab (DesNodeId edge) = None then None else Some (DesNodeId edge))"

definition upd_node :: "string \<Rightarrow> (execNode \<Rightarrow> execNode) \<Rightarrow> nodetab \<Rightarrow> nodetab" where
  "upd_node nid f tab = (case tab nid of None \<Rightarrow> tab | Some en \<Rightarrow> tab(nid \<mapsto> f en))"

definition connect :: "string option \<Rightarrow> nodetab \<Rightarrow> nodetab" where
  "connect nxt tab = (case nxt of None \<Rightarrow> tab | Some m \<Rightarrow> upd_node m (beConnect_update (\<lambda>_. True)) tab)"

text \<open>The loop over the leading execution ports of a node; a missing port is a nil dereference.\<close>

fun link_outs :: "graphConfig \<Rightarrow> string \<Rightarrow> int \<Rightarrow> port option list \<Rightarrow> nodetab \<Rightarrow> unit ores \<times> nodetab" where
  "link_outs cfg nid idx [] tab = (ROk (), tab)"
| "link_outs cfg nid idx (None # ps) tab = (RPanic NilDereference, tab)"
| "link_outs cfg nid idx (Some p # ps) tab =
     (if Port_IsPortExec p
      then (let nxt = findOutNextNode cfg tab nid idx
            in link_outs cfg nid (idx + 1) ps
                 (connect nxt (upd_node nid (nextNode_update (\<lambda>ns. ns @ [nxt])) tab)))
      else (ROk (), tab))"

type_synonym prep = "nodetab \<Rightarrow> int \<Rightarrow> (unit ores \<times> nodetab \<times> int) option"

fun prep_nexts :: "(string \<Rightarrow> prep) \<Rightarrow> string option list \<Rightarrow> prep" where
  "prep_nexts rec [] tab recursion = Some (ROk (), tab, recursion)"
| "prep_nexts rec (None # ns) tab recursion = prep_nexts rec ns tab recursion"
| "prep_nexts rec (Some m # ns) tab recursion =
     (case rec m tab recursion of
        Some (ROk _, tab', recursion') \<Rightarrow> prep_nexts rec ns tab' recursion'
      | r \<Rightarrow> r)"

definition next_ids :: "nodetab \<Rightarrow> string \<Rightarrow> string option list" where
  "next_ids tab nid = (case tab nid of None \<Rightarrow> [] | Some en \<Rightarrow> nextNode en)"

definition prepare_body :: "ExecPool \<Rightarrow> graphConfig \<Rightarrow> (string \<Rightarrow> prep) \<Rightarrow> string \<Rightarrow> prep" where
  "prepare_body pool cfg rec nid tab recursion =
     (let recursion = recursion + 1
      in if recursion > 256 then Some (RErr (NodeError ''recursion too deep''), tab, recursion)
         else case tab nid of
                None \<Rightarrow> Some (RPanic NilDereference, tab, recursion)
              | Some en \<Rightarrow>
                  (case GetExec pool (en_execNode en) of
                     None \<Rightarrow> Some (RPanic NilDereference, tab, recursion)
                   | Some inner \<Rightarrow>
                       (case link_outs cfg nid 0 (outPort inner) tab of
                          (ROk _, tab') \<Rightarrow>
                            prep_nexts rec (next_ids tab' nid) tab' recursion
                        | (r, tab') \<Rightarrow> Some (r, tab', recursion))))"

primrec prepareOneNode :: "ExecPool \<Rightarrow> graphConfig \<Rightarrow> nat \<Rightarrow> string \<Rightarrow> prep" where
  "prepareOneNode pool cfg 0 = (\<lambda>nid tab recursion. None)"
| "prepareOneNode pool cfg (Suc n) = prepare_body pool cfg (prepareOneNode pool cfg n)"

section \<open>Data lines\<close>

definition findPreInPortNode :: "graphConfig \<Rightarrow> nodetab \<Rightarrow> string \<Rightarrow> int \<Rightarrow> (string \<times> int) option" where
  "findPreInPortNode cfg tab nid portIdx =
     (case find (\<lambda>e. DesNodeId e = nid \<and> DesPortId e = portIdx) (gc_Edges cfg) of
        None \<Rightarrow> None
      | Some edge \<Rightarrow> if tab (SourceNodeID edge) = None then None
                     else Some (SourceNodeID edge, SourcePortId edge))"

fun pre_loop :: "graphConfig \<Rightarrow> nodetab \<Rightarrow> innerExecNode \<Rightarrow> nat \<Rightarrow> int \<Rightarrow> execNode \<Rightarrow> execNode go" where
  "pre_loop cfg tab inner 0 i en = Inr en"
| "pre_loop cfg tab inner (Suc n) i en =
     rbind (IsInPortExec inner i) (\<lambda>ex.
       if ex then pre_loop cfg tab inner n (i + 1) en
       else case findPreInPortNode cfg tab (en_Id en) i of
              None \<Rightarrow> pre_loop cfg tab inner n (i + 1) en
            | Some pre \<Rightarrow> rbind (slice_set (preInPort en) i (Some pre)) (\<lambda>ps.
                pre_loop cfg tab inner n (i + 1) (en\<lparr>preInPort := ps\<rparr>)))"

definition preparePreInPortNode :: "ExecPool \<Rightarrow> graphConfig \<Rightarrow> nodetab \<Rightarrow> execNode \<Rightarrow> execNode go" where
  "preparePreInPortNode pool cfg tab en =
     (case GetExec pool (en_execNode en) of
        None \<Rightarrow> Inl NilDereference
      | Some inner \<Rightarrow> pre_loop cfg tab inner (nat (GetInPortCount inner)) 0 en)"

text \<open>The order in which the source visits the nodes does not matter: each visit changes its own node
  and reads only which nodes exist. A panic in any of them is the outcome.\<close>

definition prepareInPort :: "ExecPool \<Rightarrow> graphConfig \<Rightarrow> string list \<Rightarrow> nodetab \<Rightarrow> nodetab go" where
  "prepareInPort pool cfg ids tab =
     foldr (\<lambda>nid acc. rbind acc (\<lambda>t. case tab nid of
         None \<Rightarrow> Inr t
       | Some en \<Rightarrow> rbind (preparePreInPortNode pool cfg tab en) (\<lambda>en'. Inr (t(nid \<mapsto> en')))))
       ids (Inr tab)"

section \<open>Entrances\<close>

record GraphPool =
  mapGraphs :: "string \<rightharpoonup> (int \<rightharpoonup> (nodetab \<times> string))"
  execPool :: ExecPool

definition prepareOneEntrance :: "nat \<Rightarrow> GraphPool \<Rightarrow> string \<Rightarrow> int \<Rightarrow> nodeConfig \<Rightarrow> graphConfig \<Rightarrow>
    (unit ores \<times> GraphPool) option" where
  "prepareOneEntrance n gp graphName entranceID nodeCfg cfg =
     (case genAllNode (execPool gp) cfg of
        RErr e \<Rightarrow> Some (RErr e, gp)
      | RPanic p \<Rightarrow> Some (RPanic p, gp)
      | ROk mapNodes \<Rightarrow>
          (case mapNodes (nc_Id nodeCfg) of
             None \<Rightarrow> Some (RErr (NodeError ''entrance node not found''), gp)
           | Some _ \<Rightarrow>
               (case prepareOneNode (execPool gp) cfg n (nc_Id nodeCfg)
                       (upd_node (nc_Id nodeCfg) (isEntrance_update (\<lambda>_. True)) mapNodes) 0 of
                  None \<Rightarrow> None
                | Some (RErr e, _) \<Rightarrow> Some (RErr e, gp)
                | Some (RPanic p, _) \<Rightarrow> Some (RPanic p, gp)
                | Some (ROk _, tab, _) \<Rightarrow>
                    (case prepareInPort (execPool gp) cfg (map nc_Id (gc_Nodes cfg)) tab of
                       Inl p \<Rightarrow> Some (RPanic p, gp)
                     | Inr tab' \<Rightarrow>
                         (let gr = (case mapGraphs gp graphName of None \<Rightarrow> Map.empty | Some g \<Rightarrow> g)
                          in Some (ROk (), gp\<lparr>mapGraphs := (mapGraphs gp)(graphName \<mapsto>
                                 gr(entranceID \<mapsto> (tab', nc_Id nodeCfg)))\<rparr>))))))"

fun prepare_entrances :: "nat \<Rightarrow> string \<Rightarrow> graphConfig \<Rightarrow> nodeConfig list \<Rightarrow> GraphPool \<Rightarrow>
    (unit ores \<times> GraphPool) option" where
  "prepare_entrances n graphName cfg [] gp = Some (ROk (), gp)"
| "prepare_entrances n graphName cfg (node # nodes) gp =
     (case getEntranceNodeNameAndID (nc_Class node) of
        None \<Rightarrow> prepare_entrances n graphName cfg nodes gp
      | Some (_, entranceID) \<Rightarrow>
          (case prepareOneEntrance n gp graphName entranceID node cfg of
             Some (ROk _, gp') \<Rightarrow> prepare_entrances n graphName cfg nodes gp'
           | r \<Rightarrow> r))"

definition prepareGraph :: "nat \<Rightarrow> GraphPool \<Rightarrow> string \<Rightarrow> graphConfig \<Rightarrow> (unit ores \<times> GraphPool) option" where
  "prepareGraph n gp graphName cfg = prepare_entrances n graphName cfg (gc_Nodes cfg) gp"

definition GetBaseGraph :: "GraphPool \<Rightarrow> string \<Rightarrow> (int \<rightharpoonup> (nodetab \<times> string)) option" where
  "GetBaseGraph gp graphName = mapGraphs gp graphName"

definition GraphPool_Create :: "GraphPool \<Rightarrow> string \<Rightarrow> int \<Rightarrow> Graph option" where
  "GraphPool_Create gp graphName gid =
     (case mapGraphs gp graphName of
        None \<Rightarrow> None
      | Some gr \<Rightarrow> Some \<lparr>graphFileName = graphName, graphID = gid, entrance = gr, gr_context = Map.empty,
          variables = Map.empty, globalVariables = None, mapTimerID = None, logger = False\<rparr>)"

section \<open>Following the execution lines\<close>

text \<open>The counter: it only grows, a successful visit leaves it at 256 or below, and fuel 257 is enough.\<close>

lemma prep_nexts_counter:
  assumes "\<And>m tab c tab' c'. rec m tab c = Some (ROk (), tab', c') \<Longrightarrow> c \<le> c' \<and> c' \<le> 256"
    and "prep_nexts rec ns tab c = Some (ROk (), tab', c')" "c \<le> 256"
  shows "c \<le> c' \<and> c' \<le> 256"
  using assms(2,3)
proof (induction ns arbitrary: tab c)
  case (Cons x ns)
  show ?case
  proof (cases x)
    case None
    with Cons show ?thesis by simp
  next
    case (Some m)
    with Cons.prems(1) obtain t1 c1 where 1: "rec m tab c = Some (ROk (), t1, c1)"
      "prep_nexts rec ns t1 c1 = Some (ROk (), tab', c')"
      by (auto split: option.splits ores.splits)
    from assms(1) [OF 1(1)] Cons.IH [OF 1(2)] show ?thesis by linarith
  qed
qed simp

lemma prepareOneNode_counter:
  "prepareOneNode pool cfg n nid tab c = Some (ROk (), tab', c') \<Longrightarrow> c \<le> c' \<and> c' \<le> 256"
proof (induction n arbitrary: nid tab c tab' c')
  case (Suc n)
  from Suc.prems obtain t1 ns where "c + 1 \<le> 256"
    "prep_nexts (prepareOneNode pool cfg n) ns t1 (c + 1) = Some (ROk (), tab', c')"
    by (auto simp: prepare_body_def Let_def split: if_splits option.splits prod.splits ores.splits)
  with prep_nexts_counter [where rec = "prepareOneNode pool cfg n", of ns t1 "c + 1" tab' c'] Suc.IH
  have "c + 1 \<le> c' \<and> c' \<le> 256" by blast
  then show ?case by simp
qed simp

lemma prep_nexts_total:
  assumes "\<And>m tab c. lo \<le> c \<Longrightarrow> c \<le> 256 \<Longrightarrow> rec m tab c \<noteq> None"
    and "\<And>m tab c tab' c'. rec m tab c = Some (ROk (), tab', c') \<Longrightarrow> c \<le> c' \<and> c' \<le> 256"
    and "lo \<le> c" "c \<le> 256"
  shows "prep_nexts rec ns tab c \<noteq> None"
  using assms(3,4)
proof (induction ns arbitrary: tab c)
  case (Cons x ns)
  show ?case
  proof (cases x)
    case None
    with Cons show ?thesis by simp
  next
    case (Some m)
    from assms(1) [OF Cons.prems, of m tab] obtain r t1 c1 where r: "rec m tab c = Some (r, t1, c1)" by auto
    show ?thesis
    proof (cases r)
      case (ROk u)
      with r assms(2) [of m tab c t1 c1] Cons.prems have "lo \<le> c1" "c1 \<le> 256" by auto
      from Cons.IH [OF this] Some r ROk show ?thesis by simp
    qed (use Some r in auto)
  qed
qed simp

lemma prepareOneNode_total:
  "257 \<le> c + int n \<Longrightarrow> c \<le> 256 \<Longrightarrow> prepareOneNode pool cfg n nid tab c \<noteq> None"
proof (induction n arbitrary: nid tab c)
  case (Suc n)
  have "prep_nexts (prepareOneNode pool cfg n) ns t1 (c + 1) \<noteq> None" if "c + 1 \<le> 256" for ns t1
    using prep_nexts_total [where lo = "c + 1" and rec = "prepareOneNode pool cfg n"] Suc.IH Suc.prems that
      prepareOneNode_counter [of pool cfg n] by force
  then show ?case
    by (auto simp: prepare_body_def Let_def split: option.splits prod.splits ores.splits)
qed simp

text \<open>The successors a visit records for a node: fixed by the configuration and the set of nodes.\<close>

definition exec_ports :: "port option list \<Rightarrow> nat" where
  "exec_ports ps = length (takeWhile (\<lambda>p. case p of Some q \<Rightarrow> Port_IsPortExec q | None \<Rightarrow> False) ps)"

definition succs :: "ExecPool \<Rightarrow> graphConfig \<Rightarrow> nodetab \<Rightarrow> string \<Rightarrow> string option list" where
  "succs pool cfg tab nid =
     (case tab nid of
        None \<Rightarrow> []
      | Some en \<Rightarrow>
          (case GetExec pool (en_execNode en) of
             None \<Rightarrow> []
           | Some inner \<Rightarrow> map (\<lambda>i. findOutNextNode cfg tab nid (int i)) [0..<exec_ports (outPort inner)]))"

text \<open>Loading changes of a node only its successors and its connection mark.\<close>

definition same_node :: "execNode \<Rightarrow> execNode \<Rightarrow> bool" where
  "same_node en en' \<longleftrightarrow> en_Id en' = en_Id en \<and> en_execNode en' = en_execNode en \<and>
     preInPort en' = preInPort en \<and> isEntrance en' = isEntrance en \<and> (beConnect en \<longrightarrow> beConnect en')"

definition same_tab :: "nodetab \<Rightarrow> nodetab \<Rightarrow> bool" where
  "same_tab tab tab' \<longleftrightarrow> (\<forall>x. rel_option same_node (tab x) (tab' x))"

lemma same_node_refl [simp]: "same_node en en"
  by (simp add: same_node_def)

lemma same_node_trans: "same_node a b \<Longrightarrow> same_node b c \<Longrightarrow> same_node a c"
  by (simp add: same_node_def)

lemma same_tab_refl [simp]: "same_tab tab tab"
  by (simp add: same_tab_def option.rel_refl)

lemma same_tab_trans: "same_tab a b \<Longrightarrow> same_tab b c \<Longrightarrow> same_tab a c"
  unfolding same_tab_def
proof (intro allI)
  fix x
  assume "\<forall>x. rel_option same_node (a x) (b x)" "\<forall>x. rel_option same_node (b x) (c x)"
  then have "rel_option same_node (a x) (b x)" "rel_option same_node (b x) (c x)" by blast+
  then show "rel_option same_node (a x) (c x)"
    by (cases "a x"; cases "b x"; cases "c x") (auto intro: same_node_trans)
qed

lemma same_tab_dom: "same_tab tab tab' \<Longrightarrow> tab' x = None \<longleftrightarrow> tab x = None"
proof -
  assume "same_tab tab tab'"
  then have "rel_option same_node (tab x) (tab' x)" by (simp add: same_tab_def)
  then show ?thesis by (cases "tab x"; cases "tab' x") auto
qed

lemma same_tabD: "same_tab tab tab' \<Longrightarrow> tab x = Some en \<Longrightarrow> \<exists>en'. tab' x = Some en' \<and> same_node en en'"
proof -
  assume "same_tab tab tab'" "tab x = Some en"
  then have "rel_option same_node (Some en) (tab' x)" unfolding same_tab_def by metis
  then show ?thesis by (cases "tab' x") auto
qed

lemma same_tab_upd: "(\<And>en. same_node en (f en)) \<Longrightarrow> same_tab tab (upd_node nid f tab)"
  by (auto simp: same_tab_def upd_node_def option.rel_refl split: option.split)

lemma findOutNextNode_same: "same_tab tab tab' \<Longrightarrow> findOutNextNode cfg tab' nid i = findOutNextNode cfg tab nid i"
  by (simp add: findOutNextNode_def same_tab_dom split: option.split)

lemma succs_same: "same_tab tab tab' \<Longrightarrow> succs pool cfg tab' nid = succs pool cfg tab nid"
  using same_tabD [of tab tab' nid] same_tab_dom [of tab tab' nid]
  by (cases "tab nid") (auto simp: succs_def same_node_def findOutNextNode_same split: option.split)

lemma next_ids_upd:
  "next_ids (upd_node nid (nextNode_update f) tab) x =
     (if x = nid \<and> tab nid \<noteq> None then f (next_ids tab nid) else next_ids tab x)"
  by (auto simp: next_ids_def upd_node_def split: option.split)

lemma next_ids_connect [simp]: "next_ids (connect nxt tab) x = next_ids tab x"
  by (auto simp: next_ids_def connect_def upd_node_def split: option.split)

definition marked :: "nodetab \<Rightarrow> string \<Rightarrow> bool" where
  "marked tab x \<longleftrightarrow> (\<exists>en. tab x = Some en \<and> beConnect en)"

lemma marked_mono: "same_tab tab tab' \<Longrightarrow> marked tab x \<Longrightarrow> marked tab' x"
  unfolding marked_def by (metis same_tabD same_node_def)

text \<open>Every recorded successor carries the connection mark.\<close>

definition linked :: "nodetab \<Rightarrow> bool" where
  "linked tab \<longleftrightarrow> (\<forall>x m. Some m \<in> set (next_ids tab x) \<longrightarrow> marked tab m)"

lemma link_step:
  assumes "nxt = findOutNextNode cfg tab nid idx"
  defines "tab1 \<equiv> connect nxt (upd_node nid (nextNode_update (\<lambda>ns. ns @ [nxt])) tab)"
  shows "same_tab tab tab1" "linked tab \<Longrightarrow> linked tab1"
    "next_ids tab1 x = (if x = nid \<and> tab nid \<noteq> None then next_ids tab nid @ [nxt] else next_ids tab x)"
proof -
  let ?u = "upd_node nid (nextNode_update (\<lambda>ns. ns @ [nxt])) tab"
  have 1: "same_tab tab ?u" by (rule same_tab_upd) (simp add: same_node_def)
  have 2: "same_tab ?u tab1"
    by (cases nxt) (auto simp: tab1_def connect_def same_node_def intro!: same_tab_upd)
  show st: "same_tab tab tab1" by (rule same_tab_trans [OF 1 2])
  show n: "next_ids tab1 x = (if x = nid \<and> tab nid \<noteq> None then next_ids tab nid @ [nxt] else next_ids tab x)" for x
    by (simp add: tab1_def next_ids_upd)
  have c: "marked tab1 m" if "nxt = Some m" for m
  proof -
    have "tab m \<noteq> None" using that assms(1) by (auto simp: findOutNextNode_def split: option.splits if_splits)
    then have "?u m \<noteq> None" using same_tab_dom [OF 1] by simp
    then show ?thesis using that by (auto simp: tab1_def connect_def upd_node_def marked_def)
  qed
  show "linked tab1" if "linked tab"
    unfolding linked_def
  proof (intro allI impI)
    fix y m
    assume "Some m \<in> set (next_ids tab1 y)"
    then have "Some m \<in> set (next_ids tab y) \<or> nxt = Some m" by (auto simp: n split: if_splits)
    with that c show "marked tab1 m" unfolding linked_def using marked_mono [OF st] by blast
  qed
qed

lemma exec_ports_Cons:
  "exec_ports (Some p # ps) = (if Port_IsPortExec p then Suc (exec_ports ps) else 0)"
  by (simp add: exec_ports_def)

lemma link_outs_ok:
  assumes "link_outs cfg nid idx ps tab = (ROk (), tab')"
  shows "same_tab tab tab' \<and> (linked tab \<longrightarrow> linked tab') \<and>
    (\<forall>x. next_ids tab' x = (if x = nid \<and> tab nid \<noteq> None
       then next_ids tab nid @ map (\<lambda>i. findOutNextNode cfg tab nid (idx + int i)) [0..<exec_ports ps]
       else next_ids tab x))"
  using assms
proof (induction cfg nid idx ps tab rule: link_outs.induct)
  case (1 cfg nid idx tab)
  then show ?case by (simp add: exec_ports_def)
next
  case (3 cfg nid idx p ps tab)
  show ?case
  proof (cases "Port_IsPortExec p")
    case True
    let ?nxt = "findOutNextNode cfg tab nid idx"
    let ?t1 = "connect ?nxt (upd_node nid (nextNode_update (\<lambda>ns. ns @ [?nxt])) tab)"
    note st = link_step [OF refl, where cfg = cfg and tab = tab and nid = nid and idx = idx]
    have IH: "same_tab ?t1 tab' \<and> (linked ?t1 \<longrightarrow> linked tab') \<and>
      (\<forall>x. next_ids tab' x = (if x = nid \<and> ?t1 nid \<noteq> None
         then next_ids ?t1 nid @ map (\<lambda>i. findOutNextNode cfg ?t1 nid (idx + 1 + int i)) [0..<exec_ports ps]
         else next_ids ?t1 x))"
      using 3 True by (simp add: Let_def)
    have up: "[0..<Suc k] = 0 # map Suc [0..<k]" for k by (simp add: upt_conv_Cons map_Suc_upt del: upt_Suc)
    have "next_ids tab' x = (if x = nid \<and> tab nid \<noteq> None
       then next_ids tab nid @ map (\<lambda>i. findOutNextNode cfg tab nid (idx + int i)) [0..<exec_ports (Some p # ps)]
       else next_ids tab x)" for x
      using IH True st(3) same_tab_dom [OF st(1), of nid]
      by (cases "tab nid") (simp_all add: exec_ports_Cons findOutNextNode_same [OF st(1)] up comp_def ac_simps del: upt_Suc)
    with IH st show ?thesis using same_tab_trans by blast
  next
    case False
    with 3 show ?thesis by (simp add: exec_ports_Cons)
  qed
qed simp

text \<open>\<open>ends k\<close>: every chain of execution lines from the node has fewer than \<open>k\<close> nodes.\<close>

primrec ends :: "ExecPool \<Rightarrow> graphConfig \<Rightarrow> nodetab \<Rightarrow> nat \<Rightarrow> string \<Rightarrow> bool" where
  "ends pool cfg tab 0 nid = False"
| "ends pool cfg tab (Suc k) nid = (\<forall>m. Some m \<in> set (succs pool cfg tab nid) \<longrightarrow> ends pool cfg tab k m)"

lemma ends_Suc: "ends pool cfg tab k nid \<Longrightarrow> ends pool cfg tab (Suc k) nid"
  by (induction k arbitrary: nid) auto

lemma ends_mono: "k \<le> k' \<Longrightarrow> ends pool cfg tab k nid \<Longrightarrow> ends pool cfg tab k' nid"
  by (induction k' rule: dec_induct) (simp_all only: ends_Suc)

lemma ends_same: "same_tab tab tab' \<Longrightarrow> ends pool cfg tab' k nid = ends pool cfg tab k nid"
  by (induction k arbitrary: nid) (simp_all add: succs_same)

text \<open>What visiting some nodes does to the table: successors come from the configuration, and only
  nodes from which every chain ends get any.\<close>

definition visit :: "ExecPool \<Rightarrow> graphConfig \<Rightarrow> nat \<Rightarrow> string set \<Rightarrow> nodetab \<Rightarrow> nodetab \<Rightarrow> bool" where
  "visit pool cfg n S tab tab' \<longleftrightarrow> same_tab tab tab' \<and> linked tab' \<and>
     (\<forall>x. set (next_ids tab' x) \<subseteq> set (next_ids tab x) \<union> set (succs pool cfg tab x)) \<and>
     (\<forall>x. next_ids tab' x \<noteq> next_ids tab x \<longrightarrow> ends pool cfg tab n x \<and> (x \<in> S \<or> marked tab' x))"

lemma visit_refl: "linked tab \<Longrightarrow> visit pool cfg n S tab tab"
  by (simp add: visit_def)

lemma visit_trans:
  assumes "visit pool cfg n S a b" "visit pool cfg n S b c"
  shows "visit pool cfg n S a c"
proof -
  note st = assms(1) [unfolded visit_def, THEN conjunct1] assms(2) [unfolded visit_def, THEN conjunct1]
  have "ends pool cfg a n x \<and> (x \<in> S \<or> marked c x)" if "next_ids c x \<noteq> next_ids a x" for x
  proof (cases "next_ids b x = next_ids a x")
    case True
    with that assms(2) show ?thesis unfolding visit_def by (metis ends_same [OF st(1)])
  next
    case False
    with assms(1) show ?thesis unfolding visit_def by (metis marked_mono [OF st(2)])
  qed
  moreover have "set (next_ids c x) \<subseteq> set (next_ids a x) \<union> set (succs pool cfg a x)" for x
  proof -
    have "set (next_ids c x) \<subseteq> set (next_ids b x) \<union> set (succs pool cfg a x)"
      using assms(2) by (simp add: visit_def succs_same [OF st(1)])
    moreover have "set (next_ids b x) \<subseteq> set (next_ids a x) \<union> set (succs pool cfg a x)"
      using assms(1) by (simp add: visit_def)
    ultimately show ?thesis by blast
  qed
  ultimately show ?thesis using assms same_tab_trans [OF st] unfolding visit_def by blast
qed

lemma prep_nexts_visit:
  assumes rec: "\<And>m tab c tab' c'. rec m tab c = Some (ROk (), tab', c') \<Longrightarrow> linked tab \<Longrightarrow>
      visit pool cfg n {m} tab tab' \<and> ends pool cfg tab n m"
    and "prep_nexts rec ns tab c = Some (ROk (), tab', c')" "linked tab"
    and "\<And>m. Some m \<in> set ns \<Longrightarrow> marked tab m"
  shows "visit pool cfg n {} tab tab' \<and> (\<forall>m. Some m \<in> set ns \<longrightarrow> ends pool cfg tab n m)"
  using assms(2,3,4)
proof (induction ns arbitrary: tab c)
  case Nil
  then show ?case by (simp add: visit_refl)
next
  case (Cons x ns)
  show ?case
  proof (cases x)
    case None
    with Cons show ?thesis by simp
  next
    case (Some m)
    with Cons.prems(1) obtain t1 c1 where 1: "rec m tab c = Some (ROk (), t1, c1)"
      "prep_nexts rec ns t1 c1 = Some (ROk (), tab', c')"
      by (auto split: option.splits ores.splits)
    from rec [OF 1(1) Cons.prems(2)] have v: "visit pool cfg n {m} tab t1" and e: "ends pool cfg tab n m" by auto
    then have st: "same_tab tab t1" and l: "linked t1" by (simp_all add: visit_def)
    have v': "visit pool cfg n {} tab t1"
      using v Cons.prems(3) [of m] Some marked_mono [OF st] by (auto simp: visit_def)
    have "visit pool cfg n {} t1 tab' \<and> (\<forall>m. Some m \<in> set ns \<longrightarrow> ends pool cfg t1 n m)"
      using Cons.prems(3) marked_mono [OF st] by (intro Cons.IH [OF 1(2) l]) simp
    then show ?thesis using visit_trans [OF v'] e Some ends_same [OF st] by auto
  qed
qed

lemma prepare_body_ok:
  assumes "prepare_body pool cfg rec nid tab c = Some (ROk (), tab', c')"
  obtains en inner t1 where "tab nid = Some en" "GetExec pool (en_execNode en) = Some inner"
    "link_outs cfg nid 0 (outPort inner) tab = (ROk (), t1)"
    "prep_nexts rec (next_ids t1 nid) t1 (c + 1) = Some (ROk (), tab', c')"
  using assms
  by (auto simp: prepare_body_def Let_def split: if_splits option.splits prod.splits ores.splits)

lemma visit_mono: "visit pool cfg n S a b \<Longrightarrow> visit pool cfg (Suc n) S a b"
  unfolding visit_def using ends_Suc by blast

lemma prepareOneNode_visit:
  assumes "prepareOneNode pool cfg n nid tab c = Some (ROk (), tab', c')" "linked tab"
  shows "visit pool cfg n {nid} tab tab' \<and> ends pool cfg tab n nid"
  using assms
proof (induction n arbitrary: nid tab c tab' c')
  case (Suc n)
  then obtain en inner t1 where 1: "tab nid = Some en" "GetExec pool (en_execNode en) = Some inner"
    "link_outs cfg nid 0 (outPort inner) tab = (ROk (), t1)"
    "prep_nexts (prepareOneNode pool cfg n) (next_ids t1 nid) t1 (c + 1) = Some (ROk (), tab', c')"
    by (auto elim: prepare_body_ok)
  note lo = link_outs_ok [OF 1(3)]
  have s: "succs pool cfg tab nid = map (\<lambda>i. findOutNextNode cfg tab nid (int i)) [0..<exec_ports (outPort inner)]"
    by (simp add: succs_def 1)
  have n1: "next_ids t1 x = (if x = nid then next_ids tab nid @ succs pool cfg tab nid else next_ids tab x)" for x
    using lo 1(1) s by simp
  have st: "same_tab tab t1" and l1: "linked t1" using lo Suc.prems(2) by auto
  have v: "visit pool cfg n {} t1 tab' \<and> (\<forall>m. Some m \<in> set (next_ids t1 nid) \<longrightarrow> ends pool cfg t1 n m)"
    by (rule prep_nexts_visit [OF Suc.IH 1(4) l1]) (use l1 in \<open>auto simp: linked_def\<close>)
  have e: "ends pool cfg tab (Suc n) nid"
    using v by (simp add: n1 ends_same [OF st])
  have "visit pool cfg (Suc n) {nid} tab t1"
    using st l1 e by (auto simp: visit_def n1 split: if_splits)
  moreover have "visit pool cfg (Suc n) {nid} t1 tab'"
    using v visit_mono [of pool cfg n "{}" t1 tab'] unfolding visit_def by blast
  ultimately show ?case using e visit_trans by blast
qed simp

section \<open>Accepted graphs\<close>

lemma gen_nodes_fresh:
  assumes "gen_nodes pool cfg nodes tab = ROk tab'"
    and "own_ids tab" "finite (dom tab)" "\<And>x. next_ids tab x = []"
  shows "own_ids tab' \<and> finite (dom tab') \<and> (\<forall>x. next_ids tab' x = [])"
  using assms
proof (induction nodes arbitrary: tab)
  case (Cons node rest)
  from Cons.prems(1) obtain e v where
    step: "gen_nodes pool cfg rest (tab(nc_Id node \<mapsto> place_node node e v)) = ROk tab'"
    by (auto simp: Let_def split: option.splits prod.splits)
  let ?tab = "tab(nc_Id node \<mapsto> place_node node e v)"
  have "own_ids ?tab" using Cons.prems(2) by (simp add: own_ids_def place_node_def)
  moreover have "finite (dom ?tab)" using Cons.prems(3) by simp
  moreover have "next_ids ?tab x = []" for x using Cons.prems(4) [of x] by (simp add: next_ids_def place_node_def)
  ultimately show ?case by (rule Cons.IH [OF step])
qed simp

text \<open>Joining the data lines changes nothing but the input sources of a node.\<close>

definition same_but_pre :: "execNode \<Rightarrow> execNode \<Rightarrow> bool" where
  "same_but_pre en en' \<longleftrightarrow> (\<exists>ps. en' = en\<lparr>preInPort := ps\<rparr>)"

lemma same_but_pre_refl: "same_but_pre en en"
  unfolding same_but_pre_def by (metis execNode.surjective execNode.update_convs(5))

lemma pre_loop_same: "pre_loop cfg tab inner n i en = Inr en' \<Longrightarrow> same_but_pre en en'"
proof (induction n arbitrary: i en)
  case 0
  then show ?case by (simp add: same_but_pre_refl)
next
  case (Suc n)
  from Suc.prems obtain en1 where 1: "pre_loop cfg tab inner n (i + 1) en1 = Inr en'" "same_but_pre en en1"
    using same_but_pre_refl
    by (fastforce simp: rbind_eq_Inr_iff same_but_pre_def split: if_splits option.splits)
  with Suc.IH [OF 1(1)] show ?case by (auto simp: same_but_pre_def)
qed

lemma prepareInPort_same:
  "prepareInPort pool cfg ids tab = Inr tab' \<Longrightarrow> rel_option same_but_pre (tab x) (tab' x)"
proof (induction ids arbitrary: tab')
  case Nil
  then show ?case by (simp add: prepareInPort_def option.rel_refl same_but_pre_refl)
next
  case (Cons nid ids)
  from Cons.prems obtain t where t: "prepareInPort pool cfg ids tab = Inr t"
    "(case tab nid of None \<Rightarrow> Inr t
      | Some en \<Rightarrow> rbind (preparePreInPortNode pool cfg tab en) (\<lambda>en'. Inr (t(nid \<mapsto> en')))) = Inr tab'"
    by (auto simp: prepareInPort_def rbind_eq_Inr_iff)
  show ?case
  proof (cases "tab nid")
    case None
    with t Cons.IH show ?thesis by simp
  next
    case (Some en)
    with t(2) obtain en' where "preparePreInPortNode pool cfg tab en = Inr en'" "tab' = t(nid \<mapsto> en')"
      by (auto simp: rbind_eq_Inr_iff)
    moreover have "same_but_pre en en'"
      using calculation(1) pre_loop_same by (auto simp: preparePreInPortNode_def split: option.splits)
    ultimately show ?thesis using Cons.IH [OF t(1)] Some by simp
  qed
qed

definition pure :: "execNode \<Rightarrow> bool" where
  "pure en \<longleftrightarrow> \<not> beConnect en \<and> \<not> isEntrance en"

text \<open>No cycle of data lines among nodes without execution line: the rank \<open>d\<close> falls along them.\<close>

definition data_ranked :: "nodetab \<Rightarrow> (string \<Rightarrow> nat) \<Rightarrow> nat \<Rightarrow> bool" where
  "data_ranked tab d D \<longleftrightarrow> (\<forall>x. d x \<le> D) \<and>
     (\<forall>nid en p i pre. tab nid = Some en \<longrightarrow> pure en \<longrightarrow> Some (p, i) \<in> set (preInPort en) \<longrightarrow>
        tab p = Some pre \<longrightarrow> pure pre \<longrightarrow> d p < d nid)"

definition exec_rank :: "ExecPool \<Rightarrow> graphConfig \<Rightarrow> nodetab \<Rightarrow> nat \<Rightarrow> string \<Rightarrow> nat" where
  "exec_rank pool cfg tab n x = (if ends pool cfg tab n x then LEAST k. ends pool cfg tab k x else 0)"

lemma exec_rank_le: "exec_rank pool cfg tab n x \<le> n"
  by (simp add: exec_rank_def Least_le)

lemma exec_rank_less:
  assumes "ends pool cfg tab n x" "Some m \<in> set (succs pool cfg tab x)"
  shows "exec_rank pool cfg tab n m < exec_rank pool cfg tab n x"
proof -
  let ?k = "LEAST k. ends pool cfg tab k x"
  have k: "ends pool cfg tab ?k x" using assms(1) by (rule LeastI)
  then obtain j where j: "?k = Suc j" by (cases ?k) auto
  with k assms(2) have "ends pool cfg tab j m" by simp
  then have "exec_rank pool cfg tab n m \<le> j" by (simp add: exec_rank_def Least_le)
  with j assms(1) show ?thesis by (simp add: exec_rank_def)
qed

definition full_rank :: "nodetab \<Rightarrow> (string \<Rightarrow> nat) \<Rightarrow> (string \<Rightarrow> nat) \<Rightarrow> nat \<Rightarrow> string \<Rightarrow> nat" where
  "full_rank tab r d D x =
     (case tab x of None \<Rightarrow> 0 | Some en \<Rightarrow> if pure en then d x else D + 1 + r x)"

lemma full_rank_ranked:
  assumes "data_ranked tab d D"
    and succ: "\<And>x en m. tab x = Some en \<Longrightarrow> Some m \<in> set (nextNode en) \<Longrightarrow> \<not> pure en \<and> r m < r x"
  shows "ranked tab (full_rank tab r d D)"
  unfolding ranked_def
proof (intro allI impI conjI)
  fix nid en m
  assume n: "tab nid = Some en" "Some m \<in> set (nextNode en)"
  from assms(1) have "d m \<le> D" by (simp add: data_ranked_def)
  with succ [OF n] n(1) show "full_rank tab r d D m < full_rank tab r d D nid"
    by (auto simp: full_rank_def split: option.split)
next
  fix nid en p i pre
  assume *: "tab nid = Some en" "Some (p, i) \<in> set (preInPort en)" "tab p = Some pre"
    "\<not> beConnect pre" "\<not> isEntrance pre"
  then have p: "pure pre" by (simp add: pure_def)
  show "full_rank tab r d D p < full_rank tab r d D nid"
  proof (cases "pure en")
    case True
    then have "d p < d nid" using assms(1) * p unfolding data_ranked_def by blast
    with True * p show ?thesis by (simp add: full_rank_def)
  next
    case False
    from assms(1) have "d p \<le> D" by (simp add: data_ranked_def)
    with False * p show ?thesis by (simp add: full_rank_def)
  qed
qed

text \<open>The table of an accepted entrance: execution lines are ranked, whatever the data lines are.\<close>

lemma accepted_table:
  assumes "prepareOneEntrance n gp name eid node cfg = Some (ROk (), gp')"
  obtains tab gr r where "mapGraphs gp' name = Some gr" "gr eid = Some (tab, nc_Id node)"
    "own_ids tab" "finite (dom tab)" "\<And>x. r x \<le> n"
    "\<And>x en m. tab x = Some en \<Longrightarrow> Some m \<in> set (nextNode en) \<Longrightarrow> \<not> pure en \<and> r m < r x"
proof -
  let ?nid = "nc_Id node"
  from assms obtain nodes t1 c tab en0 where
    g: "genAllNode (execPool gp) cfg = ROk nodes" "nodes ?nid = Some en0"
    and v: "prepareOneNode (execPool gp) cfg n ?nid (upd_node ?nid (isEntrance_update (\<lambda>_. True)) nodes) 0
        = Some (ROk (), t1, c)"
    and ip: "prepareInPort (execPool gp) cfg (map nc_Id (gc_Nodes cfg)) t1 = Inr tab"
    and m: "mapGraphs gp' = (mapGraphs gp)(name \<mapsto>
        (case mapGraphs gp name of None \<Rightarrow> Map.empty | Some g \<Rightarrow> g)(eid \<mapsto> (tab, ?nid)))"
    by (auto simp: prepareOneEntrance_def Let_def split: ores.splits option.splits sum.splits prod.splits)
  define t0 where "t0 = upd_node ?nid (isEntrance_update (\<lambda>_. True)) nodes"
  have fresh: "own_ids nodes \<and> finite (dom nodes) \<and> (\<forall>x. next_ids nodes x = [])"
    using gen_nodes_fresh [OF g(1) [unfolded genAllNode_def]] by (simp add: own_ids_def next_ids_def)
  then have t0: "own_ids t0" "finite (dom t0)" "\<And>x. next_ids t0 x = []"
    using g(2) by (auto simp: t0_def upd_node_def own_ids_def next_ids_def split: option.splits if_splits)
  then have "linked t0" by (simp add: linked_def)
  with prepareOneNode_visit [OF v [folded t0_def]] have
    vis: "visit (execPool gp) cfg n {?nid} t0 t1" by blast
  let ?r = "exec_rank (execPool gp) cfg t0 n"
  have node: "\<exists>en1 en0. t1 x = Some en1 \<and> t0 x = Some en0 \<and> same_node en0 en1 \<and> same_but_pre en1 en"
    if "tab x = Some en" for x en
  proof -
    from prepareInPort_same [OF ip, of x] that obtain en1 where "t1 x = Some en1" "same_but_pre en1 en"
      by (cases "t1 x") auto
    moreover have "rel_option same_node (t0 x) (t1 x)" using vis by (simp add: visit_def same_tab_def)
    ultimately show ?thesis by (cases "t0 x") auto
  qed
  show ?thesis
  proof (rule that [where r = ?r])
    show "mapGraphs gp' name = Some ((case mapGraphs gp name of None \<Rightarrow> Map.empty | Some g \<Rightarrow> g)(eid \<mapsto> (tab, ?nid)))"
      by (simp add: m)
    show "((case mapGraphs gp name of None \<Rightarrow> Map.empty | Some g \<Rightarrow> g)(eid \<mapsto> (tab, ?nid))) eid = Some (tab, ?nid)"
      by simp
    show "own_ids tab"
      unfolding own_ids_def
    proof (intro allI impI)
      fix x en
      assume "tab x = Some en"
      with node obtain en1 en0 where "t0 x = Some en0" "same_node en0 en1" "same_but_pre en1 en" by blast
      with t0(1) show "en_Id en = x" by (auto simp: own_ids_def same_node_def same_but_pre_def)
    qed
    show "finite (dom tab)"
      by (rule finite_subset [OF _ t0(2)]) (use node in blast)
    show "?r x \<le> n" for x by (rule exec_rank_le)
    fix x en k
    assume x: "tab x = Some en" "Some k \<in> set (nextNode en)"
    with node obtain en1 en0 where n1: "t1 x = Some en1" "t0 x = Some en0" "same_node en0 en1" "same_but_pre en1 en"
      by blast
    then have ne: "nextNode en = next_ids t1 x" by (auto simp: next_ids_def same_but_pre_def)
    have "Some k \<in> set (succs (execPool gp) cfg t0 x)"
      using vis x(2) ne t0(3) [of x] unfolding visit_def by (metis UnE empty_iff empty_set subsetD)
    moreover have ch: "ends (execPool gp) cfg t0 n x \<and> (x = ?nid \<or> marked t1 x)"
      using vis x(2) ne t0(3) [of x] unfolding visit_def by (metis empty_iff empty_set singletonD)
    moreover have "\<not> pure en"
    proof (cases "x = ?nid")
      case True
      then have "isEntrance en0" using n1(2) by (auto simp: t0_def upd_node_def split: option.splits)
      with n1 show ?thesis by (auto simp: pure_def same_node_def same_but_pre_def)
    next
      case False
      with ch n1 show ?thesis by (auto simp: pure_def marked_def same_but_pre_def)
    qed
    ultimately show "\<not> pure en \<and> ?r k < ?r x" using exec_rank_less by blast
  qed
qed

text \<open>The fuel that is enough for a table of \<open>N\<close> nodes, data rank \<open>D\<close> and \<open>n\<close> visited nodes at most.\<close>

definition enough_fuel :: "nat \<Rightarrow> nat \<Rightarrow> nat \<Rightarrow> nat" where
  "enough_fuel N D n = (let R = D + 1 + n in N * Suc R + R + 1)"

lemma Graph_Do_returns:
  assumes "entrance gr eid = Some (tab, nid)" "own_ids tab" "finite (dom tab)" "ranked tab rank"
    and "\<And>x. rank x \<le> R" "card (dom tab) * Suc R + R < n"
  shows "Graph_Do E n eid args gr \<noteq> None"
proof -
  have "card (dom tab - dom (gr_context (graph_start gr)) - {nid}) \<le> card (dom tab)"
    using assms(3) by (intro card_mono) auto
  then have "card (dom tab - dom (gr_context (graph_start gr)) - {nid}) * Suc R \<le> card (dom tab) * Suc R"
    by (rule mult_right_mono) simp
  then have "need tab R rank nid (graph_start gr) < n"
    using assms(5) [of nid] assms(6) by (simp add: need_def)
  then have "execNode_Do E tab n nid args (graph_start gr) \<noteq> None"
    using runsD [OF Do_terminates [OF assms(2-5)], where s = "graph_start gr"]
    unfolding runs_at_def by blast
  then show ?thesis
    using assms(1) by (auto simp: Graph_Do_def Let_def split: option.split ores.split)
qed

lemma accepted_returns:
  assumes "prepareOneEntrance n gp name eid node cfg = Some (ROk (), gp')"
  shows "\<exists>tab gr. mapGraphs gp' name = Some gr \<and> gr eid = Some (tab, nc_Id node) \<and>
    (\<forall>d D E args g. data_ranked tab d D \<longrightarrow> entrance g eid = Some (tab, nc_Id node) \<longrightarrow>
       Graph_Do E (enough_fuel (card (dom tab)) D n) eid args g \<noteq> None)"
proof -
  obtain tab gr r where t: "mapGraphs gp' name = Some gr" "gr eid = Some (tab, nc_Id node)"
    "own_ids tab" "finite (dom tab)" "\<And>x. r x \<le> n"
    "\<And>x en m. tab x = Some en \<Longrightarrow> Some m \<in> set (nextNode en) \<Longrightarrow> \<not> pure en \<and> r m < r x"
    by (rule accepted_table [OF assms]) blast
  have "Graph_Do E (enough_fuel (card (dom tab)) D n) eid args g \<noteq> None"
    if "data_ranked tab d D" "entrance g eid = Some (tab, nc_Id node)" for d D E args and g :: gstate
  proof (rule Graph_Do_returns [OF that(2) t(3,4) full_rank_ranked [OF that(1) t(6)]])
    have "d x \<le> D" for x using that(1) by (simp add: data_ranked_def)
    then show "full_rank tab r d D x \<le> D + 1 + n" for x
      using t(5) [of x] by (auto simp: full_rank_def le_SucI trans_le_add1 split: option.split)
    show "card (dom tab) * Suc (D + 1 + n) + (D + 1 + n) < enough_fuel (card (dom tab)) D n"
      by (simp add: enough_fuel_def Let_def)
  qed
  with t(1,2) show ?thesis by blast
qed

section \<open>A data cycle\<close>

text \<open>A node without execution line whose first input is its own output: reading the input runs the
  node again, which reads the input again. No fuel is enough; the loader does not look for this.\<close>

lemma self_cycle_runs_forever:
  assumes "tab nid = Some en" "en_Id en = nid" "pure en" "execs E (en_execNode en) = Some inner"
    and "inPort inner = Some p # ps" "\<not> Port_IsPortExec p" "preInPort en = Some (nid, i) # qs"
  shows "execNode_Do E tab n nid [] s = None"
proof (induction n arbitrary: s)
  case (Suc n)
  have "doSetInPort E tab (\<lambda>m. execNode_Do E tab n m []) en a 0 s' = None" for a s'
    using assms(1,3,7) Suc.IH
    by (simp add: doSetInPort_def slice_get_def act_defs HasBeConnectLine_def pure_def)
  then show ?case
    using assms(1,2,4,5,6)
    by (simp add: Do_body_def act_defs IsInPortExec_def port_is_exec_def)
qed simp

end
