(* ===== verification/Blueprint.thy ===== *)
theory Blueprint
  imports GraphPool
begin

text \<open>
  The manager of running graphs (\<^verbatim>\<open>src/util/blueprint/blueprint.go\<close>, and \<^verbatim>\<open>Release\<close> of \<^verbatim>\<open>graph.go\<close>).
  \<open>Blueprint\<close> is its struct, with the pools in \<open>graphPool\<close> and the state that all runs share in \<open>world\<close>
  (contexts, node instances, random draws, calls to the timer module). Loading the files is a
  parameter: \<open>StartHotReload\<close> and \<open>Init\<close> take what \<^verbatim>\<open>ExecPool.Load\<close> and \<^verbatim>\<open>GraphPool.Load\<close> give.
  Shown: graph ids are fresh and never 0; the manager keeps its invariant under every operation; only
  \<open>TriggerEvent\<close> changes a graph's global variables, \<open>Do\<close> runs on a copy; and since nothing ever creates
  the map of timer ids, a \<^verbatim>\<open>CreateTimer\<close> node never succeeds, although its timer has been started.
\<close>

record world =
  w_ctxs :: "ExecContext list"
  w_bound :: "string \<rightharpoonup> (nat \<times> string)"
  w_draws :: nat
  w_timers :: nat
  w_events :: "event list"

definition enter :: "Graph \<Rightarrow> world \<Rightarrow> gstate" where
  "enter g w = Graph.extend g (gstate.fields (w_ctxs w) (w_bound w) (w_draws w) (w_timers w) (w_events w))"

definition world_of :: "gstate \<Rightarrow> world" where
  "world_of s = \<lparr>w_ctxs = ctxs s, w_bound = bound s, w_draws = draws s, w_timers = timerCount s, w_events = events s\<rparr>"

definition graph_of :: "gstate \<Rightarrow> Graph" where
  "graph_of s = Graph.truncate s"

record Blueprint =
  execNodeList :: "exec_kind list"
  graphPool :: GraphPool
  mapGraph :: "int \<rightharpoonup> Graph"
  seedID :: int
  bp_logger :: bool
  bp_world :: world

section \<open>Registration and loading\<close>

definition RegisterExecNode :: "Blueprint \<Rightarrow> exec_kind \<Rightarrow> Blueprint" where
  "RegisterExecNode bm k = bm\<lparr>execNodeList := execNodeList bm @ [k]\<rparr>"

definition sysNodes :: "exec_kind list" where
  "sysNodes = [AddInt, SubInt, MulInt, DivInt, ModInt, RandNumber,
     Entrance_ArrayParam, Entrance_IntParam, Entrance_Timer, DebugOutput, Sequence, Foreach, ForeachIntArray,
     GetArrayInt, GetArrayString, GetArrayLen, CreateIntArray, CreateStringArray, AppendIntegerToArray,
     AppendStringToArray, BoolIf, GreaterThanInteger, LessThanInteger, EqualInteger, RangeCompare,
     EqualSwitch, Probability, CreateTimer, AppendIntReturn, AppendStringReturn, IntInArray]"

definition regSysNodes :: "Blueprint \<Rightarrow> Blueprint" where
  "regSysNodes bm = fold (\<lambda>k b. RegisterExecNode b k) sysNodes bm"

fun register_all :: "exec_kind list \<Rightarrow> ExecPool \<Rightarrow> unit ores \<times> ExecPool" where
  "register_all [] pool = (ROk (), pool)"
| "register_all (k # ks) pool =
     (let (ok, pool') = Register pool k
      in if \<not> ok then (RErr (NodeError ''register exec failed''), pool') else register_all ks pool')"

definition load_pools :: "exec_kind list \<Rightarrow> ExecPool ores \<Rightarrow> (ExecPool \<Rightarrow> GraphPool ores) \<Rightarrow> GraphPool ores" where
  "load_pools ks loadExec loadGraphs =
     (case loadExec of
        ROk pool \<Rightarrow>
          (case register_all ks pool of
             (ROk _, pool') \<Rightarrow> loadGraphs pool'
           | (RErr e, _) \<Rightarrow> RErr e
           | (RPanic p, _) \<Rightarrow> RPanic p)
      | RErr e \<Rightarrow> RErr e
      | RPanic p \<Rightarrow> RPanic p)"

definition zero_world :: world where
  "zero_world = \<lparr>w_ctxs = [], w_bound = Map.empty, w_draws = 0, w_timers = 0, w_events = []\<rparr>"

definition Init :: "Blueprint \<Rightarrow> ExecPool ores \<Rightarrow> (ExecPool \<Rightarrow> GraphPool ores) \<Rightarrow> bool \<Rightarrow> unit ores \<times> Blueprint" where
  "Init bm loadExec loadGraphs hasLogger =
     (case loadExec of
        ROk pool \<Rightarrow>
          (let bm1 = regSysNodes bm
           in case load_pools (execNodeList bm1) (ROk pool) loadGraphs of
                ROk gp \<Rightarrow> (ROk (), bm1\<lparr>graphPool := gp, mapGraph := Map.empty,
                            bp_logger := (if hasLogger then True else bp_logger bm1)\<rparr>)
              | RErr e \<Rightarrow> (RErr e, bm1)
              | RPanic p \<Rightarrow> (RPanic p, bm1))
      | RErr e \<Rightarrow> (RErr e, bm)
      | RPanic p \<Rightarrow> (RPanic p, bm))"

text \<open>The function \<^verbatim>\<open>StartHotReload\<close> returns: new pools, with node instances that point nowhere yet, and
  every graph on the new version of its file, or on one without entrances.\<close>

definition hot_swap :: "GraphPool \<Rightarrow> Blueprint \<Rightarrow> Blueprint" where
  "hot_swap gp bm = bm\<lparr>graphPool := gp,
     bp_world := (bp_world bm)\<lparr>w_bound := Map.empty\<rparr>,
     mapGraph := (\<lambda>gid. case mapGraph bm gid of
         None \<Rightarrow> None
       | Some gh \<Rightarrow> Some (HotReload gh (case GetBaseGraph gp (GetGraphFileName gh) of
             None \<Rightarrow> Map.empty | Some b \<Rightarrow> b)))\<rparr>"

definition StartHotReload :: "Blueprint \<Rightarrow> ExecPool ores \<Rightarrow> (ExecPool \<Rightarrow> GraphPool ores) \<Rightarrow>
    (Blueprint \<Rightarrow> Blueprint) ores" where
  "StartHotReload bm loadExec loadGraphs =
     (case load_pools (execNodeList bm) loadExec loadGraphs of
        ROk gp \<Rightarrow> ROk (hot_swap gp)
      | RErr e \<Rightarrow> RErr e
      | RPanic p \<Rightarrow> RPanic p)"

section \<open>Graphs\<close>

definition Blueprint_Create :: "Blueprint \<Rightarrow> string \<Rightarrow> int \<times> Blueprint" where
  "Blueprint_Create bm graphName =
     (if graphName = [] then (0, bm)
      else let gid = wrap64 (seedID bm + 1); bm1 = bm\<lparr>seedID := gid\<rparr>
           in case GraphPool_Create (graphPool bm) graphName gid of
                None \<Rightarrow> (0, bm1)
              | Some gr \<Rightarrow> (gid, bm1\<lparr>mapGraph := (mapGraph bm)(gid \<mapsto> gr)\<rparr>))"

definition pool_env :: "Blueprint \<Rightarrow> env \<Rightarrow> env" where
  "pool_env bm E = E\<lparr>execs := GetExec (execPool (graphPool bm))\<rparr>"

definition TriggerEvent :: "env \<Rightarrow> nat \<Rightarrow> Blueprint \<Rightarrow> int \<Rightarrow> int \<Rightarrow> go_any list \<Rightarrow>
    (bp_error option \<times> Blueprint) option" where
  "TriggerEvent E n bm gid eventID args =
     (case mapGraph bm gid of
        None \<Rightarrow> Some (Some (NodeError ''can not find graph''), bm)
      | Some graph \<Rightarrow>
          (case Graph_Do (pool_env bm E) n eventID args (enter graph (bp_world bm)) of
             None \<Rightarrow> None
           | Some ((_, err), s) \<Rightarrow>
               Some (err, bm\<lparr>mapGraph := (mapGraph bm)(gid \<mapsto> graph_of s), bp_world := world_of s\<rparr>)))"

definition Blueprint_Do :: "env \<Rightarrow> nat \<Rightarrow> Blueprint \<Rightarrow> int \<Rightarrow> int \<Rightarrow> go_any list \<Rightarrow>
    (do_result \<times> Blueprint) option" where
  "Blueprint_Do E n bm gid entranceID args =
     (case mapGraph bm gid of
        None \<Rightarrow> Some ((None, None), bm)
      | Some graph \<Rightarrow>
          (let clone = (Graph_Clone graph)\<lparr>logger := bp_logger bm\<rparr>
           in case Graph_Do (pool_env bm E) n entranceID args (enter clone (bp_world bm)) of
                None \<Rightarrow> None
              | Some (res, s) \<Rightarrow> Some (res, bm\<lparr>bp_world := world_of s\<rparr>)))"

definition Graph_Release :: "Graph \<Rightarrow> world \<Rightarrow> world" where
  "Graph_Release gr w = w\<lparr>w_events := w_events w @
     map (EvCancelTimerId (graphID gr)) (case mapTimerID gr of None \<Rightarrow> [] | Some T \<Rightarrow> sorted_list_of_set T)\<rparr>"

definition ReleaseGraph :: "Blueprint \<Rightarrow> int \<Rightarrow> Blueprint" where
  "ReleaseGraph bm gid =
     (if gid = 0 then bm
      else case mapGraph bm gid of
             None \<Rightarrow> bm\<lparr>mapGraph := (mapGraph bm)(gid := None)\<rparr>
           | Some graph \<Rightarrow> bm\<lparr>bp_world := Graph_Release graph (bp_world bm),
                              mapGraph := (mapGraph bm)(gid := None)\<rparr>)"

text \<open>The timer itself is cancelled by the function passed to \<^verbatim>\<open>Init\<close>, recorded as an event.\<close>

definition Blueprint_CancelTimerId :: "Blueprint \<Rightarrow> int \<Rightarrow> int \<Rightarrow> bool \<times> Blueprint" where
  "Blueprint_CancelTimerId bm gid tId =
     (let bm1 = bm\<lparr>bp_world := (bp_world bm)\<lparr>w_events := w_events (bp_world bm) @ [EvCancelTimerId gid tId]\<rparr>\<rparr>
      in case mapGraph bm gid of
           None \<Rightarrow> (False, bm1)
         | Some gr \<Rightarrow> (True, bm1\<lparr>mapGraph := (mapGraph bm)(gid \<mapsto>
               gr\<lparr>mapTimerID := (case mapTimerID gr of None \<Rightarrow> None | Some T \<Rightarrow> Some (T - {tId}))\<rparr>)\<rparr>))"

definition GetGraphName :: "Blueprint \<Rightarrow> int \<Rightarrow> string" where
  "GetGraphName bm gid =
     (if gid = 0 then [] else case mapGraph bm gid of None \<Rightarrow> [] | Some g \<Rightarrow> GetGraphFileName g)"

section \<open>Entering and leaving a run\<close>

lemma enter_simps [simp]:
  "graphFileName (enter g w) = graphFileName g" "graphID (enter g w) = graphID g"
  "entrance (enter g w) = entrance g" "globalVariables (enter g w) = globalVariables g"
  "mapTimerID (enter g w) = mapTimerID g" "logger (enter g w) = logger g" "gr_context (enter g w) = gr_context g"
  "variables (enter g w) = variables g"
  "ctxs (enter g w) = w_ctxs w" "bound (enter g w) = w_bound w" "events (enter g w) = w_events w"
  by (simp_all add: enter_def Graph.defs gstate.defs)

lemma graph_of_simps [simp]:
  "graphFileName (graph_of s) = graphFileName s" "graphID (graph_of s) = graphID s"
  "entrance (graph_of s) = entrance s" "globalVariables (graph_of s) = globalVariables s"
  "mapTimerID (graph_of s) = mapTimerID s" "logger (graph_of s) = logger s"
  by (simp_all add: graph_of_def Graph.defs)

section \<open>Invariant\<close>

text \<open>Ids are positive and were handed out, each graph knows its id, its tables are well formed, and the
  map of timer ids is nil.\<close>

definition bp_inv :: "Blueprint \<Rightarrow> bool" where
  "bp_inv bm \<longleftrightarrow> 0 \<le> seedID bm \<and>
     (\<forall>name gr eid tab nid. mapGraphs (graphPool bm) name = Some gr \<longrightarrow> gr eid = Some (tab, nid) \<longrightarrow> own_ids tab) \<and>
     (\<forall>gid g. mapGraph bm gid = Some g \<longrightarrow>
        0 < gid \<and> gid \<le> seedID bm \<and> graphID g = gid \<and> mapTimerID g = None \<and>
        (\<forall>eid tab nid. entrance g eid = Some (tab, nid) \<longrightarrow> own_ids tab))"

lemma bp_invD:
  assumes "bp_inv bm" "mapGraph bm gid = Some g"
  shows "0 < gid" "gid \<le> seedID bm" "graphID g = gid" "mapTimerID g = None"
    "\<And>eid tab nid. entrance g eid = Some (tab, nid) \<Longrightarrow> own_ids tab"
  using assms unfolding bp_inv_def by blast+

lemma bp_inv_put:
  assumes "bp_inv bm" "0 < gid" "gid \<le> seedID bm" "graphID g = gid" "mapTimerID g = None"
    and "\<And>eid tab nid. entrance g eid = Some (tab, nid) \<Longrightarrow> own_ids tab"
  shows "bp_inv (bm\<lparr>mapGraph := (mapGraph bm)(gid \<mapsto> g), bp_world := w\<rparr>)"
  using assms unfolding bp_inv_def by auto

lemma Create_fresh:
  assumes "bp_inv bm" "seedID bm < 2 ^ 63 - 1" "Blueprint_Create bm name = (gid, bm')"
  shows "bp_inv bm'"
    and "gid \<noteq> 0 \<Longrightarrow> mapGraph bm gid = None \<and> GetGraphName bm' gid = name \<and>
      (\<forall>k. k \<noteq> gid \<longrightarrow> mapGraph bm' k = mapGraph bm k)"
    and "gid = 0 \<Longrightarrow> mapGraph bm' = mapGraph bm"
    and "gid \<noteq> 0 \<longleftrightarrow> name \<noteq> [] \<and> mapGraphs (graphPool bm) name \<noteq> None"
proof -
  have w: "wrap64 (seedID bm + 1) = seedID bm + 1"
    using assms(1,2) by (intro wrap64_nonneg) (auto simp: bp_inv_def)
  have pos: "0 < seedID bm + 1" using assms(1) by (auto simp: bp_inv_def)
  have none: "mapGraph bm (seedID bm + 1) = None"
    using bp_invD(2) [OF assms(1), of "seedID bm + 1"] by (cases "mapGraph bm (seedID bm + 1)") auto
  have up: "bp_inv (bm\<lparr>seedID := seedID bm + 1\<rparr>)"
    using assms(1) unfolding bp_inv_def by fastforce
  show "bp_inv bm'"
  proof (cases "name = [] \<or> mapGraphs (graphPool bm) name = None")
    case True
    then have "bm' = bm \<or> bm' = bm\<lparr>seedID := seedID bm + 1\<rparr>"
      using assms(3) w by (auto simp: Blueprint_Create_def GraphPool_Create_def Let_def split: if_splits)
    with assms(1) up show ?thesis by blast
  next
    case False
    then obtain gr where gr: "name \<noteq> []" "mapGraphs (graphPool bm) name = Some gr" by auto
    define g :: Graph where "g = \<lparr>graphFileName = name, graphID = seedID bm + 1, entrance = gr,
      gr_context = Map.empty, variables = Map.empty, globalVariables = None, mapTimerID = None, logger = False\<rparr>"
    have "bm' = bm\<lparr>seedID := seedID bm + 1, mapGraph := (mapGraph bm)(seedID bm + 1 \<mapsto> g)\<rparr>"
      using assms(3) w gr by (auto simp: Blueprint_Create_def GraphPool_Create_def Let_def g_def)
    moreover have "own_ids tab" if "gr eid = Some (tab, nid)" for eid tab nid
      using assms(1) gr(2) that unfolding bp_inv_def by blast
    ultimately show ?thesis
      using bp_inv_put [OF up pos, of g "bp_world bm"] by (simp add: g_def)
  qed
  show "gid \<noteq> 0 \<Longrightarrow> mapGraph bm gid = None \<and> GetGraphName bm' gid = name \<and>
      (\<forall>k. k \<noteq> gid \<longrightarrow> mapGraph bm' k = mapGraph bm k)"
    "gid = 0 \<Longrightarrow> mapGraph bm' = mapGraph bm"
    "gid \<noteq> 0 \<longleftrightarrow> name \<noteq> [] \<and> mapGraphs (graphPool bm) name \<noteq> None"
    using assms(3) w pos none
    by (auto simp: Blueprint_Create_def GraphPool_Create_def GetGraphName_def GetGraphFileName_def Let_def
        split: if_splits option.splits)
qed

text \<open>Running an event keeps the invariant: the graph that ran keeps its identity, its entrances and its
  nil timer map.\<close>

lemma Graph_Do_timers:
  assumes "Graph_Do E n eid args gr = Some (res, gr')"
    and "\<And>tab nid. entrance gr eid = Some (tab, nid) \<Longrightarrow> own_ids tab" "mapTimerID gr = None"
  shows "mapTimerID gr' = None"
proof (cases "entrance gr eid")
  case None
  with assms(1,3) show ?thesis by (simp add: Graph_Do_def)
next
  case (Some tn)
  then obtain tab nid where tn: "entrance gr eid = Some (tab, nid)" by (cases tn) auto
  then obtain s r where s: "execNode_Do E tab n nid args (graph_start gr) = Some (r, s)"
    and gr': "gr' = s \<or> gr' = s\<lparr>globalVariables := globalVariables gr\<rparr>"
    using assms(1) by (auto simp: Graph_Do_def Let_def split: option.splits prod.splits ores.splits)
  have "keeps (graph_start gr) s"
    by (rule runs_keeps [OF Do_keeps [OF assms(2) [OF tn]] s])
  then show ?thesis using gr' assms(3) by (auto simp: keeps_def graph_start_def)
qed

lemma bp_inv_world: "bp_inv bm \<Longrightarrow> bp_inv (bm\<lparr>bp_world := w\<rparr>)"
  by (simp add: bp_inv_def)

lemma TriggerEvent_inv:
  assumes "bp_inv bm" "TriggerEvent E n bm gid eid args = Some (err, bm')"
  shows "bp_inv bm'" "k \<noteq> gid \<Longrightarrow> mapGraph bm' k = mapGraph bm k"
    "GetGraphName bm' k = GetGraphName bm k" "w_bound (bp_world bm') = w_bound (bp_world bm)"
proof -
  have "bp_inv bm' \<and> (k \<noteq> gid \<longrightarrow> mapGraph bm' k = mapGraph bm k) \<and> GetGraphName bm' k = GetGraphName bm k \<and>
    w_bound (bp_world bm') = w_bound (bp_world bm)"
  proof (cases "mapGraph bm gid")
    case None
    with assms show ?thesis by (simp add: TriggerEvent_def)
  next
    case (Some g)
    note g = bp_invD [OF assms(1) Some]
    from assms(2) Some obtain ret s where
      run: "Graph_Do (pool_env bm E) n eid args (enter g (bp_world bm)) = Some ((ret, err), s)"
      and bm': "bm' = bm\<lparr>mapGraph := (mapGraph bm)(gid \<mapsto> graph_of s), bp_world := world_of s\<rparr>"
      by (auto simp: TriggerEvent_def split: option.splits)
    have k: "bound s = w_bound (bp_world bm) \<and> entrance s = entrance g \<and> graphID s = gid \<and>
        graphFileName s = graphFileName g"
      using Graph_Do_keeps [OF run] g(3,5) by simp
    have t: "mapTimerID s = None"
      using Graph_Do_timers [OF run] g(4,5) by simp
    have "bp_inv bm'"
      unfolding bm' using g(1,2,5) k t by (intro bp_inv_put [OF assms(1)]) auto
    then show ?thesis using k Some by (simp add: bm' GetGraphName_def GetGraphFileName_def world_of_def)
  qed
  then show "bp_inv bm'" "k \<noteq> gid \<Longrightarrow> mapGraph bm' k = mapGraph bm k"
    "GetGraphName bm' k = GetGraphName bm k" "w_bound (bp_world bm') = w_bound (bp_world bm)"
    by blast+
qed

lemma Blueprint_Do_inv:
  assumes "bp_inv bm" "Blueprint_Do E n bm gid eid args = Some (res, bm')"
  shows "bp_inv bm' \<and> mapGraph bm' = mapGraph bm \<and> w_bound (bp_world bm') = w_bound (bp_world bm)"
proof (cases "mapGraph bm gid")
  case None
  with assms show ?thesis by (simp add: Blueprint_Do_def)
next
  case (Some g)
  note g = bp_invD [OF assms(1) Some]
  from assms(2) Some obtain s where
    run: "Graph_Do (pool_env bm E) n eid args (enter ((Graph_Clone g)\<lparr>logger := bp_logger bm\<rparr>) (bp_world bm)) = Some (res, s)"
    and bm': "bm' = bm\<lparr>bp_world := world_of s\<rparr>"
    by (auto simp: Blueprint_Do_def Let_def split: option.splits)
  have "bound s = w_bound (bp_world bm)"
    using Graph_Do_keeps [OF run] g(5) by (simp add: Graph_Clone_def)
  then show ?thesis using assms(1) by (simp add: bm' bp_inv_world world_of_def)
qed

lemma ReleaseGraph_inv:
  assumes "bp_inv bm"
  shows "bp_inv (ReleaseGraph bm gid)" "gid \<noteq> 0 \<Longrightarrow> mapGraph (ReleaseGraph bm gid) gid = None"
  using assms by (auto simp: bp_inv_def ReleaseGraph_def split: option.split)

lemma CancelTimerId_inv: "bp_inv bm \<Longrightarrow> bp_inv (snd (Blueprint_CancelTimerId bm gid t))"
  by (cases "mapGraph bm gid") (auto simp: bp_inv_def Blueprint_CancelTimerId_def Let_def)

lemma hot_swap_inv:
  assumes "bp_inv bm"
    and "\<And>name gr eid tab nid. mapGraphs gp name = Some gr \<Longrightarrow> gr eid = Some (tab, nid) \<Longrightarrow> own_ids tab"
  shows "bp_inv (hot_swap gp bm)" "GetGraphName (hot_swap gp bm) gid = GetGraphName bm gid"
proof -
  show "GetGraphName (hot_swap gp bm) gid = GetGraphName bm gid"
    by (simp add: GetGraphName_def hot_swap_def GetGraphFileName_def HotReload_def split: option.split)
  show "bp_inv (hot_swap gp bm)"
    using assms unfolding bp_inv_def
    by (auto simp: hot_swap_def HotReload_def GetBaseGraph_def split: option.splits)
qed

section \<open>Timers\<close>

text \<open>On a graph whose timer map is nil, \<^verbatim>\<open>CreateTimer\<close> does not succeed; where its inputs are there, it
  panics after the timer module has started the timer.\<close>

lemma CreateTimer_never_ok:
  assumes "mapTimerID s = None" "CreateTimer_Exec E cls s = Some (r, s')"
  shows "r \<noteq> ROk x"
  using assms
  by (auto simp: CreateTimer_Exec_def with_ctx_def with_bound_def act_defs split: option.splits prod.splits)

lemma CreateTimer_starts_then_panics:
  assumes "mapTimerID s = None" "bound s cls = Some (a, nid)"
    and "GetInPort (ctxs s ! a) 0 = Some (Port_Int delay)" "GetInPort (ctxs s ! a) 1 = Some (Port_Array xs)"
  shows "\<exists>s'. CreateTimer_Exec E cls s = Some (RPanic NilMapWrite, s') \<and>
    events s' = events s @ [EvSafeAfterFunc (timerIds E (timerCount s)) (wrap64 (delay * 1000000)) (graphID s) xs]"
  using assms
  by (simp add: CreateTimer_Exec_def with_ctx_def with_bound_def act_defs GetInPortInt_def GetInPortArray_def)

end
