(* ===== verification/PortStore.thy ===== *)
theory PortStore
  imports GraphExec
begin

text \<open>
  Ports, arrays and variable tables as objects: \<^verbatim>\<open>port.go\<close>, and the parts of \<^verbatim>\<open>graph.go\<close> and \<^verbatim>\<open>blueprint.go\<close> that copy
  them. The interpreter's model has ports as values, which cannot tell a shared object from a copy; here a port is a
  cell with an address, an array port holds a slice of a backing array that other ports may share, and the table of
  global variables is an object too. \<open>content\<close> takes a cell back to the value of \<open>Port\<close>.
  \<^item> \<open>st_append\<close> is \<^verbatim>\<open>append\<close>: in place when the capacity suffices, in a new array otherwise; \<open>spare\<close> is the capacity that the
    runtime adds to an array allocated at an address.
  \<^item> A run of a graph's nodes is any sequence of operations on the ports in hand (\<open>port_op\<close>): ports are read from and put
    into the table, made, cloned, written. The order in which a table is walked is an argument.
  Shown: \<^verbatim>\<open>clonePortMap\<close> makes a table of equal content that shares nothing with the one it copies, so that no run changes a
  table that existed before it; the roll-back of \<^verbatim>\<open>Graph.Do\<close> and the isolation of \<^verbatim>\<open>Blueprint.Do\<close> rest on that.
\<close>

section \<open>The store\<close>

record pslice =
  ps_arr :: nat
  ps_len :: nat

datatype pcell = CExec | CInt int | CFloat f64 | CStr string | CBool bool | CArray "pslice option"

record pstore =
  ps_port :: "nat \<Rightarrow> pcell"
  ps_array :: "nat \<Rightarrow> ArrayData list"
  ps_map :: "nat \<Rightarrow> (string \<rightharpoonup> nat option)"
  ps_next :: nat

definition set_pt :: "nat \<Rightarrow> pcell \<Rightarrow> pstore \<Rightarrow> pstore" where
  "set_pt a c s = s\<lparr>ps_port := (ps_port s)(a := c)\<rparr>"

definition set_arr :: "nat \<Rightarrow> ArrayData list \<Rightarrow> pstore \<Rightarrow> pstore" where
  "set_arr b xs s = s\<lparr>ps_array := (ps_array s)(b := xs)\<rparr>"

definition set_mp :: "nat \<Rightarrow> (string \<rightharpoonup> nat option) \<Rightarrow> pstore \<Rightarrow> pstore" where
  "set_mp m f s = s\<lparr>ps_map := (ps_map s)(m := f)\<rparr>"

definition bump :: "pstore \<Rightarrow> pstore" where
  "bump s = s\<lparr>ps_next := Suc (ps_next s)\<rparr>"

lemma store_sel [simp]:
  "ps_port (set_pt a c s) = (ps_port s)(a := c)" "ps_array (set_pt a c s) = ps_array s" "ps_map (set_pt a c s) = ps_map s" "ps_next (set_pt a c s) = ps_next s"
  "ps_port (set_arr b xs s) = ps_port s" "ps_array (set_arr b xs s) = (ps_array s)(b := xs)" "ps_map (set_arr b xs s) = ps_map s" "ps_next (set_arr b xs s) = ps_next s"
  "ps_port (set_mp m f s) = ps_port s" "ps_array (set_mp m f s) = ps_array s" "ps_map (set_mp m f s) = (ps_map s)(m := f)" "ps_next (set_mp m f s) = ps_next s"
  "ps_port (bump s) = ps_port s" "ps_array (bump s) = ps_array s" "ps_map (bump s) = ps_map s" "ps_next (bump s) = Suc (ps_next s)"
  by (simp_all add: set_pt_def set_arr_def set_mp_def bump_def)

definition slice_elems :: "pstore \<Rightarrow> pslice option \<Rightarrow> ArrayData list" where
  "slice_elems s sl = (case sl of None \<Rightarrow> [] | Some t \<Rightarrow> take (ps_len t) (ps_array s (ps_arr t)))"

definition content :: "pstore \<Rightarrow> nat \<Rightarrow> port" where
  "content s a = (case ps_port s a of CExec \<Rightarrow> Port_Exec | CInt v \<Rightarrow> Port_Int v | CFloat v \<Rightarrow> Port_Float v | CStr v \<Rightarrow> Port_Str v
     | CBool v \<Rightarrow> Port_Bool v | CArray sl \<Rightarrow> Port_Array (slice_elems s sl))"

section \<open>Operations on ports (port.go)\<close>

definition zero_data :: ArrayData where
  "zero_data = \<lparr>IntVal = 0, StrVal = []\<rparr>"

definition new_port :: "pcell \<Rightarrow> pstore \<Rightarrow> nat \<times> pstore" where
  "new_port c s = (ps_next s, bump (set_pt (ps_next s) c s))"

definition new_arr :: "(nat \<Rightarrow> nat) \<Rightarrow> ArrayData list \<Rightarrow> pstore \<Rightarrow> pslice \<times> pstore" where
  "new_arr spare xs s =
     (\<lparr>ps_arr = ps_next s, ps_len = length xs\<rparr>, bump (set_arr (ps_next s) (xs @ replicate (spare (ps_next s)) zero_data) s))"

definition st_append :: "(nat \<Rightarrow> nat) \<Rightarrow> pslice option \<Rightarrow> ArrayData list \<Rightarrow> pstore \<Rightarrow> pslice option \<times> pstore" where
  "st_append spare sl xs s =
     (if xs = [] then (sl, s)
      else case sl of
        None \<Rightarrow> let (t, s1) = new_arr spare xs s in (Some t, s1)
      | Some t \<Rightarrow>
          let b = ps_array s (ps_arr t); n = ps_len t + length xs in
          if n \<le> length b
          then (Some (t\<lparr>ps_len := n\<rparr>), set_arr (ps_arr t) (take (ps_len t) b @ xs @ drop n b) s)
          else let (t', s1) = new_arr spare (take (ps_len t) b @ xs) s in (Some t', s1))"

definition st_Clone :: "(nat \<Rightarrow> nat) \<Rightarrow> nat \<Rightarrow> pstore \<Rightarrow> nat \<times> pstore" where
  "st_Clone spare a s =
     (case ps_port s a of
        CArray sl \<Rightarrow> let (sl', s1) = st_append spare None (slice_elems s sl) s in new_port (CArray sl') s1
      | c \<Rightarrow> new_port c s)"

fun zero_cell :: "pcell \<Rightarrow> pcell" where
  "zero_cell CExec = CExec"
| "zero_cell (CInt _) = CInt 0"
| "zero_cell (CFloat _) = CFloat (FNum 0)"
| "zero_cell (CStr _) = CStr []"
| "zero_cell (CBool _) = CBool False"
| "zero_cell (CArray _) = CArray None"

definition st_Reset :: "nat \<Rightarrow> pstore \<Rightarrow> pstore" where
  "st_Reset a s = set_pt a (zero_cell (ps_port s a)) s"

definition st_SetInt :: "nat \<Rightarrow> int \<Rightarrow> pstore \<Rightarrow> bool \<times> pstore" where
  "st_SetInt a v s = (case ps_port s a of CInt _ \<Rightarrow> (True, set_pt a (CInt v) s) | _ \<Rightarrow> (False, s))"

definition st_SetFloat :: "nat \<Rightarrow> f64 \<Rightarrow> pstore \<Rightarrow> bool \<times> pstore" where
  "st_SetFloat a v s = (case ps_port s a of CFloat _ \<Rightarrow> (True, set_pt a (CFloat v) s) | _ \<Rightarrow> (False, s))"

definition st_SetStr :: "nat \<Rightarrow> string \<Rightarrow> pstore \<Rightarrow> bool \<times> pstore" where
  "st_SetStr a v s = (case ps_port s a of CStr _ \<Rightarrow> (True, set_pt a (CStr v) s) | _ \<Rightarrow> (False, s))"

definition st_SetBool :: "nat \<Rightarrow> bool \<Rightarrow> pstore \<Rightarrow> bool \<times> pstore" where
  "st_SetBool a v s = (case ps_port s a of CBool _ \<Rightarrow> (True, set_pt a (CBool v) s) | _ \<Rightarrow> (False, s))"

text \<open>The element is written in the backing array.\<close>

definition set_elem :: "nat \<Rightarrow> int \<Rightarrow> (ArrayData \<Rightarrow> ArrayData) \<Rightarrow> pstore \<Rightarrow> bool \<times> pstore" where
  "set_elem a idx f s =
     (case ps_port s a of
        CArray (Some t) \<Rightarrow>
          if 0 \<le> idx \<and> idx < int (ps_len t)
          then (True, set_arr (ps_arr t) ((ps_array s (ps_arr t))[nat idx := f (ps_array s (ps_arr t) ! nat idx)]) s)
          else (False, s)
      | _ \<Rightarrow> (False, s))"

definition st_SetArrayValInt :: "nat \<Rightarrow> int \<Rightarrow> int \<Rightarrow> pstore \<Rightarrow> bool \<times> pstore" where
  "st_SetArrayValInt a idx v s = set_elem a idx (\<lambda>d. d\<lparr>IntVal := v\<rparr>) s"

definition st_SetArrayValStr :: "nat \<Rightarrow> int \<Rightarrow> string \<Rightarrow> pstore \<Rightarrow> bool \<times> pstore" where
  "st_SetArrayValStr a idx v s = set_elem a idx (\<lambda>d. d\<lparr>StrVal := v\<rparr>) s"

definition st_AppendArrayData :: "(nat \<Rightarrow> nat) \<Rightarrow> nat \<Rightarrow> ArrayData \<Rightarrow> pstore \<Rightarrow> bool \<times> pstore" where
  "st_AppendArrayData spare a v s =
     (case ps_port s a of
        CArray sl \<Rightarrow> let (sl', s1) = st_append spare sl [v] s in (True, set_pt a (CArray sl') s1)
      | _ \<Rightarrow> (False, s))"

definition st_AppendArrayValInt :: "(nat \<Rightarrow> nat) \<Rightarrow> nat \<Rightarrow> int \<Rightarrow> pstore \<Rightarrow> bool \<times> pstore" where
  "st_AppendArrayValInt spare a v s = st_AppendArrayData spare a (zero_data\<lparr>IntVal := v\<rparr>) s"

definition st_AppendArrayValStr :: "(nat \<Rightarrow> nat) \<Rightarrow> nat \<Rightarrow> string \<Rightarrow> pstore \<Rightarrow> bool \<times> pstore" where
  "st_AppendArrayValStr spare a v s = st_AppendArrayData spare a (zero_data\<lparr>StrVal := v\<rparr>) s"

text \<open>\<^verbatim>\<open>SetValue\<close> copies the cell: of an array, the slice and not its elements.\<close>

definition st_SetValue :: "nat \<Rightarrow> nat \<Rightarrow> pstore \<Rightarrow> bool \<times> pstore" where
  "st_SetValue a b s = (if zero_cell (ps_port s a) = zero_cell (ps_port s b) then (True, set_pt a (ps_port s b) s) else (False, s))"

section \<open>Tables of variables (graph.go)\<close>

text \<open>The walk of \<^verbatim>\<open>clonePortMap\<close> over the keys \<open>ks\<close> of the table \<open>m\<close>, filling \<open>m'\<close>.\<close>

fun clone_ports :: "(nat \<Rightarrow> nat) \<Rightarrow> string list \<Rightarrow> nat \<Rightarrow> nat \<Rightarrow> pstore \<Rightarrow> pstore" where
  "clone_ports spare [] m m' s = s"
| "clone_ports spare (k # ks) m m' s =
     (case ps_map s m k of
        None \<Rightarrow> clone_ports spare ks m m' s
      | Some None \<Rightarrow> clone_ports spare ks m m' (set_mp m' ((ps_map s m')(k \<mapsto> None)) s)
      | Some (Some a) \<Rightarrow>
          let (a', s1) = st_Clone spare a s in clone_ports spare ks m m' (set_mp m' ((ps_map s1 m')(k \<mapsto> Some a')) s1))"

definition new_map :: "pstore \<Rightarrow> nat \<times> pstore" where
  "new_map s = (ps_next s, bump (set_mp (ps_next s) Map.empty s))"

definition st_clonePortMap :: "(nat \<Rightarrow> nat) \<Rightarrow> string list \<Rightarrow> nat option \<Rightarrow> pstore \<Rightarrow> nat option \<times> pstore" where
  "st_clonePortMap spare ks src s =
     (case src of
        None \<Rightarrow> (None, s)
      | Some m \<Rightarrow> let (m', s1) = new_map s in (Some m', clone_ports spare ks m m' s1))"

text \<open>What the nodes of a run do with ports. The ports in hand are numbered; an operation on one that is not there is skipped.\<close>

datatype port_op =
    PGetVar string
  | PSetVar string nat
  | PReturn
  | PNew pcell
  | PClone nat
  | PReset nat
  | PSetInt nat int
  | PSetFloat nat f64
  | PSetStr nat string
  | PSetBool nat bool
  | PSetArrayValInt nat int int
  | PSetArrayValStr nat int string
  | PAppendArrayData nat ArrayData
  | PSetValue nat nat

type_synonym prun = "pstore \<times> nat \<times> nat list"

definition with_port :: "nat \<Rightarrow> (nat \<Rightarrow> pstore \<Rightarrow> pstore) \<Rightarrow> prun \<Rightarrow> prun" where
  "with_port i f st = (case st of (s, m, ps) \<Rightarrow> if i < length ps then (f (ps ! i) s, m, ps) else st)"

definition take_port :: "nat \<times> pstore \<Rightarrow> nat \<Rightarrow> nat list \<Rightarrow> prun" where
  "take_port r m ps = (snd r, m, ps @ [fst r])"

text \<open>\<^verbatim>\<open>GetAndCreateReturnPort\<close>, on the table \<open>m\<close>.\<close>

definition st_return_port :: "nat \<Rightarrow> pstore \<Rightarrow> nat \<times> pstore" where
  "st_return_port m s =
     (case ps_map s m ReturnVarial of
        Some (Some a) \<Rightarrow> (a, s)
      | _ \<Rightarrow> let (a, s1) = new_port (CArray None) s in (a, set_mp m ((ps_map s1 m)(ReturnVarial \<mapsto> Some a)) s1))"

fun port_do :: "(nat \<Rightarrow> nat) \<Rightarrow> port_op \<Rightarrow> prun \<Rightarrow> prun" where
  "port_do spare (PGetVar k) (s, m, ps) = (case ps_map s m k of Some (Some a) \<Rightarrow> (s, m, ps @ [a]) | _ \<Rightarrow> (s, m, ps))"
| "port_do spare (PSetVar k i) (s, m, ps) =
     (if i < length ps then (set_mp m ((ps_map s m)(k \<mapsto> Some (ps ! i))) s, m, ps) else (s, m, ps))"
| "port_do spare PReturn (s, m, ps) = take_port (st_return_port m s) m ps"
| "port_do spare (PNew c) (s, m, ps) = take_port (new_port (zero_cell c) s) m ps"
| "port_do spare (PClone i) (s, m, ps) = (if i < length ps then take_port (st_Clone spare (ps ! i) s) m ps else (s, m, ps))"
| "port_do spare (PReset i) st = with_port i st_Reset st"
| "port_do spare (PSetInt i v) st = with_port i (\<lambda>a s. snd (st_SetInt a v s)) st"
| "port_do spare (PSetFloat i v) st = with_port i (\<lambda>a s. snd (st_SetFloat a v s)) st"
| "port_do spare (PSetStr i v) st = with_port i (\<lambda>a s. snd (st_SetStr a v s)) st"
| "port_do spare (PSetBool i v) st = with_port i (\<lambda>a s. snd (st_SetBool a v s)) st"
| "port_do spare (PSetArrayValInt i idx v) st = with_port i (\<lambda>a s. snd (st_SetArrayValInt a idx v s)) st"
| "port_do spare (PSetArrayValStr i idx v) st = with_port i (\<lambda>a s. snd (st_SetArrayValStr a idx v s)) st"
| "port_do spare (PAppendArrayData i v) st = with_port i (\<lambda>a s. snd (st_AppendArrayData spare a v s)) st"
| "port_do spare (PSetValue i j) (s, m, ps) =
     (if i < length ps \<and> j < length ps then (snd (st_SetValue (ps ! i) (ps ! j) s), m, ps) else (s, m, ps))"

text \<open>
  \<^verbatim>\<open>Graph.Do\<close>, as far as the global variables go, with the table \<open>g\<close> of the graph (\<open>None\<close> is a nil map): the saved copy, the
  working copy, the run, and the saved copy put back when the run panicked. The result is the graph's table and the store.
\<close>

definition st_Graph_Do :: "(nat \<Rightarrow> nat) \<Rightarrow> string list \<Rightarrow> string list \<Rightarrow> port_op list \<Rightarrow> bool \<Rightarrow> nat option \<Rightarrow> pstore \<Rightarrow>
    nat option \<times> pstore" where
  "st_Graph_Do spare ks ks' ops panics g s =
     (let (prev, s1) = st_clonePortMap spare ks g s;
          (cur, s2) = st_clonePortMap spare ks' g s1;
          (m, s3) = (case cur of None \<Rightarrow> new_map s2 | Some m \<Rightarrow> (m, s2));
          s4 = set_mp m ((ps_map s3 m)(ReturnVarial \<mapsto> None)) s3;
          (s5, _, _) = fold (port_do spare) ops (s4, m, [])
      in (if panics then prev else Some m, s5))"

text \<open>\<^verbatim>\<open>Graph.Clone\<close> and \<^verbatim>\<open>Blueprint.Do\<close>: the clone has a copied table; the graph keeps the table \<open>g\<close>. The result is the clone's table.\<close>

definition st_Blueprint_Do :: "(nat \<Rightarrow> nat) \<Rightarrow> string list \<Rightarrow> string list \<Rightarrow> string list \<Rightarrow> port_op list \<Rightarrow> bool \<Rightarrow> nat option \<Rightarrow> pstore \<Rightarrow>
    nat option \<times> pstore" where
  "st_Blueprint_Do spare ks ks1 ks2 ops panics g s =
     (let (clone, s1) = st_clonePortMap spare ks g s in st_Graph_Do spare ks1 ks2 ops panics clone s1)"

section \<open>What is allocated, and what a run owns\<close>

definition cell_below :: "nat \<Rightarrow> pcell \<Rightarrow> bool" where
  "cell_below N c \<longleftrightarrow> (\<forall>t. c = CArray (Some t) \<longrightarrow> ps_arr t < N)"

definition cell_above :: "nat \<Rightarrow> pcell \<Rightarrow> bool" where
  "cell_above N c \<longleftrightarrow> (\<forall>t. c = CArray (Some t) \<longrightarrow> N \<le> ps_arr t)"

definition alloc_port :: "pstore \<Rightarrow> nat \<Rightarrow> bool" where
  "alloc_port s a \<longleftrightarrow> a < ps_next s \<and> cell_below (ps_next s) (ps_port s a)"

definition alloc_map :: "pstore \<Rightarrow> nat \<Rightarrow> bool" where
  "alloc_map s m \<longleftrightarrow> m < ps_next s \<and> (\<forall>k a. ps_map s m k = Some (Some a) \<longrightarrow> alloc_port s a)"

definition owned :: "nat \<Rightarrow> pstore \<Rightarrow> nat \<Rightarrow> bool" where
  "owned N s a \<longleftrightarrow> N \<le> a \<and> cell_above N (ps_port s a)"

definition table :: "pstore \<Rightarrow> nat \<Rightarrow> string \<rightharpoonup> port option" where
  "table s m k = map_option (map_option (content s)) (ps_map s m k)"

text \<open>\<open>same_below N s s'\<close>: nothing below the address \<open>N\<close> has changed.\<close>

definition same_below :: "nat \<Rightarrow> pstore \<Rightarrow> pstore \<Rightarrow> bool" where
  "same_below N s s' \<longleftrightarrow> ps_next s \<le> ps_next s' \<and> (\<forall>a < N. ps_port s' a = ps_port s a \<and> ps_array s' a = ps_array s a \<and> ps_map s' a = ps_map s a)"

lemma same_below_refl [simp]: "same_below N s s"
  by (simp add: same_below_def)

lemma same_below_trans: "same_below N s s1 \<Longrightarrow> same_below N s1 s2 \<Longrightarrow> same_below N s s2"
  by (auto simp: same_below_def)

lemma same_below_mono: "same_below N s s' \<Longrightarrow> M \<le> N \<Longrightarrow> same_below M s s'"
  by (auto simp: same_below_def)

lemma content_same:
  assumes "same_below N s s'" "a < N" "cell_below N (ps_port s a)"
  shows "content s' a = content s a"
  using assms by (auto simp: content_def same_below_def cell_below_def slice_elems_def split: pcell.split option.split)

text \<open>A table that was allocated is the same when nothing below that point has changed.\<close>

lemma table_same:
  assumes "alloc_map s m" "same_below (ps_next s) s s'"
  shows "table s' m = table s m" "alloc_map s' m"
proof -
  have m: "ps_map s' m = ps_map s m" using assms by (simp add: alloc_map_def same_below_def)
  have p: "alloc_port s a" if "ps_map s m k = Some (Some a)" for k a using assms(1) that by (simp add: alloc_map_def)
  have "content s' a = content s a" if "ps_map s m k = Some (Some a)" for k a
    using content_same [OF assms(2)] p [OF that] by (simp add: alloc_port_def)
  then show "table s' m = table s m" by (auto simp: table_def m fun_eq_iff split: option.splits intro!: option.map_cong)
  have "alloc_port s' a" if "ps_map s m k = Some (Some a)" for k a
    using p [OF that] assms(2) by (auto simp: alloc_port_def same_below_def cell_below_def)
  then show "alloc_map s' m" using assms by (auto simp: alloc_map_def m same_below_def)
qed

section \<open>Cloning\<close>

lemma new_arr_ok:
  assumes "new_arr spare xs s = (t, s')"
  shows "same_below (ps_next s) s s'" "ps_arr t = ps_next s" "ps_next s' = Suc (ps_next s)" "slice_elems s' (Some t) = xs" "ps_map s' = ps_map s"
  using assms by (auto simp: new_arr_def same_below_def slice_elems_def)

lemma new_port_ok:
  assumes "new_port c s = (a, s')"
  shows "same_below (ps_next s) s s'" "a = ps_next s" "ps_next s' = Suc (ps_next s)" "ps_port s' a = c" "ps_map s' = ps_map s" "ps_array s' = ps_array s"
  using assms by (auto simp: new_port_def same_below_def)

text \<open>A clone has the same content and lies above everything that was allocated.\<close>

lemma st_Clone_ok:
  assumes c: "st_Clone spare a s = (a', s')"
  shows "same_below (ps_next s) s s'" "content s' a' = content s a" "alloc_port s' a'" "owned (ps_next s) s' a'" "ps_map s' = ps_map s"
proof -
  have "same_below (ps_next s) s s' \<and> content s' a' = content s a \<and> alloc_port s' a' \<and> owned (ps_next s) s' a' \<and> ps_map s' = ps_map s"
  proof (cases "\<exists>sl. ps_port s a = CArray sl")
    case False
    then have "new_port (ps_port s a) s = (a', s')" using c by (auto simp: st_Clone_def split: pcell.splits)
    from new_port_ok [OF this] False show ?thesis
      by (auto simp: content_def alloc_port_def owned_def cell_below_def cell_above_def split: pcell.split)
  next
    case True
    then obtain sl where sl: "ps_port s a = CArray sl" by blast
    show ?thesis
    proof (cases "slice_elems s sl")
      case Nil
      then have "new_port (CArray None) s = (a', s')" using c sl by (simp add: st_Clone_def st_append_def)
      from new_port_ok [OF this] Nil sl show ?thesis
        by (auto simp: content_def alloc_port_def owned_def cell_below_def cell_above_def slice_elems_def)
    next
      case Cons
      obtain t s1 where t: "new_arr spare (slice_elems s sl) s = (t, s1)" by fastforce
      then have p: "new_port (CArray (Some t)) s1 = (a', s')" using c sl Cons by (simp add: st_Clone_def st_append_def)
      note n = new_arr_ok [OF t] and q = new_port_ok [OF p]
      have "same_below (ps_next s) s s'"
        using same_below_trans [OF n(1)] same_below_mono [OF q(1), of "ps_next s"] n(3) by simp
      moreover have "content s' a' = content s a" using n(4) q(4,6) sl by (simp add: content_def slice_elems_def)
      ultimately show ?thesis using n q by (simp add: alloc_port_def owned_def cell_below_def cell_above_def)
    qed
  qed
  then show "same_below (ps_next s) s s'" "content s' a' = content s a" "alloc_port s' a'" "owned (ps_next s) s' a'" "ps_map s' = ps_map s"
    by blast+
qed

text \<open>The walk of \<^verbatim>\<open>clonePortMap\<close>: what it has filled so far.\<close>

definition cloned :: "pstore \<Rightarrow> nat \<Rightarrow> nat \<Rightarrow> string set \<Rightarrow> pstore \<Rightarrow> bool" where
  "cloned s0 m m' K s \<longleftrightarrow> same_below (ps_next s0) s0 s \<and> ps_next s0 \<le> m' \<and> alloc_map s m' \<and>
     (\<forall>k a. ps_map s m' k = Some (Some a) \<longrightarrow> owned (ps_next s0) s a) \<and> table s m' = table s0 m |` K"

lemma content_set_mp [simp]: "content (set_mp m f s) = content s"
  by (auto simp: content_def slice_elems_def fun_eq_iff split: pcell.split option.split)

lemma set_mp_self [simp]: "set_mp m (ps_map s m) s = s"
  by (simp add: set_mp_def)

lemma table_set_mp: "table (set_mp m (f(k \<mapsto> v)) s) m = (table (set_mp m f s) m)(k \<mapsto> map_option (content s) v)"
  by (auto simp: table_def fun_eq_iff)

lemma alloc_port_set_mp [simp]: "alloc_port (set_mp m f s) a = alloc_port s a" "owned N (set_mp m f s) a = owned N s a"
  by (simp_all add: alloc_port_def owned_def)

lemma cloned_put:
  assumes c: "cloned s0 m m' K s" and s2: "same_below (ps_next s) s s2" "ps_map s2 = ps_map s"
    and v: "\<And>a. v = Some a \<Longrightarrow> alloc_port s2 a \<and> owned (ps_next s0) s2 a" and k: "table s0 m k = Some (map_option (content s2) v)"
  shows "cloned s0 m m' (insert k K) (set_mp m' ((ps_map s2 m')(k \<mapsto> v)) s2)"
proof -
  let ?s = "set_mp m' ((ps_map s2 m')(k \<mapsto> v)) s2"
  have al: "alloc_map s m'" "m' < ps_next s" "ps_next s0 \<le> m'" using c by (auto simp: cloned_def alloc_map_def)
  note t = table_same [OF al(1) s2(1)]
  have le: "ps_next s0 \<le> ps_next s" using c by (simp add: cloned_def same_below_def)
  have "same_below (ps_next s0) s0 s2"
    using c same_below_trans same_below_mono [OF s2(1) le] by (auto simp: cloned_def)
  then have "same_below (ps_next s0) s0 ?s" using al(3) by (auto simp: same_below_def)
  moreover have "alloc_map ?s m'" using t(2) v by (auto simp: alloc_map_def)
  moreover have "owned (ps_next s0) ?s a" if "ps_map ?s m' j = Some (Some a)" for j a
  proof (cases "j = k")
    case False
    then have a: "ps_map s m' j = Some (Some a)" using that s2(2) by simp
    then have "owned (ps_next s0) s a" "a < ps_next s" using c by (auto simp: cloned_def alloc_map_def alloc_port_def)
    then show ?thesis using s2(1) by (simp add: owned_def same_below_def)
  qed (use that v in simp)
  moreover have "table ?s m' = table s0 m |` insert k K"
  proof -
    have "table ?s m' = (table s2 m')(k \<mapsto> map_option (content s2) v)" by (simp add: table_set_mp)
    then show ?thesis using t(1) c k by (auto simp: cloned_def restrict_map_def fun_eq_iff)
  qed
  ultimately show ?thesis using al(3) by (simp add: cloned_def)
qed

lemma clone_ports_ok:
  "alloc_map s0 m \<Longrightarrow> cloned s0 m m' K s \<Longrightarrow> cloned s0 m m' (K \<union> set ks) (clone_ports spare ks m m' s)"
proof (induction ks arbitrary: K s)
  case (Cons k ks)
  note c = Cons.prems(2)
  have m: "ps_map s m = ps_map s0 m" using c Cons.prems(1) by (simp add: cloned_def alloc_map_def same_below_def)
  have put: "cloned s0 m m' (K \<union> insert k (set ks)) (clone_ports spare ks m m' s')" if "cloned s0 m m' (insert k K) s'" for s'
    using Cons.IH [OF Cons.prems(1) that] by simp
  show ?case
  proof (cases "ps_map s0 m k")
    case None
    then have "table s0 m |` insert k K = table s0 m |` K" by (auto simp: table_def restrict_map_def fun_eq_iff)
    then have "cloned s0 m m' (insert k K) s" using c by (simp add: cloned_def)
    then show ?thesis using put None m by simp
  next
    case (Some v)
    show ?thesis
    proof (cases v)
      case None
      have "cloned s0 m m' (insert k K) (set_mp m' ((ps_map s m')(k \<mapsto> None)) s)"
        by (rule cloned_put [OF c]) (use Some None in \<open>simp_all add: table_def\<close>)
      then show ?thesis using put Some None m by simp
    next
      case v: (Some a)
      obtain a' s2 where cl: "st_Clone spare a s = (a', s2)" by fastforce
      note q = st_Clone_ok [OF cl]
      have a: "alloc_port s0 a" using Cons.prems(1) Some v by (simp add: alloc_map_def)
      have "content s a = content s0 a"
        by (rule content_same [of "ps_next s0"]) (use c a in \<open>auto simp: cloned_def alloc_port_def\<close>)
      moreover have "owned (ps_next s0) s2 a'"
        using q(4) c by (auto simp: owned_def cell_above_def cloned_def same_below_def)
      ultimately have "cloned s0 m m' (insert k K) (set_mp m' ((ps_map s2 m')(k \<mapsto> Some a')) s2)"
        using q(2,3) Some v by (intro cloned_put [OF c q(1,5)]) (simp_all add: table_def)
      then show ?thesis using put Some v m cl by simp
    qed
  qed
qed simp

lemma clonePortMap_ok:
  assumes "alloc_map s m" "dom (ps_map s m) \<subseteq> set ks" "st_clonePortMap spare ks (Some m) s = (g, s')"
  obtains m' where "g = Some m'" "cloned s m m' UNIV s'"
proof -
  obtain m' s1 where n: "new_map s = (m', s1)" by fastforce
  have "cloned s m m' {} s1"
    using n by (auto simp: new_map_def cloned_def alloc_map_def same_below_def table_def fun_eq_iff)
  from clone_ports_ok [OF assms(1) this, of ks spare] have "cloned s m m' (set ks) s'" "g = Some m'"
    using assms(3) n by (simp_all add: st_clonePortMap_def)
  moreover have "table s m |` set ks = table s m"
    using assms(2) by (auto simp: table_def restrict_map_def fun_eq_iff dom_def)
  moreover have "table s m |` UNIV = table s m" by (simp add: restrict_map_def)
  ultimately show ?thesis using that by (simp add: cloned_def)
qed

section \<open>Runs\<close>

text \<open>\<open>moves N s s'\<close>: an operation on owned ports; nothing below \<open>N\<close> and no table changes, what was owned still is.\<close>

definition moves :: "nat \<Rightarrow> pstore \<Rightarrow> pstore \<Rightarrow> bool" where
  "moves N s s' \<longleftrightarrow> same_below N s s' \<and> ps_map s' = ps_map s \<and> (\<forall>a. owned N s a \<longrightarrow> owned N s' a)"

lemma moves_refl [simp]: "moves N s s"
  by (simp add: moves_def)

lemma moves_trans: "moves N s s1 \<Longrightarrow> moves N s1 s2 \<Longrightarrow> moves N s s2"
  unfolding moves_def using same_below_trans by fastforce

lemma moves_prim:
  "N \<le> a \<Longrightarrow> cell_above N c \<Longrightarrow> moves N s (set_pt a c s)" "N \<le> b \<Longrightarrow> moves N s (set_arr b xs s)" "moves N s (bump s)"
  by (auto simp: moves_def same_below_def owned_def)

lemma cell_above_simps [simp]:
  "cell_above N CExec" "cell_above N (CInt v)" "cell_above N (CFloat f)" "cell_above N (CStr x)" "cell_above N (CBool y)"
  "cell_above N (CArray None)" "cell_above N (CArray (Some t)) \<longleftrightarrow> N \<le> ps_arr t"
  by (auto simp: cell_above_def)

lemma zero_cell_above [simp]: "cell_above N (zero_cell c)"
  by (cases c) simp_all

lemma new_port_moves:
  assumes "N \<le> ps_next s" "cell_above N c"
  shows "moves N s (snd (new_port c s))" "owned N (snd (new_port c s)) (fst (new_port c s))"
  using assms moves_trans [OF moves_prim(1) moves_prim(3)] by (auto simp: new_port_def owned_def)

lemma new_arr_moves:
  assumes "N \<le> ps_next s"
  shows "moves N s (snd (new_arr spare xs s))" "N \<le> ps_arr (fst (new_arr spare xs s))"
  using assms moves_trans [OF moves_prim(2) moves_prim(3)] by (auto simp: new_arr_def)

lemma append_moves:
  assumes "N \<le> ps_next s" "cell_above N (CArray sl)" "st_append spare sl xs s = (sl', s')"
  shows "moves N s s' \<and> cell_above N (CArray sl')"
proof (cases "xs = []")
  case False
  have new: "moves N s s1" "N \<le> ps_arr t" if "new_arr spare ys s = (t, s1)" for ys t s1
    using new_arr_moves [OF assms(1), of spare ys] that by simp_all
  show ?thesis
  proof (cases sl)
    case None
    then show ?thesis using assms(3) False new by (auto simp: st_append_def split: prod.splits)
  next
    case (Some t)
    then show ?thesis using assms(2,3) False new moves_prim(2)
      by (auto simp: st_append_def Let_def split: prod.splits if_splits)
  qed
qed (use assms in \<open>auto simp: st_append_def\<close>)

lemma Clone_moves:
  assumes "N \<le> ps_next s" "owned N s a"
  shows "moves N s (snd (st_Clone spare a s)) \<and> owned N (snd (st_Clone spare a s)) (fst (st_Clone spare a s))"
proof (cases "\<exists>sl. ps_port s a = CArray sl")
  case True
  then obtain sl where sl: "ps_port s a = CArray sl" by blast
  obtain sl' s1 where ap: "st_append spare None (slice_elems s sl) s = (sl', s1)" by fastforce
  have m: "moves N s s1" "cell_above N (CArray sl')" using append_moves [OF assms(1) _ ap] by simp_all
  have "N \<le> ps_next s1" using m(1) assms(1) by (simp add: moves_def same_below_def)
  from new_port_moves [OF this m(2)] moves_trans [OF m(1)] show ?thesis using sl ap by (simp add: st_Clone_def)
next
  case False
  then have "st_Clone spare a s = new_port (ps_port s a) s" "cell_above N (ps_port s a)"
    using assms(2) by (auto simp: st_Clone_def owned_def split: pcell.split)
  then show ?thesis using new_port_moves [OF assms(1)] by simp
qed

lemma port_moves:
  assumes "owned N s a"
  shows "moves N s (st_Reset a s)" "moves N s (snd (st_SetInt a v s))" "moves N s (snd (st_SetFloat a f s))"
    "moves N s (snd (st_SetStr a x s))" "moves N s (snd (st_SetBool a y s))" "moves N s (snd (set_elem a idx d s))"
  using assms moves_prim(1,2)
  by (auto simp: st_Reset_def st_SetInt_def st_SetFloat_def st_SetStr_def st_SetBool_def set_elem_def owned_def
      split: pcell.split option.split)

lemma append_port_moves:
  assumes "N \<le> ps_next s" "owned N s a"
  shows "moves N s (snd (st_AppendArrayData spare a v s))"
proof (cases "\<exists>sl. ps_port s a = CArray sl")
  case True
  then obtain sl where sl: "ps_port s a = CArray sl" by blast
  obtain sl' s1 where ap: "st_append spare sl [v] s = (sl', s1)" by fastforce
  have m: "moves N s s1" "cell_above N (CArray sl')" using append_moves [OF assms(1) _ ap] assms(2) sl by (auto simp: owned_def)
  from moves_trans [OF m(1) moves_prim(1) [OF _ m(2)]] assms(2) show ?thesis
    using sl ap by (simp add: st_AppendArrayData_def owned_def)
qed (auto simp: st_AppendArrayData_def split: pcell.split)

text \<open>A run that owns its table and the ports in hand.\<close>

definition owns :: "nat \<Rightarrow> prun \<Rightarrow> bool" where
  "owns N st \<longleftrightarrow> (case st of (s, m, ps) \<Rightarrow> N \<le> ps_next s \<and> N \<le> m \<and> (\<forall>a \<in> set ps. owned N s a) \<and>
     (\<forall>k a. ps_map s m k = Some (Some a) \<longrightarrow> owned N s a))"

lemma owns_moves:
  assumes "owns N (s, m, ps)" "moves N s s'"
  shows "owns N (s', m, ps) \<and> same_below N s s'"
  using assms by (auto simp: owns_def moves_def same_below_def)

lemma owns_take:
  assumes "owns N (s, m, ps)" "moves N s (snd r)" "owned N (snd r) (fst r)"
  shows "owns N (take_port r m ps) \<and> same_below N s (fst (take_port r m ps))"
  using owns_moves [OF assms(1,2)] assms(3) by (auto simp: owns_def take_port_def)

lemma owns_put:
  assumes "owns N (s, m, ps)" "\<And>a. v = Some a \<Longrightarrow> owned N s a"
  shows "owns N (set_mp m ((ps_map s m)(k \<mapsto> v)) s, m, ps) \<and> same_below N s (set_mp m ((ps_map s m)(k \<mapsto> v)) s)"
  using assms by (auto simp: owns_def same_below_def split: if_splits)

lemma return_port_owns:
  assumes "owns N (s, m, ps)"
  shows "owns N (take_port (st_return_port m s) m ps) \<and> same_below N s (fst (take_port (st_return_port m s) m ps))"
proof (cases "\<exists>a. ps_map s m ReturnVarial = Some (Some a)")
  case True
  then show ?thesis using owns_take [OF assms, of "st_return_port m s"] assms by (auto simp: st_return_port_def owns_def)
next
  case False
  obtain a s1 where n: "new_port (CArray None) s = (a, s1)" by fastforce
  have "N \<le> ps_next s" using assms by (simp add: owns_def)
  from new_port_moves [OF this, of "CArray None"] n have m: "moves N s s1" "owned N s1 a" by simp_all
  have o: "owns N (s1, m, ps)" "same_below N s s1" using owns_moves [OF assms m(1)] by simp_all
  from owns_put [OF o(1), of "Some a" ReturnVarial] m(2) have
    "owns N (set_mp m ((ps_map s1 m)(ReturnVarial \<mapsto> Some a)) s1, m, ps)" "same_below N s1 (set_mp m ((ps_map s1 m)(ReturnVarial \<mapsto> Some a)) s1)"
    by simp_all
  moreover have "st_return_port m s = (a, set_mp m ((ps_map s1 m)(ReturnVarial \<mapsto> Some a)) s1)"
    using False n by (auto simp: st_return_port_def split: option.split)
  ultimately show ?thesis using m(2) same_below_trans [OF o(2)] by (auto simp: take_port_def owns_def)
qed

lemma with_port_owns:
  assumes "owns N st" "\<And>s m ps a. st = (s, m, ps) \<Longrightarrow> N \<le> ps_next s \<Longrightarrow> owned N s a \<Longrightarrow> moves N s (f a s)"
  shows "owns N (with_port i f st) \<and> same_below N (fst st) (fst (with_port i f st))"
proof -
  obtain s m ps where st: "st = (s, m, ps)" by (cases st)
  have "moves N s (f (ps ! i) s)" if "i < length ps" using that assms st by (auto simp: owns_def)
  then show ?thesis using owns_moves [of N s m ps] assms(1) by (auto simp: with_port_def st)
qed

lemma port_do_owns:
  assumes "owns N st"
  shows "owns N (port_do spare p st) \<and> same_below N (fst st) (fst (port_do spare p st))"
proof -
  obtain s m ps where st: "st = (s, m, ps)" by (cases st)
  have o: "owns N (s, m, ps)" and fr: "N \<le> ps_next s" using assms by (simp_all add: st owns_def)
  have own: "owned N s (ps ! i)" if "i < length ps" for i using that o by (simp add: owns_def)
  show ?thesis
  proof (cases p)
    case (PGetVar k)
    then show ?thesis using o by (auto simp: st owns_def split: option.split)
  next
    case (PSetVar k i)
    then show ?thesis using o owns_put [OF o, of "Some (ps ! i)" k] own by (simp add: st)
  next
    case PReturn
    then show ?thesis using return_port_owns [OF o] by (simp add: st)
  next
    case (PNew c)
    then show ?thesis using owns_take [OF o] new_port_moves [OF fr, of "zero_cell c"] by (simp add: st)
  next
    case (PClone i)
    then show ?thesis using owns_take [OF o] Clone_moves [OF fr own] o by (simp add: st)
  next
    case (PSetValue i j)
    have "moves N s (snd (st_SetValue (ps ! i) (ps ! j) s))" if "i < length ps" "j < length ps"
      using own [OF that(1)] own [OF that(2)] moves_prim(1) by (auto simp: st_SetValue_def owned_def)
    then show ?thesis using PSetValue owns_moves [OF o] o by (simp add: st)
  qed (use with_port_owns [OF assms] port_moves append_port_moves in \<open>auto simp: st_SetArrayValInt_def st_SetArrayValStr_def\<close>)
qed

lemma port_run_owns:
  "owns N st \<Longrightarrow> owns N (fold (port_do spare) ops st) \<and> same_below N (fst st) (fst (fold (port_do spare) ops st))"
proof (induction ops arbitrary: st)
  case (Cons p ops)
  from port_do_owns [OF Cons.prems, of spare p] Cons.IH [of "port_do spare p st"] show ?case
    using same_below_trans by auto
qed simp

section \<open>Graphs\<close>

definition tables :: "pstore \<Rightarrow> nat option \<Rightarrow> (string \<rightharpoonup> port option) option" where
  "tables s g = map_option (table s) g"

lemma tables_Some [simp]: "tables s (Some m) = Some (table s m)"
  by (simp add: tables_def)

definition alloc_opt :: "pstore \<Rightarrow> nat option \<Rightarrow> bool" where
  "alloc_opt s g \<longleftrightarrow> (\<forall>m. g = Some m \<longrightarrow> alloc_map s m)"

text \<open>\<open>ks\<close> is an order in which the keys of the table can be walked.\<close>

definition walk_of :: "pstore \<Rightarrow> nat option \<Rightarrow> string list \<Rightarrow> bool" where
  "walk_of s g ks \<longleftrightarrow> distinct ks \<and> (\<forall>m. g = Some m \<longrightarrow> set ks = dom (ps_map s m))"

lemma clone_opt_ok:
  assumes "alloc_opt s g" "walk_of s g ks" "st_clonePortMap spare ks g s = (g', s')"
  shows "same_below (ps_next s) s s'" "alloc_opt s' g'" "tables s' g' = tables s g"
    "\<And>m. g' = Some m \<Longrightarrow> owns (ps_next s) (s', m, [])"
proof -
  have "same_below (ps_next s) s s' \<and> alloc_opt s' g' \<and> tables s' g' = tables s g \<and> (\<forall>m. g' = Some m \<longrightarrow> owns (ps_next s) (s', m, []))"
  proof (cases g)
    case None
    then show ?thesis using assms(3) by (auto simp: st_clonePortMap_def alloc_opt_def tables_def)
  next
    case (Some m)
    then have "alloc_map s m" "dom (ps_map s m) \<subseteq> set ks" using assms(1,2) by (auto simp: alloc_opt_def walk_of_def)
    from clonePortMap_ok [OF this assms(3) [unfolded Some]] obtain m' where m': "g' = Some m'" "cloned s m m' UNIV s'" by blast
    moreover have "table s m |` UNIV = table s m" by (simp add: restrict_map_def)
    ultimately show ?thesis
      by (auto simp: Some cloned_def alloc_opt_def tables_def owns_def alloc_map_def same_below_def)
  qed
  then show "same_below (ps_next s) s s'" "alloc_opt s' g'" "tables s' g' = tables s g"
    "\<And>m. g' = Some m \<Longrightarrow> owns (ps_next s) (s', m, [])" by blast+
qed

lemma walk_same: "walk_of s g ks \<Longrightarrow> alloc_opt s g \<Longrightarrow> same_below (ps_next s) s s' \<Longrightarrow> walk_of s' g ks"
  by (auto simp: walk_of_def alloc_opt_def alloc_map_def same_below_def)

lemma tables_same: "alloc_opt s g \<Longrightarrow> same_below (ps_next s) s s' \<Longrightarrow> tables s' g = tables s g \<and> alloc_opt s' g"
  using table_same [of s _ s'] by (cases g) (simp_all add: tables_def alloc_opt_def)

text \<open>The working copy at the start of a run.\<close>

lemma run_start:
  assumes "alloc_opt s g" "walk_of s g ks" "st_clonePortMap spare ks g s = (cur, s2)"
    "(case cur of None \<Rightarrow> new_map s2 | Some m \<Rightarrow> (m, s2)) = (m, s3)"
  defines "s4 \<equiv> set_mp m ((ps_map s3 m)(ReturnVarial \<mapsto> None)) s3"
  shows "owns (ps_next s) (s4, m, [])" "same_below (ps_next s) s s4"
    "table s4 m = (case tables s g of None \<Rightarrow> Map.empty | Some f \<Rightarrow> f)(ReturnVarial \<mapsto> None)"
proof -
  note c = clone_opt_ok [OF assms(1-3)]
  have 3: "owns (ps_next s) (s3, m, []) \<and> same_below (ps_next s) s s3 \<and> table s3 m = (case tables s g of None \<Rightarrow> Map.empty | Some f \<Rightarrow> f)"
  proof (cases cur)
    case None
    then have "g = None" using assms(3) by (auto simp: st_clonePortMap_def split: option.splits prod.splits)
    then show ?thesis using assms(4) None c(1)
      by (auto simp: new_map_def owns_def same_below_def tables_def table_def fun_eq_iff)
  next
    case (Some m1)
    then show ?thesis using assms(4) c by (auto simp: tables_def split: option.splits)
  qed
  from owns_put [of "ps_next s" s3 m "[]" None ReturnVarial] 3 show "owns (ps_next s) (s4, m, [])" "same_below (ps_next s) s s4"
    unfolding s4_def using same_below_trans by auto
  show "table s4 m = (case tables s g of None \<Rightarrow> Map.empty | Some f \<Rightarrow> f)(ReturnVarial \<mapsto> None)"
    unfolding s4_def table_set_mp using 3 by simp
qed

text \<open>
  A run of a graph leaves every table that was there as it was; after a panic the graph has a table with the content of
  the old one; a run starts from that content, with the return value cleared.
\<close>

lemma Graph_Do_ok:
  assumes g: "alloc_opt s g" "walk_of s g ks" "walk_of s g ks'" and r: "st_Graph_Do spare ks ks' ops panics g s = (g', s')"
  shows "same_below (ps_next s) s s'" "panics \<Longrightarrow> tables s' g' = tables s g"
    "\<not> panics \<Longrightarrow> ops = [] \<Longrightarrow> tables s' g' = Some ((case tables s g of None \<Rightarrow> Map.empty | Some f \<Rightarrow> f)(ReturnVarial \<mapsto> None))"
proof -
  obtain prev s1 where p: "st_clonePortMap spare ks g s = (prev, s1)" by fastforce
  obtain cur s2 where c: "st_clonePortMap spare ks' g s1 = (cur, s2)" by fastforce
  obtain m s3 where m: "(case cur of None \<Rightarrow> new_map s2 | Some m \<Rightarrow> (m, s2)) = (m, s3)" by fastforce
  define s4 where "s4 = set_mp m ((ps_map s3 m)(ReturnVarial \<mapsto> None)) s3"
  obtain s5 x y where o: "fold (port_do spare) ops (s4, m, []) = (s5, x, y)" by (metis surj_pair)
  have res: "g' = (if panics then prev else Some m)" "s' = s5"
    using r by (simp_all add: st_Graph_Do_def p c m s4_def [symmetric] o)
  note p1 = clone_opt_ok [OF g(1,2) p]
  have g1: "tables s1 g = tables s g" "alloc_opt s1 g" using tables_same [OF g(1) p1(1)] by simp_all
  note st = run_start [OF g1(2) walk_same [OF g(3,1) p1(1)] c m, folded s4_def]
  from port_run_owns [OF st(1), of spare ops] o have "same_below (ps_next s1) s4 s5" by simp
  then have run: "same_below (ps_next s1) s1 s5" using same_below_trans st(2) by blast
  have "ps_next s \<le> ps_next s1" using p1(1) by (simp add: same_below_def)
  then show "same_below (ps_next s) s s'" using same_below_trans [OF p1(1) same_below_mono [OF run]] res(2) by simp
  show "tables s' g' = tables s g" if panics
    using that tables_same [OF p1(2) run] p1(3) res by simp
  show "tables s' g' = Some ((case tables s g of None \<Rightarrow> Map.empty | Some f \<Rightarrow> f)(ReturnVarial \<mapsto> None))"
    if "\<not> panics" "ops = []"
    using that o st(3) [unfolded g1(1)] res by simp
qed

lemma walk_clone:
  assumes "tables s' g' = tables s g" "walk_of s g ks"
  shows "walk_of s' g' ks"
proof (cases g)
  case (Some m)
  then obtain m' where m': "g' = Some m'" "table s' m' = table s m" using assms(1) by (cases g') (simp_all add: tables_def)
  have "dom (ps_map s' m') = dom (table s' m')" "dom (ps_map s m) = dom (table s m)" by (auto simp: table_def)
  then show ?thesis using assms(2) Some m' by (simp add: walk_of_def)
qed (use assms in \<open>auto simp: walk_of_def tables_def\<close>)

lemma Blueprint_Do_ok:
  assumes g: "alloc_opt s g" "walk_of s g ks" "walk_of s g ks1" "walk_of s g ks2"
    and d: "st_Blueprint_Do spare ks ks1 ks2 ops panics g s = (g', s')"
  shows "same_below (ps_next s) s s'"
    "ops = [] \<Longrightarrow> \<not> panics \<Longrightarrow> tables s' g' = Some ((case tables s g of None \<Rightarrow> Map.empty | Some f \<Rightarrow> f)(ReturnVarial \<mapsto> None))"
proof -
  obtain clone s1 where r: "st_clonePortMap spare ks g s = (clone, s1)" by fastforce
  note c = clone_opt_ok [OF g(1,2) r]
  have d': "st_Graph_Do spare ks1 ks2 ops panics clone s1 = (g', s')" using d r by (simp add: st_Blueprint_Do_def)
  note k = Graph_Do_ok [OF c(2) walk_clone [OF c(3) g(3)] walk_clone [OF c(3) g(4)] d']
  have "ps_next s \<le> ps_next s1" using c(1) by (simp add: same_below_def)
  then show "same_below (ps_next s) s s'" using same_below_trans [OF c(1) same_below_mono [OF k(1)]] by simp
  show "tables s' g' = Some ((case tables s g of None \<Rightarrow> Map.empty | Some f \<Rightarrow> f)(ReturnVarial \<mapsto> None))" if "ops = []" "\<not> panics"
    using k(3) that c(3) by simp
qed

text \<open>
  \<^verbatim>\<open>SetValue\<close> of an array port shares the elements: writing one through the port that read a variable changes the variable.
\<close>

lemma SetValue_shares:
  assumes "ps_port s a = CArray None" "ps_port s b = CArray (Some t)" "0 \<le> idx" "idx < int (ps_len t)" "ps_len t \<le> length (ps_array s (ps_arr t))" "a \<noteq> b"
  shows "content (snd (st_SetArrayValInt a idx v (snd (st_SetValue a b s)))) b =
    Port_Array ((slice_elems s (Some t))[nat idx := (slice_elems s (Some t) ! nat idx)\<lparr>IntVal := v\<rparr>])"
  using assms by (simp add: st_SetValue_def st_SetArrayValInt_def set_elem_def content_def slice_elems_def take_update_swap)

text \<open>On one port, the store does what the values of \<open>Port\<close> do.\<close>

lemma append_content:
  assumes "ps_port s a = CArray sl" "\<And>t. sl = Some t \<Longrightarrow> ps_len t \<le> length (ps_array s (ps_arr t))"
  shows "content (snd (st_AppendArrayData spare a v s)) a = snd (Port_AppendArrayData (content s a) v)"
proof (cases sl)
  case None
  then show ?thesis using assms(1)
    by (simp add: st_AppendArrayData_def st_append_def new_arr_def content_def slice_elems_def)
next
  case (Some t)
  then have "ps_len t \<le> length (ps_array s (ps_arr t))" using assms(2) by blast
  then show ?thesis using assms(1) Some
    by (auto simp: st_AppendArrayData_def st_append_def new_arr_def content_def slice_elems_def Let_def)
qed

lemma port_content:
  "content (snd (st_SetInt a v s)) a = snd (Port_SetInt (content s a) v)"
  "content (snd (st_SetFloat a f s)) a = snd (Port_SetFloat (content s a) f)"
  "content (snd (st_SetStr a x s)) a = snd (Port_SetStr (content s a) x)"
  "content (snd (st_SetBool a y s)) a = snd (Port_SetBool (content s a) y)"
  "content (st_Reset a s) a = Port_Reset (content s a)"
  "content (snd (st_SetValue a b s)) a = snd (Port_SetValue (content s a) (content s b))"
  by (auto simp: st_SetInt_def st_SetFloat_def st_SetStr_def st_SetBool_def st_Reset_def st_SetValue_def Port_SetValue_def
      content_def slice_elems_def split: pcell.split option.split)

end
