(* ===== verification/Event.thy ===== *)
theory Event
  imports Prelude
begin

text \<open>
  \<^verbatim>\<open>event/event.go\<close>: event processors and event handlers, and the event channel of a service
  (\<^verbatim>\<open>service/service.go\<close>, \<^verbatim>\<open>pushEvent\<close>) they deliver into. Handlers, processors and channels are objects
  with an address, kept in three stores. A handler belongs to one processor; registering at a
  processor \<open>p\<close> is recorded on three sides: in the handler (which sources it registered at), in the
  handler's own processor (the callback) and in \<open>p\<close> (how many registrations the listening processor
  has). A map whose values are all nil is a set; a nil map that the code only reads, or replaces before
  it writes, is the empty map; the two maps of a processor that are written without that check are
  options. The order in which Go walks a map is not fixed, so a loop over a map takes the order as an
  argument, and the theorems hold for every order. The payload fields of an event (\<^verbatim>\<open>Data\<close>
  and the three \<^verbatim>\<open>Ext\<close> arrays), which no code here looks at, are one field. The count is a Go int; it counts handlers of one
  process and is an unbounded integer here.
\<close>

section \<open>State\<close>

record 'd Event =
  ev_Type :: int
  ev_Data :: 'd
  ev_ref :: bool

record EventHandler =
  eh_eventProcessor :: "nat option"
  mapRegEvent :: "int \<rightharpoonup> nat set"

record 'c EventProcessor =
  ep_channel :: "nat option"
  mapListenerEvent :: "(int \<rightharpoonup> (nat option \<rightharpoonup> int)) option"
  mapBindHandlerEvent :: "(int \<rightharpoonup> (nat \<rightharpoonup> 'c)) option"

record 'd EventChan =
  chanEvent :: "'d Event list"
  chanCap :: nat

record ('c, 'd) EventSys =
  ev_handler :: "nat \<Rightarrow> EventHandler"
  ev_proc :: "nat \<Rightarrow> 'c EventProcessor"
  ev_chan :: "nat \<Rightarrow> 'd EventChan"

definition upd_handler :: "nat \<Rightarrow> (EventHandler \<Rightarrow> EventHandler) \<Rightarrow> ('c, 'd) EventSys \<Rightarrow> ('c, 'd) EventSys" where
  "upd_handler h f w = w\<lparr>ev_handler := (ev_handler w)(h := f (ev_handler w h))\<rparr>"

definition upd_proc :: "nat \<Rightarrow> ('c EventProcessor \<Rightarrow> 'c EventProcessor) \<Rightarrow> ('c, 'd) EventSys \<Rightarrow> ('c, 'd) EventSys" where
  "upd_proc p f w = w\<lparr>ev_proc := (ev_proc w)(p := f (ev_proc w p))\<rparr>"

lemma upd_sel [simp]:
  "ev_handler (upd_handler h f w) = (ev_handler w)(h := f (ev_handler w h))"
  "ev_proc (upd_handler h f w) = ev_proc w"
  "ev_chan (upd_handler h f w) = ev_chan w"
  "ev_proc (upd_proc p g w) = (ev_proc w)(p := g (ev_proc w p))"
  "ev_handler (upd_proc p g w) = ev_handler w"
  "ev_chan (upd_proc p g w) = ev_chan w"
  by (simp_all add: upd_handler_def upd_proc_def)

definition emptyEvent :: "'d \<Rightarrow> 'd Event" where
  "emptyEvent z = \<lparr>ev_Type = 0, ev_Data = z, ev_ref = False\<rparr>"

definition Event_Reset :: "'d \<Rightarrow> 'd Event \<Rightarrow> 'd Event" where
  "Event_Reset z e = emptyEvent z"

definition Event_IsRef :: "'d Event \<Rightarrow> bool" where
  "Event_IsRef e = ev_ref e"

definition Event_Ref :: "'d Event \<Rightarrow> 'd Event" where
  "Event_Ref e = e\<lparr>ev_ref := True\<rparr>"

definition Event_UnRef :: "'d Event \<Rightarrow> 'd Event" where
  "Event_UnRef e = e\<lparr>ev_ref := False\<rparr>"

definition GetEventType :: "'d Event \<Rightarrow> int" where
  "GetEventType e = ev_Type e"

section \<open>The event channel of a service\<close>

text \<open>
  \<^verbatim>\<open>pushEvent\<close>: the outer \<open>None\<close> is a send that waits for room. The test compares the length with the
  global limit, while the room of the channel is the one it was made with.
\<close>

definition pushEvent :: "nat \<Rightarrow> 'd EventChan \<Rightarrow> 'd Event \<Rightarrow> (bool \<times> 'd EventChan) option" where
  "pushEvent maxServiceEventChannelNum ch ev =
     (if length (chanEvent ch) \<ge> maxServiceEventChannelNum then Some (False, ch)
      else if length (chanEvent ch) < chanCap ch then Some (True, ch\<lparr>chanEvent := chanEvent ch @ [ev]\<rparr>)
      else None)"

definition SetEventChannelNum :: "nat \<Rightarrow> 'd EventChan option \<Rightarrow> 'd EventChan go" where
  "SetEventChannelNum num ch =
     (case ch of
        None \<Rightarrow> Inr \<lparr>chanEvent = [], chanCap = num\<rparr>
      | Some _ \<Rightarrow> Inl (PanicMsg ''this stage cannot be set''))"

text \<open>The channel part of \<^verbatim>\<open>Service.Init\<close>: a channel that was not made before gets the global size.\<close>

definition init_chan :: "nat \<Rightarrow> 'd EventChan option \<Rightarrow> 'd EventChan" where
  "init_chan maxServiceEventChannelNum ch =
     (case ch of None \<Rightarrow> \<lparr>chanEvent = [], chanCap = maxServiceEventChannelNum\<rparr> | Some c \<Rightarrow> c)"

section \<open>Handlers\<close>

definition NewEventHandler :: EventHandler where
  "NewEventHandler = \<lparr>eh_eventProcessor = None, mapRegEvent = Map.empty\<rparr>"

definition EventHandler_Init :: "nat \<Rightarrow> nat \<Rightarrow> ('c, 'd) EventSys \<Rightarrow> ('c, 'd) EventSys" where
  "EventHandler_Init h processor w =
     upd_handler h (\<lambda>eh. eh\<lparr>eh_eventProcessor := Some processor, mapRegEvent := Map.empty\<rparr>) w"

definition GetEventProcessor :: "('c, 'd) EventSys \<Rightarrow> nat \<Rightarrow> nat option" where
  "GetEventProcessor w h = eh_eventProcessor (ev_handler w h)"

definition addRegInfo :: "nat \<Rightarrow> int \<Rightarrow> nat \<Rightarrow> ('c, 'd) EventSys \<Rightarrow> ('c, 'd) EventSys" where
  "addRegInfo h eventType eventProcessor w =
     upd_handler h (\<lambda>eh.
       let m = (if mapRegEvent eh eventType = None then (mapRegEvent eh)(eventType \<mapsto> {}) else mapRegEvent eh)
       in eh\<lparr>mapRegEvent := m(eventType \<mapsto> insert eventProcessor (the (m eventType)))\<rparr>) w"

definition removeRegInfo :: "nat \<Rightarrow> int \<Rightarrow> nat \<Rightarrow> ('c, 'd) EventSys \<Rightarrow> ('c, 'd) EventSys" where
  "removeRegInfo h eventType eventProcessor w =
     upd_handler h (\<lambda>eh. case mapRegEvent eh eventType of
         Some s \<Rightarrow> eh\<lparr>mapRegEvent := (mapRegEvent eh)(eventType \<mapsto> s - {eventProcessor})\<rparr>
       | None \<Rightarrow> eh) w"

section \<open>Processors\<close>

definition NewEventProcessor :: "'c EventProcessor" where
  "NewEventProcessor = \<lparr>ep_channel = None, mapListenerEvent = Some Map.empty, mapBindHandlerEvent = Some Map.empty\<rparr>"

definition EventProcessor_Init :: "nat \<Rightarrow> nat \<Rightarrow> ('c, 'd) EventSys \<Rightarrow> ('c, 'd) EventSys" where
  "EventProcessor_Init p eventChannel w = upd_proc p (\<lambda>ep. ep\<lparr>ep_channel := Some eventChannel\<rparr>) w"

text \<open>Reading a nil map gives nothing, writing to it panics.\<close>

definition rd :: "('k \<rightharpoonup> 'v) option \<Rightarrow> 'k \<rightharpoonup> 'v" where
  "rd m = (case m of None \<Rightarrow> Map.empty | Some f \<Rightarrow> f)"

definition addBindEvent :: "nat \<Rightarrow> int \<Rightarrow> nat \<Rightarrow> 'c \<Rightarrow> ('c, 'd) EventSys \<Rightarrow> ('c, 'd) EventSys go" where
  "addBindEvent p eventType receiver callback w =
     (case mapBindHandlerEvent (ev_proc w p) of
        None \<Rightarrow> Inl NilMapWrite
      | Some m \<Rightarrow>
          let m1 = (if m eventType = None then m(eventType \<mapsto> Map.empty) else m)
          in Inr (upd_proc p (\<lambda>ep. ep\<lparr>mapBindHandlerEvent :=
                    Some (m1(eventType \<mapsto> (the (m1 eventType))(receiver \<mapsto> callback)))\<rparr>) w))"

definition count_of :: "(nat option \<rightharpoonup> int) \<Rightarrow> nat option \<Rightarrow> int" where
  "count_of m k = (case m k of None \<Rightarrow> 0 | Some n \<Rightarrow> n)"

definition addListen :: "nat \<Rightarrow> int \<Rightarrow> nat \<Rightarrow> ('c, 'd) EventSys \<Rightarrow> ('c, 'd) EventSys go" where
  "addListen p eventType receiver w =
     (case mapListenerEvent (ev_proc w p) of
        None \<Rightarrow> Inl NilMapWrite
      | Some m \<Rightarrow>
          let m1 = (if m eventType = None then m(eventType \<mapsto> Map.empty) else m);
              k = GetEventProcessor w receiver; l = the (m1 eventType)
          in Inr (upd_proc p (\<lambda>ep. ep\<lparr>mapListenerEvent :=
                    Some (m1(eventType \<mapsto> l(k \<mapsto> count_of l k + 1)))\<rparr>) w))"

definition removeBindEvent :: "nat \<Rightarrow> int \<Rightarrow> nat \<Rightarrow> ('c, 'd) EventSys \<Rightarrow> ('c, 'd) EventSys" where
  "removeBindEvent p eventType receiver w =
     (case rd (mapBindHandlerEvent (ev_proc w p)) eventType of
        None \<Rightarrow> w
      | Some b \<Rightarrow> upd_proc p (\<lambda>ep. ep\<lparr>mapBindHandlerEvent :=
                    Some ((rd (mapBindHandlerEvent ep))(eventType \<mapsto> b(receiver := None)))\<rparr>) w)"

definition removeListen :: "nat \<Rightarrow> int \<Rightarrow> nat \<Rightarrow> ('c, 'd) EventSys \<Rightarrow> ('c, 'd) EventSys" where
  "removeListen p eventType receiver w =
     (case rd (mapListenerEvent (ev_proc w p)) eventType of
        None \<Rightarrow> w
      | Some l \<Rightarrow>
          let k = GetEventProcessor w receiver; n = count_of l k - 1;
              l1 = l(k \<mapsto> n); l2 = (if n \<le> 0 then l1(k := None) else l1)
          in upd_proc p (\<lambda>ep. ep\<lparr>mapListenerEvent :=
                    Some ((rd (mapListenerEvent ep))(eventType \<mapsto> l2))\<rparr>) w)"

definition RegEventReceiverFunc :: "nat \<Rightarrow> int \<Rightarrow> nat \<Rightarrow> 'c \<Rightarrow> ('c, 'd) EventSys \<Rightarrow> ('c, 'd) EventSys go" where
  "RegEventReceiverFunc processor eventType receiver callback w =
     (let w1 = addRegInfo receiver eventType processor w
      in case GetEventProcessor w1 receiver of
           None \<Rightarrow> Inl NilDereference
         | Some q \<Rightarrow>
             rbind (addBindEvent q eventType receiver callback w1) (\<lambda>w2.
             addListen processor eventType receiver w2))"

definition UnRegEventReceiverFun :: "nat \<Rightarrow> int \<Rightarrow> nat \<Rightarrow> ('c, 'd) EventSys \<Rightarrow> ('c, 'd) EventSys go" where
  "UnRegEventReceiverFun processor eventType receiver w =
     (let w1 = removeListen processor eventType receiver w
      in case GetEventProcessor w1 receiver of
           None \<Rightarrow> Inl NilDereference
         | Some q \<Rightarrow>
             let w2 = removeBindEvent q eventType receiver w1
             in Inr (removeRegInfo receiver eventType processor w2))"

text \<open>
  \<^verbatim>\<open>Destroy\<close> walks the two levels of the map while each call removes the entry it is at; \<open>ord\<close> is the
  order of the walk.
\<close>

fun Destroy :: "(int \<times> nat) list \<Rightarrow> nat \<Rightarrow> ('c, 'd) EventSys \<Rightarrow> ('c, 'd) EventSys go" where
  "Destroy [] handler w = Inr w"
| "Destroy ((eventTyp, eventProcess) # ord) handler w =
     rbind (UnRegEventReceiverFun eventProcess eventTyp handler w) (Destroy ord handler)"

section \<open>Delivery\<close>

text \<open>
  \<^verbatim>\<open>EventHandler\<close>: the callbacks of the type, in the order of the map walk, until one panics; the
  panic is recovered. \<open>call\<close> is what a callback does to the state of the service and whether it
  returned; callbacks that register or unregister while the map is walked are not covered.
\<close>

fun run_callbacks :: "('c \<Rightarrow> 'd Event \<Rightarrow> 'x \<Rightarrow> 'x \<times> bool) \<Rightarrow> 'c list \<Rightarrow> 'd Event \<Rightarrow> 'x \<Rightarrow> 'x \<times> bool" where
  "run_callbacks call [] ev x = (x, True)"
| "run_callbacks call (cb # cbs) ev x =
     (case call cb ev x of (x1, True) \<Rightarrow> run_callbacks call cbs ev x1 | (x1, False) \<Rightarrow> (x1, False))"

definition bound_of :: "('c, 'd) EventSys \<Rightarrow> nat \<Rightarrow> int \<Rightarrow> nat \<rightharpoonup> 'c" where
  "bound_of w p t = (case rd (mapBindHandlerEvent (ev_proc w p)) t of None \<Rightarrow> Map.empty | Some b \<Rightarrow> b)"

definition EventProcessor_EventHandler ::
    "('c \<Rightarrow> 'd Event \<Rightarrow> 'x \<Rightarrow> 'x \<times> bool) \<Rightarrow> nat list \<Rightarrow> nat \<Rightarrow> 'd Event \<Rightarrow> ('c, 'd) EventSys \<Rightarrow> 'x \<Rightarrow> 'x" where
  "EventProcessor_EventHandler call ord p ev w x =
     (case rd (mapBindHandlerEvent (ev_proc w p)) (GetEventType ev) of
        None \<Rightarrow> x
      | Some mapCallBack \<Rightarrow> fst (run_callbacks call (map (\<lambda>h. the (mapCallBack h)) ord) ev x))"

text \<open>\<^verbatim>\<open>PushEvent\<close> of a processor is that of its channel. The error is dropped, as in the code.\<close>

definition PushEvent :: "nat \<Rightarrow> nat option \<Rightarrow> 'd Event \<Rightarrow> ('c, 'd) EventSys \<Rightarrow> ('c, 'd) EventSys go option" where
  "PushEvent mx proc ev w =
     (case proc of
        None \<Rightarrow> Some (Inl NilDereference)
      | Some p \<Rightarrow>
          (case ep_channel (ev_proc w p) of
             None \<Rightarrow> Some (Inl NilDereference)
           | Some c \<Rightarrow>
               (case pushEvent mx (ev_chan w c) ev of
                  None \<Rightarrow> None
                | Some (_, ch) \<Rightarrow> Some (Inr (w\<lparr>ev_chan := (ev_chan w)(c := ch)\<rparr>)))))"

fun push_all :: "nat \<Rightarrow> nat option list \<Rightarrow> 'd Event \<Rightarrow> ('c, 'd) EventSys \<Rightarrow> ('c, 'd) EventSys go option" where
  "push_all mx [] ev w = Some (Inr w)"
| "push_all mx (proc # ord) ev w =
     (case PushEvent mx proc ev w of
        Some (Inr w1) \<Rightarrow> push_all mx ord ev w1
      | r \<Rightarrow> r)"

definition listeners :: "('c, 'd) EventSys \<Rightarrow> nat \<Rightarrow> int \<Rightarrow> nat option \<rightharpoonup> int" where
  "listeners w p t = (case rd (mapListenerEvent (ev_proc w p)) t of None \<Rightarrow> Map.empty | Some l \<Rightarrow> l)"

definition castEvent :: "nat \<Rightarrow> nat option list \<Rightarrow> nat \<Rightarrow> 'd Event \<Rightarrow> ('c, 'd) EventSys \<Rightarrow> ('c, 'd) EventSys go option" where
  "castEvent mx ord p ev w =
     (case mapListenerEvent (ev_proc w p) of
        None \<Rightarrow> Some (Inr w)
      | Some m \<Rightarrow>
          (case m (GetEventType ev) of
             None \<Rightarrow> Some (Inr w)
           | Some _ \<Rightarrow> push_all mx ord ev w))"

definition NotifyEvent :: "nat \<Rightarrow> nat option list \<Rightarrow> nat \<Rightarrow> 'd Event \<Rightarrow> ('c, 'd) EventSys \<Rightarrow> ('c, 'd) EventSys go option" where
  "NotifyEvent mx ord h ev w =
     (case GetEventProcessor w h of
        None \<Rightarrow> Some (Inl NilDereference)
      | Some p \<Rightarrow> castEvent mx ord p ev w)"

section \<open>What each operation changes\<close>

definition reg_of :: "('c, 'd) EventSys \<Rightarrow> nat \<Rightarrow> int \<Rightarrow> nat set" where
  "reg_of w h t = (case mapRegEvent (ev_handler w h) t of None \<Rightarrow> {} | Some s \<Rightarrow> s)"

definition made :: "('c, 'd) EventSys \<Rightarrow> bool" where
  "made w \<longleftrightarrow> (\<forall>p. mapListenerEvent (ev_proc w p) \<noteq> None \<and> mapBindHandlerEvent (ev_proc w p) \<noteq> None)"

lemmas ev_views = reg_of_def bound_of_def listeners_def GetEventProcessor_def rd_def made_def

lemma addRegInfo_views:
  "reg_of (addRegInfo h t p w) = (reg_of w)(h := (reg_of w h)(t := insert p (reg_of w h t)))"
  "bound_of (addRegInfo h t p w) = bound_of w" "listeners (addRegInfo h t p w) = listeners w"
  "GetEventProcessor (addRegInfo h t p w) = GetEventProcessor w" "made (addRegInfo h t p w) = made w"
  "ev_chan (addRegInfo h t p w) = ev_chan w"
  by (auto simp: addRegInfo_def ev_views Let_def fun_eq_iff split: option.splits)

lemma removeRegInfo_views:
  "reg_of (removeRegInfo h t p w) = (reg_of w)(h := (reg_of w h)(t := reg_of w h t - {p}))"
  "bound_of (removeRegInfo h t p w) = bound_of w" "listeners (removeRegInfo h t p w) = listeners w"
  "GetEventProcessor (removeRegInfo h t p w) = GetEventProcessor w" "made (removeRegInfo h t p w) = made w"
  "ev_chan (removeRegInfo h t p w) = ev_chan w"
  by (auto simp: removeRegInfo_def ev_views Let_def fun_eq_iff split: option.splits)

lemma addBindEvent_views:
  assumes "made w"
  obtains w' where "addBindEvent q t h c w = Inr w'"
    "bound_of w' = (bound_of w)(q := (bound_of w q)(t := (bound_of w q t)(h \<mapsto> c)))"
    "reg_of w' = reg_of w" "listeners w' = listeners w" "GetEventProcessor w' = GetEventProcessor w" "made w'"
    "ev_chan w' = ev_chan w"
proof -
  obtain m where m: "mapBindHandlerEvent (ev_proc w q) = Some m" using assms by (auto simp: made_def)
  define m1 where "m1 = (if m t = None then m(t \<mapsto> Map.empty) else m)"
  define w' where "w' = upd_proc q (\<lambda>ep. ep\<lparr>mapBindHandlerEvent := Some (m1(t \<mapsto> (the (m1 t))(h \<mapsto> c)))\<rparr>) w"
  have "addBindEvent q t h c w = Inr w'" using m by (simp add: addBindEvent_def w'_def m1_def Let_def)
  moreover have "bound_of w' = (bound_of w)(q := (bound_of w q)(t := (bound_of w q t)(h \<mapsto> c)))"
    using m by (auto simp: w'_def m1_def ev_views fun_eq_iff split: option.splits)
  moreover have "reg_of w' = reg_of w" "listeners w' = listeners w" "GetEventProcessor w' = GetEventProcessor w"
    by (auto simp: w'_def ev_views fun_eq_iff)
  moreover have "made w'" "ev_chan w' = ev_chan w" using assms by (auto simp: w'_def made_def)
  ultimately show ?thesis by (rule that)
qed

lemma removeBindEvent_views:
  "bound_of (removeBindEvent q t h w) = (bound_of w)(q := (bound_of w q)(t := (bound_of w q t)(h := None)))"
  "reg_of (removeBindEvent q t h w) = reg_of w" "listeners (removeBindEvent q t h w) = listeners w"
  "GetEventProcessor (removeBindEvent q t h w) = GetEventProcessor w"
  "ev_chan (removeBindEvent q t h w) = ev_chan w"
  by (auto simp: removeBindEvent_def ev_views fun_eq_iff split: option.splits)

lemma remove_made [simp]:
  "made w \<Longrightarrow> made (removeBindEvent q t h w)" "made w \<Longrightarrow> made (removeListen p t h w)"
  by (auto simp: removeBindEvent_def removeListen_def made_def Let_def split: option.splits)

lemma addListen_views:
  fixes w :: "('c, 'd) EventSys" and h p t
  assumes "made w"
  defines "k \<equiv> GetEventProcessor w h"
  obtains w' where "addListen p t h w = Inr w'"
    "listeners w' = (listeners w)(p := (listeners w p)(t := (listeners w p t)(k \<mapsto> count_of (listeners w p t) k + 1)))"
    "reg_of w' = reg_of w" "bound_of w' = bound_of w" "GetEventProcessor w' = GetEventProcessor w" "made w'"
    "ev_chan w' = ev_chan w"
proof -
  obtain m where m: "mapListenerEvent (ev_proc w p) = Some m" using assms by (auto simp: made_def)
  define m1 where "m1 = (if m t = None then m(t \<mapsto> Map.empty) else m)"
  have l: "the (m1 t) = listeners w p t" using m by (auto simp: m1_def ev_views split: option.splits)
  define w' where "w' = upd_proc p (\<lambda>ep. ep\<lparr>mapListenerEvent :=
    Some (m1(t \<mapsto> (listeners w p t)(k \<mapsto> count_of (listeners w p t) k + 1)))\<rparr>) w"
  have "addListen p t h w = Inr w'" using m l by (simp add: addListen_def w'_def m1_def Let_def k_def)
  moreover have "listeners w' =
      (listeners w)(p := (listeners w p)(t := (listeners w p t)(k \<mapsto> count_of (listeners w p t) k + 1)))"
    using m by (auto simp: w'_def m1_def listeners_def rd_def fun_eq_iff split: option.splits)
  moreover have "reg_of w' = reg_of w" "bound_of w' = bound_of w" "GetEventProcessor w' = GetEventProcessor w"
    by (auto simp: w'_def ev_views fun_eq_iff)
  moreover have "made w'" "ev_chan w' = ev_chan w" using assms(1) by (auto simp: w'_def made_def)
  ultimately show ?thesis by (rule that)
qed

lemma removeListen_views:
  fixes w :: "('c, 'd) EventSys" and h p t
  defines "k \<equiv> GetEventProcessor w h"
  shows "listeners (removeListen p t h w) = (listeners w)(p := (listeners w p)(t := (listeners w p t)(k :=
      let n = count_of (listeners w p t) k - 1 in if n \<le> 0 then None else Some n)))"
    "reg_of (removeListen p t h w) = reg_of w" "bound_of (removeListen p t h w) = bound_of w"
    "GetEventProcessor (removeListen p t h w) = GetEventProcessor w"
    "ev_chan (removeListen p t h w) = ev_chan w"
  by (auto simp: removeListen_def k_def ev_views fun_eq_iff count_of_def Let_def split: option.splits)

section \<open>Subscriptions\<close>

text \<open>
  The abstract state: who has registered for which event type, at which source and with which
  callback. A handler is registered for a type at one source at most.
\<close>

type_synonym 'c subscriptions = "nat \<Rightarrow> int \<rightharpoonup> nat \<times> 'c"

definition subscribers :: "('c, 'd) EventSys \<Rightarrow> 'c subscriptions \<Rightarrow> nat \<Rightarrow> int \<Rightarrow> nat option \<Rightarrow> nat set" where
  "subscribers w A p t k = {h. GetEventProcessor w h = k \<and> (\<exists>c. A h t = Some (p, c))}"

definition pos_count :: "nat \<Rightarrow> int option" where
  "pos_count n = (if n = 0 then None else Some (int n))"

definition ev_rep :: "('c, 'd) EventSys \<Rightarrow> 'c subscriptions \<Rightarrow> bool" where
  "ev_rep w A \<longleftrightarrow>
     made w \<and> finite {(h, t). A h t \<noteq> None} \<and>
     (\<forall>h t. A h t \<noteq> None \<longrightarrow> GetEventProcessor w h \<noteq> None) \<and>
     (\<forall>h t. reg_of w h t = fst ` set_option (A h t)) \<and>
     (\<forall>q t h. bound_of w q t h = (if GetEventProcessor w h = Some q then map_option snd (A h t) else None)) \<and>
     (\<forall>p t k. listeners w p t k = pos_count (card (subscribers w A p t k)))"

lemma ev_repD:
  assumes "ev_rep w A"
  shows "made w" "finite {(h, t). A h t \<noteq> None}"
    "A h t \<noteq> None \<Longrightarrow> GetEventProcessor w h \<noteq> None"
    "reg_of w h t = fst ` set_option (A h t)"
    "bound_of w q t h = (if GetEventProcessor w h = Some q then map_option snd (A h t) else None)"
    "listeners w p t k = pos_count (card (subscribers w A p t k))"
  using assms unfolding ev_rep_def by blast+

lemma finite_subscribers: "ev_rep w A \<Longrightarrow> finite (subscribers w A p t k)"
  by (rule finite_subset [OF _ finite_imageI [OF ev_repD(2), of w A fst]]) (force simp: subscribers_def)

lemma count_of_pos [simp]: "count_of l k = int n" if "l k = pos_count n"
  using that by (simp add: count_of_def pos_count_def split: if_splits)

text \<open>Updating the subscriptions of one handler and type changes one set of subscribers.\<close>

lemma subscribers_upd:
  assumes "GetEventProcessor w' = GetEventProcessor w"
  shows "subscribers w' (A(h := (A h)(t := s))) p u k =
    (if u = t \<and> GetEventProcessor w h = k \<and> fst ` set_option s = {p} then insert h (subscribers w A p u k)
     else if u = t then subscribers w A p u k - {h} else subscribers w A p u k)"
  using assms by (cases s) (auto simp: subscribers_def)

lemma Reg_ok:
  assumes rep: "ev_rep w A" and q: "GetEventProcessor w h = Some q" and new: "A h t = None"
  obtains w' where "RegEventReceiverFunc p t h c w = Inr w'" "ev_rep w' (A(h := (A h)(t \<mapsto> (p, c))))"
    "GetEventProcessor w' = GetEventProcessor w" "ev_chan w' = ev_chan w"
proof -
  let ?A = "A(h := (A h)(t \<mapsto> (p, c)))"
  note d = ev_repD [OF rep]
  let ?w1 = "addRegInfo h t p w"
  obtain w2 where w2: "addBindEvent q t h c ?w1 = Inr w2"
    "bound_of w2 = (bound_of w)(q := (bound_of w q)(t := (bound_of w q t)(h \<mapsto> c)))"
    "reg_of w2 = reg_of ?w1" "listeners w2 = listeners w" "GetEventProcessor w2 = GetEventProcessor w" "made w2"
    "ev_chan w2 = ev_chan w"
    by (rule addBindEvent_views [of ?w1 q t h c]) (use d(1) in \<open>auto simp: addRegInfo_views\<close>)
  obtain w' where w': "addListen p t h w2 = Inr w'"
    "listeners w' = (listeners w)(p := (listeners w p)(t := (listeners w p t)(Some q \<mapsto>
       count_of (listeners w p t) (Some q) + 1)))"
    "reg_of w' = reg_of w2" "bound_of w' = bound_of w2" "GetEventProcessor w' = GetEventProcessor w" "made w'"
    "ev_chan w' = ev_chan w"
    by (rule addListen_views [OF w2(6), of p t h]) (use w2 q in auto)
  have ins: "card (insert h (subscribers w A p t (Some q))) = Suc (card (subscribers w A p t (Some q)))"
    using new finite_subscribers [OF rep] by (simp add: subscribers_def)
  have "listeners w' p' t' k = pos_count (card (subscribers w' ?A p' t' k))" for p' t' k
    using d(6) [of p t "Some q"] d(6) [of p' t' k] ins new q
    by (auto simp: w'(2) subscribers_upd [OF w'(5)] count_of_pos pos_count_def)
      (auto simp: subscribers_def)
  moreover have "finite {(h, t). ?A h t \<noteq> None}"
    by (rule finite_subset [of _ "insert (h, t) {(h, t). A h t \<noteq> None}"]) (use d(2) in \<open>auto split: if_splits\<close>)
  moreover have "GetEventProcessor w h' \<noteq> None" if "?A h' t' \<noteq> None" for h' t'
    using that q d(3) [of h' t'] by (auto split: if_splits)
  moreover have "reg_of w' h' t' = fst ` set_option (?A h' t')" for h' t'
    using new d(4) [of h' t'] d(4) [of h t] by (auto simp: w'(3) w2(3) addRegInfo_views d(4))
  moreover have "bound_of w' q' t' h' = (if GetEventProcessor w h' = Some q' then map_option snd (?A h' t') else None)"
    for q' t' h' using q d(5) [of q' t' h'] by (auto simp: w'(4) w2(2) d(5))
  ultimately have "ev_rep w' ?A"
    using w'(5,6) by (auto simp: ev_rep_def)
  moreover have "RegEventReceiverFunc p t h c w = Inr w'"
    using w2(1) w'(1) q by (simp add: RegEventReceiverFunc_def addRegInfo_views)
  ultimately show ?thesis using that w'(5,7) by blast
qed

lemma UnReg_ok:
  assumes rep: "ev_rep w A" and sub: "A h t = Some (p, c)"
  obtains w' where "UnRegEventReceiverFun p t h w = Inr w'" "ev_rep w' (A(h := (A h)(t := None)))"
    "GetEventProcessor w' = GetEventProcessor w" "ev_chan w' = ev_chan w"
proof -
  let ?A = "A(h := (A h)(t := None))"
  note d = ev_repD [OF rep]
  obtain q where q: "GetEventProcessor w h = Some q" using d(3) [of h t] sub by auto
  let ?w1 = "removeListen p t h w"
  let ?w2 = "removeBindEvent q t h ?w1"
  let ?w3 = "removeRegInfo h t p ?w2"
  note v = removeListen_views [where w = w and h = h and p = p and t = t] removeBindEvent_views removeRegInfo_views
  have g: "GetEventProcessor ?w3 = GetEventProcessor w" by (simp add: v)
  have mem: "h \<in> subscribers w A p t (Some q)" using q sub by (simp add: subscribers_def)
  then have c: "card (subscribers w A p t (Some q)) = Suc (card (subscribers w A p t (Some q) - {h}))"
    using card.remove [OF finite_subscribers [OF rep] mem] by simp
  have cnt: "count_of (listeners w p t) (Some q) = int (card (subscribers w A p t (Some q)))"
    by (rule count_of_pos) (rule d(6))
  have out: "subscribers w A p' t k - {h} = subscribers w A p' t k" if "\<not> (p' = p \<and> k = Some q)" for p' k
    using that q sub by (auto simp: subscribers_def)
  have "listeners ?w3 p' t' k = pos_count (card (subscribers ?w3 ?A p' t' k))" for p' t' k
  proof (cases "p' = p \<and> t' = t \<and> k = Some q")
    case True
    then show ?thesis using cnt c q by (simp add: v subscribers_upd [OF g] pos_count_def Let_def)
  next
    case False
    then show ?thesis using d(6) [of p' t' k] q out by (auto simp: v subscribers_upd [OF g] Let_def)
  qed
  moreover have "finite {(h, t). ?A h t \<noteq> None}"
    by (rule finite_subset [of _ "{(h, t). A h t \<noteq> None}"]) (use d(2) in \<open>auto split: if_splits\<close>)
  moreover have "made ?w3" using d(1) by (simp add: v)
  moreover have "GetEventProcessor w h' \<noteq> None" if "?A h' t' \<noteq> None" for h' t'
    using that q d(3) [of h' t'] by (auto split: if_splits)
  moreover have "reg_of ?w3 h' t' = fst ` set_option (?A h' t')" for h' t'
    using sub d(4) [of h' t'] d(4) [of h t] by (auto simp: v d(4))
  moreover have "bound_of ?w3 q' t' h' = (if GetEventProcessor w h' = Some q' then map_option snd (?A h' t') else None)"
    for q' t' h' using q d(5) [of q' t' h'] by (auto simp: v d(5))
  ultimately have "ev_rep ?w3 ?A" using g by (auto simp: ev_rep_def)
  moreover have "UnRegEventReceiverFun p t h w = Inr ?w3" using q by (simp add: UnRegEventReceiverFun_def v)
  ultimately show ?thesis using that g by (simp add: v)
qed

section \<open>The contract of the event bus\<close>

text \<open>
  What a module relies on: registering and unregistering act on the subscriptions only. Any sequence
  of such calls that respects the discipline (register only when not registered for the type,
  unregister only what is registered) then returns, and ends in the abstract result.
\<close>

fun each_go :: "('a \<Rightarrow> 'w \<Rightarrow> 'w go) \<Rightarrow> 'a list \<Rightarrow> 'w \<Rightarrow> 'w go" where
  "each_go f [] w = Inr w"
| "each_go f (x # xs) w = rbind (f x w) (each_go f xs)"

datatype 'c bus_op =
    BReg nat int nat 'c
  | BUnReg nat int nat
  | BDestroy "(int \<times> nat) list" nat

fun bus_next :: "'c bus_op \<Rightarrow> 'c subscriptions \<Rightarrow> 'c subscriptions" where
  "bus_next (BReg p t h c) A = A(h := (A h)(t \<mapsto> (p, c)))"
| "bus_next (BUnReg p t h) A = A(h := (A h)(t := None))"
| "bus_next (BDestroy ord h) A = A(h := Map.empty)"

definition entries :: "'c subscriptions \<Rightarrow> nat \<Rightarrow> (int \<times> nat) set" where
  "entries A h = {(t, p). \<exists>c. A h t = Some (p, c)}"

fun bus_allowed :: "(nat \<Rightarrow> nat option) \<Rightarrow> 'c bus_op \<Rightarrow> 'c subscriptions \<Rightarrow> bool" where
  "bus_allowed owner (BReg p t h c) A \<longleftrightarrow> owner h \<noteq> None \<and> A h t = None"
| "bus_allowed owner (BUnReg p t h) A \<longleftrightarrow> (t, p) \<in> entries A h"
| "bus_allowed owner (BDestroy ord h) A \<longleftrightarrow> distinct ord \<and> set ord = entries A h"

fun bus_legal :: "(nat \<Rightarrow> nat option) \<Rightarrow> 'c bus_op list \<Rightarrow> 'c subscriptions \<Rightarrow> bool" where
  "bus_legal owner [] A \<longleftrightarrow> True"
| "bus_legal owner (b # bs) A \<longleftrightarrow> bus_allowed owner b A \<and> bus_legal owner bs (bus_next b A)"

fun bus_do :: "(nat \<Rightarrow> int \<Rightarrow> nat \<Rightarrow> 'c \<Rightarrow> 'w \<Rightarrow> 'w go) \<Rightarrow> (nat \<Rightarrow> int \<Rightarrow> nat \<Rightarrow> 'w \<Rightarrow> 'w go) \<Rightarrow>
    'c bus_op \<Rightarrow> 'w \<Rightarrow> 'w go" where
  "bus_do reg unreg (BReg p t h c) w = reg p t h c w"
| "bus_do reg unreg (BUnReg p t h) w = unreg p t h w"
| "bus_do reg unreg (BDestroy ord h) w = each_go (\<lambda>(t, p). unreg p t h) ord w"

lemma Destroy_each: "Destroy ord h = each_go (\<lambda>(t, p). UnRegEventReceiverFun p t h) ord"
proof (induction ord)
  case (Cons e ord)
  show ?case by (rule ext, cases e) (simp add: Cons.IH)
qed (simp add: fun_eq_iff)

locale event_bus =
  fixes rep :: "'w \<Rightarrow> 'c subscriptions \<Rightarrow> bool" and owner :: "'w \<Rightarrow> nat \<Rightarrow> nat option"
    and keep :: "'w \<Rightarrow> 'k"
    and reg :: "nat \<Rightarrow> int \<Rightarrow> nat \<Rightarrow> 'c \<Rightarrow> 'w \<Rightarrow> 'w go" and unreg :: "nat \<Rightarrow> int \<Rightarrow> nat \<Rightarrow> 'w \<Rightarrow> 'w go"
  assumes reg_law: "rep w A \<Longrightarrow> owner w h \<noteq> None \<Longrightarrow> A h t = None \<Longrightarrow>
      \<exists>w'. reg p t h c w = Inr w' \<and> rep w' (A(h := (A h)(t \<mapsto> (p, c)))) \<and> owner w' = owner w \<and> keep w' = keep w"
    and unreg_law: "rep w A \<Longrightarrow> A h t = Some (p, c) \<Longrightarrow>
      \<exists>w'. unreg p t h w = Inr w' \<and> rep w' (A(h := (A h)(t := None))) \<and> owner w' = owner w \<and> keep w' = keep w"
begin

lemma unreg_each:
  assumes "rep w A" "distinct ord" "set ord \<subseteq> entries A h"
  shows "\<exists>w'. each_go (\<lambda>(t, p). unreg p t h) ord w = Inr w' \<and> rep w' (A(h := (A h) |` (- fst ` set ord))) \<and>
    owner w' = owner w \<and> keep w' = keep w"
  using assms
proof (induction ord arbitrary: w A)
  case (Cons e ord)
  obtain t p where e: "e = (t, p)" by (cases e)
  obtain c where c: "A h t = Some (p, c)" using Cons.prems(3) by (auto simp: e entries_def)
  obtain w1 where w1: "unreg p t h w = Inr w1" "rep w1 (A(h := (A h)(t := None)))" "owner w1 = owner w" "keep w1 = keep w"
    using unreg_law [OF Cons.prems(1) c] by blast
  have sub: "set ord \<subseteq> entries (A(h := (A h)(t := None))) h"
    using Cons.prems(2,3) c by (fastforce simp: e entries_def)
  have "distinct ord" using Cons.prems(2) by simp
  from Cons.IH [OF w1(2) this sub] obtain w' where
    w': "each_go (\<lambda>(t, p). unreg p t h) ord w1 = Inr w'" "owner w' = owner w1" "keep w' = keep w1"
      "rep w' ((A(h := (A h)(t := None)))(h := ((A(h := (A h)(t := None))) h) |` (- fst ` set ord)))" by blast
  have "((A h)(t := None)) |` (- fst ` set ord) = (A h) |` (- fst ` set (e # ord))"
    by (auto simp: e restrict_map_def fun_eq_iff)
  then have "(A(h := (A h)(t := None)))(h := ((A(h := (A h)(t := None))) h) |` (- fst ` set ord)) =
    A(h := (A h) |` (- fst ` set (e # ord)))" by simp
  with w'(4) have "rep w' (A(h := (A h) |` (- fst ` set (e # ord))))" by (simp only:)
  moreover have "each_go (\<lambda>(t, p). unreg p t h) (e # ord) w = Inr w'" using w'(1) w1(1) by (simp add: e)
  ultimately show ?case using w'(2,3) w1(3,4) by (intro exI [of _ w'] conjI) (simp_all add: fun_upd_def)
qed (simp add: restrict_map_def)

lemma destroy_law:
  assumes "rep w A" "distinct ord" "set ord = entries A h"
  shows "\<exists>w'. each_go (\<lambda>(t, p). unreg p t h) ord w = Inr w' \<and> rep w' (A(h := Map.empty)) \<and>
    owner w' = owner w \<and> keep w' = keep w"
proof -
  have "(A h) |` (- fst ` set ord) = Map.empty"
    using assms(3) by (force simp: entries_def restrict_map_def fun_eq_iff)
  then show ?thesis using unreg_each [OF assms(1,2), of h] assms(3) by simp
qed

lemma step_law:
  assumes "rep w A" "bus_allowed (owner w) b A"
  shows "\<exists>w'. bus_do reg unreg b w = Inr w' \<and> rep w' (bus_next b A) \<and> owner w' = owner w \<and> keep w' = keep w"
  using assms
proof (cases b)
  case (BDestroy ord h)
  then show ?thesis using destroy_law [OF assms(1), of ord h] assms(2) by simp
next
  case (BReg p t h c)
  then show ?thesis using reg_law [OF assms(1), of h t p c] assms(2) by simp
next
  case (BUnReg p t h)
  then show ?thesis using unreg_law [OF assms(1), of h t p] assms(2) by (auto simp: entries_def)
qed

lemma run_law:
  assumes "rep w A" "bus_legal (owner w) bs A"
  shows "\<exists>w'. each_go (bus_do reg unreg) bs w = Inr w' \<and> rep w' (fold bus_next bs A) \<and> owner w' = owner w \<and>
    keep w' = keep w"
  using assms
proof (induction bs arbitrary: w A)
  case (Cons b bs)
  then obtain w1 where w1: "bus_do reg unreg b w = Inr w1" "rep w1 (bus_next b A)" "owner w1 = owner w" "keep w1 = keep w"
    using step_law [of w A b] by auto
  from Cons.IH [OF w1(2)] Cons.prems(2) w1 show ?case by simp
qed simp

end

interpretation bus: event_bus ev_rep GetEventProcessor ev_chan RegEventReceiverFunc UnRegEventReceiverFun
proof
  fix w :: "('a, 'b) EventSys" and A h t p c
  assume "ev_rep w A" "GetEventProcessor w h \<noteq> None" "A h t = None"
  then show "\<exists>w'. RegEventReceiverFunc p t h c w = Inr w' \<and> ev_rep w' (A(h := (A h)(t \<mapsto> (p, c)))) \<and>
      GetEventProcessor w' = GetEventProcessor w \<and> ev_chan w' = ev_chan w"
    using Reg_ok [of w A h _ t p c] by blast
next
  fix w :: "('a, 'b) EventSys" and A h t p c
  assume "ev_rep w A" "A h t = Some (p, c)"
  then show "\<exists>w'. UnRegEventReceiverFun p t h w = Inr w' \<and> ev_rep w' (A(h := (A h)(t := None))) \<and>
      GetEventProcessor w' = GetEventProcessor w \<and> ev_chan w' = ev_chan w"
    using UnReg_ok [of w A h t p c] by blast
qed

section \<open>Delivery\<close>

text \<open>The processors an event of type \<open>t\<close> cast by \<open>p\<close> goes to are those with a subscribed handler.\<close>

lemma dom_listeners:
  assumes "ev_rep w A"
  shows "dom (listeners w p t) = {k. \<exists>h c. GetEventProcessor w h = k \<and> A h t = Some (p, c)}"
  using ev_repD(6) [OF assms] finite_subscribers [OF assms]
  by (auto simp: pos_count_def subscribers_def dom_def)

lemma listeners_procs: "ev_rep w A \<Longrightarrow> None \<notin> dom (listeners w p t)"
  by (auto simp: dom_listeners dest: ev_repD(3))

lemma castEvent_push_all:
  assumes "made w" "set ord = dom (listeners w p (ev_Type ev))"
  shows "castEvent mx ord p ev w = push_all mx ord ev w"
  using assms by (auto simp: castEvent_def GetEventType_def listeners_def rd_def made_def split: option.splits)

text \<open>
  A channel made by \<^verbatim>\<open>Init\<close> has the room of the global limit, so a push never waits: the event goes in,
  or it is dropped when the channel holds as many as the limit.
\<close>

definition roomy :: "nat \<Rightarrow> ('c, 'd) EventSys \<Rightarrow> bool" where
  "roomy mx w \<longleftrightarrow> (\<forall>c. mx \<le> chanCap (ev_chan w c))"

definition offered :: "nat \<Rightarrow> 'd Event \<Rightarrow> 'd EventChan \<Rightarrow> 'd EventChan" where
  "offered mx ev ch = (if length (chanEvent ch) < mx then ch\<lparr>chanEvent := chanEvent ch @ [ev]\<rparr> else ch)"

lemma pushEvent_offered: "mx \<le> chanCap ch \<Longrightarrow> \<exists>b. pushEvent mx ch ev = Some (b, offered mx ev ch)"
  by (auto simp: pushEvent_def offered_def)

lemma push_all_ok:
  assumes "roomy mx w" "distinct qs" "inj_on ch (set qs)" "\<forall>q \<in> set qs. ep_channel (ev_proc w q) = Some (ch q)"
  shows "\<exists>w'. push_all mx (map Some qs) ev w = Some (Inr w') \<and> ev_proc w' = ev_proc w \<and>
    ev_handler w' = ev_handler w \<and>
    (\<forall>c. ev_chan w' c = (if c \<in> ch ` set qs then offered mx ev (ev_chan w c) else ev_chan w c))"
  using assms
proof (induction qs arbitrary: w)
  case (Cons q qs)
  define w1 where "w1 = w\<lparr>ev_chan := (ev_chan w)(ch q := offered mx ev (ev_chan w (ch q)))\<rparr>"
  have "PushEvent mx (Some q) ev w = Some (Inr w1)"
    using Cons.prems(1,4) pushEvent_offered [of mx "ev_chan w (ch q)" ev]
    by (auto simp: PushEvent_def w1_def roomy_def)
  moreover have "roomy mx w1" using Cons.prems(1) by (auto simp: roomy_def w1_def offered_def)
  with Cons.IH [of w1] Cons.prems obtain w' where w': "push_all mx (map Some qs) ev w1 = Some (Inr w')"
    "ev_proc w' = ev_proc w1" "ev_handler w' = ev_handler w1"
    "\<forall>c. ev_chan w' c = (if c \<in> ch ` set qs then offered mx ev (ev_chan w1 c) else ev_chan w1 c)"
    by (auto simp: w1_def)
  moreover have "ch q \<notin> ch ` set qs" using Cons.prems(2,3) by auto
  ultimately show ?case by (auto simp: w1_def)
qed simp

text \<open>When every callback returns, handling an event runs them all.\<close>

lemma run_callbacks_all:
  "(\<forall>cb \<in> set cbs. \<forall>x. snd (call cb ev x)) \<Longrightarrow>
    run_callbacks call cbs ev x = (fold (\<lambda>cb x. fst (call cb ev x)) cbs x, True)"
proof (induction cbs arbitrary: x)
  case (Cons cb cbs)
  then have "snd (call cb ev x)" by simp
  with Cons show ?case by (cases "call cb ev x") simp
qed simp

text \<open>
  In general they run in order up to the first one that panics, whose effects stay: \<open>k\<close> callbacks have run, all
  but the last have returned, and if callbacks are left, the last has panicked.
\<close>

definition runs_until_panic :: "('c \<Rightarrow> 'd Event \<Rightarrow> 'x \<Rightarrow> 'x \<times> bool) \<Rightarrow> 'c list \<Rightarrow> 'd Event \<Rightarrow> 'x \<Rightarrow> 'x \<Rightarrow> bool" where
  "runs_until_panic call cbs ev x x' \<longleftrightarrow>
     (let after = (\<lambda>j. fold (\<lambda>cb x. fst (call cb ev x)) (take j cbs) x) in
      \<exists>k \<le> length cbs. x' = after k \<and> (\<forall>j. Suc j < k \<longrightarrow> snd (call (cbs ! j) ev (after j))) \<and>
        (k < length cbs \<longrightarrow> 0 < k \<and> \<not> snd (call (cbs ! (k - 1)) ev (after (k - 1)))))"

lemma run_callbacks_until: "runs_until_panic call cbs ev x (fst (run_callbacks call cbs ev x))"
proof (induction cbs arbitrary: x)
  case (Cons cb cbs)
  obtain x1 ok where c: "call cb ev x = (x1, ok)" by fastforce
  show ?case
  proof (cases ok)
    case True
    let ?after = "\<lambda>j. fold (\<lambda>cb x. fst (call cb ev x)) (take j cbs) x1"
    obtain k where k: "k \<le> length cbs" "fst (run_callbacks call cbs ev x1) = ?after k"
      "\<forall>j. Suc j < k \<longrightarrow> snd (call (cbs ! j) ev (?after j))"
      "k < length cbs \<longrightarrow> 0 < k \<and> \<not> snd (call (cbs ! (k - 1)) ev (?after (k - 1)))"
      using Cons.IH [of x1] unfolding runs_until_panic_def Let_def by blast
    have "snd (call ((cb # cbs) ! j) ev (fold (\<lambda>cb x. fst (call cb ev x)) (take j (cb # cbs)) x))" if "Suc j < Suc k" for j
      using that k(3) c True by (cases j) simp_all
    moreover have "\<not> snd (call ((cb # cbs) ! k) ev (fold (\<lambda>cb x. fst (call cb ev x)) (take k (cb # cbs)) x))" if "k < length cbs"
      using that k(4) c by (cases k) simp_all
    ultimately show ?thesis unfolding runs_until_panic_def Let_def using k(1,2) c True by (intro exI [of _ "Suc k"]) simp
  next
    case False
    then show ?thesis unfolding runs_until_panic_def Let_def using c by (intro exI [of _ 1]) simp
  qed
qed (simp add: runs_until_panic_def)

lemma dom_bound_of:
  "ev_rep w A \<Longrightarrow> dom (bound_of w q t) = {h. GetEventProcessor w h = Some q \<and> A h t \<noteq> None}"
  by (auto simp: ev_repD(5) dom_def split: if_splits)

lemma EventHandler_runs:
  assumes "ev_rep w A" "set ord = {h. GetEventProcessor w h = Some q \<and> A h (ev_Type ev) \<noteq> None}"
  shows "EventProcessor_EventHandler call ord q ev w x =
    fst (run_callbacks call (map (\<lambda>h. snd (the (A h (ev_Type ev)))) ord) ev x)"
proof -
  have b: "bound_of w q (ev_Type ev) h = Some (snd (the (A h (ev_Type ev))))" if "h \<in> set ord" for h
    using that ev_repD(5) [OF assms(1), of q "ev_Type ev" h] assms(2) by auto
  show ?thesis
  proof (cases "rd (mapBindHandlerEvent (ev_proc w q)) (ev_Type ev)")
    case None
    then have "ord = []" using b by (cases ord) (auto simp: bound_of_def)
    with None show ?thesis by (simp add: EventProcessor_EventHandler_def GetEventType_def)
  next
    case (Some m)
    then have "map (\<lambda>h. the (m h)) ord = map (\<lambda>h. snd (the (A h (ev_Type ev)))) ord"
      using b by (simp add: bound_of_def)
    then show ?thesis using Some by (simp add: EventProcessor_EventHandler_def GetEventType_def del: map_eq_conv)
  qed
qed

text \<open>The registrations of a handler, as \<^verbatim>\<open>Destroy\<close> walks them.\<close>

lemma reg_entries: "ev_rep w A \<Longrightarrow> {(t, p). p \<in> reg_of w h t} = entries A h"
  by (force simp: ev_repD(4) entries_def)

lemma finite_entries:
  assumes "ev_rep w A"
  shows "finite (entries A h)"
proof -
  have "entries A h \<subseteq> (\<lambda>(h, t). (t, fst (the (A h t)))) ` {(h, t). A h t \<noteq> None}"
    by (force simp: entries_def)
  then show ?thesis by (rule finite_subset) (use ev_repD(2) [OF assms] in simp)
qed

end
