(* ===== verification/Concurrent.thy ===== *)
theory Concurrent
  imports Deque "HOL-Library.Multiset"
begin

text \<open>
  \<^verbatim>\<open>concurrent/concurrent.go\<close>, \<^verbatim>\<open>concurrent/dispatch.go\<close> and \<^verbatim>\<open>concurrent/worker.go\<close>: the task pool of a
  service, as a labelled step relation of the goroutines that share its channels. Clients put tasks
  into the task channel; the dispatcher takes them, keeps one \<open>Deque\<close> per queue id, and hands tasks
  to workers over an unbuffered channel; a worker runs the function, pushes the callback for the
  service, and reports the end of a queued task back to the dispatcher. The goroutines move one
  channel operation at a time; what a goroutine does to its own data between two channel operations
  is part of the step, except that an idle worker may not have come back to its receive yet when the
  dispatcher looks for one (\<open>takes_idle\<close>). The dispatcher's position is \<open>co_pc\<close>: before the first \<^verbatim>\<open>select\<close> (\<open>DTop\<close>), at the
  inner \<^verbatim>\<open>select\<close> (\<open>DSel\<close>), at the \<^verbatim>\<open>select\<close> of \<^verbatim>\<open>executeTask\<close> (\<open>DExec\<close>) and at its blocking send
  (\<open>DSend\<close>), at the end of the loop body (\<open>DChk\<close>), shutting workers down (\<open>DDrain\<close>), waiting for them
  (\<open>DWait\<close>), returned (\<open>DDone\<close>) or dead after a panic (\<open>DCrash\<close>). Functions and callbacks are numbers;
  what a function does is any outcome. Three lists that the code does not have record the history:
  the tasks put into the channel, handed to a worker, and run.
\<close>

section \<open>Data\<close>

text \<open>A callback is a function of the client, or the closure that passes an error on to one.\<close>

datatype cbfun = UserCb nat | ErrCb "cbfun option" string

record task =
  tk_queueId :: int
  tk_fn :: "nat option"
  tk_cb :: "cbfun option"

definition zero_task :: task where
  "zero_task = \<lparr>tk_queueId = 0, tk_fn = None, tk_cb = None\<rparr>"

definition isExistTask :: "task \<Rightarrow> bool" where
  "isExistTask t \<longleftrightarrow> tk_fn t = None"

datatype dpc =
    DOff | DTop | DSel | DExec task "task option" | DSend task "task option" | DChk | DDrain nat
  | DWait | DDone | DCrash

datatype wst = WExec task | WCb cbfun int | WFin int | WIdle | WGone

record cstate =
  co_open :: int
  minConcurrentNum :: int
  maxConcurrentNum :: int
  co_cap :: nat
  co_tasks :: "task list"
  queueIdChannel :: "int list"
  cbChannel :: "cbfun option list"
  co_idle :: bool
  workerNum :: int
  mapTaskQueueSession :: "int \<rightharpoonup> task Deque"
  co_cancelled :: bool
  co_timer :: bool
  co_pc :: dpc
  co_workers :: "wst list"
  co_submitted :: "task list"
  co_started :: "task list"
  co_finished :: "task list"

definition maxTaskQueueSessionId :: int where
  "maxTaskQueueSessionId = 10000"

definition zeroConcurrent :: cstate where
  "zeroConcurrent = \<lparr>co_open = 0, minConcurrentNum = 0, maxConcurrentNum = 0, co_cap = 0, co_tasks = [],
     queueIdChannel = [], cbChannel = [], co_idle = False, workerNum = 0, mapTaskQueueSession = Map.empty,
     co_cancelled = False, co_timer = False, co_pc = DOff, co_workers = [], co_submitted = [],
     co_started = [], co_finished = []\<rparr>"

definition zeroDeque :: "'a Deque" where
  "zeroDeque = \<lparr>dq_buf = [], dq_head = 0, dq_tail = 0, dq_count = 0, dq_minCap = 0\<rparr>"

section \<open>The client side (concurrent.go)\<close>

definition dispatch_open :: "int \<Rightarrow> int \<Rightarrow> cstate \<Rightarrow> cstate" where
  "dispatch_open minGoroutineNum maxGoroutineNum s =
     s\<lparr>minConcurrentNum := minGoroutineNum, maxConcurrentNum := maxGoroutineNum,
       mapTaskQueueSession := Map.empty, queueIdChannel := [], co_cancelled := False,
       co_timer := True, co_pc := DTop\<rparr>"

definition OpenConcurrent :: "int \<Rightarrow> int \<Rightarrow> int \<Rightarrow> cstate \<Rightarrow> cstate go" where
  "OpenConcurrent minGoroutineNum maxGoroutineNum maxTaskChannelNum s =
     (let s1 = s\<lparr>co_open := co_open s + 1\<rparr>
      in if co_open s1 > 1 then Inl (PanicMsg ''repeated calls to OpenConcurrent are not allowed!'')
         else if maxTaskChannelNum < 0 then Inl MakeNegative
         else Inr (dispatch_open minGoroutineNum maxGoroutineNum
                (s1\<lparr>co_cap := nat maxTaskChannelNum, co_tasks := [], cbChannel := []\<rparr>)))"

text \<open>The outer \<open>None\<close> is a send that waits for room in the channel.\<close>

definition pushAsyncDoCallbackEvent :: "cbfun option \<Rightarrow> cstate \<Rightarrow> cstate option" where
  "pushAsyncDoCallbackEvent c s =
     (case c of
        None \<Rightarrow> Some s
      | Some _ \<Rightarrow> if length (cbChannel s) < co_cap s then Some (s\<lparr>cbChannel := cbChannel s @ [c]\<rparr>) else None)"

text \<open>Which queue a caller's number goes to: the number 0 means no queue.\<close>

definition queue_of :: "int \<Rightarrow> int" where
  "queue_of qid = (if qid \<noteq> 0 then go_rem qid maxTaskQueueSessionId + 1 else qid)"

definition AsyncDoByQueue :: "int \<Rightarrow> nat option \<Rightarrow> cbfun option \<Rightarrow> cstate \<Rightarrow> cstate go option" where
  "AsyncDoByQueue qid f c s =
     (if co_cap s = 0 then Some (Inl (PanicMsg ''not open concurrent''))
      else if f = None \<and> c = None then Some (Inr s)
      else if f = None then map_option Inr (pushAsyncDoCallbackEvent c s)
      else
        let t = \<lparr>tk_queueId = queue_of qid, tk_fn = f, tk_cb = c\<rparr>
        in if length (co_tasks s) < co_cap s
           then Some (Inr (s\<lparr>co_tasks := co_tasks s @ [t], co_submitted := co_submitted s @ [t]\<rparr>))
           else if c \<noteq> None
           then map_option Inr (pushAsyncDoCallbackEvent (Some (ErrCb c ''tasks channel is full'')) s)
           else Some (Inr s))"

definition AsyncDo :: "nat option \<Rightarrow> cbfun option \<Rightarrow> cstate \<Rightarrow> cstate go option" where
  "AsyncDo f c s = AsyncDoByQueue 0 f c s"

text \<open>Calling a callback: which function of the client runs, with which error; a nil function panics.\<close>

fun call_cb :: "cbfun \<Rightarrow> string option \<Rightarrow> (nat \<times> string option) go" where
  "call_cb (UserCb f) err = Inr (f, err)"
| "call_cb (ErrCb None msg) err = Inl NilDereference"
| "call_cb (ErrCb (Some c) msg) err = call_cb c (Some msg)"

text \<open>\<^verbatim>\<open>DoCallback\<close> recovers from a panic: \<open>None\<close> when no function of the client runs.\<close>

definition DoCallback :: "cbfun option \<Rightarrow> (nat \<times> string option) option" where
  "DoCallback c = (case c of None \<Rightarrow> None | Some f \<Rightarrow> (case call_cb f None of Inl _ \<Rightarrow> None | Inr r \<Rightarrow> Some r))"

section \<open>The dispatcher (dispatch.go)\<close>

definition session_len :: "cstate \<Rightarrow> int \<Rightarrow> int" where
  "session_len s q = Deque_Len (mapTaskQueueSession s q)"

definition processTask :: "task \<Rightarrow> cstate \<Rightarrow> cstate go" where
  "processTask t s =
     (let s = s\<lparr>co_idle := False\<rparr>; q = tk_queueId t
      in if q \<noteq> 0 then
           let d = (case mapTaskQueueSession s q of None \<Rightarrow> zeroDeque | Some d \<Rightarrow> d);
               s1 = s\<lparr>mapTaskQueueSession := (mapTaskQueueSession s)(q \<mapsto> d)\<rparr>
           in if Deque_Len (Some d) = 0 then Inr (s1\<lparr>co_pc := DExec t (Some t)\<rparr>)
              else rbind (Deque_PushBack zero_task d t) (\<lambda>d1.
                   Inr (s1\<lparr>mapTaskQueueSession := (mapTaskQueueSession s1)(q \<mapsto> d1), co_pc := DChk\<rparr>))
         else Inr (s\<lparr>co_pc := DExec t None\<rparr>))"

text \<open>What follows \<^verbatim>\<open>executeTask\<close>: a task taken from the channel with an empty queue goes into the queue.\<close>

definition after_execute :: "task option \<Rightarrow> cstate \<Rightarrow> cstate go" where
  "after_execute a s =
     (case a of
        None \<Rightarrow> Inr (s\<lparr>co_pc := DChk\<rparr>)
      | Some t \<Rightarrow>
          (case mapTaskQueueSession s (tk_queueId t) of
             None \<Rightarrow> Inl NilDereference
           | Some d \<Rightarrow>
               rbind (Deque_PushBack zero_task d t) (\<lambda>d1.
               Inr (s\<lparr>mapTaskQueueSession := (mapTaskQueueSession s)(tk_queueId t \<mapsto> d1), co_pc := DChk\<rparr>))))"

definition processQueueEvent :: "int \<Rightarrow> cstate \<Rightarrow> cstate go" where
  "processQueueEvent q s =
     (let s = s\<lparr>co_idle := False\<rparr>
      in case mapTaskQueueSession s q of
           None \<Rightarrow> Inr (s\<lparr>co_pc := DChk\<rparr>)
         | Some d \<Rightarrow>
             rbind (Deque_PopFront zero_task d) (\<lambda>(_, d1).
             let s1 = s\<lparr>mapTaskQueueSession := (mapTaskQueueSession s)(q \<mapsto> d1)\<rparr>
             in if Deque_Len (Some d1) = 0 then Inr (s1\<lparr>co_pc := DChk\<rparr>)
                else rbind (Deque_Front d1) (\<lambda>t. Inr (s1\<lparr>co_pc := DExec t None\<rparr>))))"

text \<open>A panic in the dispatcher kills it.\<close>

definition or_crash :: "cstate \<Rightarrow> cstate go \<Rightarrow> cstate" where
  "or_crash s r = (case r of Inl _ \<Rightarrow> s\<lparr>co_pc := DCrash\<rparr> | Inr s1 \<Rightarrow> s1)"

definition no_idle :: "cstate \<Rightarrow> bool" where
  "no_idle s \<longleftrightarrow> WIdle \<notin> set (co_workers s)"

text \<open>\<^verbatim>\<open>processIdle\<close>, with the worker that takes the empty task, or with none.\<close>

definition processIdle :: "nat option \<Rightarrow> cstate \<Rightarrow> cstate" where
  "processIdle j s =
     (case j of
        None \<Rightarrow> s
      | Some j \<Rightarrow> s\<lparr>co_workers := (co_workers s)[j := WGone], workerNum := workerNum s - 1\<rparr>)"

text \<open>
  Whether a send on the unbuffered channel to the workers can go on at once: only a worker that stands at its receive takes
  the task. \<open>WIdle\<close> is a worker between its last channel operation and the next receive; it may or may not have got there,
  so that the default branch of a \<^verbatim>\<open>select\<close> (\<open>None\<close>) can be taken in any case.
\<close>

definition takes_idle :: "cstate \<Rightarrow> nat option \<Rightarrow> bool" where
  "takes_idle s j \<longleftrightarrow>
     (case j of None \<Rightarrow> True | Some j \<Rightarrow> j < length (co_workers s) \<and> co_workers s ! j = WIdle)"

definition processTimer :: "nat option \<Rightarrow> cstate \<Rightarrow> cstate" where
  "processTimer j s =
     (let s1 = (if co_idle s \<and> workerNum s > minConcurrentNum s then processIdle j s else s)
      in s1\<lparr>co_idle := True\<rparr>)"

text \<open>\<^verbatim>\<open>close\<close>: the part that changes the shared state; it then only reads the callback channel.\<close>

definition dispatch_close :: "cstate \<Rightarrow> cstate" where
  "dispatch_close s = s\<lparr>minConcurrentNum := -1, co_cancelled := True\<rparr>"

section \<open>The worker (worker.go)\<close>

datatype outcome = Returns bool | Panics string

definition after_cb :: "int \<Rightarrow> wst" where
  "after_cb q = (if q \<noteq> 0 then WFin q else WIdle)"

definition endCallFun :: "bool \<Rightarrow> task \<Rightarrow> wst" where
  "endCallFun isDoCallBack t =
     (case tk_cb t of
        Some c \<Rightarrow> if isDoCallBack then WCb c (tk_queueId t) else after_cb (tk_queueId t)
      | None \<Rightarrow> after_cb (tk_queueId t))"

definition worker_exec :: "outcome \<Rightarrow> task \<Rightarrow> wst" where
  "worker_exec r t =
     (case r of
        Returns b \<Rightarrow> endCallFun b t
      | Panics msg \<Rightarrow> endCallFun True (t\<lparr>tk_cb := Some (ErrCb (tk_cb t) msg)\<rparr>))"

definition worker_recv :: "task \<Rightarrow> wst" where
  "worker_recv t = (if isExistTask t then WGone else WExec t)"

text \<open>A task goes to the waiting worker \<open>j\<close>, or to a new one.\<close>

definition hand_to :: "nat \<Rightarrow> task \<Rightarrow> cstate \<Rightarrow> cstate" where
  "hand_to j t s = s\<lparr>co_workers := (co_workers s)[j := worker_recv t], co_started := co_started s @ [t]\<rparr>"

definition worker_start :: "task \<Rightarrow> cstate \<Rightarrow> cstate" where
  "worker_start t s = s\<lparr>co_workers := co_workers s @ [WExec t], workerNum := workerNum s + 1,
     co_started := co_started s @ [t]\<rparr>"

section \<open>Steps\<close>

datatype clabel = LClient | LTimer | LClose | LDisp | LWork | LCall

inductive cstep :: "clabel \<Rightarrow> cstate \<Rightarrow> cstate \<Rightarrow> bool" where
  submit: "AsyncDoByQueue qid f c s = Some (Inr s') \<Longrightarrow> cstep LClient s s'"
| close: "cstep LClose s (dispatch_close s)"
| call: "cbChannel s = x # xs \<Longrightarrow> cstep LCall s (s\<lparr>cbChannel := xs\<rparr>)"
| top_event: "co_pc s = DTop \<Longrightarrow> queueIdChannel s = q # qs \<Longrightarrow>
    cstep LDisp s (or_crash s (processQueueEvent q (s\<lparr>queueIdChannel := qs\<rparr>)))"
| top_default: "co_pc s = DTop \<Longrightarrow> queueIdChannel s = [] \<Longrightarrow> cstep LDisp s (s\<lparr>co_pc := DSel\<rparr>)"
| sel_task: "co_pc s = DSel \<Longrightarrow> co_tasks s = t # ts \<Longrightarrow>
    cstep LDisp s (or_crash s (processTask t (s\<lparr>co_tasks := ts\<rparr>)))"
| sel_event: "co_pc s = DSel \<Longrightarrow> queueIdChannel s = q # qs \<Longrightarrow>
    cstep LDisp s (or_crash s (processQueueEvent q (s\<lparr>queueIdChannel := qs\<rparr>)))"
| sel_timer: "co_pc s = DSel \<Longrightarrow> co_timer s \<Longrightarrow> takes_idle s j \<Longrightarrow>
    cstep LTimer s ((processTimer j (s\<lparr>co_timer := False\<rparr>))\<lparr>co_pc := DChk\<rparr>)"
| sel_done: "co_pc s = DSel \<Longrightarrow> co_cancelled s \<Longrightarrow> cstep LDisp s (s\<lparr>co_timer := True, co_pc := DDrain 0\<rparr>)"
| drain: "co_pc s = DDrain i \<Longrightarrow> int i < workerNum s \<Longrightarrow> takes_idle s j \<Longrightarrow>
    cstep LDisp s ((processIdle j s)\<lparr>co_pc := DDrain (Suc i)\<rparr>)"
| drain_end: "co_pc s = DDrain i \<Longrightarrow> \<not> int i < workerNum s \<Longrightarrow> cstep LDisp s (s\<lparr>co_pc := DChk\<rparr>)"
| chk_loop: "co_pc s = DChk \<Longrightarrow> \<not> (minConcurrentNum s = -1 \<and> workerNum s = 0) \<Longrightarrow>
    cstep LDisp s (s\<lparr>co_pc := DTop\<rparr>)"
| chk_wait: "co_pc s = DChk \<Longrightarrow> minConcurrentNum s = -1 \<Longrightarrow> workerNum s = 0 \<Longrightarrow>
    cstep LDisp s (s\<lparr>co_pc := DWait\<rparr>)"
| wait_done: "co_pc s = DWait \<Longrightarrow> set (co_workers s) \<subseteq> {WGone} \<Longrightarrow> length (cbChannel s) < co_cap s \<Longrightarrow>
    cstep LDisp s (s\<lparr>cbChannel := cbChannel s @ [None], co_pc := DDone\<rparr>)"
| exec_hand: "co_pc s = DExec t a \<Longrightarrow> takes_idle s (Some j) \<Longrightarrow>
    cstep LDisp s (or_crash s (after_execute a (hand_to j t s)))"
| exec_start: "co_pc s = DExec t a \<Longrightarrow> workerNum s < maxConcurrentNum s \<Longrightarrow>
    cstep LDisp s (or_crash s (after_execute a (worker_start t s)))"
| exec_block: "co_pc s = DExec t a \<Longrightarrow> \<not> workerNum s < maxConcurrentNum s \<Longrightarrow>
    cstep LDisp s (s\<lparr>co_pc := DSend t a\<rparr>)"
| send_hand: "co_pc s = DSend t a \<Longrightarrow> takes_idle s (Some j) \<Longrightarrow>
    cstep LDisp s (or_crash s (after_execute a (hand_to j t s)))"
| work_fn: "j < length (co_workers s) \<Longrightarrow> co_workers s ! j = WExec t \<Longrightarrow>
    cstep LWork s (s\<lparr>co_workers := (co_workers s)[j := worker_exec r t], co_finished := co_finished s @ [t]\<rparr>)"
| work_cb: "j < length (co_workers s) \<Longrightarrow> co_workers s ! j = WCb c q \<Longrightarrow>
    pushAsyncDoCallbackEvent (Some c) s = Some s' \<Longrightarrow>
    cstep LWork s (s'\<lparr>co_workers := (co_workers s)[j := after_cb q]\<rparr>)"
| work_fin: "j < length (co_workers s) \<Longrightarrow> co_workers s ! j = WFin q \<Longrightarrow> length (queueIdChannel s) < co_cap s \<Longrightarrow>
    cstep LWork s (s\<lparr>queueIdChannel := queueIdChannel s @ [q], co_workers := (co_workers s)[j := WIdle]\<rparr>)"

inductive creach :: "int \<Rightarrow> int \<Rightarrow> nat \<Rightarrow> cstate \<Rightarrow> bool" for mn mx k where
  opened: "OpenConcurrent mn mx (int k) zeroConcurrent = Inr s \<Longrightarrow> creach mn mx k s"
| step: "creach mn mx k s \<Longrightarrow> cstep l s s' \<Longrightarrow> creach mn mx k s'"

section \<open>Invariant\<close>

text \<open>
  \<open>waiting s q\<close> is the content of a queue. Each queue id has a token: it is with the worker that runs a
  task of the queue, or in the channel that tells the dispatcher the task has ended, or with the
  dispatcher that is about to hand out the next task. The token exists exactly while the queue is in
  use. A task the dispatcher carries is the head of its queue, or not yet in it.
\<close>

definition waiting :: "cstate \<Rightarrow> int \<Rightarrow> task list" where
  "waiting s q = (case mapTaskQueueSession s q of None \<Rightarrow> [] | Some d \<Rightarrow> deque_list d)"

definition carried :: "dpc \<Rightarrow> (task \<times> task option) option" where
  "carried p = (case p of DExec t a \<Rightarrow> Some (t, a) | DSend t a \<Rightarrow> Some (t, a) | _ \<Rightarrow> None)"

definition wtok :: "int \<Rightarrow> wst \<Rightarrow> nat" where
  "wtok q w = (case w of
       WExec t \<Rightarrow> if tk_queueId t = q \<and> q \<noteq> 0 then 1 else 0
     | WCb c i \<Rightarrow> if i = q \<and> q \<noteq> 0 then 1 else 0
     | WFin i \<Rightarrow> if i = q then 1 else 0
     | _ \<Rightarrow> 0)"

definition ptok :: "int \<Rightarrow> dpc \<Rightarrow> nat" where
  "ptok q p = (case carried p of Some (t, _) \<Rightarrow> if tk_queueId t = q \<and> q \<noteq> 0 then 1 else 0 | None \<Rightarrow> 0)"

definition tokens :: "cstate \<Rightarrow> int \<Rightarrow> nat" where
  "tokens s q = sum_list (map (wtok q) (co_workers s)) + count_list (queueIdChannel s) q + ptok q (co_pc s)"

definition busy :: "dpc \<Rightarrow> (int \<Rightarrow> task list) \<Rightarrow> int \<Rightarrow> bool" where
  "busy p L q \<longleftrightarrow> q \<noteq> 0 \<and> (L q \<noteq> [] \<or> (\<exists>t. carried p = Some (t, Some t) \<and> tk_queueId t = q))"

definition unstarted :: "dpc \<Rightarrow> (int \<Rightarrow> task list) \<Rightarrow> int \<Rightarrow> task list" where
  "unstarted p L q = (case carried p of
       Some (t, a) \<Rightarrow> if tk_queueId t = q then (if q \<noteq> 0 \<and> a = None then L q else [t]) else tl (L q)
     | None \<Rightarrow> tl (L q))"

definition of_queue :: "int \<Rightarrow> task list \<Rightarrow> task list" where
  "of_queue q ts = filter (\<lambda>t. tk_queueId t = q) ts"

lemma of_queue_simps [simp]:
  "of_queue q [] = []" "of_queue q (ts @ us) = of_queue q ts @ of_queue q us"
  "of_queue q (t # ts) = (if tk_queueId t = q then t # of_queue q ts else of_queue q ts)"
  by (simp_all add: of_queue_def)

definition carried_ok :: "dpc \<Rightarrow> (int \<Rightarrow> task list) \<Rightarrow> bool" where
  "carried_ok p L \<longleftrightarrow> (case carried p of
       None \<Rightarrow> True
     | Some (t, Some t') \<Rightarrow> t' = t \<and> tk_queueId t \<noteq> 0 \<and> L (tk_queueId t) = []
     | Some (t, None) \<Rightarrow> tk_queueId t \<noteq> 0 \<longrightarrow> (\<exists>r. L (tk_queueId t) = t # r))"

definition view_ok :: "dpc \<Rightarrow> (int \<Rightarrow> task list) \<Rightarrow> (int \<Rightarrow> nat) \<Rightarrow> task list \<Rightarrow> task list \<Rightarrow> task list \<Rightarrow> bool" where
  "view_ok p L T sub st ts \<longleftrightarrow>
     p \<noteq> DCrash \<and> carried_ok p L \<and> (\<forall>q. T q = (if busy p L q then 1 else 0)) \<and>
     (\<forall>q. of_queue q sub = of_queue q st @ unstarted p L q @ of_queue q ts)"

definition sessions_ok :: "cstate \<Rightarrow> bool" where
  "sessions_ok s \<longleftrightarrow> (\<forall>q d. mapTaskQueueSession s q = Some d \<longrightarrow>
     q \<noteq> 0 \<and> deque_inv d \<and> (\<forall>t \<in> set (deque_list d). tk_queueId t = q)) \<and>
     (\<forall>t. carried (co_pc s) = Some (t, Some t) \<longrightarrow> mapTaskQueueSession s (tk_queueId t) \<noteq> None)"

definition running :: "wst \<Rightarrow> task list" where
  "running w = (case w of WExec t \<Rightarrow> [t] | _ \<Rightarrow> [])"

definition cinv :: "cstate \<Rightarrow> bool" where
  "cinv s \<longleftrightarrow> sessions_ok s \<and>
     view_ok (co_pc s) (waiting s) (tokens s) (co_submitted s) (co_started s) (co_tasks s) \<and>
     (\<forall>t \<in> set (co_submitted s). tk_fn t \<noteq> None) \<and>
     mset (co_started s) = mset (co_finished s) + mset (concat (map running (co_workers s)))"

lemma carried_simps [simp]:
  "carried (DExec t a) = Some (t, a)" "carried (DSend t a) = Some (t, a)" "carried DTop = None"
  "carried DSel = None" "carried DChk = None" "carried (DDrain i) = None" "carried DWait = None"
  "carried DDone = None" "carried DCrash = None" "carried DOff = None"
  by (simp_all add: carried_def)

text \<open>Changing one worker.\<close>

lemma sum_upd:
  "j < length ws \<Longrightarrow> ws ! j = w \<Longrightarrow> sum_list (map f (ws[j := w'])) + f w = sum_list (map f ws) + (f w' :: nat)"
proof (induction ws arbitrary: j)
  case (Cons x ws)
  then show ?case by (cases j) (auto simp: add.assoc add.left_commute)
qed simp

lemma running_upd:
  "j < length ws \<Longrightarrow> ws ! j = w \<Longrightarrow>
    mset (concat (map running (ws[j := w']))) + mset (running w) = mset (concat (map running ws)) + mset (running w')"
proof (induction ws arbitrary: j)
  case (Cons x ws)
  then show ?case by (cases j) (auto simp: ac_simps)
qed simp

lemma tokens_upd:
  assumes "j < length (co_workers s)" "co_workers s ! j = w"
  shows "tokens (s\<lparr>co_workers := (co_workers s)[j := w']\<rparr>) q + wtok q w = tokens s q + wtok q w'"
  using sum_upd [OF assms, of "wtok q" w'] by (simp add: tokens_def)

lemma wtok_simps [simp]:
  "wtok q WIdle = 0" "wtok q WGone = 0" "wtok q (WFin i) = (if i = q then 1 else 0)"
  "wtok q (WExec t) = (if tk_queueId t = q \<and> q \<noteq> 0 then 1 else 0)"
  "wtok q (WCb c i) = (if i = q \<and> q \<noteq> 0 then 1 else 0)"
  "wtok q (after_cb i) = (if i = q \<and> q \<noteq> 0 then 1 else 0)"
  by (auto simp: wtok_def after_cb_def)

lemma wtok_exec [simp]: "wtok q (worker_exec r t) = wtok q (WExec t)"
  by (auto simp: worker_exec_def endCallFun_def split: outcome.split option.split)

lemma running_simps [simp]:
  "running WIdle = []" "running WGone = []" "running (WFin i) = []" "running (WExec t) = [t]"
  "running (WCb c i) = []" "running (after_cb i) = []" "running (worker_exec r t) = []"
  by (auto simp: running_def after_cb_def worker_exec_def endCallFun_def split: outcome.split option.split)

lemma ptok_simps [simp]:
  "ptok q (DExec t a) = (if tk_queueId t = q \<and> q \<noteq> 0 then 1 else 0)"
  "ptok q (DSend t a) = (if tk_queueId t = q \<and> q \<noteq> 0 then 1 else 0)"
  "carried p = None \<Longrightarrow> ptok q p = 0"
  by (simp_all add: ptok_def)

lemma cinvD:
  assumes "cinv s"
  shows "sessions_ok s" "co_pc s \<noteq> DCrash" "carried_ok (co_pc s) (waiting s)"
    "tokens s q = (if busy (co_pc s) (waiting s) q then 1 else 0)"
    "of_queue q (co_submitted s) = of_queue q (co_started s) @ unstarted (co_pc s) (waiting s) q @ of_queue q (co_tasks s)"
    "t \<in> set (co_submitted s) \<Longrightarrow> tk_fn t \<noteq> None"
    "mset (co_started s) = mset (co_finished s) + mset (concat (map running (co_workers s)))"
  using assms by (auto simp: cinv_def view_ok_def)

lemma waiting_of: "sessions_ok s \<Longrightarrow> t \<in> set (waiting s q) \<Longrightarrow> tk_queueId t = q \<and> q \<noteq> 0"
  by (cases "mapTaskQueueSession s q") (auto simp: waiting_def sessions_ok_def)

lemma waiting_0 [simp]: "sessions_ok s \<Longrightarrow> waiting s 0 = []"
  by (auto simp: waiting_def sessions_ok_def split: option.splits)

text \<open>Steps that move nothing the invariant looks at, one worker, or the dispatcher only.\<close>

lemma cinv_frame:
  assumes "cinv s" "co_pc s' = co_pc s" "mapTaskQueueSession s' = mapTaskQueueSession s"
    "co_workers s' = co_workers s" "queueIdChannel s' = queueIdChannel s" "co_submitted s' = co_submitted s"
    "co_started s' = co_started s" "co_finished s' = co_finished s" "co_tasks s' = co_tasks s"
  shows "cinv s'"
proof -
  have "waiting s' = waiting s" "tokens s' = tokens s" "sessions_ok s' = sessions_ok s"
    using assms(2-) by (auto simp: waiting_def tokens_def sessions_ok_def fun_eq_iff)
  with assms show ?thesis by (simp add: cinv_def)
qed

lemma cinv_pc:
  assumes "cinv s" "carried p = carried (co_pc s)" "p \<noteq> DCrash"
  shows "cinv (s\<lparr>co_pc := p\<rparr>)"
proof -
  have "waiting (s\<lparr>co_pc := p\<rparr>) = waiting s" "tokens (s\<lparr>co_pc := p\<rparr>) = tokens s"
    "sessions_ok (s\<lparr>co_pc := p\<rparr>) = sessions_ok s"
    using assms(2) by (auto simp: waiting_def tokens_def ptok_def sessions_ok_def fun_eq_iff)
  with assms show ?thesis by (auto simp: cinv_def view_ok_def carried_ok_def busy_def unstarted_def)
qed

lemma cinv_worker:
  assumes "cinv s" "j < length (co_workers s)" "co_workers s ! j = w"
    "\<And>q. wtok q w' = wtok q w" "running w' = running w"
  shows "cinv (s\<lparr>co_workers := (co_workers s)[j := w']\<rparr>)"
proof -
  let ?s = "s\<lparr>co_workers := (co_workers s)[j := w']\<rparr>"
  have "tokens ?s = tokens s" using tokens_upd [OF assms(2,3), of w'] assms(4) by (auto simp: fun_eq_iff)
  moreover have "mset (concat (map running (co_workers ?s))) = mset (concat (map running (co_workers s)))"
    using running_upd [OF assms(2,3), of w'] assms(5) by simp
  moreover have "waiting ?s = waiting s" "sessions_ok ?s = sessions_ok s"
    by (auto simp: waiting_def sessions_ok_def fun_eq_iff)
  ultimately show ?thesis using assms(1) by (simp add: cinv_def)
qed

lemma submit_result:
  assumes "AsyncDoByQueue qid f c s = Some (Inr s')"
  obtains "s' = s" | x where "s' = s\<lparr>cbChannel := cbChannel s @ [x]\<rparr>"
    | t where "tk_fn t \<noteq> None" "s' = s\<lparr>co_tasks := co_tasks s @ [t], co_submitted := co_submitted s @ [t]\<rparr>"
proof -
  define t where "t = \<lparr>tk_queueId = queue_of qid, tk_fn = f, tk_cb = c\<rparr>"
  have "s' = s \<or> (\<exists>x. s' = s\<lparr>cbChannel := cbChannel s @ [x]\<rparr>) \<or>
      (tk_fn t \<noteq> None \<and> s' = s\<lparr>co_tasks := co_tasks s @ [t], co_submitted := co_submitted s @ [t]\<rparr>)"
    using assms
    by (auto simp: AsyncDoByQueue_def pushAsyncDoCallbackEvent_def Let_def t_def split: if_splits option.splits)
  then show ?thesis using that by blast
qed

lemma cinv_submit:
  assumes "cinv s" "AsyncDoByQueue qid f c s = Some (Inr s')"
  shows "cinv s'"
  using assms(2)
proof (cases rule: submit_result)
  case (3 t)
  then have "waiting s' = waiting s" "tokens s' = tokens s" "sessions_ok s' = sessions_ok s"
    by (auto simp: waiting_def tokens_def sessions_ok_def fun_eq_iff)
  then show ?thesis using 3 assms(1) by (auto simp: cinv_def view_ok_def)
qed (auto intro: cinv_frame [OF assms(1)] simp: assms(1))

lemma carried_submitted:
  assumes "cinv s" "carried (co_pc s) = Some (t, a)"
  shows "t \<in> set (co_submitted s)" "\<not> isExistTask t"
proof -
  have "t \<in> set (unstarted (co_pc s) (waiting s) (tk_queueId t))"
    using cinvD(3) [OF assms(1)] assms(2) by (auto simp: unstarted_def carried_ok_def)
  then have "t \<in> set (of_queue (tk_queueId t) (co_submitted s))" by (simp add: cinvD(5) [OF assms(1)])
  then show "t \<in> set (co_submitted s)" by (auto simp: of_queue_def)
  with cinvD(6) [OF assms(1)] show "\<not> isExistTask t" by (simp add: isExistTask_def)
qed

lemma sessionE:
  assumes "sessions_ok s" "waiting s q \<noteq> []"
  obtains d where "mapTaskQueueSession s q = Some d" "deque_inv d" "deque_list d = waiting s q"
  using assms by (cases "mapTaskQueueSession s q") (auto simp: waiting_def sessions_ok_def)

text \<open>Replacing the content of one queue.\<close>

lemma waiting_upd:
  "mapTaskQueueSession s' = (mapTaskQueueSession s)(q \<mapsto> d) \<Longrightarrow> waiting s' = (waiting s)(q := deque_list d)"
  by (auto simp: waiting_def fun_eq_iff)

lemma queue_event_ok:
  assumes inv: "cinv s" and ev: "queueIdChannel s = q # qs" and idle: "carried (co_pc s) = None"
  obtains s' where "processQueueEvent q (s\<lparr>queueIdChannel := qs\<rparr>) = Inr s'" "cinv s'"
    "s' = s\<lparr>queueIdChannel := qs, co_idle := False, mapTaskQueueSession := mapTaskQueueSession s', co_pc := co_pc s'\<rparr>"
    "co_pc s' = DChk \<or> (\<exists>t. co_pc s' = DExec t None)"
proof -
  have tok: "tokens s i = (if busy (co_pc s) (waiting s) i then 1 else 0)" for i by (rule cinvD(4) [OF inv])
  have "0 < tokens s q" using ev by (simp add: tokens_def)
  then have "q \<noteq> 0" "waiting s q \<noteq> []" using tok [of q] idle by (auto simp: busy_def split: if_splits)
  obtain d where d: "mapTaskQueueSession s q = Some d" "deque_inv d" "deque_list d = waiting s q"
    by (rule sessionE [OF cinvD(1) [OF inv] \<open>waiting s q \<noteq> []\<close>])
  obtain x r where xr: "waiting s q = x # r" using \<open>waiting s q \<noteq> []\<close> by (cases "waiting s q") auto
  obtain d1 where d1: "Deque_PopFront zero_task d = Inr (x, d1)" "deque_inv d1" "deque_list d1 = r"
    using Deque_PopFront_ok [OF d(2), of x r zero_task] d(3) xr by auto
  define p where "p = (if r = [] then DChk else DExec (hd r) None)"
  define s' where "s' = s\<lparr>queueIdChannel := qs, co_idle := False,
    mapTaskQueueSession := (mapTaskQueueSession s)(q \<mapsto> d1), co_pc := p\<rparr>"
  have ret: "processQueueEvent q (s\<lparr>queueIdChannel := qs\<rparr>) = Inr s'"
    using d d1 Deque_Front_Back_ok(1) [OF d1(2)] deque_list_length [OF d1(2)]
    by (simp add: processQueueEvent_def s'_def p_def Deque_Len_def)
  have w: "waiting s' = (waiting s)(q := r)" using waiting_upd [of s' s q d1] d1(3) by (simp add: s'_def)
  have ids: "tk_queueId t = q" if "t \<in> set r" for t
    using waiting_of [OF cinvD(1) [OF inv], of t q] that xr by simp
  then have hd: "r \<noteq> [] \<Longrightarrow> tk_queueId (hd r) = q" by (cases r) auto
  have "tokens s i = tokens s' i + (if i = q \<and> r = [] then 1 else 0)" for i
    using ev idle hd \<open>q \<noteq> 0\<close> by (auto simp: tokens_def s'_def p_def)
  then have "tokens s' i = (if busy p ((waiting s)(q := r)) i then 1 else 0)" for i
    using tok [of i] idle xr hd \<open>q \<noteq> 0\<close> by (auto simp: busy_def p_def split: if_splits)
  moreover have "unstarted p ((waiting s)(q := r)) i = unstarted (co_pc s) (waiting s) i" for i
    using idle hd xr \<open>q \<noteq> 0\<close> by (auto simp: unstarted_def p_def)
  moreover have "carried_ok p ((waiting s)(q := r))"
    using hd by (cases r) (auto simp: carried_ok_def p_def)
  ultimately have "view_ok (co_pc s') (waiting s') (tokens s') (co_submitted s') (co_started s') (co_tasks s')"
    using cinvD(5) [OF inv] by (simp add: view_ok_def w) (simp add: s'_def p_def)
  moreover have "sessions_ok s'"
    using cinvD(1) [OF inv] d1 ids \<open>q \<noteq> 0\<close> by (auto simp: sessions_ok_def s'_def p_def)
  moreover have "co_submitted s' = co_submitted s" "co_started s' = co_started s" "co_finished s' = co_finished s"
    "co_workers s' = co_workers s" by (simp_all add: s'_def)
  ultimately have "cinv s'" using inv unfolding cinv_def by simp
  then show ?thesis using that [OF ret] by (simp add: s'_def p_def)
qed

lemma take_task_ok:
  assumes inv: "cinv s" and ts: "co_tasks s = t # ts" and idle: "carried (co_pc s) = None"
  obtains s' where "processTask t (s\<lparr>co_tasks := ts\<rparr>) = Inr s'" "cinv s'"
    "s' = s\<lparr>co_tasks := ts, co_idle := False, mapTaskQueueSession := mapTaskQueueSession s', co_pc := co_pc s'\<rparr>"
    "co_pc s' = DChk \<or> (\<exists>a. co_pc s' = DExec t a)"
proof -
  define q where "q = tk_queueId t"
  define d where "d = (case mapTaskQueueSession s q of None \<Rightarrow> zeroDeque | Some d \<Rightarrow> d)"
  have so: "sessions_ok s" by (rule cinvD(1) [OF inv])
  have tok: "tokens s i = (if busy (co_pc s) (waiting s) i then 1 else 0)" for i by (rule cinvD(4) [OF inv])
  have d: "deque_inv d" "deque_list d = waiting s q"
    using so by (auto simp: d_def waiting_def sessions_ok_def zeroDeque_def deque_inv_def mincap_ok_def
        deque_list_def split: option.splits)
  obtain d2 where d2: "Deque_PushBack zero_task d t = Inr d2" "deque_inv d2" "deque_list d2 = waiting s q @ [t]"
    using Deque_PushBack_ok [OF d(1)] d(2) by metis
  define direct where "direct \<longleftrightarrow> q = 0 \<or> waiting s q = []"
  define p where "p = (if q = 0 then DExec t None else if waiting s q = [] then DExec t (Some t) else DChk)"
  define m where "m = (if q = 0 then mapTaskQueueSession s
    else if waiting s q = [] then (mapTaskQueueSession s)(q \<mapsto> d) else (mapTaskQueueSession s)(q \<mapsto> d2))"
  define s' where "s' = s\<lparr>co_tasks := ts, co_idle := False, mapTaskQueueSession := m, co_pc := p\<rparr>"
  have ret: "processTask t (s\<lparr>co_tasks := ts\<rparr>) = Inr s'"
    using deque_list_length [OF d(1)] d(2) d2(1)
    by (auto simp: processTask_def Let_def s'_def p_def m_def q_def [symmetric] d_def Deque_Len_def)
  have w: "waiting s' = (if direct then waiting s else (waiting s)(q := waiting s q @ [t]))"
    using d d2(3) by (auto simp: waiting_def s'_def m_def direct_def fun_eq_iff)
  have "tokens s' i = tokens s i + (if i = q \<and> direct \<and> q \<noteq> 0 then 1 else 0)" for i
    using idle by (auto simp: tokens_def s'_def p_def direct_def q_def)
  then have "tokens s' i = (if busy p (waiting s') i then 1 else 0)" for i
    using tok [of i] idle by (auto simp: busy_def w p_def direct_def q_def split: if_splits)
  moreover have "unstarted p (waiting s') i @ of_queue i ts = unstarted (co_pc s) (waiting s) i @ of_queue i (co_tasks s)" for i
    using idle so by (auto simp: unstarted_def w p_def direct_def ts q_def)
  moreover have "carried_ok p (waiting s')"
    by (auto simp: carried_ok_def p_def w direct_def q_def)
  ultimately have "view_ok (co_pc s') (waiting s') (tokens s') (co_submitted s') (co_started s') (co_tasks s')"
    using cinvD(5) [OF inv] by (simp add: view_ok_def) (simp add: s'_def p_def)
  moreover have "sessions_ok s'"
    using so d d2 waiting_of [OF so] by (auto simp: sessions_ok_def s'_def p_def m_def q_def)
  moreover have "co_submitted s' = co_submitted s" "co_started s' = co_started s" "co_finished s' = co_finished s"
    "co_workers s' = co_workers s" by (simp_all add: s'_def)
  ultimately have "cinv s'" using inv unfolding cinv_def by simp
  then show ?thesis using that [OF ret] by (simp add: s'_def p_def)
qed

lemma handed_ok:
  assumes inv: "cinv s" and c: "carried (co_pc s) = Some (t, a)"
    and s1: "s1 = s\<lparr>co_workers := ws, workerNum := n, co_started := co_started s @ [t]\<rparr>"
    and tokw: "\<And>q. sum_list (map (wtok q) ws) = sum_list (map (wtok q) (co_workers s)) + wtok q (WExec t)"
    and run: "mset (concat (map running ws)) = add_mset t (mset (concat (map running (co_workers s))))"
  obtains s' where "after_execute a s1 = Inr s'" "cinv s'"
    "s' = s1\<lparr>mapTaskQueueSession := mapTaskQueueSession s', co_pc := DChk\<rparr>"
proof -
  define q where "q = tk_queueId t"
  have so: "sessions_ok s" by (rule cinvD(1) [OF inv])
  have ok: "carried_ok (co_pc s) (waiting s)" by (rule cinvD(3) [OF inv])
  have tok: "tokens s i = (if busy (co_pc s) (waiting s) i then 1 else 0)" for i by (rule cinvD(4) [OF inv])
  obtain m where m: "after_execute a s1 = Inr (s1\<lparr>mapTaskQueueSession := m, co_pc := DChk\<rparr>)"
    "sessions_ok (s1\<lparr>mapTaskQueueSession := m, co_pc := DChk\<rparr>)"
    "waiting (s1\<lparr>mapTaskQueueSession := m, co_pc := DChk\<rparr>) = (if a = None then waiting s else (waiting s)(q := [t]))"
  proof (cases a)
    case None
    show ?thesis
      by (rule that [of "mapTaskQueueSession s"])
        (use None so in \<open>auto simp: after_execute_def s1 sessions_ok_def waiting_def\<close>)
  next
    case (Some t')
    with ok c have t': "t' = t" "q \<noteq> 0" "waiting s q = []" by (auto simp: carried_ok_def q_def)
    with so c Some obtain d where d: "mapTaskQueueSession s q = Some d" "deque_inv d" "deque_list d = []"
      unfolding sessions_ok_def waiting_def q_def by fastforce
    obtain d1 where d1: "Deque_PushBack zero_task d t = Inr d1" "deque_inv d1" "deque_list d1 = [t]"
      using Deque_PushBack_ok [OF d(2)] d(3) by (metis append_Nil)
    show ?thesis
      by (rule that [of "(mapTaskQueueSession s)(q \<mapsto> d1)"])
        (use Some t' d d1 so in \<open>auto simp: after_execute_def s1 sessions_ok_def waiting_def q_def [symmetric] fun_eq_iff\<close>)
  qed
  let ?s' = "s1\<lparr>mapTaskQueueSession := m, co_pc := DChk\<rparr>"
  have "tokens ?s' i = tokens s i" for i
    using tokw [of i] c by (simp add: tokens_def s1 ptok_def)
  then have "tokens ?s' i = (if busy DChk (waiting ?s') i then 1 else 0)" for i
    using tok [of i] ok c m(3) by (cases a) (auto simp: busy_def carried_ok_def q_def)
  moreover have "unstarted (co_pc s) (waiting s) i = (if i = q then t # unstarted DChk (waiting ?s') i
      else unstarted DChk (waiting ?s') i)" for i
    using ok c m(3) so by (cases a) (auto simp: unstarted_def carried_ok_def q_def)
  then have "of_queue i (co_submitted s) = of_queue i (co_started s @ [t]) @ unstarted DChk (waiting ?s') i @ of_queue i (co_tasks s)" for i
    using cinvD(5) [OF inv, of i] by (auto simp: q_def)
  ultimately have "view_ok DChk (waiting ?s') (tokens ?s') (co_submitted s) (co_started s @ [t]) (co_tasks s)"
    by (simp add: view_ok_def carried_ok_def)
  then have "cinv ?s'"
    using inv m(2) run by (simp add: cinv_def s1)
  then show ?thesis using that [OF m(1)] by simp
qed

lemma hand_to_ok:
  assumes inv: "cinv s" and c: "carried (co_pc s) = Some (t, a)" and j: "takes_idle s (Some j)"
  obtains s' where "after_execute a (hand_to j t s) = Inr s'" "cinv s'" "co_pc s' = DChk"
    "s' = s\<lparr>co_workers := (co_workers s)[j := WExec t], co_started := co_started s @ [t],
       mapTaskQueueSession := mapTaskQueueSession s', co_pc := DChk\<rparr>"
proof -
  have w: "worker_recv t = WExec t" using carried_submitted(2) [OF inv c] by (simp add: worker_recv_def)
  have j: "j < length (co_workers s)" "co_workers s ! j = WIdle" using j by (simp_all add: takes_idle_def)
  show ?thesis
  proof (rule handed_ok [OF inv c, where ws = "(co_workers s)[j := WExec t]" and n = "workerNum s"])
    show "hand_to j t s = s\<lparr>co_workers := (co_workers s)[j := WExec t], workerNum := workerNum s,
        co_started := co_started s @ [t]\<rparr>" by (simp add: hand_to_def w)
    show "sum_list (map (wtok q) ((co_workers s)[j := WExec t])) =
        sum_list (map (wtok q) (co_workers s)) + wtok q (WExec t)" for q
      using sum_upd [OF j, of "wtok q" "WExec t"] by simp
    show "mset (concat (map running ((co_workers s)[j := WExec t]))) = add_mset t (mset (concat (map running (co_workers s))))"
      using running_upd [OF j, of "WExec t"] by simp
    fix s'
    assume s': "after_execute a (hand_to j t s) = Inr s'" "cinv s'"
      "s' = (hand_to j t s)\<lparr>mapTaskQueueSession := mapTaskQueueSession s', co_pc := DChk\<rparr>"
    have "co_pc s' = DChk" by (subst s'(3)) simp
    moreover have "s' = s\<lparr>co_workers := (co_workers s)[j := WExec t], co_started := co_started s @ [t],
       mapTaskQueueSession := mapTaskQueueSession s', co_pc := DChk\<rparr>" by (subst s'(3)) (simp add: hand_to_def w)
    ultimately show thesis using that [OF s'(1,2)] by blast
  qed
qed

lemma worker_start_ok:
  assumes inv: "cinv s" and c: "carried (co_pc s) = Some (t, a)"
  obtains s' where "after_execute a (worker_start t s) = Inr s'" "cinv s'" "co_pc s' = DChk"
    "s' = s\<lparr>co_workers := co_workers s @ [WExec t], workerNum := workerNum s + 1, co_started := co_started s @ [t],
       mapTaskQueueSession := mapTaskQueueSession s', co_pc := DChk\<rparr>"
proof (rule handed_ok [OF inv c, where ws = "co_workers s @ [WExec t]" and n = "workerNum s + 1"])
  show "worker_start t s = s\<lparr>co_workers := co_workers s @ [WExec t], workerNum := workerNum s + 1,
      co_started := co_started s @ [t]\<rparr>" by (simp add: worker_start_def)
  fix s'
  assume s': "after_execute a (worker_start t s) = Inr s'" "cinv s'"
    "s' = (worker_start t s)\<lparr>mapTaskQueueSession := mapTaskQueueSession s', co_pc := DChk\<rparr>"
  have "co_pc s' = DChk" by (subst s'(3)) simp
  moreover have "s' = s\<lparr>co_workers := co_workers s @ [WExec t], workerNum := workerNum s + 1, co_started := co_started s @ [t],
       mapTaskQueueSession := mapTaskQueueSession s', co_pc := DChk\<rparr>" by (subst s'(3)) (simp add: worker_start_def)
  ultimately show thesis using that [OF s'(1,2)] by blast
qed simp_all

text \<open>The state after each step of the dispatcher that runs one of these functions.\<close>

lemma event_result:
  assumes "cinv s" "queueIdChannel s = q # qs" "carried (co_pc s) = None"
  shows "\<exists>m p. or_crash s (processQueueEvent q (s\<lparr>queueIdChannel := qs\<rparr>)) =
      s\<lparr>queueIdChannel := qs, co_idle := False, mapTaskQueueSession := m, co_pc := p\<rparr> \<and>
      (p = DChk \<or> (\<exists>t. p = DExec t None))"
  by (rule queue_event_ok [OF assms]) (metis or_crash_def sum.case(2))

lemma task_result:
  assumes "cinv s" "co_tasks s = t # ts" "carried (co_pc s) = None"
  shows "\<exists>m p. or_crash s (processTask t (s\<lparr>co_tasks := ts\<rparr>)) =
      s\<lparr>co_tasks := ts, co_idle := False, mapTaskQueueSession := m, co_pc := p\<rparr> \<and> (p = DChk \<or> (\<exists>a. p = DExec t a))"
  by (rule take_task_ok [OF assms]) (metis or_crash_def sum.case(2))

lemma hand_result:
  assumes "cinv s" "carried (co_pc s) = Some (t, a)" "takes_idle s (Some j)"
  shows "\<exists>m. or_crash s (after_execute a (hand_to j t s)) =
      s\<lparr>co_workers := (co_workers s)[j := WExec t], co_started := co_started s @ [t], mapTaskQueueSession := m, co_pc := DChk\<rparr>"
  by (rule hand_to_ok [OF assms]) (metis or_crash_def sum.case(2))

lemma start_result:
  assumes "cinv s" "carried (co_pc s) = Some (t, a)"
  shows "\<exists>m. or_crash s (after_execute a (worker_start t s)) =
      s\<lparr>co_workers := co_workers s @ [WExec t], workerNum := workerNum s + 1, co_started := co_started s @ [t],
        mapTaskQueueSession := m, co_pc := DChk\<rparr>"
  by (rule worker_start_ok [OF assms]) (metis or_crash_def sum.case(2))

lemma timer_result:
  "processTimer j (s\<lparr>co_timer := False\<rparr>) =
    (if co_idle s \<and> minConcurrentNum s < workerNum s then processIdle j s else s)\<lparr>co_timer := False, co_idle := True\<rparr>"
  by (simp add: processTimer_def processIdle_def Let_def split: option.split)

lemma cinv_exit:
  assumes "cinv s" "takes_idle s j"
  shows "cinv (processIdle j s)"
proof (cases j)
  case (Some i)
  then have "cinv (s\<lparr>co_workers := (co_workers s)[i := WGone]\<rparr>)"
    using assms by (intro cinv_worker) (auto simp: takes_idle_def)
  from cinv_frame [OF this] Some show ?thesis by (simp add: processIdle_def)
qed (use assms in \<open>simp add: processIdle_def\<close>)

lemma cstep_cinv:
  assumes "cstep l s s'" "cinv s"
  shows "cinv s'"
  using assms
proof (induction rule: cstep.induct)
  case (submit qid f c s s') then show ?case using cinv_submit by blast
next
  case (close s) then show ?case by (auto intro: cinv_frame simp: dispatch_close_def)
next
  case (call s x xs) then show ?case by (auto intro: cinv_frame)
next
  case (top_event s q qs)
  then obtain s1 where "processQueueEvent q (s\<lparr>queueIdChannel := qs\<rparr>) = Inr s1" "cinv s1"
    using queue_event_ok [of s q qs] by auto
  then show ?case by (simp add: or_crash_def)
next
  case (sel_event s q qs)
  then obtain s1 where "processQueueEvent q (s\<lparr>queueIdChannel := qs\<rparr>) = Inr s1" "cinv s1"
    using queue_event_ok [of s q qs] by auto
  then show ?case by (simp add: or_crash_def)
next
  case (sel_task s t ts)
  then obtain s1 where "processTask t (s\<lparr>co_tasks := ts\<rparr>) = Inr s1" "cinv s1"
    using take_task_ok [of s t ts] by auto
  then show ?case by (simp add: or_crash_def)
next
  case (sel_timer s j)
  then have "cinv (processIdle j s)" by (simp add: cinv_exit)
  then have "cinv (processTimer j (s\<lparr>co_timer := False\<rparr>))"
    using sel_timer by (auto intro: cinv_frame simp: processTimer_def processIdle_def Let_def split: option.splits)
  then show ?case
    by (rule cinv_pc) (use sel_timer in \<open>auto simp: processTimer_def processIdle_def Let_def split: option.splits\<close>)
next
  case (sel_done s)
  then have "cinv (s\<lparr>co_timer := True\<rparr>)" by (auto intro: cinv_frame)
  then show ?case using cinv_pc [of "s\<lparr>co_timer := True\<rparr>" "DDrain 0"] sel_done by simp
next
  case (drain s i j)
  then have "cinv (processIdle j s)" by (simp add: cinv_exit)
  then show ?case by (rule cinv_pc) (use drain in \<open>auto simp: processIdle_def split: option.splits\<close>)
next
  case (exec_hand s t a j)
  then obtain s1 where "after_execute a (hand_to j t s) = Inr s1" "cinv s1" using hand_to_ok [of s t a j] by auto
  then show ?case by (simp add: or_crash_def)
next
  case (send_hand s t a j)
  then obtain s1 where "after_execute a (hand_to j t s) = Inr s1" "cinv s1" using hand_to_ok [of s t a j] by auto
  then show ?case by (simp add: or_crash_def)
next
  case (exec_start s t a)
  then obtain s1 where "after_execute a (worker_start t s) = Inr s1" "cinv s1" using worker_start_ok [of s t a] by auto
  then show ?case by (simp add: or_crash_def)
next
  case (wait_done s)
  then have "cinv (s\<lparr>cbChannel := cbChannel s @ [None]\<rparr>)" by (auto intro: cinv_frame)
  then show ?case using cinv_pc [of "s\<lparr>cbChannel := cbChannel s @ [None]\<rparr>" DDone] wait_done by simp
next
  case (work_fn j s t r)
  let ?s = "s\<lparr>co_workers := (co_workers s)[j := worker_exec r t], co_finished := co_finished s @ [t]\<rparr>"
  have "tokens ?s = tokens s"
    using sum_upd [OF work_fn(1,2), of "wtok i" "worker_exec r t" for i] by (auto simp: fun_eq_iff tokens_def)
  moreover have "waiting ?s = waiting s" "sessions_ok ?s = sessions_ok s"
    by (auto simp: waiting_def sessions_ok_def fun_eq_iff)
  moreover have "mset (concat (map running (co_workers ?s))) + {#t#} = mset (concat (map running (co_workers s)))"
    using running_upd [OF work_fn(1,2), of "worker_exec r t"] by simp
  ultimately show ?case using work_fn(3) by (simp add: cinv_def)
next
  case (work_cb j s c q s')
  then have "cinv s'" by (auto intro: cinv_frame simp: pushAsyncDoCallbackEvent_def split: if_splits)
  moreover have "co_workers s' = co_workers s" using work_cb by (auto simp: pushAsyncDoCallbackEvent_def split: if_splits)
  ultimately show ?case using cinv_worker [of s' j "WCb c q" "after_cb q"] work_cb by simp
next
  case (work_fin j s q)
  let ?s = "s\<lparr>queueIdChannel := queueIdChannel s @ [q], co_workers := (co_workers s)[j := WIdle]\<rparr>"
  have "tokens ?s i = tokens s i" for i using sum_upd [OF work_fin(1,2), of "wtok i" WIdle] by (auto simp: tokens_def)
  then have "tokens ?s = tokens s" by (rule ext)
  moreover have "waiting ?s = waiting s" "sessions_ok ?s = sessions_ok s"
    by (auto simp: waiting_def sessions_ok_def fun_eq_iff)
  moreover have "mset (concat (map running (co_workers ?s))) = mset (concat (map running (co_workers s)))"
    using running_upd [OF work_fin(1,2), of WIdle] by simp
  ultimately show ?case using work_fin(4) by (simp add: cinv_def)
qed (auto intro: cinv_pc)

lemma cinv_opened:
  assumes "OpenConcurrent mn mx (int k) zeroConcurrent = Inr s"
  shows "cinv s"
proof -
  have s: "s = (dispatch_open mn mx (zeroConcurrent\<lparr>co_open := 1, co_cap := k, co_tasks := [], cbChannel := []\<rparr>))"
    using assms by (simp add: OpenConcurrent_def zeroConcurrent_def)
  show ?thesis
    by (simp add: s cinv_def view_ok_def sessions_ok_def waiting_def tokens_def dispatch_open_def zeroConcurrent_def
        carried_ok_def busy_def unstarted_def)
qed

lemma creach_cinv: "creach mn mx k s \<Longrightarrow> cinv s"
  by (induction rule: creach.induct) (auto intro: cinv_opened cstep_cinv)

text \<open>A sum of at most one has at most one summand.\<close>

lemma sum_list_two:
  "i < length ws \<Longrightarrow> j < length ws \<Longrightarrow> i \<noteq> j \<Longrightarrow> f (ws ! i) + f (ws ! j) \<le> sum_list (map f ws)" for f :: "'a \<Rightarrow> nat"
proof (induction ws arbitrary: i j)
  case (Cons w ws)
  have one: "n < length ws \<Longrightarrow> f (ws ! n) \<le> sum_list (map f ws)" for n
    using member_le_sum_list [of "f (ws ! n)" "map f ws"] by simp
  show ?case using Cons.prems Cons.IH [of "i - 1" "j - 1"] one [of "i - 1"] one [of "j - 1"]
    by (cases i; cases j) (auto intro: le_add2 order_trans)
qed simp

lemma one_worker_per_queue:
  assumes "cinv s" "i < length (co_workers s)" "j < length (co_workers s)"
    "co_workers s ! i = WExec t" "co_workers s ! j = WExec u" "tk_queueId t = tk_queueId u" "tk_queueId t \<noteq> 0"
  shows "i = j"
proof (rule ccontr)
  assume "i \<noteq> j"
  have "tokens s (tk_queueId t) \<le> 1" by (simp add: cinvD(4) [OF assms(1)])
  with sum_list_two [OF assms(2,3) \<open>i \<noteq> j\<close>, of "wtok (tk_queueId t)"] assms(4-) show False
    by (simp add: tokens_def)
qed

text \<open>The head of a queue in use is the last task of the queue that was handed out.\<close>

lemma started_prefix:
  assumes "cinv s"
  shows "\<exists>rest. of_queue q (co_submitted s) = of_queue q (co_started s) @ rest"
  using cinvD(5) [OF assms, of q] by blast

section \<open>The number of workers\<close>

definition alive :: "wst list \<Rightarrow> nat" where
  "alive ws = length (filter (\<lambda>w. w \<noteq> WGone) ws)"

definition idles :: "wst list \<Rightarrow> nat" where
  "idles ws = length (filter (\<lambda>w. w = WIdle) ws)"

lemma alive_sum: "alive ws = sum_list (map (\<lambda>w. if w = WGone then 0 else 1) ws)"
  by (induction ws) (auto simp: alive_def)

lemma idles_sum: "idles ws = sum_list (map (\<lambda>w. if w = WIdle then 1 else 0) ws)"
  by (induction ws) (auto simp: idles_def)

lemma alive_upd: "j < length ws \<Longrightarrow> ws ! j \<noteq> WGone \<Longrightarrow> w' \<noteq> WGone \<Longrightarrow> alive (ws[j := w']) = alive ws"
  using sum_upd [of j ws "ws ! j" "\<lambda>w. if w = WGone then 0 else 1" w'] by (simp add: alive_sum)

lemma alive_gone: "j < length ws \<Longrightarrow> ws ! j \<noteq> WGone \<Longrightarrow> Suc (alive (ws[j := WGone])) = alive ws"
  using sum_upd [of j ws "ws ! j" "\<lambda>w. if w = WGone then 0 else 1" WGone] by (simp add: alive_sum)

lemma idles_upd: "j < length ws \<Longrightarrow>
    idles (ws[j := w']) + (if ws ! j = WIdle then 1 else 0) = idles ws + (if w' = WIdle then 1 else 0)"
  using sum_upd [of j ws "ws ! j" "\<lambda>w. if w = WIdle then 1 else 0" w'] by (simp add: idles_sum)

lemma alive_simps [simp]: "alive [] = 0" "alive (ws @ us) = alive ws + alive us" "alive [WExec t] = 1"
  "idles [] = 0" "idles (ws @ us) = idles ws + idles us" "idles [WExec t] = 0"
  by (simp_all add: alive_def idles_def)

lemma no_idle_idles: "no_idle s \<longleftrightarrow> idles (co_workers s) = 0"
  by (auto simp: no_idle_def idles_def filter_empty_conv)

lemma exec_not_gone [simp]: "worker_exec r t \<noteq> WGone" "after_cb q \<noteq> WGone"
  by (auto simp: worker_exec_def endCallFun_def after_cb_def split: outcome.split option.split)

text \<open>
  \<open>cnum\<close>: the counter counts the workers that have not been told to stop and stays within its limit. A
  dispatcher that waits for a worker has the full number of them. Until it takes its next step at the
  inner select, every report of a finished task leaves an idle worker behind, so the report channel
  never holds more reports than there are idle workers; a dispatcher on its way to a worker has made
  room for one more report before.
\<close>

definition cnum :: "int \<Rightarrow> nat \<Rightarrow> cstate \<Rightarrow> bool" where
  "cnum mx k s \<longleftrightarrow>
     maxConcurrentNum s = mx \<and> co_cap s = k \<and> workerNum s = int (alive (co_workers s)) \<and>
     workerNum s \<le> max 0 mx \<and> length (queueIdChannel s) \<le> k \<and> (\<forall>t a. co_pc s = DSend t a \<longrightarrow> mx \<le> workerNum s) \<and>
     (co_pc s = DSel \<longrightarrow> length (queueIdChannel s) \<le> idles (co_workers s)) \<and>
     (carried (co_pc s) \<noteq> None \<longrightarrow> length (queueIdChannel s) < k + idles (co_workers s))"

lemma cnum_exit:
  assumes "cnum mx k s" "takes_idle s j"
  shows "workerNum (processIdle j s) = int (alive (co_workers (processIdle j s)))"
    "workerNum (processIdle j s) \<le> workerNum s" "maxConcurrentNum (processIdle j s) = mx" "co_cap (processIdle j s) = k"
    "queueIdChannel (processIdle j s) = queueIdChannel s"
  using assms alive_gone [of "the j" "co_workers s"]
  by (auto simp: cnum_def processIdle_def takes_idle_def split: option.splits)

lemma cnum_frame:
  assumes "cnum mx k s" "maxConcurrentNum s' = maxConcurrentNum s" "co_cap s' = co_cap s" "workerNum s' = workerNum s"
    "co_workers s' = co_workers s" "queueIdChannel s' = queueIdChannel s" "co_pc s' = co_pc s"
  shows "cnum mx k s'"
  using assms(1) unfolding cnum_def assms(2-) .

lemma cnum_worker:
  assumes "cnum mx k s" "j < length (co_workers s)" "co_workers s ! j \<noteq> WGone" "co_workers s ! j \<noteq> WIdle" "w \<noteq> WGone"
  shows "cnum mx k (s\<lparr>co_workers := (co_workers s)[j := w]\<rparr>)"
  using assms alive_upd [OF assms(2,3,5)] idles_upd [OF assms(2), of w]
  by (auto simp: cnum_def split: if_splits)

lemma cstep_cnum:
  assumes "cstep l s s'" "cinv s" "cnum mx k s" "0 < k"
  shows "cnum mx k s'"
  using assms
proof (induction rule: cstep.induct)
  case (submit qid f c s s')
  from submit(1) show ?case by (cases rule: submit_result) (use submit in \<open>auto simp: cnum_def\<close>)
next
  case (top_event s q qs)
  then obtain m p where "or_crash s (processQueueEvent q (s\<lparr>queueIdChannel := qs\<rparr>)) =
      s\<lparr>queueIdChannel := qs, co_idle := False, mapTaskQueueSession := m, co_pc := p\<rparr>" "p = DChk \<or> (\<exists>t. p = DExec t None)"
    using event_result [of s q qs] by auto
  with top_event show ?case by (auto simp: cnum_def)
next
  case (sel_event s q qs)
  then obtain m p where "or_crash s (processQueueEvent q (s\<lparr>queueIdChannel := qs\<rparr>)) =
      s\<lparr>queueIdChannel := qs, co_idle := False, mapTaskQueueSession := m, co_pc := p\<rparr>" "p = DChk \<or> (\<exists>t. p = DExec t None)"
    using event_result [of s q qs] by auto
  with sel_event show ?case by (auto simp: cnum_def)
next
  case (sel_task s t ts)
  then obtain m p where "or_crash s (processTask t (s\<lparr>co_tasks := ts\<rparr>)) =
      s\<lparr>co_tasks := ts, co_idle := False, mapTaskQueueSession := m, co_pc := p\<rparr>" "p = DChk \<or> (\<exists>a. p = DExec t a)"
    using task_result [of s t ts] by auto
  with sel_task show ?case by (auto simp: cnum_def)
next
  case (sel_timer s j)
  then have "workerNum (processIdle j s) \<le> max 0 mx" using cnum_exit(2) [of mx k s j] by (auto simp: cnum_def)
  with sel_timer cnum_exit [of mx k s j] show ?case by (simp add: timer_result cnum_def)
next
  case (drain s i j)
  then have "workerNum (processIdle j s) \<le> max 0 mx" using cnum_exit(2) [of mx k s j] by (auto simp: cnum_def)
  with drain cnum_exit [of mx k s j] show ?case by (auto simp: cnum_def)
next
  case (exec_hand s t a j)
  then obtain m where "or_crash s (after_execute a (hand_to j t s)) =
      s\<lparr>co_workers := (co_workers s)[j := WExec t], co_started := co_started s @ [t], mapTaskQueueSession := m, co_pc := DChk\<rparr>"
    using hand_result [of s t a j] by auto
  with exec_hand show ?case by (auto simp: cnum_def takes_idle_def alive_upd)
next
  case (send_hand s t a j)
  then obtain m where "or_crash s (after_execute a (hand_to j t s)) =
      s\<lparr>co_workers := (co_workers s)[j := WExec t], co_started := co_started s @ [t], mapTaskQueueSession := m, co_pc := DChk\<rparr>"
    using hand_result [of s t a j] by auto
  with send_hand show ?case by (auto simp: cnum_def takes_idle_def alive_upd)
next
  case (exec_start s t a)
  then obtain m where "or_crash s (after_execute a (worker_start t s)) =
      s\<lparr>co_workers := co_workers s @ [WExec t], workerNum := workerNum s + 1, co_started := co_started s @ [t],
        mapTaskQueueSession := m, co_pc := DChk\<rparr>"
    using start_result [of s t a] by auto
  with exec_start show ?case by (auto simp: cnum_def)
next
  case (work_fn j s t r)
  then have "cnum mx k (s\<lparr>co_workers := (co_workers s)[j := worker_exec r t]\<rparr>)" by (intro cnum_worker) auto
  then show ?case by (rule cnum_frame) simp_all
next
  case (work_cb j s c q s')
  have s': "s' = s\<lparr>cbChannel := cbChannel s @ [Some c]\<rparr>"
    using work_cb(3) by (simp add: pushAsyncDoCallbackEvent_def split: if_splits)
  have "cnum mx k (s\<lparr>co_workers := (co_workers s)[j := after_cb q]\<rparr>)"
    by (rule cnum_worker) (use work_cb in simp_all)
  then show ?case by (rule cnum_frame) (simp_all add: s')
next
  case (work_fin j s q)
  then show ?case using alive_upd [of j "co_workers s" WIdle] idles_upd [of j "co_workers s" WIdle]
    by (auto simp: cnum_def)
qed (auto simp: cnum_def dispatch_close_def)

lemma creach_cnum:
  assumes "creach mn mx k s" "0 < k"
  shows "cnum mx k s"
  using assms
proof (induction rule: creach.induct)
  case (opened s)
  then show ?case by (auto simp: OpenConcurrent_def zeroConcurrent_def dispatch_open_def cnum_def Let_def)
next
  case (step s l s')
  then show ?case using cstep_cnum creach_cinv by blast
qed

section \<open>Nothing gets stuck\<close>

text \<open>
  An internal step is one of the dispatcher, of a worker, or of the service that reads the callbacks.
  \<open>all_done\<close>: nothing is left anywhere and every task that was put into the channel has run.
\<close>

definition internal :: "cstate \<Rightarrow> cstate \<Rightarrow> bool" where
  "internal s s' \<longleftrightarrow> cstep LDisp s s' \<or> cstep LWork s s' \<or> cstep LCall s s'"

definition all_done :: "cstate \<Rightarrow> bool" where
  "all_done s \<longleftrightarrow> co_tasks s = [] \<and> cbChannel s = [] \<and> queueIdChannel s = [] \<and>
     set (co_workers s) \<subseteq> {WIdle, WGone} \<and> (\<forall>q. waiting s q = []) \<and> mset (co_finished s) = mset (co_submitted s)"

lemma of_queue_mset: "(\<And>q. of_queue q xs = of_queue q ys) \<Longrightarrow> mset xs = mset ys"
proof (rule multiset_eqI)
  fix t assume a: "\<And>q. of_queue q xs = of_queue q ys"
  have "count (mset zs) t = count (mset (of_queue (tk_queueId t) zs)) t" for zs by (induction zs) auto
  then show "count (mset xs) t = count (mset ys) t" using a by metis
qed

lemma worker_moves:
  assumes "w \<in> set (co_workers s)" "w \<noteq> WIdle" "w \<noteq> WGone"
    "length (queueIdChannel s) < co_cap s" "length (cbChannel s) < co_cap s"
  shows "\<exists>s'. internal s s'"
proof -
  obtain j where j: "j < length (co_workers s)" "co_workers s ! j = w" using assms(1) by (metis in_set_conv_nth)
  show ?thesis
  proof (cases w)
    case (WExec t) then show ?thesis using work_fn [of j s t "Returns True"] j by (auto simp: internal_def)
  next
    case (WCb c q)
    then show ?thesis using work_cb [of j s c q] j assms(5)
      by (auto simp: internal_def pushAsyncDoCallbackEvent_def)
  next
    case (WFin q) then show ?thesis using work_fin [of j s q] j assms(4) by (auto simp: internal_def)
  qed (use assms in auto)
qed

lemma stuck_done:
  assumes inv: "cinv s" and num: "cnum mx k s" and k: "0 < k" and mx: "0 < mx"
    and on: "co_pc s \<noteq> DOff" "co_pc s \<noteq> DWait" "co_pc s \<noteq> DDone"
    and stuck: "\<nexists>s'. internal s s'"
  shows "all_done s"
proof -
  have cap: "co_cap s = k" using num by (simp add: cnum_def)
  have cb: "cbChannel s = []" using stuck call [of s] by (cases "cbChannel s") (auto simp: internal_def)
  have disp: "\<nexists>s'. cstep LDisp s s'" using stuck by (auto simp: internal_def)
  have idle_iff: "(\<exists>j. takes_idle s (Some j)) \<longleftrightarrow> \<not> no_idle s"
    by (auto simp: takes_idle_def no_idle_def in_set_conv_nth)
  have "takes_idle s None" by (simp add: takes_idle_def)
  then have "\<exists>j. takes_idle s j" by blast
  then have sel: "co_pc s = DSel \<or> (\<exists>t a. co_pc s = DSend t a \<and> no_idle s)"
    using disp cinvD(2) [OF inv] on idle_iff
    by (cases "co_pc s"; cases "queueIdChannel s") (blast intro: cstep.intros)+
  have ev: "queueIdChannel s = []" if "co_pc s = DSel"
    using that disp sel_event by (cases "queueIdChannel s") auto
  have room: "length (queueIdChannel s) < k"
  proof (cases "co_pc s = DSel")
    case False
    with sel num show ?thesis by (auto simp: cnum_def no_idle_idles)
  qed (use ev k in simp)
  then have quiet: "set (co_workers s) \<subseteq> {WIdle, WGone}"
    using worker_moves [of _ s] stuck cap cb k by fastforce
  have "co_pc s = DSel"
  proof (rule ccontr)
    assume "co_pc s \<noteq> DSel"
    with sel obtain t a where t: "co_pc s = DSend t a" "no_idle s" by auto
    with num mx have "0 < alive (co_workers s)" by (auto simp: cnum_def)
    then obtain w where "w \<in> set (co_workers s)" "w \<noteq> WGone" by (auto simp: alive_def filter_empty_conv)
    with quiet t(2) show False by (auto simp: no_idle_def)
  qed
  note ev = ev [OF this]
  have ts: "co_tasks s = []" using \<open>co_pc s = DSel\<close> disp sel_task by (cases "co_tasks s") auto
  have "wtok q w = 0" if "w \<in> set (co_workers s)" for q w using that quiet by auto
  then have "map (wtok q) (co_workers s) = map (\<lambda>_. 0) (co_workers s)" for q by simp
  then have "tokens s q = 0" for q using ev \<open>co_pc s = DSel\<close> by (simp add: tokens_def del: map_eq_conv)
  then have w: "waiting s q = []" for q
    using cinvD(4) [OF inv, of q] waiting_0 [OF cinvD(1) [OF inv]] by (cases "q = 0") (auto simp: busy_def split: if_splits)
  have "of_queue q (co_submitted s) = of_queue q (co_started s)" for q
    using cinvD(5) [OF inv, of q] ts w \<open>co_pc s = DSel\<close> by (simp add: unstarted_def)
  then have "mset (co_submitted s) = mset (co_started s)" by (rule of_queue_mset)
  moreover have "concat (map running (co_workers s)) = []" using quiet by auto
  then have "mset (co_started s) = mset (co_finished s)" using cinvD(7) [OF inv] by simp
  ultimately show ?thesis using ts cb ev quiet w by (simp add: all_done_def)
qed

text \<open>While the pool is not being closed the dispatcher is at work.\<close>

definition copen :: "int \<Rightarrow> cstate \<Rightarrow> bool" where
  "copen mn s \<longleftrightarrow> (\<not> co_cancelled s \<longrightarrow> minConcurrentNum s = mn \<and>
     (co_pc s \<in> {DTop, DSel, DChk, DCrash} \<or> carried (co_pc s) \<noteq> None))"

lemma cstep_copen:
  assumes "cstep l s s'" "cinv s" "copen mn s" "mn \<noteq> -1"
  shows "copen mn s'"
  using assms
proof (induction rule: cstep.induct)
  case (submit qid f c s s')
  from submit(1) show ?case by (cases rule: submit_result) (use submit in \<open>auto simp: copen_def\<close>)
next
  case (top_event s q qs)
  then obtain m p where "or_crash s (processQueueEvent q (s\<lparr>queueIdChannel := qs\<rparr>)) =
      s\<lparr>queueIdChannel := qs, co_idle := False, mapTaskQueueSession := m, co_pc := p\<rparr>" "p = DChk \<or> (\<exists>t. p = DExec t None)"
    using event_result [of s q qs] by auto
  with top_event show ?case by (auto simp: copen_def)
next
  case (sel_event s q qs)
  then obtain m p where "or_crash s (processQueueEvent q (s\<lparr>queueIdChannel := qs\<rparr>)) =
      s\<lparr>queueIdChannel := qs, co_idle := False, mapTaskQueueSession := m, co_pc := p\<rparr>" "p = DChk \<or> (\<exists>t. p = DExec t None)"
    using event_result [of s q qs] by auto
  with sel_event show ?case by (auto simp: copen_def)
next
  case (sel_task s t ts)
  then obtain m p where "or_crash s (processTask t (s\<lparr>co_tasks := ts\<rparr>)) =
      s\<lparr>co_tasks := ts, co_idle := False, mapTaskQueueSession := m, co_pc := p\<rparr>" "p = DChk \<or> (\<exists>a. p = DExec t a)"
    using task_result [of s t ts] by auto
  with sel_task show ?case by (auto simp: copen_def)
next
  case (sel_timer s j)
  then show ?case by (auto simp: copen_def processTimer_def processIdle_def Let_def split: option.splits)
next
  case (exec_hand s t a j)
  then obtain m where "or_crash s (after_execute a (hand_to j t s)) =
      s\<lparr>co_workers := (co_workers s)[j := WExec t], co_started := co_started s @ [t], mapTaskQueueSession := m, co_pc := DChk\<rparr>"
    using hand_result [of s t a j] by auto
  with exec_hand show ?case by (auto simp: copen_def)
next
  case (send_hand s t a j)
  then obtain m where "or_crash s (after_execute a (hand_to j t s)) =
      s\<lparr>co_workers := (co_workers s)[j := WExec t], co_started := co_started s @ [t], mapTaskQueueSession := m, co_pc := DChk\<rparr>"
    using hand_result [of s t a j] by auto
  with send_hand show ?case by (auto simp: copen_def)
next
  case (exec_start s t a)
  then obtain m where "or_crash s (after_execute a (worker_start t s)) =
      s\<lparr>co_workers := co_workers s @ [WExec t], workerNum := workerNum s + 1, co_started := co_started s @ [t],
        mapTaskQueueSession := m, co_pc := DChk\<rparr>"
    using start_result [of s t a] by auto
  with exec_start show ?case by (auto simp: copen_def)
qed (auto simp: copen_def dispatch_close_def processIdle_def pushAsyncDoCallbackEvent_def split: option.splits if_splits)

lemma creach_copen:
  assumes "creach mn mx k s" "mn \<noteq> -1"
  shows "copen mn s"
  using assms
proof (induction rule: creach.induct)
  case (opened s)
  then show ?case by (auto simp: OpenConcurrent_def zeroConcurrent_def dispatch_open_def copen_def Let_def)
next
  case (step s l s')
  then show ?case using cstep_copen creach_cinv by blast
qed

text \<open>Every internal step uses up some of the work that is left.\<close>

definition work_left :: "wst \<Rightarrow> nat" where
  "work_left w = (case w of WExec _ \<Rightarrow> 10 | WCb _ _ \<Rightarrow> 9 | WFin _ \<Rightarrow> 7 | _ \<Rightarrow> 0)"

definition pc_left :: "dpc \<Rightarrow> nat" where
  "pc_left p = (case p of DExec _ _ \<Rightarrow> 4 | DSend _ _ \<Rightarrow> 3 | DChk \<Rightarrow> 2 | DTop \<Rightarrow> 1 | _ \<Rightarrow> 0)"

definition cmeas :: "cstate \<Rightarrow> nat" where
  "cmeas s = 20 * (length (co_submitted s) - length (co_started s)) + 5 * length (co_tasks s) +
     6 * length (queueIdChannel s) + length (cbChannel s) + sum_list (map work_left (co_workers s)) +
     pc_left (co_pc s)"

lemma work_left_simps [simp]:
  "work_left (WExec t) = 10" "work_left (WCb c q) = 9" "work_left (WFin q) = 7" "work_left WIdle = 0"
  by (simp_all add: work_left_def)

lemma work_left_le: "work_left (after_cb q) \<le> 7" "work_left (worker_exec r t) \<le> 9"
  by (auto simp: work_left_def after_cb_def worker_exec_def endCallFun_def split: outcome.split option.split)

lemma carried_unstarted:
  assumes "cinv s" "carried (co_pc s) = Some (t, a)"
  shows "length (co_started s) < length (co_submitted s)"
proof -
  have cnt: "count (mset zs) u = count (mset (of_queue (tk_queueId u) zs)) u" for u zs by (induction zs) auto
  note order = cinvD(5) [OF assms(1)]
  have "count (mset (co_started s)) u \<le> count (mset (co_submitted s)) u" for u
    by (subst (1 2) cnt) (simp add: order)
  moreover have "t \<in> set (unstarted (co_pc s) (waiting s) (tk_queueId t))"
    using cinvD(3) [OF assms(1)] assms(2) by (auto simp: unstarted_def carried_ok_def)
  then have "count (mset (co_started s)) t < count (mset (co_submitted s)) t"
    by (subst (1 2) cnt) (simp add: order count_greater_zero_iff)
  ultimately have "mset (co_started s) \<subset># mset (co_submitted s)"
    by (metis mset_subset_eqI subset_mset.le_neq_trans less_irrefl)
  then show ?thesis using mset_subset_size [of "mset (co_started s)" "mset (co_submitted s)"] by simp
qed

lemma sum_left:
  "j < length ws \<Longrightarrow> ws ! j = w \<Longrightarrow> sum_list (map work_left (ws[j := w'])) + work_left w = sum_list (map work_left ws) + work_left w'"
  by (rule sum_upd)

lemma internal_less:
  assumes "internal s s'" "cinv s" "\<not> co_cancelled s" "copen mn s" "mn \<noteq> -1"
  shows "cmeas s' < cmeas s"
proof -
  obtain l where "cstep l s s'" "l \<in> {LDisp, LWork, LCall}" using assms(1) by (auto simp: internal_def)
  then show ?thesis using assms(2-)
  proof (induction rule: cstep.induct)
    case (top_event s q qs)
    then obtain m p where "or_crash s (processQueueEvent q (s\<lparr>queueIdChannel := qs\<rparr>)) =
        s\<lparr>queueIdChannel := qs, co_idle := False, mapTaskQueueSession := m, co_pc := p\<rparr>" "p = DChk \<or> (\<exists>t. p = DExec t None)"
      using event_result [of s q qs] by auto
    with top_event show ?case by (auto simp: cmeas_def pc_left_def)
  next
    case (sel_event s q qs)
    then obtain m p where "or_crash s (processQueueEvent q (s\<lparr>queueIdChannel := qs\<rparr>)) =
        s\<lparr>queueIdChannel := qs, co_idle := False, mapTaskQueueSession := m, co_pc := p\<rparr>" "p = DChk \<or> (\<exists>t. p = DExec t None)"
      using event_result [of s q qs] by auto
    with sel_event show ?case by (auto simp: cmeas_def pc_left_def)
  next
    case (sel_task s t ts)
    then obtain m p where "or_crash s (processTask t (s\<lparr>co_tasks := ts\<rparr>)) =
        s\<lparr>co_tasks := ts, co_idle := False, mapTaskQueueSession := m, co_pc := p\<rparr>" "p = DChk \<or> (\<exists>a. p = DExec t a)"
      using task_result [of s t ts] by auto
    with sel_task show ?case by (auto simp: cmeas_def pc_left_def)
  next
    case (exec_hand s t a j)
    then obtain m where "or_crash s (after_execute a (hand_to j t s)) =
        s\<lparr>co_workers := (co_workers s)[j := WExec t], co_started := co_started s @ [t], mapTaskQueueSession := m, co_pc := DChk\<rparr>"
      using hand_result [of s t a j] by auto
    with exec_hand carried_unstarted [of s t a] sum_left [of j "co_workers s" WIdle "WExec t"] show ?case by (auto simp: cmeas_def pc_left_def takes_idle_def)
  next
    case (send_hand s t a j)
    then obtain m where "or_crash s (after_execute a (hand_to j t s)) =
        s\<lparr>co_workers := (co_workers s)[j := WExec t], co_started := co_started s @ [t], mapTaskQueueSession := m, co_pc := DChk\<rparr>"
      using hand_result [of s t a j] by auto
    with send_hand carried_unstarted [of s t a] sum_left [of j "co_workers s" WIdle "WExec t"] show ?case by (auto simp: cmeas_def pc_left_def takes_idle_def)
  next
    case (exec_start s t a)
    then obtain m where "or_crash s (after_execute a (worker_start t s)) =
        s\<lparr>co_workers := co_workers s @ [WExec t], workerNum := workerNum s + 1, co_started := co_started s @ [t],
          mapTaskQueueSession := m, co_pc := DChk\<rparr>"
      using start_result [of s t a] by auto
    with exec_start carried_unstarted [of s t a] show ?case by (auto simp: cmeas_def pc_left_def)
  next
    case (work_fn j s t r)
    then show ?case using sum_left [of j "co_workers s" "WExec t" "worker_exec r t"] work_left_le(2) [of r t]
      by (auto simp: cmeas_def)
  next
    case (work_cb j s c q s')
    then show ?case using sum_left [of j "co_workers s" "WCb c q" "after_cb q"] work_left_le(1) [of q]
      by (auto simp: cmeas_def pushAsyncDoCallbackEvent_def split: if_splits)
  next
    case (work_fin j s q)
    then show ?case using sum_left [of j "co_workers s" "WFin q" WIdle] by (auto simp: cmeas_def)
  qed (auto simp: cmeas_def pc_left_def copen_def)
qed

lemma internal_step: "internal s s' \<Longrightarrow> creach mn mx k s \<Longrightarrow> creach mn mx k s'"
  by (auto simp: internal_def intro: creach.step)

lemma internal_not_cancelled: "internal s s' \<Longrightarrow> cinv s \<Longrightarrow> \<not> co_cancelled s \<Longrightarrow> \<not> co_cancelled s'"
proof -
  assume a: "internal s s'" "cinv s" "\<not> co_cancelled s"
  obtain l where "cstep l s s'" "l \<in> {LDisp, LWork, LCall}" using a(1) by (auto simp: internal_def)
  then show "\<not> co_cancelled s'" using a(2,3)
  proof (induction rule: cstep.induct)
    case (top_event s q qs) then show ?case using event_result [of s q qs] by auto
  next
    case (sel_event s q qs) then show ?case using event_result [of s q qs] by auto
  next
    case (sel_task s t ts) then show ?case using task_result [of s t ts] by auto
  next
    case (exec_hand s t a j) then show ?case using hand_result [of s t a j] by auto
  next
    case (send_hand s t a j) then show ?case using hand_result [of s t a j] by auto
  next
    case (exec_start s t a) then show ?case using start_result [of s t a] by auto
  qed (auto simp: pushAsyncDoCallbackEvent_def processIdle_def split: if_splits option.splits)
qed

lemma internal_run_ends:
  assumes "creach mn mx k s" "\<not> co_cancelled s" "mn \<noteq> -1"
  shows "\<not> (\<exists>f. f 0 = s \<and> (\<forall>i. internal (f i) (f (Suc i))))"
proof
  assume "\<exists>f. f 0 = s \<and> (\<forall>i. internal (f i) (f (Suc i)))"
  then obtain f where f: "f 0 = s" "\<And>i. internal (f i) (f (Suc i))" by blast
  have r: "creach mn mx k (f i) \<and> \<not> co_cancelled (f i)" for i
  proof (induction i)
    case (Suc i)
    then show ?case using f(2) [of i] internal_step internal_not_cancelled creach_cinv by metis
  qed (use assms f(1) in simp)
  have "cmeas (f (Suc i)) < cmeas (f i)" for i
    using internal_less [OF f(2) creach_cinv] r creach_copen assms(3) by metis
  then show False using wf_no_infinite_down_chainE [OF wf_measure [of cmeas], of f] by auto
qed

lemma stuck_all_done:
  assumes "creach mn mx k s" "\<not> co_cancelled s" "mn \<noteq> -1" "0 < mx" "0 < k" "\<nexists>s'. internal s s'"
  shows "all_done s"
proof -
  have "copen mn s" "cinv s" "cnum mx k s" using assms creach_copen creach_cinv creach_cnum by auto
  then show ?thesis
    using stuck_done [of s mx k] assms by (fastforce simp: copen_def)
qed

text \<open>Before the pool is closed no worker is ever told to stop: the timer of the dispatcher fires once,
  and that one time only notes that the dispatcher was idle.\<close>

definition timer_used :: "cstate \<Rightarrow> bool" where
  "timer_used s \<longleftrightarrow> \<not> co_cancelled s \<longrightarrow> \<not> (co_timer s \<and> co_idle s) \<and> co_pc s \<notin> range DDrain"

lemma cstep_timer:
  assumes "cstep l s s'" "cinv s" "timer_used s" "\<not> co_cancelled s'"
  shows "timer_used s' \<and> workerNum s \<le> workerNum s'"
  using assms
proof (induction rule: cstep.induct)
  case (submit qid f c s s')
  from submit(1) show ?case by (cases rule: submit_result) (use submit in \<open>auto simp: timer_used_def\<close>)
next
  case (top_event s q qs) then show ?case using event_result [of s q qs] by (auto simp: timer_used_def)
next
  case (sel_event s q qs) then show ?case using event_result [of s q qs] by (auto simp: timer_used_def)
next
  case (sel_task s t ts) then show ?case using task_result [of s t ts] by (auto simp: timer_used_def)
next
  case (exec_hand s t a j) then show ?case using hand_result [of s t a j] by (auto simp: timer_used_def)
next
  case (send_hand s t a j) then show ?case using hand_result [of s t a j] by (auto simp: timer_used_def)
next
  case (exec_start s t a) then show ?case using start_result [of s t a] by (auto simp: timer_used_def)
next
  case (sel_timer s j)
  then show ?case by (auto simp: timer_used_def timer_result processIdle_def split: if_splits option.splits)
next
  case (drain s i j)
  then show ?case by (auto simp: timer_used_def processIdle_def split: option.splits)
qed (auto simp: timer_used_def pushAsyncDoCallbackEvent_def dispatch_close_def split: if_splits)

lemma creach_timer:
  assumes "creach mn mx k s"
  shows "timer_used s"
  using assms
proof (induction rule: creach.induct)
  case (opened s)
  then show ?case by (auto simp: OpenConcurrent_def zeroConcurrent_def dispatch_open_def timer_used_def Let_def)
next
  case (step s l s')
  then show ?case using cstep_timer [of l s s'] creach_cinv by (cases "co_cancelled s'") (auto simp: timer_used_def)
qed

section \<open>Queue numbers\<close>

lemma queue_of_pos: "0 < qid \<Longrightarrow> 1 \<le> queue_of qid \<and> queue_of qid \<le> 10000"
  by (simp add: queue_of_def maxTaskQueueSessionId_def go_rem_def)

end
