(* ===== verification/Module.thy ===== *)
theory Module
  imports Event Timer "HOL-Library.Product_Lexorder"
begin

text \<open>
  \<^verbatim>\<open>service/module.go\<close> and the module part of \<^verbatim>\<open>service/service.go\<close>: the tree of modules of a service.
  Modules are objects with an address; a module and the \<^verbatim>\<open>Module\<close> it embeds have the same one. The
  root (the service) keeps a table of all its descendants by id. A module has an event handler in the
  event system, and keeps the timers it has started. The whole state is one \<open>TimerSys\<close> whose user part
  holds the modules and the event system. The hooks \<^verbatim>\<open>OnInit\<close> and \<^verbatim>\<open>OnRelease\<close> are code of the
  application: they are arguments. Since \<^verbatim>\<open>Release\<close> recovers from a panic, a panic on the way there carries the state
  it leaves behind (\<open>Inl (e, w)\<close>). \<open>walk\<close> is the order in which \<^verbatim>\<open>Destroy\<close> walks a map; a new event
  handler gets an address that is an argument. \<^verbatim>\<open>moduleName\<close>, which is only logged, is left out.
\<close>

section \<open>State\<close>

record Module =
  md_moduleId :: "32 word"
  md_parent :: "nat option"
  md_self :: "nat option"
  md_child :: "nat list"
  mapActiveTimer :: "nat set option"
  mapActiveIdTimer :: "(64 word \<rightharpoonup> nat) option"
  md_dispatcher :: "nat option"
  md_ancestor :: "nat option"
  seedModuleId :: "32 word"
  descendants :: "(32 word \<rightharpoonup> nat) option"
  md_eventHandler :: "nat option"
  md_rpcHandler :: "nat option"
  md_concurrent :: "nat option"

record ('c, 'd, 'u) ModWorld =
  mods :: "nat \<Rightarrow> Module"
  mod_ev :: "('c, 'd) EventSys"
  timerSeedId :: "32 word"
  mod_user :: 'u

type_synonym ('c, 'd, 'u) msys = "('c, 'd, 'u) ModWorld TimerSys"

definition md :: "('c, 'd, 'u) msys \<Rightarrow> nat \<Rightarrow> Module" where
  "md w a = mods (t_user w) a"

definition set_mods :: "(nat \<Rightarrow> Module) \<Rightarrow> ('c, 'd, 'u) msys \<Rightarrow> ('c, 'd, 'u) msys" where
  "set_mods ms w = w\<lparr>t_user := (t_user w)\<lparr>mods := ms\<rparr>\<rparr>"

definition upd_mod :: "nat \<Rightarrow> (Module \<Rightarrow> Module) \<Rightarrow> ('c, 'd, 'u) msys \<Rightarrow> ('c, 'd, 'u) msys" where
  "upd_mod a f w = set_mods ((mods (t_user w))(a := f (md w a))) w"

definition mev :: "('c, 'd, 'u) msys \<Rightarrow> ('c, 'd) EventSys" where
  "mev w = mod_ev (t_user w)"

definition set_mev :: "('c, 'd) EventSys \<Rightarrow> ('c, 'd, 'u) msys \<Rightarrow> ('c, 'd, 'u) msys" where
  "set_mev e w = w\<lparr>t_user := (t_user w)\<lparr>mod_ev := e\<rparr>\<rparr>"

lemma mod_sel [simp]:
  "md (upd_mod a f w) = (md w)(a := f (md w a))" "mev (upd_mod a f w) = mev w"
  "md (set_mods ms w) = ms" "mev (set_mods ms w) = mev w"
  "md (set_mev e w) = md w" "mev (set_mev e w) = e"
  "t_store (upd_mod a f w) = t_store w" "t_store (set_mev e w) = t_store w" "t_store (set_mods ms w) = t_store w"
  by (auto simp: md_def mev_def upd_mod_def set_mods_def set_mev_def fun_eq_iff)

section \<open>Ids\<close>

definition SetModuleId :: "nat \<Rightarrow> 32 word \<Rightarrow> ('c, 'd, 'u) msys \<Rightarrow> bool \<times> ('c, 'd, 'u) msys" where
  "SetModuleId m moduleId w =
     (if md_moduleId (md w m) > 0 then (False, w)
      else (True, upd_mod m (\<lambda>x. x\<lparr>md_moduleId := moduleId\<rparr>) w))"

definition GetModuleId :: "('c, 'd, 'u) msys \<Rightarrow> nat \<Rightarrow> 32 word" where
  "GetModuleId w m = md_moduleId (md w m)"

definition NewModuleId :: "nat \<Rightarrow> ('c, 'd, 'u) msys \<Rightarrow> (32 word \<times> ('c, 'd, 'u) msys) go" where
  "NewModuleId m w =
     (case md_ancestor (md w m) of
        None \<Rightarrow> Inl NilDereference
      | Some r \<Rightarrow>
          let w1 = upd_mod r (\<lambda>x. x\<lparr>seedModuleId := seedModuleId x + 1\<rparr>) w
          in Inr (seedModuleId (md w1 r), w1))"

definition GetModule :: "('c, 'd, 'u) msys \<Rightarrow> nat \<Rightarrow> 32 word \<Rightarrow> nat option go" where
  "GetModule w m moduleId =
     (case md_ancestor (md w m) of
        None \<Rightarrow> Inl NilDereference
      | Some r \<Rightarrow> Inr (rd (descendants (md w r)) moduleId))"

definition Module_GetEventProcessor :: "('c, 'd, 'u) msys \<Rightarrow> nat \<Rightarrow> nat option go" where
  "Module_GetEventProcessor w m =
     (case md_eventHandler (md w m) of
        None \<Rightarrow> Inl NilDereference
      | Some h \<Rightarrow> Inr (GetEventProcessor (mev w) h))"

section \<open>Adding a module\<close>

text \<open>The last step of \<^verbatim>\<open>AddModule\<close> when \<^verbatim>\<open>OnInit\<close> fails.\<close>

definition undo_add :: "nat \<Rightarrow> nat \<Rightarrow> ('c, 'd, 'u) msys \<Rightarrow> ('c, 'd, 'u) msys go" where
  "undo_add m module w =
     (case md_ancestor (md w m) of
        None \<Rightarrow> Inl NilDereference
      | Some r \<Rightarrow>
          let i = GetModuleId w module;
              w1 = upd_mod r (\<lambda>x. x\<lparr>descendants := map_option (\<lambda>D. D(i := None)) (descendants x)\<rparr>) w
          in if md_child (md w1 m) = [] then Inl SliceOutOfRange
             else Inr (upd_mod m (\<lambda>x. x\<lparr>md_child := butlast (md_child x)\<rparr>) w1))"

text \<open>The result is the id, or \<open>None\<close> when an error is returned; \<open>h\<close> is the address of the new handler.\<close>

definition AddModule :: "(nat \<Rightarrow> ('c, 'd, 'u) msys \<Rightarrow> (bool \<times> ('c, 'd, 'u) msys) go) \<Rightarrow> nat \<Rightarrow> nat \<Rightarrow> nat \<Rightarrow>
    ('c, 'd, 'u) msys \<Rightarrow> (32 word option \<times> ('c, 'd, 'u) msys) go" where
  "AddModule onInit h m module w =
     rbind (Module_GetEventProcessor w m) (\<lambda>ep.
     case ep of
       None \<Rightarrow> Inr (None, w)
     | Some p \<Rightarrow>
         rbind (if GetModuleId w module = 0
                then rbind (NewModuleId m w) (\<lambda>(i, w1). Inr (upd_mod module (\<lambda>x. x\<lparr>md_moduleId := i\<rparr>) w1))
                else Inr w) (\<lambda>w1.
         rbind (GetModule w1 m (GetModuleId w1 module)) (\<lambda>old.
         if old \<noteq> None then Inr (None, w1)
         else
           let r = the (md_ancestor (md w1 m));
               w2 = upd_mod module (\<lambda>x. x\<lparr>md_rpcHandler := md_rpcHandler (md w1 m), md_self := Some module,
                      md_parent := md_self (md w1 m), md_dispatcher := md_dispatcher (md w1 r),
                      md_ancestor := md_ancestor (md w1 m), md_eventHandler := Some h,
                      md_concurrent := md_concurrent (md w1 m)\<rparr>)
                    (set_mev (EventHandler_Init h p (upd_handler h (\<lambda>_. NewEventHandler) (mev w1))) w1);
               w3 = upd_mod m (\<lambda>x. x\<lparr>md_child := md_child x @ [module]\<rparr>) w2
           in case descendants (md w3 r) of
                None \<Rightarrow> Inl NilMapWrite
              | Some D \<Rightarrow>
                  rbind (onInit module (upd_mod r (\<lambda>x. x\<lparr>descendants := Some (D(GetModuleId w3 module \<mapsto> module))\<rparr>) w3))
                    (\<lambda>(ok, w5).
                     if ok then Inr (Some (GetModuleId w5 module), w5)
                     else rbind (undo_add m module w5) (\<lambda>w6. Inr (None, w6))))))"

section \<open>Releasing a module\<close>

type_synonym ('c, 'd, 'u) mrun = "(go_panic \<times> ('c, 'd, 'u) msys) + ('c, 'd, 'u) msys"

fun down_loop :: "(nat \<Rightarrow> 'w \<Rightarrow> ('e + 'w) option) \<Rightarrow> nat \<Rightarrow> 'w \<Rightarrow> ('e + 'w) option" where
  "down_loop f 0 w = Some (Inr w)"
| "down_loop f (Suc i) w = (case f i w of Some (Inr w1) \<Rightarrow> down_loop f i w1 | r \<Rightarrow> r)"

text \<open>\<^verbatim>\<open>Destroy\<close> with the state that a panic leaves: the listener is gone when the handler turns out to have no processor.\<close>

fun destroy_run :: "(int \<times> nat) list \<Rightarrow> nat \<Rightarrow> ('c, 'd) EventSys \<Rightarrow> (go_panic \<times> ('c, 'd) EventSys) + ('c, 'd) EventSys" where
  "destroy_run [] handler w = Inr w"
| "destroy_run ((eventTyp, eventProcess) # ord) handler w =
     (case UnRegEventReceiverFun eventProcess eventTyp handler w of
        Inl e \<Rightarrow> Inl (e, removeListen eventProcess eventTyp handler w)
      | Inr w1 \<Rightarrow> destroy_run ord handler w1)"

text \<open>\<^verbatim>\<open>Cancel\<close> on every timer of a set; each only sets the flag of its own timer.\<close>

definition cancel_all :: "nat set \<Rightarrow> ('c, 'd, 'u) msys \<Rightarrow> ('c, 'd, 'u) msys" where
  "cancel_all S w =
     w\<lparr>t_store := (\<lambda>t. if t \<in> S then (t_store w t)\<lparr>cancelled := True\<rparr> else t_store w t)\<rparr>"

definition active_timers :: "Module \<Rightarrow> nat set" where
  "active_timers x = (case mapActiveTimer x of None \<Rightarrow> {} | Some S \<Rightarrow> S) \<union> ran (rd (mapActiveIdTimer x))"

definition clear_module :: "Module \<Rightarrow> Module" where
  "clear_module x = x\<lparr>md_self := None, md_parent := None, md_child := [], mapActiveTimer := None, md_dispatcher := None,
     md_ancestor := None, descendants := None, md_rpcHandler := None, mapActiveIdTimer := None\<rparr>"

text \<open>What \<^verbatim>\<open>ReleaseModule\<close> does after the children are gone.\<close>

definition drop_module :: "(('c, 'd) EventSys \<Rightarrow> nat \<Rightarrow> (int \<times> nat) list) \<Rightarrow> nat \<Rightarrow> 32 word \<Rightarrow> nat \<Rightarrow>
    ('c, 'd, 'u) msys \<Rightarrow> ('c, 'd, 'u) mrun" where
  "drop_module walk m i p w =
     (case md_eventHandler (md w p) of
        None \<Rightarrow> Inl (NilDereference, w)
      | Some h \<Rightarrow>
          (case destroy_run (walk (mev w) h) h (mev w) of
             Inl (x, e) \<Rightarrow> Inl (x, set_mev e w)
           | Inr e \<Rightarrow>
               let w1 = cancel_all (active_timers (md w p)) (set_mev e w);
                   w2 = upd_mod m (\<lambda>x. x\<lparr>md_child := filter (\<lambda>c. GetModuleId w1 c \<noteq> i) (md_child x)\<rparr>) w1
               in case md_ancestor (md w2 m) of
                    None \<Rightarrow> Inl (NilDereference, w2)
                  | Some r \<Rightarrow>
                      let w3 = upd_mod r (\<lambda>x. x\<lparr>descendants := map_option (\<lambda>D. D(i := None)) (descendants x)\<rparr>) w2
                      in Inr (upd_mod p clear_module w3)))"

definition release_child :: "(nat \<Rightarrow> 32 word \<Rightarrow> ('c, 'd, 'u) msys \<Rightarrow> ('c, 'd, 'u) mrun option) \<Rightarrow> nat \<Rightarrow> nat \<Rightarrow> nat \<Rightarrow>
    ('c, 'd, 'u) msys \<Rightarrow> ('c, 'd, 'u) mrun option" where
  "release_child rec m p j w =
     (if j < length (md_child (md w p)) then rec m (GetModuleId w (md_child (md w p) ! j)) w
      else Some (Inl (IndexOutOfRange, w)))"

text \<open>The fuel bounds the depth of the calls; \<open>None\<close> is running out of it.\<close>

fun ReleaseModule :: "(nat \<Rightarrow> ('c, 'd, 'u) msys \<Rightarrow> ('c, 'd, 'u) mrun) \<Rightarrow> (('c, 'd) EventSys \<Rightarrow> nat \<Rightarrow> (int \<times> nat) list) \<Rightarrow>
    nat \<Rightarrow> nat \<Rightarrow> 32 word \<Rightarrow> ('c, 'd, 'u) msys \<Rightarrow> ('c, 'd, 'u) mrun option" where
  "ReleaseModule onRelease walk 0 m moduleId w = None"
| "ReleaseModule onRelease walk (Suc n) m moduleId w =
     (case GetModule w m moduleId of
        Inl e \<Rightarrow> Some (Inl (e, w))
      | Inr None \<Rightarrow> Some (Inl (NilDereference, w))
      | Inr (Some p) \<Rightarrow>
          (case md_self (md w p) of
             None \<Rightarrow> Some (Inl (NilDereference, w))
           | Some self \<Rightarrow>
               (case onRelease self w of
                  Inl x \<Rightarrow> Some (Inl x)
                | Inr w1 \<Rightarrow>
                    (case down_loop (release_child (ReleaseModule onRelease walk n) m p) (length (md_child (md w1 p))) w1 of
                       Some (Inr w2) \<Rightarrow> Some (drop_module walk m moduleId p w2)
                     | res \<Rightarrow> res))))"

text \<open>
  \<^verbatim>\<open>Service.Release\<close>: only the call that takes the counter to -1 does the work. A panic is recovered, and what was done
  before it stays done. The result is the counter and the state; \<open>None\<close> is running out of fuel.
\<close>

definition recovered :: "('e \<times> 'w) + 'w \<Rightarrow> 'w" where
  "recovered res = (case res of Inl (_, w) \<Rightarrow> w | Inr w \<Rightarrow> w)"

definition Service_Release :: "(nat \<Rightarrow> ('c, 'd, 'u) msys \<Rightarrow> ('c, 'd, 'u) mrun) \<Rightarrow>
    (('c, 'd) EventSys \<Rightarrow> nat \<Rightarrow> (int \<times> nat) list) \<Rightarrow> nat \<Rightarrow> nat \<Rightarrow> int \<times> ('c, 'd, 'u) msys \<Rightarrow>
    (int \<times> ('c, 'd, 'u) msys) option" where
  "Service_Release onRelease walk n s iw =
     (let isRelease = wrap32 (fst iw - 1); w = snd iw
      in if isRelease = -1 then
           map_option (\<lambda>res. (isRelease, recovered res))
             (case onRelease s w of
                Inl x \<Rightarrow> Some (Inl x)
              | Inr w1 \<Rightarrow> down_loop (release_child (ReleaseModule onRelease walk n) s s) (length (md_child (md w1 s))) w1)
         else Some (isRelease, w))"

section \<open>Trees of modules\<close>

datatype mtree = MNode nat "mtree list"

fun mroot :: "mtree \<Rightarrow> nat" where
  "mroot (MNode a ts) = a"

fun mnodes :: "mtree \<Rightarrow> nat list" where
  "mnodes (MNode a ts) = a # concat (map mnodes ts)"

fun mdepth :: "mtree \<Rightarrow> nat" where
  "mdepth (MNode a ts) = Suc (Max (insert 0 (mdepth ` set ts)))"

fun is_tree :: "(nat \<Rightarrow> Module) \<Rightarrow> mtree \<Rightarrow> bool" where
  "is_tree ms (MNode a ts) \<longleftrightarrow> md_child (ms a) = map mroot ts \<and> (\<forall>t \<in> set ts. is_tree ms t)"

lemma mroot_node [simp]: "mroot t \<in> set (mnodes t)"
  by (cases t) simp

lemma is_tree_cong: "is_tree ms t \<Longrightarrow> (\<And>x. x \<in> set (mnodes t) \<Longrightarrow> md_child (ms' x) = md_child (ms x)) \<Longrightarrow> is_tree ms' t"
  by (induction t) auto

fun subtrees :: "mtree \<Rightarrow> mtree set" where
  "subtrees (MNode a ts) = insert (MNode a ts) (\<Union>t \<in> set ts. subtrees t)"

lemma subtrees_nodes: "t \<in> subtrees T \<Longrightarrow> set (mnodes t) \<subseteq> set (mnodes T)"
  by (induction T) auto

lemma subtrees_refl [simp]: "t \<in> subtrees t"
  by (cases t) simp

text \<open>
  The effect of releasing the modules \<open>X\<close> through \<open>m\<close> in the tree of \<open>r\<close>: they are cleared, taken from
  the children of \<open>m\<close> and from the table, their registrations are gone and their timers cancelled;
  nothing else changes. \<open>A\<close> is the subscriptions before.
\<close>

definition release_mods :: "nat \<Rightarrow> nat \<Rightarrow> nat set \<Rightarrow> (nat \<Rightarrow> Module) \<Rightarrow> nat \<Rightarrow> Module" where
  "release_mods m r X ms x =
     (if x \<in> X then clear_module (ms x)
      else (ms x)\<lparr>md_child := (if x = m then filter (\<lambda>c. md_moduleId (ms c) \<notin> (\<lambda>x. md_moduleId (ms x)) ` X) (md_child (ms x))
                              else md_child (ms x)),
                  descendants := (if x = r then map_option (\<lambda>D. D |` (- (\<lambda>x. md_moduleId (ms x)) ` X)) (descendants (ms x))
                                  else descendants (ms x))\<rparr>)"

definition dropped :: "(nat \<Rightarrow> Module) \<Rightarrow> nat set \<Rightarrow> 'c subscriptions \<Rightarrow> 'c subscriptions" where
  "dropped ms X A h = (if \<exists>x \<in> X. md_eventHandler (ms x) = Some h then Map.empty else A h)"

definition timers_of :: "(nat \<Rightarrow> Module) \<Rightarrow> nat set \<Rightarrow> nat set" where
  "timers_of ms X = (\<Union>x \<in> X. active_timers (ms x))"

definition released_state :: "nat \<Rightarrow> nat \<Rightarrow> nat set \<Rightarrow> 'c subscriptions \<Rightarrow> ('c, 'd, 'u) msys \<Rightarrow> ('c, 'd, 'u) msys \<Rightarrow> bool" where
  "released_state m r X A w w' \<longleftrightarrow>
     md w' = release_mods m r X (md w) \<and> t_store w' = t_store (cancel_all (timers_of (md w) X) w) \<and>
     timers w' = timers w \<and> t_chan w' = t_chan w \<and> t_pool w' = t_pool w \<and>
     ev_rep (mev w') (dropped (md w) X A) \<and> GetEventProcessor (mev w') = GetEventProcessor (mev w) \<and>
     ev_chan (mev w') = ev_chan (mev w)"

definition walk_ok :: "(('c, 'd) EventSys \<Rightarrow> nat \<Rightarrow> (int \<times> nat) list) \<Rightarrow> bool" where
  "walk_ok walk \<longleftrightarrow> (\<forall>e h. finite {(t, p). p \<in> reg_of e h t} \<longrightarrow>
     distinct (walk e h) \<and> set (walk e h) = {(t, p). p \<in> reg_of e h t})"

text \<open>
  A hook that only changes the application's own state: a \<open>calm\<close> one may panic, a \<open>quiet\<close> one returns.
\<close>

definition calm_hook :: "(nat \<Rightarrow> ('c, 'd, 'u) msys \<Rightarrow> ('c, 'd, 'u) mrun) \<Rightarrow> bool" where
  "calm_hook hook \<longleftrightarrow> (\<forall>a w. \<exists>u. hook a w = Inr (w\<lparr>t_user := (t_user w)\<lparr>mod_user := u\<rparr>\<rparr>) \<or>
     (\<exists>e. hook a w = Inl (e, w\<lparr>t_user := (t_user w)\<lparr>mod_user := u\<rparr>\<rparr>)))"

definition quiet_hook :: "(nat \<Rightarrow> ('c, 'd, 'u) msys \<Rightarrow> ('c, 'd, 'u) mrun) \<Rightarrow> bool" where
  "quiet_hook hook \<longleftrightarrow> (\<forall>a w. \<exists>u. hook a w = Inr (w\<lparr>t_user := (t_user w)\<lparr>mod_user := u\<rparr>\<rparr>))"

definition node_ok :: "nat \<Rightarrow> (nat \<Rightarrow> Module) \<Rightarrow> nat \<Rightarrow> bool" where
  "node_ok r ms x \<longleftrightarrow> md_self (ms x) = Some x \<and> md_eventHandler (ms x) \<noteq> None \<and>
     rd (descendants (ms r)) (md_moduleId (ms x)) = Some x"

lemma sorted_walk_ok: "walk_ok (\<lambda>e h. sorted_list_of_set {(t, p). p \<in> reg_of e h t})"
  by (simp add: walk_ok_def)

lemma release_mods_other:
  assumes "x \<notin> X" "x \<noteq> m" "x \<noteq> r"
  shows "release_mods m r X ms x = ms x"
  using assms by (simp add: release_mods_def)

lemma release_mods_fields [simp]:
  "md_moduleId (release_mods m r X ms x) = md_moduleId (ms x)"
  "md_eventHandler (release_mods m r X ms x) = md_eventHandler (ms x)"
  by (simp_all add: release_mods_def clear_module_def)

lemma release_mods_ancestor: "x \<notin> X \<Longrightarrow> md_ancestor (release_mods m r X ms x) = md_ancestor (ms x)"
  by (simp add: release_mods_def)

lemma rd_map_option: "rd (map_option (\<lambda>D. D |` S) d) i = (if i \<in> S then rd d i else None)"
  by (cases d) (simp_all add: rd_def)

lemma release_mods_node:
  assumes "node_ok r ms y" "\<And>x. x \<in> X \<Longrightarrow> node_ok r ms x" "y \<notin> X" "y \<noteq> m" "y \<noteq> r" "r \<notin> X"
  shows "node_ok r (release_mods m r X ms) y"
proof -
  have "md_moduleId (ms y) \<notin> (\<lambda>x. md_moduleId (ms x)) ` X"
    using assms(1-3) by (force simp: node_ok_def)
  then show ?thesis
    using assms by (simp add: node_ok_def release_mods_other) (simp add: release_mods_def rd_map_option)
qed

lemma release_mods_rest:
  assumes "x \<notin> X"
  shows "md_child (release_mods m r X ms x) =
      (if x = m then filter (\<lambda>c. md_moduleId (ms c) \<notin> (\<lambda>x. md_moduleId (ms x)) ` X) (md_child (ms x)) else md_child (ms x))"
    "descendants (release_mods m r X ms x) =
      (if x = r then map_option (\<lambda>D. D |` (- (\<lambda>x. md_moduleId (ms x)) ` X)) (descendants (ms x)) else descendants (ms x))"
    "(release_mods m r X ms x)\<lparr>md_child := cs, descendants := d\<rparr> = (ms x)\<lparr>md_child := cs, descendants := d\<rparr>"
  using assms by (simp_all add: release_mods_def)

lemma map_option_restrict:
  "map_option (\<lambda>D. D |` S) (map_option (\<lambda>D. D |` T) d) = map_option (\<lambda>D. D |` (T \<inter> S)) d"
  by (cases d) simp_all

lemma release_mods_trans:
  assumes "m \<notin> X \<union> Y" "r \<notin> X \<union> Y" "X \<inter> Y = {}"
  shows "release_mods m r Y (release_mods m r X ms) = release_mods m r (X \<union> Y) ms"
proof
  fix x
  consider "x \<in> X" | "x \<in> Y" | "x \<notin> X \<union> Y" by blast
  then show "release_mods m r Y (release_mods m r X ms) x = release_mods m r (X \<union> Y) ms x"
  proof cases
    case 1
    then have "x \<notin> Y" "x \<noteq> m" "x \<noteq> r" using assms by auto
    with 1 show ?thesis by (simp add: release_mods_def)
  next
    case 2
    then have "x \<notin> X" "x \<noteq> m" "x \<noteq> r" using assms by auto
    with 2 show ?thesis by (simp add: release_mods_def)
  next
    case 3
    then have "x \<notin> X" "x \<notin> Y" by auto
    then show ?thesis
      using 3 assms by (simp add: release_mods_def [of m r Y "release_mods m r X ms" x] release_mods_rest map_option_restrict)
        (simp add: release_mods_def image_Un map_option_restrict)
  qed
qed

lemma released_trans:
  assumes 1: "released_state m r X A w w1" and 2: "released_state m r Y (dropped (md w) X A) w1 w2"
    and d: "m \<notin> X \<union> Y" "r \<notin> X \<union> Y" "X \<inter> Y = {}"
  shows "released_state m r (X \<union> Y) A w w2"
proof -
  have m1: "md w1 = release_mods m r X (md w)" using 1 by (simp add: released_state_def)
  have same: "md w1 y = md w y" if "y \<in> Y" for y
    unfolding m1 by (rule release_mods_other) (use that d in auto)
  have "timers_of (md w1) Y = timers_of (md w) Y" using same by (simp add: timers_of_def)
  then have "t_store w2 = t_store (cancel_all (timers_of (md w) (X \<union> Y)) w)"
    using 1 2 by (auto simp: released_state_def cancel_all_def timers_of_def fun_eq_iff)
  moreover have "dropped (md w1) Y (dropped (md w) X A) = dropped (md w) (X \<union> Y) A"
    using same by (auto simp: dropped_def fun_eq_iff)
  moreover have "md w2 = release_mods m r (X \<union> Y) (md w)"
    using 2 release_mods_trans [OF d] by (simp add: released_state_def m1)
  ultimately show ?thesis using 1 2 by (simp add: released_state_def)
qed

lemma dropped_none [simp]: "dropped ms {} A = A"
  by (simp add: dropped_def fun_eq_iff)

lemma released_none: "ev_rep (mev w) A \<Longrightarrow> md w' = md w \<Longrightarrow> mev w' = mev w \<Longrightarrow> t_store w' = t_store w \<Longrightarrow>
    timers w' = timers w \<Longrightarrow> t_chan w' = t_chan w \<Longrightarrow> t_pool w' = t_pool w \<Longrightarrow> released_state m r {} A w w'"
proof -
  have "map_option (\<lambda>D. D |` UNIV) d = d" for d :: "(32 word \<rightharpoonup> nat) option" by (cases d) auto
  then have "release_mods m r {} ms = ms" for ms by (auto simp: release_mods_def fun_eq_iff)
  then show "ev_rep (mev w) A \<Longrightarrow> md w' = md w \<Longrightarrow> mev w' = mev w \<Longrightarrow> t_store w' = t_store w \<Longrightarrow>
    timers w' = timers w \<Longrightarrow> t_chan w' = t_chan w \<Longrightarrow> t_pool w' = t_pool w \<Longrightarrow> ?thesis"
    by (simp add: released_state_def cancel_all_def timers_of_def)
qed

section \<open>Releasing a tree\<close>

lemma destroy_walk:
  assumes "ev_rep e A" "walk_ok walk"
  obtains e' where "Destroy (walk e h) h e = Inr e'" "ev_rep e' (A(h := Map.empty))"
    "GetEventProcessor e' = GetEventProcessor e" "ev_chan e' = ev_chan e"
proof -
  have "distinct (walk e h)" "set (walk e h) = entries A h"
    using assms(2) reg_entries [OF assms(1), of h] finite_entries [OF assms(1), of h] by (auto simp: walk_ok_def)
  with bus.destroy_law [OF assms(1), of "walk e h" h] show ?thesis using that by (auto simp: Destroy_each)
qed

lemma destroy_run_ok: "Destroy ord h e = Inr e' \<Longrightarrow> destroy_run ord h e = Inr e'"
  by (induction ord h e rule: Destroy.induct) (auto simp: rbind_eq_Inr_iff)

lemma drop_module_ok:
  assumes rep: "ev_rep (mev w) A" and walk: "walk_ok walk" and h: "md_eventHandler (md w p) = Some h"
    and anc: "md_ancestor (md w m) = Some r" and ne: "m \<noteq> p" "r \<noteq> p"
  obtains w' where "drop_module walk m (md_moduleId (md w p)) p w = Inr w'" "released_state m r {p} A w w'"
proof -
  obtain e where e: "Destroy (walk (mev w) h) h (mev w) = Inr e" "ev_rep e (A(h := Map.empty))"
    "GetEventProcessor e = GetEventProcessor (mev w)" "ev_chan e = ev_chan (mev w)"
    by (rule destroy_walk [OF rep walk])
  let ?i = "md_moduleId (md w p)"
  let ?w1 = "cancel_all (active_timers (md w p)) (set_mev e w)"
  let ?w2 = "upd_mod m (\<lambda>x. x\<lparr>md_child := filter (\<lambda>c. GetModuleId ?w1 c \<noteq> ?i) (md_child x)\<rparr>) ?w1"
  let ?w3 = "upd_mod r (\<lambda>x. x\<lparr>descendants := map_option (\<lambda>D. D(?i := None)) (descendants x)\<rparr>) ?w2"
  let ?w' = "upd_mod p clear_module ?w3"
  have m1: "md ?w1 = md w" "mev ?w1 = e" by (auto simp: cancel_all_def md_def mev_def set_mev_def fun_eq_iff)
  have "drop_module walk m ?i p w = Inr ?w'"
    using h destroy_run_ok [OF e(1)] anc by (simp add: drop_module_def Let_def m1)
  moreover have upd: "D(?i := None) = D |` (- {?i})" for D :: "32 word \<rightharpoonup> nat"
    by (auto simp: restrict_map_def fun_eq_iff)
  have "md ?w' = release_mods m r {p} (md w)"
    using ne by (auto simp: fun_eq_iff release_mods_def GetModuleId_def m1 upd)
  moreover have "dropped (md w) {p} A = A(h := Map.empty)" using h by (auto simp: dropped_def fun_eq_iff)
  moreover have "t_store ?w' = t_store (cancel_all (timers_of (md w) {p}) w)"
    by (auto simp: timers_of_def cancel_all_def upd_mod_def set_mods_def set_mev_def fun_eq_iff)
  moreover have "timers ?w' = timers w" "t_chan ?w' = t_chan w" "t_pool ?w' = t_pool w"
    by (simp_all add: upd_mod_def set_mods_def cancel_all_def set_mev_def)
  moreover have "mev ?w' = e" by (simp add: m1)
  ultimately show ?thesis using that [of ?w'] e by (simp add: released_state_def)
qed

definition tree_at :: "nat \<Rightarrow> nat \<Rightarrow> (nat \<Rightarrow> Module) \<Rightarrow> mtree \<Rightarrow> bool" where
  "tree_at m r ms t \<longleftrightarrow> is_tree ms t \<and> distinct (mnodes t) \<and> (\<forall>x \<in> set (mnodes t). node_ok r ms x) \<and>
     m \<notin> set (mnodes t) \<and> r \<notin> set (mnodes t)"

text \<open>A tree next to the released modules is untouched.\<close>

lemma tree_at_released:
  assumes "tree_at m r ms t" "\<And>x. x \<in> X \<Longrightarrow> node_ok r ms x" "X \<inter> set (mnodes t) = {}" "m \<notin> X" "r \<notin> X"
  shows "tree_at m r (release_mods m r X ms) t"
proof -
  have "release_mods m r X ms x = ms x" if "x \<in> set (mnodes t)" for x
    by (rule release_mods_other) (use that assms(1,3) in \<open>auto simp: tree_at_def\<close>)
  then have "is_tree (release_mods m r X ms) t"
    using is_tree_cong [of ms t "release_mods m r X ms"] assms(1) by (simp add: tree_at_def)
  moreover have "node_ok r (release_mods m r X ms) x" if "x \<in> set (mnodes t)" for x
    by (rule release_mods_node) (use that assms in \<open>auto simp: tree_at_def\<close>)
  ultimately show ?thesis using assms(1) by (simp add: tree_at_def)
qed

definition forest_nodes :: "mtree list \<Rightarrow> nat set" where
  "forest_nodes ts = (\<Union>t \<in> set ts. set (mnodes t))"

lemma forest_nodes_simps [simp]:
  "forest_nodes [] = {}" "forest_nodes (t # ts) = set (mnodes t) \<union> forest_nodes ts"
  "forest_nodes (ts @ us) = forest_nodes ts \<union> forest_nodes us"
  by (auto simp: forest_nodes_def)

text \<open>While the loop runs, the next child is still where it was.\<close>

lemma next_child:
  assumes ch: "md_child (ms p) = map mroot (us @ t # vs)" and X: "X = forest_nodes vs"
    and ok: "\<And>x. x \<in> forest_nodes (us @ t # vs) \<Longrightarrow> node_ok r ms x"
    and dist: "distinct (concat (map mnodes (us @ t # vs)))" and p: "p \<notin> X" "p \<noteq> m \<and> p \<noteq> r \<or> p = m"
  shows "length us < length (md_child (release_mods m r X ms p)) \<and>
    md_child (release_mods m r X ms p) ! length us = mroot t"
proof (cases "p = m")
  case True
  let ?ids = "(\<lambda>x. md_moduleId (ms x)) ` X"
  have keep: "md_moduleId (ms (mroot u)) \<notin> ?ids" if "u \<in> set (us @ [t])" for u
  proof
    assume "md_moduleId (ms (mroot u)) \<in> ?ids"
    then obtain x where x: "x \<in> X" "md_moduleId (ms (mroot u)) = md_moduleId (ms x)" by blast
    have in_u: "mroot u \<in> forest_nodes (us @ [t])" using that mroot_node unfolding forest_nodes_def by blast
    then have "node_ok r ms (mroot u)" "node_ok r ms x" using ok x(1) X by auto
    with x(2) have "mroot u = x" by (simp add: node_ok_def)
    moreover have "forest_nodes (us @ [t]) \<inter> X = {}" using dist by (auto simp: forest_nodes_def X)
    ultimately show False using in_u x(1) by auto
  qed
  have drop: "md_moduleId (ms (mroot v)) \<in> ?ids" if "v \<in> set vs" for v
    using that mroot_node [of v] by (force simp: X forest_nodes_def)
  have "filter (\<lambda>c. md_moduleId (ms c) \<notin> ?ids) (map mroot vs) = []" using drop by (auto simp: filter_empty_conv)
  moreover have "filter (\<lambda>c. md_moduleId (ms c) \<notin> ?ids) (map mroot (us @ [t])) = map mroot (us @ [t])"
    using keep by (intro filter_True) auto
  ultimately have "md_child (release_mods m r X ms p) = map mroot (us @ [t])"
    using True ch p(1) filter_append [of "\<lambda>c. md_moduleId (ms c) \<notin> ?ids" "map mroot (us @ [t])" "map mroot vs"]
    by (simp add: release_mods_rest)
  then show ?thesis by (simp add: nth_append)
next
  case False
  then have "release_mods m r X ms p = ms p" using p by (intro release_mods_other) auto
  then show ?thesis using ch by (simp add: nth_append)
qed

text \<open>
  How the release of the trees \<open>ts\<close> ends: all their modules are released, or a hook panicked and those of a part \<open>X\<close> of
  them are, none of which has a descendant outside \<open>X\<close>.
\<close>

definition whole_trees :: "mtree list \<Rightarrow> nat set \<Rightarrow> bool" where
  "whole_trees ts X \<longleftrightarrow> X \<subseteq> forest_nodes ts \<and> (\<forall>t \<in> set ts. \<forall>s \<in> subtrees t. mroot s \<in> X \<longrightarrow> set (mnodes s) \<subseteq> X)"

definition release_out :: "(nat \<Rightarrow> ('c, 'd, 'u) msys \<Rightarrow> ('c, 'd, 'u) mrun) \<Rightarrow> nat \<Rightarrow> nat \<Rightarrow> mtree list \<Rightarrow> 'c subscriptions \<Rightarrow>
    ('c, 'd, 'u) msys \<Rightarrow> ('c, 'd, 'u) mrun option \<Rightarrow> bool" where
  "release_out hook m r ts A w res \<longleftrightarrow>
     (\<exists>w'. res = Some (Inr w') \<and> released_state m r (forest_nodes ts) A w w') \<or>
     (\<exists>e w' X. res = Some (Inl (e, w')) \<and> released_state m r X A w w' \<and> whole_trees ts X \<and> \<not> quiet_hook hook)"

lemma whole_trees_step:
  assumes d: "distinct (concat (map mnodes (us @ t # vs)))" and X: "whole_trees [t] X"
  shows "whole_trees (us @ t # vs) (forest_nodes vs \<union> X)"
proof -
  have Xt: "X \<subseteq> set (mnodes t)" using X by (simp add: whole_trees_def)
  have "set (mnodes s) \<subseteq> forest_nodes vs \<union> X"
    if u: "u \<in> set (us @ t # vs)" and s: "s \<in> subtrees u" "mroot s \<in> forest_nodes vs \<union> X" for u s
  proof -
    have r: "mroot s \<in> set (mnodes u)" using subtrees_nodes [OF s(1)] mroot_node [of s] by blast
    consider "u \<in> set vs" | "u = t" "mroot s \<in> X" | "u \<in> set us" | "u = t" "mroot s \<in> forest_nodes vs" using u s(2) by auto
    then show ?thesis
    proof cases
      case 1
      then show ?thesis using subtrees_nodes [OF s(1)] by (auto simp: forest_nodes_def)
    next
      case 2
      then show ?thesis using X s(1) by (auto simp: whole_trees_def)
    qed (use r s(2) Xt d in \<open>auto simp: forest_nodes_def\<close>)
  qed
  then show ?thesis using Xt by (auto simp: whole_trees_def)
qed

text \<open>The loop over the children \<open>ts\<close> of \<open>p\<close>, given how the release of each of their trees ends.\<close>

lemma release_loop:
  assumes rec: "\<And>t w A. t \<in> set ts \<Longrightarrow> tree_at m r (md w) t \<Longrightarrow> md_ancestor (md w m) = Some r \<Longrightarrow> ev_rep (mev w) A \<Longrightarrow>
      release_out hook m r [t] A w (rec m (md_moduleId (md w (mroot t))) w)"
    and ch: "md_child (md w p) = map mroot ts" and anc: "md_ancestor (md w m) = Some r" and rep: "ev_rep (mev w) A"
    and tr: "\<forall>t \<in> set ts. tree_at m r (md w) t" and dist: "distinct (concat (map mnodes ts))"
    and p: "p \<notin> forest_nodes ts" "p \<noteq> m \<and> p \<noteq> r \<or> p = m"
  shows "ts = us @ vs \<Longrightarrow> released_state m r (forest_nodes vs) A w w1 \<Longrightarrow>
    release_out hook m r ts A w (down_loop (release_child rec m p) (length us) w1)"
proof (induction us arbitrary: vs w1 rule: rev_induct)
  case (snoc t us)
  let ?X = "forest_nodes vs"
  have nodes: "m \<notin> forest_nodes ts" "r \<notin> forest_nodes ts" "\<And>x. x \<in> forest_nodes ts \<Longrightarrow> node_ok r (md w) x"
    using tr by (auto simp: forest_nodes_def tree_at_def)
  have disj: "?X \<inter> set (mnodes t) = {}" using dist snoc.prems(1) by (auto simp: forest_nodes_def)
  have m1: "md w1 = release_mods m r ?X (md w)" using snoc.prems(2) by (simp add: released_state_def)
  have "tree_at m r (md w1) t" unfolding m1
    by (rule tree_at_released) (use tr nodes disj snoc.prems(1) in auto)
  moreover have "md_ancestor (md w1 m) = Some r"
    unfolding m1 using anc nodes(1) snoc.prems(1) by (simp add: release_mods_ancestor)
  moreover have "ev_rep (mev w1) (dropped (md w) ?X A)" using snoc.prems(2) by (simp add: released_state_def)
  ultimately have out: "release_out hook m r [t] (dropped (md w) ?X A) w1 (rec m (md_moduleId (md w1 (mroot t))) w1)"
    using rec [of t w1] snoc.prems(1) by auto
  have step: "release_child rec m p (length us) w1 = rec m (md_moduleId (md w1 (mroot t))) w1"
    using next_child [of "md w" p us t vs ?X r m] ch snoc.prems(1) nodes(3) dist p
    by (auto simp: release_child_def m1 GetModuleId_def)
  have trans: "released_state m r (?X \<union> Y) A w w2"
    if "Y \<subseteq> set (mnodes t)" "released_state m r Y (dropped (md w) ?X A) w1 w2" for Y w2
    by (rule released_trans [OF snoc.prems(2) that(2)]) (use that(1) nodes snoc.prems(1) disj in auto)
  from out consider w2 where "rec m (md_moduleId (md w1 (mroot t))) w1 = Some (Inr w2)"
      "released_state m r (set (mnodes t)) (dropped (md w) ?X A) w1 w2"
    | e w2 Y where "rec m (md_moduleId (md w1 (mroot t))) w1 = Some (Inl (e, w2))"
      "released_state m r Y (dropped (md w) ?X A) w1 w2" "whole_trees [t] Y" "\<not> quiet_hook hook"
    unfolding release_out_def by auto
  then show ?case
  proof cases
    case 1
    with snoc.IH [of "t # vs" w2] trans [OF subset_refl 1(2)] snoc.prems(1) step show ?thesis by (simp add: Un_commute)
  next
    case 2
    have "Y \<subseteq> set (mnodes t)" using 2(3) by (simp add: whole_trees_def)
    from trans [OF this 2(2)] have "released_state m r (?X \<union> Y) A w w2" .
    moreover have "whole_trees ts (?X \<union> Y)" using whole_trees_step [OF _ 2(3), of us vs] dist snoc.prems(1) by simp
    ultimately show ?thesis using 2(1,4) step by (auto simp: release_out_def)
  qed
qed (auto simp: release_out_def)

lemma hook_frame:
  assumes "ev_rep (mev w) A"
  shows "md (w\<lparr>t_user := (t_user w)\<lparr>mod_user := u\<rparr>\<rparr>) = md w" "mev (w\<lparr>t_user := (t_user w)\<lparr>mod_user := u\<rparr>\<rparr>) = mev w"
    "released_state m r {} A w (w\<lparr>t_user := (t_user w)\<lparr>mod_user := u\<rparr>\<rparr>)"
proof -
  let ?w = "w\<lparr>t_user := (t_user w)\<lparr>mod_user := u\<rparr>\<rparr>"
  show 1: "md ?w = md w" "mev ?w = mev w" by (auto simp: md_def mev_def fun_eq_iff)
  show "released_state m r {} A w ?w" by (intro released_none assms) (simp_all add: 1)
qed

lemma calm_hookE:
  assumes "calm_hook hook" "ev_rep (mev w) A"
  obtains w' where "md w' = md w" "mev w' = mev w" "released_state m r {} A w w'"
    "hook a w = Inr w' \<or> (\<exists>e. hook a w = Inl (e, w')) \<and> \<not> quiet_hook hook"
proof -
  obtain u where u: "hook a w = Inr (w\<lparr>t_user := (t_user w)\<lparr>mod_user := u\<rparr>\<rparr>) \<or>
     (\<exists>e. hook a w = Inl (e, w\<lparr>t_user := (t_user w)\<lparr>mod_user := u\<rparr>\<rparr>))"
    using assms(1) unfolding calm_hook_def by blast
  moreover have "\<not> quiet_hook hook" if "hook a w = Inl x" for x
    using that unfolding quiet_hook_def by (metis Inl_Inr_False)
  ultimately show ?thesis using that [OF hook_frame [OF assms(2)]] by blast
qed

lemma quiet_calm: "quiet_hook hook \<Longrightarrow> calm_hook hook"
  unfolding quiet_hook_def calm_hook_def by blast

lemma quiet_hookE:
  assumes "quiet_hook hook" "ev_rep (mev w) A"
  obtains w' where "hook a w = Inr w'" "md w' = md w" "mev w' = mev w" "released_state m r {} A w w'"
  using calm_hookE [OF quiet_calm [OF assms(1)] assms(2), of m r a] assms(1) by metis

lemma whole_trees_node:
  assumes "whole_trees ts X" "a \<notin> forest_nodes ts"
  shows "whole_trees [MNode a ts] X"
  using assms by (auto simp: whole_trees_def forest_nodes_def)

lemma release_tree_out:
  fixes onRelease :: "nat \<Rightarrow> ('c, 'd, 'u) msys \<Rightarrow> ('c, 'd, 'u) mrun"
  assumes hook: "calm_hook onRelease" and walk: "walk_ok walk"
  shows "tree_at m r (md w) t \<Longrightarrow> md_ancestor (md w m) = Some r \<Longrightarrow> ev_rep (mev w) A \<Longrightarrow> mdepth t \<le> n \<Longrightarrow>
    release_out onRelease m r [t] A w (ReleaseModule onRelease walk n m (md_moduleId (md w (mroot t))) w)"
proof (induction t arbitrary: n w A)
  case (MNode a ts)
  note tr = MNode.prems(1)
  have a: "node_ok r (md w) a" "a \<noteq> m" "a \<noteq> r" "md_child (md w a) = map mroot ts"
    using tr by (auto simp: tree_at_def)
  have ts: "\<forall>t \<in> set ts. tree_at m r (md w) t" "distinct (concat (map mnodes ts))" "a \<notin> forest_nodes ts"
    using tr by (auto simp: tree_at_def forest_nodes_def distinct_concat_iff)
  have nodes: "m \<notin> forest_nodes ts" "r \<notin> forest_nodes ts" using ts(1) by (auto simp: forest_nodes_def tree_at_def)
  obtain k where n: "n = Suc k" using MNode.prems(4) by (cases n) auto
  have get: "GetModule w m (md_moduleId (md w a)) = Inr (Some a)" "md_self (md w a) = Some a"
    using a(1) MNode.prems(2) by (simp_all add: GetModule_def node_ok_def)
  obtain w1 where w1: "md w1 = md w" "mev w1 = mev w" "released_state m r {} A w w1"
    "onRelease a w = Inr w1 \<or> (\<exists>e. onRelease a w = Inl (e, w1)) \<and> \<not> quiet_hook onRelease"
    by (rule calm_hookE [OF hook MNode.prems(3)])
  let ?loop = "down_loop (release_child (ReleaseModule onRelease walk k) m a) (length ts) w1"
  have out: "release_out onRelease m r ts A w1 ?loop"
  proof (rule release_loop [where vs = "[]"])
    fix t and v :: "('c, 'd, 'u) msys" and B
    assume t: "t \<in> set ts" "tree_at m r (md v) t" "md_ancestor (md v m) = Some r" "ev_rep (mev v) B"
    moreover have "mdepth t \<le> k" using t(1) MNode.prems(4) n by auto
    ultimately show "release_out onRelease m r [t] B v (ReleaseModule onRelease walk k m (md_moduleId (md v (mroot t))) v)"
      using MNode.IH by blast
  qed (use a ts w1 MNode.prems in \<open>auto intro: released_none\<close>)
  have whole: "released_state m r Y A w w'" if "released_state m r Y A w1 w'" "m \<notin> Y" "r \<notin> Y" for Y w'
    using released_trans [OF w1(3), of Y w'] that by (simp add: w1(1))
  consider (hook) e where "onRelease a w = Inl (e, w1)" "\<not> quiet_hook onRelease"
    | (loop) e w2 X where "onRelease a w = Inr w1" "?loop = Some (Inl (e, w2))" "released_state m r X A w1 w2"
        "whole_trees ts X" "\<not> quiet_hook onRelease"
    | (all) w2 where "onRelease a w = Inr w1" "?loop = Some (Inr w2)" "released_state m r (forest_nodes ts) A w1 w2"
    using out w1(4) unfolding release_out_def by blast
  then show ?case
  proof cases
    case hook
    have "whole_trees [MNode a ts] {}" by (simp add: whole_trees_def)
    then show ?thesis using hook w1(3) get n unfolding release_out_def by auto
  next
    case loop
    have "X \<subseteq> forest_nodes ts" using loop(4) by (simp add: whole_trees_def)
    then have "released_state m r X A w w2" using whole [OF loop(3)] nodes by blast
    moreover have "whole_trees [MNode a ts] X" by (rule whole_trees_node [OF loop(4) ts(3)])
    ultimately show ?thesis using loop(1,2,5) get n w1(1) a(4) unfolding release_out_def by auto
  next
    case all
    have m2: "md w2 = release_mods m r (forest_nodes ts) (md w)" using all(3) w1(1) by (simp add: released_state_def)
    obtain h where h: "md_eventHandler (md w a) = Some h" using a(1) by (auto simp: node_ok_def)
    have a2: "md w2 a = md w a" unfolding m2 by (rule release_mods_other) (use a ts in auto)
    obtain w' where w': "drop_module walk m (md_moduleId (md w2 a)) a w2 = Inr w'"
      "released_state m r {a} (dropped (md w1) (forest_nodes ts) A) w2 w'"
    proof (rule drop_module_ok [of w2 _ walk a h m r])
      show "ev_rep (mev w2) (dropped (md w1) (forest_nodes ts) A)" using all(3) by (simp add: released_state_def)
      show "md_ancestor (md w2 m) = Some r"
        unfolding m2 using nodes(1) MNode.prems(2) by (simp add: release_mods_ancestor)
    qed (use walk h a a2 in auto)
    have "released_state m r (forest_nodes ts \<union> {a}) A w1 w'"
      by (rule released_trans [OF all(3) w'(2)]) (use nodes a ts in auto)
    then have "released_state m r (forest_nodes ts \<union> {a}) A w w'" using whole nodes a by auto
    moreover have "forest_nodes ts \<union> {a} = forest_nodes [MNode a ts]" by (auto simp: forest_nodes_def)
    ultimately show ?thesis using all(1,2) w'(1) get a(4) a2 n w1(1) unfolding release_out_def by auto
  qed
qed

lemma release_tree:
  assumes "quiet_hook onRelease" "walk_ok walk" "tree_at m r (md w) t" "md_ancestor (md w m) = Some r" "ev_rep (mev w) A" "mdepth t \<le> n"
  shows "\<exists>w'. ReleaseModule onRelease walk n m (md_moduleId (md w (mroot t))) w = Some (Inr w') \<and>
      released_state m r (set (mnodes t)) A w w'"
  using release_tree_out [OF quiet_calm [OF assms(1)] assms(2-6)] assms(1) by (auto simp: release_out_def)

section \<open>The tree of a service\<close>

definition service_tree :: "nat \<Rightarrow> (nat \<Rightarrow> Module) \<Rightarrow> mtree \<Rightarrow> bool" where
  "service_tree r ms T \<longleftrightarrow> mroot T = r \<and> is_tree ms T \<and> distinct (mnodes T) \<and>
     (\<exists>D. descendants (ms r) = Some D \<and> (\<forall>i a. D i = Some a \<longleftrightarrow> a \<in> set (mnodes T) - {r} \<and> md_moduleId (ms a) = i)) \<and>
     (\<forall>x \<in> set (mnodes T). md_self (ms x) = Some x \<and> md_ancestor (ms x) = Some r \<and> md_eventHandler (ms x) \<noteq> None)"

fun prune :: "nat \<Rightarrow> mtree \<Rightarrow> mtree" where
  "prune c (MNode a ts) = MNode a (map (prune c) (filter (\<lambda>t. mroot t \<noteq> c) ts))"

lemma subtrees_distinct: "t \<in> subtrees T \<Longrightarrow> distinct (mnodes T) \<Longrightarrow> distinct (mnodes t)"
  by (induction T) (auto simp: distinct_concat_iff)

lemma subtrees_is_tree: "t \<in> subtrees T \<Longrightarrow> is_tree ms T \<Longrightarrow> is_tree ms t"
  by (induction T) auto

lemma node_subtree: "m \<in> set (mnodes T) \<Longrightarrow> \<exists>us. MNode m us \<in> subtrees T"
proof (induction T)
  case (MNode a ts)
  then show ?case by (cases "m = a") (auto, blast)
qed

lemma forest_disjoint:
  "distinct (concat (map mnodes ts)) \<Longrightarrow> u \<in> set ts \<Longrightarrow> v \<in> set ts \<Longrightarrow> x \<in> set (mnodes u) \<Longrightarrow> x \<in> set (mnodes v) \<Longrightarrow> u = v"
  by (induction ts) auto

lemma mroot_prune [simp]: "mroot (prune c t) = mroot t"
  by (cases t) simp

lemma prune_absent: "c \<notin> set (mnodes T) \<Longrightarrow> prune c T = T"
proof (induction T)
  case (MNode a ts)
  have "mroot t \<noteq> c" if "t \<in> set ts" for t using MNode.prems that mroot_node [of t] by auto
  then have "filter (\<lambda>t. mroot t \<noteq> c) ts = ts" by simp
  moreover have "map (prune c) ts = ts" using MNode by (intro map_idI) auto
  ultimately show ?case by simp
qed

lemma is_tree_prune:
  "is_tree ms T \<Longrightarrow> (\<And>x. x \<in> set (mnodes (prune c T)) \<Longrightarrow> md_child (ms' x) = filter (\<lambda>y. y \<noteq> c) (md_child (ms x))) \<Longrightarrow>
    is_tree ms' (prune c T)"
  by (induction T) (auto simp: filter_map comp_def)

text \<open>In a tree without repetition a root determines its subtree.\<close>

lemma subtree_unique:
  assumes "distinct (mnodes T)" "t \<in> subtrees T" "u \<in> subtrees T" "mroot t = mroot u"
  shows "t = u"
  using assms
proof (induction T)
  case (MNode a ts)
  have sub: "set (mnodes v) \<subseteq> set (mnodes w)" if "v \<in> subtrees w" for v w by (rule subtrees_nodes [OF that])
  have not_root: "mroot v \<noteq> a" if "w \<in> set ts" "v \<in> subtrees w" for v w
    using MNode.prems(1) that(1) subsetD [OF sub [OF that(2)] mroot_node] by auto
  show ?case
  proof (cases "t = MNode a ts \<or> u = MNode a ts")
    case True
    then show ?thesis using MNode.prems not_root by fastforce
  next
    case False
    then obtain v w where v: "v \<in> set ts" "t \<in> subtrees v" and w: "w \<in> set ts" "u \<in> subtrees w"
      using MNode.prems(2,3) by auto
    have "mroot t \<in> set (mnodes v) \<inter> set (mnodes w)"
      using sub [OF v(2)] sub [OF w(2)] mroot_node [of t] mroot_node [of u] MNode.prems(4) by auto
    then have "v = w" using MNode.prems(1) v(1) w(1) forest_disjoint [of ts v w "mroot t"] by simp
    moreover have "distinct (mnodes v)" using MNode.prems(1) v(1) by (auto simp: distinct_concat_iff)
    ultimately show ?thesis using MNode.IH [OF v(1)] v w MNode.prems(4) by simp
  qed
qed

lemma distinct_concat_sub:
  "(\<And>t. t \<in> set ts \<Longrightarrow> distinct (f t) \<and> set (f t) \<subseteq> set (g t)) \<Longrightarrow> distinct (concat (map g ts)) \<Longrightarrow>
    distinct (concat (map f (filter P ts))) \<and> set (concat (map f (filter P ts))) \<subseteq> set (concat (map g ts))"
proof (induction ts)
  case (Cons t ts)
  then show ?case by (auto simp: disjoint_iff subset_iff)
qed simp

lemma distinct_prune: "distinct (mnodes T) \<Longrightarrow> distinct (mnodes (prune c T)) \<and> set (mnodes (prune c T)) \<subseteq> set (mnodes T)"
proof (induction T)
  case (MNode a ts)
  have "distinct (concat (map (\<lambda>t. mnodes (prune c t)) (filter (\<lambda>t. mroot t \<noteq> c) ts))) \<and>
      set (concat (map (\<lambda>t. mnodes (prune c t)) (filter (\<lambda>t. mroot t \<noteq> c) ts))) \<subseteq> set (concat (map mnodes ts))"
    using MNode by (intro distinct_concat_sub) (auto simp: distinct_concat_iff)
  then show ?case using MNode.prems by (auto simp: comp_def)
qed

lemma prune_nodes:
  assumes "distinct (mnodes T)" "t \<in> subtrees T" "t \<noteq> T" "mroot t = c"
  shows "set (mnodes (prune c T)) = set (mnodes T) - set (mnodes t)"
  using assms
proof (induction T)
  case (MNode a ts)
  then obtain v where v: "v \<in> set ts" "t \<in> subtrees v" by auto
  have dv: "distinct (mnodes v)" using MNode.prems(1) v(1) by (auto simp: distinct_concat_iff)
  have tv: "set (mnodes t) \<subseteq> set (mnodes v)" by (rule subtrees_nodes [OF v(2)])
  have c: "c \<in> set (mnodes v)" using tv mroot_node [of t] MNode.prems(4) by auto
  have other: "set (mnodes v) \<inter> set (mnodes u) = {}" if "u \<in> set ts" "u \<noteq> v" for u
    using MNode.prems(1) that v(1) forest_disjoint [of ts v u] by auto
  have rest: "prune c u = u \<and> mroot u \<noteq> c" if "u \<in> set ts" "u \<noteq> v" for u
    using other [OF that] c mroot_node [of u] by (auto intro: prune_absent)
  have a: "a \<notin> set (mnodes v)" using MNode.prems(1) v(1) by auto
  define R where "R = (\<Union>u \<in> set ts - {v}. set (mnodes u))"
  have R: "(\<Union>u \<in> set ts - {v}. set (mnodes (prune c u))) = R" using rest by (simp add: R_def)
  have disj: "R \<inter> set (mnodes v) = {}" using other by (auto simp: R_def)
  have all: "(\<Union>u \<in> set ts. set (mnodes u)) = set (mnodes v) \<union> R" using v(1) by (auto simp: R_def)
  have left: "(\<Union>u \<in> {u \<in> set ts. mroot u \<noteq> c}. set (mnodes (prune c u))) =
      (\<Union>u \<in> set ts. set (mnodes u)) - set (mnodes t)"
  proof (cases "mroot v = c")
    case True
    then have "t = v" using subtree_unique [OF dv v(2), of v] MNode.prems(4) by simp
    have "{u \<in> set ts. mroot u \<noteq> c} = set ts - {v}" using rest True by auto
    then show ?thesis unfolding all using R disj \<open>t = v\<close> by auto
  next
    case False
    then have "t \<noteq> v" using MNode.prems(4) by auto
    then have pv: "set (mnodes (prune c v)) = set (mnodes v) - set (mnodes t)"
      using MNode.IH [OF v(1) dv v(2)] MNode.prems(4) by simp
    have "{u \<in> set ts. mroot u \<noteq> c} = insert v (set ts - {v})" using rest False v(1) by auto
    then have "(\<Union>u \<in> {u \<in> set ts. mroot u \<noteq> c}. set (mnodes (prune c u))) = set (mnodes (prune c v)) \<union> R"
      using R by (simp only: UN_insert)
    then show ?thesis unfolding all pv using disj tv by auto
  qed
  then show ?case using a tv by auto
qed

lemma service_treeD:
  assumes "service_tree r ms T"
  shows "mroot T = r" "is_tree ms T" "distinct (mnodes T)"
    "x \<in> set (mnodes T) \<Longrightarrow> md_ancestor (ms x) = Some r"
    "x \<in> set (mnodes T) \<Longrightarrow> x \<noteq> r \<Longrightarrow> node_ok r ms x"
  using assms by (auto simp: service_tree_def node_ok_def rd_def)

lemma subtrees_trans: "t \<in> subtrees u \<Longrightarrow> u \<in> subtrees T \<Longrightarrow> t \<in> subtrees T"
  by (induction T) auto

lemma proper_subtree_root: "t \<in> subtrees T \<Longrightarrow> t \<noteq> T \<Longrightarrow> distinct (mnodes T) \<Longrightarrow> mroot T \<notin> set (mnodes t)"
  using subtrees_nodes by (cases T) fastforce

lemma child_in_subtrees:
  assumes "t \<in> set us" "MNode m us \<in> subtrees T"
  shows "t \<in> subtrees T"
proof -
  have "t \<in> subtrees (MNode m us)" using assms(1) subtrees_refl [of t] unfolding subtrees.simps by blast
  then show ?thesis by (rule subtrees_trans [OF _ assms(2)])
qed

lemma child_node:
  assumes "distinct (mnodes T)" "is_tree ms T" "x \<in> set (mnodes T)" "y \<in> set (md_child (ms x))"
  shows "y \<in> set (mnodes T) \<and> y \<noteq> mroot T"
proof -
  obtain vs where vs: "MNode x vs \<in> subtrees T" using node_subtree [OF assms(3)] by blast
  obtain u where u: "u \<in> set vs" "mroot u = y" using subtrees_is_tree [OF vs assms(2)] assms(4) by auto
  have uT: "u \<in> subtrees T" by (rule child_in_subtrees [OF u(1) vs])
  have "x \<notin> set (mnodes u)" using subtrees_distinct [OF vs assms(1)] u(1) by auto
  then have "u \<noteq> T" using assms(3) by auto
  then show ?thesis
    using proper_subtree_root [OF uT _ assms(1)] subtrees_nodes [OF uT] mroot_node [of u] u(2) by auto
qed

lemma child_not_above:
  assumes "distinct (mnodes T)" "MNode x vs \<in> subtrees T" "t \<in> set vs"
  shows "MNode x vs \<notin> subtrees t"
  using subtrees_distinct [OF assms(2,1)] subtrees_nodes [of "MNode x vs" t] assms(3) by auto

lemma parent_unique:
  assumes "distinct (mnodes T)" "MNode m us \<in> subtrees T" "MNode x vs \<in> subtrees T" "t \<in> set us" "t \<in> set vs"
  shows "m = x"
  using assms
proof (induction T)
  case (MNode a ws)
  have dw: "distinct (concat (map mnodes ws))" using MNode.prems(1) by simp
  have root_in: "mroot t \<in> set (mnodes w)" if "MNode y ys \<in> subtrees w" "t \<in> set ys" for y ys w
    using subtrees_nodes [OF child_in_subtrees [OF that(2,1)]] mroot_node [of t] by blast
  have top: False if "t \<in> set ws" "w \<in> set ws" "MNode y ys \<in> subtrees w" "t \<in> set ys" for w y ys
  proof -
    have "w = t" using forest_disjoint [OF dw that(2,1)] root_in [OF that(3,4)] by simp
    then show False using child_not_above [OF MNode.prems(1), of y ys t] that by auto
  qed
  show ?case
  proof (cases "MNode m us = MNode a ws \<or> MNode x vs = MNode a ws")
    case True
    then show ?thesis using MNode.prems top by auto
  next
    case False
    then obtain v w where v: "v \<in> set ws" "MNode m us \<in> subtrees v" and w: "w \<in> set ws" "MNode x vs \<in> subtrees w"
      using MNode.prems(2,3) by auto
    have "v = w" using forest_disjoint [OF dw v(1) w(1)] root_in v(2) w(2) MNode.prems(4,5) by blast
    moreover have "distinct (mnodes v)" using MNode.prems(1) v(1) by (auto simp: distinct_concat_iff)
    ultimately show ?thesis using MNode.IH [OF v(1)] v w MNode.prems(4,5) by simp
  qed
qed

text \<open>The tree below a child of \<open>m\<close> can be released through \<open>m\<close>, and a smaller tree is left.\<close>

lemma child_subtree:
  assumes T: "service_tree r ms T" and m: "m \<in> set (mnodes T)" and c: "c \<in> set (md_child (ms m))"
  obtains t where "t \<in> subtrees T" "t \<noteq> T" "mroot t = c" "tree_at m r ms t"
    "\<And>y. y \<in> set (md_child (ms m)) \<Longrightarrow> y \<in> set (mnodes t) \<longleftrightarrow> y = c"
    "\<And>x. x \<in> set (mnodes T) \<Longrightarrow> x \<noteq> m \<Longrightarrow> c \<notin> set (md_child (ms x))"
proof -
  note d = service_treeD [OF T]
  obtain us where us: "MNode m us \<in> subtrees T" using node_subtree [OF m] by blast
  have du: "distinct (mnodes (MNode m us))" "is_tree ms (MNode m us)"
    using subtrees_distinct [OF us d(3)] subtrees_is_tree [OF us d(2)] by blast+
  then obtain t where t: "t \<in> set us" "mroot t = c" using c by auto
  have tT: "t \<in> subtrees T" by (rule child_in_subtrees [OF t(1) us])
  have mt: "m \<notin> set (mnodes t)" using du(1) t(1) by auto
  then have neq: "t \<noteq> T" using m by auto
  have rt: "r \<notin> set (mnodes t)" using proper_subtree_root [OF tT neq d(3)] d(1) by simp
  have "tree_at m r ms t"
    using subtrees_is_tree [OF tT d(2)] subtrees_distinct [OF tT d(3)] subtrees_nodes [OF tT] mt rt d(5)
    by (auto simp: tree_at_def)
  moreover have "y \<in> set (mnodes t) \<longleftrightarrow> y = c" if "y \<in> set (md_child (ms m))" for y
  proof -
    obtain u where "u \<in> set us" "mroot u = y" using \<open>y \<in> set (md_child (ms m))\<close> du(2) by auto
    then show ?thesis using forest_disjoint [of us u t y] du(1) t mroot_node [of u] mroot_node [of t] by auto
  qed
  moreover have "c \<notin> set (md_child (ms x))" if x: "x \<in> set (mnodes T)" "x \<noteq> m" for x
  proof
    assume cx: "c \<in> set (md_child (ms x))"
    obtain vs where vs: "MNode x vs \<in> subtrees T" using node_subtree [OF x(1)] by blast
    with cx subtrees_is_tree [OF vs d(2)] obtain u where u: "u \<in> set vs" "mroot u = c" by auto
    have "u = t" using subtree_unique [OF d(3) child_in_subtrees [OF u(1) vs] tT] u(2) t(2) by simp
    then show False using parent_unique [OF d(3) us vs t(1)] u(1) x(2) by simp
  qed
  ultimately show ?thesis using that [OF tT neq t(2)] by blast
qed

lemma service_tree_released:
  assumes T: "service_tree r ms T" and m: "m \<in> set (mnodes T)"
    and t: "t \<in> subtrees T" "t \<noteq> T" "mroot t = c" "tree_at m r ms t"
    and cm: "\<And>y. y \<in> set (md_child (ms m)) \<Longrightarrow> y \<in> set (mnodes t) \<longleftrightarrow> y = c"
    and cx: "\<And>x. x \<in> set (mnodes T) \<Longrightarrow> x \<noteq> m \<Longrightarrow> c \<notin> set (md_child (ms x))"
  shows "service_tree r (release_mods m r (set (mnodes t)) ms) (prune c T)"
proof -
  note d = service_treeD [OF T]
  let ?X = "set (mnodes t)" and ?ms = "release_mods m r (set (mnodes t)) ms"
  have nodes: "set (mnodes (prune c T)) = set (mnodes T) - ?X" by (rule prune_nodes [OF d(3) t(1,2,3)])
  have mr: "m \<notin> ?X" "r \<notin> ?X" using t(4) by (auto simp: tree_at_def)
  have okX: "node_ok r ms x" if "x \<in> ?X" for x using t(4) that by (simp add: tree_at_def)
  have ids: "md_moduleId (ms y) \<in> (\<lambda>x. md_moduleId (ms x)) ` ?X \<longleftrightarrow> y \<in> ?X" if "y \<in> set (mnodes T)" "y \<noteq> r" for y
    using okX d(5) [OF that] by (auto simp: node_ok_def)
  have chT: "y \<in> set (mnodes T) \<and> y \<noteq> r" if "x \<in> set (mnodes T)" "y \<in> set (md_child (ms x))" for x y
    using child_node [OF d(3,2) that] d(1) by simp
  have "is_tree ?ms (prune c T)"
  proof (rule is_tree_prune [OF d(2)])
    fix x assume "x \<in> set (mnodes (prune c T))"
    then have x: "x \<in> set (mnodes T)" "x \<notin> ?X" using nodes by auto
    have "filter (\<lambda>y. md_moduleId (ms y) \<notin> (\<lambda>x. md_moduleId (ms x)) ` ?X) (md_child (ms m)) =
        filter (\<lambda>y. y \<noteq> c) (md_child (ms m))"
      by (rule filter_cong) (use cm chT [OF m] ids in auto)
    moreover have "filter (\<lambda>y. y \<noteq> c) (md_child (ms x)) = md_child (ms x)" if "x \<noteq> m"
      using cx [OF x(1) that] by (intro filter_True) auto
    ultimately show "md_child (?ms x) = filter (\<lambda>y. y \<noteq> c) (md_child (ms x))"
      by (cases "x = m") (simp_all add: release_mods_rest(1) [OF x(2)] release_mods_rest(1) [OF mr(1)])
  qed
  moreover obtain D where D: "descendants (ms r) = Some D"
    "\<forall>i a. D i = Some a \<longleftrightarrow> a \<in> set (mnodes T) - {r} \<and> md_moduleId (ms a) = i"
    using T by (auto simp: service_tree_def)
  have "descendants (?ms r) = Some (D |` (- (\<lambda>x. md_moduleId (ms x)) ` ?X))"
    using D(1) by (simp add: release_mods_rest(2) [OF mr(2)])
  moreover have "(D |` (- (\<lambda>x. md_moduleId (ms x)) ` ?X)) i = Some a \<longleftrightarrow>
      a \<in> set (mnodes (prune c T)) - {r} \<and> md_moduleId (?ms a) = i" for i a
    using D(2) ids nodes by (auto simp: restrict_map_def)
  moreover have "md_self (?ms x) = Some x \<and> md_ancestor (?ms x) = Some r \<and> md_eventHandler (?ms x) \<noteq> None"
    if "x \<in> set (mnodes (prune c T))" for x
    using that T nodes by (auto simp: service_tree_def release_mods_def)
  ultimately show ?thesis
    using distinct_prune [OF d(3), of c] d(1) by (auto simp: service_tree_def)
qed

lemma release_child_ok:
  assumes hook: "quiet_hook onRelease" and walk: "walk_ok walk"
    and T: "service_tree r (md w) T" and rep: "ev_rep (mev w) A"
    and m: "m \<in> set (mnodes T)" and c: "c \<in> set (md_child (md w m))"
  obtains t where "t \<in> subtrees T" "mroot t = c" "set (mnodes (prune c T)) = set (mnodes T) - set (mnodes t)"
    "\<And>n. mdepth t \<le> n \<Longrightarrow> \<exists>w'. ReleaseModule onRelease walk n m (GetModuleId w c) w = Some (Inr w') \<and>
      released_state m r (set (mnodes t)) A w w' \<and> service_tree r (md w') (prune c T)"
proof -
  obtain t where t: "t \<in> subtrees T" "t \<noteq> T" "mroot t = c" "tree_at m r (md w) t"
    "\<And>y. y \<in> set (md_child (md w m)) \<Longrightarrow> y \<in> set (mnodes t) \<longleftrightarrow> y = c"
    "\<And>x. x \<in> set (mnodes T) \<Longrightarrow> x \<noteq> m \<Longrightarrow> c \<notin> set (md_child (md w x))"
    by (rule child_subtree [OF T m c]) blast
  note d = service_treeD [OF T]
  show ?thesis
  proof (rule that [OF t(1,3) prune_nodes [OF d(3) t(1,2,3)]])
    fix n assume n: "mdepth t \<le> n"
    obtain w' where w': "ReleaseModule onRelease walk n m (md_moduleId (md w (mroot t))) w = Some (Inr w')"
      "released_state m r (set (mnodes t)) A w w'"
      using release_tree [OF hook walk t(4) d(4) [OF m] rep n] by blast
    moreover have "service_tree r (md w') (prune c T)"
      using service_tree_released [OF T m t] w'(2) by (simp add: released_state_def)
    ultimately show "\<exists>w'. ReleaseModule onRelease walk n m (GetModuleId w c) w = Some (Inr w') \<and>
      released_state m r (set (mnodes t)) A w w' \<and> service_tree r (md w') (prune c T)"
      using t(3) by (auto simp: GetModuleId_def)
  qed
qed

text \<open>
  A release through another module than the parent leaves the parent with a child that the table no
  longer knows; releasing the parent then fails on it.
\<close>

lemma dangling_child_panics:
  assumes hook: "quiet_hook onRelease" and rep: "ev_rep (mev w) A"
    and p: "GetModule w g i = Inr (Some p)" "md_self (md w p) = Some p"
    and c: "md_child (md w p) = cs @ [c]" "GetModule w g (GetModuleId w c) = Inr None"
  shows "\<exists>w'. ReleaseModule onRelease walk (Suc (Suc n)) g i w = Some (Inl (NilDereference, w')) \<and> md w' = md w"
proof -
  obtain w1 where w1: "onRelease p w = Inr w1" "md w1 = md w" "mev w1 = mev w" "released_state g g {} A w w1"
    by (rule quiet_hookE [OF hook rep])
  have "GetModule w1 g (md_moduleId (md w1 c)) = Inr None"
    using c(2) w1(2) by (cases "md_ancestor (md w g)") (simp_all add: GetModule_def GetModuleId_def)
  then have "ReleaseModule onRelease walk (Suc n) g (md_moduleId (md w1 c)) w1 = Some (Inl (NilDereference, w1))" by simp
  then show ?thesis using p c(1) w1(1,2) by (simp add: release_child_def GetModuleId_def)
qed

text \<open>Releasing the whole service.\<close>

lemma service_release_out:
  assumes hook: "calm_hook onRelease" and walk: "walk_ok walk"
    and T: "service_tree r (md w) (MNode r ts)" and rep: "ev_rep (mev w) A" and n: "mdepth (MNode r ts) \<le> n"
  shows "\<exists>X w'. Service_Release onRelease walk n r (0, w) = Some (-1, w') \<and> released_state r r X A w w' \<and> whole_trees ts X \<and>
    (quiet_hook onRelease \<longrightarrow> X = forest_nodes ts \<and> md_child (md w' r) = [])"
proof -
  note d = service_treeD [OF T]
  obtain w1 where w1: "md w1 = md w" "mev w1 = mev w" "released_state r r {} A w w1"
    "onRelease r w = Inr w1 \<or> (\<exists>e. onRelease r w = Inl (e, w1)) \<and> \<not> quiet_hook onRelease"
    by (rule calm_hookE [OF hook rep])
  have ch: "md_child (md w r) = map mroot ts" using d(2) by simp
  have r: "r \<notin> forest_nodes ts" using d(3) by (auto simp: forest_nodes_def)
  have tr: "tree_at r r (md w) t" if "t \<in> set ts" for t
    using that d(2,3,5) r by (auto simp: tree_at_def forest_nodes_def distinct_concat_iff)
  let ?loop = "down_loop (release_child (ReleaseModule onRelease walk n) r r) (length ts) w1"
  have out: "release_out onRelease r r ts A w1 ?loop"
  proof (rule release_loop [where vs = "[]"])
    fix t and v :: "('a, 'b, 'c) msys" and B
    assume t: "t \<in> set ts" "tree_at r r (md v) t" "md_ancestor (md v r) = Some r" "ev_rep (mev v) B"
    moreover have "mdepth t \<le> n" using t(1) n by (cases n) auto
    ultimately show "release_out onRelease r r [t] B v (ReleaseModule onRelease walk n r (md_moduleId (md v (mroot t))) v)"
      using release_tree_out [OF hook walk] by blast
  qed (use ch tr d(3) d(4) [of r] w1 rep r in \<open>auto intro: released_none\<close>)
  have whole: "released_state r r Y A w w'" if "released_state r r Y A w1 w'" "Y \<subseteq> forest_nodes ts" for Y w'
    using released_trans [OF w1(3), of Y w'] that r by (auto simp: w1(1))
  have wrap: "wrap32 (0 - 1) = -1" by (simp add: wrap32_def)
  consider (hook) e where "onRelease r w = Inl (e, w1)" "\<not> quiet_hook onRelease"
    | (loop) e w2 X where "onRelease r w = Inr w1" "?loop = Some (Inl (e, w2))" "released_state r r X A w1 w2"
        "whole_trees ts X" "\<not> quiet_hook onRelease"
    | (all) w2 where "onRelease r w = Inr w1" "?loop = Some (Inr w2)" "released_state r r (forest_nodes ts) A w1 w2"
    using out w1(4) unfolding release_out_def by blast
  then show ?thesis
  proof cases
    case hook
    have "whole_trees ts {}" by (simp add: whole_trees_def)
    moreover have "Service_Release onRelease walk n r (0, w) = Some (-1, w1)"
      using hook wrap by (simp add: Service_Release_def Let_def recovered_def)
    ultimately show ?thesis using hook(2) w1(3) by blast
  next
    case loop
    have "Service_Release onRelease walk n r (0, w) = Some (-1, w2)"
      using loop(1,2) wrap ch w1(1) by (simp add: Service_Release_def Let_def recovered_def)
    then show ?thesis using loop whole [OF loop(3)] by (auto simp: whole_trees_def)
  next
    case all
    have rs: "released_state r r (forest_nodes ts) A w w2" by (rule whole [OF all(3)]) simp
    have "md_moduleId (md w (mroot t)) \<in> (\<lambda>x. md_moduleId (md w x)) ` forest_nodes ts" if "t \<in> set ts" for t
      using that mroot_node [of t] by (force simp: forest_nodes_def)
    then have "md_child (md w2 r) = []" using rs r ch by (auto simp: released_state_def release_mods_rest filter_empty_conv)
    moreover have "whole_trees ts (forest_nodes ts)" using subtrees_nodes by (fastforce simp: whole_trees_def forest_nodes_def)
    moreover have "Service_Release onRelease walk n r (0, w) = Some (-1, w2)"
      using all(1,2) wrap ch w1(1) by (simp add: Service_Release_def Let_def recovered_def)
    ultimately show ?thesis using rs by blast
  qed
qed

section \<open>Adding a module to the tree\<close>

fun add_leaf :: "nat \<Rightarrow> nat \<Rightarrow> mtree \<Rightarrow> mtree" where
  "add_leaf m a (MNode b ts) = MNode b (map (add_leaf m a) ts @ (if b = m then [MNode a []] else []))"

lemma mroot_add_leaf [simp]: "mroot (add_leaf m a t) = mroot t"
  by (cases t) simp

lemma is_tree_add_leaf:
  "is_tree ms T \<Longrightarrow> (\<And>x. x \<in> set (mnodes T) \<Longrightarrow> md_child (ms' x) = (if x = m then md_child (ms x) @ [a] else md_child (ms x))) \<Longrightarrow>
    md_child (ms' a) = [] \<Longrightarrow> is_tree ms' (add_leaf m a T)"
  by (induction T) (auto simp: comp_def)

lemma mset_add_leaf:
  "mset (mnodes (add_leaf m a T)) = mset (mnodes T) + replicate_mset (count (mset (mnodes T)) m) a"
proof (induction T)
  case (MNode b ts)
  have "mset (concat (map (\<lambda>t. mnodes (add_leaf m a t)) ts)) =
      mset (concat (map mnodes ts)) + replicate_mset (count (mset (concat (map mnodes ts))) m) a"
    using MNode.IH by (induction ts) (auto simp: multiset_eq_iff)
  then show ?case by (simp add: comp_def)
qed

lemma add_leaf_nodes:
  assumes "distinct (mnodes T)" "m \<in> set (mnodes T)" "a \<notin> set (mnodes T)"
  shows "distinct (mnodes (add_leaf m a T))" "set (mnodes (add_leaf m a T)) = insert a (set (mnodes T))"
proof -
  have "count (mset (mnodes T)) m = 1" using assms(1,2) by (simp add: distinct_count_atmost_1)
  then have m: "mset (mnodes (add_leaf m a T)) = mset (a # mnodes T)" by (simp add: mset_add_leaf)
  then show "distinct (mnodes (add_leaf m a T))" using mset_eq_imp_distinct_iff [OF m] assms by simp
  show "set (mnodes (add_leaf m a T)) = insert a (set (mnodes T))" using mset_eq_setD [OF m] by simp
qed

lemma fresh_handler_rep:
  assumes "ev_rep e A" "A h = Map.empty"
  shows "ev_rep (EventHandler_Init h p (upd_handler h (\<lambda>_. NewEventHandler) e)) A"
proof -
  let ?e = "EventHandler_Init h p (upd_handler h (\<lambda>_. NewEventHandler) e)"
  have own: "GetEventProcessor ?e x = (if x = h then Some p else GetEventProcessor e x)" for x
    by (simp add: EventHandler_Init_def GetEventProcessor_def)
  have v: "bound_of ?e = bound_of e" "listeners ?e = listeners e" "made ?e = made e" "reg_of ?e x = (if x = h then (\<lambda>_. {}) else reg_of e x)" for x
    by (auto simp: EventHandler_Init_def bound_of_def listeners_def made_def reg_of_def fun_eq_iff)
  have "subscribers ?e A q t k = subscribers e A q t k" for q t k
    using assms(2) by (auto simp: subscribers_def own split: if_splits)
  then show ?thesis using assms by (auto simp: ev_rep_def v own)
qed

lemma GetEventProcessor_fresh:
  "GetEventProcessor (EventHandler_Init h p (upd_handler h (\<lambda>_. NewEventHandler) e)) x =
    (if x = h then Some p else GetEventProcessor e x)"
  by (simp add: EventHandler_Init_def GetEventProcessor_def)

text \<open>The modules right before \<^verbatim>\<open>OnInit\<close> runs.\<close>

definition added :: "nat \<Rightarrow> nat \<Rightarrow> nat \<Rightarrow> nat \<Rightarrow> (nat \<Rightarrow> Module) \<Rightarrow> nat \<Rightarrow> Module" where
  "added r h m a ms x =
     (if x = a then (ms a)\<lparr>md_rpcHandler := md_rpcHandler (ms m), md_self := Some a, md_parent := md_self (ms m),
                      md_dispatcher := md_dispatcher (ms r), md_ancestor := md_ancestor (ms m), md_eventHandler := Some h,
                      md_concurrent := md_concurrent (ms m)\<rparr>
      else (ms x)\<lparr>md_child := (if x = m then md_child (ms x) @ [a] else md_child (ms x)),
                  descendants := (if x = r then map_option (\<lambda>D. D(md_moduleId (ms a) \<mapsto> a)) (descendants (ms x))
                                  else descendants (ms x))\<rparr>)"

lemma service_tree_added:
  assumes T: "service_tree r ms T" and m: "m \<in> set (mnodes T)" and a: "a \<notin> set (mnodes T)" "md_child (ms a) = []"
    and new: "rd (descendants (ms r)) (md_moduleId (ms a)) = None"
  shows "service_tree r (added r h m a ms) (add_leaf m a T)"
proof -
  note d = service_treeD [OF T]
  obtain D where D: "descendants (ms r) = Some D"
    "\<forall>i x. D i = Some x \<longleftrightarrow> x \<in> set (mnodes T) - {r} \<and> md_moduleId (ms x) = i"
    using T by (auto simp: service_tree_def)
  have r: "r \<in> set (mnodes T)" "a \<noteq> r" "a \<noteq> m" using d(1) a m mroot_node [of T] by auto
  note n = add_leaf_nodes [OF d(3) m a(1)]
  have "D (md_moduleId (ms a)) = None" using new D(1) by (simp add: rd_def)
  then have key: "md_moduleId (ms x) \<noteq> md_moduleId (ms a)" if "x \<in> set (mnodes T)" "x \<noteq> r" for x
    using D(2) [rule_format, of "md_moduleId (ms x)" x] that by auto
  have ids: "md_moduleId (added r h m a ms x) = md_moduleId (ms x)" for x by (simp add: added_def)
  have "is_tree (added r h m a ms) (add_leaf m a T)"
    by (rule is_tree_add_leaf [OF d(2)]) (use a in \<open>auto simp: added_def\<close>)
  moreover have "descendants (added r h m a ms r) = Some (D(md_moduleId (ms a) \<mapsto> a))"
    using D(1) r by (simp add: added_def)
  moreover have "(D(md_moduleId (ms a) \<mapsto> a)) i = Some x \<longleftrightarrow>
      x \<in> set (mnodes (add_leaf m a T)) - {r} \<and> md_moduleId (added r h m a ms x) = i" for i x
    using D(2) key r a(1) by (auto simp: n ids)
  moreover have "md_self (added r h m a ms x) = Some x \<and> md_ancestor (added r h m a ms x) = Some r \<and>
      md_eventHandler (added r h m a ms x) \<noteq> None" if "x \<in> set (mnodes (add_leaf m a T))" for x
    using that T m d(4) [OF m] by (auto simp: n service_tree_def added_def)
  ultimately show ?thesis using n(1) d(1) by (auto simp: service_tree_def)
qed

lemma service_tree_cong:
  assumes "service_tree r ms T" "descendants (ms' r) = descendants (ms r)"
    "\<And>x. x \<in> set (mnodes T) \<Longrightarrow> md_child (ms' x) = md_child (ms x) \<and> md_self (ms' x) = md_self (ms x) \<and>
      md_ancestor (ms' x) = md_ancestor (ms x) \<and> md_eventHandler (ms' x) = md_eventHandler (ms x) \<and>
      md_moduleId (ms' x) = md_moduleId (ms x)"
  shows "service_tree r ms' T"
proof -
  have "is_tree ms' T" using is_tree_cong [of ms T ms'] assms(1,3) by (simp add: service_tree_def)
  moreover obtain D where D: "descendants (ms r) = Some D"
    "\<forall>i a. D i = Some a \<longleftrightarrow> a \<in> set (mnodes T) - {r} \<and> md_moduleId (ms a) = i"
    using assms(1) by (auto simp: service_tree_def)
  have "\<forall>i a. D i = Some a \<longleftrightarrow> a \<in> set (mnodes T) - {r} \<and> md_moduleId (ms' a) = i"
    using D(2) assms(3) by auto
  with D(1) assms(2) have "\<exists>D. descendants (ms' r) = Some D \<and>
      (\<forall>i a. D i = Some a \<longleftrightarrow> a \<in> set (mnodes T) - {r} \<and> md_moduleId (ms' a) = i)" by simp
  ultimately show ?thesis using assms(1,3) by (simp add: service_tree_def)
qed

definition module_id :: "nat \<Rightarrow> ('c, 'd, 'u) msys \<Rightarrow> nat \<Rightarrow> 32 word" where
  "module_id r w a = (if GetModuleId w a = 0 then seedModuleId (md w r) + 1 else GetModuleId w a)"

definition with_id :: "nat \<Rightarrow> nat \<Rightarrow> ('c, 'd, 'u) msys \<Rightarrow> ('c, 'd, 'u) msys" where
  "with_id r a w = (if GetModuleId w a = 0
     then upd_mod a (\<lambda>x. x\<lparr>md_moduleId := seedModuleId (md w r) + 1\<rparr>) (upd_mod r (\<lambda>x. x\<lparr>seedModuleId := seedModuleId x + 1\<rparr>) w)
     else w)"

text \<open>\<^verbatim>\<open>AddModule\<close> up to the call of \<^verbatim>\<open>OnInit\<close>.\<close>

lemma AddModule_prefix:
  assumes anc: "md_ancestor (md w m) = Some r" and hm: "md_eventHandler (md w m) = Some hm"
    "GetEventProcessor (mev w) hm = Some p" and a: "a \<noteq> r" "a \<noteq> m" and D: "descendants (md w r) = Some D"
  shows "AddModule onInit h m a w =
    (let w1 = with_id r a w; i = module_id r w a in
     if D i \<noteq> None then Inr (None, w1)
     else rbind (onInit a (set_mods (added r h m a (md w1)) (set_mev (EventHandler_Init h p (upd_handler h (\<lambda>_. NewEventHandler) (mev w1))) w1)))
       (\<lambda>(ok, w5). if ok then Inr (Some (GetModuleId w5 a), w5) else rbind (undo_add m a w5) (\<lambda>w6. Inr (None, w6))))"
proof -
  let ?w1 = "with_id r a w"
  have w1: "md_ancestor (md ?w1 m) = Some r" "descendants (md ?w1 r) = Some D" "GetModuleId ?w1 a = module_id r w a"
    "md_moduleId (md ?w1 a) = module_id r w a"
    using anc a D by (auto simp: with_id_def module_id_def GetModuleId_def)
  have pre: "(if GetModuleId w a = 0 then rbind (NewModuleId m w) (\<lambda>(i, w1). Inr (upd_mod a (\<lambda>x. x\<lparr>md_moduleId := i\<rparr>) w1)) else Inr w) =
      Inr ?w1"
    using anc by (simp add: NewModuleId_def with_id_def)
  have get: "GetModule ?w1 m (GetModuleId ?w1 a) = Inr (D (module_id r w a))"
    using w1 by (simp add: GetModule_def rd_def)
  define e where "e = EventHandler_Init h p (upd_handler h (\<lambda>_. NewEventHandler) (mev ?w1))"
  define w3 where "w3 = upd_mod m (\<lambda>x. x\<lparr>md_child := md_child x @ [a]\<rparr>)
      (upd_mod a (\<lambda>x. x\<lparr>md_rpcHandler := md_rpcHandler (md ?w1 m), md_self := Some a, md_parent := md_self (md ?w1 m),
           md_dispatcher := md_dispatcher (md ?w1 r), md_ancestor := md_ancestor (md ?w1 m), md_eventHandler := Some h,
           md_concurrent := md_concurrent (md ?w1 m)\<rparr>) (set_mev e ?w1))"
  have w3: "descendants (md w3 r) = Some D" "GetModuleId w3 a = module_id r w a"
    using a w1 by (auto simp: w3_def GetModuleId_def)
  have w4: "upd_mod r (\<lambda>x. x\<lparr>descendants := Some (D(module_id r w a \<mapsto> a))\<rparr>) w3 =
      set_mods (added r h m a (md ?w1)) (set_mev e ?w1)"
    using a w1 by (auto simp: w3_def upd_mod_def set_mods_def set_mev_def added_def md_def fun_eq_iff)
  have "AddModule onInit h m a w =
    (if D (module_id r w a) \<noteq> None then Inr (None, ?w1)
     else case descendants (md w3 r) of
         None \<Rightarrow> Inl NilMapWrite
       | Some D \<Rightarrow> rbind (onInit a (upd_mod r (\<lambda>x. x\<lparr>descendants := Some (D(GetModuleId w3 a \<mapsto> a))\<rparr>) w3))
           (\<lambda>(ok, w5). if ok then Inr (Some (GetModuleId w5 a), w5)
              else rbind (undo_add m a w5) (\<lambda>w6. Inr (None, w6))))"
    unfolding AddModule_def Module_GetEventProcessor_def hm(1) option.case hm(2) rbind_simps pre get Let_def w3_def e_def
      w1(1) option.sel by simp
  then show ?thesis by (simp add: w3 w4 Let_def e_def [symmetric])
qed

lemma with_id_tree:
  assumes "service_tree r (md w) T" "a \<notin> set (mnodes T)"
  shows "service_tree r (md (with_id r a w)) T"
proof -
  have "mroot T = r" using assms(1) by (simp add: service_tree_def)
  then have "a \<noteq> r" using assms(2) mroot_node [of T] by auto
  show ?thesis
    by (rule service_tree_cong [OF assms(1)]) (use assms(2) \<open>a \<noteq> r\<close> in \<open>auto simp: with_id_def\<close>)
qed

lemma with_id_sel:
  "mev (with_id r a w) = mev w" "md_moduleId (md (with_id r a w) a) = module_id r w a"
  "a \<noteq> r \<Longrightarrow> descendants (md (with_id r a w) x) = descendants (md w x)"
  "md_child (md (with_id r a w) x) = md_child (md w x)"
  by (auto simp: with_id_def module_id_def GetModuleId_def)

text \<open>Undoing the addition after an \<^verbatim>\<open>OnInit\<close> that left the tree as it was: the tree from before.\<close>

lemma is_tree_undo_leaf:
  "is_tree ms (add_leaf m a T) \<Longrightarrow>
    (\<And>x. x \<in> set (mnodes T) \<Longrightarrow> md_child (ms' x) = (if x = m then butlast (md_child (ms x)) else md_child (ms x))) \<Longrightarrow> is_tree ms' T"
  by (induction T) (auto simp: comp_def butlast_append split: if_splits)

lemma undo_add_ok:
  assumes T: "service_tree r (md w) (add_leaf m a T)" and d: "distinct (mnodes T)" and m: "m \<in> set (mnodes T)" and a: "a \<notin> set (mnodes T)"
  shows "\<exists>w'. undo_add m a w = Inr w' \<and> service_tree r (md w') T \<and> mev w' = mev w"
proof -
  note t = service_treeD [OF T]
  note n = add_leaf_nodes [OF d m a]
  have r: "mroot T = r" "r \<in> set (mnodes T)" using t(1) mroot_node [of T] by auto
  have anc: "md_ancestor (md w m) = Some r" using t(4) [of m] m n(2) by simp
  have "md_child (md w m) \<noteq> []" using t(2) m by (induction T) (auto split: if_splits)
  define i where "i = md_moduleId (md w a)"
  let ?w1 = "upd_mod r (\<lambda>x. x\<lparr>descendants := map_option (\<lambda>D. D(i := None)) (descendants x)\<rparr>) w"
  let ?w2 = "upd_mod m (\<lambda>x. x\<lparr>md_child := butlast (md_child x)\<rparr>) ?w1"
  have "undo_add m a w = Inr ?w2" using anc \<open>md_child (md w m) \<noteq> []\<close> by (auto simp: undo_add_def GetModuleId_def Let_def i_def)
  moreover have "service_tree r (md ?w2) T"
  proof -
    obtain D where D: "descendants (md w r) = Some D"
      "\<forall>i x. D i = Some x \<longleftrightarrow> x \<in> set (mnodes (add_leaf m a T)) - {r} \<and> md_moduleId (md w x) = i"
      using T by (auto simp: service_tree_def)
    have ids: "md_moduleId (md ?w2 x) = md_moduleId (md w x)" for x by simp
    have "a \<noteq> r" using a r(2) by auto
    then have "D i = Some a" using D(2) n(2) by (simp add: i_def)
    then have key: "md_moduleId (md w x) \<noteq> i" if "x \<in> set (mnodes T)" "x \<noteq> r" for x
      using D(2) [rule_format, of i x] that n(2) a by auto
    have "(D(i := None)) j = Some x \<longleftrightarrow> x \<in> set (mnodes T) - {r} \<and> md_moduleId (md ?w2 x) = j" for j x
      using D(2) key n(2) a by (auto simp: ids i_def)
    moreover have "descendants (md ?w2 r) = Some (D(i := None))" using D(1) by simp
    moreover have "is_tree (md ?w2) T" by (rule is_tree_undo_leaf [OF t(2)]) simp
    moreover have "md_self (md ?w2 x) = Some x \<and> md_ancestor (md ?w2 x) = Some r \<and> md_eventHandler (md ?w2 x) \<noteq> None"
      if "x \<in> set (mnodes T)" for x using that T n(2) by (auto simp: service_tree_def)
    ultimately show ?thesis using r(1) d unfolding service_tree_def by blast
  qed
  ultimately show ?thesis by simp
qed

text \<open>
  How adding \<open>a\<close> below \<open>m\<close> ends, for any \<^verbatim>\<open>OnInit\<close>. With the id in use it is not called. Otherwise it is called in a
  state whose tree has \<open>a\<close> as a leaf below \<open>m\<close>; when it returns no error, its state is the result; when it fails, the module is
  taken out again, which gives back the tree \<open>T\<close> if \<^verbatim>\<open>OnInit\<close> left the tree as it found it; a panic goes on.
\<close>

definition added_ok :: "nat \<Rightarrow> nat \<Rightarrow> nat \<Rightarrow> nat \<Rightarrow> nat \<Rightarrow> mtree \<Rightarrow> 'c subscriptions \<Rightarrow> 32 word \<Rightarrow> ('c, 'd, 'u) msys \<Rightarrow> bool" where
  "added_ok r m h p a T A i w \<longleftrightarrow> service_tree r (md w) (add_leaf m a T) \<and> ev_rep (mev w) A \<and> GetModuleId w a = i \<and>
     md_parent (md w a) = Some m \<and> md_eventHandler (md w a) = Some h \<and> GetEventProcessor (mev w) h = Some p"

definition init_outcome :: "nat \<Rightarrow> nat \<Rightarrow> nat \<Rightarrow> mtree \<Rightarrow> (bool \<times> ('c, 'd, 'u) msys) go \<Rightarrow>
    (32 word option \<times> ('c, 'd, 'u) msys) go \<Rightarrow> bool" where
  "init_outcome r m a T init res \<longleftrightarrow>
     (case init of
        Inl e \<Rightarrow> res = Inl e
      | Inr (ok, w) \<Rightarrow>
          if ok then res = Inr (Some (GetModuleId w a), w)
          else service_tree r (md w) (add_leaf m a T) \<longrightarrow>
            (\<exists>w'. res = Inr (None, w') \<and> service_tree r (md w') T \<and> mev w' = mev w))"

lemma AddModule_ok:
  assumes T: "service_tree r (md w) T" and m: "m \<in> set (mnodes T)" and a: "a \<notin> set (mnodes T)" "md_child (md w a) = []"
    and hm: "md_eventHandler (md w m) = Some hm" "GetEventProcessor (mev w) hm = Some p"
    and rep: "ev_rep (mev w) A" and h: "A h = Map.empty"
  shows "if rd (descendants (md w r)) (module_id r w a) \<noteq> None
    then \<exists>w'. AddModule onInit h m a w = Inr (None, w') \<and> service_tree r (md w') T \<and> mev w' = mev w
    else \<exists>w'. added_ok r m h p a T A (module_id r w a) w' \<and> init_outcome r m a T (onInit a w') (AddModule onInit h m a w)"
proof -
  note d = service_treeD [OF T]
  have ne: "a \<noteq> r" "a \<noteq> m" using d(1) a(1) m mroot_node [of T] by auto
  obtain D where D: "descendants (md w r) = Some D" using T by (auto simp: service_tree_def)
  let ?i = "module_id r w a"
  let ?w1 = "with_id r a w"
  let ?e = "EventHandler_Init h p (upd_handler h (\<lambda>_. NewEventHandler) (mev ?w1))"
  let ?w4 = "set_mods (added r h m a (md ?w1)) (set_mev ?e ?w1)"
  note add = AddModule_prefix [OF d(4) [OF m] hm ne D, of onInit h, unfolded Let_def]
  have T1: "service_tree r (md ?w1) T" by (rule with_id_tree [OF T a(1)])
  show ?thesis
  proof (cases "D ?i = None")
    case False
    then have "AddModule onInit h m a w = Inr (None, ?w1)" using add by simp
    then show ?thesis using T1 False D by (simp add: with_id_sel rd_def)
  next
    case True
    have new: "rd (descendants (md ?w1 r)) (md_moduleId (md ?w1 a)) = None"
      using True D by (simp add: with_id_sel ne rd_def)
    have "service_tree r (md ?w4) (add_leaf m a T)"
      using service_tree_added [OF T1 m a(1) _ new] by (simp add: with_id_sel a(2))
    moreover have "ev_rep (mev ?w4) A" using fresh_handler_rep [of "mev ?w1" A h p] rep h by (simp add: with_id_sel)
    moreover have "md_self (md ?w1 m) = Some m" using T1 m by (simp add: service_tree_def)
    then have "GetModuleId ?w4 a = ?i" "md_parent (md ?w4 a) = Some m" "md_eventHandler (md ?w4 a) = Some h"
      by (simp_all add: GetModuleId_def added_def with_id_sel)
    ultimately have "added_ok r m h p a T A ?i ?w4" by (simp add: added_ok_def GetEventProcessor_fresh)
    moreover have "init_outcome r m a T (onInit a ?w4) (AddModule onInit h m a w)"
    proof (cases "onInit a ?w4")
      case (Inr okw)
      then show ?thesis using add True undo_add_ok [OF _ d(3) m a(1)]
        by (cases okw) (fastforce simp: init_outcome_def)
    qed (use add True in \<open>simp add: init_outcome_def\<close>)
    ultimately show ?thesis using True D by (auto simp: rd_def)
  qed
qed

end
