(* ===== verification/ModuleTimer.thy ===== *)
theory ModuleTimer
  imports Module
begin

text \<open>
  The timer functions of \<^verbatim>\<open>service/module.go\<close>: a module gives every timer it starts an id of its own and
  keeps it in two maps until the timer is closed. The callbacks a module hands to the timer package
  (\<^verbatim>\<open>OnAddTimer\<close>, \<^verbatim>\<open>OnCloseTimer\<close>) and the callbacks of the application are numbers there; \<open>mod_run\<close>
  says what each number does.
\<close>

text \<open>
  \<^verbatim>\<open>GenTimerId\<close> tries ids until one is free; the seed is shared by all modules. \<open>None\<close> is running out of
  fuel.
\<close>

definition timer_id :: "32 word \<Rightarrow> 32 word \<Rightarrow> 64 word" where
  "timer_id moduleId seed = or (push_bit 32 (ucast moduleId)) (ucast seed)"

fun GenTimerId :: "nat \<Rightarrow> nat \<Rightarrow> ('c, 'd, 'u) msys \<Rightarrow> (64 word \<times> ('c, 'd, 'u) msys) option" where
  "GenTimerId 0 m w = None"
| "GenTimerId (Suc n) m w =
     (let seed = timerSeedId (t_user w) + 1;
          w1 = w\<lparr>t_user := (t_user w)\<lparr>timerSeedId := seed\<rparr>\<rparr>;
          newTimerId = timer_id (GetModuleId w m) seed
      in if rd (mapActiveIdTimer (md w1 m)) newTimerId \<noteq> None then GenTimerId n m w1
         else Some (newTimerId, w1))"

definition OnCloseTimer :: "nat \<Rightarrow> nat \<Rightarrow> ('c, 'd, 'u) msys \<Rightarrow> ('c, 'd, 'u) msys" where
  "OnCloseTimer m t w =
     upd_mod m (\<lambda>x. x\<lparr>mapActiveIdTimer := map_option (\<lambda>f. f(t_Id (t_store w t) := None)) (mapActiveIdTimer x),
                      mapActiveTimer := map_option (\<lambda>S. S - {t}) (mapActiveTimer x)\<rparr>) w"

definition OnAddTimer :: "nat \<Rightarrow> nat \<Rightarrow> ('c, 'd, 'u) msys \<Rightarrow> ('c, 'd, 'u) msys" where
  "OnAddTimer m t w =
     upd_mod m (\<lambda>x. x\<lparr>mapActiveTimer :=
       Some (insert t (case mapActiveTimer x of None \<Rightarrow> {} | Some S \<Rightarrow> S))\<rparr>) w"

text \<open>The id variable of the caller is the first argument; it is set to 0 on success.\<close>

definition CancelTimerId :: "nat \<Rightarrow> 64 word option \<Rightarrow> ('c, 'd, 'u) msys \<Rightarrow> bool \<times> 64 word option \<times> ('c, 'd, 'u) msys" where
  "CancelTimerId m timerId w =
     (case timerId of
        None \<Rightarrow> (False, timerId, w)
      | Some i \<Rightarrow>
          if i = 0 then (False, timerId, w)
          else (case mapActiveIdTimer (md w m) of
                  None \<Rightarrow> (False, timerId, w)
                | Some f \<Rightarrow>
                    (case f i of
                       None \<Rightarrow> (False, timerId, w)
                     | Some t \<Rightarrow> (True, Some 0, Timer_Cancel t w))))"

text \<open>The callbacks of module \<open>m\<close>, and the callback \<open>f\<close> of the application, as numbers.\<close>

definition add_cb :: "nat \<Rightarrow> nat" where
  "add_cb m = 3 * m"

definition close_cb :: "nat \<Rightarrow> nat" where
  "close_cb m = 3 * m + 1"

definition app_cb :: "nat \<Rightarrow> nat" where
  "app_cb f = 3 * f + 2"

definition mod_run :: "(nat \<Rightarrow> nat \<Rightarrow> ('c, 'd, 'u) ModWorld stmt) \<Rightarrow> nat \<Rightarrow> nat \<Rightarrow> ('c, 'd, 'u) ModWorld stmt" where
  "mod_run app f t w =
     (if f mod 3 = 0 then (OnAddTimer (f div 3) t w, True)
      else if f mod 3 = 1 then (OnCloseTimer (f div 3) t w, True)
      else app (f div 3) t w)"

lemma mod_run_simps [simp]:
  "mod_run app (add_cb m) t w = (OnAddTimer m t w, True)"
  "mod_run app (close_cb m) t w = (OnCloseTimer m t w, True)"
  "mod_run app (app_cb f) t w = app f t w"
proof -
  have "(3 * m + 1) div 3 = m" "(3 * m + 1) mod 3 = 1" "(3 * f + 2) div 3 = f" "(3 * f + 2) mod 3 = 2" by presburger+
  then show "mod_run app (add_cb m) t w = (OnAddTimer m t w, True)"
    "mod_run app (close_cb m) t w = (OnCloseTimer m t w, True)" "mod_run app (app_cb f) t w = app f t w"
    unfolding mod_run_def add_cb_def close_cb_def app_cb_def by simp_all
qed

text \<open>\<open>t\<close> gets the id and the data, and is entered under the id.\<close>

definition note_timer :: "nat \<Rightarrow> 64 word \<Rightarrow> nat \<Rightarrow> nat \<Rightarrow> ('c, 'd, 'u) msys \<Rightarrow> ('c, 'd, 'u) msys" where
  "note_timer m i dat t w =
     upd_mod m (\<lambda>x. x\<lparr>mapActiveIdTimer := Some ((rd (mapActiveIdTimer x))(i \<mapsto> t))\<rparr>)
       (upd_timer t (\<lambda>ob. ob\<lparr>AdditionData := dat, t_Id := i\<rparr>) w)"

definition make_id_map :: "nat \<Rightarrow> ('c, 'd, 'u) msys \<Rightarrow> ('c, 'd, 'u) msys" where
  "make_id_map m w = upd_mod m (\<lambda>x. x\<lparr>mapActiveIdTimer := Some (rd (mapActiveIdTimer x))\<rparr>) w"

text \<open>
  \<^verbatim>\<open>SafeAfterFunc\<close>, \<^verbatim>\<open>SafeNewTicker\<close> and \<^verbatim>\<open>SafeCronFunc\<close>: the new value of the caller's id variable and the
  state. \<open>choice\<close> and \<open>fresh\<close> are the pool's choice, as in \<open>AfterFunc\<close>; the outer \<open>None\<close> is running out of
  fuel in \<^verbatim>\<open>GenTimerId\<close>. A nil dispatcher, and a nil cron timer, are dereferenced.
\<close>

definition SafeAfterFunc :: "(nat \<Rightarrow> nat \<Rightarrow> ('c, 'd, 'u) ModWorld stmt) \<Rightarrow> nat \<Rightarrow> nat option \<Rightarrow> nat \<Rightarrow> int \<Rightarrow> nat \<Rightarrow> 64 word \<Rightarrow> int \<Rightarrow>
    nat \<Rightarrow> nat \<Rightarrow> ('c, 'd, 'u) msys \<Rightarrow> (64 word \<times> ('c, 'd, 'u) msys) go option" where
  "SafeAfterFunc app n choice fresh now m timerId d dat cb w =
     (let w1 = make_id_map m w;
          w2 = (if timerId \<noteq> 0 then snd (snd (CancelTimerId m (Some timerId) w1)) else w1)
      in case GenTimerId n m w2 of
           None \<Rightarrow> None
         | Some (i, w3) \<Rightarrow>
             (case md_dispatcher (md w3 m) of
                None \<Rightarrow> Some (Inl NilDereference)
              | Some chn \<Rightarrow>
                  Some (rbind (AfterFunc (mod_run app) choice fresh chn now d (Some (app_cb cb)) None
                           (Some (close_cb m)) (Some (add_cb m)) w3)
                    (\<lambda>(t, w4, ok). Inr (i, note_timer m i dat t w4)))))"

definition SafeNewTicker :: "(nat \<Rightarrow> nat \<Rightarrow> ('c, 'd, 'u) ModWorld stmt) \<Rightarrow> nat \<Rightarrow> nat option \<Rightarrow> nat \<Rightarrow> int \<Rightarrow> nat \<Rightarrow> int \<Rightarrow>
    nat \<Rightarrow> nat \<Rightarrow> ('c, 'd, 'u) msys \<Rightarrow> (64 word \<times> ('c, 'd, 'u) msys) go option" where
  "SafeNewTicker app n choice fresh now m d dat cb w =
     (case GenTimerId n m (make_id_map m w) of
        None \<Rightarrow> None
      | Some (i, w3) \<Rightarrow>
          (case md_dispatcher (md w3 m) of
             None \<Rightarrow> Some (Inl NilDereference)
           | Some chn \<Rightarrow>
               Some (rbind (TickerFunc (mod_run app) choice fresh chn now d (Some (app_cb cb)) None
                        (Some (close_cb m)) (Some (add_cb m)) w3)
                 (\<lambda>(t, w4, ok). Inr (i, note_timer m i dat t w4)))))"

definition SafeCronFunc :: "(nat \<Rightarrow> nat \<Rightarrow> ('c, 'd, 'u) ModWorld stmt) \<Rightarrow> (nat \<Rightarrow> int \<Rightarrow> int option) \<Rightarrow> nat \<Rightarrow> nat option \<Rightarrow> nat \<Rightarrow> int \<Rightarrow>
    nat \<Rightarrow> nat \<Rightarrow> nat \<Rightarrow> nat \<Rightarrow> ('c, 'd, 'u) msys \<Rightarrow> (64 word \<times> ('c, 'd, 'u) msys) go option" where
  "SafeCronFunc app nxt n choice fresh now m ce dat cb w =
     (case GenTimerId n m (make_id_map m w) of
        None \<Rightarrow> None
      | Some (i, w3) \<Rightarrow>
          (case md_dispatcher (md w3 m) of
             None \<Rightarrow> Some (Inl NilDereference)
           | Some chn \<Rightarrow>
               Some (rbind (CronFunc (mod_run app) nxt choice fresh chn now ce (Some (app_cb cb)) None
                        (Some (close_cb m)) (Some (add_cb m)) w3)
                 (\<lambda>(t, w4, ok). case t of
                    None \<Rightarrow> Inl NilDereference
                  | Some t \<Rightarrow> Inr (i, note_timer m i dat t w4)))))"

section \<open>Ids\<close>

lemma bit_timer_id: "bit (timer_id M s) n \<longleftrightarrow> (if n < 32 then bit s n else n < 64 \<and> bit M (n - 32))"
  by (auto simp: timer_id_def bit_simps dest: bit_imp_le_length)

lemma seed_sel [simp]:
  "md (w\<lparr>t_user := (t_user w)\<lparr>timerSeedId := x\<rparr>\<rparr>) = md w"
  "GetModuleId (w\<lparr>t_user := (t_user w)\<lparr>timerSeedId := x\<rparr>\<rparr>) = GetModuleId w"
  by (auto simp: md_def GetModuleId_def fun_eq_iff)

lemma timer_id_inj: "timer_id M s = timer_id M' s' \<longleftrightarrow> M = M' \<and> s = s'"
proof
  assume e: "timer_id M s = timer_id M' s'"
  have "bit s n \<longleftrightarrow> bit s' n" if "n < 32" for n
    using arg_cong [OF e, of "\<lambda>x. bit x n"] that by (simp add: bit_timer_id)
  moreover have "bit M n \<longleftrightarrow> bit M' n" if "n < 32" for n
    using arg_cong [OF e, of "\<lambda>x. bit x (n + 32)"] that by (simp add: bit_timer_id)
  ultimately show "M = M' \<and> s = s'" by (auto intro!: bit_word_eqI)
qed simp

lemma GenTimerId_ok:
  assumes "k < n" "rd (mapActiveIdTimer (md w m)) (timer_id (GetModuleId w m) (timerSeedId (t_user w) + 1 + of_nat k)) = None"
  shows "\<exists>j \<le> k. GenTimerId n m w = Some (timer_id (GetModuleId w m) (timerSeedId (t_user w) + 1 + of_nat j),
      w\<lparr>t_user := (t_user w)\<lparr>timerSeedId := timerSeedId (t_user w) + 1 + of_nat j\<rparr>\<rparr>) \<and>
    rd (mapActiveIdTimer (md w m)) (timer_id (GetModuleId w m) (timerSeedId (t_user w) + 1 + of_nat j)) = None"
  using assms
proof (induction n arbitrary: k w)
  case (Suc n)
  let ?w1 = "w\<lparr>t_user := (t_user w)\<lparr>timerSeedId := timerSeedId (t_user w) + 1\<rparr>\<rparr>"
  show ?case
  proof (cases "rd (mapActiveIdTimer (md w m)) (timer_id (GetModuleId w m) (timerSeedId (t_user w) + 1))")
    case None
    then show ?thesis by (intro exI [of _ 0]) (simp add: Let_def)
  next
    case (Some t)
    with Suc.prems(2) obtain k' where k': "k = Suc k'" by (cases k) auto
    have "rd (mapActiveIdTimer (md ?w1 m)) (timer_id (GetModuleId ?w1 m) (timerSeedId (t_user ?w1) + 1 + of_nat k')) = None"
      using Suc.prems(2) by (simp add: k' add_ac)
    from Suc.IH [OF _ this] Suc.prems(1) k' obtain j where j: "j \<le> k'"
      "GenTimerId n m ?w1 = Some (timer_id (GetModuleId w m) (timerSeedId (t_user w) + 1 + of_nat (Suc j)),
        w\<lparr>t_user := (t_user w)\<lparr>timerSeedId := timerSeedId (t_user w) + 1 + of_nat (Suc j)\<rparr>\<rparr>)"
      "rd (mapActiveIdTimer (md w m)) (timer_id (GetModuleId w m) (timerSeedId (t_user w) + 1 + of_nat (Suc j))) = None"
      by (auto simp: add_ac)
    then show ?thesis using Some k' by (intro exI [of _ "Suc j"]) (simp add: Let_def)
  qed
qed simp

text \<open>With fewer timers than there are seeds one of the next ids is free.\<close>

lemma free_id_exists:
  fixes f :: "64 word \<rightharpoonup> nat" and M s :: "32 word"
  assumes "finite (dom f)" "card (dom f) < 2 ^ 32"
  shows "\<exists>k \<le> card (dom f). f (timer_id M (s + 1 + of_nat k)) = None"
proof (rule ccontr)
  assume a: "\<not> ?thesis"
  let ?g = "\<lambda>k. timer_id M (s + 1 + of_nat k)"
  have "inj_on ?g {..card (dom f)}"
  proof (rule inj_onI)
    fix x y assume xy: "x \<in> {..card (dom f)}" "y \<in> {..card (dom f)}" "?g x = ?g y"
    then have "(of_nat x :: 32 word) = of_nat y" by (simp add: timer_id_inj)
    then have "unat (of_nat x :: 32 word) = unat (of_nat y :: 32 word)" by simp
    then show "x = y" using xy(1,2) assms(2) by (simp add: unat_of_nat)
  qed
  moreover have "?g ` {..card (dom f)} \<subseteq> dom f" using a by auto
  ultimately have "Suc (card (dom f)) \<le> card (dom f)" using card_inj_on_le [OF _ _ assms(1)] by fastforce
  then show False by simp
qed

lemma GenTimerId_free:
  assumes "finite (dom (rd (mapActiveIdTimer (md w m))))" "card (dom (rd (mapActiveIdTimer (md w m)))) < 2 ^ 32"
    "card (dom (rd (mapActiveIdTimer (md w m)))) < n"
  obtains seed where "GenTimerId n m w = Some (timer_id (GetModuleId w m) seed, w\<lparr>t_user := (t_user w)\<lparr>timerSeedId := seed\<rparr>\<rparr>)"
    "rd (mapActiveIdTimer (md w m)) (timer_id (GetModuleId w m) seed) = None"
proof -
  obtain k where k: "k \<le> card (dom (rd (mapActiveIdTimer (md w m))))"
    "rd (mapActiveIdTimer (md w m)) (timer_id (GetModuleId w m) (timerSeedId (t_user w) + 1 + of_nat k)) = None"
    using free_id_exists [OF assms(1,2), of "GetModuleId w m" "timerSeedId (t_user w)"] by auto
  have "k < n" using k(1) assms(3) by simp
  from GenTimerId_ok [OF this k(2)] show ?thesis using that by blast
qed

section \<open>Starting, cancelling and closing\<close>

lemma tpool_Get_fresh:
  "tpool_Get None t k w = Inr (t, upd_timer t (\<lambda>_. (emptyTimer k)\<lparr>t_ref := True\<rparr>) w)"
  by (simp add: tpool_Get_def upd_timer_def emptyTimer_def)

lemma timer_inv_user: "timer_inv (w\<lparr>t_user := u\<rparr>) = timer_inv w"
  by (simp add: timer_inv_def)

lemma timer_inv_upd_mod [simp]: "timer_inv (upd_mod m f w) = timer_inv w"
  by (simp add: upd_mod_def set_mods_def timer_inv_user)

lemma timers_upd [simp]: "timers (upd_mod m f w) = timers w" "timers (upd_timer t g v) = timers v"
  by (simp_all add: upd_mod_def set_mods_def upd_timer_def)

lemma upd_timer_twice: "upd_timer t f (upd_timer t g w) = upd_timer t (\<lambda>ob. f (g ob)) w"
  by (simp add: upd_timer_def)

lemma timer_inv_closed:
  assumes "timer_inv w" "t \<notin> set (timers w)" "\<not> rOpen (f (t_store w t))"
  shows "timer_inv (upd_timer t f w)"
proof -
  have "heap_list (\<lambda>u. fireTime (t_store w u)) (timers w)" using assms(1) by (simp add: timer_inv_def)
  moreover have "fireTime (t_store (upd_timer t f w) u) = fireTime (t_store w u)" if "u \<in> set (timers w)" for u
    using assms(2) that by (auto simp: upd_timer_def)
  ultimately have "heap_list (\<lambda>u. fireTime (t_store (upd_timer t f w) u)) (timers w)"
    using heap_list_cong [of "timers w" "\<lambda>u. fireTime (t_store (upd_timer t f w) u)" "\<lambda>u. fireTime (t_store w u)"] by blast
  then show ?thesis using assms by (auto simp: timer_inv_def upd_timer_def)
qed

text \<open>
  Setting up a timer object that is not in use: it is in the heap, open, with the fields it was given;
  nothing else has changed.
\<close>

lemma setup_new:
  assumes inv: "timer_inv w" "t \<notin> set (timers w)" and ob: "\<not> rOpen ob"
  obtains ts where "SetupTimer t (upd_timer t (\<lambda>_. ob) w) = (True, (upd_timer t (\<lambda>_. ob\<lparr>rOpen := True\<rparr>) w)\<lparr>timers := ts\<rparr>)"
    "mset ts = add_mset t (mset (timers w))" "timer_inv ((upd_timer t (\<lambda>_. ob\<lparr>rOpen := True\<rparr>) w)\<lparr>timers := ts\<rparr>)"
proof -
  let ?w = "upd_timer t (\<lambda>_. ob) w"
  have "timer_inv ?w" by (rule timer_inv_closed) (use inv ob in auto)
  moreover have "\<not> rOpen (t_store ?w t)" using ob by (simp add: upd_timer_def)
  ultimately obtain ts where "SetupTimer t ?w = (True, (upd_timer t (\<lambda>ob. ob\<lparr>rOpen := True\<rparr>) ?w)\<lparr>timers := ts\<rparr>)"
    "mset ts = add_mset t (mset (timers ?w))" "timer_inv ((upd_timer t (\<lambda>ob. ob\<lparr>rOpen := True\<rparr>) ?w)\<lparr>timers := ts\<rparr>)"
    by (rule SetupTimer_ok)
  then show ?thesis using that by (simp add: upd_timer_twice)
qed

definition after_ob :: "nat \<Rightarrow> nat \<Rightarrow> int \<Rightarrow> int \<Rightarrow> nat \<Rightarrow> TimerObj" where
  "after_ob chn m now d cb = (emptyTimer KTimer)\<lparr>t_ref := True, t_C := Some chn, fireTime := now + d, interval := d,
     t_cb := Some (app_cb cb), cbOnCloseTimer := Some (close_cb m)\<rparr>"

definition ticker_ob :: "nat \<Rightarrow> int \<Rightarrow> int \<Rightarrow> nat \<Rightarrow> TimerObj" where
  "ticker_ob chn now d cb = (emptyTimer KTicker)\<lparr>t_ref := True, t_C := Some chn, fireTime := now + d, interval := d,
     t_cb := Some (app_cb cb)\<rparr>"

lemma AfterFunc_new:
  assumes "timer_inv w" "t \<notin> set (timers w)"
  obtains ts where "AfterFunc (mod_run app) None t chn now d (Some (app_cb cb)) None (Some (close_cb m)) (Some (add_cb m)) w =
      Inr (t, OnAddTimer m t ((upd_timer t (\<lambda>_. (after_ob chn m now d cb)\<lparr>rOpen := True\<rparr>) w)\<lparr>timers := ts\<rparr>), True)"
    "mset ts = add_mset t (mset (timers w))" "timer_inv ((upd_timer t (\<lambda>_. (after_ob chn m now d cb)\<lparr>rOpen := True\<rparr>) w)\<lparr>timers := ts\<rparr>)"
proof -
  obtain ts where "SetupTimer t (upd_timer t (\<lambda>_. after_ob chn m now d cb) w) =
      (True, (upd_timer t (\<lambda>_. (after_ob chn m now d cb)\<lparr>rOpen := True\<rparr>) w)\<lparr>timers := ts\<rparr>)"
    "mset ts = add_mset t (mset (timers w))" "timer_inv ((upd_timer t (\<lambda>_. (after_ob chn m now d cb)\<lparr>rOpen := True\<rparr>) w)\<lparr>timers := ts\<rparr>)"
    by (rule setup_new [OF assms, of "after_ob chn m now d cb"]) (simp_all add: after_ob_def emptyTimer_def)
  moreover have "AfterFunc (mod_run app) None t chn now d (Some (app_cb cb)) None (Some (close_cb m)) (Some (add_cb m)) w =
    (let (r, w3) = SetupTimer t (upd_timer t (\<lambda>_. after_ob chn m now d cb) w);
         (w4, ok) = (if r then call_opt (mod_run app) (Some (add_cb m)) t w3 else (w3, True)) in Inr (t, w4, ok))"
    by (simp add: AfterFunc_def newTimer_def tpool_Get_fresh upd_timer_twice after_ob_def emptyTimer_def Let_def)
  ultimately show ?thesis using that by (simp add: call_opt_def)
qed

lemma TickerFunc_new:
  assumes "timer_inv w" "t \<notin> set (timers w)"
  obtains ts where "TickerFunc (mod_run app) None t chn now d (Some (app_cb cb)) None (Some (close_cb m)) (Some (add_cb m)) w =
      Inr (t, OnAddTimer m t ((upd_timer t (\<lambda>_. (ticker_ob chn now d cb)\<lparr>rOpen := True\<rparr>) w)\<lparr>timers := ts\<rparr>), True)"
    "mset ts = add_mset t (mset (timers w))" "timer_inv ((upd_timer t (\<lambda>_. (ticker_ob chn now d cb)\<lparr>rOpen := True\<rparr>) w)\<lparr>timers := ts\<rparr>)"
proof -
  obtain ts where "SetupTimer t (upd_timer t (\<lambda>_. ticker_ob chn now d cb) w) =
      (True, (upd_timer t (\<lambda>_. (ticker_ob chn now d cb)\<lparr>rOpen := True\<rparr>) w)\<lparr>timers := ts\<rparr>)"
    "mset ts = add_mset t (mset (timers w))" "timer_inv ((upd_timer t (\<lambda>_. (ticker_ob chn now d cb)\<lparr>rOpen := True\<rparr>) w)\<lparr>timers := ts\<rparr>)"
    by (rule setup_new [OF assms, of "ticker_ob chn now d cb"]) (simp_all add: ticker_ob_def emptyTimer_def)
  moreover have "TickerFunc (mod_run app) None t chn now d (Some (app_cb cb)) None (Some (close_cb m)) (Some (add_cb m)) w =
    (let w3 = snd (SetupTimer t (upd_timer t (\<lambda>_. ticker_ob chn now d cb) w)); (w4, ok) = mod_run app (add_cb m) t w3 in Inr (t, w4, ok))"
    by (simp add: TickerFunc_def tpool_Get_fresh upd_timer_twice ticker_ob_def emptyTimer_def Let_def)
  ultimately show ?thesis using that by simp
qed

text \<open>
  \<open>started\<close>: module \<open>m\<close> has the timer \<open>t\<close> under the id \<open>i\<close>, in both maps; the timer is set up for the time
  \<open>ft\<close>, carries the id, and closes with \<open>cl\<close>.
\<close>

definition started :: "nat \<Rightarrow> 64 word \<Rightarrow> nat \<Rightarrow> int \<Rightarrow> nat option \<Rightarrow> ('c, 'd, 'u) msys \<Rightarrow> ('c, 'd, 'u) msys \<Rightarrow> bool" where
  "started m i t ft cl w w' \<longleftrightarrow>
     timer_inv w' \<and> t \<in> set (timers w') \<and> fireTime (t_store w' t) = ft \<and> IsActive t w' \<and>
     t_Id (t_store w' t) = i \<and> t_ref (t_store w' t) \<and> cbOnCloseTimer (t_store w' t) = cl \<and>
     rd (mapActiveIdTimer (md w' m)) = (rd (mapActiveIdTimer (md w m)))(i \<mapsto> t) \<and>
     rd (mapActiveIdTimer (md w m)) i = None \<and>
     mapActiveTimer (md w' m) = Some (insert t (case mapActiveTimer (md w m) of None \<Rightarrow> {} | Some S \<Rightarrow> S))"

lemma note_started:
  assumes "timer_inv ((upd_timer t (\<lambda>_. ob\<lparr>rOpen := True\<rparr>) w)\<lparr>timers := ts\<rparr>)" "mset ts = add_mset t (mset (timers w))"
    "mapActiveTimer (md w m) = mapActiveTimer (md w0 m)" "rd (mapActiveIdTimer (md w m)) = rd (mapActiveIdTimer (md w0 m))"
    "rd (mapActiveIdTimer (md w0 m)) i = None" "\<not> cancelled ob" "t_ref ob"
  shows "started m i t (fireTime ob) (cbOnCloseTimer ob) w0
    (note_timer m i dat t (OnAddTimer m t ((upd_timer t (\<lambda>_. ob\<lparr>rOpen := True\<rparr>) w)\<lparr>timers := ts\<rparr>)))"
proof -
  let ?v = "(upd_timer t (\<lambda>_. ob\<lparr>rOpen := True\<rparr>) w)\<lparr>timers := ts\<rparr>"
  let ?w' = "note_timer m i dat t (OnAddTimer m t ?v)"
  have t: "t \<in> set ts" using assms(2) by (metis union_single_eq_member set_mset_mset)
  have st: "t_store ?w' = (t_store ?v)(t := (t_store ?v t)\<lparr>AdditionData := dat, t_Id := i\<rparr>)"
    by (simp add: note_timer_def OnAddTimer_def) (simp add: upd_timer_def)
  have tm: "timers ?w' = ts" by (simp add: note_timer_def OnAddTimer_def)
  have "fireTime (t_store ?w' u) = fireTime (t_store ?v u)" "rOpen (t_store ?w' u) = rOpen (t_store ?v u)" for u
    by (simp_all add: st)
  then have "timer_inv ?w'" using assms(1) tm by (simp add: timer_inv_def)
  moreover have "md ?v = md w" by (simp add: md_def upd_timer_def fun_eq_iff)
  then have "rd (mapActiveIdTimer (md ?w' m)) = (rd (mapActiveIdTimer (md w0 m)))(i \<mapsto> t)"
    "mapActiveTimer (md ?w' m) = Some (insert t (case mapActiveTimer (md w0 m) of None \<Rightarrow> {} | Some S \<Rightarrow> S))"
    using assms(3,4) by (simp_all add: note_timer_def OnAddTimer_def rd_def md_def upd_timer_def upd_mod_def set_mods_def)
  moreover have "t_store ?w' t = ob\<lparr>rOpen := True, AdditionData := dat, t_Id := i\<rparr>" by (simp add: st) (simp add: upd_timer_def)
  ultimately show ?thesis
    using assms(5-7) t tm by (simp add: started_def IsActive_def)
qed

lemma make_id_map_sel [simp]:
  "timer_inv (make_id_map m w) = timer_inv w" "timers (make_id_map m w) = timers w"
  "mapActiveTimer (md (make_id_map m w) x) = mapActiveTimer (md w x)"
  "rd (mapActiveIdTimer (md (make_id_map m w) x)) = rd (mapActiveIdTimer (md w x))"
  "md_dispatcher (md (make_id_map m w) x) = md_dispatcher (md w x)"
  "GetModuleId (make_id_map m w) x = GetModuleId w x"
  by (auto simp: make_id_map_def rd_def GetModuleId_def)

definition few_timers :: "nat \<Rightarrow> nat \<Rightarrow> ('c, 'd, 'u) msys \<Rightarrow> bool" where
  "few_timers n m w \<longleftrightarrow> finite (dom (rd (mapActiveIdTimer (md w m)))) \<and>
     card (dom (rd (mapActiveIdTimer (md w m)))) < n \<and> n \<le> 2 ^ 32"

lemma gen_id:
  assumes "few_timers n m w"
  obtains seed w3 where "GenTimerId n m (make_id_map m w) = Some (timer_id (GetModuleId w m) seed, w3)"
    "rd (mapActiveIdTimer (md w m)) (timer_id (GetModuleId w m) seed) = None" "md w3 = md (make_id_map m w)"
    "timer_inv w3 = timer_inv w" "timers w3 = timers w"
proof -
  have "card (dom (rd (mapActiveIdTimer (md w m)))) < 2 ^ 32" using assms by (auto simp: few_timers_def)
  with assms obtain seed where "GenTimerId n m (make_id_map m w) = Some (timer_id (GetModuleId w m) seed,
      (make_id_map m w)\<lparr>t_user := (t_user (make_id_map m w))\<lparr>timerSeedId := seed\<rparr>\<rparr>)"
    "rd (mapActiveIdTimer (md w m)) (timer_id (GetModuleId w m) seed) = None"
    using GenTimerId_free [of "make_id_map m w" m n] by (auto simp: few_timers_def)
  then show ?thesis by (rule that) (simp_all add: timer_inv_user)
qed

lemma SafeAfterFunc_started:
  assumes inv: "timer_inv w" and t: "t \<notin> set (timers w)" and few: "few_timers n m w"
    and disp: "md_dispatcher (md w m) = Some chn"
  obtains seed w' where "SafeAfterFunc app n None t now m 0 d dat cb w = Some (Inr (timer_id (GetModuleId w m) seed, w'))"
    "started m (timer_id (GetModuleId w m) seed) t (now + d) (Some (close_cb m)) w w'"
proof -
  obtain seed w3 where g: "GenTimerId n m (make_id_map m w) = Some (timer_id (GetModuleId w m) seed, w3)"
    "rd (mapActiveIdTimer (md w m)) (timer_id (GetModuleId w m) seed) = None" "md w3 = md (make_id_map m w)"
    "timer_inv w3 = timer_inv w" "timers w3 = timers w" by (rule gen_id [OF few])
  obtain ts where ts: "AfterFunc (mod_run app) None t chn now d (Some (app_cb cb)) None (Some (close_cb m)) (Some (add_cb m)) w3 =
      Inr (t, OnAddTimer m t ((upd_timer t (\<lambda>_. (after_ob chn m now d cb)\<lparr>rOpen := True\<rparr>) w3)\<lparr>timers := ts\<rparr>), True)"
    "mset ts = add_mset t (mset (timers w3))" "timer_inv ((upd_timer t (\<lambda>_. (after_ob chn m now d cb)\<lparr>rOpen := True\<rparr>) w3)\<lparr>timers := ts\<rparr>)"
    by (rule AfterFunc_new [of w3 t]) (use inv t g in auto)
  note st = note_started [OF ts(3,2), of m w "timer_id (GetModuleId w m) seed" dat]
  have "fireTime (after_ob chn m now d cb) = now + d" "cbOnCloseTimer (after_ob chn m now d cb) = Some (close_cb m)" "\<not> cancelled (after_ob chn m now d cb)" "t_ref (after_ob chn m now d cb)"
    by (simp_all add: after_ob_def emptyTimer_def)
  with st have "started m (timer_id (GetModuleId w m) seed) t (now + d) (Some (close_cb m)) w
    (note_timer m (timer_id (GetModuleId w m) seed) dat t
      (OnAddTimer m t ((upd_timer t (\<lambda>_. (after_ob chn m now d cb)\<lparr>rOpen := True\<rparr>) w3)\<lparr>timers := ts\<rparr>)))"
    using g by simp
  then show ?thesis
    by (rule that [rotated]) (use g disp ts(1) in \<open>simp add: SafeAfterFunc_def Let_def\<close>)
qed

lemma SafeNewTicker_started:
  assumes inv: "timer_inv w" and t: "t \<notin> set (timers w)" and few: "few_timers n m w"
    and disp: "md_dispatcher (md w m) = Some chn"
  obtains seed w' where "SafeNewTicker app n None t now m d dat cb w = Some (Inr (timer_id (GetModuleId w m) seed, w'))"
    "started m (timer_id (GetModuleId w m) seed) t (now + d) None w w'"
proof -
  obtain seed w3 where g: "GenTimerId n m (make_id_map m w) = Some (timer_id (GetModuleId w m) seed, w3)"
    "rd (mapActiveIdTimer (md w m)) (timer_id (GetModuleId w m) seed) = None" "md w3 = md (make_id_map m w)"
    "timer_inv w3 = timer_inv w" "timers w3 = timers w" by (rule gen_id [OF few])
  obtain ts where ts: "TickerFunc (mod_run app) None t chn now d (Some (app_cb cb)) None (Some (close_cb m)) (Some (add_cb m)) w3 =
      Inr (t, OnAddTimer m t ((upd_timer t (\<lambda>_. (ticker_ob chn now d cb)\<lparr>rOpen := True\<rparr>) w3)\<lparr>timers := ts\<rparr>), True)"
    "mset ts = add_mset t (mset (timers w3))" "timer_inv ((upd_timer t (\<lambda>_. (ticker_ob chn now d cb)\<lparr>rOpen := True\<rparr>) w3)\<lparr>timers := ts\<rparr>)"
    by (rule TickerFunc_new [of w3 t]) (use inv t g in auto)
  note st = note_started [OF ts(3,2), of m w "timer_id (GetModuleId w m) seed" dat]
  have "fireTime (ticker_ob chn now d cb) = now + d" "cbOnCloseTimer (ticker_ob chn now d cb) = None" "\<not> cancelled (ticker_ob chn now d cb)" "t_ref (ticker_ob chn now d cb)"
    by (simp_all add: ticker_ob_def emptyTimer_def)
  with st have "started m (timer_id (GetModuleId w m) seed) t (now + d) (None) w
    (note_timer m (timer_id (GetModuleId w m) seed) dat t
      (OnAddTimer m t ((upd_timer t (\<lambda>_. (ticker_ob chn now d cb)\<lparr>rOpen := True\<rparr>) w3)\<lparr>timers := ts\<rparr>)))"
    using g by simp
  then show ?thesis
    by (rule that [rotated]) (use g disp ts(1) in \<open>simp add: SafeNewTicker_def Let_def\<close>)
qed

lemma CancelTimerId_started:
  assumes "started m i t ft cl w w'" "i \<noteq> 0"
  shows "CancelTimerId m (Some i) w' = (True, Some 0, Timer_Cancel t w')"
proof -
  have "rd (mapActiveIdTimer (md w' m)) i = Some t" using assms(1) by (simp add: started_def)
  then obtain f where "mapActiveIdTimer (md w' m) = Some f" "f i = Some t"
    by (cases "mapActiveIdTimer (md w' m)") (auto simp: rd_def)
  then show ?thesis using assms(2) by (simp add: CancelTimerId_def)
qed

text \<open>A cancelled timer, when its turn comes, leaves the maps of its module and goes back to the pool.\<close>

lemma cancelled_timer_closes:
  assumes "\<not> IsActive t w" "t_ref (t_store w t)" "cbOnCloseTimer (t_store w t) = Some (close_cb m)"
  shows "Timer_Do (mod_run app) t w = released KTimer t (OnCloseTimer m t w)"
  using assms
  by (simp add: Timer_Do_def Timer_Do_body_def close_timer_def seq_stmt_def call_opt_def tpool_Put_def OnCloseTimer_def
      released_def Let_def) (simp add: upd_timer_def OnCloseTimer_def)

text \<open>A cancelled ticker goes back to the pool without telling its module.\<close>

lemma cancelled_ticker_kept:
  assumes "\<not> IsActive t w" "t_ref (t_store w t)" "cbOnCloseTimer (t_store w t) = None"
  shows "Ticker_Do (mod_run app) now t w = released KTicker t w"
  using assms
  by (simp add: Ticker_Do_def Ticker_Do_body_def close_timer_def seq_stmt_def call_opt_def skip_stmt_def tpool_Put_def
      released_def Let_def upd_timer_def)

end
