(* ===== verification/SkipList.thy ===== *)
theory SkipList
  imports Prelude
begin

text \<open>
  \<^verbatim>\<open>util/algorithms/skip\<close>: the skip list of the rank service (\<open>skip.go\<close>, \<open>node.go\<close>, \<open>iterator.go\<close>). Nodes are
  objects with an address in a store; \<open>sl_next\<close> is the next address to allocate. Every node has a slice of
  forward pointers and, next to each pointer, the distance it covers, so that entries can be addressed by
  position; the two slices are made with the same length, so one bounds check stands for both. The
  positions and distances are \<^verbatim>\<open>uint64\<close>: a distance next to a nil pointer is never read but may be any
  number, even one below zero that has wrapped around. The comparison of two entries and the coin tosses
  of \<^verbatim>\<open>generateLevel\<close> are arguments. The two slices the list keeps for the search path (\<^verbatim>\<open>cache\<close>,
  \<^verbatim>\<open>posCache\<close>) are state, because an operation on an empty list uses what the operation before has left.
\<close>

section \<open>State\<close>

record 'a snode =
  forward :: "nat option list"
  preNode :: "nat option"
  widths :: "64 word list"
  entry :: "'a option"

record 'a SkipList =
  sl_store :: "nat \<Rightarrow> 'a snode"
  sl_next :: nat
  maxLevel :: nat
  sl_level :: nat
  sl_head :: nat
  sl_num :: "64 word"
  sl_cache :: "nat option list"
  posCache :: "64 word list"

definition newNode :: "'a option \<Rightarrow> nat \<Rightarrow> 'a snode" where
  "newNode c maxLevels = \<lparr>forward = replicate maxLevels None, preNode = None, widths = replicate maxLevels 0, entry = c\<rparr>"

definition nd :: "'a SkipList \<Rightarrow> nat \<Rightarrow> 'a snode" where
  "nd sl a = sl_store sl a"

definition upd_snode :: "nat \<Rightarrow> ('a snode \<Rightarrow> 'a snode) \<Rightarrow> 'a SkipList \<Rightarrow> 'a SkipList" where
  "upd_snode a f sl = sl\<lparr>sl_store := (sl_store sl)(a := f (sl_store sl a))\<rparr>"

text \<open>\<^verbatim>\<open>n.forward[i]\<close>, and the two assignments \<^verbatim>\<open>n.forward[i] = x\<close> and \<^verbatim>\<open>n.widths[i] = v\<close>.\<close>

definition fwd :: "'a SkipList \<Rightarrow> nat \<Rightarrow> nat \<Rightarrow> nat option go" where
  "fwd sl a i = (if i < length (forward (nd sl a)) then Inr (forward (nd sl a) ! i) else Inl IndexOutOfRange)"

definition set_fwd :: "nat \<Rightarrow> nat \<Rightarrow> nat option \<Rightarrow> 'a SkipList \<Rightarrow> 'a SkipList" where
  "set_fwd a i x sl = upd_snode a (\<lambda>n. n\<lparr>forward := (forward n)[i := x]\<rparr>) sl"

definition set_width :: "nat \<Rightarrow> nat \<Rightarrow> 64 word \<Rightarrow> 'a SkipList \<Rightarrow> 'a SkipList" where
  "set_width a i v sl = upd_snode a (\<lambda>n. n\<lparr>widths := (widths n)[i := v]\<rparr>) sl"

definition set_pre :: "nat \<Rightarrow> nat option \<Rightarrow> 'a SkipList \<Rightarrow> 'a SkipList" where
  "set_pre a x sl = upd_snode a (\<lambda>n. n\<lparr>preNode := x\<rparr>) sl"

definition width :: "'a SkipList \<Rightarrow> nat \<Rightarrow> nat \<Rightarrow> 64 word" where
  "width sl a i = widths (nd sl a) ! i"

text \<open>\<^verbatim>\<open>n.Compare(c)\<close>; the entry of the head is nil.\<close>

definition node_Compare :: "('a \<Rightarrow> 'a \<Rightarrow> int) \<Rightarrow> 'a SkipList \<Rightarrow> nat \<Rightarrow> 'a \<Rightarrow> int go" where
  "node_Compare cmp sl a c = (case entry (nd sl a) of None \<Rightarrow> Inl NilDereference | Some e \<Rightarrow> Inr (cmp e c))"

definition at_cache :: "nat option list \<Rightarrow> nat \<Rightarrow> nat go" where
  "at_cache cache i =
     (if i < length cache then (case cache ! i of None \<Rightarrow> Inl NilDereference | Some a \<Rightarrow> Inr a)
      else Inl IndexOutOfRange)"

text \<open>The argument of \<^verbatim>\<open>init\<close> is one of Go's unsigned integer types, given by its size; any other leaves 0.\<close>

definition init_level :: "nat \<Rightarrow> nat" where
  "init_level bits = (if bits \<in> {8, 16, 32, 64} then bits else 0)"

definition SkipList_New :: "nat \<Rightarrow> 'a SkipList" where
  "SkipList_New bits =
     (let m = init_level bits
      in \<lparr>sl_store = (\<lambda>_. newNode None m), sl_next = 1, maxLevel = m, sl_level = 0, sl_head = 0, sl_num = 0,
          sl_cache = replicate m None, posCache = replicate m 0\<rparr>)"

section \<open>Levels\<close>

text \<open>\<open>toss l\<close> is whether the draw at level \<open>l\<close> ends the loop; \<^verbatim>\<open>maxLevel-1\<close> is computed in 8 bits.\<close>

function gen_from :: "(nat \<Rightarrow> bool) \<Rightarrow> nat \<Rightarrow> nat \<Rightarrow> nat" where
  "gen_from toss lim l = (if l < lim then (if toss l then l else gen_from toss lim (Suc l)) else l)"
  by pat_completeness auto
termination by (relation "measure (\<lambda>(toss, lim, l). lim - l)") auto

declare gen_from.simps [simp del]

definition generateLevel :: "(nat \<Rightarrow> bool) \<Rightarrow> nat \<Rightarrow> nat" where
  "generateLevel toss mx = gen_from toss ((mx + 255) mod 256) 1"

section \<open>Searching\<close>

text \<open>
  The inner loop of both searches: \<open>go x q\<close> says whether to advance to \<open>x\<close>, at position \<open>q\<close>. It has no
  bound of its own; \<open>None\<close> is that it does not end.
\<close>

partial_function (option) walk_level :: "'a SkipList \<Rightarrow> nat \<Rightarrow> (nat \<Rightarrow> 64 word \<Rightarrow> bool go) \<Rightarrow> nat \<Rightarrow> 64 word \<Rightarrow> (nat \<times> 64 word) go option" where
  "walk_level sl off go n pos =
     (case fwd sl n off of
        Inl e \<Rightarrow> Some (Inl e)
      | Inr None \<Rightarrow> Some (Inr (n, pos))
      | Inr (Some x) \<Rightarrow>
          (case go x (pos + width sl n off) of
             Inl e \<Rightarrow> Some (Inl e)
           | Inr b \<Rightarrow> if b then walk_level sl off go x (pos + width sl n off) else Some (Inr (n, pos))))"

text \<open>The outer loop, from level \<open>off\<close> down to 0; \<open>chk\<close> is \<^verbatim>\<open>alreadyChecked\<close>, \<open>upd\<close> the slices to note the path in.\<close>

definition note_path :: "nat \<Rightarrow> nat \<Rightarrow> 64 word \<Rightarrow> (nat option list \<times> 64 word list) option \<Rightarrow> (nat option list \<times> 64 word list) option go" where
  "note_path off n pos upd =
     (case upd of
        None \<Rightarrow> Inr None
      | Some (u, v) \<Rightarrow>
          if off < length u \<and> off < length v then Inr (Some (u[off := Some n], v[off := pos])) else Inl IndexOutOfRange)"

primrec descend :: "'a SkipList \<Rightarrow> (nat option \<Rightarrow> nat \<Rightarrow> 64 word \<Rightarrow> bool go) \<Rightarrow> nat \<Rightarrow> nat option \<Rightarrow> nat \<Rightarrow> 64 word \<Rightarrow>
    (nat option list \<times> 64 word list) option \<Rightarrow> (nat \<times> 64 word \<times> (nat option list \<times> 64 word list) option) go option" where
  "descend sl go 0 chk n pos upd =
     (case walk_level sl 0 (go chk) n pos of
        None \<Rightarrow> None
      | Some r \<Rightarrow> Some (rbind r (\<lambda>(n, pos). rbind (note_path 0 n pos upd) (\<lambda>upd. Inr (n, pos, upd)))))"
| "descend sl go (Suc off) chk n pos upd =
     (case walk_level sl (Suc off) (go chk) n pos of
        None \<Rightarrow> None
      | Some (Inl e) \<Rightarrow> Some (Inl e)
      | Some (Inr (n, pos)) \<Rightarrow>
          (case note_path (Suc off) n pos upd of
             Inl e \<Rightarrow> Some (Inl e)
           | Inr upd \<Rightarrow> descend sl go off (Some n) n pos upd))"

definition SkipList_Len :: "'a SkipList \<Rightarrow> 64 word" where
  "SkipList_Len sl = sl_num sl"

definition before_cmp :: "('a \<Rightarrow> 'a \<Rightarrow> int) \<Rightarrow> 'a SkipList \<Rightarrow> 'a \<Rightarrow> nat option \<Rightarrow> nat \<Rightarrow> 64 word \<Rightarrow> bool go" where
  "before_cmp cmp sl c chk x pos =
     (if chk = Some x then Inr False else rbind (node_Compare cmp sl x c) (\<lambda>r. Inr (r < 0)))"

text \<open>The results: the node (nil as \<open>None\<close>), the position, and the slices given.\<close>

definition search :: "('a \<Rightarrow> 'a \<Rightarrow> int) \<Rightarrow> 'a SkipList \<Rightarrow> 'a \<Rightarrow> (nat option list \<times> 64 word list) option \<Rightarrow>
    (nat option \<times> 64 word \<times> (nat option list \<times> 64 word list) option) go option" where
  "search cmp sl c upd =
     (if SkipList_Len sl = 0 then Some (Inr (None, 1, upd))
      else
        (case descend sl (before_cmp cmp sl c) (sl_level sl) None (sl_head sl) 0 upd of
           None \<Rightarrow> None
         | Some r \<Rightarrow> Some (rbind r (\<lambda>(n, pos, upd). rbind (fwd sl n 0) (\<lambda>x. Inr (x, pos + 1, upd))))))"

definition searchByPosition :: "'a SkipList \<Rightarrow> 64 word \<Rightarrow> (nat option list \<times> 64 word list) option \<Rightarrow>
    (nat option \<times> 64 word \<times> (nat option list \<times> 64 word list) option) go option" where
  "searchByPosition sl position upd =
     (if SkipList_Len sl = 0 \<or> position > SkipList_Len sl then Some (Inr (None, 1, upd))
      else
        (case descend sl (\<lambda>_ x q. Inr (q \<le> position)) (sl_level sl) None (sl_head sl) 0 upd of
           None \<Rightarrow> None
         | Some r \<Rightarrow> Some (rbind r (\<lambda>(n, pos, upd). Inr (Some n, pos + 1, upd)))))"

section \<open>Inserting\<close>

text \<open>One round of the loop over the levels of the new node.\<close>

definition link_level :: "nat \<Rightarrow> 64 word \<Rightarrow> nat \<Rightarrow> 'a SkipList \<Rightarrow> 'a SkipList go" where
  "link_level nn pos i sl =
     rbind (at_cache (sl_cache sl) i) (\<lambda>c.
     rbind (fwd sl c i) (\<lambda>old.
     let sl1 = (if i = 0 then
                  let s = set_pre nn (Some c) sl in case old of None \<Rightarrow> s | Some x \<Rightarrow> set_pre x (Some nn) s
                else sl);
         sl2 = set_fwd c i (Some nn) (set_fwd nn i old sl1);
         formerWidth = width sl2 c i;
         sl3 = set_width nn i (if formerWidth = 0 then 0 else posCache sl2 ! i + formerWidth + 1 - pos) sl2
     in Inr (set_width c i (pos - posCache sl3 ! i) sl3)))"

definition widen_level :: "nat \<Rightarrow> 'a SkipList \<Rightarrow> 'a SkipList go" where
  "widen_level i sl =
     rbind (at_cache (sl_cache sl) i) (\<lambda>c.
     rbind (fwd sl c i) (\<lambda>x.
     case x of None \<Rightarrow> Inr sl | Some _ \<Rightarrow> Inr (set_width c i (width sl c i + 1) sl)))"

fun for_levels :: "(nat \<Rightarrow> 'w \<Rightarrow> 'w go) \<Rightarrow> nat list \<Rightarrow> 'w \<Rightarrow> 'w go" where
  "for_levels f [] w = Inr w"
| "for_levels f (i # is) w = rbind (f i w) (for_levels f is)"

text \<open>The levels above the highest one in use start at the head.\<close>

definition raise_level :: "nat \<Rightarrow> 'a SkipList \<Rightarrow> 'a SkipList go" where
  "raise_level nodeLevel sl =
     (if nodeLevel > sl_level sl then
        if nodeLevel \<le> length (sl_cache sl) then
          Inr (sl\<lparr>sl_cache := take (sl_level sl) (sl_cache sl) @ replicate (nodeLevel - sl_level sl) (Some (sl_head sl)) @
                 drop nodeLevel (sl_cache sl), sl_level := nodeLevel\<rparr>)
        else Inl IndexOutOfRange
      else Inr sl)"

definition insertNode :: "('a \<Rightarrow> 'a \<Rightarrow> int) \<Rightarrow> (nat \<Rightarrow> bool) \<Rightarrow> nat option \<Rightarrow> 'a \<Rightarrow> 64 word \<Rightarrow> bool \<Rightarrow> 'a SkipList \<Rightarrow>
    ('a option \<times> 'a SkipList) go" where
  "insertNode cmp toss n c pos allowDuplicate sl =
     rbind (if \<not> allowDuplicate \<and> n \<noteq> None then rbind (node_Compare cmp sl (the n) c) (\<lambda>r. Inr (r = 0)) else Inr False) (\<lambda>same.
     if same then Inr (entry (nd sl (the n)), upd_snode (the n) (\<lambda>x. x\<lparr>entry := Some c\<rparr>) sl)
     else
       let nodeLevel = generateLevel toss (maxLevel sl)
       in rbind (raise_level nodeLevel (sl\<lparr>sl_num := sl_num sl + 1\<rparr>)) (\<lambda>sl1.
          let nn = sl_next sl1;
              sl2 = sl1\<lparr>sl_store := (sl_store sl1)(nn := newNode (Some c) nodeLevel), sl_next := Suc nn\<rparr>
          in rbind (for_levels (link_level nn pos) [0..<nodeLevel] sl2) (\<lambda>sl3.
             rbind (for_levels widen_level [nodeLevel..<sl_level sl3] sl3) (\<lambda>sl4. Inr (None, sl4)))))"

text \<open>A search that notes its path in the slices of the list itself.\<close>

definition with_cache :: "'a SkipList \<Rightarrow> (nat option \<times> 64 word \<times> (nat option list \<times> 64 word list) option) go option \<Rightarrow>
    (nat option \<times> 64 word \<times> 'a SkipList) go option" where
  "with_cache sl r = map_option (\<lambda>r. rbind r (\<lambda>(n, pos, upd).
     Inr (n, pos, case upd of None \<Rightarrow> sl | Some (u, v) \<Rightarrow> sl\<lparr>sl_cache := u, posCache := v\<rparr>))) r"

definition skip_insert :: "('a \<Rightarrow> 'a \<Rightarrow> int) \<Rightarrow> (nat \<Rightarrow> bool) \<Rightarrow> 'a \<Rightarrow> 'a SkipList \<Rightarrow> ('a option \<times> 'a SkipList) go option" where
  "skip_insert cmp toss c sl =
     map_option (\<lambda>r. rbind r (\<lambda>(n, pos, sl). insertNode cmp toss n c pos False sl))
       (with_cache sl (search cmp sl c (Some (sl_cache sl, posCache sl))))"

definition insertAtPosition :: "('a \<Rightarrow> 'a \<Rightarrow> int) \<Rightarrow> (nat \<Rightarrow> bool) \<Rightarrow> 64 word \<Rightarrow> 'a \<Rightarrow> 'a SkipList \<Rightarrow> 'a SkipList go option" where
  "insertAtPosition cmp toss position c sl =
     (let p = (if position > SkipList_Len sl then SkipList_Len sl else position)
      in map_option (\<lambda>r. rbind r (\<lambda>(n, pos, sl). rbind (insertNode cmp toss n c pos True sl) (\<lambda>(_, sl). Inr sl)))
           (with_cache sl (searchByPosition sl p (Some (sl_cache sl, posCache sl)))))"

definition replaceAtPosition :: "64 word \<Rightarrow> 'a \<Rightarrow> 'a SkipList \<Rightarrow> 'a SkipList go option" where
  "replaceAtPosition position c sl =
     map_option (\<lambda>r. rbind r (\<lambda>(n, _).
       case n of None \<Rightarrow> Inr sl | Some n \<Rightarrow> Inr (upd_snode n (\<lambda>x. x\<lparr>entry := Some c\<rparr>) sl)))
       (searchByPosition sl (position + 1) None)"

section \<open>Deleting\<close>

definition unlink_level :: "nat \<Rightarrow> nat \<Rightarrow> 'a SkipList \<Rightarrow> 'a SkipList go" where
  "unlink_level n i sl =
     rbind (at_cache (sl_cache sl) i) (\<lambda>c.
     rbind (fwd sl c i) (\<lambda>x.
     if x \<noteq> Some n then
       (case x of None \<Rightarrow> Inr sl | Some _ \<Rightarrow> Inr (set_width c i (width sl c i - 1) sl))
     else
       rbind (fwd sl n i) (\<lambda>y.
       let sl1 = (if i = 0 then
                    set_pre n None (case y of None \<Rightarrow> sl | Some z \<Rightarrow> set_pre z (Some c) sl)
                  else sl);
           sl2 = set_width c i (width sl1 c i + (width sl1 n i - 1)) sl1
       in Inr (set_fwd c i y sl2))))"

fun lower_level :: "nat \<Rightarrow> 'a SkipList \<Rightarrow> 'a SkipList go" where
  "lower_level 0 sl = Inr sl"
| "lower_level (Suc l) sl =
     (if l = 0 then Inr sl
      else rbind (fwd sl (sl_head sl) l) (\<lambda>x.
        if x \<noteq> None then Inr sl
        else if Suc l < length (widths (nd sl (sl_head sl)))
        then lower_level l ((set_width (sl_head sl) (Suc l) 0 sl)\<lparr>sl_level := l\<rparr>)
        else Inl IndexOutOfRange))"

definition skip_delete :: "('a \<Rightarrow> 'a \<Rightarrow> int) \<Rightarrow> 'a \<Rightarrow> 'a SkipList \<Rightarrow> ('a option \<times> 'a SkipList) go option" where
  "skip_delete cmp c sl =
     map_option (\<lambda>r. rbind r (\<lambda>(n, _, sl).
       case n of
         None \<Rightarrow> Inr (None, sl)
       | Some n \<Rightarrow>
           rbind (node_Compare cmp sl n c) (\<lambda>d.
           if d \<noteq> 0 then Inr (None, sl)
           else rbind (for_levels (unlink_level n) [0..<Suc (sl_level sl)] (sl\<lparr>sl_num := sl_num sl - 1\<rparr>)) (\<lambda>sl.
                rbind (lower_level (sl_level sl) sl) (\<lambda>sl. Inr (entry (nd sl n), sl))))))
       (with_cache sl (search cmp sl c (Some (sl_cache sl, posCache sl))))"

section \<open>Reading\<close>

definition GetWithPosition :: "('a \<Rightarrow> 'a \<Rightarrow> int) \<Rightarrow> 'a SkipList \<Rightarrow> 'a \<Rightarrow> ('a option \<times> 64 word) go option" where
  "GetWithPosition cmp sl c =
     map_option (\<lambda>r. rbind r (\<lambda>(n, pos, _).
       case n of None \<Rightarrow> Inr (None, 0) | Some n \<Rightarrow> Inr (entry (nd sl n), pos - 1))) (search cmp sl c None)"

definition skip_get :: "('a \<Rightarrow> 'a \<Rightarrow> int) \<Rightarrow> 'a SkipList \<Rightarrow> 'a \<Rightarrow> 'a option go option" where
  "skip_get cmp sl c =
     map_option (\<lambda>r. rbind r (\<lambda>(n, _).
       case n of
         None \<Rightarrow> Inr None
       | Some n \<Rightarrow> rbind (node_Compare cmp sl n c) (\<lambda>d. Inr (if d = 0 then entry (nd sl n) else None))))
       (search cmp sl c None)"

definition ByPosition :: "'a SkipList \<Rightarrow> 64 word \<Rightarrow> 'a option go option" where
  "ByPosition sl position =
     map_option (\<lambda>r. rbind r (\<lambda>(n, _). Inr (case n of None \<Rightarrow> None | Some n \<Rightarrow> entry (nd sl n))))
       (searchByPosition sl (position + 1) None)"

text \<open>Iterators: whether \<^verbatim>\<open>Next\<close> or \<^verbatim>\<open>Prev\<close> has been called, and the current node.\<close>

record iterator =
  it_first :: bool
  it_n :: "nat option"

definition nilIterator :: iterator where
  "nilIterator = \<lparr>it_first = False, it_n = None\<rparr>"

definition iter_Next :: "'a SkipList \<Rightarrow> iterator \<Rightarrow> (bool \<times> iterator) go" where
  "iter_Next sl it =
     (if it_first it then Inr (it_n it \<noteq> None, it\<lparr>it_first := False\<rparr>)
      else case it_n it of
             None \<Rightarrow> Inr (False, it)
           | Some n \<Rightarrow> rbind (fwd sl n 0) (\<lambda>x. Inr (x \<noteq> None, it\<lparr>it_n := x\<rparr>)))"

definition iter_Prev :: "'a SkipList \<Rightarrow> iterator \<Rightarrow> bool \<times> iterator" where
  "iter_Prev sl it =
     (if it_first it then (it_n it \<noteq> None, it\<lparr>it_first := False\<rparr>)
      else case it_n it of
             None \<Rightarrow> (False, it)
           | Some n \<Rightarrow>
               let x = preNode (nd sl n)
               in (x \<noteq> None \<and> entry (nd sl (the x)) \<noteq> None, it\<lparr>it_n := x\<rparr>))"

definition iter_Value :: "'a SkipList \<Rightarrow> iterator \<Rightarrow> 'a option" where
  "iter_Value sl it = (case it_n it of None \<Rightarrow> None | Some n \<Rightarrow> entry (nd sl n))"

definition IterAtPosition :: "'a SkipList \<Rightarrow> 64 word \<Rightarrow> iterator go option" where
  "IterAtPosition sl pos =
     map_option (\<lambda>r. rbind r (\<lambda>(n, _).
       Inr (case n of
              None \<Rightarrow> nilIterator
            | Some a \<Rightarrow> if entry (nd sl a) = None then nilIterator else \<lparr>it_first = True, it_n = n\<rparr>)))
       (searchByPosition sl (pos + 1) None)"

definition Iter :: "('a \<Rightarrow> 'a \<Rightarrow> int) \<Rightarrow> 'a SkipList \<Rightarrow> 'a \<Rightarrow> iterator go option" where
  "Iter cmp sl c =
     map_option (\<lambda>r. rbind r (\<lambda>(n, _). Inr (if n = None then nilIterator else \<lparr>it_first = True, it_n = n\<rparr>)))
       (search cmp sl c None)"

section \<open>What the list represents\<close>

text \<open>
  \<open>ns\<close> is the chain of nodes at level 0, the head first. A forward pointer at level \<open>i\<close> goes to the next node of the
  chain that has this level, and the distance next to it is the difference of the two positions.
\<close>

abbreviation ht :: "'a SkipList \<Rightarrow> nat \<Rightarrow> nat" where
  "ht sl a \<equiv> length (forward (nd sl a))"

definition linked :: "'a SkipList \<Rightarrow> nat list \<Rightarrow> nat \<Rightarrow> nat \<Rightarrow> bool" where
  "linked sl ns i k \<longleftrightarrow>
     (case forward (nd sl (ns ! k)) ! i of
        None \<Rightarrow> \<forall>j. k < j \<and> j < length ns \<longrightarrow> ht sl (ns ! j) \<le> i
      | Some x \<Rightarrow> \<exists>k'. k < k' \<and> k' < length ns \<and> x = ns ! k' \<and> i < ht sl x \<and>
          (\<forall>j. k < j \<and> j < k' \<longrightarrow> ht sl (ns ! j) \<le> i) \<and> width sl (ns ! k) i = of_nat k' - of_nat k)"

definition chain :: "'a SkipList \<Rightarrow> nat list \<Rightarrow> bool" where
  "chain sl ns \<longleftrightarrow> ns \<noteq> [] \<and> ns ! 0 = sl_head sl \<and> distinct ns \<and>
     (\<forall>a \<in> set ns. a < sl_next sl \<and> length (widths (nd sl a)) = ht sl a) \<and>
     ht sl (sl_head sl) = maxLevel sl \<and> entry (nd sl (sl_head sl)) = None \<and>
     (\<forall>k. 0 < k \<and> k < length ns \<longrightarrow> 1 \<le> ht sl (ns ! k) \<and> ht sl (ns ! k) \<le> sl_level sl \<and>
        entry (nd sl (ns ! k)) \<noteq> None \<and> preNode (nd sl (ns ! k)) = Some (ns ! (k - 1))) \<and>
     (\<forall>k i. k < length ns \<and> i < ht sl (ns ! k) \<longrightarrow> linked sl ns i k)"

definition cache_ok :: "'a SkipList \<Rightarrow> nat list \<Rightarrow> bool" where
  "cache_ok sl ns \<longleftrightarrow> length (sl_cache sl) = maxLevel sl \<and> length (posCache sl) = maxLevel sl \<and>
     (\<forall>i. sl_level sl \<le> i \<and> i < maxLevel sl \<longrightarrow> posCache sl ! i = 0) \<and>
     (length ns = 1 \<longrightarrow> (\<forall>i < sl_level sl. sl_cache sl ! i = Some (sl_head sl) \<and> posCache sl ! i = 0))"

definition sl_rep :: "'a SkipList \<Rightarrow> nat list \<Rightarrow> bool" where
  "sl_rep sl ns \<longleftrightarrow> chain sl ns \<and> cache_ok sl ns \<and> sl_level sl < maxLevel sl \<and> 2 \<le> maxLevel sl \<and> maxLevel sl < 256 \<and>
     (1 < length ns \<longrightarrow> 1 \<le> sl_level sl) \<and>
     length ns \<le> 2 ^ 64 \<and> sl_num sl = of_nat (length ns - 1)"

definition sl_entries :: "'a SkipList \<Rightarrow> nat list \<Rightarrow> 'a list" where
  "sl_entries sl ns = map (\<lambda>a. the (entry (nd sl a))) (tl ns)"

text \<open>The last position up to \<open>m\<close> whose node has level \<open>i\<close>.\<close>

definition prev_at :: "'a SkipList \<Rightarrow> nat list \<Rightarrow> nat \<Rightarrow> nat \<Rightarrow> nat \<Rightarrow> bool" where
  "prev_at sl ns i m k \<longleftrightarrow> k \<le> m \<and> i < ht sl (ns ! k) \<and> (\<forall>j. k < j \<and> j \<le> m \<longrightarrow> ht sl (ns ! j) \<le> i)"

lemma chainD:
  assumes "chain sl ns"
  shows "ns \<noteq> []" "ns ! 0 = sl_head sl" "distinct ns" "entry (nd sl (sl_head sl)) = None" "ht sl (sl_head sl) = maxLevel sl"
    "a \<in> set ns \<Longrightarrow> a < sl_next sl" "a \<in> set ns \<Longrightarrow> length (widths (nd sl a)) = ht sl a"
    "0 < k \<Longrightarrow> k < length ns \<Longrightarrow> 1 \<le> ht sl (ns ! k)" "0 < k \<Longrightarrow> k < length ns \<Longrightarrow> ht sl (ns ! k) \<le> sl_level sl"
    "0 < k \<Longrightarrow> k < length ns \<Longrightarrow> entry (nd sl (ns ! k)) \<noteq> None"
    "0 < k \<Longrightarrow> k < length ns \<Longrightarrow> preNode (nd sl (ns ! k)) = Some (ns ! (k - 1))"
    "k < length ns \<Longrightarrow> i < ht sl (ns ! k) \<Longrightarrow> linked sl ns i k"
  using assms by (auto simp: chain_def)

lemma sl_repD:
  assumes "sl_rep sl ns"
  shows "chain sl ns" "cache_ok sl ns" "sl_level sl < maxLevel sl" "2 \<le> maxLevel sl" "maxLevel sl < 256" "length ns \<le> 2 ^ 64"
    "sl_num sl = of_nat (length ns - 1)" "1 < length ns \<Longrightarrow> 1 \<le> sl_level sl"
  using assms by (auto simp: sl_rep_def)

lemma prev_at_exists:
  assumes "chain sl ns" "i < maxLevel sl"
  shows "\<exists>k. prev_at sl ns i m k"
proof -
  let ?P = "\<lambda>k. k \<le> m \<and> i < ht sl (ns ! k)"
  have P: "?P 0" using assms chainD(2,5) [OF assms(1)] by simp
  then have "?P (GREATEST k. ?P k)" by (rule GreatestI_nat [where b = m]) simp
  moreover have "ht sl (ns ! j) \<le> i" if "(GREATEST k. ?P k) < j" "j \<le> m" for j
    using Greatest_le_nat [of ?P j m] that by force
  ultimately show ?thesis by (auto simp: prev_at_def)
qed

lemma prev_at_unique: "prev_at sl ns i m k \<Longrightarrow> prev_at sl ns i m k' \<Longrightarrow> k = k'"
  by (metis linorder_neqE_nat not_less prev_at_def)

lemma prev_at_0:
  assumes "chain sl ns" "prev_at sl ns 0 m k" "m < length ns"
  shows "k = m"
proof (cases "m = 0")
  case True
  with assms(2) show ?thesis by (simp add: prev_at_def)
next
  case False
  then have "\<not> ht sl (ns ! m) \<le> 0" using chainD(8) [OF assms(1), of m] assms(3) by linarith
  with assms(2) show ?thesis unfolding prev_at_def by (metis le_neq_implies_less order_refl)
qed

lemma prev_at_top:
  assumes "chain sl ns" "prev_at sl ns i m k" "m < length ns" "sl_level sl \<le> i"
  shows "k = 0"
  using assms chainD(9) [OF assms(1), of k] unfolding prev_at_def by (metis leD le_less_trans le_trans not_gr0)

section \<open>Searching\<close>

lemma linked_cases [consumes 2, case_names 1 2]:
  assumes "linked sl ns i k" "i < ht sl (ns ! k)"
  obtains "fwd sl (ns ! k) i = Inr None" "\<And>j. k < j \<Longrightarrow> j < length ns \<Longrightarrow> ht sl (ns ! j) \<le> i"
    | k' where "fwd sl (ns ! k) i = Inr (Some (ns ! k'))" "k < k'" "k' < length ns" "i < ht sl (ns ! k')"
      "\<And>j. k < j \<Longrightarrow> j < k' \<Longrightarrow> ht sl (ns ! j) \<le> i" "width sl (ns ! k) i = of_nat k' - of_nat k"
  using assms by (auto simp: linked_def fwd_def split: option.splits)

lemma walk_level_ok:
  assumes c: "chain sl ns" and m: "m < length ns"
    and go: "\<And>j. k < j \<Longrightarrow> j < length ns \<Longrightarrow> go (ns ! j) (of_nat j) = Inr (j \<le> m)"
  shows "k \<le> m \<Longrightarrow> i < ht sl (ns ! k) \<Longrightarrow>
    \<exists>k'. k \<le> k' \<and> walk_level sl i go (ns ! k) (of_nat k) = Some (Inr (ns ! k', of_nat k')) \<and> prev_at sl ns i m k'"
  using go
proof (induction "m - k" arbitrary: k rule: less_induct)
  case less
  have "linked sl ns i k" using chainD(12) [OF c] less.prems(1,2) m by simp
  from this less.prems(2) show ?case
  proof (cases rule: linked_cases)
    case 1
    have "prev_at sl ns i m k" unfolding prev_at_def
      using 1(2) less.prems(1,2) m by (meson le_less_trans)
    then show ?thesis using 1 by (subst walk_level.simps) auto
  next
    case (2 k')
    have g: "go (ns ! k') (of_nat k + width sl (ns ! k) i) = Inr (k' \<le> m)" using less.prems(3) [OF 2(2,3)] 2(6) by simp
    have w: "walk_level sl i go (ns ! k) (of_nat k) =
        (if k' \<le> m then walk_level sl i go (ns ! k') (of_nat k') else Some (Inr (ns ! k, of_nat k)))"
      using g 2(1,6) by (subst walk_level.simps) simp
    show ?thesis
    proof (cases "k' \<le> m")
      case True
      then have "\<exists>k''. k' \<le> k'' \<and> walk_level sl i go (ns ! k') (of_nat k') = Some (Inr (ns ! k'', of_nat k'')) \<and> prev_at sl ns i m k''"
        by (intro less.hyps) (use 2 less.prems in auto)
      then obtain k'' where k'': "k' \<le> k''" "walk_level sl i go (ns ! k') (of_nat k') = Some (Inr (ns ! k'', of_nat k''))"
        "prev_at sl ns i m k''" by blast
      then show ?thesis using w True 2(2) by (intro exI [of _ k'']) simp
    next
      case False
      then have "prev_at sl ns i m k" using 2(5) less.prems(1,2) by (simp add: prev_at_def)
      with w False show ?thesis by auto
    qed
  qed
qed

text \<open>The path noted by a search that ends at position \<open>m\<close>, for the levels below \<open>L\<close>.\<close>

definition path :: "'a SkipList \<Rightarrow> nat list \<Rightarrow> nat \<Rightarrow> nat \<Rightarrow> nat option list \<Rightarrow> 64 word list \<Rightarrow> bool" where
  "path sl ns m L u v \<longleftrightarrow> (\<forall>i < L. \<exists>k. prev_at sl ns i m k \<and> u ! i = Some (ns ! k) \<and> v ! i = of_nat k)"

definition noted :: "'a SkipList \<Rightarrow> nat list \<Rightarrow> nat \<Rightarrow> nat \<Rightarrow> (nat option list \<times> 64 word list) option \<Rightarrow>
    (nat option list \<times> 64 word list) option \<Rightarrow> bool" where
  "noted sl ns m L upd upd' \<longleftrightarrow>
     (case upd of
        None \<Rightarrow> upd' = None
      | Some (u, v) \<Rightarrow> \<exists>u' v'. upd' = Some (u', v') \<and> length u' = length u \<and> length v' = length v \<and>
          path sl ns m L u' v' \<and> (\<forall>i \<ge> L. u' ! i = u ! i \<and> v' ! i = v ! i))"

definition fits :: "nat \<Rightarrow> (nat option list \<times> 64 word list) option \<Rightarrow> bool" where
  "fits L upd \<longleftrightarrow> (case upd of None \<Rightarrow> True | Some (u, v) \<Rightarrow> L \<le> length u \<and> L \<le> length v)"

lemma note_path_ok:
  assumes "fits (Suc off) upd" "prev_at sl ns off m k"
  obtains upd1 where "note_path off (ns ! k) (of_nat k) upd = Inr upd1" "fits (Suc off) upd1"
    "\<And>upd'. noted sl ns m off upd1 upd' \<Longrightarrow> noted sl ns m (Suc off) upd upd'"
proof (cases upd)
  case None
  then show ?thesis using assms by (intro that [of None]) (auto simp: note_path_def noted_def fits_def)
next
  case (Some uv)
  obtain u v where uv: "uv = (u, v)" by (cases uv)
  let ?upd1 = "Some (u[off := Some (ns ! k)], v[off := of_nat k])"
  show ?thesis
  proof (rule that)
    show "note_path off (ns ! k) (of_nat k) upd = Inr ?upd1" "fits (Suc off) ?upd1"
      using assms(1) Some uv by (auto simp: note_path_def fits_def)
    fix upd' assume "noted sl ns m off ?upd1 upd'"
    then obtain u' v' where u': "upd' = Some (u', v')" "length u' = length u" "length v' = length v"
      "path sl ns m off u' v'" "\<And>i. off \<le> i \<Longrightarrow> u' ! i = u[off := Some (ns ! k)] ! i \<and> v' ! i = v[off := of_nat k] ! i"
      by (auto simp: noted_def)
    have "off < length u" "off < length v" using assms(1) Some uv by (auto simp: fits_def)
    with u'(5) [of off] have "u' ! off = Some (ns ! k)" "v' ! off = of_nat k" by auto
    with u'(4) assms(2) have "path sl ns m (Suc off) u' v'" by (auto simp: path_def less_Suc_eq)
    with u' Some uv show "noted sl ns m (Suc off) upd upd'" by (auto simp: noted_def)
  qed
qed

lemma descend_ok:
  assumes c: "chain sl ns" and m: "m < length ns"
    and go: "\<And>chk j. chk = None \<or> (\<exists>l < j. chk = Some (ns ! l)) \<Longrightarrow> 0 < j \<Longrightarrow> j < length ns \<Longrightarrow> go chk (ns ! j) (of_nat j) = Inr (j \<le> m)"
  shows "k \<le> m \<Longrightarrow> off < ht sl (ns ! k) \<Longrightarrow> chk = None \<or> chk = Some (ns ! k) \<Longrightarrow> fits (Suc off) upd \<Longrightarrow>
    \<exists>upd'. descend sl go off chk (ns ! k) (of_nat k) upd = Some (Inr (ns ! m, of_nat m, upd')) \<and> noted sl ns m (Suc off) upd upd'"
proof (induction off arbitrary: k chk upd)
  case 0
  have "go chk (ns ! j) (of_nat j) = Inr (j \<le> m)" if "k < j" "j < length ns" for j using go [of chk j] 0(3) that by auto
  from walk_level_ok [OF c m this 0(1,2)] obtain k' where w: "walk_level sl 0 (go chk) (ns ! k) (of_nat k) = Some (Inr (ns ! k', of_nat k'))"
    "prev_at sl ns 0 m k'" by blast
  have "k' = m" using prev_at_0 [OF c w(2) m] .
  obtain upd1 where n: "note_path 0 (ns ! k') (of_nat k') upd = Inr upd1" "fits (Suc 0) upd1"
    "\<And>upd'. noted sl ns m 0 upd1 upd' \<Longrightarrow> noted sl ns m (Suc 0) upd upd'"
    using note_path_ok [OF 0(4) w(2)] by blast
  have "noted sl ns m 0 upd1 upd1" by (auto simp: noted_def path_def split: option.splits)
  with w n \<open>k' = m\<close> show ?case by auto
next
  case (Suc off)
  have "go chk (ns ! j) (of_nat j) = Inr (j \<le> m)" if "k < j" "j < length ns" for j using go [of chk j] Suc(4) that by auto
  from walk_level_ok [OF c m this Suc(2,3)] obtain k' where
    w: "walk_level sl (Suc off) (go chk) (ns ! k) (of_nat k) = Some (Inr (ns ! k', of_nat k'))" "prev_at sl ns (Suc off) m k'" by blast
  obtain upd1 where n: "note_path (Suc off) (ns ! k') (of_nat k') upd = Inr upd1" "fits (Suc (Suc off)) upd1"
    "\<And>upd'. noted sl ns m (Suc off) upd1 upd' \<Longrightarrow> noted sl ns m (Suc (Suc off)) upd upd'"
    using note_path_ok [OF Suc(5) w(2)] by blast
  have "fits (Suc off) upd1" using n(2) by (auto simp: fits_def split: option.splits)
  then obtain upd' where "descend sl go off (Some (ns ! k')) (ns ! k') (of_nat k') upd1 = Some (Inr (ns ! m, of_nat m, upd'))"
    "noted sl ns m (Suc off) upd1 upd'"
    using Suc.IH [of k' "Some (ns ! k')" upd1] w(2) by (auto simp: prev_at_def)
  with w(1) n show ?case by auto
qed

text \<open>Both searches, on a list that is not empty.\<close>

lemma head_ht:
  assumes "sl_rep sl ns"
  shows "sl_level sl < ht sl (ns ! 0)" "0 < length ns" "ns ! 0 = sl_head sl"
  using sl_repD [OF assms] chainD [OF sl_repD(1) [OF assms]] by auto

lemma fwd_0:
  assumes "chain sl ns" "m < length ns" "0 < ht sl (ns ! m)"
  shows "fwd sl (ns ! m) 0 = Inr (if Suc m < length ns then Some (ns ! Suc m) else None)"
proof -
  have "linked sl ns 0 m" using chainD(12) [OF assms(1,2)] assms(3) by simp
  from this assms(3) show ?thesis
  proof (cases rule: linked_cases)
    case 1
    have "\<not> Suc m < length ns" using 1(2) [of "Suc m"] chainD(8) [OF assms(1), of "Suc m"] by fastforce
    with 1 show ?thesis by simp
  next
    case (2 k')
    have "k' = Suc m"
    proof (rule ccontr)
      assume "k' \<noteq> Suc m"
      then have "ht sl (ns ! Suc m) \<le> 0" using 2(2,5) by simp
      with chainD(8) [OF assms(1), of "Suc m"] 2(2,3) show False by simp
    qed
    with 2 show ?thesis by simp
  qed
qed

lemma len_pos:
  assumes "sl_rep sl ns"
  shows "SkipList_Len sl = 0 \<longleftrightarrow> length ns = 1" "unat (SkipList_Len sl) = length ns - 1"
proof -
  have "ns \<noteq> []" "length ns - 1 < 2 ^ 64" "sl_num sl = of_nat (length ns - 1)"
    using sl_repD [OF assms] chainD(1) [OF sl_repD(1) [OF assms]] by (cases ns; simp)+
  then show "unat (SkipList_Len sl) = length ns - 1" by (simp add: SkipList_Len_def unat_of_nat)
  moreover have "length ns \<noteq> 0" using \<open>ns \<noteq> []\<close> by simp
  ultimately show "SkipList_Len sl = 0 \<longleftrightarrow> length ns = 1" by (metis One_nat_def Suc_pred diff_is_0_eq le_refl length_greater_0_conv unat_eq_zero \<open>ns \<noteq> []\<close>)
qed

lemma search_ok:
  assumes rep: "sl_rep sl ns" and len: "1 < length ns" and m: "m < length ns"
    and cmp: "\<And>j. 0 < j \<Longrightarrow> j < length ns \<Longrightarrow> cmp (the (entry (nd sl (ns ! j)))) c < 0 \<longleftrightarrow> j \<le> m"
    and fit: "fits (Suc (sl_level sl)) upd"
  shows "\<exists>upd'. search cmp sl c upd = Some (Inr (if Suc m < length ns then Some (ns ! Suc m) else None, of_nat (Suc m), upd')) \<and>
    noted sl ns m (Suc (sl_level sl)) upd upd'"
proof -
  note ch = sl_repD(1) [OF rep]
  have go: "before_cmp cmp sl c chk (ns ! j) (of_nat j) = Inr (j \<le> m)"
    if "chk = None \<or> (\<exists>l < j. chk = Some (ns ! l))" "0 < j" "j < length ns" for chk j
  proof -
    have "chk \<noteq> Some (ns ! j)" using that chainD(3) [OF ch] by (auto simp: nth_eq_iff_index_eq)
    then show ?thesis using cmp [OF that(2,3)] chainD(10) [OF ch that(2,3)] by (auto simp: before_cmp_def node_Compare_def)
  qed
  obtain upd' where d: "descend sl (before_cmp cmp sl c) (sl_level sl) None (ns ! 0) (of_nat 0) upd = Some (Inr (ns ! m, of_nat m, upd'))"
    "noted sl ns m (Suc (sl_level sl)) upd upd'"
    using descend_ok [where go = "before_cmp cmp sl c" and k = 0 and off = "sl_level sl" and chk = None and upd = upd, OF ch m go] head_ht [OF rep] fit by auto
  have "0 < ht sl (ns ! m)" using chainD(8) [OF ch, of m] head_ht [OF rep] m by (cases "m = 0") auto
  from fwd_0 [OF ch m this] d show ?thesis using head_ht [OF rep] len_pos(1) [OF rep] len by (simp add: search_def)
qed

lemma search_empty: "sl_rep sl ns \<Longrightarrow> length ns = 1 \<Longrightarrow> search cmp sl c upd = Some (Inr (None, 1, upd))"
  by (simp add: search_def len_pos(1))

lemma searchByPosition_ok:
  assumes rep: "sl_rep sl ns" and len: "1 < length ns" and p: "unat p < length ns" and fit: "fits (Suc (sl_level sl)) upd"
  shows "\<exists>upd'. searchByPosition sl p upd = Some (Inr (Some (ns ! unat p), of_nat (Suc (unat p)), upd')) \<and>
    noted sl ns (unat p) (Suc (sl_level sl)) upd upd'"
proof -
  note ch = sl_repD(1) [OF rep]
  have go: "(Inr ((of_nat j :: 64 word) \<le> p) :: bool go) = Inr (j \<le> unat p)" if "0 < j" "j < length ns" for j
    using that sl_repD(6) [OF rep] by (simp add: word_le_nat_alt unat_of_nat)
  obtain upd' where d: "descend sl (\<lambda>_ x q. Inr (q \<le> p)) (sl_level sl) None (ns ! 0) (of_nat 0) upd =
      Some (Inr (ns ! unat p, of_nat (unat p), upd'))" "noted sl ns (unat p) (Suc (sl_level sl)) upd upd'"
    using descend_ok [where go = "\<lambda>_ x q. Inr (q \<le> p)" and k = 0 and off = "sl_level sl" and chk = None and upd = upd, OF ch p go] head_ht [OF rep] fit by auto
  have "p \<le> SkipList_Len sl" using len_pos(2) [OF rep] p by (simp add: word_le_nat_alt)
  then show ?thesis using d head_ht [OF rep] len_pos(1) [OF rep] len by (auto simp: searchByPosition_def)
qed

lemma searchByPosition_out:
  assumes "sl_rep sl ns" "length ns = 1 \<or> length ns \<le> unat p"
  shows "searchByPosition sl p upd = Some (Inr (None, 1, upd))"
proof -
  have "SkipList_Len sl = 0 \<or> p > SkipList_Len sl"
    using assms len_pos [OF assms(1)] chainD(1) [OF sl_repD(1) [OF assms(1)]] by (cases ns) (auto simp: word_less_nat_alt)
  then show ?thesis by (simp add: searchByPosition_def)
qed

section \<open>Linking a node in\<close>

lemma snode_upd [simp]:
  "nd (set_fwd a i x sl) b = (if b = a then (nd sl a)\<lparr>forward := (forward (nd sl a))[i := x]\<rparr> else nd sl b)"
  "nd (set_width a i v sl) b = (if b = a then (nd sl a)\<lparr>widths := (widths (nd sl a))[i := v]\<rparr> else nd sl b)"
  "nd (set_pre a x sl) b = (if b = a then (nd sl a)\<lparr>preNode := x\<rparr> else nd sl b)"
  by (simp_all add: set_fwd_def set_width_def set_pre_def upd_snode_def nd_def)

lemma set_sel [simp]:
  "posCache (set_fwd a i x sl) = posCache sl" "posCache (set_width a i v sl) = posCache sl" "posCache (set_pre a y sl) = posCache sl"
  "sl_cache (set_fwd a i x sl) = sl_cache sl" "sl_cache (set_width a i v sl) = sl_cache sl" "sl_cache (set_pre a y sl) = sl_cache sl"
  "width (set_fwd a i x sl) = width sl" "width (set_pre a y sl) = width sl"
  by (auto simp: set_fwd_def set_width_def set_pre_def upd_snode_def width_def nd_def fun_eq_iff)

text \<open>Everything but the nodes.\<close>

definition same_rest :: "'a SkipList \<Rightarrow> 'a SkipList \<Rightarrow> bool" where
  "same_rest s t \<longleftrightarrow> sl_cache t = sl_cache s \<and> posCache t = posCache s \<and> sl_head t = sl_head s \<and> sl_level t = sl_level s \<and>
     maxLevel t = maxLevel s \<and> sl_num t = sl_num s \<and> sl_next t = sl_next s"

lemma same_rest_simps [simp]:
  "same_rest s s" "same_rest s (set_fwd a i x t) = same_rest s t" "same_rest s (set_width a i v t) = same_rest s t"
  "same_rest s (set_pre a y t) = same_rest s t"
  by (auto simp: same_rest_def set_fwd_def set_width_def set_pre_def upd_snode_def)

lemma same_restD:
  assumes "same_rest s t"
  shows "sl_cache t = sl_cache s" "posCache t = posCache s" "sl_head t = sl_head s" "sl_level t = sl_level s"
    "maxLevel t = maxLevel s" "sl_num t = sl_num s" "sl_next t = sl_next s"
  using assms by (simp_all add: same_rest_def)

lemma for_levels_append: "for_levels f (is @ js) w = rbind (for_levels f is w) (for_levels f js)"
  by (induction "is" arbitrary: w) (auto simp: rbind_def split: sum.splits)

text \<open>The shape that no loop changes: lengths of slices and entries.\<close>

definition same_shape :: "'a SkipList \<Rightarrow> 'a SkipList \<Rightarrow> bool" where
  "same_shape s t \<longleftrightarrow> same_rest s t \<and>
     (\<forall>a. ht t a = ht s a \<and> length (widths (nd t a)) = length (widths (nd s a)) \<and> entry (nd t a) = entry (nd s a))"

lemma same_shapeD:
  assumes "same_shape s t"
  shows "same_rest s t" "ht t a = ht s a" "length (widths (nd t a)) = length (widths (nd s a))" "entry (nd t a) = entry (nd s a)"
  using assms by (auto simp: same_shape_def)

text \<open>The nodes after the levels below \<open>l\<close> have been linked; \<open>C i\<close> is the node the path has at level \<open>i\<close>.\<close>

definition after_link :: "'a SkipList \<Rightarrow> nat \<Rightarrow> 64 word \<Rightarrow> (nat \<Rightarrow> nat) \<Rightarrow> nat \<Rightarrow> 'a SkipList \<Rightarrow> bool" where
  "after_link b nn pos C l s \<longleftrightarrow> same_shape b s \<and>
     (\<forall>a i. i < ht b a \<longrightarrow> forward (nd s a) ! i =
        (if i < l \<and> a = nn then forward (nd b (C i)) ! i else if i < l \<and> a = C i then Some nn else forward (nd b a) ! i)) \<and>
     (\<forall>a i. i < ht b a \<longrightarrow> width s a i =
        (if i < l \<and> a = nn then (if width b (C i) i = 0 then 0 else posCache b ! i + width b (C i) i + 1 - pos)
         else if i < l \<and> a = C i then pos - posCache b ! i else width b a i)) \<and>
     (\<forall>a. preNode (nd s a) =
        (if l = 0 then preNode (nd b a) else if a = nn then Some (C 0)
         else if forward (nd b (C 0)) ! 0 = Some a then Some nn else preNode (nd b a)))"

lemma link_level_ok:
  assumes al: "after_link b nn pos C l s" and c: "at_cache (sl_cache b) l = Inr (C l)" "C l \<noteq> nn"
    and h: "l < ht b (C l)" "l < ht b nn" "length (widths (nd b (C l))) = ht b (C l)" "length (widths (nd b nn)) = ht b nn"
    and nn: "forward (nd b (C 0)) ! 0 \<noteq> Some nn"
  shows "\<exists>s'. link_level nn pos l s = Inr s' \<and> after_link b nn pos C (Suc l) s'"
proof -
  have sh: "same_shape b s" using al by (simp add: after_link_def)
  note D = same_shapeD [OF sh] same_restD [OF same_shapeD(1) [OF sh]]
  have f: "forward (nd s (C l)) ! l = forward (nd b (C l)) ! l" and w: "width s (C l) l = width b (C l) l"
    using al h by (auto simp: after_link_def)
  let ?old = "forward (nd b (C l)) ! l"
  let ?s1 = "if l = 0 then (case ?old of None \<Rightarrow> set_pre nn (Some (C l)) s | Some x \<Rightarrow> set_pre x (Some nn) (set_pre nn (Some (C l)) s)) else s"
  let ?s2 = "set_fwd (C l) l (Some nn) (set_fwd nn l ?old ?s1)"
  let ?s' = "set_width (C l) l (pos - posCache b ! l)
    (set_width nn l (if width b (C l) l = 0 then 0 else posCache b ! l + width b (C l) l + 1 - pos) ?s2)"
  have rest: "same_rest b ?s1" using D(1) by (auto split: option.splits)
  have nd1: "forward (nd ?s1 a) = forward (nd s a)" "widths (nd ?s1 a) = widths (nd s a)" "entry (nd ?s1 a) = entry (nd s a)" for a
    by (auto split: option.splits)
  have "fwd s (C l) l = Inr ?old" using f h(1) D(2) by (simp add: fwd_def)
  then have run: "link_level nn pos l s = Inr ?s'"
    using c(1) w D(5,6) by (auto simp: link_level_def Let_def split: option.splits)
  have "same_shape b ?s'" using sh rest nd1 by (auto simp: same_shape_def)
  moreover have "forward (nd ?s' a) ! i =
        (if i < Suc l \<and> a = nn then forward (nd b (C i)) ! i else if i < Suc l \<and> a = C i then Some nn else forward (nd b a) ! i)"
    if "i < ht b a" for a i
    using al that h c(2) nd1 D(2) by (auto simp: after_link_def less_Suc_eq nth_list_update)
  moreover have "width ?s' a i =
        (if i < Suc l \<and> a = nn then (if width b (C i) i = 0 then 0 else posCache b ! i + width b (C i) i + 1 - pos)
         else if i < Suc l \<and> a = C i then pos - posCache b ! i else width b a i)" if "i < ht b a" for a i
    using al that h c(2) nd1 D(2,3) by (auto simp: after_link_def less_Suc_eq nth_list_update width_def)
  moreover have "preNode (nd ?s' a) = (if a = nn then Some (C 0)
         else if forward (nd b (C 0)) ! 0 = Some a then Some nn else preNode (nd b a))" for a
    using al nn by (cases "l = 0") (auto simp: after_link_def split: option.splits)
  ultimately have "after_link b nn pos C (Suc l) ?s'" by (simp add: after_link_def)
  with run show ?thesis by blast
qed

lemma link_levels_ok:
  assumes c: "\<And>i. i < l \<Longrightarrow> at_cache (sl_cache b) i = Inr (C i) \<and> C i \<noteq> nn \<and> i < ht b (C i) \<and> length (widths (nd b (C i))) = ht b (C i)"
    and h: "l \<le> ht b nn" "length (widths (nd b nn)) = ht b nn" and nn: "forward (nd b (C 0)) ! 0 \<noteq> Some nn"
  shows "\<exists>s. for_levels (link_level nn pos) [0..<l] b = Inr s \<and> after_link b nn pos C l s"
  using assms
proof (induction l)
  case 0
  then show ?case by (simp add: after_link_def same_shape_def)
next
  case (Suc l)
  then obtain s where s: "for_levels (link_level nn pos) [0..<l] b = Inr s" "after_link b nn pos C l s" by auto
  have "\<exists>s'. link_level nn pos l s = Inr s' \<and> after_link b nn pos C (Suc l) s'"
    by (rule link_level_ok [OF s(2)]) (use Suc.prems in auto)
  with s(1) show ?case by (auto simp: for_levels_append)
qed

definition after_widen :: "'a SkipList \<Rightarrow> (nat \<Rightarrow> nat) \<Rightarrow> nat \<Rightarrow> nat \<Rightarrow> 'a SkipList \<Rightarrow> bool" where
  "after_widen s C l0 l t \<longleftrightarrow> same_shape s t \<and> (\<forall>a. forward (nd t a) = forward (nd s a) \<and> preNode (nd t a) = preNode (nd s a)) \<and>
     (\<forall>a i. i < ht s a \<longrightarrow> width t a i =
        (if l0 \<le> i \<and> i < l \<and> a = C i \<and> forward (nd s a) ! i \<noteq> None then width s a i + 1 else width s a i))"

lemma widen_levels_ok:
  assumes c: "\<And>i. l0 \<le> i \<Longrightarrow> i < l \<Longrightarrow> at_cache (sl_cache s) i = Inr (C i) \<and> i < ht s (C i) \<and> length (widths (nd s (C i))) = ht s (C i)"
    and "l0 \<le> l"
  shows "\<exists>t. for_levels widen_level [l0..<l] s = Inr t \<and> after_widen s C l0 l t"
  using assms(2,1)
proof (induction l rule: dec_induct)
  case base
  then show ?case by (simp add: after_widen_def same_shape_def)
next
  case (step l)
  then obtain t where t: "for_levels widen_level [l0..<l] s = Inr t" "after_widen s C l0 l t" by auto
  then have sh: "same_shape s t" by (simp add: after_widen_def)
  note D = same_shapeD [OF sh] same_restD [OF same_shapeD(1) [OF sh]]
  let ?c = "C l"
  have c: "at_cache (sl_cache t) l = Inr ?c" "l < ht s ?c" "length (widths (nd s ?c)) = ht s ?c"
    using step.prems [of l] step.hyps(1) D(5) by auto
  have f: "forward (nd t ?c) = forward (nd s ?c)" "width t ?c l = width s ?c l" using t(2) c(2) by (auto simp: after_widen_def)
  then have fw: "fwd t ?c l = Inr (forward (nd s ?c) ! l)" using c(2) by (simp add: fwd_def)
  show ?case
  proof (cases "forward (nd s ?c) ! l")
    case None
    then have "widen_level l t = Inr t" using c(1) fw by (simp add: widen_level_def)
    moreover have "after_widen s C l0 (Suc l) t" using t(2) None by (auto simp: after_widen_def less_Suc_eq)
    ultimately show ?thesis using t(1) step.hyps(1) by (auto simp: for_levels_append)
  next
    case (Some x)
    let ?t' = "set_width ?c l (width t ?c l + 1) t"
    have "widen_level l t = Inr ?t'" using c(1) fw Some by (simp add: widen_level_def)
    moreover have "same_shape s ?t'" using sh by (auto simp: same_shape_def)
    then have "after_widen s C l0 (Suc l) ?t'"
      using t(2) Some f(2) c(2,3) D(3) step.hyps(1) by (auto simp: after_widen_def less_Suc_eq width_def nth_list_update)
    ultimately show ?thesis using t(1) step.hyps(1) by (auto simp: for_levels_append)
  qed
qed

section \<open>Inserting\<close>

definition splice_at :: "nat list \<Rightarrow> nat \<Rightarrow> nat \<Rightarrow> nat list" where
  "splice_at ns m x = take (Suc m) ns @ x # drop (Suc m) ns"

definition shift :: "nat \<Rightarrow> nat \<Rightarrow> nat" where
  "shift m j = (if j \<le> m then j else Suc j)"

lemma splice_simps:
  assumes "m < length ns"
  shows "length (splice_at ns m x) = Suc (length ns)" "splice_at ns m x ! Suc m = x"
    "j < length ns \<Longrightarrow> splice_at ns m x ! shift m j = ns ! j" "set (splice_at ns m x) = insert x (set ns)"
    "x \<notin> set ns \<Longrightarrow> distinct ns \<Longrightarrow> distinct (splice_at ns m x)" "splice_at ns m x ! 0 = ns ! 0"
proof -
  have s: "set ns = set (take (Suc m) ns) \<union> set (drop (Suc m) ns)" by (metis append_take_drop_id set_append)
  show "length (splice_at ns m x) = Suc (length ns)" "splice_at ns m x ! Suc m = x" "set (splice_at ns m x) = insert x (set ns)"
    "splice_at ns m x ! 0 = ns ! 0"
    using assms s by (auto simp: splice_at_def nth_append min_def)
  show "splice_at ns m x ! shift m j = ns ! j" if "j < length ns"
    using assms that by (auto simp: splice_at_def shift_def nth_append min_def Suc_diff_le)
  show "distinct (splice_at ns m x)" if "x \<notin> set ns" "distinct ns"
    using that s set_take_disj_set_drop_if_distinct [of ns "Suc m" "Suc m"] by (auto simp: splice_at_def)
qed

lemma splice_index:
  assumes "k < Suc (length ns)" "m < length ns"
  obtains "k = Suc m" | j where "j < length ns" "k = shift m j"
proof (cases "k \<le> m")
  case True
  then show ?thesis using that(2) [of k] assms by (simp add: shift_def)
next
  case False
  then show ?thesis using that(1) that(2) [of "k - 1"] assms by (cases "k = Suc m") (auto simp: shift_def)
qed

lemma linked_noneI: "forward (nd t (ns ! k)) ! i = None \<Longrightarrow> (\<And>j. k < j \<Longrightarrow> j < length ns \<Longrightarrow> ht t (ns ! j) \<le> i) \<Longrightarrow> linked t ns i k"
  by (simp add: linked_def)

lemma linked_someI:
  "forward (nd t (ns ! k)) ! i = Some (ns ! k') \<Longrightarrow> k < k' \<Longrightarrow> k' < length ns \<Longrightarrow> i < ht t (ns ! k') \<Longrightarrow>
    (\<And>j. k < j \<Longrightarrow> j < k' \<Longrightarrow> ht t (ns ! j) \<le> i) \<Longrightarrow> width t (ns ! k) i = of_nat k' - of_nat k \<Longrightarrow> linked t ns i k"
  by (auto simp: linked_def)

lemma shift_less [simp]: "shift m a < shift m b \<longleftrightarrow> a < b"
  by (auto simp: shift_def)

lemma shift_bound [simp]: "j < n \<Longrightarrow> shift m j < Suc n"
  by (simp add: shift_def)

lemma shift_below: "l < shift m k \<Longrightarrow> k < n \<Longrightarrow> l < Suc n"
  by (auto simp: shift_def split: if_splits)

lemma shift_new: "shift m j < Suc m \<longleftrightarrow> j \<le> m" "Suc m < shift m j \<longleftrightarrow> m < j"
  by (auto simp: shift_def)

text \<open>Where a pointer goes, seen from a position up to \<open>m\<close>: past \<open>m\<close> exactly from the last node of the level.\<close>

lemma pointer_cases [consumes 5, case_names none some]:
  assumes "chain sl ns" "j < length ns" "i < ht sl (ns ! j)" "prev_at sl ns i m K" "m < length ns"
  obtains "forward (nd sl (ns ! j)) ! i = None" "K \<le> j" "\<And>l. j < l \<Longrightarrow> l < length ns \<Longrightarrow> ht sl (ns ! l) \<le> i"
    | k' where "forward (nd sl (ns ! j)) ! i = Some (ns ! k')" "j < k'" "k' < length ns" "i < ht sl (ns ! k')"
      "\<And>l. j < l \<Longrightarrow> l < k' \<Longrightarrow> ht sl (ns ! l) \<le> i" "width sl (ns ! j) i = of_nat k' - of_nat j"
      "j < K \<Longrightarrow> k' \<le> K" "j = K \<Longrightarrow> m < k'"
proof -
  have "linked sl ns i j" using chainD(12) [OF assms(1,2,3)] .
  from this assms(3) show ?thesis
  proof (cases rule: linked_cases)
    case 1
    have f: "forward (nd sl (ns ! j)) ! i = None" using 1(1) assms(3) by (simp add: fwd_def)
    have "K < length ns" "i < ht sl (ns ! K)" using assms(4,5) by (auto simp: prev_at_def)
    then have "K \<le> j" using 1(2) [of K] by force
    from that(1) [OF f this 1(2)] show ?thesis .
  next
    case (2 k')
    have f: "forward (nd sl (ns ! j)) ! i = Some (ns ! k')" using 2(1) assms(3) by (simp add: fwd_def)
    have a: "j < K \<Longrightarrow> k' \<le> K" using 2(5) [of K] assms(4) by (force simp: prev_at_def not_le)
    have b: "j = K \<Longrightarrow> m < k'" using 2(2,4) assms(4) by (force simp: prev_at_def not_less)
    show ?thesis by (rule that(2) [OF f 2(2,3,4,5,6) a b])
  qed
qed

lemma splice_linked:
  assumes ch: "chain sl ns" and m: "m < length ns" and len: "length ns < 2 ^ 64"
    and K: "\<And>i. i < maxLevel sl \<Longrightarrow> prev_at sl ns i m (K i)" and nl: "nl \<le> maxLevel sl" "sl_level sl \<le> maxLevel sl"
    and h: "\<And>j. j < length ns \<Longrightarrow> ht t (ns ! j) = ht sl (ns ! j)" "ht t nn = nl"
    and F: "\<And>j i. j < length ns \<Longrightarrow> i < ht sl (ns ! j) \<Longrightarrow>
      forward (nd t (ns ! j)) ! i = (if i < nl \<and> j = K i then Some nn else forward (nd sl (ns ! j)) ! i)"
    and W: "\<And>j i. j < length ns \<Longrightarrow> i < ht sl (ns ! j) \<Longrightarrow> forward (nd t (ns ! j)) ! i \<noteq> None \<Longrightarrow>
      width t (ns ! j) i = (if i < nl \<and> j = K i then of_nat (Suc m) - of_nat (K i)
        else if j = K i then width sl (ns ! j) i + 1 else width sl (ns ! j) i)"
    and FN: "\<And>i. i < nl \<Longrightarrow> forward (nd t nn) ! i = forward (nd sl (ns ! K i)) ! i"
    and WN: "\<And>i. i < nl \<Longrightarrow> width t nn i = (if width sl (ns ! K i) i = 0 then 0
        else of_nat (K i) + width sl (ns ! K i) i + 1 - of_nat (Suc m))"
    and k: "k < Suc (length ns)" "i < ht t (splice_at ns m nn ! k)"
  shows "linked t (splice_at ns m nn) i k"
proof -
  let ?ns = "splice_at ns m nn"
  note sp = splice_simps(1-3) [OF m]
  have mx: "ht sl (ns ! j) \<le> maxLevel sl" if "j < length ns" for j
    using that chainD(2,5,9) [OF ch] nl(2) by (cases "j = 0") (auto intro: order_trans)
  have hi: "ht t (?ns ! l) \<le> i" if "l < Suc (length ns)" "l = Suc m \<Longrightarrow> nl \<le> i" "\<And>j. j < length ns \<Longrightarrow> l = shift m j \<Longrightarrow> ht sl (ns ! j) \<le> i" for l
    using that h sp by (cases rule: splice_index [OF that(1) m]) auto
  from k(1) m show ?thesis
  proof (cases rule: splice_index)
    case 1
    then have i: "i < nl" using k(2) h(2) sp(2) by simp
    then have pr: "prev_at sl ns i m (K i)" using K nl by simp
    then have kn: "K i < length ns" "i < ht sl (ns ! K i)" using m by (auto simp: prev_at_def)
    from ch kn pr m show ?thesis
    proof (cases rule: pointer_cases)
      case none
      then show ?thesis
        by (intro linked_noneI hi) (use FN [OF i] 1 sp pr in \<open>auto simp: prev_at_def shift_new\<close>)
    next
      case (some k')
      have "(of_nat k' :: 64 word) \<noteq> of_nat (K i)"
      proof
        assume "(of_nat k' :: 64 word) = of_nat (K i)"
        then have "unat (of_nat k' :: 64 word) = unat (of_nat (K i) :: 64 word)" by simp
        then show False using some(2,3) kn(1) len by (simp add: unat_of_nat)
      qed
      then have w: "width t nn i = of_nat (shift m k') - of_nat k"
        using WN [OF i] some(6,8) 1 by (simp add: shift_def)
      show ?thesis
        by (rule linked_someI [where k' = "shift m k'"])
          (use some FN [OF i] 1 sp h w pr in \<open>auto simp: shift_new prev_at_def intro!: hi intro: shift_below\<close>)
    qed
  next
    case (2 j)
    then have ij: "i < ht sl (ns ! j)" "?ns ! k = ns ! j" using k(2) h(1) sp(3) by auto
    then have pr: "prev_at sl ns i m (K i)" using K mx [OF 2(1)] by simp
    have jK: "j \<le> m \<Longrightarrow> j \<le> K i" using pr ij(1) by (force simp: prev_at_def not_le)
    show ?thesis
    proof (cases "i < nl \<and> j = K i")
      case True
      then have "forward (nd t (?ns ! k)) ! i = Some (?ns ! Suc m)" "width t (?ns ! k) i = of_nat (Suc m) - of_nat k"
        using F [OF 2(1) ij(1)] W [OF 2(1) ij(1)] ij(2) sp(2) 2(2) pr by (auto simp: prev_at_def shift_def)
      then show ?thesis
        by (intro linked_someI [where k' = "Suc m"]) (use True 2 pr sp h m in \<open>auto simp: prev_at_def shift_new intro!: hi\<close>)
    next
      case False
      then have f: "forward (nd t (?ns ! k)) ! i = forward (nd sl (ns ! j)) ! i" using F [OF 2(1) ij(1)] ij(2) by auto
      from ch 2(1) ij(1) pr m show ?thesis
      proof (cases rule: pointer_cases)
        case none
        show ?thesis
          by (rule linked_noneI)
            (use f none False jK 2 sp in \<open>auto simp: shift_new intro!: hi\<close>)
      next
        case (some k')
        have w: "width t (?ns ! k) i = of_nat (shift m k') - of_nat k"
          using W [OF 2(1) ij(1)] f some jK False 2(2) ij(2) pr by (auto simp: shift_def prev_at_def)
        show ?thesis
          by (rule linked_someI [OF _ _ _ _ _ w])
            (use f some False jK 2 sp h pr in \<open>auto simp: shift_new prev_at_def intro!: hi intro: shift_below\<close>)
      qed
    qed
  qed
qed

lemma gen_from_bounds: "l \<le> lim \<Longrightarrow> l \<le> gen_from toss lim l \<and> gen_from toss lim l \<le> lim"
proof (induction toss lim l rule: gen_from.induct)
  case (1 toss lim l)
  then show ?case by (subst (1 2) gen_from.simps) auto
qed

lemma generateLevel_bounds:
  assumes "2 \<le> mx" "mx < 256"
  shows "1 \<le> generateLevel toss mx" "generateLevel toss mx < mx"
proof -
  have "(mx + 255) mod 256 = mx - 1" using assms by (simp add: mod_if)
  then have "generateLevel toss mx = gen_from toss (mx - 1) 1" by (simp add: generateLevel_def)
  moreover have "1 \<le> gen_from toss (mx - 1) 1 \<and> gen_from toss (mx - 1) 1 \<le> mx - 1" by (rule gen_from_bounds) (use assms in linarith)
  ultimately show "1 \<le> generateLevel toss mx" "generateLevel toss mx < mx" using assms by linarith+
qed

text \<open>The path as functions of the level, for every level.\<close>

definition path_of :: "'a SkipList \<Rightarrow> nat list \<Rightarrow> nat \<Rightarrow> (nat \<Rightarrow> nat) \<Rightarrow> bool" where
  "path_of sl ns m K \<longleftrightarrow> (\<forall>i < maxLevel sl. prev_at sl ns i m (K i) \<and> (i = 0 \<longrightarrow> K i = m) \<and> (sl_level sl \<le> i \<longrightarrow> K i = 0) \<and>
     (\<forall>L u v. path sl ns m L u v \<and> i < L \<longrightarrow> u ! i = Some (ns ! K i) \<and> v ! i = of_nat (K i)))"

lemma path_fun:
  assumes ch: "chain sl ns" and m: "m < length ns"
  shows "\<exists>K. path_of sl ns m K"
proof -
  define K where "K i = (SOME k. prev_at sl ns i m k)" for i
  have K: "prev_at sl ns i m (K i)" if "i < maxLevel sl" for i
    unfolding K_def using prev_at_exists [OF ch that] by (rule someI_ex)
  have "u ! i = Some (ns ! K i) \<and> v ! i = of_nat (K i)" if "path sl ns m L u v" "i < L" "i < maxLevel sl" for i L u v
    using that prev_at_unique [OF K [OF that(3)]] by (force simp: path_def)
  then show ?thesis
    using K prev_at_0 [OF ch K m] prev_at_top [OF ch K m] unfolding path_of_def by (intro exI [of _ K]) auto
qed

lemma path_ofD:
  assumes "path_of sl ns m K" "i < maxLevel sl"
  shows "prev_at sl ns i m (K i)" "i = 0 \<Longrightarrow> K i = m" "sl_level sl \<le> i \<Longrightarrow> K i = 0"
    "path sl ns m L u v \<Longrightarrow> i < L \<Longrightarrow> u ! i = Some (ns ! K i) \<and> v ! i = of_nat (K i)"
  using assms by (auto simp: path_of_def)

text \<open>The pointer back to the predecessor, after a node has been linked in behind position \<open>m\<close>.\<close>

lemma splice_pre:
  assumes ch: "chain sl ns" and m: "m < length ns" and nn: "nn \<notin> set ns" and h: "0 < ht sl (ns ! m)"
    and P: "\<And>a. preNode (nd t a) = (if a = nn then Some (ns ! m) else if forward (nd sl (ns ! m)) ! 0 = Some a then Some nn else preNode (nd sl a))"
    and k: "0 < k" "k < Suc (length ns)"
  shows "preNode (nd t (splice_at ns m nn ! k)) = Some (splice_at ns m nn ! (k - 1))"
proof -
  note sp = splice_simps(2,3) [OF m]
  have f: "forward (nd sl (ns ! m)) ! 0 = (if Suc m < length ns then Some (ns ! Suc m) else None)"
    using fwd_0 [OF ch m h] h by (simp add: fwd_def)
  have old: "splice_at ns m nn ! m = ns ! m" using sp(2) [of m nn] m by (simp add: shift_def)
  from k(2) m show ?thesis
  proof (cases rule: splice_index)
    case 1
    then show ?thesis using P sp(1) old by simp
  next
    case (2 j)
    then have j: "0 < j" using k(1) by (auto simp: shift_def split: if_splits)
    have a: "splice_at ns m nn ! k = ns ! j" "ns ! j \<noteq> nn" using 2 sp(2) nn by auto
    show ?thesis
    proof (cases "j = Suc m")
      case True
      then have "k - 1 = Suc m" using 2 by (simp add: shift_def)
      then show ?thesis using a P f True 2(1) sp(1) by simp
    next
      case False
      then have "forward (nd sl (ns ! m)) ! 0 \<noteq> Some (ns ! j)" using f 2(1) chainD(3) [OF ch] by (auto simp: nth_eq_iff_index_eq)
      moreover have "k - 1 = shift m (j - 1)" using 2(2) False j by (auto simp: shift_def)
      ultimately show ?thesis using a P chainD(11) [OF ch j 2(1)] sp(2) [of "j - 1"] 2(1) by auto
    qed
  qed
qed

lemma raise_level_ok:
  assumes "nl \<le> length (sl_cache sl)" "sl_level sl \<le> length (sl_cache sl)"
  shows "\<exists>u. raise_level nl sl = Inr (sl\<lparr>sl_cache := u, sl_level := max (sl_level sl) nl\<rparr>) \<and> length u = length (sl_cache sl) \<and>
    (\<forall>i < max (sl_level sl) nl. u ! i = (if i < sl_level sl then sl_cache sl ! i else Some (sl_head sl)))"
proof (cases "nl > sl_level sl")
  case True
  let ?u = "take (sl_level sl) (sl_cache sl) @ replicate (nl - sl_level sl) (Some (sl_head sl)) @ drop nl (sl_cache sl)"
  show ?thesis
    by (rule exI [of _ ?u]) (use True assms in \<open>auto simp: raise_level_def nth_append min_def max_def\<close>)
next
  case False
  then show ?thesis using assms by (intro exI [of _ "sl_cache sl"]) (auto simp: raise_level_def max_def)
qed

lemma top_none:
  assumes "chain sl ns" "j < length ns" "i < ht sl (ns ! j)" "sl_level sl \<le> i"
  shows "forward (nd sl (ns ! j)) ! i = None"
proof (rule ccontr)
  assume "forward (nd sl (ns ! j)) ! i \<noteq> None"
  then obtain k' where "j < k'" "k' < length ns" "i < ht sl (ns ! k')"
    using chainD(12) [OF assms(1-3)] by (auto simp: linked_def)
  with chainD(9) [OF assms(1), of k'] assms(4) show False by simp
qed

text \<open>
  \<open>spliced\<close>: the nodes of \<open>t\<close> are those of \<open>sl\<close> with the node \<open>nn\<close> of level \<open>nl\<close> linked in behind position \<open>m\<close>; \<open>K\<close> is
  the path to \<open>m\<close>.
\<close>

definition spliced :: "'a SkipList \<Rightarrow> nat list \<Rightarrow> nat \<Rightarrow> (nat \<Rightarrow> nat) \<Rightarrow> nat \<Rightarrow> nat \<Rightarrow> 'a \<Rightarrow> 'a SkipList \<Rightarrow> bool" where
  "spliced sl ns m K nn nl c t \<longleftrightarrow>
     (\<forall>j < length ns. ht t (ns ! j) = ht sl (ns ! j) \<and> length (widths (nd t (ns ! j))) = length (widths (nd sl (ns ! j)))) \<and>
     ht t nn = nl \<and> length (widths (nd t nn)) = nl \<and> (\<forall>a. entry (nd t a) = (if a = nn then Some c else entry (nd sl a))) \<and>
     (\<forall>a. preNode (nd t a) = (if a = nn then Some (ns ! m) else if forward (nd sl (ns ! m)) ! 0 = Some a then Some nn else preNode (nd sl a))) \<and>
     (\<forall>j i. j < length ns \<and> i < ht sl (ns ! j) \<longrightarrow>
        forward (nd t (ns ! j)) ! i = (if i < nl \<and> j = K i then Some nn else forward (nd sl (ns ! j)) ! i) \<and>
        (forward (nd t (ns ! j)) ! i \<noteq> None \<longrightarrow> width t (ns ! j) i = (if i < nl \<and> j = K i then of_nat (Suc m) - of_nat (K i)
           else if j = K i then width sl (ns ! j) i + 1 else width sl (ns ! j) i))) \<and>
     (\<forall>i < nl. forward (nd t nn) ! i = forward (nd sl (ns ! K i)) ! i \<and>
        width t nn i = (if width sl (ns ! K i) i = 0 then 0 else of_nat (K i) + width sl (ns ! K i) i + 1 - of_nat (Suc m)))"

lemma spliced_chain:
  assumes sp: "spliced sl ns m K nn nl c t" and rep: "sl_rep sl ns" and m: "m < length ns" and room: "length ns < 2 ^ 64"
    and Kp: "path_of sl ns m K" and nl: "1 \<le> nl" "nl < maxLevel sl" and nn: "nn = sl_next sl"
    and rest: "sl_head t = sl_head sl" "maxLevel t = maxLevel sl" "sl_level t = max (sl_level sl) nl" "sl_next t = Suc nn"
  shows "chain t (splice_at ns m nn)"
proof -
  let ?ns = "splice_at ns m nn"
  note R = sl_repD [OF rep] and ch = sl_repD(1) [OF rep]
  note C = chainD [OF ch] and s = splice_simps [OF m]
  have nnn: "nn \<notin> set ns" using C(6) nn by auto
  have m0: "0 < ht sl (ns ! m)" using path_ofD(1,2) [OF Kp, of 0] R(4) by (simp add: prev_at_def)
  have lk: "linked t ?ns i k" if "k < Suc (length ns)" "i < ht t (?ns ! k)" for k i
    by (rule splice_linked [OF ch m room path_ofD(1) [OF Kp], where nl = nl])
      (use sp nl R(3) that in \<open>auto simp: spliced_def\<close>)
  have pre: "preNode (nd t (?ns ! k)) = Some (?ns ! (k - 1))" if "0 < k" "k < Suc (length ns)" for k
    by (rule splice_pre [OF ch m nnn m0 _ that]) (use sp in \<open>simp add: spliced_def\<close>)
  have node: "1 \<le> ht t (?ns ! k) \<and> ht t (?ns ! k) \<le> sl_level t \<and> entry (nd t (?ns ! k)) \<noteq> None"
    if k: "0 < k" "k < Suc (length ns)" for k
    using k(2) m
  proof (cases rule: splice_index)
    case 1
    then show ?thesis using sp s(2) rest(3) nl(1) by (simp add: spliced_def)
  next
    case (2 j)
    then have "0 < j" using k(1) by (auto simp: shift_def split: if_splits)
    then show ?thesis using 2 sp s(3) C(8,9,10) [of j] rest(3) nnn by (auto simp: spliced_def max_def)
  qed
  have "sl_head sl \<in> set ns" using C(1,2) by (metis length_greater_0_conv nth_mem)
  then have "sl_head sl \<noteq> nn" using nnn by auto
  moreover have "ht t (ns ! 0) = ht sl (ns ! 0)" using sp C(1) by (simp add: spliced_def)
  ultimately have hd: "ht t (sl_head sl) = maxLevel sl" "entry (nd t (sl_head sl)) = None"
    using sp C(2,4,5) by (simp_all add: spliced_def)
  have "a < Suc nn \<and> length (widths (nd t a)) = ht t a" if "a \<in> set ?ns" for a
  proof (cases "a = nn")
    case True
    then show ?thesis using sp by (simp add: spliced_def)
  next
    case False
    then have "a \<in> set ns" using that s(4) by auto
    then obtain j where "j < length ns" "a = ns ! j" by (auto simp: in_set_conv_nth)
    then show ?thesis using C(6,7) [OF \<open>a \<in> set ns\<close>] sp nn by (simp add: spliced_def)
  qed
  then show ?thesis
    unfolding chain_def using s(1,5,6) C(2,3) nnn lk pre node hd rest by (auto simp: splice_at_def)
qed

lemma link_node:
  assumes rep: "sl_rep sl ns" and m: "m < length ns" and pa: "path sl ns m (sl_level sl) (sl_cache sl) (posCache sl)"
    and room: "length ns < 2 ^ 64" and nl: "1 \<le> nl" "nl < maxLevel sl"
    and u: "length u = maxLevel sl" "\<And>i. i < max (sl_level sl) nl \<Longrightarrow> u ! i = (if i < sl_level sl then sl_cache sl ! i else Some (sl_head sl))"
    and nn: "nn = sl_next sl" and Kp: "path_of sl ns m K"
    and b: "b = sl\<lparr>sl_num := sl_num sl + 1, sl_cache := u, sl_level := max (sl_level sl) nl,
      sl_store := (sl_store sl)(nn := newNode (Some c) nl), sl_next := Suc nn\<rparr>"
  shows "\<exists>s t. for_levels (link_level nn (of_nat (Suc m))) [0..<nl] b = Inr s \<and> for_levels widen_level [nl..<sl_level s] s = Inr t \<and>
    same_rest b t \<and> spliced sl ns m K nn nl c t"
proof -
  note R = sl_repD [OF rep] and ch = sl_repD(1) [OF rep]
  note C = chainD [OF ch]
  have nnn: "nn \<notin> set ns" using C(6) nn by auto
  note K = path_ofD [OF Kp]
  have K0: "K 0 = m" using K(2) [of 0] R(4) by simp
  have Kb: "K i < length ns" "i < ht sl (ns ! K i)" "ns ! K i \<noteq> nn" if "i < maxLevel sl" for i
    using K(1) [OF that] m nnn by (auto simp: prev_at_def)
  have nb: "nd b a = (if a = nn then newNode (Some c) nl else nd sl a)" for a by (simp add: b nd_def)
  have ca: "at_cache (sl_cache b) i = Inr (ns ! K i)" if "i < max (sl_level sl) nl" for i
  proof -
    have "i < maxLevel sl" using that nl R(3) by simp
    then have "u ! i = Some (ns ! K i)" using u(2) [OF that] K(3) K(4) [OF _ pa] C(2) by (cases "i < sl_level sl") auto
    then show ?thesis using \<open>i < maxLevel sl\<close> u(1) by (simp add: at_cache_def b)
  qed
  have pc: "posCache sl ! i = of_nat (K i)" if "i < nl" for i
    using that nl K(3) [of i] K(4) [OF _ pa, of i] R(2) by (cases "i < sl_level sl") (auto simp: cache_ok_def)
  have "\<exists>s. for_levels (link_level nn (of_nat (Suc m))) [0..<nl] b = Inr s \<and> after_link b nn (of_nat (Suc m)) (\<lambda>i. ns ! K i) nl s"
  proof (rule link_levels_ok)
    show "forward (nd b (ns ! K 0)) ! 0 \<noteq> Some nn"
      using fwd_0 [OF ch m] Kb [of 0] R(4) K0 nb nnn by (auto simp: fwd_def split: if_splits)
    show "at_cache (sl_cache b) i = Inr (ns ! K i) \<and> ns ! K i \<noteq> nn \<and> i < ht b (ns ! K i) \<and> length (widths (nd b (ns ! K i))) = ht b (ns ! K i)"
      if "i < nl" for i using ca [of i] Kb [of i] that nl nb C(7) by auto
  qed (simp_all add: nb newNode_def)
  then obtain s where s: "for_levels (link_level nn (of_nat (Suc m))) [0..<nl] b = Inr s" "after_link b nn (of_nat (Suc m)) (\<lambda>i. ns ! K i) nl s"
    by blast
  have sh: "same_shape b s" using s(2) by (simp add: after_link_def)
  note S = same_shapeD [OF sh] same_restD [OF same_shapeD(1) [OF sh]]
  have lv: "sl_level s = max (sl_level sl) nl" using S(8) by (simp add: b)
  have "\<exists>t. for_levels widen_level [nl..<sl_level s] s = Inr t \<and> after_widen s (\<lambda>i. ns ! K i) nl (sl_level s) t"
    by (rule widen_levels_ok) (use S(2,3,5) ca Kb nb lv C(7) R(3) nl in auto)
  then obtain t where t: "for_levels widen_level [nl..<sl_level s] s = Inr t" "after_widen s (\<lambda>i. ns ! K i) nl (sl_level s) t" by blast
  have sh': "same_shape s t" and T: "forward (nd t a) = forward (nd s a)" "preNode (nd t a) = preNode (nd s a)" for a
    using t(2) by (auto simp: after_widen_def)
  note S' = same_shapeD [OF sh'] same_restD [OF same_shapeD(1) [OF sh']]
  have inj: "ns ! j = ns ! K i \<longleftrightarrow> j = K i" if "j < length ns" "i < maxLevel sl" for i j
    using that Kb(1) C(3) by (simp add: nth_eq_iff_index_eq)
  have old: "ns ! j \<noteq> nn" "nd b (ns ! j) = nd sl (ns ! j)" if "j < length ns" for j using that nnn nb by auto
  have h: "ht t (ns ! j) = ht sl (ns ! j)" if "j < length ns" for j using S'(2) S(2) old [OF that] by simp
  have hn: "ht t nn = nl" using S'(2) S(2) nb by (simp add: newNode_def)
  have mx: "i < maxLevel sl" if "j < length ns" "i < ht sl (ns ! j)" for i j
    using that C(2,5,9) R(3) by (cases "j = 0") (auto intro: less_trans le_less_trans)
  have F: "forward (nd t (ns ! j)) ! i = (if i < nl \<and> j = K i then Some nn else forward (nd sl (ns ! j)) ! i)"
    if "j < length ns" "i < ht sl (ns ! j)" for j i
    using s(2) T(1) old [OF that(1)] inj [OF that(1) mx [OF that]] that(2) by (simp add: after_link_def)
  have ws: "width s (ns ! j) i = (if i < nl \<and> j = K i then of_nat (Suc m) - of_nat (K i) else width sl (ns ! j) i)"
    if "j < length ns" "i < ht sl (ns ! j)" for j i
    using s(2) old [OF that(1)] inj [OF that(1) mx [OF that]] that(2) pc by (simp add: after_link_def width_def) (simp add: b)
  have W: "width t (ns ! j) i = (if i < nl \<and> j = K i then of_nat (Suc m) - of_nat (K i)
        else if j = K i then width sl (ns ! j) i + 1 else width sl (ns ! j) i)"
    if j: "j < length ns" "i < ht sl (ns ! j)" "forward (nd t (ns ! j)) ! i \<noteq> None" for j i
  proof -
    have "i < sl_level s" if "nl \<le> i"
      using F [OF j(1,2)] j(3) that top_none [OF ch j(1,2)] lv by (cases "i < sl_level sl") auto
    then show ?thesis using t(2) ws [OF j(1,2)] j T(1) inj [OF j(1) mx [OF j(1,2)]] h [OF j(1)] by (auto simp: after_widen_def)
  qed
  have FN: "forward (nd t nn) ! i = forward (nd sl (ns ! K i)) ! i" if "i < nl" for i
    using s(2) that T(1) nb Kb [of i] nl by (simp add: after_link_def newNode_def)
  have WN: "width t nn i = (if width sl (ns ! K i) i = 0 then 0 else of_nat (K i) + width sl (ns ! K i) i + 1 - of_nat (Suc m))"
    if "i < nl" for i
  proof -
    have "i < maxLevel sl" using that nl by simp
    then have "width s nn i = (if width sl (ns ! K i) i = 0 then 0 else of_nat (K i) + width sl (ns ! K i) i + 1 - of_nat (Suc m))"
      using s(2) that nb Kb [of i] pc [OF that] by (simp add: after_link_def newNode_def width_def) (simp add: b)
    moreover have "width t nn i = width s nn i"
      using t(2) that S(2) nb by (simp add: after_widen_def newNode_def)
    ultimately show ?thesis by simp
  qed
  have pre: "preNode (nd t a) = (if a = nn then Some (ns ! m) else if forward (nd sl (ns ! m)) ! 0 = Some a then Some nn else preNode (nd sl a))" for a
    using s(2) T(2) nl(1) K0 nb m nnn by (auto simp: after_link_def)
  have "spliced sl ns m K nn nl c t"
    unfolding spliced_def using h hn pre F W FN WN S'(3,4) S(3,4) nb old by (auto simp: newNode_def)
  moreover have "same_rest b t" using S(1) S'(1) by (simp add: same_rest_def)
  ultimately show ?thesis using s(1) t(1) by blast
qed

text \<open>Inserting behind position \<open>m\<close> in a list whose slices hold the path to \<open>m\<close>.\<close>

lemma insertNode_new:
  assumes rep: "sl_rep sl ns" and m: "m < length ns" and pa: "path sl ns m (sl_level sl) (sl_cache sl) (posCache sl)"
    and room: "length ns < 2 ^ 64"
    and new: "dup \<or> n = None \<or> (\<exists>e. entry (nd sl (the n)) = Some e \<and> cmp e c \<noteq> 0)"
  shows "\<exists>t nn. insertNode cmp toss n c (of_nat (Suc m)) dup sl = Inr (None, t) \<and> sl_rep t (splice_at ns m nn) \<and> nn \<notin> set ns \<and>
    (\<forall>a. entry (nd t a) = (if a = nn then Some c else entry (nd sl a)))"
proof -
  note R = sl_repD [OF rep]
  let ?nl = "generateLevel toss (maxLevel sl)" and ?nn = "sl_next sl" and ?sl1 = "sl\<lparr>sl_num := sl_num sl + 1\<rparr>"
  have nl: "1 \<le> ?nl" "?nl < maxLevel sl" using generateLevel_bounds R(4,5) by auto
  have c: "length (sl_cache sl) = maxLevel sl" using R(2) by (simp add: cache_ok_def)
  obtain K where K: "path_of sl ns m K" using path_fun [OF R(1) m] by blast
  obtain u where u: "raise_level ?nl ?sl1 = Inr (?sl1\<lparr>sl_cache := u, sl_level := max (sl_level sl) ?nl\<rparr>)" "length u = maxLevel sl"
    "\<And>i. i < max (sl_level sl) ?nl \<Longrightarrow> u ! i = (if i < sl_level sl then sl_cache sl ! i else Some (sl_head sl))"
    using raise_level_ok [of ?nl ?sl1] nl c R(3) by (auto simp del: max_less_iff_conj less_max_iff_disj)
  define b where "b = sl\<lparr>sl_num := sl_num sl + 1, sl_cache := u, sl_level := max (sl_level sl) ?nl,
      sl_store := (sl_store sl)(?nn := newNode (Some c) ?nl), sl_next := Suc ?nn\<rparr>"
  obtain s t where st: "for_levels (link_level ?nn (of_nat (Suc m))) [0..<?nl] b = Inr s" "for_levels widen_level [?nl..<sl_level s] s = Inr t"
    "same_rest b t" "spliced sl ns m K ?nn ?nl c t"
    using link_node [OF rep m pa room nl u(2,3) refl K b_def] by blast
  note T = same_restD [OF st(3)]
  have ch: "chain t (splice_at ns m ?nn)"
    by (rule spliced_chain [OF st(4) rep m room K nl refl]) (simp_all add: T b_def)
  have "cache_ok t (splice_at ns m ?nn)"
    using R(2) T u(2) splice_simps(1) [OF m, of ?nn] m by (auto simp: cache_ok_def b_def)
  moreover have "sl_num t = of_nat (length ns)"
  proof -
    have "sl_num t = of_nat (Suc (length ns - 1))" using T(6) R(7) by (simp add: b_def add.commute)
    then show ?thesis using m by simp
  qed
  ultimately have "sl_rep t (splice_at ns m ?nn)"
    using ch T R nl room splice_simps(1) [OF m, of ?nn] by (simp add: sl_rep_def b_def le_max_iff_disj)
  moreover have "insertNode cmp toss n c (of_nat (Suc m)) dup sl = Inr (None, t)"
  proof -
    have "b = (?sl1\<lparr>sl_cache := u, sl_level := max (sl_level sl) ?nl\<rparr>)\<lparr>sl_store := (sl_store sl)(?nn := newNode (Some c) ?nl), sl_next := Suc ?nn\<rparr>"
      by (simp add: b_def)
    then show ?thesis using new st(1,2) u(1) by (auto simp: insertNode_def node_Compare_def Let_def)
  qed
  moreover have "?nn \<notin> set ns" using chainD(6) [OF R(1)] by auto
  moreover have "\<forall>a. entry (nd t a) = (if a = ?nn then Some c else entry (nd sl a))" using st(4) unfolding spliced_def by blast
  ultimately show ?thesis by blast
qed

lemma linked_cong:
  assumes "\<And>a. forward (nd t a) = forward (nd sl a)" "\<And>a i. width t a i = width sl a i"
  shows "linked t ns i k = linked sl ns i k"
  by (simp add: linked_def assms cong: option.case_cong)

lemma chain_entry:
  assumes "chain sl ns" "0 < k" "k < length ns"
  shows "chain (upd_snode (ns ! k) (\<lambda>x. x\<lparr>entry := Some c\<rparr>) sl) ns"
proof -
  let ?t = "upd_snode (ns ! k) (\<lambda>x. x\<lparr>entry := Some c\<rparr>) sl"
  have n: "nd ?t a = (if a = ns ! k then (nd sl a)\<lparr>entry := Some c\<rparr> else nd sl a)" for a by (simp add: upd_snode_def nd_def)
  have "ns ! k \<noteq> sl_head sl" using chainD(2,3) [OF assms(1)] assms(2,3) by (metis gr_implies_not_zero length_greater_0_conv nth_eq_iff_index_eq less_trans)
  moreover have f: "forward (nd ?t a) = forward (nd sl a)" "widths (nd ?t a) = widths (nd sl a)" "preNode (nd ?t a) = preNode (nd sl a)"
    "width ?t a i = width sl a i" for a i by (simp_all add: n width_def)
  moreover have "linked ?t ns i j = linked sl ns i j" for i j by (rule linked_cong) (simp_all add: f)
  moreover have "sl_head ?t = sl_head sl" "maxLevel ?t = maxLevel sl" "sl_level ?t = sl_level sl" "sl_next ?t = sl_next sl"
    by (simp_all add: upd_snode_def)
  ultimately show ?thesis using assms(1) by (simp add: chain_def n)
qed

lemma rep_entry:
  assumes "sl_rep sl ns" "0 < k" "k < length ns"
  shows "sl_rep (upd_snode (ns ! k) (\<lambda>x. x\<lparr>entry := Some c\<rparr>) sl) ns"
  using assms chain_entry [OF _ assms(2,3)] by (auto simp: sl_rep_def cache_ok_def upd_snode_def)

section \<open>Deleting\<close>

definition after_unlink :: "'a SkipList \<Rightarrow> nat \<Rightarrow> (nat \<Rightarrow> nat) \<Rightarrow> nat \<Rightarrow> 'a SkipList \<Rightarrow> bool" where
  "after_unlink b n C l s \<longleftrightarrow> same_shape b s \<and>
     (\<forall>a i. i < ht b a \<longrightarrow> forward (nd s a) ! i =
        (if i < l \<and> a = C i \<and> forward (nd b a) ! i = Some n then forward (nd b n) ! i else forward (nd b a) ! i)) \<and>
     (\<forall>a i. i < ht b a \<longrightarrow> width s a i =
        (if i < l \<and> a = C i then
           (if forward (nd b a) ! i = Some n then width b a i + (width b n i - 1)
            else if forward (nd b a) ! i = None then width b a i else width b a i - 1)
         else width b a i)) \<and>
     (\<forall>a. preNode (nd s a) =
        (if l = 0 then preNode (nd b a) else if a = n then None
         else if forward (nd b n) ! 0 = Some a then Some (C 0) else preNode (nd b a)))"

lemma unlink_level_ok:
  assumes al: "after_unlink b n C l s" and c: "at_cache (sl_cache b) l = Inr (C l)" "C l \<noteq> n" "l < ht b (C l)"
      "length (widths (nd b (C l))) = ht b (C l)"
    and n: "forward (nd b (C l)) ! l = Some n \<Longrightarrow> l < ht b n" and z: "l = 0 \<Longrightarrow> forward (nd b (C l)) ! l = Some n" "forward (nd b n) ! 0 \<noteq> Some n"
  shows "\<exists>s'. unlink_level n l s = Inr s' \<and> after_unlink b n C (Suc l) s'"
proof -
  have sh: "same_shape b s" using al by (simp add: after_unlink_def)
  note D = same_shapeD [OF sh] same_restD [OF same_shapeD(1) [OF sh]]
  let ?f = "forward (nd b (C l)) ! l"
  have f: "fwd s (C l) l = Inr ?f" "width s (C l) l = width b (C l) l" using al c(3) D(2) by (auto simp: after_unlink_def fwd_def)
  have ca: "at_cache (sl_cache s) l = Inr (C l)" using c(1) D(5) by simp
  consider "?f = Some n" | "?f = None" | x where "?f = Some x" "x \<noteq> n" by (cases ?f) auto
  then show ?thesis
  proof cases
    case 1
    let ?y = "forward (nd b n) ! l"
    have y: "fwd s n l = Inr ?y" "width s n l = width b n l" using al n [OF 1] D(2) c(2) by (auto simp: after_unlink_def fwd_def)
    define s1 where "s1 = (if l = 0 then set_pre n None (case ?y of None \<Rightarrow> s | Some w \<Rightarrow> set_pre w (Some (C l)) s) else s)"
    let ?s' = "set_fwd (C l) l ?y (set_width (C l) l (width b (C l) l + (width b n l - 1)) s1)"
    have rest: "same_rest b s1" using D(1) by (auto simp: s1_def split: option.splits)
    have nd1: "forward (nd s1 a) = forward (nd s a)" "widths (nd s1 a) = widths (nd s a)" "entry (nd s1 a) = entry (nd s a)"
      "preNode (nd s1 a) = (if l = 0 then if a = n then None else if ?y = Some a then Some (C l) else preNode (nd s a) else preNode (nd s a))" for a
      using z(2) by (auto simp: s1_def split: option.splits)
    have "width s1 a = width s a" for a using nd1 by (simp add: width_def fun_eq_iff)
    then have run: "unlink_level n l s = Inr ?s'"
      using f y 1 ca by (simp add: unlink_level_def Let_def flip: s1_def)
    have "same_shape b ?s'" using sh rest nd1 by (auto simp: same_shape_def)
    moreover have "forward (nd ?s' a) ! i =
        (if i < Suc l \<and> a = C i \<and> forward (nd b a) ! i = Some n then forward (nd b n) ! i else forward (nd b a) ! i)"
      if "i < ht b a" for a i using al that 1 c(3) nd1 D(2) by (auto simp: after_unlink_def less_Suc_eq nth_list_update)
    moreover have "width ?s' a i =
        (if i < Suc l \<and> a = C i then
           (if forward (nd b a) ! i = Some n then width b a i + (width b n i - 1)
            else if forward (nd b a) ! i = None then width b a i else width b a i - 1)
         else width b a i)" if "i < ht b a" for a i
      using al that 1 c(3,4) nd1 D(2,3) by (auto simp: after_unlink_def less_Suc_eq nth_list_update width_def)
    moreover have "preNode (nd ?s' a) = (if a = n then None
         else if forward (nd b n) ! 0 = Some a then Some (C 0) else preNode (nd b a))" for a
      using al nd1(4) by (cases "l = 0") (auto simp: after_unlink_def)
    ultimately have "after_unlink b n C (Suc l) ?s'" by (simp add: after_unlink_def)
    with run show ?thesis by blast
  next
    case 2
    then have "unlink_level n l s = Inr s" using f ca by (simp add: unlink_level_def)
    moreover have "l \<noteq> 0" using z(1) 2 by (cases "l = 0") simp_all
    ultimately show ?thesis using al 2 by (intro exI [of _ s]) (auto simp: after_unlink_def less_Suc_eq)
  next
    case 3
    let ?s' = "set_width (C l) l (width b (C l) l - 1) s"
    have "unlink_level n l s = Inr ?s'" using f 3 ca by (simp add: unlink_level_def)
    moreover have "l \<noteq> 0" using z(1) 3 by (cases "l = 0") simp_all
    moreover have "same_shape b ?s'" using sh by (auto simp: same_shape_def)
    ultimately show ?thesis
      using al 3 c(3,4) D(3) by (intro exI [of _ ?s']) (auto simp: after_unlink_def less_Suc_eq width_def nth_list_update)
  qed
qed

lemma unlink_levels_ok:
  assumes c: "\<And>i. i < l \<Longrightarrow> at_cache (sl_cache b) i = Inr (C i) \<and> C i \<noteq> n \<and> i < ht b (C i) \<and>
      length (widths (nd b (C i))) = ht b (C i) \<and> (forward (nd b (C i)) ! i = Some n \<longrightarrow> i < ht b n)"
    and z: "forward (nd b (C 0)) ! 0 = Some n" "forward (nd b n) ! 0 \<noteq> Some n"
  shows "\<exists>s. for_levels (unlink_level n) [0..<l] b = Inr s \<and> after_unlink b n C l s"
  using c
proof (induction l)
  case 0
  then show ?case by (simp add: after_unlink_def same_shape_def)
next
  case (Suc l)
  then obtain s where s: "for_levels (unlink_level n) [0..<l] b = Inr s" "after_unlink b n C l s" by auto
  have "\<exists>s'. unlink_level n l s = Inr s' \<and> after_unlink b n C (Suc l) s'"
    by (rule unlink_level_ok [OF s(2)]) (use Suc.prems [of l] z in auto)
  with s(1) show ?case by (auto simp: for_levels_append)
qed

definition unsplice :: "nat list \<Rightarrow> nat \<Rightarrow> nat list" where
  "unsplice ns m = take (Suc m) ns @ drop (Suc (Suc m)) ns"

lemma unsplice_simps:
  assumes "Suc m < length ns"
  shows "length (unsplice ns m) = length ns - 1" "k < length ns - 1 \<Longrightarrow> unsplice ns m ! k = ns ! shift m k"
    "set (unsplice ns m) \<subseteq> set ns" "distinct ns \<Longrightarrow> distinct (unsplice ns m)"
proof -
  show "length (unsplice ns m) = length ns - 1" "set (unsplice ns m) \<subseteq> set ns"
    using assms by (auto simp: unsplice_def dest: in_set_takeD in_set_dropD)
  show "unsplice ns m ! k = ns ! shift m k" if "k < length ns - 1"
    using assms that by (auto simp: unsplice_def shift_def nth_append min_def Suc_diff_le)
  show "distinct (unsplice ns m)" if "distinct ns"
    using that set_take_disj_set_drop_if_distinct [of ns "Suc m" "Suc (Suc m)"] by (auto simp: unsplice_def)
qed

lemma shift_cases:
  assumes "j \<noteq> Suc m"
  obtains k where "j = shift m k"
  using assms that [of j] that [of "j - 1"] by (cases "j \<le> m") (auto simp: shift_def)

lemma shift_len [simp]: "k < n - 1 \<Longrightarrow> shift m k < n"
  by (auto simp: shift_def)

lemma shift_not_new [simp]: "shift m k \<noteq> Suc m"
  by (simp add: shift_def)

text \<open>
  \<open>unspliced\<close>: the nodes of \<open>t\<close> are those of \<open>sl\<close> with the node at position \<open>m + 1\<close> taken out; \<open>K\<close> is the path to \<open>m\<close>.
\<close>

definition unspliced :: "'a SkipList \<Rightarrow> nat list \<Rightarrow> nat \<Rightarrow> (nat \<Rightarrow> nat) \<Rightarrow> 'a SkipList \<Rightarrow> bool" where
  "unspliced sl ns m K t \<longleftrightarrow>
     (\<forall>a. ht t a = ht sl a \<and> length (widths (nd t a)) = length (widths (nd sl a)) \<and> entry (nd t a) = entry (nd sl a)) \<and>
     (\<forall>a. a \<noteq> ns ! Suc m \<longrightarrow> preNode (nd t a) = (if forward (nd sl (ns ! Suc m)) ! 0 = Some a then Some (ns ! m) else preNode (nd sl a))) \<and>
     (\<forall>j i. j < length ns \<and> j \<noteq> Suc m \<and> i < ht sl (ns ! j) \<longrightarrow>
        forward (nd t (ns ! j)) ! i =
          (if j = K i \<and> forward (nd sl (ns ! j)) ! i = Some (ns ! Suc m) then forward (nd sl (ns ! Suc m)) ! i
           else forward (nd sl (ns ! j)) ! i) \<and>
        (forward (nd t (ns ! j)) ! i \<noteq> None \<longrightarrow> width t (ns ! j) i =
          (if j = K i then
             if forward (nd sl (ns ! j)) ! i = Some (ns ! Suc m) then width sl (ns ! j) i + (width sl (ns ! Suc m) i - 1)
             else width sl (ns ! j) i - 1
           else width sl (ns ! j) i)))"

lemma unspliced_linked:
  assumes us: "unspliced sl ns m K t" and ch: "chain sl ns" and m: "Suc m < length ns"
    and K: "\<And>i. i < maxLevel sl \<Longrightarrow> prev_at sl ns i m (K i)" and lv: "sl_level sl \<le> maxLevel sl"
    and k: "k < length ns - 1" "i < ht t (unsplice ns m ! k)"
  shows "linked t (unsplice ns m) i k"
proof -
  let ?ns = "unsplice ns m" and ?j = "shift m k" and ?n = "ns ! Suc m"
  note sp = unsplice_simps(1,2) [OF m]
  have H: "ht t a = ht sl a" for a using us by (simp add: unspliced_def)
  have j: "?j < length ns" "?ns ! k = ns ! ?j" "i < ht sl (ns ! ?j)" using k sp H by (auto simp: shift_def)
  have "i < maxLevel sl" using j(3) chainD(2,5) [OF ch] chainD(9) [OF ch _ j(1)] lv by (cases "?j = 0") (auto intro: less_le_trans)
  then have pr: "prev_at sl ns i m (K i)" by (rule K)
  have jK: "?j \<le> m \<Longrightarrow> ?j \<le> K i" using pr j(3) by (force simp: prev_at_def not_le)
  have F: "forward (nd t (?ns ! k)) ! i = (if ?j = K i \<and> forward (nd sl (ns ! ?j)) ! i = Some ?n then forward (nd sl ?n) ! i
           else forward (nd sl (ns ! ?j)) ! i)"
    and W: "forward (nd t (?ns ! k)) ! i \<noteq> None \<Longrightarrow> width t (?ns ! k) i =
          (if ?j = K i then if forward (nd sl (ns ! ?j)) ! i = Some ?n then width sl (ns ! ?j) i + (width sl ?n i - 1)
             else width sl (ns ! ?j) i - 1
           else width sl (ns ! ?j) i)"
    using us j by (auto simp: unspliced_def)
  from ch j(1,3) pr Suc_lessD [OF m] show ?thesis
  proof (cases rule: pointer_cases)
    case none
    show ?thesis
      by (rule linked_noneI) (use F none sp H in auto)
  next
    case (some k0)
    show ?thesis
    proof (cases "k0 = Suc m")
      case True
      have jm: "?j \<le> m" using some(2) True by simp
      then have jK': "?j = K i" "k = ?j" using jK some(7) True pr by (force simp: prev_at_def, auto simp: shift_def split: if_splits)
      have f: "forward (nd t (?ns ! k)) ! i = forward (nd sl ?n) ! i" using F jK' some(1) True by simp
      have between: "ht sl (ns ! shift m l) \<le> i" if "k < l" "shift m l \<le> m" for l
        using some(5) [of "shift m l"] that True by (simp add: less_Suc_eq_le)
      have ni: "i < ht sl ?n" and wj: "width sl (ns ! ?j) i = of_nat (Suc m) - of_nat ?j" and fj: "forward (nd sl (ns ! ?j)) ! i = Some ?n"
        using some(1,4,6) True by simp_all
      from ch m ni pr Suc_lessD [OF m] show ?thesis
      proof (cases rule: pointer_cases)
        case none
        have "ht sl (ns ! shift m l) \<le> i" if "k < l" "l < length ns - 1" for l
          using between [OF that(1)] none(3) [of "shift m l"] that(2) by (cases "shift m l \<le> m") (auto simp: shift_def split: if_splits)
        then show ?thesis by (intro linked_noneI) (use f none sp H in auto)
      next
        case (some k1)
        then obtain kk where kk: "k1 = shift m kk" "kk < length ns - 1" "k1 = Suc kk" "m < kk"
          using that [of "k1 - 1"] by (auto simp: shift_def)
        have "ht sl (ns ! shift m l) \<le> i" if "k < l" "l < kk" for l
          using between [OF that(1)] some(5) [of "shift m l"] that(2) kk by (cases "shift m l \<le> m") (auto simp: shift_def split: if_splits)
        moreover have "width t (?ns ! k) i = of_nat kk - of_nat k"
          using W f some(1,6) jK' wj fj kk(3) by simp
        ultimately show ?thesis
          by (intro linked_someI [where k' = kk]) (use f some sp H kk jm jK' in auto)
      qed
    next
      case False
      then obtain kk where kk: "k0 = shift m kk" by (rule shift_cases)
      have kl: "kk < length ns - 1" using kk some(3) m by (auto simp: shift_def split: if_splits)
      have nn: "forward (nd sl (ns ! ?j)) ! i \<noteq> Some ?n"
        using some(1,3) False m chainD(3) [OF ch] by (simp add: nth_eq_iff_index_eq)
      have "width t (?ns ! k) i = of_nat kk - of_nat k"
      proof (cases "?j = K i")
        case True
        then have "m < k0" "?j \<le> m" using some(8) pr by (auto simp: prev_at_def)
        then have "k0 = Suc kk" "?j = k" using kk by (auto simp: shift_def split: if_splits)
        then show ?thesis using W F nn some(1,6) True by simp
      next
        case no: False
        then have "?j \<le> m \<and> k0 \<le> m \<or> m < ?j" using jK some(7) pr by (force simp: prev_at_def)
        then have "k0 = kk \<and> ?j = k \<or> k0 = Suc kk \<and> ?j = Suc k" using kk some(2) by (auto simp: shift_def split: if_splits)
        then show ?thesis using W F nn some(1,6) no by auto
      qed
      then show ?thesis
        by (intro linked_someI [where k' = kk]) (use F nn some sp H kk kl in auto)
    qed
  qed
qed

lemma unspliced_chain:
  assumes us: "unspliced sl ns m K t" and ch: "chain sl ns" and m: "Suc m < length ns" and Kp: "path_of sl ns m K"
    and lv: "sl_level sl \<le> maxLevel sl"
    and rest: "sl_head t = sl_head sl" "maxLevel t = maxLevel sl" "sl_level t = sl_level sl" "sl_next t = sl_next sl"
  shows "chain t (unsplice ns m)"
proof -
  let ?ns = "unsplice ns m"
  note C = chainD [OF ch] and s = unsplice_simps [OF m]
  have H: "ht t a = ht sl a" "length (widths (nd t a)) = length (widths (nd sl a))" "entry (nd t a) = entry (nd sl a)" for a
    using us by (auto simp: unspliced_def)
  have lk: "linked t ?ns i k" if "k < length ns - 1" "i < ht t (?ns ! k)" for k i
    by (rule unspliced_linked [OF us ch m path_ofD(1) [OF Kp] lv that])
  have f: "forward (nd sl (ns ! Suc m)) ! 0 = (if Suc (Suc m) < length ns then Some (ns ! Suc (Suc m)) else None)"
  proof -
    have h: "0 < ht sl (ns ! Suc m)" using C(8) [of "Suc m"] m by linarith
    then show ?thesis using fwd_0 [OF ch m h] by (simp add: fwd_def)
  qed
  have pre: "preNode (nd t (?ns ! k)) = Some (?ns ! (k - 1))" if k: "0 < k" "k < length ns - 1" for k
  proof -
    let ?j = "shift m k"
    have j: "?ns ! k = ns ! ?j" "?j < length ns" "0 < ?j" using k s(2) by (auto simp: shift_def)
    have n: "ns ! ?j \<noteq> ns ! Suc m" using j(2) m C(3) by (simp add: nth_eq_iff_index_eq)
    show ?thesis
    proof (cases "k = Suc m")
      case True
      then show ?thesis using us n j f k s(2) [of m] m by (auto simp: unspliced_def shift_def)
    next
      case False
      then have "?j \<noteq> Suc (Suc m)" "?j - 1 = shift m (k - 1)" using k(1) by (auto simp: shift_def)
      then show ?thesis using us n j f s(2) [of "k - 1"] k(2) C(11) [OF j(3,2)] C(3) m
        by (auto simp: unspliced_def nth_eq_iff_index_eq)
    qed
  qed
  have node: "1 \<le> ht t (?ns ! k) \<and> ht t (?ns ! k) \<le> sl_level t \<and> entry (nd t (?ns ! k)) \<noteq> None" if k: "0 < k" "k < length ns - 1" for k
  proof -
    have "0 < shift m k" using k(1) by (simp add: shift_def)
    then show ?thesis using C(8,9,10) [of "shift m k"] k H s(2) rest(3) by simp
  qed
  have "?ns ! 0 = sl_head sl" "?ns \<noteq> []" using s(1) s(2) [of 0] m C(2) by (auto simp: shift_def)
  then show ?thesis unfolding chain_def using s(1,3,4) C(3-7) H lk pre node rest by (auto dest: subsetD)
qed

lemma unlink_node:
  assumes rep: "sl_rep sl ns" and m: "Suc m < length ns" and Kp: "path_of sl ns m K"
    and pa: "path sl ns m (Suc (sl_level sl)) (sl_cache sl) (posCache sl)" and b: "b = sl\<lparr>sl_num := sl_num sl - 1\<rparr>"
  shows "\<exists>t. for_levels (unlink_level (ns ! Suc m)) [0..<Suc (sl_level sl)] b = Inr t \<and> same_rest b t \<and> unspliced sl ns m K t"
proof -
  note R = sl_repD [OF rep] and ch = sl_repD(1) [OF rep]
  note C = chainD [OF ch] and K = path_ofD [OF Kp]
  let ?n = "ns ! Suc m"
  have m1: "m < length ns" using m by simp
  have K0: "K 0 = m" using K(2) [of 0] R(4) by simp
  have nb: "nd b = nd sl" "width b = width sl" by (simp_all add: b nd_def width_def fun_eq_iff)
  have Kb: "K i < length ns" "K i \<noteq> Suc m" "i < ht sl (ns ! K i)" "ns ! K i \<noteq> ?n" if "i < maxLevel sl" for i
    using K(1) [OF that] m C(3) by (auto simp: prev_at_def nth_eq_iff_index_eq)
  have "\<exists>t. for_levels (unlink_level ?n) [0..<Suc (sl_level sl)] b = Inr t \<and> after_unlink b ?n (\<lambda>i. ns ! K i) (Suc (sl_level sl)) t"
  proof (rule unlink_levels_ok)
    have "0 < ht sl (ns ! m)" "0 < ht sl ?n" using Kb(3) [of 0] K0 R(4) C(8) [of "Suc m"] m by (auto simp del: length_greater_0_conv)
    then show "forward (nd b (ns ! K 0)) ! 0 = Some ?n" "forward (nd b ?n) ! 0 \<noteq> Some ?n"
      using fwd_0 [OF ch m1] fwd_0 [OF ch m] K0 nb m C(3) by (auto simp: fwd_def nth_eq_iff_index_eq split: if_splits)
    fix i assume "i < Suc (sl_level sl)"
    then have i: "i < maxLevel sl" "i < Suc (sl_level sl)" using R(3) by auto
    have "sl_cache sl ! i = Some (ns ! K i)" using K(4) [OF i(1) pa i(2)] by simp
    then have "at_cache (sl_cache b) i = Inr (ns ! K i)" using R(2) i by (simp add: at_cache_def cache_ok_def b)
    moreover have "forward (nd sl (ns ! K i)) ! i = Some ?n \<longrightarrow> i < ht sl ?n"
      using C(12) [OF Kb(1,3) [OF i(1)]] by (auto simp: linked_def)
    ultimately show "at_cache (sl_cache b) i = Inr (ns ! K i) \<and> ns ! K i \<noteq> ?n \<and> i < ht b (ns ! K i) \<and>
      length (widths (nd b (ns ! K i))) = ht b (ns ! K i) \<and> (forward (nd b (ns ! K i)) ! i = Some ?n \<longrightarrow> i < ht b ?n)"
      using Kb [OF i(1)] nb C(7) by auto
  qed
  then obtain t where t: "for_levels (unlink_level ?n) [0..<Suc (sl_level sl)] b = Inr t" "after_unlink b ?n (\<lambda>i. ns ! K i) (Suc (sl_level sl)) t"
    by blast
  have inj: "ns ! j = ns ! K i \<longleftrightarrow> j = K i" if "j < length ns" "i < maxLevel sl" for i j
    using that Kb(1) C(3) by (simp add: nth_eq_iff_index_eq)
  have FW: "forward (nd t (ns ! j)) ! i = (if j = K i \<and> forward (nd sl (ns ! j)) ! i = Some ?n then forward (nd sl ?n) ! i
           else forward (nd sl (ns ! j)) ! i) \<and>
        (forward (nd t (ns ! j)) ! i \<noteq> None \<longrightarrow> width t (ns ! j) i =
          (if j = K i then if forward (nd sl (ns ! j)) ! i = Some ?n then width sl (ns ! j) i + (width sl ?n i - 1)
             else width sl (ns ! j) i - 1
           else width sl (ns ! j) i))" if j: "j < length ns" "j \<noteq> Suc m" "i < ht sl (ns ! j)" for j i
  proof -
    have "i < maxLevel sl" using j C(2,5,9) R(3) by (cases "j = 0") (auto intro: less_trans le_less_trans)
    then show ?thesis
      using t(2) inj [OF j(1)] j(3) top_none [OF ch j(1,3)] nb by (cases "i < sl_level sl") (auto simp: after_unlink_def)
  qed
  have "unspliced sl ns m K t" unfolding unspliced_def
    using t(2) FW nb K0 by (auto simp: after_unlink_def same_shape_def)
  moreover have "same_rest b t" using t(2) by (simp add: after_unlink_def same_shape_def)
  ultimately show ?thesis using t(1) by blast
qed

text \<open>Lowering the level: the levels given up have no node left.\<close>

lemma chain_lower:
  assumes ch: "chain t ns" and l: "sl_level t = Suc l" "Suc l < maxLevel t" and f: "forward (nd t (sl_head t)) ! l = None"
  shows "chain ((set_width (sl_head t) (Suc l) 0 t)\<lparr>sl_level := l\<rparr>) ns"
proof -
  let ?t = "(set_width (sl_head t) (Suc l) 0 t)\<lparr>sl_level := l\<rparr>"
  note C = chainD [OF ch]
  have n: "nd ?t = nd (set_width (sl_head t) (Suc l) 0 t)" by (simp add: nd_def fun_eq_iff)
  have F: "forward (nd ?t a) = forward (nd t a)" "entry (nd ?t a) = entry (nd t a)" "preNode (nd ?t a) = preNode (nd t a)"
    "length (widths (nd ?t a)) = length (widths (nd t a))" for a by (simp_all add: n)
  have W: "width ?t a i = width t a i" if "a \<noteq> sl_head t \<or> i \<noteq> Suc l" for a i using that by (auto simp: width_def n)
  have rest: "sl_head ?t = sl_head t" "maxLevel ?t = maxLevel t" "sl_next ?t = sl_next t" "sl_level ?t = l"
    by (simp_all add: set_width_def upd_snode_def)
  have "linked t ns l 0" using C(12) [of 0 l] C(1,2,5) l by simp
  then have low: "ht t (ns ! k) \<le> l" if "0 < k" "k < length ns" for k using that f C(2) by (simp add: linked_def)
  have "linked ?t ns i k" if k: "k < length ns" "i < ht t (ns ! k)" for k i
  proof (cases "k = 0 \<and> i = Suc l")
    case True
    then have "forward (nd t (ns ! k)) ! i = None" using top_none [OF ch k] l by simp
    then show ?thesis using C(12) [OF k] F by (simp add: linked_def)
  next
    case False
    then have "width ?t (ns ! k) i = width t (ns ! k) i"
      using W C(2,3) k(1) C(1) by (metis gr_zeroI nth_eq_iff_index_eq length_greater_0_conv)
    then show ?thesis using C(12) [OF k] F by (simp add: linked_def cong: option.case_cong)
  qed
  with low show ?thesis unfolding chain_def using C F rest by auto
qed

lemma lower_level_ok:
  "chain t ns \<Longrightarrow> sl_level t = l \<Longrightarrow> 1 \<le> l \<Longrightarrow> l < maxLevel t \<Longrightarrow>
    \<exists>t' l'. lower_level l t = Inr t' \<and> chain t' ns \<and> sl_level t' = l' \<and> 1 \<le> l' \<and> l' \<le> l \<and> same_rest (t\<lparr>sl_level := l'\<rparr>) t' \<and>
      (\<forall>a. entry (nd t' a) = entry (nd t a)) \<and> (\<forall>i. l' \<le> i \<and> i < l \<longrightarrow> forward (nd t (sl_head t)) ! i = None)"
proof (induction l arbitrary: t)
  case (Suc l)
  show ?case
  proof (cases "l = 0 \<or> forward (nd t (sl_head t)) ! l \<noteq> None")
    case True
    have "lower_level (Suc l) t = Inr t" using True Suc.prems chainD(5) [OF Suc.prems(1)] by (auto simp: fwd_def)
    then show ?thesis using Suc.prems by (intro exI [of _ t] exI [of _ "Suc l"]) (auto simp: same_rest_def simp del: lower_level.simps)
  next
    case False
    let ?t = "(set_width (sl_head t) (Suc l) 0 t)\<lparr>sl_level := l\<rparr>"
    have hd: "sl_head ?t = sl_head t" "maxLevel ?t = maxLevel t" by (simp_all add: set_width_def upd_snode_def)
    have n: "nd ?t = nd (set_width (sl_head t) (Suc l) 0 t)" by (simp add: nd_def fun_eq_iff)
    have "sl_head t \<in> set ns" using chainD(1,2) [OF Suc.prems(1)] by (metis length_greater_0_conv nth_mem)
    then have "length (widths (nd t (sl_head t))) = maxLevel t" using chainD(5,7) [OF Suc.prems(1)] by simp
    then have "lower_level (Suc l) t = lower_level l ?t"
      using False Suc.prems chainD(5) [OF Suc.prems(1)] by (simp add: fwd_def)
    moreover have "chain ?t ns" using chain_lower [OF Suc.prems(1), of l] Suc.prems False by simp
    then obtain t' l' where "lower_level l ?t = Inr t'" "chain t' ns" "sl_level t' = l'" "1 \<le> l'" "l' \<le> l" "same_rest (?t\<lparr>sl_level := l'\<rparr>) t'"
      "\<forall>a. entry (nd t' a) = entry (nd ?t a)" "\<forall>i. l' \<le> i \<and> i < l \<longrightarrow> forward (nd ?t (sl_head ?t)) ! i = None"
      using Suc.IH [of ?t] False Suc.prems hd by auto
    moreover have "same_rest (?t\<lparr>sl_level := l'\<rparr>) t' = same_rest (t\<lparr>sl_level := l'\<rparr>) t'"
      by (simp add: same_rest_def set_width_def upd_snode_def)
    moreover have "forward (nd ?t a) = forward (nd t a)" "entry (nd ?t a) = entry (nd t a)" for a by (simp_all add: n)
    ultimately show ?thesis
      using False hd by (intro exI [of _ t'] exI [of _ l']) (auto simp: less_Suc_eq simp del: lower_level.simps)
  qed
qed simp

text \<open>Taking the node behind position \<open>m\<close> out of a list whose slices hold the path to \<open>m\<close>.\<close>

lemma remove_node:
  assumes rep: "sl_rep sl ns" and m: "Suc m < length ns" and pa: "path sl ns m (Suc (sl_level sl)) (sl_cache sl) (posCache sl)"
  shows "\<exists>s t. for_levels (unlink_level (ns ! Suc m)) [0..<Suc (sl_level sl)] (sl\<lparr>sl_num := sl_num sl - 1\<rparr>) = Inr s \<and>
    lower_level (sl_level s) s = Inr t \<and> sl_rep t (unsplice ns m) \<and> (\<forall>a. entry (nd t a) = entry (nd sl a))"
proof -
  note R = sl_repD [OF rep] and ch = sl_repD(1) [OF rep]
  let ?b = "sl\<lparr>sl_num := sl_num sl - 1\<rparr>"
  have m1: "m < length ns" using m by simp
  obtain K where Kp: "path_of sl ns m K" using path_fun [OF ch m1] by blast
  note K = path_ofD [OF Kp]
  obtain s where s: "for_levels (unlink_level (ns ! Suc m)) [0..<Suc (sl_level sl)] ?b = Inr s" "same_rest ?b s" "unspliced sl ns m K s"
    using unlink_node [OF rep m Kp pa refl] by blast
  note S = same_restD [OF s(2)]
  have cs: "chain s (unsplice ns m)" by (rule unspliced_chain [OF s(3) ch m Kp]) (use S R(3) in auto)
  obtain t l' where t: "lower_level (sl_level s) s = Inr t" "chain t (unsplice ns m)" "sl_level t = l'" "1 \<le> l'" "l' \<le> sl_level sl"
    "same_rest (s\<lparr>sl_level := l'\<rparr>) t" "\<forall>a. entry (nd t a) = entry (nd s a)"
    "\<forall>i. l' \<le> i \<and> i < sl_level sl \<longrightarrow> forward (nd s (sl_head s)) ! i = None"
    using lower_level_ok [OF cs refl] S R(3,8) m by auto
  note T = same_restD [OF t(6)]
  have pc: "posCache sl ! i = 0" if i: "l' \<le> i" "i < maxLevel sl" for i
  proof (cases "i < sl_level sl")
    case True
    have "linked s (unsplice ns m) i 0"
      using chainD(12) [OF cs, of 0 i] chainD(1,2,5) [OF cs] i(2) S by simp
    then have none: "ht s (unsplice ns m ! k) \<le> i" if "0 < k" "k < length ns - 1" for k
      using that t(8) True i(1) chainD(2) [OF cs] unsplice_simps(1) [OF m] by (auto simp: linked_def)
    have "K i = 0"
    proof (rule ccontr)
      assume "K i \<noteq> 0"
      then have "0 < K i" "K i \<le> m" "i < ht sl (ns ! K i)" using K(1) [OF i(2)] by (auto simp: prev_at_def)
      moreover have "K i < length ns - 1" using \<open>K i \<le> m\<close> m by linarith
      ultimately show False using none [of "K i"] s(3) unsplice_simps(2) [OF m, of "K i"] by (auto simp: shift_def unspliced_def)
    qed
    then show ?thesis using K(4) [OF i(2) pa] True by simp
  next
    case False
    then show ?thesis using R(2) i(2) by (simp add: cache_ok_def)
  qed
  have "cache_ok t (unsplice ns m)"
  proof -
    have "sl_cache sl ! i = Some (sl_head sl) \<and> posCache sl ! i = 0" if "length ns = 2" "i < l'" for i
    proof -
      have "i < maxLevel sl" "i < Suc (sl_level sl)" "K i = 0" using that m t(5) R(3) K(1) [of i] by (auto simp: prev_at_def)
      then show ?thesis using K(4) [OF _ pa] chainD(2) [OF ch] by simp
    qed
    then show ?thesis using pc R(2) T S t(3) unsplice_simps(1) [OF m] by (auto simp: cache_ok_def)
  qed
  moreover have "sl_num t = of_nat (length ns - 1 - 1)"
  proof -
    obtain x where "length ns = Suc (Suc x)" using m that [of "length ns - 2"] by simp
    then show ?thesis using T(6) S(6) R(7) by simp
  qed
  moreover have "sl_level t \<le> sl_level sl" "1 \<le> sl_level t" "maxLevel t = maxLevel sl" using t(3-5) T(5) S(5) by simp_all
  moreover have "length (unsplice ns m) = length ns - 1" "length ns - 1 \<le> 2 ^ 64" using unsplice_simps(1) [OF m] R(6) by simp_all
  ultimately have "sl_rep t (unsplice ns m)" unfolding sl_rep_def using t(2) R(3-5) by (metis le_less_trans)
  moreover have "\<forall>a. entry (nd t a) = entry (nd sl a)" using t(7) s(3) by (simp add: unspliced_def)
  ultimately show ?thesis using s(1) t(1) by blast
qed

end
