(* ===== verification/SkipOrder.thy ===== *)
theory SkipOrder
  imports SkipList
begin

text \<open>
  The skip list seen from outside: what each operation of \<open>SkipList\<close> does to the list of entries, by comparison and by
  position, and, in the locale \<open>comparator\<close>, what follows when the comparison is an order: the list stays ordered, and
  inserting and deleting act on the set of entries.
\<close>

section \<open>The list of entries\<close>

text \<open>
  What the operations do to the list of entries. \<open>rank_of\<close> counts the entries before \<open>c\<close>; an operation by comparison
  relies on these entries being the front of the list (\<open>cut\<close>), which an ordered list gives.
\<close>

definition sl_list :: "'a SkipList \<Rightarrow> 'a list \<Rightarrow> bool" where
  "sl_list sl es \<longleftrightarrow> (\<exists>ns. sl_rep sl ns \<and> sl_entries sl ns = es)"

definition rank_of :: "('a \<Rightarrow> 'a \<Rightarrow> int) \<Rightarrow> 'a \<Rightarrow> 'a list \<Rightarrow> nat" where
  "rank_of cmp c es = length (takeWhile (\<lambda>e. cmp e c < 0) es)"

definition cut :: "('a \<Rightarrow> 'a \<Rightarrow> int) \<Rightarrow> 'a \<Rightarrow> 'a list \<Rightarrow> bool" where
  "cut cmp c es \<longleftrightarrow> (\<forall>j < length es. cmp (es ! j) c < 0 \<longleftrightarrow> j < rank_of cmp c es)"

definition hit :: "('a \<Rightarrow> 'a \<Rightarrow> int) \<Rightarrow> 'a \<Rightarrow> 'a list \<Rightarrow> bool" where
  "hit cmp c es \<longleftrightarrow> rank_of cmp c es < length es \<and> cmp (es ! rank_of cmp c es) c = 0"

definition list_insert :: "('a \<Rightarrow> 'a \<Rightarrow> int) \<Rightarrow> 'a \<Rightarrow> 'a list \<Rightarrow> 'a list" where
  "list_insert cmp c es = (let m = rank_of cmp c es in if hit cmp c es then es[m := c] else take m es @ c # drop m es)"

definition list_delete :: "('a \<Rightarrow> 'a \<Rightarrow> int) \<Rightarrow> 'a \<Rightarrow> 'a list \<Rightarrow> 'a list" where
  "list_delete cmp c es = (let m = rank_of cmp c es in if hit cmp c es then take m es @ drop (Suc m) es else es)"

lemma rank_of_le: "rank_of cmp c es \<le> length es"
  by (simp add: rank_of_def length_takeWhile_le)

lemma entries_nth:
  assumes "sl_rep sl ns"
  shows "length (sl_entries sl ns) = length ns - 1"
    "j < length ns - 1 \<Longrightarrow> sl_entries sl ns ! j = the (entry (nd sl (ns ! Suc j)))"
    "j < length ns - 1 \<Longrightarrow> entry (nd sl (ns ! Suc j)) = Some (sl_entries sl ns ! j)"
  using chainD(1) [OF sl_repD(1) [OF assms]] chainD(10) [OF sl_repD(1) [OF assms], of "Suc j"] by (auto simp: sl_entries_def nth_tl)

lemma new_list: "bits \<in> {8, 16, 32, 64} \<Longrightarrow> sl_list (SkipList_New bits) []"
  by (auto simp: sl_list_def sl_rep_def chain_def cache_ok_def sl_entries_def SkipList_New_def init_level_def nd_def newNode_def
      linked_def Let_def intro!: exI [of _ "[0]"])

lemma rank_split:
  assumes "sl_rep sl ns" "cut cmp c (sl_entries sl ns)" "m = rank_of cmp c (sl_entries sl ns)"
  shows "m < length ns" "\<And>j. 0 < j \<Longrightarrow> j < length ns \<Longrightarrow> cmp (the (entry (nd sl (ns ! j)))) c < 0 \<longleftrightarrow> j \<le> m"
proof -
  have "ns \<noteq> []" using chainD(1) [OF sl_repD(1) [OF assms(1)]] .
  then show "m < length ns" using rank_of_le [of cmp c "sl_entries sl ns"] assms(3) entries_nth(1) [OF assms(1)] by (cases ns) auto
  fix j assume "0 < j" "j < length ns"
  then obtain i where "j = Suc i" "i < length ns - 1" by (cases j) auto
  then show "cmp (the (entry (nd sl (ns ! j)))) c < 0 \<longleftrightarrow> j \<le> m"
    using assms(2,3) entries_nth(1,2) [OF assms(1)] by (auto simp: cut_def)
qed

lemma search_list:
  assumes rep: "sl_rep sl ns" and cut: "cut cmp c (sl_entries sl ns)" and m: "m = rank_of cmp c (sl_entries sl ns)"
    and fit: "fits (Suc (sl_level sl)) upd"
  shows "\<exists>upd'. search cmp sl c upd = Some (Inr (if Suc m < length ns then Some (ns ! Suc m) else None, of_nat (Suc m), upd')) \<and>
    (if length ns = 1 then upd' = upd else noted sl ns m (Suc (sl_level sl)) upd upd')"
proof (cases "length ns = 1")
  case True
  then have "m = 0" using rank_split(1) [OF rep cut m] by simp
  then show ?thesis using search_empty [OF rep True] True by simp
next
  case False
  then have "1 < length ns" using rank_split(1) [OF rep cut m] by linarith
  from search_ok [where cmp = cmp and c = c, OF rep this rank_split [OF rep cut m] fit] False show ?thesis by auto
qed

text \<open>The list with the path of a search in its slices.\<close>

lemma chain_cache: "chain (sl\<lparr>sl_cache := u, posCache := v\<rparr>) ns = chain sl ns"
proof -
  let ?t = "sl\<lparr>sl_cache := u, posCache := v\<rparr>"
  have "nd ?t = nd sl" by (simp add: nd_def fun_eq_iff)
  moreover have "linked ?t ns i k = linked sl ns i k" for i k by (rule linked_cong) (simp_all add: nd_def width_def)
  ultimately show ?thesis by (simp add: chain_def)
qed

lemma noted_rep:
  assumes rep: "sl_rep sl ns" and len: "1 < length ns" and m: "m < length ns"
    and n: "noted sl ns m (Suc (sl_level sl)) (Some (sl_cache sl, posCache sl)) upd'"
  obtains u v where "upd' = Some (u, v)" "sl_rep (sl\<lparr>sl_cache := u, posCache := v\<rparr>) ns"
    "path (sl\<lparr>sl_cache := u, posCache := v\<rparr>) ns m (Suc (sl_level sl)) u v"
proof -
  from n obtain u v where uv: "upd' = Some (u, v)" "length u = length (sl_cache sl)" "length v = length (posCache sl)"
    "path sl ns m (Suc (sl_level sl)) u v" "\<forall>i \<ge> Suc (sl_level sl). v ! i = posCache sl ! i" by (auto simp: noted_def)
  note R = sl_repD [OF rep]
  let ?t = "sl\<lparr>sl_cache := u, posCache := v\<rparr>"
  obtain k where "prev_at sl ns (sl_level sl) m k" "v ! sl_level sl = of_nat k" using uv(4) by (auto simp: path_def)
  then have "v ! sl_level sl = 0" using prev_at_top [OF R(1) _ m] by fastforce
  then have "v ! i = 0" if "sl_level sl \<le> i" "i < maxLevel sl" for i
    using uv(5) R(2) that by (cases "i = sl_level sl") (auto simp: cache_ok_def)
  then have "sl_rep ?t ns" using R uv(2,3) len chain_cache [where sl = sl and u = u and v = v and ns = ns] by (auto simp: sl_rep_def cache_ok_def)
  moreover have "path ?t ns m (Suc (sl_level sl)) u v" using uv(4) by (simp add: path_def prev_at_def nd_def)
  ultimately show ?thesis using uv(1) that by blast
qed

lemma search_cached:
  assumes rep: "sl_rep sl ns" and cut: "cut cmp c (sl_entries sl ns)" and m: "m = rank_of cmp c (sl_entries sl ns)"
  obtains u v where "with_cache sl (search cmp sl c (Some (sl_cache sl, posCache sl))) =
      Some (Inr (if Suc m < length ns then Some (ns ! Suc m) else None, of_nat (Suc m), sl\<lparr>sl_cache := u, posCache := v\<rparr>))"
    "sl_rep (sl\<lparr>sl_cache := u, posCache := v\<rparr>) ns"
    "path (sl\<lparr>sl_cache := u, posCache := v\<rparr>) ns m (if length ns = 1 then sl_level sl else Suc (sl_level sl)) u v"
proof -
  note R = sl_repD [OF rep] and mb = rank_split(1) [OF rep cut m]
  have fit: "fits (Suc (sl_level sl)) (Some (sl_cache sl, posCache sl))" using R(2,3) by (simp add: fits_def cache_ok_def)
  obtain upd' where s: "search cmp sl c (Some (sl_cache sl, posCache sl)) =
      Some (Inr (if Suc m < length ns then Some (ns ! Suc m) else None, of_nat (Suc m), upd'))"
    "if length ns = 1 then upd' = Some (sl_cache sl, posCache sl) else noted sl ns m (Suc (sl_level sl)) (Some (sl_cache sl, posCache sl)) upd'"
    using search_list [OF rep cut m fit] by blast
  show ?thesis
  proof (cases "length ns = 1")
    case True
    have "path sl ns m (sl_level sl) (sl_cache sl) (posCache sl)"
      using True R(2,3) mb chainD(2,5) [OF R(1)] by (auto simp: path_def cache_ok_def prev_at_def intro!: exI [of _ 0])
    then show ?thesis using s True rep by (intro that [where u = "sl_cache sl" and v = "posCache sl"]) (auto simp: with_cache_def)
  next
    case False
    then have "1 < length ns" using mb by linarith
    from noted_rep [OF rep this mb] s(2) False obtain u v where uv: "upd' = Some (u, v)" "sl_rep (sl\<lparr>sl_cache := u, posCache := v\<rparr>) ns"
      "path (sl\<lparr>sl_cache := u, posCache := v\<rparr>) ns m (Suc (sl_level sl)) u v" by (auto split: if_splits)
    then show ?thesis using s(1) False by (intro that [where u = u and v = v]) (auto simp: with_cache_def)
  qed
qed

lemma cache_sel [simp]:
  "nd (sl\<lparr>sl_cache := u, posCache := v\<rparr>) = nd sl" "sl_entries (sl\<lparr>sl_cache := u, posCache := v\<rparr>) ns = sl_entries sl ns"
  by (auto simp: nd_def sl_entries_def fun_eq_iff)

lemma entries_splice:
  assumes "sl_rep sl ns" "m < length ns" "nn \<notin> set ns" "\<forall>a. entry (nd t a) = (if a = nn then Some c else entry (nd sl a))"
  shows "sl_entries t (splice_at ns m nn) = take m (sl_entries sl ns) @ c # drop m (sl_entries sl ns)"
proof -
  obtain h xs where ns: "ns = h # xs" using assms(2) by (cases ns) auto
  have "map (\<lambda>a. the (entry (nd t a))) ys = map (\<lambda>a. the (entry (nd sl a))) ys" if "set ys \<subseteq> set ns" for ys
    using that assms(3,4) by auto
  then have "map (\<lambda>a. the (entry (nd t a))) (take m xs) = map (\<lambda>a. the (entry (nd sl a))) (take m xs)"
    "map (\<lambda>a. the (entry (nd t a))) (drop m xs) = map (\<lambda>a. the (entry (nd sl a))) (drop m xs)"
    using ns by (auto dest: in_set_takeD in_set_dropD)
  then show ?thesis using ns assms(4) by (simp add: sl_entries_def splice_at_def take_map drop_map)
qed

lemma entries_replace:
  assumes rep: "sl_rep sl ns" and m: "Suc m < length ns"
  shows "sl_entries (upd_snode (ns ! Suc m) (\<lambda>x. x\<lparr>entry := Some c\<rparr>) sl) ns = (sl_entries sl ns)[m := c]"
proof (rule nth_equalityI)
  let ?t = "upd_snode (ns ! Suc m) (\<lambda>x. x\<lparr>entry := Some c\<rparr>) sl"
  note N = entries_nth [OF rep]
  show "length (sl_entries ?t ns) = length ((sl_entries sl ns)[m := c])" using N(1) by (simp add: sl_entries_def)
  fix i assume "i < length (sl_entries ?t ns)"
  then have i: "i < length ns - 1" by (simp add: sl_entries_def)
  have "sl_entries ?t ns ! i = the (entry (nd ?t (ns ! Suc i)))" using i by (simp add: sl_entries_def nth_tl)
  moreover have "ns ! Suc i = ns ! Suc m \<longleftrightarrow> i = m" using i m chainD(3) [OF sl_repD(1) [OF rep]] by (simp add: nth_eq_iff_index_eq)
  ultimately show "sl_entries ?t ns ! i = (sl_entries sl ns)[m := c] ! i"
    using N(1,2) i m by (auto simp: upd_snode_def nd_def nth_list_update)
qed

lemma skip_insert_ok:
  assumes "sl_list sl es" "cut cmp c es" "length es < 2 ^ 64 - 1"
  shows "\<exists>t. skip_insert cmp toss c sl = Some (Inr (if hit cmp c es then Some (es ! rank_of cmp c es) else None, t)) \<and>
    sl_list t (list_insert cmp c es)"
proof -
  obtain ns where rep: "sl_rep sl ns" and es: "sl_entries sl ns = es" using assms(1) by (auto simp: sl_list_def)
  define m where "m = rank_of cmp c es"
  note mb = rank_split(1) [OF rep assms(2) [folded es] m_def [folded es]] and N = entries_nth [OF rep, unfolded es]
  obtain u v where s: "with_cache sl (search cmp sl c (Some (sl_cache sl, posCache sl))) =
      Some (Inr (if Suc m < length ns then Some (ns ! Suc m) else None, of_nat (Suc m), sl\<lparr>sl_cache := u, posCache := v\<rparr>))"
    "sl_rep (sl\<lparr>sl_cache := u, posCache := v\<rparr>) ns"
    "path (sl\<lparr>sl_cache := u, posCache := v\<rparr>) ns m (if length ns = 1 then sl_level sl else Suc (sl_level sl)) u v"
    using search_cached [OF rep assms(2) [folded es] m_def [folded es]] by metis
  let ?sl = "sl\<lparr>sl_cache := u, posCache := v\<rparr>" and ?n = "if Suc m < length ns then Some (ns ! Suc m) else None"
  have run: "skip_insert cmp toss c sl = Some (insertNode cmp toss ?n c (of_nat (Suc m)) False ?sl)"
    using s(1) by (simp add: skip_insert_def)
  show ?thesis
  proof (cases "hit cmp c es")
    case True
    then have mm: "m < length es" "Suc m < length ns" "cmp (es ! m) c = 0" using N(1) by (auto simp: hit_def m_def)
    let ?t = "upd_snode (ns ! Suc m) (\<lambda>x. x\<lparr>entry := Some c\<rparr>) ?sl"
    have e: "entry (nd ?sl (ns ! Suc m)) = Some (es ! m)" using N(1,3) mm by simp
    have "insertNode cmp toss ?n c (of_nat (Suc m)) False ?sl = Inr (Some (es ! m), ?t)"
      using mm e by (simp add: insertNode_def node_Compare_def)
    moreover have "sl_rep ?t ns" using rep_entry [OF s(2) _ mm(2)] by simp
    moreover have "sl_entries ?t ns = es[m := c]" using entries_replace [OF s(2) mm(2)] es by simp
    ultimately show ?thesis using run True by (auto simp: sl_list_def list_insert_def m_def Let_def)
  next
    case False
    have pa: "path ?sl ns m (sl_level ?sl) (sl_cache ?sl) (posCache ?sl)" using s(3) by (auto simp: path_def split: if_splits)
    have new: "False \<or> ?n = None \<or> (\<exists>e. entry (nd ?sl (the ?n)) = Some e \<and> cmp e c \<noteq> 0)"
      using False N(1) N(3) [of m] by (auto simp: hit_def m_def)
    have "length ns < 2 ^ 64" using assms(3) N(1) by simp
    from insertNode_new [where cmp = cmp and toss = toss and c = c, OF s(2) mb pa this new] obtain t nn where
      t: "insertNode cmp toss ?n c (of_nat (Suc m)) False ?sl = Inr (None, t)" "sl_rep t (splice_at ns m nn)" "nn \<notin> set ns"
        "\<forall>a. entry (nd t a) = (if a = nn then Some c else entry (nd ?sl a))" by blast
    have "sl_entries t (splice_at ns m nn) = take m es @ c # drop m es" using entries_splice [OF s(2) mb t(3,4)] es by simp
    then show ?thesis using run t(1,2) False by (auto simp: sl_list_def list_insert_def m_def Let_def)
  qed
qed

lemma entries_unsplice:
  assumes "Suc m < length ns" "\<forall>a. entry (nd t a) = entry (nd sl a)"
  shows "sl_entries t (unsplice ns m) = take m (sl_entries sl ns) @ drop (Suc m) (sl_entries sl ns)"
  using assms by (cases ns) (auto simp: sl_entries_def unsplice_def take_map drop_map drop_Suc)

lemma skip_delete_ok:
  assumes "sl_list sl es" "cut cmp c es"
  shows "\<exists>t. skip_delete cmp c sl = Some (Inr (if hit cmp c es then Some (es ! rank_of cmp c es) else None, t)) \<and>
    sl_list t (list_delete cmp c es)"
proof -
  obtain ns where rep: "sl_rep sl ns" and es: "sl_entries sl ns = es" using assms(1) by (auto simp: sl_list_def)
  define m where "m = rank_of cmp c es"
  note mb = rank_split(1) [OF rep assms(2) [folded es] m_def [folded es]] and N = entries_nth [OF rep, unfolded es]
  obtain u v where s: "with_cache sl (search cmp sl c (Some (sl_cache sl, posCache sl))) =
      Some (Inr (if Suc m < length ns then Some (ns ! Suc m) else None, of_nat (Suc m), sl\<lparr>sl_cache := u, posCache := v\<rparr>))"
    "sl_rep (sl\<lparr>sl_cache := u, posCache := v\<rparr>) ns"
    "path (sl\<lparr>sl_cache := u, posCache := v\<rparr>) ns m (if length ns = 1 then sl_level sl else Suc (sl_level sl)) u v"
    using search_cached [OF rep assms(2) [folded es] m_def [folded es]] by metis
  let ?sl = "sl\<lparr>sl_cache := u, posCache := v\<rparr>"
  show ?thesis
  proof (cases "hit cmp c es")
    case True
    then have mm: "m < length es" "Suc m < length ns" "cmp (es ! m) c = 0" using N(1) by (auto simp: hit_def m_def)
    have e: "entry (nd sl (ns ! Suc m)) = Some (es ! m)" using N(1,3) mm by simp
    have pa: "path ?sl ns m (Suc (sl_level ?sl)) (sl_cache ?sl) (posCache ?sl)" using s(3) mm(2) by simp
    obtain s' t where t: "for_levels (unlink_level (ns ! Suc m)) [0..<Suc (sl_level ?sl)] (?sl\<lparr>sl_num := sl_num ?sl - 1\<rparr>) = Inr s'"
      "lower_level (sl_level s') s' = Inr t" "sl_rep t (unsplice ns m)" "\<forall>a. entry (nd t a) = entry (nd ?sl a)"
      using remove_node [OF s(2) mm(2) pa] by blast
    have "skip_delete cmp c sl = Some (Inr (Some (es ! m), t))"
      using s(1) t(1,2,4) e mm(2,3) by (simp add: skip_delete_def node_Compare_def del: upt_Suc for_levels.simps lower_level.simps)
    moreover have "sl_entries t (unsplice ns m) = take m es @ drop (Suc m) es" using entries_unsplice [OF mm(2) t(4)] es by simp
    ultimately show ?thesis using True t(3) by (auto simp: sl_list_def list_delete_def m_def Let_def)
  next
    case False
    have "skip_delete cmp c sl = Some (Inr (None, ?sl))"
      using s(1) False N(1) N(3) [of m] by (auto simp: skip_delete_def node_Compare_def hit_def m_def)
    moreover have "sl_entries ?sl ns = es" using es by simp
    ultimately show ?thesis using False s(2) by (auto simp: sl_list_def list_delete_def)
  qed
qed

text \<open>Reading by comparison and by position.\<close>

lemma sl_list_Len: "sl_list sl es \<Longrightarrow> SkipList_Len sl = of_nat (length es)" "sl_list sl es \<Longrightarrow> length es < 2 ^ 64"
proof -
  assume "sl_list sl es"
  then obtain ns where rep: "sl_rep sl ns" and es: "sl_entries sl ns = es" by (auto simp: sl_list_def)
  then have "length es = length ns - 1" using entries_nth(1) by blast
  moreover have "0 < length ns" using chainD(1) [OF sl_repD(1) [OF rep]] by simp
  ultimately show "SkipList_Len sl = of_nat (length es)" "length es < 2 ^ 64"
    using sl_repD(6,7) [OF rep] by (auto simp: SkipList_Len_def)
qed

lemma no_slices [simp]: "fits L None" "noted sl ns m L None x \<longleftrightarrow> x = None"
  by (simp_all add: fits_def noted_def)

lemma search_read:
  assumes "sl_list sl es" "cut cmp c es" "m = rank_of cmp c es"
  obtains n where "search cmp sl c None = Some (Inr (n, of_nat (Suc m), None))" "n = None \<longleftrightarrow> length es \<le> m"
    "m < length es \<Longrightarrow> entry (nd sl (the n)) = Some (es ! m)"
proof -
  obtain ns where rep: "sl_rep sl ns" and es: "sl_entries sl ns = es" using assms(1) by (auto simp: sl_list_def)
  note N = entries_nth [OF rep, unfolded es]
  obtain upd' where "search cmp sl c None = Some (Inr (if Suc m < length ns then Some (ns ! Suc m) else None, of_nat (Suc m), upd'))"
    "if length ns = 1 then upd' = None else noted sl ns m (Suc (sl_level sl)) None upd'"
    using search_list [OF rep assms(2) [folded es] assms(3) [folded es] no_slices(1)] by blast
  moreover from this(2) have "upd' = None" by (simp split: if_splits)
  ultimately have "search cmp sl c None = Some (Inr (if Suc m < length ns then Some (ns ! Suc m) else None, of_nat (Suc m), None))"
    by simp
  then show ?thesis by (rule that) (use N(1) N(3) [of m] in auto)
qed

lemma GetWithPosition_ok:
  assumes "sl_list sl es" "cut cmp c es" "m = rank_of cmp c es"
  shows "GetWithPosition cmp sl c = Some (Inr (if m < length es then (Some (es ! m), of_nat m) else (None, 0)))"
  using assms by (rule search_read) (auto simp: GetWithPosition_def split: option.splits)

lemma skip_get_ok:
  assumes "sl_list sl es" "cut cmp c es"
  shows "skip_get cmp sl c = Some (Inr (if hit cmp c es then Some (es ! rank_of cmp c es) else None))"
  using assms refl by (rule search_read) (auto simp: skip_get_def hit_def node_Compare_def split: option.splits)

lemma searchByPosition_read:
  assumes "sl_list sl es"
  obtains n q where "searchByPosition sl (p + 1) None = Some (Inr (n, q, None))"
    "(case n of None \<Rightarrow> None | Some a \<Rightarrow> entry (nd sl a)) = (if unat p < length es then Some (es ! unat p) else None)"
proof -
  obtain ns where rep: "sl_rep sl ns" and es: "sl_entries sl ns = es" using assms by (auto simp: sl_list_def)
  note N = entries_nth [OF rep, unfolded es] and ch = sl_repD(1) [OF rep]
  have len: "0 < length ns" "length es < 2 ^ 64" using chainD(1) [OF ch] sl_list_Len(2) [OF assms] by auto
  show ?thesis
  proof (cases "length ns = 1 \<or> length ns \<le> unat (p + 1)")
    case True
    have "length es \<le> unat p"
      using True N(1) len by (auto simp: unat_word_ariths mod_if split: if_splits)
    then show ?thesis using searchByPosition_out [OF rep True] by (intro that [where n = None]) auto
  next
    case False
    then have l: "1 < length ns" "unat (p + 1) < length ns" using len by auto
    obtain upd' where d: "searchByPosition sl (p + 1) None = Some (Inr (Some (ns ! unat (p + 1)), of_nat (Suc (unat (p + 1))), upd'))"
      "noted sl ns (unat (p + 1)) (Suc (sl_level sl)) None upd'"
      using searchByPosition_ok [OF rep l, of None] by (auto simp: fits_def)
    have "entry (nd sl (ns ! unat (p + 1))) = (if unat p < length es then Some (es ! unat p) else None)"
    proof (cases "p = - 1")
      case True
      moreover have "unat (- 1 :: 64 word) = 2 ^ 64 - 1" by (simp add: unsigned_minus_1_eq_mask mask_eq_exp_minus_1)
      ultimately show ?thesis using len(2) chainD(2,4) [OF ch] by simp
    next
      case no: False
      then have "p + 1 \<noteq> 0" by (metis add.inverse_unique add.commute)
      then have "unat (p + 1) = Suc (unat p)" by (metis Suc_eq_plus1 add.commute unatSuc)
      then show ?thesis using l(2) N(1) N(3) [of "unat p"] by simp
    qed
    then show ?thesis using d by (intro that [where n = "Some (ns ! unat (p + 1))"]) (auto simp: noted_def)
  qed
qed

lemma ByPosition_ok: "sl_list sl es \<Longrightarrow> ByPosition sl p = Some (Inr (if unat p < length es then Some (es ! unat p) else None))"
  by (erule searchByPosition_read [where p = p]) (simp add: ByPosition_def)

lemma replaceAtPosition_ok:
  assumes "sl_list sl es"
  shows "\<exists>t. replaceAtPosition p c sl = Some (Inr t) \<and> (unat p < length es \<longrightarrow> sl_list t (es[unat p := c]))"
proof -
  obtain ns where rep: "sl_rep sl ns" and es: "sl_entries sl ns = es" using assms by (auto simp: sl_list_def)
  note N = entries_nth [OF rep, unfolded es]
  obtain n q where s: "searchByPosition sl (p + 1) None = Some (Inr (n, q, None))" using searchByPosition_read [OF assms] by metis
  show ?thesis
  proof (cases "unat p < length es")
    case True
    have l: "Suc (unat p) < length ns" using True N(1) by simp
    then have "Suc (unat p) < 2 ^ 64" using sl_repD(6) [OF rep] by simp
    then have u: "unat (p + 1) = Suc (unat p)" by (simp add: unat_word_ariths)
    have "n = Some (ns ! Suc (unat p))" using searchByPosition_ok [OF rep, of "p + 1" None] l u s by auto
    then have "replaceAtPosition p c sl = Some (Inr (upd_snode (ns ! Suc (unat p)) (\<lambda>x. x\<lparr>entry := Some c\<rparr>) sl))"
      using s by (simp add: replaceAtPosition_def)
    moreover have "sl_list (upd_snode (ns ! Suc (unat p)) (\<lambda>x. x\<lparr>entry := Some c\<rparr>) sl) (es[unat p := c])"
      using rep_entry [OF rep _ l] entries_replace [OF rep l] es by (auto simp: sl_list_def)
    ultimately show ?thesis by simp
  next
    case False
    then show ?thesis using s by (auto simp: replaceAtPosition_def split: option.splits)
  qed
qed

section \<open>Iterators\<close>

text \<open>An iterator at position \<open>k\<close> of the list; the position behind the last entry, and the head, end the walk.\<close>

definition iter_at :: "nat list \<Rightarrow> iterator \<Rightarrow> nat \<Rightarrow> bool" where
  "iter_at ns it k \<longleftrightarrow> k < length ns \<and> it = \<lparr>it_first = False, it_n = Some (ns ! k)\<rparr>"

lemma iter_Next_ok:
  assumes "sl_rep sl ns" "iter_at ns it k"
  shows "iter_Next sl it = Inr (Suc k < length ns, it\<lparr>it_n := if Suc k < length ns then Some (ns ! Suc k) else None\<rparr>)"
proof -
  have k: "k < length ns" using assms(2) by (simp add: iter_at_def)
  have "0 < ht sl (ns ! k)"
    using chainD(8) [OF sl_repD(1) [OF assms(1)], of k] head_ht [OF assms(1)] k by (cases "k = 0") (auto simp del: length_greater_0_conv)
  with fwd_0 [OF sl_repD(1) [OF assms(1)] k] assms(2) show ?thesis by (auto simp: iter_Next_def iter_at_def)
qed

lemma iter_Prev_ok:
  assumes "sl_rep sl ns" "iter_at ns it k" "0 < k"
  shows "iter_Prev sl it = (1 < k, it\<lparr>it_n := Some (ns ! (k - 1))\<rparr>)"
proof -
  note ch = sl_repD(1) [OF assms(1)]
  have "entry (nd sl (ns ! (k - 1))) \<noteq> None \<longleftrightarrow> 1 < k"
    using chainD(10) [OF ch, of "k - 1"] chainD(2,4) [OF ch] assms(2,3) by (cases "k = 1") (auto simp: iter_at_def)
  then show ?thesis using chainD(11) [OF ch assms(3)] assms(2) by (simp add: iter_Prev_def iter_at_def Let_def)
qed

text \<open>A new iterator stands before the entry it was asked for: the first step, forwards or backwards, stays there.\<close>

definition iter_from :: "nat list \<Rightarrow> nat \<Rightarrow> iterator" where
  "iter_from ns i = (if Suc i < length ns then \<lparr>it_first = True, it_n = Some (ns ! Suc i)\<rparr> else nilIterator)"

lemma Iter_ok:
  assumes "sl_rep sl ns" "cut cmp c (sl_entries sl ns)"
  shows "Iter cmp sl c = Some (Inr (iter_from ns (rank_of cmp c (sl_entries sl ns))))"
  using search_list [OF assms refl no_slices(1)] by (auto simp: Iter_def iter_from_def)

lemma IterAtPosition_ok:
  assumes rep: "sl_rep sl ns"
  shows "IterAtPosition sl p = Some (Inr (iter_from ns (unat p)))"
proof -
  note N = entries_nth [OF rep]
  have li: "sl_list sl (sl_entries sl ns)" using rep by (auto simp: sl_list_def)
  obtain n q where s: "searchByPosition sl (p + 1) None = Some (Inr (n, q, None))"
    "(case n of None \<Rightarrow> None | Some a \<Rightarrow> entry (nd sl a)) = (if unat p < length (sl_entries sl ns) then Some (sl_entries sl ns ! unat p) else None)"
    using searchByPosition_read [OF li] by metis
  show ?thesis
  proof (cases "Suc (unat p) < length ns")
    case True
    then have "unat (p + 1) = Suc (unat p)" using sl_repD(6) [OF rep] by (simp add: unat_word_ariths)
    then have "n = Some (ns ! Suc (unat p))" using searchByPosition_ok [OF rep, of "p + 1" None] True s(1) by auto
    then show ?thesis using s True N(1) by (auto simp: IterAtPosition_def iter_from_def)
  next
    case False
    then have "(case n of None \<Rightarrow> None | Some a \<Rightarrow> entry (nd sl a)) = None" using s(2) N(1) by simp
    then show ?thesis using s(1) False by (auto simp: IterAtPosition_def iter_from_def split: option.splits)
  qed
qed

lemma iter_from_step:
  assumes "Suc i < length ns"
  shows "iter_Next sl (iter_from ns i) = Inr (True, \<lparr>it_first = False, it_n = Some (ns ! Suc i)\<rparr>)"
    "iter_Prev sl (iter_from ns i) = (True, \<lparr>it_first = False, it_n = Some (ns ! Suc i)\<rparr>)"
  using assms by (simp_all add: iter_from_def iter_Next_def iter_Prev_def)

section \<open>Ordered lists\<close>

text \<open>What the comparison of the entries has to promise, on the entries \<open>ok\<close>, for the list to be an ordered one.\<close>

definition ordered :: "('a \<Rightarrow> 'a \<Rightarrow> int) \<Rightarrow> ('a \<Rightarrow> bool) \<Rightarrow> 'a list \<Rightarrow> bool" where
  "ordered cmp ok es \<longleftrightarrow> sorted_wrt (\<lambda>a b. cmp a b < 0) es \<and> (\<forall>e \<in> set es. ok e)"

locale comparator =
  fixes cmp :: "'a \<Rightarrow> 'a \<Rightarrow> int" and ok :: "'a \<Rightarrow> bool"
  assumes swap: "ok a \<Longrightarrow> ok b \<Longrightarrow> cmp a b < 0 \<longleftrightarrow> 0 < cmp b a"
    and trans: "ok a \<Longrightarrow> ok b \<Longrightarrow> ok c \<Longrightarrow> cmp a b < 0 \<Longrightarrow> cmp b c < 0 \<Longrightarrow> cmp a c < 0"
    and same: "ok a \<Longrightarrow> ok b \<Longrightarrow> ok c \<Longrightarrow> cmp a b = 0 \<Longrightarrow> cmp a c = cmp b c"
begin

lemma refl: "ok a \<Longrightarrow> cmp a a = 0"
  using swap [of a a] by linarith

lemma same_sym: "ok a \<Longrightarrow> ok b \<Longrightarrow> cmp a b = 0 \<Longrightarrow> cmp b a = 0"
  using swap [of a b] swap [of b a] by linarith

lemma ordered_cut:
  assumes "ordered cmp ok es" "ok c"
  shows "cut cmp c es"
proof -
  have "cmp (es ! j) c < 0 \<longleftrightarrow> j < rank_of cmp c es" if j: "j < length es" for j
  proof
    assume "j < rank_of cmp c es"
    then show "cmp (es ! j) c < 0" unfolding rank_of_def by (metis nth_mem set_takeWhileD takeWhile_nth)
  next
    assume l: "cmp (es ! j) c < 0"
    show "j < rank_of cmp c es"
    proof (rule ccontr)
      assume "\<not> j < rank_of cmp c es"
      then have r: "rank_of cmp c es \<le> j" "rank_of cmp c es < length es" using j by auto
      then have "\<not> cmp (es ! rank_of cmp c es) c < 0" unfolding rank_of_def by (metis nth_length_takeWhile)
      moreover have "cmp (es ! rank_of cmp c es) c < 0"
      proof (cases "rank_of cmp c es = j")
        case False
        then have "cmp (es ! rank_of cmp c es) (es ! j) < 0" using r j assms(1) sorted_wrt_nth_less [of "\<lambda>a b. cmp a b < 0" es "rank_of cmp c es" j] by (simp add: ordered_def)
        then show ?thesis using trans [of "es ! rank_of cmp c es" "es ! j" c] l assms r(2) j by (simp add: ordered_def)
      qed (use l in simp)
      ultimately show False by simp
    qed
  qed
  then show ?thesis by (simp add: cut_def)
qed

lemma ordered_split:
  assumes "ordered cmp ok es" "ok c" "m = rank_of cmp c es"
  shows "\<forall>e \<in> set (take m es). cmp e c < 0" "\<forall>e \<in> set (drop m es). 0 \<le> cmp e c" "\<forall>e \<in> set (drop (Suc m) es). cmp c e < 0"
proof -
  note cut = ordered_cut [OF assms(1,2), unfolded cut_def, folded assms(3)]
  show lo: "\<forall>e \<in> set (take m es). cmp e c < 0" using cut by (auto simp: in_set_conv_nth)
  show hi: "\<forall>e \<in> set (drop m es). 0 \<le> cmp e c"
  proof
    fix e assume "e \<in> set (drop m es)"
    then obtain i where "i < length es - m" "e = es ! (m + i)" by (auto simp: in_set_conv_nth)
    moreover from this(1) have "m + i < length es" by linarith
    ultimately show "0 \<le> cmp e c" using cut [rule_format, of "m + i"] by (simp add: not_less)
  qed
  show "\<forall>e \<in> set (drop (Suc m) es). cmp c e < 0"
  proof
    fix e assume e: "e \<in> set (drop (Suc m) es)"
    then obtain i where i: "i < length es - Suc m" "e = es ! (Suc m + i)" by (auto simp: in_set_conv_nth)
    then have ml: "m < length es" by simp
    then have a: "es ! m \<in> set (drop m es)" by (metis Cons_nth_drop_Suc list.set_intros(1))
    have l: "cmp (es ! m) e < 0" using i assms(1) sorted_wrt_nth_less [of "\<lambda>a b. cmp a b < 0" es m "Suc m + i"] by (simp add: ordered_def)
    have o: "ok (es ! m)" "ok e" using assms(1) ml i by (auto simp: ordered_def)
    show "cmp c e < 0"
    proof (cases "cmp (es ! m) c = 0")
      case True
      then show ?thesis using same [OF o(1) assms(2) o(2)] l by simp
    next
      case False
      then have "0 < cmp (es ! m) c" using hi a by fastforce
      then show ?thesis using trans [OF assms(2) o] swap [OF assms(2) o(1)] l by simp
    qed
  qed
qed

lemma hit_iff:
  assumes "ordered cmp ok es" "ok c"
  shows "hit cmp c es \<longleftrightarrow> (\<exists>e \<in> set es. cmp e c = 0)"
proof -
  define m where "m = rank_of cmp c es"
  note sp = ordered_split [OF assms m_def]
  have e0: "cmp e c \<noteq> 0" if "e \<in> set (take m es) \<union> set (drop (Suc m) es)" for e
    using that sp(1,3) same_sym [of e c] assms by (force simp: ordered_def dest: in_set_dropD in_set_takeD)
  show ?thesis
  proof (cases "m < length es")
    case True
    then have "set es = set (take m es) \<union> set (drop (Suc m) es) \<union> {es ! m}"
      by (metis Un_insert_right Un_empty_right id_take_nth_drop list.simps(15) set_append Un_commute)
    then show ?thesis using True e0 by (auto simp: hit_def m_def)
  next
    case False
    then show ?thesis using sp(1) by (auto simp: hit_def m_def)
  qed
qed

lemma insert_ordered:
  assumes o: "ordered cmp ok es" and c: "ok c"
  shows "ordered cmp ok (list_insert cmp c es)" "set (list_insert cmp c es) = insert c {e \<in> set es. cmp e c \<noteq> 0}"
    "length (list_insert cmp c es) = length es + (if hit cmp c es then 0 else 1)"
proof -
  define m where "m = rank_of cmp c es"
  note sp = ordered_split [OF o c m_def]
  define us vs where "us = take m es" and "vs = (if hit cmp c es then drop (Suc m) es else drop m es)"
  have mm: "hit cmp c es \<Longrightarrow> m < length es" by (simp add: hit_def m_def)
  have ins: "list_insert cmp c es = us @ c # vs"
    using mm by (simp add: list_insert_def us_def vs_def m_def [symmetric] upd_conv_take_nth_drop Let_def)
  have es: "es = us @ (if hit cmp c es then [es ! m] else []) @ vs"
    using mm by (simp add: us_def vs_def Cons_nth_drop_Suc)
  have so: "sorted_wrt (\<lambda>a b. cmp a b < 0) (us @ (if hit cmp c es then [es ! m] else []) @ vs)" using o es by (simp add: ordered_def)
  have sub: "set us \<subseteq> set es" "set vs \<subseteq> set es" by (auto simp: us_def vs_def dest: in_set_takeD in_set_dropD split: if_splits)
  then have ok: "\<forall>e \<in> set us \<union> set vs. ok e" using o by (auto simp: ordered_def)
  have lo: "\<forall>e \<in> set us. cmp e c < 0" using sp(1) by (simp add: us_def)
  have hi: "\<forall>e \<in> set vs. cmp c e < 0"
  proof (cases "hit cmp c es")
    case True
    then show ?thesis using sp(3) by (simp add: vs_def)
  next
    case False
    have "cmp c e < 0" if "e \<in> set (drop m es)" for e
      using that sp(2) hit_iff [OF o c] False swap [OF c, of e] o by (force simp: ordered_def dest: in_set_dropD)
    then show ?thesis using False by (simp add: vs_def)
  qed
  have "sorted_wrt (\<lambda>a b. cmp a b < 0) (us @ c # vs)" using so lo hi by (auto simp: sorted_wrt_append split: if_splits)
  then show "ordered cmp ok (list_insert cmp c es)" using ins ok c by (auto simp: ordered_def)
  have "cmp e c \<noteq> 0" if "e \<in> set us \<union> set vs" for e using that lo hi same_sym [of e c] ok c by force
  moreover have "hit cmp c es \<Longrightarrow> cmp (es ! m) c = 0" by (simp add: hit_def m_def)
  moreover have "set es = set us \<union> (if hit cmp c es then {es ! m} else {}) \<union> set vs" using arg_cong [OF es, of set] by (simp split: if_splits)
  ultimately show "set (list_insert cmp c es) = insert c {e \<in> set es. cmp e c \<noteq> 0}" using ins by (auto split: if_splits)
  show "length (list_insert cmp c es) = length es + (if hit cmp c es then 0 else 1)"
    using ins arg_cong [OF es, of length] by (auto split: if_splits)
qed

lemma delete_ordered:
  assumes o: "ordered cmp ok es" and c: "ok c"
  shows "ordered cmp ok (list_delete cmp c es)" "set (list_delete cmp c es) = {e \<in> set es. cmp e c \<noteq> 0}"
    "length (list_delete cmp c es) = length es - (if hit cmp c es then 1 else 0)"
proof -
  define m where "m = rank_of cmp c es"
  note sp = ordered_split [OF o c m_def]
  have d: "list_delete cmp c es = (if hit cmp c es then take m es @ drop (Suc m) es else es)" by (simp add: list_delete_def m_def Let_def)
  have mm: "hit cmp c es \<Longrightarrow> m < length es \<and> cmp (es ! m) c = 0" by (simp add: hit_def m_def)
  have es: "es = take m es @ es ! m # drop (Suc m) es" if "hit cmp c es" using mm that by (simp add: Cons_nth_drop_Suc)
  have "cmp e c \<noteq> 0" if "e \<in> set (take m es) \<union> set (drop (Suc m) es)" for e
    using that sp(1,3) same_sym [of e c] o c by (force simp: ordered_def dest: in_set_dropD in_set_takeD)
  moreover have "set es = set (take m es) \<union> {es ! m} \<union> set (drop (Suc m) es)" if "hit cmp c es" using arg_cong [OF es [OF that], of set] by simp
  ultimately show "set (list_delete cmp c es) = {e \<in> set es. cmp e c \<noteq> 0}"
    using d hit_iff [OF o c] mm by (cases "hit cmp c es") auto
  have oe: "\<forall>e \<in> set es. ok e" "sorted_wrt (\<lambda>a b. cmp a b < 0) es" using o by (simp_all add: ordered_def)
  have "cmp x y < 0" if "x \<in> set (take m es)" "y \<in> set (drop (Suc m) es)" for x y
    using trans [of x c y] sp(1,3) that oe(1) c by (auto dest: in_set_takeD in_set_dropD)
  then have "ordered cmp ok (take m es @ drop (Suc m) es)"
    using oe by (auto simp: ordered_def sorted_wrt_append sorted_wrt_take sorted_wrt_drop dest: in_set_takeD in_set_dropD)
  then show "ordered cmp ok (list_delete cmp c es)" using d o by simp
  show "length (list_delete cmp c es) = length es - (if hit cmp c es then 1 else 0)" using d mm by auto
qed

end

end
