(* ===== verification/RankData.thy ===== *)
theory RankData
  imports SkipOrder
begin

text \<open>
  \<^verbatim>\<open>sysservice/rankservice/RankFunc.go\<close> and \<^verbatim>\<open>RankData.go\<close>: the entries of a rank list and their order. Entries are
  pooled objects with an address; the order function of an entry is set when it is made, and nil after the object has
  been released (calling it then would panic; no entry of a rank list is in that state, so the model gives it no
  value of its own). The numbers of an entry are \<^verbatim>\<open>int64\<close>; keys are \<^verbatim>\<open>uint64\<close>.
\<close>

section \<open>Sort data\<close>

fun compareMoreThan :: "int list \<Rightarrow> int list \<Rightarrow> int" where
  "compareMoreThan (x # xs) (y # ys) = (if x > y then 1 else if x < y then -1 else compareMoreThan xs ys)"
| "compareMoreThan _ _ = 0"

text \<open>The loop runs from the last position down.\<close>

fun equal_down :: "int list \<Rightarrow> int list \<Rightarrow> nat \<Rightarrow> bool" where
  "equal_down xs ys 0 = True"
| "equal_down xs ys (Suc i) = (if xs ! i \<noteq> ys ! i then False else equal_down xs ys i)"

definition compareIsEqual :: "int list \<Rightarrow> int list \<Rightarrow> bool" where
  "compareIsEqual xs ys = (if length xs \<noteq> length ys then False else equal_down xs ys (length xs))"

definition transformLevel :: "int \<Rightarrow> nat" where
  "transformLevel l = (if l = 8 then 8 else if l = 16 then 16 else if l = 32 then 32 else if l = 64 then 64 else 32)"

section \<open>Entries\<close>

record 'd RankData =
  rd_Key :: "64 word"
  rd_SortData :: "int list"
  rd_Data :: "'d option"
  rd_ExData :: "int list"
  rd_RefreshTimestamp :: int
  rd_ref :: bool
  rd_compareDes :: "bool option"

text \<open>What a caller sends: \<^verbatim>\<open>rpc.RankData\<close>, with the initial value and the increment of each extended value.\<close>

record 'd UpsetData =
  up_Key :: "64 word"
  up_SortData :: "int list"
  up_Data :: "'d option"
  up_ExData :: "(int \<times> int) list"

definition emptyRankData :: "'d RankData" where
  "emptyRankData = \<lparr>rd_Key = 0, rd_SortData = [], rd_Data = None, rd_ExData = [], rd_RefreshTimestamp = 0, rd_ref = False,
     rd_compareDes = None\<rparr>"

text \<open>\<open>a\<close> is the address the pool returns; the pool panics when it is in use.\<close>

definition NewRankData :: "nat \<Rightarrow> bool \<Rightarrow> 'd UpsetData \<Rightarrow> int \<Rightarrow> (nat \<Rightarrow> 'd RankData) \<Rightarrow> (nat \<Rightarrow> 'd RankData) go" where
  "NewRankData a isDec up refreshTimestamp R =
     (if rd_ref (R a) then Inl (PanicMsg ''Pool data is in use.'')
      else Inr (R(a := (R a)\<lparr>rd_ref := True, rd_compareDes := Some isDec, rd_Key := up_Key up, rd_SortData := up_SortData up,
             rd_Data := up_Data up, rd_ExData := rd_ExData (R a) @ map (\<lambda>(init, inc). wrap64 (init + inc)) (up_ExData up),
             rd_RefreshTimestamp := refreshTimestamp\<rparr>)))"

definition ReleaseRankData :: "nat \<Rightarrow> (nat \<Rightarrow> 'd RankData) \<Rightarrow> (nat \<Rightarrow> 'd RankData) go" where
  "ReleaseRankData a R =
     (if \<not> rd_ref (R a) then Inl (PanicMsg ''Repeatedly freeing memory'') else Inr (R(a := emptyRankData)))"

definition ascCompare :: "'d RankData \<Rightarrow> 'd RankData \<Rightarrow> int" where
  "ascCompare p other =
     (if rd_Key other = rd_Key p then 0
      else let r = compareMoreThan (rd_SortData p) (rd_SortData other)
           in if r = 0 then (if rd_Key p > rd_Key other then 1 else -1) else r)"

definition desCompare :: "'d RankData \<Rightarrow> 'd RankData \<Rightarrow> int" where
  "desCompare p other =
     (if rd_Key other = rd_Key p then 0
      else let r = compareMoreThan (rd_SortData other) (rd_SortData p)
           in if r = 0 then (if rd_Key p > rd_Key other then -1 else 1) else r)"

text \<open>
  \<^verbatim>\<open>Compare\<close> calls the comparison that \<^verbatim>\<open>NewRankData\<close> has set. Without one (\<open>None\<close>, an entry that was given back to the pool) the
  code would call nil and panic; no entry of a list is such a one (\<open>rank_set\<close>), and the 0 given for it here is never used.
\<close>

definition rd_Compare :: "(nat \<Rightarrow> 'd RankData) \<Rightarrow> nat \<Rightarrow> nat \<Rightarrow> int" where
  "rd_Compare R a b =
     (case rd_compareDes (R a) of
        Some True \<Rightarrow> desCompare (R a) (R b)
      | Some False \<Rightarrow> ascCompare (R a) (R b)
      | None \<Rightarrow> 0)"

section \<open>The order\<close>

lemma equal_down_iff: "equal_down xs ys n \<longleftrightarrow> (\<forall>i < n. xs ! i = ys ! i)"
  by (induction n) (auto simp: less_Suc_eq)

lemma compareIsEqual_iff: "compareIsEqual xs ys \<longleftrightarrow> xs = ys"
  by (auto simp: compareIsEqual_def equal_down_iff list_eq_iff_nth_eq)

lemma more_swap: "compareMoreThan ys xs = - compareMoreThan xs ys"
  by (induction xs ys rule: compareMoreThan.induct) auto

lemma more_range: "compareMoreThan xs ys \<in> {-1, 0, 1}"
  by (induction xs ys rule: compareMoreThan.induct) auto

lemma more_equal: "length xs = length ys \<Longrightarrow> compareMoreThan xs ys = 0 \<longleftrightarrow> xs = ys"
  by (induction xs ys rule: compareMoreThan.induct) auto

lemma more_trans:
  "length xs = length ys \<Longrightarrow> length ys = length zs \<Longrightarrow> compareMoreThan xs ys < 0 \<Longrightarrow> compareMoreThan ys zs < 0 \<Longrightarrow> compareMoreThan xs zs < 0"
proof (induction xs ys arbitrary: zs rule: compareMoreThan.induct)
  case (1 x xs y ys)
  obtain z zs' where zs: "zs = z # zs'" using "1.prems"(2) by (cases zs) simp_all
  have xy: "x \<le> y" "y \<le> z" using "1.prems"(3,4) zs by (simp_all split: if_splits)
  show ?case
  proof (cases "x = y \<and> y = z")
    case True
    then show ?thesis using "1.IH" [of zs'] "1.prems" zs by simp
  next
    case False
    then have "x < z" using xy by linarith
    then show ?thesis using zs by simp
  qed
qed auto

text \<open>A set of entries of one rank list: the same order function, sort data of the same length, keys that differ.\<close>

definition rank_set :: "(nat \<Rightarrow> 'd RankData) \<Rightarrow> nat \<Rightarrow> bool \<Rightarrow> nat set \<Rightarrow> bool" where
  "rank_set R n des L \<longleftrightarrow> (\<forall>a \<in> L. rd_compareDes (R a) = Some des \<and> length (rd_SortData (R a)) = n) \<and> inj_on (\<lambda>a. rd_Key (R a)) L"

text \<open>Whether \<open>a\<close> stands before \<open>b\<close> in the list.\<close>

definition stands_before :: "(nat \<Rightarrow> 'd RankData) \<Rightarrow> bool \<Rightarrow> nat \<Rightarrow> nat \<Rightarrow> bool" where
  "stands_before R des a b \<longleftrightarrow>
     (let x = rd_SortData (R a); y = rd_SortData (R b)
      in if des then compareMoreThan x y > 0 \<or> x = y \<and> rd_Key (R a) > rd_Key (R b)
         else compareMoreThan x y < 0 \<or> x = y \<and> rd_Key (R a) < rd_Key (R b))"

lemma rd_Compare_less:
  assumes "rank_set R n des L" "a \<in> L" "b \<in> L"
  shows "rd_Compare R a b < 0 \<longleftrightarrow> stands_before R des a b" "rd_Compare R a b = 0 \<longleftrightarrow> a = b"
    "0 < rd_Compare R a b \<longleftrightarrow> stands_before R des b a"
proof -
  have k: "rd_Key (R b) = rd_Key (R a) \<longleftrightarrow> a = b" using assms by (auto simp: rank_set_def inj_on_def)
  have d: "rd_compareDes (R a) = Some des" and l: "length (rd_SortData (R a)) = length (rd_SortData (R b))"
    using assms by (auto simp: rank_set_def)
  note m = more_swap [of "rd_SortData (R b)" "rd_SortData (R a)"] more_range [of "rd_SortData (R a)" "rd_SortData (R b)"] more_equal [OF l]
  have w: "rd_Key (R a) < rd_Key (R b) \<or> rd_Key (R b) < rd_Key (R a)" if "a \<noteq> b" using that k by (metis linorder_neqE)
  show "rd_Compare R a b < 0 \<longleftrightarrow> stands_before R des a b" "rd_Compare R a b = 0 \<longleftrightarrow> a = b"
    "0 < rd_Compare R a b \<longleftrightarrow> stands_before R des b a"
    using k d m w by (cases des; auto simp: rd_Compare_def ascCompare_def desCompare_def stands_before_def Let_def)+
qed

lemma stands_before_trans:
  assumes "rank_set R n des L" "a \<in> L" "b \<in> L" "c \<in> L" "stands_before R des a b" "stands_before R des b c"
  shows "stands_before R des a c"
proof -
  define x y z where "x = rd_SortData (R a)" and "y = rd_SortData (R b)" and "z = rd_SortData (R c)"
  have l: "length x = length y" "length y = length z" using assms(1-4) by (auto simp: rank_set_def x_def y_def z_def)
  note t = more_trans [OF l] more_trans [of z y x] more_swap [of x y] more_swap [of y z] more_swap [of x z]
  show ?thesis using assms(5,6) t l by (auto simp: stands_before_def Let_def x_def [symmetric] y_def [symmetric] z_def [symmetric] split: if_splits)
qed

interpretation rank_cmp: comparator "rd_Compare R" "\<lambda>a. rank_set R n des L \<and> a \<in> L" for R :: "nat \<Rightarrow> 'd RankData" and n des L
proof
  fix a b c :: nat
  assume a: "rank_set R n des L \<and> a \<in> L" and b: "rank_set R n des L \<and> b \<in> L"
  show "rd_Compare R a b < 0 \<longleftrightarrow> 0 < rd_Compare R b a" using a b rd_Compare_less by metis
  assume c: "rank_set R n des L \<and> c \<in> L"
  show "rd_Compare R a b < 0 \<Longrightarrow> rd_Compare R b c < 0 \<Longrightarrow> rd_Compare R a c < 0"
    using a b c rd_Compare_less(1) stands_before_trans by metis
  show "rd_Compare R a b = 0 \<Longrightarrow> rd_Compare R a c = rd_Compare R b c" using a b rd_Compare_less(2) by metis
qed

end
