(* ===== verification/RankExpire.thy ===== *)
theory RankExpire
  imports Heap
begin

text \<open>
  \<^verbatim>\<open>sysservice/rankservice/RankDataExpire.go\<close>: when the entries of a rank list expire. A heap of pooled
  \<^verbatim>\<open>ExpireData\<close> objects over \<^verbatim>\<open>container/heap\<close>, smallest refresh time first, with a map from keys to objects.
  From outside it is a table from keys to refresh times (\<open>rx_rep\<close>): refreshing a key overwrites its time, removing
  a key takes it out, and \<^verbatim>\<open>PopExpireKey\<close> takes out a key whose time is smallest, once it has expired.
  The clock reading and the address the object pool returns are arguments.
\<close>

section \<open>The heap\<close>

record ExpireData =
  ed_Index :: int
  ed_Key :: "64 word"
  ed_RefreshTimestamp :: int
  ed_ref :: bool

record rankDataHeap =
  ed_store :: "nat \<Rightarrow> ExpireData"
  rankDatas :: "nat list"
  rx_expireMs :: int
  mapExpireData :: "64 word \<rightharpoonup> nat"

definition expireData :: ExpireData where
  "expireData = \<lparr>ed_Index = 0, ed_Key = 0, ed_RefreshTimestamp = 0, ed_ref = False\<rparr>"

definition upd_ed :: "nat \<Rightarrow> (ExpireData \<Rightarrow> ExpireData) \<Rightarrow> rankDataHeap \<Rightarrow> rankDataHeap" where
  "upd_ed p f rd = rd\<lparr>ed_store := (ed_store rd)(p := f (ed_store rd p))\<rparr>"

definition rdh_Len :: "rankDataHeap \<Rightarrow> nat" where
  "rdh_Len rd = length (rankDatas rd)"

definition rdh_Less :: "rankDataHeap \<Rightarrow> nat \<Rightarrow> nat \<Rightarrow> bool" where
  "rdh_Less rd i j \<longleftrightarrow> ed_RefreshTimestamp (ed_store rd (rankDatas rd ! i)) < ed_RefreshTimestamp (ed_store rd (rankDatas rd ! j))"

definition rdh_Swap :: "rankDataHeap \<Rightarrow> nat \<Rightarrow> nat \<Rightarrow> rankDataHeap" where
  "rdh_Swap rd i j =
     (let rd1 = rd\<lparr>rankDatas := swap_list (rankDatas rd) i j\<rparr>;
          rd2 = upd_ed (rankDatas rd1 ! i) (\<lambda>e. e\<lparr>ed_Index := int i\<rparr>) rd1
      in upd_ed (rankDatas rd2 ! j) (\<lambda>e. e\<lparr>ed_Index := int j\<rparr>) rd2)"

definition rdh_Push :: "rankDataHeap \<Rightarrow> nat \<Rightarrow> rankDataHeap" where
  "rdh_Push rd ed =
     (let rd1 = upd_ed ed (\<lambda>e. e\<lparr>ed_Index := int (length (rankDatas rd))\<rparr>) rd
      in rd1\<lparr>rankDatas := rankDatas rd1 @ [ed]\<rparr>)"

definition rdh_Pop :: "rankDataHeap \<Rightarrow> nat \<times> rankDataHeap" where
  "rdh_Pop rd =
     (let l = length (rankDatas rd); retData = rankDatas rd ! (l - 1)
      in (retData, upd_ed retData (\<lambda>e. e\<lparr>ed_Index := - 1\<rparr>) (rd\<lparr>rankDatas := take (l - 1) (rankDatas rd)\<rparr>)))"

definition rdh_iface :: "(rankDataHeap, nat, nat) heap_iface" where
  "rdh_iface = \<lparr>hLen = rdh_Len, hLess = rdh_Less, hSwap = rdh_Swap, hPush = rdh_Push, hPop = rdh_Pop\<rparr>"

definition rdh_Init :: "int \<Rightarrow> int \<Rightarrow> rankDataHeap \<Rightarrow> rankDataHeap go" where
  "rdh_Init maxRankDataCount expireMs rd =
     (if maxRankDataCount < 0 then Inl MakeNegative
      else Inr (heap_Init rdh_iface (rd\<lparr>rankDatas := [], rx_expireMs := expireMs, mapExpireData := Map.empty\<rparr>)))"

definition PopExpireKey :: "int \<Rightarrow> rankDataHeap \<Rightarrow> (64 word \<times> rankDataHeap) go" where
  "PopExpireKey now rd =
     (if rdh_Len rd \<le> 0 then Inr (0, rd)
      else if wrap64 (ed_RefreshTimestamp (ed_store rd (rankDatas rd ! 0)) + rx_expireMs rd) > now then Inr (0, rd)
      else rbind (heap_Pop rdh_iface rd) (\<lambda>(rankData, rd).
        Inr (ed_Key (ed_store rd rankData),
             rd\<lparr>mapExpireData := (mapExpireData rd)(ed_Key (ed_store rd rankData) := None)\<rparr>)))"

definition PushOrRefreshExpireKey :: "nat \<Rightarrow> 64 word \<Rightarrow> int \<Rightarrow> rankDataHeap \<Rightarrow> rankDataHeap go" where
  "PushOrRefreshExpireKey a key refreshTimestamp rd =
     (case mapExpireData rd key of
        Some p \<Rightarrow>
          (let rd1 = upd_ed p (\<lambda>e. e\<lparr>ed_RefreshTimestamp := refreshTimestamp\<rparr>) rd
           in heap_Fix rdh_iface rd1 (ed_Index (ed_store rd1 p)))
      | None \<Rightarrow>
          if ed_ref (ed_store rd a) then Inl (PanicMsg ''Pool data is in use.'')
          else
            let rd1 = upd_ed a (\<lambda>e. e\<lparr>ed_ref := True, ed_Key := key, ed_RefreshTimestamp := refreshTimestamp\<rparr>) rd
            in Inr (heap_Push rdh_iface (rd1\<lparr>mapExpireData := (mapExpireData rd1)(key \<mapsto> a)\<rparr>) a))"

definition RemoveExpireKey :: "64 word \<Rightarrow> rankDataHeap \<Rightarrow> rankDataHeap go" where
  "RemoveExpireKey key rd =
     (case mapExpireData rd key of
        None \<Rightarrow> Inr rd
      | Some p \<Rightarrow>
          let rd1 = rd\<lparr>mapExpireData := (mapExpireData rd)(key := None)\<rparr>
          in rbind (heap_Remove rdh_iface rd1 (ed_Index (ed_store rd1 p))) (\<lambda>(_, rd2).
             if \<not> ed_ref (ed_store rd2 p) then Inl (PanicMsg ''Repeatedly freeing memory'')
             else Inr (upd_ed p (\<lambda>_. expireData) rd2)))"

section \<open>Invariant\<close>

text \<open>
  \<open>rdh_inv c h\<close>: the objects have the key, time and reference flag of \<open>c\<close>, the queued ones are distinct and know
  their position; the map and the duration are those of \<open>c\<close>.
\<close>

type_synonym rdh_const = "(nat \<Rightarrow> 64 word \<times> int \<times> bool) \<times> (64 word \<rightharpoonup> nat) \<times> int"

definition rdh_const :: "rankDataHeap \<Rightarrow> rdh_const" where
  "rdh_const h = (\<lambda>p. (ed_Key (ed_store h p), ed_RefreshTimestamp (ed_store h p), ed_ref (ed_store h p)), mapExpireData h, rx_expireMs h)"

definition rdh_inv :: "rdh_const \<Rightarrow> rankDataHeap \<Rightarrow> bool" where
  "rdh_inv c h \<longleftrightarrow> rdh_const h = c \<and> distinct (rankDatas h) \<and>
     (\<forall>i < length (rankDatas h). ed_Index (ed_store h (rankDatas h ! i)) = int i)"

abbreviation c_time :: "rdh_const \<Rightarrow> nat \<Rightarrow> int" where
  "c_time c p \<equiv> fst (snd (fst c p))"

lemma rdh_const_index [simp]: "rdh_const (upd_ed p (\<lambda>e. e\<lparr>ed_Index := i\<rparr>) h) = rdh_const h" "rdh_const (h\<lparr>rankDatas := xs\<rparr>) = rdh_const h"
  by (auto simp: rdh_const_def upd_ed_def fun_eq_iff)

lemma rdh_sel [simp]:
  "ed_store (upd_ed p f h) = (ed_store h)(p := f (ed_store h p))" "rankDatas (upd_ed p f h) = rankDatas h"
  "mapExpireData (upd_ed p f h) = mapExpireData h" "rx_expireMs (upd_ed p f h) = rx_expireMs h"
  by (simp_all add: upd_ed_def)

lemma distinct_swap: "i < length xs \<Longrightarrow> j < length xs \<Longrightarrow> distinct (swap_list xs i j) = distinct xs"
  using mset_swap_list [of i xs j] by (metis mset_eq_imp_distinct_iff)

interpretation rdh: heap_client rdh_iface rankDatas "c_time c" "rdh_inv c" "\<lambda>h x. x \<notin> set (rankDatas h)" "\<lambda>h x. x" "\<lambda>r e. r = e"
  for c :: rdh_const
proof unfold_locales
  fix h :: rankDataHeap and i j
  assume inv: "rdh_inv c h"
  show "hLen rdh_iface h = length (rankDatas h)" by (simp add: rdh_iface_def rdh_Len_def)
  assume ij: "i < length (rankDatas h)" "j < length (rankDatas h)"
  show "hLess rdh_iface h i j \<longleftrightarrow> c_time c (rankDatas h ! i) < c_time c (rankDatas h ! j)"
    using inv by (auto simp: rdh_iface_def rdh_Less_def rdh_inv_def rdh_const_def)
  let ?s = "rankDatas h"
  have ys: "k < length ?s \<Longrightarrow> swap_list ?s i j ! k = (if k = i then ?s ! j else if k = j then ?s ! i else ?s ! k)" for k
    using nth_swap_list [OF ij] by blast
  have ix: "\<And>k. k < length ?s \<Longrightarrow> ed_Index (ed_store h (?s ! k)) = int k" and d: "distinct ?s" using inv by (auto simp: rdh_inv_def)
  show "rdh_inv c (hSwap rdh_iface h i j) \<and> rankDatas (hSwap rdh_iface h i j) = swap_list (rankDatas h) i j"
    using inv ij d ix ys by (auto simp: rdh_iface_def rdh_Swap_def rdh_inv_def Let_def distinct_swap nth_eq_iff_index_eq)
next
  fix h :: rankDataHeap and x
  assume "rdh_inv c h" "x \<notin> set (rankDatas h)"
  then show "rdh_inv c (hPush rdh_iface h x) \<and> rankDatas (hPush rdh_iface h x) = rankDatas h @ [x]"
    by (auto simp: rdh_iface_def rdh_Push_def rdh_inv_def Let_def nth_append less_Suc_eq)
next
  fix h h' :: rankDataHeap and r
  assume a: "rdh_inv c h" "rankDatas h \<noteq> []" "hPop rdh_iface h = (r, h')"
  define s where "s = rankDatas h"
  have "s \<noteq> []" using a(2) by (simp add: s_def)
  then have s: "last s = s ! (length s - 1)" "butlast s = take (length s - 1) s"
    using last_conv_nth [of s] butlast_conv_take [of s] by simp_all
  have d: "distinct s" using a(1) by (simp add: s_def rdh_inv_def)
  have r: "r = last s" "h' = upd_ed (last s) (\<lambda>e. e\<lparr>ed_Index := - 1\<rparr>) (h\<lparr>rankDatas := butlast s\<rparr>)"
    using a(3) s by (auto simp: rdh_iface_def rdh_Pop_def Let_def s_def)
  have ne: "s ! k \<noteq> last s" if "k < length s - 1" for k
    using d that s(1) by (simp add: nth_eq_iff_index_eq)
  show "rdh_inv c h' \<and> rankDatas h' = butlast (rankDatas h) \<and> r = last (rankDatas h)"
    using a(1) ne d by (auto simp: r rdh_inv_def s_def [symmetric] distinct_butlast nth_butlast)
qed

section \<open>The table of refresh times\<close>

definition rx_rep :: "(64 word \<rightharpoonup> int) \<Rightarrow> rankDataHeap \<Rightarrow> bool" where
  "rx_rep T h \<longleftrightarrow> rdh_inv (rdh_const h) h \<and> heap_list (c_time (rdh_const h)) (rankDatas h) \<and>
     (\<forall>p \<in> set (rankDatas h). ed_ref (ed_store h p)) \<and>
     (\<forall>k p. mapExpireData h k = Some p \<longleftrightarrow> p \<in> set (rankDatas h) \<and> ed_Key (ed_store h p) = k) \<and>
     (\<forall>k. T k = map_option (\<lambda>p. ed_RefreshTimestamp (ed_store h p)) (mapExpireData h k))"

lemma const_sel:
  assumes "rdh_const h = c"
  shows "ed_Key (ed_store h p) = fst (fst c p)" "ed_RefreshTimestamp (ed_store h p) = c_time c p"
    "ed_ref (ed_store h p) = snd (snd (fst c p))" "mapExpireData h = fst (snd c)" "rx_expireMs h = snd (snd c)"
  using assms by (auto simp: rdh_const_def)

lemma rx_index:
  assumes "rx_rep T h" "mapExpireData h k = Some p"
  obtains i where "i < length (rankDatas h)" "rankDatas h ! i = p" "ed_Index (ed_store h p) = int i"
  using assms unfolding rx_rep_def rdh_inv_def in_set_conv_nth by metis

lemma rx_repD:
  assumes "rx_rep T h"
  shows "mapExpireData h k = Some p \<Longrightarrow> p \<in> set (rankDatas h) \<and> ed_Key (ed_store h p) = k"
    "p \<in> set (rankDatas h) \<Longrightarrow> mapExpireData h (ed_Key (ed_store h p)) = Some p"
    "p \<in> set (rankDatas h) \<Longrightarrow> q \<in> set (rankDatas h) \<Longrightarrow> ed_Key (ed_store h p) = ed_Key (ed_store h q) \<Longrightarrow> p = q"
    "T k = map_option (\<lambda>p. ed_RefreshTimestamp (ed_store h p)) (mapExpireData h k)"
    "mapExpireData h k = Some p \<longleftrightarrow> p \<in> set (rankDatas h) \<and> ed_Key (ed_store h p) = k"
  using assms unfolding rx_rep_def by (blast, blast, metis option.inject, simp, blast)

lemma taken_out:
  assumes "distinct xs" "mset xs = add_mset p (mset ys)"
  shows "set ys = set xs - {p}" "p \<in> set xs"
proof -
  have "distinct (p # ys)" using assms mset_eq_imp_distinct_iff [of xs "p # ys"] by simp
  moreover have "set xs = insert p (set ys)" using assms(2) mset_eq_setD [of xs "p # ys"] by simp
  ultimately show "set ys = set xs - {p}" "p \<in> set xs" by auto
qed

lemma rdh_Init_ok: "0 \<le> m \<Longrightarrow> \<exists>h'. rdh_Init m ex h = Inr h' \<and> rx_rep Map.empty h' \<and> rx_expireMs h' = ex \<and> mapExpireData h' = Map.empty"
  by (auto simp: rdh_Init_def heap_Init_def rdh_iface_def rdh_Len_def rx_rep_def rdh_inv_def is_heap_def)

lemma PopExpireKey_ok:
  assumes rep: "rx_rep T h" and ne: "T k0 = Some t0"
  shows "\<exists>k t. T k = Some t \<and> (\<forall>k' t'. T k' = Some t' \<longrightarrow> t \<le> t') \<and>
    (if wrap64 (t + rx_expireMs h) > now then PopExpireKey now h = Inr (0, h)
     else \<exists>h'. PopExpireKey now h = Inr (k, h') \<and> rx_rep (T(k := None)) h' \<and> rx_expireMs h' = rx_expireMs h)"
proof -
  define c where "c = rdh_const h"
  have inv: "rdh_inv c h" "heap_list (c_time c) (rankDatas h)" using rep by (auto simp: rx_rep_def c_def)
  note M = rx_repD(1-3) [OF rep] and T = rx_repD(4) [OF rep] and N = rx_repD(5) [OF rep]
  obtain p0 where "p0 \<in> set (rankDatas h)" using ne M T [of k0] by auto
  then have xs: "rankDatas h \<noteq> []" by auto
  define p where "p = rankDatas h ! 0"
  have p: "p \<in> set (rankDatas h)" using xs by (simp add: p_def)
  define k where "k = ed_Key (ed_store h p)"
  have mk: "mapExpireData h k = Some p" using M(2) [OF p] by (simp add: k_def)
  have min: "ed_RefreshTimestamp (ed_store h p) \<le> t'" if m: "T k' = Some t'" for k' t'
  proof -
    obtain q where q: "q \<in> set (rankDatas h)" "t' = ed_RefreshTimestamp (ed_store h q)" using m T [of k'] M(1) [of k'] by auto
    then obtain i where "i < length (rankDatas h)" "rankDatas h ! i = q" by (auto simp: in_set_conv_nth)
    then show ?thesis using is_heap_min [OF inv(2)] q const_sel [OF c_def [symmetric]] by (auto simp: p_def)
  qed
  from rdh.pop_ok [OF inv xs] obtain h' where h': "heap_Pop rdh_iface h = Inr (p, h')" "rdh_inv c h'"
    "heap_list (c_time c) (rankDatas h')" "mset (rankDatas h) = add_mset p (mset (rankDatas h'))" unfolding p_def by metis
  have st: "set (rankDatas h') = set (rankDatas h) - {p}" using taken_out(1) [OF _ h'(4)] inv(1) by (simp add: rdh_inv_def)
  have cs: "rdh_const h' = c" using h'(2) by (simp add: rdh_inv_def)
  note S = const_sel [OF cs] const_sel [OF c_def [symmetric]]
  let ?h = "h'\<lparr>mapExpireData := (mapExpireData h')(k := None)\<rparr>"
  have cc: "c_time (rdh_const ?h) = c_time c" using cs by (auto simp: rdh_const_def fun_eq_iff)
  have "rx_rep (T(k := None)) ?h"
    unfolding rx_rep_def
  proof (intro conjI)
    show "rdh_inv (rdh_const ?h) ?h" using h'(2) by (auto simp: rdh_inv_def)
    show "heap_list (c_time (rdh_const ?h)) (rankDatas ?h)" using h'(3) cc by simp
    show "\<forall>p\<in>set (rankDatas ?h). ed_ref (ed_store ?h p)" using rep st S by (auto simp: rx_rep_def)
    show "\<forall>k' q. mapExpireData ?h k' = Some q \<longleftrightarrow> q \<in> set (rankDatas ?h) \<and> ed_Key (ed_store ?h q) = k'"
    proof (intro allI)
      fix k' q
      show "mapExpireData ?h k' = Some q \<longleftrightarrow> q \<in> set (rankDatas ?h) \<and> ed_Key (ed_store ?h q) = k'"
        using N [of k' q] M(3) [of p q] p by (auto simp: S st k_def)
    qed
    show "\<forall>k'. (T(k := None)) k' = map_option (\<lambda>p. ed_RefreshTimestamp (ed_store ?h p)) (mapExpireData ?h k')"
      using T S by auto
  qed
  moreover have "PopExpireKey now h = (if wrap64 (ed_RefreshTimestamp (ed_store h p) + rx_expireMs h) > now then Inr (0, h) else Inr (k, ?h))"
    using xs h' S by (simp add: PopExpireKey_def rdh_Len_def p_def k_def)
  ultimately show ?thesis using mk T min S by (intro exI [of _ k] exI [of _ "ed_RefreshTimestamp (ed_store h p)"]) auto
qed

lemma PopExpireKey_empty: "rx_rep Map.empty h \<Longrightarrow> PopExpireKey now h = Inr (0, h)"
proof -
  assume r: "rx_rep Map.empty h"
  have "rankDatas h = []"
  proof (rule ccontr)
    assume "rankDatas h \<noteq> []"
    then obtain p where "p \<in> set (rankDatas h)" by fastforce
    then have "mapExpireData h (ed_Key (ed_store h p)) = Some p" using r unfolding rx_rep_def by blast
    moreover have "mapExpireData h (ed_Key (ed_store h p)) = None" using r by (simp add: rx_rep_def)
    ultimately show False by simp
  qed
  then show ?thesis by (simp add: PopExpireKey_def rdh_Len_def)
qed

lemma PushOrRefreshExpireKey_ok:
  assumes rep: "rx_rep T h" and a: "T k = None \<Longrightarrow> \<not> ed_ref (ed_store h a)"
  shows "\<exists>h'. PushOrRefreshExpireKey a k t h = Inr h' \<and> rx_rep (T(k \<mapsto> t)) h' \<and> rx_expireMs h' = rx_expireMs h"
proof (cases "mapExpireData h k")
  case None
  note M = rx_repD(1-3) [OF rep] and T = rx_repD(4) [OF rep] and N = rx_repD(5) [OF rep]
  have free: "\<not> ed_ref (ed_store h a)" using a T None by simp
  then have new: "a \<notin> set (rankDatas h)" using rep by (auto simp: rx_rep_def)
  have other: "q \<in> set (rankDatas h) \<Longrightarrow> ed_Key (ed_store h q) \<noteq> k" for q using M(2) [of q] None by auto
  define h1 where "h1 = (upd_ed a (\<lambda>e. e\<lparr>ed_ref := True, ed_Key := k, ed_RefreshTimestamp := t\<rparr>) h)\<lparr>mapExpireData := (mapExpireData h)(k \<mapsto> a)\<rparr>"
  have l1: "rankDatas h1 = rankDatas h" by (simp add: h1_def)
  define c where "c = rdh_const h1"
  have inv: "rdh_inv c h1" using rep new by (auto simp: c_def h1_def rdh_inv_def rx_rep_def)
  have "heap_list (c_time (rdh_const h)) (rankDatas h)" using rep by (simp add: rx_rep_def)
  moreover have "\<And>x. x \<in> set (rankDatas h) \<Longrightarrow> c_time c x = c_time (rdh_const h) x" using new by (auto simp: c_def h1_def rdh_const_def)
  ultimately have hl: "heap_list (c_time c) (rankDatas h1)" using heap_list_cong [of "rankDatas h" "c_time c" "c_time (rdh_const h)"] l1 by simp
  define h' where "h' = heap_Push rdh_iface h1 a"
  from rdh.push_ok [OF inv hl] new l1 have h': "rdh_inv c h'" "heap_list (c_time c) (rankDatas h')"
    "mset (rankDatas h') = add_mset a (mset (rankDatas h))" by (auto simp: h'_def)
  have st: "set (rankDatas h') = insert a (set (rankDatas h))" using mset_eq_setD [of _ "a # rankDatas h"] h'(3) by simp
  have cs: "rdh_const h' = c" using h'(1) by (simp add: rdh_inv_def)
  note S = const_sel [OF cs] const_sel [OF c_def [symmetric], symmetric]
  have "rx_rep (T(k \<mapsto> t)) h'"
    unfolding rx_rep_def
  proof (intro conjI)
    show "rdh_inv (rdh_const h') h'" using h'(1) cs by simp
    show "heap_list (c_time (rdh_const h')) (rankDatas h')" using h'(2) cs by simp
    show "\<forall>p\<in>set (rankDatas h'). ed_ref (ed_store h' p)" using rep st S by (auto simp: rx_rep_def h1_def)
    show "\<forall>k' q. mapExpireData h' k' = Some q \<longleftrightarrow> q \<in> set (rankDatas h') \<and> ed_Key (ed_store h' q) = k'"
    proof (intro allI)
      fix k' q
      show "mapExpireData h' k' = Some q \<longleftrightarrow> q \<in> set (rankDatas h') \<and> ed_Key (ed_store h' q) = k'"
        using N [of k' q] new None other by (auto simp: S st h1_def)
    qed
    show "\<forall>k'. (T(k \<mapsto> t)) k' = map_option (\<lambda>p. ed_RefreshTimestamp (ed_store h' p)) (mapExpireData h' k')"
    proof
      fix k'
      show "(T(k \<mapsto> t)) k' = map_option (\<lambda>p. ed_RefreshTimestamp (ed_store h' p)) (mapExpireData h' k')"
        using T [of k'] M(1) [of k'] new by (cases "mapExpireData h k'") (auto simp: S h1_def)
    qed
  qed
  moreover have "PushOrRefreshExpireKey a k t h = Inr h'" using None free by (simp add: PushOrRefreshExpireKey_def h'_def h1_def Let_def)
  moreover have "rx_expireMs h' = rx_expireMs h" using S by (simp add: h1_def)
  ultimately show ?thesis by blast
next
  case (Some p)
  note M = rx_repD(1-3) [OF rep] and T = rx_repD(4) [OF rep] and N = rx_repD(5) [OF rep]
  obtain i where i: "i < length (rankDatas h)" "rankDatas h ! i = p" "ed_Index (ed_store h p) = int i" using rx_index [OF rep Some] by blast
  define h1 where "h1 = upd_ed p (\<lambda>e. e\<lparr>ed_RefreshTimestamp := t\<rparr>) h"
  define c where "c = rdh_const h1"
  have d: "distinct (rankDatas h)" using rep by (simp add: rx_rep_def rdh_inv_def)
  have inv: "rdh_inv c h1" using rep by (auto simp: c_def h1_def rdh_inv_def rx_rep_def)
  have "is_heap (c_time (rdh_const h)) (rankDatas h) (length (rankDatas h1))" using rep by (simp add: rx_rep_def h1_def)
  moreover have "c_time c (rankDatas h1 ! m) = c_time (rdh_const h) (rankDatas h ! m)" if "m < length (rankDatas h1)" "m \<noteq> i" for m
    using that i d nth_eq_iff_index_eq [OF d] by (auto simp: c_def h1_def rdh_const_def)
  moreover have "i < length (rankDatas h1)" using i by (simp add: h1_def)
  ultimately obtain h' where h': "heap_Fix rdh_iface h1 (int i) = Inr h'" "rdh_inv c h'" "heap_list (c_time c) (rankDatas h')"
    "mset (rankDatas h') = mset (rankDatas h1)" using rdh.fix_ok [OF inv] by metis
  have st: "set (rankDatas h') = set (rankDatas h)" using mset_eq_setD [OF h'(4)] by (simp add: h1_def)
  have cs: "rdh_const h' = c" using h'(2) by (simp add: rdh_inv_def)
  note S = const_sel [OF cs] const_sel [OF c_def [symmetric], symmetric]
  have "rx_rep (T(k \<mapsto> t)) h'"
    unfolding rx_rep_def
  proof (intro conjI)
    show "rdh_inv (rdh_const h') h'" using h'(2) cs by simp
    show "heap_list (c_time (rdh_const h')) (rankDatas h')" using h'(3) cs by simp
    show "\<forall>p\<in>set (rankDatas h'). ed_ref (ed_store h' p)" using rep st S by (auto simp: rx_rep_def h1_def)
    show "\<forall>k' q. mapExpireData h' k' = Some q \<longleftrightarrow> q \<in> set (rankDatas h') \<and> ed_Key (ed_store h' q) = k'"
    proof (intro allI)
      fix k' q
      show "mapExpireData h' k' = Some q \<longleftrightarrow> q \<in> set (rankDatas h') \<and> ed_Key (ed_store h' q) = k'"
        using N [of k' q] by (auto simp: S st h1_def)
    qed
    show "\<forall>k'. (T(k \<mapsto> t)) k' = map_option (\<lambda>p. ed_RefreshTimestamp (ed_store h' p)) (mapExpireData h' k')"
    proof
      fix k'
      show "(T(k \<mapsto> t)) k' = map_option (\<lambda>p. ed_RefreshTimestamp (ed_store h' p)) (mapExpireData h' k')"
        using T [of k'] M(1) [of k'] M(1) [OF Some] Some by (cases "mapExpireData h k'") (auto simp: S h1_def)
    qed
  qed
  moreover have "PushOrRefreshExpireKey a k t h = Inr h'" using Some h'(1) i by (simp add: PushOrRefreshExpireKey_def h1_def Let_def)
  moreover have "rx_expireMs h' = rx_expireMs h" using S by (simp add: h1_def)
  ultimately show ?thesis by blast
qed

lemma RemoveExpireKey_ok:
  assumes rep: "rx_rep T h"
  shows "\<exists>h'. RemoveExpireKey k h = Inr h' \<and> rx_rep (T(k := None)) h' \<and> rx_expireMs h' = rx_expireMs h \<and>
    (\<forall>q. ed_ref (ed_store h' q) \<longrightarrow> ed_ref (ed_store h q) \<and> mapExpireData h k \<noteq> Some q)"
proof (cases "mapExpireData h k")
  case None
  then have "T(k := None) = T" using rep by (auto simp: rx_rep_def fun_eq_iff)
  then show ?thesis using None rep by (simp add: RemoveExpireKey_def)
next
  case (Some p)
  note M = rx_repD(1-3) [OF rep] and T = rx_repD(4) [OF rep] and N = rx_repD(5) [OF rep]
  obtain i where i: "i < length (rankDatas h)" "rankDatas h ! i = p" "ed_Index (ed_store h p) = int i" using rx_index [OF rep Some] by blast
  define h1 where "h1 = h\<lparr>mapExpireData := (mapExpireData h)(k := None)\<rparr>"
  define c where "c = rdh_const h1"
  have inv: "rdh_inv c h1" using rep by (auto simp: c_def h1_def rdh_inv_def rx_rep_def)
  have ct: "c_time c = c_time (rdh_const h)" by (auto simp: c_def h1_def rdh_const_def fun_eq_iff)
  have hl: "heap_list (c_time c) (rankDatas h1)" using rep ct by (simp add: rx_rep_def h1_def)
  have "i < length (rankDatas h1)" using i by (simp add: h1_def)
  from rdh.remove_ok [OF inv hl this] obtain r h' where h': "heap_Remove rdh_iface h1 (int i) = Inr (r, h')" "rdh_inv c h'"
    "heap_list (c_time c) (rankDatas h')" "mset (rankDatas h1) = add_mset (rankDatas h1 ! i) (mset (rankDatas h'))" by metis
  have d: "distinct (rankDatas h1)" using inv by (simp add: rdh_inv_def)
  have st: "set (rankDatas h') = set (rankDatas h) - {p}" using taken_out(1) [OF d h'(4)] i by (simp add: h1_def)
  have cs: "rdh_const h' = c" using h'(2) by (simp add: rdh_inv_def)
  note S = const_sel [OF cs] const_sel [OF c_def [symmetric], symmetric]
  have ref: "ed_ref (ed_store h' p)" using rep M(1) [OF Some] by (auto simp: rx_rep_def h1_def S)
  let ?h = "upd_ed p (\<lambda>_. expireData) h'"
  have "c_time (rdh_const ?h) x = c_time c x" if "x \<in> set (rankDatas h')" for x
    using that st const_sel(2) [OF cs, of x] const_sel(2) [OF refl, of ?h x] by (simp split: if_splits)
  then have hl': "heap_list (c_time (rdh_const ?h)) (rankDatas h')" using h'(3) heap_list_cong [of "rankDatas h'" "c_time (rdh_const ?h)" "c_time c"] by simp
  have "rx_rep (T(k := None)) ?h"
    unfolding rx_rep_def
  proof (intro conjI)
    show "rdh_inv (rdh_const ?h) ?h" using h'(2) st by (auto simp: rdh_inv_def)
    show "heap_list (c_time (rdh_const ?h)) (rankDatas ?h)" using hl' by simp
    show "\<forall>p\<in>set (rankDatas ?h). ed_ref (ed_store ?h p)" using rep st S by (auto simp: rx_rep_def h1_def)
    show "\<forall>k' q. mapExpireData ?h k' = Some q \<longleftrightarrow> q \<in> set (rankDatas ?h) \<and> ed_Key (ed_store ?h q) = k'"
    proof (intro allI)
      fix k' q
      have a: "mapExpireData ?h k' = (if k' = k then None else mapExpireData h k')" by (simp add: S h1_def)
      have b: "q \<in> set (rankDatas ?h) \<and> ed_Key (ed_store ?h q) = k' \<longleftrightarrow> q \<noteq> p \<and> mapExpireData h k' = Some q"
        using N [of k' q] by (auto simp: S st h1_def)
      show "mapExpireData ?h k' = Some q \<longleftrightarrow> q \<in> set (rankDatas ?h) \<and> ed_Key (ed_store ?h q) = k'"
        unfolding a b using N [of k' p] N [of k p] Some by auto
    qed
    show "\<forall>k'. (T(k := None)) k' = map_option (\<lambda>p. ed_RefreshTimestamp (ed_store ?h p)) (mapExpireData ?h k')"
    proof
      fix k'
      show "(T(k := None)) k' = map_option (\<lambda>p. ed_RefreshTimestamp (ed_store ?h p)) (mapExpireData ?h k')"
        using T [of k'] M(1) [of k'] M(1) [OF Some] by (cases "mapExpireData h k'") (auto simp: S h1_def)
    qed
  qed
  moreover have "RemoveExpireKey k h = Inr ?h" using Some h'(1) i ref by (simp add: RemoveExpireKey_def h1_def Let_def)
  moreover have "rx_expireMs ?h = rx_expireMs h" using S by (simp add: h1_def)
  moreover have "\<forall>q. ed_ref (ed_store ?h q) \<longrightarrow> ed_ref (ed_store h q) \<and> mapExpireData h k \<noteq> Some q"
    using Some by (auto simp: S h1_def expireData_def)
  ultimately show ?thesis by blast
qed

end
