(* ===== verification/RankSkip.thy ===== *)
theory RankSkip
  imports RankData RankExpire
begin

text \<open>
  \<^verbatim>\<open>sysservice/rankservice/RankSkip.go\<close>: one rank list. Entries are objects of a pool (\<open>rd_store\<close>, by address);
  a skip list keeps them in order, a map finds them by key, and the expiry heap knows when they were refreshed.
  \<open>rank_ok\<close> says that the three agree. The callbacks of the rank module are recorded in a log (calling them on a nil
  module panics). Clock readings, coin tosses of the skip list and the addresses the pools return are arguments; a
  request is not read again after the call, so what the code writes into it is not kept. An operation that does
  not return is \<open>None\<close>, one that panics \<open>Some (Inl _)\<close>. The \<^verbatim>\<open>int32\<close> counters of requests are natural numbers.
\<close>

definition gbind :: "'a go option \<Rightarrow> ('a \<Rightarrow> 'b go option) \<Rightarrow> 'b go option" where
  "gbind m f = (case m of None \<Rightarrow> None | Some (Inl e) \<Rightarrow> Some (Inl e) | Some (Inr x) \<Rightarrow> f x)"

lemma gbind_simps [simp]: "gbind (Some (Inr x)) f = f x" "gbind (Some (Inl e)) f = Some (Inl e)" "gbind None f = None"
  by (simp_all add: gbind_def)

section \<open>State\<close>

datatype 'd rank_event =
    OnEnterRank "'d RankData"
  | OnLeaveRank "'d RankData"
  | OnChangeRankData "'d RankData"

record 'd RankSkip =
  rankId :: "64 word"
  rankName :: string
  isDes :: bool
  skipList :: "nat SkipList"
  mapRankData :: "64 word \<rightharpoonup> nat"
  rs_maxLen :: "64 word"
  rs_expireMs :: int
  rankModule :: bool
  rankDataExpire :: rankDataHeap
  rd_store :: "nat \<Rightarrow> 'd RankData"
  rs_log :: "'d rank_event list"

datatype RankDataChangeType = RankDataNone | RankDataAdd | RankDataUpdate | RankDataDelete

text \<open>What the pools and the random source return during one operation.\<close>

record rank_env =
  env_rd :: nat
  env_ed :: nat
  env_toss :: "nat \<Rightarrow> bool"

record SetSortAndExtendData =
  set_IsSortData :: bool
  set_Pos :: int
  set_Data :: int

record 'd IncreaseRankData =
  inc_Key :: "64 word"
  inc_Extend :: "(int \<times> int) list"
  inc_IncreaseSortData :: "int list"
  inc_SetSortAndExtendData :: "SetSortAndExtendData list"
  inc_ReturnRankData :: bool
  inc_InsertDataOnNonExistent :: bool
  inc_InitData :: "'d option"
  inc_InitSortData :: "int list"

record 'd RankPosData =
  rp_Key :: "64 word"
  rp_Rank :: "64 word"
  rp_SortData :: "int list"
  rp_Data :: "'d option"
  rp_ExtendData :: "int list"

definition MaxPickExpireNum :: nat where
  "MaxPickExpireNum = 128"

definition upd_rd :: "nat \<Rightarrow> ('d RankData \<Rightarrow> 'd RankData) \<Rightarrow> 'd RankSkip \<Rightarrow> 'd RankSkip" where
  "upd_rd a f rs = rs\<lparr>rd_store := (rd_store rs)(a := f (rd_store rs a))\<rparr>"

definition notify :: "'d rank_event \<Rightarrow> 'd RankSkip \<Rightarrow> 'd RankSkip go option" where
  "notify ev rs = Some (if rankModule rs then Inr (rs\<lparr>rs_log := rs_log rs @ [ev]\<rparr>) else Inl NilDereference)"

text \<open>The calls into the skip list, the pool and the expiry heap.\<close>

definition rs_Insert :: "(nat \<Rightarrow> bool) \<Rightarrow> nat \<Rightarrow> 'd RankSkip \<Rightarrow> 'd RankSkip go option" where
  "rs_Insert toss a rs =
     gbind (skip_insert (rd_Compare (rd_store rs)) toss a (skipList rs)) (\<lambda>(_, sl). Some (Inr (rs\<lparr>skipList := sl\<rparr>)))"

definition rs_Delete :: "nat \<Rightarrow> 'd RankSkip \<Rightarrow> 'd RankSkip go option" where
  "rs_Delete a rs =
     gbind (skip_delete (rd_Compare (rd_store rs)) a (skipList rs)) (\<lambda>(_, sl). Some (Inr (rs\<lparr>skipList := sl\<rparr>)))"

definition rs_New :: "nat \<Rightarrow> 'd UpsetData \<Rightarrow> int \<Rightarrow> 'd RankSkip \<Rightarrow> 'd RankSkip go option" where
  "rs_New a up ts rs = Some (rbind (NewRankData a (isDes rs) up ts (rd_store rs)) (\<lambda>R. Inr (rs\<lparr>rd_store := R\<rparr>)))"

definition rs_Release :: "nat \<Rightarrow> 'd RankSkip \<Rightarrow> 'd RankSkip go option" where
  "rs_Release a rs = Some (rbind (ReleaseRankData a (rd_store rs)) (\<lambda>R. Inr (rs\<lparr>rd_store := R\<rparr>)))"

definition rs_Push :: "nat \<Rightarrow> 64 word \<Rightarrow> int \<Rightarrow> 'd RankSkip \<Rightarrow> 'd RankSkip go option" where
  "rs_Push ea key ts rs =
     Some (rbind (PushOrRefreshExpireKey ea key ts (rankDataExpire rs)) (\<lambda>h. Inr (rs\<lparr>rankDataExpire := h\<rparr>)))"

definition rs_Remove :: "64 word \<Rightarrow> 'd RankSkip \<Rightarrow> 'd RankSkip go option" where
  "rs_Remove key rs = Some (rbind (RemoveExpireKey key (rankDataExpire rs)) (\<lambda>h. Inr (rs\<lparr>rankDataExpire := h\<rparr>)))"

section \<open>Operations\<close>

definition NewRankSkip :: "64 word \<Rightarrow> string \<Rightarrow> bool \<Rightarrow> nat \<Rightarrow> 64 word \<Rightarrow> int \<Rightarrow> 'd RankSkip go" where
  "NewRankSkip rId rName isDes' level maxLen expireMs =
     rbind (rdh_Init (sint (ucast maxLen :: 32 word)) expireMs
             \<lparr>ed_store = (\<lambda>_. expireData), rankDatas = [], rx_expireMs = 0, mapExpireData = Map.empty\<rparr>) (\<lambda>h.
     Inr \<lparr>rankId = rId, rankName = rName, isDes = isDes', skipList = SkipList_New level, mapRankData = Map.empty,
          rs_maxLen = maxLen, rs_expireMs = expireMs, rankModule = False, rankDataExpire = h,
          rd_store = (\<lambda>_. emptyRankData), rs_log = []\<rparr>)"

definition SetupRankModule :: "bool \<Rightarrow> 'd RankSkip \<Rightarrow> 'd RankSkip" where
  "SetupRankModule m rs = rs\<lparr>rankModule := m\<rparr>"

definition GetRankLen :: "'d RankSkip \<Rightarrow> 64 word" where
  "GetRankLen rs = SkipList_Len (skipList rs)"

fun DeleteRankData :: "64 word list \<Rightarrow> 'd RankSkip \<Rightarrow> (nat \<times> 'd RankSkip) go option" where
  "DeleteRankData [] rs = Some (Inr (0, rs))"
| "DeleteRankData (key # keys) rs =
     (case mapRankData rs key of
        None \<Rightarrow> DeleteRankData keys rs
      | Some a \<Rightarrow>
          gbind (rs_Delete a rs) (\<lambda>rs.
          gbind (rs_Remove (rd_Key (rd_store rs a)) (rs\<lparr>mapRankData := (mapRankData rs)(rd_Key (rd_store rs a) := None)\<rparr>)) (\<lambda>rs.
          gbind (notify (OnLeaveRank (rd_store rs a)) rs) (\<lambda>rs.
          gbind (rs_Release a rs) (\<lambda>rs.
          gbind (DeleteRankData keys rs) (\<lambda>(n, rs). Some (Inr (Suc n, rs))))))))"

fun pick_from :: "(nat \<Rightarrow> int) \<Rightarrow> nat \<Rightarrow> 'd RankSkip \<Rightarrow> 'd RankSkip go option" where
  "pick_from clock 0 rs = Some (Inr rs)"
| "pick_from clock (Suc i) rs =
     gbind (Some (PopExpireKey (clock i) (rankDataExpire rs))) (\<lambda>(key, h).
       let rs = rs\<lparr>rankDataExpire := h\<rparr>
       in if key = 0 then Some (Inr rs)
          else gbind (DeleteRankData [key] rs) (\<lambda>(_, rs). pick_from clock i rs))"

definition pickExpireKey :: "(nat \<Rightarrow> int) \<Rightarrow> 'd RankSkip \<Rightarrow> 'd RankSkip go option" where
  "pickExpireKey clock rs = (if rs_expireMs rs = 0 then Some (Inr rs) else pick_from clock MaxPickExpireNum rs)"

text \<open>The loop that adds the increments, and appends what is not there yet.\<close>

fun add_increments :: "int list \<Rightarrow> (int \<times> int) list \<Rightarrow> int list" where
  "add_increments (x # xs) ((init, inc) # es) = wrap64 (x + inc) # add_increments xs es"
| "add_increments [] es = map (\<lambda>(init, inc). wrap64 (init + inc)) es"
| "add_increments xs [] = xs"

text \<open>The loop over the old extended values; the slice it appends to is the one it reads the increments from.\<close>

fun carry_ex :: "int list \<Rightarrow> nat \<Rightarrow> (int \<times> int) list \<Rightarrow> (int \<times> int) list" where
  "carry_ex [] idx ex = ex"
| "carry_ex (v # vs) idx ex = carry_ex vs (Suc idx) (ex @ [(v, if idx < length ex then snd (ex ! idx) else 0)])"

definition checkInsertAndReplace :: "'d UpsetData \<Rightarrow> 'd RankSkip \<Rightarrow> (bool \<times> 'd RankSkip) go option" where
  "checkInsertAndReplace up rs =
     (if rs_maxLen rs = 0 then Some (Inr (True, rs))
      else
        let rankLen = SkipList_Len (skipList rs)
        in if rs_maxLen rs > rankLen then Some (Inr (True, rs))
           else gbind (ByPosition (skipList rs) (rankLen - 1)) (\<lambda>lastPosData.
             case lastPosData of
               None \<Rightarrow> Some (Inl TypeAssertion)
             | Some a \<Rightarrow>
                 let moreThanFlag = compareMoreThan (up_SortData up) (rd_SortData (rd_store rs a))
                 in if isDes rs \<and> moreThanFlag < 0 \<or> \<not> isDes rs \<and> moreThanFlag > 0 \<or> moreThanFlag = 0
                    then Some (Inr (False, rs))
                    else
                      gbind (rs_Remove (rd_Key (rd_store rs a)) rs) (\<lambda>rs.
                      gbind (notify (OnLeaveRank (rd_store rs a)) rs) (\<lambda>rs.
                      gbind (rs_Delete a rs) (\<lambda>rs.
                      gbind (rs_Release a (rs\<lparr>mapRankData := (mapRankData rs)(rd_Key (rd_store rs a) := None)\<rparr>)) (\<lambda>rs.
                      Some (Inr (True, rs))))))))"

text \<open>A new object for the data of a request, inserted and entered in the map.\<close>

definition rs_Enter :: "rank_env \<Rightarrow> 'd UpsetData \<Rightarrow> int \<Rightarrow> 'd RankSkip \<Rightarrow> 'd RankSkip go option" where
  "rs_Enter env up ts rs =
     gbind (rs_New (env_rd env) up ts rs) (\<lambda>rs.
     gbind (rs_Insert (env_toss env) (env_rd env) rs) (\<lambda>rs.
     Some (Inr (rs\<lparr>mapRankData := (mapRankData rs)(up_Key up \<mapsto> env_rd env)\<rparr>))))"

definition notify_unless :: "bool \<Rightarrow> 'd rank_event \<Rightarrow> 'd RankSkip \<Rightarrow> 'd RankSkip go option" where
  "notify_unless fromLoad ev rs = (if fromLoad then Some (Inr rs) else notify ev rs)"

definition UpsetRank :: "rank_env \<Rightarrow> 'd UpsetData \<Rightarrow> int \<Rightarrow> bool \<Rightarrow> 'd RankSkip \<Rightarrow> (RankDataChangeType \<times> 'd RankSkip) go option" where
  "UpsetRank env up ts fromLoad rs =
     (case mapRankData rs (up_Key up) of
        Some a \<Rightarrow>
          let rs = upd_rd a (\<lambda>d. d\<lparr>rd_ExData := add_increments (rd_ExData d) (up_ExData up)\<rparr>) rs
          in if compareIsEqual (rd_SortData (rd_store rs a)) (up_SortData up) then
               let rs = upd_rd a (\<lambda>d. d\<lparr>rd_Data := up_Data up, rd_RefreshTimestamp := ts\<rparr>) rs
               in gbind (notify_unless fromLoad (OnChangeRankData (rd_store rs a)) rs) (\<lambda>rs.
                  gbind (rs_Push (env_ed env) (up_Key up) ts rs) (\<lambda>rs. Some (Inr (RankDataUpdate, rs))))
             else
               let up = up\<lparr>up_Data := (if up_Data up = None then rd_Data (rd_store rs a) else up_Data up),
                           up_ExData := carry_ex (rd_ExData (rd_store rs a)) 0 (up_ExData up)\<rparr>
               in gbind (rs_Delete a rs) (\<lambda>rs.
                  gbind (rs_Release a rs) (\<lambda>rs.
                  gbind (rs_Enter env up ts rs) (\<lambda>rs.
                  gbind (rs_Push (env_ed env) (up_Key up) ts rs) (\<lambda>rs.
                  gbind (notify_unless fromLoad (OnChangeRankData (rd_store rs (env_rd env))) rs) (\<lambda>rs.
                  Some (Inr (RankDataUpdate, rs)))))))
      | None \<Rightarrow>
          gbind (checkInsertAndReplace up rs) (\<lambda>(ok, rs).
          if ok then
            gbind (rs_Enter env up ts rs) (\<lambda>rs.
            gbind (rs_Push (env_ed env) (up_Key up) ts rs) (\<lambda>rs.
            gbind (notify_unless fromLoad (OnEnterRank (rd_store rs (env_rd env))) rs) (\<lambda>rs.
            Some (Inr (RankDataAdd, rs)))))
          else Some (Inr (RankDataNone, rs))))"

text \<open>Each request comes with the clock reading taken for it.\<close>

fun upset_list :: "(rank_env \<times> int \<times> 'd UpsetData) list \<Rightarrow> nat \<Rightarrow> nat \<Rightarrow> 'd RankSkip \<Rightarrow> ((nat \<times> nat) \<times> 'd RankSkip) go option" where
  "upset_list [] addCount modifyCount rs = Some (Inr ((addCount, modifyCount), rs))"
| "upset_list ((env, now, up) # ups) addCount modifyCount rs =
     gbind (UpsetRank env up now False rs) (\<lambda>(changeType, rs).
     upset_list ups (if changeType = RankDataAdd then Suc addCount else addCount)
       (if changeType \<noteq> RankDataAdd \<and> changeType = RankDataUpdate then Suc modifyCount else modifyCount) rs)"

definition UpsetRankList :: "(nat \<Rightarrow> int) \<Rightarrow> (rank_env \<times> int \<times> 'd UpsetData) list \<Rightarrow> 'd RankSkip \<Rightarrow> ((nat \<times> nat) \<times> 'd RankSkip) go option" where
  "UpsetRankList clock ups rs =
     gbind (upset_list ups 0 0 rs) (\<lambda>(counts, rs). gbind (pickExpireKey clock rs) (\<lambda>rs. Some (Inr (counts, rs))))"

text \<open>\<^verbatim>\<open>for i := 0; i < len(inc) && i < len(sort); i++ { sort[i] += inc[i] }\<close>\<close>

fun add_sort :: "int list \<Rightarrow> int list \<Rightarrow> int list" where
  "add_sort (x # xs) (c # cs) = wrap64 (x + c) # add_sort xs cs"
| "add_sort xs _ = xs"

text \<open>The same loop in \<^verbatim>\<open>ChangeExtendData\<close>, which skips increments of 0.\<close>

fun add_changes :: "int list \<Rightarrow> int list \<Rightarrow> int list" where
  "add_changes (x # xs) (c # cs) = (if c \<noteq> 0 then wrap64 (x + c) else x) # add_changes xs cs"
| "add_changes xs _ = xs"

text \<open>The fixed values of a request for a new entry; \<open>Inr None\<close> is the early \<^verbatim>\<open>return false\<close>.\<close>

fun set_init :: "SetSortAndExtendData list \<Rightarrow> int list \<Rightarrow> (int \<times> int) list \<Rightarrow> (int list \<times> (int \<times> int) list) option go" where
  "set_init [] srt ex = Inr (Some (srt, ex))"
| "set_init (s # ss) srt ex =
     (if set_IsSortData s then
        if set_Pos s \<ge> int (length srt) then Inr None
        else rbind (slice_set srt (set_Pos s) (set_Data s)) (\<lambda>srt. set_init ss srt ex)
      else if set_Pos s < int (length ex) then rbind (slice_set ex (set_Pos s) (set_Data s, 0)) (\<lambda>ex. set_init ss srt ex)
      else set_init ss srt ex)"

definition InsertDataOnNonExistent :: "rank_env \<Rightarrow> int \<Rightarrow> 'd IncreaseRankData \<Rightarrow> 'd RankSkip \<Rightarrow> (bool \<times> 'd RankSkip) go option" where
  "InsertDataOnNonExistent env now c rs =
     (if \<not> inc_InsertDataOnNonExistent c then Some (Inr (False, rs))
      else gbind (Some (set_init (inc_SetSortAndExtendData c) (add_sort (inc_InitSortData c) (inc_IncreaseSortData c)) (inc_Extend c)))
        (\<lambda>r. case r of
            None \<Rightarrow> Some (Inr (False, rs))
          | Some (srt, ex) \<Rightarrow>
              let up = \<lparr>up_Key = inc_Key c, up_SortData = srt, up_Data = inc_InitData c, up_ExData = ex\<rparr>
              in gbind (rs_Enter env up now rs) (\<lambda>rs.
                 gbind (rs_Push (env_ed env) (up_Key up) now rs) (\<lambda>rs.
                 gbind (notify (OnChangeRankData (rd_store rs (env_rd env))) rs) (\<lambda>rs.
                 Some (Inr (True, rs)))))))"

definition UpdateRankData :: "nat \<Rightarrow> int \<Rightarrow> 64 word \<Rightarrow> 'd option \<Rightarrow> 'd RankSkip \<Rightarrow> (bool \<times> 'd RankSkip) go option" where
  "UpdateRankData ea now key data rs =
     (case mapRankData rs key of
        None \<Rightarrow> Some (Inr (False, rs))
      | Some a \<Rightarrow>
          gbind (rs_Push ea key now (upd_rd a (\<lambda>d. d\<lparr>rd_Data := data\<rparr>) rs)) (\<lambda>rs.
          gbind (notify (OnChangeRankData (rd_store rs a)) rs) (\<lambda>rs. Some (Inr (True, rs)))))"

text \<open>The two loops of \<^verbatim>\<open>ChangeExtendData\<close> that set fixed values: positions behind the end are ignored.\<close>

fun set_fixed :: "bool \<Rightarrow> SetSortAndExtendData list \<Rightarrow> int list \<Rightarrow> int list go" where
  "set_fixed isSort [] xs = Inr xs"
| "set_fixed isSort (s # ss) xs =
     (if set_IsSortData s = isSort \<and> set_Pos s < int (length xs)
      then rbind (slice_set xs (set_Pos s) (set_Data s)) (set_fixed isSort ss)
      else set_fixed isSort ss xs)"

fun sort_changes :: "int list \<Rightarrow> int list \<Rightarrow> bool" where
  "sort_changes (c # cs) (x # xs) = (c \<noteq> 0 \<or> sort_changes cs xs)"
| "sort_changes _ _ = False"

text \<open>Move the entry: a new object with the changed sort data replaces the old one in list and map.\<close>

definition move_entry :: "rank_env \<Rightarrow> int \<Rightarrow> 'd IncreaseRankData \<Rightarrow> nat \<Rightarrow> 'd RankSkip \<Rightarrow> 'd RankSkip go option" where
  "move_entry env now c a rs =
     gbind (Some (set_fixed True (inc_SetSortAndExtendData c) (add_changes (rd_SortData (rd_store rs a)) (inc_IncreaseSortData c)))) (\<lambda>srt.
     let old = rd_store rs a;
         up = \<lparr>up_Key = rd_Key old, up_SortData = srt, up_Data = rd_Data old, up_ExData = []\<rparr>;
         b = env_rd env
     in gbind (rs_New b up now rs) (\<lambda>rs.
        let rs = upd_rd b (\<lambda>d. d\<lparr>rd_ExData := rd_ExData d @ rd_ExData (rd_store rs a)\<rparr>) rs
        in gbind (rs_Delete a rs) (\<lambda>rs.
           gbind (rs_Release a rs) (\<lambda>rs.
           gbind (rs_Insert (env_toss env) b rs) (\<lambda>rs.
           Some (Inr (rs\<lparr>mapRankData := (mapRankData rs)(up_Key up \<mapsto> b)\<rparr>)))))))"

definition ChangeExtendData :: "rank_env \<Rightarrow> int \<Rightarrow> 'd IncreaseRankData \<Rightarrow> 'd RankSkip \<Rightarrow> (bool \<times> 'd RankSkip) go option" where
  "ChangeExtendData env now c rs =
     (case mapRankData rs (inc_Key c) of
        None \<Rightarrow> InsertDataOnNonExistent env now c rs
      | Some a \<Rightarrow>
          let bChange = (sort_changes (inc_IncreaseSortData c) (rd_SortData (rd_store rs a)) \<or> (\<exists>s \<in> set (inc_SetSortAndExtendData c). set_IsSortData s));
              b = (if bChange then env_rd env else a)
          in gbind (if bChange then move_entry env now c a rs else Some (Inr rs)) (\<lambda>rs.
             gbind (Some (set_fixed False (inc_SetSortAndExtendData c) (add_increments (rd_ExData (rd_store rs b)) (inc_Extend c)))) (\<lambda>ex.
             let rs = upd_rd b (\<lambda>d. d\<lparr>rd_ExData := ex\<rparr>) rs
             in gbind (rs_Push (env_ed env) (rd_Key (rd_store rs b)) now rs) (\<lambda>rs.
                gbind (notify (OnChangeRankData (rd_store rs b)) rs) (\<lambda>rs. Some (Inr (True, rs)))))))"

section \<open>Queries\<close>

definition GetRankNodeData :: "(nat \<Rightarrow> int) \<Rightarrow> 64 word \<Rightarrow> 'd RankSkip \<Rightarrow> ((nat option \<times> 64 word) \<times> 'd RankSkip) go option" where
  "GetRankNodeData clock findKey rs =
     (case mapRankData rs findKey of
        None \<Rightarrow> Some (Inr ((None, 0), rs))
      | Some a \<Rightarrow>
          gbind (pickExpireKey clock rs) (\<lambda>rs.
          gbind (GetWithPosition (rd_Compare (rd_store rs)) (skipList rs) a) (\<lambda>(_, index).
          Some (Inr ((Some a, index + 1), rs)))))"

definition GetRankNodeDataByRank :: "(nat \<Rightarrow> int) \<Rightarrow> 64 word \<Rightarrow> 'd RankSkip \<Rightarrow> ((nat option \<times> 64 word) \<times> 'd RankSkip) go option" where
  "GetRankNodeDataByRank clock rank rs =
     gbind (pickExpireKey clock rs) (\<lambda>rs.
     gbind (ByPosition (skipList rs) (rank - 1)) (\<lambda>rankNode.
     Some (Inr (case rankNode of None \<Rightarrow> (None, 0) | Some a \<Rightarrow> (Some a, rank), rs))))"

definition pos_data :: "'d RankSkip \<Rightarrow> nat \<Rightarrow> 64 word \<Rightarrow> 'd RankPosData" where
  "pos_data rs a rank =
     \<lparr>rp_Key = rd_Key (rd_store rs a), rp_Rank = rank, rp_SortData = rd_SortData (rd_store rs a), rp_Data = rd_Data (rd_store rs a),
      rp_ExtendData = rd_ExData (rd_store rs a)\<rparr>"

text \<open>
  \<^verbatim>\<open>for step() && iterCount < count\<close>: the iterator moves before the count is looked at. \<open>n\<close> is what is left of
  \<open>count\<close>, \<open>k\<close> is \<^verbatim>\<open>iterCount\<close>; \<open>rank_at k\<close> is the rank the loop writes.
\<close>

fun collect :: "(iterator \<Rightarrow> (bool \<times> iterator) go) \<Rightarrow> (64 word \<Rightarrow> 64 word) \<Rightarrow> 'd RankSkip \<Rightarrow> nat \<Rightarrow> 64 word \<Rightarrow> iterator \<Rightarrow> 'd RankPosData list go" where
  "collect step rank_at rs 0 k it = rbind (step it) (\<lambda>_. Inr [])"
| "collect step rank_at rs (Suc n) k it =
     rbind (step it) (\<lambda>(more, it).
     if more then
       (case iter_Value (skipList rs) it of
          None \<Rightarrow> Inl TypeAssertion
        | Some a \<Rightarrow> rbind (collect step rank_at rs n (k + 1) it) (\<lambda>rest. Inr (pos_data rs a (rank_at k) # rest)))
     else Inr [])"

text \<open>The error is \<^verbatim>\<open>rank[..] no data\<close>: \<open>None\<close>.\<close>

definition GetRankKeyPrevToLimit :: "64 word \<Rightarrow> 64 word \<Rightarrow> 'd RankSkip \<Rightarrow> 'd RankPosData list option go option" where
  "GetRankKeyPrevToLimit findKey cnt rs =
     (if GetRankLen rs \<le> 0 then Some (Inr None)
      else case mapRankData rs findKey of
        None \<Rightarrow> Some (Inr None)
      | Some a \<Rightarrow>
          gbind (GetWithPosition (rd_Compare (rd_store rs)) (skipList rs) a) (\<lambda>(_, rankPos).
          gbind (Iter (rd_Compare (rd_store rs)) (skipList rs) a) (\<lambda>it.
          Some (rbind (collect (\<lambda>it. Inr (iter_Prev (skipList rs) it)) (\<lambda>k. rankPos - k + 1) rs (unat cnt) 0 it) (\<lambda>r. Inr (Some r))))))"

definition GetRankKeyNextToLimit :: "64 word \<Rightarrow> 64 word \<Rightarrow> 'd RankSkip \<Rightarrow> 'd RankPosData list option go option" where
  "GetRankKeyNextToLimit findKey cnt rs =
     (if GetRankLen rs \<le> 0 then Some (Inr None)
      else case mapRankData rs findKey of
        None \<Rightarrow> Some (Inr None)
      | Some a \<Rightarrow>
          gbind (GetWithPosition (rd_Compare (rd_store rs)) (skipList rs) a) (\<lambda>(_, rankPos).
          gbind (Iter (rd_Compare (rd_store rs)) (skipList rs) a) (\<lambda>it.
          Some (rbind (collect (iter_Next (skipList rs)) (\<lambda>k. rankPos + k + 1) rs (unat cnt) 0 it) (\<lambda>r. Inr (Some r))))))"

definition GetRankDataFromToLimit :: "(nat \<Rightarrow> int) \<Rightarrow> 64 word \<Rightarrow> 64 word \<Rightarrow> 64 word \<Rightarrow> 'd RankSkip \<Rightarrow> ('d RankPosData list \<times> 'd RankSkip) go option" where
  "GetRankDataFromToLimit clock startPos cnt rankDataCount rs =
     (if GetRankLen rs \<le> 0 then Some (Inr ([], rs))
      else
        gbind (pickExpireKey clock rs) (\<lambda>rs.
        let startPos = (if rankDataCount < startPos then rankDataCount - 1 else startPos)
        in gbind (IterAtPosition (skipList rs) startPos) (\<lambda>it.
           Some (rbind (collect (iter_Next (skipList rs)) (\<lambda>k. k + startPos + 1) rs (unat cnt) 0 it) (\<lambda>r. Inr (r, rs))))))"

end
