(* ===== verification/RankBoard.thy ===== *)
theory RankBoard
  imports RankSkip
begin

text \<open>
  What a rank list keeps and what its operations do to it, seen as a table from keys to entries (\<open>board\<close>).
  \<open>rank_ok\<close>: the skip list holds the entries of the map, in order (\<open>list_ok\<close>); the expiry heap knows the keys of the
  map; objects outside the list are reset, as the pool hands them out.
\<close>

section \<open>The list of entries\<close>

definition list_ok :: "nat \<Rightarrow> (nat \<Rightarrow> 'd RankData) \<Rightarrow> bool \<Rightarrow> nat SkipList \<Rightarrow> nat list \<Rightarrow> bool" where
  "list_ok n R des sl es \<longleftrightarrow> sl_list sl es \<and> rank_set R n des (set es) \<and> sorted_wrt (stands_before R des) es"

lemma rank_set_sub: "rank_set R n des L \<Longrightarrow> M \<subseteq> L \<Longrightarrow> rank_set R n des M"
  by (auto simp: rank_set_def inj_on_def)

lemma sorted_wrt_cong_on: "(\<And>a b. a \<in> set es \<Longrightarrow> b \<in> set es \<Longrightarrow> P a b = Q a b) \<Longrightarrow> sorted_wrt P es = sorted_wrt Q es"
  by (induction es) auto

lemma list_ok_ordered:
  assumes "list_ok n R des sl es" "rank_set R n des L" "set es \<subseteq> L"
  shows "ordered (rd_Compare R) (\<lambda>a. rank_set R n des L \<and> a \<in> L) es"
proof -
  have "sorted_wrt (\<lambda>a b. rd_Compare R a b < 0) es = sorted_wrt (stands_before R des) es"
    using rd_Compare_less(1) [OF assms(2)] assms(3) by (intro sorted_wrt_cong_on) auto
  then show ?thesis using assms by (auto simp: ordered_def list_ok_def)
qed

lemma ordered_list_ok:
  assumes "ordered (rd_Compare R) (\<lambda>a. rank_set R n des L \<and> a \<in> L) es" "rank_set R n des L" "sl_list sl es"
  shows "list_ok n R des sl es"
proof -
  have sub: "set es \<subseteq> L" using assms(1) by (auto simp: ordered_def)
  have "sorted_wrt (\<lambda>a b. rd_Compare R a b < 0) es = sorted_wrt (stands_before R des) es"
    using rd_Compare_less(1) [OF assms(2)] sub by (intro sorted_wrt_cong_on) auto
  then show ?thesis using assms rank_set_sub [OF assms(2) sub] by (auto simp: ordered_def list_ok_def)
qed

lemma stands_before_irrefl: "\<not> stands_before R des a a"
  using more_swap [of "rd_SortData (R a)" "rd_SortData (R a)"] by (simp add: stands_before_def Let_def)

lemma list_ok_distinct: "list_ok n R des sl es \<Longrightarrow> distinct es"
  unfolding list_ok_def by (metis distinct_conv_nth linorder_neqE_nat sorted_wrt_iff_nth_less stands_before_irrefl)

lemma list_ok_cong:
  assumes "\<And>a. a \<in> set es \<Longrightarrow> rd_Key (R' a) = rd_Key (R a) \<and> rd_SortData (R' a) = rd_SortData (R a) \<and> rd_compareDes (R' a) = rd_compareDes (R a)"
  shows "list_ok n R' des sl es = list_ok n R des sl es"
proof -
  have "sorted_wrt (stands_before R' des) es = sorted_wrt (stands_before R des) es"
    using assms by (intro sorted_wrt_cong_on) (simp add: stands_before_def)
  moreover have "rank_set R' n des (set es) = rank_set R n des (set es)" using assms by (auto simp: rank_set_def inj_on_def)
  ultimately show ?thesis by (simp add: list_ok_def)
qed

lemma rs_Insert_ok:
  assumes ok: "list_ok n (rd_store rs) (isDes rs) (skipList rs) es" and rset: "rank_set (rd_store rs) n (isDes rs) (insert a (set es))"
    and a: "a \<notin> set es" and len: "length es < 2 ^ 64 - 1"
  shows "\<exists>sl' es'. rs_Insert toss a rs = Some (Inr (rs\<lparr>skipList := sl'\<rparr>)) \<and> list_ok n (rd_store rs) (isDes rs) sl' es' \<and>
    set es' = insert a (set es) \<and> length es' = Suc (length es)"
proof -
  let ?cmp = "rd_Compare (rd_store rs)" and ?L = "insert a (set es)"
  have o: "ordered ?cmp (\<lambda>a. rank_set (rd_store rs) n (isDes rs) ?L \<and> a \<in> ?L) es" using list_ok_ordered [OF ok rset] by blast
  have c: "rank_set (rd_store rs) n (isDes rs) ?L \<and> a \<in> ?L" using rset by simp
  note io = rank_cmp.insert_ordered [OF o c] and hi = rank_cmp.hit_iff [OF o c]
  have e0: "?cmp e a \<noteq> 0" if "e \<in> set es" for e using rd_Compare_less(2) [OF rset, of e a] that a by auto
  have nh: "\<not> hit ?cmp a es" using hi e0 by blast
  obtain t where t: "skip_insert ?cmp toss a (skipList rs) = Some (Inr (None, t))" "sl_list t (list_insert ?cmp a es)"
    using skip_insert_ok [OF _ rank_cmp.ordered_cut [OF o c] len, of "skipList rs" toss] ok nh by (auto simp: list_ok_def)
  have "{e \<in> set es. ?cmp e a \<noteq> 0} = set es" using e0 by blast
  then show ?thesis using t ordered_list_ok [OF io(1) rset t(2)] io(2,3) nh
    by (intro exI [of _ t] exI [of _ "list_insert ?cmp a es"]) (simp add: rs_Insert_def)
qed

lemma rs_Delete_ok:
  assumes ok: "list_ok n (rd_store rs) (isDes rs) (skipList rs) es" and a: "a \<in> set es"
  shows "\<exists>sl' es'. rs_Delete a rs = Some (Inr (rs\<lparr>skipList := sl'\<rparr>)) \<and> list_ok n (rd_store rs) (isDes rs) sl' es' \<and>
    set es' = set es - {a} \<and> Suc (length es') = length es"
proof -
  let ?cmp = "rd_Compare (rd_store rs)" and ?L = "set es"
  have rset: "rank_set (rd_store rs) n (isDes rs) ?L" using ok by (simp add: list_ok_def)
  have o: "ordered ?cmp (\<lambda>a. rank_set (rd_store rs) n (isDes rs) ?L \<and> a \<in> ?L) es" using list_ok_ordered [OF ok rset] by blast
  have c: "rank_set (rd_store rs) n (isDes rs) ?L \<and> a \<in> ?L" using rset a by simp
  note io = rank_cmp.delete_ordered [OF o c] and hi = rank_cmp.hit_iff [OF o c]
  have e0: "?cmp e a = 0 \<longleftrightarrow> e = a" if "e \<in> set es" for e using rd_Compare_less(2) [OF rset, of e a] that a by auto
  have h: "hit ?cmp a es" using hi e0 a by blast
  obtain r t where t: "skip_delete ?cmp a (skipList rs) = Some (Inr (r, t))" "sl_list t (list_delete ?cmp a es)"
    using skip_delete_ok [OF _ rank_cmp.ordered_cut [OF o c], of "skipList rs"] ok by (auto simp: list_ok_def)
  have "{e \<in> set es. ?cmp e a \<noteq> 0} = set es - {a}" using e0 by blast
  moreover have "0 < length es" using a by (cases es) auto
  ultimately show ?thesis using t ordered_list_ok [OF io(1) rset t(2)] io(2,3) h
    by (intro exI [of _ t] exI [of _ "list_delete ?cmp a es"]) (simp add: rs_Delete_def)
qed

text \<open>A position in the list is the number of entries that stand before.\<close>

lemma rank_of_entry:
  assumes ok: "list_ok n R des sl es" and i: "i < length es"
  shows "rank_of (rd_Compare R) (es ! i) es = i" "cut (rd_Compare R) (es ! i) es"
    "{b \<in> set es. stands_before R des b (es ! i)} = set (take i es)"
proof -
  have rset: "rank_set R n des (set es)" using ok by (simp add: list_ok_def)
  have s: "stands_before R des (es ! j) (es ! i) \<longleftrightarrow> j < i" if "j < length es" for j
  proof -
    have "sorted_wrt (stands_before R des) es" using ok by (simp add: list_ok_def)
    then show ?thesis
      using that i stands_before_irrefl stands_before_trans [OF rset, of "es ! i" "es ! j" "es ! i"]
      by (metis linorder_neqE_nat nth_mem sorted_wrt_iff_nth_less)
  qed
  have c: "rd_Compare R (es ! j) (es ! i) < 0 \<longleftrightarrow> j < i" if "j < length es" for j
    using rd_Compare_less(1) [OF rset, of "es ! j" "es ! i"] s that i by simp
  have "takeWhile (\<lambda>e. rd_Compare R e (es ! i) < 0) es = take i es" using c i by (intro takeWhile_eq_take_P_nth) auto
  then show r: "rank_of (rd_Compare R) (es ! i) es = i" using i by (simp add: rank_of_def)
  show "cut (rd_Compare R) (es ! i) es" using c r by (simp add: cut_def)
  show "{b \<in> set es. stands_before R des b (es ! i)} = set (take i es)"
  proof (intro set_eqI iffI)
    fix b assume "b \<in> {b \<in> set es. stands_before R des b (es ! i)}"
    then obtain j where "j < length es" "b = es ! j" "j < i" using s by (auto simp: in_set_conv_nth)
    then show "b \<in> set (take i es)" by (metis length_take min_less_iff_conj nth_mem nth_take)
  next
    fix b assume "b \<in> set (take i es)"
    then obtain j where "j < i" "b = es ! j" using i by (auto simp: in_set_conv_nth)
    then show "b \<in> {b \<in> set es. stands_before R des b (es ! i)}" using s [of j] i by simp
  qed
qed

section \<open>The invariant\<close>

definition board :: "'d RankSkip \<Rightarrow> 64 word \<rightharpoonup> 'd RankData" where
  "board rs k = map_option (rd_store rs) (mapRankData rs k)"

definition map_ok :: "'d RankSkip \<Rightarrow> nat list \<Rightarrow> bool" where
  "map_ok rs es \<longleftrightarrow> (\<forall>k a. mapRankData rs k = Some a \<longleftrightarrow> a \<in> set es \<and> rd_Key (rd_store rs a) = k) \<and>
     (\<forall>a. if a \<in> set es then rd_ref (rd_store rs a) else rd_store rs a = emptyRankData)"

text \<open>\<open>X\<close>: the keys that may be missing in the expiry heap.\<close>

definition expire_ok :: "'d RankSkip \<Rightarrow> (64 word \<rightharpoonup> int) \<Rightarrow> 64 word set \<Rightarrow> bool" where
  "expire_ok rs T X \<longleftrightarrow> rx_rep T (rankDataExpire rs) \<and> rx_expireMs (rankDataExpire rs) = rs_expireMs rs \<and>
     dom T \<subseteq> dom (mapRankData rs) \<and> dom (mapRankData rs) \<subseteq> X \<union> dom T"

definition rank_ok_but :: "64 word set \<Rightarrow> nat \<Rightarrow> 'd RankSkip \<Rightarrow> nat list \<Rightarrow> (64 word \<rightharpoonup> int) \<Rightarrow> bool" where
  "rank_ok_but X n rs es T \<longleftrightarrow> list_ok n (rd_store rs) (isDes rs) (skipList rs) es \<and> map_ok rs es \<and> expire_ok rs T X"

text \<open>Only the key 0 can be missing: \<^verbatim>\<open>PopExpireKey\<close> returns it as if nothing had expired.\<close>

abbreviation rank_ok :: "nat \<Rightarrow> 'd RankSkip \<Rightarrow> nat list \<Rightarrow> (64 word \<rightharpoonup> int) \<Rightarrow> bool" where
  "rank_ok \<equiv> rank_ok_but {0}"

lemma rank_ok_mono: "rank_ok_but X n rs es T \<Longrightarrow> X \<subseteq> Y \<Longrightarrow> rank_ok_but Y n rs es T"
  by (auto simp: rank_ok_but_def expire_ok_def)

lemma rank_okD:
  assumes "rank_ok_but X n rs es T"
  shows "list_ok n (rd_store rs) (isDes rs) (skipList rs) es" "rx_rep T (rankDataExpire rs)"
    "rx_expireMs (rankDataExpire rs) = rs_expireMs rs" "dom T \<subseteq> dom (mapRankData rs)" "dom (mapRankData rs) \<subseteq> X \<union> dom T"
    "mapRankData rs k = Some a \<Longrightarrow> a \<in> set es \<and> rd_Key (rd_store rs a) = k \<and> rd_ref (rd_store rs a)"
    "a \<in> set es \<Longrightarrow> mapRankData rs (rd_Key (rd_store rs a)) = Some a"
    "a \<notin> set es \<Longrightarrow> rd_store rs a = emptyRankData"
    "a \<in> set es \<Longrightarrow> rd_ref (rd_store rs a)"
  using assms by (auto simp: rank_ok_but_def map_ok_def expire_ok_def split: if_splits)

lemma dom_board [simp]: "dom (board rs) = dom (mapRankData rs)"
  by (auto simp: board_def dom_def)

lemma board_keys:
  assumes "rank_ok_but X n rs es T"
  shows "dom (board rs) = (\<lambda>a. rd_Key (rd_store rs a)) ` set es"
  using rank_okD(6,7) [OF assms] by (auto simp: image_iff)

lemma rank_ok_card:
  assumes "rank_ok_but X n rs es T"
  shows "card (dom (board rs)) = length es" "finite (dom (board rs))"
proof -
  note D = rank_okD [OF assms]
  have "inj_on (\<lambda>a. rd_Key (rd_store rs a)) (set es)" using D(1) by (simp add: list_ok_def rank_set_def)
  then show "card (dom (board rs)) = length es" "finite (dom (board rs))"
    unfolding board_keys [OF assms] using list_ok_distinct [OF D(1)] by (simp_all add: card_image distinct_card)
qed

lemma NewRankSkip_ok:
  assumes "level \<in> {8, 16, 32, 64}" "unat maxLen < 2 ^ 31"
  shows "\<exists>rs. NewRankSkip rId nm des level maxLen ex = Inr rs \<and> rank_ok n rs [] Map.empty \<and> rs_maxLen rs = maxLen \<and> isDes rs = des \<and> rs_expireMs rs = ex"
proof -
  have m: "0 \<le> sint (ucast maxLen :: 32 word)"
  proof -
    have "sint (ucast maxLen :: 32 word) = signed_take_bit 31 (uint maxLen)" by (simp add: signed_ucast_eq)
    moreover have "uint maxLen < 2 ^ 31"
    proof -
      have "int (unat maxLen) < int (2 ^ 31)" using assms(2) by (simp only: of_nat_less_iff)
      then show ?thesis by simp
    qed
    then have "signed_take_bit 31 (uint maxLen) = uint maxLen" using uint_ge_0 [of maxLen] by (intro signed_take_bit_int_eq_self) linarith+
    ultimately show ?thesis by simp
  qed
  let ?h0 = "\<lparr>ed_store = (\<lambda>_. expireData), rankDatas = [], rx_expireMs = 0, mapExpireData = Map.empty\<rparr>"
  obtain h where h: "rdh_Init (sint (ucast maxLen :: 32 word)) ex ?h0 = Inr h" "rx_rep Map.empty h" "rx_expireMs h = ex"
    using rdh_Init_ok [OF m, of ex ?h0] by blast
  have "sl_list (SkipList_New level :: nat SkipList) []" using new_list [of level] assms(1) by simp
  then show ?thesis using h by (auto simp: NewRankSkip_def rank_ok_but_def list_ok_def rank_set_def map_ok_def expire_ok_def)
qed

section \<open>Entering and leaving\<close>

definition new_entry :: "bool \<Rightarrow> 'd UpsetData \<Rightarrow> int \<Rightarrow> 'd RankData" where
  "new_entry des up ts = \<lparr>rd_Key = up_Key up, rd_SortData = up_SortData up, rd_Data = up_Data up,
     rd_ExData = map (\<lambda>(init, inc). wrap64 (init + inc)) (up_ExData up), rd_RefreshTimestamp = ts, rd_ref = True, rd_compareDes = Some des\<rparr>"

lemma new_entry_sel [simp]:
  "rd_Key (new_entry des up ts) = up_Key up" "rd_SortData (new_entry des up ts) = up_SortData up" "rd_ref (new_entry des up ts)"
  "rd_compareDes (new_entry des up ts) = Some des"
  by (simp_all add: new_entry_def)

lemma rs_New_ok:
  assumes "rd_store rs a = emptyRankData"
  shows "rs_New a up ts rs = Some (Inr (rs\<lparr>rd_store := (rd_store rs)(a := new_entry (isDes rs) up ts)\<rparr>))"
  using assms by (simp add: rs_New_def NewRankData_def emptyRankData_def new_entry_def)

lemma rs_Release_ok:
  assumes "rd_ref (rd_store rs a)"
  shows "rs_Release a rs = Some (Inr (rs\<lparr>rd_store := (rd_store rs)(a := emptyRankData)\<rparr>))"
  using assms by (simp add: rs_Release_def ReleaseRankData_def)

lemma list_ok_new:
  assumes ok: "list_ok n R des sl es" and a: "a \<notin> set es"
    and e: "rd_compareDes e = Some des" "length (rd_SortData e) = n" "\<And>b. b \<in> set es \<Longrightarrow> rd_Key (R b) \<noteq> rd_Key e"
  shows "list_ok n (R(a := e)) des sl es" "rank_set (R(a := e)) n des (insert a (set es))"
proof -
  show "list_ok n (R(a := e)) des sl es" using ok a by (subst list_ok_cong [of es _ R]) auto
  have "rank_set R n des (set es)" using ok by (simp add: list_ok_def)
  then show "rank_set (R(a := e)) n des (insert a (set es))" using a e by (auto simp: rank_set_def inj_on_def) (metis e(3))+
qed

lemma rs_Enter_ok:
  assumes ok: "list_ok n (rd_store rs) (isDes rs) (skipList rs) es" and len: "length es < 2 ^ 64 - 1"
    and a: "env_rd env \<notin> set es" "rd_store rs (env_rd env) = emptyRankData"
    and up: "length (up_SortData up) = n" "\<And>b. b \<in> set es \<Longrightarrow> rd_Key (rd_store rs b) \<noteq> up_Key up"
    and R': "R' = (rd_store rs)(env_rd env := new_entry (isDes rs) up ts)"
  shows "\<exists>sl' es'. rs_Enter env up ts rs =
      Some (Inr (rs\<lparr>rd_store := R', skipList := sl', mapRankData := (mapRankData rs)(up_Key up \<mapsto> env_rd env)\<rparr>)) \<and>
    list_ok n R' (isDes rs) sl' es' \<and> set es' = insert (env_rd env) (set es) \<and> length es' = Suc (length es)"
proof -
  let ?rs = "rs\<lparr>rd_store := R'\<rparr>"
  have l: "list_ok n R' (isDes rs) (skipList rs) es" "rank_set R' n (isDes rs) (insert (env_rd env) (set es))"
    unfolding R' using list_ok_new [OF ok a(1)] up by simp_all
  obtain sl' es' where "rs_Insert (env_toss env) (env_rd env) ?rs = Some (Inr (?rs\<lparr>skipList := sl'\<rparr>))" "list_ok n R' (isDes rs) sl' es'"
    "set es' = insert (env_rd env) (set es)" "length es' = Suc (length es)"
    using rs_Insert_ok [of n ?rs es "env_rd env" "env_toss env"] l a(1) len by auto
  then show ?thesis using rs_New_ok [OF a(2)] by (intro exI [of _ sl'] exI [of _ es']) (simp add: rs_Enter_def R')
qed

lemma rs_Leave_ok:
  assumes ok: "list_ok n (rd_store rs) (isDes rs) (skipList rs) es" and a: "a \<in> set es" "rd_ref (rd_store rs a)"
  shows "\<exists>sl' es'. rs_Delete a rs = Some (Inr (rs\<lparr>skipList := sl'\<rparr>)) \<and>
    list_ok n ((rd_store rs)(a := emptyRankData)) (isDes rs) sl' es' \<and> set es' = set es - {a} \<and> Suc (length es') = length es"
proof -
  obtain sl' es' where d: "rs_Delete a rs = Some (Inr (rs\<lparr>skipList := sl'\<rparr>))" "list_ok n (rd_store rs) (isDes rs) sl' es'"
    "set es' = set es - {a}" "Suc (length es') = length es" using rs_Delete_ok [OF ok a(1)] by blast
  moreover have "list_ok n ((rd_store rs)(a := emptyRankData)) (isDes rs) sl' es'"
    using list_ok_cong [of es' "(rd_store rs)(a := emptyRankData)" "rd_store rs"] d(2,3) by auto
  ultimately show ?thesis by blast
qed

text \<open>What no operation on entries changes.\<close>

definition rs_conf :: "'d RankSkip \<Rightarrow> 64 word \<times> string \<times> bool \<times> 64 word \<times> int \<times> bool" where
  "rs_conf rs = (rankId rs, rankName rs, isDes rs, rs_maxLen rs, rs_expireMs rs, rankModule rs)"

lemma rs_confD:
  assumes "rs_conf rs' = rs_conf rs"
  shows "isDes rs' = isDes rs" "rs_maxLen rs' = rs_maxLen rs" "rs_expireMs rs' = rs_expireMs rs" "rankModule rs' = rankModule rs"
  using assms by (simp_all add: rs_conf_def)

lemma rank_ok_leave:
  assumes ok: "rank_ok_but X n rs es T" and a: "a \<in> set es" and k: "k = rd_Key (rd_store rs a)"
    and list: "list_ok n ((rd_store rs)(a := emptyRankData)) (isDes rs) sl' es'" "set es' = set es - {a}"
    and heap: "rx_rep (T(k := None)) h'" "rx_expireMs h' = rs_expireMs rs"
    and rs': "rd_store rs' = (rd_store rs)(a := emptyRankData)" "isDes rs' = isDes rs" "skipList rs' = sl'"
      "mapRankData rs' = (mapRankData rs)(k := None)" "rankDataExpire rs' = h'" "rs_expireMs rs' = rs_expireMs rs"
  shows "rank_ok_but (X - {k}) n rs' es' (T(k := None))" "board rs' = (board rs)(k := None)"
proof -
  note D = rank_okD [OF ok]
  have inj: "b \<in> set es \<Longrightarrow> rd_Key (rd_store rs b) = k \<Longrightarrow> b = a" for b using D(7) [of b] D(7) [OF a] k by (metis option.inject)
  have M: "mapRankData rs' k' = Some b \<longleftrightarrow> b \<in> set es' \<and> rd_Key (rd_store rs' b) = k'" for k' b
  proof -
    have "mapRankData rs' k' = Some b \<longleftrightarrow> k' \<noteq> k \<and> b \<in> set es \<and> rd_Key (rd_store rs b) = k'"
      using ok by (simp add: rs' rank_ok_but_def map_ok_def)
    also have "\<dots> \<longleftrightarrow> b \<in> set es \<and> b \<noteq> a \<and> rd_Key (rd_store rs b) = k'" using inj k by blast
    also have "\<dots> \<longleftrightarrow> b \<in> set es' \<and> rd_Key (rd_store rs' b) = k'" using list(2) by (auto simp: rs')
    finally show ?thesis .
  qed
  have "map_ok rs' es'" unfolding map_ok_def using M D(8,9) list(2) by (simp add: rs')
  moreover have "expire_ok rs' (T(k := None)) (X - {k})" unfolding expire_ok_def using heap D(4,5) by (auto simp: rs')
  ultimately show "rank_ok_but (X - {k}) n rs' es' (T(k := None))" using list(1) by (simp add: rank_ok_but_def rs')
  show "board rs' = (board rs)(k := None)"
  proof
    fix k'
    show "board rs' k' = ((board rs)(k := None)) k'"
      using D(6) [of k'] k by (cases "mapRankData rs k'") (auto simp: board_def rs')
  qed
qed

lemma rs_Remove_ok:
  assumes "rx_rep T (rankDataExpire rs)"
  shows "\<exists>h'. rs_Remove k rs = Some (Inr (rs\<lparr>rankDataExpire := h'\<rparr>)) \<and> rx_rep (T(k := None)) h' \<and>
    rx_expireMs h' = rx_expireMs (rankDataExpire rs) \<and>
    (\<forall>q. ed_ref (ed_store h' q) \<longrightarrow> ed_ref (ed_store (rankDataExpire rs) q) \<and> mapExpireData (rankDataExpire rs) k \<noteq> Some q)"
  using RemoveExpireKey_ok [OF assms, of k] by (auto simp: rs_Remove_def)

lemma DeleteRankData_step:
  assumes ok: "rank_ok_but X n rs es T" and m: "rankModule rs" and k: "mapRankData rs k = Some a"
  shows "\<exists>rs' es'. DeleteRankData (k # ks) rs = gbind (DeleteRankData ks rs') (\<lambda>(n, rs). Some (Inr (Suc n, rs))) \<and>
    rank_ok_but (X - {k}) n rs' es' (T(k := None)) \<and> board rs' = (board rs)(k := None) \<and> mapRankData rs' = (mapRankData rs)(k := None) \<and> rs_conf rs' = rs_conf rs \<and>
    rs_log rs' = rs_log rs @ [OnLeaveRank (the (board rs k))]"
proof -
  note D = rank_okD [OF ok]
  have a: "a \<in> set es" "rd_Key (rd_store rs a) = k" "rd_ref (rd_store rs a)" using D(6) [OF k] by auto
  obtain sl' es' where d: "rs_Delete a rs = Some (Inr (rs\<lparr>skipList := sl'\<rparr>))"
    "list_ok n ((rd_store rs)(a := emptyRankData)) (isDes rs) sl' es'" "set es' = set es - {a}" using rs_Leave_ok [OF D(1) a(1,3)] by blast
  define rs1 where "rs1 = rs\<lparr>skipList := sl', mapRankData := (mapRankData rs)(k := None)\<rparr>"
  obtain h' where h: "rs_Remove k rs1 = Some (Inr (rs1\<lparr>rankDataExpire := h'\<rparr>))" "rx_rep (T(k := None)) h'" "rx_expireMs h' = rs_expireMs rs"
    using rs_Remove_ok [of T rs1 k] D(2,3) by (auto simp: rs1_def)
  define rs2 where "rs2 = rs1\<lparr>rankDataExpire := h', rs_log := rs_log rs @ [OnLeaveRank (rd_store rs a)]\<rparr>"
  define rs3 where "rs3 = rs2\<lparr>rd_store := (rd_store rs)(a := emptyRankData)\<rparr>"
  have "DeleteRankData (k # ks) rs = gbind (DeleteRankData ks rs3) (\<lambda>(n, rs). Some (Inr (Suc n, rs)))"
    using k d(1) h(1) m a by (simp add: rs1_def notify_def rs_Release_ok rs2_def rs3_def)
  moreover have "rank_ok_but (X - {k}) n rs3 es' (T(k := None))" "board rs3 = (board rs)(k := None)"
    using rank_ok_leave [OF ok a(1) a(2) [symmetric] d(2,3) h(2,3), of rs3] by (simp_all add: rs3_def rs2_def rs1_def)
  moreover have "mapRankData rs3 = (mapRankData rs)(k := None)" "rs_conf rs3 = rs_conf rs" "rs_log rs3 = rs_log rs @ [OnLeaveRank (the (board rs k))]"
    using k by (simp_all add: rs_conf_def rs3_def rs2_def rs1_def board_def)
  ultimately show ?thesis by blast
qed

lemma DeleteRankData_ok:
  assumes "rank_ok_but X n rs es T" "rankModule rs"
  shows "\<exists>rs' es'. DeleteRankData ks rs = Some (Inr (card (set ks \<inter> dom (board rs)), rs')) \<and>
    rank_ok_but (X - set ks) n rs' es' (T |` (- set ks)) \<and> board rs' = board rs |` (- set ks) \<and>
    mapRankData rs' = mapRankData rs |` (- set ks) \<and> rs_conf rs' = rs_conf rs"
  using assms
proof (induction ks arbitrary: rs es T X)
  case Nil
  then show ?case by (auto simp: restrict_map_def)
next
  case (Cons k ks)
  show ?case
  proof (cases "mapRankData rs k")
    case None
    then have nd: "k \<notin> dom (board rs)" by (metis dom_board domIff)
    then have "k \<notin> dom T" using rank_okD(4) [OF Cons.prems(1)] by auto
    then have "T |` (- set (k # ks)) = T |` (- set ks)" "board rs |` (- set (k # ks)) = board rs |` (- set ks)"
      "mapRankData rs |` (- set (k # ks)) = mapRankData rs |` (- set ks)"
      using nd None by (auto simp: restrict_map_def fun_eq_iff board_def)
    moreover have "set (k # ks) \<inter> dom (board rs) = set ks \<inter> dom (board rs)" using nd by (simp del: dom_board)
    moreover have "rank_ok_but (X - {k}) n rs es T" using Cons.prems(1) None by (auto simp: rank_ok_but_def expire_ok_def)
    moreover have "X - {k} - set ks = X - set (k # ks)" by auto
    ultimately show ?thesis using Cons.IH [of "X - {k}" rs es T] Cons.prems(2) None by simp
  next
    case (Some a)
    from DeleteRankData_step [OF Cons.prems Some, of ks] obtain rs1 es1 where
      s: "DeleteRankData (k # ks) rs = gbind (DeleteRankData ks rs1) (\<lambda>(n, rs). Some (Inr (Suc n, rs)))"
      "rank_ok_but (X - {k}) n rs1 es1 (T(k := None))" "board rs1 = (board rs)(k := None)" "rs_conf rs1 = rs_conf rs"
      "mapRankData rs1 = (mapRankData rs)(k := None)" by blast
    have "rankModule rs1" using rs_confD(4) [OF s(4)] Cons.prems(2) by simp
    from Cons.IH [OF s(2) this] obtain rs' es' where r: "DeleteRankData ks rs1 = Some (Inr (card (set ks \<inter> dom (board rs1)), rs'))"
      "rank_ok_but (X - {k} - set ks) n rs' es' (T(k := None) |` (- set ks))" "board rs' = board rs1 |` (- set ks)" "rs_conf rs' = rs_conf rs1"
      "mapRankData rs' = mapRankData rs1 |` (- set ks)" by blast
    have "k \<in> dom (board rs)" using Some by (metis dom_board domI)
    then have "set (k # ks) \<inter> dom (board rs) = insert k (set ks \<inter> dom (board rs1))" "k \<notin> dom (board rs1)" using s(3) by (auto simp del: dom_board)
    then have "card (set (k # ks) \<inter> dom (board rs)) = Suc (card (set ks \<inter> dom (board rs1)))" by simp
    moreover have "T(k := None) |` (- set ks) = T |` (- set (k # ks))" "(board rs)(k := None) |` (- set ks) = board rs |` (- set (k # ks))"
      "(mapRankData rs)(k := None) |` (- set ks) = mapRankData rs |` (- set (k # ks))"
      by (auto simp: restrict_map_def fun_eq_iff)
    moreover have "X - {k} - set ks = X - set (k # ks)" by auto
    ultimately show ?thesis using s r by (intro exI [of _ rs'] exI [of _ es']) (simp del: DeleteRankData.simps dom_board)
  qed
qed

section \<open>Expiry\<close>

text \<open>\<open>K\<close> is what the loop removes.\<close>

lemma pick_from_ok:
  assumes "rank_ok n rs es T" "rankModule rs"
  shows "\<exists>rs' es' K L. pick_from clock i rs = Some (Inr rs') \<and> rank_ok n rs' es' (T |` (- L)) \<and> board rs' = board rs |` (- K) \<and>
    mapRankData rs' = mapRankData rs |` (- K) \<and>
    rs_conf rs' = rs_conf rs \<and> finite K \<and> card K \<le> i \<and> K = L - {0} \<and>
    (\<forall>k \<in> L. \<exists>t j. T k = Some t \<and> j < i \<and> wrap64 (t + rs_expireMs rs) \<le> clock j)"
  using assms
proof (induction i arbitrary: rs es T)
  case 0
  then show ?case by (intro exI [of _ rs] exI [of _ es] exI [of _ "{}"]) (auto simp: restrict_map_def)
next
  case (Suc i)
  note D = rank_okD [OF Suc.prems(1)]
  let ?h = "rankDataExpire rs"
  have stay: ?case if "PopExpireKey (clock i) ?h = Inr (0, ?h)"
    using that Suc.prems by (intro exI [of _ rs] exI [of _ es] exI [of _ "{}"]) (auto simp: restrict_map_def)
  show ?case
  proof (cases "T = Map.empty")
    case True
    then show ?thesis using stay PopExpireKey_empty D(2) by auto
  next
    case False
    then obtain k0 t0 where "T k0 = Some t0" by (metis not_None_eq ext)
    from PopExpireKey_ok [OF D(2) this, of "clock i"] obtain k t where k: "T k = Some t" and
      p: "if wrap64 (t + rx_expireMs ?h) > clock i then PopExpireKey (clock i) ?h = Inr (0, ?h)
          else \<exists>h'. PopExpireKey (clock i) ?h = Inr (k, h') \<and> rx_rep (T(k := None)) h' \<and> rx_expireMs h' = rx_expireMs ?h" by blast
    show ?thesis
    proof (cases "wrap64 (t + rx_expireMs ?h) > clock i")
      case True
      then show ?thesis using stay p by simp
    next
      case le: False
      then obtain h' where h: "PopExpireKey (clock i) ?h = Inr (k, h')" "rx_rep (T(k := None)) h'" "rx_expireMs h' = rs_expireMs rs"
        using p D(3) by auto
      have exp: "wrap64 (t + rs_expireMs rs) \<le> clock i" using le D(3) by simp
      define rs1 where "rs1 = rs\<lparr>rankDataExpire := h'\<rparr>"
      have ok1: "rank_ok_but (insert k {0}) n rs1 es (T(k := None))"
        using Suc.prems(1) h(2,3) by (auto simp: rank_ok_but_def map_ok_def expire_ok_def rs1_def)
      have b1: "board rs1 = board rs" "rs_conf rs1 = rs_conf rs" "rankModule rs1" using Suc.prems(2) by (auto simp: board_def rs1_def rs_conf_def fun_eq_iff)
      show ?thesis
      proof (cases "k = 0")
        case True
        have "T(k := None) = T |` (- {0})" using True by (auto simp: restrict_map_def)
        then show ?thesis using h ok1 b1 k exp True
          by (intro exI [of _ rs1] exI [of _ es] exI [of _ "{}"] exI [of _ "{0}"]) (auto simp: rs1_def)
      next
        case k0: False
        from DeleteRankData_ok [OF ok1 b1(3), of "[k]"] obtain c rs2 es2 where
          r: "DeleteRankData [k] rs1 = Some (Inr (c, rs2))" "rank_ok_but (insert k {0} - {k}) n rs2 es2 (T(k := None) |` (- {k}))"
            "board rs2 = board rs |` (- {k})" "rs_conf rs2 = rs_conf rs" "mapRankData rs2 = mapRankData rs |` (- {k})" using b1 by (auto simp: rs1_def)
        have T2: "T(k := None) |` (- {k}) = T(k := None)" by (auto simp: restrict_map_def)
        have ok2: "rank_ok n rs2 es2 (T(k := None))" using r(2) T2 k0 by (auto intro: rank_ok_mono)
        have m2: "rankModule rs2" "rs_expireMs rs2 = rs_expireMs rs" using rs_confD [OF r(4)] Suc.prems(2) by simp_all
        from Suc.IH [OF ok2 m2(1)] obtain rs' es' K L where
          ih: "pick_from clock i rs2 = Some (Inr rs')" "rank_ok n rs' es' (T(k := None) |` (- L))" "board rs' = board rs2 |` (- K)" "mapRankData rs' = mapRankData rs2 |` (- K)"
            "rs_conf rs' = rs_conf rs2" "finite K" "card K \<le> i" "K = L - {0}"
            "\<forall>k' \<in> L. \<exists>t j. (T(k := None)) k' = Some t \<and> j < i \<and> wrap64 (t + rs_expireMs rs2) \<le> clock j" by blast
        have "pick_from clock (Suc i) rs = Some (Inr rs')" using h(1) r(1) ih(1) k0 by (simp add: rs1_def Let_def)
        moreover have "T(k := None) |` (- L) = T |` (- insert k L)" "board rs' = board rs |` (- insert k K)" "mapRankData rs' = mapRankData rs |` (- insert k K)"
          using ih(3,4) r(3,5) by (auto simp: restrict_map_def fun_eq_iff)
        moreover have "card (insert k K) \<le> Suc i" using ih(6,7) by (simp add: card_insert_if)
        moreover have "\<forall>k' \<in> insert k L. \<exists>t j. T k' = Some t \<and> j < Suc i \<and> wrap64 (t + rs_expireMs rs) \<le> clock j"
        proof
          fix k' assume k': "k' \<in> insert k L"
          show "\<exists>t j. T k' = Some t \<and> j < Suc i \<and> wrap64 (t + rs_expireMs rs) \<le> clock j"
          proof (cases "k' = k")
            case True
            then show ?thesis using k exp by blast
          next
            case False
            then have "\<exists>t j. T k' = Some t \<and> j < i \<and> wrap64 (t + rs_expireMs rs) \<le> clock j" using k' bspec [OF ih(9), of k'] m2(2) by simp
            then show ?thesis using less_SucI by blast
          qed
        qed
        ultimately show ?thesis using ih r k0
          by (intro exI [of _ rs'] exI [of _ es'] exI [of _ "insert k K"] exI [of _ "insert k L"]) auto
      qed
    qed
  qed
qed

lemma pickExpireKey_ok:
  assumes "rank_ok n rs es T" "rankModule rs"
  obtains rs' es' K L where "pickExpireKey clock rs = Some (Inr rs')" "rank_ok n rs' es' (T |` (- L))" "board rs' = board rs |` (- K)" "mapRankData rs' = mapRankData rs |` (- K)"
    "rs_conf rs' = rs_conf rs" "finite K" "card K \<le> MaxPickExpireNum" "K = L - {0}"
    "\<forall>k \<in> L. rs_expireMs rs \<noteq> 0 \<and> (\<exists>t j. T k = Some t \<and> j < MaxPickExpireNum \<and> wrap64 (t + rs_expireMs rs) \<le> clock j)"
proof (cases "rs_expireMs rs = 0")
  case True
  then show ?thesis using assms by (intro that [of rs es "{}" "{}"]) (auto simp: pickExpireKey_def restrict_map_def)
next
  case False
  from pick_from_ok [OF assms, of clock MaxPickExpireNum] obtain rs' es' K L where
    "pick_from clock MaxPickExpireNum rs = Some (Inr rs')" "rank_ok n rs' es' (T |` (- L))" "board rs' = board rs |` (- K)" "mapRankData rs' = mapRankData rs |` (- K)"
    "rs_conf rs' = rs_conf rs" "finite K" "card K \<le> MaxPickExpireNum" "K = L - {0}"
    "\<forall>k \<in> L. \<exists>t j. T k = Some t \<and> j < MaxPickExpireNum \<and> wrap64 (t + rs_expireMs rs) \<le> clock j" by blast
  then show ?thesis using False by (intro that [of rs' es' L K]) (auto simp: pickExpireKey_def)
qed

section \<open>Inserting and updating\<close>

lemma mapRankData_iff: "rank_ok_but X n rs es T \<Longrightarrow> mapRankData rs k = Some a \<longleftrightarrow> a \<in> set es \<and> rd_Key (rd_store rs a) = k"
  by (simp add: rank_ok_but_def map_ok_def)

text \<open>The entry of \<open>k\<close>, if any, is given up, and \<open>b\<close> takes its place.\<close>

lemma map_ok_move:
  assumes ok: "map_ok rs es" and b: "b \<notin> set es'" "set es' = {a \<in> set es. rd_Key (rd_store rs a) \<noteq> k}"
    and e: "rd_Key e = k" "rd_ref e"
    and rs': "mapRankData rs' = (mapRankData rs)(k \<mapsto> b)"
      "rd_store rs' = (\<lambda>x. if x = b then e else if x \<in> set es - set es' then emptyRankData else rd_store rs x)"
    and es: "set es'' = insert b (set es')"
  shows "map_ok rs' es''" "board rs' = (board rs)(k \<mapsto> e)"
proof -
  have M: "mapRankData rs k = Some a \<longleftrightarrow> a \<in> set es \<and> rd_Key (rd_store rs a) = k" for k a using ok by (simp add: map_ok_def)
  have "mapRankData rs' k' = Some x \<longleftrightarrow> x \<in> set es'' \<and> rd_Key (rd_store rs' x) = k'" for k' x
  proof (cases "x = b")
    case True
    then show ?thesis using M [of k' b] b e by (auto simp: rs' es)
  next
    case False
    then show ?thesis using M [of k' x] b(2) by (auto simp: rs' es)
  qed
  moreover have "if x \<in> set es'' then rd_ref (rd_store rs' x) else rd_store rs' x = emptyRankData" for x
    using ok b e(2) by (auto simp: rs' es map_ok_def)
  ultimately show "map_ok rs' es''" by (simp add: map_ok_def)
  show "board rs' = (board rs)(k \<mapsto> e)"
  proof
    fix k'
    show "board rs' k' = ((board rs)(k \<mapsto> e)) k'"
    proof (cases "mapRankData rs k'")
      case (Some a)
      then show ?thesis using M [of k' a] b by (auto simp: board_def rs')
    qed (simp add: board_def rs')
  qed
qed

lemma rs_Push_ok:
  assumes "rx_rep T (rankDataExpire rs)" "T k = None \<Longrightarrow> \<not> ed_ref (ed_store (rankDataExpire rs) ea)"
  shows "\<exists>h'. rs_Push ea k ts rs = Some (Inr (rs\<lparr>rankDataExpire := h'\<rparr>)) \<and> rx_rep (T(k \<mapsto> ts)) h' \<and> rx_expireMs h' = rx_expireMs (rankDataExpire rs)"
  using PushOrRefreshExpireKey_ok [OF assms(1), where k = k and t = ts and a = ea] assms(2) by (auto simp: rs_Push_def)

text \<open>
  Whether a new entry gets a place: \<open>None\<close> when it is refused, \<open>Some None\<close> when there is room, \<open>Some (Some a)\<close> when it
  takes the place of \<open>a\<close>, the last one.
\<close>

definition room :: "'d RankSkip \<Rightarrow> 'd UpsetData \<Rightarrow> nat list \<Rightarrow> nat option option" where
  "room rs up es =
     (if rs_maxLen rs = 0 \<or> length es < unat (rs_maxLen rs) then Some None
      else let f = compareMoreThan (up_SortData up) (rd_SortData (rd_store rs (last es)))
           in if isDes rs \<and> 0 < f \<or> \<not> isDes rs \<and> f < 0 then Some (Some (last es)) else None)"

lemma checkInsertAndReplace_ok:
  assumes ok: "rank_ok n rs es T" and m: "rankModule rs"
  shows "case room rs up es of
      None \<Rightarrow> checkInsertAndReplace up rs = Some (Inr (False, rs))
    | Some None \<Rightarrow> checkInsertAndReplace up rs = Some (Inr (True, rs))
    | Some (Some a) \<Rightarrow> \<exists>rs' es' k. checkInsertAndReplace up rs = Some (Inr (True, rs')) \<and> k = rd_Key (rd_store rs a) \<and> a \<in> set es \<and>
        rank_ok n rs' es' (T(k := None)) \<and> board rs' = (board rs)(k := None) \<and> rs_conf rs' = rs_conf rs \<and>
        set es' = set es - {a} \<and> Suc (length es') = length es \<and>
        (\<forall>q. ed_ref (ed_store (rankDataExpire rs') q) \<longrightarrow>
          ed_ref (ed_store (rankDataExpire rs) q) \<and> mapExpireData (rankDataExpire rs) k \<noteq> Some q)"
proof -
  note D = rank_okD [OF ok]
  have sl: "sl_list (skipList rs) es" using D(1) by (simp add: list_ok_def)
  have L: "unat (SkipList_Len (skipList rs)) = length es" using sl_list_Len [OF sl] by (simp add: unat_of_nat take_bit_nat_eq_self)
  have W: "rs_maxLen rs > SkipList_Len (skipList rs) \<longleftrightarrow> length es < unat (rs_maxLen rs)" using L by (simp add: word_less_nat_alt)
  show ?thesis
  proof (cases "rs_maxLen rs = 0 \<or> length es < unat (rs_maxLen rs)")
    case True
    then show ?thesis using W by (auto simp: room_def checkInsertAndReplace_def Let_def)
  next
    case full: False
    then have ne: "es \<noteq> []" by (auto simp: unat_gt_0)
    define a where "a = last es"
    have a: "a \<in> set es" "rd_ref (rd_store rs a)" using ne D(9) by (auto simp: a_def)
    have "SkipList_Len (skipList rs) \<noteq> 0" using L ne by auto
    then have "unat (SkipList_Len (skipList rs) - 1) = length es - 1" using L by (simp add: unat_minus_one)
    then have bp: "ByPosition (skipList rs) (SkipList_Len (skipList rs) - 1) = Some (Inr (Some a))"
      using ByPosition_ok [OF sl, of "SkipList_Len (skipList rs) - 1"] ne by (simp add: a_def last_conv_nth)
    define f where "f = compareMoreThan (up_SortData up) (rd_SortData (rd_store rs a))"
    have no: "room rs up es = (if isDes rs \<and> 0 < f \<or> \<not> isDes rs \<and> f < 0 then Some (Some a) else None)"
      using full by (auto simp: room_def Let_def f_def a_def)
    have fl: "isDes rs \<and> f < 0 \<or> \<not> isDes rs \<and> f > 0 \<or> f = 0 \<longleftrightarrow> \<not> (isDes rs \<and> 0 < f \<or> \<not> isDes rs \<and> f < 0)"
      by (cases "isDes rs") auto
    have check: "checkInsertAndReplace up rs =
        (if isDes rs \<and> f < 0 \<or> \<not> isDes rs \<and> f > 0 \<or> f = 0 then Some (Inr (False, rs))
         else gbind (rs_Remove (rd_Key (rd_store rs a)) rs) (\<lambda>rs.
            gbind (notify (OnLeaveRank (rd_store rs a)) rs) (\<lambda>rs.
            gbind (rs_Delete a rs) (\<lambda>rs.
            gbind (rs_Release a (rs\<lparr>mapRankData := (mapRankData rs)(rd_Key (rd_store rs a) := None)\<rparr>)) (\<lambda>rs. Some (Inr (True, rs)))))))"
      using full W bp unfolding checkInsertAndReplace_def Let_def f_def by simp
    show ?thesis
    proof (cases "isDes rs \<and> 0 < f \<or> \<not> isDes rs \<and> f < 0")
      case False
      then have "isDes rs \<and> f < 0 \<or> \<not> isDes rs \<and> f > 0 \<or> f = 0" using fl by blast
      then have "checkInsertAndReplace up rs = Some (Inr (False, rs))" unfolding check by (rule if_P)
      then show ?thesis using no False by simp
    next
      case True
      then have nf: "\<not> (isDes rs \<and> f < 0 \<or> \<not> isDes rs \<and> f > 0 \<or> f = 0)" using fl by blast
      define k where "k = rd_Key (rd_store rs a)"
      obtain h' where h: "rs_Remove k rs = Some (Inr (rs\<lparr>rankDataExpire := h'\<rparr>))" "rx_rep (T(k := None)) h'" "rx_expireMs h' = rs_expireMs rs"
        "\<forall>q. ed_ref (ed_store h' q) \<longrightarrow> ed_ref (ed_store (rankDataExpire rs) q) \<and> mapExpireData (rankDataExpire rs) k \<noteq> Some q"
        using rs_Remove_ok [OF D(2), of k] D(3) by auto
      define rs1 where "rs1 = rs\<lparr>rankDataExpire := h', rs_log := rs_log rs @ [OnLeaveRank (rd_store rs a)]\<rparr>"
      have l1: "list_ok n (rd_store rs1) (isDes rs1) (skipList rs1) es" using D(1) by (simp add: rs1_def)
      obtain sl' es' where d: "rs_Delete a rs1 = Some (Inr (rs1\<lparr>skipList := sl'\<rparr>))"
        "list_ok n ((rd_store rs)(a := emptyRankData)) (isDes rs) sl' es'" "set es' = set es - {a}" "Suc (length es') = length es"
        using rs_Leave_ok [OF l1 a(1)] a(2) by (auto simp: rs1_def)
      define rs2 where "rs2 = rs1\<lparr>skipList := sl', mapRankData := (mapRankData rs)(k := None), rd_store := (rd_store rs)(a := emptyRankData)\<rparr>"
      have "checkInsertAndReplace up rs = gbind (rs_Remove k rs) (\<lambda>rs.
            gbind (notify (OnLeaveRank (rd_store rs a)) rs) (\<lambda>rs.
            gbind (rs_Delete a rs) (\<lambda>rs.
            gbind (rs_Release a (rs\<lparr>mapRankData := (mapRankData rs)(rd_Key (rd_store rs a) := None)\<rparr>)) (\<lambda>rs. Some (Inr (True, rs))))))"
        unfolding check if_not_P [OF nf] k_def ..
      also have "\<dots> = Some (Inr (True, rs2))"
        using h(1) m d(1) a(2) by (simp add: notify_def rs1_def rs_Release_ok rs2_def k_def)
      finally have c: "checkInsertAndReplace up rs = Some (Inr (True, rs2))" .
      have "rank_ok_but ({0} - {k}) n rs2 es' (T(k := None))" "board rs2 = (board rs)(k := None)"
        using rank_ok_leave [OF ok a(1) k_def d(2,3) h(2,3), of rs2] by (simp_all add: rs2_def rs1_def)
      then show ?thesis using c no True a d(3,4) h(4) k_def
        by (auto simp: rs2_def rs1_def rs_conf_def intro: rank_ok_mono)
    qed
  qed
qed

end
