(* ===== verification/RankUpset.thy ===== *)
theory RankUpset
  imports RankBoard
begin

text \<open>
  What the operations that write entries do to the table: \<^verbatim>\<open>UpsetRank\<close> and \<^verbatim>\<open>UpsetRankList\<close>,
  \<^verbatim>\<open>UpdateRankData\<close>, \<^verbatim>\<open>ChangeExtendData\<close> and \<^verbatim>\<open>InsertDataOnNonExistent\<close>. Each returns, keeps \<open>rank_ok\<close>, and
  changes the entry of its key (and the entry it displaces) only.
\<close>

lemma log_frame [simp]:
  "rank_ok_but X n (rs\<lparr>rs_log := l\<rparr>) es T = rank_ok_but X n rs es T" "board (rs\<lparr>rs_log := l\<rparr>) = board rs" "rs_conf (rs\<lparr>rs_log := l\<rparr>) = rs_conf rs"
  by (auto simp: rank_ok_but_def map_ok_def expire_ok_def board_def rs_conf_def fun_eq_iff)

lemma notify_unless_ok: "rankModule rs \<Longrightarrow> \<exists>l. notify_unless b ev rs = Some (Inr (rs\<lparr>rs_log := l\<rparr>))"
  by (auto simp: notify_unless_def notify_def intro: exI [of _ "rs_log rs"])

text \<open>A new object enters for the key of \<open>up\<close>; \<open>rs0\<close> and \<open>es0\<close> are the list before the old entry of the key, if any, left.\<close>

lemma enter_push:
  assumes list: "list_ok n (rd_store rs) (isDes rs) (skipList rs) es'" "length es' < 2 ^ 64 - 1"
    and map: "map_ok rs0 es0" "set es' = {a \<in> set es0. rd_Key (rd_store rs0 a) \<noteq> up_Key up}"
    and rs: "rd_store rs = (\<lambda>x. if x \<in> set es0 - set es' then emptyRankData else rd_store rs0 x)" "mapRankData rs = mapRankData rs0"
    and a: "env_rd env \<notin> set es'" "length (up_SortData up) = n"
    and heap: "rx_rep T (rankDataExpire rs)" "rx_expireMs (rankDataExpire rs) = rs_expireMs rs"
      "dom T \<subseteq> dom (mapRankData rs0)" "dom (mapRankData rs0) \<subseteq> {0} \<union> dom T"
      "T (up_Key up) = None \<Longrightarrow> \<not> ed_ref (ed_store (rankDataExpire rs) (env_ed env))"
  shows "\<exists>rs1 rs2 es''. rs_Enter env up ts rs = Some (Inr rs1) \<and> rs_Push (env_ed env) (up_Key up) ts rs1 = Some (Inr rs2) \<and>
    rank_ok n rs2 es'' (T(up_Key up \<mapsto> ts)) \<and> board rs2 = (board rs0)(up_Key up \<mapsto> new_entry (isDes rs) up ts) \<and>
    rs_conf rs2 = rs_conf rs \<and> length es'' = Suc (length es')"
proof -
  let ?k = "up_Key up" and ?b = "env_rd env"
  define e where "e = new_entry (isDes rs) up ts"
  define R' where "R' = (rd_store rs)(?b := e)"
  have free: "rd_store rs ?b = emptyRankData" using map a(1) by (auto simp: rs(1) map_ok_def)
  have other: "rd_Key (rd_store rs x) \<noteq> ?k" if "x \<in> set es'" for x using that map(2) by (simp add: rs(1))
  obtain sl' es'' where en: "rs_Enter env up ts rs = Some (Inr (rs\<lparr>rd_store := R', skipList := sl', mapRankData := (mapRankData rs)(?k \<mapsto> ?b)\<rparr>))"
    "list_ok n R' (isDes rs) sl' es''" "set es'' = insert ?b (set es')" "length es'' = Suc (length es')"
    using rs_Enter_ok [OF list a(1) free a(2) other, of R' ts] by (auto simp: R'_def e_def)
  define rs1 where "rs1 = rs\<lparr>rd_store := R', skipList := sl', mapRankData := (mapRankData rs)(?k \<mapsto> ?b)\<rparr>"
  obtain h' where h: "rs_Push (env_ed env) ?k ts rs1 = Some (Inr (rs1\<lparr>rankDataExpire := h'\<rparr>))" "rx_rep (T(?k \<mapsto> ts)) h'" "rx_expireMs h' = rs_expireMs rs"
    using rs_Push_ok [of T rs1 ?k "env_ed env" ts] heap by (auto simp: rs1_def)
  define rs2 where "rs2 = rs1\<lparr>rankDataExpire := h'\<rparr>"
  have m: "mapRankData rs2 = (mapRankData rs0)(?k \<mapsto> ?b)" using rs(2) by (simp add: rs2_def rs1_def)
  have R2: "rd_store rs2 = (\<lambda>x. if x = ?b then e else if x \<in> set es0 - set es' then emptyRankData else rd_store rs0 x)"
    using rs(1) by (auto simp: rs2_def rs1_def R'_def)
  have "map_ok rs2 es''" "board rs2 = (board rs0)(?k \<mapsto> e)"
    using map_ok_move [OF map(1) a(1) map(2) _ _ m R2 en(3)] by (simp_all add: e_def)
  moreover have "expire_ok rs2 (T(?k \<mapsto> ts)) {0}" using h(2,3) heap(3,4) m by (auto simp: expire_ok_def rs2_def rs1_def)
  ultimately have "rank_ok n rs2 es'' (T(?k \<mapsto> ts))" using en(2) by (simp add: rank_ok_but_def rs2_def rs1_def)
  moreover have "rs_conf rs2 = rs_conf rs" by (simp add: rs2_def rs1_def rs_conf_def)
  ultimately show ?thesis using en(1,4) h(1) \<open>board rs2 = _\<close> by (auto simp: rs1_def [symmetric] rs2_def [symmetric] e_def)
qed

section \<open>UpsetRank\<close>

lemma rx_none: "rx_rep T h \<Longrightarrow> mapExpireData h k = None \<longleftrightarrow> T k = None"
  by (simp add: rx_repD(4))

definition upset_entry :: "bool \<Rightarrow> 'd UpsetData \<Rightarrow> int \<Rightarrow> 'd RankData \<Rightarrow> 'd RankData" where
  "upset_entry des up ts e =
     (let ex = add_increments (rd_ExData e) (up_ExData up)
      in if rd_SortData e = up_SortData up then e\<lparr>rd_ExData := ex, rd_Data := up_Data up, rd_RefreshTimestamp := ts\<rparr>
         else new_entry des (up\<lparr>up_Data := (if up_Data up = None then rd_Data e else up_Data up), up_ExData := carry_ex ex 0 (up_ExData up)\<rparr>) ts)"

text \<open>
  What the pools may return: an object that is not in use, or one the operation has given back before: the old object
  of the key, or those of the entry that is displaced.
\<close>

definition pools_free :: "rank_env \<Rightarrow> 'd UpsetData \<Rightarrow> 'd RankSkip \<Rightarrow> nat list \<Rightarrow> bool" where
  "pools_free env up rs es \<longleftrightarrow>
     (env_rd env \<notin> set es \<or> mapRankData rs (up_Key up) = Some (env_rd env) \<or>
       mapRankData rs (up_Key up) = None \<and> room rs up es = Some (Some (env_rd env))) \<and>
     (mapExpireData (rankDataExpire rs) (up_Key up) \<noteq> None \<or> \<not> ed_ref (ed_store (rankDataExpire rs) (env_ed env)) \<or>
       mapRankData rs (up_Key up) = None \<and> (\<exists>a. room rs up es = Some (Some a) \<and> mapExpireData (rankDataExpire rs) (rd_Key (rd_store rs a)) = Some (env_ed env)))"

lemma upset_new:
  assumes ok: "rank_ok n rs es T" and m: "rankModule rs" and len: "length es < 2 ^ 64 - 1"
    and k: "mapRankData rs (up_Key up) = None" and n: "length (up_SortData up) = n"
    and free: "env_rd env \<notin> set es" "\<not> ed_ref (ed_store (rankDataExpire rs) (env_ed env))"
  shows "\<exists>rs' es'. gbind (rs_Enter env up ts rs) (\<lambda>rs.
            gbind (rs_Push (env_ed env) (up_Key up) ts rs) (\<lambda>rs.
            gbind (notify_unless fl (ev (rd_store rs (env_rd env))) rs) (\<lambda>rs. Some (Inr (ct, rs))))) = Some (Inr (ct, rs')) \<and>
    rank_ok n rs' es' (T(up_Key up \<mapsto> ts)) \<and> board rs' = (board rs)(up_Key up \<mapsto> new_entry (isDes rs) up ts) \<and>
    rs_conf rs' = rs_conf rs \<and> length es' = Suc (length es)"
proof -
  note D = rank_okD [OF ok]
  have mo: "map_ok rs es" using ok by (simp add: rank_ok_but_def)
  have "rd_Key (rd_store rs x) \<noteq> up_Key up" if "x \<in> set es" for x using D(7) [OF that] k by auto
  then have "set es = {a \<in> set es. rd_Key (rd_store rs a) \<noteq> up_Key up}" by blast
  from enter_push [OF D(1) len mo this _ refl free(1) n D(2,3,4,5) free(2), of ts] obtain rs1 rs2 es' where
    e: "rs_Enter env up ts rs = Some (Inr rs1)" "rs_Push (env_ed env) (up_Key up) ts rs1 = Some (Inr rs2)"
    "rank_ok n rs2 es' (T(up_Key up \<mapsto> ts))" "board rs2 = (board rs)(up_Key up \<mapsto> new_entry (isDes rs) up ts)"
    "rs_conf rs2 = rs_conf rs" "length es' = Suc (length es)" by auto
  have "rankModule rs2" using rs_confD(4) [OF e(5)] m by simp
  then obtain l where "notify_unless fl (ev (rd_store rs2 (env_rd env))) rs2 = Some (Inr (rs2\<lparr>rs_log := l\<rparr>))" using notify_unless_ok by blast
  then show ?thesis using e by (intro exI [of _ "rs2\<lparr>rs_log := l\<rparr>"] exI [of _ es']) simp
qed

lemma upset_same:
  assumes ok: "rank_ok n rs es T" and m: "rankModule rs" and a: "a \<in> set es" "k = rd_Key (rd_store rs a)"
    and f: "rd_Key (f (rd_store rs a)) = k" "rd_SortData (f (rd_store rs a)) = rd_SortData (rd_store rs a)" "rd_ref (f (rd_store rs a))"
      "rd_compareDes (f (rd_store rs a)) = rd_compareDes (rd_store rs a)"
  shows "rank_ok n (upd_rd a f rs) es T" "board (upd_rd a f rs) = (board rs)(k \<mapsto> f (rd_store rs a))" "rs_conf (upd_rd a f rs) = rs_conf rs"
proof -
  note D = rank_okD [OF ok]
  have M: "mapRankData rs k' = Some x \<longleftrightarrow> x \<in> set es \<and> rd_Key (rd_store rs x) = k'" for k' x by (rule mapRankData_iff [OF ok])
  have "list_ok n (rd_store (upd_rd a f rs)) (isDes rs) (skipList rs) es"
    using D(1) f a by (subst list_ok_cong [of es _ "rd_store rs"]) (auto simp: upd_rd_def)
  moreover have "map_ok (upd_rd a f rs) es" using ok a f by (auto simp: rank_ok_but_def map_ok_def upd_rd_def)
  moreover have "expire_ok (upd_rd a f rs) T {0}" using ok by (simp add: rank_ok_but_def expire_ok_def upd_rd_def)
  ultimately show "rank_ok n (upd_rd a f rs) es T" by (simp add: rank_ok_but_def upd_rd_def)
  show "board (upd_rd a f rs) = (board rs)(k \<mapsto> f (rd_store rs a))"
  proof
    fix k'
    show "board (upd_rd a f rs) k' = ((board rs)(k \<mapsto> f (rd_store rs a))) k'"
    proof (cases "mapRankData rs k'")
      case None
      then show ?thesis using M [of k a] a by (auto simp: board_def upd_rd_def)
    next
      case (Some x)
      then show ?thesis using M [of k' x] M [of k a] a by (auto simp: board_def upd_rd_def)
    qed
  qed
  show "rs_conf (upd_rd a f rs) = rs_conf rs" by (simp add: rs_conf_def upd_rd_def)
qed

lemma rs_push_step:
  assumes ok: "rank_ok n rs es T" and k: "k \<in> dom (mapRankData rs)" and e: "T k = None \<Longrightarrow> \<not> ed_ref (ed_store (rankDataExpire rs) ea)"
  shows "\<exists>rs'. rs_Push ea k ts rs = Some (Inr rs') \<and> rank_ok n rs' es (T(k \<mapsto> ts)) \<and> board rs' = board rs \<and> rs_conf rs' = rs_conf rs \<and> rd_store rs' = rd_store rs"
proof -
  note D = rank_okD [OF ok]
  obtain h' where h: "rs_Push ea k ts rs = Some (Inr (rs\<lparr>rankDataExpire := h'\<rparr>))" "rx_rep (T(k \<mapsto> ts)) h'" "rx_expireMs h' = rs_expireMs rs"
    using rs_Push_ok [OF D(2), where k = k and ea = ea and ts = ts] e D(3) by auto
  then show ?thesis using ok k
    by (intro exI [of _ "rs\<lparr>rankDataExpire := h'\<rparr>"]) (auto simp: rank_ok_but_def map_ok_def expire_ok_def board_def rs_conf_def fun_eq_iff)
qed

lemma upset_moved:
  assumes ok: "rank_ok n rs es T" and m: "rankModule rs" and len: "length es < 2 ^ 64 - 1"
    and a: "mapRankData rs (up_Key up) = Some a" and n: "length (up_SortData up) = n"
    and free: "env_rd env \<notin> set es \<or> env_rd env = a" "T (up_Key up) = None \<Longrightarrow> \<not> ed_ref (ed_store (rankDataExpire rs) (env_ed env))"
  shows "\<exists>rs' es'. gbind (rs_Delete a rs) (\<lambda>rs.
       gbind (rs_Release a rs) (\<lambda>rs.
       gbind (rs_Enter env up ts rs) (\<lambda>rs.
       gbind (rs_Push (env_ed env) (up_Key up) ts rs) (\<lambda>rs.
       gbind (notify_unless fl (OnChangeRankData (rd_store rs (env_rd env))) rs) (\<lambda>rs. Some (Inr (RankDataUpdate, rs))))))) = Some (Inr (RankDataUpdate, rs')) \<and>
    rank_ok n rs' es' (T(up_Key up \<mapsto> ts)) \<and> board rs' = (board rs)(up_Key up \<mapsto> new_entry (isDes rs) up ts) \<and>
    rs_conf rs' = rs_conf rs \<and> length es' = length es"
proof -
  note D = rank_okD [OF ok]
  have a': "a \<in> set es" "rd_Key (rd_store rs a) = up_Key up" "rd_ref (rd_store rs a)" using D(6) [OF a] by auto
  have mo: "map_ok rs es" using ok by (simp add: rank_ok_but_def)
  obtain sl' es' where d: "rs_Delete a rs = Some (Inr (rs\<lparr>skipList := sl'\<rparr>))"
    "list_ok n ((rd_store rs)(a := emptyRankData)) (isDes rs) sl' es'" "set es' = set es - {a}" "Suc (length es') = length es"
    using rs_Leave_ok [OF D(1) a'(1,3)] by blast
  define rs1 where "rs1 = rs\<lparr>skipList := sl', rd_store := (rd_store rs)(a := emptyRankData)\<rparr>"
  have rel: "rs_Release a (rs\<lparr>skipList := sl'\<rparr>) = Some (Inr rs1)" using rs_Release_ok [of "rs\<lparr>skipList := sl'\<rparr>" a] a'(3) by (simp add: rs1_def)
  have l1: "list_ok n (rd_store rs1) (isDes rs1) (skipList rs1) es'" "length es' < 2 ^ 64 - 1" using d(2,4) len by (simp_all add: rs1_def)
  have "x \<in> set es \<Longrightarrow> rd_Key (rd_store rs x) = up_Key up \<Longrightarrow> x = a" for x using mapRankData_iff [OF ok, of "up_Key up" x] a by simp
  then have s1: "set es' = {x \<in> set es. rd_Key (rd_store rs x) \<noteq> up_Key up}" using d(3) a'(2) by blast
  have r1: "rd_store rs1 = (\<lambda>x. if x \<in> set es - set es' then emptyRankData else rd_store rs x)" using a'(1) by (simp add: rs1_def fun_eq_iff d(3))
  have f1: "mapRankData rs1 = mapRankData rs" "env_rd env \<notin> set es'" "rx_rep T (rankDataExpire rs1)" "rx_expireMs (rankDataExpire rs1) = rs_expireMs rs1"
    "T (up_Key up) = None \<Longrightarrow> \<not> ed_ref (ed_store (rankDataExpire rs1) (env_ed env))" using D(2,3) free d(3) by (auto simp: rs1_def)
  from enter_push [OF l1 mo s1 r1 f1(1,2) n f1(3,4) D(4,5) f1(5), of ts] obtain rs2 rs3 es'' where
    e: "rs_Enter env up ts rs1 = Some (Inr rs2)" "rs_Push (env_ed env) (up_Key up) ts rs2 = Some (Inr rs3)"
    "rank_ok n rs3 es'' (T(up_Key up \<mapsto> ts))" "board rs3 = (board rs)(up_Key up \<mapsto> new_entry (isDes rs1) up ts)"
    "rs_conf rs3 = rs_conf rs1" "length es'' = Suc (length es')" by auto
  have c1: "rs_conf rs1 = rs_conf rs" "isDes rs1 = isDes rs" by (simp_all add: rs1_def rs_conf_def)
  then have "rankModule rs3" using rs_confD(4) e(5) m by metis
  then obtain l where l: "notify_unless fl (OnChangeRankData (rd_store rs3 (env_rd env))) rs3 = Some (Inr (rs3\<lparr>rs_log := l\<rparr>))" using notify_unless_ok by blast
  show ?thesis using e d(1,4) rel l c1 by (intro exI [of _ "rs3\<lparr>rs_log := l\<rparr>"] exI [of _ es'']) simp
qed

lemma UpsetRank_known:
  assumes ok: "rank_ok n rs es T" and m: "rankModule rs" and len: "length es < 2 ^ 64 - 1" and n: "length (up_SortData up) = n"
    and pf: "pools_free env up rs es" and e: "board rs (up_Key up) = Some e"
  shows "\<exists>rs' es'. UpsetRank env up ts fl rs = Some (Inr (RankDataUpdate, rs')) \<and> rank_ok n rs' es' (T(up_Key up \<mapsto> ts)) \<and>
    board rs' = (board rs)(up_Key up \<mapsto> upset_entry (isDes rs) up ts e) \<and> rs_conf rs' = rs_conf rs \<and> length es' = length es"
proof -
  note D = rank_okD [OF ok]
  let ?k = "up_Key up"
  obtain a where a: "mapRankData rs ?k = Some a" "e = rd_store rs a" using e by (auto simp: board_def)
  have a': "a \<in> set es" "?k = rd_Key (rd_store rs a)" "rd_ref (rd_store rs a)" using D(6) [OF a(1)] by auto
  have edf: "T ?k = None \<Longrightarrow> \<not> ed_ref (ed_store (rankDataExpire rs) (env_ed env))"
    using pf a(1) rx_none [OF D(2)] by (auto simp: pools_free_def)
  define ex where "ex = add_increments (rd_ExData e) (up_ExData up)"
  show ?thesis
  proof (cases "rd_SortData e = up_SortData up")
    case True
    define f :: "'a RankData \<Rightarrow> 'a RankData" where "f = (\<lambda>d. d\<lparr>rd_ExData := ex, rd_Data := up_Data up, rd_RefreshTimestamp := ts\<rparr>)"
    define rs1 where "rs1 = upd_rd a f rs"
    have u: "rank_ok n rs1 es T" "board rs1 = (board rs)(?k \<mapsto> f e)" "rs_conf rs1 = rs_conf rs"
      unfolding rs1_def using upset_same [OF ok m a'(1,2), of f] a a' by (simp_all add: f_def)
    have "rankModule rs1" using rs_confD(4) [OF u(3)] m by simp
    then obtain l where l: "notify_unless fl (OnChangeRankData (rd_store rs1 a)) rs1 = Some (Inr (rs1\<lparr>rs_log := l\<rparr>))" using notify_unless_ok by blast
    have "\<exists>rs'. rs_Push (env_ed env) ?k ts (rs1\<lparr>rs_log := l\<rparr>) = Some (Inr rs') \<and> rank_ok n rs' es (T(?k \<mapsto> ts)) \<and>
        board rs' = board (rs1\<lparr>rs_log := l\<rparr>) \<and> rs_conf rs' = rs_conf (rs1\<lparr>rs_log := l\<rparr>) \<and> rd_store rs' = rd_store (rs1\<lparr>rs_log := l\<rparr>)"
      using u(1) a(1) edf by (intro rs_push_step) (auto simp: rs1_def upd_rd_def)
    then obtain rs2 where p: "rs_Push (env_ed env) ?k ts (rs1\<lparr>rs_log := l\<rparr>) = Some (Inr rs2)" "rank_ok n rs2 es (T(?k \<mapsto> ts))"
      "board rs2 = board rs1" "rs_conf rs2 = rs_conf rs1" by auto
    have "upd_rd a (\<lambda>d. d\<lparr>rd_Data := up_Data up, rd_RefreshTimestamp := ts\<rparr>)
        (upd_rd a (\<lambda>d. d\<lparr>rd_ExData := add_increments (rd_ExData d) (up_ExData up)\<rparr>) rs) = rs1"
      using a(2) by (simp add: rs1_def upd_rd_def f_def ex_def)
    then have "UpsetRank env up ts fl rs = Some (Inr (RankDataUpdate, rs2))"
      using a True l p(1) by (simp add: UpsetRank_def Let_def compareIsEqual_iff) (simp add: upd_rd_def)
    then show ?thesis using p u True by (intro exI [of _ rs2] exI [of _ es]) (simp add: upset_entry_def Let_def f_def ex_def)
  next
    case False
    define f :: "'a RankData \<Rightarrow> 'a RankData" where "f = (\<lambda>d. d\<lparr>rd_ExData := add_increments (rd_ExData d) (up_ExData up)\<rparr>)"
    define rs1 where "rs1 = upd_rd a f rs"
    have u: "rank_ok n rs1 es T" "board rs1 = (board rs)(?k \<mapsto> f e)" "rs_conf rs1 = rs_conf rs"
      unfolding rs1_def using upset_same [OF ok m a'(1,2), of f] a a' by (simp_all add: f_def)
    define up' where "up' = up\<lparr>up_Data := (if up_Data up = None then rd_Data e else up_Data up), up_ExData := carry_ex ex 0 (up_ExData up)\<rparr>"
    have h: "rankModule rs1" "mapRankData rs1 (up_Key up') = Some a" "length (up_SortData up') = n" "up_Key up' = ?k" "isDes rs1 = isDes rs"
      "env_rd env \<notin> set es \<or> env_rd env = a" "T (up_Key up') = None \<Longrightarrow> \<not> ed_ref (ed_store (rankDataExpire rs1) (env_ed env))"
      using m a(1) n pf edf by (auto simp: rs1_def upd_rd_def up'_def pools_free_def)
    have ut: "UpsetRank env up ts fl rs = gbind (rs_Delete a rs1) (\<lambda>rs.
       gbind (rs_Release a rs) (\<lambda>rs.
       gbind (rs_Enter env up' ts rs) (\<lambda>rs.
       gbind (rs_Push (env_ed env) (up_Key up') ts rs) (\<lambda>rs.
       gbind (notify_unless fl (OnChangeRankData (rd_store rs (env_rd env))) rs) (\<lambda>rs. Some (Inr (RankDataUpdate, rs)))))))"
      using a False by (simp add: UpsetRank_def Let_def compareIsEqual_iff rs1_def f_def upd_rd_def up'_def ex_def)
    from upset_moved [OF u(1) h(1) len h(2,3,6,7), of ts fl] obtain rs' es' where
      "UpsetRank env up ts fl rs = Some (Inr (RankDataUpdate, rs'))" "rank_ok n rs' es' (T(?k \<mapsto> ts))"
      "board rs' = (board rs1)(?k \<mapsto> new_entry (isDes rs) up' ts)" "rs_conf rs' = rs_conf rs1" "length es' = length es"
      unfolding ut h(4,5) by blast
    then show ?thesis using u False by (intro exI [of _ rs'] exI [of _ es']) (simp add: upset_entry_def Let_def up'_def ex_def)
  qed
qed

lemma UpsetRank_unknown:
  assumes ok: "rank_ok n rs es T" and m: "rankModule rs" and len: "length es < 2 ^ 64 - 1" and n: "length (up_SortData up) = n"
    and pf: "pools_free env up rs es" and e: "board rs (up_Key up) = None"
  shows "case room rs up es of
      None \<Rightarrow> UpsetRank env up ts fl rs = Some (Inr (RankDataNone, rs))
    | Some out \<Rightarrow> \<exists>rs' es' A U. UpsetRank env up ts fl rs = Some (Inr (RankDataAdd, rs')) \<and> rank_ok n rs' es' (U(up_Key up \<mapsto> ts)) \<and>
        board rs' = A(up_Key up \<mapsto> new_entry (isDes rs) up ts) \<and> rs_conf rs' = rs_conf rs \<and>
        (case out of
           None \<Rightarrow> A = board rs \<and> U = T \<and> length es' = Suc (length es)
         | Some a \<Rightarrow> A = (board rs)(rd_Key (rd_store rs a) := None) \<and> U = T(rd_Key (rd_store rs a) := None) \<and> length es' = length es)"
proof -
  have k: "mapRankData rs (up_Key up) = None" using e by (simp add: board_def)
  then have kx: "mapExpireData (rankDataExpire rs) (up_Key up) = None" using rx_none [OF rank_okD(2) [OF ok]] rank_okD(4) [OF ok] by (auto simp: domIff)
  have ut: "UpsetRank env up ts fl rs = gbind (checkInsertAndReplace up rs) (\<lambda>(ok, rs).
          if ok then
            gbind (rs_Enter env up ts rs) (\<lambda>rs.
            gbind (rs_Push (env_ed env) (up_Key up) ts rs) (\<lambda>rs.
            gbind (notify_unless fl (OnEnterRank (rd_store rs (env_rd env))) rs) (\<lambda>rs. Some (Inr (RankDataAdd, rs)))))
          else Some (Inr (RankDataNone, rs)))" using k by (simp add: UpsetRank_def)
  note c = checkInsertAndReplace_ok [OF ok m, of up]
  show ?thesis
  proof (cases "room rs up es")
    case None
    then show ?thesis using c ut by simp
  next
    case (Some out)
    show ?thesis
    proof (cases out)
      case None
      then have fr: "env_rd env \<notin> set es" "\<not> ed_ref (ed_store (rankDataExpire rs) (env_ed env))"
        using pf Some k kx by (auto simp: pools_free_def)
      from upset_new [OF ok m len k n fr, of ts fl OnEnterRank RankDataAdd] c ut Some None show ?thesis by auto
    next
      case out: (Some a)
      define kk where "kk = rd_Key (rd_store rs a)"
      obtain rs1 es1 where r: "checkInsertAndReplace up rs = Some (Inr (True, rs1))" "a \<in> set es" "rank_ok n rs1 es1 (T(kk := None))"
        "board rs1 = (board rs)(kk := None)" "rs_conf rs1 = rs_conf rs" "set es1 = set es - {a}" "Suc (length es1) = length es"
        "\<forall>q. ed_ref (ed_store (rankDataExpire rs1) q) \<longrightarrow> ed_ref (ed_store (rankDataExpire rs) q) \<and> mapExpireData (rankDataExpire rs) kk \<noteq> Some q"
        using c Some out by (auto simp: kk_def)
      have m1: "rankModule rs1" "isDes rs1 = isDes rs" using rs_confD [OF r(5)] m by auto
      have k1: "mapRankData rs1 (up_Key up) = None" using r(4) e by (metis board_def fun_upd_apply option.map_disc_iff)
      have f1: "env_rd env \<notin> set es1" "\<not> ed_ref (ed_store (rankDataExpire rs1) (env_ed env))"
        using pf Some out k kx r(6,8) by (auto simp: pools_free_def kk_def)
      have "length es1 < 2 ^ 64 - 1" using r(7) len by simp
      from upset_new [OF r(3) m1(1) this k1 n f1, of ts fl OnEnterRank RankDataAdd] obtain rs' es' where
        "UpsetRank env up ts fl rs = Some (Inr (RankDataAdd, rs'))" "rank_ok n rs' es' (T(kk := None, up_Key up \<mapsto> ts))"
        "board rs' = (board rs)(kk := None, up_Key up \<mapsto> new_entry (isDes rs) up ts)" "rs_conf rs' = rs_conf rs" "length es' = length es"
        using ut r m1(2) by auto
      then show ?thesis using Some out by (auto simp: kk_def)
    qed
  qed
qed


section \<open>Lists of requests\<close>

text \<open>The requests of a list fit the rank list: as many sort values as its entries have.\<close>

fun upsets_free :: "nat \<Rightarrow> (rank_env \<times> int \<times> 'd UpsetData) list \<Rightarrow> 'd RankSkip \<Rightarrow> bool" where
  "upsets_free n [] rs = True"
| "upsets_free n ((env, now, up) # ups) rs \<longleftrightarrow> length (up_SortData up) = n \<and>
     (\<forall>es T. rank_ok n rs es T \<longrightarrow> length es < 2 ^ 64 - 1 \<and> pools_free env up rs es) \<and>
     (\<forall>ct rs'. UpsetRank env up now False rs = Some (Inr (ct, rs')) \<longrightarrow> upsets_free n ups rs')"

lemma UpsetRank_ok:
  assumes "rank_ok n rs es T" "rankModule rs" "length es < 2 ^ 64 - 1" "length (up_SortData up) = n" "pools_free env up rs es"
  shows "\<exists>ct rs' es' T'. UpsetRank env up ts fl rs = Some (Inr (ct, rs')) \<and> rank_ok n rs' es' T' \<and> rs_conf rs' = rs_conf rs \<and>
    (rs_maxLen rs \<noteq> 0 \<longrightarrow> length es \<le> unat (rs_maxLen rs) \<longrightarrow> length es' \<le> unat (rs_maxLen rs))"
proof (cases "board rs (up_Key up)")
  case None
  note u = UpsetRank_unknown [OF assms None, of ts fl]
  show ?thesis
  proof (cases "room rs up es")
    case None
    then show ?thesis using u assms(1) by fastforce
  next
    case (Some out)
    then obtain rs' es' A U where r: "UpsetRank env up ts fl rs = Some (Inr (RankDataAdd, rs'))" "rank_ok n rs' es' (U(up_Key up \<mapsto> ts))"
      "rs_conf rs' = rs_conf rs" "length es' = (case out of None \<Rightarrow> Suc (length es) | Some a \<Rightarrow> length es)" using u by (cases out) auto
    moreover have "out = None \<Longrightarrow> rs_maxLen rs \<noteq> 0 \<Longrightarrow> length es < unat (rs_maxLen rs)" using Some by (auto simp: room_def Let_def split: if_splits)
    ultimately show ?thesis
      by (intro exI [of _ RankDataAdd] exI [of _ rs'] exI [of _ es'] exI [of _ "U(up_Key up \<mapsto> ts)"]) (auto split: option.splits)
  qed
next
  case (Some e)
  then show ?thesis using UpsetRank_known [OF assms Some, of ts fl] by fastforce
qed

lemma upset_list_ok:
  assumes "rank_ok n rs es T" "rankModule rs" "upsets_free n ups rs"
  shows "\<exists>c rs' es' T'. upset_list ups i j rs = Some (Inr (c, rs')) \<and> rank_ok n rs' es' T' \<and> rs_conf rs' = rs_conf rs \<and>
    (rs_maxLen rs \<noteq> 0 \<longrightarrow> length es \<le> unat (rs_maxLen rs) \<longrightarrow> length es' \<le> unat (rs_maxLen rs))"
  using assms
proof (induction ups arbitrary: rs es T i j)
  case Nil
  then show ?case by auto
next
  case (Cons u ups)
  obtain env now up where u: "u = (env, now, up)" by (cases u)
  have f: "length (up_SortData up) = n" "length es < 2 ^ 64 - 1" "pools_free env up rs es" using Cons.prems u by auto
  from UpsetRank_ok [OF Cons.prems(1,2) f(2,1,3), of now False] obtain ct rs1 es1 T1 where
    r: "UpsetRank env up now False rs = Some (Inr (ct, rs1))" "rank_ok n rs1 es1 T1" "rs_conf rs1 = rs_conf rs"
      "rs_maxLen rs \<noteq> 0 \<longrightarrow> length es \<le> unat (rs_maxLen rs) \<longrightarrow> length es1 \<le> unat (rs_maxLen rs)" by blast
  have m1: "rankModule rs1" "rs_maxLen rs1 = rs_maxLen rs" using rs_confD [OF r(3)] Cons.prems(2) by auto
  have "upsets_free n ups rs1" using Cons.prems(3) u r(1) by simp
  from Cons.IH [OF r(2) m1(1) this] show ?case using r m1(2) u by fastforce
qed

lemma UpsetRankList_ok:
  assumes "rank_ok n rs es T" "rankModule rs" "upsets_free n ups rs"
  shows "\<exists>c rs' es' T'. UpsetRankList clock ups rs = Some (Inr (c, rs')) \<and> rank_ok n rs' es' T' \<and> rs_conf rs' = rs_conf rs \<and>
    (rs_maxLen rs \<noteq> 0 \<longrightarrow> length es \<le> unat (rs_maxLen rs) \<longrightarrow> length es' \<le> unat (rs_maxLen rs))"
proof -
  from upset_list_ok [OF assms, of 0 0] obtain c rs1 es1 T1 where
    r: "upset_list ups 0 0 rs = Some (Inr (c, rs1))" "rank_ok n rs1 es1 T1" "rs_conf rs1 = rs_conf rs"
      "rs_maxLen rs \<noteq> 0 \<longrightarrow> length es \<le> unat (rs_maxLen rs) \<longrightarrow> length es1 \<le> unat (rs_maxLen rs)" by blast
  have "rankModule rs1" using rs_confD(4) [OF r(3)] assms(2) by simp
  from pickExpireKey_ok [OF r(2) this, of clock] obtain rs2 es2 K L where
    p: "pickExpireKey clock rs1 = Some (Inr rs2)" "rank_ok n rs2 es2 (T1 |` (- L))" "board rs2 = board rs1 |` (- K)" "rs_conf rs2 = rs_conf rs1" by metis
  have "dom (board rs2) \<subseteq> dom (board rs1)" unfolding p(3) by (auto simp del: dom_board)
  then have "length es2 \<le> length es1" using card_mono [OF rank_ok_card(2) [OF r(2)]] rank_ok_card(1) [OF r(2)] rank_ok_card(1) [OF p(2)] by metis
  then show ?thesis using r p by (intro exI [of _ c] exI [of _ rs2] exI [of _ es2] exI [of _ "T1 |` (- L)"]) (auto simp: UpsetRankList_def)
qed


section \<open>Changing an entry\<close>

lemma UpdateRankData_ok:
  assumes ok: "rank_ok n rs es T" and m: "rankModule rs" and ed: "T k = None \<Longrightarrow> \<not> ed_ref (ed_store (rankDataExpire rs) ea)"
  shows "case board rs k of
      None \<Rightarrow> UpdateRankData ea now k dat rs = Some (Inr (False, rs))
    | Some e \<Rightarrow> \<exists>rs'. UpdateRankData ea now k dat rs = Some (Inr (True, rs')) \<and> rank_ok n rs' es (T(k \<mapsto> now)) \<and>
        board rs' = (board rs)(k \<mapsto> e\<lparr>rd_Data := dat\<rparr>) \<and> rs_conf rs' = rs_conf rs"
proof (cases "mapRankData rs k")
  case None
  then show ?thesis by (simp add: UpdateRankData_def board_def)
next
  case (Some a)
  have a: "a \<in> set es" "k = rd_Key (rd_store rs a)" "rd_ref (rd_store rs a)" using rank_okD(6) [OF ok Some] by auto
  define rs1 where "rs1 = upd_rd a (\<lambda>d. d\<lparr>rd_Data := dat\<rparr>) rs"
  have u: "rank_ok n rs1 es T" "board rs1 = (board rs)(k \<mapsto> (rd_store rs a)\<lparr>rd_Data := dat\<rparr>)" "rs_conf rs1 = rs_conf rs"
    unfolding rs1_def using upset_same [OF ok m a(1,2), of "\<lambda>d. d\<lparr>rd_Data := dat\<rparr>"] a by simp_all
  obtain rs2 where p: "rs_Push ea k now rs1 = Some (Inr rs2)" "rank_ok n rs2 es (T(k \<mapsto> now))" "board rs2 = board rs1" "rs_conf rs2 = rs_conf rs1"
    using rs_push_step [OF u(1), of k ea now] Some ed by (auto simp: rs1_def upd_rd_def)
  have "rankModule rs2" using rs_confD(4) m p(4) u(3) by metis
  then have "notify (OnChangeRankData (rd_store rs2 a)) rs2 = Some (Inr (rs2\<lparr>rs_log := rs_log rs2 @ [OnChangeRankData (rd_store rs2 a)]\<rparr>))"
    by (simp add: notify_def)
  then have "UpdateRankData ea now k dat rs = Some (Inr (True, rs2\<lparr>rs_log := rs_log rs2 @ [OnChangeRankData (rd_store rs2 a)]\<rparr>))"
    using Some p(1) by (simp add: UpdateRankData_def rs1_def)
  then show ?thesis using p u Some by (simp add: board_def [of rs])
qed

definition fix_values :: "bool \<Rightarrow> SetSortAndExtendData list \<Rightarrow> int list \<Rightarrow> int list" where
  "fix_values b ss xs = foldl (\<lambda>xs s. if set_IsSortData s = b then xs[nat (set_Pos s) := set_Data s] else xs) xs ss"

lemma fix_values_length [simp]: "length (fix_values b ss xs) = length xs"
  unfolding fix_values_def by (induction ss arbitrary: xs) auto

lemma set_fixed_ok: "(\<And>s. s \<in> set ss \<Longrightarrow> 0 \<le> set_Pos s) \<Longrightarrow> set_fixed b ss xs = Inr (fix_values b ss xs)"
  unfolding fix_values_def
proof (induction ss arbitrary: xs)
  case (Cons s ss)
  show ?case
  proof (cases "set_Pos s < int (length xs)")
    case True
    then show ?thesis using Cons by (auto simp: slice_set_def)
  next
    case False
    then have "xs[nat (set_Pos s) := set_Data s] = xs" by (simp add: list_update_beyond)
    then show ?thesis using Cons False by auto
  qed
qed simp

lemma add_changes_length [simp]: "length (add_changes xs cs) = length xs"
  by (induction xs cs rule: add_changes.induct) auto

lemma add_sort_length [simp]: "length (add_sort xs cs) = length xs"
  by (induction xs cs rule: add_sort.induct) auto

text \<open>What the entry becomes; it moves when its sort data may change.\<close>

definition moves :: "'d IncreaseRankData \<Rightarrow> 'd RankData \<Rightarrow> bool" where
  "moves c e \<longleftrightarrow> sort_changes (inc_IncreaseSortData c) (rd_SortData e) \<or> (\<exists>s \<in> set (inc_SetSortAndExtendData c). set_IsSortData s)"

definition moved_entry :: "bool \<Rightarrow> int \<Rightarrow> 'd IncreaseRankData \<Rightarrow> 'd RankData \<Rightarrow> 'd RankData" where
  "moved_entry des now c e =
     (new_entry des \<lparr>up_Key = rd_Key e, up_SortData = fix_values True (inc_SetSortAndExtendData c) (add_changes (rd_SortData e) (inc_IncreaseSortData c)),
        up_Data = rd_Data e, up_ExData = []\<rparr> now)\<lparr>rd_ExData := rd_ExData e\<rparr>"

definition changed_entry :: "bool \<Rightarrow> int \<Rightarrow> 'd IncreaseRankData \<Rightarrow> 'd RankData \<Rightarrow> 'd RankData" where
  "changed_entry des now c e =
     (let e' = (if moves c e then moved_entry des now c e else e)
      in e'\<lparr>rd_ExData := fix_values False (inc_SetSortAndExtendData c) (add_increments (rd_ExData e) (inc_Extend c))\<rparr>)"

lemma move_entry_ok:
  assumes ok: "rank_ok n rs es T" and len: "length es < 2 ^ 64 - 1" and a: "mapRankData rs k = Some a" and b: "env_rd env \<notin> set es"
    and pos: "\<And>s. s \<in> set (inc_SetSortAndExtendData c) \<Longrightarrow> 0 \<le> set_Pos s"
  shows "\<exists>rs' es'. move_entry env now c a rs = Some (Inr rs') \<and> rank_ok n rs' es' T \<and>
    board rs' = (board rs)(k \<mapsto> moved_entry (isDes rs) now c (rd_store rs a)) \<and> rs_conf rs' = rs_conf rs \<and>
    rankDataExpire rs' = rankDataExpire rs \<and> mapRankData rs' = (mapRankData rs)(k \<mapsto> env_rd env) \<and> length es' = length es"
proof -
  note D = rank_okD [OF ok]
  let ?b = "env_rd env"
  define old e where "old = rd_store rs a" and "e = moved_entry (isDes rs) now c old"
  have a': "a \<in> set es" "rd_Key old = k" "rd_ref old" using D(6) [OF a] by (auto simp: old_def)
  have nb: "?b \<noteq> a" using b a'(1) by auto
  have en: "rd_Key e = k" "rd_ref e" "rd_compareDes e = Some (isDes rs)" "length (rd_SortData e) = n"
    using a'(1,2) D(1) by (auto simp: e_def moved_entry_def new_entry_def list_ok_def rank_set_def old_def)
  define R1 where "R1 = (rd_store rs)(?b := e)"
  define rs1 where "rs1 = rs\<lparr>rd_store := R1\<rparr>"
  have l1: "list_ok n (rd_store rs1) (isDes rs1) (skipList rs1) es" using D(1) b by (subst list_ok_cong [of es _ "rd_store rs"]) (auto simp: rs1_def R1_def)
  obtain sl' es' where d: "rs_Delete a rs1 = Some (Inr (rs1\<lparr>skipList := sl'\<rparr>))"
    "list_ok n (R1(a := emptyRankData)) (isDes rs) sl' es'" "set es' = set es - {a}" "Suc (length es') = length es"
    using rs_Leave_ok [OF l1 a'(1)] a'(3) nb by (auto simp: rs1_def R1_def old_def)
  define rs2 where "rs2 = rs1\<lparr>skipList := sl', rd_store := R1(a := emptyRankData)\<rparr>"
  have rel: "rs_Release a (rs1\<lparr>skipList := sl'\<rparr>) = Some (Inr rs2)"
    using rs_Release_ok [of "rs1\<lparr>skipList := sl'\<rparr>" a] a'(3) nb by (simp add: rs1_def rs2_def R1_def old_def)
  have "x \<in> set es \<Longrightarrow> rd_Key (rd_store rs x) = k \<Longrightarrow> x = a" for x using mapRankData_iff [OF ok, of k x] a by simp
  then have s1: "set es' = {x \<in> set es. rd_Key (rd_store rs x) \<noteq> k}" using a'(2) unfolding d(3) old_def by auto
  have nb': "?b \<notin> set es'" using b d(3) by simp
  have other: "rd_Key ((R1(a := emptyRankData)) x) \<noteq> rd_Key e" if "x \<in> set es'" for x
    using that nb' s1 d(3) en(1) by (auto simp: R1_def)
  have "list_ok n ((R1(a := emptyRankData))(?b := e)) (isDes rs) sl' es'" "rank_set ((R1(a := emptyRankData))(?b := e)) n (isDes rs) (insert ?b (set es'))"
    using list_ok_new [OF d(2) nb' en(3,4) other] by blast+
  moreover have R2: "(R1(a := emptyRankData))(?b := e) = rd_store rs2" using nb by (auto simp: rs2_def R1_def fun_eq_iff)
  ultimately have l2: "list_ok n (rd_store rs2) (isDes rs2) (skipList rs2) es'" "rank_set (rd_store rs2) n (isDes rs2) (insert ?b (set es'))"
    by (simp_all add: rs2_def rs1_def)
  have "?b \<notin> set es'" "length es' < 2 ^ 64 - 1" using b d(3,4) len by auto
  from rs_Insert_ok [OF l2 this, of "env_toss env"] obtain sl'' es'' where
    i: "rs_Insert (env_toss env) ?b rs2 = Some (Inr (rs2\<lparr>skipList := sl''\<rparr>))" "list_ok n (rd_store rs2) (isDes rs2) sl'' es''"
      "set es'' = insert ?b (set es')" "length es'' = Suc (length es')" by blast
  define rs3 where "rs3 = rs2\<lparr>skipList := sl'', mapRankData := (mapRankData rs)(k \<mapsto> ?b)\<rparr>"
  have R3: "rd_store rs3 = (\<lambda>x. if x = ?b then e else if x \<in> set es - set es' then emptyRankData else rd_store rs x)"
    using nb a'(1) d(3) by (simp add: rs3_def rs2_def R1_def fun_eq_iff)
  have mo: "map_ok rs es" using ok by (simp add: rank_ok_but_def)
  have m3: "mapRankData rs3 = (mapRankData rs)(k \<mapsto> ?b)" by (simp add: rs3_def)
  have "map_ok rs3 es''" "board rs3 = (board rs)(k \<mapsto> e)"
    using map_ok_move [OF mo \<open>?b \<notin> set es'\<close> s1 en(1,2) m3 R3 i(3)] by simp_all
  moreover have "expire_ok rs3 T {0}"
  proof -
    have "dom (mapRankData rs3) = dom (mapRankData rs)" using m3 a by auto
    then show ?thesis using D(2,3,4,5) by (simp add: expire_ok_def rs3_def rs2_def rs1_def)
  qed
  moreover have "list_ok n (rd_store rs3) (isDes rs3) (skipList rs3) es''" using i(2) by (simp add: rs3_def)
  moreover have "move_entry env now c a rs = Some (Inr rs3)"
  proof -
    define up where "up = \<lparr>up_Key = k, up_SortData = fix_values True (inc_SetSortAndExtendData c) (add_changes (rd_SortData old) (inc_IncreaseSortData c)),
        up_Data = rd_Data old, up_ExData = []\<rparr>"
    have nw: "rs_New ?b up now rs = Some (Inr (rs\<lparr>rd_store := (rd_store rs)(?b := new_entry (isDes rs) up now)\<rparr>))" using rs_New_ok D(8) [OF b] by blast
    let ?rs = "rs\<lparr>rd_store := (rd_store rs)(?b := new_entry (isDes rs) up now)\<rparr>"
    have e': "upd_rd ?b (\<lambda>d. d\<lparr>rd_ExData := rd_ExData d @ rd_ExData (rd_store ?rs a)\<rparr>) ?rs = rs1"
      using a'(2) nb by (simp add: rs1_def R1_def e_def moved_entry_def upd_rd_def up_def new_entry_def old_def)
    have "move_entry env now c a rs = gbind (rs_New ?b up now rs) (\<lambda>rs.
        gbind (rs_Delete a (upd_rd ?b (\<lambda>d. d\<lparr>rd_ExData := rd_ExData d @ rd_ExData (rd_store rs a)\<rparr>) rs)) (\<lambda>rs.
        gbind (rs_Release a rs) (\<lambda>rs.
        gbind (rs_Insert (env_toss env) ?b rs) (\<lambda>rs. Some (Inr (rs\<lparr>mapRankData := (mapRankData rs)(k \<mapsto> ?b)\<rparr>))))))"
      using a'(2) by (simp add: move_entry_def set_fixed_ok [OF pos] Let_def up_def old_def)
    also have "\<dots> = Some (Inr rs3)"
      unfolding nw gbind_simps e' d(1) rel i(1) by (simp add: rs3_def rs2_def rs1_def)
    finally show ?thesis .
  qed
  ultimately show ?thesis using i(4) d(4) m3
    by (intro exI [of _ rs3] exI [of _ es'']) (simp add: rank_ok_but_def rs3_def rs2_def rs1_def rs_conf_def e_def old_def)
qed

lemma ChangeExtendData_known:
  assumes ok: "rank_ok n rs es T" and m: "rankModule rs" and len: "length es < 2 ^ 64 - 1" and e: "board rs (inc_Key c) = Some e"
    and b: "env_rd env \<notin> set es" and ed: "T (inc_Key c) = None \<Longrightarrow> \<not> ed_ref (ed_store (rankDataExpire rs) (env_ed env))"
    and pos: "\<And>s. s \<in> set (inc_SetSortAndExtendData c) \<Longrightarrow> 0 \<le> set_Pos s"
  shows "\<exists>rs' es'. ChangeExtendData env now c rs = Some (Inr (True, rs')) \<and> rank_ok n rs' es' (T(inc_Key c \<mapsto> now)) \<and>
    board rs' = (board rs)(inc_Key c \<mapsto> changed_entry (isDes rs) now c e) \<and> rs_conf rs' = rs_conf rs \<and> length es' = length es"
proof -
  let ?k = "inc_Key c"
  obtain a where a: "mapRankData rs ?k = Some a" "e = rd_store rs a" using e by (auto simp: board_def)
  define x e1 where "x = (if moves c e then env_rd env else a)" and "e1 = (if moves c e then moved_entry (isDes rs) now c e else e)"
  obtain rs1 es1 where r: "(if moves c e then move_entry env now c a rs else Some (Inr rs)) = Some (Inr rs1)" "rank_ok n rs1 es1 T"
    "board rs1 = (board rs)(?k \<mapsto> e1)" "rs_conf rs1 = rs_conf rs" "rankDataExpire rs1 = rankDataExpire rs"
    "mapRankData rs1 ?k = Some x" "length es1 = length es"
  proof (cases "moves c e")
    case True
    from move_entry_ok [where c = c and now = now, OF ok len a(1) b pos] obtain rs' es' where
      "move_entry env now c a rs = Some (Inr rs')" "rank_ok n rs' es' T" "board rs' = (board rs)(?k \<mapsto> moved_entry (isDes rs) now c e)"
      "rs_conf rs' = rs_conf rs" "rankDataExpire rs' = rankDataExpire rs" "mapRankData rs' = (mapRankData rs)(?k \<mapsto> env_rd env)"
      "length es' = length es" using a(2) by blast
    then show ?thesis using True by (intro that [of rs' es']) (simp_all add: x_def e1_def)
  next
    case False
    then show ?thesis using ok a e that [of rs es] by (auto simp: x_def e1_def fun_upd_idem)
  qed
  have x: "x \<in> set es1" "?k = rd_Key (rd_store rs1 x)" "rd_ref (rd_store rs1 x)" "rd_store rs1 x = e1"
    using rank_okD(6) [OF r(2,6)] fun_cong [OF r(3), of ?k] r(6) by (auto simp: board_def [of rs1])
  have m1: "rankModule rs1" using rs_confD(4) [OF r(4)] m by simp
  define ex where "ex = fix_values False (inc_SetSortAndExtendData c) (add_increments (rd_ExData e1) (inc_Extend c))"
  have ee: "rd_ExData e1 = rd_ExData e" by (simp add: e1_def moved_entry_def)
  define rs2 where "rs2 = upd_rd x (\<lambda>d. d\<lparr>rd_ExData := ex\<rparr>) rs1"
  have u: "rank_ok n rs2 es1 T" "board rs2 = (board rs1)(?k \<mapsto> e1\<lparr>rd_ExData := ex\<rparr>)" "rs_conf rs2 = rs_conf rs1"
    unfolding rs2_def using upset_same [OF r(2) m1 x(1,2), of "\<lambda>d. d\<lparr>rd_ExData := ex\<rparr>"] x by simp_all
  have k2: "rd_Key (rd_store rs2 x) = ?k" using x by (simp add: rs2_def upd_rd_def)
  obtain rs3 where p: "rs_Push (env_ed env) ?k now rs2 = Some (Inr rs3)" "rank_ok n rs3 es1 (T(?k \<mapsto> now))" "board rs3 = board rs2"
    "rs_conf rs3 = rs_conf rs2" using rs_push_step [OF u(1), of ?k "env_ed env" now] r(5,6) ed by (auto simp: rs2_def upd_rd_def)
  have m3: "rankModule rs3" using rs_confD(4) m1 p(4) u(3) by metis
  define rs4 where "rs4 = rs3\<lparr>rs_log := rs_log rs3 @ [OnChangeRankData (rd_store rs3 x)]\<rparr>"
  have nt: "notify (OnChangeRankData (rd_store rs3 x)) rs3 = Some (Inr rs4)" using m3 by (simp add: notify_def rs4_def)
  have sf: "set_fixed q (inc_SetSortAndExtendData c) xs = Inr (fix_values q (inc_SetSortAndExtendData c) xs)" for q xs
    using pos by (intro set_fixed_ok)
  have "ChangeExtendData env now c rs = Some (Inr (True, rs4))"
    unfolding ChangeExtendData_def a(1) option.case Let_def a(2) [symmetric] moves_def [symmetric] r(1) x_def [symmetric] gbind_simps
      sf x(4) ex_def [symmetric] rs2_def [symmetric] k2 p(1) nt ..
  then show ?thesis using p u r ee by (intro exI [of _ rs4] exI [of _ es1]) (simp add: rs4_def changed_entry_def Let_def e1_def ex_def)
qed


section \<open>An entry that is not there yet\<close>

lemma set_init_ok:
  assumes "\<And>s. s \<in> set ss \<Longrightarrow> 0 \<le> set_Pos s"
  shows "set_init ss srt ex = Inr None \<or> (\<exists>srt' ex'. set_init ss srt ex = Inr (Some (srt', ex')) \<and> length srt' = length srt \<and> length ex' = length ex)"
  using assms
proof (induction ss arbitrary: srt ex)
  case (Cons s ss)
  have p: "0 \<le> set_Pos s" using Cons.prems by simp
  have "slice_set srt (set_Pos s) (set_Data s) = Inr (srt[nat (set_Pos s) := set_Data s])" if "set_Pos s < int (length srt)"
    using p that by (simp add: slice_set_def)
  moreover have "slice_set ex (set_Pos s) (set_Data s, 0) = Inr (ex[nat (set_Pos s) := (set_Data s, 0)])" if "set_Pos s < int (length ex)"
    using p that by (simp add: slice_set_def)
  ultimately show ?case
    using Cons.IH [of "srt[nat (set_Pos s) := set_Data s]" ex] Cons.IH [of srt "ex[nat (set_Pos s) := (set_Data s, 0)]"] Cons.IH [of srt ex] Cons.prems
    by auto
qed simp

lemma InsertDataOnNonExistent_ok:
  assumes ok: "rank_ok n rs es T" and m: "rankModule rs" and len: "length es < 2 ^ 64 - 1" and k: "board rs (inc_Key c) = None"
    and n: "length (inc_InitSortData c) = n" and b: "env_rd env \<notin> set es" and ed: "\<not> ed_ref (ed_store (rankDataExpire rs) (env_ed env))"
    and pos: "\<And>s. s \<in> set (inc_SetSortAndExtendData c) \<Longrightarrow> 0 \<le> set_Pos s"
  shows "InsertDataOnNonExistent env now c rs = Some (Inr (False, rs)) \<or>
    (\<exists>rs' es' e. InsertDataOnNonExistent env now c rs = Some (Inr (True, rs')) \<and> inc_InsertDataOnNonExistent c \<and>
      rank_ok n rs' es' (T(inc_Key c \<mapsto> now)) \<and> board rs' = (board rs)(inc_Key c \<mapsto> e) \<and> rd_Key e = inc_Key c \<and> rd_Data e = inc_InitData c \<and>
      rs_conf rs' = rs_conf rs \<and> length es' = Suc (length es))"
proof (cases "inc_InsertDataOnNonExistent c")
  case False
  then show ?thesis by (simp add: InsertDataOnNonExistent_def)
next
  case True
  let ?init = "set_init (inc_SetSortAndExtendData c) (add_sort (inc_InitSortData c) (inc_IncreaseSortData c)) (inc_Extend c)"
  consider "?init = Inr None" | srt ex where "?init = Inr (Some (srt, ex))" "length srt = n"
    using set_init_ok [of "inc_SetSortAndExtendData c", OF pos] n by fastforce
  then show ?thesis
  proof cases
    case 1
    then show ?thesis by (simp add: InsertDataOnNonExistent_def)
  next
    case (2 srt ex)
    define up where "up = \<lparr>up_Key = inc_Key c, up_SortData = srt, up_Data = inc_InitData c, up_ExData = ex\<rparr>"
    have u: "mapRankData rs (up_Key up) = None" "length (up_SortData up) = n" "up_Key up = inc_Key c" using k 2 by (simp_all add: up_def board_def)
    have eq: "InsertDataOnNonExistent env now c rs = gbind (rs_Enter env up now rs) (\<lambda>rs.
        gbind (rs_Push (env_ed env) (up_Key up) now rs) (\<lambda>rs.
        gbind (notify_unless False (OnChangeRankData (rd_store rs (env_rd env))) rs) (\<lambda>rs. Some (Inr (True, rs)))))"
      using True 2(1) by (simp add: InsertDataOnNonExistent_def up_def notify_unless_def)
    from upset_new [OF ok m len u(1,2) b ed, of now False OnChangeRankData True] obtain rs' es' where
      r: "InsertDataOnNonExistent env now c rs = Some (Inr (True, rs'))" "rank_ok n rs' es' (T(inc_Key c \<mapsto> now))"
        "board rs' = (board rs)(inc_Key c \<mapsto> new_entry (isDes rs) up now)" "rs_conf rs' = rs_conf rs" "length es' = Suc (length es)"
      unfolding eq u(3) by blast
    show ?thesis using r True
      by (intro disjI2 exI [of _ rs'] exI [of _ es'] exI [of _ "new_entry (isDes rs) up now"]) (simp add: new_entry_def up_def)
  qed
qed

end
