(* ===== verification/RankQuery.thy ===== *)
theory RankQuery
  imports RankUpset
begin

text \<open>
  The queries of a rank list: the rank of a key is one more than the number of entries that come before its entry
  (\<open>rank_in\<close>), the entry at a rank is the one with that rank, and the listings return the entries of a range, in order,
  with their ranks.
\<close>

section \<open>Ranks\<close>

text \<open>The order of entries, by their contents.\<close>

definition precedes :: "bool \<Rightarrow> 'd RankData \<Rightarrow> 'd RankData \<Rightarrow> bool" where
  "precedes des x y \<longleftrightarrow>
     (if des then compareMoreThan (rd_SortData x) (rd_SortData y) > 0 \<or> rd_SortData x = rd_SortData y \<and> rd_Key x > rd_Key y
      else compareMoreThan (rd_SortData x) (rd_SortData y) < 0 \<or> rd_SortData x = rd_SortData y \<and> rd_Key x < rd_Key y)"

definition rank_in :: "bool \<Rightarrow> (64 word \<rightharpoonup> 'd RankData) \<Rightarrow> 'd RankData \<Rightarrow> nat" where
  "rank_in des A e = Suc (card {k. \<exists>x. A k = Some x \<and> precedes des x e})"

lemma stands_before_precedes: "stands_before R des a b \<longleftrightarrow> precedes des (R a) (R b)"
  by (simp add: stands_before_def precedes_def Let_def)

lemma rank_of_position:
  assumes ok: "rank_ok_but X n rs es T" and i: "i < length es"
  shows "rank_in (isDes rs) (board rs) (rd_store rs (es ! i)) = Suc i"
proof -
  note D = rank_okD [OF ok]
  let ?K = "\<lambda>a. rd_Key (rd_store rs a)"
  have "{k. \<exists>x. board rs k = Some x \<and> precedes (isDes rs) x (rd_store rs (es ! i))} =
      ?K ` {b \<in> set es. stands_before (rd_store rs) (isDes rs) b (es ! i)}" (is "?A = ?B")
  proof (intro set_eqI iffI)
    fix k assume "k \<in> ?A"
    then obtain a where "mapRankData rs k = Some a" "precedes (isDes rs) (rd_store rs a) (rd_store rs (es ! i))" by (auto simp: board_def)
    then show "k \<in> ?B" using D(6) [of k a] by (auto simp: stands_before_precedes)
  next
    fix k assume "k \<in> ?B"
    then show "k \<in> ?A" using D(7) by (auto simp: stands_before_precedes board_def)
  qed
  also have "\<dots> = ?K ` set (take i es)" using rank_of_entry(3) [OF D(1) i] by simp
  also have "card \<dots> = i"
  proof -
    have "inj_on ?K (set (take i es))" using D(1) set_take_subset [of i es] by (auto simp: list_ok_def rank_set_def inj_on_def)
    then show ?thesis using list_ok_distinct [OF D(1)] i by (simp add: card_image distinct_card)
  qed
  finally show ?thesis by (simp add: rank_in_def)
qed

lemma GetRankNodeData_ok:
  assumes ok: "rank_ok n rs es T" and m: "rankModule rs"
  shows "(board rs k = None \<and> GetRankNodeData clock k rs = Some (Inr ((None, 0), rs))) \<or>
    (\<exists>rs' es' T'. pickExpireKey clock rs = Some (Inr rs') \<and> rank_ok n rs' es' T' \<and>
      (\<forall>e. board rs' k = Some e \<longrightarrow> (\<exists>a r. GetRankNodeData clock k rs = Some (Inr ((Some a, r), rs')) \<and> rd_store rs' a = e \<and>
         of_nat (rank_in (isDes rs) (board rs') e) = r)))"
proof (cases "mapRankData rs k")
  case None
  then show ?thesis by (simp add: GetRankNodeData_def board_def)
next
  case (Some a)
  from pickExpireKey_ok [OF ok m, of clock] obtain rs' es' K L where
    p: "pickExpireKey clock rs = Some (Inr rs')" "rank_ok n rs' es' (T |` (- L))" "board rs' = board rs |` (- K)" "rs_conf rs' = rs_conf rs"
      "mapRankData rs' = mapRankData rs |` (- K)" by metis
  note D = rank_okD [OF p(2)]
  have "\<exists>a r. GetRankNodeData clock k rs = Some (Inr ((Some a, r), rs')) \<and> rd_store rs' a = e \<and> of_nat (rank_in (isDes rs) (board rs') e) = r"
    if e: "board rs' k = Some e" for e
  proof -
    have a': "mapRankData rs' k = Some a" "rd_store rs' a = e"
      using e p(5) Some by (auto simp: board_def restrict_map_def split: if_splits)
    obtain i where i: "i < length es'" "a = es' ! i" using D(6) [OF a'(1)] by (auto simp: in_set_conv_nth)
    have "sl_list (skipList rs') es'" using D(1) by (simp add: list_ok_def)
    then have "GetWithPosition (rd_Compare (rd_store rs')) (skipList rs') a = Some (Inr (Some a, of_nat i))"
      using GetWithPosition_ok [OF _ rank_of_entry(2) [OF D(1) i(1)] refl] rank_of_entry(1) [OF D(1) i(1)] i by simp
    then have "GetRankNodeData clock k rs = Some (Inr ((Some a, of_nat i + 1), rs'))" using Some p(1) by (simp add: GetRankNodeData_def)
    moreover have "rank_in (isDes rs) (board rs') e = Suc i" using rank_of_position [OF p(2) i(1)] a'(2) i(2) rs_confD(1) [OF p(4)] by simp
    ultimately show ?thesis using a'(2) by (intro exI [of _ a] exI [of _ "of_nat i + 1"]) (simp add: add.commute)
  qed
  then show ?thesis using p by blast
qed


text \<open>A key that expires while it is asked for: the entry is given back to the pool before it is looked up.\<close>

lemma reset_position:
  assumes ok: "list_ok n R des sl es" and c: "R c = emptyRankData" and k: "\<And>a. a \<in> set es \<Longrightarrow> rd_Key (R a) \<noteq> 0"
  shows "\<exists>x. GetWithPosition (rd_Compare R) sl c = Some (Inr (x, 0))"
proof -
  have sl: "sl_list sl es" using ok by (simp add: list_ok_def)
  have cmp: "rd_Compare R a c = (if des then - 1 else 1)" if "a \<in> set es" for a
  proof -
    have "compareMoreThan (rd_SortData (R a)) [] = 0" "compareMoreThan [] (rd_SortData (R a)) = 0" by (cases "rd_SortData (R a)"; simp)+
    moreover have "rd_compareDes (R a) = Some des" using ok that by (auto simp: list_ok_def rank_set_def)
    moreover have "rd_Key (R a) > 0" using k [OF that] by (simp add: word_neq_0_conv)
    ultimately show ?thesis using k [OF that] c
      by (auto simp: rd_Compare_def ascCompare_def desCompare_def emptyRankData_def Let_def)
  qed
  have r: "rank_of (rd_Compare R) c es = (if des then length es else 0)"
  proof (cases des)
    case True
    then have "\<forall>e \<in> set es. rd_Compare R e c < 0" using cmp by simp
    then have "takeWhile (\<lambda>e. rd_Compare R e c < 0) es = es" by (simp only: takeWhile_eq_all_conv)
    then have "rank_of (rd_Compare R) c es = length es" unfolding rank_of_def by (rule arg_cong)
    then show ?thesis using True by simp
  next
    case False
    then have "takeWhile (\<lambda>e. rd_Compare R e c < 0) es = []" using cmp by (cases es) auto
    then show ?thesis using False by (simp add: rank_of_def)
  qed
  have "cut (rd_Compare R) c es" using cmp r by (auto simp: cut_def)
  from GetWithPosition_ok [OF sl this refl] r show ?thesis by (auto split: if_splits)
qed

lemma GetRankNodeData_expired:
  assumes ok: "rank_ok n rs es T" and m: "rankModule rs" and k: "board rs k \<noteq> None" and z: "0 \<notin> dom (board rs)"
    and p: "pickExpireKey clock rs = Some (Inr rs')" and g: "board rs' k = None"
  shows "\<exists>a. GetRankNodeData clock k rs = Some (Inr ((Some a, 1), rs')) \<and> rd_store rs' a = emptyRankData"
proof -
  from pickExpireKey_ok [OF ok m, of clock] p obtain es' K L where
    q: "rank_ok n rs' es' (T |` (- L))" "mapRankData rs' = mapRankData rs |` (- K)" by (metis Inr_inject option.inject)
  note D = rank_okD [OF q(1)]
  obtain a where a: "mapRankData rs k = Some a" using k by (auto simp: board_def)
  have "a \<notin> set es'"
  proof
    assume "a \<in> set es'"
    define k' where "k' = rd_Key (rd_store rs' a)"
    have k': "mapRankData rs' k' = Some a" using D(7) [OF \<open>a \<in> set es'\<close>] by (simp add: k'_def)
    then have "mapRankData rs k' = Some a" using q(2) by (auto simp: restrict_map_def split: if_splits)
    then have "k' = k" using rank_okD(6) [OF ok] a by metis
    then show False using k' g by (simp add: board_def)
  qed
  then have c: "rd_store rs' a = emptyRankData" by (rule D(8))
  have "rd_Key (rd_store rs' b) \<noteq> 0" if "b \<in> set es'" for b
  proof
    assume "rd_Key (rd_store rs' b) = 0"
    then have "mapRankData rs' 0 = Some b" using D(7) [OF that] by simp
    then have "mapRankData rs 0 = Some b" using q(2) by (auto simp: restrict_map_def split: if_splits)
    then show False using z by (simp add: domIff)
  qed
  then obtain x where "GetWithPosition (rd_Compare (rd_store rs')) (skipList rs') a = Some (Inr (x, 0))"
    using reset_position [OF D(1) c] by blast
  then show ?thesis using a p c by (intro exI [of _ a]) (simp add: GetRankNodeData_def)
qed

lemma GetRankNodeDataByRank_ok:
  assumes ok: "rank_ok n rs es T" and m: "rankModule rs"
  shows "\<exists>rs' es' T'. pickExpireKey clock rs = Some (Inr rs') \<and> rank_ok n rs' es' T' \<and>
    (if 1 \<le> unat r \<and> unat r \<le> card (dom (board rs'))
     then \<exists>a e. GetRankNodeDataByRank clock r rs = Some (Inr ((Some a, r), rs')) \<and> rd_store rs' a = e \<and>
            board rs' (rd_Key e) = Some e \<and> rank_in (isDes rs) (board rs') e = unat r
     else GetRankNodeDataByRank clock r rs = Some (Inr ((None, 0), rs')))"
proof -
  from pickExpireKey_ok [OF ok m, of clock] obtain rs' es' K L where
    p: "pickExpireKey clock rs = Some (Inr rs')" "rank_ok n rs' es' (T |` (- L))" "rs_conf rs' = rs_conf rs" by metis
  note D = rank_okD [OF p(2)]
  have sl: "sl_list (skipList rs') es'" using D(1) by (simp add: list_ok_def)
  have c: "card (dom (board rs')) = length es'" by (rule rank_ok_card(1) [OF p(2)])
  have bp: "GetRankNodeDataByRank clock r rs =
      Some (Inr (if unat (r - 1) < length es' then (Some (es' ! unat (r - 1)), r) else (None, 0), rs'))"
    using p(1) ByPosition_ok [OF sl, of "r - 1"] by (simp add: GetRankNodeDataByRank_def)
  have le: "1 \<le> unat r \<and> unat r \<le> length es' \<longleftrightarrow> unat (r - 1) < length es'"
  proof (cases "r = 0")
    case True
    then have "unat (r - 1) = 2 ^ 64 - 1" by (simp add: unsigned_minus_1_eq_mask mask_eq_exp_minus_1)
    then show ?thesis using True sl_list_Len(2) [OF sl] by simp
  next
    case False
    then show ?thesis using unat_minus_one [of r] unat_gt_0 [of r] by auto
  qed
  have "\<exists>a e. GetRankNodeDataByRank clock r rs = Some (Inr ((Some a, r), rs')) \<and> rd_store rs' a = e \<and>
        board rs' (rd_Key e) = Some e \<and> rank_in (isDes rs) (board rs') e = unat r" if i: "unat (r - 1) < length es'"
  proof -
    have "r \<noteq> 0" using le i by (metis not_one_le_zero unat_0)
    then have "Suc (unat (r - 1)) = unat r" using unat_minus_one [of r] unat_gt_0 [of r] by simp
    moreover have "rank_in (isDes rs) (board rs') (rd_store rs' (es' ! unat (r - 1))) = Suc (unat (r - 1))"
      using rank_of_position [OF p(2) i] rs_confD(1) [OF p(3)] by simp
    moreover have "board rs' (rd_Key (rd_store rs' (es' ! unat (r - 1)))) = Some (rd_store rs' (es' ! unat (r - 1)))"
      using D(7) [of "es' ! unat (r - 1)"] i by (simp add: board_def)
    ultimately show ?thesis using bp i by simp
  qed
  then show ?thesis using p c le bp by (intro exI [of _ rs'] exI [of _ es'] exI [of _ "T |` (- L)"]) auto
qed

section \<open>Listings\<close>

lemma collect_same_step: "step it = step it' \<Longrightarrow> collect step f rs m c it = collect step f rs m c it'"
  by (cases m) simp_all

lemma node_entry:
  assumes "sl_rep sl ns" "Suc i < length ns"
  shows "iter_Value sl \<lparr>it_first = b, it_n = Some (ns ! Suc i)\<rparr> = Some (sl_entries sl ns ! i)"
  using entries_nth(3) [OF assms(1), of i] assms(2) by (simp add: iter_Value_def)

lemma collect_Next:
  assumes rep: "sl_rep (skipList rs) ns" and es: "sl_entries (skipList rs) ns = es"
  shows "iter_at ns it k \<Longrightarrow> collect (iter_Next (skipList rs)) f rs m c it =
    Inr (map (\<lambda>j. pos_data rs (es ! (k + j)) (f (c + of_nat j))) [0..<min m (length es - k)])"
proof (induction m arbitrary: it k c)
  case 0
  then show ?case using iter_Next_ok [OF rep] by simp
next
  case (Suc m)
  note N = entries_nth(1) [OF rep, unfolded es] and st = iter_Next_ok [OF rep Suc.prems]
  show ?case
  proof (cases "Suc k < length ns")
    case True
    have it: "it\<lparr>it_n := Some (ns ! Suc k)\<rparr> = \<lparr>it_first = False, it_n = Some (ns ! Suc k)\<rparr>" using Suc.prems by (simp add: iter_at_def)
    have "iter_at ns \<lparr>it_first = False, it_n = Some (ns ! Suc k)\<rparr> (Suc k)" using True by (simp add: iter_at_def)
    note ih = Suc.IH [OF this, of "c + 1"]
    have mn: "min (Suc m) (length es - k) = Suc (min m (length es - Suc k))" using True N by auto
    show ?thesis unfolding mn using True st ih node_entry [OF rep True] es it
      by (simp add: map_upt_Suc add.assoc del: upt_Suc)
  next
    case False
    then show ?thesis using st N by simp
  qed
qed

lemma collect_Prev:
  assumes rep: "sl_rep (skipList rs) ns" and es: "sl_entries (skipList rs) ns = es"
  shows "iter_at ns it (Suc i) \<Longrightarrow> collect (\<lambda>it. Inr (iter_Prev (skipList rs) it)) f rs m c it =
    Inr (map (\<lambda>j. pos_data rs (es ! (i - Suc j)) (f (c + of_nat j))) [0..<min m i])"
proof (induction m arbitrary: it i c)
  case (Suc m)
  note st = iter_Prev_ok [OF rep Suc.prems]
  show ?case
  proof (cases i)
    case 0
    then show ?thesis using st by simp
  next
    case (Suc i')
    have len: "Suc i < length ns" using Suc.prems by (simp add: iter_at_def)
    have it: "it\<lparr>it_n := Some (ns ! Suc i')\<rparr> = \<lparr>it_first = False, it_n = Some (ns ! Suc i')\<rparr>" using Suc.prems by (simp add: iter_at_def)
    have "iter_at ns \<lparr>it_first = False, it_n = Some (ns ! Suc i')\<rparr> (Suc i')" using len Suc by (simp add: iter_at_def)
    note ih = Suc.IH [OF this, of "c + 1"]
    have ne: "iter_Value (skipList rs) \<lparr>it_first = False, it_n = Some (ns ! Suc i')\<rparr> = Some (es ! i')"
      using node_entry [OF rep, of i'] es len Suc by simp
    show ?thesis using st ih ne it Suc by (simp add: map_upt_Suc add.assoc del: upt_Suc)
  qed
qed simp

text \<open>The entries from position \<open>i\<close> on.\<close>

lemma collect_from:
  assumes rep: "sl_rep (skipList rs) ns" and es: "sl_entries (skipList rs) ns = es"
  shows "collect (iter_Next (skipList rs)) f rs m 0 (iter_from ns i) =
    Inr (map (\<lambda>j. pos_data rs (es ! (i + j)) (f (of_nat j))) [0..<min m (length es - i)])"
proof (cases "Suc i < length ns")
  case True
  have "iter_at ns \<lparr>it_first = False, it_n = Some (ns ! i)\<rparr> i" using True by (simp add: iter_at_def)
  note a = collect_Next [OF rep es this, of f m 0] and st = iter_Next_ok [OF rep this]
  have "iter_Next (skipList rs) (iter_from ns i) = iter_Next (skipList rs) \<lparr>it_first = False, it_n = Some (ns ! i)\<rparr>"
    using iter_from_step(1) [OF True] st True by simp
  from collect_same_step [OF this, of f rs m 0] a show ?thesis by simp
next
  case False
  then have "length es - i = 0" using entries_nth(1) [OF rep] es by simp
  then show ?thesis using False by (cases m) (simp_all add: iter_from_def nilIterator_def iter_Next_def)
qed

lemma collect_back:
  assumes rep: "sl_rep (skipList rs) ns" and es: "sl_entries (skipList rs) ns = es" and i: "i < length es"
  shows "collect (\<lambda>it. Inr (iter_Prev (skipList rs) it)) f rs m 0 (iter_from ns i) =
    Inr (map (\<lambda>j. pos_data rs (es ! (i - j)) (f (of_nat j))) [0..<min m (Suc i)])"
proof -
  have len: "Suc i < length ns" using entries_nth(1) [OF rep] es i by simp
  have "iter_at ns \<lparr>it_first = False, it_n = Some (ns ! Suc i)\<rparr> (Suc i)" using len by (simp add: iter_at_def)
  note a = collect_Prev [OF rep es this, of f _ 1]
  show ?thesis
  proof (cases m)
    case 0
    then show ?thesis using iter_from_step(2) [OF len, of "skipList rs"] by simp
  next
    case (Suc m')
    show ?thesis unfolding Suc using iter_from_step(2) [OF len, of "skipList rs"] a node_entry [OF rep len] es
      by (simp add: map_upt_Suc del: upt_Suc)
  qed
qed


text \<open>\<open>listing rs ps\<close>: the entries at the positions \<open>ps\<close>, with their ranks.\<close>

definition listing :: "'d RankSkip \<Rightarrow> nat list \<Rightarrow> nat list \<Rightarrow> 'd RankPosData list" where
  "listing rs es ps = map (\<lambda>i. pos_data rs (es ! i) (of_nat (Suc i))) ps"

lemma GetRankKeyPrevToLimit_ok:
  assumes ok: "rank_ok n rs es T" and e: "board rs k = Some e"
  shows "\<exists>i < length es. rank_in (isDes rs) (board rs) e = Suc i \<and> rd_store rs (es ! i) = e \<and>
    GetRankKeyPrevToLimit k c rs = Some (Inr (Some (listing rs es (map (\<lambda>j. i - j) [0..<min (unat c) (Suc i)]))))"
    (is "\<exists>i < length es. ?P i \<and> ?E i \<and> ?Q i")
    and "\<exists>i < length es. rank_in (isDes rs) (board rs) e = Suc i \<and> rd_store rs (es ! i) = e \<and>
    GetRankKeyNextToLimit k c rs = Some (Inr (Some (listing rs es (map (\<lambda>j. i + j) [0..<min (unat c) (length es - i)]))))"
    (is "\<exists>i < length es. ?P i \<and> ?E i \<and> ?R i")
proof -
  note D = rank_okD [OF ok]
  obtain a where a: "mapRankData rs k = Some a" "rd_store rs a = e" using e by (auto simp: board_def)
  obtain i where i: "i < length es" "es ! i = a" using D(6) [OF a(1)] by (auto simp: in_set_conv_nth)
  have sl: "sl_list (skipList rs) es" using D(1) by (simp add: list_ok_def)
  obtain ns where ns: "sl_rep (skipList rs) ns" "sl_entries (skipList rs) ns = es" using sl by (auto simp: sl_list_def)
  note E = rank_of_entry(1,2) [OF D(1) i(1), unfolded i(2)]
  have gw: "GetWithPosition (rd_Compare (rd_store rs)) (skipList rs) a = Some (Inr (Some a, of_nat i))"
    using GetWithPosition_ok [OF sl E(2) refl] E(1) i by simp
  have it: "Iter (rd_Compare (rd_store rs)) (skipList rs) a = Some (Inr (iter_from ns i))"
    using Iter_ok [OF ns(1), of "rd_Compare (rd_store rs)" a] E ns(2) by simp
  have ne: "\<not> GetRankLen rs \<le> 0"
    using sl_list_Len [OF sl] i(1) by (auto simp: GetRankLen_def word_le_nat_alt unat_of_nat take_bit_nat_eq_self)
  have "?P i" using rank_of_position [OF ok i(1)] a(2) i(2) by simp
  moreover have "?Q i"
  proof -
    have "of_nat i - of_nat j + 1 = (of_nat (Suc (i - j)) :: 64 word)" if "j \<le> i" for j using that by (simp add: of_nat_diff)
    then have "map (\<lambda>j. pos_data rs (es ! (i - j)) (of_nat i - of_nat j + 1)) [0..<min (unat c) (Suc i)] =
        listing rs es (map (\<lambda>j. i - j) [0..<min (unat c) (Suc i)])" by (auto simp: listing_def add.commute)
    then show ?thesis using ne a(1) gw it collect_back [OF ns i(1), of "\<lambda>k. of_nat i - k + 1" "unat c"]
      by (simp add: GetRankKeyPrevToLimit_def)
  qed
  moreover have "?R i"
  proof -
    have "map (\<lambda>j. pos_data rs (es ! (i + j)) (of_nat i + of_nat j + 1)) [0..<min (unat c) (length es - i)] =
        listing rs es (map (\<lambda>j. i + j) [0..<min (unat c) (length es - i)])" by (simp add: listing_def add.commute add.left_commute)
    then show ?thesis using ne a(1) gw it collect_from [OF ns, of "\<lambda>k. of_nat i + k + 1" "unat c" i]
      by (simp add: GetRankKeyNextToLimit_def)
  qed
  ultimately show "\<exists>i < length es. ?P i \<and> ?E i \<and> ?Q i" "\<exists>i < length es. ?P i \<and> ?E i \<and> ?R i" using i a(2) by auto
qed

lemma GetRankKey_none:
  assumes "rank_ok n rs es T" "board rs k = None"
  shows "GetRankKeyPrevToLimit k c rs = Some (Inr None)" "GetRankKeyNextToLimit k c rs = Some (Inr None)"
  using assms(2) by (simp_all add: GetRankKeyPrevToLimit_def GetRankKeyNextToLimit_def board_def)

lemma GetRankDataFromToLimit_ok:
  assumes ok: "rank_ok n rs es T" and m: "rankModule rs" and ne: "es \<noteq> []" and s: "start = (if rankDataCount < startPos then rankDataCount - 1 else startPos)"
  shows "\<exists>rs' es' T'. pickExpireKey clock rs = Some (Inr rs') \<and> rank_ok n rs' es' T' \<and>
    GetRankDataFromToLimit clock startPos c rankDataCount rs =
      Some (Inr (listing rs' es' (map (\<lambda>j. unat start + j) [0..<min (unat c) (length es' - unat start)]), rs'))"
proof -
  from pickExpireKey_ok [OF ok m, of clock] obtain rs' es' K L where
    p: "pickExpireKey clock rs = Some (Inr rs')" "rank_ok n rs' es' (T |` (- L))" "rs_conf rs' = rs_conf rs" by metis
  note D = rank_okD [OF p(2)]
  have sl: "sl_list (skipList rs) es" using rank_okD(1) [OF ok] by (simp add: list_ok_def)
  have "\<not> GetRankLen rs \<le> 0"
    using sl_list_Len [OF sl] ne by (auto simp: GetRankLen_def word_le_nat_alt unat_of_nat take_bit_nat_eq_self)
  moreover obtain ns where ns: "sl_rep (skipList rs') ns" "sl_entries (skipList rs') ns = es'" using D(1) by (auto simp: list_ok_def sl_list_def)
  moreover have "map (\<lambda>j. pos_data rs' (es' ! (unat start + j)) (of_nat j + start + 1)) [0..<min (unat c) (length es' - unat start)] =
      listing rs' es' (map (\<lambda>j. unat start + j) [0..<min (unat c) (length es' - unat start)])" by (simp add: listing_def algebra_simps)
  ultimately have "GetRankDataFromToLimit clock startPos c rankDataCount rs =
      Some (Inr (listing rs' es' (map (\<lambda>j. unat start + j) [0..<min (unat c) (length es' - unat start)]), rs'))"
    using p(1) IterAtPosition_ok [OF ns(1), of start] collect_from [OF ns, of "\<lambda>k. k + start + 1" "unat c" "unat start"] s
    by (simp add: GetRankDataFromToLimit_def Let_def)
  then show ?thesis using p by blast
qed

end
