(* ===== verification/RankService.thy ===== *)
theory RankService
  imports RankQuery
begin

text \<open>
  \<^verbatim>\<open>sysservice/rankservice/RankService.go\<close>: the service that keeps rank lists by id and answers the RPC calls. A call
  returns its error or its result together with the new state. What the rank module's \<^verbatim>\<open>OnSetupRank\<close> returns is an
  argument; numbers of the configuration are integers.
\<close>

section \<open>State\<close>

datatype svc_error =
    MustHaveRankId
  | NoThisRank "64 word"
  | NoThisKey "64 word" "64 word"
  | CfgError string
  | SetupError string

datatype cfg = CNum int | CStr string | CBool bool | CList "cfg list" | CMap "(string \<times> cfg) list" | CNil

datatype svc_event = OnSetupRank bool "64 word" | OnStartModule | OnStopModule "64 word set"

record 'd RankService =
  mapRankSkip :: "64 word \<rightharpoonup> 'd RankSkip"
  svc_rankModule :: bool
  svc_log :: "svc_event list"

record RankList =
  rl_RankId :: "64 word"
  rl_RankName :: string
  rl_SkipListLevel :: int
  rl_IsDec :: bool
  rl_MaxRank :: "64 word"
  rl_ExpireMs :: int

record RankResult =
  rr_AddCount :: nat
  rr_ModifyCount :: nat
  rr_RemoveCount :: nat
  rr_NewRank :: "(64 word \<times> 64 word) list"

definition emptyResult :: RankResult where
  "emptyResult = \<lparr>rr_AddCount = 0, rr_ModifyCount = 0, rr_RemoveCount = 0, rr_NewRank = []\<rparr>"

type_synonym ('r, 'd) rpc = "((svc_error + 'r) \<times> 'd RankService) go option"

section \<open>Setting up\<close>

definition svc_SetupRankModule :: "bool \<Rightarrow> 'd RankService \<Rightarrow> 'd RankService" where
  "svc_SetupRankModule m svc = svc\<lparr>svc_rankModule := m\<rparr>"

definition tell :: "svc_event \<Rightarrow> 'd RankService \<Rightarrow> 'd RankService go option" where
  "tell ev svc = Some (if svc_rankModule svc then Inr (svc\<lparr>svc_log := svc_log svc @ [ev]\<rparr>) else Inl NilDereference)"

definition svc_OnStart :: "'d RankService \<Rightarrow> 'd RankService go option" where
  "svc_OnStart svc = tell OnStartModule svc"

definition svc_OnRelease :: "'d RankService \<Rightarrow> 'd RankService go option" where
  "svc_OnRelease svc = tell (OnStopModule (dom (mapRankSkip svc))) svc"

text \<open>Make a rank list, give it the module, enter it in the map and tell the module.\<close>

definition add_rank :: "bool \<Rightarrow> RankList \<Rightarrow> 'd RankService \<Rightarrow> 'd RankService go option" where
  "add_rank manual rl svc =
     gbind (Some (NewRankSkip (rl_RankId rl) (rl_RankName rl) (rl_IsDec rl) (transformLevel (rl_SkipListLevel rl)) (rl_MaxRank rl)
              (wrap64 (rl_ExpireMs rl * 1000000)))) (\<lambda>newSkip.
     tell (OnSetupRank manual (rl_RankId rl))
       (svc\<lparr>mapRankSkip := (mapRankSkip svc)(rl_RankId rl \<mapsto> SetupRankModule (svc_rankModule svc) newSkip)\<rparr>))"

fun manual_add :: "RankList list \<Rightarrow> 'd RankService \<Rightarrow> (unit, 'd) rpc" where
  "manual_add [] svc = Some (Inr (Inr (), svc))"
| "manual_add (rl # rls) svc =
     (if rl_RankId rl = 0 then Some (Inr (Inl MustHaveRankId, svc))
      else if mapRankSkip svc (rl_RankId rl) \<noteq> None then manual_add rls svc
      else gbind (add_rank True rl svc) (manual_add rls))"

definition RPC_ManualAddRankSkip :: "RankList list \<Rightarrow> 'd RankService \<Rightarrow> (RankResult, 'd) rpc" where
  "RPC_ManualAddRankSkip rls svc =
     gbind (manual_add rls svc) (\<lambda>(r, svc).
     Some (Inr (case r of Inl e \<Rightarrow> Inl e | Inr _ \<Rightarrow> Inr (emptyResult\<lparr>rr_AddCount := 1\<rparr>), svc)))"

definition deleteRankList :: "64 word list \<Rightarrow> 'd RankService \<Rightarrow> 'd RankService" where
  "deleteRankList ids svc = svc\<lparr>mapRankSkip := mapRankSkip svc |` (- set ids)\<rparr>"

text \<open>\<^verbatim>\<open>v, _ := m[k].(float64)\<close> and the like: the zero value when the key is missing or the type differs.\<close>

definition cfg_num :: "(string \<times> cfg) list \<Rightarrow> string \<Rightarrow> int option" where
  "cfg_num m k = (case map_of m k of Some (CNum i) \<Rightarrow> Some i | _ \<Rightarrow> None)"

definition cfg_str :: "(string \<times> cfg) list \<Rightarrow> string \<Rightarrow> string option" where
  "cfg_str m k = (case map_of m k of Some (CStr s) \<Rightarrow> Some s | _ \<Rightarrow> None)"

definition cfg_bool :: "(string \<times> cfg) list \<Rightarrow> string \<Rightarrow> bool option" where
  "cfg_bool m k = (case map_of m k of Some (CBool b) \<Rightarrow> Some b | _ \<Rightarrow> None)"

definition num_or_0 :: "int option \<Rightarrow> int" where
  "num_or_0 x = (case x of None \<Rightarrow> 0 | Some i \<Rightarrow> i)"

definition cfg_rank :: "cfg \<Rightarrow> string + RankList" where
  "cfg_rank c =
     (case c of
        CMap m \<Rightarrow>
          (case cfg_num m ''RankID'' of
             None \<Rightarrow> Inl ''RankService SortCfg data must has RankID[number]''
           | Some rid \<Rightarrow>
               if (of_int rid :: 64 word) = 0 then Inl ''RankService SortCfg data must has RankID[number]''
               else case cfg_str m ''RankName'' of
                 None \<Rightarrow> Inl ''RankService SortCfg data must has RankName[string]''
               | Some nm \<Rightarrow>
                   if length nm = 0 then Inl ''RankService SortCfg data must has RankName[string]''
                   else Inr \<lparr>rl_RankId = of_int rid, rl_RankName = nm, rl_SkipListLevel = num_or_0 (cfg_num m ''SkipListLevel''),
                             rl_IsDec = (cfg_bool m ''IsDec'' = Some True), rl_MaxRank = of_int (num_or_0 (cfg_num m ''MaxRank'')),
                             rl_ExpireMs = num_or_0 (cfg_num m ''ExpireMs'')\<rparr>)
      | _ \<Rightarrow> Inl ''RankService SortCfg data must be map or struct'')"

fun deal_list :: "(64 word \<Rightarrow> string option) \<Rightarrow> cfg list \<Rightarrow> 'd RankService \<Rightarrow> (unit, 'd) rpc" where
  "deal_list setup [] svc = Some (Inr (Inr (), svc))"
| "deal_list setup (c # cs) svc =
     (case cfg_rank c of
        Inl msg \<Rightarrow> Some (Inr (Inl (CfgError msg), svc))
      | Inr rl \<Rightarrow>
          gbind (add_rank False rl svc) (\<lambda>svc.
          case setup (rl_RankId rl) of
            Some msg \<Rightarrow> Some (Inr (Inl (SetupError msg), svc))
          | None \<Rightarrow> deal_list setup cs svc))"

definition dealCfg :: "(64 word \<Rightarrow> string option) \<Rightarrow> cfg \<Rightarrow> 'd RankService \<Rightarrow> (unit, 'd) rpc" where
  "dealCfg setup c svc =
     (case c of
        CMap m \<Rightarrow>
          (case map_of m ''SortCfg'' of
             Some (CList cs) \<Rightarrow> deal_list setup cs svc
           | _ \<Rightarrow> Some (Inr (Inl (CfgError ''RankService SortCfg must be list''), svc)))
      | _ \<Rightarrow> Some (Inr (Inr (), svc)))"

text \<open>\<open>added\<close> is the error of \<^verbatim>\<open>AddModule\<close>, which is looked at for an installed module only.\<close>

definition svc_OnInit :: "string option \<Rightarrow> (64 word \<Rightarrow> string option) \<Rightarrow> cfg \<Rightarrow> 'd RankService \<Rightarrow> (unit, 'd) rpc" where
  "svc_OnInit added setup c svc =
     (case (svc_rankModule svc, added) of
        (True, Some msg) \<Rightarrow> Some (Inr (Inl (SetupError msg), svc))
      | _ \<Rightarrow> dealCfg setup c (svc\<lparr>mapRankSkip := Map.empty\<rparr>))"

section \<open>Calls\<close>

text \<open>Every call looks the rank list up first.\<close>

definition on_rank :: "64 word \<Rightarrow> ('d RankSkip \<Rightarrow> ((svc_error + 'r) \<times> 'd RankSkip) go option) \<Rightarrow> 'd RankService \<Rightarrow> (svc_error + 'r) \<Rightarrow> ('r, 'd) rpc" where
  "on_rank rid f svc missing =
     (case mapRankSkip svc rid of
        None \<Rightarrow> Some (Inr (missing, svc))
      | Some rank \<Rightarrow>
          gbind (f rank) (\<lambda>(r, rank). Some (Inr (r, svc\<lparr>mapRankSkip := (mapRankSkip svc)(rid \<mapsto> rank)\<rparr>))))"

fun find_ranks :: "(nat \<Rightarrow> nat \<Rightarrow> int) \<Rightarrow> 64 word list \<Rightarrow> 'd RankSkip \<Rightarrow> ((64 word \<times> 64 word) list \<times> 'd RankSkip) go option" where
  "find_ranks clock [] rank = Some (Inr ([], rank))"
| "find_ranks clock (k # ks) rank =
     gbind (GetRankNodeData (clock (length ks)) k rank) (\<lambda>((_, r), rank).
     gbind (find_ranks clock ks rank) (\<lambda>(rs, rank). Some (Inr ((k, r) # rs, rank))))"

definition RPC_UpsetRank :: "(nat \<Rightarrow> int) \<Rightarrow> (nat \<Rightarrow> nat \<Rightarrow> int) \<Rightarrow> 64 word \<Rightarrow> (rank_env \<times> int \<times> 'd UpsetData) list \<Rightarrow> bool \<Rightarrow>
    'd RankService \<Rightarrow> (RankResult, 'd) rpc" where
  "RPC_UpsetRank clock clock' rid ups findNewRank svc =
     on_rank rid (\<lambda>rank.
       gbind (UpsetRankList clock ups rank) (\<lambda>((addCount, updateCount), rank).
       gbind (if findNewRank then find_ranks clock' (map (\<lambda>(_, _, up). up_Key up) ups) rank else Some (Inr ([], rank))) (\<lambda>(newRank, rank).
       Some (Inr (Inr \<lparr>rr_AddCount = addCount, rr_ModifyCount = updateCount, rr_RemoveCount = 0, rr_NewRank = newRank\<rparr>, rank)))))
     svc (Inl (NoThisRank rid))"

text \<open>\<^verbatim>\<open>rankData.Key\<close> and the like on the entry \<^verbatim>\<open>GetRankNodeData\<close> returned.\<close>

definition RPC_IncreaseRankData :: "rank_env \<Rightarrow> int \<Rightarrow> (nat \<Rightarrow> int) \<Rightarrow> 64 word \<Rightarrow> 'd IncreaseRankData \<Rightarrow> 'd RankService \<Rightarrow> ('d RankPosData option, 'd) rpc" where
  "RPC_IncreaseRankData env now clock rid c svc =
     on_rank rid (\<lambda>rank.
       gbind (ChangeExtendData env now c rank) (\<lambda>(ret, rank).
       if \<not> ret then Some (Inr (Inl (NoThisKey rid (inc_Key c)), rank))
       else if inc_ReturnRankData c then
         gbind (GetRankNodeData clock (inc_Key c) rank) (\<lambda>((rankData, r), rank).
           case rankData of
             None \<Rightarrow> Some (Inl NilDereference)
           | Some a \<Rightarrow> Some (Inr (Inr (Some (pos_data rank a r)), rank)))
       else Some (Inr (Inr None, rank))))
     svc (Inl (NoThisRank rid))"

definition RPC_UpdateRankData :: "nat \<Rightarrow> int \<Rightarrow> 64 word \<Rightarrow> 64 word \<Rightarrow> 'd option \<Rightarrow> 'd RankService \<Rightarrow> (bool, 'd) rpc" where
  "RPC_UpdateRankData ea now rid key dat svc =
     on_rank rid (\<lambda>rank. gbind (UpdateRankData ea now key dat rank) (\<lambda>(ret, rank). Some (Inr (Inr ret, rank)))) svc (Inr False)"

definition RPC_DeleteRankDataByKey :: "64 word \<Rightarrow> 64 word list \<Rightarrow> 'd RankService \<Rightarrow> (RankResult, 'd) rpc" where
  "RPC_DeleteRankDataByKey rid keys svc =
     on_rank rid (\<lambda>rank. gbind (DeleteRankData keys rank) (\<lambda>(n, rank). Some (Inr (Inr (emptyResult\<lparr>rr_RemoveCount := n\<rparr>), rank))))
     svc (Inl (NoThisRank rid))"

definition found :: "(nat option \<times> 64 word) \<times> 'd RankSkip \<Rightarrow> 'd RankPosData option \<times> 'd RankSkip" where
  "found r = (case r of ((None, _), rank) \<Rightarrow> (None, rank) | ((Some a, i), rank) \<Rightarrow> (Some (pos_data rank a i), rank))"

definition RPC_FindRankDataByKey :: "(nat \<Rightarrow> int) \<Rightarrow> 64 word \<Rightarrow> 64 word \<Rightarrow> 'd RankService \<Rightarrow> ('d RankPosData option, 'd) rpc" where
  "RPC_FindRankDataByKey clock rid key svc =
     on_rank rid (\<lambda>rank. gbind (GetRankNodeData clock key rank) (\<lambda>r. let (p, rank) = found r in Some (Inr (Inr p, rank)))) svc (Inl (NoThisRank rid))"

definition RPC_FindRankDataByRank :: "(nat \<Rightarrow> int) \<Rightarrow> 64 word \<Rightarrow> 64 word \<Rightarrow> 'd RankService \<Rightarrow> ('d RankPosData option, 'd) rpc" where
  "RPC_FindRankDataByRank clock rid r svc =
     on_rank rid (\<lambda>rank. gbind (GetRankNodeDataByRank clock r rank) (\<lambda>r. let (p, rank) = found r in Some (Inr (Inr p, rank)))) svc (Inl (NoThisRank rid))"

text \<open>The length, the entries from \<open>startRank\<close> on, and the entry of \<open>key\<close> when it is not 0.\<close>

definition RPC_FindRankDataList :: "(nat \<Rightarrow> int) \<Rightarrow> (nat \<Rightarrow> int) \<Rightarrow> 64 word \<Rightarrow> 64 word \<Rightarrow> 64 word \<Rightarrow> 64 word \<Rightarrow> 'd RankService \<Rightarrow>
    (64 word \<times> 'd RankPosData list \<times> 'd RankPosData option, 'd) rpc" where
  "RPC_FindRankDataList clock clock' rid startRank cnt key svc =
     on_rank rid (\<lambda>rank.
       let rankDataCount = GetRankLen rank
       in gbind (GetRankDataFromToLimit clock (startRank - 1) cnt rankDataCount rank) (\<lambda>(ps, rank).
          gbind (if key \<noteq> 0 then gbind (GetRankNodeData clock' key rank) (\<lambda>r. Some (Inr (found r))) else Some (Inr (None, rank))) (\<lambda>(p, rank).
          Some (Inr (Inr (rankDataCount, ps, p), rank)))))
     svc (Inl (NoThisRank rid))"


section \<open>The lists of the service\<close>

definition svc_ok :: "(64 word \<Rightarrow> nat) \<Rightarrow> 'd RankService \<Rightarrow> bool" where
  "svc_ok N svc \<longleftrightarrow> svc_rankModule svc \<and>
     (\<forall>rid rank. mapRankSkip svc rid = Some rank \<longrightarrow> rankModule rank \<and> (\<exists>es T. rank_ok (N rid) rank es T))"

lemma on_rank_ok:
  assumes ok: "svc_ok N svc" and f: "\<And>rank es T. mapRankSkip svc rid = Some rank \<Longrightarrow> rank_ok (N rid) rank es T \<Longrightarrow> rankModule rank \<Longrightarrow>
      \<exists>r rank' es' T'. f rank = Some (Inr (r, rank')) \<and> rank_ok (N rid) rank' es' T' \<and> rs_conf rank' = rs_conf rank"
  shows "\<exists>r svc'. on_rank rid f svc missing = Some (Inr (r, svc')) \<and> svc_ok N svc' \<and> dom (mapRankSkip svc') = dom (mapRankSkip svc) \<and>
    (\<forall>rid'. rid' \<noteq> rid \<longrightarrow> mapRankSkip svc' rid' = mapRankSkip svc rid')"
proof (cases "mapRankSkip svc rid")
  case None
  then show ?thesis using ok by (auto simp: on_rank_def)
next
  case (Some rank)
  then obtain es T where r: "rankModule rank" "rank_ok (N rid) rank es T" using ok unfolding svc_ok_def by blast
  from f [OF Some r(2,1)] obtain r rank' es' T' where
    q: "f rank = Some (Inr (r, rank'))" "rank_ok (N rid) rank' es' T'" "rs_conf rank' = rs_conf rank" by blast
  have "rankModule rank'" using rs_confD(4) [OF q(3)] r(1) by simp
  then have "svc_ok N (svc\<lparr>mapRankSkip := (mapRankSkip svc)(rid \<mapsto> rank')\<rparr>)" using ok q(2) by (auto simp: svc_ok_def)
  then show ?thesis using Some q(1) by (intro exI [of _ r] exI [of _ "svc\<lparr>mapRankSkip := (mapRankSkip svc)(rid \<mapsto> rank')\<rparr>"]) (auto simp: on_rank_def)
qed

lemma add_rank_ok:
  assumes ok: "svc_ok N svc" and m: "unat (rl_MaxRank rl) < 2 ^ 31"
  shows "\<exists>svc' rank. add_rank b rl svc = Some (Inr svc') \<and> svc_ok N svc' \<and> mapRankSkip svc' = (mapRankSkip svc)(rl_RankId rl \<mapsto> rank) \<and>
    board rank = Map.empty \<and> rs_maxLen rank = rl_MaxRank rl \<and> isDes rank = rl_IsDec rl \<and> rs_expireMs rank = wrap64 (rl_ExpireMs rl * 1000000)"
proof -
  have l: "transformLevel (rl_SkipListLevel rl) \<in> {8, 16, 32, 64}" by (simp add: transformLevel_def)
  obtain rs :: "'a RankSkip" where rs: "NewRankSkip (rl_RankId rl) (rl_RankName rl) (rl_IsDec rl) (transformLevel (rl_SkipListLevel rl)) (rl_MaxRank rl)
      (wrap64 (rl_ExpireMs rl * 1000000)) = Inr rs" "rank_ok (N (rl_RankId rl)) rs [] Map.empty" "rs_maxLen rs = rl_MaxRank rl" "isDes rs = rl_IsDec rl"
    "rs_expireMs rs = wrap64 (rl_ExpireMs rl * 1000000)"
    using NewRankSkip_ok [OF l m, of "rl_RankId rl" "rl_RankName rl" "rl_IsDec rl" "wrap64 (rl_ExpireMs rl * 1000000)" "N (rl_RankId rl)"] by blast
  let ?rank = "SetupRankModule True rs"
  have e: "board ?rank = Map.empty" using board_keys [OF rs(2)] by (simp add: board_def SetupRankModule_def fun_eq_iff dom_def)
  have "rank_ok (N (rl_RankId rl)) ?rank [] Map.empty" using rs(2) by (simp add: rank_ok_but_def map_ok_def expire_ok_def SetupRankModule_def)
  then have "svc_ok N (svc\<lparr>mapRankSkip := (mapRankSkip svc)(rl_RankId rl \<mapsto> ?rank), svc_log := l\<rparr>)" for l
    using ok by (auto simp: svc_ok_def SetupRankModule_def)
  then show ?thesis using rs e ok by (auto simp: add_rank_def tell_def svc_ok_def SetupRankModule_def)
qed

lemma manual_add_ok:
  assumes "svc_ok N svc" "\<And>rl. rl \<in> set rls \<Longrightarrow> rl_RankId rl \<noteq> 0 \<and> unat (rl_MaxRank rl) < 2 ^ 31"
  shows "\<exists>svc'. manual_add rls svc = Some (Inr (Inr (), svc')) \<and> svc_ok N svc' \<and> dom (mapRankSkip svc') = dom (mapRankSkip svc) \<union> rl_RankId ` set rls \<and>
    (\<forall>rid \<in> dom (mapRankSkip svc). mapRankSkip svc' rid = mapRankSkip svc rid)"
  using assms
proof (induction rls arbitrary: svc)
  case Nil
  then show ?case by simp
next
  case (Cons rl rls)
  show ?case
  proof (cases "mapRankSkip svc (rl_RankId rl)")
    case None
    obtain svc1 rank where a: "add_rank True rl svc = Some (Inr svc1)" "svc_ok N svc1" "mapRankSkip svc1 = (mapRankSkip svc)(rl_RankId rl \<mapsto> rank)"
      using add_rank_ok [OF Cons.prems(1), of rl True] Cons.prems(2) by fastforce
    from Cons.IH [OF a(2)] Cons.prems(2) obtain svc' where s: "manual_add rls svc1 = Some (Inr (Inr (), svc'))" "svc_ok N svc'"
      "dom (mapRankSkip svc') = dom (mapRankSkip svc1) \<union> rl_RankId ` set rls" "\<forall>rid \<in> dom (mapRankSkip svc1). mapRankSkip svc' rid = mapRankSkip svc1 rid" by auto
    have "\<forall>rid \<in> dom (mapRankSkip svc). mapRankSkip svc' rid = mapRankSkip svc rid" using s(4) a(3) None by (auto simp: domIff)
    then show ?thesis using None a s Cons.prems(2) by auto
  next
    case (Some r)
    from Cons.IH [OF Cons.prems(1)] Cons.prems(2) obtain svc' where s: "manual_add rls svc = Some (Inr (Inr (), svc'))" "svc_ok N svc'"
      "dom (mapRankSkip svc') = dom (mapRankSkip svc) \<union> rl_RankId ` set rls" "\<forall>rid \<in> dom (mapRankSkip svc). mapRankSkip svc' rid = mapRankSkip svc rid" by auto
    then show ?thesis using Some Cons.prems(2) by auto
  qed
qed

end
