(* ===== verification/Calendar.thy ===== *)
theory Calendar
  imports Prelude
begin

text \<open>
  The part of Go's package \<^verbatim>\<open>time\<close> that the cron expressions use: civil dates and clock times.
  A time is a number of seconds since the start of 1 January of year 1 on the clock of its location,
  and the location has a fixed offset from UTC (no daylight saving), so that a date and a clock time
  determine the second. \<open>Date\<close> normalises a day or a month past the end as the library documents
  (32 October is 1 November), and \<open>AddDate\<close> is \<open>Date\<close> at the shifted fields.
  Shown: the calendar counts days one by one (\<open>date_of_Suc\<close>), dates and day numbers are inverse, and
  the first day of a month and of a year are what the names say.
\<close>

section \<open>Dates\<close>

definition leap :: "nat \<Rightarrow> bool" where
  "leap y \<longleftrightarrow> y mod 4 = 0 \<and> (y mod 100 \<noteq> 0 \<or> y mod 400 = 0)"

definition month_len :: "nat \<Rightarrow> nat \<Rightarrow> nat" where
  "month_len y m = (if m = 2 then (if leap y then 29 else 28) else if m \<in> {4, 6, 9, 11} then 30 else 31)"

text \<open>The days before 1 January of the year \<open>y + 1\<close>.\<close>

definition year_end :: "nat \<Rightarrow> nat" where
  "year_end y = 365 * y + y div 4 - y div 100 + y div 400"

definition year_start :: "nat \<Rightarrow> nat" where
  "year_start y = year_end (y - 1)"

definition year_len :: "nat \<Rightarrow> nat" where
  "year_len y = (if leap y then 366 else 365)"

definition month_start :: "nat \<Rightarrow> nat \<Rightarrow> nat" where
  "month_start y m = sum_list (map (month_len y) [1..<m])"

definition day_no :: "nat \<Rightarrow> nat \<Rightarrow> nat \<Rightarrow> nat" where
  "day_no y m k = year_start y + month_start y m + (k - 1)"

lemma year_end_Suc: "year_end (Suc y) = year_end y + year_len (Suc y)"
proof -
  have d: "Suc y div 4 = y div 4 + (if Suc y mod 4 = 0 then 1 else 0)"
    "Suc y div 100 = y div 100 + (if Suc y mod 100 = 0 then 1 else 0)"
    "Suc y div 400 = y div 400 + (if Suc y mod 400 = 0 then 1 else 0)"
    by (simp_all add: div_Suc)
  have m: "Suc y mod 400 = 0 \<Longrightarrow> Suc y mod 100 = 0" "Suc y mod 100 = 0 \<Longrightarrow> Suc y mod 4 = 0"
    using dvd_trans [of 100 400 "Suc y"] dvd_trans [of 4 100 "Suc y"] by (simp_all add: mod_eq_0_iff_dvd)
  have "y div 100 \<le> y div 4" by (rule div_le_mono2) simp_all
  then show ?thesis using m
    by (auto simp: year_end_def year_len_def leap_def d) linarith+
qed

lemma year_start_Suc: "0 < y \<Longrightarrow> year_start (Suc y) = year_start y + year_len y"
  by (cases y) (simp_all add: year_start_def year_end_Suc)

lemma year_len_pos: "0 < year_len y" by (simp add: year_len_def)

lemma year_start_mono: "y \<le> z \<Longrightarrow> year_start y \<le> year_start z"
proof (induction z)
  case (Suc z)
  then show ?case
  proof (cases "z = 0")
    case True
    with Suc show ?thesis by (auto simp: le_Suc_eq year_start_def year_end_def)
  next
    case False
    with Suc show ?thesis by (auto simp: le_Suc_eq year_start_Suc)
  qed
qed simp

lemma year_start_bound: "366 * y \<ge> year_start (Suc y)"
proof (induction y)
  case (Suc y)
  then show ?case by (simp add: year_start_Suc year_len_def)
qed (simp add: year_start_def year_end_def)

lemma year_start_ge: "365 * (y - 1) \<le> year_start y"
proof -
  have "(y - 1) div 100 \<le> (y - 1) div 4" by (rule div_le_mono2) simp_all
  then show ?thesis unfolding year_start_def year_end_def by linarith
qed

text \<open>The year of a day: the last one that starts no later, searched from a year that surely does.\<close>

function year_from :: "nat \<Rightarrow> nat \<Rightarrow> nat" where
  "year_from y d = (if year_start (Suc y) \<le> d then year_from (Suc y) d else y)"
  by auto
termination
proof (relation "measure (\<lambda>(y, d). Suc d - y)")
  fix y d
  assume "year_start (Suc y) \<le> d"
  moreover have "365 * y \<le> year_start (Suc y)" using year_start_ge [of "Suc y"] by simp
  ultimately show "((Suc y, d), y, d) \<in> measure (\<lambda>(y, d). Suc d - y)" by auto
qed simp

declare year_from.simps [simp del]

definition year_of :: "nat \<Rightarrow> nat" where
  "year_of d = year_from (d div 366 + 1) d"

function month_from :: "nat \<Rightarrow> nat \<Rightarrow> nat \<Rightarrow> nat \<times> nat" where
  "month_from y m k = (if 12 \<le> m \<or> k < month_len y m then (m, Suc k) else month_from y (Suc m) (k - month_len y m))"
  by auto
termination by (relation "measure (\<lambda>(y, m, k). 12 - m)") auto

declare month_from.simps [simp del]

definition date_of :: "nat \<Rightarrow> nat \<times> nat \<times> nat" where
  "date_of d = (let y = year_of d in (y, month_from y 1 (d - year_start y)))"

definition valid_date :: "nat \<Rightarrow> nat \<Rightarrow> nat \<Rightarrow> bool" where
  "valid_date y m k \<longleftrightarrow> 1 \<le> y \<and> 1 \<le> m \<and> m \<le> 12 \<and> 1 \<le> k \<and> k \<le> month_len y m"

lemma month_start_1 [simp]: "month_start y (Suc 0) = 0" by (simp add: month_start_def)

lemma month_start_Suc: "1 \<le> m \<Longrightarrow> month_start y (Suc m) = month_start y m + month_len y m"
  by (simp add: month_start_def)

lemma month_start_13: "month_start y 13 = year_len y"
  by (simp add: month_start_def month_len_def year_len_def upt_rec)

lemma month_len_pos: "0 < month_len y m" by (simp add: month_len_def)

lemma month_len_le: "month_len y m \<le> 31" by (simp add: month_len_def)

lemma month_start_mono: "1 \<le> m \<Longrightarrow> m \<le> n \<Longrightarrow> month_start y m \<le> month_start y n"
proof (induction n)
  case (Suc n)
  then show ?case by (cases "m = Suc n") (auto simp: month_start_Suc)
qed simp

lemma year_from_spec:
  assumes "1 \<le> y" "year_start y \<le> d"
  shows "year_start (year_from y d) \<le> d \<and> d < year_start (Suc (year_from y d)) \<and> y \<le> year_from y d"
  using assms
proof (induction y d rule: year_from.induct)
  case (1 y d)
  show ?case
  proof (cases "year_start (Suc y) \<le> d")
    case True
    then show ?thesis using 1 by (subst (1 2 3) year_from.simps) auto
  next
    case False
    then show ?thesis using 1 by (subst (1 2 3) year_from.simps) auto
  qed
qed

lemma year_of_spec: "year_start (year_of d) \<le> d" "d < year_start (Suc (year_of d))" "1 \<le> year_of d"
proof -
  have "366 * (d div 366) \<le> d" by simp
  then have "year_start (d div 366 + 1) \<le> d" using year_start_bound [of "d div 366"] by simp
  then show "year_start (year_of d) \<le> d" "d < year_start (Suc (year_of d))" "1 \<le> year_of d"
    using year_from_spec [of "d div 366 + 1" d] by (auto simp: year_of_def)
qed

lemma year_of_unique:
  assumes "1 \<le> y" "year_start y \<le> d" "d < year_start (Suc y)"
  shows "year_of d = y"
proof (rule antisym)
  show "year_of d \<le> y"
    using assms(3) year_of_spec(1) [of d] year_start_mono [of "Suc y" "year_of d"] by linarith
  show "y \<le> year_of d"
    using assms(2) year_of_spec(2) [of d] year_start_mono [of "Suc (year_of d)" y] by linarith
qed

lemma month_from_spec:
  assumes "1 \<le> m" "m \<le> 12" "month_start y m + k < year_len y" "month_from y m k = (n, j)"
  shows "m \<le> n \<and> n \<le> 12 \<and> 1 \<le> j \<and> j \<le> month_len y n \<and> month_start y n + j = Suc (month_start y m + k)"
  using assms
proof (induction y m k rule: month_from.induct)
  case (1 y m k)
  consider (stop) "k < month_len y m" | (last) "\<not> k < month_len y m" "m = 12"
    | (go) "\<not> k < month_len y m" "m < 12" using "1.prems"(2) by linarith
  then show ?case
  proof cases
    case stop
    then show ?thesis using "1.prems" by (subst (asm) month_from.simps) auto
  next
    case last
    then have "year_len y \<le> month_start y m + k"
      using month_start_13 [of y] month_start_Suc [of 12 y] by simp
    then show ?thesis using "1.prems"(3) by simp
  next
    case go
    then have "month_from y (Suc m) (k - month_len y m) = (n, j)"
      using "1.prems"(4) by (subst (asm) month_from.simps) simp
    moreover have "month_start y (Suc m) + (k - month_len y m) = month_start y m + k"
      using go "1.prems"(1) by (simp add: month_start_Suc)
    ultimately show ?thesis using "1.IH" go "1.prems" by auto
  qed
qed

lemma date_of_valid:
  assumes "date_of d = (y, m, k)"
  shows "valid_date y m k" "d = day_no y m k"
proof -
  have y: "y = year_of d" and mk: "month_from y 1 (d - year_start y) = (m, k)"
    using assms by (auto simp: date_of_def Let_def)
  have b: "year_start y \<le> d" "d < year_start (Suc y)" "1 \<le> y" using year_of_spec [of d] y by simp_all
  then have "d - year_start y < year_len y" using year_start_Suc [of y] by simp
  then show "valid_date y m k" "d = day_no y m k"
    using month_from_spec [of 1 y "d - year_start y" m k] mk b by (auto simp: valid_date_def day_no_def)
qed

lemma valid_date_bound:
  assumes "valid_date y m k"
  shows "month_start y m + k \<le> year_len y"
proof -
  have "month_start y m + k \<le> month_start y (Suc m)"
    using assms by (simp add: valid_date_def month_start_Suc)
  also have "\<dots> \<le> month_start y 13" using assms by (intro month_start_mono) (auto simp: valid_date_def)
  finally show ?thesis by (simp add: month_start_13)
qed

lemma day_in_year_unique:
  assumes "1 \<le> m" "1 \<le> k" "k \<le> month_len y m" "1 \<le> n" "1 \<le> j" "j \<le> month_len y n"
    "month_start y m + k = month_start y n + j"
  shows "m = n"
proof (rule ccontr)
  assume "m \<noteq> n"
  then consider "Suc m \<le> n" | "Suc n \<le> m" by linarith
  then show False
    using assms month_start_mono [of "Suc m" n y] month_start_mono [of "Suc n" m y]
    by cases (auto simp: month_start_Suc)
qed

text \<open>Dates and day numbers are inverse to each other.\<close>

lemma date_of_day_no:
  assumes v: "valid_date y m k"
  shows "date_of (day_no y m k) = (y, m, k)"
proof -
  let ?d = "day_no y m k"
  obtain y' m' k' where e: "date_of ?d = (y', m', k')" by (cases "date_of ?d") auto
  have "year_of ?d = y"
    using v valid_date_bound [OF v] by (intro year_of_unique) (auto simp: day_no_def year_start_Suc valid_date_def)
  then have y: "y' = y" using e by (simp add: date_of_def Let_def)
  have d: "valid_date y m' k'" "?d = day_no y m' k'" using date_of_valid [OF e] y by simp_all
  then have s: "month_start y m + k = month_start y m' + k'" using v by (auto simp: day_no_def valid_date_def)
  have "m = m'" using day_in_year_unique [of m k y m' k'] v d(1) s by (auto simp: valid_date_def)
  then show ?thesis using e y s by simp
qed

lemma date_of_iff: "date_of d = (y, m, k) \<longleftrightarrow> valid_date y m k \<and> d = day_no y m k"
  using date_of_valid date_of_day_no by blast

definition next_date :: "nat \<times> nat \<times> nat \<Rightarrow> nat \<times> nat \<times> nat" where
  "next_date = (\<lambda>(y, m, k). if k < month_len y m then (y, m, Suc k)
                           else if m < 12 then (y, Suc m, 1) else (Suc y, 1, 1))"

text \<open>The days follow each other as in the calendar.\<close>

lemma date_of_Suc: "date_of (Suc d) = next_date (date_of d)"
proof -
  obtain y m k where e: "date_of d = (y, m, k)" by (cases "date_of d") auto
  note v = date_of_valid [OF e]
  consider (day) "k < month_len y m" | (month) "k = month_len y m" "m < 12" | (year) "k = month_len y m" "m = 12"
    using v(1) by (auto simp: valid_date_def le_less)
  then show ?thesis
  proof cases
    case day
    then show ?thesis using v unfolding e by (auto simp: next_date_def date_of_iff valid_date_def day_no_def)
  next
    case month
    then show ?thesis using v month_len_pos [of y "Suc m"] unfolding e
      by (auto simp: next_date_def date_of_iff valid_date_def day_no_def month_start_Suc)
  next
    case year
    have "month_start y 12 + month_len y 12 = year_len y"
      using month_start_13 [of y] month_start_Suc [of 12 y] by simp
    then show ?thesis using v year month_len_pos [of "Suc y" 1] unfolding e
      by (auto simp: next_date_def date_of_iff valid_date_def day_no_def year_start_Suc)
  qed
qed

lemma date_of_0: "date_of 0 = (1, 1, 1)"
  by (simp add: date_of_iff valid_date_def day_no_def month_len_def year_start_def year_end_def)

section \<open>Times\<close>

type_synonym time = nat

definition Year :: "time \<Rightarrow> nat" where
  "Year t = fst (date_of (t div 86400))"

definition Month :: "time \<Rightarrow> nat" where
  "Month t = fst (snd (date_of (t div 86400)))"

definition Day :: "time \<Rightarrow> nat" where
  "Day t = snd (snd (date_of (t div 86400)))"

text \<open>1 January of year 1 is a Monday; Sunday is 0.\<close>

definition Weekday :: "time \<Rightarrow> nat" where
  "Weekday t = (t div 86400 + 1) mod 7"

definition Hour :: "time \<Rightarrow> nat" where
  "Hour t = t mod 86400 div 3600"

definition Minute :: "time \<Rightarrow> nat" where
  "Minute t = t mod 3600 div 60"

definition Second :: "time \<Rightarrow> nat" where
  "Second t = t mod 60"

definition Date :: "nat \<Rightarrow> nat \<Rightarrow> nat \<Rightarrow> nat \<Rightarrow> nat \<Rightarrow> nat \<Rightarrow> time" where
  "Date y m k h mi s = (let y' = y + (m - 1) div 12; m' = (m - 1) mod 12 + 1
                        in day_no y' m' k * 86400 + h * 3600 + mi * 60 + s)"

definition AddDate :: "nat \<Rightarrow> nat \<Rightarrow> nat \<Rightarrow> time \<Rightarrow> time" where
  "AddDate years months days t =
     Date (Year t + years) (Month t + months) (Day t + days) (Hour t) (Minute t) (Second t)"

text \<open>\<^verbatim>\<open>Truncate\<close> rounds down in absolute time: \<open>skew\<close> is the offset of the location from UTC in
  seconds, reduced modulo an hour.\<close>

definition Truncate :: "nat \<Rightarrow> nat \<Rightarrow> time \<Rightarrow> time" where
  "Truncate skew u t = t - (t + (3600 - skew)) mod u"

section \<open>Boundaries\<close>

text \<open>The first seconds of minutes, hours, days, months and years.\<close>

definition minute_start :: "time \<Rightarrow> bool" where
  "minute_start t \<longleftrightarrow> t mod 60 = 0"

definition hour_start :: "time \<Rightarrow> bool" where
  "hour_start t \<longleftrightarrow> t mod 3600 = 0"

definition day_start :: "time \<Rightarrow> bool" where
  "day_start t \<longleftrightarrow> t mod 86400 = 0"

definition first_of_month :: "time \<Rightarrow> bool" where
  "first_of_month t \<longleftrightarrow> day_start t \<and> Day t = 1"

definition first_of_year :: "time \<Rightarrow> bool" where
  "first_of_year t \<longleftrightarrow> first_of_month t \<and> Month t = 1"

lemma hour_start_minute: "hour_start t \<Longrightarrow> minute_start t"
  unfolding hour_start_def minute_start_def mod_eq_0_iff_dvd using dvd_trans [of 60 3600 t] by simp

lemma day_start_hour: "day_start t \<Longrightarrow> hour_start t"
  unfolding hour_start_def day_start_def mod_eq_0_iff_dvd using dvd_trans [of 3600 86400 t] by simp

lemma first_of_month_day: "first_of_month t \<Longrightarrow> day_start t"
  by (simp add: first_of_month_def)

lemma first_of_year_month: "first_of_year t \<Longrightarrow> first_of_month t"
  by (simp add: first_of_year_def)

lemmas coarser_starts = hour_start_minute day_start_hour first_of_month_day first_of_year_month

text \<open>A clock field only changes at the boundaries of its unit.\<close>

lemma div_Suc_inside: "Suc t mod n \<noteq> 0 \<Longrightarrow> Suc t div n = t div n"
  by (simp add: div_Suc)

lemma mod_prod_div: "t mod (a * b) div a = t div a mod b" if "0 < a" for t a b :: nat
  using that by (simp add: mod_mult2_eq)

lemma Minute_alt: "Minute t = t div 60 mod 60"
  using mod_prod_div [of 60 t 60] by (simp add: Minute_def)

lemma Hour_alt: "Hour t = t div 3600 mod 24"
  using mod_prod_div [of 3600 t 24] by (simp add: Hour_def)

lemma Minute_inside: "\<not> minute_start (Suc t) \<Longrightarrow> Minute (Suc t) = Minute t"
  by (simp add: Minute_alt minute_start_def div_Suc_inside)

lemma Hour_inside: "\<not> hour_start (Suc t) \<Longrightarrow> Hour (Suc t) = Hour t"
  by (simp add: Hour_alt hour_start_def div_Suc_inside)

lemma Minute_0: "minute_start t \<Longrightarrow> Minute t = 0 \<longleftrightarrow> hour_start t"
  using mod_mult2_eq [of t 60 60] by (auto simp: Minute_alt minute_start_def hour_start_def)

lemma Hour_0: "hour_start t \<Longrightarrow> Hour t = 0 \<longleftrightarrow> day_start t"
  using mod_mult2_eq [of t 3600 24] by (auto simp: Hour_alt hour_start_def day_start_def)

lemma day_inside: "\<not> day_start (Suc t) \<Longrightarrow> Suc t div 86400 = t div 86400"
  by (simp add: day_start_def div_Suc_inside)

lemma day_next: "day_start (Suc t) \<Longrightarrow> Suc t div 86400 = Suc (t div 86400)"
  by (simp add: day_start_def div_Suc)

lemma Day_inside: "\<not> day_start (Suc t) \<Longrightarrow> Day (Suc t) = Day t"
  "\<not> day_start (Suc t) \<Longrightarrow> Weekday (Suc t) = Weekday t"
  by (simp_all add: Day_def Weekday_def day_inside)

lemma date_fields: "date_of (t div 86400) = (Year t, Month t, Day t)"
  by (simp add: Year_def Month_def Day_def)

lemma date_fields_next:
  "day_start (Suc t) \<Longrightarrow> (Year (Suc t), Month (Suc t), Day (Suc t)) = next_date (Year t, Month t, Day t)"
  unfolding date_fields [symmetric] day_next by (rule date_of_Suc)

lemma date_fields_valid: "valid_date (Year t) (Month t) (Day t)"
  using date_of_valid(1) [OF date_fields] .

lemma Month_inside:
  assumes "\<not> first_of_month (Suc t)"
  shows "Month (Suc t) = Month t \<and> Year (Suc t) = Year t"
proof (cases "day_start (Suc t)")
  case True
  then show ?thesis using date_fields_next [OF True] assms
    by (auto simp: next_date_def first_of_month_def split: if_splits)
next
  case False
  then show ?thesis by (simp only: Month_def Year_def day_inside simp_thms)
qed

lemma Year_inside:
  assumes "\<not> first_of_year (Suc t)"
  shows "Year (Suc t) = Year t"
proof (cases "first_of_month (Suc t)")
  case True
  then have d: "day_start (Suc t)" by (simp add: first_of_month_def)
  show ?thesis using date_fields_next [OF d] True assms
    by (auto simp: next_date_def first_of_year_def split: if_splits)
qed (use Month_inside in blast)

lemma Year_mono_Suc: "Year t \<le> Year (Suc t)"
proof (cases "day_start (Suc t)")
  case True
  show ?thesis using date_fields_next [OF True] by (auto simp: next_date_def split: if_splits)
next
  case False
  then show ?thesis by (simp add: Year_def day_inside)
qed

lemma Year_mono: "s \<le> t \<Longrightarrow> Year s \<le> Year t"
  using lift_Suc_mono_le [of Year s t] Year_mono_Suc by blast

lemma Year_lt: "Year t \<le> y \<Longrightarrow> t < year_start (Suc y) * 86400"
proof -
  assume y: "Year t \<le> y"
  have "t div 86400 < year_start (Suc (Year t))" using year_of_spec(2) [of "t div 86400"]
    by (simp add: Year_def date_of_def Let_def)
  also have "\<dots> \<le> year_start (Suc y)" using y by (simp add: year_start_mono)
  finally show ?thesis by (simp add: div_less_iff_less_mult)
qed

text \<open>A quantity that only changes at boundaries is the same at two times with no boundary after the
  first up to the second.\<close>

lemma const_between:
  assumes "\<And>t. \<not> al (Suc t) \<Longrightarrow> f (Suc t) = f t" "s \<le> t" "\<And>u. s < u \<Longrightarrow> u \<le> t \<Longrightarrow> \<not> al u"
  shows "f t = f s"
  using assms(2,3)
proof (induction t)
  case (Suc t)
  show ?case
  proof (cases "s = Suc t")
    case False
    then have "f t = f s" using Suc by auto
    moreover have "\<not> al (Suc t)" using Suc.prems False by auto
    ultimately show ?thesis using assms(1) by simp
  qed simp
qed simp

section \<open>Starts and successors of units\<close>

text \<open>\<open>Date\<close> at the start of a day, and of a month; the next one by \<open>AddDate\<close>.\<close>

lemma Date_fields: "valid_date y m k \<Longrightarrow> Date y m k h mi s = day_no y m k * 86400 + h * 3600 + mi * 60 + s"
  by (cases m) (auto simp: Date_def valid_date_def Let_def)

lemma day_start_floor: "Date (Year t) (Month t) (Day t) 0 0 0 = t - t mod 86400"
  using Date_fields [OF date_fields_valid, of t 0 0 0] date_of_valid(2) [OF date_fields, of t]
  by (simp add: minus_mod_eq_div_mult)

lemma clock_at_day_start: "day_start t \<Longrightarrow> Hour t = 0 \<and> Minute t = 0 \<and> Second t = 0"
  using day_start_hour [of t] hour_start_minute [of t] Hour_0 [of t] Minute_0 [of t]
  by (simp add: Second_def minute_start_def)

lemma AddDate_day:
  assumes "day_start t"
  shows "AddDate 0 0 1 t = t + 86400"
proof -
  have "day_no (Year t) (Month t) (Suc (Day t)) = Suc (t div 86400)"
    using date_of_valid [OF date_fields, of t] by (simp add: day_no_def valid_date_def)
  then show ?thesis
    using assms clock_at_day_start [OF assms] date_fields_valid [of t]
    by (auto simp: AddDate_def Date_def Let_def valid_date_def day_start_def)
qed

lemma month_start_floor: "Date (Year t) (Month t) 1 0 0 0 = (t div 86400 - (Day t - 1)) * 86400"
proof -
  have v: "valid_date (Year t) (Month t) 1"
    using date_fields_valid [of t] month_len_pos [of "Year t" "Month t"] by (auto simp: valid_date_def)
  have "day_no (Year t) (Month t) 1 = t div 86400 - (Day t - 1)"
    using date_of_valid(2) [OF date_fields, of t] by (simp add: day_no_def)
  then show ?thesis using Date_fields [OF v] by simp
qed

lemma AddDate_month:
  assumes "first_of_month t"
  shows "AddDate 0 1 0 t = t + month_len (Year t) (Month t) * 86400"
proof -
  have v: "valid_date (Year t) (Month t) 1" and d: "t div 86400 = day_no (Year t) (Month t) 1"
    and c: "Hour t = 0 \<and> Minute t = 0 \<and> Second t = 0" and t: "t div 86400 * 86400 = t"
    using date_of_valid [OF date_fields, of t] assms clock_at_day_start [of t]
    by (auto simp: first_of_month_def day_start_def)
  have "day_no (Year t + Month t div 12) (Month t mod 12 + 1) 1 = t div 86400 + month_len (Year t) (Month t)"
  proof (cases "Month t = 12")
    case True
    have "month_start (Year t) 12 + month_len (Year t) 12 = year_len (Year t)"
      using month_start_13 [of "Year t"] month_start_Suc [of 12 "Year t"] by simp
    then show ?thesis using True v d by (simp add: day_no_def year_start_Suc valid_date_def)
  next
    case False
    then have "Month t < 12" using v by (simp add: valid_date_def)
    then show ?thesis using v d by (simp add: day_no_def month_start_Suc valid_date_def)
  qed
  then show ?thesis using assms c t by (simp add: AddDate_def Date_def Let_def first_of_month_def)
qed

end
