(* ===== verification/Cron.thy ===== *)
theory Cron
  imports Port Calendar
begin

text \<open>
  Cron expressions (\<^verbatim>\<open>src/util/timer/cronexpr.go\<close>): the parser of the six fields and the search for the
  next time.
  \<^item> \<open>CronExpr\<close> holds one 64-bit set per field. Bit operations and shifts are those of \<^verbatim>\<open>uint64\<close>.
  \<^item> The parser returns its error as \<open>Inl\<close>; the value that goes with an error is not used by any caller
    and left out. \<open>None\<close> outside is a loop that does not end. \<^verbatim>\<open>strings.Fields\<close> is modelled on ASCII.
  \<^item> The five loops of \<^verbatim>\<open>Next\<close> have one shape, \<open>cron_loop\<close>: its result says whether the loop left by
    \<^verbatim>\<open>goto retry\<close>, and holds \<^verbatim>\<open>initFlag\<close> and the time. The zero time is \<open>None\<close>.
  \<^item> Times are seconds of a location with a fixed offset from UTC (\<open>Calendar\<close>); the argument of \<open>Next\<close>
    counts nanoseconds. \<open>skew\<close> is the offset modulo an hour, zero where the offset is whole hours.
\<close>

unbundle bit_operations_syntax

section \<open>Fields\<close>

record CronExpr =
  cr_sec :: "64 word"
  cr_min :: "64 word"
  cr_hour :: "64 word"
  cr_dom :: "64 word"
  cr_month :: "64 word"
  cr_dow :: "64 word"

datatype cron_error =
    TooManySlashes string
  | TooManyHyphens string
  | InvalidRange string
  | OutOfRange int int string
  | InvalidIncrement string
  | WrongFieldCount string nat
  | InvalidExpr string cron_error

definition is_space :: "char \<Rightarrow> bool" where
  "is_space c \<longleftrightarrow> (of_char c :: nat) \<in> {9, 10, 11, 12, 13, 32}"

fun Fields_from :: "string \<Rightarrow> string \<Rightarrow> string list" where
  "Fields_from cur [] = (if cur = [] then [] else [cur])"
| "Fields_from cur (c # cs) =
     (if is_space c then (if cur = [] then Fields_from [] cs else cur # Fields_from [] cs)
      else Fields_from (cur @ [c]) cs)"

definition Fields :: "string \<Rightarrow> string list" where
  "Fields s = Fields_from [] s"

text \<open>\<^verbatim>\<open>1 << uint(i)\<close>: a negative \<^verbatim>\<open>int\<close> becomes a shift count of at least 2^63.\<close>

definition shl1 :: "int \<Rightarrow> 64 word" where
  "shl1 i = (if 0 \<le> i \<and> i < 64 then push_bit (nat i) 1 else 0)"

partial_function (option) incr_bits :: "int \<Rightarrow> int \<Rightarrow> int \<Rightarrow> 64 word \<Rightarrow> 64 word option" where
  "incr_bits i fin incr cronField =
     (if i \<le> fin then incr_bits (wrap64 (i + incr)) fin incr (cronField OR shl1 i) else Some cronField)"

declare incr_bits.simps [code]

definition item_bits :: "int \<Rightarrow> int \<Rightarrow> int \<Rightarrow> 64 word \<Rightarrow> 64 word option" where
  "item_bits start fin incr cronField =
     (if incr = 1 then Some (cronField OR (NOT (push_bit (nat (fin + 1)) (- 1)) AND push_bit (nat start) (- 1)))
      else incr_bits start fin incr cronField)"

text \<open>Start, end and increment of one item of a field.\<close>

definition item_range :: "string \<Rightarrow> int \<Rightarrow> int \<Rightarrow> cron_error + (int \<times> int)" where
  "item_range field lo hi =
     (let rangeAndIncr = Split CHR ''/'' field; rg = rangeAndIncr ! 0; startAndEnd = Split CHR ''-'' rg in
      if length startAndEnd > 2 then Inl (TooManyHyphens rg)
      else if startAndEnd ! 0 = ''*'' then
        (if length startAndEnd \<noteq> 1 then Inl (InvalidRange rg) else Inr (lo, hi))
      else case Atoi (startAndEnd ! 0) of
          None \<Rightarrow> Inl (InvalidRange rg)
        | Some start \<Rightarrow>
            if length startAndEnd = 1 then Inr (start, if length rangeAndIncr = 2 then hi else start)
            else (case Atoi (startAndEnd ! 1) of
                    None \<Rightarrow> Inl (InvalidRange rg) | Some fin \<Rightarrow> Inr (start, fin)))"

definition item_incr :: "string \<Rightarrow> cron_error + int" where
  "item_incr field =
     (let rangeAndIncr = Split CHR ''/'' field in
      if length rangeAndIncr = 1 then Inr 1
      else case Atoi (rangeAndIncr ! 1) of
          None \<Rightarrow> Inl (InvalidIncrement (rangeAndIncr ! 1))
        | Some incr \<Rightarrow> if incr \<le> 0 then Inl (InvalidIncrement (rangeAndIncr ! 1)) else Inr incr)"

definition parse_item :: "string \<Rightarrow> int \<Rightarrow> int \<Rightarrow> cron_error + (int \<times> int \<times> int)" where
  "parse_item field lo hi =
     (let rg = Split CHR ''/'' field ! 0 in
      if length (Split CHR ''/'' field) > 2 then Inl (TooManySlashes field)
      else case item_range field lo hi of
          Inl err \<Rightarrow> Inl err
        | Inr (start, fin) \<Rightarrow>
            if start > fin then Inl (InvalidRange rg)
            else if start < lo then Inl (OutOfRange lo hi rg)
            else if fin > hi then Inl (OutOfRange lo hi rg)
            else (case item_incr field of Inl err \<Rightarrow> Inl err | Inr incr \<Rightarrow> Inr (start, fin, incr)))"

fun parse_items :: "string list \<Rightarrow> int \<Rightarrow> int \<Rightarrow> 64 word \<Rightarrow> (cron_error + 64 word) option" where
  "parse_items [] lo hi cronField = Some (Inr cronField)"
| "parse_items (field # rest) lo hi cronField =
     (case parse_item field lo hi of
        Inl err \<Rightarrow> Some (Inl err)
      | Inr (start, fin, incr) \<Rightarrow>
          Option.bind (item_bits start fin incr cronField) (parse_items rest lo hi))"

definition parseCronField :: "string \<Rightarrow> int \<Rightarrow> int \<Rightarrow> (cron_error + 64 word) option" where
  "parseCronField field lo hi = parse_items (Split CHR '','' field) lo hi 0"

text \<open>A field of the expression and what follows when it parses; \<^verbatim>\<open>goto onError\<close> wraps the error.\<close>

definition with_field :: "string \<Rightarrow> string \<Rightarrow> int \<Rightarrow> int \<Rightarrow> (64 word \<Rightarrow> (cron_error + 'a) option) \<Rightarrow>
    (cron_error + 'a) option" where
  "with_field expr field lo hi k =
     Option.bind (parseCronField field lo hi)
       (\<lambda>r. case r of Inl err \<Rightarrow> Some (Inl (InvalidExpr expr err)) | Inr w \<Rightarrow> k w)"

definition NewCronExpr :: "string \<Rightarrow> (cron_error + CronExpr) option" where
  "NewCronExpr expr =
     (let fields = Fields expr in
      if length fields \<noteq> 5 \<and> length fields \<noteq> 6 then Some (Inl (WrongFieldCount expr (length fields)))
      else
        let fields = (if length fields = 5 then ''0'' # fields else fields) in
        with_field expr (fields ! 0) 0 59 (\<lambda>sec.
        with_field expr (fields ! 1) 0 59 (\<lambda>min.
        with_field expr (fields ! 2) 0 23 (\<lambda>hour.
        with_field expr (fields ! 3) 1 31 (\<lambda>dom.
        with_field expr (fields ! 4) 1 12 (\<lambda>month.
        with_field expr (fields ! 5) 0 6 (\<lambda>dow.
          Some (Inr \<lparr>cr_sec = sec, cr_min = min, cr_hour = hour, cr_dom = dom, cr_month = month, cr_dow = dow\<rparr>))))))))"

section \<open>The next time\<close>

definition cron_hit :: "nat \<Rightarrow> 64 word \<Rightarrow> bool" where
  "cron_hit n w \<longleftrightarrow> push_bit n 1 AND w \<noteq> 0"

definition matchDay :: "CronExpr \<Rightarrow> time \<Rightarrow> bool" where
  "matchDay e t =
     (if cr_dom e = 0xfffffffe then cron_hit (Weekday t) (cr_dow e)
      else if cr_dow e = 0x7f then cron_hit (Day t) (cr_dom e)
      else cron_hit (Weekday t) (cr_dow e) \<or> cron_hit (Day t) (cr_dom e))"

partial_function (option) cron_loop :: "(time \<Rightarrow> bool) \<Rightarrow> (time \<Rightarrow> time) \<Rightarrow> (time \<Rightarrow> time) \<Rightarrow> (time \<Rightarrow> bool) \<Rightarrow>
    bool \<Rightarrow> time \<Rightarrow> (bool \<times> bool \<times> time) option" where
  "cron_loop ok start_of advance wrapped initFlag t =
     (if ok t then Some (False, initFlag, t)
      else let t1 = advance (if initFlag then t else start_of t)
           in if wrapped t1 then Some (True, True, t1) else cron_loop ok start_of advance wrapped True t1)"

declare cron_loop.simps [code]

definition month_loop :: "CronExpr \<Rightarrow> bool \<Rightarrow> time \<Rightarrow> (bool \<times> bool \<times> time) option" where
  "month_loop e = cron_loop (\<lambda>t. cron_hit (Month t) (cr_month e)) (\<lambda>t. Date (Year t) (Month t) 1 0 0 0)
     (AddDate 0 1 0) (\<lambda>t. Month t = 1)"

definition day_loop :: "CronExpr \<Rightarrow> bool \<Rightarrow> time \<Rightarrow> (bool \<times> bool \<times> time) option" where
  "day_loop e = cron_loop (matchDay e) (\<lambda>t. Date (Year t) (Month t) (Day t) 0 0 0)
     (AddDate 0 0 1) (\<lambda>t. Day t = 1)"

definition hour_loop :: "CronExpr \<Rightarrow> nat \<Rightarrow> bool \<Rightarrow> time \<Rightarrow> (bool \<times> bool \<times> time) option" where
  "hour_loop e skew = cron_loop (\<lambda>t. cron_hit (Hour t) (cr_hour e)) (Truncate skew 3600)
     (\<lambda>t. t + 3600) (\<lambda>t. Hour t = 0)"

definition minute_loop :: "CronExpr \<Rightarrow> nat \<Rightarrow> bool \<Rightarrow> time \<Rightarrow> (bool \<times> bool \<times> time) option" where
  "minute_loop e skew = cron_loop (\<lambda>t. cron_hit (Minute t) (cr_min e)) (Truncate skew 60)
     (\<lambda>t. t + 60) (\<lambda>t. Minute t = 0)"

definition second_loop :: "CronExpr \<Rightarrow> bool \<Rightarrow> time \<Rightarrow> (bool \<times> bool \<times> time) option" where
  "second_loop e = cron_loop (\<lambda>t. cron_hit (Second t) (cr_sec e)) (\<lambda>t. t) (\<lambda>t. t + 1) (\<lambda>t. Second t = 0)"

definition unless_retry :: "(bool \<times> bool \<times> time) option \<Rightarrow> (bool \<Rightarrow> time \<Rightarrow> (bool \<times> bool \<times> time) option) \<Rightarrow>
    (bool \<times> bool \<times> time) option" where
  "unless_retry r k = Option.bind r (\<lambda>(again, initFlag, t). if again then Some (True, initFlag, t) else k initFlag t)"

definition Next_pass :: "CronExpr \<Rightarrow> nat \<Rightarrow> bool \<Rightarrow> time \<Rightarrow> (bool \<times> bool \<times> time) option" where
  "Next_pass e skew initFlag t =
     unless_retry (month_loop e initFlag t) (\<lambda>initFlag t.
     unless_retry (day_loop e initFlag t) (\<lambda>initFlag t.
     unless_retry (hour_loop e skew initFlag t) (\<lambda>initFlag t.
     unless_retry (minute_loop e skew initFlag t) (second_loop e))))"

partial_function (option) Next_retry :: "CronExpr \<Rightarrow> nat \<Rightarrow> nat \<Rightarrow> bool \<Rightarrow> time \<Rightarrow> time option option" where
  "Next_retry e skew year initFlag t =
     (if Year t > year + 1 then Some None
      else Option.bind (Next_pass e skew initFlag t)
        (\<lambda>r. if fst r then Next_retry e skew year (fst (snd r)) (snd (snd r)) else Some (Some (snd (snd r)))))"

declare Next_retry.simps [code]

definition Next :: "CronExpr \<Rightarrow> nat \<Rightarrow> nat \<Rightarrow> time option option" where
  "Next e skew ns = (let t = ns div 10 ^ 9 + 1 in Next_retry e skew (Year t) False t)"

end
