(* ===== verification/CronNext.thy ===== *)
theory CronNext
  imports Cron
begin

text \<open>
  The search for the next time of a cron expression, \<^verbatim>\<open>Next\<close> of \<^verbatim>\<open>src/util/timer/cronexpr.go\<close>, in a
  location whose offset from UTC is a whole number of hours.
  \<^item> \<open>cron_matches\<close> is the specification: every field of a second's date and time is in the expression's set.
  \<^item> The locale \<open>cron_unit\<close> is what a loop of \<^verbatim>\<open>Next\<close> needs of its unit of time (months, days, hours,
    minutes, seconds): where the unit starts, that one step leads to the next start, and that the
    field only changes there. \<open>cron_stage\<close> adds the coarser units that already match. Both are
    interpreted for the five loops.
  \<^item> Once \<^verbatim>\<open>initFlag\<close> is set a loop no longer rounds its time down; \<open>ready\<close> is why this is right:
    the time is then at the start of every unit that does not match.
  Shown: the loops end, and \<open>Next\<close> returns the first matching second after its argument, or the zero time
  when no second up to the end of the following year matches.
\<close>

section \<open>Sets of numbers\<close>

lemma cron_hit_iff: "cron_hit n w \<longleftrightarrow> bit w n"
proof
  assume h: "cron_hit n w"
  show "bit w n"
  proof (rule ccontr)
    assume "\<not> bit w n"
    then have "push_bit n 1 AND w = 0"
      by (intro bit_word_eqI) (auto simp: bit_and_iff push_bit_of_1 bit_exp_iff)
    then show False using h by (simp add: cron_hit_def)
  qed
next
  assume b: "bit w n"
  then have "n < 64" using bit_imp_le_length [of w n] by simp
  then have "bit (push_bit n 1 AND w) n" using b by (simp add: bit_and_iff push_bit_of_1 bit_exp_iff)
  then show "cron_hit n w" by (auto simp: cron_hit_def)
qed

section \<open>One loop\<close>

locale cron_unit =
  fixes ok :: "time \<Rightarrow> bool" and start_of advance :: "time \<Rightarrow> time" and wrapped al top :: "time \<Rightarrow> bool"
  assumes start_le: "start_of t \<le> t"
    and start_al: "al (start_of t)"
    and start_last: "start_of t < s \<Longrightarrow> s \<le> t \<Longrightarrow> \<not> al s"
    and advance_gt: "al t \<Longrightarrow> t < advance t"
    and advance_al: "al t \<Longrightarrow> al (advance t)"
    and advance_first: "al t \<Longrightarrow> t < s \<Longrightarrow> s < advance t \<Longrightarrow> \<not> al s"
    and ok_inside: "\<not> al (Suc t) \<Longrightarrow> ok (Suc t) = ok t"
    and top_al: "top t \<Longrightarrow> al t"
    and wrapped_top: "al t \<Longrightarrow> wrapped t \<longleftrightarrow> top t"
    and top_ahead: "\<exists>s>t. top s"
begin

definition step_to :: "bool \<Rightarrow> time \<Rightarrow> time" where
  "step_to initFlag t = advance (if initFlag then t else start_of t)"

lemma step_facts:
  assumes "initFlag \<longrightarrow> al t"
  shows "t < step_to initFlag t" "al (step_to initFlag t)" "t < s \<Longrightarrow> s < step_to initFlag t \<Longrightarrow> \<not> al s"
proof -
  define b where "b = (if initFlag then t else start_of t)"
  have b: "al b" "b \<le> t" using assms start_al start_le by (auto simp: b_def)
  have n: "b < s \<Longrightarrow> s \<le> t \<Longrightarrow> \<not> al s" for s using start_last by (auto simp: b_def split: if_splits)
  have st: "step_to initFlag t = advance b" by (simp add: step_to_def b_def)
  show a: "al (step_to initFlag t)" using advance_al [OF b(1)] st by simp
  show "t < step_to initFlag t" using n [of "advance b"] advance_gt [OF b(1)] a st by (cases "advance b \<le> t") auto
  show "\<not> al s" if "t < s" "s < step_to initFlag t" using advance_first [OF b(1), of s] that b(2) st by simp
qed

lemma step_skips:
  assumes "initFlag \<longrightarrow> al t" "\<not> ok t" "t \<le> s" "s < step_to initFlag t"
  shows "\<not> ok s"
proof -
  have "ok s = ok t"
  proof (rule const_between [of al])
    show "\<not> al u" if "t < u" "u \<le> s" for u using step_facts(3) [OF assms(1), of u] that assms(4) by simp
  qed (use ok_inside assms(3) in blast)+
  then show ?thesis using assms(2) by simp
qed

text \<open>Where a loop stops: nothing it passes over matches, it passes over no start of the coarser unit,
  and it stops either at such a start or at a match.\<close>

lemma loop_ends:
  assumes "initFlag \<longrightarrow> ok t \<or> al t"
  shows "\<exists>r i u. cron_loop ok start_of advance wrapped initFlag t = Some (r, i, u) \<and> t \<le> u \<and>
    (\<forall>s. t \<le> s \<and> s < u \<longrightarrow> \<not> ok s) \<and> (\<forall>s. t < s \<and> s < u \<longrightarrow> \<not> top s) \<and>
    (i = initFlag \<and> u = t \<or> i \<and> al u) \<and>
    (if r then top u \<and> t < u else ok u \<and> (t < u \<longrightarrow> \<not> top u))"
proof -
  obtain n where n: "t < n" "top n" using top_ahead by blast
  from n(1) assms show ?thesis
  proof (induction "n - t" arbitrary: t initFlag rule: less_induct)
    case less
    show ?case
    proof (cases "ok t")
      case True
      then have "cron_loop ok start_of advance wrapped initFlag t = Some (False, initFlag, t)"
        by (simp add: cron_loop.simps)
      then show ?thesis using True by (auto intro!: exI [of _ False])
    next
      case False
      define u where "u = step_to initFlag t"
      have al: "initFlag \<longrightarrow> al t" using less.prems(2) False by blast
      have u: "t < u" "al u" "\<And>s. t < s \<Longrightarrow> s < u \<Longrightarrow> \<not> al s" using step_facts [OF al] u_def by auto
      have skip: "\<And>s. t \<le> s \<Longrightarrow> s < u \<Longrightarrow> \<not> ok s" using step_skips [OF al False] u_def by blast
      have un: "u \<le> n" using u(3) [of n] top_al [OF n(2)] less.prems(1) by (cases "n < u") auto
      have eq: "cron_loop ok start_of advance wrapped initFlag t =
          (if wrapped u then Some (True, True, u) else cron_loop ok start_of advance wrapped True u)"
        using False by (subst cron_loop.simps) (simp add: u_def step_to_def Let_def)
      have nt: "\<not> top s" if "t < s" "s < u" for s using u(3) [OF that] top_al by blast
      show ?thesis
      proof (cases "wrapped u")
        case True
        then show ?thesis unfolding eq using u skip nt wrapped_top [OF u(2)] by auto
      next
        case nw: False
        then have ut: "\<not> top u" using wrapped_top [OF u(2)] by blast
        then have un': "u < n" using un n(2) by (cases "u = n") auto
        have "n - u < n - t" using un' u(1) by simp
        then obtain r i v where v: "cron_loop ok start_of advance wrapped True u = Some (r, i, v)" "u \<le> v"
            "\<forall>s. u \<le> s \<and> s < v \<longrightarrow> \<not> ok s" "\<forall>s. u < s \<and> s < v \<longrightarrow> \<not> top s" "i \<and> v = u \<or> i \<and> al v"
            "if r then top v \<and> u < v else ok v \<and> (u < v \<longrightarrow> \<not> top v)"
          using less.hyps [of u True] u(2) un' by blast
        have "\<forall>s. t \<le> s \<and> s < v \<longrightarrow> \<not> ok s" using skip v(3) by (meson not_le)
        moreover have "\<forall>s. t < s \<and> s < v \<longrightarrow> \<not> top s" using nt ut v(4) by (metis linorder_neqE_nat)
        moreover have "if r then top v \<and> t < v else ok v \<and> (t < v \<longrightarrow> \<not> top v)"
          using v(2,6) u(1) ut by (cases "u = v") (auto split: if_splits)
        ultimately show ?thesis unfolding eq using nw v(1,2,5) u(1,2) by auto
      qed
    qed
  qed
qed

end

text \<open>A loop within the pass: \<open>outer\<close> is the match of the coarser units, \<open>full\<close> that of all units.\<close>

locale cron_stage = cron_unit +
  fixes outer full ready year_top :: "time \<Rightarrow> bool"
  assumes outer_inside: "\<not> top (Suc t) \<Longrightarrow> outer (Suc t) = outer t"
    and full_ok: "full t \<Longrightarrow> ok t"
    and ready_here: "ready t \<Longrightarrow> ok t \<or> al t"
    and ready_al: "al t \<Longrightarrow> outer t \<Longrightarrow> ready t"
    and ready_top: "outer t \<Longrightarrow> top (Suc t) \<Longrightarrow> ready (Suc t)"
    and year_top_top: "year_top t \<Longrightarrow> top t"
begin

lemma stage:
  assumes "initFlag \<longrightarrow> ready t" "outer t"
  shows "\<exists>r i u. cron_loop ok start_of advance wrapped initFlag t = Some (r, i, u) \<and> t \<le> u \<and>
    (\<forall>s. t \<le> s \<and> s < u \<longrightarrow> \<not> full s) \<and> (\<forall>s. t < s \<and> s < u \<longrightarrow> \<not> year_top s) \<and> (i \<longrightarrow> ready u) \<and>
    (if r then t < u \<and> i else outer u \<and> ok u \<and> (t < u \<longrightarrow> \<not> year_top u))"
proof -
  obtain r i u where e: "cron_loop ok start_of advance wrapped initFlag t = Some (r, i, u)" "t \<le> u"
      "\<forall>s. t \<le> s \<and> s < u \<longrightarrow> \<not> ok s" "\<forall>s. t < s \<and> s < u \<longrightarrow> \<not> top s" "i = initFlag \<and> u = t \<or> i \<and> al u"
      "if r then top u \<and> t < u else ok u \<and> (t < u \<longrightarrow> \<not> top u)"
    using loop_ends [of initFlag t] assms(1) ready_here by blast
  have o: "outer u" if "\<not> r"
  proof -
    have "outer u = outer t"
    proof (rule const_between [of top])
      show "\<not> top s" if "t < s" "s \<le> u" for s using e(4,6) that \<open>\<not> r\<close> by (cases "s = u") auto
    qed (use outer_inside e(2) in blast)+
    then show ?thesis using assms(2) by simp
  qed
  have "ready u" if r
  proof -
    have u: "t < u" "top u" using e(6) that by simp_all
    have "outer (u - 1) = outer t"
    proof (rule const_between [of top])
      show "\<not> top s" if "t < s" "s \<le> u - 1" for s using e(4) that u(1) by simp
    qed (use outer_inside u(1) in auto)
    then show ?thesis using ready_top [of "u - 1"] assms(2) u by simp
  qed
  then have "i \<longrightarrow> ready u"
    using e(5,6) o ready_al assms(1) by (cases r) auto
  then show ?thesis using e o full_ok year_top_top by (intro exI [of _ r] exI [of _ i] exI [of _ u]) (auto split: if_splits)
qed

end

section \<open>The five units\<close>

definition cron_matches :: "CronExpr \<Rightarrow> time \<Rightarrow> bool" where
  "cron_matches e t \<longleftrightarrow> cron_hit (Month t) (cr_month e) \<and> matchDay e t \<and> cron_hit (Hour t) (cr_hour e) \<and>
     cron_hit (Minute t) (cr_min e) \<and> cron_hit (Second t) (cr_sec e)"

definition cron_ready :: "CronExpr \<Rightarrow> time \<Rightarrow> bool" where
  "cron_ready e t \<longleftrightarrow> (cron_hit (Month t) (cr_month e) \<or> first_of_month t) \<and> (matchDay e t \<or> day_start t) \<and>
     (cron_hit (Hour t) (cr_hour e) \<or> hour_start t) \<and> (cron_hit (Minute t) (cr_min e) \<or> minute_start t)"

definition cron_outer :: "CronExpr \<Rightarrow> nat \<Rightarrow> time \<Rightarrow> bool" where
  "cron_outer e k t \<longleftrightarrow> (0 < k \<longrightarrow> cron_hit (Month t) (cr_month e)) \<and> (1 < k \<longrightarrow> matchDay e t) \<and>
     (2 < k \<longrightarrow> cron_hit (Hour t) (cr_hour e)) \<and> (3 < k \<longrightarrow> cron_hit (Minute t) (cr_min e))"

lemma matchDay_inside: "\<not> day_start (Suc t) \<Longrightarrow> matchDay e (Suc t) = matchDay e t"
  by (simp add: matchDay_def Day_inside)

lemmas unit_inside = Month_inside matchDay_inside Hour_inside Minute_inside

lemma finer_inside:
  "\<not> minute_start t \<Longrightarrow> \<not> hour_start t" "\<not> hour_start t \<Longrightarrow> \<not> day_start t"
  "\<not> day_start t \<Longrightarrow> \<not> first_of_month t"
  using coarser_starts by blast+

lemma cron_outer_inside:
  "\<not> first_of_month (Suc t) \<Longrightarrow> cron_outer e 1 (Suc t) = cron_outer e 1 t"
  "\<not> day_start (Suc t) \<Longrightarrow> cron_outer e 2 (Suc t) = cron_outer e 2 t"
  "\<not> hour_start (Suc t) \<Longrightarrow> cron_outer e 3 (Suc t) = cron_outer e 3 t"
  "\<not> minute_start (Suc t) \<Longrightarrow> cron_outer e 4 (Suc t) = cron_outer e 4 t"
  by (simp_all add: cron_outer_def unit_inside finer_inside)

lemma cron_ready_starts:
  "minute_start t \<Longrightarrow> cron_outer e 3 t \<Longrightarrow> cron_ready e t"
  "hour_start t \<Longrightarrow> cron_outer e 2 t \<Longrightarrow> cron_ready e t"
  "day_start t \<Longrightarrow> cron_outer e 1 t \<Longrightarrow> cron_ready e t"
  "first_of_month t \<Longrightarrow> cron_ready e t"
  "cron_outer e 4 t \<Longrightarrow> cron_ready e t"
  using coarser_starts [of t] by (auto simp: cron_ready_def cron_outer_def)

text \<open>Boundaries of a fixed length, and the start of a unit as a multiple of it.\<close>

lemma multiple_facts:
  fixes n t s :: nat
  assumes "0 < n"
  shows "t - t mod n \<le> t" "(t - t mod n) mod n = 0" "t - t mod n < s \<Longrightarrow> s \<le> t \<Longrightarrow> s mod n \<noteq> 0"
    "t mod n = 0 \<Longrightarrow> (t + n) mod n = 0" "t mod n = 0 \<Longrightarrow> t < s \<Longrightarrow> s < t + n \<Longrightarrow> s mod n \<noteq> 0"
proof -
  show "t - t mod n \<le> t" "(t - t mod n) mod n = 0" "t mod n = 0 \<Longrightarrow> (t + n) mod n = 0"
    by (simp_all add: minus_mod_eq_mult_div)
  have gap: "s mod n \<noteq> 0" if "n * k < s" "s < n * Suc k" for s k :: nat
  proof
    assume "s mod n = 0"
    then obtain q where q: "s = n * q" by auto
    then have "k < q" "q < Suc k"
      using that mult_less_cancel1 [of n k q] mult_less_cancel1 [of n q "Suc k"] by blast+
    then show False by simp
  qed
  show "s mod n \<noteq> 0" if "t - t mod n < s" "s \<le> t"
  proof (rule gap [of "t div n"])
    show "n * (t div n) < s" using that by (simp add: minus_mod_eq_mult_div)
    have "t < n * (t div n) + n" using assms mod_less_divisor [of n t] mult_div_mod_eq [of n t] by linarith
    then show "s < n * Suc (t div n)" using that by simp
  qed
  show "s mod n \<noteq> 0" if "t mod n = 0" "t < s" "s < t + n"
  proof -
    obtain q where "t = n * q" using \<open>t mod n = 0\<close> by auto
    then show ?thesis using gap [of q s] that by simp
  qed
qed

lemma ahead_year: "\<exists>s>t. first_of_year s"
proof -
  define d where "d = day_no (Suc (Year t)) 1 1"
  have e: "date_of d = (Suc (Year t), 1, 1)"
    unfolding d_def by (rule date_of_day_no) (simp add: valid_date_def month_len_def)
  have "t < d * 86400" using Year_lt [of t "Year t"] by (simp add: d_def day_no_def)
  moreover have "first_of_year (d * 86400)"
    using e by (simp add: first_of_year_def first_of_month_def day_start_def Day_def Month_def)
  ultimately show ?thesis by blast
qed

lemma ahead: "\<exists>s>t. first_of_month s" "\<exists>s>t. day_start s" "\<exists>s>t. hour_start s" "\<exists>s>t. minute_start s"
  using ahead_year [of t] coarser_starts by blast+

lemma Truncate_floor: "n dvd 3600 \<Longrightarrow> Truncate 0 n t = t - t mod n"
  by (simp add: Truncate_def mod_add_right_eq [symmetric] dvd_imp_mod_0)

lemma Truncate_units: "Truncate 0 3600 t = t - t mod 3600" "Truncate 0 60 t = t - t mod 60"
  by (simp_all add: Truncate_floor)

lemma day_facts:
  "Date (Year t) (Month t) (Day t) 0 0 0 \<le> t" "day_start (Date (Year t) (Month t) (Day t) 0 0 0)"
  "Date (Year t) (Month t) (Day t) 0 0 0 < s \<Longrightarrow> s \<le> t \<Longrightarrow> \<not> day_start s"
  "day_start t \<Longrightarrow> t < AddDate 0 0 1 t" "day_start t \<Longrightarrow> day_start (AddDate 0 0 1 t)"
  "day_start t \<Longrightarrow> t < s \<Longrightarrow> s < AddDate 0 0 1 t \<Longrightarrow> \<not> day_start s"
  using multiple_facts(1,2,4) [of 86400 t] multiple_facts(3,5) [of 86400 t s]
  by (simp_all add: day_start_floor AddDate_day del: One_nat_def) (simp_all add: day_start_def)

lemma day_in_month:
  assumes "date_of d = (y, m, k)" "k \<le> j" "j \<le> month_len y m"
  shows "date_of (d + (j - k)) = (y, m, j)"
proof -
  have "d + (j - k) = day_no y m j" "valid_date y m j"
    using date_of_valid [OF assms(1)] assms(2,3) by (auto simp: valid_date_def day_no_def)
  then show ?thesis using date_of_day_no by simp
qed

lemma month_days:
  assumes "date_of d = (y, m, 1)"
  shows "d < d' \<Longrightarrow> d' < d + month_len y m \<Longrightarrow> snd (snd (date_of d')) \<noteq> 1"
    "snd (snd (date_of (d + month_len y m))) = 1"
proof -
  show "snd (snd (date_of d')) \<noteq> 1" if "d < d'" "d' < d + month_len y m"
    using day_in_month [OF assms, of "d' - d + 1"] that by simp
  have "d + month_len y m = Suc (d + (month_len y m - 1))" using month_len_pos [of y m] by simp
  then show "snd (snd (date_of (d + month_len y m))) = 1"
    using day_in_month [OF assms, of "month_len y m"] month_len_pos [of y m]
    by (simp only: date_of_Suc) (simp add: next_date_def Suc_leI)
qed

lemma first_of_month_iff: "first_of_month s \<longleftrightarrow> (\<exists>d. s = d * 86400 \<and> snd (snd (date_of d)) = 1)"
  by (auto simp: first_of_month_def day_start_def Day_def)

lemma month_first_date:
  "date_of (t div 86400 - (Day t - 1)) = (Year t, Month t, 1)"
proof -
  have "valid_date (Year t) (Month t) 1" "t div 86400 - (Day t - 1) = day_no (Year t) (Month t) 1"
    using date_fields_valid [of t] month_len_pos [of "Year t" "Month t"] date_of_valid(2) [OF date_fields, of t]
    by (auto simp: valid_date_def day_no_def)
  then show ?thesis using date_of_day_no by simp
qed

lemma month_facts:
  "Date (Year t) (Month t) 1 0 0 0 \<le> t" "first_of_month (Date (Year t) (Month t) 1 0 0 0)"
  "Date (Year t) (Month t) 1 0 0 0 < s \<Longrightarrow> s \<le> t \<Longrightarrow> \<not> first_of_month s"
  "first_of_month t \<Longrightarrow> t < AddDate 0 1 0 t" "first_of_month t \<Longrightarrow> first_of_month (AddDate 0 1 0 t)"
  "first_of_month t \<Longrightarrow> t < s \<Longrightarrow> s < AddDate 0 1 0 t \<Longrightarrow> \<not> first_of_month s"
proof -
  let ?f = "t div 86400 - (Day t - 1)"
  note f = month_first_date [of t]
  have k: "1 \<le> Day t" "Day t \<le> month_len (Year t) (Month t)" using date_fields_valid [of t] by (simp_all add: valid_date_def)
  have "?f * 86400 \<le> t div 86400 * 86400" by (rule mult_le_mono1) simp
  also have "\<dots> \<le> t" by simp
  finally show "Date (Year t) (Month t) 1 0 0 0 \<le> t" by (simp only: month_start_floor)
  show "first_of_month (Date (Year t) (Month t) 1 0 0 0)"
    unfolding month_start_floor first_of_month_iff using f by (intro exI [of _ ?f]) simp
  show "\<not> first_of_month s" if "Date (Year t) (Month t) 1 0 0 0 < s" "s \<le> t"
  proof
    assume "first_of_month s"
    then obtain d where d: "s = d * 86400" "snd (snd (date_of d)) = 1" by (auto simp: first_of_month_iff)
    have "?f < d" using that(1) unfolding d(1) month_start_floor by simp
    moreover have "d \<le> t div 86400" using that(2) d(1) by (simp add: less_eq_div_iff_mult_less_eq)
    moreover from this have "d < ?f + month_len (Year t) (Month t)" using k by linarith
    ultimately show False using month_days(1) [OF f] d(2) by blast
  qed
  assume al: "first_of_month t"
  have t: "t div 86400 * 86400 = t" and d1: "Day t = 1" using al by (auto simp: first_of_month_def day_start_def)
  have f': "date_of (t div 86400) = (Year t, Month t, 1)" using f d1 by simp
  note a = AddDate_month [OF al]
  have a': "AddDate 0 1 0 t = (t div 86400 + month_len (Year t) (Month t)) * 86400"
    using a t by (simp add: algebra_simps)
  show "t < AddDate 0 1 0 t" using a month_len_pos [of "Year t" "Month t"] by simp
  show "first_of_month (AddDate 0 1 0 t)" unfolding first_of_month_iff a'
    using month_days(2) [OF f'] by (intro exI [of _ "t div 86400 + month_len (Year t) (Month t)"]) simp
  show "\<not> first_of_month s" if "t < s" "s < AddDate 0 1 0 t"
  proof
    assume "first_of_month s"
    then obtain d where d: "s = d * 86400" "snd (snd (date_of d)) = 1" by (auto simp: first_of_month_iff)
    have "t div 86400 < d" using that(1) d(1) t by (metis mult_less_cancel2)
    moreover have "d < t div 86400 + month_len (Year t) (Month t)" using that(2) d(1) unfolding a' by simp
    ultimately show False using month_days(1) [OF f', of d] d(2) by simp
  qed
qed

lemma cron_ready_Suc:
  "cron_outer e 2 t \<Longrightarrow> day_start (Suc t) \<Longrightarrow> cron_ready e (Suc t)"
  "cron_outer e 3 t \<Longrightarrow> hour_start (Suc t) \<Longrightarrow> cron_ready e (Suc t)"
  "cron_outer e 4 t \<Longrightarrow> minute_start (Suc t) \<Longrightarrow> cron_ready e (Suc t)"
  unfolding cron_ready_def cron_outer_def
  using Month_inside [of t] matchDay_inside [of t e] Hour_inside [of t] Minute_inside [of t] coarser_starts [of "Suc t"]
  by auto

lemma cron_ready_units:
  "cron_ready e t \<Longrightarrow> cron_hit (Month t) (cr_month e) \<or> first_of_month t" "cron_ready e t \<Longrightarrow> matchDay e t \<or> day_start t"
  "cron_ready e t \<Longrightarrow> cron_hit (Hour t) (cr_hour e) \<or> hour_start t"
  "cron_ready e t \<Longrightarrow> cron_hit (Minute t) (cr_min e) \<or> minute_start t"
  by (simp_all add: cron_ready_def)

lemma cron_matches_units:
  "cron_matches e t \<Longrightarrow> cron_hit (Month t) (cr_month e)" "cron_matches e t \<Longrightarrow> matchDay e t"
  "cron_matches e t \<Longrightarrow> cron_hit (Hour t) (cr_hour e)" "cron_matches e t \<Longrightarrow> cron_hit (Minute t) (cr_min e)"
  "cron_matches e t \<Longrightarrow> cron_hit (Second t) (cr_sec e)"
  by (simp_all add: cron_matches_def)

lemma year_starts: "first_of_year t \<Longrightarrow> day_start t" "first_of_year t \<Longrightarrow> hour_start t" "first_of_year t \<Longrightarrow> minute_start t"
  using coarser_starts by blast+

lemmas unit_laws = coarser_starts ahead ahead_year cron_ready_units cron_ready_Suc cron_ready_starts
  cron_matches_units cron_outer_inside year_starts

text \<open>The five loops are loops of this kind.\<close>

interpretation months: cron_stage "\<lambda>t. cron_hit (Month t) (cr_month e)" "\<lambda>t. Date (Year t) (Month t) 1 0 0 0"
  "AddDate 0 1 0" "\<lambda>t. Month t = 1" first_of_month first_of_year
  "\<lambda>t. True" "cron_matches e" "cron_ready e" first_of_year for e
  by unfold_locales (fact month_facts unit_laws | (auto simp: Month_inside first_of_year_def cron_ready_starts(4))[1])+

interpretation days: cron_stage "matchDay e" "\<lambda>t. Date (Year t) (Month t) (Day t) 0 0 0"
  "AddDate 0 0 1" "\<lambda>t. Day t = 1" day_start first_of_month
  "cron_outer e 1" "cron_matches e" "cron_ready e" first_of_year for e
  by unfold_locales (fact day_facts unit_laws matchDay_inside | (auto simp: first_of_month_def cron_ready_starts(4))[1])+

lemma hour_facts:
  "Truncate 0 3600 t \<le> t" "hour_start (Truncate 0 3600 t)" "Truncate 0 3600 t < s \<Longrightarrow> s \<le> t \<Longrightarrow> \<not> hour_start s"
  "hour_start t \<Longrightarrow> hour_start (t + 3600)" "hour_start t \<Longrightarrow> t < s \<Longrightarrow> s < t + 3600 \<Longrightarrow> \<not> hour_start s"
  using multiple_facts(1,2,4) [of 3600 t] multiple_facts(3,5) [of 3600 t s]
  by (simp_all add: Truncate_units hour_start_def)

lemma minute_facts:
  "Truncate 0 60 t \<le> t" "minute_start (Truncate 0 60 t)" "Truncate 0 60 t < s \<Longrightarrow> s \<le> t \<Longrightarrow> \<not> minute_start s"
  "minute_start t \<Longrightarrow> minute_start (t + 60)" "minute_start t \<Longrightarrow> t < s \<Longrightarrow> s < t + 60 \<Longrightarrow> \<not> minute_start s"
  using multiple_facts(1,2,4) [of 60 t] multiple_facts(3,5) [of 60 t s]
  by (simp_all add: Truncate_units minute_start_def)

interpretation hours: cron_stage "\<lambda>t. cron_hit (Hour t) (cr_hour e)" "Truncate 0 3600"
  "\<lambda>t. t + 3600" "\<lambda>t. Hour t = 0" hour_start day_start
  "cron_outer e 2" "cron_matches e" "cron_ready e" first_of_year for e
  by unfold_locales (fact hour_facts unit_laws Hour_0 | (auto simp: Hour_inside)[1])+

interpretation minutes: cron_stage "\<lambda>t. cron_hit (Minute t) (cr_min e)" "Truncate 0 60"
  "\<lambda>t. t + 60" "\<lambda>t. Minute t = 0" minute_start hour_start
  "cron_outer e 3" "cron_matches e" "cron_ready e" first_of_year for e
  by unfold_locales (fact minute_facts unit_laws Minute_0 | (auto simp: Minute_inside)[1])+

interpretation seconds: cron_stage "\<lambda>t. cron_hit (Second t) (cr_sec e)" "\<lambda>t. t"
  "\<lambda>t. t + 1" "\<lambda>t. Second t = 0" "\<lambda>t. True" minute_start
  "cron_outer e 4" "cron_matches e" "cron_ready e" first_of_year for e
  by unfold_locales (fact unit_laws | (auto simp: Second_def minute_start_def)[1])+

section \<open>The search\<close>

text \<open>What a loop promises from \<open>t\<close>: \<open>P\<close> is what matches when it does not leave by \<^verbatim>\<open>goto retry\<close>.\<close>

definition searched :: "CronExpr \<Rightarrow> time \<Rightarrow> (time \<Rightarrow> bool) \<Rightarrow> bool \<times> bool \<times> time \<Rightarrow> bool" where
  "searched e t P = (\<lambda>(r, i, u). t \<le> u \<and> (\<forall>s. t \<le> s \<and> s < u \<longrightarrow> \<not> cron_matches e s) \<and>
     (\<forall>s. t < s \<and> s < u \<longrightarrow> \<not> first_of_year s) \<and> (i \<longrightarrow> cron_ready e u) \<and>
     (if r then t < u \<and> i else P u \<and> (t < u \<longrightarrow> \<not> first_of_year u)))"

lemma cron_outer_0: "cron_outer e 0 t" by (simp add: cron_outer_def)

lemma cron_outer_step:
  "cron_hit (Month t) (cr_month e) \<Longrightarrow> cron_outer e 1 t" "cron_outer e 1 t \<Longrightarrow> matchDay e t \<Longrightarrow> cron_outer e 2 t"
  "cron_outer e 2 t \<Longrightarrow> cron_hit (Hour t) (cr_hour e) \<Longrightarrow> cron_outer e 3 t"
  "cron_outer e 3 t \<Longrightarrow> cron_hit (Minute t) (cr_min e) \<Longrightarrow> cron_outer e 4 t"
  "cron_outer e 4 t \<Longrightarrow> cron_hit (Second t) (cr_sec e) \<Longrightarrow> cron_matches e t"
  by (auto simp: cron_outer_def cron_matches_def)

lemma loops_search:
  assumes "i \<longrightarrow> cron_ready e t"
  shows "\<exists>x. month_loop e i t = Some x \<and> searched e t (cron_outer e 1) x"
    "cron_outer e 1 t \<Longrightarrow> \<exists>x. day_loop e i t = Some x \<and> searched e t (cron_outer e 2) x"
    "cron_outer e 2 t \<Longrightarrow> \<exists>x. hour_loop e 0 i t = Some x \<and> searched e t (cron_outer e 3) x"
    "cron_outer e 3 t \<Longrightarrow> \<exists>x. minute_loop e 0 i t = Some x \<and> searched e t (cron_outer e 4) x"
    "cron_outer e 4 t \<Longrightarrow> \<exists>x. second_loop e i t = Some x \<and> searched e t (cron_matches e) x"
proof -
  have w: "\<exists>x. f = Some x \<and> searched e t Q x"
    if "\<exists>r j u. f = Some (r, j, u) \<and> t \<le> u \<and> (\<forall>s. t \<le> s \<and> s < u \<longrightarrow> \<not> cron_matches e s) \<and>
          (\<forall>s. t < s \<and> s < u \<longrightarrow> \<not> first_of_year s) \<and> (j \<longrightarrow> cron_ready e u) \<and>
          (if r then t < u \<and> j else P u \<and> R u \<and> (t < u \<longrightarrow> \<not> first_of_year u))" "\<And>u. P u \<Longrightarrow> R u \<Longrightarrow> Q u"
    for f P R Q
    using that(1) by (elim ex_forward exE) (use that(2) in \<open>auto simp: searched_def split: if_splits\<close>)
  show "\<exists>x. month_loop e i t = Some x \<and> searched e t (cron_outer e 1) x"
    unfolding month_loop_def by (rule w [OF months.stage [OF assms TrueI]]) (rule cron_outer_step)
  show "\<exists>x. day_loop e i t = Some x \<and> searched e t (cron_outer e 2) x" if "cron_outer e 1 t"
    unfolding day_loop_def by (rule w [OF days.stage [OF assms that]]) (rule cron_outer_step)
  show "\<exists>x. hour_loop e 0 i t = Some x \<and> searched e t (cron_outer e 3) x" if "cron_outer e 2 t"
    unfolding hour_loop_def by (rule w [OF hours.stage [OF assms that]]) (rule cron_outer_step)
  show "\<exists>x. minute_loop e 0 i t = Some x \<and> searched e t (cron_outer e 4) x" if "cron_outer e 3 t"
    unfolding minute_loop_def by (rule w [OF minutes.stage [OF assms that]]) (rule cron_outer_step)
  show "\<exists>x. second_loop e i t = Some x \<and> searched e t (cron_matches e) x" if "cron_outer e 4 t"
    unfolding second_loop_def by (rule w [OF seconds.stage [OF assms that]]) (rule cron_outer_step)
qed

lemma searched_trans:
  assumes "searched e t P (False, i, u)" "searched e u Q x"
  shows "searched e t Q x"
proof (cases x)
  case (fields r j v)
  have a: "t \<le> u" "\<forall>s. t \<le> s \<and> s < u \<longrightarrow> \<not> cron_matches e s" "\<forall>s. t < s \<and> s < u \<longrightarrow> \<not> first_of_year s"
    "t < u \<longrightarrow> \<not> first_of_year u"
    using assms(1) by (simp_all add: searched_def)
  have b: "u \<le> v" "\<forall>s. u \<le> s \<and> s < v \<longrightarrow> \<not> cron_matches e s" "\<forall>s. u < s \<and> s < v \<longrightarrow> \<not> first_of_year s"
    "j \<longrightarrow> cron_ready e v" "if r then u < v \<and> j else Q v \<and> (u < v \<longrightarrow> \<not> first_of_year v)"
    using assms(2) fields by (simp_all add: searched_def)
  have "\<forall>s. t \<le> s \<and> s < v \<longrightarrow> \<not> cron_matches e s" using a(2) b(2) by (meson not_le)
  moreover have "\<forall>s. t < s \<and> s < v \<longrightarrow> \<not> first_of_year s" using a(1,3,4) b(3) by (metis linorder_neqE_nat)
  moreover have "if r then t < v \<and> j else Q v \<and> (t < v \<longrightarrow> \<not> first_of_year v)"
    using a(1,4) b(1,5) by (cases "u = v") (auto split: if_splits)
  ultimately show ?thesis using fields a(1) b(1,4) by (simp add: searched_def)
qed

lemma unless_retry_search:
  assumes "\<exists>x. m = Some x \<and> searched e t P x"
    "\<And>i u. i \<longrightarrow> cron_ready e u \<Longrightarrow> P u \<Longrightarrow> \<exists>x. k i u = Some x \<and> searched e u Q x"
  shows "\<exists>x. unless_retry m k = Some x \<and> searched e t Q x"
proof -
  obtain r i u where m: "m = Some (r, i, u)" "searched e t P (r, i, u)" using assms(1) by auto
  show ?thesis
  proof (cases r)
    case True
    then show ?thesis using m by (simp add: unless_retry_def searched_def)
  next
    case False
    then have "i \<longrightarrow> cron_ready e u" "P u" using m(2) by (simp_all add: searched_def)
    then show ?thesis using assms(2) m False searched_trans by (fastforce simp: unless_retry_def)
  qed
qed

lemma Next_pass_search:
  "i \<longrightarrow> cron_ready e t \<Longrightarrow> \<exists>x. Next_pass e 0 i t = Some x \<and> searched e t (cron_matches e) x"
  unfolding Next_pass_def
  by (rule unless_retry_search [OF loops_search(1)], assumption, rule unless_retry_search [OF loops_search(2)],
      assumption+, rule unless_retry_search [OF loops_search(3)], assumption+,
      rule unless_retry_search [OF loops_search(4)], assumption+, rule loops_search(5)) assumption+

definition first_match :: "CronExpr \<Rightarrow> time \<Rightarrow> nat \<Rightarrow> time option \<Rightarrow> bool" where
  "first_match e t y r =
     (case r of
        None \<Rightarrow> (\<forall>s\<ge>t. Year s \<le> y \<longrightarrow> \<not> cron_matches e s)
      | Some u \<Rightarrow> t \<le> u \<and> Year u \<le> y \<and> cron_matches e u \<and> (\<forall>s. t \<le> s \<and> s < u \<longrightarrow> \<not> cron_matches e s))"

lemma Next_retry_search:
  "i \<longrightarrow> cron_ready e t \<Longrightarrow> \<exists>r. Next_retry e 0 y i t = Some r \<and> first_match e t (y + 1) r"
proof (induction "year_start (y + 2) * 86400 - t" arbitrary: i t rule: less_induct)
  case less
  show ?case
  proof (cases "Year t > y + 1")
    case True
    then have "Next_retry e 0 y i t = Some None" by (simp add: Next_retry.simps)
    moreover have "first_match e t (y + 1) None"
      using True Year_mono [of t] by (fastforce simp: first_match_def)
    ultimately show ?thesis by blast
  next
    case False
    then have tb: "t < year_start (y + 2) * 86400" using Year_lt [of t "y + 1"] by simp
    obtain r j u where p: "Next_pass e 0 i t = Some (r, j, u)" and s: "searched e t (cron_matches e) (r, j, u)"
      using Next_pass_search [OF less.prems] by auto
    have eq: "Next_retry e 0 y i t = (if r then Next_retry e 0 y j u else Some (Some u))"
      using False p by (subst Next_retry.simps) simp
    show ?thesis
    proof (cases r)
      case True
      then have u: "t < u" "j \<longrightarrow> cron_ready e u" "\<forall>s. t \<le> s \<and> s < u \<longrightarrow> \<not> cron_matches e s"
        using s by (simp_all add: searched_def)
      then obtain q where q: "Next_retry e 0 y j u = Some q" "first_match e u (y + 1) q"
        using less.hyps [of u j] tb by (meson diff_less_mono2)
      have "first_match e t (y + 1) q"
        using q(2) u(1,3) by (auto simp: first_match_def split: option.splits) (meson not_le)+
      then show ?thesis using eq True q(1) by simp
    next
      case nr: False
      have u: "t \<le> u" "cron_matches e u" "\<forall>s. t \<le> s \<and> s < u \<longrightarrow> \<not> cron_matches e s"
        "\<And>s. t < s \<Longrightarrow> s \<le> u \<Longrightarrow> \<not> first_of_year s"
        using s nr by (auto simp: searched_def le_less)
      have "Year u = Year t"
      proof (rule const_between [where al = first_of_year and f = Year])
        show "\<not> first_of_year s" if "t < s" "s \<le> u" for s using u(4) that by blast
      qed (use Year_inside u(1) in blast)+
      then have "first_match e t (y + 1) (Some u)" using u False by (simp add: first_match_def)
      then show ?thesis using eq nr by simp
    qed
  qed
qed

end
