(* ===== verification/CronParse.thy ===== *)
theory CronParse
  imports CronNext
begin

text \<open>
  What the text of a cron expression means (\<^verbatim>\<open>src/util/timer/cronexpr.go\<close>).
  \<^item> \<open>cron_item\<close> has one constructor for each of the six forms listed above \<^verbatim>\<open>parseCronField\<close>; \<open>item_text\<close>
    writes a form and \<open>item_set\<close> is the set of numbers it stands for. A field is a list of items.
  \<^item> \<open>scheduled\<close> reads six fields as sets of numbers: the reference for the parser and for \<open>Next\<close> together.
  Shown: the parser ends on every text, sets no bit above the field's range, and gives the bits of exactly the numbers
  a written field stands for, where no increment is near the largest \<^verbatim>\<open>int\<close>.
\<close>

section \<open>Setting the bits of an item\<close>

lemma bit_shl1: "bit (shl1 i) j \<longleftrightarrow> 0 \<le> i \<and> i < 64 \<and> j = nat i"
  by (auto simp: shl1_def push_bit_of_1 bit_exp_iff)

lemma wrap64_over: "2 ^ 63 \<le> x \<Longrightarrow> x < 2 ^ 63 + 2 ^ 64 \<Longrightarrow> wrap64 x = x - 2 ^ 64"
proof -
  assume x: "2 ^ 63 \<le> x" "x < 2 ^ 63 + 2 ^ 64"
  have "wrap64 x = (x + 2 ^ 63) mod 2 ^ 64 - 2 ^ 63"
    by (simp add: wrap64_def signed_take_bit_eq_take_bit_shift take_bit_eq_mod)
  moreover have "(x + 2 ^ 63) mod 2 ^ 64 = (x + 2 ^ 63 - 2 ^ 64) mod 2 ^ 64"
    by (rule minus_mod_self2 [symmetric])
  moreover have "\<dots> = x + 2 ^ 63 - 2 ^ 64" using x by (intro mod_pos_pos_trivial) simp_all
  ultimately show ?thesis by simp
qed

lemma incr_bits_upto:
  assumes "incr_bits i e inc f = Some w" "bit w j"
  shows "bit f j \<or> int j \<le> e"
proof -
  have "bit w j \<longrightarrow> bit f j \<or> int j \<le> e"
  proof (rule incr_bits.raw_induct [OF _ assms(1)])
    fix rec i e inc and f w :: "64 word"
    assume IH: "\<And>i e inc f w. rec i e inc f = Some w \<Longrightarrow> bit w j \<longrightarrow> bit f j \<or> int j \<le> e"
      and r: "(if i \<le> e then rec (wrap64 (i + inc)) e inc (f OR shl1 i) else Some f) = Some w"
    show "bit w j \<longrightarrow> bit f j \<or> int j \<le> e"
      using r IH [of "wrap64 (i + inc)" e inc "f OR shl1 i" w] by (auto simp: bit_or_iff bit_shl1 split: if_splits)
  qed
  then show ?thesis using assms(2) by blast
qed

text \<open>Where no addition overflows, the loop sets every increment-th bit.\<close>

lemma incr_bits_plain:
  assumes "0 \<le> i" "1 \<le> inc" "e < 64" "inc + 64 \<le> 2 ^ 63"
  shows "\<exists>w. incr_bits i e inc f = Some w \<and>
    (\<forall>j. bit w j \<longleftrightarrow> bit f j \<or> int j \<le> e \<and> i \<le> int j \<and> (int j - i) mod inc = 0)"
  using assms(1)
proof (induction "nat (e + 1 - i)" arbitrary: i f rule: less_induct)
  case less
  show ?case
  proof (cases "i \<le> e")
    case False
    then show ?thesis by (subst incr_bits.simps) auto
  next
    case True
    have wr: "wrap64 (i + inc) = i + inc" using less.prems True assms by (intro wrap64_nonneg) simp_all
    obtain w where w: "incr_bits (i + inc) e inc (f OR shl1 i) = Some w"
        "\<And>j. bit w j \<longleftrightarrow> bit (f OR shl1 i) j \<or> int j \<le> e \<and> i + inc \<le> int j \<and> (int j - (i + inc)) mod inc = 0"
      using less.hyps [of "i + inc" "f OR shl1 i"] less.prems assms(2) True by auto
    have "bit w j \<longleftrightarrow> bit f j \<or> int j \<le> e \<and> i \<le> int j \<and> (int j - i) mod inc = 0" for j
    proof -
      have m: "(int j - (i + inc)) mod inc = (int j - i) mod inc"
        using minus_mod_self2 [of "int j - i" inc] by (simp add: algebra_simps)
      have "i + inc \<le> int j" if "(int j - i) mod inc = 0" "i < int j"
        using zdvd_imp_le [of inc "int j - i"] that by (simp add: mod_eq_0_iff_dvd)
      moreover have "j = nat i \<longleftrightarrow> int j = i" using less.prems by auto
      ultimately show ?thesis using w(2) [of j] m True less.prems assms(2,3)
        by (auto simp: bit_or_iff bit_shl1)
    qed
    then show ?thesis using w(1) True wr by (subst incr_bits.simps) auto
  qed
qed

text \<open>The loop ends for every positive increment, also when \<^verbatim>\<open>i += incr\<close> overflows.\<close>

lemma incr_bits_ends:
  assumes "- (2 ^ 63) \<le> i" "i \<le> e" "0 < inc" "inc < 2 ^ 63" "- 1 \<le> e" "e < 64"
  shows "\<exists>w. incr_bits i e inc f = Some w"
proof -
  have stop: "e < i \<Longrightarrow> \<exists>w. incr_bits i e inc f = Some w" for i f by (subst incr_bits.simps) simp
  have step: "\<exists>w. incr_bits i e inc f = Some w"
    if "\<And>f. \<exists>w. incr_bits (wrap64 (i + inc)) e inc f = Some w" for i f
    using that by (subst incr_bits.simps) simp
  show ?thesis
  proof (cases "e + inc < 2 ^ 63")
    case small: True
    show ?thesis using assms(1,2)
    proof (induction "nat (e + 1 - i)" arbitrary: i f rule: less_induct)
      case less
      have w: "wrap64 (i + inc) = i + inc" using less.prems assms(3) small by (intro wrap64_id) linarith+
      show ?case
        using less.hyps [of "i + inc"] less.prems assms(3) stop [of "i + inc"]
        by (cases "i + inc \<le> e") (rule step; simp add: w)+
    qed
  next
    case big: False
    let ?m = "\<lambda>i. if i < - (2 ^ 62) then 2 * (i + inc) + 401 else 2 * i + 400"
    show ?thesis using assms(1,2)
    proof (induction "nat (?m i)" arbitrary: i f rule: less_induct)
      case less
      let ?n = "wrap64 (i + inc)"
      show ?case
      proof (rule step, cases "?n \<le> e")
        case False
        then show "\<exists>w. incr_bits ?n e inc f = Some w" for f using stop by simp
      next
        case True
        have "?m ?n < ?m i \<and> 0 < ?m i"
        proof (cases "i + inc < 2 ^ 63")
          case lo: True
          have "?n = i + inc" using lo less.prems assms(3) by (intro wrap64_id) linarith+
          then show ?thesis using True big less.prems assms(5,6) by auto
        next
          case hi: False
          have "?n = i + inc - 2 ^ 64" using hi less.prems assms by (intro wrap64_over) simp_all
          then show ?thesis using True big hi less.prems assms(4,5,6) by auto
        qed
        then show "\<exists>w. incr_bits ?n e inc f = Some w" for f
          using less.hyps [of ?n f] wrap64_range(1) [of "i + inc"] True by simp
      qed
    qed
  qed
qed

lemma bit_mask_item:
  assumes "0 \<le> a" "a \<le> b" "b < 64"
  shows "bit (NOT (push_bit (nat (b + 1)) (- 1)) AND push_bit (nat a) (- 1) :: 64 word) j \<longleftrightarrow> a \<le> int j \<and> int j \<le> b"
  using assms by (auto simp: bit_and_iff bit_not_iff bit_push_bit_iff bit_mask_iff)

text \<open>The bits of one item: all of them with increment 1, every increment-th one otherwise.\<close>

lemma item_bits_plain:
  assumes "0 \<le> a" "a \<le> b" "b < 64" "1 \<le> inc" "inc + 64 \<le> 2 ^ 63"
  shows "\<exists>w. item_bits a b inc f = Some w \<and>
    (\<forall>j. bit w j \<longleftrightarrow> bit f j \<or> int j \<le> b \<and> a \<le> int j \<and> (int j - a) mod inc = 0)"
proof (cases "inc = 1")
  case True
  then show ?thesis using bit_mask_item [OF assms(1-3)] by (auto simp: item_bits_def bit_or_iff)
next
  case False
  then show ?thesis using incr_bits_plain [of a inc b f] assms by (simp add: item_bits_def)
qed

lemma item_bits_ends:
  assumes "0 \<le> a" "a \<le> b" "b < 64" "1 \<le> inc" "inc < 2 ^ 63"
  shows "\<exists>w. item_bits a b inc f = Some w \<and> (\<forall>j. bit w j \<longrightarrow> bit f j \<or> int j \<le> b)"
proof (cases "inc = 1")
  case True
  then show ?thesis using bit_mask_item [OF assms(1-3)] by (auto simp: item_bits_def bit_or_iff)
next
  case False
  then obtain w where w: "item_bits a b inc f = Some w" "incr_bits a b inc f = Some w"
    using incr_bits_ends [of a b inc f] assms by (auto simp: item_bits_def)
  then show ?thesis using incr_bits_upto [OF w(2)] by blast
qed

section \<open>Every text is answered\<close>

lemma Atoi_range: "Atoi s = Some x \<Longrightarrow> in_int64 x"
  by (auto simp: Atoi_def Let_def split: list.splits if_splits option.splits)

lemma parse_item_range:
  assumes "parse_item field lo hi = Inr (a, b, inc)"
  shows "lo \<le> a" "a \<le> b" "b \<le> hi" "1 \<le> inc" "inc < 2 ^ 63"
proof -
  obtain r where r: "item_range field lo hi = Inr r" "item_incr field = Inr inc" "lo \<le> a" "a \<le> b" "b \<le> hi"
    using assms by (auto simp: parse_item_def Let_def split: if_splits sum.splits prod.splits)
  then show "lo \<le> a" "a \<le> b" "b \<le> hi" by blast+
  show "1 \<le> inc" "inc < 2 ^ 63"
    using r(2) by (auto simp: item_incr_def Let_def in_int64_def split: if_splits option.splits dest: Atoi_range)
qed

lemma parse_items_ends:
  assumes "0 \<le> lo" "hi < 64"
  shows "\<exists>r. parse_items fs lo hi f = Some r \<and> (\<forall>w. r = Inr w \<longrightarrow> (\<forall>j. bit w j \<longrightarrow> bit f j \<or> int j \<le> hi))"
proof (induction fs arbitrary: f)
  case (Cons x xs)
  show ?case
  proof (cases "parse_item x lo hi")
    case (Inr p)
    obtain a b inc where p: "p = (a, b, inc)" by (cases p)
    note q = parse_item_range [OF Inr [unfolded p]]
    obtain w where w: "item_bits a b inc f = Some w" "\<forall>j. bit w j \<longrightarrow> bit f j \<or> int j \<le> b"
      using item_bits_ends [of a b inc f] q assms by auto
    obtain r where r: "parse_items xs lo hi w = Some r"
      "\<forall>v. r = Inr v \<longrightarrow> (\<forall>j. bit v j \<longrightarrow> bit w j \<or> int j \<le> hi)" using Cons.IH [of w] by blast
    have "\<forall>v. r = Inr v \<longrightarrow> (\<forall>j. bit v j \<longrightarrow> bit f j \<or> int j \<le> hi)"
      using r(2) w(2) q(3) by (auto dest: order_trans)
    then show ?thesis using r(1) w(1) Inr p by simp
  qed simp
qed simp

lemma parseCronField_ends:
  assumes "0 \<le> lo" "hi < 64"
  obtains r where "parseCronField field lo hi = Some r" "\<And>w j. r = Inr w \<Longrightarrow> bit w j \<Longrightarrow> int j \<le> hi"
  using parse_items_ends [OF assms, of "Split CHR '','' field" 0] by (auto simp: parseCronField_def)

lemma with_field_ends:
  assumes "0 \<le> lo" "hi < 64" "\<And>w. (\<And>j. bit w j \<Longrightarrow> int j \<le> hi) \<Longrightarrow> \<exists>r. k w = Some r \<and> P r" "\<And>e. P (Inl e)"
  shows "\<exists>r. with_field expr field lo hi k = Some r \<and> P r"
proof -
  obtain r where r: "parseCronField field lo hi = Some r" "\<And>w j. r = Inr w \<Longrightarrow> bit w j \<Longrightarrow> int j \<le> hi"
    using parseCronField_ends [OF assms(1,2)] by blast
  then show ?thesis using assms(3,4) by (cases r) (auto simp: with_field_def)
qed

definition cron_bounds :: "CronExpr \<Rightarrow> bool" where
  "cron_bounds e \<longleftrightarrow> (\<forall>j. (bit (cr_sec e) j \<longrightarrow> j \<le> 59) \<and> (bit (cr_min e) j \<longrightarrow> j \<le> 59) \<and> (bit (cr_hour e) j \<longrightarrow> j \<le> 23) \<and>
     (bit (cr_dom e) j \<longrightarrow> j \<le> 31) \<and> (bit (cr_month e) j \<longrightarrow> j \<le> 12) \<and> (bit (cr_dow e) j \<longrightarrow> j \<le> 6))"

lemma NewCronExpr_ends:
  "\<exists>r. NewCronExpr expr = Some r \<and> (case r of Inl _ \<Rightarrow> True | Inr e \<Rightarrow> cron_bounds e)"
proof -
  let ?P = "\<lambda>r. case r of Inl _ \<Rightarrow> True | Inr e \<Rightarrow> cron_bounds e"
  show ?thesis
  proof (cases "length (Fields expr) \<noteq> 5 \<and> length (Fields expr) \<noteq> 6")
    case False
    then show ?thesis unfolding NewCronExpr_def Let_def if_not_P [OF False]
      by (intro with_field_ends [where P = ?P]) (auto simp: cron_bounds_def)
  qed (simp add: NewCronExpr_def)
qed

section \<open>Written fields\<close>

datatype cron_item =
    Star
  | Num nat
  | Range nat nat
  | StarStep nat
  | NumStep nat nat
  | RangeStep nat nat nat

fun item_text :: "cron_item \<Rightarrow> string" where
  "item_text Star = ''*''"
| "item_text (Num a) = Itoa_nat a"
| "item_text (Range a b) = Itoa_nat a @ CHR ''-'' # Itoa_nat b"
| "item_text (StarStep k) = CHR ''*'' # CHR ''/'' # Itoa_nat k"
| "item_text (NumStep a k) = Itoa_nat a @ CHR ''/'' # Itoa_nat k"
| "item_text (RangeStep a b k) = Itoa_nat a @ CHR ''-'' # Itoa_nat b @ CHR ''/'' # Itoa_nat k"

text \<open>The first number, the last one and the increment of an item.\<close>

fun item_triple :: "nat \<Rightarrow> nat \<Rightarrow> cron_item \<Rightarrow> nat \<times> nat \<times> nat" where
  "item_triple lo hi Star = (lo, hi, 1)"
| "item_triple lo hi (Num a) = (a, a, 1)"
| "item_triple lo hi (Range a b) = (a, b, 1)"
| "item_triple lo hi (StarStep k) = (lo, hi, k)"
| "item_triple lo hi (NumStep a k) = (a, hi, k)"
| "item_triple lo hi (RangeStep a b k) = (a, b, k)"

definition item_set :: "nat \<Rightarrow> nat \<Rightarrow> cron_item \<Rightarrow> nat set" where
  "item_set lo hi it = (case item_triple lo hi it of (a, b, k) \<Rightarrow> {j. a \<le> j \<and> j \<le> b \<and> (j - a) mod k = 0})"

definition item_ok :: "nat \<Rightarrow> nat \<Rightarrow> cron_item \<Rightarrow> bool" where
  "item_ok lo hi it \<longleftrightarrow> (case item_triple lo hi it of (a, b, k) \<Rightarrow> lo \<le> a \<and> a \<le> b \<and> b \<le> hi \<and> 1 \<le> k \<and> k + 64 \<le> 2 ^ 63)"

fun join :: "char \<Rightarrow> string list \<Rightarrow> string" where
  "join sep [] = []"
| "join sep [x] = x"
| "join sep (x # xs) = x @ sep # join sep xs"

definition field_text :: "cron_item list \<Rightarrow> string" where
  "field_text its = join CHR '','' (map item_text its)"

definition field_ok :: "nat \<Rightarrow> nat \<Rightarrow> cron_item list \<Rightarrow> bool" where
  "field_ok lo hi its \<longleftrightarrow> its \<noteq> [] \<and> list_all (item_ok lo hi) its"

definition field_set :: "nat \<Rightarrow> nat \<Rightarrow> cron_item list \<Rightarrow> nat set" where
  "field_set lo hi its = (\<Union>it \<in> set its. item_set lo hi it)"

lemma Split_join: "xs \<noteq> [] \<Longrightarrow> (\<And>x. x \<in> set xs \<Longrightarrow> sep \<notin> set x) \<Longrightarrow> Split sep (join sep xs) = xs"
  by (induction sep xs rule: join.induct) (auto simp: Split_no_sep Split_append)

lemma Itoa_nat_no_punct:
  "CHR ''-'' \<notin> set (Itoa_nat n)" "CHR ''/'' \<notin> set (Itoa_nat n)" "CHR '','' \<notin> set (Itoa_nat n)"
  "CHR ''*'' \<notin> set (Itoa_nat n)"
  by (rule Itoa_nat_chars, simp add: char_digit_def)+

lemma Itoa_nat_not_star: "Itoa_nat n \<noteq> ''*''"
  using Itoa_nat_no_punct(4) [of n] by auto

lemma Atoi_Itoa_nat: "n < 2 ^ 63 \<Longrightarrow> Atoi (Itoa_nat n) = Some (int n)"
  using Atoi_Itoa [of "int n"] by (simp add: Itoa_def in_int64_def)

lemma Split_item:
  "Split CHR ''/'' ''*'' = [''*'']" "Split CHR ''-'' ''*'' = [''*'']"
  "Split CHR ''/'' (CHR ''*'' # CHR ''/'' # Itoa_nat k) = [''*'', Itoa_nat k]"
  "Split CHR ''/'' (Itoa_nat a) = [Itoa_nat a]" "Split CHR ''-'' (Itoa_nat a) = [Itoa_nat a]"
  "Split CHR ''/'' (Itoa_nat a @ CHR ''/'' # Itoa_nat k) = [Itoa_nat a, Itoa_nat k]"
  "Split CHR ''-'' (Itoa_nat a @ CHR ''-'' # Itoa_nat b) = [Itoa_nat a, Itoa_nat b]"
  "Split CHR ''/'' (Itoa_nat a @ CHR ''-'' # Itoa_nat b) = [Itoa_nat a @ CHR ''-'' # Itoa_nat b]"
  "Split CHR ''/'' (Itoa_nat a @ CHR ''-'' # Itoa_nat b @ CHR ''/'' # Itoa_nat k) =
     [Itoa_nat a @ CHR ''-'' # Itoa_nat b, Itoa_nat k]"
  using Split_append [of "CHR ''/''" "''*''" "Itoa_nat k"]
    Split_append [of "CHR ''/''" "Itoa_nat a @ CHR ''-'' # Itoa_nat b" "Itoa_nat k"]
  by (simp_all add: Split_no_sep Split_append Itoa_nat_no_punct)

lemma parse_item_text:
  assumes "item_ok lo hi it" "item_triple lo hi it = (a, b, k)" "hi < 64"
  shows "parse_item (item_text it) (int lo) (int hi) = Inr (int a, int b, int k)"
proof -
  have "n < 2 ^ 63" if "n \<le> hi \<or> n + 64 \<le> 2 ^ 63" for n using that assms(3) by auto
  note n = Atoi_Itoa_nat [OF this]
  show ?thesis using assms
    by (cases it) (auto simp: parse_item_def item_range_def item_incr_def item_ok_def Split_item Itoa_nat_not_star n Let_def)
qed

lemma parse_items_text:
  assumes "list_all (item_ok lo hi) its" "hi < 64"
  shows "\<exists>w. parse_items (map item_text its) (int lo) (int hi) f = Some (Inr w) \<and>
    (\<forall>j. bit w j \<longleftrightarrow> bit f j \<or> j \<in> field_set lo hi its)"
  using assms(1)
proof (induction its arbitrary: f)
  case Nil
  then show ?case by (simp add: field_set_def)
next
  case (Cons it its)
  obtain a b k where t: "item_triple lo hi it = (a, b, k)" by (cases "item_triple lo hi it")
  have ok: "item_ok lo hi it" using Cons.prems by simp
  then have r: "a \<le> b" "b < 64" "1 \<le> k" "k + 64 \<le> 2 ^ 63" using t assms(2) by (auto simp: item_ok_def)
  have "int k + 64 \<le> 2 ^ 63" using r(4) by simp
  then obtain w where w: "item_bits (int a) (int b) (int k) f = Some w"
      "\<And>j. bit w j \<longleftrightarrow> bit f j \<or> int j \<le> int b \<and> int a \<le> int j \<and> (int j - int a) mod int k = 0"
    using item_bits_plain [of "int a" "int b" "int k" f] r by auto
  have s: "bit w j \<longleftrightarrow> bit f j \<or> j \<in> item_set lo hi it" for j
    unfolding w(2) using t by (auto simp: item_set_def of_nat_diff [symmetric] zmod_int [symmetric] simp del: of_nat_diff)
  obtain v where v: "parse_items (map item_text its) (int lo) (int hi) w = Some (Inr v)"
      "\<forall>j. bit v j \<longleftrightarrow> bit w j \<or> j \<in> field_set lo hi its" using Cons by auto
  show ?case using v s w(1) parse_item_text [OF ok t assms(2)] by (auto simp: field_set_def)
qed

lemma item_text_chars:
  "CHR '','' \<notin> set (item_text it)" "\<And>c. is_space c \<Longrightarrow> c \<notin> set (item_text it)" "item_text it \<noteq> []"
proof -
  have i: "c \<notin> set (Itoa_nat n)" if "is_space c" for c n
    using that by (intro Itoa_nat_chars) (auto simp: char_digit_def is_space_def)
  show "CHR '','' \<notin> set (item_text it)" by (cases it) (auto simp: Itoa_nat_no_punct)
  show "c \<notin> set (item_text it)" if "is_space c" for c
    using i [OF that] that by (cases it) (auto simp: is_space_def)
  show "item_text it \<noteq> []" using Itoa_nat_Cons by (cases it) (auto, metis neq_Nil_conv)
qed

lemma parseCronField_text:
  assumes "field_ok lo hi its" "hi < 64"
  obtains w where "parseCronField (field_text its) (int lo) (int hi) = Some (Inr w)"
    "\<And>j. bit w j \<longleftrightarrow> j \<in> field_set lo hi its"
proof -
  have "Split CHR '','' (field_text its) = map item_text its"
    using assms(1) unfolding field_text_def
    by (intro Split_join) (auto simp: field_ok_def item_text_chars)
  then show ?thesis
    using that parse_items_text [of lo hi its 0] assms by (auto simp: parseCronField_def field_ok_def)
qed

section \<open>Written expressions\<close>

record cron_fields =
  fd_sec :: "cron_item list"
  fd_min :: "cron_item list"
  fd_hour :: "cron_item list"
  fd_dom :: "cron_item list"
  fd_month :: "cron_item list"
  fd_dow :: "cron_item list"

definition expr_ok :: "cron_fields \<Rightarrow> bool" where
  "expr_ok c \<longleftrightarrow> field_ok 0 59 (fd_sec c) \<and> field_ok 0 59 (fd_min c) \<and> field_ok 0 23 (fd_hour c) \<and>
     field_ok 1 31 (fd_dom c) \<and> field_ok 1 12 (fd_month c) \<and> field_ok 0 6 (fd_dow c)"

definition expr_text :: "cron_fields \<Rightarrow> string" where
  "expr_text c = join CHR '' '' (map field_text [fd_sec c, fd_min c, fd_hour c, fd_dom c, fd_month c, fd_dow c])"

text \<open>The same expression in the five-field form: the seconds are left out and count as 0.\<close>

definition expr_text5 :: "cron_fields \<Rightarrow> string" where
  "expr_text5 c = join CHR '' '' (map field_text [fd_min c, fd_hour c, fd_dom c, fd_month c, fd_dow c])"

definition expr_means :: "cron_fields \<Rightarrow> CronExpr \<Rightarrow> bool" where
  "expr_means c e \<longleftrightarrow> (\<forall>j. (bit (cr_sec e) j \<longleftrightarrow> j \<in> field_set 0 59 (fd_sec c)) \<and>
     (bit (cr_min e) j \<longleftrightarrow> j \<in> field_set 0 59 (fd_min c)) \<and> (bit (cr_hour e) j \<longleftrightarrow> j \<in> field_set 0 23 (fd_hour c)) \<and>
     (bit (cr_dom e) j \<longleftrightarrow> j \<in> field_set 1 31 (fd_dom c)) \<and> (bit (cr_month e) j \<longleftrightarrow> j \<in> field_set 1 12 (fd_month c)) \<and>
     (bit (cr_dow e) j \<longleftrightarrow> j \<in> field_set 0 6 (fd_dow c)))"

lemma Fields_from_word:
  "(\<And>c. c \<in> set x \<Longrightarrow> \<not> is_space c) \<Longrightarrow> Fields_from cur (x @ s) = Fields_from (cur @ x) s"
  by (induction x arbitrary: cur) auto

lemma Fields_join:
  assumes "\<And>x. x \<in> set xs \<Longrightarrow> x \<noteq> [] \<and> (\<forall>c \<in> set x. \<not> is_space c)"
  shows "Fields (join CHR '' '' xs) = xs"
  using assms
proof (induction "CHR '' ''" xs rule: join.induct)
  case (2 x)
  then show ?case using Fields_from_word [of x "[]" "[]"] by (simp add: Fields_def)
next
  case (3 x y ys)
  have "is_space CHR '' ''" by (simp add: is_space_def)
  moreover have "Fields (join CHR '' '' (y # ys)) = y # ys" by (rule 3(1)) (rule 3(2), simp)
  moreover have "x \<noteq> []" "\<And>c. c \<in> set x \<Longrightarrow> \<not> is_space c" using 3(2) [of x] by auto
  ultimately show ?case using Fields_from_word [of x "[]" "CHR '' '' # join CHR '' '' (y # ys)"] by (simp add: Fields_def)
qed (simp add: Fields_def)

lemma join_chars: "c \<in> set (join sep xs) \<Longrightarrow> c = sep \<or> (\<exists>x \<in> set xs. c \<in> set x)"
  by (induction sep xs rule: join.induct) auto

lemma join_Nil: "join sep xs = [] \<Longrightarrow> xs \<noteq> [] \<Longrightarrow> hd xs = []"
  by (induction sep xs rule: join.induct) auto

lemma field_text_word:
  assumes "field_ok lo hi its"
  shows "field_text its \<noteq> [] \<and> (\<forall>c \<in> set (field_text its). \<not> is_space c)"
proof (intro conjI ballI)
  have ne: "its \<noteq> []" using assms by (simp add: field_ok_def)
  show "field_text its \<noteq> []"
    using join_Nil [of "CHR '',''" "map item_text its"] ne item_text_chars(3) by (auto simp: field_text_def hd_map)
  fix c
  assume "c \<in> set (field_text its)"
  then have "c = CHR '','' \<or> (\<exists>it \<in> set its. c \<in> set (item_text it))"
    using join_chars [of c "CHR '',''" "map item_text its"] by (auto simp: field_text_def)
  then show "\<not> is_space c" using item_text_chars(2) by (auto simp: is_space_def)
qed

text \<open>A written expression parses to the bits of its fields.\<close>

lemma fields_parse:
  assumes ok: "expr_ok c" and f: "Fields expr = map field_text [fd_sec c, fd_min c, fd_hour c, fd_dom c, fd_month c, fd_dow c] \<or>
      Fields expr = map field_text [fd_min c, fd_hour c, fd_dom c, fd_month c, fd_dow c] \<and> field_text (fd_sec c) = ''0''"
  shows "\<exists>e. NewCronExpr expr = Some (Inr e) \<and> expr_means c e"
proof -
  note field = parseCronField_text [of 0 59, simplified] parseCronField_text [of 0 23, simplified]
    parseCronField_text [of 1 31, simplified] parseCronField_text [of 1 12, simplified] parseCronField_text [of 0 6, simplified]
  obtain s where s: "parseCronField (field_text (fd_sec c)) 0 59 = Some (Inr s)" "\<And>j. bit s j \<longleftrightarrow> j \<in> field_set 0 59 (fd_sec c)"
    using field(1) [of "fd_sec c"] ok unfolding expr_ok_def by blast
  obtain m where m: "parseCronField (field_text (fd_min c)) 0 59 = Some (Inr m)" "\<And>j. bit m j \<longleftrightarrow> j \<in> field_set 0 59 (fd_min c)"
    using field(1) [of "fd_min c"] ok unfolding expr_ok_def by blast
  obtain h where h: "parseCronField (field_text (fd_hour c)) 0 23 = Some (Inr h)" "\<And>j. bit h j \<longleftrightarrow> j \<in> field_set 0 23 (fd_hour c)"
    using field(2) [of "fd_hour c"] ok unfolding expr_ok_def by blast
  obtain d where d: "parseCronField (field_text (fd_dom c)) 1 31 = Some (Inr d)" "\<And>j. bit d j \<longleftrightarrow> j \<in> field_set 1 31 (fd_dom c)"
    using parseCronField_text [of 1 31 "fd_dom c"] ok unfolding expr_ok_def by auto
  obtain mo where mo: "parseCronField (field_text (fd_month c)) 1 12 = Some (Inr mo)" "\<And>j. bit mo j \<longleftrightarrow> j \<in> field_set 1 12 (fd_month c)"
    using parseCronField_text [of 1 12 "fd_month c"] ok unfolding expr_ok_def by auto
  obtain w where w: "parseCronField (field_text (fd_dow c)) 0 6 = Some (Inr w)" "\<And>j. bit w j \<longleftrightarrow> j \<in> field_set 0 6 (fd_dow c)"
    using field(5) [of "fd_dow c"] ok unfolding expr_ok_def by blast
  let ?e = "\<lparr>cr_sec = s, cr_min = m, cr_hour = h, cr_dom = d, cr_month = mo, cr_dow = w\<rparr>"
  have "NewCronExpr expr = Some (Inr ?e)"
    using f s(1) m(1) h(1) d(1) mo(1) w(1)
    by (elim disjE conjE) (simp_all add: NewCronExpr_def with_field_def Let_def eval_nat_numeral)
  moreover have "expr_means c ?e" using s(2) m(2) h(2) d(2) mo(2) w(2) by (simp add: expr_means_def)
  ultimately show ?thesis by blast
qed

lemma expr_text_parse:
  assumes "expr_ok c"
  shows "\<exists>e. NewCronExpr (expr_text c) = Some (Inr e) \<and> expr_means c e"
    "fd_sec c = [Num 0] \<Longrightarrow> \<exists>e. NewCronExpr (expr_text5 c) = Some (Inr e) \<and> expr_means c e"
proof -
  note w = field_text_word [of 0 59 "fd_sec c"] field_text_word [of 0 59 "fd_min c"] field_text_word [of 0 23 "fd_hour c"]
    field_text_word [of 1 31 "fd_dom c"] field_text_word [of 1 12 "fd_month c"] field_text_word [of 0 6 "fd_dow c"]
  have "Fields (expr_text c) = map field_text [fd_sec c, fd_min c, fd_hour c, fd_dom c, fd_month c, fd_dow c]"
    unfolding expr_text_def using w assms by (intro Fields_join) (auto simp: expr_ok_def)
  then show "\<exists>e. NewCronExpr (expr_text c) = Some (Inr e) \<and> expr_means c e" using fields_parse [OF assms] by blast
  have "Fields (expr_text5 c) = map field_text [fd_min c, fd_hour c, fd_dom c, fd_month c, fd_dow c]"
    unfolding expr_text5_def using w assms by (intro Fields_join) (auto simp: expr_ok_def)
  moreover have "field_text [Num 0] = ''0''" by code_simp
  ultimately show "\<exists>e. NewCronExpr (expr_text5 c) = Some (Inr e) \<and> expr_means c e" if "fd_sec c = [Num 0]"
    using fields_parse [OF assms, of "expr_text5 c"] that by simp
qed

section \<open>The schedule an expression names\<close>

definition scheduled :: "cron_fields \<Rightarrow> time \<Rightarrow> bool" where
  "scheduled c t \<longleftrightarrow>
     Month t \<in> field_set 1 12 (fd_month c) \<and>
     (if field_set 1 31 (fd_dom c) = {1..31} then Weekday t \<in> field_set 0 6 (fd_dow c)
      else if field_set 0 6 (fd_dow c) = {0..6} then Day t \<in> field_set 1 31 (fd_dom c)
      else Weekday t \<in> field_set 0 6 (fd_dow c) \<or> Day t \<in> field_set 1 31 (fd_dom c)) \<and>
     Hour t \<in> field_set 0 23 (fd_hour c) \<and> Minute t \<in> field_set 0 59 (fd_min c) \<and> Second t \<in> field_set 0 59 (fd_sec c)"

lemma bits_all_days: "bit (0xfffffffe :: 64 word) j \<longleftrightarrow> j \<in> {1..31}"
proof (cases "j < 64")
  case True
  have "\<forall>j \<in> set [0..<64]. bit (0xfffffffe :: 64 word) j = (1 \<le> j \<and> j \<le> 31)" by code_simp
  then show ?thesis using True by simp
next
  case False
  then show ?thesis using bit_imp_le_length [of "0xfffffffe :: 64 word" j] by auto
qed

lemma bits_all_weekdays: "bit (0x7f :: 64 word) j \<longleftrightarrow> j \<in> {0..6}"
proof (cases "j < 64")
  case True
  have "\<forall>j \<in> set [0..<64]. bit (0x7f :: 64 word) j = (j \<le> 6)" by code_simp
  then show ?thesis using True by simp
next
  case False
  then show ?thesis using bit_imp_le_length [of "0x7f :: 64 word" j] by auto
qed

lemma cron_matches_scheduled:
  assumes "expr_means c e"
  shows "cron_matches e t \<longleftrightarrow> scheduled c t"
proof -
  have eq: "w = v \<longleftrightarrow> (\<forall>j. bit w j = bit v j)" for w v :: "64 word" by (auto intro: bit_eqI)
  have "cr_dom e = 0xfffffffe \<longleftrightarrow> field_set 1 31 (fd_dom c) = {1..31}"
    unfolding eq bits_all_days set_eq_iff using assms by (simp only: expr_means_def)
  moreover have "cr_dow e = 0x7f \<longleftrightarrow> field_set 0 6 (fd_dow c) = {0..6}"
    unfolding eq bits_all_weekdays set_eq_iff using assms by (simp only: expr_means_def)
  ultimately show ?thesis
    using assms by (simp add: cron_matches_def scheduled_def matchDay_def cron_hit_iff expr_means_def)
qed

end
