(* ===== verification/CronTimer.thy ===== *)
theory CronTimer
  imports CronParse Timer
begin

text \<open>
  Cron expressions and the timers that use them: the next time that the timer model takes as an argument is \<open>Next\<close> of
  the parsed expression (\<^verbatim>\<open>CronExpr.Next\<close> in \<^verbatim>\<open>Cron.Do\<close> and \<^verbatim>\<open>Dispatcher.CronFunc\<close>).
  Shown: a run of a cron timer whose callback returns and leaves the timer active sets it to the first second its
  expression's text schedules; a callback that panics leaves it unset, one that cancels it has it closed.
  The last section has what goes wrong outside the hypotheses: offsets that are not whole hours, years beyond the next
  one, increments near the largest \<^verbatim>\<open>int\<close>.
\<close>

section \<open>From the text to the time\<close>

definition first_scheduled :: "cron_fields \<Rightarrow> time \<Rightarrow> nat \<Rightarrow> time option \<Rightarrow> bool" where
  "first_scheduled c t y r =
     (case r of
        None \<Rightarrow> (\<forall>s\<ge>t. Year s \<le> y \<longrightarrow> \<not> scheduled c s)
      | Some u \<Rightarrow> t \<le> u \<and> Year u \<le> y \<and> scheduled c u \<and> (\<forall>s. t \<le> s \<and> s < u \<longrightarrow> \<not> scheduled c s))"

lemma first_match_scheduled: "expr_means c e \<Longrightarrow> first_match e t y r = first_scheduled c t y r"
  by (simp add: first_match_def first_scheduled_def cron_matches_scheduled split: option.split)

lemma Next_first:
  "\<exists>r. Next e 0 ns = Some r \<and> first_match e (ns div 10 ^ 9 + 1) (Year (ns div 10 ^ 9 + 1) + 1) r"
  unfolding Next_def Let_def by (rule Next_retry_search) simp

lemma Next_scheduled:
  assumes "expr_means c e"
  shows "\<exists>r. Next e 0 ns = Some r \<and> first_scheduled c (ns div 10 ^ 9 + 1) (Year (ns div 10 ^ 9 + 1) + 1) r"
  using Next_first [of e ns] first_match_scheduled [OF assms] by simp

section \<open>Cron timers\<close>

text \<open>Times of the timer heap count nanoseconds.\<close>

definition cron_nxt :: "(nat \<Rightarrow> CronExpr) \<Rightarrow> nat \<Rightarrow> int \<Rightarrow> int option" where
  "cron_nxt exprs ce now =
     (case Next (exprs ce) 0 (nat now) of Some (Some u) \<Rightarrow> Some (int u * 10 ^ 9) | _ \<Rightarrow> None)"

lemma after_now: "0 \<le> now \<Longrightarrow> nat now div 10 ^ 9 + 1 \<le> s \<longleftrightarrow> now < int s * 10 ^ 9"
proof -
  assume n: "0 \<le> now"
  have "nat now div 10 ^ 9 + 1 \<le> s \<longleftrightarrow> nat now div 10 ^ 9 < s" by auto
  also have "\<dots> \<longleftrightarrow> nat now < s * 10 ^ 9" by (simp add: div_less_iff_less_mult)
  also have "\<dots> \<longleftrightarrow> now < int s * 10 ^ 9" using n by (simp add: nat_less_iff)
  finally show ?thesis .
qed

lemma cron_nxt_first:
  assumes m: "expr_means c (exprs ce)" and now: "0 \<le> now"
    and s: "scheduled c s" "now < int s * 10 ^ 9" "Year s \<le> Year (nat now div 10 ^ 9 + 1) + 1"
  obtains u where "cron_nxt exprs ce now = Some (int u * 10 ^ 9)" "scheduled c u" "now < int u * 10 ^ 9"
    "\<And>v. scheduled c v \<Longrightarrow> now < int v * 10 ^ 9 \<Longrightarrow> u \<le> v"
proof -
  let ?t = "nat now div 10 ^ 9 + 1"
  obtain r where r: "Next (exprs ce) 0 (nat now) = Some r" "first_scheduled c ?t (Year ?t + 1) r"
    using Next_scheduled [OF m] by blast
  have "?t \<le> s" using s(2) after_now [OF now] by blast
  then obtain u where u: "r = Some u" using r(2) s by (cases r) (auto simp: first_scheduled_def)
  have f: "scheduled c u" "?t \<le> u" "\<And>v. ?t \<le> v \<Longrightarrow> v < u \<Longrightarrow> \<not> scheduled c v"
    using r(2) u by (auto simp: first_scheduled_def)
  have "cron_nxt exprs ce now = Some (int u * 10 ^ 9)" using r(1) u by (simp add: cron_nxt_def)
  then show ?thesis using that f after_now [OF now] by (auto intro: leI)
qed

text \<open>What a run of a cron timer leaves behind, \<open>u\<close> being the second it is next due and \<open>res\<close> what its callback did.\<close>

definition cron_run :: "(nat \<Rightarrow> nat \<Rightarrow> 'x stmt) \<Rightarrow> int \<Rightarrow> time \<Rightarrow> nat \<Rightarrow> 'x TimerSys \<times> bool \<Rightarrow> 'x TimerSys \<Rightarrow> bool" where
  "cron_run run now u t res w' \<longleftrightarrow> (case res of (w1, returned) \<Rightarrow>
     if \<not> returned then w' = w1
     else if \<not> IsActive t w1 then w' = fst (close_timer run KCron t w1)
     else timer_inv w1 \<and> \<not> rOpen (t_store w1 t) \<longrightarrow>
       armed (\<lambda>ob. ob\<lparr>interval := int u * 10 ^ 9 - now, fireTime := int u * 10 ^ 9\<rparr>) t w1 w')"

lemma Cron_Do_scheduled:
  assumes act: "IsActive t w" and ce: "cronExpr (t_store w t) = Some ce"
    and m: "expr_means c (exprs ce)" and now: "0 \<le> now"
    and s: "scheduled c s" "now < int s * 10 ^ 9" "Year s \<le> Year (nat now div 10 ^ 9 + 1) + 1"
  shows "\<exists>u. scheduled c u \<and> now < int u * 10 ^ 9 \<and> (\<forall>v. scheduled c v \<and> now < int v * 10 ^ 9 \<longrightarrow> u \<le> v) \<and>
    cron_run run now u t (call_timer run t w) (Cron_Do run (cron_nxt exprs) now t w)"
proof -
  obtain u where u: "cron_nxt exprs ce now = Some (int u * 10 ^ 9)" "scheduled c u" "now < int u * 10 ^ 9"
    "\<And>v. scheduled c v \<Longrightarrow> now < int v * 10 ^ 9 \<Longrightarrow> u \<le> v"
    by (rule cron_nxt_first [of c exprs ce, OF m now s]) blast
  obtain w1 ok where r: "call_timer run t w = (w1, ok)" by fastforce
  note c = Cron_Do_cases [OF act ce, where nxt = "cron_nxt exprs", OF u(1) r]
  have "cron_run run now u t (w1, ok) (Cron_Do run (cron_nxt exprs) now t w)" using c by (simp add: cron_run_def)
  then show ?thesis using u(2-4) r by auto
qed

section \<open>Outside the hypotheses\<close>

definition nine_daily :: CronExpr where
  "nine_daily = \<lparr>cr_sec = 1, cr_min = 1, cr_hour = 512, cr_dom = 0xfffffffe, cr_month = 0x1ffe, cr_dow = 0x7f\<rparr>"

lemma nine_daily_text: "NewCronExpr ''0 0 9 * * *'' = Some (Inr nine_daily)"
  unfolding nine_daily_def by code_simp

lemma month_always: "cron_hit (Month t) 0x1ffe"
proof -
  have "Month t \<in> set [1..<13]" using date_fields_valid [of t] by (auto simp: valid_date_def)
  moreover have "\<forall>m \<in> set [1..<13]. cron_hit m 0x1ffe" by code_simp
  ultimately show ?thesis by blast
qed

lemma weekday_always: "cron_hit (Weekday t) 0x7f"
proof -
  have "Weekday t \<in> set [0..<7]" by (simp add: Weekday_def)
  moreover have "\<forall>m \<in> set [0..<7]. cron_hit m 0x7f" by code_simp
  ultimately show ?thesis by blast
qed

lemma nine_daily_days: "month_loop nine_daily i t = Some (False, i, t)" "day_loop nine_daily i t = Some (False, i, t)"
  by (simp_all add: month_loop_def day_loop_def cron_loop.simps matchDay_def nine_daily_def month_always weekday_always)

lemma nine_daily_clock:
  "cron_hit n (cr_hour nine_daily) \<longleftrightarrow> n = 9" "cron_hit n (cr_min nine_daily) \<longleftrightarrow> n = 0" "cron_hit n (cr_sec nine_daily) \<longleftrightarrow> n = 0"
  using bit_exp_iff [where 'a = "64 word", of 9 n] bit_1_iff [where 'a = "64 word", of n] by (auto simp: nine_daily_def cron_hit_iff)

lemma March_2024: "date_of 738949 = (2024, 3, 5)" "date_of 738950 = (2024, 3, 6)"
proof -
  have "day_no 2024 3 5 = 738949"
    by (simp add: day_no_def year_start_def year_end_def month_start_def month_len_def leap_def upt_rec)
  then show "date_of 738949 = (2024, 3, 5)" using date_of_day_no [of 2024 3 5] by (simp add: valid_date_def month_len_def)
  then show "date_of 738950 = (2024, 3, 6)" using date_of_Suc [of 738949] by (simp add: next_date_def month_len_def)
qed

lemma nine_daily_year: "Year t = 2024" if "t div 86400 = 738949 \<or> t div 86400 = 738950" for t
  using that March_2024 by (auto simp: Year_def)

lemmas nine_daily_eval = Next_def Next_retry.simps Next_pass_def unless_retry_def nine_daily_days hour_loop_def
  minute_loop_def second_loop_def cron_loop.simps nine_daily_clock nine_daily_year Hour_alt Minute_alt Second_def Truncate_def Let_def

text \<open>In a location half an hour off a whole number of hours, the search from 08:10 on 5 March 2024 passes over 09:00
  of that day and returns 09:00 of the next.\<close>

lemma half_hour_offset:
  "Next nine_daily 1800 ((738949 * 86400 + 8 * 3600 + 10 * 60) * 10 ^ 9) = Some (Some (738950 * 86400 + 9 * 3600))"
  by (simp add: nine_daily_eval)

lemma whole_hour_offset:
  "Next nine_daily 0 ((738949 * 86400 + 8 * 3600 + 10 * 60) * 10 ^ 9) = Some (Some (738949 * 86400 + 9 * 3600))"
  by (simp add: nine_daily_eval)

text \<open>Days that only exist in leap years are found in this year and the next one only.\<close>

definition leap_day :: cron_fields where
  "leap_day = \<lparr>fd_sec = [Num 0], fd_min = [Num 0], fd_hour = [Num 0], fd_dom = [Num 29], fd_month = [Num 2], fd_dow = [Star]\<rparr>"

lemma leap_day_scheduled: "scheduled leap_day u \<Longrightarrow> leap (Year u)"
proof -
  assume "scheduled leap_day u"
  moreover have "field_set 1 31 (fd_dom leap_day) = {29}" "field_set 1 12 (fd_month leap_day) = {2}"
    "field_set 0 6 (fd_dow leap_day) = {0..6}"
    by (auto simp: field_set_def item_set_def leap_day_def)
  moreover have "{29} \<noteq> {1..31 :: nat}" by (auto simp: set_eq_iff intro!: exI [of _ 1])
  ultimately have "Month u = 2" "Day u = 29" by (auto simp: scheduled_def)
  then show ?thesis using date_fields_valid [of u] by (auto simp: valid_date_def month_len_def split: if_splits)
qed

lemma leap_day_missed:
  assumes "expr_means leap_day e" "\<not> leap (Year (ns div 10 ^ 9 + 1))" "\<not> leap (Year (ns div 10 ^ 9 + 1) + 1)"
  shows "Next e 0 ns = Some None"
proof -
  let ?t = "ns div 10 ^ 9 + 1"
  obtain r where r: "Next e 0 ns = Some r" "first_scheduled leap_day ?t (Year ?t + 1) r"
    using Next_scheduled [OF assms(1)] by blast
  show ?thesis
  proof (cases r)
    case (Some u)
    then have "Year ?t \<le> Year u" "Year u \<le> Year ?t + 1" "leap (Year u)"
      using r(2) Year_mono [of ?t u] leap_day_scheduled by (auto simp: first_scheduled_def)
    then have "Year u = Year ?t \<or> Year u = Year ?t + 1" by linarith
    then show ?thesis using assms(2,3) \<open>leap (Year u)\<close> by auto
  qed (use r in simp)
qed

text \<open>An increment that overflows \<^verbatim>\<open>int\<close> sets bits the item does not name.\<close>

lemma overflow_bit: "parseCronField (item_text (NumStep 2 9223372036854775807)) 0 59 = Some (Inr 5)"
proof -
  have p: "parse_item (item_text (NumStep 2 9223372036854775807)) 0 59 = Inr (2, 59, 9223372036854775807)"
    using Atoi_Itoa_nat [of 2] Atoi_Itoa_nat [of 9223372036854775807]
    by (simp add: parse_item_def item_range_def item_incr_def Split_item Itoa_nat_not_star Let_def)
  have w: "wrap64 9223372036854775809 = - 9223372036854775807" "wrap64 9223372036854775807 = 9223372036854775807" "wrap64 0 = 0"
    by code_simp+
  have "incr_bits 2 59 9223372036854775807 0 = Some 5"
    by (simp add: incr_bits.simps shl1_def w)
  then have "item_bits 2 59 9223372036854775807 0 = Some 5" by (simp add: item_bits_def)
  moreover have "Split CHR '','' (item_text (NumStep 2 9223372036854775807)) = [item_text (NumStep 2 9223372036854775807)]"
    by (rule Split_no_sep) (rule item_text_chars)
  ultimately show ?thesis using p by (simp add: parseCronField_def)
qed

end
