(* ===== verification/Spec2Isabelle.thy ===== *)
theory Spec2Isabelle
  imports Prelude RingQueue Queue Deque SQueue Heap PriorityQueue CallSet Timer Algorithms MemoryQueue BytesPool MsgParser NodeTTL PubSub Port ExecNode NodeExec GraphExec GraphLogic GraphFuel ExecPool GraphPool Blueprint PortStore Event Concurrent Module ModuleTimer SkipList SkipOrder RankData RankExpire RankSkip RankBoard RankUpset RankQuery RankService Calendar Cron CronNext CronParse CronTimer
begin

text \<open>
  \<^bold>\<open>Verification of the core of a distributed game-server framework (Go module origin).\<close>

  The framework runs services on nodes; services exchange remote calls and messages, use timers and
  queues, and may be scripted by visual graphs ("blueprints"). This development models the parts that hold
  the program's own logic and proves what each promises. Every theory opens with the correspondence
  between its definitions and the source; here is the map.

  \<^bold>\<open>Shared ground.\<close>
  \<^item> \<open>Prelude\<close>: panics and results (\<open>'a go\<close>), slices with the language's bounds checks, 64-bit and 32-bit
    wrap-around, truncating division, exchange of list elements.
  \<^item> \<open>RingQueue\<close>: index arithmetic of ring buffers; \<open>Heap\<close>: \<^verbatim>\<open>container/heap\<close> over a locale \<open>heap_client\<close> that
    every client interprets.

  \<^bold>\<open>Containers\<close> (\<^verbatim>\<open>src/util/queue\<close>, \<^verbatim>\<open>src/util/algorithms\<close>, \<^verbatim>\<open>src/util/smath\<close>, \<^verbatim>\<open>src/util/stack\<close>).
  \<^item> \<open>Queue\<close>, \<open>Deque\<close>, \<open>SQueue\<close>: growing ring queue and its locked wrapper, deque, bounded queue; each runs as a
    list, panics and calls on empty queues included. \<open>PriorityQueue\<close>: items in a store because callers hold them.
  \<^item> \<open>Algorithms\<close>: binary search, bit flags, checked arithmetic, stack.

  \<^bold>\<open>Calls and timers\<close> (\<^verbatim>\<open>src/rpc/rpctimer.go\<close>, \<^verbatim>\<open>callset.go\<close>, \<^verbatim>\<open>src/util/timer\<close>).
  \<^item> \<open>CallSet\<close>: the table of pending calls together with the heap of their deadlines: every call leaves once,
    by reply, time-out or disconnect. \<open>Timer\<close>: the timer heap, the tick and the three kinds of timer; the
    clock readings, callbacks and the next time of a cron expression are parameters. Channels have a capacity: a tick
    whose timer has a nil or full channel waits.
  \<^item> \<open>Calendar\<close>: dates and clock times. \<open>Cron\<close>: parser and search of cron expressions. \<open>CronNext\<close>: the five loops of the
    search as interpretations of one locale, \<open>cron_stage\<close>; they end at the first matching second. \<open>CronParse\<close>: the
    numbers a written expression stands for. \<open>CronTimer\<close>: text, search and timers together.

  \<^bold>\<open>Messages\<close> (\<^verbatim>\<open>src/network/tcp_msg.go\<close>, \<^verbatim>\<open>src/util/bytespool\<close>, \<^verbatim>\<open>src/util/sync\<close>,
  \<^verbatim>\<open>src/sysservice/messagequeueservice\<close>, \<^verbatim>\<open>src/util/pattern/pubsub\<close>, \<^verbatim>\<open>src/cluster/nodettl.go\<close>).
  \<^item> \<open>BytesPool\<close> provides the locale \<open>bytes_mem_pool\<close>, over which \<open>MsgParser\<close> proves that framing and parsing are
    inverse; \<open>MemoryQueue\<close>: the window of recent topic messages; \<open>PubSub\<close>: subscribers in a store, since
    callbacks may change the lists; \<open>NodeTTL\<close>: liveness of cluster nodes.

  \<^bold>\<open>Services\<close> (\<^verbatim>\<open>src/event\<close>, \<^verbatim>\<open>src/service\<close>, \<^verbatim>\<open>src/concurrent\<close>).
  \<^item> \<open>Event\<close>: handlers, processors and event channels in stores; the locale \<open>event_bus\<close> states what registering and
    unregistering do to the table of subscriptions, and is interpreted on the code's operations.
  \<^item> \<open>Module\<close>: the tree of modules of a service with the table of its descendants; a module's event handler lives
    in the event system, its timers in the timer system. The hooks are arguments: adding is described for any
    \<^verbatim>\<open>OnInit\<close>, releasing for \<^verbatim>\<open>OnRelease\<close> hooks that only change the application's own state, whether or not they panic. \<open>ModuleTimer\<close>: the ids of timers and the functions that
    start and cancel them.
  \<^item> \<open>Concurrent\<close>: the task pool as a step relation of clients, dispatcher, workers and the service; invariants by
    rule induction over the reachable states, and a measure for the end of every run.

  \<^bold>\<open>Blueprints\<close> (\<^verbatim>\<open>src/util/blueprint\<close>).
  \<^item> \<open>Port\<close> and \<open>ExecNode\<close>: typed ports, node classes, execution contexts and their accessors (locale
    \<open>typed_port\<close>). \<open>NodeExec\<close>: the nodes that only touch their ports.
  \<^item> \<open>GraphExec\<close>: the interpreter. Contexts live in a store, because a node that is entered again gets a new
    context while the outer activation holds the old one; the single registered instance of each class is
    state, because the code re-targets it on every call. An operation returns, fails, panics, or has no
    outcome when its fuel (the depth of nested node executions) is used up.
  \<^item> \<open>GraphLogic\<close>: what every run keeps, and termination under a rank, proved once in the locales \<open>exec_guard\<close>
    and \<open>node_guard\<close>. \<open>GraphFuel\<close>: outcomes do not depend on the fuel (locale \<open>more_fuel\<close>).
  \<^item> \<open>ExecPool\<close>, \<open>GraphPool\<close>: loading of classes and graphs; a graph the loader accepts has no cycle of
    execution lines. The loader's own recursion needs fuel 257 at most, because its counter stops it at 256.
    \<open>Blueprint\<close>: the manager of running graphs.
  \<^item> \<open>PortStore\<close>: ports, arrays and tables of variables once more, as objects that can be shared. In the interpreter they are
    values, and copying one is the identity; here \<^verbatim>\<open>Clone\<close>, \<^verbatim>\<open>clonePortMap\<close>, the roll-back of \<^verbatim>\<open>Graph.Do\<close> and the clone that
    \<^verbatim>\<open>Blueprint.Do\<close> runs are shown to keep runs apart, for every sequence of port operations.

  \<^bold>\<open>Rank service\<close> (\<^verbatim>\<open>src/util/algorithms/skip\<close>, \<^verbatim>\<open>src/sysservice/rankservice\<close>).
  \<^item> \<open>SkipList\<close>: the skip list with its widths and cached paths, nodes in a store; the invariant \<open>sl_rep\<close> says what every
    level links and how far. \<open>SkipOrder\<close>: the list of entries each operation leaves, and, over the locale
    \<open>comparator\<close>, ordered lists.
  \<^item> \<open>RankData\<close> interprets \<open>comparator\<close> on the order of entries; \<open>RankExpire\<close> interprets \<open>heap_client\<close> on the expiry heap,
    a table of refresh times. \<open>RankSkip\<close>: the rank list over both. \<open>RankBoard\<close>, \<open>RankUpset\<close>, \<open>RankQuery\<close>: skip list, map and
    expiry heap agree (\<open>rank_ok\<close>), and each operation changes the table of entries as stated. \<open>RankService\<close>: the calls
    of the service.

  \<^bold>\<open>Bounds and fuel.\<close> Loops whose end depends on the data take fuel or a \<open>partial_function\<close>; for each there is
  a lemma that a stated amount is enough or that the loop is total. Times, ids and lengths are integers with
  the wrap-around written where the code can reach it.

  \<^bold>\<open>Not modelled.\<close> Locks: an operation under a lock is one step, and calls from several goroutines are sequences of
  such steps; only the task pool has its goroutines as such. Memory limits: every allocation of a length that is not
  negative succeeds. Network transport, etcd and NATS discovery, databases, HTTP and the
  other bindings; reflection on user methods; reading and decoding of files; log output. The manifest lists
  every part with its status.

  \<^bold>\<open>Plan.\<close> Next: the subscribers of the message queue service, the frame timer and the call
  paths of the RPC clients.
\<close>

section \<open>Sample states\<close>

text \<open>Small consistent states, on which the properties with hypotheses are instantiated.\<close>

definition sample_call :: "64 word \<Rightarrow> Call" where
  "sample_call s = \<lparr>Seq = s, ServiceMethod = ''S.M'', Err = None, callback = False, TimeOut = 10\<rparr>"

definition sample_calls :: CallSet where
  "sample_calls = \<lparr>startSeq = 2, pending = [1 \<mapsto> sample_call 1, 2 \<mapsto> sample_call 2],
     callRpcTimeout = DefaultRpcTimeout, maxCheckCallRpcCount = 5,
     callTimerHeap = \<lparr>callTimer = [\<lparr>SeqId = 1, FireTime = 10\<rparr>, \<lparr>SeqId = 2, FireTime = 20\<rparr>],
                      mapSeqIndex = [1 \<mapsto> 0, 2 \<mapsto> 1]\<rparr>, failed = []\<rparr>"

definition sample_timer :: "bool \<Rightarrow> int \<Rightarrow> TimerObj" where
  "sample_timer op ft = \<lparr>t_kind = KTimer, cancelled = False, t_C = Some 0, interval = 3, fireTime = ft,
     t_cb = Some 1, t_cbEx = None, cbOnCloseTimer = Some 2, cronExpr = None, rOpen = op, t_ref = True, t_Id = 0,
     AdditionData = 0\<rparr>"

definition sample_timers :: "int TimerSys" where
  "sample_timers = \<lparr>t_store = (\<lambda>t. if t = 6 then sample_timer True 4 else if t = 7 then sample_timer True 9
       else sample_timer False 0),
     timers = [6, 7], t_chan = (\<lambda>_. []), t_cap = (\<lambda>_. 2), t_pool = (\<lambda>_. []), t_user = 0\<rparr>"

definition sample_vp :: "item_ref \<Rightarrow> int \<times> int" where
  "sample_vp p = (0, if p = 3 then 8 else if p = 4 then 5 else 0)"

definition sample_pq :: "int PriorityQueue" where
  "sample_pq = \<lparr>item_store = (\<lambda>p. \<lparr>Value = 0, Priority = snd (sample_vp p), Index = (if p = 4 then 1 else 0)\<rparr>),
     priorityQueueSlice = [3, 4]\<rparr>"

definition sample_mq :: MemoryQueue where
  "sample_mq = \<lparr>topicQueue = [\<lparr>td_Seq = 7, td_RawData = []\<rparr>, \<lparr>td_Seq = 0, td_RawData = []\<rparr>,
       \<lparr>td_Seq = 0, td_RawData = []\<rparr>, \<lparr>td_Seq = 5, td_RawData = []\<rparr>], mq_head = 2, mq_tail = 0\<rparr>"

definition sample_parser :: MsgParser where
  "sample_parser = \<lparr>LenMsgLen = 2, MinMsgLen = 1, MaxReadMsgLen = 100, MaxWriteMsgLen = 100, LittleEndian = True\<rparr>"

definition sample_nodes :: nodeSetTTL where
  "sample_nodes = \<lparr>ns_l = [(0, \<lparr>nodeId = ''a'', refreshTime = 10\<rparr>), (1, \<lparr>nodeId = ''b'', refreshTime = 20\<rparr>)],
     mapElement = [''a'' \<mapsto> 0, ''b'' \<mapsto> 1], ns_ttl = 10, ns_fresh = 2\<rparr>"

lemma sample_calls_inv: "cs_inv sample_calls"
proof -
  have "ct_inv (callTimerHeap sample_calls)"
    by (auto simp: ct_inv_def sample_calls_def All_less_Suc)
  moreover have "heap_list FireTime (callTimer (callTimerHeap sample_calls))"
    by (simp add: is_heap_def heap_edge_def sample_calls_def All_less_Suc)
  moreover have "dom (pending sample_calls) = SeqId ` set (callTimer (callTimerHeap sample_calls))"
    by (auto simp: sample_calls_def)
  moreover have "\<forall>s c. pending sample_calls s = Some c \<longrightarrow> Seq c = s \<and> s \<noteq> 0"
    by (simp add: sample_calls_def sample_call_def)
  ultimately show ?thesis by (simp add: cs_inv_def ct_ok_def)
qed

lemma sample_timers_inv: "timer_inv sample_timers"
  by (auto simp: timer_inv_def is_heap_def heap_edge_def sample_timers_def sample_timer_def less_Suc_eq nth_Cons')

lemma sample_timers_room: "chan_room sample_timers"
  by (auto simp: chan_room_def sample_timers_def sample_timer_def)

lemma sample_pq_ok: "pq_ok sample_vp (- {3, 4}) sample_pq"
  by (auto simp: pq_ok_def pq_inv_def is_heap_def heap_edge_def sample_pq_def sample_vp_def less_Suc_eq nth_Cons')

lemma sample_mq_ok: "mq_inv sample_mq"
  unfolding mq_inv_def by (rule exI [of _ 2], rule exI [of _ 2]) (simp add: mq_ring_def sample_mq_def)

lemma sample_mq_list: "mq_list sample_mq = [\<lparr>td_Seq = 5, td_RawData = []\<rparr>, \<lparr>td_Seq = 7, td_RawData = []\<rparr>]"
  by (simp add: mq_list_def mq_count_def sample_mq_def ring_list_def upt_rec)

lemma sample_nodes_inv: "ttl_inv sample_nodes"
  by (auto simp: ttl_inv_def sample_nodes_def)

lemma new_publisher_state: "keyID (NewPublisher k) = k" "SubscriberSet_get (NewPublisher k) j = None"
  by (simp_all add: NewPublisher_def SubscriberSet_get_def)


text \<open>A graph that adds the two arguments of its entrance and returns the sum: entrance \<open>e\<close>, then the
  node \<open>r\<close>, which reads the adder \<open>a\<close>.\<close>

definition sample_class :: "string \<Rightarrow> port list \<Rightarrow> port list \<Rightarrow> innerExecNode" where
  "sample_class n ins outs = zero_innerExecNode\<lparr>inn_Name := n, inPort := map Some ins, outPort := map Some outs,
     outPortParamStartIndex := param_start 0 (map Some outs)\<rparr>"

definition sample_execs :: ExecPool where
  "sample_execs = snd (register_all [Entrance_IntParam, AddInt, AppendIntReturn]
     \<lparr>innerExecNodeMap =
        [''Entrance_IntParam'' \<mapsto> sample_class ''Entrance_IntParam'' [] [Port_Exec, Port_Int 0, Port_Int 0],
         ''AddInt'' \<mapsto> sample_class ''AddInt'' [Port_Int 0, Port_Int 0] [Port_Int 0],
         ''AppendIntReturn'' \<mapsto> sample_class ''AppendIntReturn'' [Port_Exec, Port_Int 0] [Port_Exec]],
      execNodeMap = Map.empty\<rparr>)"

definition sample_node :: "string \<Rightarrow> string \<Rightarrow> nodeConfig" where
  "sample_node nid cls = \<lparr>nc_Id = nid, nc_Class = cls, nc_PortDefault = Map.empty\<rparr>"

definition sample_edge :: "string \<Rightarrow> int \<Rightarrow> string \<Rightarrow> int \<Rightarrow> edgeConfig" where
  "sample_edge a i b j = \<lparr>SourceNodeID = a, DesNodeId = b, SourcePortId = i, DesPortId = j\<rparr>"

definition sample_config :: graphConfig where
  "sample_config = \<lparr>gc_Nodes = [sample_node ''e'' ''Entrance_IntParam_1'', sample_node ''a'' ''AddInt'',
       sample_node ''r'' ''AppendIntReturn''],
     gc_Edges = [sample_edge ''e'' 0 ''r'' 0, sample_edge ''e'' 1 ''a'' 0, sample_edge ''e'' 2 ''a'' 1,
       sample_edge ''a'' 0 ''r'' 1],
     gc_Variables = []\<rparr>"

definition sample_gpool :: GraphPool where
  "sample_gpool = \<lparr>mapGraphs = Map.empty, execPool = sample_execs\<rparr>"

definition sample_tab :: nodetab where
  "sample_tab =
     [''e'' \<mapsto> \<lparr>en_Id = ''e'', en_execNode = ''Entrance_IntParam'', nextNode = [Some ''r''], nextIdx = 0,
        preInPort = [], inPortDefaultValue = Map.empty, variableName = [], beConnect = False, isEntrance = True\<rparr>,
      ''a'' \<mapsto> \<lparr>en_Id = ''a'', en_execNode = ''AddInt'', nextNode = [], nextIdx = 0,
        preInPort = [Some (''e'', 1), Some (''e'', 2)], inPortDefaultValue = Map.empty, variableName = [],
        beConnect = False, isEntrance = False\<rparr>,
      ''r'' \<mapsto> \<lparr>en_Id = ''r'', en_execNode = ''AppendIntReturn'', nextNode = [None], nextIdx = 0,
        preInPort = [None, Some (''a'', 0)], inPortDefaultValue = Map.empty, variableName = [],
        beConnect = True, isEntrance = False\<rparr>]"

definition sample_gpool' :: GraphPool where
  "sample_gpool' = sample_gpool\<lparr>mapGraphs := [''g'' \<mapsto> [1 \<mapsto> (sample_tab, ''e'')]]\<rparr>"

definition sample_env :: env where
  "sample_env = \<lparr>execs = GetExec sample_execs, parseFloat = (\<lambda>_. None), seeded = (\<lambda>_ _. 0), draw = (\<lambda>_. 0),
     timerIds = int\<rparr>"

definition sample_bp :: Blueprint where
  "sample_bp = \<lparr>execNodeList = [], graphPool = sample_gpool', mapGraph = Map.empty, seedID = 0,
     bp_logger = False, bp_world = zero_world\<rparr>"

definition sample_graph :: Graph where
  "sample_graph = \<lparr>graphFileName = ''g'', graphID = 1, entrance = [1 \<mapsto> (sample_tab, ''e'')],
     gr_context = Map.empty, variables = Map.empty, globalVariables = None, mapTimerID = None, logger = False\<rparr>"

lemma sample_execs_get:
  "GetExec sample_execs ''Entrance_IntParam'' =
     Some ((sample_class ''Entrance_IntParam'' [] [Port_Exec, Port_Int 0, Port_Int 0])\<lparr>IExecNode := Some Entrance_IntParam\<rparr>)"
  "GetExec sample_execs ''AddInt'' =
     Some ((sample_class ''AddInt'' [Port_Int 0, Port_Int 0] [Port_Int 0])\<lparr>IExecNode := Some AddInt\<rparr>)"
  "GetExec sample_execs ''AppendIntReturn'' =
     Some ((sample_class ''AppendIntReturn'' [Port_Exec, Port_Int 0] [Port_Exec])\<lparr>IExecNode := Some AppendIntReturn\<rparr>)"
  by (simp_all add: sample_execs_def GetExec_def Register_def sample_class_def innerExecNode_GetName_def
      zero_innerExecNode_def SetExec_def)

lemma sample_names:
  "getEntranceNodeNameAndID ''Entrance_IntParam_1'' = Some (''Entrance_IntParam'', 1)"
  "getEntranceNodeNameAndID ''AddInt'' = None" "getEntranceNodeNameAndID ''AppendIntReturn'' = None"
  by code_simp+

lemma sample_genAllNode:
  "genAllNode sample_execs sample_config = ROk
     [''e'' \<mapsto> place_node (sample_node ''e'' ''Entrance_IntParam_1'') (the (GetExec sample_execs ''Entrance_IntParam'')) [],
      ''a'' \<mapsto> place_node (sample_node ''a'' ''AddInt'') (the (GetExec sample_execs ''AddInt'')) [],
      ''r'' \<mapsto> place_node (sample_node ''r'' ''AppendIntReturn'') (the (GetExec sample_execs ''AppendIntReturn'')) []]"
  by (simp add: genAllNode_def sample_config_def sample_node_def sample_names sample_execs_get)

lemma prepareOneNode_numeral:
  "prepareOneNode em cfg (numeral k) = prepare_body em cfg (prepareOneNode em cfg (pred_numeral k))"
  by (simp add: numeral_eq_Suc)

definition sample_placed :: nodetab where
  "sample_placed = sample_tab(''e'' \<mapsto> (the (sample_tab ''e''))\<lparr>nextNode := []\<rparr>,
     ''a'' \<mapsto> (the (sample_tab ''a''))\<lparr>preInPort := [None, None]\<rparr>,
     ''r'' \<mapsto> (the (sample_tab ''r''))\<lparr>nextNode := [], preInPort := [None, None], beConnect := False\<rparr>)"

definition sample_visited :: nodetab where
  "sample_visited = sample_placed(''e'' \<mapsto> the (sample_tab ''e''),
     ''r'' \<mapsto> (the (sample_tab ''r''))\<lparr>preInPort := [None, None]\<rparr>)"

lemma sample_prepareOneNode:
  "prepareOneNode sample_execs sample_config 257 ''e'' sample_placed 0 = Some (ROk (), sample_visited, 2)"
  by (simp add: prepareOneNode_numeral prepare_body_def sample_placed_def sample_visited_def sample_tab_def
      sample_execs_get sample_class_def zero_innerExecNode_def findOutNextNode_def sample_config_def
      sample_edge_def next_ids_def upd_node_def connect_def fun_upd_twist)

lemma sample_prepareInPort:
  "prepareInPort sample_execs sample_config [''e'', ''a'', ''r''] sample_visited = Inr sample_tab"
  by (simp add: prepareInPort_def preparePreInPortNode_def sample_visited_def sample_placed_def sample_tab_def
      sample_execs_get sample_class_def zero_innerExecNode_def GetInPortCount_def findPreInPortNode_def
      sample_config_def sample_edge_def IsInPortExec_def port_is_exec_def slice_set_def numeral_2_eq_2 fun_upd_twist)

lemma sample_accepted:
  "prepareOneEntrance 257 sample_gpool ''g'' 1 (sample_node ''e'' ''Entrance_IntParam_1'') sample_config
     = Some (ROk (), sample_gpool')"
proof -
  have "upd_node ''e'' (isEntrance_update (\<lambda>_. True))
     [''e'' \<mapsto> place_node (sample_node ''e'' ''Entrance_IntParam_1'') (the (GetExec sample_execs ''Entrance_IntParam'')) [],
      ''a'' \<mapsto> place_node (sample_node ''a'' ''AddInt'') (the (GetExec sample_execs ''AddInt'')) [],
      ''r'' \<mapsto> place_node (sample_node ''r'' ''AppendIntReturn'') (the (GetExec sample_execs ''AppendIntReturn'')) []]
     = sample_placed"
    by (simp add: upd_node_def place_node_def sample_placed_def sample_tab_def sample_execs_get sample_class_def
        zero_innerExecNode_def innerExecNode_GetName_def GetInPortCount_def sample_node_def numeral_2_eq_2 fun_upd_twist)
  moreover have "map nc_Id (gc_Nodes sample_config) = [''e'', ''a'', ''r'']"
    by (simp add: sample_config_def sample_node_def)
  ultimately show ?thesis
    by (simp add: prepareOneEntrance_def sample_gpool_def sample_gpool'_def sample_genAllNode sample_node_def
        sample_prepareOneNode sample_prepareInPort)
qed

lemma Do_numeral:
  "execNode_Do E tab (numeral k) nid args = Do_body E tab (\<lambda>m. execNode_Do E tab (pred_numeral k) m []) nid args"
  by (simp add: numeral_eq_Suc)

lemmas sample_run_defs = act_defs with_ctx_def with_bound_def with_node_def run_nd_def deferred_def upd_ctx_def
  Do_body_def new_context_def CloneInOutPort_def GetOutPortParamStartIndex_def innerExecNode_GetName_def
  IsInPortExec_def port_is_exec_def doSetInPort_def slice_get_def in_setAnyVale_def in_SetValue_def
  HasBeConnectLine_def GetNodeOutPortValue_def exec_and_log_def log_exec_def execNode_exec_def
  getExecNodeInfo_def setExecNodeInfo_def initExecNode_def follow_next_def
  GetInPort_def GetOutPort_def port_at_def put_in_def put_out_def Port_SetValue_def upd_out_def

lemma sample_runs:
  "map_option fst (Graph_Do sample_env 4 1 [AInt KInt64 a, AInt KInt64 b] (enter sample_graph zero_world)) =
     Some (Some [\<lparr>IntVal = wrap64 (a + b), StrVal = []\<rparr>], None)"
  by (simp add: Graph_Do_def graph_start_def sample_graph_def return_value_def Do_numeral sample_run_defs
     sample_tab_def sample_env_def sample_execs_get sample_class_def zero_innerExecNode_def
     AddInt_Exec_def nd_defs Entrance_IntParam_Exec_def AppendIntReturn_Exec_def GetInPortInt_def GetAndCreateReturnPort_def
     global_write_def map_read_def ReturnVarial_def new_port_defs clonePortMap_def Let_def zero_world_def enter_def Graph.defs gstate.defs)

lemma sample_data_ranked: "data_ranked sample_tab (\<lambda>_. 0) 0"
  by (auto simp: data_ranked_def sample_tab_def pure_def split: if_splits)

lemma sample_tab_own: "own_ids sample_tab"
  by (simp add: own_ids_def sample_tab_def)

lemma sample_bp_inv: "bp_inv sample_bp"
  by (auto simp: bp_inv_def sample_bp_def sample_gpool'_def sample_gpool_def sample_tab_own split: if_splits)

text \<open>An event system in which handler \<open>h\<close> belongs to processor \<open>h\<close>, which delivers to channel \<open>h\<close>; and a service
  (module 0) with the module 1, which has the module 2.\<close>

definition sample_bus :: "(nat, nat) EventSys" where
  "sample_bus = \<lparr>ev_handler = \<lambda>h. \<lparr>eh_eventProcessor = Some h, mapRegEvent = Map.empty\<rparr>,
     ev_proc = \<lambda>p. \<lparr>ep_channel = Some p, mapListenerEvent = Some Map.empty, mapBindHandlerEvent = Some Map.empty\<rparr>,
     ev_chan = \<lambda>c. \<lparr>chanEvent = [], chanCap = 4\<rparr>\<rparr>"

definition sample_event :: "nat Event" where
  "sample_event = \<lparr>ev_Type = 5, ev_Data = 9, ev_ref = True\<rparr>"

definition sample_module :: "32 word \<Rightarrow> nat \<Rightarrow> nat list \<Rightarrow> (32 word \<rightharpoonup> nat) option \<Rightarrow> Module" where
  "sample_module i a cs D = \<lparr>md_moduleId = i, md_parent = None, md_self = Some a, md_child = cs, mapActiveTimer = None,
     mapActiveIdTimer = None, md_dispatcher = Some 0, md_ancestor = Some 0, seedModuleId = 1000000000, descendants = D,
     md_eventHandler = Some a, md_rpcHandler = None, md_concurrent = None\<rparr>"

definition sample_msys :: "(nat, nat, unit) msys" where
  "sample_msys = \<lparr>t_store = \<lambda>_. emptyTimer KTimer, timers = [], t_chan = \<lambda>_. [], t_cap = \<lambda>_. 1, t_pool = \<lambda>_. [],
     t_user = \<lparr>mods = (\<lambda>a. if a = 0 then sample_module 0 0 [1] (Some [7 \<mapsto> 1, 8 \<mapsto> 2])
                 else if a = 1 then sample_module 7 1 [2] None else if a = 2 then sample_module 8 2 [] None
                 else sample_module 0 a [] None),
       mod_ev = sample_bus, timerSeedId = 0, mod_user = ()\<rparr>\<rparr>"

lemma sample_bus_rep: "ev_rep sample_bus (\<lambda>_. Map.empty)"
  by (simp add: ev_rep_def made_def reg_of_def bound_of_def listeners_def rd_def sample_bus_def subscribers_def pos_count_def
      GetEventProcessor_def)

lemma sample_msys_tree: "service_tree 0 (md sample_msys) (MNode 0 [MNode 1 [MNode 2 []]])"
  by (auto simp: service_tree_def md_def sample_msys_def sample_module_def)

lemma sample_msys_sel [simp]:
  "mev sample_msys = sample_bus" "timers sample_msys = []" "mapActiveIdTimer (md sample_msys a) = None"
  "md_dispatcher (md sample_msys a) = Some 0" "timer_inv sample_msys"
  "GetModuleId sample_msys (Suc 0) = 7" "md_eventHandler (md sample_msys a) = Some a"
  "GetEventProcessor sample_bus a = Some a"
  by (auto simp: mev_def md_def sample_msys_def sample_module_def GetModuleId_def timer_inv_def GetEventProcessor_def sample_bus_def emptyTimer_def is_heap_def)

lemma same_user: "\<exists>u. w = w\<lparr>t_user := (t_user w)\<lparr>mod_user := u\<rparr>\<rparr>" for w :: "('c, 'd, 'u) msys"
  by (rule exI [of _ "mod_user (t_user w)"]) simp

lemma quiet_unit: "quiet_hook (\<lambda>a w. Inr w)"
  by (simp add: quiet_hook_def same_user)

text \<open>A pool with one task waiting in its channel.\<close>

definition sample_pool :: cstate where
  "sample_pool = dispatch_open 1 2 (zeroConcurrent\<lparr>co_open := 1, co_cap := 3\<rparr>)"

definition sample_task :: task where
  "sample_task = \<lparr>tk_queueId = 5, tk_fn = Some 0, tk_cb = None\<rparr>"

lemma sample_pool_reach: "creach 1 2 3 (sample_pool\<lparr>co_tasks := [sample_task], co_submitted := [sample_task]\<rparr>)"
proof -
  have "OpenConcurrent 1 2 (int 3) zeroConcurrent = Inr sample_pool"
    by (simp add: OpenConcurrent_def sample_pool_def zeroConcurrent_def dispatch_open_def)
  then have "creach 1 2 3 sample_pool" by (rule creach.opened)
  moreover have "AsyncDoByQueue 4 (Some 0) None sample_pool =
      Some (Inr (sample_pool\<lparr>co_tasks := [sample_task], co_submitted := [sample_task]\<rparr>))"
    by (simp add: AsyncDoByQueue_def sample_pool_def dispatch_open_def zeroConcurrent_def sample_task_def queue_of_def
        maxTaskQueueSessionId_def go_rem_def Let_def)
  ultimately show ?thesis by (blast intro: creach.step cstep.submit)
qed

section \<open>Sample rank list\<close>

definition sample_upset :: "64 word \<Rightarrow> int \<Rightarrow> nat UpsetData" where
  "sample_upset k s = \<lparr>up_Key = k, up_SortData = [s], up_Data = Some 4, up_ExData = [(10, 2)]\<rparr>"

definition sample_renv :: rank_env where
  "sample_renv = \<lparr>env_rd = 0, env_ed = 0, env_toss = (\<lambda>_. True)\<rparr>"

text \<open>A new list for one entry, in descending order, with a duration of 50; and the same with one entry.\<close>

lemma sample_rank:
  "\<exists>rs :: nat RankSkip. NewRankSkip 1 ''r'' True 8 1 50 = Inr rs \<and> rank_ok 1 (SetupRankModule True rs) [] Map.empty"
proof -
  have m: "unat (1 :: 64 word) < 2 ^ 31" by simp
  obtain rs :: "nat RankSkip" where "NewRankSkip 1 ''r'' True 8 1 50 = Inr rs" "rank_ok 1 rs [] Map.empty"
    using NewRankSkip_ok [OF _ m, of 8 1 "''r''" True 50 1] by auto
  then show ?thesis by (auto simp: rank_ok_but_def map_ok_def expire_ok_def SetupRankModule_def)
qed

lemma sample_free:
  assumes "NewRankSkip 1 ''r'' True 8 1 50 = Inr rs" "length es = 0" "rs' = SetupRankModule True rs"
  shows "pools_free sample_renv up rs' es"
  using assms by (auto simp: pools_free_def sample_env_def NewRankSkip_def rdh_Init_def heap_Init_def rdh_iface_def rdh_Len_def
      SetupRankModule_def expireData_def split: if_splits)

lemma sample_conf:
  assumes "NewRankSkip 1 ''r'' True 8 1 50 = Inr rs"
  shows "rs_conf (SetupRankModule True rs) = (1, ''r'', True, 1, 50, True)" "board (SetupRankModule True rs) = Map.empty"
  using assms by (auto simp: NewRankSkip_def rdh_Init_def SetupRankModule_def rs_conf_def board_def fun_eq_iff split: if_splits)

lemma sample_rank1:
  "\<exists>(rs :: nat RankSkip) es. rank_ok 1 rs es [7 \<mapsto> 100] \<and> rankModule rs \<and> isDes rs \<and> rs_maxLen rs = 1 \<and> rs_expireMs rs = 50 \<and>
    board rs = [7 \<mapsto> new_entry True (sample_upset 7 3) 100] \<and> length es = 1"
proof -
  obtain rs :: "nat RankSkip" where rs: "NewRankSkip 1 ''r'' True 8 1 50 = Inr rs" "rank_ok 1 (SetupRankModule True rs) [] Map.empty"
    using sample_rank by blast
  define rs0 where "rs0 = SetupRankModule True rs"
  have c: "rs_conf rs0 = (1, ''r'', True, 1, 50, True)" "board rs0 = Map.empty" using sample_conf [OF rs(1)] by (simp_all add: rs0_def)
  have f: "pools_free sample_renv (sample_upset 7 3) rs0 []" using sample_free [OF rs(1), of "[]" rs0] rs0_def by simp
  have m: "rankModule rs0" "isDes rs0" "rs_maxLen rs0 = 1" using c(1) by (simp_all add: rs_conf_def)
  have "room rs0 (sample_upset 7 3) [] = Some None" using m(3) by (simp add: room_def)
  with UpsetRank_unknown [OF rs(2) [folded rs0_def] m(1) _ _ f, of 100 False] c(2) obtain rs' es' where
    "rank_ok 1 rs' es' [7 \<mapsto> 100]" "board rs' = [7 \<mapsto> new_entry (isDes rs0) (sample_upset 7 3) 100]" "rs_conf rs' = rs_conf rs0" "length es' = 1"
    by (auto simp: sample_upset_def)
  then show ?thesis using c m by (auto simp: rs_conf_def)
qed

lemma sample_not_expired:
  assumes "rank_ok 1 rs es [7 \<mapsto> 100]" "rankModule rs" "rs_expireMs rs = 50" "pickExpireKey (\<lambda>_. 120) rs = Some (Inr rs')"
  shows "board rs' = board rs"
proof -
  have w: "wrap64 (100 + 50) = 150" by code_simp
  obtain rs1 es1 K L where p: "pickExpireKey (\<lambda>_. 120) rs = Some (Inr rs1)" "board rs1 = board rs |` (- K)" "K = L - {0}"
    "\<forall>k \<in> L. rs_expireMs rs \<noteq> 0 \<and> (\<exists>t j. [7 \<mapsto> 100] k = Some t \<and> j < MaxPickExpireNum \<and> wrap64 (t + rs_expireMs rs) \<le> 120)"
    using pickExpireKey_ok [OF assms(1,2), of "\<lambda>_. 120"] by metis
  have "L = {}" using p(4) assms(3) w by (auto split: if_splits)
  then show ?thesis using p assms(4) by (auto simp: restrict_map_def fun_eq_iff)
qed

section \<open>Sample cron timer\<close>





section \<open>Sample store\<close>

text \<open>A table with the array variable \<open>g_a\<close>, whose one element stands in an array with room for another.\<close>

definition sample_store :: pstore where
  "sample_store = \<lparr>ps_port = (\<lambda>a. if a = 1 then CArray (Some \<lparr>ps_arr = 2, ps_len = 1\<rparr>) else CExec),
     ps_array = (\<lambda>b. if b = 2 then [zero_data\<lparr>IntVal := 5\<rparr>, zero_data] else []),
     ps_map = (\<lambda>m. if m = 0 then [''g_a'' \<mapsto> Some 1] else Map.empty), ps_next = 3\<rparr>"

text \<open>A run that writes the element of the variable and appends to it.\<close>

definition sample_port_ops :: "port_op list" where
  "sample_port_ops = [PGetVar ''g_a'', PSetArrayValInt 0 0 9, PAppendArrayData 0 (zero_data\<lparr>IntVal := 7\<rparr>)]"

lemma sample_store_ok: "alloc_opt sample_store (Some 0)" "walk_of sample_store (Some 0) [''g_a'']"
  by (auto simp: alloc_opt_def alloc_map_def alloc_port_def cell_below_def walk_of_def sample_store_def split: if_splits)

lemma sample_store_table: "table sample_store 0 ''g_a'' = Some (Some (Port_Array [zero_data\<lparr>IntVal := 5\<rparr>]))"
  by (simp add: table_def content_def slice_elems_def sample_store_def)

section \<open>Properties\<close>

text \<open>
  C1. Any sequence of deque operations, started on a deque from \<^verbatim>\<open>New()\<close>, returns the results the same
  operations return on a plain list, including which calls panic; the contents agree at the end.
\<close>

theorem deque_runs_as_list:
  "\<exists>q q'. NewDeque z [] = Some (Inr q) \<and> dq_run z q ops = (fst (dql_run [] ops), q') \<and>
     deque_list q' = snd (dql_run [] ops)"
proof -
  from NewDeque_ok [of "[]" z] obtain q where "NewDeque z [] = Some (Inr q)" "deque_inv q" "deque_list q = []"
    by auto
  with dq_run_refines [of q z ops] show ?thesis by auto
qed

text \<open>
  C2. One round of \<^verbatim>\<open>checkRpcCallTimeout\<close> on a consistent call set: the calls that fail are due when
  they are taken, leave table and heap together, fail once each in the order of their deadlines, ahead of
  all that stay, and the round stops before its limit only if nothing more is due.
\<close>

theorem call_timeout_round:
  assumes "cs_inv cs"
  shows "\<exists>cs' ts. CallSet_checkRpcCallTimeout cs now = Inr cs' \<and> cs_inv cs' \<and>
    expires timeout_delivery cs ts cs' \<and> length ts \<le> maxCheckCallRpcCount cs \<and>
    (\<forall>k < length ts. FireTime (ts ! k) \<le> now k) \<and>
    (length ts < maxCheckCallRpcCount cs \<longrightarrow>
      (\<forall>u \<in> set (callTimer (callTimerHeap cs')). now (length ts) < FireTime u))"
  using checkRpcCallTimeout_loop_ok [OF assms, of now 0 "maxCheckCallRpcCount cs"]
  by (simp add: CallSet_checkRpcCallTimeout_def)

theorem call_timeout_round_witness:
  "\<exists>cs' ts. CallSet_checkRpcCallTimeout sample_calls (\<lambda>_. 12) = Inr cs' \<and> cs_inv cs' \<and>
    expires timeout_delivery sample_calls ts cs' \<and> length ts \<le> maxCheckCallRpcCount sample_calls \<and>
    (\<forall>k < length ts. FireTime (ts ! k) \<le> 12) \<and>
    (length ts < maxCheckCallRpcCount sample_calls \<longrightarrow>
      (\<forall>u \<in> set (callTimer (callTimerHeap cs')). 12 < FireTime u))"
  using call_timeout_round [OF sample_calls_inv, of "\<lambda>_. 12"] by simp

text \<open>
  C3. \<^verbatim>\<open>cleanPending\<close> ends, and after it every call that was pending has failed exactly once with the
  disconnect error; table and heap are empty.
\<close>

theorem disconnect_fails_all:
  assumes "cs_inv cs"
  shows "\<exists>cs' ts. CallSet_cleanPending cs = Inr cs' \<and> cs_inv cs' \<and>
    mset ts = mset (callTimer (callTimerHeap cs)) \<and> failed cs' = failed cs @ map (disconnect_delivery cs) ts \<and>
    pending cs' = Map.empty \<and> callTimer (callTimerHeap cs') = []"
proof -
  from cleanPending_ok [OF assms] obtain cs' ts where c: "CallSet_cleanPending cs = Inr cs'" "cs_inv cs'"
    "expires disconnect_delivery cs ts cs'" "callTimer (callTimerHeap cs') = []" by blast
  moreover have "pending cs' = Map.empty" using c(2,4) by (auto simp: cs_inv_def dom_eq_empty_conv)
  ultimately show ?thesis by (auto simp: expires_def)
qed

theorem disconnect_fails_all_witness:
  "\<exists>cs' ts. CallSet_cleanPending sample_calls = Inr cs' \<and> cs_inv cs' \<and>
    mset ts = mset (callTimer (callTimerHeap sample_calls)) \<and>
    failed cs' = failed sample_calls @ map (disconnect_delivery sample_calls) ts \<and>
    pending cs' = Map.empty \<and> callTimer (callTimerHeap cs') = []"
  by (rule disconnect_fails_all [OF sample_calls_inv])

text \<open>
  C4. Ticking until a tick does not send, one tick more than there are timers being enough; \<open>clock j\<close> is what the tick number \<open>j\<close>
  reads. The timers sent, each due when it was sent, are sent once and in the order of their fire times. At the end
  nothing left is due, or the earliest one left is and its send waits, the channel being nil or full (\<open>loop_end\<close>). With
  \<open>chan_room\<close> in the channels for the timers bound for them, no send waits.
\<close>

theorem timer_tick_order:
  assumes "timer_inv w"
  shows "\<exists>ts w'. delivers w ts w' \<and> timer_inv w' \<and> (\<forall>j < length ts. fireTime (t_store w (ts ! j)) \<le> clock j) \<and>
    loop_end (clock (length ts)) w' (tick_loop (Suc (length (timers w))) clock 0 w) \<and>
    (chan_room w \<longrightarrow> tick_loop (Suc (length (timers w))) clock 0 w = Inr (Idle, w') \<and>
      (\<forall>t \<in> set (timers w'). clock (length ts) < fireTime (t_store w' t)))"
proof -
  obtain ts w' where r: "delivers w ts w'" "timer_inv w'" "\<forall>j < length ts. fireTime (t_store w (ts ! j)) \<le> clock j"
    "loop_end (clock (length ts)) w' (tick_loop (Suc (length (timers w))) clock 0 w)"
    using tick_loop_ok [OF assms, of "Suc (length (timers w))" clock 0] by auto
  then show ?thesis using loop_end_room [OF _ r(1,4)] by blast
qed

theorem timer_tick_order_witness:
  "\<exists>ts w'. tick_loop (Suc (length (timers sample_timers))) (\<lambda>j. 7 + int j) 0 sample_timers = Inr (Idle, w') \<and> timer_inv w' \<and>
    delivers sample_timers ts w' \<and> (\<forall>t \<in> set (timers w'). 7 + int (length ts) < fireTime (t_store w' t))"
  using timer_tick_order [OF sample_timers_inv, of "\<lambda>j. 7 + int j"] sample_timers_room by blast

text \<open>
  C5. What \<^verbatim>\<open>Write\<close> puts on the stream, \<^verbatim>\<open>Read\<close> takes off it again: the data of the arguments in
  order, and the rest of the stream untouched, whatever buffers the pool hands out.
\<close>

theorem message_round_trip:
  assumes "bytespool_inv s" "len_ok p (length (concat args))" "length (concat args) \<le> unat (MaxReadMsgLen p)"
  shows "\<exists>msg s1 b s2. MsgParser_Write (MakeBytes c1) p s args = Inr (Inr msg, s1) \<and>
    MsgParser_Read (MakeBytes c2) ReleaseBytes p s1 (msg @ rest) = Inr (Inr (b, rest), s2) \<and>
    slice_bytes b = concat args \<and> bytespool_inv s2"
proof -
  from bp.write_ok [OF assms(1,2), of c1] obtain s1 where w:
    "MsgParser_Write (MakeBytes c1) p s args = Inr (Inr (frame p (concat args)), s1)" "bytespool_inv s1" by blast
  from bp.read_ok [OF w(2) assms(2,3), of c2 rest] w(1) show ?thesis by blast
qed

theorem message_round_trip_witness:
  "\<exists>msg s1 b s2. MsgParser_Write (MakeBytes None) sample_parser bytespool_init [[1, 2], [3]] = Inr (Inr msg, s1) \<and>
    MsgParser_Read (MakeBytes (Some 0)) ReleaseBytes sample_parser s1 (msg @ [9, 9]) = Inr (Inr (b, [9, 9]), s2) \<and>
    slice_bytes b = [1, 2, 3] \<and> bytespool_inv s2"
  using message_round_trip [OF bytespool_init_ok, of sample_parser "[[1, 2], [3]]" None "Some 0" "[9, 9]"]
  by (simp add: len_ok_def sample_parser_def)

text \<open>
  C6. Any sequence of \<^verbatim>\<open>Add\<close>, \<^verbatim>\<open>Pop\<close>, \<^verbatim>\<open>Peek\<close>, \<^verbatim>\<open>Get\<close> and \<^verbatim>\<open>Length\<close> on a new queue answers as the same sequence on a list,
  where \<^verbatim>\<open>Pop\<close> and \<^verbatim>\<open>Peek\<close> on the empty list answer nil (\<open>z\<close>) and change nothing. No call panics.
\<close>

theorem queue_runs_as_list:
  "\<exists>q q'. NewQueue z = Inr q \<and> queue_calls z q rs = Inr (fst (list_calls z [] rs), q') \<and>
     queue_list q' = snd (list_calls z [] rs)"
proof -
  from NewQueue_ok [of z] obtain q where "NewQueue z = Inr q" "queue_inv q" "queue_list q = []" by blast
  with queue_calls_ok [of q z rs] show ?thesis by auto
qed

text \<open>
  C7. A queue made for \<open>n\<close> elements, \<open>n\<close> being any \<^verbatim>\<open>int\<close> that is not negative, behaves as a list of at most \<open>n\<close> elements: a push is
  refused exactly when it is full. For the largest \<^verbatim>\<open>int\<close> the length wraps around and \<^verbatim>\<open>make\<close> panics.
\<close>

theorem squeue_runs_as_bounded_list:
  assumes "0 \<le> n" "n < 2 ^ 63"
  shows "if n = 2 ^ 63 - 1 then NewSQueue z n = Inl MakeNegative
    else \<exists>s s'. NewSQueue z n = Inr s \<and>
      qrun SQueue_Push SQueue_Pop s ops = Inr (fst (list_run (Some (nat n)) [] ops), s') \<and>
      squeue_list s' = snd (list_run (Some (nat n)) [] ops)"
proof (cases "n = 2 ^ 63 - 1")
  case False
  then have "n + 1 < 2 ^ 63" using assms(2) by linarith
  from NewSQueue_ok [OF assms(1) this, of z] obtain s where "NewSQueue z n = Inr s" "squeue_inv s" "squeue_list s = []"
    "squeue_cap s = Some (nat n)" by blast
  with bq.run_refines [of s ops] False show ?thesis by auto
qed (use NewSQueue_wraps in simp)

theorem squeue_runs_as_bounded_list_witness:
  "\<exists>s s'. NewSQueue (0::nat) 1 = Inr s \<and>
    qrun SQueue_Push SQueue_Pop s [Enq 4, Enq 5, Deq, Deq] = Inr ([EnqOk, EnqFull, DeqSome 4, DeqEmpty], s') \<and>
    squeue_list s' = []"
  using squeue_runs_as_bounded_list [of 1 "0::nat" "[Enq 4, Enq 5, Deq, Deq]"] by simp

text \<open>
  C8. \<^verbatim>\<open>Pop\<close> returns an item of the highest priority, removes exactly that item and marks it as
  not queued.
\<close>

theorem priority_pop_highest:
  assumes "pq_ok vp out pq" "priorityQueueSlice pq \<noteq> []" "out \<inter> set (priorityQueueSlice pq) = {}"
  shows "\<exists>x pq'. PriorityQueue_Pop pq = Inr (Some x, pq') \<and> pq_ok vp out pq' \<and>
    (\<forall>y \<in> set (priorityQueueSlice pq). snd (vp y) \<le> snd (vp x)) \<and>
    mset (priorityQueueSlice pq) = add_mset x (mset (priorityQueueSlice pq')) \<and>
    Index (item_store pq' x) = - 1"
proof -
  let ?x = "priorityQueueSlice pq ! 0"
  obtain pq' where p: "PriorityQueue_Pop pq = Inr (PriorityQueue_GetHighest pq, pq')" "pq_ok vp out pq'"
    "mset (priorityQueueSlice pq) = add_mset ?x (mset (priorityQueueSlice pq'))"
    by (rule PriorityQueue_Pop_ok [OF assms(1,2)])
  have "?x \<notin> out" using assms(2,3) by (metis disjoint_iff length_greater_0_conv nth_mem)
  moreover have "pq_inv vp out pq" using assms(1) by (simp add: pq_ok_def)
  ultimately have "Index (item_store pq' ?x) = - 1" using pq_removed_index(1) [OF p(2) _ _ p(3)] by blast
  moreover have "PriorityQueue_GetHighest pq = Some ?x" using assms(2) by (simp add: PriorityQueue_GetHighest_def)
  ultimately show ?thesis using p pq_ok_highest [OF assms(1)] by metis
qed

theorem priority_pop_highest_witness:
  "\<exists>x pq'. PriorityQueue_Pop sample_pq = Inr (Some x, pq') \<and> pq_ok sample_vp (- {3, 4}) pq' \<and>
    (\<forall>y \<in> set (priorityQueueSlice sample_pq). snd (sample_vp y) \<le> snd (sample_vp x)) \<and>
    mset (priorityQueueSlice sample_pq) = add_mset x (mset (priorityQueueSlice pq')) \<and>
    Index (item_store pq' x) = - 1"
  by (rule priority_pop_highest [OF sample_pq_ok]) (simp_all add: sample_pq_def)

text \<open>
  C9. A graph the loader accepts has no cycle of execution lines. If its data lines have none among the nodes
  without execution line either (the rank \<open>d\<close>), every run of the entrance returns: nested node
  executions number at most \<open>enough_fuel\<close>.
\<close>

theorem accepted_graph_terminates:
  assumes "prepareOneEntrance n gp name eid node cfg = Some (ROk (), gp')"
    and "GraphPool_Create gp' name gid = Some g"
    and "entrance g eid = Some (tab, nid)" "data_ranked tab d D"
  shows "Graph_Do E (enough_fuel (card (dom tab)) D n) eid args (enter g w) \<noteq> None"
  using accepted_returns [OF assms(1)] assms(2-4)
  by (auto simp: GraphPool_Create_def split: option.splits)

theorem accepted_graph_terminates_witness:
  "Graph_Do sample_env (enough_fuel (card (dom sample_tab)) 0 257) 1 [] (enter sample_graph zero_world) \<noteq> None"
  by (rule accepted_graph_terminates [OF sample_accepted, where gid = 1 and nid = "''e''" and d = "\<lambda>_. 0"])
    (simp_all add: GraphPool_Create_def sample_gpool'_def sample_gpool_def sample_graph_def sample_data_ranked)

text \<open>
  C10. One instance of each node class serves all activations. On every way out of \<^verbatim>\<open>Do\<close> the instances
  point to the context and node they pointed to before, existing contexts stay, and the graph keeps its
  identity and entrances.
\<close>

theorem instances_restored:
  assumes "own_ids tab" "execNode_Do E tab n nid args s = Some (r, s')"
  shows "bound s' = bound s \<and> dom (gr_context s) \<subseteq> dom (gr_context s') \<and> length (ctxs s) \<le> length (ctxs s') \<and>
    entrance s' = entrance s \<and> graphID s' = graphID s \<and> (\<exists>es. events s' = events s @ es)"
  using runs_keeps [OF Do_keeps [OF assms(1)] assms(2)] by (simp add: keeps_def)

theorem instances_restored_witness:
  "\<exists>r s'. execNode_Do sample_env sample_tab 4 ''zz'' [] (enter sample_graph zero_world) = Some (r, s') \<and> bound s' = Map.empty"
proof -
  have run: "execNode_Do sample_env sample_tab 4 ''zz'' [] (enter sample_graph zero_world) =
      Some (RPanic NilDereference, enter sample_graph zero_world)"
    by (simp add: Do_numeral Do_body_def act_defs sample_tab_def)
  from instances_restored [OF sample_tab_own run] run show ?thesis by (auto simp: zero_world_def)
qed

text \<open>
  C11. On the store of ports, arrays and tables: after a run that panicked, whatever operations \<open>ops\<close> it consisted of, the graph's
  table has the content from before the run, and so has every other table that was there.
\<close>

theorem panic_rolls_back:
  assumes "alloc_opt s g" "walk_of s g ks" "walk_of s g ks'"
  shows "\<exists>g' s'. st_Graph_Do spare ks ks' ops True g s = (g', s') \<and> tables s' g' = tables s g \<and>
    (\<forall>h. alloc_map s h \<longrightarrow> table s' h = table s h)"
proof -
  obtain g' s' where r: "st_Graph_Do spare ks ks' ops True g s = (g', s')" by fastforce
  from Graph_Do_ok(1,2) [OF assms r] show ?thesis using r table_same(1) by blast
qed

theorem panic_rolls_back_witness:
  "\<exists>m s'. st_Graph_Do (\<lambda>_. 1) [''g_a''] [''g_a''] sample_port_ops True (Some 0) sample_store = (Some m, s') \<and>
    table s' m ''g_a'' = Some (Some (Port_Array [zero_data\<lparr>IntVal := 5\<rparr>]))"
proof -
  obtain g' s' where r: "st_Graph_Do (\<lambda>_. 1) [''g_a''] [''g_a''] sample_port_ops True (Some 0) sample_store = (g', s')"
    "tables s' g' = tables sample_store (Some 0)"
    using panic_rolls_back [OF sample_store_ok sample_store_ok(2)] by blast
  then obtain m where "g' = Some m" "table s' m = table sample_store 0" by (cases g') (simp_all add: tables_def)
  then show ?thesis using r(1) sample_store_table by auto
qed

text \<open>
  C12. On the store of ports, arrays and tables: a run of a clone of a graph leaves the graph's table of global variables and every
  other table as they were. The clone's run starts from the content of the graph's table, without a return value (what a
  run of no operations leaves).
\<close>

theorem events_isolated:
  assumes "alloc_opt s g" "walk_of s g ks" "walk_of s g ks1" "walk_of s g ks2"
  shows "\<exists>g' s'. st_Blueprint_Do spare ks ks1 ks2 ops panics g s = (g', s') \<and> tables s' g = tables s g \<and>
    (\<forall>h. alloc_map s h \<longrightarrow> table s' h = table s h) \<and>
    (ops = [] \<and> \<not> panics \<longrightarrow> tables s' g' = Some ((case tables s g of None \<Rightarrow> Map.empty | Some f \<Rightarrow> f)(ReturnVarial \<mapsto> None)))"
proof -
  obtain g' s' where r: "st_Blueprint_Do spare ks ks1 ks2 ops panics g s = (g', s')" by fastforce
  note b = Blueprint_Do_ok [OF assms r]
  show ?thesis using r b(2) tables_same [OF assms(1) b(1)] table_same(1) [OF _ b(1)] by blast
qed

theorem events_isolated_witness:
  "\<exists>g' s'. st_Blueprint_Do (\<lambda>_. 1) [''g_a''] [''g_a''] [''g_a''] sample_port_ops False (Some 0) sample_store = (g', s') \<and>
    table s' 0 ''g_a'' = Some (Some (Port_Array [zero_data\<lparr>IntVal := 5\<rparr>])) \<and>
    tables s' g' = Some [''g_Return'' \<mapsto> None, ''g_a'' \<mapsto> Some (Port_Array [zero_data\<lparr>IntVal := 9\<rparr>, zero_data\<lparr>IntVal := 7\<rparr>])]"
proof -
  obtain g' s' where r: "st_Blueprint_Do (\<lambda>_. 1) [''g_a''] [''g_a''] [''g_a''] sample_port_ops False (Some 0) sample_store = (g', s')"
    "tables s' (Some 0) = tables sample_store (Some 0)"
    using events_isolated [OF sample_store_ok sample_store_ok(2) sample_store_ok(2)] by blast
  have "tables s' g' = Some [''g_Return'' \<mapsto> None, ''g_a'' \<mapsto> Some (Port_Array [zero_data\<lparr>IntVal := 9\<rparr>, zero_data\<lparr>IntVal := 7\<rparr>])]"
    using r(1) by (auto simp: st_Blueprint_Do_def st_Graph_Do_def st_clonePortMap_def new_map_def st_Clone_def st_append_def new_arr_def
        new_port_def sample_store_def sample_port_ops_def with_port_def st_SetArrayValInt_def set_elem_def st_AppendArrayData_def
        slice_elems_def table_def content_def ReturnVarial_def zero_data_def Let_def fun_eq_iff)
  then show ?thesis using r sample_store_table by auto
qed

text \<open>
  C13. \<^verbatim>\<open>Create\<close> on a consistent manager, below the largest id: a new graph gets an unused id and its name, the
  others stay as they are, and id 0 means that no such graph is loaded.
\<close>

theorem graph_ids_fresh:
  assumes "bp_inv bm" "seedID bm < 2 ^ 63 - 1" "Blueprint_Create bm name = (gid, bm')"
  shows "bp_inv bm' \<and> (gid \<noteq> 0 \<longleftrightarrow> name \<noteq> [] \<and> mapGraphs (graphPool bm) name \<noteq> None) \<and>
    (gid = 0 \<or> (mapGraph bm gid = None \<and> GetGraphName bm' gid = name)) \<and>
    (k = gid \<or> mapGraph bm' k = mapGraph bm k)"
  using Create_fresh [OF assms] by auto

theorem graph_ids_fresh_witness:
  "bp_inv (snd (Blueprint_Create sample_bp ''g'')) \<and> fst (Blueprint_Create sample_bp ''g'') \<noteq> 0"
proof -
  obtain gid bm' where c: "Blueprint_Create sample_bp ''g'' = (gid, bm')" by (cases "Blueprint_Create sample_bp ''g''")
  have "seedID sample_bp < 2 ^ 63 - 1" "mapGraphs (graphPool sample_bp) ''g'' \<noteq> None"
    by (simp_all add: sample_bp_def sample_gpool'_def)
  with graph_ids_fresh [OF sample_bp_inv _ c] c show ?thesis by simp
qed

text \<open>
  C14. The event system implements a table of subscriptions (handler and event type to source and callback): a
  sequence \<open>bs\<close> of calls, each allowed in the abstract state it meets, returns, and ends in a state that
  represents the result of the abstract operations; no channel is touched.
\<close>

theorem subscriptions_refined:
  assumes "ev_rep w A" "bus_legal (GetEventProcessor w) bs A"
  shows "\<exists>w'. each_go (bus_do RegEventReceiverFunc UnRegEventReceiverFun) bs w = Inr w' \<and> ev_rep w' (fold bus_next bs A) \<and>
    GetEventProcessor w' = GetEventProcessor w \<and> ev_chan w' = ev_chan w"
  using bus.run_law [OF assms] .

theorem subscriptions_refined_witness:
  "\<exists>w'. each_go (bus_do RegEventReceiverFunc UnRegEventReceiverFun)
      [BReg 0 5 1 70, BReg 0 5 2 71, BReg 3 6 1 72, BUnReg 0 5 2, BDestroy [(6, 3), (5, 0)] 1] sample_bus = Inr w' \<and>
    ev_rep w' (\<lambda>_. Map.empty)"
proof -
  let ?bs = "[BReg 0 5 1 70, BReg 0 5 2 71, BReg 3 6 1 72, BUnReg 0 5 2, BDestroy [(6, 3), (5, 0)] 1] :: nat bus_op list"
  have "bus_legal (GetEventProcessor sample_bus) ?bs (\<lambda>_. Map.empty)" by (auto simp: entries_def split: if_splits)
  moreover have "fold bus_next ?bs (\<lambda>_. Map.empty) = (\<lambda>_. Map.empty)" by (simp add: fun_eq_iff)
  ultimately show ?thesis using subscriptions_refined [OF sample_bus_rep, of ?bs] by auto
qed

text \<open>
  C15. Casting an event from processor \<open>p\<close>, in whatever order \<open>qs\<close> the listeners are walked, where the channels \<open>ch\<close> of the
  processors are different ones and hold at least \<open>mx\<close> events, the global limit (\<open>roomy\<close>): the channel of each processor with
  a handler subscribed at \<open>p\<close> for the type is offered the event once (it is dropped when the channel is at the limit), no other
  channel changes. When a processor \<open>q\<close> handles the event, the callbacks of the handlers of \<open>q\<close> bound for the type run
  in the order \<open>hs\<close> of the walk, up to the first that panics; all of them if none does. (A smaller channel can make the send
  wait; callbacks that register or unregister are not covered.)
\<close>

theorem event_delivery:
  assumes "ev_rep w A" "roomy mx w" "\<And>q. ep_channel (ev_proc w q) = Some (ch q)" "inj ch"
    and "distinct qs" "Some ` set qs = dom (listeners w p (ev_Type ev))"
    and "distinct hs" "set hs = dom (bound_of w q (ev_Type ev))"
  shows "\<exists>w'. castEvent mx (map Some qs) p ev w = Some (Inr w') \<and>
    (\<forall>q. ev_chan w' (ch q) = (if \<exists>h c. GetEventProcessor w h = Some q \<and> A h (ev_Type ev) = Some (p, c)
       then offered mx ev (ev_chan w (ch q)) else ev_chan w (ch q))) \<and>
    runs_until_panic call (map (\<lambda>h. snd (the (A h (ev_Type ev)))) hs) ev x (EventProcessor_EventHandler call hs q ev w' x) \<and>
    ((\<forall>c x. snd (call c ev x)) \<longrightarrow>
      EventProcessor_EventHandler call hs q ev w' x = fold (\<lambda>h x. fst (call (snd (the (A h (ev_Type ev)))) ev x)) hs x)"
proof -
  have mem: "q' \<in> set qs \<longleftrightarrow> (\<exists>h c. GetEventProcessor w h = Some q' \<and> A h (ev_Type ev) = Some (p, c))" for q'
    using assms(6) dom_listeners [OF assms(1), of p "ev_Type ev"] by (auto simp: set_eq_iff image_iff)
  have ord: "set (map Some qs) = dom (listeners w p (ev_Type ev))" using assms(6) by simp
  obtain w' where w': "push_all mx (map Some qs) ev w = Some (Inr w')" "ev_proc w' = ev_proc w" "ev_handler w' = ev_handler w"
    "\<forall>c. ev_chan w' c = (if c \<in> ch ` set qs then offered mx ev (ev_chan w c) else ev_chan w c)"
    using push_all_ok [OF assms(2,5), of ch ev] assms(3,4) by (auto intro: inj_on_subset)
  have "ch q' \<in> ch ` set qs \<longleftrightarrow> q' \<in> set qs" for q' using assms(4) by (auto simp: inj_def)
  then have chans: "\<forall>q. ev_chan w' (ch q) = (if \<exists>h c. GetEventProcessor w h = Some q \<and> A h (ev_Type ev) = Some (p, c)
       then offered mx ev (ev_chan w (ch q)) else ev_chan w (ch q))" using w'(4) mem by simp
  have "set hs = {h. GetEventProcessor w h = Some q \<and> A h (ev_Type ev) \<noteq> None}"
    using assms(8) dom_bound_of [OF assms(1)] by auto
  from EventHandler_runs [where call = call, OF assms(1) this] w'(2)
  have run: "EventProcessor_EventHandler call hs q ev w' x = fst (run_callbacks call (map (\<lambda>h. snd (the (A h (ev_Type ev)))) hs) ev x)"
    by (simp add: EventProcessor_EventHandler_def)
  have cast: "castEvent mx (map Some qs) p ev w = Some (Inr w')"
    using castEvent_push_all [OF ev_repD(1) [OF assms(1)] ord, of mx] w'(1) by simp
  moreover have "runs_until_panic call (map (\<lambda>h. snd (the (A h (ev_Type ev)))) hs) ev x (EventProcessor_EventHandler call hs q ev w' x)"
    unfolding run by (rule run_callbacks_until)
  moreover have "(\<forall>c x. snd (call c ev x)) \<longrightarrow>
      EventProcessor_EventHandler call hs q ev w' x = fold (\<lambda>h x. fst (call (snd (the (A h (ev_Type ev)))) ev x)) hs x"
    by (simp add: run run_callbacks_all fold_map comp_def)
  ultimately show ?thesis using chans by blast
qed

theorem event_delivery_witness:
  "\<exists>w w'. RegEventReceiverFunc 0 5 1 70 sample_bus = Inr w \<and> castEvent 4 [Some 1] 0 sample_event w = Some (Inr w') \<and>
    chanEvent (ev_chan w' 1) = [sample_event] \<and> chanEvent (ev_chan w' 2) = [] \<and>
    EventProcessor_EventHandler (\<lambda>c ev x. (x + c, True)) [1] 1 sample_event w' (3::nat) = 73"
proof -
  let ?A = "(\<lambda>_. Map.empty)(1 := [5 \<mapsto> (0, 70)]) :: nat subscriptions"
  obtain w where reg: "RegEventReceiverFunc 0 5 1 70 sample_bus = Inr w" and rep: "ev_rep w ?A"
    and o: "GetEventProcessor w = GetEventProcessor sample_bus" and c: "ev_chan w = ev_chan sample_bus"
    by (rule Reg_ok [OF sample_bus_rep, where h = 1 and q = 1 and t = 5 and p = 0 and c = 70]) (simp, simp, blast)
  have p: "ep_channel (ev_proc w q) = Some (id q)" for q
    using reg by (auto simp: RegEventReceiverFunc_def addRegInfo_def addBindEvent_def addListen_def GetEventProcessor_def
        sample_bus_def Let_def upd_proc_def upd_handler_def split: if_splits)
  have l: "Some ` set [1] = dom (listeners w 0 (ev_Type sample_event))" "set [1] = dom (bound_of w 1 (ev_Type sample_event))"
    by (auto simp: dom_listeners [OF rep] dom_bound_of [OF rep] o sample_event_def split: if_splits)
  have "roomy 4 w" by (simp add: roomy_def c sample_bus_def)
  from event_delivery [OF rep this p inj_on_id _ l(1) _ l(2), of "\<lambda>c ev x. (x + c, True)" 3] reg show ?thesis
    by (auto simp: o c offered_def sample_bus_def sample_event_def GetEventProcessor_def split: if_splits dest!: spec [of _ 2])
qed

text \<open>
  C16. Whatever the interleaving of clients, dispatcher and workers: the tasks of a queue that were handed to a worker are
  a prefix of those submitted, in the same order; at most one worker at a time runs a task of a given queue; the
  worker count is the number of live workers and at most the limit; the dispatcher has not panicked.
\<close>

theorem queue_tasks_serial:
  assumes "creach mn mx k s" "0 < k"
  shows "(\<forall>q. \<exists>rest. of_queue q (co_submitted s) = of_queue q (co_started s) @ rest) \<and>
    (\<forall>i j t u. i < length (co_workers s) \<and> j < length (co_workers s) \<and> co_workers s ! i = WExec t \<and>
       co_workers s ! j = WExec u \<and> tk_queueId t = tk_queueId u \<and> tk_queueId t \<noteq> 0 \<longrightarrow> i = j) \<and>
    workerNum s = int (length (filter (\<lambda>w. w \<noteq> WGone) (co_workers s))) \<and> workerNum s \<le> max 0 mx \<and> co_pc s \<noteq> DCrash"
  using started_prefix [OF creach_cinv [OF assms(1)]] one_worker_per_queue [OF creach_cinv [OF assms(1)]]
    creach_cnum [OF assms] cinvD(2) [OF creach_cinv [OF assms(1)]]
  by (auto simp: cnum_def alive_def)

theorem queue_tasks_serial_witness:
  "\<exists>rest. of_queue 5 [sample_task] = of_queue 5 (co_started sample_pool) @ rest"
  using queue_tasks_serial [OF sample_pool_reach] by simp

text \<open>
  C17. While the pool is open and no client submits, there is no infinite sequence of steps of the dispatcher, the workers
  and the service that takes the callbacks; and a state in which none of them can move has nothing left in any
  queue or channel, and every submitted task has been run exactly once.
\<close>

theorem tasks_complete:
  assumes "creach mn mx k s" "\<not> co_cancelled s" "mn \<noteq> -1" "0 < mx" "0 < k"
  shows "(\<nexists>f. f 0 = s \<and> (\<forall>i. internal (f i) (f (Suc i)))) \<and>
    (\<forall>s'. internal\<^sup>*\<^sup>* s s' \<and> (\<nexists>s''. internal s' s'') \<longrightarrow> all_done s' \<and> mset (co_finished s') = mset (co_submitted s'))"
proof (intro conjI allI impI; (elim conjE)?)
  show "\<nexists>f. f 0 = s \<and> (\<forall>i. internal (f i) (f (Suc i)))" by (rule internal_run_ends [OF assms(1-3)])
  have run: "internal\<^sup>*\<^sup>* s s' \<Longrightarrow> creach mn mx k s' \<and> \<not> co_cancelled s'" for s'
    by (induction rule: rtranclp_induct)
      (use assms in \<open>auto dest: internal_step internal_not_cancelled creach_cinv\<close>)
  fix s' assume "internal\<^sup>*\<^sup>* s s'" "\<nexists>s''. internal s' s''"
  then show "all_done s'" "mset (co_finished s') = mset (co_submitted s')"
    using stuck_all_done [OF _ _ assms(3-5)] run by (auto simp: all_done_def)
qed

theorem tasks_complete_witness:
  "\<nexists>f. f 0 = sample_pool\<lparr>co_tasks := [sample_task], co_submitted := [sample_task]\<rparr> \<and> (\<forall>i. internal (f i) (f (Suc i)))"
  using tasks_complete [OF sample_pool_reach] by (simp add: sample_pool_def dispatch_open_def zeroConcurrent_def)

text \<open>
  C18. In a well-formed service tree, a release of a child \<open>c\<close> of \<open>m\<close> through \<open>m\<close> returns. The modules of the subtree of \<open>c\<close>
  are cleared and out of the table, their registrations are gone, their timers cancelled, everything else is as it
  was (\<open>released_state\<close>), and the service has the tree without that subtree. The \<^verbatim>\<open>OnRelease\<close> hooks return and only change the
  application's own state (\<open>quiet_hook\<close>).
\<close>

theorem module_released:
  assumes "quiet_hook onRelease" "walk_ok walk" "service_tree r (md w) T" "ev_rep (mev w) A"
    and "m \<in> set (mnodes T)" "c \<in> set (md_child (md w m))"
  shows "\<exists>t \<in> subtrees T. mroot t = c \<and> set (mnodes (prune c T)) = set (mnodes T) - set (mnodes t) \<and>
    (\<forall>n \<ge> mdepth t. \<exists>w'. ReleaseModule onRelease walk n m (GetModuleId w c) w = Some (Inr w') \<and>
      released_state m r (set (mnodes t)) A w w' \<and> service_tree r (md w') (prune c T))"
  by (rule release_child_ok [OF assms]) blast

theorem module_released_witness:
  "\<exists>t \<in> subtrees (MNode 0 [MNode 1 [MNode 2 []]]). mroot t = 1 \<and> (\<forall>n \<ge> mdepth t. \<exists>w'.
    ReleaseModule (\<lambda>a w. Inr w) (\<lambda>e h. sorted_list_of_set {(t, p). p \<in> reg_of e h t}) n 0 7 sample_msys = Some (Inr w') \<and>
      service_tree 0 (md w') (MNode 0 []))"
proof -
  have "1 \<in> set (md_child (md sample_msys 0))" by (simp add: md_def sample_msys_def sample_module_def)
  moreover have "0 \<in> set (mnodes (MNode 0 [MNode 1 [MNode 2 []]]))" "ev_rep (mev sample_msys) (\<lambda>_. Map.empty)"
    by (simp_all add: sample_bus_rep)
  ultimately obtain t where "t \<in> subtrees (MNode 0 [MNode 1 [MNode 2 []]])" "mroot t = 1" "\<forall>n \<ge> mdepth t. \<exists>w'.
    ReleaseModule (\<lambda>a w. Inr w) (\<lambda>e h. sorted_list_of_set {(t, p). p \<in> reg_of e h t}) n 0 (GetModuleId sample_msys 1) sample_msys =
      Some (Inr w') \<and> service_tree 0 (md w') (prune 1 (MNode 0 [MNode 1 [MNode 2 []]]))"
    using module_released [OF quiet_unit sorted_walk_ok sample_msys_tree] by blast
  then show ?thesis by (intro bexI [of _ t]) simp_all
qed

text \<open>
  C19. In a well-formed service tree, adding a new module \<open>a\<close> below \<open>m\<close>, for an arbitrary \<^verbatim>\<open>OnInit\<close>. If the id is in use, an error is
  returned and the service has the tree it had. Otherwise \<^verbatim>\<open>OnInit\<close> runs in a state whose tree has \<open>a\<close> as the last child of \<open>m\<close>,
  with the id, the parent and a fresh handler set and the subscriptions from before (\<open>added_ok\<close>), and the outcome is that of
  \<^verbatim>\<open>OnInit\<close> (\<open>init_outcome\<close>): its state and the id when it returns no error; when it fails and has left the tree as it was, an
  error and the tree \<open>T\<close>, its events (and timers) staying registered; its panic.
\<close>

theorem module_added:
  assumes "service_tree r (md w) T" "m \<in> set (mnodes T)" "a \<notin> set (mnodes T)" "md_child (md w a) = []"
    and "md_eventHandler (md w m) = Some hm" "GetEventProcessor (mev w) hm = Some p"
    and "ev_rep (mev w) A" "A h = Map.empty"
  shows "if rd (descendants (md w r)) (module_id r w a) \<noteq> None
    then \<exists>w'. AddModule onInit h m a w = Inr (None, w') \<and> service_tree r (md w') T \<and> mev w' = mev w
    else \<exists>w'. added_ok r m h p a T A (module_id r w a) w' \<and> init_outcome r m a T (onInit a w') (AddModule onInit h m a w)"
  using AddModule_ok [OF assms] .

theorem module_added_witness:
  "(\<exists>w'. AddModule (\<lambda>a w. Inr (True, w)) 9 1 3 sample_msys = Inr (Some 1000000001, w') \<and>
      service_tree 0 (md w') (MNode 0 [MNode 1 [MNode 2 [], MNode 3 []]])) \<and>
    (\<exists>w'. AddModule (\<lambda>a w. Inr (False, w)) 9 1 3 sample_msys = Inr (None, w') \<and>
      service_tree 0 (md w') (MNode 0 [MNode 1 [MNode 2 []]]))"
proof -
  have i: "module_id 0 sample_msys 3 = 1000000001" "rd (descendants (md sample_msys 0)) 1000000001 = None"
    by (simp_all add: md_def sample_msys_def sample_module_def GetModuleId_def module_id_def rd_def)
  have h: "md_child (md sample_msys 3) = []" "md_eventHandler (md sample_msys 1) = Some 1" "GetEventProcessor (mev sample_msys) 1 = Some 1"
    by (simp_all add: md_def mev_def sample_msys_def sample_module_def GetEventProcessor_def sample_bus_def)
  from module_added [OF sample_msys_tree, of 1 3 1 1 "\<lambda>_. Map.empty" 9, OF _ _ h] sample_bus_rep
  have "\<exists>w'. added_ok 0 1 9 1 3 (MNode 0 [MNode 1 [MNode 2 []]]) (\<lambda>_. Map.empty) 1000000001 w' \<and>
    init_outcome 0 1 3 (MNode 0 [MNode 1 [MNode 2 []]]) (Inr (ok, w')) (AddModule (\<lambda>a w. Inr (ok, w)) 9 1 3 sample_msys)" for ok
    by (simp add: i)
  from this [of True] this [of False] show ?thesis by (auto simp: init_outcome_def added_ok_def)
qed

text \<open>
  C20. The first \<^verbatim>\<open>Release\<close> of a service, with \<^verbatim>\<open>OnRelease\<close> hooks that only change the application's own state, but may panic
  (\<open>calm_hook\<close>), returns with the counter at -1. A set \<open>X\<close> of modules has been released, everything else is as it was
  (\<open>released_state\<close>); with a module all its descendants are in \<open>X\<close> (\<open>whole_trees\<close>). When no hook panics (\<open>quiet_hook\<close>), \<open>X\<close> is all
  the modules below the service, and it has no child left.
\<close>

theorem service_released:
  assumes "calm_hook onRelease" "walk_ok walk" "service_tree r (md w) (MNode r ts)" "ev_rep (mev w) A"
    and "mdepth (MNode r ts) \<le> n"
  shows "\<exists>X w'. Service_Release onRelease walk n r (0, w) = Some (-1, w') \<and> released_state r r X A w w' \<and> whole_trees ts X \<and>
    (quiet_hook onRelease \<longrightarrow> X = forest_nodes ts \<and> md_child (md w' r) = [])"
  by (rule service_release_out [OF assms])

theorem service_released_witness:
  "(\<exists>w'. Service_Release (\<lambda>a w. Inr w) (\<lambda>e h. sorted_list_of_set {(t, p). p \<in> reg_of e h t}) 3 0 (0, sample_msys) =
      Some (-1, w') \<and> md_child (md w' 0) = []) \<and>
    (\<exists>X w'. Service_Release (\<lambda>a w. if a = 1 then Inl (NilDereference, w) else Inr w)
      (\<lambda>e h. sorted_list_of_set {(t, p). p \<in> reg_of e h t}) 3 0 (0, sample_msys) = Some (-1, w') \<and>
      released_state 0 0 X (\<lambda>_. Map.empty) sample_msys w')"
proof -
  have d: "mdepth (MNode 0 [MNode 1 [MNode 2 []]]) \<le> 3" "ev_rep (mev sample_msys) (\<lambda>_. Map.empty)" by (simp_all add: sample_bus_rep)
  have c: "calm_hook (\<lambda>a w. if a = 1 then Inl (NilDereference, w) else Inr w :: (nat, nat, unit) mrun)"
    unfolding calm_hook_def by (intro allI exI [of _ "()"]) auto
  note q = service_released [OF quiet_calm [OF quiet_unit] sorted_walk_ok sample_msys_tree d(2,1)]
  note p = service_released [OF c sorted_walk_ok sample_msys_tree d(2,1)]
  from q p quiet_unit show ?thesis by blast
qed

text \<open>
  C21. With fewer than \<open>2^32\<close> ids in use in the module, the loop of \<^verbatim>\<open>GenTimerId\<close> ends within that many rounds and one more;
  the id is free, carries the module's id in its upper half, and is never zero for a module with an id.
\<close>

theorem timer_ids_fresh:
  assumes "few_timers n m w" "GetModuleId w m \<noteq> 0"
  shows "\<exists>seed w'. GenTimerId n m w = Some (timer_id (GetModuleId w m) seed, w') \<and> md w' = md w \<and> timer_id (GetModuleId w m) seed \<noteq> 0 \<and>
    rd (mapActiveIdTimer (md w m)) (timer_id (GetModuleId w m) seed) = None \<and>
    (\<forall>x s. timer_id x s = timer_id (GetModuleId w m) seed \<longrightarrow> x = GetModuleId w m)"
proof -
  have c: "card (dom (rd (mapActiveIdTimer (md w m)))) < 2 ^ 32" using assms(1) by (auto simp: few_timers_def)
  obtain seed where g: "GenTimerId n m w = Some (timer_id (GetModuleId w m) seed, w\<lparr>t_user := (t_user w)\<lparr>timerSeedId := seed\<rparr>\<rparr>)"
    "rd (mapActiveIdTimer (md w m)) (timer_id (GetModuleId w m) seed) = None"
    using GenTimerId_free [OF _ c] assms(1) by (auto simp: few_timers_def)
  have "timer_id (GetModuleId w m) seed \<noteq> 0" using timer_id_inj [of "GetModuleId w m" seed 0 0] assms(2) by (simp add: timer_id_def)
  with g show ?thesis by (auto simp: timer_id_inj)
qed

theorem timer_ids_fresh_witness:
  "\<exists>seed w'. GenTimerId 1 1 sample_msys = Some (timer_id 7 seed, w') \<and> timer_id 7 seed \<noteq> 0"
  using timer_ids_fresh [of 1 1 sample_msys] by (auto simp: few_timers_def rd_def)

text \<open>
  C22. A ticker has no close callback. After \<^verbatim>\<open>CancelTimerId\<close>, when the ticker's turn comes, it goes to the pool for reuse and the
  maps of the module still have it: a later \<^verbatim>\<open>CancelTimerId\<close> with the id, or the release of the module, cancels whatever
  timer the object has become.
\<close>

theorem cancelled_ticker_stays:
  assumes "timer_inv w" "t \<notin> set (timers w)" "few_timers n m w" "md_dispatcher (md w m) = Some chn" "GetModuleId w m \<noteq> 0"
  shows "\<exists>i w' w''. SafeNewTicker app n None t now m d dat cb w = Some (Inr (i, w')) \<and>
    CancelTimerId m (Some i) w' = (True, Some 0, Timer_Cancel t w') \<and> Ticker_Do (mod_run app) now' t (Timer_Cancel t w') = w'' \<and>
    t \<in> set (t_pool w'' KTicker) \<and> rd (mapActiveIdTimer (md w'' m)) i = Some t"
proof (rule SafeNewTicker_started [OF assms(1-4), of app now d dat cb])
  fix seed w'
  let ?i = "timer_id (GetModuleId w m) seed"
  assume s: "SafeNewTicker app n None t now m d dat cb w = Some (Inr (?i, w'))" "started m ?i t (now + d) None w w'"
  have "?i \<noteq> 0" using timer_id_inj [of "GetModuleId w m" seed 0 0] assms(5) by (simp add: timer_id_def)
  with s(2) have c: "CancelTimerId m (Some ?i) w' = (True, Some 0, Timer_Cancel t w')" by (rule CancelTimerId_started)
  have d: "Ticker_Do (mod_run app) now' t (Timer_Cancel t w') = released KTicker t (Timer_Cancel t w')"
    by (rule cancelled_ticker_kept) (use s(2) in \<open>simp_all add: started_def IsActive_def Timer_Cancel_def upd_timer_def\<close>)
  have "t \<in> set (t_pool (released KTicker t (Timer_Cancel t w')) KTicker)"
    "rd (mapActiveIdTimer (md (released KTicker t (Timer_Cancel t w')) m)) ?i = Some t"
    using s(2) by (auto simp: released_def Timer_Cancel_def upd_timer_def started_def md_def)
  with s c d show ?thesis by blast
qed

theorem cancelled_ticker_stays_witness:
  "\<exists>i w'. SafeNewTicker (\<lambda>f t w. (w, True)) 1 None 4 100 1 50 0 0 sample_msys = Some (Inr (i, w')) \<and>
    fst (CancelTimerId 1 (Some i) w')"
  using cancelled_ticker_stays [of sample_msys 4 1 1 0 "\<lambda>f t w. (w, True)" 100 50 0 0 0]
  by (auto simp: few_timers_def rd_def)

text \<open>
  C23. A skip list that represents the entries \<open>es\<close> (every level a chain with correct widths, the caches consistent),
  an entry \<open>c\<close> that cuts \<open>es\<close> into smaller and not smaller ones, and room for one more: whatever level the coin tosses
  give, \<^verbatim>\<open>Insert\<close> returns the entry it overwrote, if any, and the list then represents the insertion of \<open>c\<close>.
\<close>

theorem skip_insert_as_list:
  assumes "sl_list sl es" "cut cmp c es" "length es < 2 ^ 64 - 1"
  shows "\<exists>t. skip_insert cmp toss c sl = Some (Inr (if hit cmp c es then Some (es ! rank_of cmp c es) else None, t)) \<and>
    sl_list t (list_insert cmp c es)"
  using assms by (rule skip_insert_ok)

theorem skip_insert_as_list_witness:
  "\<exists>t u. skip_insert (\<lambda>a b. a - b) (\<lambda>_. False) (5::int) (SkipList_New 8) = Some (Inr (None, t)) \<and>
    skip_insert (\<lambda>a b. a - b) (\<lambda>_. True) 3 t = Some (Inr (None, u)) \<and> sl_list u [3, 5]"
proof -
  have n: "sl_list (SkipList_New 8 :: int SkipList) []" by (rule new_list) simp
  obtain t where t: "skip_insert (\<lambda>a b. a - b) (\<lambda>_. False) (5::int) (SkipList_New 8) = Some (Inr (None, t))" "sl_list t [5]"
    using skip_insert_as_list [OF n, of "\<lambda>a b. a - b" 5 "\<lambda>_. False"] by (auto simp: cut_def hit_def list_insert_def rank_of_def Let_def)
  obtain u where "skip_insert (\<lambda>a b. a - b) (\<lambda>_. True) 3 t = Some (Inr (None, u))" "sl_list u [3, 5]"
    using skip_insert_as_list [OF t(2), of "\<lambda>a b. a - b" 3 "\<lambda>_. True"] by (auto simp: cut_def hit_def list_insert_def rank_of_def Let_def)
  then show ?thesis using t(1) by blast
qed

text \<open>
  C24. \<^verbatim>\<open>Delete\<close> of \<open>c\<close> in a skip list that represents \<open>es\<close>: it returns the entry that compares equal, if any, and the list
  then represents \<open>es\<close> without that entry; \<^verbatim>\<open>Len\<close> is the number of entries left.
\<close>

theorem skip_delete_as_list:
  assumes "sl_list sl es" "cut cmp c es"
  shows "\<exists>t. skip_delete cmp c sl = Some (Inr (if hit cmp c es then Some (es ! rank_of cmp c es) else None, t)) \<and>
    sl_list t (list_delete cmp c es) \<and> unat (SkipList_Len t) = length (list_delete cmp c es)"
proof -
  obtain t where t: "skip_delete cmp c sl = Some (Inr (if hit cmp c es then Some (es ! rank_of cmp c es) else None, t))"
    "sl_list t (list_delete cmp c es)" using skip_delete_ok [OF assms] by blast
  then show ?thesis using sl_list_Len [OF t(2)] by (auto simp: unat_of_nat take_bit_nat_eq_self)
qed

theorem skip_delete_as_list_witness:
  "\<exists>t u. skip_insert (\<lambda>a b. a - b) (\<lambda>_. False) (5::int) (SkipList_New 8) = Some (Inr (None, t)) \<and>
    skip_delete (\<lambda>a b. a - b) 5 t = Some (Inr (Some 5, u)) \<and> sl_list u [] \<and> unat (SkipList_Len u) = 0"
proof -
  have n: "sl_list (SkipList_New 8 :: int SkipList) []" by (rule new_list) simp
  obtain t where t: "skip_insert (\<lambda>a b. a - b) (\<lambda>_. False) (5::int) (SkipList_New 8) = Some (Inr (None, t))" "sl_list t [5]"
    using skip_insert_ok [OF n, of "\<lambda>a b. a - b" 5 "\<lambda>_. False"] by (auto simp: cut_def hit_def list_insert_def rank_of_def Let_def)
  obtain u where "skip_delete (\<lambda>a b. a - b) 5 t = Some (Inr (Some 5, u))" "sl_list u []" "unat (SkipList_Len u) = 0"
    using skip_delete_as_list [OF t(2), of "\<lambda>a b. a - b" 5] by (auto simp: cut_def hit_def list_delete_def rank_of_def Let_def)
  then show ?thesis using t(1) by blast
qed

text \<open>
  C25. The heap of refresh times with its map represents a table \<open>T\<close>: \<^verbatim>\<open>PushOrRefreshExpireKey\<close> sets the time of a key
  (with an object from the pool that is not in use), \<^verbatim>\<open>RemoveExpireKey\<close> deletes a key, and \<^verbatim>\<open>PopExpireKey\<close> returns 0
  and changes nothing when the smallest time has not expired, and otherwise takes out a key with that time.
\<close>

theorem expiry_heap_as_table:
  assumes "rx_rep T h" "T k = None \<Longrightarrow> \<not> ed_ref (ed_store h a)" "T kx = Some tx"
  shows "(\<exists>h'. PushOrRefreshExpireKey a k t h = Inr h' \<and> rx_rep (T(k \<mapsto> t)) h') \<and>
    (\<exists>h'. RemoveExpireKey k h = Inr h' \<and> rx_rep (T(k := None)) h') \<and>
    (\<exists>k1 t1. T k1 = Some t1 \<and> (\<forall>k' t'. T k' = Some t' \<longrightarrow> t1 \<le> t') \<and>
      (if wrap64 (t1 + rx_expireMs h) > now then PopExpireKey now h = Inr (0, h)
       else \<exists>h'. PopExpireKey now h = Inr (k1, h') \<and> rx_rep (T(k1 := None)) h'))"
proof (intro conjI)
  show "\<exists>h'. PushOrRefreshExpireKey a k t h = Inr h' \<and> rx_rep (T(k \<mapsto> t)) h'"
    using PushOrRefreshExpireKey_ok [OF assms(1), where k = k and a = a and t = t] assms(2) by blast
  show "\<exists>h'. RemoveExpireKey k h = Inr h' \<and> rx_rep (T(k := None)) h'" using RemoveExpireKey_ok [OF assms(1), of k] by blast
  from PopExpireKey_ok [OF assms(1,3), of now] obtain k1 t1 where k: "T k1 = Some t1" "\<forall>k' t'. T k' = Some t' \<longrightarrow> t1 \<le> t'" and
    p: "if wrap64 (t1 + rx_expireMs h) > now then PopExpireKey now h = Inr (0, h)
        else \<exists>h'. PopExpireKey now h = Inr (k1, h') \<and> rx_rep (T(k1 := None)) h' \<and> rx_expireMs h' = rx_expireMs h" by blast
  have "if wrap64 (t1 + rx_expireMs h) > now then PopExpireKey now h = Inr (0, h)
        else \<exists>h'. PopExpireKey now h = Inr (k1, h') \<and> rx_rep (T(k1 := None)) h'" using p by (auto split: if_splits)
  with k show "\<exists>k1 t1. T k1 = Some t1 \<and> (\<forall>k' t'. T k' = Some t' \<longrightarrow> t1 \<le> t') \<and>
      (if wrap64 (t1 + rx_expireMs h) > now then PopExpireKey now h = Inr (0, h)
       else \<exists>h'. PopExpireKey now h = Inr (k1, h') \<and> rx_rep (T(k1 := None)) h')" by blast
qed

theorem expiry_heap_as_table_witness:
  "\<exists>h h'. rx_rep [7 \<mapsto> 100] h \<and> PopExpireKey 149 h = Inr (0, h) \<and> PopExpireKey 150 h = Inr (7, h') \<and> rx_rep Map.empty h'"
proof -
  obtain rs :: "nat RankSkip" and es where rs: "rank_ok 1 rs es [7 \<mapsto> 100]" "rs_expireMs rs = 50" using sample_rank1 by blast
  let ?h = "rankDataExpire rs"
  have r: "rx_rep [7 \<mapsto> 100] ?h" "rx_expireMs ?h = 50" using rank_okD(2,3) [OF rs(1)] rs(2) by auto
  have w: "wrap64 (100 + 50) = 150" by code_simp
  have "PopExpireKey 149 ?h = Inr (0, ?h)"
    using expiry_heap_as_table [OF r(1), where k = 7 and kx = 7 and tx = 100 and now = 149 and a = 0 and t = 0] r(2) w by (auto split: if_splits)
  moreover have "\<exists>h'. PopExpireKey 150 ?h = Inr (7, h') \<and> rx_rep Map.empty h'"
    using expiry_heap_as_table [OF r(1), where k = 7 and kx = 7 and tx = 100 and now = 150 and a = 0 and t = 0] r(2) w by (auto split: if_splits)
  ultimately show ?thesis using r(1) by blast
qed

text \<open>
  C26. \<^verbatim>\<open>UpsetRank\<close> for a key with entry \<open>e\<close>, with sort data of the list's length, from pools that return free objects: it
  returns \<^verbatim>\<open>RankDataUpdate\<close>, the skip list stays ordered and agrees with the map and the expiry heap, the refresh time
  is set, and the table changes at this key only, to \<open>upset_entry\<close>: the increments are added and data and time are
  overwritten; when the sort data differs a new entry takes its place, whose extended values are those of the request,
  as for a new entry, followed by the old values with the increments added a second time.
\<close>

theorem upset_known_key:
  assumes "rank_ok n rs es T" "rankModule rs" "length es < 2 ^ 64 - 1" "length (up_SortData up) = n" "pools_free env up rs es"
    and "board rs (up_Key up) = Some e"
  shows "\<exists>rs' es'. UpsetRank env up ts fl rs = Some (Inr (RankDataUpdate, rs')) \<and> rank_ok n rs' es' (T(up_Key up \<mapsto> ts)) \<and>
    board rs' = (board rs)(up_Key up \<mapsto> upset_entry (isDes rs) up ts e) \<and> length es' = length es"
  using UpsetRank_known [OF assms, of ts fl] by blast

theorem upset_known_key_witness:
  "\<exists>(rs :: nat RankSkip) env rs'. board rs = [7 \<mapsto> new_entry True (sample_upset 7 3) 100] \<and>
    UpsetRank env (sample_upset 7 8) 200 False rs = Some (Inr (RankDataUpdate, rs')) \<and>
    rd_SortData (the (board rs' 7)) = [8] \<and> rd_ExData (the (board rs' 7)) = [12, 16]"
proof -
  obtain rs :: "nat RankSkip" and es where rs: "rank_ok 1 rs es [7 \<mapsto> 100]" "rankModule rs" "isDes rs"
    "board rs = [7 \<mapsto> new_entry True (sample_upset 7 3) 100]" "length es = 1" using sample_rank1 by blast
  obtain a where a: "mapRankData rs 7 = Some a" using rs(4) by (metis board_def fun_upd_same map_option_eq_Some)
  have x: "mapExpireData (rankDataExpire rs) 7 \<noteq> None" using rx_none [OF rank_okD(2) [OF rs(1)], of 7] by simp
  have f: "pools_free (sample_renv\<lparr>env_rd := a\<rparr>) (sample_upset 7 8) rs es" using a x by (simp add: pools_free_def sample_upset_def)
  have w: "wrap64 12 = 12" "wrap64 14 = 14" "wrap64 16 = 16" by code_simp+
  have e: "rd_SortData (upset_entry True (sample_upset 7 8) 200 (new_entry True (sample_upset 7 3) 100)) = [8]"
    "rd_ExData (upset_entry True (sample_upset 7 8) 200 (new_entry True (sample_upset 7 3) 100)) = [12, 16]"
    using w by (simp_all add: upset_entry_def new_entry_def sample_upset_def Let_def)
  from upset_known_key [OF rs(1,2) _ _ f, of "new_entry True (sample_upset 7 3) 100" 200 False] rs obtain rs' where
    "UpsetRank (sample_renv\<lparr>env_rd := a\<rparr>) (sample_upset 7 8) 200 False rs = Some (Inr (RankDataUpdate, rs'))"
    "board rs' 7 = Some (upset_entry True (sample_upset 7 8) 200 (new_entry True (sample_upset 7 3) 100))"
    by (auto simp: sample_upset_def)
  then show ?thesis using rs(4) e by (intro exI [of _ rs] exI [of _ "sample_renv\<lparr>env_rd := a\<rparr>"] exI [of _ rs']) simp
qed

text \<open>
  C27. \<^verbatim>\<open>UpsetRank\<close> for a key that is not in the list: with room (\<open>Some None\<close>) the new entry is added; when the list is
  full and the new sort data is strictly better than that of the last entry \<open>a\<close>, that entry leaves list, map and expiry
  heap and the new one enters; otherwise the request is refused and nothing changes. The list stays consistent.
\<close>

theorem upset_new_key:
  assumes "rank_ok n rs es T" "rankModule rs" "length es < 2 ^ 64 - 1" "length (up_SortData up) = n" "pools_free env up rs es"
    and "board rs (up_Key up) = None"
  shows "case room rs up es of
      None \<Rightarrow> UpsetRank env up ts fl rs = Some (Inr (RankDataNone, rs))
    | Some out \<Rightarrow> \<exists>rs' es' A U. UpsetRank env up ts fl rs = Some (Inr (RankDataAdd, rs')) \<and> rank_ok n rs' es' (U(up_Key up \<mapsto> ts)) \<and>
        board rs' = A(up_Key up \<mapsto> new_entry (isDes rs) up ts) \<and> rs_conf rs' = rs_conf rs \<and>
        (case out of
           None \<Rightarrow> A = board rs \<and> U = T \<and> length es' = Suc (length es)
         | Some a \<Rightarrow> A = (board rs)(rd_Key (rd_store rs a) := None) \<and> U = T(rd_Key (rd_store rs a) := None) \<and> length es' = length es)"
  using assms by (rule UpsetRank_unknown)

theorem upset_new_key_witness:
  "\<exists>(rs :: nat RankSkip) env rs'. board rs = [7 \<mapsto> new_entry True (sample_upset 7 3) 100] \<and> rs_maxLen rs = 1 \<and>
    UpsetRank env (sample_upset 9 2) 200 False rs = Some (Inr (RankDataNone, rs)) \<and>
    UpsetRank env (sample_upset 9 5) 200 False rs = Some (Inr (RankDataAdd, rs')) \<and> board rs' = [9 \<mapsto> new_entry True (sample_upset 9 5) 200]"
proof -
  obtain rs :: "nat RankSkip" and es where rs: "rank_ok 1 rs es [7 \<mapsto> 100]" "rankModule rs" "isDes rs" "rs_maxLen rs = 1"
    "board rs = [7 \<mapsto> new_entry True (sample_upset 7 3) 100]" "length es = 1" using sample_rank1 by blast
  obtain a where es: "es = [a]" using rs(6) by (cases es) auto
  have m7: "mapRankData rs (rd_Key (rd_store rs a)) = Some a" using rank_okD(7) [OF rs(1)] es by simp
  then have "board rs (rd_Key (rd_store rs a)) = Some (rd_store rs a)" by (simp add: board_def)
  then have a: "rd_Key (rd_store rs a) = 7" "rd_store rs a = new_entry True (sample_upset 7 3) 100" using rs(5) by (auto split: if_splits)
  have b9: "board rs 9 = None" using rs(5) by simp
  then have n9: "mapRankData rs 9 = None" by (simp add: board_def)
  obtain p where p: "mapExpireData (rankDataExpire rs) 7 = Some p" using rx_none [OF rank_okD(2) [OF rs(1)], of 7] by fastforce
  define env where "env = \<lparr>env_rd = a, env_ed = p, env_toss = (\<lambda>_. True)\<rparr>"
  have sd: "rd_SortData (rd_store rs a) = [3]" using a(2) by (simp add: new_entry_def sample_upset_def)
  have room: "room rs (sample_upset 9 5) es = Some (Some a)" "room rs (sample_upset 9 2) es = None"
    using rs(3,4) es sd by (simp_all add: room_def sample_upset_def)
  have f: "pools_free env (sample_upset 9 5) rs es" using room(1) n9 p a(1) by (simp add: pools_free_def env_def sample_upset_def)
  have low: "UpsetRank env (sample_upset 9 2) 200 False rs = Some (Inr (RankDataNone, rs))"
  proof -
    have e: "mapRankData rs (up_Key (sample_upset 9 2)) = None" using n9 by (simp add: sample_upset_def)
    have "checkInsertAndReplace (sample_upset 9 2) rs = Some (Inr (False, rs))"
      using checkInsertAndReplace_ok [OF rs(1,2), of "sample_upset 9 2"] room(2) by simp
    then show ?thesis using e by (simp add: UpsetRank_def)
  qed
  from upset_new_key [OF rs(1,2) _ _ f, of 200 False] rs(6) room(1) b9 a(1) rs(3,5) obtain rs' where
    "UpsetRank env (sample_upset 9 5) 200 False rs = Some (Inr (RankDataAdd, rs'))" "board rs' = [9 \<mapsto> new_entry True (sample_upset 9 5) 200]"
    by (auto simp: sample_upset_def)
  then show ?thesis using rs low by blast
qed

text \<open>
  C28. A list of requests with sort data of the list's length, each meeting free objects in the pools: \<^verbatim>\<open>UpsetRankList\<close>
  returns, the rank list is consistent afterwards (ordered skip list, map and expiry heap agree), and a list with a
  maximum length that was within it stays within it.
\<close>

theorem rank_capacity:
  assumes "rank_ok n rs es T" "rankModule rs" "upsets_free n ups rs" "rs_maxLen rs \<noteq> 0" "length es \<le> unat (rs_maxLen rs)"
  shows "\<exists>c rs' es' T'. UpsetRankList clock ups rs = Some (Inr (c, rs')) \<and> rank_ok n rs' es' T' \<and>
    card (dom (board rs')) \<le> unat (rs_maxLen rs)"
proof -
  obtain c rs' es' T' where r: "UpsetRankList clock ups rs = Some (Inr (c, rs'))" "rank_ok n rs' es' T'" "length es' \<le> unat (rs_maxLen rs)"
    using UpsetRankList_ok [OF assms(1-3), of clock] assms(4,5) by blast
  then show ?thesis using rank_ok_card(1) [OF r(2)] by auto
qed

theorem rank_capacity_witness:
  "\<exists>(rs :: nat RankSkip) c rs'. NewRankSkip 1 ''r'' True 8 1 50 = Inr rs \<and>
    UpsetRankList (\<lambda>_. 0) [(sample_renv, 100, sample_upset 7 3)] (SetupRankModule True rs) = Some (Inr (c, rs')) \<and> card (dom (board rs')) \<le> 1"
proof -
  obtain rs :: "nat RankSkip" where rs: "NewRankSkip 1 ''r'' True 8 1 50 = Inr rs" "rank_ok 1 (SetupRankModule True rs) [] Map.empty"
    using sample_rank by blast
  let ?rs = "SetupRankModule True rs"
  have c: "rs_maxLen ?rs = 1" "rankModule ?rs" using sample_conf(1) [OF rs(1)] by (simp_all add: rs_conf_def)
  have e: "length es = 0" if "rank_ok 1 ?rs es T" for es T
    using rank_ok_card(1) [OF that] sample_conf(2) [OF rs(1)] by (metis card.empty dom_empty)
  have "length es < 2 ^ 64 - 1 \<and> pools_free sample_renv up ?rs es" if "rank_ok 1 ?rs es T" for es T up
    using e [OF that] sample_free [OF rs(1), of es ?rs up] by simp
  then have "upsets_free 1 [(sample_renv, 100, sample_upset 7 3)] ?rs" unfolding upsets_free.simps by (simp add: sample_upset_def)
  from rank_capacity [OF rs(2) c(2) this, of "\<lambda>_. 0"] c(1) rs(1) show ?thesis by auto
qed

text \<open>
  C29. Asking for a ranked key: after expired entries have been taken out, a key that is still there is returned with its
  entry and its rank, one more than the number of entries before it: better sort data, and for equal sort data the
  larger key first in a descending list, the smaller key in an ascending one. A key that is not ranked gives nil and 0.
\<close>

theorem rank_of_key:
  assumes "rank_ok n rs es T" "rankModule rs"
  shows "(board rs k = None \<and> GetRankNodeData clock k rs = Some (Inr ((None, 0), rs))) \<or>
    (\<exists>rs' es' T'. pickExpireKey clock rs = Some (Inr rs') \<and> rank_ok n rs' es' T' \<and>
      (\<forall>e. board rs' k = Some e \<longrightarrow> (\<exists>a r. GetRankNodeData clock k rs = Some (Inr ((Some a, r), rs')) \<and> rd_store rs' a = e \<and>
         of_nat (rank_in (isDes rs) (board rs') e) = r)))"
  using assms by (rule GetRankNodeData_ok)

theorem rank_of_key_witness:
  "\<exists>(rs :: nat RankSkip) a rs'. board rs = [7 \<mapsto> new_entry True (sample_upset 7 3) 100] \<and>
    GetRankNodeData (\<lambda>_. 120) 7 rs = Some (Inr ((Some a, 1), rs')) \<and> rd_SortData (rd_store rs' a) = [3]"
proof -
  obtain rs :: "nat RankSkip" and es where rs: "rank_ok 1 rs es [7 \<mapsto> 100]" "rankModule rs" "isDes rs" "rs_expireMs rs = 50"
    "board rs = [7 \<mapsto> new_entry True (sample_upset 7 3) 100]" using sample_rank1 by blast
  let ?e = "new_entry True (sample_upset 7 3) 100 :: nat RankData"
  have "{k. \<exists>x. board rs k = Some x \<and> precedes True x ?e} = {}"
    using more_swap [of "[3]" "[3]"] rs(5) by (auto simp: precedes_def sample_upset_def split: if_splits)
  then have r: "rank_in True (board rs) ?e = 1" unfolding rank_in_def by simp
  from rank_of_key [OF rs(1,2), of 7 "\<lambda>_. 120"] rs(5) sample_not_expired [OF rs(1,2,4)] obtain a rs1 where
    "GetRankNodeData (\<lambda>_. 120) 7 rs = Some (Inr ((Some a, of_nat (rank_in (isDes rs) (board rs) ?e)), rs1))" "rd_store rs1 a = ?e" by auto
  then show ?thesis using rs(3,5) r by (intro exI [of _ rs] exI [of _ a] exI [of _ rs1]) (simp add: new_entry_def sample_upset_def)
qed

text \<open>
  C30. The entry at rank \<open>r\<close> is the one whose rank is \<open>r\<close>, so looking up by rank and by key agree; a rank of 0 (whose
  predecessor wraps around) and ranks behind the end give nil and 0.
\<close>

theorem entry_at_rank:
  assumes "rank_ok n rs es T" "rankModule rs"
  shows "\<exists>rs' es' T'. pickExpireKey clock rs = Some (Inr rs') \<and> rank_ok n rs' es' T' \<and>
    (if 1 \<le> unat r \<and> unat r \<le> card (dom (board rs'))
     then \<exists>a e. GetRankNodeDataByRank clock r rs = Some (Inr ((Some a, r), rs')) \<and> rd_store rs' a = e \<and>
            board rs' (rd_Key e) = Some e \<and> rank_in (isDes rs) (board rs') e = unat r
     else GetRankNodeDataByRank clock r rs = Some (Inr ((None, 0), rs')))"
  using assms by (rule GetRankNodeDataByRank_ok)

theorem entry_at_rank_witness:
  "\<exists>(rs :: nat RankSkip) rs'. board rs = [7 \<mapsto> new_entry True (sample_upset 7 3) 100] \<and>
    (\<exists>a. GetRankNodeDataByRank (\<lambda>_. 120) 1 rs = Some (Inr ((Some a, 1), rs')) \<and> rd_Key (rd_store rs' a) = 7)"
proof -
  obtain rs :: "nat RankSkip" and es where rs: "rank_ok 1 rs es [7 \<mapsto> 100]" "rankModule rs" "rs_expireMs rs = 50"
    "board rs = [7 \<mapsto> new_entry True (sample_upset 7 3) 100]" using sample_rank1 by blast
  obtain rs' where p: "pickExpireKey (\<lambda>_. 120) rs = Some (Inr rs')" and
    g: "if 1 \<le> unat (1 :: 64 word) \<and> unat (1 :: 64 word) \<le> card (dom (board rs'))
     then \<exists>a e. GetRankNodeDataByRank (\<lambda>_. 120) 1 rs = Some (Inr ((Some a, 1), rs')) \<and> rd_store rs' a = e \<and>
            board rs' (rd_Key e) = Some e \<and> rank_in (isDes rs) (board rs') e = unat (1 :: 64 word)
     else GetRankNodeDataByRank (\<lambda>_. 120) 1 rs = Some (Inr ((None, 0), rs'))" using entry_at_rank [OF rs(1,2), of "\<lambda>_. 120" 1] by blast
  have b: "board rs' = [7 \<mapsto> new_entry True (sample_upset 7 3) 100]" using sample_not_expired [OF rs(1-3) p] rs(4) by simp
  have "card (dom (board rs')) = 1" unfolding b by simp
  then obtain a where a: "GetRankNodeDataByRank (\<lambda>_. 120) 1 rs = Some (Inr ((Some a, 1), rs'))" "board rs' (rd_Key (rd_store rs' a)) = Some (rd_store rs' a)"
    using g by auto
  have "rd_Key (rd_store rs' a) = 7" using a(2) b by (auto split: if_splits)
  then show ?thesis using rs(4) a(1) by blast
qed

text \<open>
  C31. The expiry round: the table afterwards is the table without a set \<open>K\<close> of at most 128 keys, and each of these
  had a refresh time that, plus the duration, was reached by a clock reading of the round; without a duration nothing
  is removed. The list stays consistent.
\<close>

theorem only_expired_leave:
  assumes "rank_ok n rs es T" "rankModule rs"
  shows "\<exists>rs' es' T' K. pickExpireKey clock rs = Some (Inr rs') \<and> rank_ok n rs' es' T' \<and> board rs' = board rs |` (- K) \<and>
    card K \<le> 128 \<and> (\<forall>k. k \<in> K \<longrightarrow> rs_expireMs rs \<noteq> 0 \<and> (\<exists>t j. T k = Some t \<and> j < 128 \<and> wrap64 (t + rs_expireMs rs) \<le> clock j))"
proof -
  obtain rs' es' K L where "pickExpireKey clock rs = Some (Inr rs')" "rank_ok n rs' es' (T |` (- L))" "board rs' = board rs |` (- K)"
    "card K \<le> MaxPickExpireNum" "K = L - {0}"
    "\<forall>k \<in> L. rs_expireMs rs \<noteq> 0 \<and> (\<exists>t j. T k = Some t \<and> j < MaxPickExpireNum \<and> wrap64 (t + rs_expireMs rs) \<le> clock j)"
    using pickExpireKey_ok [OF assms, of clock] by metis
  then show ?thesis unfolding MaxPickExpireNum_def by (intro exI [of _ rs'] exI [of _ es'] exI [of _ "T |` (- L)"] exI [of _ K]) auto
qed

theorem only_expired_leave_witness:
  "\<exists>(rs :: nat RankSkip) rs'. board rs = [7 \<mapsto> new_entry True (sample_upset 7 3) 100] \<and>
    pickExpireKey (\<lambda>_. 149) rs = Some (Inr rs') \<and> board rs' = board rs"
proof -
  obtain rs :: "nat RankSkip" and es where rs: "rank_ok 1 rs es [7 \<mapsto> 100]" "rankModule rs" "rs_expireMs rs = 50"
    "board rs = [7 \<mapsto> new_entry True (sample_upset 7 3) 100]" using sample_rank1 by blast
  have w: "wrap64 (100 + 50) = 150" by code_simp
  obtain rs' K where p: "pickExpireKey (\<lambda>_. 149) rs = Some (Inr rs')" "board rs' = board rs |` (- K)"
    "\<forall>k. k \<in> K \<longrightarrow> (\<exists>t j. [7 \<mapsto> 100] k = Some t \<and> j < (128 :: nat) \<and> wrap64 (t + rs_expireMs rs) \<le> 149)"
    using only_expired_leave [OF rs(1,2), of "\<lambda>_. 149"] by metis
  have "K = {}" using p(3) rs(3) w by (auto split: if_splits)
  then show ?thesis using rs(4) p(1,2) by (intro exI [of _ rs] exI [of _ rs']) (auto simp: restrict_map_def fun_eq_iff)
qed

text \<open>
  C32. \<^verbatim>\<open>GetRankNodeData\<close> fetches the entry first and removes expired entries then. When the key itself goes in that round
  (and no key is 0), the call still returns a non-nil entry, the object just given back to the pool, with all its fields
  reset, and the rank 1.
\<close>

theorem expired_key_ranked_first:
  assumes "rank_ok n rs es T" "rankModule rs" "board rs k \<noteq> None" "0 \<notin> dom (board rs)"
    and "pickExpireKey clock rs = Some (Inr rs')" "board rs' k = None"
  shows "\<exists>a. GetRankNodeData clock k rs = Some (Inr ((Some a, 1), rs')) \<and> rd_store rs' a = emptyRankData"
  using assms by (rule GetRankNodeData_expired)

theorem expired_key_ranked_first_witness:
  "\<exists>(rs :: nat RankSkip) a rs'. board rs = [7 \<mapsto> new_entry True (sample_upset 7 3) 100] \<and>
    GetRankNodeData (\<lambda>_. 150) 7 rs = Some (Inr ((Some a, 1), rs')) \<and> rd_store rs' a = emptyRankData"
proof -
  obtain rs :: "nat RankSkip" and es where rs: "rank_ok 1 rs es [7 \<mapsto> 100]" "rankModule rs" "rs_expireMs rs = 50"
    "board rs = [7 \<mapsto> new_entry True (sample_upset 7 3) 100]" using sample_rank1 by blast
  have w: "wrap64 (100 + 50) = 150" by code_simp
  obtain h' where h: "PopExpireKey 150 (rankDataExpire rs) = Inr (7, h')"
    using PopExpireKey_ok [OF rank_okD(2) [OF rs(1)], of 7 100 150] rank_okD(3) [OF rs(1)] rs(3) w by (auto split: if_splits)
  define rs1 where "rs1 = rs\<lparr>rankDataExpire := h'\<rparr>"
  obtain rs' es' K L where p: "pickExpireKey (\<lambda>_. 150) rs = Some (Inr rs')" "rank_ok 1 rs' es' ([7 \<mapsto> 100] |` (- L))" "board rs' = board rs |` (- K)" "K = L - {0}"
    using pickExpireKey_ok [OF rs(1,2), of "\<lambda>_. 150"] by metis
  have g: "board rs' 7 = None"
  proof (rule ccontr)
    assume n: "board rs' 7 \<noteq> None"
    have pk: "pickExpireKey (\<lambda>_. 150) rs = gbind (DeleteRankData [7] rs1) (\<lambda>(_, rs). pick_from (\<lambda>_. 150) 127 rs)"
    proof -
      have m: "MaxPickExpireNum = Suc 127" by (simp add: MaxPickExpireNum_def)
      show ?thesis unfolding pickExpireKey_def m pick_from.simps using rs(3) h by (simp add: rs1_def Let_def del: DeleteRankData.simps)
    qed
    have ok1: "rank_ok_but {0, 7} 1 rs1 es Map.empty"
      using rs(1) PopExpireKey_ok [OF rank_okD(2) [OF rs(1)], of 7 100 150] h rank_okD(3) [OF rs(1)] rs(3) w
      by (auto simp: rank_ok_but_def map_ok_def expire_ok_def rs1_def split: if_splits)
    have m1: "rankModule rs1" "board rs1 = board rs" using rs(2) by (auto simp: rs1_def board_def fun_eq_iff)
    from DeleteRankData_ok [OF ok1 m1(1), of "[7]"] obtain c rs2 es2 where d: "DeleteRankData [7] rs1 = Some (Inr (c, rs2))"
      "rank_ok_but ({0, 7} - {7}) 1 rs2 es2 (Map.empty |` (- {7}))" "board rs2 = board rs |` (- {7})" "rs_conf rs2 = rs_conf rs1" using m1(2) by auto
    have "rank_ok 1 rs2 es2 Map.empty" using d(2) by (auto intro: rank_ok_mono simp: restrict_map_def)
    moreover have "rankModule rs2" using rs_confD(4) [OF d(4)] m1(1) by simp
    ultimately obtain rs3 es3 K3 L3 where "pick_from (\<lambda>_. 150) 127 rs2 = Some (Inr rs3)" "board rs3 = board rs2 |` (- K3)"
      using pick_from_ok by blast
    then show False using p(1) pk d n by (auto simp: restrict_map_def split: if_splits)
  qed
  from expired_key_ranked_first [OF rs(1,2) _ _ p(1) g] rs(4) show ?thesis by (auto simp: domIff)
qed

text \<open>
  C33. \<^verbatim>\<open>ChangeExtendData\<close> for a key with entry \<open>e\<close>, positions that are not negative, and free objects in the pools: it
  returns true, the list stays consistent (so the entry stands where its new sort data puts it), the table changes at
  this key only, to \<open>changed_entry\<close>, and the refresh time is set.
\<close>

theorem change_keeps_order:
  assumes "rank_ok n rs es T" "rankModule rs" "length es < 2 ^ 64 - 1" "board rs (inc_Key c) = Some e" "env_rd env \<notin> set es"
    and "T (inc_Key c) = None \<Longrightarrow> \<not> ed_ref (ed_store (rankDataExpire rs) (env_ed env))"
    and "\<And>s. s \<in> set (inc_SetSortAndExtendData c) \<Longrightarrow> 0 \<le> set_Pos s"
  shows "\<exists>rs' es'. ChangeExtendData env now c rs = Some (Inr (True, rs')) \<and> rank_ok n rs' es' (T(inc_Key c \<mapsto> now)) \<and>
    board rs' = (board rs)(inc_Key c \<mapsto> changed_entry (isDes rs) now c e)"
  using ChangeExtendData_known [OF assms, of now] by blast

theorem change_keeps_order_witness:
  "\<exists>(rs :: nat RankSkip) env rs'. board rs = [7 \<mapsto> new_entry True (sample_upset 7 3) 100] \<and>
    ChangeExtendData env 200 \<lparr>inc_Key = 7, inc_Extend = [(0, 5)], inc_IncreaseSortData = [4], inc_SetSortAndExtendData = [], inc_ReturnRankData = False,
      inc_InsertDataOnNonExistent = False, inc_InitData = None, inc_InitSortData = []\<rparr> rs = Some (Inr (True, rs')) \<and>
    rd_SortData (the (board rs' 7)) = [7] \<and> rd_ExData (the (board rs' 7)) = [17]"
proof -
  obtain rs :: "nat RankSkip" and es where rs: "rank_ok 1 rs es [7 \<mapsto> 100]" "rankModule rs" "isDes rs"
    "board rs = [7 \<mapsto> new_entry True (sample_upset 7 3) 100]" "length es = 1" using sample_rank1 by blast
  obtain b where b: "b \<notin> set es" using ex_new_if_finite [OF infinite_UNIV_nat, of "set es"] by auto
  let ?c = "\<lparr>inc_Key = 7, inc_Extend = [(0, 5)], inc_IncreaseSortData = [4], inc_SetSortAndExtendData = [], inc_ReturnRankData = False,
      inc_InsertDataOnNonExistent = False, inc_InitData = None, inc_InitSortData = []\<rparr> :: nat IncreaseRankData"
  let ?e = "new_entry True (sample_upset 7 3) 100 :: nat RankData"
  have w: "wrap64 12 = 12" "wrap64 7 = 7" "wrap64 17 = 17" by code_simp+
  have e: "rd_SortData (changed_entry True 200 ?c ?e) = [7]" "rd_ExData (changed_entry True 200 ?c ?e) = [17]"
    using w by (simp_all add: changed_entry_def moves_def moved_entry_def new_entry_def sample_upset_def fix_values_def Let_def)
  from change_keeps_order [OF rs(1,2), of ?c ?e "sample_renv\<lparr>env_rd := b\<rparr>" 200] rs b obtain rs' where
    "ChangeExtendData (sample_renv\<lparr>env_rd := b\<rparr>) 200 ?c rs = Some (Inr (True, rs'))" "board rs' 7 = Some (changed_entry True 200 ?c ?e)" by auto
  then show ?thesis using rs(4) e by (intro exI [of _ rs] exI [of _ "sample_renv\<lparr>env_rd := b\<rparr>"] exI [of _ rs']) simp
qed

text \<open>
  C34. Listing a non-empty rank list: the entries at the positions \<open>start\<close>, \<open>start + 1\<close>, \dots{} of the ordered list, at
  most \<open>c\<close> of them, each with its rank. \<open>start\<close> is the position asked for, or the count reported before the expiry
  round less one when the position exceeds that count.
\<close>

theorem rank_listing:
  assumes "rank_ok n rs es T" "rankModule rs" "es \<noteq> []" "start = (if rankDataCount < startPos then rankDataCount - 1 else startPos)"
  shows "\<exists>rs' es' T'. pickExpireKey clock rs = Some (Inr rs') \<and> rank_ok n rs' es' T' \<and>
    GetRankDataFromToLimit clock startPos c rankDataCount rs =
      Some (Inr (listing rs' es' (map (\<lambda>j. unat start + j) [0..<min (unat c) (length es' - unat start)]), rs'))"
  using assms by (rule GetRankDataFromToLimit_ok)

theorem rank_listing_witness:
  "\<exists>(rs :: nat RankSkip) rs'. board rs = [7 \<mapsto> new_entry True (sample_upset 7 3) 100] \<and>
    (\<exists>p. GetRankDataFromToLimit (\<lambda>_. 120) 0 9 1 rs = Some (Inr ([p], rs')) \<and> rp_Rank p = 1)"
proof -
  obtain rs :: "nat RankSkip" and es where rs: "rank_ok 1 rs es [7 \<mapsto> 100]" "rankModule rs" "rs_expireMs rs = 50"
    "board rs = [7 \<mapsto> new_entry True (sample_upset 7 3) 100]" "length es = 1" using sample_rank1 by blast
  have "es \<noteq> []" using rs(5) by auto
  from rank_listing [OF rs(1,2) this refl, of "\<lambda>_. 120" 0 9 1] obtain rs' es' T' where
    p: "pickExpireKey (\<lambda>_. 120) rs = Some (Inr rs')" "rank_ok 1 rs' es' T'"
    "GetRankDataFromToLimit (\<lambda>_. 120) 0 9 1 rs = Some (Inr (listing rs' es' (map (\<lambda>j. 0 + j) [0..<min 9 (length es')]), rs'))" by auto
  have b: "board rs' = [7 \<mapsto> new_entry True (sample_upset 7 3) 100]" using sample_not_expired [OF rs(1-3) p(1)] rs(4) by simp
  have "card (dom (board rs')) = 1" unfolding b by simp
  then have "length es' = 1" using rank_ok_card(1) [OF p(2)] by metis
  then show ?thesis using rs(4) p(3) by (intro exI [of _ rs] exI [of _ rs']) (simp add: listing_def pos_data_def)
qed

text \<open>
  C35. \<open>Next\<close> of any expression, from any time \<open>ns\<close> in nanoseconds, where the offset from UTC is a whole number of hours: all
  its loops end, and the result is the first second after \<open>ns\<close> that matches every field, or the zero time when no second
  up to the end of the following year does.
\<close>

theorem cron_next_first:
  "\<exists>r. Next e 0 ns = Some r \<and> first_match e (ns div 10 ^ 9 + 1) (Year (ns div 10 ^ 9 + 1) + 1) r"
  by (rule Next_first)



text \<open>
  C37. The parser ends on every text, even where the loop over an increment overflows, and what it accepts has no bit above 59,
  59, 23, 31, 12 and 6.
\<close>

theorem cron_parse_ends:
  "\<exists>r. NewCronExpr expr = Some r \<and> (case r of Inl _ \<Rightarrow> True | Inr e \<Rightarrow> cron_bounds e)"
  by (rule NewCronExpr_ends)



section \<open>Further facts\<close>

text \<open>
  \<^verbatim>\<open>Update\<close> of a queued item changes that item only and keeps the queue consistent for the new
  priorities.
\<close>

theorem priority_update_keeps_order:
  assumes "pq_ok vp out pq" "x \<in> set (priorityQueueSlice pq)"
  shows "\<exists>pq'. PriorityQueue_Update pq x v pr = Inr pq' \<and> pq_ok (vp(x := (v, pr))) out pq' \<and>
    mset (priorityQueueSlice pq') = mset (priorityQueueSlice pq)"
  by (rule PriorityQueue_Update_ok [OF assms, of v pr]) blast

theorem priority_update_keeps_order_witness:
  "\<exists>pq'. PriorityQueue_Update sample_pq 4 7 99 = Inr pq' \<and> pq_ok (sample_vp(4 := (7, 99))) (- {3, 4}) pq' \<and>
    mset (priorityQueueSlice pq') = mset (priorityQueueSlice sample_pq)"
  by (rule priority_update_keeps_order [OF sample_pq_ok]) (simp add: sample_pq_def)

text \<open>
  \<^verbatim>\<open>RemovePending\<close> returns what \<^verbatim>\<open>FindPending\<close> finds and removes exactly that call and its timer.
\<close>

theorem remove_pending_call:
  assumes "cs_inv cs"
  shows "\<exists>cs'. CallSet_RemovePending cs seq = Inr (CallSet_FindPending cs seq, cs') \<and> cs_inv cs' \<and>
    pending cs' = (pending cs)(seq := None) \<and>
    SeqId ` set (callTimer (callTimerHeap cs')) = SeqId ` set (callTimer (callTimerHeap cs)) - {seq}"
proof (cases "pending cs seq")
  case None
  then have "CallSet_FindPending cs seq = None" by (simp add: CallSet_FindPending_def)
  moreover have "seq \<notin> SeqId ` set (callTimer (callTimerHeap cs))"
    using assms None unfolding cs_inv_def by (metis domIff)
  ultimately show ?thesis using RemovePending_absent [of cs seq] assms None by (auto simp: fun_upd_idem)
next
  case (Some call)
  from assms Some obtain h' where
    "CallSet_RemovePending cs seq = Inr (Some call, cs\<lparr>callTimerHeap := h', pending := (pending cs)(seq := None)\<rparr>)"
    and i: "cs_inv (cs\<lparr>callTimerHeap := h', pending := (pending cs)(seq := None)\<rparr>)"
    by (rule RemovePending_ok)
  moreover have "seq \<noteq> 0" "dom (pending cs) = SeqId ` set (callTimer (callTimerHeap cs))"
    using assms Some by (auto simp: cs_inv_def)
  ultimately show ?thesis using Some by (auto simp: CallSet_FindPending_def cs_inv_def)
qed

theorem remove_pending_call_witness:
  "\<exists>cs'. CallSet_RemovePending sample_calls 2 = Inr (CallSet_FindPending sample_calls 2, cs') \<and> cs_inv cs' \<and>
    pending cs' = (pending sample_calls)(2 := None) \<and>
    SeqId ` set (callTimer (callTimerHeap cs')) = SeqId ` set (callTimer (callTimerHeap sample_calls)) - {2}"
  by (rule remove_pending_call [OF sample_calls_inv])

text \<open>
  \<^verbatim>\<open>AddPending\<close> of a call with a new sequence number makes it pending with one timer for its
  deadline.
\<close>

theorem add_pending_call:
  assumes "cs_inv cs" "Seq call \<noteq> 0" "pending cs (Seq call) = None"
  shows "cs_inv (CallSet_AddPending cs now call) \<and>
    pending (CallSet_AddPending cs now call) = (pending cs)(Seq call \<mapsto> call) \<and>
    mset (callTimer (callTimerHeap (CallSet_AddPending cs now call))) =
      add_mset \<lparr>SeqId = Seq call, FireTime = wrap64 (now + TimeOut call)\<rparr> (mset (callTimer (callTimerHeap cs)))"
  using AddPending_ok [OF assms] by simp

theorem add_pending_call_witness:
  "cs_inv (CallSet_AddPending sample_calls 5 (sample_call 9)) \<and>
    pending (CallSet_AddPending sample_calls 5 (sample_call 9)) = (pending sample_calls)(9 \<mapsto> sample_call 9) \<and>
    mset (callTimer (callTimerHeap (CallSet_AddPending sample_calls 5 (sample_call 9)))) =
      add_mset \<lparr>SeqId = 9, FireTime = 15\<rparr> (mset (callTimer (callTimerHeap sample_calls)))"
  using add_pending_call [OF sample_calls_inv, of "sample_call 9" 5]
  by (simp add: sample_call_def sample_calls_def wrap64_id)

text \<open>
  An active ticker calls its callback and is back in the heap, due one interval after now.
\<close>

theorem ticker_rearmed:
  assumes "timer_inv w" "\<not> rOpen (t_store w t)" "IsActive t w"
  shows "timer_inv (Ticker_Do (quiet act) now t w) \<and>
    rearmed (\<lambda>ob. ob\<lparr>fireTime := now + interval ob\<rparr>) act t w (Ticker_Do (quiet act) now t w)"
  using Ticker_Do_rearm [OF assms, of now act] by (simp add: rearmed_def armed_def)

theorem ticker_rearmed_witness:
  "timer_inv (Ticker_Do (quiet (\<lambda>f t x. x + 1)) 20 5 sample_timers) \<and>
    rearmed (\<lambda>ob. ob\<lparr>fireTime := 20 + interval ob\<rparr>) (\<lambda>f t x. x + 1) 5 sample_timers
      (Ticker_Do (quiet (\<lambda>f t x. x + 1)) 20 5 sample_timers)"
  by (rule ticker_rearmed [OF sample_timers_inv]) (simp_all add: sample_timers_def sample_timer_def IsActive_def)

text \<open>
  A one-shot timer runs its callback once, then its close callback, and is reset and pooled; after
  \<^verbatim>\<open>Cancel\<close> only the close callback runs.
\<close>

theorem timer_runs_once:
  assumes "\<not> rOpen (t_store w t)" "t_ref (t_store w t)" "IsActive t w"
  shows "Timer_Do (quiet act) t w = released KTimer t (w\<lparr>t_user := opt_act act (cbOnCloseTimer (t_store w t)) t
        (timer_act act (t_store w t) t (t_user w))\<rparr>) \<and>
    Timer_Do (quiet act) t (Timer_Cancel t w) =
      released KTimer t (w\<lparr>t_user := opt_act act (cbOnCloseTimer (t_store w t)) t (t_user w)\<rparr>)"
proof -
  have "\<not> IsActive t (Timer_Cancel t w)" "t_ref (t_store (Timer_Cancel t w) t)"
    using assms(2) by (simp_all add: IsActive_def Timer_Cancel_def upd_timer_def)
  from Do_cancelled(1) [OF this, of act] Timer_Do_once [OF assms(3,1,2), of act] show ?thesis
    by (simp add: Timer_Cancel_def upd_timer_def released_def)
qed

theorem timer_runs_once_witness:
  "Timer_Do (quiet (\<lambda>f t x. x + int f)) 5 sample_timers =
      released KTimer 5 (sample_timers\<lparr>t_user := 3\<rparr>) \<and>
    Timer_Do (quiet (\<lambda>f t x. x + int f)) 5 (Timer_Cancel 5 sample_timers) =
      released KTimer 5 (sample_timers\<lparr>t_user := 2\<rparr>)"
  using timer_runs_once [of sample_timers 5 "\<lambda>f t x. x + int f"]
  by (simp add: sample_timers_def sample_timer_def IsActive_def opt_act_def timer_act_def)

text \<open>
  On a sorted slice \<^verbatim>\<open>BiSearch\<close> finds the value if it is there; otherwise it answers with the
  neighbour the matching rule asks for, or -1.
\<close>

theorem bisearch_spec:
  assumes "sorted (map get xs)" "xs \<noteq> []"
  shows "(\<exists>m < length xs. get (xs ! m) = v \<and> (\<forall>matchUp. BiSearch get xs v matchUp = Inr (int m))) \<or>
    (\<exists>g \<le> length xs. (\<forall>k < g. get (xs ! k) < v) \<and> (\<forall>k. g \<le> k \<and> k < length xs \<longrightarrow> v < get (xs ! k)) \<and>
       BiSearch get xs v 0 = Inr (- 1) \<and> BiSearch get xs v 1 = Inr (if g < length xs then int g else - 1) \<and>
       BiSearch get xs v (- 1) = Inr (int g - 1))"
  using assms by (cases rule: BiSearch_cases [of get xs v, consumes 2]) auto

theorem bisearch_spec_witness:
  "(\<exists>m < length [10, 20, 30 :: int]. id ([10, 20, 30 :: int] ! m) = 25 \<and>
      (\<forall>matchUp. BiSearch id [10, 20, 30] (25 :: int) matchUp = Inr (int m))) \<or>
    (\<exists>g \<le> length [10, 20, 30 :: int]. (\<forall>k < g. id ([10, 20, 30] ! k) < (25 :: int)) \<and>
       (\<forall>k. g \<le> k \<and> k < length [10, 20, 30 :: int] \<longrightarrow> 25 < id ([10, 20, 30 :: int] ! k)) \<and>
       BiSearch id [10, 20, 30] (25 :: int) 0 = Inr (- 1) \<and>
       BiSearch id [10, 20, 30] (25 :: int) 1 = Inr (if g < length [10, 20, 30 :: int] then int g else - 1) \<and>
       BiSearch id [10, 20, 30] (25 :: int) (- 1) = Inr (int g - 1))"
  by (rule bisearch_spec) simp_all

text \<open>
  A lookup in the memory window either appends consecutive messages from the first one that is not
  older than the number asked for, or reports that the window cannot answer, and then the number is
  not in it.
\<close>

theorem find_data_window:
  assumes "mq_inv mq" "seq_sorted (mq_list mq)" "0 \<le> limit" "limit < 2 ^ 30" "mq_list mq \<noteq> []"
  shows "\<exists>ys ret. MemoryQueue_FindData mq si limit dataQueue = Inr (dataQueue @ ys, ret) \<and>
    found_in (mq_list mq) si limit ys ret"
  by (rule MemoryQueue_FindData_ok [OF assms, of si dataQueue]) blast

theorem find_data_window_witness:
  "\<exists>ys ret. MemoryQueue_FindData sample_mq 6 10 [] = Inr ([] @ ys, ret) \<and>
    found_in (mq_list sample_mq) 6 10 ys ret"
  by (rule find_data_window [OF sample_mq_ok]) (simp_all add: sample_mq_list seq_sorted_def)

text \<open>
  \<^verbatim>\<open>Push\<close> appends the message to the window and drops the oldest one exactly when the ring is full.
\<close>

theorem memory_queue_keeps_newest:
  assumes "mq_inv mq"
  shows "\<exists>mq'. MemoryQueue_Push mq x = Inr mq' \<and> mq_inv mq' \<and>
    mq_list mq' = (if length (mq_list mq) + 1 < length (topicQueue mq) then mq_list mq @ [x]
                   else tl (mq_list mq @ [x]))"
  by (rule MemoryQueue_Push_ok [OF assms, of x]) blast

theorem memory_queue_keeps_newest_witness:
  "\<exists>mq'. MemoryQueue_Push sample_mq \<lparr>td_Seq = 9, td_RawData = []\<rparr> = Inr mq' \<and> mq_inv mq' \<and>
    mq_list mq' = (if length (mq_list sample_mq) + 1 < length (topicQueue sample_mq)
                   then mq_list sample_mq @ [\<lparr>td_Seq = 9, td_RawData = []\<rparr>]
                   else tl (mq_list sample_mq @ [\<lparr>td_Seq = 9, td_RawData = []\<rparr>]))"
  by (rule memory_queue_keeps_newest [OF sample_mq_ok])

text \<open>
  A stream that ends before the message is complete gives a read error, and the pool stays usable.
\<close>

theorem truncated_message_error:
  assumes "bytespool_inv s" "len_ok p (length d)" "length d \<le> unat (MaxReadMsgLen p)" "k < length (frame p d)"
  shows "\<exists>s'. MsgParser_Read (MakeBytes c) ReleaseBytes p s (take k (frame p d)) = Inr (Inl ReadErr, s') \<and>
    bytespool_inv s'"
  by (rule bp.read_truncated [OF assms])

theorem truncated_message_error_witness:
  "\<exists>s'. MsgParser_Read (MakeBytes None) ReleaseBytes sample_parser bytespool_init
      (take 4 (frame sample_parser [1, 2, 3])) = Inr (Inl ReadErr, s') \<and> bytespool_inv s'"
  by (rule truncated_message_error [OF bytespool_init_ok])
    (simp_all add: len_ok_def sample_parser_def frame_def)

text \<open>
  A buffer for \<open>n\<close> bytes has length \<open>n\<close>, and handing it back keeps the pool consistent.
\<close>

theorem pool_buffer_fits:
  assumes "bytespool_inv s" "0 \<le> n"
  shows "\<exists>b s1 r s2. MakeBytes choice s n = Inr (Some b, s1) \<and> sl_len b = nat n \<and> slice_ok b \<and>
    ReleaseBytes s1 b = Inr (r, s2) \<and> bytespool_inv s2"
proof -
  from bp.make_law [OF assms, of choice] obtain b s1 where b: "MakeBytes choice s n = Inr (Some b, s1)"
    "bytespool_inv s1" "sl_len b = nat n" "slice_ok b" "bucket_cap s1 (int (slice_cap b))" by blast
  from bp.release_law [OF b(2,5)] b show ?thesis by blast
qed

theorem pool_buffer_fits_witness:
  "\<exists>b s1 r s2. MakeBytes None bytespool_init 5000 = Inr (Some b, s1) \<and> sl_len b = 5000 \<and> slice_ok b \<and>
    ReleaseBytes s1 b = Inr (r, s2) \<and> bytespool_inv s2"
  using pool_buffer_fits [OF bytespool_init_ok, of 5000 None] by simp

text \<open>
  \<^verbatim>\<open>checkTTL\<close> takes out exactly the nodes whose last refresh is older than the time to live.
\<close>

theorem ttl_check_exact:
  assumes "ttl_inv ns"
  shows "ttl_inv (snd (checkTTL ns (\<lambda>_. now))) \<and>
    nodes (snd (checkTTL ns (\<lambda>_. now))) = filter (\<lambda>(_, r). now - r \<le> ns_ttl ns) (nodes ns) \<and>
    fst (checkTTL ns (\<lambda>_. now)) =
      (let old = filter (\<lambda>(_, r). now - r > ns_ttl ns) (nodes ns) in if old = [] then None else Some (map fst old))"
proof -
  have "(\<lambda>x. \<not> (case x of (_ :: string, r) \<Rightarrow> now - r > ns_ttl ns)) = (\<lambda>(_, r). now - r \<le> ns_ttl ns)"
    by (auto simp: fun_eq_iff)
  with checkTTL_ok [OF assms, of now] show ?thesis by (simp add: Let_def)
qed

theorem ttl_check_exact_witness:
  "ttl_inv (snd (checkTTL sample_nodes (\<lambda>_. 25))) \<and>
    nodes (snd (checkTTL sample_nodes (\<lambda>_. 25))) = [(''b'', 20)] \<and>
    fst (checkTTL sample_nodes (\<lambda>_. 25)) = Some [''a'']"
  using ttl_check_exact [OF sample_nodes_inv, of 25] by (simp add: nodes_def sample_nodes_def)

text \<open>
  A refreshed node stands once, last in the list, with the current time.
\<close>

theorem ttl_refresh_moves_back:
  assumes "ttl_inv ns" "\<forall>(_, t) \<in> set (ns_l ns). refreshTime t \<le> now"
  shows "ttl_inv (addAndRefreshNode ns now i) \<and>
    nodes (addAndRefreshNode ns now i) = filter (\<lambda>(n, _). n \<noteq> i) (nodes ns) @ [(i, now)] \<and>
    nodes (removeNode ns i) = filter (\<lambda>(n, _). n \<noteq> i) (nodes ns)"
  using addAndRefreshNode_ok [OF assms, of i] removeNode_ok [OF assms(1), of i] by simp

theorem ttl_refresh_moves_back_witness:
  "ttl_inv (addAndRefreshNode sample_nodes 30 ''a'') \<and>
    nodes (addAndRefreshNode sample_nodes 30 ''a'') = [(''b'', 20), (''a'', 30)] \<and>
    nodes (removeNode sample_nodes ''a'') = [(''b'', 20)]"
  using ttl_refresh_moves_back [OF sample_nodes_inv, of 30 "''a''"] by (simp add: sample_nodes_def nodes_def)

text \<open>
  A publish calls the subscribers of the topic once each, in the order they subscribed; a
  subscription adds one to one topic, and unsubscribing removes a key or a topic and nothing else.
\<close>

theorem publish_reaches_all:
  assumes "pub_inv pub" "topic \<noteq> 0" "SubscriberSet_get pub (keyID pub + 1) = None"
  shows "\<exists>pub'. Publisher_Subscribe pub topic sub = Inr (Some (keyID pub + 1), pub') \<and> pub_inv pub' \<and>
    (\<forall>t. subs pub' t = subs pub t @ (if t = topic then [(keyID pub + 1, sub)] else [])) \<and>
    Publisher_Publish (\<lambda>s p y. (p, y @ [s])) (length (subs pub' topic)) pub' topic [] =
      Some (lazyInit pub', map snd (subs pub topic) @ [sub]) \<and>
    subs (Publisher_UnSubscribeKey pub' k) topic = filter (\<lambda>(j, _). j \<noteq> k) (subs pub' topic) \<and>
    subs (Publisher_UnSubscribe pub' topic) topic = []"
proof -
  from Subscribe_ok [OF assms, of sub] obtain pub' where p:
    "Publisher_Subscribe pub topic sub = Inr (Some (keyID pub + 1), pub')" "pub_inv pub'"
    "\<And>t. subs pub' t = subs pub t @ (if t = topic then [(keyID pub + 1, sub)] else [])" by blast
  have "fold (\<lambda>s y. y @ [s]) ss y = y @ ss" for ss y :: "'a list" by (induction ss arbitrary: y) auto
  with Publish_quiet [OF p(2), of "\<lambda>s p y. (p, y @ [s])" "\<lambda>s y. y @ [s]" topic "length (subs pub' topic)" "[]"]
  show ?thesis using p UnSubscribeKey_ok(2) [OF p(2)] UnSubscribe_ok(2) [OF p(2)] by auto
qed

theorem publish_reaches_all_witness:
  "\<exists>pub'. Publisher_Subscribe (NewPublisher 7) 3 ''s'' = Inr (Some 8, pub') \<and> pub_inv pub' \<and>
    (\<forall>t. subs pub' t = [] @ (if t = 3 then [(8, ''s'')] else [])) \<and>
    Publisher_Publish (\<lambda>s p y. (p, y @ [s])) (length (subs pub' 3)) pub' 3 [] = Some (lazyInit pub', [''s'']) \<and>
    subs (Publisher_UnSubscribeKey pub' 8) 3 = filter (\<lambda>(j, _). j \<noteq> 8) (subs pub' 3) \<and>
    subs (Publisher_UnSubscribe pub' 3) 3 = []"
  using publish_reaches_all [of "NewPublisher 7" 3 "''s''" 8]
  unfolding new_publisher_state by (simp add: NewPublisher_inv cong: if_cong)

text \<open>
  Setting and clearing touch one flag. Reading returns the flag, except that with a signed element
  type the top bit of each word reads as false.
\<close>

theorem flags_set_get:
  fixes bs :: "'w::len word list"
  assumes "k < GetBitwiseNum bs" "l < GetBitwiseNum bs"
  shows "\<exists>bs1 bs2. SetBitwiseTag bs k = (True, bs1) \<and> ClearBitwiseTag bs k = (True, bs2) \<and>
    flag bs1 l = (l = k \<or> flag bs l) \<and> flag bs2 l = (l \<noteq> k \<and> flag bs l) \<and>
    GetBitwiseTag False bs1 l = Some (flag bs1 l) \<and>
    GetBitwiseTag True bs1 l = Some (flag bs1 l \<and> l mod LENGTH('w) \<noteq> LENGTH('w) - 1)"
proof -
  obtain bs1 where b1: "setBitTagByIndex bs k True = (True, bs1)" "length bs1 = length bs"
    "\<And>l. l < GetBitwiseNum bs \<Longrightarrow> flag bs1 l = (if l = k then True else flag bs l)"
    by (rule setBitTagByIndex_ok [OF assms(1), of True]) blast
  obtain bs2 where b2: "setBitTagByIndex bs k False = (True, bs2)"
    "\<And>l. l < GetBitwiseNum bs \<Longrightarrow> flag bs2 l = (if l = k then False else flag bs l)"
    by (rule setBitTagByIndex_ok [OF assms(1), of False]) blast
  have "l < GetBitwiseNum bs1" using assms(2) b1(2) by (simp add: GetBitwiseNum_def)
  with b1 b2 assms(2) show ?thesis
    by (auto simp: SetBitwiseTag_def ClearBitwiseTag_def GetBitwiseTag_ok)
qed

theorem flags_set_get_witness:
  "\<exists>bs1 bs2. SetBitwiseTag [0, 0 :: 8 word] 9 = (True, bs1) \<and> ClearBitwiseTag [0, 0 :: 8 word] 9 = (True, bs2) \<and>
    flag bs1 15 = ((15::nat) = 9 \<or> flag [0, 0 :: 8 word] 15) \<and> flag bs2 15 = ((15::nat) \<noteq> 9 \<and> flag [0, 0 :: 8 word] 15) \<and>
    GetBitwiseTag False bs1 15 = Some (flag bs1 15) \<and>
    GetBitwiseTag True bs1 15 = Some (flag bs1 15 \<and> (15::nat) mod 8 \<noteq> 8 - 1)"
  using flags_set_get [of 9 "[0, 0 :: 8 word]" 15] by (simp add: GetBitwiseNum_def)

text \<open>
  \<^verbatim>\<open>AddSafe\<close> and \<^verbatim>\<open>SubSafe\<close> detect overflow exactly; \<^verbatim>\<open>MulSafe\<close> reports success always.
\<close>

theorem safe_arithmetic:
  assumes "0 < w" "num_range sg w a" "num_range sg w b"
  shows "AddSafe sg w a b = (num_wrap sg w (a + b), num_range sg w (a + b)) \<and>
    SubSafe sg w a b = (num_wrap sg w (a - b), num_range sg w (a - b)) \<and>
    MulSafe sg w a b = (num_wrap sg w (a * b), True)"
  using AddSafe_ok [OF assms] SubSafe_ok [OF assms] by (simp add: MulSafe_ok)

theorem safe_arithmetic_witness:
  "AddSafe True 8 100 100 = (num_wrap True 8 200, num_range True 8 200) \<and>
    SubSafe True 8 100 100 = (num_wrap True 8 0, num_range True 8 0) \<and>
    MulSafe True 8 100 100 = (num_wrap True 8 10000, True)"
  using safe_arithmetic [of 8 True 100 100] by (simp add: num_range_def)

text \<open>
  Sequence numbers do not repeat within \<open>2 ^ 64\<close> calls of \<^verbatim>\<open>generateSeq\<close>.
\<close>

theorem sequence_numbers_fresh:
  assumes "n \<le> 2 ^ 64"
  shows "distinct (generate_seqs n cs) \<and> length (generate_seqs n cs) = n"
  using generate_seqs_distinct [OF assms] by simp

theorem sequence_numbers_fresh_witness:
  "distinct (generate_seqs 3 sample_calls) \<and> length (generate_seqs 3 sample_calls) = 3"
  by (rule sequence_numbers_fresh) simp

text \<open>
  The pool hands out only objects that are not in use, and freeing an object twice is caught.
\<close>

theorem double_free_detected:
  assumes "poolex_inv p" "fresh \<notin> set (po_free p)" "\<not> po_ref p fresh"
  shows "\<exists>d p1 p2. PoolEx_Get choice fresh p = Inr (d, p1) \<and> \<not> po_ref p d \<and> d \<notin> set (po_free p1) \<and>
    PoolEx_Put p1 d = Inr p2 \<and> poolex_inv p2 \<and> PoolEx_Put p2 d = Inl (PanicMsg ''Repeatedly freeing memory'')"
proof -
  obtain d p1 where p1: "PoolEx_Get choice fresh p = Inr (d, p1)" "poolex_inv p1" "\<not> po_ref p d" "po_ref p1 d"
    "d \<notin> set (po_free p1)" by (rule PoolEx_Get_ok [OF assms])
  with PoolEx_Put_ok [OF p1(2), of d] show ?thesis by auto
qed

theorem double_free_detected_witness:
  "\<exists>d p1 p2. PoolEx_Get (Some 0) 5 \<lparr>po_ref = (\<lambda>_. False), po_free = [2]\<rparr> = Inr (d, p1) \<and>
    \<not> po_ref \<lparr>po_ref = (\<lambda>_. False), po_free = [2]\<rparr> d \<and> d \<notin> set (po_free p1) \<and>
    PoolEx_Put p1 d = Inr p2 \<and> poolex_inv p2 \<and> PoolEx_Put p2 d = Inl (PanicMsg ''Repeatedly freeing memory'')"
  by (rule double_free_detected) (simp_all add: poolex_inv_def)

text \<open>
  The depth bound of the model is not part of the behaviour: two bounds under which a node execution
  returns give the same outcome and the same state.
\<close>

theorem fuel_irrelevant:
  assumes "execNode_Do E tab n nid args s = Some r" "execNode_Do E tab n' nid args s = Some r'"
  shows "r = r'"
proof (cases "n \<le> n'")
  case True
  with Do_more_fuel [OF assms(1)] assms(2) show ?thesis by simp
next
  case False
  with Do_more_fuel [OF assms(2), of n] assms(1) show ?thesis by simp
qed

theorem fuel_irrelevant_witness:
  "(RPanic NilDereference :: unit ores, enter sample_graph zero_world) = (RPanic NilDereference, enter sample_graph zero_world)"
  by (rule fuel_irrelevant [where E = sample_env and tab = Map.empty and n = 4 and n' = 7 and nid = "''x''" and args = "[]"
      and s = "enter sample_graph zero_world"]) (simp_all add: Do_numeral Do_body_def act_defs)

text \<open>
  From configuration to result: the loader turns \<open>sample_config\<close> into a graph, and the entrance of that
  graph, run on any two integers, returns their 64-bit sum.
\<close>

theorem sample_graph_adds:
  "prepareOneEntrance 257 sample_gpool ''g'' 1 (sample_node ''e'' ''Entrance_IntParam_1'') sample_config
     = Some (ROk (), sample_gpool') \<and>
   GraphPool_Create sample_gpool' ''g'' 1 = Some sample_graph \<and>
   map_option fst (Graph_Do sample_env 4 1 [AInt KInt64 a, AInt KInt64 b] (enter sample_graph zero_world)) =
     Some (Some [\<lparr>IntVal = wrap64 (a + b), StrVal = []\<rparr>], None)"
  by (simp only: sample_accepted sample_runs)
    (simp add: GraphPool_Create_def sample_gpool'_def sample_gpool_def sample_graph_def)

text \<open>
  Following the execution lines ends on every configuration and table, because the counter stops it: the
  model's fuel of 257 is never used up.
\<close>

theorem loader_terminates: "prepareOneNode em cfg 257 nid tab 0 \<noteq> None"
  by (rule prepareOneNode_total) simp_all

text \<open>
  A node without execution line whose first data input is one of its own outputs has no outcome under any
  bound: the execution recurses for ever.
\<close>

theorem data_cycle_diverges:
  assumes "tab nid = Some en" "en_Id en = nid" "\<not> beConnect en" "\<not> isEntrance en"
    and "execs E (en_execNode en) = Some inner" "inPort inner = Some p # ps" "\<not> Port_IsPortExec p"
    and "preInPort en = Some (nid, i) # qs"
  shows "execNode_Do E tab n nid [] s = None"
  using assms by (intro self_cycle_runs_forever) (auto simp: pure_def)

theorem data_cycle_diverges_witness:
  "execNode_Do sample_env
     [''a'' \<mapsto> \<lparr>en_Id = ''a'', en_execNode = ''AddInt'', nextNode = [], nextIdx = 0,
        preInPort = [Some (''a'', 0), None], inPortDefaultValue = Map.empty, variableName = [],
        beConnect = False, isEntrance = False\<rparr>] 1000 ''a'' [] (enter sample_graph zero_world) = None"
  by (rule data_cycle_diverges [where p = "Port_Int 0"])
    (auto simp: sample_env_def sample_execs_get sample_class_def zero_innerExecNode_def)

text \<open>
  An integer argument stored into a string port is printed in decimal; that text stored into an integer
  port gives the integer back.
\<close>

theorem int_port_string_roundtrip:
  assumes "in_int64 v"
  shows "\<exists>t. setAnyVale pf (Port_Str u) (AInt KInt64 v) = (None, Port_Str t) \<and>
    setAnyVale pf (Port_Int i) (AStr t) = (None, Port_Int v)"
  using assms by (simp add: Atoi_Itoa)

theorem int_port_string_roundtrip_witness:
  "\<exists>t. setAnyVale (\<lambda>_. None) (Port_Str []) (AInt KInt64 (- 9223372036854775808)) = (None, Port_Str t) \<and>
    setAnyVale (\<lambda>_. None) (Port_Int 0) (AStr t) = (None, Port_Int (- 9223372036854775808))"
  by (rule int_port_string_roundtrip) (simp add: in_int64_def)

text \<open>
  On an integer input \<open>v\<close> and a table of branches, \<^verbatim>\<open>RangeCompare\<close> takes the first entry not below \<open>v\<close> and
  \<^verbatim>\<open>EqualSwitch\<close> the first equal to it; branch 0 is taken when there is none or the node has no port for it.
\<close>

theorem switch_nodes:
  assumes "GetInPort c 1 = Some (Port_Int v)" "GetInPortDefaultIntArrayValue en 2 = Inr vs" "vs \<noteq> []"
  shows "RangeCompare_Exec en inner c = (ROk (case find (\<lambda>k. v \<le> vs ! k) [0..<length vs] of None \<Rightarrow> 0
      | Some k \<Rightarrow> if int k < GetOutPortCount inner - 2 then int k + 2 else 0), c) \<and>
    EqualSwitch_Exec en inner c = (ROk (case find (\<lambda>k. v = vs ! k) [0..<length vs] of None \<Rightarrow> 0
      | Some k \<Rightarrow> if int k < GetOutPortCount inner - 2 then int k + 2 else 0), c)"
  using assms
  by (simp add: RangeCompare_Exec_def EqualSwitch_Exec_def nd_defs switch_loop_spec [where i = 0, unfolded add_0])

theorem switch_nodes_witness:
  "EqualSwitch_Exec ((the (sample_tab ''a''))\<lparr>inPortDefaultValue := [''2'' \<mapsto> AAnySlice [AFloat (FNum 7)]]\<rparr>)
     (sample_class ''EqualSwitch'' [] [Port_Exec, Port_Exec, Port_Exec])
     \<lparr>InputPorts = [None, Some (Port_Int 7)], OutputPorts = []\<rparr> = (ROk 2, \<lparr>InputPorts = [None, Some (Port_Int 7)], OutputPorts = []\<rparr>)"
proof -
  have k: "Itoa 2 = ''2''" by code_simp
  show ?thesis
    by (subst switch_nodes [where v = 7 and vs = "[7]", THEN conjunct2])
      (simp_all add: GetInPort_def port_at_def GetInPortDefaultIntArrayValue_def GetInPortDefaultValue_def k
        sample_tab_def int64_of_f64_def GetOutPortCount_def sample_class_def zero_innerExecNode_def)
qed

text \<open>
  A class created from a configuration whose port numbers are dense: no port is nil, the questions whether
  a port is an execution port have an answer, and no data output precedes an execution output.
\<close>

theorem class_ports_well_formed:
  assumes "createExecFromJSON (sort_config cfg) = ROk b" "port_numbers_dense (sort_config cfg)"
  shows "exec_first (outPort b) \<and> (\<exists>r. IsInPortExec b i = Inr r) \<and> (\<exists>r. IsOutPortExec b i = Inr r)"
  using createExec_no_nil [OF assms] createExec_exec_first [OF assms(1)] port_is_exec_ok
  by (simp add: IsInPortExec_def IsOutPortExec_def)

theorem class_ports_well_formed_witness:
  "\<exists>b r. createExecFromJSON (sort_config \<lparr>bc_Name = ''N'', bc_Title = [], bc_Package = [], bc_Description = [],
       bc_Inputs = [\<lparr>ic_Name = [], ic_PortType = ''exec'', ic_DataType = [], ic_PortId = 0\<rparr>], bc_Outputs = []\<rparr>) = ROk b \<and>
     IsInPortExec b 5 = Inr r"
proof -
  let ?cfg = "\<lparr>bc_Name = ''N'', bc_Title = [], bc_Package = [], bc_Description = [],
       bc_Inputs = [\<lparr>ic_Name = [], ic_PortType = ''exec'', ic_DataType = [], ic_PortId = 0\<rparr>], bc_Outputs = []\<rparr>"
  have s: "sort_config ?cfg = ?cfg" by (simp add: sort_config_def)
  have l: "ToLower ''exec'' = ''exec''" by code_simp
  have e: "getEntranceNodeNameAndID ''N'' = None" by code_simp
  obtain b where b: "createExecFromJSON ?cfg = ROk b"
    by (simp add: createExecFromJSON_def PrepareMaxInPortId_def PrepareMaxOutPortId_def GetMaxInPortId_def
        GetMaxOutPortId_def go_make_def l e)
  have "port_numbers_dense ?cfg"
    by (auto simp: port_numbers_dense_def GetMaxInPortId_def GetMaxOutPortId_def)
  with class_ports_well_formed [of ?cfg b 5] b show ?thesis by (auto simp: s)
qed

text \<open>
  Nothing makes the map of timer ids (the manager's invariant has it nil in every graph), so a
  \<^verbatim>\<open>CreateTimer\<close> node panics on storing into it, after its timer has been started.
\<close>

theorem create_timer_never_succeeds:
  assumes "mapTimerID s = None" "bound s cls = Some (a, nid)"
    and "GetInPort (ctxs s ! a) 0 = Some (Port_Int delay)" "GetInPort (ctxs s ! a) 1 = Some (Port_Array xs)"
  shows "\<exists>s'. CreateTimer_Exec E cls s = Some (RPanic NilMapWrite, s') \<and>
    events s' = events s @ [EvSafeAfterFunc (timerIds E (timerCount s)) (wrap64 (delay * 1000000)) (graphID s) xs]"
  using assms by (rule CreateTimer_starts_then_panics)

theorem create_timer_never_succeeds_witness:
  "\<exists>s'. CreateTimer_Exec sample_env ''CreateTimer'' (enter sample_graph (zero_world\<lparr>w_bound := [''CreateTimer'' \<mapsto> (0, ''t'')],
       w_ctxs := [\<lparr>InputPorts = [Some (Port_Int 5), Some (Port_Array [])], OutputPorts = []\<rparr>]\<rparr>)) =
     Some (RPanic NilMapWrite, s')"
  using create_timer_never_succeeds [of "enter sample_graph (zero_world\<lparr>w_bound := [''CreateTimer'' \<mapsto> (0, ''t'')],
       w_ctxs := [\<lparr>InputPorts = [Some (Port_Int 5), Some (Port_Array [])], OutputPorts = []\<rparr>]\<rparr>)" "''CreateTimer''" 0 "''t''" 5 "[]" sample_env]
  by (auto simp: sample_graph_def GetInPort_def port_at_def)

text \<open>
  While the pool is open, no step lowers the number of workers: the timer of the dispatcher is not armed again after
  its first firing, and the first firing only notes that the dispatcher was idle.
\<close>

theorem workers_never_shrink:
  assumes "creach mn mx k s" "cstep l s s'" "\<not> co_cancelled s'"
  shows "workerNum s \<le> workerNum s'"
  using cstep_timer [OF assms(2) creach_cinv [OF assms(1)] creach_timer [OF assms(1)] assms(3)] by simp

theorem workers_never_shrink_witness:
  "workerNum (sample_pool\<lparr>co_tasks := [sample_task], co_submitted := [sample_task]\<rparr>) \<le>
   workerNum (sample_pool\<lparr>co_tasks := [sample_task], co_submitted := [sample_task], co_pc := DSel\<rparr>)"
  by (rule workers_never_shrink [OF sample_pool_reach, of LDisp])
    (auto simp: sample_pool_def dispatch_open_def zeroConcurrent_def cstep.simps)

text \<open>
  \<^verbatim>\<open>SafeAfterFunc\<close> sets up a timer for \<open>now + d\<close> under a fresh id (\<open>started\<close>); \<^verbatim>\<open>CancelTimerId\<close> with that id reports success and
  clears the caller's variable; and when the cancelled timer's turn comes it runs no callback, is taken out of both maps
  of the module and goes back to the pool.
\<close>

theorem module_timer_lifecycle:
  assumes "timer_inv w" "t \<notin> set (timers w)" "few_timers n m w" "md_dispatcher (md w m) = Some chn" "GetModuleId w m \<noteq> 0"
  shows "\<exists>i w'. SafeAfterFunc app n None t now m 0 d dat cb w = Some (Inr (i, w')) \<and>
    started m i t (now + d) (Some (close_cb m)) w w' \<and> CancelTimerId m (Some i) w' = (True, Some 0, Timer_Cancel t w') \<and>
    (\<exists>w''. Timer_Do (mod_run app) t (Timer_Cancel t w') = released KTimer t w'' \<and> rd (mapActiveIdTimer (md w'' m)) i = None \<and>
      (\<forall>S. mapActiveTimer (md w'' m) = Some S \<longrightarrow> t \<notin> S))"
proof (rule SafeAfterFunc_started [OF assms(1-4), of app now d dat cb])
  fix seed w'
  let ?i = "timer_id (GetModuleId w m) seed"
  assume s: "SafeAfterFunc app n None t now m 0 d dat cb w = Some (Inr (?i, w'))" "started m ?i t (now + d) (Some (close_cb m)) w w'"
  have "?i \<noteq> 0" using timer_id_inj [of "GetModuleId w m" seed 0 0] assms(5) by (simp add: timer_id_def)
  with s(2) have c: "CancelTimerId m (Some ?i) w' = (True, Some 0, Timer_Cancel t w')" by (rule CancelTimerId_started)
  have d: "Timer_Do (mod_run app) t (Timer_Cancel t w') = released KTimer t (OnCloseTimer m t (Timer_Cancel t w'))"
    by (rule cancelled_timer_closes) (use s(2) in \<open>simp_all add: started_def IsActive_def Timer_Cancel_def upd_timer_def\<close>)
  have "rd (mapActiveIdTimer (md (OnCloseTimer m t (Timer_Cancel t w')) m)) ?i = None"
    "\<forall>S. mapActiveTimer (md (OnCloseTimer m t (Timer_Cancel t w')) m) = Some S \<longrightarrow> t \<notin> S"
    using s(2) by (auto simp: OnCloseTimer_def Timer_Cancel_def started_def upd_timer_def rd_def split: option.splits)
  with s c d show ?thesis by blast
qed

theorem module_timer_lifecycle_witness:
  "\<exists>i w'. SafeAfterFunc (\<lambda>f t w. (w, True)) 1 None 4 100 1 0 50 0 0 sample_msys = Some (Inr (i, w')) \<and>
    fst (CancelTimerId 1 (Some i) w')"
  using module_timer_lifecycle [of sample_msys 4 1 1 0 "\<lambda>f t w. (w, True)" 100 50 0 0]
  by (auto simp: few_timers_def rd_def)

end
